(* ===== verification/RSL_Prelude.thy ===== *)
theory RSL_Prelude
  imports Main "HOL-Library.Word" "HOL-Library.Char_ord" "HOL-Library.List_Lexorder"
begin

text \<open>
  Shared vocabulary of the development: the machine integer types of the C++
  sources (UInt8, UInt16, UInt32, UInt64 of basic_types.h) as words, the
  outcome of code that may stop the process (a failed \<^verbatim>\<open>LogAssert\<close>) or leave
  its buffer (undefined behaviour), sequential composition of such code, and
  the little-endian byte lemmas every wire and disk format rests on.
\<close>

unbundle bit_operations_syntax

section \<open>Types\<close>

type_synonym u8 = "8 word"
type_synonym u16 = "16 word"
type_synonym u32 = "32 word"
type_synonym u64 = "64 word"

text \<open>
  How execution can fail to continue: a failed \<^verbatim>\<open>LogAssert\<close> (the process
  aborts), an access outside an allocated buffer (undefined behaviour of the
  C++ program), a call of ShutDown (which does not return), or a loop that has
  not ended after the given number of rounds.
\<close>
datatype fault = AssertFailed | OutOfBounds | ShutDownCalled | OutOfFuel

type_synonym 'a res = "fault + 'a"

named_theorems rsl_simps \<open>evaluation rules of the operations\<close>
named_theorems rsl_intros \<open>composition rules of readers and writers\<close>

section \<open>Sequencing\<close>

definition bindE :: "'a res \<Rightarrow> ('a \<Rightarrow> 'b res) \<Rightarrow> 'b res" where
  "bindE r f = (case r of Inl e \<Rightarrow> Inl e | Inr x \<Rightarrow> f x)"

definition log_assert :: "bool \<Rightarrow> 'a \<Rightarrow> 'a res" where
  "log_assert b x = (if b then Inr x else Inl AssertFailed)"

lemma bindE_simps [simp]:
  "bindE (Inr x) f = f x"
  "bindE (Inl e) f = Inl e"
  by (simp_all add: bindE_def)

lemma bindE_eq_Inr:
  "bindE r f = Inr y \<longleftrightarrow> (\<exists>x. r = Inr x \<and> f x = Inr y)"
  by (cases r) auto

lemma bindE_assoc: "bindE (bindE r f) g = bindE r (\<lambda>x. bindE (f x) g)"
  by (cases r) auto

lemma log_assert_simps [simp]:
  "b \<Longrightarrow> log_assert b x = Inr x"
  "\<not> b \<Longrightarrow> log_assert b x = Inl AssertFailed"
  by (simp_all add: log_assert_def)

lemma log_assert_eq_Inr [simp]: "log_assert b x = Inr y \<longleftrightarrow> b \<and> x = y"
  by (simp add: log_assert_def)

section \<open>Words\<close>

lemma unat_add_no_wrap:
  fixes a b :: "'a::len word"
  assumes "unat a + unat b < 2 ^ LENGTH('a)"
  shows "unat (a + b) = unat a + unat b"
  using assms by (simp add: unat_word_ariths)

lemma word_less_inc:
  fixes d :: "'a::len word"
  shows "d + 1 \<noteq> 0 \<Longrightarrow> d < d + 1"
  using unatSuc [of d] by (simp add: word_less_nat_alt add.commute)

lemma sint_eq_unat:
  fixes w :: u32
  assumes "unat w < 2 ^ 31"
  shows "sint w = int (unat w)"
proof -
  have "uint w < 2 ^ 31" using assms
    by (metis of_nat_less_iff of_nat_numeral of_nat_power of_nat_unat)
  then have "\<not> bit (uint w) 31"
    by (metis bit_take_bit_iff less_irrefl take_bit_int_eq_self uint_ge_0)
  then show ?thesis
    using \<open>uint w < 2 ^ 31\<close> by (simp add: sint_uint signed_take_bit_eq_if_positive
        take_bit_int_eq_self)
qed

section \<open>Little-endian bytes\<close>

definition byte_of :: "nat \<Rightarrow> 'a::len word \<Rightarrow> u8" where
  "byte_of i v = ucast (drop_bit (8 * i) v AND 0xff)"

definition le_bytes :: "nat \<Rightarrow> 'a::len word \<Rightarrow> u8 list" where
  "le_bytes n v = map (\<lambda>i. byte_of i v) [0..<n]"

fun of_le :: "u8 list \<Rightarrow> 'a::len word" where
  "of_le [] = 0"
| "of_le (b # bs) = ucast b OR push_bit 8 (of_le bs)"

lemma and_0xff: "x AND 0xff = take_bit 8 (x :: 'a::len word)"
proof -
  have "(0xff :: 'a word) = mask 8" by (simp add: mask_eq_exp_minus_1)
  then show ?thesis by (simp add: take_bit_eq_mask)
qed

lemma bit_byte_of: "bit (byte_of i (v::'a::len word)) n \<longleftrightarrow> n < 8 \<and> bit v (8 * i + n)"
  unfolding byte_of_def and_0xff
  by (auto simp: bit_simps dest: bit_imp_le_length)

lemma bit_of_le:
  "bit (of_le bs :: 'a::len word) n \<longleftrightarrow> n < LENGTH('a) \<and> n div 8 < length bs \<and> bit (bs ! (n div 8)) (n mod 8)"
proof (induction bs arbitrary: n)
  case Nil then show ?case by simp
next
  case (Cons b bs)
  show ?case
  proof (cases "n < 8")
    case True then show ?thesis by (auto simp: bit_simps dest: bit_imp_le_length)
  next
    case False
    then have "\<not> bit b n" using bit_imp_le_length by fastforce
    moreover obtain k where k: "n = k + 8" using False by (metis add.commute le_Suc_ex not_less)
    moreover have "(k + 8) div 8 = Suc (k div 8)" by simp
    ultimately show ?thesis by (auto simp: bit_simps Cons dest: bit_imp_le_length)
  qed
qed

lemma of_le_le_bytes: "8 * n = LENGTH('a) \<Longrightarrow> of_le (le_bytes n (v::'a::len word)) = v"
  by (rule bit_word_eqI) (auto simp: bit_of_le le_bytes_def bit_byte_of)

lemma le_bytes_of_le: "length bs = n \<Longrightarrow> 8 * n = LENGTH('a) \<Longrightarrow> le_bytes n (of_le bs :: 'a::len word) = bs"
  by (rule nth_equalityI) (auto simp: le_bytes_def intro!: bit_word_eqI simp: bit_byte_of bit_of_le)

lemma of_le4: "of_le [a,b,c,d] = (push_bit 0 (ucast a) OR push_bit 8 (ucast b) OR push_bit 16 (ucast c) OR push_bit 24 (ucast d) :: u32)"
  by (simp add: push_bit_or)
lemma of_le2: "of_le [a,b] = (push_bit 0 (ucast a) OR push_bit 8 (ucast b) :: u16)"
  by (simp)
lemma of_le8: "of_le [a,b,c,d,e,f,g,h] = (push_bit 0 (ucast a) OR push_bit 8 (ucast b) OR push_bit 16 (ucast c) OR push_bit 24 (ucast d) OR push_bit 32 (ucast e) OR push_bit 40 (ucast f) OR push_bit 48 (ucast g) OR push_bit 56 (ucast h) :: u64)"
  by (simp add: push_bit_or)
lemma len_le_bytes [simp]: "length (le_bytes n v) = n" by (simp add: le_bytes_def)

end
