(* ===== verification/Marshal.thy ===== *)
theory Marshal
  imports RSL_Prelude
begin

text \<open>
  The marshalling buffer (src/src/common/src/marshal.cpp): the two memory
  managers, the MarshalData reads and writes with their 32-bit pointer
  arithmetic, and the calculus of readers and writers (\<^verbatim>\<open>reads\<close>, \<^verbatim>\<open>writes\<close>)
  the message formats are verified with.  The heap block behind the buffer is a
  function from offsets to bytes; its bytes past the valid length are whatever
  the allocator left there, and an access at or past m_bufferLength is the
  fault OutOfBounds.  Allocation is taken to succeed.
\<close>

section \<open>Memory managers\<close>

datatype mm_kind = StandardMM | FixedMM

record memory_manager =
  mm_kind :: mm_kind
  m_bufferLength :: u32
  m_buffer :: "nat \<Rightarrow> u8"
  m_readPointer :: u32
  m_validLength :: u32

definition s_DefaultBufferSize :: u32 where
  "s_DefaultBufferSize = 32"

definition StandardMarshalMemoryManager :: "(nat \<Rightarrow> u8) \<Rightarrow> u32 \<Rightarrow> memory_manager" where
  "StandardMarshalMemoryManager heap initialBufferSize =
     \<lparr>mm_kind = StandardMM, m_bufferLength = initialBufferSize, m_buffer = heap,
      m_readPointer = 0, m_validLength = 0\<rparr>"

definition FixedMarshalMemoryManager :: "(nat \<Rightarrow> u8) \<Rightarrow> u32 \<Rightarrow> memory_manager" where
  "FixedMarshalMemoryManager buffer bufferLength =
     \<lparr>mm_kind = FixedMM, m_bufferLength = bufferLength, m_buffer = buffer,
      m_readPointer = 0, m_validLength = 0\<rparr>"

text \<open>The number of left shifts that clear a word; it bounds the rounding loop.\<close>
definition shifts_to_zero :: "u32 \<Rightarrow> nat" where
  "shifts_to_zero r = (LEAST n. push_bit n r = 0)"

lemma shifts_to_zero_push:
  assumes "r \<noteq> (0 :: u32)"
  shows "shifts_to_zero (push_bit 1 r) < shifts_to_zero r"
proof -
  let ?P = "\<lambda>n. push_bit n r = 0"
  have "?P 32" by (rule bit_word_eqI) (simp add: bit_simps)
  then have P: "?P (LEAST n. ?P n)" by (rule LeastI)
  have "(LEAST n. ?P n) \<noteq> 0"
  proof
    assume "(LEAST n. ?P n) = 0"
    with P have "push_bit 0 r = 0" by (simp only:)
    with assms show False by simp
  qed
  then obtain m where m: "(LEAST n. ?P n) = Suc m" by (rule not0_implies_Suc [THEN exE])
  with P have "push_bit m (push_bit 1 r) = 0" by (simp add: push_bit_push_bit)
  then have "shifts_to_zero (push_bit 1 r) \<le> m"
    unfolding shifts_to_zero_def by (rule Least_le)
  with m show ?thesis by (simp add: shifts_to_zero_def)
qed

function round_length :: "u32 \<Rightarrow> u32 \<Rightarrow> u32" where
  "round_length roundedLength len =
     (if roundedLength \<noteq> 0 \<and> roundedLength < len
      then round_length (push_bit 1 roundedLength) len
      else roundedLength)"
  by pat_completeness auto
termination
proof (relation "measure (\<lambda>(r, _). shifts_to_zero r)", goal_cases)
  case 1
  show ?case by simp
next
  case (2 r len)
  then have "shifts_to_zero (push_bit 1 r) < shifts_to_zero r"
    using shifts_to_zero_push by blast
  then show ?case by (simp only: in_measure case_prod_conv)
qed

declare round_length.simps [simp del]

definition Standard_ResizeBuffer :: "u32 \<Rightarrow> memory_manager \<Rightarrow> memory_manager res" where
  "Standard_ResizeBuffer len mm =
     (if len > m_bufferLength mm
      then let roundedLength = round_length 1 len;
               roundedLength = (if roundedLength = 0 then len else roundedLength)
           in Inr (mm\<lparr>m_bufferLength := roundedLength\<rparr>)
      else Inr mm)"

definition Standard_EnsureBuffer :: "u32 \<Rightarrow> u32 \<Rightarrow> memory_manager \<Rightarrow> memory_manager res" where
  "Standard_EnsureBuffer writePtr lengthDelta mm =
     (let newLen = writePtr + lengthDelta
      in if newLen > m_bufferLength mm then Standard_ResizeBuffer newLen mm else Inr mm)"

definition Fixed_EnsureBuffer :: "u32 \<Rightarrow> u32 \<Rightarrow> memory_manager \<Rightarrow> memory_manager res" where
  "Fixed_EnsureBuffer writePtr lengthDelta mm =
     log_assert (writePtr + lengthDelta \<le> m_bufferLength mm) mm"

definition Fixed_ResizeBuffer :: "u32 \<Rightarrow> memory_manager \<Rightarrow> memory_manager res" where
  "Fixed_ResizeBuffer len mm = log_assert (len \<le> m_bufferLength mm) mm"

text \<open>SetReadPointer and SetValidLength have the same body in both managers.\<close>
definition MM_SetReadPointer :: "u32 \<Rightarrow> memory_manager \<Rightarrow> memory_manager res" where
  "MM_SetReadPointer readPointer mm =
     log_assert (readPointer \<le> m_validLength mm) (mm\<lparr>m_readPointer := readPointer\<rparr>)"

definition MM_SetValidLength :: "u32 \<Rightarrow> memory_manager \<Rightarrow> memory_manager res" where
  "MM_SetValidLength validLength mm =
     log_assert (validLength \<le> m_bufferLength mm)
       (let mm = mm\<lparr>m_validLength := validLength\<rparr>
        in if m_readPointer mm > validLength then mm\<lparr>m_readPointer := 0\<rparr> else mm)"

text \<open>The virtual calls of IMarshalMemoryManager, resolved by the dynamic type.\<close>
definition MM_EnsureBuffer :: "u32 \<Rightarrow> u32 \<Rightarrow> memory_manager \<Rightarrow> memory_manager res" where
  "MM_EnsureBuffer writePtr lengthDelta mm =
     (case mm_kind mm of
        StandardMM \<Rightarrow> Standard_EnsureBuffer writePtr lengthDelta mm
      | FixedMM \<Rightarrow> Fixed_EnsureBuffer writePtr lengthDelta mm)"

definition MM_ResizeBuffer :: "u32 \<Rightarrow> memory_manager \<Rightarrow> memory_manager res" where
  "MM_ResizeBuffer len mm =
     (case mm_kind mm of
        StandardMM \<Rightarrow> Standard_ResizeBuffer len mm
      | FixedMM \<Rightarrow> Fixed_ResizeBuffer len mm)"

text \<open>Stores and loads through the raw buffer pointer, at a signed offset.\<close>
fun store :: "int \<Rightarrow> u8 list \<Rightarrow> memory_manager \<Rightarrow> memory_manager res" where
  "store i [] mm = Inr mm"
| "store i (b # bs) mm =
     (if 0 \<le> i \<and> i < uint (m_bufferLength mm)
      then store (i + 1) bs (mm\<lparr>m_buffer := (m_buffer mm)(nat i := b)\<rparr>)
      else Inl OutOfBounds)"

definition load :: "nat \<Rightarrow> nat \<Rightarrow> memory_manager \<Rightarrow> u8 list res" where
  "load off n mm =
     (if n = 0 \<or> off + n \<le> unat (m_bufferLength mm)
      then Inr (map (m_buffer mm) [off..<off + n])
      else Inl OutOfBounds)"

definition mm_ok :: "memory_manager \<Rightarrow> bool" where
  "mm_ok mm \<longleftrightarrow> m_readPointer mm \<le> m_validLength mm \<and> m_validLength mm \<le> m_bufferLength mm"

definition mm_contents :: "memory_manager \<Rightarrow> u8 list" where
  "mm_contents mm = map (m_buffer mm) [0..<unat (m_validLength mm)]"

definition mm_limit :: "memory_manager \<Rightarrow> nat" where
  "mm_limit mm = (case mm_kind mm of StandardMM \<Rightarrow> 2 ^ 32 - 1 | FixedMM \<Rightarrow> unat (m_bufferLength mm))"


lemmas mm_call_defs =
  Standard_ResizeBuffer_def Standard_EnsureBuffer_def Fixed_EnsureBuffer_def
  Fixed_ResizeBuffer_def MM_EnsureBuffer_def MM_ResizeBuffer_def

definition blit :: "(nat \<Rightarrow> u8) \<Rightarrow> nat \<Rightarrow> u8 list \<Rightarrow> nat \<Rightarrow> u8" where
  "blit mem off bs = (\<lambda>k. if off \<le> k \<and> k < off + length bs then bs ! (k - off) else mem k)"

lemma blit_Nil [simp]: "blit mem off [] = mem"
  by (auto simp: blit_def fun_eq_iff)

lemma blit_Cons: "blit (mem(off := b)) (Suc off) bs = blit mem off (b # bs)"
  by (auto simp: blit_def fun_eq_iff nth_Cons' not_le less_Suc_eq_le)

lemma store_blit:
  "off + length bs \<le> unat (m_bufferLength mm) \<Longrightarrow>
   store (int off) bs mm = Inr (mm\<lparr>m_buffer := blit (m_buffer mm) off bs\<rparr>)"
proof (induction bs arbitrary: off mm)
  case Nil
  then show ?case by simp
next
  case (Cons b bs)
  then have "off < unat (m_bufferLength mm)" by simp
  then have "int off < uint (m_bufferLength mm)" by (metis of_nat_less_iff of_nat_unat)
  moreover have "store (int off + 1) bs (mm\<lparr>m_buffer := (m_buffer mm)(off := b)\<rparr>) =
      Inr (mm\<lparr>m_buffer := blit (m_buffer mm) off (b # bs)\<rparr>)"
    using Cons(1) [of "Suc off" "mm\<lparr>m_buffer := (m_buffer mm)(off := b)\<rparr>"] Cons(2)
    by (simp add: blit_Cons add.commute del: fun_upd_apply)
  ultimately show ?case by simp
qed

lemma map_blit_append:
  "map (blit mem off bs) [0..<off + length bs] = map mem [0..<off] @ bs"
  by (rule nth_equalityI) (auto simp: blit_def nth_append)

section \<open>The contract of a memory manager\<close>

text \<open>
  What MarshalData relies on: growing to a length within the manager's limit
  succeeds, provides that many bytes and changes nothing else.
\<close>
locale marshal_memory_manager =
  fixes applies :: "memory_manager \<Rightarrow> bool"
    and ensure :: "u32 \<Rightarrow> u32 \<Rightarrow> memory_manager \<Rightarrow> memory_manager res"
    and resize :: "u32 \<Rightarrow> memory_manager \<Rightarrow> memory_manager res"
  assumes ensure_grows:
      "applies mm \<Longrightarrow> unat p + unat d \<le> mm_limit mm \<Longrightarrow>
       \<exists>L. ensure p d mm = Inr (mm\<lparr>m_bufferLength := L\<rparr>) \<and> p + d \<le> L \<and> m_bufferLength mm \<le> L \<and>
           (mm_kind mm = FixedMM \<longrightarrow> L = m_bufferLength mm)"
    and resize_grows:
      "applies mm \<Longrightarrow> unat n \<le> mm_limit mm \<Longrightarrow>
       \<exists>L. resize n mm = Inr (mm\<lparr>m_bufferLength := L\<rparr>) \<and> n \<le> L \<and> m_bufferLength mm \<le> L \<and>
           (mm_kind mm = FixedMM \<longrightarrow> L = m_bufferLength mm)"
    and applies_kind: "applies mm \<Longrightarrow> mm_kind mm = mm_kind mm' \<Longrightarrow> applies mm'"
begin

text \<open>A write of any width: reserve, store at the end of the data, move the end.\<close>
lemma append_ok:
  assumes ok: "applies mm" "mm_ok mm" and n: "n = of_nat (length bs)"
    and room: "unat (m_validLength mm) + length bs < 2 ^ 31"
      "unat (m_validLength mm) + length bs \<le> mm_limit mm"
  shows "\<exists>mm'. bindE (ensure (m_validLength mm) n mm) (\<lambda>mm1.
                 bindE (store (sint (m_validLength mm)) bs mm1) (\<lambda>mm2.
                 bindE (resize (m_validLength mm + n) mm2) (\<lambda>mm3.
                   MM_SetValidLength (m_validLength mm + n) mm3))) = Inr mm' \<and>
               mm_ok mm' \<and> mm_contents mm' = mm_contents mm @ bs \<and>
               m_readPointer mm' = m_readPointer mm \<and> mm_kind mm' = mm_kind mm \<and>
               mm_limit mm' = mm_limit mm \<and>
               (\<forall>k. unat (m_validLength mm') \<le> k \<longrightarrow> m_buffer mm' k = m_buffer mm k)"
proof -
  let ?v = "m_validLength mm"
  have n': "unat n = length bs" using n room(1) by (simp add: unat_of_nat take_bit_nat_eq_self)
  have v: "unat (?v + n) = unat ?v + length bs"
    using n' room(1) by (subst unat_add_no_wrap) auto
  obtain L where L: "ensure ?v n mm = Inr (mm\<lparr>m_bufferLength := L\<rparr>)" "?v + n \<le> L"
      "m_bufferLength mm \<le> L" "mm_kind mm = FixedMM \<longrightarrow> L = m_bufferLength mm"
    using ensure_grows [OF ok(1), of ?v n] n' room(2) by auto
  let ?mm1 = "mm\<lparr>m_bufferLength := L\<rparr>"
  let ?mm2 = "?mm1\<lparr>m_buffer := blit (m_buffer mm) (unat ?v) bs\<rparr>"
  have lim: "mm_limit ?mm2 = mm_limit mm"
    using L(4) by (auto simp: mm_limit_def split: mm_kind.split)
  have st: "store (sint ?v) bs ?mm1 = Inr ?mm2"
    using store_blit [of "unat ?v" bs ?mm1] v L(2) room(1)
    by (simp add: sint_eq_unat word_le_nat_alt)
  have "applies ?mm2" using applies_kind [OF ok(1), of ?mm2] by simp
  then obtain M where M: "resize (?v + n) ?mm2 = Inr (?mm2\<lparr>m_bufferLength := M\<rparr>)" "?v + n \<le> M"
      "L \<le> M" "mm_kind mm = FixedMM \<longrightarrow> M = L"
    using resize_grows [of ?mm2 "?v + n"] lim room(2) v by auto
  have rp: "\<not> ?v + n < m_readPointer mm"
    using ok(2) v by (simp add: mm_ok_def word_less_nat_alt word_le_nat_alt)
  show ?thesis
    using L M st rp ok(2) v map_blit_append [of "m_buffer mm" "unat ?v" bs] lim
    by (auto simp: MM_SetValidLength_def mm_ok_def mm_contents_def Let_def mm_limit_def blit_def [of _ _ bs]
        split: mm_kind.splits)
qed

end

lemma round_length_covers: "round_length r len = 0 \<or> len \<le> round_length r len"
proof (induction r len rule: round_length.induct)
  case (1 r len)
  then show ?case by (subst (1 2) round_length.simps) (auto simp: not_less)
qed

lemma round_length_nonzero_covers:
  "len \<le> (if round_length r len = 0 then len else round_length r len)"
  using round_length_covers [of r len] by auto

interpretation std: marshal_memory_manager
  "\<lambda>mm. mm_kind mm = StandardMM" Standard_EnsureBuffer Standard_ResizeBuffer
proof (unfold_locales, goal_cases)
  case (1 mm p d)
  then show ?case
    using round_length_nonzero_covers [of "p + d" 1]
    by (auto simp: Standard_EnsureBuffer_def Standard_ResizeBuffer_def Let_def not_less
        intro: exI [of _ "m_bufferLength mm"])
next
  case (2 mm n)
  then show ?case
    using round_length_nonzero_covers [of n 1]
    by (auto simp: Standard_ResizeBuffer_def Let_def not_less intro: exI [of _ "m_bufferLength mm"])
qed auto

interpretation fixd: marshal_memory_manager
  "\<lambda>mm. mm_kind mm = FixedMM" Fixed_EnsureBuffer Fixed_ResizeBuffer
proof (unfold_locales, goal_cases)
  case (1 mm p d)
  then have "unat (p + d) \<le> unat (m_bufferLength mm)"
    by (simp add: mm_limit_def unat_word_ariths)
  then show ?case
    by (intro exI [of _ "m_bufferLength mm"]) (simp add: Fixed_EnsureBuffer_def word_le_nat_alt)
next
  case (2 mm n)
  then show ?case
    by (intro exI [of _ "m_bufferLength mm"])
      (simp add: Fixed_ResizeBuffer_def mm_limit_def word_le_nat_alt)
qed auto

interpretation virt: marshal_memory_manager "\<lambda>_. True" MM_EnsureBuffer MM_ResizeBuffer
proof (unfold_locales, goal_cases)
  case (1 mm p d)
  then show ?case
    using std.ensure_grows [of mm p d] fixd.ensure_grows [of mm p d]
    by (cases "mm_kind mm") (simp_all add: MM_EnsureBuffer_def)
next
  case (2 mm n)
  then show ?case
    using std.resize_grows [of mm n] fixd.resize_grows [of mm n]
    by (cases "mm_kind mm") (simp_all add: MM_ResizeBuffer_def)
qed auto

section \<open>MarshalData\<close>

record marshal_data =
  m_memoryManager :: memory_manager
  m_selfOwnsMemoryManager :: bool
  m_overshoot :: bool

definition on_mm :: "(memory_manager \<Rightarrow> memory_manager res) \<Rightarrow> marshal_data \<Rightarrow> marshal_data res" where
  "on_mm f md = bindE (f (m_memoryManager md)) (\<lambda>mm. Inr (md\<lparr>m_memoryManager := mm\<rparr>))"

definition GetMarshaledLength :: "marshal_data \<Rightarrow> u32" where
  "GetMarshaledLength md = m_validLength (m_memoryManager md)"

definition GetReadPointer :: "marshal_data \<Rightarrow> u32" where
  "GetReadPointer md = m_readPointer (m_memoryManager md)"

definition SetMarshaledLength :: "u32 \<Rightarrow> marshal_data \<Rightarrow> marshal_data res" where
  "SetMarshaledLength len md =
     bindE (on_mm (MM_ResizeBuffer len) md) (on_mm (MM_SetValidLength len))"

definition MarshalData :: "(nat \<Rightarrow> u8) \<Rightarrow> u32 \<Rightarrow> marshal_data" where
  "MarshalData heap initialBufferSize =
     \<lparr>m_memoryManager = StandardMarshalMemoryManager heap initialBufferSize,
      m_selfOwnsMemoryManager = True, m_overshoot = False\<rparr>"

text \<open>
  Attach copies the caller's buffer into a fresh block or uses it in place; in
  both cases the block's first bufferSize bytes are the caller's.
\<close>
definition Attach :: "(nat \<Rightarrow> u8) \<Rightarrow> u32 \<Rightarrow> bool \<Rightarrow> marshal_data \<Rightarrow> marshal_data res" where
  "Attach buffer bufferSize copyData md =
     (let mm = (if copyData then StandardMarshalMemoryManager buffer bufferSize
                else FixedMarshalMemoryManager buffer bufferSize);
          md = md\<lparr>m_memoryManager := mm, m_selfOwnsMemoryManager := True\<rparr>
      in bindE (SetMarshaledLength bufferSize md) (\<lambda>md. Inr (md\<lparr>m_overshoot := False\<rparr>)))"

definition SetReadPointer :: "u32 \<Rightarrow> marshal_data \<Rightarrow> (bool \<times> marshal_data) res" where
  "SetReadPointer offset md =
     (let dataLen = GetMarshaledLength md; md = md\<lparr>m_overshoot := False\<rparr>
      in if offset > dataLen
         then bindE (on_mm (MM_SetReadPointer 0) md) (\<lambda>md. Inr (False, md))
         else bindE (on_mm (MM_SetReadPointer offset) md) (\<lambda>md. Inr (True, md)))"

definition RewindReadPointer :: "u32 \<Rightarrow> marshal_data \<Rightarrow> (bool \<times> marshal_data) res" where
  "RewindReadPointer len md =
     (let readPointer = GetReadPointer md; md = md\<lparr>m_overshoot := False\<rparr>
      in if len \<ge> readPointer
         then bindE (SetReadPointer 0 md) (\<lambda>(_, md). Inr (False, md))
         else bindE (SetReadPointer (readPointer - len) md) (\<lambda>(_, md). Inr (True, md)))"

definition ForwardReadPointer :: "u32 \<Rightarrow> marshal_data \<Rightarrow> (bool \<times> marshal_data) res" where
  "ForwardReadPointer len md =
     (let dataLen = GetMarshaledLength md; readPointer = GetReadPointer md;
          md = md\<lparr>m_overshoot := False\<rparr>
      in if readPointer + len > dataLen
         then bindE (SetReadPointer dataLen md) (\<lambda>(_, md). Inr (False, md))
         else bindE (SetReadPointer (readPointer + len) md) (\<lambda>(_, md). Inr (True, md)))"

definition ResetReadPointer :: "marshal_data \<Rightarrow> marshal_data res" where
  "ResetReadPointer md = bindE (SetReadPointer 0 md) (\<lambda>(_, md). Inr (md\<lparr>m_overshoot := False\<rparr>))"

definition MD_Clear :: "bool \<Rightarrow> marshal_data \<Rightarrow> marshal_data res" where
  "MD_Clear clearMemory md =
     bindE (SetMarshaledLength 0 md) (\<lambda>md.
     bindE (SetReadPointer 0 md) (\<lambda>(_, md).
       let md = md\<lparr>m_overshoot := False\<rparr>; mm = m_memoryManager md in
       Inr (if clearMemory
            then md\<lparr>m_memoryManager := mm\<lparr>m_buffer :=
                   (\<lambda>k. if k < unat (m_bufferLength mm) then 0 else m_buffer mm k)\<rparr>\<rparr>
            else md)))"

definition MD_EnsureBuffer :: "u32 \<Rightarrow> marshal_data \<Rightarrow> marshal_data res" where
  "MD_EnsureBuffer len md = on_mm (MM_EnsureBuffer (GetMarshaledLength md) len) md"

definition TestReadRemaining :: "u32 \<Rightarrow> marshal_data \<Rightarrow> bool \<times> marshal_data" where
  "TestReadRemaining len md =
     (if m_overshoot md \<or> GetReadPointer md + len > GetMarshaledLength md
      then (False, md\<lparr>m_overshoot := True\<rparr>) else (True, md))"


text \<open>The common shape of the fixed-width writes and of WriteData.\<close>
definition put_bytes :: "u32 \<Rightarrow> u8 list \<Rightarrow> marshal_data \<Rightarrow> marshal_data res" where
  "put_bytes len bs md =
     bindE (MD_EnsureBuffer len md) (\<lambda>md.
       let writePtr = sint (GetMarshaledLength md) in
       bindE (on_mm (store writePtr bs) md) (\<lambda>md.
         SetMarshaledLength (word_of_int writePtr + len) md))"

definition WriteUInt8 :: "u8 \<Rightarrow> marshal_data \<Rightarrow> marshal_data res" where
  "WriteUInt8 val = put_bytes 1 [val]"

definition WriteBool :: "bool \<Rightarrow> marshal_data \<Rightarrow> marshal_data res" where
  "WriteBool val = WriteUInt8 (if val then 1 else 0)"

definition WriteUInt16 :: "u16 \<Rightarrow> marshal_data \<Rightarrow> marshal_data res" where
  "WriteUInt16 val = put_bytes 2 [byte_of 0 val, byte_of 1 val]"

definition WriteUInt32 :: "u32 \<Rightarrow> marshal_data \<Rightarrow> marshal_data res" where
  "WriteUInt32 val = put_bytes 4 [byte_of 0 val, byte_of 1 val, byte_of 2 val, byte_of 3 val]"

definition WriteUInt64 :: "u64 \<Rightarrow> marshal_data \<Rightarrow> marshal_data res" where
  "WriteUInt64 val =
     put_bytes 8 [byte_of 0 val, byte_of 1 val, byte_of 2 val, byte_of 3 val,
                  byte_of 4 val, byte_of 5 val, byte_of 6 val, byte_of 7 val]"

definition WriteData :: "u32 \<Rightarrow> u8 list \<Rightarrow> marshal_data \<Rightarrow> marshal_data res" where
  "WriteData len src = put_bytes len (take (unat len) src)"

fun WriteUInt32Array :: "u32 list \<Rightarrow> marshal_data \<Rightarrow> marshal_data res" where
  "WriteUInt32Array [] md = Inr md"
| "WriteUInt32Array (v # vs) md = bindE (WriteUInt32 v md) (WriteUInt32Array vs)"

fun WriteUInt64Array :: "u64 list \<Rightarrow> marshal_data \<Rightarrow> marshal_data res" where
  "WriteUInt64Array [] md = Inr md"
| "WriteUInt64Array (v # vs) md = bindE (WriteUInt64 v md) (WriteUInt64Array vs)"

text \<open>A float travels as its 32-bit representation.\<close>
definition WriteFloat :: "u32 \<Rightarrow> marshal_data \<Rightarrow> marshal_data res" where
  "WriteFloat bits = WriteUInt32 bits"

text \<open>A C string: NULL, or the bytes up to the first NUL.\<close>
definition c_str :: "u8 list \<Rightarrow> u8 list" where
  "c_str = takeWhile (\<lambda>b. b \<noteq> 0)"

definition WriteString :: "u8 list option \<Rightarrow> marshal_data \<Rightarrow> marshal_data res" where
  "WriteString s md =
     (let len = (case s of None \<Rightarrow> 0 | Some str \<Rightarrow> of_nat (length (c_str str)))
      in bindE (WriteUInt32 len md) (\<lambda>md.
           case s of None \<Rightarrow> Inr md
           | Some str \<Rightarrow> if len > 0 then WriteData len str md else Inr md))"

section \<open>Reading\<close>

type_synonym 'a reader = "marshal_data \<Rightarrow> ('a option \<times> marshal_data) res"

definition returnR :: "'a \<Rightarrow> 'a reader" where
  "returnR x md = Inr (Some x, md)"

definition failR :: "'a reader" where
  "failR md = Inr (None, md)"

text \<open>The idiom \<^verbatim>\<open>if (!read(...)) return false;\<close> followed by the rest.\<close>
definition bindR :: "'a reader \<Rightarrow> ('a \<Rightarrow> 'b reader) \<Rightarrow> 'b reader" where
  "bindR r f md = bindE (r md) (\<lambda>(x, md). case x of None \<Rightarrow> Inr (None, md) | Some v \<Rightarrow> f v md)"

definition guardR :: "bool \<Rightarrow> 'a reader \<Rightarrow> 'a reader" where
  "guardR b r = (if b then r else failR)"

text \<open>The common shape of the reads: test the remaining length, copy, advance.\<close>
definition get_bytes :: "u32 \<Rightarrow> u8 list reader" where
  "get_bytes len md =
     (let dataLen = GetMarshaledLength md; readPointer = GetReadPointer md in
      if m_overshoot md \<or> readPointer + len > dataLen
      then Inr (None, md\<lparr>m_overshoot := True\<rparr>)
      else bindE (load (unat readPointer) (unat len) (m_memoryManager md)) (\<lambda>bs.
           bindE (SetReadPointer (readPointer + len) md) (\<lambda>(_, md). Inr (Some bs, md))))"

definition ReadUInt8 :: "u8 reader" where
  "ReadUInt8 = bindR (get_bytes 1) (\<lambda>bs. returnR (bs ! 0))"

definition ReadBool :: "bool reader" where
  "ReadBool = bindR ReadUInt8 (\<lambda>b. returnR (b \<noteq> 0))"

definition ReadUInt16 :: "u16 reader" where
  "ReadUInt16 = bindR (get_bytes 2) (\<lambda>bs.
     returnR (push_bit 0 (ucast (bs ! 0)) OR push_bit 8 (ucast (bs ! 1))))"

definition ReadUInt32 :: "u32 reader" where
  "ReadUInt32 = bindR (get_bytes 4) (\<lambda>bs.
     returnR (push_bit 0 (ucast (bs ! 0)) OR push_bit 8 (ucast (bs ! 1)) OR
              push_bit 16 (ucast (bs ! 2)) OR push_bit 24 (ucast (bs ! 3))))"

definition ReadUInt64 :: "u64 reader" where
  "ReadUInt64 = bindR (get_bytes 8) (\<lambda>bs.
     returnR (push_bit 0 (ucast (bs ! 0)) OR push_bit 8 (ucast (bs ! 1)) OR
              push_bit 16 (ucast (bs ! 2)) OR push_bit 24 (ucast (bs ! 3)) OR
              push_bit 32 (ucast (bs ! 4)) OR push_bit 40 (ucast (bs ! 5)) OR
              push_bit 48 (ucast (bs ! 6)) OR push_bit 56 (ucast (bs ! 7))))"

fun ReadUInt32Array :: "nat \<Rightarrow> u32 list reader" where
  "ReadUInt32Array 0 = returnR []"
| "ReadUInt32Array (Suc n) =
     bindR ReadUInt32 (\<lambda>v. bindR (ReadUInt32Array n) (\<lambda>vs. returnR (v # vs)))"

fun ReadUInt64Array :: "nat \<Rightarrow> u64 list reader" where
  "ReadUInt64Array 0 = returnR []"
| "ReadUInt64Array (Suc n) =
     bindR ReadUInt64 (\<lambda>v. bindR (ReadUInt64Array n) (\<lambda>vs. returnR (v # vs)))"

definition ReadFloat :: "u32 reader" where
  "ReadFloat = ReadUInt32"

text \<open>The guard casts the length to int; the sum is formed in 32 bits as before.\<close>
definition ReadData :: "u32 \<Rightarrow> u8 list reader" where
  "ReadData = get_bytes"

definition ReadString :: "u8 list option reader" where
  "ReadString = bindR ReadUInt32 (\<lambda>len.
     if len = 0 then returnR None
     else bindR (ReadData len) (\<lambda>bs. returnR (Some bs)))"

definition ReadStdString :: "u8 list reader" where
  "ReadStdString = bindR ReadString (\<lambda>s.
     returnR (case s of None \<Rightarrow> [] | Some bs \<Rightarrow> c_str bs))"

text \<open>PeekDataPointer yields the offset of the data in the buffer.\<close>
definition PeekDataPointer :: "u32 \<Rightarrow> nat reader" where
  "PeekDataPointer len md =
     (if m_overshoot md \<or> GetReadPointer md + len > GetMarshaledLength md
      then Inr (None, md\<lparr>m_overshoot := True\<rparr>)
      else Inr (Some (unat (GetReadPointer md)), md))"

section \<open>Containers\<close>

record MarshalStartPlaceHolder =
  m_lengthOffset :: u32
  m_dataStartOffset :: u32
  m_shortLength :: bool

definition StartContainer :: "bool \<Rightarrow> marshal_data \<Rightarrow> (MarshalStartPlaceHolder \<times> marshal_data) res" where
  "StartContainer shortLength md =
     (let lengthOffset = GetMarshaledLength md in
      bindE (if shortLength then WriteUInt8 0 md else WriteUInt32 0 md) (\<lambda>md.
        Inr (\<lparr>m_lengthOffset = lengthOffset, m_dataStartOffset = GetMarshaledLength md,
              m_shortLength = shortLength\<rparr>, md)))"

definition CloseContainer :: "MarshalStartPlaceHolder \<Rightarrow> marshal_data \<Rightarrow> marshal_data res" where
  "CloseContainer ph md =
     (let currentOffset = GetMarshaledLength md in
      bindE (log_assert (currentOffset \<ge> m_dataStartOffset ph) ()) (\<lambda>_.
        let len = currentOffset - m_dataStartOffset ph in
        bindE (SetMarshaledLength (m_lengthOffset ph) md) (\<lambda>md.
        bindE (if m_shortLength ph
               then bindE (log_assert (len < 256) ()) (\<lambda>_. WriteUInt8 (ucast len) md)
               else WriteUInt32 len md) (\<lambda>md.
          SetMarshaledLength currentOffset md))))"

end
