(* ===== verification/Marshal_Laws.thy ===== *)
theory Marshal_Laws
  imports Marshal
begin

text \<open>
  The contract of the marshalling buffer, in terms of the byte string it holds:
  what a write appends, what a read consumes, how writers and readers compose,
  and the behaviour at the bounds of the buffer.
\<close>

section \<open>The abstract view of a buffer\<close>

definition md_contents :: "marshal_data \<Rightarrow> u8 list" where
  "md_contents md = mm_contents (m_memoryManager md)"

text \<open>The invariant: the read pointer within the data, the data within the block and short enough
  for the signed write offset.\<close>
definition md_ok :: "marshal_data \<Rightarrow> bool" where
  "md_ok md \<longleftrightarrow> mm_ok (m_memoryManager md) \<and> unat (GetMarshaledLength md) < 2 ^ 31"

definition md_rest :: "marshal_data \<Rightarrow> u8 list" where
  "md_rest md = drop (unat (GetReadPointer md)) (md_contents md)"

definition md_room :: "nat \<Rightarrow> marshal_data \<Rightarrow> bool" where
  "md_room n md \<longleftrightarrow> unat (GetMarshaledLength md) + n < 2 ^ 31 \<and>
     unat (GetMarshaledLength md) + n \<le> mm_limit (m_memoryManager md)"

definition advance :: "nat \<Rightarrow> marshal_data \<Rightarrow> marshal_data" where
  "advance n md = md\<lparr>m_memoryManager := (m_memoryManager md)
     \<lparr>m_readPointer := m_readPointer (m_memoryManager md) + of_nat n\<rparr>\<rparr>"

definition appended :: "u8 list \<Rightarrow> marshal_data \<Rightarrow> marshal_data \<Rightarrow> bool" where
  "appended bs md md' \<longleftrightarrow> md_ok md' \<and> md_contents md' = md_contents md @ bs \<and>
     GetReadPointer md' = GetReadPointer md \<and> m_overshoot md' = m_overshoot md \<and>
     mm_kind (m_memoryManager md') = mm_kind (m_memoryManager md) \<and>
     mm_limit (m_memoryManager md') = mm_limit (m_memoryManager md) \<and>
     (\<forall>k. unat (GetMarshaledLength md') \<le> k \<longrightarrow>
        m_buffer (m_memoryManager md') k = m_buffer (m_memoryManager md) k)"

definition writes :: "(marshal_data \<Rightarrow> marshal_data res) \<Rightarrow> u8 list \<Rightarrow> bool" where
  "writes w bs \<longleftrightarrow> (\<forall>md. md_ok md \<longrightarrow> md_room (length bs) md \<longrightarrow>
     (\<exists>md'. w md = Inr md' \<and> appended bs md md'))"

definition reads :: "'a reader \<Rightarrow> u8 list \<Rightarrow> 'a \<Rightarrow> bool" where
  "reads r bs v \<longleftrightarrow> (\<forall>md rest. md_ok md \<longrightarrow> \<not> m_overshoot md \<longrightarrow> md_rest md = bs @ rest \<longrightarrow>
     r md = Inr (Some v, advance (length bs) md))"

text \<open>A reader that fails, without leaving the buffer, when fewer than n bytes remain.\<close>
definition needs :: "'a reader \<Rightarrow> nat \<Rightarrow> bool" where
  "needs r n \<longleftrightarrow> (\<forall>md. md_ok md \<longrightarrow> \<not> m_overshoot md \<longrightarrow> length (md_rest md) < n \<longrightarrow>
     (\<exists>md'. r md = Inr (None, md') \<and> m_overshoot md'))"

lemma length_md_contents [simp]: "length (md_contents md) = unat (GetMarshaledLength md)"
  by (simp add: md_contents_def mm_contents_def GetMarshaledLength_def)

lemma length_md_rest:
  "length (md_rest md) = unat (GetMarshaledLength md) - unat (GetReadPointer md)"
  by (simp add: md_rest_def)

lemma md_ok_readPointer: "md_ok md \<Longrightarrow> unat (GetReadPointer md) \<le> unat (GetMarshaledLength md)"
  by (simp add: md_ok_def mm_ok_def GetReadPointer_def GetMarshaledLength_def word_le_nat_alt)

lemma advance_0 [simp]: "advance 0 md = md"
  by (simp add: advance_def)

lemma advance_advance [simp]: "advance n (advance m md) = advance (m + n) md"
  by (simp add: advance_def add.assoc)

lemma advance_overshoot [simp]: "m_overshoot (advance n md) = m_overshoot md"
  by (simp add: advance_def)

lemma advance_length [simp]: "GetMarshaledLength (advance n md) = GetMarshaledLength md"
  by (simp add: advance_def GetMarshaledLength_def)

lemma advance_contents [simp]: "md_contents (advance n md) = md_contents md"
  by (simp add: advance_def md_contents_def mm_contents_def)

lemma advance_readPointer:
  assumes "md_ok md" "n \<le> length (md_rest md)"
  shows "unat (GetReadPointer (advance n md)) = unat (GetReadPointer md) + n"
proof -
  have "unat (GetReadPointer md) + n \<le> unat (GetMarshaledLength md)"
    using assms md_ok_readPointer [of md] by (simp add: length_md_rest)
  moreover have "unat (GetMarshaledLength md) < 2 ^ 31" using assms by (simp add: md_ok_def)
  ultimately show ?thesis
    by (simp add: advance_def GetReadPointer_def unat_word_ariths unat_of_nat)
qed

lemma advance_ok:
  assumes "md_ok md" "n \<le> length (md_rest md)"
  shows "md_ok (advance n md)"
proof -
  have "unat (GetReadPointer (advance n md)) \<le> unat (GetMarshaledLength md)"
    using assms(2) advance_readPointer [OF assms] md_ok_readPointer [OF assms(1)]
    by (simp add: length_md_rest)
  then show ?thesis using assms(1)
    by (simp add: md_ok_def mm_ok_def advance_def GetReadPointer_def GetMarshaledLength_def word_le_nat_alt)
qed

lemma advance_rest:
  "md_ok md \<Longrightarrow> n \<le> length (md_rest md) \<Longrightarrow> md_rest (advance n md) = drop n (md_rest md)"
  by (simp add: md_rest_def [of "advance n md"] advance_readPointer)
    (simp add: md_rest_def add.commute)

section \<open>Composition\<close>

lemma writesI:
  "(\<And>md. md_ok md \<Longrightarrow> md_room (length bs) md \<Longrightarrow> \<exists>md'. w md = Inr md' \<and> appended bs md md') \<Longrightarrow>
   writes w bs"
  by (simp add: writes_def)

lemma writes_Nil [rsl_intros]: "writes Inr []"
  by (simp add: writes_def appended_def)

lemma appended_room:
  assumes "appended bs md md'" "md_room (length bs + n) md"
  shows "md_room n md'"
proof -
  have "length (md_contents md') = length (md_contents md) + length bs"
    using assms(1) by (simp add: appended_def)
  then show ?thesis using assms by (simp add: md_room_def appended_def)
qed

lemma appended_length:
  "appended bs md md' \<Longrightarrow> unat (GetMarshaledLength md') = unat (GetMarshaledLength md) + length bs"
  unfolding appended_def by (metis length_append length_md_contents)

lemma appended_trans:
  "appended bs md md' \<Longrightarrow> appended cs md' md'' \<Longrightarrow> appended (bs @ cs) md md''"
  using appended_length [of cs md' md''] by (simp add: appended_def)

lemma writes_seq [rsl_intros]:
  assumes "writes w bs" "writes w' cs"
  shows "writes (\<lambda>md. bindE (w md) w') (bs @ cs)"
proof (rule writesI)
  fix md assume md: "md_ok md" "md_room (length (bs @ cs)) md"
  then have "md_room (length bs) md" by (simp add: md_room_def)
  then obtain md1 where 1: "w md = Inr md1" "appended bs md md1"
    using assms(1) md(1) by (auto simp: writes_def)
  then have "md_ok md1" "md_room (length cs) md1"
    using md appended_room [OF 1(2), of "length cs"] by (auto simp: appended_def)
  then obtain md2 where "w' md1 = Inr md2" "appended cs md1 md2"
    using assms(2) by (auto simp: writes_def)
  with 1 show "\<exists>md'. bindE (w md) w' = Inr md' \<and> appended (bs @ cs) md md'"
    using appended_trans by auto
qed

lemma reads_return [rsl_intros]: "reads (returnR v) [] v"
  by (simp add: reads_def returnR_def)

lemma readsD:
  "reads r bs v \<Longrightarrow> md_ok md \<Longrightarrow> \<not> m_overshoot md \<Longrightarrow> md_rest md = bs @ rest \<Longrightarrow>
   r md = Inr (Some v, advance (length bs) md)"
  by (simp add: reads_def)

lemma reads_bind [rsl_intros]:
  assumes "reads r bs v" "reads (f v) cs w"
  shows "reads (bindR r f) (bs @ cs) w"
  unfolding reads_def
proof (intro allI impI)
  fix md rest assume md: "md_ok md" "\<not> m_overshoot md" "md_rest md = (bs @ cs) @ rest"
  have 1: "r md = Inr (Some v, advance (length bs) md)"
    using readsD [OF assms(1) md(1,2)] md(3) by simp
  have "md_ok (advance (length bs) md)" "md_rest (advance (length bs) md) = cs @ rest"
    using advance_ok advance_rest md by auto
  then have "f v (advance (length bs) md) = Inr (Some w, advance (length cs) (advance (length bs) md))"
    using readsD [OF assms(2)] md(2) by simp
  then show "bindR r f md = Inr (Some w, advance (length (bs @ cs)) md)"
    using 1 by (simp add: bindR_def)
qed

lemma reads_bind_return:
  "reads r bs v \<Longrightarrow> w = f v \<Longrightarrow> reads (bindR r (\<lambda>x. returnR (f x))) bs w"
  using reads_bind [OF _ reads_return, of r bs v f] by simp

lemma needs_bind:
  assumes r: "reads r bs v" and f: "needs (f v) n"
    and md: "md_ok md" "\<not> m_overshoot md" "md_rest md = bs @ rest" "length rest < n"
  shows "\<exists>md'. bindR r f md = Inr (None, md') \<and> m_overshoot md'"
proof -
  have "r md = Inr (Some v, advance (length bs) md)" using readsD [OF r md(1,2,3)] .
  moreover have "md_ok (advance (length bs) md)" "md_rest (advance (length bs) md) = rest"
    using advance_ok advance_rest md by auto
  ultimately show ?thesis
    using f md(2,4) by (auto simp: needs_def bindR_def)
qed

lemma reads_guard [rsl_intros]: "b \<Longrightarrow> reads r bs v \<Longrightarrow> reads (guardR b r) bs v"
  by (simp add: guardR_def)

section \<open>The primitive writes and reads\<close>

lemma on_mm_Inr [simp]: "on_mm f md = bindE (f (m_memoryManager md)) (\<lambda>mm. Inr (md\<lparr>m_memoryManager := mm\<rparr>))"
  by (simp add: on_mm_def)

lemma writes_put_bytes [rsl_intros]:
  assumes "n = of_nat (length bs)"
  shows "writes (put_bytes n bs) bs"
proof (rule writesI)
  fix md assume md: "md_ok md" "md_room (length bs) md"
  let ?mm = "m_memoryManager md"
  let ?v = "m_validLength ?mm"
  from virt.append_ok [of ?mm n bs] assms md obtain mm' where
    mm': "bindE (MM_EnsureBuffer ?v n ?mm) (\<lambda>mm1. bindE (store (sint ?v) bs mm1) (\<lambda>mm2.
             bindE (MM_ResizeBuffer (?v + n) mm2) (\<lambda>mm3. MM_SetValidLength (?v + n) mm3))) = Inr mm'"
    and ok': "mm_ok mm'" "mm_contents mm' = mm_contents ?mm @ bs"
      "m_readPointer mm' = m_readPointer ?mm" "mm_kind mm' = mm_kind ?mm" "mm_limit mm' = mm_limit ?mm"
      "\<forall>k. unat (m_validLength mm') \<le> k \<longrightarrow> m_buffer mm' k = m_buffer ?mm k"
    by (auto simp: md_ok_def md_room_def GetMarshaledLength_def)
  have ens: "m_validLength mm1 = ?v" if "MM_EnsureBuffer ?v n ?mm = Inr mm1" for mm1
    using that by (auto simp: mm_call_defs Let_def split: mm_kind.splits if_splits)
  have "put_bytes n bs md = Inr (md\<lparr>m_memoryManager := mm'\<rparr>)"
    using mm' ens by (auto simp: put_bytes_def MD_EnsureBuffer_def SetMarshaledLength_def
        GetMarshaledLength_def Let_def bindE_eq_Inr)
  moreover have "length (mm_contents mm') = unat ?v + length bs"
    using ok'(2) by (simp add: mm_contents_def)
  then have "unat (m_validLength mm') < 2 ^ 31"
    using md(2) by (simp add: md_room_def GetMarshaledLength_def mm_contents_def)
  ultimately show "\<exists>md'. put_bytes n bs md = Inr md' \<and> appended bs md md'"
    using ok' by (simp add: appended_def md_ok_def md_contents_def GetReadPointer_def GetMarshaledLength_def)
qed


lemma SetReadPointer_ok:
  "p \<le> GetMarshaledLength md \<Longrightarrow>
   SetReadPointer p md = Inr (True, md\<lparr>m_overshoot := False,
     m_memoryManager := (m_memoryManager md)\<lparr>m_readPointer := p\<rparr>\<rparr>)"
  by (simp add: SetReadPointer_def MM_SetReadPointer_def GetMarshaledLength_def Let_def not_less)

lemma reads_get_bytes [rsl_intros]:
  assumes n: "n = of_nat (length bs)"
  shows "reads (get_bytes n) bs bs"
  unfolding reads_def
proof (intro allI impI)
  fix md rest assume md: "md_ok md" "\<not> m_overshoot md" "md_rest md = bs @ rest"
  let ?r = "GetReadPointer md" and ?v = "GetMarshaledLength md"
  have v: "unat ?v < 2 ^ 31" using md by (simp add: md_ok_def)
  have len: "length bs \<le> unat ?v - unat ?r"
    using md(3) length_md_rest [of md] by simp
  have n': "unat n = length bs" using n len v by (simp add: unat_of_nat)
  have le: "unat ?r + length bs \<le> unat ?v" using len md_ok_readPointer [OF md(1)] by linarith
  have sum: "unat (?r + n) = unat ?r + length bs"
    using le v n' by (subst unat_add_no_wrap) auto
  then have guard: "\<not> ?v < ?r + n" "?r + n \<le> ?v" using le by (simp_all add: word_less_nat_alt word_le_nat_alt)
  have "unat ?v \<le> unat (m_bufferLength (m_memoryManager md))"
    using md(1) by (simp add: md_ok_def mm_ok_def GetMarshaledLength_def word_le_nat_alt)
  then have "load (unat ?r) (unat n) (m_memoryManager md) =
      Inr (map (m_buffer (m_memoryManager md)) [unat ?r..<unat ?r + length bs])"
    using le n' by (simp add: load_def)
  moreover have "map (m_buffer (m_memoryManager md)) [unat ?r..<unat ?r + length bs]
      = take (length bs) (md_rest md)"
    using le by (intro nth_equalityI)
      (auto simp: md_rest_def md_contents_def mm_contents_def GetMarshaledLength_def)
  ultimately have "load (unat ?r) (unat n) (m_memoryManager md) = Inr bs" using md(3) by simp
  then show "get_bytes n md = Inr (Some bs, advance (length bs) md)"
    using guard md(2) n
    by (simp add: get_bytes_def Let_def SetReadPointer_ok advance_def GetReadPointer_def)
qed

text \<open>Peeking and moving forward instead of copying.\<close>
lemma peek_forward:
  assumes n: "n = of_nat (length bs)"
    and md: "md_ok md" "\<not> m_overshoot md" "md_rest md = bs @ rest"
  shows "PeekDataPointer n md = Inr (Some (unat (GetReadPointer md)), md)"
    and "ForwardReadPointer n md = Inr (True, advance (length bs) md)"
    and "load (unat (GetReadPointer md)) (unat n) (m_memoryManager md) = Inr bs"
proof -
  from readsD [OF reads_get_bytes [OF n] md]
  have g: "get_bytes n md = Inr (Some bs, advance (length bs) md)" .
  then have guard: "\<not> GetMarshaledLength md < GetReadPointer md + n"
    using md(2) by (auto simp: get_bytes_def Let_def split: if_splits)
  with md(2) show "PeekDataPointer n md = Inr (Some (unat (GetReadPointer md)), md)"
    by (simp add: PeekDataPointer_def)
  from guard show "load (unat (GetReadPointer md)) (unat n) (m_memoryManager md) = Inr bs"
    using g md(2) by (auto simp: get_bytes_def Let_def SetReadPointer_ok not_less bindE_eq_Inr split: if_splits)
  from guard show "ForwardReadPointer n md = Inr (True, advance (length bs) md)"
    using md(2) n
    by (cases md) (simp add: ForwardReadPointer_def Let_def SetReadPointer_ok advance_def GetReadPointer_def
        GetMarshaledLength_def not_less)
qed

lemma TestReadRemaining_1:
  assumes "md_ok md" "\<not> m_overshoot md"
  shows "TestReadRemaining 1 md = (if md_rest md = [] then (False, md\<lparr>m_overshoot := True\<rparr>) else (True, md))"
proof -
  have r: "unat (GetReadPointer md) \<le> unat (GetMarshaledLength md)" "unat (GetMarshaledLength md) < 2 ^ 31"
    using assms md_ok_readPointer by (auto simp: md_ok_def)
  then have "unat (GetReadPointer md + 1) = unat (GetReadPointer md) + 1"
    by (subst unat_add_no_wrap) auto
  moreover have "md_rest md = [] \<longleftrightarrow> unat (GetMarshaledLength md) \<le> unat (GetReadPointer md)"
    using length_md_rest [of md] by (metis diff_is_0_eq length_0_conv)
  ultimately show ?thesis using assms(2) by (auto simp: TestReadRemaining_def word_less_nat_alt)
qed

lemma needs_get_bytes:
  assumes "unat n < 2 ^ 31"
  shows "needs (get_bytes n) (unat n)"
  unfolding needs_def
proof (intro allI impI)
  fix md assume md: "md_ok md" "\<not> m_overshoot md" "length (md_rest md) < unat n"
  let ?r = "GetReadPointer md" and ?v = "GetMarshaledLength md"
  have v: "unat ?v < 2 ^ 31" using md by (simp add: md_ok_def)
  have r: "unat ?r \<le> unat ?v" using md_ok_readPointer [OF md(1)] .
  have "unat (?r + n) = unat ?r + unat n" using r v assms by (subst unat_add_no_wrap) auto
  then have "?v < ?r + n" using md(3) r by (simp add: length_md_rest word_less_nat_alt)
  then show "\<exists>md'. get_bytes n md = Inr (None, md') \<and> m_overshoot md'"
    by (simp add: get_bytes_def Let_def)
qed

lemma needs_bindR [rsl_intros]: "needs r n \<Longrightarrow> needs (bindR r f) n"
  by (fastforce simp: needs_def bindR_def)

lemma upt_Suc_0s: "[0..<2] = [0, Suc 0]" "[0..<4] = [0, 1, 2, 3::nat]" "[0..<8] = [0, 1, 2, 3, 4, 5, 6, 7::nat]"
  by (simp_all add: upt_rec)

lemma le_bytes_2: "le_bytes 2 v = [byte_of 0 v, byte_of 1 v]"
  and le_bytes_4: "le_bytes 4 v = [byte_of 0 v, byte_of 1 v, byte_of 2 v, byte_of 3 v]"
  and le_bytes_8: "le_bytes 8 v = [byte_of 0 v, byte_of 1 v, byte_of 2 v, byte_of 3 v,
    byte_of 4 v, byte_of 5 v, byte_of 6 v, byte_of 7 v]"
  by (simp_all add: le_bytes_def upt_Suc_0s)

lemma writes_UInt8 [rsl_intros]: "writes (WriteUInt8 v) [v]"
  unfolding WriteUInt8_def by (rule writes_put_bytes) simp

lemma writes_Bool [rsl_intros]: "writes (WriteBool b) [if b then 1 else 0]"
  unfolding WriteBool_def by (rule writes_UInt8)

lemma writes_UInt16 [rsl_intros]: "writes (WriteUInt16 v) (le_bytes 2 v)"
  unfolding WriteUInt16_def le_bytes_2 by (rule writes_put_bytes) simp

lemma writes_UInt32 [rsl_intros]: "writes (WriteUInt32 v) (le_bytes 4 v)"
  unfolding WriteUInt32_def le_bytes_4 by (rule writes_put_bytes) simp

lemma writes_UInt64 [rsl_intros]: "writes (WriteUInt64 v) (le_bytes 8 v)"
  unfolding WriteUInt64_def le_bytes_8 by (rule writes_put_bytes) simp

lemma writes_Data [rsl_intros]:
  "unat n \<le> length src \<Longrightarrow> writes (WriteData n src) (take (unat n) src)"
  unfolding WriteData_def by (rule writes_put_bytes) (simp add: min_absorb2)

lemma reads_UInt8 [rsl_intros]: "reads ReadUInt8 [v] v"
  unfolding ReadUInt8_def by (rule reads_bind_return [OF reads_get_bytes]) simp_all

lemma reads_Bool [rsl_intros]: "reads ReadBool [if b then 1 else 0] b"
  unfolding ReadBool_def by (rule reads_bind_return [OF reads_UInt8]) simp

lemma reads_UInt16 [rsl_intros]: "reads ReadUInt16 (le_bytes 2 v) v"
  unfolding ReadUInt16_def
proof (rule reads_bind_return [OF reads_get_bytes])
  have "of_le (le_bytes 2 v) = v" by (rule of_le_le_bytes) simp
  then show "v = push_bit 0 (ucast (le_bytes 2 v ! 0)) OR push_bit 8 (ucast (le_bytes 2 v ! 1))"
    by (simp add: le_bytes_2 of_le2)
qed simp

lemma reads_UInt32 [rsl_intros]: "reads ReadUInt32 (le_bytes 4 v) v"
  unfolding ReadUInt32_def
proof (rule reads_bind_return [OF reads_get_bytes])
  have "of_le (le_bytes 4 v) = v" by (rule of_le_le_bytes) simp
  then show "v = push_bit 0 (ucast (le_bytes 4 v ! 0)) OR push_bit 8 (ucast (le_bytes 4 v ! 1)) OR
      push_bit 16 (ucast (le_bytes 4 v ! 2)) OR push_bit 24 (ucast (le_bytes 4 v ! 3))"
    by (simp only: le_bytes_4 of_le4) simp
qed simp

lemma reads_UInt64 [rsl_intros]: "reads ReadUInt64 (le_bytes 8 v) v"
  unfolding ReadUInt64_def
proof (rule reads_bind_return [OF reads_get_bytes])
  have "of_le (le_bytes 8 v) = v" by (rule of_le_le_bytes) simp
  then show "v = push_bit 0 (ucast (le_bytes 8 v ! 0)) OR push_bit 8 (ucast (le_bytes 8 v ! 1)) OR
      push_bit 16 (ucast (le_bytes 8 v ! 2)) OR push_bit 24 (ucast (le_bytes 8 v ! 3)) OR
      push_bit 32 (ucast (le_bytes 8 v ! 4)) OR push_bit 40 (ucast (le_bytes 8 v ! 5)) OR
      push_bit 48 (ucast (le_bytes 8 v ! 6)) OR push_bit 56 (ucast (le_bytes 8 v ! 7))"
    by (simp only: le_bytes_8 of_le8) simp
qed simp


section \<open>Strings and arrays\<close>

definition enc_string :: "u8 list \<Rightarrow> u8 list" where
  "enc_string str = le_bytes 4 (of_nat (length (c_str str)) :: u32) @ c_str str"

lemma c_str_prefix: "take (length (c_str str)) str = c_str str"
  unfolding c_str_def by (rule takeWhile_eq_take [symmetric])

lemma c_str_idem [simp]: "c_str (c_str str) = c_str str"
  by (simp add: c_str_def)

lemma unat_len_c_str:
  "length (c_str str) < 2 ^ 32 \<Longrightarrow> unat (of_nat (length (c_str str)) :: u32) = length (c_str str)"
  by (simp add: unat_of_nat)

lemma writes_String [rsl_intros]:
  assumes "length (c_str str) < 2 ^ 32"
  shows "writes (WriteString (Some str)) (enc_string str)"
proof -
  let ?n = "of_nat (length (c_str str)) :: u32"
  have n: "unat ?n = length (c_str str)" using unat_len_c_str [OF assms] .
  have "length (c_str str) \<le> length str" by (simp add: c_str_def length_takeWhile_le)
  then have data: "writes (WriteData ?n str) (c_str str)"
    using writes_Data [of ?n str] n c_str_prefix by simp
  have "writes (\<lambda>md. if ?n > 0 then WriteData ?n str md else Inr md) (c_str str)"
  proof (cases "?n > 0")
    case True then show ?thesis using data by simp
  next
    case False
    then have "c_str str = []" using n by (simp add: word_gt_0)
    then show ?thesis using False writes_Nil by simp
  qed
  then show ?thesis
    unfolding WriteString_def enc_string_def Let_def option.case by (intro rsl_intros)
qed

lemma reads_String [rsl_intros]:
  assumes "length (c_str str) < 2 ^ 32"
  shows "reads ReadString (enc_string str) (if c_str str = [] then None else Some (c_str str))"
  unfolding ReadString_def enc_string_def
proof (rule reads_bind [OF reads_UInt32])
  let ?n = "of_nat (length (c_str str)) :: u32"
  have "?n = 0 \<longleftrightarrow> c_str str = []"
    using unat_len_c_str [OF assms] by (metis length_0_conv unat_eq_0)
  then show "reads (if ?n = 0 then returnR None else bindR (ReadData ?n) (\<lambda>bs. returnR (Some bs)))
      (c_str str) (if c_str str = [] then None else Some (c_str str))"
    unfolding ReadData_def
    by (auto intro: reads_return reads_bind_return [OF reads_get_bytes])
qed

lemma reads_StdString [rsl_intros]:
  "length (c_str str) < 2 ^ 32 \<Longrightarrow> reads ReadStdString (enc_string str) (c_str str)"
  unfolding ReadStdString_def by (rule reads_bind_return [OF reads_String]) auto

lemma writes_UInt32Array [rsl_intros]: "writes (WriteUInt32Array vs) (concat (map (le_bytes 4) vs))"
proof (induction vs)
  case Nil
  have "WriteUInt32Array [] = Inr" by (simp add: fun_eq_iff)
  then show ?case using writes_Nil by simp
next
  case (Cons v vs)
  have "WriteUInt32Array (v # vs) = (\<lambda>md. bindE (WriteUInt32 v md) (WriteUInt32Array vs))"
    by (simp add: fun_eq_iff)
  then show ?case using writes_seq [OF writes_UInt32 Cons] by simp
qed

lemma writes_UInt64Array [rsl_intros]: "writes (WriteUInt64Array vs) (concat (map (le_bytes 8) vs))"
proof (induction vs)
  case Nil
  have "WriteUInt64Array [] = Inr" by (simp add: fun_eq_iff)
  then show ?case using writes_Nil by simp
next
  case (Cons v vs)
  have "WriteUInt64Array (v # vs) = (\<lambda>md. bindE (WriteUInt64 v md) (WriteUInt64Array vs))"
    by (simp add: fun_eq_iff)
  then show ?case using writes_seq [OF writes_UInt64 Cons] by simp
qed

lemma reads_UInt32Array [rsl_intros]:
  "reads (ReadUInt32Array (length vs)) (concat (map (le_bytes 4) vs)) vs"
  by (induction vs) (auto intro: reads_return reads_bind [OF reads_UInt32] reads_bind_return)

lemma reads_UInt64Array [rsl_intros]:
  "reads (ReadUInt64Array (length vs)) (concat (map (le_bytes 8) vs)) vs"
  by (induction vs) (auto intro: reads_return reads_bind [OF reads_UInt64] reads_bind_return)

section \<open>Codecs\<close>

text \<open>A buffer holding exactly the given bytes, as MarshalData attached to a received packet.\<close>
definition md_of :: "u8 list \<Rightarrow> marshal_data" where
  "md_of bs = \<lparr>m_memoryManager = \<lparr>mm_kind = FixedMM, m_bufferLength = of_nat (length bs),
      m_buffer = (\<lambda>k. if k < length bs then bs ! k else 0),
      m_readPointer = 0, m_validLength = of_nat (length bs)\<rparr>,
    m_selfOwnsMemoryManager = True, m_overshoot = False\<rparr>"

lemma md_of_simps [simp]:
  "m_overshoot (md_of bs) = False"
  "GetReadPointer (md_of bs) = 0"
  "GetMarshaledLength (md_of bs) = of_nat (length bs)"
  by (simp_all add: md_of_def GetReadPointer_def GetMarshaledLength_def)

lemma md_of_ok: "length bs < 2 ^ 31 \<Longrightarrow> md_ok (md_of bs)"
  by (simp add: md_ok_def mm_ok_def md_of_def GetMarshaledLength_def unat_of_nat)

lemma md_of_rest: "length bs < 2 ^ 32 \<Longrightarrow> md_rest (md_of bs) = bs"
  by (rule nth_equalityI)
    (auto simp: md_rest_def md_contents_def mm_contents_def md_of_def GetReadPointer_def unat_of_nat)

lemma Attach_md_of:
  assumes "length bs < 2 ^ 32"
  shows "Attach (\<lambda>k. if k < length bs then bs ! k else 0) (of_nat (length bs)) False md = Inr (md_of bs)"
  by (simp add: Attach_def SetMarshaledLength_def MM_ResizeBuffer_def MM_SetValidLength_def
      Fixed_ResizeBuffer_def FixedMarshalMemoryManager_def md_of_def Let_def)

text \<open>
  The contract between a Marshal and an UnMarshal method: the first appends
  the encoding, the second recovers the value from it.
\<close>
locale codec =
  fixes wr :: "'a \<Rightarrow> marshal_data \<Rightarrow> marshal_data res"
    and rd :: "'a reader"
    and enc :: "'a \<Rightarrow> u8 list"
    and valid :: "'a \<Rightarrow> bool"
  assumes write_enc: "valid x \<Longrightarrow> writes (wr x) (enc x)"
    and read_enc: "valid x \<Longrightarrow> reads rd (enc x) x"
begin

lemma write_read:
  assumes "valid x" "md_ok md" "\<not> m_overshoot md" "md_room (length (enc x)) md" "md_rest md = []"
  shows "\<exists>md'. wr x md = Inr md' \<and> md_contents md' = md_contents md @ enc x \<and>
               rd md' = Inr (Some x, advance (length (enc x)) md')"
proof -
  obtain md' where md': "wr x md = Inr md'" "appended (enc x) md md'"
    using write_enc [OF assms(1)] assms by (auto simp: writes_def)
  then have "md_rest md' = enc x"
    using assms(5) md_ok_readPointer [OF assms(2)] by (simp add: appended_def md_rest_def)
  then have "rd md' = Inr (Some x, advance (length (enc x)) md')"
    using readsD [OF read_enc [OF assms(1)], of md' "[]"] md'(2) assms(3) by (simp add: appended_def)
  with md' show ?thesis by (auto simp: appended_def)
qed

lemma decode_attached:
  assumes "valid x" "length (enc x) < 2 ^ 31"
  shows "rd (md_of (enc x)) = Inr (Some x, advance (length (enc x)) (md_of (enc x)))"
  using readsD [OF read_enc [OF assms(1)], of "md_of (enc x)" "[]"] assms
  by (simp add: md_of_ok md_of_rest)

text \<open>Encodings are prefix-free, so a stream of them has one parse.\<close>
lemma enc_prefix_free:
  assumes "valid x" "valid y" "enc x @ r = enc y @ s" "length (enc x @ r) < 2 ^ 31"
  shows "x = y"
proof -
  let ?md = "md_of (enc x @ r)"
  have "md_ok ?md" "md_rest ?md = enc x @ r" using assms(4) by (auto intro: md_of_ok md_of_rest)
  then have "rd ?md = Inr (Some x, advance (length (enc x)) ?md)"
    "rd ?md = Inr (Some y, advance (length (enc y)) ?md)"
    using readsD [OF read_enc [OF assms(1)], of ?md r] readsD [OF read_enc [OF assms(2)], of ?md s] assms(3)
    by simp_all
  then show ?thesis by simp
qed

end

interpretation u8c: codec WriteUInt8 ReadUInt8 "\<lambda>v. [v]" "\<lambda>_. True"
  by unfold_locales (rule rsl_intros)+

interpretation u16c: codec WriteUInt16 ReadUInt16 "le_bytes 2" "\<lambda>_. True"
  by unfold_locales (rule rsl_intros)+

interpretation u32c: codec WriteUInt32 ReadUInt32 "le_bytes 4" "\<lambda>_. True"
  by unfold_locales (rule rsl_intros)+

interpretation u64c: codec WriteUInt64 ReadUInt64 "le_bytes 8" "\<lambda>_. True"
  by unfold_locales (rule rsl_intros)+

interpretation strc: codec "\<lambda>s. WriteString (Some s)" ReadStdString enc_string
  "\<lambda>s. c_str s = s \<and> length s < 2 ^ 32"
proof (unfold_locales, goal_cases)
  case (1 s)
  then show ?case by (intro writes_String) simp
next
  case (2 s)
  then show ?case using reads_StdString [of s] by simp
qed

end
