(* ===== verification/Member_Ballot.thy ===== *)
theory Member_Ballot
  imports Marshal_Laws
begin

text \<open>
  Member identifiers, primary cookies and ballot numbers (message.cpp lines
  43 to 340, RSLNode::ParseMemberIdAsUInt64 of rsl.cpp).  A MemberId is a
  64-byte field holding a NUL-terminated string, with its length cached; the
  bytes after the terminator are whatever the field held before.  The type mid
  is what identifies a member, the string itself, with the order that
  MemberId::Compare computes; ballots over mid are what the replicas compare.
\<close>

section \<open>Member identifiers\<close>

record MemberId =
  m_value :: "u8 list"
  m_len :: nat

definition MemberId_Size :: nat where
  "MemberId_Size = 64"

definition member_ok :: "MemberId \<Rightarrow> bool" where
  "member_ok m \<longleftrightarrow> length (m_value m) = MemberId_Size \<and> m_len m = length (c_str (m_value m)) \<and>
     m_len m < MemberId_Size"

definition MemberId_empty :: MemberId where
  "MemberId_empty = \<lparr>m_value = replicate MemberId_Size 0, m_len = 0\<rparr>"

text \<open>StringCbCopyA: the string and its terminator over the start of the field.\<close>
definition string_copy :: "u8 list \<Rightarrow> u8 list \<Rightarrow> u8 list" where
  "string_copy str field = c_str str @ 0 # drop (Suc (length (c_str str))) field"

definition MemberId_of_string :: "u8 list \<Rightarrow> u8 list \<Rightarrow> MemberId res" where
  "MemberId_of_string field str =
     log_assert (length (c_str str) < MemberId_Size)
       \<lparr>m_value = string_copy str field, m_len = length (c_str str)\<rparr>"

definition MemberId_of_chars :: "u8 list \<Rightarrow> u8 list \<Rightarrow> nat \<Rightarrow> MemberId res" where
  "MemberId_of_chars field str len =
     log_assert (len < MemberId_Size \<and> length (c_str str) < MemberId_Size)
       \<lparr>m_value = string_copy str field, m_len = len\<rparr>"

fun strncmp :: "nat \<Rightarrow> u8 list \<Rightarrow> u8 list \<Rightarrow> int" where
  "strncmp (Suc n) (a # as) (b # bs) =
     (if a = b then if a = 0 then 0 else strncmp n as bs
      else if a < b then - 1 else 1)"
| "strncmp _ _ _ = 0"

definition Compare :: "MemberId \<Rightarrow> MemberId \<Rightarrow> int" where
  "Compare a b =
     (if m_len a = m_len b then strncmp MemberId_Size (m_value a) (m_value b)
      else int (m_len a) - int (m_len b))"

definition MemberId_less :: "MemberId \<Rightarrow> MemberId \<Rightarrow> bool" where
  "MemberId_less a b \<longleftrightarrow> Compare a b < 0"

definition MemberId_greater :: "MemberId \<Rightarrow> MemberId \<Rightarrow> bool" where
  "MemberId_greater a b \<longleftrightarrow> Compare a b > 0"

definition MemberId_eq :: "MemberId \<Rightarrow> MemberId \<Rightarrow> bool" where
  "MemberId_eq a b \<longleftrightarrow> Compare a b = 0"

definition MemberId_ge :: "MemberId \<Rightarrow> MemberId \<Rightarrow> bool" where
  "MemberId_ge a b \<longleftrightarrow> Compare a b \<ge> 0"

subsection \<open>What a member identifier denotes\<close>

datatype mid = Mid "u8 list"

fun mid_string :: "mid \<Rightarrow> u8 list" where
  "mid_string (Mid s) = s"

definition member_abs :: "MemberId \<Rightarrow> mid" where
  "member_abs m = Mid (c_str (m_value m))"

instantiation mid :: linorder
begin

definition less_eq_mid :: "mid \<Rightarrow> mid \<Rightarrow> bool" where
  "less_eq_mid a b \<longleftrightarrow> (length (mid_string a), mid_string a) = (length (mid_string b), mid_string b) \<or>
     length (mid_string a) < length (mid_string b) \<or>
     length (mid_string a) = length (mid_string b) \<and> mid_string a < mid_string b"

definition less_mid :: "mid \<Rightarrow> mid \<Rightarrow> bool" where
  "less_mid a b \<longleftrightarrow> length (mid_string a) < length (mid_string b) \<or>
     length (mid_string a) = length (mid_string b) \<and> mid_string a < mid_string b"

instance
proof (standard, goal_cases)
  case (1 x y)
  show ?case by (auto simp: less_eq_mid_def less_mid_def)
next
  case (2 x)
  show ?case by (simp add: less_eq_mid_def)
next
  case (3 x y z)
  then show ?case by (auto simp: less_eq_mid_def)
next
  case (4 x y)
  then show ?case by (cases x; cases y) (auto simp: less_eq_mid_def)
next
  case (5 x y)
  then show ?case by (cases x; cases y) (auto simp: less_eq_mid_def)
qed

end

lemma strncmp_equal_length:
  assumes "length (c_str as) = length (c_str bs)" "length (c_str as) < n"
    "length (c_str as) < length as" "length (c_str bs) < length bs"
  shows "(strncmp n as bs < 0 \<longleftrightarrow> c_str as < c_str bs) \<and> (strncmp n as bs = 0 \<longleftrightarrow> c_str as = c_str bs)"
  using assms
proof (induction n as bs rule: strncmp.induct)
  case (1 n a as b bs)
  then show ?case by (auto simp: c_str_def split: if_splits)
qed (auto simp: c_str_def)

lemma Compare_abs:
  assumes "member_ok a" "member_ok b"
  shows "Compare a b < 0 \<longleftrightarrow> member_abs a < member_abs b"
    and "Compare a b = 0 \<longleftrightarrow> member_abs a = member_abs b"
  using assms strncmp_equal_length [of "m_value a" "m_value b" MemberId_Size]
  by (auto simp: Compare_def member_ok_def member_abs_def less_mid_def)

lemma MemberId_operators_abs:
  assumes "member_ok a" "member_ok b"
  shows "MemberId_less a b \<longleftrightarrow> member_abs a < member_abs b"
    and "MemberId_eq a b \<longleftrightarrow> member_abs a = member_abs b"
    and "MemberId_greater a b \<longleftrightarrow> member_abs a > member_abs b"
    and "MemberId_ge a b \<longleftrightarrow> member_abs a \<ge> member_abs b"
  using Compare_abs [OF assms]
  by (auto simp: MemberId_less_def MemberId_eq_def MemberId_greater_def MemberId_ge_def)


subsection \<open>Numeric member identifiers\<close>

text \<open>The C library's \<^verbatim>\<open>_strtoui64\<close> with base 0, and the decimal \<^verbatim>\<open>%I64u\<close>.\<close>

definition isspace :: "u8 \<Rightarrow> bool" where
  "isspace b \<longleftrightarrow> b = 32 \<or> 9 \<le> b \<and> b \<le> 13"

definition digit_val :: "u8 \<Rightarrow> nat option" where
  "digit_val b =
     (if 48 \<le> b \<and> b \<le> 57 then Some (unat b - 48)
      else if 97 \<le> b \<and> b \<le> 122 then Some (unat b - 87)
      else if 65 \<le> b \<and> b \<le> 90 then Some (unat b - 55)
      else None)"

fun parse_digits :: "nat \<Rightarrow> nat \<Rightarrow> u8 list \<Rightarrow> nat \<times> u8 list" where
  "parse_digits base acc [] = (acc, [])"
| "parse_digits base acc (b # bs) =
     (case digit_val b of
        None \<Rightarrow> (acc, b # bs)
      | Some d \<Rightarrow> if d < base then parse_digits base (acc * base + d) bs else (acc, b # bs))"

text \<open>The value and the text from endPtr on; nothing converted leaves endPtr at the start.\<close>
definition strtoui64 :: "u8 list \<Rightarrow> u64 \<times> u8 list" where
  "strtoui64 s =
     (let t = dropWhile isspace s;
          neg = (t \<noteq> [] \<and> hd t = 45);
          t = (if t \<noteq> [] \<and> (hd t = 43 \<or> hd t = 45) then tl t else t);
          hex = (length t \<ge> 3 \<and> t ! 0 = 48 \<and> (t ! 1 = 120 \<or> t ! 1 = 88) \<and>
                 (\<exists>d \<in> set_option (digit_val (t ! 2)). d < 16));
          base = (if hex then 16 else if t \<noteq> [] \<and> hd t = 48 then 8 else 10);
          u = (if hex then drop 2 t else t);
          (v, rest) = parse_digits base 0 u
      in if rest = u then (0, s)
         else (if v \<ge> 2 ^ 64 then - 1 else if neg then - of_nat v else of_nat v, rest))"

definition ParseMemberIdAsUInt64 :: "u8 list \<Rightarrow> u64 res" where
  "ParseMemberIdAsUInt64 memberId =
     (let s = c_str memberId in
      if s = [] then Inr 0
      else case strtoui64 s of (value, rest) \<Rightarrow> log_assert (rest = []) value)"

fun dec_digits :: "nat \<Rightarrow> u8 list" where
  "dec_digits n = (if n < 10 then [of_nat (48 + n)] else dec_digits (n div 10) @ [of_nat (48 + n mod 10)])"

declare dec_digits.simps [simp del]

lemma digit_val_dec [simp]: "d < 10 \<Longrightarrow> digit_val (of_nat (48 + d)) = Some d"
proof -
  assume d: "d < 10"
  then have u: "unat (of_nat (48 + d) :: u8) = 48 + d"
    by (simp only: unat_of_nat) (simp add: take_bit_nat_eq_self)
  with d show ?thesis
    by (simp only: digit_val_def word_le_nat_alt u) simp
qed

lemma parse_digits_append:
  "(\<forall>b \<in> set bs. \<exists>d < base. digit_val b = Some d) \<Longrightarrow>
   parse_digits base acc (bs @ cs) = parse_digits base (fst (parse_digits base acc bs)) cs"
  by (induction bs arbitrary: acc) auto

lemma dec_digits_are_digits: "b \<in> set (dec_digits n) \<Longrightarrow> \<exists>d < 10. b = of_nat (48 + d)"
proof (induction n rule: dec_digits.induct)
  case (1 n)
  show ?case
  proof (cases "n < 10")
    case True
    then show ?thesis using 1(2) by (subst (asm) dec_digits.simps) auto
  next
    case False
    then have "b \<in> set (dec_digits (n div 10)) \<or> b = of_nat (48 + n mod 10)"
      using 1(2) by (subst (asm) dec_digits.simps) auto
    moreover have "n mod 10 < 10" by simp
    ultimately show ?thesis using 1(1) [OF False] by blast
  qed
qed

lemma dec_digits_digit_val: "\<forall>b \<in> set (dec_digits n). \<exists>d < 10. digit_val b = Some d"
  using dec_digits_are_digits digit_val_dec by blast

lemma parse_dec_digits: "parse_digits 10 0 (dec_digits n) = (n, [])"
proof (induction n rule: dec_digits.induct)
  case (1 n)
  show ?case
  proof (cases "n < 10")
    case True
    then show ?thesis by (subst dec_digits.simps) (simp del: of_nat_add)
  next
    case False
    have "n mod 10 < 10" by simp
    then show ?thesis using False 1 parse_digits_append [OF dec_digits_digit_val, of 0 "n div 10"]
      by (subst dec_digits.simps) (simp del: of_nat_add)
  qed
qed

lemma dec_digits_not_Nil [simp]: "dec_digits n \<noteq> []"
  by (subst dec_digits.simps) simp

lemma dec_digits_hd: "0 < n \<Longrightarrow> \<exists>d. 0 < d \<and> d < 10 \<and> hd (dec_digits n) = of_nat (48 + d)"
proof (induction n rule: dec_digits.induct)
  case (1 n)
  show ?case
  proof (cases "n < 10")
    case True
    then show ?thesis using 1(2) by (subst dec_digits.simps) auto
  next
    case False
    then show ?thesis using 1(1) [OF False] by (subst dec_digits.simps) (simp add: div_greater_zero_iff)
  qed
qed

lemma dec_digits_length: "n < 10 ^ k \<Longrightarrow> 0 < k \<Longrightarrow> length (dec_digits n) \<le> k"
proof (induction n arbitrary: k rule: dec_digits.induct)
  case (1 n)
  show ?case
  proof (cases "n < 10")
    case True
    then show ?thesis using 1(3) by (subst dec_digits.simps) simp
  next
    case False
    then obtain j where j: "k = Suc j" "0 < j"
      using 1(2,3) by (cases k; cases "k - 1") auto
    then have "n div 10 < 10 ^ j" using 1(2) by (simp add: less_mult_imp_div_less)
    then show ?thesis using 1(1) [OF False _ j(2)] False j(1) by (subst dec_digits.simps) simp
  qed
qed

lemma dec_char_word:
  assumes "d < 10"
  shows "unat (of_nat (48 + d) :: u8) = 48 + d"
  using assms by (simp only: unat_of_nat) (simp add: take_bit_nat_eq_self)

lemma dec_digits_nonzero: "b \<in> set (dec_digits n) \<Longrightarrow> b \<noteq> 0"
  using dec_digits_are_digits [of b n] dec_char_word by (metis add_is_0 unat_0 zero_neq_numeral)

lemma c_str_dec_digits [simp]: "c_str (dec_digits n @ 0 # r) = dec_digits n"
  using dec_digits_nonzero [of _ n] by (simp add: c_str_def takeWhile_append)


lemma strtoui64_dec:
  assumes "0 < n" "n < 2 ^ 64"
  shows "strtoui64 (dec_digits n) = (of_nat n, [])"
proof -
  obtain d where d: "0 < d" "d < 10" "hd (dec_digits n) = of_nat (48 + d)"
    using dec_digits_hd assms(1) by blast
  let ?h = "hd (dec_digits n)"
  have u: "unat ?h = 48 + d" using d dec_char_word by simp
  then have ns: "\<not> isspace ?h" and nsign: "?h \<noteq> 43" "?h \<noteq> 45" "?h \<noteq> 48"
    using d(1,2) by (auto simp: isspace_def word_le_nat_alt)
  have dw: "dropWhile isspace (dec_digits n) = dec_digits n"
    using ns by (cases "dec_digits n") auto
  have "dec_digits n ! 0 \<noteq> 48" using nsign by (simp add: hd_conv_nth)
  with nsign show ?thesis
    using assms(2) by (simp add: strtoui64_def dw parse_dec_digits Let_def dec_digits_not_Nil [symmetric])
qed

lemma Parse_dec_digits:
  "0 < n \<Longrightarrow> n < 2 ^ 64 \<Longrightarrow> ParseMemberIdAsUInt64 (dec_digits n @ 0 # r) = Inr (of_nat n)"
  by (simp add: ParseMemberIdAsUInt64_def strtoui64_dec)

subsection \<open>Wire form\<close>

definition MemberId_Marshal :: "u16 \<Rightarrow> MemberId \<Rightarrow> marshal_data \<Rightarrow> marshal_data res" where
  "MemberId_Marshal version m md =
     (if version \<le> 3
      then bindE (ParseMemberIdAsUInt64 (m_value m)) (\<lambda>value. WriteUInt64 value md)
      else WriteData (of_nat MemberId_Size) (m_value m) md)"

text \<open>The receiver's old field bytes stay behind the terminator of a numeric identifier.\<close>
definition MemberId_UnMarshal :: "u16 \<Rightarrow> MemberId \<Rightarrow> MemberId reader" where
  "MemberId_UnMarshal version old =
     bindR (if version \<le> 3
            then bindR ReadUInt64 (\<lambda>value.
                   returnR (if value = 0 then 0 # drop 1 (m_value old)
                            else string_copy (dec_digits (unat value)) (m_value old)))
            else ReadData (of_nat MemberId_Size))
       (\<lambda>v. guardR (0 \<in> set v) (returnR \<lparr>m_value = v, m_len = length (c_str v)\<rparr>))"

definition MemberId_GetBaseSize :: "u16 \<Rightarrow> u32" where
  "MemberId_GetBaseSize version = (if version \<le> 3 then 8 else of_nat MemberId_Size)"

text \<open>The identifiers the numeric versions of the protocol can carry.\<close>
definition member_numeric :: "MemberId \<Rightarrow> bool" where
  "member_numeric m \<longleftrightarrow> m = MemberId_empty \<or>
     (\<exists>n. 0 < n \<and> n < 2 ^ 64 \<and>
        m = \<lparr>m_value = string_copy (dec_digits n) (replicate MemberId_Size 0),
             m_len = length (dec_digits n)\<rparr>)"

definition member_valid :: "u16 \<Rightarrow> MemberId \<Rightarrow> bool" where
  "member_valid version m \<longleftrightarrow> member_ok m \<and> (version \<le> 3 \<longrightarrow> member_numeric m)"

definition enc_MemberId :: "u16 \<Rightarrow> MemberId \<Rightarrow> u8 list" where
  "enc_MemberId version m =
     (if version \<le> 3
      then le_bytes 8 (case ParseMemberIdAsUInt64 (m_value m) of Inl _ \<Rightarrow> 0 | Inr v \<Rightarrow> v)
      else m_value m)"

lemma c_str_dec [simp]: "c_str (dec_digits n) = dec_digits n"
  using dec_digits_nonzero [of _ n] by (simp add: c_str_def takeWhile_eq_all_conv)

lemma member_numeric_parse:
  assumes "member_numeric m"
  shows "\<exists>v. ParseMemberIdAsUInt64 (m_value m) = Inr v \<and>
     m_value m = (if v = 0 then 0 # drop 1 (m_value MemberId_empty)
                  else string_copy (dec_digits (unat v)) (m_value MemberId_empty))"
  using assms unfolding member_numeric_def
proof (elim disjE exE conjE)
  assume "m = MemberId_empty"
  then show ?thesis
    by (intro exI [of _ 0]) (simp add: MemberId_empty_def MemberId_Size_def ParseMemberIdAsUInt64_def c_str_def
        numeral_eq_Suc)
next
  fix n assume n: "0 < n" "n < 2 ^ 64" and
    m: "m = \<lparr>m_value = string_copy (dec_digits n) (replicate MemberId_Size 0), m_len = length (dec_digits n)\<rparr>"
  have "(of_nat n :: u64) \<noteq> 0" "unat (of_nat n :: u64) = n"
    using n by (auto simp: unat_of_nat word_of_nat_eq_0_iff dest: nat_dvd_not_less)
  then show ?thesis
    using n m by (intro exI [of _ "of_nat n"])
      (simp add: string_copy_def Parse_dec_digits MemberId_empty_def)
qed

lemma member_ok_terminated: "member_ok m \<Longrightarrow> 0 \<in> set (m_value m)"
proof (rule ccontr)
  assume "member_ok m" "0 \<notin> set (m_value m)"
  then have "c_str (m_value m) = m_value m" by (auto simp: c_str_def takeWhile_eq_all_conv)
  with \<open>member_ok m\<close> show False by (auto simp: member_ok_def)
qed

lemma writes_MemberId [rsl_intros]:
  assumes "member_valid version m"
  shows "writes (MemberId_Marshal version m) (enc_MemberId version m)"
proof (cases "version \<le> 3")
  case True
  then obtain v where v: "ParseMemberIdAsUInt64 (m_value m) = Inr v"
    using assms member_numeric_parse by (auto simp: member_valid_def)
  then have "MemberId_Marshal version m = WriteUInt64 v"
    using True by (simp add: MemberId_Marshal_def fun_eq_iff)
  then show ?thesis using v True writes_UInt64 by (simp add: enc_MemberId_def)
next
  case False
  have "MemberId_Marshal version m = WriteData (of_nat MemberId_Size) (m_value m)"
    using False by (simp add: MemberId_Marshal_def fun_eq_iff)
  moreover have "length (m_value m) = 64" using assms by (simp add: member_valid_def member_ok_def MemberId_Size_def)
  ultimately show ?thesis
    using False writes_Data [of "of_nat MemberId_Size" "m_value m"]
    by (simp add: enc_MemberId_def MemberId_Size_def)
qed

lemma reads_MemberId [rsl_intros]:
  assumes "member_valid version m"
  shows "reads (MemberId_UnMarshal version MemberId_empty) (enc_MemberId version m) m"
proof -
  have ok: "member_ok m" using assms by (simp add: member_valid_def)
  have A: "reads (if version \<le> 3
            then bindR ReadUInt64 (\<lambda>value.
                   returnR (if value = 0 then 0 # drop 1 (m_value MemberId_empty)
                            else string_copy (dec_digits (unat value)) (m_value MemberId_empty)))
            else ReadData (of_nat MemberId_Size)) (enc_MemberId version m) (m_value m)"
  proof (cases "version \<le> 3")
    case True
    then obtain v where v: "ParseMemberIdAsUInt64 (m_value m) = Inr v"
      "m_value m = (if v = 0 then 0 # drop 1 (m_value MemberId_empty)
                    else string_copy (dec_digits (unat v)) (m_value MemberId_empty))"
      using assms member_numeric_parse [of m] unfolding member_valid_def by blast
    then have "enc_MemberId version m = le_bytes 8 v"
      using True by (simp add: enc_MemberId_def)
    with v(2) show ?thesis using True by (simp only: if_True) (rule reads_bind_return [OF reads_UInt64], simp)
  next
    case False
    then show ?thesis using ok reads_get_bytes [of "of_nat MemberId_Size" "m_value m"]
      by (simp add: enc_MemberId_def ReadData_def member_ok_def)
  qed
  have B: "reads (guardR (0 \<in> set (m_value m)) (returnR \<lparr>m_value = m_value m, m_len = length (c_str (m_value m))\<rparr>)) [] m"
  proof (rule reads_guard [OF member_ok_terminated [OF ok]])
    have "m = \<lparr>m_value = m_value m, m_len = length (c_str (m_value m))\<rparr>"
      using ok by (cases m) (simp add: member_ok_def)
    then show "reads (returnR \<lparr>m_value = m_value m, m_len = length (c_str (m_value m))\<rparr>) [] m"
      by (metis reads_return)
  qed
  show ?thesis
    unfolding MemberId_UnMarshal_def
    using reads_bind [OF A, where f = "\<lambda>v. guardR (0 \<in> set v) (returnR \<lparr>m_value = v, m_len = length (c_str v)\<rparr>)", OF B]
    by (simp only: append_Nil2)
qed


section \<open>Primary cookies\<close>

record PrimaryCookie =
  pc_len :: u32
  pc_data :: "u8 list"

definition cookie_ok :: "PrimaryCookie \<Rightarrow> bool" where
  "cookie_ok c \<longleftrightarrow> length (pc_data c) = unat (pc_len c)"

definition PrimaryCookie_empty :: PrimaryCookie where
  "PrimaryCookie_empty = \<lparr>pc_len = 0, pc_data = []\<rparr>"

definition PrimaryCookie_Marshal :: "PrimaryCookie \<Rightarrow> marshal_data \<Rightarrow> marshal_data res" where
  "PrimaryCookie_Marshal c md =
     bindE (WriteUInt32 (pc_len c) md) (\<lambda>md.
       if pc_len c \<noteq> 0 then WriteData (pc_len c) (pc_data c) md else Inr md)"

text \<open>With copy the bytes are read; without it the cookie points into the buffer and the read
  pointer is moved past them.\<close>
definition PrimaryCookie_UnMarshal :: "bool \<Rightarrow> PrimaryCookie reader" where
  "PrimaryCookie_UnMarshal copy =
     bindR ReadUInt32 (\<lambda>len.
       if len > 0
       then if copy then bindR (ReadData len) (\<lambda>bs. returnR \<lparr>pc_len = len, pc_data = bs\<rparr>)
            else bindR (PeekDataPointer len) (\<lambda>off md.
                   bindE (load off (unat len) (m_memoryManager md)) (\<lambda>bs.
                   bindE (ForwardReadPointer len md) (\<lambda>(_, md).
                     Inr (Some \<lparr>pc_len = len, pc_data = bs\<rparr>, md))))
       else returnR \<lparr>pc_len = len, pc_data = []\<rparr>)"

definition PrimaryCookie_GetMarshalLen :: "PrimaryCookie \<Rightarrow> u32" where
  "PrimaryCookie_GetMarshalLen c = pc_len c + 4"

definition enc_PrimaryCookie :: "PrimaryCookie \<Rightarrow> u8 list" where
  "enc_PrimaryCookie c = le_bytes 4 (pc_len c) @ pc_data c"

lemma writes_PrimaryCookie [rsl_intros]:
  assumes "cookie_ok c"
  shows "writes (PrimaryCookie_Marshal c) (enc_PrimaryCookie c)"
proof -
  have "writes (\<lambda>md. if pc_len c \<noteq> 0 then WriteData (pc_len c) (pc_data c) md else Inr md) (pc_data c)"
    using assms writes_Data [of "pc_len c" "pc_data c"] writes_Nil
    by (cases "pc_len c = 0") (auto simp: cookie_ok_def)
  then show ?thesis unfolding PrimaryCookie_Marshal_def enc_PrimaryCookie_def by (intro rsl_intros)
qed

text \<open>Peeking and moving forward consumes the same bytes as reading.\<close>
lemma reads_peek:
  assumes "n = of_nat (length bs)"
  shows "reads (bindR (PeekDataPointer n) (\<lambda>off md.
                   bindE (load off (unat n) (m_memoryManager md)) (\<lambda>bs.
                   bindE (ForwardReadPointer n md) (\<lambda>(_, md). Inr (Some (f bs), md))))) bs (f bs)"
  unfolding reads_def
proof (intro allI impI)
  fix md rest assume md: "md_ok md" "\<not> m_overshoot md" "md_rest md = bs @ rest"
  show "bindR (PeekDataPointer n) (\<lambda>off md.
                   bindE (load off (unat n) (m_memoryManager md)) (\<lambda>bs.
                   bindE (ForwardReadPointer n md) (\<lambda>(_, md). Inr (Some (f bs), md)))) md
      = Inr (Some (f bs), advance (length bs) md)"
    by (simp add: bindR_def peek_forward [OF assms md])
qed

lemma reads_PrimaryCookie [rsl_intros]:
  assumes "cookie_ok c"
  shows "reads (PrimaryCookie_UnMarshal copy) (enc_PrimaryCookie c) c"
  unfolding PrimaryCookie_UnMarshal_def enc_PrimaryCookie_def
proof (rule reads_bind [OF reads_UInt32])
  have n: "pc_len c = of_nat (length (pc_data c))" using assms by (simp add: cookie_ok_def)
  have c: "c = \<lparr>pc_len = pc_len c, pc_data = pc_data c\<rparr>" by simp
  have rd: "reads (bindR (ReadData (pc_len c)) (\<lambda>bs. returnR \<lparr>pc_len = pc_len c, pc_data = bs\<rparr>)) (pc_data c) c"
    unfolding ReadData_def using n by (intro reads_bind_return [OF reads_get_bytes]) simp_all
  have pk: "reads (bindR (PeekDataPointer (pc_len c)) (\<lambda>off md.
                   bindE (load off (unat (pc_len c)) (m_memoryManager md)) (\<lambda>bs.
                   bindE (ForwardReadPointer (pc_len c) md) (\<lambda>(_, md).
                     Inr (Some \<lparr>pc_len = pc_len c, pc_data = bs\<rparr>, md))))) (pc_data c) c"
    using reads_peek [OF n, of "\<lambda>bs. \<lparr>pc_len = pc_len c, pc_data = bs\<rparr>"]
    by (simp only: c [symmetric])
  have z: "\<not> 0 < pc_len c \<Longrightarrow> pc_data c = [] \<and> c = \<lparr>pc_len = pc_len c, pc_data = []\<rparr>"
    using assms by (cases c) (simp add: cookie_ok_def word_gt_0)
  show "reads (if 0 < pc_len c
       then if copy then bindR (ReadData (pc_len c)) (\<lambda>bs. returnR \<lparr>pc_len = pc_len c, pc_data = bs\<rparr>)
            else bindR (PeekDataPointer (pc_len c)) (\<lambda>off md.
                   bindE (load off (unat (pc_len c)) (m_memoryManager md)) (\<lambda>bs.
                   bindE (ForwardReadPointer (pc_len c) md) (\<lambda>(_, md).
                     Inr (Some \<lparr>pc_len = pc_len c, pc_data = bs\<rparr>, md))))
       else returnR \<lparr>pc_len = pc_len c, pc_data = []\<rparr>) (pc_data c) c"
    using rd pk z reads_return [of c] by auto
qed


section \<open>Ballot numbers\<close>

datatype 'm BallotNumber = BallotNumber (m_ballotId: u32) (m_ballotMember: 'm)

definition BallotNumber_less :: "MemberId BallotNumber \<Rightarrow> MemberId BallotNumber \<Rightarrow> bool" where
  "BallotNumber_less a b =
     (if m_ballotId a = m_ballotId b then MemberId_less (m_ballotMember a) (m_ballotMember b)
      else m_ballotId a < m_ballotId b)"

definition BallotNumber_greater :: "MemberId BallotNumber \<Rightarrow> MemberId BallotNumber \<Rightarrow> bool" where
  "BallotNumber_greater a b =
     (if m_ballotId a = m_ballotId b then MemberId_greater (m_ballotMember a) (m_ballotMember b)
      else m_ballotId a > m_ballotId b)"

definition BallotNumber_eq :: "MemberId BallotNumber \<Rightarrow> MemberId BallotNumber \<Rightarrow> bool" where
  "BallotNumber_eq a b \<longleftrightarrow>
     m_ballotId a = m_ballotId b \<and> MemberId_eq (m_ballotMember a) (m_ballotMember b)"

definition BallotNumber_ge :: "MemberId BallotNumber \<Rightarrow> MemberId BallotNumber \<Rightarrow> bool" where
  "BallotNumber_ge a b =
     (if m_ballotId a = m_ballotId b then MemberId_ge (m_ballotMember a) (m_ballotMember b)
      else m_ballotId a \<ge> m_ballotId b)"

text \<open>The order of ballots over any linearly ordered identifiers.\<close>

instantiation BallotNumber :: (linorder) linorder
begin

definition less_eq_BallotNumber :: "'a BallotNumber \<Rightarrow> 'a BallotNumber \<Rightarrow> bool" where
  "less_eq_BallotNumber a b \<longleftrightarrow> m_ballotId a < m_ballotId b \<or>
     m_ballotId a = m_ballotId b \<and> m_ballotMember a \<le> m_ballotMember b"

definition less_BallotNumber :: "'a BallotNumber \<Rightarrow> 'a BallotNumber \<Rightarrow> bool" where
  "less_BallotNumber a b \<longleftrightarrow> m_ballotId a < m_ballotId b \<or>
     m_ballotId a = m_ballotId b \<and> m_ballotMember a < m_ballotMember b"

instance
proof (standard, goal_cases)
  case (4 x y)
  then show ?case by (cases x; cases y) (auto simp: less_eq_BallotNumber_def)
qed (auto simp: less_eq_BallotNumber_def less_BallotNumber_def)

end

abbreviation ballot_abs :: "MemberId BallotNumber \<Rightarrow> mid BallotNumber" where
  "ballot_abs \<equiv> map_BallotNumber member_abs"

definition ballot_ok :: "MemberId BallotNumber \<Rightarrow> bool" where
  "ballot_ok b \<longleftrightarrow> member_ok (m_ballotMember b)"

lemma BallotNumber_operators_abs:
  assumes "ballot_ok a" "ballot_ok b"
  shows "BallotNumber_less a b \<longleftrightarrow> ballot_abs a < ballot_abs b"
    and "BallotNumber_greater a b \<longleftrightarrow> ballot_abs a > ballot_abs b"
    and "BallotNumber_eq a b \<longleftrightarrow> ballot_abs a = ballot_abs b"
    and "BallotNumber_ge a b \<longleftrightarrow> ballot_abs a \<ge> ballot_abs b"
  using assms MemberId_operators_abs [of "m_ballotMember a" "m_ballotMember b"]
  by (cases a; cases b; auto simp: BallotNumber_less_def BallotNumber_greater_def BallotNumber_eq_def
      BallotNumber_ge_def less_BallotNumber_def less_eq_BallotNumber_def ballot_ok_def)+

definition BallotNumber_Marshal ::
  "u16 \<Rightarrow> MemberId BallotNumber \<Rightarrow> marshal_data \<Rightarrow> marshal_data res" where
  "BallotNumber_Marshal version b md =
     bindE (WriteUInt32 (m_ballotId b) md) (MemberId_Marshal version (m_ballotMember b))"

definition BallotNumber_UnMarshal :: "u16 \<Rightarrow> MemberId BallotNumber reader" where
  "BallotNumber_UnMarshal version =
     bindR ReadUInt32 (\<lambda>i. bindR (MemberId_UnMarshal version MemberId_empty) (\<lambda>m.
       returnR (BallotNumber i m)))"

definition BallotNumber_GetBaseSize :: "u16 \<Rightarrow> u32" where
  "BallotNumber_GetBaseSize version = 4 + MemberId_GetBaseSize version"

definition enc_BallotNumber :: "u16 \<Rightarrow> MemberId BallotNumber \<Rightarrow> u8 list" where
  "enc_BallotNumber version b = le_bytes 4 (m_ballotId b) @ enc_MemberId version (m_ballotMember b)"

lemma writes_BallotNumber [rsl_intros]:
  "member_valid version (m_ballotMember b) \<Longrightarrow>
   writes (BallotNumber_Marshal version b) (enc_BallotNumber version b)"
  unfolding BallotNumber_Marshal_def enc_BallotNumber_def by (intro rsl_intros)

lemma reads_BallotNumber [rsl_intros]:
  "member_valid version (m_ballotMember b) \<Longrightarrow>
   reads (BallotNumber_UnMarshal version) (enc_BallotNumber version b) b"
  unfolding BallotNumber_UnMarshal_def enc_BallotNumber_def
  by (rule reads_bind [OF reads_UInt32], rule reads_bind_return [OF reads_MemberId]) (cases b; simp)+

lemma length_enc_MemberId:
  "member_ok m \<Longrightarrow> length (enc_MemberId version m) = unat (MemberId_GetBaseSize version)"
  by (simp add: enc_MemberId_def MemberId_GetBaseSize_def member_ok_def MemberId_Size_def)

lemma length_enc_BallotNumber:
  "ballot_ok b \<Longrightarrow> length (enc_BallotNumber version b) = unat (BallotNumber_GetBaseSize version)"
  by (simp add: enc_BallotNumber_def BallotNumber_GetBaseSize_def ballot_ok_def length_enc_MemberId)
    (simp add: MemberId_GetBaseSize_def MemberId_Size_def)

interpretation cookiec: codec PrimaryCookie_Marshal "PrimaryCookie_UnMarshal copy" enc_PrimaryCookie cookie_ok for copy
  by unfold_locales (rule rsl_intros, assumption)+

interpretation memberc: codec "MemberId_Marshal version" "MemberId_UnMarshal version MemberId_empty"
  "enc_MemberId version" "member_valid version" for version
  by unfold_locales (rule rsl_intros, assumption)+

interpretation ballotc: codec "BallotNumber_Marshal version" "BallotNumber_UnMarshal version"
  "enc_BallotNumber version" "\<lambda>b. member_valid version (m_ballotMember b)" for version
  by unfold_locales (rule rsl_intros, assumption)+

end
