(* ===== verification/Messages.thy ===== *)
theory Messages
  imports Member_Ballot
begin

text \<open>
  The message header (message.cpp, class Message) and the fixed-size messages
  built on it: JoinMessage, PrepareMsg and StatusResponse.  C++ inheritance is
  record extension; the virtual GetMarshalLen that Message::Marshal calls is
  passed to Message_Marshal.  The decree predicates are stated over any linear
  order of member identifiers.
\<close>

section \<open>The message header\<close>

definition Message_None :: u16 where "Message_None = 0"
definition Message_Vote :: u16 where "Message_Vote = 1"
definition Message_VoteAccepted :: u16 where "Message_VoteAccepted = 2"
definition Message_Prepare :: u16 where "Message_Prepare = 3"
definition Message_PrepareAccepted :: u16 where "Message_PrepareAccepted = 4"
definition Message_NotAccepted :: u16 where "Message_NotAccepted = 5"
definition Message_StatusQuery :: u16 where "Message_StatusQuery = 6"
definition Message_StatusResponse :: u16 where "Message_StatusResponse = 7"
definition Message_FetchVotes :: u16 where "Message_FetchVotes = 8"
definition Message_FetchCheckpoint :: u16 where "Message_FetchCheckpoint = 9"
definition Message_ReconfigurationDecision :: u16 where "Message_ReconfigurationDecision = 10"
definition Message_DefunctConfiguration :: u16 where "Message_DefunctConfiguration = 11"
definition Message_Join :: u16 where "Message_Join = 12"
definition Message_JoinRequest :: u16 where "Message_JoinRequest = 13"
definition Message_Bootstrap :: u16 where "Message_Bootstrap = 14"

lemmas Message_ids [simp] =
  Message_None_def Message_Vote_def Message_VoteAccepted_def Message_Prepare_def
  Message_PrepareAccepted_def Message_NotAccepted_def Message_StatusQuery_def
  Message_StatusResponse_def Message_FetchVotes_def Message_FetchCheckpoint_def
  Message_ReconfigurationDecision_def Message_DefunctConfiguration_def Message_Join_def
  Message_JoinRequest_def Message_Bootstrap_def

definition s_MessageMagic :: u32 where
  "s_MessageMagic = 0xF00DFACE"

definition s_ChecksumOffset :: u32 where
  "s_ChecksumOffset = 2 + 4"

record 'm Message =
  m_version :: u16
  m_unMarshalLen :: u32
  m_checksum :: u64
  m_magic :: u32
  m_msgId :: u16
  m_memberId :: 'm
  m_decree :: u64
  m_configurationNumber :: u32
  m_ballot :: "'m BallotNumber"
  m_payload :: u64
  m_remoteIP :: u32
  m_remotePort :: u16
  m_asClient :: bool

definition InitMessage ::
  "u16 \<Rightarrow> u16 \<Rightarrow> 'm \<Rightarrow> u64 \<Rightarrow> u32 \<Rightarrow> 'm BallotNumber \<Rightarrow> u64 \<Rightarrow> 'm Message" where
  "InitMessage version msg memberId decree configurationNumber ballot payload =
     \<lparr>m_version = version, m_unMarshalLen = 0, m_checksum = 0, m_magic = s_MessageMagic,
      m_msgId = msg, m_memberId = memberId, m_decree = decree,
      m_configurationNumber = configurationNumber, m_ballot = ballot, m_payload = payload,
      m_remoteIP = 0, m_remotePort = 0, m_asClient = False\<rparr>"

definition IsVersionValid :: "u16 \<Rightarrow> bool" where
  "IsVersionValid version \<longleftrightarrow>
     version = 1 \<or> version = 2 \<or> version = 3 \<or> version = 4 \<or> version = 5 \<or> version = 6"

definition Message_GetBaseSize :: "u16 \<Rightarrow> u32" where
  "Message_GetBaseSize version =
     (let size = 2 + 4 + 8 + 4 + 2 + MemberId_GetBaseSize version + 8 + BallotNumber_GetBaseSize version;
          size = (if version \<ge> 3 then size + 4 else size)
      in if version \<ge> 6 then size + 8 else size)"

subsection \<open>Decrees\<close>

definition IsLowerDecree :: "('m::linorder, 'z) Message_scheme \<Rightarrow> u64 \<Rightarrow> 'm BallotNumber \<Rightarrow> bool" where
  "IsLowerDecree msg curDecree curBallot \<longleftrightarrow> m_decree msg < curDecree \<or> m_ballot msg < curBallot"

definition IsHigherDecree :: "('m::linorder, 'z) Message_scheme \<Rightarrow> u64 \<Rightarrow> 'm BallotNumber \<Rightarrow> bool" where
  "IsHigherDecree msg curDecree curBallot \<longleftrightarrow>
     (m_decree msg > curDecree \<and> m_ballot msg \<ge> curBallot) \<or>
     (m_decree msg = curDecree \<and> m_ballot msg > curBallot)"

definition IsNextDecree :: "('m::linorder, 'z) Message_scheme \<Rightarrow> u64 \<Rightarrow> 'm BallotNumber \<Rightarrow> bool" where
  "IsNextDecree msg curDecree curBallot \<longleftrightarrow>
     (m_decree msg = curDecree \<and> m_ballot msg \<ge> curBallot) \<or>
     (m_decree msg = curDecree + 1 \<and> m_ballot msg = curBallot)"

definition IsSameDecree :: "('m::linorder, 'z) Message_scheme \<Rightarrow> u64 \<Rightarrow> 'm BallotNumber \<Rightarrow> bool" where
  "IsSameDecree msg curDecree curBallot \<longleftrightarrow> m_decree msg = curDecree \<and> m_ballot msg = curBallot"

lemmas decree_defs = IsLowerDecree_def IsHigherDecree_def IsNextDecree_def IsSameDecree_def

text \<open>Every message is exactly one of lower, same or higher.\<close>
lemma decree_trichotomy:
  "(IsLowerDecree msg d b \<and> \<not> IsSameDecree msg d b \<and> \<not> IsHigherDecree msg d b) \<or>
   (\<not> IsLowerDecree msg d b \<and> IsSameDecree msg d b \<and> \<not> IsHigherDecree msg d b) \<or>
   (\<not> IsLowerDecree msg d b \<and> \<not> IsSameDecree msg d b \<and> IsHigherDecree msg d b)"
  by (auto simp: decree_defs not_less)

lemma next_not_lower: "IsNextDecree msg d b \<Longrightarrow> d + 1 \<noteq> 0 \<Longrightarrow> \<not> IsLowerDecree msg d b"
  using word_less_inc [of d] by (auto simp: decree_defs)

subsection \<open>Wire form\<close>

text \<open>len is the message's virtual GetMarshalLen().\<close>
definition Message_Marshal ::
  "u32 \<Rightarrow> (MemberId, 'z) Message_scheme \<Rightarrow> marshal_data \<Rightarrow> marshal_data res" where
  "Message_Marshal len msg md =
     bindE (log_assert (m_version msg \<noteq> 0) md) (\<lambda>md.
     bindE (WriteUInt16 (m_version msg) md) (\<lambda>md.
     bindE (WriteUInt32 len md) (\<lambda>md.
     bindE (WriteUInt64 (m_checksum msg) md) (\<lambda>md.
     bindE (WriteUInt32 (m_magic msg) md) (\<lambda>md.
     bindE (WriteUInt16 (m_msgId msg) md) (\<lambda>md.
     bindE (MemberId_Marshal (m_version msg) (m_memberId msg) md) (\<lambda>md.
     bindE (WriteUInt64 (m_decree msg) md) (\<lambda>md.
     bindE (if m_version msg \<ge> 3 then WriteUInt32 (m_configurationNumber msg) md else Inr md) (\<lambda>md.
     bindE (BallotNumber_Marshal (m_version msg) (m_ballot msg) md) (\<lambda>md.
       if m_version msg \<ge> 6 then WriteUInt64 (m_payload msg) md else Inr md))))))))))"

text \<open>
  Message::UnMarshal.  It fills the fields of a default-constructed message;
  the object it was called on is discarded by every caller when it fails.
\<close>
definition Message_UnMarshal :: "MemberId Message reader" where
  "Message_UnMarshal =
     bindR ReadUInt16 (\<lambda>version.
     guardR (IsVersionValid version) (
     bindR ReadUInt32 (\<lambda>unMarshalLen.
     bindR ReadUInt64 (\<lambda>checksum.
     bindR ReadUInt32 (\<lambda>magic.
     bindR ReadUInt16 (\<lambda>msgId.
     bindR (MemberId_UnMarshal version MemberId_empty) (\<lambda>memberId.
     bindR ReadUInt64 (\<lambda>decree.
     bindR (if version \<ge> 3 then ReadUInt32 else returnR 1) (\<lambda>configurationNumber.
     bindR (BallotNumber_UnMarshal version) (\<lambda>ballot.
     bindR (if version \<ge> 6 then ReadUInt64 else returnR 0) (\<lambda>payload.
     guardR (\<not> unMarshalLen < Message_GetBaseSize version) (
     guardR (magic = s_MessageMagic) (
       returnR \<lparr>m_version = version, m_unMarshalLen = unMarshalLen, m_checksum = checksum,
                m_magic = magic, m_msgId = msgId, m_memberId = memberId, m_decree = decree,
                m_configurationNumber = configurationNumber, m_ballot = ballot,
                m_payload = payload, m_remoteIP = 0, m_remotePort = 0, m_asClient = False\<rparr>)))))))))))))"

definition Message_Peek :: "MemberId Message reader" where
  "Message_Peek md =
     (let readPtr = GetReadPointer md in
      bindE (Message_UnMarshal md) (\<lambda>(ret, md).
      bindE (SetReadPointer readPtr md) (\<lambda>(_, md). Inr (ret, md))))"

definition Message_UnMarshalBuf :: "'a reader \<Rightarrow> (nat \<Rightarrow> u8) \<Rightarrow> u32 \<Rightarrow> 'a option res" where
  "Message_UnMarshalBuf unmarshal buf bufLen =
     bindE (SetMarshaledLength bufLen
              \<lparr>m_memoryManager = FixedMarshalMemoryManager buf bufLen,
               m_selfOwnsMemoryManager = False, m_overshoot = False\<rparr>) (\<lambda>md.
     bindE (unmarshal md) (\<lambda>(ret, _). Inr ret))"


definition message_valid :: "(MemberId, 'z) Message_scheme \<Rightarrow> bool" where
  "message_valid msg \<longleftrightarrow> IsVersionValid (m_version msg) \<and> m_magic msg = s_MessageMagic \<and>
     member_valid (m_version msg) (m_memberId msg) \<and>
     member_valid (m_version msg) (m_ballotMember (m_ballot msg)) \<and>
     (m_version msg < 3 \<longrightarrow> m_configurationNumber msg = 1) \<and>
     (m_version msg < 6 \<longrightarrow> m_payload msg = 0) \<and>
     m_remoteIP msg = 0 \<and> m_remotePort msg = 0 \<and> \<not> m_asClient msg \<and>
     \<not> m_unMarshalLen msg < Message_GetBaseSize (m_version msg)"

text \<open>The header's bytes, with len in the length field.\<close>
definition enc_Message :: "u32 \<Rightarrow> (MemberId, 'z) Message_scheme \<Rightarrow> u8 list" where
  "enc_Message len msg =
     le_bytes 2 (m_version msg) @ le_bytes 4 len @ le_bytes 8 (m_checksum msg) @
     le_bytes 4 (m_magic msg) @ le_bytes 2 (m_msgId msg) @
     enc_MemberId (m_version msg) (m_memberId msg) @ le_bytes 8 (m_decree msg) @
     (if m_version msg \<ge> 3 then le_bytes 4 (m_configurationNumber msg) else []) @
     enc_BallotNumber (m_version msg) (m_ballot msg) @
     (if m_version msg \<ge> 6 then le_bytes 8 (m_payload msg) else [])"

lemma writes_if [rsl_intros]:
  "(b \<Longrightarrow> writes w bs) \<Longrightarrow> (\<not> b \<Longrightarrow> writes w' cs) \<Longrightarrow>
   writes (\<lambda>md. if b then w md else w' md) (if b then bs else cs)"
  by simp

lemma reads_if [rsl_intros]:
  "(b \<Longrightarrow> reads r bs v) \<Longrightarrow> (\<not> b \<Longrightarrow> reads r' cs v) \<Longrightarrow>
   reads (if b then r else r') (if b then bs else cs) v"
  by simp

lemma writes_assert [rsl_intros]: "b \<Longrightarrow> writes w bs \<Longrightarrow> writes (\<lambda>md. bindE (log_assert b md) w) bs"
  by (simp add: log_assert_def)

lemma IsVersionValid_nonzero: "IsVersionValid v \<Longrightarrow> v \<noteq> 0"
  by (auto simp: IsVersionValid_def)

lemma writes_Message [rsl_intros]:
  assumes "IsVersionValid (m_version msg)" "member_valid (m_version msg) (m_memberId msg)"
    "member_valid (m_version msg) (m_ballotMember (m_ballot msg))"
  shows "writes (Message_Marshal len msg) (enc_Message len msg)"
  unfolding Message_Marshal_def enc_Message_def
  using assms by (intro rsl_intros) (auto simp: IsVersionValid_nonzero)

lemma reads_Message [rsl_intros]:
  assumes "message_valid msg" "m_unMarshalLen msg = len"
  shows "reads Message_UnMarshal (enc_Message len msg) (Message.truncate msg)"
proof -
  have c: "\<not> 3 \<le> m_version msg \<Longrightarrow> 1 = m_configurationNumber msg"
    and p: "\<not> 6 \<le> m_version msg \<Longrightarrow> 0 = m_payload msg"
    and g: "m_magic msg = s_MessageMagic" "\<not> len < Message_GetBaseSize (m_version msg)"
      "IsVersionValid (m_version msg)"
    and nw: "m_remoteIP msg = 0" "m_remotePort msg = 0" "m_asClient msg = False"
    and mv: "member_valid (m_version msg) (m_memberId msg)"
      "member_valid (m_version msg) (m_ballotMember (m_ballot msg))"
    using assms by (auto simp: message_valid_def)
  have fin: "reads (guardR (\<not> len < Message_GetBaseSize (m_version msg)) (
     guardR (m_magic msg = s_MessageMagic) (
       returnR \<lparr>m_version = m_version msg, m_unMarshalLen = len, m_checksum = m_checksum msg,
                m_magic = m_magic msg, m_msgId = m_msgId msg, m_memberId = m_memberId msg,
                m_decree = m_decree msg, m_configurationNumber = m_configurationNumber msg,
                m_ballot = m_ballot msg, m_payload = m_payload msg, m_remoteIP = 0, m_remotePort = 0,
                m_asClient = False\<rparr>))) [] (Message.truncate msg)"
    using assms(2) g nw reads_return [of "Message.truncate msg"]
    by (simp add: guardR_def Message.truncate_def)
  have last: "reads (bindR (if 6 \<le> m_version msg then ReadUInt64 else returnR 0) (\<lambda>payload.
     guardR (\<not> len < Message_GetBaseSize (m_version msg)) (
     guardR (m_magic msg = s_MessageMagic) (
       returnR \<lparr>m_version = m_version msg, m_unMarshalLen = len, m_checksum = m_checksum msg,
                m_magic = m_magic msg, m_msgId = m_msgId msg, m_memberId = m_memberId msg,
                m_decree = m_decree msg, m_configurationNumber = m_configurationNumber msg,
                m_ballot = m_ballot msg, m_payload = payload, m_remoteIP = 0, m_remotePort = 0,
                m_asClient = False\<rparr>))))
     (if 6 \<le> m_version msg then le_bytes 8 (m_payload msg) else []) (Message.truncate msg)"
    by (rule reads_bind [where cs = "[]" and v = "m_payload msg", simplified append_Nil2])
      (auto intro: reads_UInt64 reads_return simp: p fin)
  have conf: "reads (if 3 \<le> m_version msg then ReadUInt32 else returnR 1)
      (if 3 \<le> m_version msg then le_bytes 4 (m_configurationNumber msg) else []) (m_configurationNumber msg)"
    using c reads_UInt32 reads_return by auto
  show ?thesis
    unfolding Message_UnMarshal_def enc_Message_def
    by (rule reads_bind [OF reads_UInt16], rule reads_guard [OF g(3)],
        rule reads_bind [OF reads_UInt32], rule reads_bind [OF reads_UInt64],
        rule reads_bind [OF reads_UInt32], rule reads_bind [OF reads_UInt16],
        rule reads_bind [OF reads_MemberId [OF mv(1)]], rule reads_bind [OF reads_UInt64],
        rule reads_bind [OF conf], rule reads_bind [OF reads_BallotNumber [OF mv(2)]], rule last)
qed

lemma length_enc_Message:
  assumes "member_ok (m_memberId msg)" "ballot_ok (m_ballot msg)"
  shows "length (enc_Message len msg) = unat (Message_GetBaseSize (m_version msg))"
  using assms
  by (simp add: enc_Message_def length_enc_MemberId length_enc_BallotNumber)
    (simp add: Message_GetBaseSize_def Let_def MemberId_GetBaseSize_def BallotNumber_GetBaseSize_def MemberId_Size_def)

text \<open>A plain message travels as its header alone, of GetBaseSize() bytes.\<close>
definition plain_valid :: "MemberId Message \<Rightarrow> bool" where
  "plain_valid msg \<longleftrightarrow> message_valid msg \<and> m_unMarshalLen msg = Message_GetBaseSize (m_version msg)"

definition Message_Marshal_plain :: "MemberId Message \<Rightarrow> marshal_data \<Rightarrow> marshal_data res" where
  "Message_Marshal_plain msg = Message_Marshal (Message_GetBaseSize (m_version msg)) msg"

interpretation messagec: codec Message_Marshal_plain Message_UnMarshal
  "\<lambda>msg. enc_Message (Message_GetBaseSize (m_version msg)) msg" plain_valid
proof (unfold_locales, goal_cases)
  case (1 x)
  then show ?case
    unfolding Message_Marshal_plain_def by (intro writes_Message) (auto simp: plain_valid_def message_valid_def)
next
  case (2 x)
  then show ?case using reads_Message [of x] by (cases x) (simp add: plain_valid_def Message.truncate_def)
qed


section \<open>Messages with a body\<close>

subsection \<open>JoinMessage\<close>

record 'm JoinMessage = "'m Message" +
  jm_learnPort :: u16
  jm_minDecreeInLog :: u64
  jm_checkpointedDecree :: u64
  jm_checkpointSize :: u64

definition JoinMessage_GetMarshalLen :: "('m, 'z) JoinMessage_scheme \<Rightarrow> u32" where
  "JoinMessage_GetMarshalLen msg = Message_GetBaseSize (m_version msg) + 2 + 8 + 8 + 8"

definition JoinMessage_Marshal :: "MemberId JoinMessage \<Rightarrow> marshal_data \<Rightarrow> marshal_data res" where
  "JoinMessage_Marshal msg md =
     bindE (Message_Marshal (JoinMessage_GetMarshalLen msg) msg md) (\<lambda>md.
     bindE (WriteUInt16 (jm_learnPort msg) md) (\<lambda>md.
     bindE (WriteUInt64 (jm_minDecreeInLog msg) md) (\<lambda>md.
     bindE (WriteUInt64 (jm_checkpointedDecree msg) md) (\<lambda>md.
       WriteUInt64 (jm_checkpointSize msg) md))))"

definition JoinMessage_UnMarshal :: "MemberId JoinMessage reader" where
  "JoinMessage_UnMarshal =
     bindR Message_UnMarshal (\<lambda>msg.
     guardR (m_msgId msg = Message_Join) (
     bindR ReadUInt16 (\<lambda>learnPort.
     bindR ReadUInt64 (\<lambda>minDecreeInLog.
     bindR ReadUInt64 (\<lambda>checkpointedDecree.
     bindR ReadUInt64 (\<lambda>checkpointSize.
       returnR (Message.extend msg
         (JoinMessage.fields learnPort minDecreeInLog checkpointedDecree checkpointSize))))))))"

definition enc_JoinMessage :: "MemberId JoinMessage \<Rightarrow> u8 list" where
  "enc_JoinMessage msg =
     enc_Message (JoinMessage_GetMarshalLen msg) msg @ le_bytes 2 (jm_learnPort msg) @
     le_bytes 8 (jm_minDecreeInLog msg) @ le_bytes 8 (jm_checkpointedDecree msg) @
     le_bytes 8 (jm_checkpointSize msg)"

text \<open>A message as UnMarshal leaves it: the length field is the length it was sent with.\<close>
definition join_valid :: "MemberId JoinMessage \<Rightarrow> bool" where
  "join_valid msg \<longleftrightarrow> message_valid msg \<and> m_msgId msg = Message_Join \<and>
     m_unMarshalLen msg = JoinMessage_GetMarshalLen msg"

interpretation joinc: codec JoinMessage_Marshal JoinMessage_UnMarshal enc_JoinMessage join_valid
proof (unfold_locales, goal_cases)
  case (1 x)
  then have "IsVersionValid (m_version x)" "member_valid (m_version x) (m_memberId x)"
    "member_valid (m_version x) (m_ballotMember (m_ballot x))"
    by (auto simp: join_valid_def message_valid_def)
  then show ?case
    unfolding JoinMessage_Marshal_def enc_JoinMessage_def by (intro rsl_intros)
next
  case (2 x)
  then have v: "message_valid x" "m_unMarshalLen x = JoinMessage_GetMarshalLen x" "m_msgId x = Message_Join"
    by (auto simp: join_valid_def)
  have eq: "Message.extend (Message.truncate x) (JoinMessage.fields (jm_learnPort x) (jm_minDecreeInLog x)
      (jm_checkpointedDecree x) (jm_checkpointSize x)) = x"
    by (cases x) (simp add: JoinMessage.defs Message.defs)
  show ?case
    unfolding JoinMessage_UnMarshal_def enc_JoinMessage_def
    by (rule reads_bind [OF reads_Message [OF v(1,2)]], rule reads_guard,
        simp add: v Message.defs, rule reads_bind [OF reads_UInt16], rule reads_bind [OF reads_UInt64],
        rule reads_bind [OF reads_UInt64], rule reads_bind_return [OF reads_UInt64], simp add: eq)
qed

subsection \<open>PrepareMsg\<close>

record 'm PrepareMsg = "'m Message" +
  pm_primaryCookie :: PrimaryCookie

definition PrepareMsg_GetMarshalLen :: "('m, 'z) PrepareMsg_scheme \<Rightarrow> u32" where
  "PrepareMsg_GetMarshalLen msg =
     (let cookieLen = (if m_version msg \<ge> 2 then PrimaryCookie_GetMarshalLen (pm_primaryCookie msg) else 0)
      in cookieLen + Message_GetBaseSize (m_version msg))"

definition PrepareMsg_Marshal :: "MemberId PrepareMsg \<Rightarrow> marshal_data \<Rightarrow> marshal_data res" where
  "PrepareMsg_Marshal msg md =
     bindE (Message_Marshal (PrepareMsg_GetMarshalLen msg) msg md) (\<lambda>md.
       if m_version msg \<ge> 2 then PrimaryCookie_Marshal (pm_primaryCookie msg) md else Inr md)"

definition PrepareMsg_UnMarshal :: "MemberId PrepareMsg reader" where
  "PrepareMsg_UnMarshal =
     bindR Message_UnMarshal (\<lambda>msg.
     guardR (m_msgId msg = Message_Prepare) (
     bindR (if m_version msg \<ge> 2 then PrimaryCookie_UnMarshal True else returnR PrimaryCookie_empty) (\<lambda>cookie.
       returnR (Message.extend msg (PrepareMsg.fields cookie)))))"

definition enc_PrepareMsg :: "MemberId PrepareMsg \<Rightarrow> u8 list" where
  "enc_PrepareMsg msg =
     enc_Message (PrepareMsg_GetMarshalLen msg) msg @
     (if m_version msg \<ge> 2 then enc_PrimaryCookie (pm_primaryCookie msg) else [])"

definition prepare_valid :: "MemberId PrepareMsg \<Rightarrow> bool" where
  "prepare_valid msg \<longleftrightarrow> message_valid msg \<and> m_msgId msg = Message_Prepare \<and>
     m_unMarshalLen msg = PrepareMsg_GetMarshalLen msg \<and> cookie_ok (pm_primaryCookie msg) \<and>
     (m_version msg < 2 \<longrightarrow> pm_primaryCookie msg = PrimaryCookie_empty)"

interpretation preparec: codec PrepareMsg_Marshal PrepareMsg_UnMarshal enc_PrepareMsg prepare_valid
proof (unfold_locales, goal_cases)
  case (1 x)
  then have "IsVersionValid (m_version x)" "member_valid (m_version x) (m_memberId x)"
    "member_valid (m_version x) (m_ballotMember (m_ballot x))" "cookie_ok (pm_primaryCookie x)"
    by (auto simp: prepare_valid_def message_valid_def)
  then show ?case
    unfolding PrepareMsg_Marshal_def enc_PrepareMsg_def by (intro rsl_intros)
next
  case (2 x)
  then have v: "message_valid x" "m_unMarshalLen x = PrepareMsg_GetMarshalLen x" "m_msgId x = Message_Prepare"
    and c: "cookie_ok (pm_primaryCookie x)" "\<not> 2 \<le> m_version x \<Longrightarrow> pm_primaryCookie x = PrimaryCookie_empty"
    by (auto simp: prepare_valid_def)
  have ver: "m_version (Message.truncate x) = m_version x" by (simp add: Message.defs)
  have eq: "Message.extend (Message.truncate x) (PrepareMsg.fields (pm_primaryCookie x)) = x"
    by (cases x) (simp add: PrepareMsg.defs Message.defs)
  have "reads (if 2 \<le> m_version x then PrimaryCookie_UnMarshal True else returnR PrimaryCookie_empty)
     (if m_version x \<ge> 2 then enc_PrimaryCookie (pm_primaryCookie x) else []) (pm_primaryCookie x)"
    using c reads_PrimaryCookie reads_return [of PrimaryCookie_empty] by auto
  then show ?case
    unfolding PrepareMsg_UnMarshal_def enc_PrepareMsg_def
    by (intro reads_bind [OF reads_Message [OF v(1,2)]] reads_guard, simp add: v Message.defs)
      (rule reads_bind_return [where v = "pm_primaryCookie x"], simp_all add: eq ver)
qed

subsection \<open>StatusResponse\<close>

record 'm StatusResponse = "'m Message" +
  m_queryDecree :: u64
  m_queryBallot :: "'m BallotNumber"
  m_lastReceivedAgo :: u64
  sr_minDecreeInLog :: u64
  sr_checkpointedDecree :: u64
  sr_checkpointSize :: u64
  sr_maxBallot :: "'m BallotNumber"
  sr_state :: u32

definition StatusResponse_GetMarshalLen :: "('m, 'z) StatusResponse_scheme \<Rightarrow> u32" where
  "StatusResponse_GetMarshalLen msg =
     8 + BallotNumber_GetBaseSize (m_version msg) + 8 + 8 + 8 + 8 +
     BallotNumber_GetBaseSize (m_version msg) + 4 + Message_GetBaseSize (m_version msg)"

definition StatusResponse_Marshal :: "MemberId StatusResponse \<Rightarrow> marshal_data \<Rightarrow> marshal_data res" where
  "StatusResponse_Marshal msg md =
     bindE (Message_Marshal (StatusResponse_GetMarshalLen msg) msg md) (\<lambda>md.
     bindE (WriteUInt64 (m_queryDecree msg) md) (\<lambda>md.
     bindE (BallotNumber_Marshal (m_version msg) (m_queryBallot msg) md) (\<lambda>md.
     bindE (WriteUInt64 (m_lastReceivedAgo msg) md) (\<lambda>md.
     bindE (WriteUInt64 (sr_minDecreeInLog msg) md) (\<lambda>md.
     bindE (WriteUInt64 (sr_checkpointedDecree msg) md) (\<lambda>md.
     bindE (WriteUInt64 (sr_checkpointSize msg) md) (\<lambda>md.
     bindE (BallotNumber_Marshal (m_version msg) (sr_maxBallot msg) md) (\<lambda>md.
       WriteUInt32 (sr_state msg) md))))))))"

definition StatusResponse_UnMarshal :: "MemberId StatusResponse reader" where
  "StatusResponse_UnMarshal =
     bindR Message_UnMarshal (\<lambda>msg.
     guardR (m_msgId msg = Message_StatusResponse) (
     bindR ReadUInt64 (\<lambda>queryDecree.
     bindR (BallotNumber_UnMarshal (m_version msg)) (\<lambda>queryBallot.
     bindR ReadUInt64 (\<lambda>lastReceivedAgo.
     bindR ReadUInt64 (\<lambda>minDecreeInLog.
     bindR ReadUInt64 (\<lambda>checkpointedDecree.
     bindR ReadUInt64 (\<lambda>checkpointSize.
     bindR (BallotNumber_UnMarshal (m_version msg)) (\<lambda>maxBallot.
     bindR ReadUInt32 (\<lambda>state.
       returnR (Message.extend msg (StatusResponse.fields queryDecree queryBallot lastReceivedAgo
         minDecreeInLog checkpointedDecree checkpointSize maxBallot state))))))))))))"

definition enc_StatusResponse :: "MemberId StatusResponse \<Rightarrow> u8 list" where
  "enc_StatusResponse msg =
     enc_Message (StatusResponse_GetMarshalLen msg) msg @ le_bytes 8 (m_queryDecree msg) @
     enc_BallotNumber (m_version msg) (m_queryBallot msg) @ le_bytes 8 (m_lastReceivedAgo msg) @
     le_bytes 8 (sr_minDecreeInLog msg) @ le_bytes 8 (sr_checkpointedDecree msg) @
     le_bytes 8 (sr_checkpointSize msg) @ enc_BallotNumber (m_version msg) (sr_maxBallot msg) @
     le_bytes 4 (sr_state msg)"

definition status_valid :: "MemberId StatusResponse \<Rightarrow> bool" where
  "status_valid msg \<longleftrightarrow> message_valid msg \<and> m_msgId msg = Message_StatusResponse \<and>
     m_unMarshalLen msg = StatusResponse_GetMarshalLen msg \<and>
     member_valid (m_version msg) (m_ballotMember (m_queryBallot msg)) \<and>
     member_valid (m_version msg) (m_ballotMember (sr_maxBallot msg))"

interpretation statusc: codec StatusResponse_Marshal StatusResponse_UnMarshal enc_StatusResponse status_valid
proof (unfold_locales, goal_cases)
  case (1 x)
  then have "IsVersionValid (m_version x)" "member_valid (m_version x) (m_memberId x)"
    "member_valid (m_version x) (m_ballotMember (m_ballot x))"
    "member_valid (m_version x) (m_ballotMember (m_queryBallot x))"
    "member_valid (m_version x) (m_ballotMember (sr_maxBallot x))"
    by (auto simp: status_valid_def message_valid_def)
  then show ?case
    unfolding StatusResponse_Marshal_def enc_StatusResponse_def by (intro rsl_intros)
next
  case (2 x)
  then have v: "message_valid x" "m_unMarshalLen x = StatusResponse_GetMarshalLen x"
      "m_msgId x = Message_StatusResponse"
    and b: "member_valid (m_version x) (m_ballotMember (m_queryBallot x))"
      "member_valid (m_version x) (m_ballotMember (sr_maxBallot x))"
    by (auto simp: status_valid_def)
  have ver: "m_version (Message.truncate x) = m_version x" by (simp add: Message.defs)
  have eq: "Message.extend (Message.truncate x) (StatusResponse.fields (m_queryDecree x) (m_queryBallot x)
      (m_lastReceivedAgo x) (sr_minDecreeInLog x) (sr_checkpointedDecree x) (sr_checkpointSize x)
      (sr_maxBallot x) (sr_state x)) = x"
    by (cases x) (simp add: StatusResponse.defs Message.defs)
  show ?case
    unfolding StatusResponse_UnMarshal_def enc_StatusResponse_def
    by (rule reads_bind [OF reads_Message [OF v(1,2)]], rule reads_guard,
        simp add: v Message.defs, unfold ver, rule reads_bind [OF reads_UInt64],
        rule reads_bind [OF reads_BallotNumber [OF b(1)]], rule reads_bind [OF reads_UInt64],
        rule reads_bind [OF reads_UInt64], rule reads_bind [OF reads_UInt64],
        rule reads_bind [OF reads_UInt64], rule reads_bind [OF reads_BallotNumber [OF b(2)]],
        rule reads_bind_return [OF reads_UInt32], simp add: eq)
qed

end
