(* ===== verification/Member_Set.thy ===== *)
theory Member_Set
  imports Messages
begin

text \<open>
  Replica sets: RSLNode and RSLNodeCollection (rsl.h, rsl.cpp lines 1387 to
  1491), MemberSet (rsl.cpp lines 1042 to 1347) with its wire form, and the
  BootstrapMsg that carries one.  A collection is a growing array; the rest of
  the development uses the sequence of nodes it implements.
\<close>

section \<open>Nodes and collections\<close>

text \<open>The character arrays of RSLNode by the strings they hold.\<close>
record RSLNode =
  n_memberIdString :: "u8 list"
  n_hostName :: "u8 list"
  n_ip :: u32
  n_rslPort :: u16
  n_rslLearnPort :: u16
  n_appPort :: u16

definition RSLNode_empty :: RSLNode where
  "RSLNode_empty = \<lparr>n_memberIdString = [], n_hostName = [], n_ip = 0, n_rslPort = 0,
     n_rslLearnPort = 0, n_appPort = 0\<rparr>"

record RSLNodeCollection =
  nc_size :: nat
  nc_count :: nat
  nc_array :: "RSLNode list"

definition s_Increment :: nat where
  "s_Increment = 5"

definition nc_ok :: "RSLNodeCollection \<Rightarrow> bool" where
  "nc_ok c \<longleftrightarrow> length (nc_array c) = nc_size c \<and> nc_count c \<le> nc_size c"

definition nc_abs :: "RSLNodeCollection \<Rightarrow> RSLNode list" where
  "nc_abs c = take (nc_count c) (nc_array c)"

definition RSLNodeCollection_new :: RSLNodeCollection where
  "RSLNodeCollection_new = \<lparr>nc_size = s_Increment, nc_count = 0, nc_array = replicate s_Increment RSLNode_empty\<rparr>"

definition nc_Clear :: "RSLNodeCollection \<Rightarrow> RSLNodeCollection" where
  "nc_Clear c = c\<lparr>nc_count := 0\<rparr>"

definition nc_EnsureSize :: "RSLNodeCollection \<Rightarrow> RSLNodeCollection res" where
  "nc_EnsureSize c =
     (if nc_size c > nc_count c then Inr c
      else bindE (log_assert (nc_size c = nc_count c) ()) (\<lambda>_.
             let newSize = nc_size c + s_Increment in
             Inr (c\<lparr>nc_size := newSize,
                    nc_array := take (nc_size c) (nc_array c) @ replicate s_Increment RSLNode_empty\<rparr>)))"

definition nc_Append :: "RSLNode \<Rightarrow> RSLNodeCollection \<Rightarrow> RSLNodeCollection res" where
  "nc_Append node c =
     bindE (nc_EnsureSize c) (\<lambda>c.
     bindE (log_assert (nc_count c < nc_size c) ()) (\<lambda>_.
       Inr (c\<lparr>nc_array := (nc_array c)[nc_count c := node], nc_count := nc_count c + 1\<rparr>)))"

text \<open>The copying loop of Remove, from i up to the new count.\<close>
definition nc_shift :: "nat \<Rightarrow> nat \<Rightarrow> RSLNode list \<Rightarrow> RSLNode list" where
  "nc_shift index count arr = fold (\<lambda>i arr. arr[i := arr ! (i + 1)]) [index..<count] arr"

definition nc_Remove :: "nat \<Rightarrow> RSLNodeCollection \<Rightarrow> RSLNodeCollection res" where
  "nc_Remove index c =
     bindE (log_assert (index < nc_count c \<and> nc_count c > 0) ()) (\<lambda>_.
       let count = nc_count c - 1 in
       if count = 0 then Inr (c\<lparr>nc_count := count\<rparr>)
       else Inr (c\<lparr>nc_count := count, nc_array := nc_shift index count (nc_array c)\<rparr>))"

text \<open>operator[] checks its index against the capacity.\<close>
definition nc_index :: "nat \<Rightarrow> RSLNodeCollection \<Rightarrow> RSLNode res" where
  "nc_index index c = bindE (log_assert (index < nc_size c) ()) (\<lambda>_. Inr (nc_array c ! index))"

fun nc_CopyLoop :: "nat list \<Rightarrow> RSLNodeCollection \<Rightarrow> RSLNodeCollection \<Rightarrow> RSLNodeCollection res" where
  "nc_CopyLoop [] other c = Inr c"
| "nc_CopyLoop (i # is) other c =
     bindE (nc_index i other) (\<lambda>node. bindE (nc_Append node c) (nc_CopyLoop is other))"

definition nc_CopyFrom :: "RSLNodeCollection \<Rightarrow> RSLNodeCollection \<Rightarrow> RSLNodeCollection res" where
  "nc_CopyFrom other c = nc_CopyLoop [0..<nc_count other] other (nc_Clear c)"

fun append_all :: "('n \<Rightarrow> 'c \<Rightarrow> 'c res) \<Rightarrow> 'n list \<Rightarrow> 'c \<Rightarrow> 'c res" where
  "append_all app [] c = Inr c"
| "append_all app (n # ns) c = bindE (app n c) (append_all app ns)"

text \<open>What the clients of a collection rely on.\<close>
locale node_sequence =
  fixes invar :: "'c \<Rightarrow> bool" and nodes :: "'c \<Rightarrow> RSLNode list"
    and empty :: 'c
    and append :: "RSLNode \<Rightarrow> 'c \<Rightarrow> 'c res"
    and remove :: "nat \<Rightarrow> 'c \<Rightarrow> 'c res"
    and get :: "nat \<Rightarrow> 'c \<Rightarrow> RSLNode res"
  assumes empty_spec: "invar empty \<and> nodes empty = []"
    and append_spec: "invar c \<Longrightarrow> \<exists>c'. append n c = Inr c' \<and> invar c' \<and> nodes c' = nodes c @ [n]"
    and remove_spec: "invar c \<Longrightarrow> i < length (nodes c) \<Longrightarrow>
      \<exists>c'. remove i c = Inr c' \<and> invar c' \<and> nodes c' = take i (nodes c) @ drop (Suc i) (nodes c)"
    and get_spec: "invar c \<Longrightarrow> i < length (nodes c) \<Longrightarrow> get i c = Inr (nodes c ! i)"
begin

lemma append_all_spec:
  "invar c \<Longrightarrow> \<exists>c'. append_all append ns c = Inr c' \<and> invar c' \<and> nodes c' = nodes c @ ns"
proof (induction ns arbitrary: c)
  case (Cons n ns)
  then obtain c1 where "append n c = Inr c1" "invar c1" "nodes c1 = nodes c @ [n]"
    using append_spec by blast
  with Cons.IH [of c1] show ?case by auto
qed simp

lemma build_spec: "\<exists>c'. append_all append ns empty = Inr c' \<and> invar c' \<and> nodes c' = ns"
  using append_all_spec [of empty ns] empty_spec by simp

end

lemma nc_shift_nth:
  "index \<le> count \<Longrightarrow> count < length arr \<Longrightarrow> length (nc_shift index count arr) = length arr \<and>
   (\<forall>j < length arr. nc_shift index count arr ! j = (if index \<le> j \<and> j < count then arr ! (j + 1) else arr ! j))"
proof (induction count)
  case (Suc count)
  show ?case
  proof (cases "index = Suc count")
    case False
    then have "index \<le> count" using Suc.prems by simp
    then have "nc_shift index (Suc count) arr =
        (nc_shift index count arr)[count := nc_shift index count arr ! (count + 1)]"
      by (simp add: nc_shift_def)
    with Suc \<open>index \<le> count\<close> show ?thesis by (auto simp: nth_list_update less_Suc_eq)
  qed (auto simp: nc_shift_def)
qed (simp add: nc_shift_def)

interpretation ncoll: node_sequence nc_ok nc_abs RSLNodeCollection_new nc_Append nc_Remove nc_index
proof (unfold_locales, goal_cases)
  case 1
  show ?case by (simp add: nc_ok_def nc_abs_def RSLNodeCollection_new_def)
next
  case (2 c n)
  then show ?case
    by (auto simp: nc_ok_def nc_abs_def nc_Append_def nc_EnsureSize_def s_Increment_def Let_def
        take_Suc_conv_app_nth nth_append)
next
  case (3 c i)
  then have i: "i < nc_count c" "nc_count c \<le> length (nc_array c)" by (auto simp: nc_ok_def nc_abs_def)
  show ?case
  proof (cases "nc_count c = 1")
    case True
    with i 3(1) show ?thesis by (simp add: nc_Remove_def nc_ok_def nc_abs_def)
  next
    case False
    let ?n = "nc_count c - 1"
    have n: "i \<le> ?n" "?n < length (nc_array c)" using i by auto
    have "take ?n (nc_shift i ?n (nc_array c)) = take i (nc_abs c) @ drop (Suc i) (nc_abs c)"
      using nc_shift_nth [OF n] i
      by (intro nth_equalityI) (auto simp: nc_abs_def nth_append)
    with i False 3(1) show ?thesis
      using nc_shift_nth [OF n] by (auto simp: nc_Remove_def nc_ok_def nc_abs_def Let_def)
  qed
next
  case (4 c i)
  then show ?case by (simp add: nc_index_def nc_ok_def nc_abs_def)
qed

lemma nc_CopyLoop_append_all:
  assumes "nc_ok other" "k \<le> nc_count other"
  shows "nc_CopyLoop [k..<nc_count other] other c = append_all nc_Append (drop k (nc_abs other)) c"
  using assms(2)
proof (induction "nc_count other - k" arbitrary: k c)
  case (Suc m)
  then have k: "k < nc_count other" by simp
  then have up: "[k..<nc_count other] = k # [Suc k..<nc_count other]" by (rule upt_conv_Cons)
  have len: "length (nc_abs other) = nc_count other" using assms(1) by (simp add: nc_ok_def nc_abs_def)
  have "drop k (nc_abs other) = nc_abs other ! k # drop (Suc k) (nc_abs other)"
    using k len by (simp add: Cons_nth_drop_Suc)
  moreover have "nc_index k other = Inr (nc_abs other ! k)"
    using ncoll.get_spec [OF assms(1)] k len by simp
  moreover have "nc_CopyLoop [Suc k..<nc_count other] other = append_all nc_Append (drop (Suc k) (nc_abs other))"
    using Suc(1) [of "Suc k"] Suc(2) k by (intro ext) simp
  ultimately show ?case by (simp add: up)
qed (simp add: nc_abs_def)

lemma nc_CopyFrom_spec:
  assumes "nc_ok other" "nc_ok c"
  shows "\<exists>c'. nc_CopyFrom other c = Inr c' \<and> nc_ok c' \<and> nc_abs c' = nc_abs other"
proof -
  have "nc_ok (nc_Clear c)" "nc_abs (nc_Clear c) = []" using assms(2) by (auto simp: nc_ok_def nc_abs_def nc_Clear_def)
  then show ?thesis
    using nc_CopyLoop_append_all [OF assms(1), of 0] ncoll.append_all_spec [of "nc_Clear c" "nc_abs other"]
    by (simp add: nc_CopyFrom_def)
qed


section \<open>MemberSet\<close>

record MemberSet =
  ms_members :: "RSLNode list"
  ms_cookie :: "u8 list option"
  ms_cookieLength :: u32

definition s_MaxMemberSetCookieLength :: u32 where
  "s_MaxMemberSetCookieLength = 8192"

definition s_HostNameSize :: nat where
  "s_HostNameSize = 256"

definition MemberSet_new :: MemberSet where
  "MemberSet_new = \<lparr>ms_members = [], ms_cookie = None, ms_cookieLength = 0\<rparr>"

definition FreeCookie :: "MemberSet \<Rightarrow> MemberSet" where
  "FreeCookie ms =
     (if ms_cookie ms \<noteq> None then ms\<lparr>ms_cookie := None, ms_cookieLength := 0\<rparr> else ms)"

definition SetConfigurationCookie :: "u8 list \<Rightarrow> u32 \<Rightarrow> MemberSet \<Rightarrow> MemberSet" where
  "SetConfigurationCookie cookie cookieLength ms =
     (let ms = (FreeCookie ms)\<lparr>ms_cookieLength := cookieLength\<rparr> in
      if cookieLength \<noteq> 0 then ms\<lparr>ms_cookie := Some (take (unat cookieLength) cookie)\<rparr> else ms)"

definition MemberSet_Copy :: "MemberSet \<Rightarrow> MemberSet \<Rightarrow> MemberSet" where
  "MemberSet_Copy other ms =
     SetConfigurationCookie (case ms_cookie other of None \<Rightarrow> [] | Some c \<Rightarrow> c) (ms_cookieLength other)
       (ms\<lparr>ms_members := ms_members other\<rparr>)"

definition GetNumMembers :: "MemberSet \<Rightarrow> nat" where
  "GetNumMembers ms = length (ms_members ms)"

text \<open>The MemberId objects built from the members' strings keep what the stack held behind the
  terminator; garb stands for those 64 bytes.\<close>
definition Node_Marshal :: "u8 list \<Rightarrow> u16 \<Rightarrow> RSLNode \<Rightarrow> marshal_data \<Rightarrow> marshal_data res" where
  "Node_Marshal garb version node md =
     bindE (MemberId_of_string garb (n_memberIdString node)) (\<lambda>memberId.
     bindE (MemberId_Marshal version memberId md) (\<lambda>md.
     bindE (WriteUInt32 (n_ip node) md) (\<lambda>md.
     bindE (WriteUInt16 (n_rslPort node) md) (\<lambda>md.
     bindE (if version > 3 then WriteUInt16 (n_rslLearnPort node) md
            else WriteUInt16 (n_appPort node) md) (\<lambda>md.
     bindE (WriteUInt16 (of_nat (length (n_hostName node))) md) (\<lambda>md.
       WriteData (of_nat (length (n_hostName node))) (n_hostName node) md))))))"

fun Nodes_Marshal :: "u8 list \<Rightarrow> u16 \<Rightarrow> RSLNode list \<Rightarrow> marshal_data \<Rightarrow> marshal_data res" where
  "Nodes_Marshal garb version [] md = Inr md"
| "Nodes_Marshal garb version (n # ns) md =
     bindE (Node_Marshal garb version n md) (Nodes_Marshal garb version ns)"

definition MemberSet_Marshal :: "u8 list \<Rightarrow> u16 \<Rightarrow> MemberSet \<Rightarrow> marshal_data \<Rightarrow> marshal_data res" where
  "MemberSet_Marshal garb version ms md =
     (let numMembers = of_nat (GetNumMembers ms) :: u16 in
      bindE (WriteUInt16 numMembers md) (\<lambda>md.
      bindE (Nodes_Marshal garb version (take (unat numMembers) (ms_members ms)) md) (\<lambda>md.
      bindE (WriteUInt32 (ms_cookieLength ms) md) (\<lambda>md.
        WriteData (ms_cookieLength ms) (case ms_cookie ms of None \<Rightarrow> [] | Some c \<Rightarrow> c) md))))"

definition Node_UnMarshal :: "u16 \<Rightarrow> RSLNode reader" where
  "Node_UnMarshal version =
     bindR (MemberId_UnMarshal version MemberId_empty) (\<lambda>memberId.
     bindR ReadUInt32 (\<lambda>ip.
     bindR ReadUInt16 (\<lambda>rslPort.
     bindR ReadUInt16 (\<lambda>port.
     bindR ReadUInt16 (\<lambda>hostNameLength md.
       bindE (log_assert (unat hostNameLength < s_HostNameSize) ()) (\<lambda>_.
         bindR (ReadData (ucast hostNameLength)) (\<lambda>hostName.
           returnR \<lparr>n_memberIdString = c_str (m_value memberId), n_hostName = c_str hostName,
                    n_ip = ip, n_rslPort = rslPort,
                    n_rslLearnPort = (if version > 3 then port else 0),
                    n_appPort = (if version > 3 then 0 else port)\<rparr>) md))))))"

fun Nodes_UnMarshal :: "nat \<Rightarrow> u16 \<Rightarrow> RSLNode list reader" where
  "Nodes_UnMarshal 0 version = returnR []"
| "Nodes_UnMarshal (Suc n) version =
     bindR (Node_UnMarshal version) (\<lambda>node. bindR (Nodes_UnMarshal n version) (\<lambda>ns. returnR (node # ns)))"

definition MemberSet_UnMarshal :: "u16 \<Rightarrow> MemberSet reader" where
  "MemberSet_UnMarshal version =
     bindR ReadUInt16 (\<lambda>numMembers.
     bindR (Nodes_UnMarshal (unat numMembers) version) (\<lambda>members.
     bindR ReadUInt32 (\<lambda>cookieLength.
     guardR (\<not> cookieLength > s_MaxMemberSetCookieLength) (
       if cookieLength \<noteq> 0
       then bindR (ReadData cookieLength) (\<lambda>cookie.
              returnR \<lparr>ms_members = members, ms_cookie = Some cookie, ms_cookieLength = cookieLength\<rparr>)
       else returnR \<lparr>ms_members = members, ms_cookie = None, ms_cookieLength = cookieLength\<rparr>))))"

text \<open>Computed in 64 bits and truncated.\<close>
definition MemberSet_GetMarshalLen :: "u16 \<Rightarrow> MemberSet \<Rightarrow> u32" where
  "MemberSet_GetMarshalLen version ms =
     (let nodeMarshalLen = MemberId_GetBaseSize version + 4 + 2 + 2 + 2 in
      of_nat (unat nodeMarshalLen * GetNumMembers ms + 6 + unat (ms_cookieLength ms) +
        sum_list (map (\<lambda>node. length (n_hostName node)) (ms_members ms))))"

text \<open>memberId.Compare against each member's string.\<close>
definition IncludesMember :: "MemberId \<Rightarrow> MemberSet \<Rightarrow> bool res" where
  "IncludesMember memberId ms =
     fold (\<lambda>node r. bindE r (\<lambda>found.
             if found then Inr True
             else bindE (MemberId_of_string (replicate MemberId_Size 0) (n_memberIdString node)) (\<lambda>m.
                    Inr (Compare memberId m = 0)))) (ms_members ms) (Inr False)"

text \<open>The test of m_memberIdString against NULL compares an array's address and never holds.\<close>
fun Verify_from :: "u16 \<Rightarrow> RSLNode list \<Rightarrow> bool" where
  "Verify_from version [] = True"
| "Verify_from version (n # ns) =
     (if \<exists>n' \<in> set ns. n_memberIdString n = n_memberIdString n' then False
      else if n_rslPort n = 0 then False
      else if version < 4 \<and> snd (strtoui64 (n_memberIdString n)) \<noteq> [] then False
      else Verify_from version ns)"

definition MemberSet_Verify :: "u16 \<Rightarrow> MemberSet \<Rightarrow> bool" where
  "MemberSet_Verify version ms =
     (if length (ms_members ms) = 0 then False else Verify_from version (ms_members ms))"

section \<open>The wire form of a replica set\<close>

definition node_valid :: "u16 \<Rightarrow> RSLNode \<Rightarrow> bool" where
  "node_valid version n \<longleftrightarrow>
     c_str (n_memberIdString n) = n_memberIdString n \<and> length (n_memberIdString n) < MemberId_Size \<and>
     c_str (n_hostName n) = n_hostName n \<and> length (n_hostName n) < s_HostNameSize \<and>
     (version > 3 \<longrightarrow> n_appPort n = 0) \<and>
     (version \<le> 3 \<longrightarrow> n_rslLearnPort n = 0 \<and>
        (n_memberIdString n = [] \<or> (\<exists>k. 0 < k \<and> k < 2 ^ 64 \<and> n_memberIdString n = dec_digits k)))"

definition memberset_valid :: "u16 \<Rightarrow> MemberSet \<Rightarrow> bool" where
  "memberset_valid version ms \<longleftrightarrow> length (ms_members ms) < 2 ^ 16 \<and>
     (\<forall>n \<in> set (ms_members ms). node_valid version n) \<and>
     ms_cookieLength ms \<le> s_MaxMemberSetCookieLength \<and>
     (ms_cookie ms = None \<longleftrightarrow> ms_cookieLength ms = 0) \<and>
     (\<forall>c. ms_cookie ms = Some c \<longrightarrow> length c = unat (ms_cookieLength ms))"

definition node_member :: "u8 list \<Rightarrow> RSLNode \<Rightarrow> MemberId" where
  "node_member garb n = \<lparr>m_value = string_copy (n_memberIdString n) garb, m_len = length (c_str (n_memberIdString n))\<rparr>"

definition enc_Node :: "u8 list \<Rightarrow> u16 \<Rightarrow> RSLNode \<Rightarrow> u8 list" where
  "enc_Node garb version n =
     enc_MemberId version (node_member garb n) @ le_bytes 4 (n_ip n) @ le_bytes 2 (n_rslPort n) @
     le_bytes 2 (if version > 3 then n_rslLearnPort n else n_appPort n) @
     le_bytes 2 (of_nat (length (n_hostName n)) :: u16) @ n_hostName n"

definition enc_MemberSet :: "u8 list \<Rightarrow> u16 \<Rightarrow> MemberSet \<Rightarrow> u8 list" where
  "enc_MemberSet garb version ms =
     le_bytes 2 (of_nat (length (ms_members ms)) :: u16) @ concat (map (enc_Node garb version) (ms_members ms)) @
     le_bytes 4 (ms_cookieLength ms) @ (case ms_cookie ms of None \<Rightarrow> [] | Some c \<Rightarrow> c)"

lemma c_str_terminated: "c_str s = s \<Longrightarrow> c_str (s @ 0 # r) = s"
  by (auto simp: c_str_def takeWhile_append takeWhile_eq_all_conv)

lemma node_member_value:
  "c_str (n_memberIdString n) = n_memberIdString n \<Longrightarrow> c_str (m_value (node_member garb n)) = n_memberIdString n"
  by (simp add: node_member_def string_copy_def c_str_terminated)

lemma node_member_ok:
  "node_valid version n \<Longrightarrow> length garb = MemberId_Size \<Longrightarrow> member_ok (node_member garb n)"
  using node_member_value [of n garb]
  by (simp add: node_valid_def member_ok_def) (simp add: node_member_def string_copy_def)

lemma writes_Node:
  assumes "node_valid version n" "length garb = MemberId_Size"
  shows "writes (Node_Marshal garb version n) (enc_Node garb version n)"
proof -
  have m: "MemberId_of_string garb (n_memberIdString n) = Inr (node_member garb n)"
    using assms(1) by (simp add: MemberId_of_string_def node_valid_def node_member_def)
  have ok: "member_ok (node_member garb n)" using node_member_ok assms .
  have mw: "writes (MemberId_Marshal version (node_member garb n)) (enc_MemberId version (node_member garb n))"
  proof (cases "version \<le> 3")
    case True
    have "\<exists>v. ParseMemberIdAsUInt64 (m_value (node_member garb n)) = Inr v"
      using True assms(1)
      by (auto simp: node_valid_def node_member_def string_copy_def Parse_dec_digits)
        (auto simp: ParseMemberIdAsUInt64_def c_str_def)
    then obtain v where v: "ParseMemberIdAsUInt64 (m_value (node_member garb n)) = Inr v" ..
    then have "MemberId_Marshal version (node_member garb n) = WriteUInt64 v"
      using True by (simp add: MemberId_Marshal_def fun_eq_iff)
    then show ?thesis using v True writes_UInt64 by (simp add: enc_MemberId_def)
  next
    case False
    then show ?thesis using ok by (intro writes_MemberId) (simp add: member_valid_def)
  qed
  have h: "unat (of_nat (length (n_hostName n)) :: u32) = length (n_hostName n)"
    using assms(1) by (simp add: node_valid_def s_HostNameSize_def unat_of_nat take_bit_nat_eq_self)
  have hw: "writes (WriteData (of_nat (length (n_hostName n))) (n_hostName n)) (n_hostName n)"
    using writes_Data [of "of_nat (length (n_hostName n))" "n_hostName n"] by (simp only: h) simp
  have pw: "writes (\<lambda>md. if 3 < version then WriteUInt16 (n_rslLearnPort n) md else WriteUInt16 (n_appPort n) md)
      (le_bytes 2 (if 3 < version then n_rslLearnPort n else n_appPort n))"
    using writes_UInt16 by simp
  show ?thesis
    unfolding Node_Marshal_def enc_Node_def m bindE_simps
    by (intro writes_seq mw hw pw writes_UInt32 writes_UInt16)
qed


lemma reads_node_member:
  assumes "node_valid version n" "length garb = MemberId_Size"
  shows "\<exists>m. reads (MemberId_UnMarshal version MemberId_empty) (enc_MemberId version (node_member garb n)) m \<and>
             c_str (m_value m) = n_memberIdString n"
proof (cases "version \<le> 3")
  case True
  let ?z = "replicate MemberId_Size 0" let ?m = "node_member ?z n"
  have ok: "member_ok ?m" using node_member_ok [OF assms(1)] by simp
  have "member_numeric ?m"
  proof (cases "n_memberIdString n = []")
    case True
    then have "?m = MemberId_empty"
      by (simp add: node_member_def MemberId_empty_def string_copy_def c_str_def MemberId_Size_def
          flip: replicate_Suc)
    then show ?thesis by (simp add: member_numeric_def)
  next
    case False
    then obtain k where "0 < k" "k < 2 ^ 64" "n_memberIdString n = dec_digits k"
      using assms(1) True by (auto simp: node_valid_def)
    then show ?thesis by (auto simp: member_numeric_def node_member_def)
  qed
  with ok have "member_valid version ?m" by (simp add: member_valid_def)
  then have "reads (MemberId_UnMarshal version MemberId_empty) (enc_MemberId version ?m) ?m"
    by (rule reads_MemberId)
  moreover have "enc_MemberId version (node_member garb n) = enc_MemberId version ?m"
    using True node_member_value [of n garb] node_member_value [of n ?z] assms(1)
    by (simp add: enc_MemberId_def ParseMemberIdAsUInt64_def node_valid_def)
  ultimately show ?thesis using node_member_value [of n ?z] assms(1) by (auto simp: node_valid_def)
next
  case False
  then have "member_valid version (node_member garb n)"
    using node_member_ok [OF assms] by (simp add: member_valid_def)
  then show ?thesis using reads_MemberId node_member_value [of n garb] assms(1) by (auto simp: node_valid_def)
qed

lemma reads_assert:
  "b \<Longrightarrow> reads r bs v \<Longrightarrow> reads (\<lambda>md. bindE (log_assert b ()) (\<lambda>_. r md)) bs v"
  by simp

lemma reads_Node:
  assumes "node_valid version n" "length garb = MemberId_Size"
  shows "reads (Node_UnMarshal version) (enc_Node garb version n) n"
proof -
  obtain m where m: "reads (MemberId_UnMarshal version MemberId_empty) (enc_MemberId version (node_member garb n)) m"
      "c_str (m_value m) = n_memberIdString n"
    using reads_node_member [OF assms] by blast
  let ?h = "of_nat (length (n_hostName n)) :: u16"
  have h: "unat ?h = length (n_hostName n)"
    using assms(1) by (simp add: node_valid_def s_HostNameSize_def unat_of_nat take_bit_nat_eq_self)
  then have hc: "(ucast ?h :: u32) = of_nat (length (n_hostName n))"
    by (metis of_nat_unat)
  have g: "unat ?h < s_HostNameSize" using h assms(1) by (simp add: node_valid_def)
  show ?thesis
    unfolding Node_UnMarshal_def enc_Node_def
    by (rule reads_bind [OF m(1)], rule reads_bind [OF reads_UInt32], rule reads_bind [OF reads_UInt16],
        rule reads_bind [OF reads_UInt16], rule reads_bind [OF reads_UInt16], rule reads_assert [OF g],
        unfold ReadData_def, rule reads_bind_return [OF reads_get_bytes [OF hc]])
      (use assms(1) m(2) in \<open>cases n; auto simp: node_valid_def\<close>)
qed

lemma writes_Nodes:
  assumes "length garb = MemberId_Size"
  shows "(\<forall>n \<in> set ns. node_valid version n) \<Longrightarrow>
    writes (Nodes_Marshal garb version ns) (concat (map (enc_Node garb version) ns))"
proof (induction ns)
  case Nil
  have "Nodes_Marshal garb version [] = Inr" by (simp add: fun_eq_iff)
  then show ?case using writes_Nil by simp
next
  case (Cons n ns)
  have "Nodes_Marshal garb version (n # ns) =
      (\<lambda>md. bindE (Node_Marshal garb version n md) (Nodes_Marshal garb version ns))"
    by (simp add: fun_eq_iff)
  then show ?case using Cons writes_seq [OF writes_Node [OF _ assms]] by simp
qed

lemma reads_Nodes:
  assumes "length garb = MemberId_Size"
  shows "(\<forall>n \<in> set ns. node_valid version n) \<Longrightarrow>
    reads (Nodes_UnMarshal (length ns) version) (concat (map (enc_Node garb version) ns)) ns"
  by (induction ns)
    (auto intro: reads_return reads_bind_return intro!: reads_bind [OF reads_Node [OF _ assms]])

interpretation membersetc: codec "MemberSet_Marshal (replicate MemberId_Size g) version" "MemberSet_UnMarshal version"
  "enc_MemberSet (replicate MemberId_Size g) version" "memberset_valid version" for g version
proof (unfold_locales, goal_cases)
  case (1 x)
  let ?g = "replicate MemberId_Size g"
  have n: "unat (of_nat (GetNumMembers x) :: u16) = length (ms_members x)"
    using 1 by (simp add: memberset_valid_def GetNumMembers_def unat_of_nat take_bit_nat_eq_self)
  have ns: "writes (Nodes_Marshal ?g version (take (unat (of_nat (GetNumMembers x) :: u16)) (ms_members x)))
      (concat (map (enc_Node ?g version) (ms_members x)))"
    using writes_Nodes [of ?g "ms_members x" version] 1 by (simp add: n memberset_valid_def)
  let ?c = "case ms_cookie x of None \<Rightarrow> [] | Some c \<Rightarrow> c"
  have "length ?c = unat (ms_cookieLength x)"
    using 1 by (cases "ms_cookie x") (auto simp: memberset_valid_def)
  then have c: "writes (WriteData (ms_cookieLength x) ?c) ?c"
    using writes_Data [of "ms_cookieLength x" ?c] by simp
  show ?case
    unfolding MemberSet_Marshal_def enc_MemberSet_def Let_def GetNumMembers_def [symmetric]
    by (intro writes_seq writes_UInt16 ns writes_UInt32 c)
next
  case (2 x)
  let ?g = "replicate MemberId_Size g"
  have n: "unat (of_nat (length (ms_members x)) :: u16) = length (ms_members x)"
    using 2 by (simp add: memberset_valid_def unat_of_nat take_bit_nat_eq_self)
  have ns: "reads (Nodes_UnMarshal (unat (of_nat (length (ms_members x)) :: u16)) version)
      (concat (map (enc_Node ?g version) (ms_members x))) (ms_members x)"
    using reads_Nodes [of ?g "ms_members x" version] 2 by (simp add: n memberset_valid_def)
  have g: "\<not> s_MaxMemberSetCookieLength < ms_cookieLength x" using 2 by (auto simp: memberset_valid_def)
  show ?case
    unfolding MemberSet_UnMarshal_def enc_MemberSet_def
  proof (rule reads_bind [OF reads_UInt16], rule reads_bind [OF ns], rule reads_bind [OF reads_UInt32],
      rule reads_guard [OF g], cases "ms_cookie x")
    case None
    then have z: "ms_cookieLength x = 0"
      using 2 by (auto simp: memberset_valid_def)
    show "reads (if ms_cookieLength x \<noteq> 0
       then bindR (ReadData (ms_cookieLength x)) (\<lambda>cookie.
              returnR \<lparr>ms_members = ms_members x, ms_cookie = Some cookie, ms_cookieLength = ms_cookieLength x\<rparr>)
       else returnR \<lparr>ms_members = ms_members x, ms_cookie = None, ms_cookieLength = ms_cookieLength x\<rparr>)
       (case ms_cookie x of None \<Rightarrow> [] | Some c \<Rightarrow> c) x"
      using None z by (cases x) (simp add: reads_return)
  next
    case (Some c)
    then have nz: "ms_cookieLength x \<noteq> 0" and l: "ms_cookieLength x = of_nat (length c)"
      using 2 by (auto simp: memberset_valid_def)
    show "reads (if ms_cookieLength x \<noteq> 0
       then bindR (ReadData (ms_cookieLength x)) (\<lambda>cookie.
              returnR \<lparr>ms_members = ms_members x, ms_cookie = Some cookie, ms_cookieLength = ms_cookieLength x\<rparr>)
       else returnR \<lparr>ms_members = ms_members x, ms_cookie = None, ms_cookieLength = ms_cookieLength x\<rparr>)
       (case ms_cookie x of None \<Rightarrow> [] | Some c \<Rightarrow> c) x"
      unfolding ReadData_def if_P [OF nz] Some option.case
      by (rule reads_bind_return [OF reads_get_bytes [OF l]]) (use Some in simp)
  qed
qed


section \<open>ConfigurationInfo\<close>

record ConfigurationInfo =
  ci_configurationNumber :: u32
  ci_initialDecree :: u64
  ci_memberSet :: MemberSet

section \<open>BootstrapMsg\<close>

record 'm BootstrapMsg = "'m Message" +
  bm_memberSet :: MemberSet

definition BootstrapMsg_GetMarshalLen :: "('m, 'z) BootstrapMsg_scheme \<Rightarrow> u32" where
  "BootstrapMsg_GetMarshalLen msg =
     Message_GetBaseSize (m_version msg) + MemberSet_GetMarshalLen (m_version msg) (bm_memberSet msg)"

definition BootstrapMsg_Marshal :: "u8 list \<Rightarrow> MemberId BootstrapMsg \<Rightarrow> marshal_data \<Rightarrow> marshal_data res" where
  "BootstrapMsg_Marshal garb msg md =
     bindE (Message_Marshal (BootstrapMsg_GetMarshalLen msg) msg md)
       (MemberSet_Marshal garb (m_version msg) (bm_memberSet msg))"

definition BootstrapMsg_UnMarshal :: "MemberId BootstrapMsg reader" where
  "BootstrapMsg_UnMarshal =
     bindR Message_UnMarshal (\<lambda>msg.
     guardR (m_msgId msg = Message_Bootstrap) (
     bindR (MemberSet_UnMarshal (m_version msg)) (\<lambda>ms.
       returnR (Message.extend msg (BootstrapMsg.fields ms)))))"

definition bootstrap_valid :: "MemberId BootstrapMsg \<Rightarrow> bool" where
  "bootstrap_valid msg \<longleftrightarrow> message_valid msg \<and> m_msgId msg = Message_Bootstrap \<and>
     m_unMarshalLen msg = BootstrapMsg_GetMarshalLen msg \<and>
     memberset_valid (m_version msg) (bm_memberSet msg)"

definition enc_BootstrapMsg :: "u8 list \<Rightarrow> MemberId BootstrapMsg \<Rightarrow> u8 list" where
  "enc_BootstrapMsg garb msg =
     enc_Message (BootstrapMsg_GetMarshalLen msg) msg @ enc_MemberSet garb (m_version msg) (bm_memberSet msg)"

interpretation bootstrapc: codec "BootstrapMsg_Marshal (replicate MemberId_Size g)" BootstrapMsg_UnMarshal
  "enc_BootstrapMsg (replicate MemberId_Size g)" bootstrap_valid for g
proof (unfold_locales, goal_cases)
  case (1 x)
  then have "IsVersionValid (m_version x)" "member_valid (m_version x) (m_memberId x)"
    "member_valid (m_version x) (m_ballotMember (m_ballot x))" "memberset_valid (m_version x) (bm_memberSet x)"
    by (auto simp: bootstrap_valid_def message_valid_def)
  then show ?case
    unfolding BootstrapMsg_Marshal_def enc_BootstrapMsg_def
    by (intro writes_seq writes_Message membersetc.write_enc)
next
  case (2 x)
  then have v: "message_valid x" "m_unMarshalLen x = BootstrapMsg_GetMarshalLen x" "m_msgId x = Message_Bootstrap"
    and ms: "memberset_valid (m_version x) (bm_memberSet x)"
    by (auto simp: bootstrap_valid_def)
  have ver: "m_version (Message.truncate x) = m_version x" by (simp add: Message.defs)
  have eq: "Message.extend (Message.truncate x) (BootstrapMsg.fields (bm_memberSet x)) = x"
    by (cases x) (simp add: BootstrapMsg.defs Message.defs)
  show ?case
    unfolding BootstrapMsg_UnMarshal_def enc_BootstrapMsg_def
    by (rule reads_bind [OF reads_Message [OF v(1,2)]], rule reads_guard, simp add: v Message.defs,
        unfold ver, rule reads_bind_return [OF membersetc.read_enc [OF ms]], simp add: eq)
qed

section \<open>Replica sets that pass Verify\<close>

lemma Verify_from_iff:
  "Verify_from version ns \<longleftrightarrow> distinct (map n_memberIdString ns) \<and>
     (\<forall>n \<in> set ns. n_rslPort n \<noteq> 0 \<and> (version < 4 \<longrightarrow> snd (strtoui64 (n_memberIdString n)) = []))"
  by (induction version ns rule: Verify_from.induct) (auto simp: image_iff)

lemma length_enc_Node:
  assumes "node_valid version n" "length garb = MemberId_Size"
  shows "length (enc_Node garb version n) =
    unat (MemberId_GetBaseSize version) + 10 + length (n_hostName n)"
  using node_member_ok [OF assms] by (simp add: enc_Node_def length_enc_MemberId)

text \<open>GetMarshalLen is the number of bytes Marshal appends.\<close>
lemma MemberSet_GetMarshalLen_exact:
  assumes "memberset_valid version ms" "length garb = MemberId_Size"
  shows "length (enc_MemberSet garb version ms) mod 2 ^ 32 = unat (MemberSet_GetMarshalLen version ms)"
proof -
  let ?c = "case ms_cookie ms of None \<Rightarrow> [] | Some c \<Rightarrow> c"
  have c: "length ?c = unat (ms_cookieLength ms)"
    using assms(1) by (cases "ms_cookie ms") (auto simp: memberset_valid_def)
  have b: "unat (MemberId_GetBaseSize version + 4 + 2 + 2 + 2 :: u32) = unat (MemberId_GetBaseSize version) + 10"
    by (simp add: MemberId_GetBaseSize_def MemberId_Size_def)
  have "length (concat (map (enc_Node garb version) ns)) =
     (unat (MemberId_GetBaseSize version) + 10) * length ns + sum_list (map (\<lambda>n. length (n_hostName n)) ns)"
    if "\<forall>n \<in> set ns. node_valid version n" for ns
    using that by (induction ns) (auto simp: length_enc_Node [OF _ assms(2)])
  then have "length (enc_MemberSet garb version ms) =
      (unat (MemberId_GetBaseSize version) + 10) * GetNumMembers ms + 6 + unat (ms_cookieLength ms) +
      sum_list (map (\<lambda>n. length (n_hostName n)) (ms_members ms))"
    using assms(1) c by (simp add: enc_MemberSet_def GetNumMembers_def memberset_valid_def)
  then show ?thesis
    by (simp only: MemberSet_GetMarshalLen_def Let_def b unat_of_nat) simp
qed

end
