(* ===== verification/Fingerprint.thy ===== *)
theory Fingerprint
  imports RSL_Prelude
begin

text \<open>
  The 64-bit Rabin fingerprint that seals messages, log records and checkpoint
  blocks (msn_fprint.cpp, fingerprint.cpp, Utils::CalculateChecksum): the table
  construction, the byte loop and both eight-byte loops, and their equivalence
  with the bit-serial definition of the fingerprint.
\<close>

section \<open>Tables\<close>

definition the_poly :: u64 where
  "the_poly = push_bit 32 0xa795d0f2 OR 0x9b4dcdf8"

definition BYTESWAP_FP :: "u64 \<Rightarrow> u64" where
  "BYTESWAP_FP x =
     push_bit 56 x OR drop_bit 56 x OR
     push_bit 40 (x AND 0x0000ff00) OR (drop_bit 40 x AND 0x0000ff00) OR
     push_bit 24 (x AND 0x00ff0000) OR (drop_bit 24 x AND 0x00ff0000) OR
     push_bit 8 (x AND 0xff000000) OR (drop_bit 8 x AND 0xff000000)"

record msn_fprint_data =
  fp_poly :: u64
  fp_empty :: u64
  bybyte :: "nat \<Rightarrow> nat \<Rightarrow> u64"
  bybyte_r :: "nat \<Rightarrow> nat \<Rightarrow> u64"

text \<open>\<^verbatim>\<open>fp->poly[f & 1] ^ (f >> 1)\<close>, with poly[0] = 0.\<close>
definition fp_step :: "u64 \<Rightarrow> u64 \<Rightarrow> u64" where
  "fp_step poly f = (if f AND 1 = 0 then 0 else poly) XOR drop_bit 1 f"

text \<open>The loop over i = 0x80, 0x40, ..., 1, returning the row and the running f.\<close>
fun init_powers :: "u64 \<Rightarrow> nat \<Rightarrow> u64 \<Rightarrow> (nat \<Rightarrow> u64) \<Rightarrow> (nat \<Rightarrow> u64) \<times> u64" where
  "init_powers poly i f row =
     (if i = 0 then (row, f) else init_powers poly (i div 2) (fp_step poly f) (row(i := f)))"

declare init_powers.simps [simp del]

text \<open>The loop over k, and the loop over i = 1, 2, 4, ..., 128 around it.\<close>
definition fill_sums :: "nat \<Rightarrow> (nat \<Rightarrow> u64) \<Rightarrow> nat \<Rightarrow> u64" where
  "fill_sums i row = fold (\<lambda>k row. row(i + k := row i XOR row k)) [1..<i] row"

definition fill_row :: "(nat \<Rightarrow> u64) \<Rightarrow> nat \<Rightarrow> u64" where
  "fill_row row = fold (\<lambda>j. fill_sums (2 ^ j)) [0..<8] row"

text \<open>One round of the outer loop over b.\<close>
definition initbybyte_row :: "u64 \<Rightarrow> nat \<Rightarrow> (nat \<Rightarrow> nat \<Rightarrow> u64) \<times> u64 \<Rightarrow> (nat \<Rightarrow> nat \<Rightarrow> u64) \<times> u64" where
  "initbybyte_row poly b = (\<lambda>(table, f).
     case init_powers poly 0x80 f ((table b)(0 := 0)) of (row, f) \<Rightarrow> (table(b := fill_row row), f))"

definition initbybyte :: "u64 \<Rightarrow> u64 \<Rightarrow> (nat \<Rightarrow> nat \<Rightarrow> u64) \<Rightarrow> nat \<Rightarrow> nat \<Rightarrow> u64" where
  "initbybyte poly f table = fst (fold (initbybyte_row poly) [0..<8] (table, f))"

definition msn_fprint_init :: "(nat \<Rightarrow> nat \<Rightarrow> u64) \<Rightarrow> u64 \<Rightarrow> msn_fprint_data" where
  "msn_fprint_init heap poly =
     (let t = initbybyte poly poly heap in
      \<lparr>fp_poly = poly, fp_empty = poly, bybyte = t, bybyte_r = (\<lambda>i j. BYTESWAP_FP (t i j))\<rparr>)"

section \<open>The fingerprint of a buffer\<close>

definition fp_byte :: "msn_fprint_data \<Rightarrow> u64 \<Rightarrow> u8 \<Rightarrow> u64" where
  "fp_byte fp init b = drop_bit 8 init XOR bybyte fp 0 (unat ((init AND 0xff) XOR ucast b))"

text \<open>Bytes up to the first address that is a multiple of eight.\<close>
fun fp_prologue :: "msn_fprint_data \<Rightarrow> nat \<Rightarrow> u64 \<Rightarrow> u8 list \<Rightarrow> u64 \<times> u8 list" where
  "fp_prologue fp p init [] = (init, [])"
| "fp_prologue fp p init (b # bs) =
     (if p mod 8 \<noteq> 0 then fp_prologue fp (p + 1) (fp_byte fp init b) bs else (init, b # bs))"

definition fp_block :: "(nat \<Rightarrow> nat \<Rightarrow> u64) \<Rightarrow> u64 \<Rightarrow> u64" where
  "fp_block t x =
     t 7 (unat (x AND 0xff)) XOR t 6 (unat (drop_bit 8 x AND 0xff)) XOR
     t 5 (unat (drop_bit 16 x AND 0xff)) XOR t 4 (unat (drop_bit 24 x AND 0xff)) XOR
     t 3 (unat (drop_bit 32 x AND 0xff)) XOR t 2 (unat (drop_bit 40 x AND 0xff)) XOR
     t 1 (unat (drop_bit 48 x AND 0xff)) XOR t 0 (unat (drop_bit 56 x))"

fun fp_little :: "msn_fprint_data \<Rightarrow> u64 \<Rightarrow> u8 list \<Rightarrow> u64 \<times> u8 list" where
  "fp_little fp init bs =
     (if 8 \<le> length bs
      then fp_little fp (fp_block (bybyte fp) (init XOR of_le (take 8 bs))) (drop 8 bs)
      else (init, bs))"

declare fp_little.simps [simp del]

text \<open>On a big-endian machine the blocks are loaded with their bytes reversed.\<close>
fun fp_big_loop :: "msn_fprint_data \<Rightarrow> u64 \<Rightarrow> u8 list \<Rightarrow> u64 \<times> u8 list" where
  "fp_big_loop fp init bs =
     (if 16 \<le> length bs
      then fp_big_loop fp (fp_block (\<lambda>i. bybyte_r fp (7 - i)) (init XOR of_le (rev (take 8 bs)))) (drop 8 bs)
      else (init, bs))"

declare fp_big_loop.simps [simp del]

definition fp_big :: "msn_fprint_data \<Rightarrow> u64 \<Rightarrow> u8 list \<Rightarrow> u64 \<times> u8 list" where
  "fp_big fp init bs =
     (if 8 \<le> length bs
      then case fp_big_loop fp (BYTESWAP_FP init) bs of
             (init, bs) \<Rightarrow>
               (fp_block (\<lambda>i. bybyte fp (7 - i)) (init XOR of_le (rev (take 8 bs))), drop 8 bs)
      else (init, bs))"

definition msn_fprint_of :: "bool \<Rightarrow> msn_fprint_data \<Rightarrow> nat \<Rightarrow> u64 \<Rightarrow> u8 list \<Rightarrow> u64" where
  "msn_fprint_of little fp p init data =
     (case fp_prologue fp p init data of (init, bs) \<Rightarrow>
      case (if little then fp_little fp init bs else fp_big fp init bs) of (init, bs) \<Rightarrow>
        foldl (fp_byte fp) init bs)"

text \<open>FingerPrint64 holds the tables of the_poly; GetFingerPrint without init starts at fp->empty.\<close>
definition the_fp :: msn_fprint_data where
  "the_fp = msn_fprint_init (\<lambda>_ _. 0) the_poly"

definition GetFingerPrint :: "bool \<Rightarrow> nat \<Rightarrow> u64 \<Rightarrow> u8 list \<Rightarrow> u64" where
  "GetFingerPrint little p init data = msn_fprint_of little the_fp p init data"

definition CalculateChecksum :: "bool \<Rightarrow> nat \<Rightarrow> u8 list \<Rightarrow> u64" where
  "CalculateChecksum little p blob = msn_fprint_of little the_fp p (fp_empty the_fp) blob"

section \<open>The bit-serial reference\<close>

definition ref_byte :: "u64 \<Rightarrow> u64 \<Rightarrow> u8 \<Rightarrow> u64" where
  "ref_byte poly init b = (fp_step poly ^^ 8) (init XOR ucast b)"

definition rabin :: "u64 \<Rightarrow> u64 \<Rightarrow> u8 list \<Rightarrow> u64" where
  "rabin poly = foldl (ref_byte poly)"

lemma rabin_append: "rabin poly init (xs @ ys) = rabin poly (rabin poly init xs) ys"
  by (simp add: rabin_def)

lemma rabin_Cons: "rabin poly init (b # bs) = rabin poly (ref_byte poly init b) bs"
  by (simp add: rabin_def)

section \<open>Linearity\<close>

text \<open>An exclusive-or homomorphism; all its powers are.\<close>
locale xor_linear =
  fixes step :: "u64 \<Rightarrow> u64"
  assumes step_xor: "step (a XOR b) = step a XOR step b"
begin

lemma pow_xor: "(step ^^ n) (a XOR b) = (step ^^ n) a XOR (step ^^ n) b"
  by (induction n) (simp_all add: step_xor)

lemma pow_zero: "(step ^^ n) 0 = 0"
  using pow_xor [of n 0 0] by simp

lemma pow_pow: "(step ^^ m) ((step ^^ n) x) = (step ^^ (m + n)) x"
  by (simp add: funpow_add)

end

lemma and_1_eq_0: "(f :: u64) AND 1 = 0 \<longleftrightarrow> \<not> bit f 0"
  by (simp add: and_one_eq odd_iff_mod_2_eq_one bit_0)

lemma fp_step_bit: "fp_step poly f = (if bit f 0 then poly else 0) XOR drop_bit 1 f"
  by (simp add: fp_step_def and_1_eq_0)

interpretation lfsr: xor_linear "fp_step poly" for poly
  by unfold_locales (auto simp: fp_step_bit drop_bit_xor bit_xor_iff ac_simps)

lemma fp_step_push:
  assumes "take_bit m x = x" "Suc n + m \<le> 64"
  shows "fp_step poly (push_bit (Suc n) x) = push_bit n x"
proof -
  have "\<not> bit (push_bit (Suc n) x) 0" by (simp only: bit_push_bit_iff) simp
  moreover have "drop_bit 1 (push_bit (Suc n) x) = push_bit n x"
  proof (rule bit_word_eqI)
    fix i assume i: "i < LENGTH(64)"
    have "\<not> bit (take_bit m x) (i - n)" if "i = 63"
      using that assms(2) by (simp only: bit_take_bit_iff) linarith
    then have "\<not> bit x (i - n)" if "i = 63" using that assms(1) by simp
    with i show "bit (drop_bit 1 (push_bit (Suc n) x)) i = bit (push_bit n x) i"
      by (simp only: bit_drop_bit_eq bit_push_bit_iff o_apply) (cases "i = 63"; auto)
  qed
  ultimately show ?thesis by (simp only: fp_step_bit) simp
qed

lemma steps_push:
  "take_bit m x = x \<Longrightarrow> n + m \<le> 64 \<Longrightarrow> (fp_step poly ^^ n) (push_bit n x) = x"
proof (induction n)
  case (Suc n)
  then show ?case by (simp only: funpow_Suc_right o_apply fp_step_push)
qed simp

section \<open>The tables are powers of the step\<close>

definition fp_tab :: "u64 \<Rightarrow> nat \<Rightarrow> nat \<Rightarrow> u64" where
  "fp_tab poly b i = (fp_step poly ^^ (8 * Suc b)) (of_nat i)"

lemma fp_step_1: "fp_step poly 1 = poly"
  by (simp add: fp_step_def)

lemma of_nat_power_add:
  assumes "k < 2 ^ j"
  shows "(of_nat (2 ^ j + k) :: u64) = of_nat (2 ^ j) XOR of_nat k"
proof -
  have "(2 ^ j :: nat) AND k = 0"
  proof (rule bit_eqI)
    fix n
    have "\<not> bit k j" using assms by (metis bit_take_bit_iff less_irrefl take_bit_nat_eq_self)
    then show "bit ((2 ^ j :: nat) AND k) n = bit 0 n" by (auto simp: bit_and_iff bit_exp_iff)
  qed
  then show ?thesis by (simp only: disjunctive_add_eq_xor of_nat_xor_eq)
qed

lemma init_powers_unfold:
  "init_powers poly (2 ^ Suc j) f row = init_powers poly (2 ^ j) (fp_step poly f) (row(2 ^ Suc j := f))"
  by (subst init_powers.simps) simp

lemma init_powers_1: "init_powers poly (2 ^ 0) f row = (row(1 := f), fp_step poly f)"
  by (subst init_powers.simps, subst init_powers.simps) simp

lemma init_powers_snd: "snd (init_powers poly (2 ^ j) f row) = (fp_step poly ^^ Suc j) f"
proof (induction j arbitrary: f row)
  case 0
  show ?case by (simp only: init_powers_1) simp
next
  case (Suc j)
  show ?case unfolding init_powers_unfold Suc by (simp add: funpow_swap1)
qed

lemma init_powers_other:
  "(\<forall>k\<le>j. m \<noteq> 2 ^ k) \<Longrightarrow> fst (init_powers poly (2 ^ j) f row) m = row m"
proof (induction j arbitrary: f row)
  case 0
  then show ?case by (simp only: init_powers_1) simp
next
  case (Suc j)
  then have "\<forall>k\<le>j. m \<noteq> 2 ^ k" "m \<noteq> 2 ^ Suc j" by auto
  then show ?case unfolding init_powers_unfold using Suc(1) by simp
qed

lemma init_powers_power:
  "k \<le> j \<Longrightarrow> fst (init_powers poly (2 ^ j) f row) (2 ^ k) = (fp_step poly ^^ (j - k)) f"
proof (induction j arbitrary: f row)
  case 0
  then show ?case by (simp only: init_powers_1) simp
next
  case (Suc j)
  show ?case
  proof (cases "k = Suc j")
    case True
    have "\<forall>i\<le>j. (2::nat) ^ Suc j \<noteq> 2 ^ i" by (auto simp only: power_inject_exp)
    then show ?thesis unfolding init_powers_unfold True using init_powers_other [of j "2 ^ Suc j"] by simp
  next
    case False
    then have "k \<le> j" using Suc.prems by simp
    then show ?thesis unfolding init_powers_unfold Suc.IH [OF \<open>k \<le> j\<close>]
      by (simp add: Suc_diff_le funpow_swap1)
  qed
qed

lemma fill_sums_row:
  "fill_sums i row m = (if i < m \<and> m < 2 * i then row i XOR row (m - i) else row m)"
proof -
  have "fold (\<lambda>k row. row(i + k := row i XOR row k)) [1..<n] row m =
        (if i < m \<and> m < i + n then row i XOR row (m - i) else row m)" if "n \<le> i" for n m
    using that
  proof (induction n arbitrary: m)
    case (Suc n)
    show ?case
    proof (cases n)
      case (Suc l)
      then have up: "[1..<Suc n] = [1..<n] @ [n]" by (simp add: upt_Suc_append)
      show ?thesis using Suc.IH Suc.prems \<open>n = Suc l\<close>
        by (simp only: up fold_append o_apply fold.simps) (auto simp: less_Suc_eq)
    qed auto
  qed auto
  from this [of i m] show ?thesis by (simp add: fill_sums_def mult_2)
qed

lemma fill_row_table:
  assumes zero: "row 0 = fp_tab poly b 0" and pow: "\<And>k. k < 8 \<Longrightarrow> row (2 ^ k) = fp_tab poly b (2 ^ k)"
  shows "m < 256 \<Longrightarrow> fill_row row m = fp_tab poly b m"
proof -
  have "(\<forall>m < 2 ^ n. fold (\<lambda>j. fill_sums (2 ^ j)) [0..<n] row m = fp_tab poly b m) \<and>
        (\<forall>k < 8. fold (\<lambda>j. fill_sums (2 ^ j)) [0..<n] row (2 ^ k) = fp_tab poly b (2 ^ k))" if "n \<le> 8" for n
    using that
  proof (induction n)
    case 0
    then show ?case using zero pow by simp
  next
    case (Suc n)
    let ?r = "fold (\<lambda>j. fill_sums (2 ^ j)) [0..<n] row"
    have r: "\<And>m. m < 2 ^ n \<Longrightarrow> ?r m = fp_tab poly b m" "\<And>k. k < 8 \<Longrightarrow> ?r (2 ^ k) = fp_tab poly b (2 ^ k)"
      using Suc by auto
    have low: "fill_sums (2 ^ n) ?r m = fp_tab poly b m" if "m < 2 ^ Suc n" for m
    proof (cases "2 ^ n < m")
      case True
      define k where "k = m - 2 ^ n"
      have k: "m = 2 ^ n + k" "k < 2 ^ n" using True that by (auto simp: k_def)
      have "fill_sums (2 ^ n) ?r m = ?r (2 ^ n) XOR ?r k"
        using True that by (subst fill_sums_row) (simp add: k_def)
      also have "\<dots> = fp_tab poly b (2 ^ n) XOR fp_tab poly b k"
        using r(1) [OF k(2)] r(2) [of n] Suc.prems by simp
      also have "\<dots> = fp_tab poly b m"
        unfolding k(1) fp_tab_def of_nat_power_add [OF k(2)] lfsr.pow_xor ..
      finally show ?thesis .
    next
      case False
      then show ?thesis using r Suc.prems by (cases "m = 2 ^ n") (auto simp: fill_sums_row)
    qed
    have "fill_sums (2 ^ n) ?r (2 ^ k) = fp_tab poly b (2 ^ k)" if "k < 8" for k
    proof (cases "k \<le> n")
      case True
      then have "(2::nat) ^ k < 2 ^ Suc n" by (intro power_strict_increasing) auto
      then show ?thesis by (rule low)
    next
      case False
      then have "\<not> (2::nat) ^ k < 2 * 2 ^ n" by (metis Suc_leI not_le power_Suc power_increasing one_le_numeral not_less)
      then show ?thesis using r(2) [OF that] by (simp add: fill_sums_row)
    qed
    with low show ?case by simp
  qed
  from this [of 8] show "m < 256 \<Longrightarrow> fill_row row m = fp_tab poly b m" by (simp add: fill_row_def)
qed


lemma take_bit_power_word: "k < 8 \<Longrightarrow> push_bit k (1 :: u64) = of_nat (2 ^ k)"
  by (simp add: push_bit_eq_mult)

lemma fp_tab_power:
  assumes "k < 8"
  shows "fp_tab poly b (2 ^ k) = (fp_step poly ^^ (7 - k)) ((fp_step poly ^^ (8 * b)) poly)"
proof -
  have "fp_tab poly b (2 ^ k) = (fp_step poly ^^ (8 * Suc b)) (push_bit k 1)"
    using assms by (simp only: fp_tab_def take_bit_power_word)
  also have "8 * Suc b = (7 - k + 8 * b + 1) + k" using assms by simp
  also have "(fp_step poly ^^ ((7 - k + 8 * b + 1) + k)) (push_bit k 1) =
             (fp_step poly ^^ (7 - k + 8 * b + 1)) 1"
    using steps_push [of 1 1 k poly] assms by (simp only: funpow_add o_apply) simp
  also have "\<dots> = (fp_step poly ^^ (7 - k)) ((fp_step poly ^^ (8 * b)) poly)"
    by (simp add: funpow_add fp_step_1 funpow_swap1)
  finally show ?thesis .
qed

lemma initbybyte_table:
  assumes "b < 8" "i < 256"
  shows "initbybyte poly poly heap b i = fp_tab poly b i"
proof -
  let ?body = "initbybyte_row poly"
  have "snd (fold ?body [0..<n] (heap, poly)) = (fp_step poly ^^ (8 * n)) poly \<and>
        (\<forall>b < n. \<forall>i < 256. fst (fold ?body [0..<n] (heap, poly)) b i = fp_tab poly b i)" for n
  proof (induction n)
    case (Suc n)
    obtain table f where tf: "fold ?body [0..<n] (heap, poly) = (table, f)" by fastforce
    then have f: "f = (fp_step poly ^^ (8 * n)) poly"
      and tab: "\<And>b i. b < n \<Longrightarrow> i < 256 \<Longrightarrow> table b i = fp_tab poly b i"
      using Suc by auto
    let ?p = "init_powers poly (2 ^ 7) f ((table n)(0 := 0))"
    have p: "init_powers poly 0x80 f ((table n)(0 := 0)) = ?p" by simp
    have row: "fill_row (fst ?p) m = fp_tab poly n m" if "m < 256" for m
    proof (rule fill_row_table [OF _ _ that])
      show "fst ?p 0 = fp_tab poly n 0"
        using init_powers_other [of 7 0] by (simp add: fp_tab_def lfsr.pow_zero)
      show "fst ?p (2 ^ k) = fp_tab poly n (2 ^ k)" if "k < 8" for k
        using init_powers_power [of k 7] that by (simp add: fp_tab_power f)
    qed
    have "fold ?body [0..<Suc n] (heap, poly) = (table(n := fill_row (fst ?p)), snd ?p)"
      using tf by (simp only: upt_Suc_append zero_le fold_append o_apply fold.simps id_apply initbybyte_row_def p case_prod_beta fst_conv snd_conv)
    moreover have e: "Suc 7 + 8 * n = 8 * Suc n" by simp
    have "snd ?p = (fp_step poly ^^ (8 * Suc n)) poly"
      by (simp only: init_powers_snd f lfsr.pow_pow e)
    ultimately show ?case using tab row by (auto simp: less_Suc_eq)
  qed simp
  from this [of 8] assms show ?thesis by (simp add: initbybyte_def)
qed

section \<open>The loops compute the reference\<close>

text \<open>What the loops need of the tables.\<close>
definition fp_ok :: "msn_fprint_data \<Rightarrow> bool" where
  "fp_ok fp \<longleftrightarrow> (\<forall>b < 8. \<forall>i < 256. bybyte fp b i = fp_tab (fp_poly fp) b i \<and>
     bybyte_r fp b i = BYTESWAP_FP (fp_tab (fp_poly fp) b i)) \<and> fp_empty fp = fp_poly fp"

lemma msn_fprint_init_ok: "fp_ok (msn_fprint_init heap poly)"
  by (simp add: fp_ok_def msn_fprint_init_def Let_def initbybyte_table)

lemma tab_byte:
  assumes "fp_ok fp" "b < 8" "take_bit 8 x = x"
  shows "bybyte fp b (unat (x :: u64)) = (fp_step (fp_poly fp) ^^ (8 * Suc b)) x"
proof -
  have "unat x < 256"
    using assms(3) take_bit_nat_less_exp [of 8 "unat x"] by (simp flip: unsigned_take_bit_eq)
  then show ?thesis using assms by (simp add: fp_ok_def fp_tab_def)
qed


lemma split_low_byte:
  fixes x :: u64
  shows "x = push_bit 8 (drop_bit 8 x) XOR take_bit 8 x"
  by (rule bit_word_eqI) (auto simp: bit_simps)

lemma take_bit_drop_bit: "n + m = 64 \<Longrightarrow> take_bit n (drop_bit m x) = drop_bit m (x :: u64)"
  by (rule bit_word_eqI) (auto simp: bit_simps dest: bit_imp_le_length)

lemma take_bit_ucast8: "take_bit 8 (ucast (b :: u8) :: u64) = ucast b"
  by (rule bit_word_eqI) (auto simp: bit_simps dest: bit_imp_le_length)

lemma drop_bit_ucast8: "drop_bit 8 (ucast (b :: u8) :: u64) = 0"
  by (rule bit_word_eqI) (auto simp: bit_simps dest: bit_imp_le_length)

lemma fp_byte_ref:
  assumes "fp_ok fp"
  shows "fp_byte fp init b = ref_byte (fp_poly fp) init b"
proof -
  let ?x = "init XOR ucast b" and ?s = "fp_step (fp_poly fp) ^^ 8"
  have low: "(init AND 0xff) XOR ucast b = take_bit 8 ?x"
    by (simp add: and_0xff take_bit_xor take_bit_ucast8)
  have high: "drop_bit 8 ?x = drop_bit 8 init" by (simp add: drop_bit_xor drop_bit_ucast8)
  have "?s ?x = ?s (push_bit 8 (drop_bit 8 ?x)) XOR ?s (take_bit 8 ?x)"
    by (subst split_low_byte [of ?x]) (simp only: lfsr.pow_xor)
  also have "?s (push_bit 8 (drop_bit 8 ?x)) = drop_bit 8 init"
    unfolding high by (rule steps_push [of 56]) (simp_all add: take_bit_drop_bit)
  also have "?s (take_bit 8 ?x) = bybyte fp 0 (unat (take_bit 8 ?x))"
    using tab_byte [OF assms, of 0 "take_bit 8 ?x"] by simp
  finally show ?thesis by (simp only: ref_byte_def fp_byte_def low)
qed

lemma foldl_fp_byte: "fp_ok fp \<Longrightarrow> foldl (fp_byte fp) init bs = rabin (fp_poly fp) init bs"
  by (induction bs arbitrary: init) (simp_all add: rabin_def fp_byte_ref)

text \<open>Eight bytes at a time is sixty-four steps on the block added in.\<close>
lemma rabin_block:
  assumes "length bs = 8"
  shows "rabin poly init bs = (fp_step poly ^^ 64) (init XOR of_le bs)"
proof -
  have gen: "rabin poly init bs = (fp_step poly ^^ (8 * length bs)) (init XOR of_le bs)" if "length bs \<le> 8" for bs :: "u8 list" and init
    using that
  proof (induction bs arbitrary: init)
    case (Cons b bs)
    have t: "take_bit (8 * length bs) (of_le bs :: u64) = of_le bs"
      by (rule bit_word_eqI) (auto simp: bit_take_bit_iff bit_of_le)
    have disj: "ucast b OR push_bit 8 (of_le bs) = (ucast b XOR push_bit 8 (of_le bs) :: u64)"
      by (rule bit_word_eqI) (auto simp: bit_simps dest: bit_imp_le_length)
    have "(fp_step poly ^^ 8) (push_bit 8 (of_le bs)) = of_le bs"
      by (rule steps_push [OF t]) (use Cons.prems in simp)
    then have "(fp_step poly ^^ 8) (init XOR of_le (b # bs)) = ref_byte poly init b XOR of_le bs"
      by (simp only: of_le.simps disj ref_byte_def lfsr.pow_xor xor.assoc [symmetric])
    moreover have "8 * length (b # bs) = 8 * length bs + 8" by simp
    ultimately show ?case
      using Cons by (simp only: rabin_Cons funpow_add o_apply)
  qed (simp add: rabin_def)
  show ?thesis using gen [of bs init] assms by simp
qed


definition byte64 :: "nat \<Rightarrow> u64 \<Rightarrow> u64" where
  "byte64 k x = take_bit 8 (drop_bit (8 * k) x)"

lemma bit_byte64: "bit (byte64 k x) n \<longleftrightarrow> n < 8 \<and> bit x (8 * k + n)"
  by (simp add: byte64_def bit_take_bit_iff bit_drop_bit_eq)

lemma byte64_small: "take_bit 8 (byte64 k x) = byte64 k x"
  by (simp add: byte64_def)

lemma byte64_7: "drop_bit 56 x = byte64 7 x"
  by (rule bit_word_eqI) (auto simp: bit_byte64 bit_drop_bit_eq dest: bit_imp_le_length)

lemma block_byte:
  assumes "k < 8" "take_bit 8 y = y"
  shows "(fp_step poly ^^ 64) (push_bit (8 * k) y) = (fp_step poly ^^ (8 * Suc (7 - k))) y"
proof -
  have "64 = 8 * Suc (7 - k) + 8 * k" using assms(1) by simp
  then have "(fp_step poly ^^ 64) (push_bit (8 * k) y) =
      (fp_step poly ^^ (8 * Suc (7 - k))) ((fp_step poly ^^ (8 * k)) (push_bit (8 * k) y))"
    by (metis lfsr.pow_pow)
  then show ?thesis using steps_push [OF assms(2), of "8 * k"] assms(1) by simp
qed

lemma split_bytes:
  "x = push_bit (8 * 0) (byte64 0 x) XOR push_bit (8 * 1) (byte64 1 x) XOR push_bit (8 * 2) (byte64 2 x) XOR
       push_bit (8 * 3) (byte64 3 x) XOR push_bit (8 * 4) (byte64 4 x) XOR push_bit (8 * 5) (byte64 5 x) XOR
       push_bit (8 * 6) (byte64 6 x) XOR push_bit (8 * 7) (byte64 7 x)"
proof (rule bit_word_eqI)
  fix n assume "n < LENGTH(64)"
  then have n: "n < 64" by simp
  consider "n < 8" | "8 \<le> n" "n < 16" | "16 \<le> n" "n < 24" | "24 \<le> n" "n < 32" | "32 \<le> n" "n < 40"
    | "40 \<le> n" "n < 48" | "48 \<le> n" "n < 56" | "56 \<le> n" by linarith
  then show "bit x n = bit (push_bit (8 * 0) (byte64 0 x) XOR push_bit (8 * 1) (byte64 1 x) XOR
       push_bit (8 * 2) (byte64 2 x) XOR
       push_bit (8 * 3) (byte64 3 x) XOR push_bit (8 * 4) (byte64 4 x) XOR push_bit (8 * 5) (byte64 5 x) XOR
       push_bit (8 * 6) (byte64 6 x) XOR push_bit (8 * 7) (byte64 7 x)) n"
    by cases (use n in \<open>simp_all add: bit_xor_iff bit_push_bit_iff bit_byte64 less_diff_conv2\<close>)
qed

lemma fp_block_steps:
  assumes "\<And>b y. b < 8 \<Longrightarrow> take_bit 8 y = y \<Longrightarrow> t b (unat (y :: u64)) = (fp_step poly ^^ (8 * Suc b)) y"
  shows "fp_block t x = (fp_step poly ^^ 64) x"
proof -
  have k: "t (7 - k) (unat (byte64 k x)) = (fp_step poly ^^ 64) (push_bit (8 * k) (byte64 k x))" if "k < 8" for k
    using that assms [of "7 - k" "byte64 k x"] block_byte [OF that byte64_small] byte64_small by simp
  have b: "x AND 0xff = byte64 0 x" "drop_bit 8 x AND 0xff = byte64 1 x" "drop_bit 16 x AND 0xff = byte64 2 x"
     "drop_bit 24 x AND 0xff = byte64 3 x" "drop_bit 32 x AND 0xff = byte64 4 x"
     "drop_bit 40 x AND 0xff = byte64 5 x" "drop_bit 48 x AND 0xff = byte64 6 x"
    by (simp_all add: and_0xff byte64_def)
  show ?thesis
    unfolding fp_block_def b byte64_7
    using k [of 0] k [of 1] k [of 2] k [of 3] k [of 4] k [of 5] k [of 6] k [of 7]
    by (subst (9) split_bytes [of x]) (simp only: lfsr.pow_xor, simp)
qed

lemma fp_block_rabin:
  assumes "fp_ok fp" "8 \<le> length bs"
  shows "rabin (fp_poly fp) (fp_block (bybyte fp) (init XOR of_le (take 8 bs))) (drop 8 bs) =
         rabin (fp_poly fp) init bs"
proof -
  have "fp_block (bybyte fp) (init XOR of_le (take 8 bs)) = rabin (fp_poly fp) init (take 8 bs)"
    using fp_block_steps [of "bybyte fp", OF tab_byte [OF assms(1)]] rabin_block [of "take 8 bs"] assms(2)
    by simp
  then show ?thesis by (metis append_take_drop_id rabin_append)
qed

lemma fp_little_rabin:
  "fp_ok fp \<Longrightarrow> fp_little fp init bs = (init', rest) \<Longrightarrow>
   rabin (fp_poly fp) init' rest = rabin (fp_poly fp) init bs"
proof (induction fp init bs rule: fp_little.induct)
  case (1 fp init bs)
  show ?case
  proof (cases "8 \<le> length bs")
    case True
    with 1 show ?thesis by (simp add: fp_little.simps [of fp init bs] fp_block_rabin)
  next
    case False
    with 1 show ?thesis by (simp add: fp_little.simps [of fp init bs])
  qed
qed

subsection \<open>The big-endian loop\<close>

lemma bit_range_mask:
  "bit (0x0000ff00 :: u64) n \<longleftrightarrow> 8 \<le> n \<and> n < 16"
  "bit (0x00ff0000 :: u64) n \<longleftrightarrow> 16 \<le> n \<and> n < 24"
  "bit (0xff000000 :: u64) n \<longleftrightarrow> 24 \<le> n \<and> n < 32"
proof -
  have m: "(0x0000ff00 :: u64) = push_bit 8 (mask 8)" "(0x00ff0000 :: u64) = push_bit 16 (mask 8)"
    "(0xff000000 :: u64) = push_bit 24 (mask 8)"
    by (simp_all add: mask_eq_exp_minus_1 push_bit_eq_mult)
  show "bit (0x0000ff00 :: u64) n \<longleftrightarrow> 8 \<le> n \<and> n < 16"
    "bit (0x00ff0000 :: u64) n \<longleftrightarrow> 16 \<le> n \<and> n < 24" "bit (0xff000000 :: u64) n \<longleftrightarrow> 24 \<le> n \<and> n < 32"
    unfolding m bit_push_bit_iff bit_mask_iff by auto
qed

lemma bit_BYTESWAP:
  "n < 8 \<Longrightarrow> k < 8 \<Longrightarrow> bit (BYTESWAP_FP x) (8 * k + n) = bit x (8 * (7 - k) + n)"
proof -
  assume n: "n < 8" and "k < 8"
  then consider "k = 0" | "k = 1" | "k = 2" | "k = 3" | "k = 4" | "k = 5" | "k = 6" | "k = 7" by linarith
  then show ?thesis
    using n by cases
      (simp_all only: BYTESWAP_FP_def bit_or_iff bit_and_iff bit_push_bit_iff bit_drop_bit_eq o_apply
        bit_range_mask, auto dest: bit_imp_le_length)
qed

lemma u64_bytes_eqI:
  assumes "\<And>k n. k < 8 \<Longrightarrow> n < 8 \<Longrightarrow> bit (x :: u64) (8 * k + n) = bit y (8 * k + n)"
  shows "x = y"
proof (rule bit_word_eqI)
  fix i assume "i < LENGTH(64)"
  then show "bit x i = bit y i" using assms [of "i div 8" "i mod 8"] by simp
qed

lemma BYTESWAP_xor: "BYTESWAP_FP (x XOR y) = BYTESWAP_FP x XOR BYTESWAP_FP y"
  by (rule u64_bytes_eqI) (simp add: bit_BYTESWAP bit_xor_iff)

lemma BYTESWAP_BYTESWAP: "BYTESWAP_FP (BYTESWAP_FP x) = x"
proof (rule u64_bytes_eqI)
  fix k n :: nat assume "k < 8" "n < 8"
  moreover have "7 - (7 - k) = k" using \<open>k < 8\<close> by simp
  ultimately show "bit (BYTESWAP_FP (BYTESWAP_FP x)) (8 * k + n) = bit x (8 * k + n)"
    using bit_BYTESWAP [of n "7 - k" x] by (simp add: bit_BYTESWAP)
qed

lemma of_le_rev: "length bs = 8 \<Longrightarrow> of_le (rev bs) = BYTESWAP_FP (of_le bs)"
  by (rule u64_bytes_eqI) (auto simp: bit_BYTESWAP bit_of_le rev_nth)

lemma byte64_BYTESWAP: "k < 8 \<Longrightarrow> byte64 k (BYTESWAP_FP x) = byte64 (7 - k) x"
  by (rule bit_word_eqI) (auto simp: bit_byte64 bit_BYTESWAP)

lemma fp_block_bytes:
  "fp_block t x = t 7 (unat (byte64 0 x)) XOR t 6 (unat (byte64 1 x)) XOR t 5 (unat (byte64 2 x)) XOR
     t 4 (unat (byte64 3 x)) XOR t 3 (unat (byte64 4 x)) XOR t 2 (unat (byte64 5 x)) XOR
     t 1 (unat (byte64 6 x)) XOR t 0 (unat (byte64 7 x))"
  by (simp add: fp_block_def and_0xff byte64_7) (simp add: byte64_def)

lemma fp_block_swapped: "fp_block (\<lambda>i. t (7 - i)) (BYTESWAP_FP x) = fp_block t x"
  by (simp add: fp_block_bytes byte64_BYTESWAP ac_simps)

lemma unat_byte64: "unat (byte64 k x) < 256"
  using take_bit_nat_less_exp [of 8 "unat (byte64 k x)"] byte64_small [of k x]
  by (simp flip: unsigned_take_bit_eq)

lemma fp_block_reversed_tables:
  assumes "fp_ok fp"
  shows "fp_block (bybyte_r fp) x = BYTESWAP_FP (fp_block (bybyte fp) x)"
  using assms unat_byte64 by (simp add: fp_block_bytes BYTESWAP_xor fp_ok_def)

lemma fp_big_loop_rabin:
  "fp_ok fp \<Longrightarrow> 8 \<le> length bs \<Longrightarrow> fp_big_loop fp (BYTESWAP_FP init) bs = (s, rest) \<Longrightarrow>
   8 \<le> length rest \<and> (\<exists>init'. s = BYTESWAP_FP init' \<and>
     rabin (fp_poly fp) init' rest = rabin (fp_poly fp) init bs)"
proof (induction "length bs" arbitrary: bs init rule: less_induct)
  case less
  show ?case
  proof (cases "16 \<le> length bs")
    case True
    let ?x = "init XOR of_le (take 8 bs)"
    have "fp_block (\<lambda>i. bybyte_r fp (7 - i)) (BYTESWAP_FP init XOR of_le (rev (take 8 bs))) =
          BYTESWAP_FP (fp_block (bybyte fp) ?x)"
      using True less.prems
      by (simp add: of_le_rev fp_block_swapped fp_block_reversed_tables flip: BYTESWAP_xor)
    then have "fp_big_loop fp (BYTESWAP_FP (fp_block (bybyte fp) ?x)) (drop 8 bs) = (s, rest)"
      using less.prems(3) True by (simp add: fp_big_loop.simps [of fp _ bs])
    then show ?thesis
      using less.hyps [of "drop 8 bs" "fp_block (bybyte fp) ?x"] less.prems True
      by (simp add: fp_block_rabin)
  next
    case False
    then show ?thesis using less.prems by (auto simp: fp_big_loop.simps [of fp _ bs])
  qed
qed

lemma fp_big_rabin:
  assumes "fp_ok fp" "fp_big fp init bs = (init', rest)"
  shows "rabin (fp_poly fp) init' rest = rabin (fp_poly fp) init bs"
proof (cases "8 \<le> length bs")
  case True
  obtain s r where l: "fp_big_loop fp (BYTESWAP_FP init) bs = (s, r)" by fastforce
  from fp_big_loop_rabin [OF assms(1) True l] obtain i where
    i: "8 \<le> length r" "s = BYTESWAP_FP i" "rabin (fp_poly fp) i r = rabin (fp_poly fp) init bs" by blast
  then have "s XOR of_le (rev (take 8 r)) = BYTESWAP_FP (i XOR of_le (take 8 r))"
    by (simp add: of_le_rev BYTESWAP_xor)
  then show ?thesis
    using assms l True i by (auto simp: fp_big_def fp_block_swapped fp_block_rabin)
next
  case False
  then show ?thesis using assms(2) by (simp add: fp_big_def)
qed

section \<open>Correctness of msn_fprint_of\<close>

lemma fp_prologue_rabin:
  "fp_ok fp \<Longrightarrow> fp_prologue fp p init bs = (init', rest) \<Longrightarrow>
   rabin (fp_poly fp) init' rest = rabin (fp_poly fp) init bs"
  by (induction fp p init bs rule: fp_prologue.induct)
    (auto simp: fp_byte_ref rabin_Cons split: if_splits)

theorem msn_fprint_of_rabin:
  assumes "fp_ok fp"
  shows "msn_fprint_of little fp p init data = rabin (fp_poly fp) init data"
proof -
  obtain i1 r1 where 1: "fp_prologue fp p init data = (i1, r1)" by fastforce
  obtain i2 r2 where 2: "(if little then fp_little fp i1 r1 else fp_big fp i1 r1) = (i2, r2)" by fastforce
  show ?thesis
    using 1 2 fp_prologue_rabin [OF assms 1] fp_little_rabin [OF assms] fp_big_rabin [OF assms]
    by (cases little) (auto simp: msn_fprint_of_def foldl_fp_byte [OF assms])
qed

lemma the_fp_ok: "fp_ok the_fp" "fp_poly the_fp = the_poly" "fp_empty the_fp = the_poly"
  by (simp_all add: the_fp_def msn_fprint_init_ok) (simp_all add: msn_fprint_init_def Let_def)

lemma GetFingerPrint_rabin: "GetFingerPrint little p init data = rabin the_poly init data"
  by (simp add: GetFingerPrint_def msn_fprint_of_rabin the_fp_ok)

lemma CalculateChecksum_rabin: "CalculateChecksum little p blob = rabin the_poly the_poly blob"
  by (simp add: CalculateChecksum_def msn_fprint_of_rabin the_fp_ok)


section \<open>Properties\<close>

text \<open>
  C25: the fingerprint computed with the byte and eight-byte tables, on a little-
  or big-endian machine and from any buffer address, is the bit-serial Rabin
  fingerprint, whatever the table memory held before initialisation.
\<close>
theorem fingerprint_is_rabin:
  "msn_fprint_of little (msn_fprint_init heap poly) p init data = rabin poly init data"
proof -
  have "fp_poly (msn_fprint_init heap poly) = poly" by (simp add: msn_fprint_init_def Let_def)
  then show ?thesis using msn_fprint_of_rabin [OF msn_fprint_init_ok, of little heap poly p init data] by simp
qed

text \<open>
  Fingerprinting a buffer in two pieces, each at its own address and starting from
  the fingerprint of the piece before, gives the fingerprint of the whole.
\<close>
lemma fingerprint_chained:
  "GetFingerPrint little q (GetFingerPrint little p init xs) ys = GetFingerPrint little r init (xs @ ys)"
  by (simp add: GetFingerPrint_rabin rabin_append)

end
