(* ===== verification/Pages.thy ===== *)
theory Pages
  imports RSL_Prelude
begin

text \<open>
  The page arithmetic of logfile.h: log records and vote buffers are padded to
  512-byte disk pages and 4096-byte system pages.
\<close>

definition s_PageSize :: u32 where
  "s_PageSize = 512"

definition s_SystemPageSize :: u32 where
  "s_SystemPageSize = 4096"

definition RoundUpToPage :: "u32 \<Rightarrow> u32" where
  "RoundUpToPage x = (x + (s_PageSize - 1)) AND NOT (s_PageSize - 1)"

definition RoundUpToSystemPage :: "u32 \<Rightarrow> u32" where
  "RoundUpToSystemPage x = (x + (s_SystemPageSize - 1)) AND NOT (s_SystemPageSize - 1)"

lemma mask_round:
  fixes x :: u32
  assumes "k < 32"
  shows "unat (x AND NOT (mask k)) = unat x div 2 ^ k * 2 ^ k"
proof -
  have "x AND NOT (mask k) = push_bit k (drop_bit k x)"
    by (rule bit_word_eqI) (auto simp: bit_simps)
  moreover have "unat (push_bit k (drop_bit k x)) = unat x div 2 ^ k * 2 ^ k"
  proof -
    have d: "unat (drop_bit k x) = unat x div 2 ^ k" by (subst unat_drop_bit_eq) (rule drop_bit_eq_div)
    have "unat x div 2 ^ k * 2 ^ k \<le> unat x" by simp
    also have "unat x < 2 ^ 32" using unsigned_less [of x] by simp
    finally have l: "unat x div 2 ^ k * 2 ^ k < 2 ^ 32" .
    have "unat (of_nat (2 ^ k) :: u32) = 2 ^ k"
    proof -
      have "(2::nat) ^ k < 2 ^ 32" using assms by (intro power_strict_increasing) simp_all
      then show ?thesis by (simp only: unat_of_nat) simp
    qed
    then have "unat (2 ^ k :: u32) = 2 ^ k" by simp
    with l d show ?thesis by (simp only: push_bit_eq_mult unat_word_ariths) simp
  qed
  ultimately show ?thesis by simp
qed

text \<open>Rounding up, as long as the result fits in 32 bits.\<close>
lemma RoundUpToPage_nat:
  assumes "unat x + 511 < 2 ^ 32"
  shows "unat (RoundUpToPage x) = (unat x + 511) div 512 * 512"
proof -
  have "unat (x + 511) = unat x + 511" using assms by (simp add: unat_word_ariths)
  moreover have "(511 :: u32) = mask 9" by (simp add: mask_eq_exp_minus_1)
  ultimately show ?thesis
    using mask_round [of 9 "x + 511"] by (simp add: RoundUpToPage_def s_PageSize_def)
qed

lemma RoundUpToSystemPage_nat:
  assumes "unat x + 4095 < 2 ^ 32"
  shows "unat (RoundUpToSystemPage x) = (unat x + 4095) div 4096 * 4096"
proof -
  have "unat (x + 4095) = unat x + 4095" using assms by (simp add: unat_word_ariths)
  moreover have "(4095 :: u32) = mask 12" by (simp add: mask_eq_exp_minus_1)
  ultimately show ?thesis
    using mask_round [of 12 "x + 4095"] by (simp add: RoundUpToSystemPage_def s_SystemPageSize_def)
qed

lemma RoundUpToPage_props:
  assumes "unat x + 511 < 2 ^ 32"
  shows "512 dvd unat (RoundUpToPage x)" "unat x \<le> unat (RoundUpToPage x)"
    "unat (RoundUpToPage x) < unat x + 512"
  using RoundUpToPage_nat [OF assms] by auto

lemma RoundUpToSystemPage_props:
  assumes "unat x + 4095 < 2 ^ 32"
  shows "4096 dvd unat (RoundUpToSystemPage x)" "unat x \<le> unat (RoundUpToSystemPage x)"
    "unat (RoundUpToSystemPage x) < unat x + 4096"
  using RoundUpToSystemPage_nat [OF assms] by auto

lemma RoundUpToPage_aligned:
  assumes "512 dvd unat x" "unat x + 511 < 2 ^ 32"
  shows "RoundUpToPage x = x"
proof -
  have "unat (RoundUpToPage x) = unat x" using RoundUpToPage_nat [OF assms(2)] assms(1) by auto
  then show ?thesis by (rule unsigned_word_eqI)
qed

end
