(* ===== verification/Votes.thy ===== *)
theory Votes
  imports Member_Set Fingerprint Pages
begin

text \<open>
  Votes (message.cpp, class Vote): a vote keeps its own wire form in a vector
  of page-aligned buffers, to which client requests are appended.  A request
  is found through a pointer into one of the buffers, here the buffer's index
  and an offset.  The messages that carry a vote, and the checksums over
  messages and votes, are here too.
\<close>

section \<open>The vote record\<close>

record RequestCtx =
  rq_buffer :: nat
  rq_offset :: nat
  rq_bufLen :: u32
  rq_cookie :: "nat option"
  rq_decree :: u64

record 'm Vote = "'m Message" +
  v_primaryCookie :: PrimaryCookie
  v_isReconfiguration :: bool
  v_requests :: "RequestCtx list"
  v_numRequests :: u32
  v_membersInNewConfiguration :: "MemberSet option"
  v_marshal :: "memory_manager list"
  v_isExclusiveVote :: bool
  v_relinquishPrimary :: bool

definition Vote_new :: "'m Message \<Rightarrow> bool \<Rightarrow> bool \<Rightarrow> 'm Vote" where
  "Vote_new msg isReconfiguration relinquishPrimary =
     Message.extend (msg\<lparr>m_msgId := Message_Vote\<rparr>)
       (Vote.fields PrimaryCookie_empty isReconfiguration [] 0 None [] False relinquishPrimary)"

definition mk_md :: "memory_manager \<Rightarrow> marshal_data" where
  "mk_md mm = \<lparr>m_memoryManager = mm, m_selfOwnsMemoryManager = False, m_overshoot = False\<rparr>"

text \<open>VirtualAlloc returns zeroed pages.\<close>
definition AddMemory :: "u32 \<Rightarrow> bool \<Rightarrow> memory_manager" where
  "AddMemory minSize exact =
     (let len = (if exact then minSize else max minSize (32 * 1024))
      in FixedMarshalMemoryManager (\<lambda>_. 0) (RoundUpToSystemPage len))"

text \<open>
  The cookie of the vote is its value here.  In the source PrimaryCookie::UnMarshal leaves
  a pointer into the block of Init, and AddRequest, which moves the pointers of the
  requests when it copies the last page to a new block and frees the old one, does not
  move this one: that use of freed memory is outside the model.
\<close>
definition Vote_Init ::
  "u8 list \<Rightarrow> MemberSet option \<Rightarrow> PrimaryCookie \<Rightarrow> MemberId Vote \<Rightarrow> MemberId Vote res" where
  "Vote_Init garb membersInNewConfiguration cookie v =
     bindE (log_assert (\<not> v_isReconfiguration v \<or> m_version v \<ge> 3) ()) (\<lambda>_.
     let base = Message_GetBaseSize (m_version v);
         minSize = base + PrimaryCookie_GetMarshalLen cookie;
         minSize = (if m_version v \<ge> 3
                    then minSize + (case membersInNewConfiguration of
                           Some ms \<Rightarrow> if v_isReconfiguration v then 1 + MemberSet_GetMarshalLen (m_version v) ms else 1
                         | None \<Rightarrow> 1)
                    else minSize)
     in bindE (MM_SetValidLength base (AddMemory minSize False)) (\<lambda>memory.
        bindE (if m_version v \<ge> 2
               then bindE (MM_SetReadPointer (m_validLength memory) memory) (\<lambda>memory.
                    bindE (PrimaryCookie_Marshal cookie (mk_md memory)) (\<lambda>md.
                    bindE (PrimaryCookie_UnMarshal False md) (\<lambda>(c, md).
                    bindE (log_assert (c \<noteq> None) ()) (\<lambda>_.
                    bindE (on_mm (MM_SetReadPointer 0) md) (\<lambda>md.
                      Inr (the c, md))))))
               else Inr (v_primaryCookie v, mk_md memory)) (\<lambda>(c, md).
        bindE (if m_version v \<ge> 3
               then bindE (WriteUInt8 (if v_isReconfiguration v then 1 else 0) md) (\<lambda>md.
                    if v_isReconfiguration v
                    then (case membersInNewConfiguration of
                            Some ms \<Rightarrow> MemberSet_Marshal garb (m_version v) ms md
                          | None \<Rightarrow> Inr md)
                    else Inr md)
               else Inr md) (\<lambda>md.
        bindE (if m_version v \<ge> 5 then WriteUInt8 (if v_relinquishPrimary v then 1 else 0) md
               else Inr md) (\<lambda>md.
          Inr (v\<lparr>v_primaryCookie := c, v_marshal := [m_memoryManager md],
                 v_membersInNewConfiguration :=
                   (if m_version v \<ge> 3 \<and> v_isReconfiguration v then membersInNewConfiguration
                    else v_membersInNewConfiguration v)\<rparr>))))))"

definition Vote_GetMarshalLen :: "('m, 'z) Vote_scheme \<Rightarrow> u32" where
  "Vote_GetMarshalLen v = fold (\<lambda>mm len. len + m_validLength mm) (v_marshal v) 0"

definition s_RequestHeader :: u32 where
  "s_RequestHeader = 4"

text \<open>Move the last partial page to a fresh buffer and the requests' pointers with it.\<close>
definition Vote_spill :: "u32 \<Rightarrow> ('m, 'z) Vote_scheme \<Rightarrow> ('m, 'z) Vote_scheme res" where
  "Vote_spill spaceNeeded v =
     (let memory = last (v_marshal v);
          old = length (v_marshal v) - 1;
          extra = m_validLength memory mod s_SystemPageSize;
          newMemory = AddMemory (spaceNeeded + extra) False;
          from = unat (m_validLength memory - extra)
      in bindE (if extra \<noteq> 0
                then bindE (load from (unat extra) memory) (\<lambda>bytes.
                     bindE (store 0 bytes newMemory) (\<lambda>newMemory.
                     bindE (MM_SetValidLength extra newMemory) (\<lambda>newMemory.
                     bindE (MM_SetValidLength (m_validLength memory - extra) memory) (\<lambda>memory.
                       Inr (memory, newMemory)))))
                else Inr (memory, newMemory)) (\<lambda>(memory, newMemory).
         let kept = (if m_validLength memory = 0 then butlast (v_marshal v)
                     else butlast (v_marshal v) @ [memory]);
             new = length kept
         in Inr (v\<lparr>v_marshal := kept @ [newMemory],
                   v_requests := map (\<lambda>r.
                      if extra \<noteq> 0 \<and> rq_buffer r = old \<and> from \<le> rq_offset r \<and> rq_offset r < from + unat extra
                      then r\<lparr>rq_buffer := new, rq_offset := rq_offset r - from\<rparr> else r) (v_requests v)\<rparr>)))"

definition Vote_AddRequest :: "u8 list \<Rightarrow> u32 \<Rightarrow> nat option \<Rightarrow> ('m, 'z) Vote_scheme \<Rightarrow> ('m, 'z) Vote_scheme res" where
  "Vote_AddRequest req len cookie v =
     bindE (log_assert (\<not> v_isReconfiguration v) ()) (\<lambda>_.
     bindE (log_assert (v_marshal v \<noteq> []) ()) (\<lambda>_.
     let memory = last (v_marshal v); spaceNeeded = len + s_RequestHeader in
     bindE (if spaceNeeded + m_validLength memory > m_bufferLength memory
            then Vote_spill spaceNeeded v else Inr v) (\<lambda>v.
     bindE (WriteUInt32 len (mk_md (last (v_marshal v)))) (\<lambda>md.
     bindE (WriteData len req md) (\<lambda>md.
       Inr (v\<lparr>v_marshal := butlast (v_marshal v) @ [m_memoryManager md],
              v_requests := v_requests v @
                [\<lparr>rq_buffer = length (v_marshal v) - 1,
                  rq_offset = unat (GetMarshaledLength md - len), rq_bufLen = len, rq_cookie = cookie, rq_decree = 0\<rparr>],
              v_numRequests := v_numRequests v + 1\<rparr>))))))"

text \<open>Write the header over the first bytes of the first buffer.\<close>
definition Vote_ReMarshalHeader :: "(MemberId, 'z) Vote_scheme \<Rightarrow> (MemberId, 'z) Vote_scheme res" where
  "Vote_ReMarshalHeader v =
     bindE (log_assert (v_marshal v \<noteq> []) ()) (\<lambda>_.
     let first = hd (v_marshal v) in
     bindE (Message_Marshal (Vote_GetMarshalLen v) v
              (mk_md (FixedMarshalMemoryManager (m_buffer first) (Message_GetBaseSize (m_version v))))) (\<lambda>md.
       Inr (v\<lparr>v_marshal := first\<lparr>m_buffer := m_buffer (m_memoryManager md)\<rparr> # tl (v_marshal v)\<rparr>)))"

definition Vote_GetBuffers :: "nat \<Rightarrow> (MemberId, 'z) Vote_scheme \<Rightarrow> ((memory_manager \<times> u32) list \<times> (MemberId, 'z) Vote_scheme) res" where
  "Vote_GetBuffers count v =
     bindE (Vote_ReMarshalHeader v) (\<lambda>v.
     bindE (log_assert (count \<ge> length (v_marshal v)) ()) (\<lambda>_.
       Inr (map (\<lambda>mm. (mm, RoundUpToPage (m_validLength mm))) (v_marshal v), v)))"

fun Vote_Marshal_bufs :: "u32 \<Rightarrow> memory_manager list \<Rightarrow> marshal_data \<Rightarrow> marshal_data res" where
  "Vote_Marshal_bufs off [] md = Inr md"
| "Vote_Marshal_bufs off (mm # mms) md =
     bindE (load (unat off) (unat (m_validLength mm - off)) mm) (\<lambda>bytes.
     bindE (WriteData (m_validLength mm - off) bytes md) (Vote_Marshal_bufs 0 mms))"

definition Vote_Marshal :: "(MemberId, 'z) Vote_scheme \<Rightarrow> marshal_data \<Rightarrow> marshal_data res" where
  "Vote_Marshal v md =
     bindE (Message_Marshal (Vote_GetMarshalLen v) v md)
       (Vote_Marshal_bufs (Message_GetBaseSize (m_version v)) (v_marshal v))"

text \<open>
  The request loop of UnMarshal; n bounds its rounds.  A round leaves the loop,
  ends UnMarshal with false, or records one request.
\<close>
fun Vote_parse_requests ::
  "nat \<Rightarrow> bool \<Rightarrow> u64 \<Rightarrow> RequestCtx list \<Rightarrow> marshal_data \<Rightarrow> (RequestCtx list option \<times> marshal_data) res" where
  "Vote_parse_requests 0 isReconfiguration decree reqs md = Inl OutOfFuel"
| "Vote_parse_requests (Suc n) isReconfiguration decree reqs md =
     (case TestReadRemaining 1 md of (remaining, md) \<Rightarrow>
      if \<not> remaining then Inr (Some reqs, md)
      else bindE (log_assert (\<not> isReconfiguration) ()) (\<lambda>_.
           bindR ReadUInt32 (\<lambda>reqLen.
           guardR (reqLen \<noteq> 0) (
           bindR (PeekDataPointer reqLen) (\<lambda>off md.
             bindE (ForwardReadPointer reqLen md) (\<lambda>(_, md).
               Vote_parse_requests n isReconfiguration decree
                 (reqs @ [\<lparr>rq_buffer = 0, rq_offset = off, rq_bufLen = reqLen,
                          rq_cookie = None, rq_decree = decree\<rparr>])
                 md)))) md))"

definition Vote_UnMarshal :: "nat \<Rightarrow> MemberId Vote reader" where
  "Vote_UnMarshal fuel md0 =
     (let readPtr = GetReadPointer md0 in
      bindR Message_UnMarshal (\<lambda>msg md.
      bindE (SetReadPointer readPtr md) (\<lambda>(_, md).
      guardR (m_msgId msg = Message_Vote) (\<lambda>md.
        let version = m_version msg; mm = AddMemory (m_unMarshalLen msg) True in
        bindE (SetMarshaledLength (m_unMarshalLen msg) (mk_md mm)) (\<lambda>wmd.
        bindR (ReadData (m_unMarshalLen msg)) (\<lambda>bytes md.
        bindE (on_mm (store 0 bytes) wmd) (\<lambda>wmd.
        bindE (ForwardReadPointer (Message_GetBaseSize version) wmd) (\<lambda>(_, wmd).
        bindE (bindR (if version \<ge> 2 then PrimaryCookie_UnMarshal False else returnR PrimaryCookie_empty) (\<lambda>cookie.
               bindR (if version \<ge> 3 then ReadUInt8 else returnR 0) (\<lambda>isReconf.
               bindR (if version \<ge> 3 \<and> isReconf \<noteq> 0
                      then bindR (MemberSet_UnMarshal version) (\<lambda>ms. returnR (Some ms)) else returnR None) (\<lambda>members.
               bindR (if version \<ge> 5 then ReadUInt8 else returnR 0) (\<lambda>relinq.
               bindR (Vote_parse_requests fuel (isReconf \<noteq> 0) (m_decree msg) []) (\<lambda>reqs wmd.
                 Inr (Some (Message.extend msg
                        (Vote.fields cookie (isReconf \<noteq> 0) reqs (of_nat (length reqs)) members
                           [m_memoryManager wmd] False (relinq \<noteq> 0))), wmd)))))) wmd) (\<lambda>(v, _).
          Inr (v, md))))) md)) md)) md0)"


section \<open>Checksums\<close>

text \<open>
  The checksum covers the message from offset 14 on and is stored at offset 6.
  little and p say how the machine orders bytes and where the buffer lies; the
  fingerprint is computed word by word from there.
\<close>
definition s_ChecksummedOffset :: nat where
  "s_ChecksummedOffset = unat s_ChecksumOffset + 8"

definition Message_CalculateChecksum ::
  "bool \<Rightarrow> nat \<Rightarrow> u32 \<Rightarrow> u8 list \<Rightarrow> u32 \<Rightarrow> (u64 \<times> u8 list) res" where
  "Message_CalculateChecksum little p marshalLen buf len =
     bindE (log_assert (len = marshalLen) ()) (\<lambda>_.
     if unat len < s_ChecksummedOffset \<or> length buf < unat len then Inl OutOfBounds
     else let checksum = CalculateChecksum little (p + s_ChecksummedOffset)
                (drop s_ChecksummedOffset (take (unat len) buf))
          in Inr (checksum, take (unat s_ChecksumOffset) buf @ le_bytes 8 checksum @
                            drop s_ChecksummedOffset buf))"

definition Message_VerifyChecksum ::
  "bool \<Rightarrow> nat \<Rightarrow> ('m, 'z) Message_scheme \<Rightarrow> u8 list \<Rightarrow> u32 \<Rightarrow> bool res" where
  "Message_VerifyChecksum little p msg buf len =
     bindE (log_assert (len = m_unMarshalLen msg) ()) (\<lambda>_.
     if unat len < s_ChecksummedOffset \<or> length buf < unat len then Inl OutOfBounds
     else Inr (m_checksum msg = CalculateChecksum little (p + s_ChecksummedOffset)
                 (drop s_ChecksummedOffset (take (unat len) buf))))"

text \<open>p gives the address of each of the vote's buffers.\<close>
definition Vote_CalculateChecksum ::
  "bool \<Rightarrow> (nat \<Rightarrow> nat) \<Rightarrow> (MemberId, 'z) Vote_scheme \<Rightarrow> (MemberId, 'z) Vote_scheme res" where
  "Vote_CalculateChecksum little p v =
     bindE (Vote_ReMarshalHeader v) (\<lambda>v.
     bindE (log_assert (v_marshal v \<noteq> []) ()) (\<lambda>_.
     let first = hd (v_marshal v);
         init = CalculateChecksum little (p 0 + s_ChecksummedOffset) (drop s_ChecksummedOffset (mm_contents first));
         sums = fold (\<lambda>(i, mm) c. GetFingerPrint little (p i) c (mm_contents mm))
                  (zip [1..<length (v_marshal v)] (tl (v_marshal v))) init
     in Inr (v\<lparr>m_checksum := sums\<rparr>)))"

section \<open>PrepareAccepted\<close>

record 'm PrepareAccepted = "'m Message" +
  pa_vote :: "'m Vote"

definition PrepareAccepted_GetMarshalLen :: "('m, 'z) PrepareAccepted_scheme \<Rightarrow> u32" where
  "PrepareAccepted_GetMarshalLen msg =
     Vote_GetMarshalLen (pa_vote msg) + Message_GetBaseSize (m_version msg)"

definition PrepareAccepted_Marshal :: "MemberId PrepareAccepted \<Rightarrow> marshal_data \<Rightarrow> marshal_data res" where
  "PrepareAccepted_Marshal msg md =
     bindE (Message_Marshal (PrepareAccepted_GetMarshalLen msg) msg md) (Vote_Marshal (pa_vote msg))"

definition PrepareAccepted_UnMarshal :: "nat \<Rightarrow> MemberId PrepareAccepted reader" where
  "PrepareAccepted_UnMarshal fuel =
     bindR Message_UnMarshal (\<lambda>msg.
     guardR (m_msgId msg = Message_PrepareAccepted) (
     bindR (Vote_UnMarshal fuel) (\<lambda>vote.
       returnR (Message.extend msg (PrepareAccepted.fields vote)))))"

end
