(* ===== verification/Votes_Laws.thy ===== *)
theory Votes_Laws
  imports Votes
begin

text \<open>
  The laws of votes: appending requests keeps the bytes of the vote contiguous
  and every earlier request readable, also when the last page moves to a new
  buffer; a vote's wire form parses back to its requests; the checksum chained
  over the buffers is the checksum of the wire form.
\<close>

section \<open>The invariant of the buffers\<close>

definition vote_bytes :: "('m, 'z) Vote_scheme \<Rightarrow> u8 list" where
  "vote_bytes v = concat (map mm_contents (v_marshal v))"

text \<open>The bytes a request's pointer leads to.\<close>
definition req_bytes :: "('m, 'z) Vote_scheme \<Rightarrow> RequestCtx \<Rightarrow> u8 list" where
  "req_bytes v r = map (m_buffer (v_marshal v ! rq_buffer r)) [rq_offset r..<rq_offset r + unat (rq_bufLen r)]"

definition buf_ok :: "memory_manager \<Rightarrow> bool" where
  "buf_ok mm \<longleftrightarrow> mm_ok mm \<and> mm_kind mm = FixedMM \<and> unat (m_validLength mm) < 2 ^ 31"

definition req_ok :: "memory_manager list \<Rightarrow> RequestCtx \<Rightarrow> bool" where
  "req_ok mms r \<longleftrightarrow> rq_buffer r < length mms \<and> 0 < unat (rq_bufLen r) \<and>
     rq_offset r + unat (rq_bufLen r) \<le>
       (if rq_buffer r = length mms - 1 then unat (m_validLength (last mms))
        else unat (m_bufferLength (mms ! rq_buffer r)))"

definition vote_ok :: "('m, 'z) Vote_scheme \<Rightarrow> bool" where
  "vote_ok v \<longleftrightarrow> v_marshal v \<noteq> [] \<and> (\<forall>mm \<in> set (v_marshal v). buf_ok mm) \<and>
     (\<forall>mm \<in> set (butlast (v_marshal v)). 4096 dvd unat (m_validLength mm) \<and> 0 < unat (m_validLength mm)) \<and>
     (\<forall>r \<in> set (v_requests v). req_ok (v_marshal v) r)"

lemma mk_md_simps [simp]:
  "m_memoryManager (mk_md mm) = mm" "m_overshoot (mk_md mm) = False"
  "GetMarshaledLength (mk_md mm) = m_validLength mm" "md_contents (mk_md mm) = mm_contents mm"
  by (simp_all add: mk_md_def GetMarshaledLength_def md_contents_def)

lemma buf_ok_md_ok: "buf_ok mm \<Longrightarrow> md_ok (mk_md mm)"
  by (simp add: buf_ok_def md_ok_def)

text \<open>A write through a MarshalData on one of the vote's buffers.\<close>
lemma buf_write:
  assumes w: "writes w bs" and mm: "buf_ok mm"
    and room: "unat (m_validLength mm) + length bs < 2 ^ 31"
      "unat (m_validLength mm) + length bs \<le> unat (m_bufferLength mm)"
  shows "\<exists>md'. w (mk_md mm) = Inr md' \<and> buf_ok (m_memoryManager md') \<and>
     mm_contents (m_memoryManager md') = mm_contents mm @ bs \<and>
     m_bufferLength (m_memoryManager md') = m_bufferLength mm \<and>
     unat (m_validLength (m_memoryManager md')) = unat (m_validLength mm) + length bs \<and>
     (\<forall>k. unat (m_validLength (m_memoryManager md')) \<le> k \<longrightarrow>
        m_buffer (m_memoryManager md') k = m_buffer mm k)"
proof -
  have "md_room (length bs) (mk_md mm)"
    using mm room by (simp add: md_room_def mm_limit_def buf_ok_def)
  then obtain md' where md': "w (mk_md mm) = Inr md'" "appended bs (mk_md mm) md'"
    using w buf_ok_md_ok [OF mm] by (auto simp: writes_def)
  have f: "mm_kind mm = FixedMM" using mm by (simp add: buf_ok_def)
  then have k: "mm_kind (m_memoryManager md') = FixedMM" using md'(2) by (simp add: appended_def)
  have "unat (m_bufferLength (m_memoryManager md')) = unat (m_bufferLength mm)"
    using md'(2) k f by (simp add: appended_def mm_limit_def)
  then have b: "m_bufferLength (m_memoryManager md') = m_bufferLength mm" by (rule unsigned_word_eqI)
  have "length (md_contents md') = unat (m_validLength mm) + length bs"
    using md'(2) by (simp add: appended_def mm_contents_def)
  then have v: "unat (m_validLength (m_memoryManager md')) = unat (m_validLength mm) + length bs"
    by (simp add: GetMarshaledLength_def)
  show ?thesis
    using md' k b v by (auto simp: appended_def buf_ok_def md_ok_def md_contents_def GetMarshaledLength_def)
qed

lemma contents_prefix_buffer:
  assumes "mm_contents mm' = mm_contents mm @ bs" "k < unat (m_validLength mm)"
  shows "m_buffer mm' k = m_buffer mm k"
proof -
  have l: "length (mm_contents mm') = length (mm_contents mm) + length bs" using assms(1) by simp
  then have "mm_contents mm' ! k = m_buffer mm' k" "mm_contents mm ! k = m_buffer mm k"
    using assms(2) by (auto simp: mm_contents_def)
  moreover have "mm_contents mm' ! k = mm_contents mm ! k"
    using assms by (simp add: nth_append mm_contents_def)
  ultimately show ?thesis by simp
qed

lemma contents_suffix_buffer:
  assumes "mm_contents mm' = mm_contents mm @ bs @ cs"
  shows "map (m_buffer mm') [unat (m_validLength mm) + length bs..<unat (m_validLength mm) + length bs + length cs] = cs"
proof (rule nth_equalityI)
  let ?n = "unat (m_validLength mm) + length bs"
  show "length (map (m_buffer mm') [?n..<?n + length cs]) = length cs" by simp
  fix i assume "i < length (map (m_buffer mm') [?n..<?n + length cs])"
  then have i: "i < length cs" by simp
  have l: "unat (m_validLength mm') = ?n + length cs"
    using arg_cong [OF assms, of length] by (simp add: mm_contents_def)
  then have "mm_contents mm' ! (?n + i) = m_buffer mm' (?n + i)" using i by (simp add: mm_contents_def)
  moreover have "mm_contents mm' ! (?n + i) = cs ! i"
    using assms by (simp add: nth_append mm_contents_def)
  ultimately show "map (m_buffer mm') [?n..<?n + length cs] ! i = cs ! i" using i by simp
qed

section \<open>Appending a request in place\<close>

text \<open>The tail of AddRequest, once the last buffer has room.\<close>
definition add_in_place :: "u8 list \<Rightarrow> u32 \<Rightarrow> nat option \<Rightarrow> ('m, 'z) Vote_scheme \<Rightarrow> ('m, 'z) Vote_scheme res" where
  "add_in_place req len cookie v =
     bindE (WriteUInt32 len (mk_md (last (v_marshal v)))) (\<lambda>md.
     bindE (WriteData len req md) (\<lambda>md.
       Inr (v\<lparr>v_marshal := butlast (v_marshal v) @ [m_memoryManager md],
              v_requests := v_requests v @
                [\<lparr>rq_buffer = length (v_marshal v) - 1,
                  rq_offset = unat (GetMarshaledLength md - len), rq_bufLen = len, rq_cookie = cookie, rq_decree = 0\<rparr>],
              v_numRequests := v_numRequests v + 1\<rparr>)))"

definition requests_kept :: "('m, 'z) Vote_scheme \<Rightarrow> ('m, 'z) Vote_scheme \<Rightarrow> bool" where
  "requests_kept v v' \<longleftrightarrow> map (req_bytes v') (v_requests v') = map (req_bytes v) (v_requests v)"

lemma add_in_place_ok:
  assumes v: "vote_ok v" and len: "unat len \<le> length req" "0 < unat len"
    and room: "unat (m_validLength (last (v_marshal v))) + 4 + unat len < 2 ^ 31"
      "unat (m_validLength (last (v_marshal v))) + 4 + unat len \<le> unat (m_bufferLength (last (v_marshal v)))"
  shows "\<exists>v'. add_in_place req len cookie v = Inr v' \<and> vote_ok v' \<and>
     vote_bytes v' = vote_bytes v @ le_bytes 4 len @ take (unat len) req \<and>
     map (req_bytes v') (v_requests v') = map (req_bytes v) (v_requests v) @ [take (unat len) req]"
proof -
  let ?mm = "last (v_marshal v)" let ?n = "length (v_marshal v) - 1" let ?r = "take (unat len) req"
  have ne: "v_marshal v \<noteq> []" and ok: "buf_ok ?mm" using v by (auto simp: vote_ok_def)
  have w: "writes (\<lambda>md. bindE (WriteUInt32 len md) (WriteData len req)) (le_bytes 4 len @ ?r)"
    using len(1) by (intro writes_seq writes_UInt32 writes_Data)
  obtain md where md: "bindE (WriteUInt32 len (mk_md ?mm)) (WriteData len req) = Inr md"
      "buf_ok (m_memoryManager md)" "mm_contents (m_memoryManager md) = mm_contents ?mm @ le_bytes 4 len @ ?r"
      "m_bufferLength (m_memoryManager md) = m_bufferLength ?mm"
      "unat (m_validLength (m_memoryManager md)) = unat (m_validLength ?mm) + (4 + unat len)"
    using buf_write [OF w ok] room len(1) by (auto simp: min_absorb2 ac_simps)
  let ?mm' = "m_memoryManager md" let ?ms = "butlast (v_marshal v) @ [?mm']"
  have off: "unat (GetMarshaledLength md - len) = unat (m_validLength ?mm) + 4"
    using md(5) room(1) by (simp add: GetMarshaledLength_def unat_sub_if' word_le_nat_alt)
  let ?rq = "\<lparr>rq_buffer = ?n, rq_offset = unat (GetMarshaledLength md - len), rq_bufLen = len, rq_cookie = cookie, rq_decree = 0\<rparr>"
  let ?v' = "v\<lparr>v_marshal := ?ms, v_requests := v_requests v @ [?rq], v_numRequests := v_numRequests v + 1\<rparr>"
  have run: "add_in_place req len cookie v = Inr ?v'"
    using md(1) by (auto simp: add_in_place_def bindE_eq_Inr)
  have nth: "?ms ! i = (if i = ?n then ?mm' else v_marshal v ! i)" if "i < length (v_marshal v)" for i
    using that ne by (auto simp: nth_append nth_butlast)
  have lst: "v_marshal v ! ?n = ?mm" using ne by (simp add: last_conv_nth)
  have old: "req_ok ?ms r \<and> req_bytes ?v' r = req_bytes v r" if "r \<in> set (v_requests v)" for r
  proof -
    have r: "req_ok (v_marshal v) r" using v that by (simp add: vote_ok_def)
    then have i: "rq_buffer r < length (v_marshal v)" by (simp add: req_ok_def)
    have "m_buffer (?ms ! rq_buffer r) k = m_buffer (v_marshal v ! rq_buffer r) k"
      if "k < rq_offset r + unat (rq_bufLen r)" for k
      using nth [OF i] r that contents_prefix_buffer [OF md(3)] lst
      by (cases "rq_buffer r = ?n") (auto simp: req_ok_def)
    then have "req_bytes ?v' r = req_bytes v r" by (simp add: req_bytes_def)
    moreover have "req_ok ?ms r"
      using r nth [OF i] md(5) ne by (auto simp: req_ok_def)
    ultimately show ?thesis by blast
  qed
  have new: "req_ok ?ms ?rq" "req_bytes ?v' ?rq = ?r"
  proof -
    show "req_ok ?ms ?rq" using off md(5) len ne by (simp add: req_ok_def)
    show "req_bytes ?v' ?rq = ?r"
      using contents_suffix_buffer [OF md(3)] off len(1) by (simp add: req_bytes_def nth_append min_absorb2)
  qed
  have A: "vote_ok ?v'"
    using v md(2) old new(1) by (auto simp: vote_ok_def dest: in_set_butlastD)
  have B: "vote_bytes ?v' = vote_bytes v @ le_bytes 4 len @ ?r"
  proof -
    have "vote_bytes v = concat (map mm_contents (butlast (v_marshal v) @ [?mm]))"
      using ne by (simp add: vote_bytes_def)
    then show ?thesis using md(3) by (simp add: vote_bytes_def)
  qed
  have C: "map (req_bytes ?v') (v_requests ?v') = map (req_bytes v) (v_requests v) @ [?r]"
    using old new(2) by simp
  show ?thesis by (intro exI [of _ ?v'] conjI run A B C)
qed


section \<open>Moving the last page to a new buffer\<close>

text \<open>The first half of the spill: copy the partial page out of the buffer.\<close>
definition split_page :: "u32 \<Rightarrow> memory_manager \<Rightarrow> (memory_manager \<times> memory_manager) res" where
  "split_page spaceNeeded memory =
     (let extra = m_validLength memory mod s_SystemPageSize;
          newMemory = AddMemory (spaceNeeded + extra) False;
          from = unat (m_validLength memory - extra)
      in if extra \<noteq> 0
         then bindE (load from (unat extra) memory) (\<lambda>bytes.
              bindE (store 0 bytes newMemory) (\<lambda>newMemory.
              bindE (MM_SetValidLength extra newMemory) (\<lambda>newMemory.
              bindE (MM_SetValidLength (m_validLength memory - extra) memory) (\<lambda>memory.
                Inr (memory, newMemory)))))
         else Inr (memory, newMemory))"

lemma AddMemory_props:
  assumes "unat n + 32768 + 4095 < 2 ^ 32"
  shows "unat n \<le> unat (m_bufferLength (AddMemory n exact))" "m_validLength (AddMemory n exact) = 0"
    "m_readPointer (AddMemory n exact) = 0" "mm_kind (AddMemory n exact) = FixedMM"
    "m_buffer (AddMemory n exact) = (\<lambda>_. 0)"
proof -
  let ?l = "if exact then n else max n (32 * 1024)"
  have "unat ?l \<le> unat n + 32768" by (auto simp: max_def word_le_nat_alt)
  then have l: "unat ?l + 4095 < 2 ^ 32" using assms by linarith
  have "unat n \<le> unat ?l" by (auto simp: max_def word_le_nat_alt)
  also have "\<dots> \<le> unat (RoundUpToSystemPage ?l)" by (rule RoundUpToSystemPage_props(2) [OF l])
  finally show "unat n \<le> unat (m_bufferLength (AddMemory n exact))"
    by (simp add: AddMemory_def FixedMarshalMemoryManager_def Let_def)
qed (simp_all add: AddMemory_def FixedMarshalMemoryManager_def Let_def)

lemma split_page_ok:
  assumes m: "buf_ok memory" and sp: "unat sp < 2 ^ 31"
  defines "extra \<equiv> unat (m_validLength memory) mod 4096"
  defines "from \<equiv> unat (m_validLength memory) - extra"
  shows "\<exists>memory' new. split_page sp memory = Inr (memory', new) \<and>
     buf_ok memory' \<and> unat (m_validLength memory') = from \<and> m_buffer memory' = m_buffer memory \<and>
     m_bufferLength memory' = m_bufferLength memory \<and>
     buf_ok new \<and> unat (m_validLength new) = extra \<and> unat sp + extra \<le> unat (m_bufferLength new) \<and>
     (\<forall>k < extra. m_buffer new k = m_buffer memory (from + k))"
proof -
  let ?e = "m_validLength memory mod s_SystemPageSize"
  have e: "unat ?e = extra" by (simp add: extra_def s_SystemPageSize_def unat_mod)
  have ext: "extra < 4096" by (simp add: extra_def)
  have f: "unat (m_validLength memory - ?e) = from"
    using e by (simp add: unat_sub_if' from_def extra_def word_le_nat_alt)
  have spe: "unat (sp + ?e) = unat sp + extra" using sp e ext by (subst unat_add_no_wrap) auto
  let ?new = "AddMemory (sp + ?e) False"
  have new: "unat sp + extra \<le> unat (m_bufferLength ?new)" "m_validLength ?new = 0"
      "m_readPointer ?new = 0" "mm_kind ?new = FixedMM" "m_buffer ?new = (\<lambda>_. 0)"
    using AddMemory_props [of "sp + ?e" False] spe sp ext by auto
  have vb: "unat (m_validLength memory) \<le> unat (m_bufferLength memory)" "unat (m_validLength memory) < 2 ^ 31"
    using m by (auto simp: buf_ok_def mm_ok_def word_le_nat_alt)
  have fe: "from + extra = unat (m_validLength memory)" by (simp add: from_def extra_def)
  show ?thesis
  proof (cases "extra = 0")
    case True
    then have "?e = 0" using e by (metis unat_eq_zero)
    then have "split_page sp memory = Inr (memory, ?new)" by (simp add: split_page_def Let_def)
    then show ?thesis using True m new fe by (auto simp: buf_ok_def mm_ok_def)
  next
    case False
    then have ne: "?e \<noteq> 0" using e by (metis unat_0)
    let ?bytes = "map (m_buffer memory) [from..<from + extra]"
    let ?new1 = "?new\<lparr>m_buffer := blit (\<lambda>_. 0) 0 ?bytes\<rparr>"
    let ?new2 = "?new1\<lparr>m_validLength := ?e\<rparr>"
    let ?mem0 = "memory\<lparr>m_validLength := m_validLength memory - ?e\<rparr>"
    let ?mem = "if m_readPointer ?mem0 > m_validLength memory - ?e then ?mem0\<lparr>m_readPointer := 0\<rparr> else ?mem0"
    have ld: "load from (unat ?e) memory = Inr ?bytes" using vb fe e by (simp add: load_def)
    have st: "store 0 ?bytes ?new = Inr ?new1"
      using store_blit [of 0 ?bytes ?new] new by simp
    have s1: "MM_SetValidLength ?e ?new1 = Inr ?new2"
      using new e by (simp add: MM_SetValidLength_def Let_def word_le_nat_alt)
    have s2: "MM_SetValidLength (m_validLength memory - ?e) memory = Inr ?mem"
      using f fe vb by (simp add: MM_SetValidLength_def Let_def word_le_nat_alt)
    have run: "split_page sp memory = Inr (?mem, ?new2)"
      using ne ld st s1 s2 by (simp add: split_page_def Let_def f)
    have "buf_ok ?mem"
      using m f fe vb by (auto simp: buf_ok_def mm_ok_def word_le_nat_alt word_less_nat_alt)
    moreover have "buf_ok ?new2" using new e ext by (auto simp: buf_ok_def mm_ok_def word_le_nat_alt)
    moreover have "\<forall>k < extra. m_buffer ?new2 k = m_buffer memory (from + k)" by (simp add: blit_def)
    ultimately show ?thesis
      using run f e new(1) by (intro exI [of _ ?mem] exI [of _ ?new2]) simp
  qed
qed

lemma Vote_spill_split_page:
  "Vote_spill sp v = bindE (split_page sp (last (v_marshal v))) (\<lambda>(memory, newMemory).
     let extra = m_validLength (last (v_marshal v)) mod s_SystemPageSize;
         from = unat (m_validLength (last (v_marshal v)) - extra);
         kept = (if m_validLength memory = 0 then butlast (v_marshal v) else butlast (v_marshal v) @ [memory])
     in Inr (v\<lparr>v_marshal := kept @ [newMemory],
               v_requests := map (\<lambda>r.
                  if extra \<noteq> 0 \<and> rq_buffer r = length (v_marshal v) - 1 \<and> from \<le> rq_offset r \<and>
                     rq_offset r < from + unat extra
                  then r\<lparr>rq_buffer := length kept, rq_offset := rq_offset r - from\<rparr> else r) (v_requests v)\<rparr>))"
  by (simp add: Vote_spill_def split_page_def Let_def)

lemma mm_contents_split:
  assumes "unat (m_validLength memory') = from" "m_buffer memory' = m_buffer memory"
    "unat (m_validLength new) = extra" "from + extra = unat (m_validLength memory)"
    "\<forall>k < extra. m_buffer new k = m_buffer memory (from + k)"
  shows "mm_contents memory = mm_contents memory' @ mm_contents new"
  using assms by (intro nth_equalityI) (auto simp: mm_contents_def nth_append)

lemma Vote_spill_ok:
  assumes v: "vote_ok v" and sp: "unat sp < 2 ^ 31"
  shows "\<exists>v'. Vote_spill sp v = Inr v' \<and> vote_ok v' \<and> vote_bytes v' = vote_bytes v \<and> requests_kept v v' \<and>
     unat (m_validLength (last (v_marshal v'))) < 4096 \<and>
     unat (m_validLength (last (v_marshal v'))) + unat sp \<le> unat (m_bufferLength (last (v_marshal v'))) \<and>
     v_isReconfiguration v' = v_isReconfiguration v"
proof -
  let ?memory = "last (v_marshal v)" let ?old = "length (v_marshal v) - 1"
  have ne: "v_marshal v \<noteq> []" and m: "buf_ok ?memory" using v by (auto simp: vote_ok_def)
  define e where "e = m_validLength ?memory mod s_SystemPageSize"
  define frm where "frm = unat (m_validLength ?memory - e)"
  have ee: "unat e = unat (m_validLength ?memory) mod 4096" by (simp add: e_def s_SystemPageSize_def unat_mod)
  have ff: "frm = unat (m_validLength ?memory) - unat e"
    using ee by (simp add: frm_def unat_sub_if' word_le_nat_alt)
  have fe: "frm + unat e = unat (m_validLength ?memory)" using ee ff by simp
  obtain memory new where sp': "split_page sp ?memory = Inr (memory, new)"
    and mem: "buf_ok memory" "unat (m_validLength memory) = frm" "m_buffer memory = m_buffer ?memory"
      "m_bufferLength memory = m_bufferLength ?memory"
    and nw: "buf_ok new" "unat (m_validLength new) = unat e" "unat sp + unat e \<le> unat (m_bufferLength new)"
      "\<forall>k < unat e. m_buffer new k = m_buffer ?memory (frm + k)"
    using split_page_ok [OF m sp] unfolding ee [symmetric] ff [symmetric] by blast
  define kept where "kept = (if m_validLength memory = 0 then butlast (v_marshal v) else butlast (v_marshal v) @ [memory])"
  define mv where "mv r = (if e \<noteq> 0 \<and> rq_buffer r = ?old \<and> frm \<le> rq_offset r \<and> rq_offset r < frm + unat e
      then r\<lparr>rq_buffer := length kept, rq_offset := rq_offset r - frm\<rparr> else r)" for r :: RequestCtx
  let ?v' = "v\<lparr>v_marshal := kept @ [new], v_requests := map mv (v_requests v)\<rparr>"
  have run: "Vote_spill sp v = Inr ?v'"
    by (simp add: Vote_spill_split_page sp' Let_def e_def frm_def kept_def mv_def [abs_def])
  have from0: "m_validLength memory = 0 \<longleftrightarrow> frm = 0" using mem(2) by (metis unat_eq_zero)
  have lst: "v_marshal v ! ?old = ?memory" using ne by (simp add: last_conv_nth)
  have each: "req_ok (kept @ [new]) (mv r) \<and> req_bytes ?v' (mv r) = req_bytes v r" if "r \<in> set (v_requests v)" for r
  proof -
    have r: "req_ok (v_marshal v) r" using v that by (simp add: vote_ok_def)
    then have i: "rq_buffer r < length (v_marshal v)" and len: "0 < unat (rq_bufLen r)" by (auto simp: req_ok_def)
    show ?thesis
    proof (cases "rq_buffer r = ?old")
      case False
      then have b: "rq_buffer r < length (butlast (v_marshal v))" using i by simp
      then have "(kept @ [new]) ! rq_buffer r = v_marshal v ! rq_buffer r"
        by (auto simp: kept_def nth_append nth_butlast)
      then show ?thesis using False b r by (auto simp: mv_def req_ok_def req_bytes_def kept_def)
    next
      case True
      have o: "rq_offset r + unat (rq_bufLen r) \<le> unat (m_validLength ?memory)" using r True by (simp add: req_ok_def)
      show ?thesis
      proof (cases "frm \<le> rq_offset r")
        case True
        have e0: "e \<noteq> 0" using True o len fe by auto
        then have mvr: "mv r = r\<lparr>rq_buffer := length kept, rq_offset := rq_offset r - frm\<rparr>"
          using True o len fe \<open>rq_buffer r = ?old\<close> by (simp add: mv_def)
        have "req_bytes ?v' (mv r) = req_bytes v r"
          using nw(4) o fe True lst \<open>rq_buffer r = ?old\<close>
          by (intro nth_equalityI) (auto simp: req_bytes_def mvr nth_append)
        moreover have "req_ok (kept @ [new]) (mv r)"
          using o fe True nw(2) len by (auto simp: req_ok_def mvr)
        ultimately show ?thesis by blast
      next
        case False
        then have "kept = butlast (v_marshal v) @ [memory]" using from0 by (simp add: kept_def)
        then have "(kept @ [new]) ! rq_buffer r = memory" "Suc (rq_buffer r) = length kept"
          using \<open>rq_buffer r = ?old\<close> ne by (auto simp: nth_append)
        moreover have "unat (m_validLength ?memory) \<le> unat (m_bufferLength memory)"
          using m mem(4) by (simp add: buf_ok_def mm_ok_def word_le_nat_alt)
        ultimately show ?thesis
          using False o len lst mem(3) \<open>rq_buffer r = ?old\<close> by (auto simp: mv_def req_ok_def req_bytes_def)
      qed
    qed
  qed
  have al: "4096 dvd frm" using ee ff by (simp add: dvd_minus_mod)
  have A: "vote_ok ?v'"
    using v mem(1,2) nw(1) each al from0
    by (auto simp: vote_ok_def kept_def dest: in_set_butlastD)
  have cs: "mm_contents ?memory = mm_contents memory @ mm_contents new"
    by (rule mm_contents_split [OF mem(2,3) nw(2) fe nw(4)])
  have "vote_bytes v = concat (map mm_contents (butlast (v_marshal v) @ [?memory]))"
    using ne by (simp add: vote_bytes_def)
  then have B: "vote_bytes ?v' = vote_bytes v"
    using cs from0 mem(2) by (auto simp: vote_bytes_def kept_def mm_contents_def)
  have C: "requests_kept v ?v'" using each by (simp add: requests_kept_def)
  show ?thesis
    using nw(2,3) ee by (intro exI [of _ ?v'] conjI run A B C) (simp_all add: add.commute)
qed

section \<open>AddRequest\<close>

lemma Vote_AddRequest_ok:
  assumes v: "vote_ok v" "\<not> v_isReconfiguration v" and len: "unat len \<le> length req" "0 < unat len" "unat len < 2 ^ 29"
    and small: "unat (m_validLength (last (v_marshal v))) < 2 ^ 30"
  shows "\<exists>v'. Vote_AddRequest req len cookie v = Inr v' \<and> vote_ok v' \<and>
     vote_bytes v' = vote_bytes v @ le_bytes 4 len @ take (unat len) req \<and>
     map (req_bytes v') (v_requests v') = map (req_bytes v) (v_requests v) @ [take (unat len) req]"
proof -
  let ?sp = "len + s_RequestHeader" let ?mm = "last (v_marshal v)"
  have ne: "v_marshal v \<noteq> []" using v by (simp add: vote_ok_def)
  have sp: "unat ?sp = unat len + 4" using len(3) by (simp add: s_RequestHeader_def unat_word_ariths)
  have sum: "unat (?sp + m_validLength ?mm) = unat len + 4 + unat (m_validLength ?mm)"
    using sp small len(3) by (subst unat_add_no_wrap) auto
  have unf: "Vote_AddRequest req len cookie v =
      bindE (if ?sp + m_validLength ?mm > m_bufferLength ?mm then Vote_spill ?sp v else Inr v) (add_in_place req len cookie)"
    using v(2) ne by (simp add: Vote_AddRequest_def add_in_place_def [abs_def] Let_def)
  show ?thesis
  proof (cases "?sp + m_validLength ?mm > m_bufferLength ?mm")
    case True
    obtain v1 where v1: "Vote_spill ?sp v = Inr v1" "vote_ok v1" "vote_bytes v1 = vote_bytes v" "requests_kept v v1"
        "unat (m_validLength (last (v_marshal v1))) < 4096"
        "unat (m_validLength (last (v_marshal v1))) + unat ?sp \<le> unat (m_bufferLength (last (v_marshal v1)))"
      using Vote_spill_ok [OF v(1), of ?sp] sp len(3) by auto
    then show ?thesis
      using add_in_place_ok [OF v1(2) len(1,2)] True sp len(3) unf by (auto simp: requests_kept_def)
  next
    case False
    then show ?thesis
      using add_in_place_ok [OF v(1) len(1,2)] sum unf len(3) small by (auto simp: word_less_nat_alt)
  qed
qed

end
