(* ===== verification/Vote_Codec.thy ===== *)
theory Vote_Codec
  imports Votes_Laws
begin

text \<open>
  The wire form of votes: what Marshal appends, that UnMarshal recovers the
  requests from it, and where the parser leaves its buffer or never returns.
\<close>

section \<open>Parsing the requests\<close>

definition enc_requests :: "u8 list list \<Rightarrow> u8 list" where
  "enc_requests reqs = concat (map (\<lambda>r. le_bytes 4 (of_nat (length r) :: u32) @ r) reqs)"

definition ctx_bytes :: "(nat \<Rightarrow> u8) \<Rightarrow> RequestCtx \<Rightarrow> u8 list" where
  "ctx_bytes buf r = map buf [rq_offset r..<rq_offset r + unat (rq_bufLen r)]"

lemma load_rest:
  "load off n mm = Inr bs \<Longrightarrow> map (m_buffer mm) [off..<off + n] = bs"
  by (auto simp: load_def split: if_splits)

lemma Vote_parse_requests_ok:
  assumes "md_ok md" "\<not> m_overshoot md" "md_rest md = enc_requests rs" "\<forall>r \<in> set rs. r \<noteq> []" "length rs < fuel"
    "isReconf \<longrightarrow> rs = []"
  shows "\<exists>ctxs md'. Vote_parse_requests fuel isReconf decree acc md = Inr (Some (acc @ ctxs), md') \<and>
     (\<forall>r \<in> set ctxs. rq_buffer r = 0) \<and>
     map (ctx_bytes (m_buffer (m_memoryManager md))) ctxs = rs \<and>
     m_buffer (m_memoryManager md') = m_buffer (m_memoryManager md) \<and>
     m_validLength (m_memoryManager md') = m_validLength (m_memoryManager md)"
  using assms
proof (induction rs arbitrary: md acc fuel)
  case Nil
  then obtain n where "fuel = Suc n" by (cases fuel) auto
  then show ?case using Nil by (simp add: TestReadRemaining_1 enc_requests_def)
next
  case (Cons r rs)
  then obtain n where n: "fuel = Suc n" by (cases fuel) auto
  let ?l = "of_nat (length r) :: u32"
  have rest: "md_rest md = le_bytes 4 ?l @ r @ enc_requests rs" using Cons.prems(3) by (simp add: enc_requests_def)
  have ne: "md_rest md \<noteq> []" using rest by (metis append_is_Nil_conv len_le_bytes length_0_conv zero_neq_numeral)
  have 1: "ReadUInt32 md = Inr (Some ?l, advance 4 md)"
    using readsD [OF reads_UInt32 Cons.prems(1,2) rest] by simp
  let ?md1 = "advance 4 md"
  have ok1: "md_ok ?md1" "\<not> m_overshoot ?md1" "md_rest ?md1 = r @ enc_requests rs"
    using Cons.prems(1,2) rest advance_ok [OF Cons.prems(1), of 4] advance_rest [OF Cons.prems(1), of 4] by auto
  have lr: "length r < 2 ^ 31"
  proof -
    have "length r \<le> length (md_rest ?md1)" using ok1(3) by simp
    also have "\<dots> \<le> unat (GetMarshaledLength ?md1)" by (simp only: length_md_rest)
    finally show ?thesis using ok1(1) by (simp add: md_ok_def)
  qed
  have l0: "?l \<noteq> 0" and ul: "unat ?l = length r"
    using lr Cons.prems(4) by (auto simp: unat_of_nat word_of_nat_eq_0_iff dest: nat_dvd_not_less)
  note pf = peek_forward [OF refl ok1]
  let ?md2 = "advance (length r) ?md1"
  have ok2: "md_ok ?md2" "\<not> m_overshoot ?md2" "md_rest ?md2 = enc_requests rs"
    using ok1 advance_ok [OF ok1(1), of "length r"] advance_rest [OF ok1(1), of "length r"] by auto
  let ?ctx = "\<lparr>rq_buffer = 0, rq_offset = unat (GetReadPointer ?md1), rq_bufLen = ?l, rq_cookie = None, rq_decree = decree\<rparr>"
  have nr: "\<not> isReconf" using Cons.prems(6) by simp
  have "Vote_parse_requests fuel isReconf decree acc md = Vote_parse_requests n isReconf decree (acc @ [?ctx]) ?md2"
    using ne Cons.prems(1,2) 1 l0 pf(1,2) nr
    by (simp add: n TestReadRemaining_1 bindR_def guardR_def)
  moreover obtain ctxs md' where
    "Vote_parse_requests n isReconf decree (acc @ [?ctx]) ?md2 = Inr (Some ((acc @ [?ctx]) @ ctxs), md')"
    "\<forall>r \<in> set ctxs. rq_buffer r = 0"
    "map (ctx_bytes (m_buffer (m_memoryManager ?md2))) ctxs = rs"
    "m_buffer (m_memoryManager md') = m_buffer (m_memoryManager ?md2)"
    "m_validLength (m_memoryManager md') = m_validLength (m_memoryManager ?md2)"
    using Cons.IH [OF ok2, of n "acc @ [?ctx]"] Cons.prems(4,5) n nr by auto
  moreover have "ctx_bytes (m_buffer (m_memoryManager md)) ?ctx = r"
    using load_rest [OF pf(3)] ul by (simp add: ctx_bytes_def advance_def)
  ultimately show ?case
    by (intro exI [of _ "?ctx # ctxs"] exI [of _ md']) (simp add: advance_def)
qed

text \<open>
  A length field of 0xFFFFFFFC moves the read pointer back over itself: the
  loop then sees the same buffer again and never ends.
\<close>
lemma Vote_parse_requests_stuck:
  assumes "md_ok md" "\<not> m_overshoot md" "md_rest md = le_bytes 4 (0xFFFFFFFC :: u32) @ rest"
  shows "Vote_parse_requests fuel False decree acc md = Inl OutOfFuel"
proof (induction fuel arbitrary: acc)
  case (Suc n)
  let ?md1 = "advance 4 md"
  have ne: "md_rest md \<noteq> []" using assms(3) by (metis append_is_Nil_conv len_le_bytes length_0_conv zero_neq_numeral)
  have 1: "ReadUInt32 md = Inr (Some 0xFFFFFFFC, ?md1)"
    using readsD [OF reads_UInt32 assms] by simp
  have rp: "GetReadPointer ?md1 + 0xFFFFFFFC = GetReadPointer md"
    by (simp add: advance_def GetReadPointer_def)
  have le: "GetReadPointer md \<le> GetMarshaledLength md"
    using md_ok_readPointer [OF assms(1)] by (simp add: word_le_nat_alt)
  have pk: "PeekDataPointer 0xFFFFFFFC ?md1 = Inr (Some (unat (GetReadPointer ?md1)), ?md1)"
    using rp le assms(2) by (simp add: PeekDataPointer_def not_less)
  have md: "?md1\<lparr>m_overshoot := False, m_memoryManager := (m_memoryManager ?md1)\<lparr>m_readPointer := GetReadPointer md\<rparr>\<rparr> = md"
    using assms(2) by (cases md) (simp add: advance_def GetReadPointer_def)
  have vl: "m_validLength (m_memoryManager ?md1) = m_validLength (m_memoryManager md)" by (simp add: advance_def)
  have fw: "ForwardReadPointer 0xFFFFFFFC ?md1 = Inr (True, md)"
    using le md rp vl by (simp add: ForwardReadPointer_def Let_def not_less SetReadPointer_ok GetMarshaledLength_def GetReadPointer_def)
  show ?case
    using ne assms(1,2) 1 pk fw Suc by (simp add: TestReadRemaining_1 bindR_def guardR_def)
qed simp


section \<open>The whole vote\<close>

text \<open>Everything after the header.\<close>
definition vote_body :: "u8 list \<Rightarrow> u16 \<Rightarrow> PrimaryCookie \<Rightarrow> MemberSet option \<Rightarrow> bool \<Rightarrow> u8 list list \<Rightarrow> u8 list" where
  "vote_body garb version cookie members relinq reqs =
     (if version \<ge> 2 then enc_PrimaryCookie cookie else []) @
     (if version \<ge> 3 then [if members \<noteq> None then 1 else 0] else []) @
     (case members of None \<Rightarrow> [] | Some ms \<Rightarrow> enc_MemberSet garb version ms) @
     (if version \<ge> 5 then [if relinq then 1 else 0] else []) @ enc_requests reqs"

definition body_valid :: "u16 \<Rightarrow> PrimaryCookie \<Rightarrow> MemberSet option \<Rightarrow> bool \<Rightarrow> u8 list list \<Rightarrow> bool" where
  "body_valid version cookie members relinq reqs \<longleftrightarrow>
     cookie_ok cookie \<and> (version < 2 \<longrightarrow> cookie = PrimaryCookie_empty) \<and>
     (\<forall>ms. members = Some ms \<longrightarrow> version \<ge> 3 \<and> memberset_valid version ms \<and> reqs = []) \<and>
     (relinq \<longrightarrow> version \<ge> 5) \<and> (\<forall>r \<in> set reqs. r \<noteq> [])"

lemma bindR_reads:
  assumes "reads r bs v" "md_ok md" "\<not> m_overshoot md" "md_rest md = bs @ rest"
  shows "bindR r f md = f v (advance (length bs) md)" "md_ok (advance (length bs) md)"
    "\<not> m_overshoot (advance (length bs) md)" "md_rest (advance (length bs) md) = rest"
  using readsD [OF assms] advance_ok [OF assms(2), of "length bs"] advance_rest [OF assms(2), of "length bs"] assms(3,4)
  by (auto simp: bindR_def)

text \<open>The readers between the header and the requests, as one.\<close>
definition read_prefix ::
  "u16 \<Rightarrow> (PrimaryCookie \<times> u8 \<times> MemberSet option \<times> u8) reader" where
  "read_prefix version =
     bindR (if version \<ge> 2 then PrimaryCookie_UnMarshal False else returnR PrimaryCookie_empty) (\<lambda>cookie.
     bindR (if version \<ge> 3 then ReadUInt8 else returnR 0) (\<lambda>isReconf.
     bindR (if version \<ge> 3 \<and> isReconf \<noteq> 0
            then bindR (MemberSet_UnMarshal version) (\<lambda>ms. returnR (Some ms)) else returnR None) (\<lambda>members.
     bindR (if version \<ge> 5 then ReadUInt8 else returnR 0) (\<lambda>relinq.
       returnR (cookie, isReconf, members, relinq)))))"

lemma bindR_assoc: "bindR (bindR r f) g = bindR r (\<lambda>x. bindR (f x) g)"
proof
  fix md
  show "bindR (bindR r f) g md = bindR r (\<lambda>x. bindR (f x) g) md"
    by (cases "r md") (auto simp: bindR_def split: option.splits)
qed

lemma bindR_return [simp]: "bindR (returnR x) f = f x"
  by (simp add: bindR_def returnR_def fun_eq_iff)

lemma bindR_read_prefix:
  "bindR (read_prefix version) (\<lambda>(cookie, isReconf, members, relinq). f cookie isReconf members relinq) =
     bindR (if version \<ge> 2 then PrimaryCookie_UnMarshal False else returnR PrimaryCookie_empty) (\<lambda>cookie.
     bindR (if version \<ge> 3 then ReadUInt8 else returnR 0) (\<lambda>isReconf.
     bindR (if version \<ge> 3 \<and> isReconf \<noteq> 0
            then bindR (MemberSet_UnMarshal version) (\<lambda>ms. returnR (Some ms)) else returnR None) (\<lambda>members.
     bindR (if version \<ge> 5 then ReadUInt8 else returnR 0) (\<lambda>relinq. f cookie isReconf members relinq))))"
  by (simp add: read_prefix_def bindR_assoc)

lemma reads_prefix:
  assumes v: "body_valid version cookie members relinq reqs"
  shows "\<exists>pre. vote_body (replicate MemberId_Size g) version cookie members relinq reqs = pre @ enc_requests reqs \<and>
     reads (read_prefix version) pre
       (cookie, if members \<noteq> None then 1 else 0, members, if relinq then 1 else 0)"
proof -
  let ?g = "replicate MemberId_Size g"
  let ?r = "(if members \<noteq> None then 1 else 0) :: u8" and ?q = "(if relinq then 1 else 0) :: u8"
  have 1: "reads (if 2 \<le> version then PrimaryCookie_UnMarshal False else returnR PrimaryCookie_empty)
      (if version \<ge> 2 then enc_PrimaryCookie cookie else []) cookie"
    using v reads_PrimaryCookie reads_return [of PrimaryCookie_empty] by (auto simp: body_valid_def)
  have 2: "reads (if 3 \<le> version then ReadUInt8 else returnR 0) (if version \<ge> 3 then [?r] else []) ?r"
    using v reads_UInt8 reads_return [of "0 :: u8"] by (auto simp: body_valid_def)
  have 3: "reads (if version \<ge> 3 \<and> ?r \<noteq> 0
            then bindR (MemberSet_UnMarshal version) (\<lambda>ms. returnR (Some ms)) else returnR None)
       (case members of None \<Rightarrow> [] | Some ms \<Rightarrow> enc_MemberSet ?g version ms) members"
  proof (cases members)
    case (Some ms)
    then have m: "memberset_valid version ms" "version \<ge> 3" using v by (auto simp: body_valid_def)
    then show ?thesis using reads_bind_return [OF membersetc.read_enc [OF m(1)], where f = Some] Some by simp
  qed (simp add: reads_return)
  have 4: "reads (if 5 \<le> version then ReadUInt8 else returnR 0) (if version \<ge> 5 then [?q] else []) ?q"
    using v reads_UInt8 reads_return [of "0 :: u8"] by (auto simp: body_valid_def)
  have "reads (read_prefix version)
      ((if version \<ge> 2 then enc_PrimaryCookie cookie else []) @ (if version \<ge> 3 then [?r] else []) @
       (case members of None \<Rightarrow> [] | Some ms \<Rightarrow> enc_MemberSet ?g version ms) @
       (if version \<ge> 5 then [?q] else [])) (cookie, ?r, members, ?q)"
    unfolding read_prefix_def
    by (rule reads_bind [OF 1], rule reads_bind [OF 2], rule reads_bind [OF 3], rule reads_bind_return [OF 4]) simp
  then show ?thesis by (intro exI conjI) (auto simp: vote_body_def)
qed

text \<open>The buffer a received vote is copied to.\<close>
definition vote_buffer :: "u8 list \<Rightarrow> memory_manager" where
  "vote_buffer bs = (AddMemory (of_nat (length bs)) True)
     \<lparr>m_validLength := of_nat (length bs), m_buffer := blit (\<lambda>_. 0) 0 bs\<rparr>"

lemma vote_buffer_ok:
  assumes "length bs < 2 ^ 31"
  shows "buf_ok (vote_buffer bs)" "mm_contents (vote_buffer bs) = bs" "m_readPointer (vote_buffer bs) = 0"
    "m_validLength (vote_buffer bs) = of_nat (length bs)"
    "bindE (SetMarshaledLength (of_nat (length bs)) (mk_md (AddMemory (of_nat (length bs)) True)))
       (on_mm (store 0 bs)) = Inr (mk_md (vote_buffer bs))"
proof -
  let ?n = "of_nat (length bs) :: u32"
  have n: "unat ?n = length bs" using assms by (simp add: unat_of_nat)
  note am = AddMemory_props [of ?n True, unfolded n]
  have b: "length bs \<le> unat (m_bufferLength (AddMemory ?n True))" using am(1) assms by simp
  then have le: "?n \<le> m_bufferLength (AddMemory ?n True)" using n by (simp add: word_le_nat_alt)
  have p: "m_validLength (AddMemory ?n True) = 0" "m_readPointer (AddMemory ?n True) = 0"
    "mm_kind (AddMemory ?n True) = FixedMM" "m_buffer (AddMemory ?n True) = (\<lambda>_. 0)"
    using am assms by auto
  show "m_readPointer (vote_buffer bs) = 0" "m_validLength (vote_buffer bs) = ?n"
    using p by (simp_all add: vote_buffer_def)
  show "buf_ok (vote_buffer bs)" using p le n assms by (simp add: vote_buffer_def buf_ok_def mm_ok_def)
  show "mm_contents (vote_buffer bs) = bs"
    using map_blit_append [of "\<lambda>_. 0" 0 bs] n by (simp add: vote_buffer_def mm_contents_def)
  have "store 0 bs (AddMemory ?n True\<lparr>m_validLength := ?n\<rparr>) = Inr (vote_buffer bs)"
    using store_blit [of 0 bs "AddMemory ?n True\<lparr>m_validLength := ?n\<rparr>"] b p(4) by (simp add: vote_buffer_def)
  then show "bindE (SetMarshaledLength ?n (mk_md (AddMemory ?n True))) (on_mm (store 0 bs)) = Inr (mk_md (vote_buffer bs))"
    using le p by (simp add: SetMarshaledLength_def MM_ResizeBuffer_def Fixed_ResizeBuffer_def MM_SetValidLength_def
        Let_def mk_md_def)
qed

lemma SetReadPointer_back:
  "md_ok md \<Longrightarrow> \<not> m_overshoot md \<Longrightarrow> SetReadPointer (GetReadPointer md) (advance n md) = Inr (True, md)"
  by (cases md) (simp add: SetReadPointer_ok advance_def GetReadPointer_def GetMarshaledLength_def md_ok_def mm_ok_def)

text \<open>Up to the request loop: the vote is copied to a buffer of its own, whose header and flags are read.\<close>
lemma Vote_UnMarshal_prefix:
  fixes pre tail
  assumes msg: "message_valid msg" "m_msgId msg = Message_Vote" "m_version msg = version"
    and pre: "reads (read_prefix version) pre (cookie, r, members, q)"
    and len: "m_unMarshalLen msg = of_nat (length (enc_Message (m_unMarshalLen msg) msg @ pre @ tail))"
    and md: "md_ok md" "\<not> m_overshoot md" "md_rest md = (enc_Message (m_unMarshalLen msg) msg @ pre @ tail) @ rest"
  defines "w \<equiv> enc_Message (m_unMarshalLen msg) msg @ pre @ tail"
  defines "wmd \<equiv> advance (length (enc_Message (m_unMarshalLen msg) msg) + length pre) (mk_md (vote_buffer w))"
  shows "Vote_UnMarshal fuel md =
      bindE (bindR (Vote_parse_requests fuel (r \<noteq> 0) (m_decree msg) []) (\<lambda>reqs wmd.
         Inr (Some (Message.extend (Message.truncate msg)
                (Vote.fields cookie (r \<noteq> 0) reqs (of_nat (length reqs)) members
                   [m_memoryManager wmd] False (q \<noteq> 0))), wmd)) wmd) (\<lambda>(v, _). Inr (v, advance (length w) md))"
    "md_ok wmd" "\<not> m_overshoot wmd" "md_rest wmd = tail" "length w < 2 ^ 31"
proof -
  let ?L = "m_unMarshalLen msg" let ?hd = "enc_Message ?L msg" let ?base = "Message_GetBaseSize version"
  have mok: "member_ok (m_memberId msg)" "ballot_ok (m_ballot msg)"
    using msg(1) by (auto simp: message_valid_def member_valid_def ballot_ok_def)
  have hb: "?base = of_nat (length ?hd)" using length_enc_Message [OF mok] msg(3) by simp
  have md': "md_rest md = w @ rest" and len': "?L = of_nat (length w)" using md(3) len by (simp_all add: w_def)
  show wlen: "length w < 2 ^ 31"
  proof -
    have "length w \<le> length (md_rest md)" using md' by simp
    also have "\<dots> \<le> unat (GetMarshaledLength md)" by (simp only: length_md_rest)
    finally show ?thesis using md(1) by (simp add: md_ok_def)
  qed
  have hdr: "Message_UnMarshal md = Inr (Some (Message.truncate msg), advance (length ?hd) md)"
    using readsD [OF reads_Message [OF msg(1) refl] md(1,2)] md(3) by simp
  have rd: "ReadData ?L md = Inr (Some w, advance (length w) md)"
    using readsD [OF reads_get_bytes [OF len'] md(1,2) md'] by (simp add: ReadData_def)
  note vb = vote_buffer_ok [OF wlen, folded len']
  let ?wmd = "mk_md (vote_buffer w)"
  have w0: "md_ok ?wmd" "\<not> m_overshoot ?wmd" "md_rest ?wmd = ?hd @ pre @ tail"
    using vb buf_ok_md_ok by (auto simp: md_rest_def GetReadPointer_def w_def)
  have fw: "ForwardReadPointer ?base ?wmd = Inr (True, advance (length ?hd) ?wmd)"
    using peek_forward(2) [OF hb w0] .
  let ?w1 = "advance (length ?hd) ?wmd"
  have w1: "md_ok ?w1" "\<not> m_overshoot ?w1" "md_rest ?w1 = pre @ tail"
    using advance_ok [OF w0(1), of "length ?hd"] advance_rest [OF w0(1), of "length ?hd"] w0 by auto
  note w2 = bindR_reads [OF pre w1]
  show "md_ok wmd" "\<not> m_overshoot wmd" "md_rest wmd = tail" using w2(2-4) by (simp_all add: wmd_def)
  have ver: "m_version (Message.truncate msg) = version" "m_msgId (Message.truncate msg) = Message_Vote"
    "m_unMarshalLen (Message.truncate msg) = ?L" "m_decree (Message.truncate msg) = m_decree msg"
    using msg by (simp_all add: Message.defs)
  obtain wmd0 where s: "SetMarshaledLength ?L (mk_md (AddMemory ?L True)) = Inr wmd0"
      "on_mm (store 0 w) wmd0 = Inr ?wmd"
    using vb(5) by (auto simp only: bindE_eq_Inr)
  let ?tail = "\<lambda>cookie isReconf members relinq. bindR (Vote_parse_requests fuel (isReconf \<noteq> 0) (m_decree msg) [])
      (\<lambda>reqs wmd. Inr (Some (Message.extend (Message.truncate msg)
                        (Vote.fields cookie (isReconf \<noteq> 0) reqs (of_nat (length reqs)) members
                           [m_memoryManager wmd] False (relinq \<noteq> 0)) :: MemberId Vote), wmd))"
  have "bindR (read_prefix version) (\<lambda>(cookie, isReconf, members, relinq). ?tail cookie isReconf members relinq) ?w1 =
      ?tail cookie r members q wmd"
    by (simp only: w2(1) case_prod_conv wmd_def advance_advance)
  note inner = this [unfolded bindR_read_prefix]
  show "Vote_UnMarshal fuel md = bindE (?tail cookie r members q wmd) (\<lambda>(v, _). Inr (v, advance (length w) md))"
    unfolding Vote_UnMarshal_def Let_def
    by (simp only: bindR_def [of Message_UnMarshal] bindR_def [of "ReadData ?L"] hdr rd bindE_simps case_prod_conv
        option.case SetReadPointer_back [OF md(1,2)] guardR_def ver simp_thms if_True s fw inner)
qed

lemma Vote_UnMarshal_ok:
  fixes g version cookie members relinq reqs
  defines "body \<equiv> vote_body (replicate MemberId_Size g) version cookie members relinq reqs"
  assumes msg: "message_valid msg" "m_msgId msg = Message_Vote" "m_version msg = version"
    and body: "body_valid version cookie members relinq reqs"
    and len: "m_unMarshalLen msg = of_nat (length (enc_Message (m_unMarshalLen msg) msg @ body))"
    and md: "md_ok md" "\<not> m_overshoot md" "md_rest md = (enc_Message (m_unMarshalLen msg) msg @ body) @ rest"
    and fuel: "length reqs < fuel"
  shows "\<exists>v. Vote_UnMarshal fuel md = Inr (Some v, advance (length (enc_Message (m_unMarshalLen msg) msg @ body)) md) \<and>
     Message.truncate v = Message.truncate msg \<and> v_primaryCookie v = cookie \<and>
     v_membersInNewConfiguration v = members \<and> (v_isReconfiguration v \<longleftrightarrow> members \<noteq> None) \<and>
     v_relinquishPrimary v = relinq \<and> map (req_bytes v) (v_requests v) = reqs \<and>
     vote_bytes v = enc_Message (m_unMarshalLen msg) msg @ body"
proof -
  let ?r = "(if members \<noteq> None then 1 else 0) :: u8" and ?q = "(if relinq then 1 else 0) :: u8"
  obtain pre where pre: "body = pre @ enc_requests reqs" "reads (read_prefix version) pre (cookie, ?r, members, ?q)"
    using reads_prefix [OF body] unfolding body_def by blast
  let ?w = "enc_Message (m_unMarshalLen msg) msg @ pre @ enc_requests reqs"
  note px = Vote_UnMarshal_prefix [OF msg pre(2) len [unfolded pre(1)] md(1,2) md(3) [unfolded pre(1)]]
  note vb = vote_buffer_ok [OF px(5)]
  have r: "?r \<noteq> 0 \<longleftrightarrow> members \<noteq> None" "?q \<noteq> 0 \<longleftrightarrow> relinq" by auto
  obtain ctxs w3 where p: "Vote_parse_requests fuel (members \<noteq> None) (m_decree msg) []
      (advance (length (enc_Message (m_unMarshalLen msg) msg) + length pre) (mk_md (vote_buffer ?w))) = Inr (Some ctxs, w3)"
    "map (ctx_bytes (m_buffer (vote_buffer ?w))) ctxs = reqs"
    "m_buffer (m_memoryManager w3) = m_buffer (vote_buffer ?w)"
    "m_validLength (m_memoryManager w3) = m_validLength (vote_buffer ?w)" "\<forall>r \<in> set ctxs. rq_buffer r = 0"
    using Vote_parse_requests_ok [OF px(2-4), of fuel "members \<noteq> None" "m_decree msg" "[]"] body fuel
    by (auto simp: body_valid_def advance_def)
  let ?v = "Message.extend (Message.truncate msg) (Vote.fields cookie (members \<noteq> None) ctxs
      (of_nat (length ctxs)) members [m_memoryManager w3] False relinq) :: MemberId Vote"
  have run: "Vote_UnMarshal fuel md = Inr (Some ?v, advance (length ?w) md)"
    unfolding px(1) r by (simp only: bindR_def p(1) bindE_simps case_prod_conv option.case)
  have vm: "v_marshal ?v = [m_memoryManager w3]" "v_requests ?v = ctxs" by (simp_all add: Message.defs Vote.defs)
  have "map (req_bytes ?v) ctxs = map (ctx_bytes (m_buffer (vote_buffer ?w))) ctxs"
    using p(3,5) by (auto simp: req_bytes_def ctx_bytes_def Message.defs Vote.defs)
  moreover have "vote_bytes ?v = ?w"
    using p(3,4) vb(2) by (simp add: vote_bytes_def mm_contents_def Message.defs Vote.defs)
  moreover have "Message.truncate ?v = Message.truncate msg" "v_primaryCookie ?v = cookie"
    "v_membersInNewConfiguration ?v = members" "v_isReconfiguration ?v = (members \<noteq> None)"
    "v_relinquishPrimary ?v = relinq"
    by (simp_all add: Message.defs Vote.defs)
  ultimately show ?thesis using run p(2) vm(2) pre(1) by (intro exI [of _ ?v]) simp
qed

section \<open>Marshalling a vote\<close>

lemma length_mm_contents: "length (mm_contents mm) = unat (m_validLength mm)"
  by (simp add: mm_contents_def)

lemma Vote_GetMarshalLen_bytes: "Vote_GetMarshalLen v = of_nat (length (vote_bytes v))"
proof -
  have "fold (\<lambda>mm len. len + m_validLength mm) mms c = c + of_nat (length (concat (map mm_contents mms)))" for mms c
    by (induction mms arbitrary: c) (simp_all add: length_mm_contents)
  then show ?thesis by (simp add: Vote_GetMarshalLen_def vote_bytes_def)
qed

lemma writes_bufs:
  assumes "\<forall>mm \<in> set mms. buf_ok mm"
  shows "writes (Vote_Marshal_bufs 0 mms) (concat (map mm_contents mms))"
  using assms
proof (induction mms)
  case Nil
  have "Vote_Marshal_bufs 0 [] = Inr" by (simp add: fun_eq_iff)
  then show ?case using writes_Nil by simp
next
  case (Cons mm mms)
  have "unat (m_validLength mm) \<le> unat (m_bufferLength mm)"
    using Cons.prems by (simp add: buf_ok_def mm_ok_def word_le_nat_alt)
  then have "load 0 (unat (m_validLength mm)) mm = Inr (mm_contents mm)" by (simp add: load_def mm_contents_def)
  then have "Vote_Marshal_bufs 0 (mm # mms) =
      (\<lambda>md. bindE (WriteData (m_validLength mm) (mm_contents mm) md) (Vote_Marshal_bufs 0 mms))"
    by (simp add: fun_eq_iff)
  moreover have "writes (WriteData (m_validLength mm) (mm_contents mm)) (mm_contents mm)"
    using writes_Data [of "m_validLength mm" "mm_contents mm"] by (simp add: length_mm_contents)
  ultimately show ?case using Cons writes_seq by simp
qed

text \<open>The header's place: the first buffer holds at least the base size.\<close>
definition header_room :: "(MemberId, 'z) Vote_scheme \<Rightarrow> bool" where
  "header_room v \<longleftrightarrow> unat (Message_GetBaseSize (m_version v)) \<le> unat (m_validLength (hd (v_marshal v)))"

definition vote_header_ok :: "(MemberId, 'z) Vote_scheme \<Rightarrow> bool" where
  "vote_header_ok v \<longleftrightarrow> IsVersionValid (m_version v) \<and> member_valid (m_version v) (m_memberId v) \<and>
     member_valid (m_version v) (m_ballotMember (m_ballot v))"

lemma writes_Vote:
  assumes "vote_ok v" "vote_header_ok v" "header_room v"
  shows "writes (Vote_Marshal v)
     (enc_Message (Vote_GetMarshalLen v) v @ drop (unat (Message_GetBaseSize (m_version v))) (vote_bytes v))"
proof -
  let ?b = "Message_GetBaseSize (m_version v)"
  obtain mm mms where m: "v_marshal v = mm # mms" using assms(1) by (cases "v_marshal v") (auto simp: vote_ok_def)
  have ok: "buf_ok mm" "\<forall>mm \<in> set mms. buf_ok mm" using assms(1) m by (auto simp: vote_ok_def)
  have b: "unat ?b \<le> unat (m_validLength mm)" using assms(3) m by (simp add: header_room_def)
  have sub: "unat (m_validLength mm - ?b) = unat (m_validLength mm) - unat ?b"
    using b by (simp add: unat_sub_if')
  have vb: "unat (m_validLength mm) \<le> unat (m_bufferLength mm)"
    using ok(1) by (simp add: buf_ok_def mm_ok_def word_le_nat_alt)
  let ?c = "drop (unat ?b) (mm_contents mm)"
  have "load (unat ?b) (unat (m_validLength mm - ?b)) mm = Inr ?c"
    using b vb sub by (simp add: load_def mm_contents_def drop_map)
  then have "Vote_Marshal_bufs ?b (v_marshal v) =
      (\<lambda>md. bindE (WriteData (m_validLength mm - ?b) ?c md) (Vote_Marshal_bufs 0 mms))"
    using m by (simp add: fun_eq_iff)
  moreover have "writes (WriteData (m_validLength mm - ?b) ?c) ?c"
    using writes_Data [of "m_validLength mm - ?b" ?c] sub by (simp add: length_mm_contents)
  ultimately have "writes (Vote_Marshal_bufs ?b (v_marshal v)) (?c @ concat (map mm_contents mms))"
    using writes_seq writes_bufs [OF ok(2)] by simp
  moreover have "drop (unat ?b) (vote_bytes v) = ?c @ concat (map mm_contents mms)"
    using b m by (simp add: vote_bytes_def length_mm_contents)
  moreover have "writes (Message_Marshal (Vote_GetMarshalLen v) v) (enc_Message (Vote_GetMarshalLen v) v)"
    using assms(2) by (intro writes_Message) (auto simp: vote_header_ok_def)
  ultimately show ?thesis unfolding Vote_Marshal_def using writes_seq by simp
qed

section \<open>The checksum of a vote\<close>

text \<open>Rewriting the header changes the first base-size bytes of the vote and nothing else.\<close>
lemma Vote_ReMarshalHeader_ok:
  assumes "vote_ok v" "vote_header_ok v" "header_room v"
  shows "\<exists>v'. Vote_ReMarshalHeader v = Inr v' \<and> v' = v\<lparr>v_marshal := v_marshal v'\<rparr> \<and> v_marshal v' \<noteq> [] \<and>
     map m_validLength (v_marshal v') = map m_validLength (v_marshal v) \<and>
     mm_contents (hd (v_marshal v')) = enc_Message (Vote_GetMarshalLen v) v @
        drop (unat (Message_GetBaseSize (m_version v))) (mm_contents (hd (v_marshal v))) \<and>
     tl (v_marshal v') = tl (v_marshal v)"
proof -
  let ?b = "Message_GetBaseSize (m_version v)" let ?f = "hd (v_marshal v)"
  let ?mm = "FixedMarshalMemoryManager (m_buffer ?f) ?b" let ?h = "enc_Message (Vote_GetMarshalLen v) v"
  have ne: "v_marshal v \<noteq> []" using assms(1) by (simp add: vote_ok_def)
  have "member_ok (m_memberId v)" "ballot_ok (m_ballot v)"
    using assms(2) by (auto simp: vote_header_ok_def member_valid_def ballot_ok_def)
  then have hl: "length ?h = unat ?b" using length_enc_Message by blast
  have b31: "unat ?b < 2 ^ 31"
    by (simp add: Message_GetBaseSize_def Let_def MemberId_GetBaseSize_def BallotNumber_GetBaseSize_def MemberId_Size_def)
  have bo: "buf_ok ?mm" by (simp add: buf_ok_def mm_ok_def FixedMarshalMemoryManager_def)
  have w: "writes (Message_Marshal (Vote_GetMarshalLen v) v) ?h"
    using assms(2) by (intro writes_Message) (auto simp: vote_header_ok_def)
  obtain md where md: "Message_Marshal (Vote_GetMarshalLen v) v (mk_md ?mm) = Inr md"
      "mm_contents (m_memoryManager md) = mm_contents ?mm @ ?h"
      "unat (m_validLength (m_memoryManager md)) = unat (m_validLength ?mm) + length ?h"
      "\<forall>k. unat (m_validLength (m_memoryManager md)) \<le> k \<longrightarrow> m_buffer (m_memoryManager md) k = m_buffer ?mm k"
    using buf_write [OF w bo] hl b31 by (auto simp: FixedMarshalMemoryManager_def)
  have z: "m_validLength ?mm = 0" "m_buffer ?mm = m_buffer ?f" by (simp_all add: FixedMarshalMemoryManager_def)
  then have c: "map (m_buffer (m_memoryManager md)) [0..<length ?h] = ?h"
    using md(2,3) by (simp add: mm_contents_def)
  let ?f' = "?f\<lparr>m_buffer := m_buffer (m_memoryManager md)\<rparr>"
  let ?v' = "v\<lparr>v_marshal := ?f' # tl (v_marshal v)\<rparr>"
  have run: "Vote_ReMarshalHeader v = Inr ?v'"
    using ne md(1) by (simp add: Vote_ReMarshalHeader_def Let_def)
  have room: "length ?h \<le> unat (m_validLength ?f)" using assms(3) hl by (simp add: header_room_def)
  have "mm_contents ?f' = ?h @ drop (unat ?b) (mm_contents ?f)"
  proof -
    have "[0..<unat (m_validLength ?f)] = [0..<length ?h] @ [length ?h..<unat (m_validLength ?f)]"
      using room by (metis le_add_diff_inverse upt_add_eq_append zero_le)
    then have "mm_contents ?f' = ?h @ map (m_buffer (m_memoryManager md)) [length ?h..<unat (m_validLength ?f)]"
      using c by (simp add: mm_contents_def)
    also have "map (m_buffer (m_memoryManager md)) [length ?h..<unat (m_validLength ?f)] =
        map (m_buffer ?f) [length ?h..<unat (m_validLength ?f)]"
      using md(3,4) z by auto
    finally show ?thesis using hl by (simp add: mm_contents_def drop_map)
  qed
  then show ?thesis using run ne by (intro exI [of _ ?v']) (auto simp flip: list.map_comp simp: neq_Nil_conv)
qed


lemma fold_fingerprint:
  "length is = length mms \<Longrightarrow>
   fold (\<lambda>(i, mm) c. GetFingerPrint little (p i) c (mm_contents mm)) (zip is mms) c =
   rabin the_poly c (concat (map mm_contents mms))"
proof (induction "is" mms arbitrary: c rule: list_induct2)
  case Nil
  show ?case by (simp add: rabin_def)
next
  case (Cons i "is" mm mms)
  then show ?case by (simp add: GetFingerPrint_rabin rabin_append)
qed

lemma enc_Message_from_14:
  "drop 14 (enc_Message len (v\<lparr>m_checksum := c\<rparr>)) = drop 14 (enc_Message len v)" for v :: "(MemberId, 'z) Message_scheme"
  by (simp add: enc_Message_def drop_append)

lemma base_size_bounds: "14 \<le> unat (Message_GetBaseSize version)" "unat (Message_GetBaseSize version) < 4096"
  by (simp_all add: Message_GetBaseSize_def Let_def MemberId_GetBaseSize_def BallotNumber_GetBaseSize_def MemberId_Size_def)

lemma Vote_CalculateChecksum_ok:
  assumes "vote_ok v" "vote_header_ok v" "header_room v"
  defines "tail \<equiv> drop (unat (Message_GetBaseSize (m_version v))) (vote_bytes v)"
  shows "\<exists>v'. Vote_CalculateChecksum little p v = Inr v' \<and>
     Vote_GetMarshalLen v' = Vote_GetMarshalLen v \<and> m_version v' = m_version v \<and>
     drop (unat (Message_GetBaseSize (m_version v'))) (vote_bytes v') = tail \<and>
     m_checksum v' = rabin the_poly the_poly
       (drop 14 (enc_Message (Vote_GetMarshalLen v') v' @ tail))"
proof -
  let ?b = "unat (Message_GetBaseSize (m_version v))" let ?h = "enc_Message (Vote_GetMarshalLen v) v"
  obtain v1 where v1: "Vote_ReMarshalHeader v = Inr v1" "v1 = v\<lparr>v_marshal := v_marshal v1\<rparr>" "v_marshal v1 \<noteq> []"
     "map m_validLength (v_marshal v1) = map m_validLength (v_marshal v)"
     "mm_contents (hd (v_marshal v1)) = ?h @ drop ?b (mm_contents (hd (v_marshal v)))"
     "tl (v_marshal v1) = tl (v_marshal v)"
    using Vote_ReMarshalHeader_ok [OF assms(1-3)] by blast
  obtain mm mms where m: "v_marshal v = mm # mms" using assms(1) by (cases "v_marshal v") (auto simp: vote_ok_def)
  obtain mm' where m': "v_marshal v1 = mm' # mms" using v1(3,6) m by (cases "v_marshal v1") auto
  have mb: "?b \<le> unat (m_validLength mm)" using assms(3) m by (simp add: header_room_def)
  have "member_ok (m_memberId v)" "ballot_ok (m_ballot v)"
    using assms(2) by (auto simp: vote_header_ok_def member_valid_def ballot_ok_def)
  then have hl: "length ?h = ?b" using length_enc_Message by blast
  have b1: "vote_bytes v1 = ?h @ tail"
    using v1(5) m m' mb by (simp add: vote_bytes_def tail_def length_mm_contents)
  have lb: "length (vote_bytes v) = ?b + length tail"
    using mb m by (simp add: vote_bytes_def tail_def length_mm_contents)
  let ?c = "rabin the_poly the_poly (drop 14 (vote_bytes v1))"
  have len: "Vote_GetMarshalLen (v1\<lparr>m_checksum := c\<rparr>) = Vote_GetMarshalLen v" for c
    using b1 hl lb by (simp add: Vote_GetMarshalLen_bytes) (simp add: vote_bytes_def)
  have "14 \<le> length (mm_contents mm')" using v1(5) m' hl base_size_bounds(1) [of "m_version v"] by simp
  then have "drop 14 (vote_bytes v1) = drop 14 (mm_contents mm') @ concat (map mm_contents mms)"
    by (simp add: vote_bytes_def m')
  then have run: "Vote_CalculateChecksum little p v = Inr (v1\<lparr>m_checksum := ?c\<rparr>)"
    using v1(1,3) m'
    by (simp add: Vote_CalculateChecksum_def Let_def fold_fingerprint CalculateChecksum_rabin rabin_append
        s_ChecksummedOffset_def s_ChecksumOffset_def)
  have h14: "drop 14 (enc_Message len (v1\<lparr>m_checksum := ?c\<rparr>)) = drop 14 (enc_Message len v)" for len
    by (subst v1(2)) (simp add: enc_Message_def drop_append)
  have ver: "m_version (v1\<lparr>m_checksum := ?c\<rparr>) = m_version v" by (subst v1(2)) simp
  have vb: "vote_bytes (v1\<lparr>m_checksum := ?c\<rparr>) = ?h @ tail" using b1 by (simp add: vote_bytes_def)
  have "length (enc_Message (Vote_GetMarshalLen v) (v1\<lparr>m_checksum := ?c\<rparr>)) = length ?h"
    by (subst v1(2)) (simp add: enc_Message_def)
  then have "drop 14 (enc_Message (Vote_GetMarshalLen v) (v1\<lparr>m_checksum := ?c\<rparr>) @ tail) = drop 14 (?h @ tail)"
    using h14 by (simp add: drop_append)
  then show ?thesis
    using run len ver vb hl b1 by (intro exI [of _ "v1\<lparr>m_checksum := ?c\<rparr>"]) simp
qed

lemma Verify_rabin:
  assumes "unat len = length wire" "14 \<le> length wire" "m_unMarshalLen msg = len"
    "m_checksum msg = rabin the_poly the_poly (drop 14 wire)"
  shows "Message_VerifyChecksum little q msg wire len = Inr True"
  using assms by (simp add: Message_VerifyChecksum_def CalculateChecksum_rabin s_ChecksummedOffset_def s_ChecksumOffset_def)

section \<open>Building a vote\<close>

lemma WriteUInt8_full:
  assumes "mm_kind (m_memoryManager md) = FixedMM" "GetMarshaledLength md = m_bufferLength (m_memoryManager md)"
    "unat (GetMarshaledLength md) < 2 ^ 31"
  shows "WriteUInt8 b md = Inl AssertFailed"
proof -
  let ?n = "GetMarshaledLength md"
  have "unat (?n + 1) = unat ?n + 1" using assms(3) by (subst unat_add_no_wrap) auto
  then have "\<not> ?n + 1 \<le> ?n" by (simp add: word_le_nat_alt)
  then show ?thesis
    using assms by (simp add: WriteUInt8_def put_bytes_def MD_EnsureBuffer_def MM_EnsureBuffer_def Fixed_EnsureBuffer_def)
qed

text \<open>The steps of Init around the cookie: append it, read it back in place, rewind.\<close>
definition init_cookie :: "PrimaryCookie \<Rightarrow> memory_manager \<Rightarrow> (PrimaryCookie \<times> marshal_data) res" where
  "init_cookie cookie memory =
     bindE (MM_SetReadPointer (m_validLength memory) memory) (\<lambda>memory.
     bindE (PrimaryCookie_Marshal cookie (mk_md memory)) (\<lambda>md.
     bindE (PrimaryCookie_UnMarshal False md) (\<lambda>(c, md).
     bindE (log_assert (c \<noteq> None) ()) (\<lambda>_.
     bindE (on_mm (MM_SetReadPointer 0) md) (\<lambda>md. Inr (the c, md))))))"

definition fixed_end :: "memory_manager \<Rightarrow> u8 list \<Rightarrow> marshal_data \<Rightarrow> bool" where
  "fixed_end mm bs md \<longleftrightarrow> md_ok md \<and> \<not> m_overshoot md \<and> mm_kind (m_memoryManager md) = FixedMM \<and>
     m_bufferLength (m_memoryManager md) = m_bufferLength mm \<and> md_contents md = mm_contents mm @ bs"

lemma fixed_end_length: "fixed_end mm bs md \<Longrightarrow> unat (GetMarshaledLength md) = unat (m_validLength mm) + length bs"
  unfolding fixed_end_def by (metis length_append length_md_contents length_mm_contents)

lemma fixed_end_write:
  assumes "fixed_end mm bs md" "writes w cs" "unat (m_validLength mm) + length (bs @ cs) < 2 ^ 31"
    "unat (m_validLength mm) + length (bs @ cs) \<le> unat (m_bufferLength mm)"
  shows "\<exists>md'. w md = Inr md' \<and> fixed_end mm (bs @ cs) md'"
proof -
  have "md_room (length cs) md"
    using assms fixed_end_length [OF assms(1)] by (simp add: md_room_def mm_limit_def fixed_end_def)
  then obtain md' where md': "w md = Inr md'" "appended cs md md'"
    using assms(1,2) by (auto simp: writes_def fixed_end_def)
  have k: "mm_kind (m_memoryManager md') = FixedMM" using md'(2) assms(1) by (simp add: appended_def fixed_end_def)
  then have "unat (m_bufferLength (m_memoryManager md')) = unat (m_bufferLength mm)"
    using md'(2) assms(1) by (simp add: appended_def mm_limit_def fixed_end_def)
  then have "m_bufferLength (m_memoryManager md') = m_bufferLength mm" by (rule unsigned_word_eqI)
  with k md' assms(1) show ?thesis by (auto simp: appended_def fixed_end_def)
qed

lemma init_cookie_ok:
  assumes mm: "buf_ok mm" and c: "cookie_ok cookie"
    and room: "unat (m_validLength mm) + length (enc_PrimaryCookie cookie) < 2 ^ 31"
      "unat (m_validLength mm) + length (enc_PrimaryCookie cookie) \<le> unat (m_bufferLength mm)"
  shows "\<exists>md. init_cookie cookie mm = Inr (cookie, md) \<and> fixed_end mm (enc_PrimaryCookie cookie) md"
proof -
  let ?mm = "mm\<lparr>m_readPointer := m_validLength mm\<rparr>" let ?e = "enc_PrimaryCookie cookie"
  have 1: "MM_SetReadPointer (m_validLength mm) mm = Inr ?mm" by (simp add: MM_SetReadPointer_def)
  have f0: "fixed_end ?mm [] (mk_md ?mm)" using mm by (simp add: fixed_end_def md_ok_def buf_ok_def mm_ok_def)
  have rm: "md_room (length ?e) (mk_md ?mm)" using mm room by (simp add: md_room_def mm_limit_def buf_ok_def)
  obtain md where md: "PrimaryCookie_Marshal cookie (mk_md ?mm) = Inr md" "appended ?e (mk_md ?mm) md"
    using writes_PrimaryCookie [OF c] rm f0 by (auto simp: writes_def fixed_end_def)
  obtain md2 where md2: "PrimaryCookie_Marshal cookie (mk_md ?mm) = Inr md2" "fixed_end ?mm ([] @ ?e) md2"
    using fixed_end_write [OF f0 writes_PrimaryCookie [OF c]] room by auto
  then have fe: "fixed_end ?mm ?e md" using md(1) by simp
  have rp: "GetReadPointer md = m_validLength mm" using md(2) by (simp add: appended_def GetReadPointer_def)
  have rest: "md_rest md = ?e"
    using fe rp by (simp add: md_rest_def fixed_end_def) (simp add: mm_contents_def)
  then have rd: "PrimaryCookie_UnMarshal False md = Inr (Some cookie, advance (length ?e) md)"
    using readsD [OF reads_PrimaryCookie [OF c], of md "[]" False] fe by (simp add: fixed_end_def)
  let ?md' = "md\<lparr>m_memoryManager := (m_memoryManager md)\<lparr>m_readPointer := 0\<rparr>\<rparr>"
  have sr: "on_mm (MM_SetReadPointer 0) (advance (length ?e) md) = Inr ?md'"
    by (simp add: MM_SetReadPointer_def advance_def)
  have "fixed_end mm ?e ?md'"
    using fe by (auto simp: fixed_end_def md_ok_def mm_ok_def md_contents_def mm_contents_def GetMarshaledLength_def)
  then show ?thesis using 1 md(1) rd sr by (simp add: init_cookie_def)
qed

text \<open>
  Init reserves room for the header, the cookie and the reconfiguration byte,
  but version 5 added one more byte: when what it reserves fills its pages
  exactly, writing that byte fails.
\<close>
lemma Vote_Init_full:
  assumes ver: "m_version v = 5 \<or> m_version v = 6" and nr: "\<not> v_isReconfiguration v" and c: "cookie_ok cookie"
    and N: "unat (Message_GetBaseSize (m_version v)) + unat (pc_len cookie) + 5 = N"
    and page: "4096 dvd N" "32768 \<le> N" "N < 2 ^ 31"
  shows "Vote_Init garb None cookie v = Inl AssertFailed"
proof -
  let ?b = "Message_GetBaseSize (m_version v)" let ?e = "enc_PrimaryCookie cookie"
  let ?min = "?b + PrimaryCookie_GetMarshalLen cookie + 1"
  have v: "2 \<le> m_version v" "3 \<le> m_version v" "5 \<le> m_version v" using ver by auto
  have el: "length ?e = unat (pc_len cookie) + 4" using c by (simp add: enc_PrimaryCookie_def cookie_ok_def)
  have min: "unat ?min = N"
    using N page(3) by (simp add: PrimaryCookie_GetMarshalLen_def unat_word_ariths)
  then have "unat (max ?min (32 * 1024)) = N" using page(2) by (auto simp: max_def word_le_nat_alt)
  then have "unat (RoundUpToSystemPage (max ?min (32 * 1024))) = N"
    using RoundUpToSystemPage_nat [of "max ?min (32 * 1024)"] page by auto
  then have buf: "unat (m_bufferLength (AddMemory ?min False)) = N"
    by (simp add: AddMemory_def FixedMarshalMemoryManager_def Let_def)
  let ?mm = "AddMemory ?min False\<lparr>m_validLength := ?b\<rparr>"
  have bN: "unat ?b + length ?e + 1 = N" using N el by simp
  have sv: "MM_SetValidLength ?b (AddMemory ?min False) = Inr ?mm"
    using buf bN AddMemory_props(3) [of ?min False] min page(3)
    by (simp add: MM_SetValidLength_def Let_def word_le_nat_alt)
  have ok: "buf_ok ?mm"
    using buf bN AddMemory_props(3,4) [of ?min False] min page(3) by (simp add: buf_ok_def mm_ok_def word_le_nat_alt)
  obtain md where md: "init_cookie cookie ?mm = Inr (cookie, md)" "fixed_end ?mm ?e md"
    using init_cookie_ok [OF ok c] bN buf page(3) by auto
  obtain md1 where md1: "WriteUInt8 0 md = Inr md1" "fixed_end ?mm (?e @ [0]) md1"
    using fixed_end_write [OF md(2) writes_UInt8, of 0] bN buf page(3) by auto
  have "unat (GetMarshaledLength md1) = N" using fixed_end_length [OF md1(2)] bN by simp
  then have "unat (GetMarshaledLength md1) = unat (m_bufferLength (m_memoryManager md1))"
    using buf md1(2) by (simp add: fixed_end_def)
  then have "WriteUInt8 x md1 = Inl AssertFailed" for x
    using md1(2) \<open>unat (GetMarshaledLength md1) = N\<close> page(3)
    by (intro WriteUInt8_full) (auto simp: fixed_end_def intro: unsigned_word_eqI)
  then show ?thesis
    using v nr sv md(1) md1(1) by (simp add: Vote_Init_def Let_def init_cookie_def)
qed

end
