(* ===== verification/Log_File.thy ===== *)
theory Log_File
  imports Vote_Codec
begin

text \<open>
  The log file of logfile.cpp.  A log file is written in whole disk pages, by
  gathered writes of at most PAGES_PER_WRITE system pages, and indexed in
  memory: m_decreeOffsets gives the offset of the last vote of each decree from
  m_minDecree on.  The file's bytes are lf_disk; whether the system completes a
  write is the parameter io.
\<close>

section \<open>State\<close>

record LogFile =
  lf_decreeOffsets :: "u64 list"
  lf_dataLen :: u64
  lf_minDecree :: u64
  lf_disk :: "u8 list"

definition LogFile_new :: "u8 list \<Rightarrow> LogFile" where
  "LogFile_new disk = \<lparr>lf_decreeOffsets = [], lf_dataLen = 0, lf_minDecree = 0, lf_disk = disk\<rparr>"

definition PAGES_PER_WRITE :: nat where
  "PAGES_PER_WRITE = 512"

section \<open>Writing\<close>

text \<open>The file after bs has been written at offset off.\<close>
definition disk_write :: "nat \<Rightarrow> u8 list \<Rightarrow> u8 list \<Rightarrow> u8 list" where
  "disk_write off bs d = take off d @ replicate (off - length d) 0 @ bs @ drop (off + length bs) d"

definition IssueWriteFileGather ::
  "(u64 \<Rightarrow> u32 \<Rightarrow> bool) \<Rightarrow> u8 list list \<Rightarrow> u64 \<Rightarrow> u32 \<Rightarrow> u8 list \<Rightarrow> bool \<times> u8 list" where
  "IssueWriteFileGather io segments offset bytesToWrite d =
     (if io offset bytesToWrite
      then (True, disk_write (unat offset) (take (unat bytesToWrite) (concat segments)) d)
      else (False, d))"

type_synonym write_state = "u8 list list \<times> u32 \<times> u64 \<times> u8 list"

text \<open>The inner loop of LogFile::Write, over the system pages of one buffer.\<close>
fun write_pages :: "(u64 \<Rightarrow> u32 \<Rightarrow> bool) \<Rightarrow> u8 list list \<Rightarrow> write_state \<Rightarrow> bool \<times> write_state" where
  "write_pages io [] st = (True, st)"
| "write_pages io (p # ps) (segments, bytesToWrite, offset, d) =
     (let segments = segments @ [p] in
      if length segments = PAGES_PER_WRITE
      then let toWrite = min (of_nat PAGES_PER_WRITE * s_SystemPageSize) bytesToWrite in
           case IssueWriteFileGather io segments offset toWrite d of (ok, d) \<Rightarrow>
           if \<not> ok then (False, (segments, bytesToWrite, offset, d))
           else write_pages io ps ([], bytesToWrite - toWrite, offset + ucast toWrite, d)
      else write_pages io ps (segments, bytesToWrite, offset, d))"

definition buffer_pages :: "u8 list \<Rightarrow> u8 list list" where
  "buffer_pages b =
     (let len = of_nat (length b) :: u32;
          numPages = unat (len div s_SystemPageSize);
          numPages = (if len mod s_SystemPageSize \<noteq> 0 then numPages + 1 else numPages)
      in map (\<lambda>j. take (unat s_SystemPageSize) (drop (j * unat s_SystemPageSize) b)) [0..<numPages])"

fun write_bufs :: "(u64 \<Rightarrow> u32 \<Rightarrow> bool) \<Rightarrow> u8 list list \<Rightarrow> write_state \<Rightarrow> (bool \<times> write_state) res" where
  "write_bufs io [] st = Inr (True, st)"
| "write_bufs io (b # bs) (segments, bytesToWrite, offset, d) =
     (let len = of_nat (length b) :: u32 in
      bindE (log_assert (len mod s_PageSize = 0) ()) (\<lambda>_.
      bindE (log_assert (bs = [] \<or> len mod s_SystemPageSize = 0) ()) (\<lambda>_.
      case write_pages io (buffer_pages b) (segments, bytesToWrite + len, offset, d) of (ok, st) \<Rightarrow>
      if ok then write_bufs io bs st else Inr (False, st))))"

definition LogFile_Write :: "(u64 \<Rightarrow> u32 \<Rightarrow> bool) \<Rightarrow> u8 list list \<Rightarrow> LogFile \<Rightarrow> (bool \<times> LogFile) res" where
  "LogFile_Write io bufs lf =
     bindE (write_bufs io bufs ([], 0, lf_dataLen lf, lf_disk lf)) (\<lambda>(ok, segments, bytesToWrite, offset, d).
       if \<not> ok then Inr (False, lf\<lparr>lf_disk := d\<rparr>)
       else if length segments > 0
       then case IssueWriteFileGather io segments offset bytesToWrite d of (ok, d) \<Rightarrow>
            Inr (ok, lf\<lparr>lf_disk := d\<rparr>)
       else Inr (True, lf\<lparr>lf_disk := d\<rparr>))"

text \<open>
  LogFile::WriteMessage for a vote: its buffers are handed over padded to disk
  pages (VirtualAlloc reserves whole pages, so the padding is readable).
\<close>
definition LogFile_WriteVote ::
  "bool \<Rightarrow> (nat \<Rightarrow> nat) \<Rightarrow> (u64 \<Rightarrow> u32 \<Rightarrow> bool) \<Rightarrow> MemberId Vote \<Rightarrow> LogFile \<Rightarrow> (bool \<times> u32 \<times> LogFile) res" where
  "LogFile_WriteVote little p io vote lf =
     bindE (Vote_CalculateChecksum little p vote) (\<lambda>vote.
     bindE (Vote_GetBuffers (length (v_marshal vote)) vote) (\<lambda>(buffers, vote).
     bindE (LogFile_Write io (map (\<lambda>(mm, len). map (m_buffer mm) [0..<unat len]) buffers) lf) (\<lambda>(ok, lf).
       Inr (ok, sum_list (map snd buffers), lf))))"

text \<open>For any other message; marshal and marshalLen are its virtual Marshal and GetMarshalLen.\<close>
definition LogFile_WriteMessage ::
  "bool \<Rightarrow> nat \<Rightarrow> (u64 \<Rightarrow> u32 \<Rightarrow> bool) \<Rightarrow> (marshal_data \<Rightarrow> marshal_data res) \<Rightarrow> u32 \<Rightarrow> LogFile \<Rightarrow>
   (bool \<times> u32 \<times> LogFile) res" where
  "LogFile_WriteMessage little p io marshal marshalLen lf =
     (let toWrite = RoundUpToPage marshalLen in
      bindE (marshal (mk_md (FixedMarshalMemoryManager (\<lambda>_. 0) toWrite))) (\<lambda>md.
      bindE (Message_CalculateChecksum little p marshalLen
               (map (m_buffer (m_memoryManager md)) [0..<unat toWrite]) marshalLen) (\<lambda>(_, buf).
      bindE (LogFile_Write io [buf] lf) (\<lambda>(ok, lf).
        Inr (ok, toWrite, lf)))))"

section \<open>The index\<close>

definition MaxDecree :: "LogFile \<Rightarrow> u64" where
  "MaxDecree lf =
     (let size = of_nat (length (lf_decreeOffsets lf)) :: u32
      in if size \<noteq> 0 then lf_minDecree lf + ucast size - 1 else 0)"

definition HasDecree :: "u64 \<Rightarrow> LogFile \<Rightarrow> bool" where
  "HasDecree decree lf \<longleftrightarrow> lf_minDecree lf \<le> decree \<and> MaxDecree lf \<ge> decree"

text \<open>msgId, decree and marshalLen are the message's m_msgId, m_decree and GetMarshalLen.\<close>
definition LogFile_AddMessage :: "u16 \<Rightarrow> u64 \<Rightarrow> u32 \<Rightarrow> LogFile \<Rightarrow> LogFile res" where
  "LogFile_AddMessage msgId decree marshalLen lf =
     (let messageLen = RoundUpToPage marshalLen in
      bindE (if msgId = Message_Vote
             then bindE (if lf_decreeOffsets lf = [] then Inr (lf\<lparr>lf_minDecree := decree\<rparr>)
                         else bindE (log_assert (decree = MaxDecree lf \<or> decree = MaxDecree lf + 1) ()) (\<lambda>_.
                              Inr (if MaxDecree lf = decree
                                   then lf\<lparr>lf_decreeOffsets := butlast (lf_decreeOffsets lf)\<rparr> else lf))) (\<lambda>lf.
                  Inr (lf\<lparr>lf_decreeOffsets := lf_decreeOffsets lf @ [lf_dataLen lf]\<rparr>))
             else Inr lf) (\<lambda>lf.
        Inr (lf\<lparr>lf_dataLen := lf_dataLen lf + ucast messageLen\<rparr>)))"

definition GetOffset :: "u64 \<Rightarrow> LogFile \<Rightarrow> u64 res" where
  "GetOffset decree lf =
     bindE (log_assert (decree \<ge> lf_minDecree lf \<and> decree \<le> MaxDecree lf) ()) (\<lambda>_.
     let offset = ucast (decree - lf_minDecree lf) :: u32 in
     if lf_decreeOffsets lf = [] then Inr 0
     else if unat offset < length (lf_decreeOffsets lf) then Inr (lf_decreeOffsets lf ! unat offset)
     else Inl OutOfBounds)"

definition GetLengthOfDecree :: "u64 \<Rightarrow> LogFile \<Rightarrow> u32 res" where
  "GetLengthOfDecree decree lf =
     (if decree < MaxDecree lf
      then bindE (GetOffset (decree + 1) lf) (\<lambda>b. bindE (GetOffset decree lf) (\<lambda>a. Inr (ucast (b - a))))
      else bindE (GetOffset decree lf) (\<lambda>a. Inr (ucast (lf_dataLen lf - a))))"

section \<open>Gathered writes write the buffers in order\<close>

lemma disk_write_append:
  "disk_write (off + length a) b (disk_write off a d) = disk_write off (a @ b) d"
  by (auto simp: disk_write_def min_def ac_simps)

lemma disk_write_nil: "off \<le> length d \<Longrightarrow> disk_write off [] d = d"
  by (simp add: disk_write_def)

lemma take_disk_write:
  "off \<le> length d \<Longrightarrow> take off (disk_write off bs d) = take off d"
  by (simp add: disk_write_def)

lemma read_disk_write:
  "off \<le> length d \<Longrightarrow> take (length bs) (drop off (disk_write off bs d)) = bs"
  by (simp add: disk_write_def)


text \<open>The system completes every write.\<close>
abbreviation completes :: "u64 \<Rightarrow> u32 \<Rightarrow> bool" where
  "completes \<equiv> \<lambda>_ _. True"

text \<open>What is on disk, what is gathered and how many bytes are still to be written.\<close>
definition write_inv :: "u64 \<Rightarrow> u8 list \<Rightarrow> u8 list \<Rightarrow> nat \<Rightarrow> write_state \<Rightarrow> bool" where
  "write_inv off0 d0 bytes pending st \<longleftrightarrow>
     (case st of (segments, bytesToWrite, offset, d) \<Rightarrow>
      \<exists>written. d = disk_write (unat off0) written d0 \<and> offset = off0 + of_nat (length written) \<and>
        bytes = written @ concat segments \<and> length segments < PAGES_PER_WRITE \<and>
        unat bytesToWrite = length (concat segments) + pending \<and>
        length (concat segments) = 4096 * length segments)"

lemma full_pages_length: "\<forall>p \<in> set ps. length p = 4096 \<Longrightarrow> length (concat ps) = 4096 * length ps"
  by (induction ps) auto

lemma write_pages_ok:
  assumes "write_inv off0 d0 bytes (length (concat ps) + rest) (segments, bytesToWrite, offset, d)"
    and "unat off0 + length bytes + length (concat ps) < 2 ^ 64"
    and "length bytes + length (concat ps) < 2 ^ 32"
    and "\<forall>p \<in> set ps. length p = 4096"
  shows "\<exists>st. write_pages completes ps (segments, bytesToWrite, offset, d) = (True, st) \<and>
     write_inv off0 d0 (bytes @ concat ps) rest st"
  using assms
proof (induction ps arbitrary: segments bytesToWrite offset d bytes)
  case Nil
  then show ?case by simp
next
  case (Cons p ps)
  obtain written where w: "d = disk_write (unat off0) written d0" "offset = off0 + of_nat (length written)"
      "bytes = written @ concat segments" "length segments < PAGES_PER_WRITE"
      "unat bytesToWrite = length (concat segments) + (length (concat (p # ps)) + rest)"
      "length (concat segments) = 4096 * length segments"
    using Cons.prems(1) by (auto simp: write_inv_def)
  have pl: "length p = 4096" using Cons.prems(4) by simp
  let ?segs = "segments @ [p]"
  have cl: "length (concat ?segs) = 4096 * length ?segs" using w(6) pl by simp
  show ?case
  proof (cases "length ?segs = PAGES_PER_WRITE")
    case True
    then have c512: "length (concat ?segs) = 2097152" using cl by (simp add: PAGES_PER_WRITE_def)
    let ?tw = "min (of_nat PAGES_PER_WRITE * s_SystemPageSize) bytesToWrite"
    have k: "(of_nat PAGES_PER_WRITE * s_SystemPageSize) = (2097152 :: u32)"
      by (simp add: PAGES_PER_WRITE_def s_SystemPageSize_def)
    have btw: "unat bytesToWrite = 2097152 + (length (concat ps) + rest)" using w(5) c512 by simp
    then have tw: "?tw = 2097152" by (simp add: k min_def word_le_nat_alt)
    have t: "take 2097152 (concat ?segs) = concat ?segs" using c512 by simp
    have "length written + 2097152 \<le> length bytes + 4096"
      using w(3,6) c512 pl by simp
    then have uo: "unat offset = unat off0 + length written"
      using Cons.prems(2) w(2,3) by (simp add: unat_word_ariths unat_of_nat)
    have i: "write_inv off0 d0 (written @ concat ?segs) (length (concat ps) + rest)
      ([], bytesToWrite - 2097152, offset + 2097152, disk_write (unat offset) (concat ?segs) d)"
    proof -
      have "unat (bytesToWrite - 2097152) = length (concat ps) + rest"
        using btw by (simp add: unat_sub word_le_nat_alt)
      moreover have "offset + 2097152 = off0 + of_nat (length (written @ concat ?segs))"
        using w(2) c512 by simp
      moreover have "disk_write (unat offset) (concat ?segs) d = disk_write (unat off0) (written @ concat ?segs) d0"
        using disk_write_append [of "unat off0" written "concat ?segs" d0] w(1) uo by simp
      ultimately show ?thesis by (auto simp: write_inv_def PAGES_PER_WRITE_def)
    qed
    have "\<exists>st. write_pages completes ps ([], bytesToWrite - 2097152, offset + 2097152,
        disk_write (unat offset) (concat ?segs) d) = (True, st) \<and>
        write_inv off0 d0 ((written @ concat ?segs) @ concat ps) rest st"
      by (rule Cons.IH [OF i]) (use Cons.prems(2-4) w(3) in \<open>auto simp: ac_simps\<close>)
    then show ?thesis using True tw t w(3)
      by (simp add: IssueWriteFileGather_def k Let_def)
  next
    case False
    have i: "write_inv off0 d0 (bytes @ p) (length (concat ps) + rest) (?segs, bytesToWrite, offset, d)"
      using w False cl by (auto simp: write_inv_def ac_simps)
    have "\<exists>st. write_pages completes ps (?segs, bytesToWrite, offset, d) = (True, st) \<and>
        write_inv off0 d0 ((bytes @ p) @ concat ps) rest st"
      by (rule Cons.IH [OF i]) (use Cons.prems(2-4) in \<open>auto simp: ac_simps\<close>)
    then show ?thesis using False by (simp add: Let_def)
  qed
qed

text \<open>The last buffer may end in a partial page, after which no page follows.\<close>
definition write_end :: "u64 \<Rightarrow> u8 list \<Rightarrow> u8 list \<Rightarrow> write_state \<Rightarrow> bool" where
  "write_end off0 d0 bytes st \<longleftrightarrow>
     (case st of (segments, bytesToWrite, offset, d) \<Rightarrow>
      \<exists>written. d = disk_write (unat off0) written d0 \<and> offset = off0 + of_nat (length written) \<and>
        bytes = written @ concat segments \<and> unat bytesToWrite = length (concat segments))"

lemma write_inv_end: "write_inv off0 d0 bytes 0 st \<Longrightarrow> write_end off0 d0 bytes st"
  by (auto simp: write_inv_def write_end_def split: prod.splits)

lemma write_partial_page:
  assumes "write_inv off0 d0 bytes (length q) st" "length q < 4096"
    and "unat off0 + length bytes < 2 ^ 64"
  shows "\<exists>st'. write_pages completes [q] st = (True, st') \<and> write_end off0 d0 (bytes @ q) st'"
proof -
  obtain segments btw offset d where st: "st = (segments, btw, offset, d)" by (cases st) auto
  obtain written where w: "d = disk_write (unat off0) written d0" "offset = off0 + of_nat (length written)"
      "bytes = written @ concat segments" "length segments < PAGES_PER_WRITE"
      "unat btw = length (concat segments) + length q" "length (concat segments) = 4096 * length segments"
    using assms(1) by (auto simp: write_inv_def st)
  have k: "(of_nat PAGES_PER_WRITE * s_SystemPageSize) = (2097152 :: u32)"
    by (simp add: PAGES_PER_WRITE_def s_SystemPageSize_def)
  have uo: "unat offset = unat off0 + length written"
    using assms(3) w(2,3) by (simp add: unat_word_ariths unat_of_nat)
  have "unat btw < 2097152" using w(4,5,6) assms(2) by (simp add: PAGES_PER_WRITE_def)
  then have m: "min 2097152 btw = btw" by (simp add: min_def word_le_nat_alt)
  show ?thesis
  proof (cases "length (segments @ [q]) = PAGES_PER_WRITE")
    case True
    have "disk_write (unat offset) (concat segments @ q) d = disk_write (unat off0) (written @ concat segments @ q) d0"
      using disk_write_append [of "unat off0" written "concat segments @ q" d0] w(1) uo by simp
    moreover have "offset + ucast btw = off0 + of_nat (length (written @ concat segments @ q))"
    proof -
      have "ucast btw = (of_nat (unat btw) :: u64)" by simp
      then show ?thesis using w(2,5) by simp
    qed
    ultimately show ?thesis using True w(3,5) m
      by (simp add: st k Let_def IssueWriteFileGather_def write_end_def)
  next
    case False
    then show ?thesis using w by (auto simp: st Let_def write_end_def)
  qed
qed

lemma write_pages_append:
  "write_pages io (ps @ qs) st =
     (case write_pages io ps st of (ok, st') \<Rightarrow> if ok then write_pages io qs st' else (False, st'))"
  by (induction io ps st rule: write_pages.induct) (auto simp: Let_def split: prod.splits)

text \<open>The pages of a buffer: full ones, and one of the remaining bytes.\<close>
lemma buffer_pages_split:
  assumes "length b < 2 ^ 32"
  defines "n \<equiv> length b div 4096" and "q \<equiv> drop (length b div 4096 * 4096) b"
  shows "\<exists>ps. (\<forall>p \<in> set ps. length p = 4096) \<and> concat ps @ q = b \<and>
     buffer_pages b = (if length b mod 4096 = 0 then ps else ps @ [q])"
proof -
  let ?page = "\<lambda>j. take 4096 (drop (j * 4096) b)"
  have c: "concat (map ?page [0..<k]) = take (k * 4096) b" for k
    by (induction k) (simp_all add: take_add [symmetric] add.commute)
  have len: "unat (of_nat (length b) :: u32) = length b" using assms(1) by (simp add: unat_of_nat)
  have d: "unat ((of_nat (length b) :: u32) div 4096) = n"
    by (simp add: unat_div len n_def)
  have r: "(of_nat (length b) :: u32) mod 4096 = 0 \<longleftrightarrow> length b mod 4096 = 0"
    by (simp add: unat_eq_0 [symmetric] unat_mod len)
  have "\<forall>p \<in> set (map ?page [0..<n]). length p = 4096"
    by (auto simp: n_def)
  moreover have "concat (map ?page [0..<n]) @ q = b" by (simp only: c n_def q_def append_take_drop_id)
  moreover have "?page n = q" using mod_less_divisor [of 4096 "length b"]
    by (simp add: q_def n_def minus_div_mult_eq_mod del: mod_less_divisor)
  ultimately show ?thesis
    by (intro exI [of _ "map ?page [0..<n]"]) (simp add: buffer_pages_def Let_def s_SystemPageSize_def d r)
qed

definition page_buffers :: "u8 list list \<Rightarrow> bool" where
  "page_buffers bufs \<longleftrightarrow> (\<forall>b \<in> set bufs. 512 dvd length b) \<and> (\<forall>b \<in> set (butlast bufs). 4096 dvd length b)"

lemma of_nat_mod_zero:
  assumes "n < 2 ^ 32" "k < 2 ^ 32"
  shows "(of_nat n :: u32) mod of_nat k = 0 \<longleftrightarrow> k dvd n"
proof -
  have "unat ((of_nat n :: u32) mod of_nat k) = n mod k"
    using assms by (simp add: unat_mod unat_of_nat)
  then show ?thesis by (metis dvd_eq_mod_eq_0 unat_0 unat_eq_0)
qed

lemma write_inv_more:
  assumes "write_inv off0 d0 bytes 0 (segments, btw, offset, d)" "length bytes + n < 2 ^ 32"
  shows "write_inv off0 d0 bytes n (segments, btw + of_nat n, offset, d)"
proof -
  have "unat btw \<le> length bytes" using assms(1) by (auto simp: write_inv_def)
  then have "unat (btw + of_nat n) = unat btw + n" using assms(2) by (simp add: unat_word_ariths unat_of_nat)
  then show ?thesis using assms(1) by (auto simp: write_inv_def)
qed

lemma write_bufs_ok:
  assumes "write_inv off0 d0 bytes 0 st" "page_buffers bufs"
    and "unat off0 + length bytes + length (concat bufs) < 2 ^ 64" "length bytes + length (concat bufs) < 2 ^ 32"
  shows "\<exists>st'. write_bufs completes bufs st = Inr (True, st') \<and> write_end off0 d0 (bytes @ concat bufs) st'"
  using assms
proof (induction bufs arbitrary: bytes st)
  case Nil
  then show ?case using write_inv_end by simp
next
  case (Cons b bufs)
  obtain segments btw offset d where st: "st = (segments, btw, offset, d)" by (cases st) auto
  have lb: "length b < 2 ^ 32" and b512: "512 dvd length b" and b4096: "bufs \<noteq> [] \<Longrightarrow> 4096 dvd length b"
    using Cons.prems(2,4) by (auto simp: page_buffers_def)
  have a1: "(of_nat (length b) :: u32) mod s_PageSize = 0"
    using of_nat_mod_zero [OF lb, of 512] b512 by (simp add: s_PageSize_def)
  have a2: "bufs = [] \<or> (of_nat (length b) :: u32) mod s_SystemPageSize = 0"
    using of_nat_mod_zero [OF lb, of 4096] b4096 by (auto simp: s_SystemPageSize_def)
  let ?q = "drop (length b div 4096 * 4096) b"
  obtain ps where ps: "\<forall>p \<in> set ps. length p = 4096" "concat ps @ ?q = b"
      "buffer_pages b = (if length b mod 4096 = 0 then ps else ps @ [?q])"
    using buffer_pages_split [OF lb] by blast
  have lq: "length ?q < 4096" using mod_less_divisor [of 4096 "length b"]
    by (simp add: minus_div_mult_eq_mod del: mod_less_divisor)
  have lps: "length (concat ps) + length ?q = length b" using ps(2) by (metis length_append)
  have i0: "write_inv off0 d0 bytes (length b) (segments, btw + of_nat (length b), offset, d)"
    by (rule write_inv_more) (use Cons.prems(1,4) st in auto)
  show ?case
  proof (cases "length b mod 4096 = 0")
    case True
    then have q: "?q = []" by auto
    obtain st1 where st1: "write_pages completes ps (segments, btw + of_nat (length b), offset, d) = (True, st1)"
        "write_inv off0 d0 (bytes @ concat ps) 0 st1"
      using write_pages_ok [of off0 d0 bytes ps 0 segments "btw + of_nat (length b)" offset d] i0 lps q Cons.prems(3,4) ps(1)
      by auto
    have cps: "concat ps = b" using ps(2) q by simp
    have "\<exists>st'. write_bufs completes bufs st1 = Inr (True, st') \<and> write_end off0 d0 ((bytes @ b) @ concat bufs) st'"
      by (rule Cons.IH) (use st1(2) cps Cons.prems in \<open>auto simp: page_buffers_def ac_simps split: if_splits\<close>)
    then show ?thesis using True st1(1) a1 a2 ps(3) by (simp add: st Let_def)
  next
    case False
    then have nb: "bufs = []" using b4096 by (metis dvd_imp_mod_0)
    let ?st = "(segments, btw + of_nat (length b), offset, d)"
    obtain st1 where st1: "write_pages completes ps ?st = (True, st1)"
        "write_inv off0 d0 (bytes @ concat ps) (length ?q) st1"
      using write_pages_ok [of off0 d0 bytes ps "length ?q" segments "btw + of_nat (length b)" offset d]
        i0 lps Cons.prems(3,4) ps(1) by (auto simp del: length_drop)
    obtain st2 where st2: "write_pages completes [?q] st1 = (True, st2)"
        "write_end off0 d0 ((bytes @ concat ps) @ ?q) st2"
      using write_partial_page [OF st1(2) lq] lps Cons.prems(3) by (auto simp del: length_drop)
    have "write_pages completes (buffer_pages b) ?st = (True, st2)"
      using False ps(3) st1(1) st2(1) by (simp only: if_False write_pages_append) simp
    then show ?thesis using a1 a2 nb st2(2) ps(2) by (simp add: st Let_def)
  qed
qed

lemma LogFile_Write_ok:
  assumes "page_buffers bufs" "length (concat bufs) < 2 ^ 32"
    and "unat (lf_dataLen lf) + length (concat bufs) < 2 ^ 64" "unat (lf_dataLen lf) \<le> length (lf_disk lf)"
  shows "LogFile_Write completes bufs lf =
     Inr (True, lf\<lparr>lf_disk := disk_write (unat (lf_dataLen lf)) (concat bufs) (lf_disk lf)\<rparr>)"
proof -
  let ?off = "lf_dataLen lf" let ?d = "lf_disk lf"
  have "write_inv ?off ?d [] 0 ([], 0, ?off, ?d)"
    using assms(4) by (simp add: write_inv_def disk_write_nil PAGES_PER_WRITE_def)
  then obtain segs btw off d where st: "write_bufs completes bufs ([], 0, ?off, ?d) = Inr (True, (segs, btw, off, d))"
      and e: "write_end ?off ?d (concat bufs) (segs, btw, off, d)"
    using write_bufs_ok [of ?off ?d "[]" "([], 0, ?off, ?d)" bufs] assms by auto
  obtain w where w: "d = disk_write (unat ?off) w ?d" "off = ?off + of_nat (length w)"
      "concat bufs = w @ concat segs" "unat btw = length (concat segs)"
    using e by (auto simp: write_end_def)
  have "length (concat bufs) = length w + length (concat segs)" using w(3) by (metis length_append)
  then have "unat off = unat ?off + length w"
    using assms(3) w(2) by (simp add: unat_word_ariths unat_of_nat)
  then have "disk_write (unat off) (concat segs) d = disk_write (unat ?off) (concat bufs) ?d"
    using disk_write_append [of "unat ?off" w "concat segs" ?d] w(1,3) by simp
  moreover have "segs = [] \<Longrightarrow> d = disk_write (unat ?off) (concat bufs) ?d" using w(1,3) by simp
  ultimately show ?thesis using w(4) by (simp add: LogFile_Write_def st IssueWriteFileGather_def)
qed

section \<open>The index finds the last vote of every decree\<close>

type_synonym log_entry = "u16 \<times> u64 \<times> u32"

definition add_all :: "log_entry list \<Rightarrow> LogFile \<Rightarrow> LogFile res" where
  "add_all ms lf = fold (\<lambda>(msgId, decree, len) r. bindE r (LogFile_AddMessage msgId decree len)) ms (Inr lf)"

definition entry_pos :: "log_entry list \<Rightarrow> nat \<Rightarrow> nat" where
  "entry_pos ms i = (\<Sum>(msgId, decree, len) \<leftarrow> take i ms. unat (RoundUpToPage len))"

text \<open>Entry i is the last vote of the j-th decree of the file.\<close>
definition last_vote :: "log_entry list \<Rightarrow> u64 \<Rightarrow> nat \<Rightarrow> bool" where
  "last_vote ms decree i \<longleftrightarrow> i < length ms \<and> fst (ms ! i) = Message_Vote \<and> fst (snd (ms ! i)) = decree \<and>
     (\<forall>k. i < k \<and> k < length ms \<and> fst (ms ! k) = Message_Vote \<longrightarrow> fst (snd (ms ! k)) > decree)"

definition index_ok :: "log_entry list \<Rightarrow> LogFile \<Rightarrow> bool" where
  "index_ok ms lf \<longleftrightarrow> lf_dataLen lf = of_nat (entry_pos ms (length ms)) \<and>
     length (lf_decreeOffsets lf) \<le> length ms \<and>
     (\<forall>j < length (lf_decreeOffsets lf). \<exists>i. last_vote ms (lf_minDecree lf + of_nat j) i \<and>
        lf_decreeOffsets lf ! j = of_nat (entry_pos ms i))"

lemma add_all_snoc: "add_all (ms @ [(msgId, decree, len)]) lf = bindE (add_all ms lf) (LogFile_AddMessage msgId decree len)"
  by (simp add: add_all_def)

lemma entry_pos_snoc: "i \<le> length ms \<Longrightarrow> entry_pos (ms @ [m]) i = entry_pos ms i"
  by (simp add: entry_pos_def)

lemma entry_pos_end: "entry_pos (ms @ [(msgId, decree, len)]) (Suc (length ms)) =
    entry_pos ms (length ms) + unat (RoundUpToPage len)"
  by (simp add: entry_pos_def)

lemma last_vote_keep:
  assumes "last_vote ms d i" "fst m = Message_Vote \<Longrightarrow> fst (snd m) > d"
  shows "last_vote (ms @ [m]) d i"
  using assms by (auto simp: last_vote_def nth_append less_Suc_eq)

lemma last_vote_new: "last_vote (ms @ [(Message_Vote, d, len)]) d (length ms)"
  by (auto simp: last_vote_def)

lemma min_plus_less:
  fixes m :: u64
  assumes "unat m + n < 2 ^ 64" "j < n"
  shows "m + of_nat j < m + of_nat n"
  using assms by (simp add: word_less_nat_alt unat_word_ariths unat_of_nat)

lemma MaxDecree_pos:
  assumes "lf_decreeOffsets lf \<noteq> []" "length (lf_decreeOffsets lf) < 2 ^ 32"
  shows "MaxDecree lf = lf_minDecree lf + of_nat (length (lf_decreeOffsets lf) - 1)"
proof -
  let ?n = "length (lf_decreeOffsets lf)"
  have u: "unat (of_nat ?n :: u32) = ?n" using assms(2) by (simp add: unat_of_nat)
  then have "(of_nat ?n :: u32) \<noteq> 0" using assms(1) by (metis length_0_conv unat_0)
  moreover have "ucast (of_nat ?n :: u32) = (of_nat ?n :: u64)"
    using of_nat_unat [of "of_nat ?n :: u32", where ?'a = "64 word"] by (simp only: u)
  ultimately show ?thesis using assms(1) by (simp add: MaxDecree_def Let_def of_nat_diff Suc_leI)
qed

lemma AddMessage_index:
  assumes ok: "index_ok ms lf" and add: "LogFile_AddMessage msgId decree len lf = Inr lf'"
    and small: "length ms + 1 < 2 ^ 32" "lf_decreeOffsets lf \<noteq> [] \<Longrightarrow> unat (lf_minDecree lf) + length ms + 1 < 2 ^ 64"
  shows "index_ok (ms @ [(msgId, decree, len)]) lf'"
proof -
  let ?m = "(msgId, decree, len)" let ?offs = "lf_decreeOffsets lf"
  have dl: "lf_dataLen lf = of_nat (entry_pos ms (length ms))" and lo: "length ?offs \<le> length ms"
    and ix: "\<And>j. j < length ?offs \<Longrightarrow> \<exists>i. last_vote ms (lf_minDecree lf + of_nat j) i \<and> ?offs ! j = of_nat (entry_pos ms i)"
    using ok by (auto simp: index_ok_def)
  have dl': "lf_dataLen lf + ucast (RoundUpToPage len) = of_nat (entry_pos (ms @ [?m]) (length (ms @ [?m])))"
    by (simp add: entry_pos_end dl)
  have keep: "\<exists>i. last_vote (ms @ [?m]) d i \<and> x = of_nat (entry_pos (ms @ [?m]) i)"
    if "last_vote ms d i" "x = of_nat (entry_pos ms i)" "msgId = Message_Vote \<Longrightarrow> decree > d" for d i and x :: u64
    using that last_vote_keep [of ms d i ?m] by (intro exI [of _ i]) (auto simp: last_vote_def entry_pos_snoc)
  have new: "\<exists>i. last_vote (ms @ [(Message_Vote, decree, len)]) decree i \<and>
      lf_dataLen lf = of_nat (entry_pos (ms @ [(Message_Vote, decree, len)]) i)"
    using last_vote_new [of ms decree len] by (intro exI [of _ "length ms"]) (auto simp: dl entry_pos_snoc)
  consider (other) "msgId \<noteq> Message_Vote" | (first) "msgId = Message_Vote" "?offs = []"
    | (same) "msgId = Message_Vote" "?offs \<noteq> []" "MaxDecree lf = decree"
    | (next') "msgId = Message_Vote" "?offs \<noteq> []" "MaxDecree lf \<noteq> decree" "decree = MaxDecree lf + 1"
    using add by (fastforce simp: LogFile_AddMessage_def bindE_eq_Inr Let_def split: if_splits)
  then show ?thesis
  proof cases
    case other
    then have lf': "lf' = lf\<lparr>lf_dataLen := lf_dataLen lf + ucast (RoundUpToPage len)\<rparr>"
      using add by (simp add: LogFile_AddMessage_def Let_def)
    show ?thesis using other lo dl' ix keep by (fastforce simp: index_ok_def lf')
  next
    case first
    then have lf': "lf_decreeOffsets lf' = [lf_dataLen lf]" "lf_minDecree lf' = decree"
        "lf_dataLen lf' = lf_dataLen lf + ucast (RoundUpToPage len)"
      using add by (auto simp: LogFile_AddMessage_def Let_def)
    show ?thesis using first new dl' by (simp add: index_ok_def lf')
  next
    case same
    have md: "decree = lf_minDecree lf + of_nat (length ?offs - 1)"
      using MaxDecree_pos [of lf] same lo small(1) by simp
    have lf': "lf_decreeOffsets lf' = butlast ?offs @ [lf_dataLen lf]" "lf_minDecree lf' = lf_minDecree lf"
        "lf_dataLen lf' = lf_dataLen lf + ucast (RoundUpToPage len)"
      using add same by (auto simp: LogFile_AddMessage_def Let_def)
    have "\<exists>i. last_vote (ms @ [?m]) (lf_minDecree lf + of_nat j) i \<and>
        (butlast ?offs @ [lf_dataLen lf]) ! j = of_nat (entry_pos (ms @ [?m]) i)" if j: "j < length ?offs" for j
    proof (cases "j = length ?offs - 1")
      case True
      then show ?thesis using new same(1) md by (simp add: nth_append)
    next
      case False
      then have jl: "j < length ?offs - 1" using j by simp
      have "lf_minDecree lf + of_nat j < decree"
        unfolding md using jl small(2) same(2) lo by (intro min_plus_less) auto
      then show ?thesis using ix [OF j] keep jl by (auto simp: nth_append nth_butlast)
    qed
    then show ?thesis using same(2) lo dl' by (auto simp: index_ok_def lf')
  next
    case next'
    have md: "decree = lf_minDecree lf + of_nat (length ?offs)"
      using MaxDecree_pos [of lf] next' lo small(1) by (cases ?offs) (auto simp: of_nat_diff)
    have lf': "lf_decreeOffsets lf' = ?offs @ [lf_dataLen lf]" "lf_minDecree lf' = lf_minDecree lf"
        "lf_dataLen lf' = lf_dataLen lf + ucast (RoundUpToPage len)"
      using add next' by (auto simp: LogFile_AddMessage_def Let_def)
    have "\<exists>i. last_vote (ms @ [?m]) (lf_minDecree lf + of_nat j) i \<and>
        (?offs @ [lf_dataLen lf]) ! j = of_nat (entry_pos (ms @ [?m]) i)" if j: "j < Suc (length ?offs)" for j
    proof (cases "j = length ?offs")
      case True
      then show ?thesis using new next'(1) md by simp
    next
      case False
      then have jl: "j < length ?offs" using j by simp
      have "lf_minDecree lf + of_nat j < decree"
        unfolding md using jl small(2) next'(2) lo by (intro min_plus_less) auto
      then show ?thesis using ix [OF jl] keep jl by (auto simp: nth_append)
    qed
    then show ?thesis using lo dl' by (auto simp: index_ok_def lf')
  qed
qed

lemma AddMessage_minDecree:
  "LogFile_AddMessage msgId decree len lf = Inr lf' \<Longrightarrow> lf_decreeOffsets lf \<noteq> [] \<Longrightarrow>
   lf_minDecree lf' = lf_minDecree lf \<and> lf_decreeOffsets lf' \<noteq> []"
  by (auto simp: LogFile_AddMessage_def bindE_eq_Inr Let_def split: if_splits)

lemma add_all_index:
  assumes "add_all ms (LogFile_new d) = Inr lf" "length ms < 2 ^ 32"
    and "lf_decreeOffsets lf \<noteq> [] \<Longrightarrow> unat (lf_minDecree lf) + length ms < 2 ^ 64"
  shows "index_ok ms lf"
  using assms
proof (induction ms arbitrary: lf rule: rev_induct)
  case Nil
  then show ?case by (auto simp: add_all_def index_ok_def entry_pos_def LogFile_new_def)
next
  case (snoc m ms)
  obtain msgId decree len where m: "m = (msgId, decree, len)" by (cases m) auto
  obtain lf1 where 1: "add_all ms (LogFile_new d) = Inr lf1" "LogFile_AddMessage msgId decree len lf1 = Inr lf"
    using snoc.prems(1) by (auto simp: m add_all_snoc bindE_eq_Inr)
  have k: "lf_decreeOffsets lf1 \<noteq> [] \<Longrightarrow> unat (lf_minDecree lf1) + length ms + 1 < 2 ^ 64"
    using AddMessage_minDecree [OF 1(2)] snoc.prems(3) by simp
  have "index_ok ms lf1" by (rule snoc.IH [OF 1(1)]) (use snoc.prems(2) k in force)+
  then show ?case unfolding m using AddMessage_index [OF _ 1(2)] snoc.prems(2) k by simp
qed

lemma log_index_offset:
  assumes "add_all ms (LogFile_new d) = Inr lf" "length ms < 2 ^ 32"
    and "unat (lf_minDecree lf) + length ms < 2 ^ 64"
    and "lf_decreeOffsets lf \<noteq> []" "HasDecree decree lf"
  shows "\<exists>i. last_vote ms decree i \<and> GetOffset decree lf = Inr (of_nat (entry_pos ms i))"
proof -
  let ?n = "length (lf_decreeOffsets lf)" let ?min = "lf_minDecree lf"
  have ix: "index_ok ms lf" using add_all_index assms(1-3) by blast
  then have n: "?n \<le> length ms" by (simp add: index_ok_def)
  have md: "MaxDecree lf = ?min + of_nat (?n - 1)" using MaxDecree_pos assms(2,4) n by simp
  define j where "j = unat (decree - ?min)"
  have lo: "?min \<le> decree" and hi: "decree \<le> MaxDecree lf" using assms(5) by (auto simp: HasDecree_def)
  have "unat (MaxDecree lf) = unat ?min + (?n - 1)" unfolding md
    using assms(3) n by (simp add: unat_word_ariths unat_of_nat)
  moreover have j': "j = unat decree - unat ?min" using lo by (simp add: j_def unat_sub word_le_nat_alt)
  ultimately have jn: "j < ?n" using hi lo assms(4) by (cases "lf_decreeOffsets lf") (auto simp: word_le_nat_alt)
  have u: "unat (ucast (decree - ?min) :: u32) = j"
    using jn n assms(2) by (simp add: unsigned_ucast_eq j_def [symmetric] take_bit_nat_eq_self)
  have d: "decree = ?min + of_nat j" by (simp add: j_def)
  obtain i where "last_vote ms (?min + of_nat j) i" "lf_decreeOffsets lf ! j = of_nat (entry_pos ms i)"
    using ix jn by (auto simp: index_ok_def)
  then show ?thesis using lo hi assms(4) jn by (auto simp: GetOffset_def Let_def u d [symmetric])
qed

lemma entry_pos_mono: "i \<le> j \<Longrightarrow> entry_pos ms i \<le> entry_pos ms j"
proof -
  assume "i \<le> j"
  then have "take j ms = take i ms @ take (j - i) (drop i ms)" using take_add [of i "j - i" ms] by simp
  then show ?thesis by (simp add: entry_pos_def)
qed

text \<open>
  C21. Decree index of a log file: after any sequence of AddMessage calls that the
  assertions let through, GetOffset on a decree the file has returns the offset
  of the last vote logged for that decree, whatever prepares, decisions and
  outvoted proposals lie in between.
\<close>
theorem log_index_finds_last_vote:
  assumes "add_all ms (LogFile_new d) = Inr lf" "length ms < 2 ^ 32"
    and "unat (lf_minDecree lf) + length ms < 2 ^ 64"
    and "lf_decreeOffsets lf \<noteq> []" "HasDecree decree lf"
  shows "\<exists>i. last_vote ms decree i \<and> GetOffset decree lf = Inr (of_nat (entry_pos ms i))"
  by (rule log_index_offset [OF assms])


definition ex_log :: "log_entry list" where
  "ex_log = [(Message_Vote, 5, 100), (Message_Prepare, 5, 600), (Message_Vote, 5, 200), (Message_Vote, 6, 300)]"
definition ex_lf :: LogFile where
  "ex_lf = \<lparr>lf_decreeOffsets = [1536, 2048], lf_dataLen = 2560, lf_minDecree = 5, lf_disk = []\<rparr>"
theorem log_index_finds_last_vote_witness:
  "\<exists>i. last_vote ex_log 5 i \<and> GetOffset 5 ex_lf = Inr (of_nat (entry_pos ex_log i))"
proof (rule log_index_finds_last_vote [of ex_log "[]" ex_lf 5])
  show "add_all ex_log (LogFile_new []) = Inr ex_lf"
    by (simp add: add_all_def ex_log_def ex_lf_def LogFile_new_def LogFile_AddMessage_def MaxDecree_def
        RoundUpToPage_def s_PageSize_def Let_def)
qed (simp_all add: ex_log_def ex_lf_def HasDecree_def MaxDecree_def)

section \<open>A logged vote is on disk as it is on the wire\<close>

lemma ReMarshalHeader_shape:
  assumes "Vote_ReMarshalHeader v = Inr v'"
  shows "\<exists>b. v_marshal v \<noteq> [] \<and> v' = v\<lparr>v_marshal := (hd (v_marshal v))\<lparr>m_buffer := b\<rparr> # tl (v_marshal v)\<rparr>"
  using assms by (auto simp: Vote_ReMarshalHeader_def bindE_eq_Inr Let_def)

lemma same_lengths_ok:
  assumes "vote_ok v" "v_marshal v = mm # mms" "v_marshal v' = mm\<lparr>m_buffer := b\<rparr> # mms" "v_requests v' = v_requests v"
  shows "vote_ok v'"
proof -
  have b: "buf_ok (mm\<lparr>m_buffer := b\<rparr>) \<longleftrightarrow> buf_ok mm" by (simp add: buf_ok_def mm_ok_def)
  have "req_ok (mm\<lparr>m_buffer := b\<rparr> # mms) r \<longleftrightarrow> req_ok (mm # mms) r" for r
    by (cases "rq_buffer r") (auto simp: req_ok_def)
  then show ?thesis using assms b by (auto simp: vote_ok_def split: if_splits)
qed

lemma ReMarshalHeader_keeps:
  assumes "Vote_ReMarshalHeader v = Inr v'" "vote_ok v" "vote_header_ok v" "header_room v"
  shows "vote_ok v'" "vote_header_ok v'" "header_room v'"
    "map m_validLength (v_marshal v') = map m_validLength (v_marshal v)"
proof -
  obtain b mm mms where b: "v_marshal v = mm # mms" "v' = v\<lparr>v_marshal := mm\<lparr>m_buffer := b\<rparr> # mms\<rparr>"
    using ReMarshalHeader_shape [OF assms(1)] by (cases "v_marshal v") auto
  show "vote_ok v'" by (rule same_lengths_ok [OF assms(2) b(1)]) (simp_all add: b(2))
  show "vote_header_ok v'" "header_room v'" "map m_validLength (v_marshal v') = map m_validLength (v_marshal v)"
    using assms(3,4) b by (simp_all add: vote_header_ok_def header_room_def)
qed

text \<open>The pages WriteMessage hands to Write: the vote's bytes, then padding in the last one.\<close>
definition vote_pages :: "memory_manager list \<Rightarrow> u8 list list" where
  "vote_pages mms = map (\<lambda>mm. map (m_buffer mm) [0..<unat (RoundUpToPage (m_validLength mm))]) mms"

lemma vote_pages_aligned:
  assumes "mms \<noteq> []" "\<forall>mm \<in> set mms. buf_ok mm" "\<forall>mm \<in> set (butlast mms). 4096 dvd unat (m_validLength mm)"
  shows "page_buffers (vote_pages mms)"
    and "\<exists>pad. length pad < 512 \<and> concat (vote_pages mms) = concat (map mm_contents mms) @ pad"
proof -
  have small: "unat (m_validLength mm) + 511 < 2 ^ 32" if "mm \<in> set mms" for mm
    using assms(2) that by (auto simp: buf_ok_def)
  have al: "RoundUpToPage (m_validLength mm) = m_validLength mm" if "mm \<in> set (butlast mms)" for mm
  proof (rule RoundUpToPage_aligned)
    show "512 dvd unat (m_validLength mm)" by (rule dvd_trans [of _ 4096]) (use assms(3) that in auto)
  qed (use small in_set_butlastD [OF that] in auto)
  show "page_buffers (vote_pages mms)"
    using small RoundUpToPage_props(1) al assms(3)
    by (auto simp: page_buffers_def vote_pages_def map_butlast [symmetric])
  let ?l = "last mms"
  let ?v = "unat (m_validLength ?l)" and ?r = "unat (RoundUpToPage (m_validLength ?l))"
  have lp: "?v \<le> ?r" "?r < ?v + 512" using RoundUpToPage_props(2,3) [OF small] assms(1) last_in_set by blast+
  have "vote_pages (butlast mms) = map mm_contents (butlast mms)"
    using al by (auto simp: vote_pages_def mm_contents_def)
  moreover have "map (m_buffer ?l) [0..<?r] = mm_contents ?l @ map (m_buffer ?l) [?v..<?r]"
    using lp(1) upt_add_eq_append [of 0 ?v "?r - ?v"] by (simp add: mm_contents_def)
  moreover have "concat (vote_pages mms) = concat (vote_pages (butlast mms)) @ map (m_buffer ?l) [0..<?r]"
    using assms(1) by (subst append_butlast_last_id [OF assms(1), symmetric]) (simp only: vote_pages_def map_append concat_append, simp)
  moreover have "concat (map mm_contents mms) = concat (map mm_contents (butlast mms)) @ mm_contents ?l"
    using assms(1) by (subst append_butlast_last_id [OF assms(1), symmetric]) (simp only: map_append concat_append, simp)
  ultimately have "concat (vote_pages mms) = concat (map mm_contents mms) @ map (m_buffer ?l) [?v..<?r]"
    by simp
  then show "\<exists>pad. length pad < 512 \<and> concat (vote_pages mms) = concat (map mm_contents mms) @ pad"
    using lp by (intro exI [of _ "map (m_buffer ?l) [?v..<?r]"]) auto
qed

lemma ReMarshalHeader_bytes:
  assumes "vote_ok v" "vote_header_ok v" "header_room v" "Vote_ReMarshalHeader v = Inr v'"
  shows "vote_bytes v' = enc_Message (Vote_GetMarshalLen v) v @
     drop (unat (Message_GetBaseSize (m_version v))) (vote_bytes v)"
proof -
  let ?b = "unat (Message_GetBaseSize (m_version v))"
  have h: "mm_contents (hd (v_marshal v')) = enc_Message (Vote_GetMarshalLen v) v @ drop ?b (mm_contents (hd (v_marshal v)))"
      "tl (v_marshal v') = tl (v_marshal v)" "v_marshal v' \<noteq> []"
    using Vote_ReMarshalHeader_ok [OF assms(1-3)] assms(4) by auto
  obtain mm mms where m: "v_marshal v = mm # mms" using assms(1) by (cases "v_marshal v") (auto simp: vote_ok_def)
  have "?b \<le> length (mm_contents mm)" using assms(3) m by (simp add: header_room_def length_mm_contents)
  then show ?thesis using h m by (cases "v_marshal v'") (auto simp: vote_bytes_def)
qed

lemma CalculateChecksum_keeps:
  assumes "Vote_CalculateChecksum little p v = Inr v'" "vote_ok v" "vote_header_ok v" "header_room v"
  shows "vote_ok v'" "vote_header_ok v'" "header_room v'"
proof -
  obtain v1 c where v1: "Vote_ReMarshalHeader v = Inr v1" "v' = v1\<lparr>m_checksum := c\<rparr>"
    using assms(1) by (auto simp: Vote_CalculateChecksum_def bindE_eq_Inr Let_def)
  show "vote_ok v'" "vote_header_ok v'" "header_room v'"
    using ReMarshalHeader_keeps [OF v1(1) assms(2-4)] v1(2)
    by (simp_all add: vote_ok_def vote_header_ok_def header_room_def)
qed

lemma CalculateChecksum_header:
  assumes "Vote_CalculateChecksum little p v = Inr v'"
  shows "Message.truncate v' = (Message.truncate v)\<lparr>m_checksum := m_checksum v'\<rparr>"
proof -
  obtain v1 c where "Vote_ReMarshalHeader v = Inr v1" "v' = v1\<lparr>m_checksum := c\<rparr>"
    using assms by (auto simp: Vote_CalculateChecksum_def bindE_eq_Inr Let_def)
  then show ?thesis using ReMarshalHeader_shape [of v v1] by (auto simp: Message.defs)
qed

lemma page_buffers_dvd: "page_buffers bufs \<Longrightarrow> 512 dvd length (concat bufs)"
proof -
  assume "page_buffers bufs"
  then have "\<forall>b \<in> set bufs. 512 dvd length b" by (simp add: page_buffers_def)
  then show ?thesis by (induction bufs) auto
qed

text \<open>The wire form of a vote under a header.\<close>
definition vote_wire :: "(MemberId, 'z) Vote_scheme \<Rightarrow> (MemberId, 'y) Message_scheme \<Rightarrow> u8 list" where
  "vote_wire v h = enc_Message (Vote_GetMarshalLen v) h @ drop (unat (Message_GetBaseSize (m_version v))) (vote_bytes v)"

text \<open>
  WriteMessage of a well-formed vote succeeds when the disk does and puts at
  m_dataLen the vote's wire form, with the header rewritten and a checksum that is
  the fingerprint of the bytes behind it, padded to whole pages.
\<close>
lemma WriteVote_disk:
  assumes "vote_ok v" "vote_header_ok v" "header_room v"
    and size: "length (vote_bytes v) + 512 < 2 ^ 32"
      "unat (lf_dataLen lf) + length (vote_bytes v) + 512 < 2 ^ 64" "unat (lf_dataLen lf) \<le> length (lf_disk lf)"
  obtains v' :: "MemberId Vote" and n pad where
    "LogFile_WriteVote little p completes v lf =
       Inr (True, n, lf\<lparr>lf_disk := disk_write (unat (lf_dataLen lf)) (vote_wire v v' @ pad) (lf_disk lf)\<rparr>)"
    "Message.truncate v' = (Message.truncate v)\<lparr>m_checksum := rabin the_poly the_poly (drop 14 (vote_wire v v'))\<rparr>"
    "length (vote_wire v v') = length (vote_bytes v)" "length pad < 512" "512 dvd length (vote_wire v v' @ pad)"
proof -
  let ?b = "unat (Message_GetBaseSize (m_version v))" let ?tail = "drop ?b (vote_bytes v)"
  obtain v1 where v1: "Vote_CalculateChecksum little p v = Inr v1" "Vote_GetMarshalLen v1 = Vote_GetMarshalLen v"
      "m_version v1 = m_version v" "drop ?b (vote_bytes v1) = ?tail"
      "m_checksum v1 = rabin the_poly the_poly (drop 14 (enc_Message (Vote_GetMarshalLen v1) v1 @ ?tail))"
    using Vote_CalculateChecksum_ok [OF assms(1-3), of little p] by auto
  note ok1 = CalculateChecksum_keeps [OF v1(1) assms(1-3)]
  obtain v2 where v2: "Vote_ReMarshalHeader v1 = Inr v2" using Vote_ReMarshalHeader_ok [OF ok1] by auto
  note ok2 = ReMarshalHeader_keeps [OF v2 ok1]
  have b2: "vote_bytes v2 = enc_Message (Vote_GetMarshalLen v) v1 @ ?tail"
    using ReMarshalHeader_bytes [OF ok1 v2] v1(2,3,4) by simp
  have "length (v_marshal v1) = length (v_marshal v2)" using ok2(4) by (metis length_map)
  then have gb: "Vote_GetBuffers (length (v_marshal v1)) v1 =
      Inr (map (\<lambda>mm. (mm, RoundUpToPage (m_validLength mm))) (v_marshal v2), v2)"
    by (simp add: Vote_GetBuffers_def v2)
  have "v_marshal v2 \<noteq> []" "\<forall>mm \<in> set (v_marshal v2). buf_ok mm"
      "\<forall>mm \<in> set (butlast (v_marshal v2)). 4096 dvd unat (m_validLength mm)"
    using ok2(1) by (auto simp: vote_ok_def)
  from vote_pages_aligned [OF this] obtain pad where pg: "page_buffers (vote_pages (v_marshal v2))" "length pad < 512"
      "concat (vote_pages (v_marshal v2)) = vote_bytes v2 @ pad" by (auto simp: vote_bytes_def)
  have "length (vote_bytes v2) = length (vote_bytes v)"
  proof -
    have "member_ok (m_memberId v1)" "ballot_ok (m_ballot v1)"
      using ok1(2) by (auto simp: vote_header_ok_def member_valid_def ballot_ok_def)
    then have "length (enc_Message (Vote_GetMarshalLen v) v1) = ?b" using length_enc_Message v1(3) by metis
    moreover have "?b \<le> length (vote_bytes v)"
      using assms(1,3) by (cases "v_marshal v") (auto simp: vote_ok_def header_room_def vote_bytes_def length_mm_contents)
    ultimately show ?thesis by (simp add: b2)
  qed
  note len = this
  let ?lf = "lf\<lparr>lf_disk := disk_write (unat (lf_dataLen lf)) (vote_bytes v2 @ pad) (lf_disk lf)\<rparr>"
  have w: "LogFile_Write completes (vote_pages (v_marshal v2)) lf = Inr (True, ?lf)"
    using LogFile_Write_ok [OF pg(1), of lf] pg(2,3) len size by simp
  obtain n where run: "LogFile_WriteVote little p completes v lf = Inr (True, n, ?lf)"
    using w by (simp add: LogFile_WriteVote_def v1(1) gb vote_pages_def o_def case_prod_unfold)
  have d: "512 dvd length (vote_bytes v2 @ pad)"
    using pg(1,3) page_buffers_dvd by metis
  have wr: "vote_wire v v1 = vote_bytes v2" by (simp add: vote_wire_def b2)
  have tr: "Message.truncate v1 = (Message.truncate v)\<lparr>m_checksum := rabin the_poly the_poly (drop 14 (vote_wire v v1))\<rparr>"
    using CalculateChecksum_header [OF v1(1)] v1(2,5) by (simp add: vote_wire_def)
  show ?thesis using that [of n v1 pad] run d tr len pg(2) by (simp add: wr)
qed

definition ex_vote :: "MemberId Vote" where
  "ex_vote = (Vote_new (InitMessage 6 Message_Vote MemberId_empty 5 1 (BallotNumber 1 MemberId_empty) 0) False False)
     \<lparr>v_marshal := [(FixedMarshalMemoryManager (\<lambda>_. 0) 4096)\<lparr>m_validLength := Message_GetBaseSize 6\<rparr>]\<rparr>"

lemma member_ok_empty: "member_ok MemberId_empty"
  by (simp add: member_ok_def MemberId_empty_def MemberId_Size_def c_str_def)
lemma ex_vote_ok: "vote_ok ex_vote" "vote_header_ok ex_vote" "header_room ex_vote"
  "length (vote_bytes ex_vote) = 172"
  by (simp_all add: ex_vote_def vote_ok_def Vote_new_def InitMessage_def buf_ok_def mm_ok_def FixedMarshalMemoryManager_def vote_header_ok_def header_room_def Message.defs Vote.defs vote_bytes_def length_mm_contents
   Message_GetBaseSize_def MemberId_GetBaseSize_def BallotNumber_GetBaseSize_def MemberId_Size_def IsVersionValid_def member_valid_def Let_def member_ok_empty)

end
