(* ===== verification/Queues.thy ===== *)
theory Queues
  imports Log_File
begin

text \<open>
  The in-memory queues of legislator.h and legislator.cpp: VoteQueue (votes with
  the length each had when it was queued), StatusMap (the last status response
  of every replica) and ExecuteQueue (the votes that have passed and wait to be
  executed).  In this layer a vote is its header and its contents; the buffers
  that hold its wire form are the business of Votes.
\<close>

section \<open>Votes as the legislator sees them\<close>

record lvote = "mid Message" +
  lv_primaryCookie :: PrimaryCookie
  lv_isReconfiguration :: bool
  lv_requests :: "(u8 list \<times> nat option) list"
  lv_members :: "MemberSet option"
  lv_reconfigurationCookie :: "nat option"
  lv_receivedAt :: int
  lv_isExclusiveVote :: bool
  lv_relinquishPrimary :: bool

text \<open>What Vote::GetMarshalLen adds up to over the buffers Init and AddRequest fill.\<close>
definition lvote_len :: "lvote \<Rightarrow> u32" where
  "lvote_len v =
     Message_GetBaseSize (m_version v)
     + (if m_version v \<ge> 2 then PrimaryCookie_GetMarshalLen (lv_primaryCookie v) else 0)
     + (if m_version v \<ge> 3
        then 1 + (case lv_members v of
                    Some ms \<Rightarrow> if lv_isReconfiguration v then MemberSet_GetMarshalLen (m_version v) ms else 0
                  | None \<Rightarrow> 0)
        else 0)
     + (if m_version v \<ge> 5 then 1 else 0)
     + (\<Sum>(req, cookie) \<leftarrow> lv_requests v. s_RequestHeader + of_nat (length req))"

section \<open>VoteQueue\<close>

record 'v VoteQueue =
  vq_queue :: "('v \<times> u32) list"
  vq_size :: u32
  vq_numElements :: u32

definition VoteQueue_new :: "'v VoteQueue" where
  "VoteQueue_new = \<lparr>vq_queue = [], vq_size = 0, vq_numElements = 0\<rparr>"

definition vq_EnqueueLink :: "'v \<times> u32 \<Rightarrow> 'v VoteQueue \<Rightarrow> 'v VoteQueue" where
  "vq_EnqueueLink wrapper q =
     q\<lparr>vq_queue := vq_queue q @ [wrapper], vq_size := vq_size q + snd wrapper,
       vq_numElements := vq_numElements q + 1\<rparr>"

definition vq_DequeueLink :: "'v VoteQueue \<Rightarrow> ('v \<times> u32) option \<times> 'v VoteQueue" where
  "vq_DequeueLink q =
     (case vq_queue q of
        [] \<Rightarrow> (None, q)
      | wrapper # rest \<Rightarrow>
          (Some wrapper, q\<lparr>vq_queue := rest, vq_size := vq_size q - snd wrapper,
                           vq_numElements := vq_numElements q - 1\<rparr>))"

text \<open>len is the vote's GetMarshalLen.\<close>
definition vq_Enqueue :: "('v \<Rightarrow> u32) \<Rightarrow> 'v \<Rightarrow> 'v VoteQueue \<Rightarrow> 'v VoteQueue" where
  "vq_Enqueue len v q = vq_EnqueueLink (v, len v) q"

definition vq_Dequeue :: "'v VoteQueue \<Rightarrow> 'v option \<times> 'v VoteQueue" where
  "vq_Dequeue q = (case vq_DequeueLink q of (w, q) \<Rightarrow> (map_option fst w, q))"

definition vq_Head :: "'v VoteQueue \<Rightarrow> 'v option" where
  "vq_Head q = (case vq_queue q of [] \<Rightarrow> None | w # _ \<Rightarrow> Some (fst w))"

definition vq_Tail :: "'v VoteQueue \<Rightarrow> 'v option" where
  "vq_Tail q = (if vq_queue q = [] then None else Some (fst (last (vq_queue q))))"

text \<open>Append moves the elements of the other queue over and leaves it empty.\<close>
definition vq_Append :: "'v VoteQueue \<Rightarrow> 'v VoteQueue \<Rightarrow> 'v VoteQueue \<times> 'v VoteQueue" where
  "vq_Append other q =
     (q\<lparr>vq_queue := vq_queue q @ vq_queue other, vq_size := vq_size q + vq_size other,
        vq_numElements := vq_numElements q + vq_numElements other\<rparr>,
      other\<lparr>vq_queue := [], vq_size := 0, vq_numElements := 0\<rparr>)"

text \<open>Clear dequeues until the queue is empty; n bounds its rounds.\<close>
fun vq_ClearLoop :: "nat \<Rightarrow> 'v VoteQueue \<Rightarrow> 'v VoteQueue res" where
  "vq_ClearLoop 0 q = Inl OutOfFuel"
| "vq_ClearLoop (Suc n) q =
     (case vq_DequeueLink q of (None, q) \<Rightarrow> Inr q | (Some _, q) \<Rightarrow> vq_ClearLoop n q)"

definition vq_ok :: "'v VoteQueue \<Rightarrow> bool" where
  "vq_ok q \<longleftrightarrow> vq_size q = sum_list (map snd (vq_queue q)) \<and> vq_numElements q = of_nat (length (vq_queue q))"

definition vq_votes :: "'v VoteQueue \<Rightarrow> 'v list" where
  "vq_votes q = map fst (vq_queue q)"

text \<open>The contract of a queue that keeps a byte count, seen as a list.\<close>
locale sized_queue =
  fixes enq :: "'v \<Rightarrow> 'q \<Rightarrow> 'q" and deq :: "'q \<Rightarrow> 'v option \<times> 'q" and inv :: "'q \<Rightarrow> bool"
    and elems :: "'q \<Rightarrow> 'v list"
  assumes enq_elems: "elems (enq v q) = elems q @ [v]"
    and enq_inv: "inv q \<Longrightarrow> inv (enq v q)"
    and deq_empty: "elems q = [] \<Longrightarrow> deq q = (None, q)"
    and deq_elems: "elems q = v # vs \<Longrightarrow> \<exists>q'. deq q = (Some v, q') \<and> elems q' = vs"
    and deq_inv: "inv q \<Longrightarrow> inv (snd (deq q))"
begin

lemma enq_all_elems: "elems (fold enq vs q) = elems q @ vs"
  by (induction vs arbitrary: q) (simp_all add: enq_elems)

lemma enq_all_inv: "inv q \<Longrightarrow> inv (fold enq vs q)"
  by (induction vs arbitrary: q) (simp_all add: enq_inv)

fun drain :: "nat \<Rightarrow> 'q \<Rightarrow> 'v list \<times> 'q" where
  "drain 0 q = ([], q)"
| "drain (Suc n) q = (case deq q of (None, q) \<Rightarrow> ([], q) | (Some v, q) \<Rightarrow> case drain n q of (vs, q) \<Rightarrow> (v # vs, q))"

lemma drain_all: "elems q = vs \<Longrightarrow> \<exists>q'. drain (length vs) q = (vs, q') \<and> elems q' = []"
proof (induction vs arbitrary: q)
  case (Cons v vs)
  obtain q' where "deq q = (Some v, q')" "elems q' = vs" using deq_elems [OF Cons.prems] by blast
  then show ?case using Cons.IH [of q'] by auto
qed simp

end

interpretation vq: sized_queue "vq_Enqueue len" vq_Dequeue vq_ok vq_votes
proof
  fix v :: 'a and q :: "'a VoteQueue" and vs
  show "vq_votes (vq_Enqueue len v q) = vq_votes q @ [v]"
    by (simp add: vq_votes_def vq_Enqueue_def vq_EnqueueLink_def)
  show "vq_ok q \<Longrightarrow> vq_ok (vq_Enqueue len v q)"
    by (simp add: vq_ok_def vq_Enqueue_def vq_EnqueueLink_def)
  show "vq_votes q = [] \<Longrightarrow> vq_Dequeue q = (None, q)"
    by (simp add: vq_votes_def vq_Dequeue_def vq_DequeueLink_def)
  show "vq_votes q = v # vs \<Longrightarrow> \<exists>q'. vq_Dequeue q = (Some v, q') \<and> vq_votes q' = vs"
    by (auto simp: vq_votes_def vq_Dequeue_def vq_DequeueLink_def)
  show "vq_ok q \<Longrightarrow> vq_ok (snd (vq_Dequeue q))"
    by (cases "vq_queue q") (auto simp: vq_ok_def vq_Dequeue_def vq_DequeueLink_def)
qed

lemma vq_new [simp]: "vq_ok VoteQueue_new" "vq_votes VoteQueue_new = []"
  by (simp_all add: VoteQueue_new_def vq_ok_def vq_votes_def)

lemma vq_Append_ok:
  assumes "vq_ok q" "vq_ok other" "vq_Append other q = (q', other')"
  shows "vq_ok q'" "vq_ok other'" "vq_votes q' = vq_votes q @ vq_votes other" "vq_votes other' = []"
  using assms by (auto simp: vq_Append_def vq_ok_def vq_votes_def)

lemma vq_ClearLoop_ok:
  "vq_ok q \<Longrightarrow> length (vq_queue q) < n \<Longrightarrow> vq_ClearLoop n q = Inr VoteQueue_new"
proof (induction n arbitrary: q)
  case (Suc n)
  show ?case
  proof (cases "vq_queue q")
    case Nil
    then show ?thesis using Suc.prems(1) by (cases q) (simp add: vq_DequeueLink_def vq_ok_def VoteQueue_new_def)
  next
    case (Cons w ws)
    then show ?thesis using Suc by (simp add: vq_DequeueLink_def vq_ok_def)
  qed
qed simp

definition vq_Clear :: "'v VoteQueue \<Rightarrow> 'v VoteQueue res" where
  "vq_Clear q = vq_ClearLoop (Suc (length (vq_queue q))) q"


section \<open>StatusMap\<close>

record StatusMap =
  sm_queue :: "mid StatusResponse list"
  sm_numResponses :: u32

definition StatusMap_new :: StatusMap where
  "StatusMap_new = \<lparr>sm_queue = [], sm_numResponses = 0\<rparr>"

text \<open>The loop of Insert: the queue without its first response of the member, if there is one.\<close>
fun sm_remove :: "mid \<Rightarrow> mid StatusResponse list \<Rightarrow> mid StatusResponse list option" where
  "sm_remove m [] = None"
| "sm_remove m (s # ss) = (if m_memberId s = m then Some ss else map_option ((#) s) (sm_remove m ss))"

definition sm_Insert :: "mid StatusResponse \<Rightarrow> StatusMap \<Rightarrow> StatusMap" where
  "sm_Insert resp m =
     (let m = (case sm_remove (m_memberId resp) (sm_queue m) of
                 None \<Rightarrow> m
               | Some ss \<Rightarrow> m\<lparr>sm_queue := ss, sm_numResponses := sm_numResponses m - 1\<rparr>)
      in m\<lparr>sm_queue := sm_queue m @ [resp], sm_numResponses := sm_numResponses m + 1\<rparr>)"

definition sm_Size :: "StatusMap \<Rightarrow> u32" where
  "sm_Size m = sm_numResponses m"

definition sm_Clear :: "StatusMap \<Rightarrow> StatusMap" where
  "sm_Clear m = m\<lparr>sm_queue := [], sm_numResponses := 0\<rparr>"

definition FindHigherLogged ::
  "u64 \<Rightarrow> u64 \<Rightarrow> mid BallotNumber \<Rightarrow> StatusMap \<Rightarrow> mid StatusResponse list" where
  "FindHigherLogged minDecreeInLog decree ballot m =
     [s \<leftarrow> sm_queue m. sr_minDecreeInLog s \<le> minDecreeInLog \<and> IsHigherDecree s decree ballot]"

definition FindCheckpoint :: "u64 \<Rightarrow> StatusMap \<Rightarrow> mid StatusResponse list" where
  "FindCheckpoint decree m = [s \<leftarrow> sm_queue m. sr_checkpointedDecree s \<ge> decree]"

definition I64_MAX :: int where
  "I64_MAX = 2 ^ 63 - 1"

definition FindMinReceivedAgo :: "StatusMap \<Rightarrow> int" where
  "FindMinReceivedAgo m =
     (let min' = fold (\<lambda>s min'. if sint (m_lastReceivedAgo s) < min' then sint (m_lastReceivedAgo s) else min')
                   (sm_queue m) I64_MAX
      in if min' < 0 then 0 else min')"

lemma sm_remove_filter:
  "distinct (map m_memberId ss) \<Longrightarrow>
   (case sm_remove m ss of None \<Rightarrow> ss | Some ss' \<Rightarrow> ss') = filter (\<lambda>s. m_memberId s \<noteq> m) ss \<and>
   (sm_remove m ss = None \<longleftrightarrow> m \<notin> m_memberId ` set ss)"
proof (induction ss)
  case (Cons s ss)
  have "filter (\<lambda>s. m_memberId s \<noteq> m) ss = ss" if "m \<notin> m_memberId ` set ss"
    using that by (auto simp: filter_id_conv)
  then show ?case using Cons by (auto split: option.splits)
qed simp

definition sm_ok :: "StatusMap \<Rightarrow> bool" where
  "sm_ok m \<longleftrightarrow> distinct (map m_memberId (sm_queue m)) \<and> sm_numResponses m = of_nat (length (sm_queue m))"

lemma sm_Insert_queue:
  assumes "sm_ok m"
  shows "sm_queue (sm_Insert resp m) = filter (\<lambda>s. m_memberId s \<noteq> m_memberId resp) (sm_queue m) @ [resp]"
  using sm_remove_filter [of "sm_queue m" "m_memberId resp"] assms
  by (auto simp: sm_Insert_def sm_ok_def Let_def split: option.splits)

lemma sm_remove_length: "sm_remove m ss = Some ss' \<Longrightarrow> length ss = Suc (length ss')"
  by (induction ss arbitrary: ss') (auto split: if_splits)

lemma sm_Insert_ok: "sm_ok m \<Longrightarrow> sm_ok (sm_Insert resp m)"
proof -
  assume ok: "sm_ok m"
  have "distinct (map m_memberId (sm_queue (sm_Insert resp m)))"
    using ok sm_Insert_queue [OF ok] by (auto simp: sm_ok_def distinct_map inj_on_filter_key_eq inj_on_def)
  moreover have "sm_numResponses (sm_Insert resp m) = of_nat (length (sm_queue (sm_Insert resp m)))"
    using ok by (auto simp: sm_ok_def sm_Insert_def Let_def dest: sm_remove_length split: option.splits)
  ultimately show ?thesis by (simp add: sm_ok_def)
qed

text \<open>The last response of a member in a sequence of responses.\<close>
definition last_response :: "mid StatusResponse list \<Rightarrow> mid \<Rightarrow> mid StatusResponse option" where
  "last_response rs m = find (\<lambda>s. m_memberId s = m) (rev rs)"

definition sm_of :: "mid StatusResponse list \<Rightarrow> StatusMap" where
  "sm_of rs = fold sm_Insert rs StatusMap_new"

lemma sm_of_ok: "sm_ok (sm_of rs)"
proof (induction rs rule: rev_induct)
  case Nil
  then show ?case by (simp add: sm_of_def StatusMap_new_def sm_ok_def)
next
  case (snoc r rs)
  then show ?case using sm_Insert_ok by (simp add: sm_of_def)
qed

lemma sm_of_snoc:
  "sm_queue (sm_of (rs @ [r])) = filter (\<lambda>s. m_memberId s \<noteq> m_memberId r) (sm_queue (sm_of rs)) @ [r]"
  using sm_Insert_queue [OF sm_of_ok [of rs]] by (simp add: sm_of_def)

lemma sm_of_set: "s \<in> set (sm_queue (sm_of rs)) \<longleftrightarrow> last_response rs (m_memberId s) = Some s"
proof (induction rs rule: rev_induct)
  case Nil
  then show ?case by (simp add: sm_of_def StatusMap_new_def last_response_def)
next
  case (snoc r rs)
  show ?case using snoc by (auto simp: last_response_def sm_of_snoc)
qed

lemma sm_of_members: "m_memberId ` set (sm_queue (sm_of rs)) = m_memberId ` set rs"
proof (induction rs rule: rev_induct)
  case Nil
  then show ?case by (simp add: sm_of_def StatusMap_new_def)
next
  case (snoc r rs)
  have "m_memberId ` set (filter (\<lambda>s. m_memberId s \<noteq> m_memberId r) q) = m_memberId ` set q - {m_memberId r}"
    for q :: "mid StatusResponse list" by auto
  then show ?case using snoc by (simp add: sm_of_snoc)
qed

text \<open>
  StatusMap counts replicas, not responses: after any sequence of Inserts,
  Size is the number of distinct replicas heard from, and the map holds exactly
  the latest response of each.
\<close>
theorem status_map_counts_replicas:
  "sm_Size (sm_of rs) = of_nat (card (m_memberId ` set rs)) \<and>
   (\<forall>s. s \<in> set (sm_queue (sm_of rs)) \<longleftrightarrow> last_response rs (m_memberId s) = Some s)"
proof -
  have "card (m_memberId ` set (sm_queue (sm_of rs))) = length (sm_queue (sm_of rs))"
    using sm_of_ok [of rs] distinct_card [of "map m_memberId (sm_queue (sm_of rs))"] by (simp add: sm_ok_def)
  then have "sm_Size (sm_of rs) = of_nat (card (m_memberId ` set rs))"
    using sm_of_ok [of rs] by (simp add: sm_of_members sm_Size_def sm_ok_def)
  then show ?thesis using sm_of_set by blast
qed


section \<open>ExecuteQueue\<close>

record ExecuteQueue =
  eq_toExecuteQ :: "lvote VoteQueue"
  eq_lastPassedDecree :: u64
  eq_lastInsertedDecree :: u64
  eq_fIOWait :: bool

definition c_ExecutionReadSize :: u32 where
  "c_ExecutionReadSize = 1024 * 1024"

definition ExecuteQueue_Init :: "u64 \<Rightarrow> ExecuteQueue" where
  "ExecuteQueue_Init lastExecutedDecree =
     \<lparr>eq_toExecuteQ = VoteQueue_new, eq_lastPassedDecree = lastExecutedDecree,
      eq_lastInsertedDecree = lastExecutedDecree, eq_fIOWait = False\<rparr>"

definition eq_IsInMemory :: "ExecuteQueue \<Rightarrow> bool" where
  "eq_IsInMemory q \<longleftrightarrow> eq_lastInsertedDecree q = eq_lastPassedDecree q"

definition eq_Head :: "ExecuteQueue \<Rightarrow> lvote option" where
  "eq_Head q = vq_Head (eq_toExecuteQ q)"

text \<open>
  CheckRead: which log file (by index) the next votes should be read from, if
  any.  maxSize is InMemoryExecutionQueueSize of the configuration.
\<close>
definition eq_CheckRead :: "u32 \<Rightarrow> LogFile list \<Rightarrow> ExecuteQueue \<Rightarrow> nat option res" where
  "eq_CheckRead maxSize logFiles q =
     (if eq_fIOWait q \<or> eq_lastInsertedDecree q \<ge> eq_lastPassedDecree q \<or>
         vq_size (eq_toExecuteQ q) + c_ExecutionReadSize \<ge> maxSize
      then Inr None
      else case find (\<lambda>i. HasDecree (eq_lastInsertedDecree q + 1) (logFiles ! i)) [0..<length logFiles] of
             None \<Rightarrow> Inl AssertFailed
           | Some i \<Rightarrow>
               let logFile = logFiles ! i; d = min (MaxDecree logFile) (eq_lastPassedDecree q) in
               bindE (GetOffset (eq_lastInsertedDecree q + 1) logFile) (\<lambda>beginOffset.
               bindE (GetOffset d logFile) (\<lambda>offset.
               bindE (GetLengthOfDecree d logFile) (\<lambda>len.
               let todo = ucast (offset - beginOffset) + len in
               Inr (if todo \<ge> c_ExecutionReadSize \<or> i \<noteq> length logFiles - 1 \<or>
                       vq_size (eq_toExecuteQ q) \<le> maxSize div 2
                    then Some i else None)))))"

definition eq_Enqueue :: "u32 \<Rightarrow> LogFile list \<Rightarrow> lvote \<Rightarrow> bool \<Rightarrow> ExecuteQueue \<Rightarrow> ExecuteQueue res" where
  "eq_Enqueue maxSize logFiles vote must q =
     (if m_decree vote = eq_lastPassedDecree q then Inr q
      else bindE (log_assert (\<not> must \<or> eq_lastPassedDecree q = eq_lastInsertedDecree q) ()) (\<lambda>_.
           let q = q\<lparr>eq_lastPassedDecree := m_decree vote\<rparr> in
           if must \<or> (vq_size (eq_toExecuteQ q) < maxSize \<and>
                      eq_lastPassedDecree q = eq_lastInsertedDecree q + 1)
           then let toExecuteQ = vq_Enqueue lvote_len vote (eq_toExecuteQ q) in
                Inr (q\<lparr>eq_toExecuteQ := toExecuteQ,
                       eq_lastInsertedDecree := m_decree (the (vq_Tail toExecuteQ))\<rparr>)
           else bindE (eq_CheckRead maxSize logFiles q) (\<lambda>_. Inr q)))"

definition eq_Dequeue :: "u32 \<Rightarrow> LogFile list \<Rightarrow> ExecuteQueue \<Rightarrow> (lvote option \<times> ExecuteQueue) res" where
  "eq_Dequeue maxSize logFiles q =
     (case vq_Dequeue (eq_toExecuteQ q) of (vote, toExecuteQ) \<Rightarrow>
      let q = q\<lparr>eq_toExecuteQ := toExecuteQ\<rparr> in
      if vote \<noteq> None then bindE (eq_CheckRead maxSize logFiles q) (\<lambda>_. Inr (vote, q))
      else Inr (vote, q))"

text \<open>
  ReadLoop, first half: under the lock, choose the decrees to read and mark the
  read as running.  The result is the file, the first decree and the offsets,
  with the sentinel at the end; n bounds the rounds of the planning loop.
\<close>
fun read_plan :: "nat \<Rightarrow> LogFile \<Rightarrow> u64 \<Rightarrow> u64 \<Rightarrow> u64 \<Rightarrow> u32 \<Rightarrow> u32 list res" where
  "read_plan 0 logFile beginOffset maxDecree d todo = Inl OutOfFuel"
| "read_plan (Suc n) logFile beginOffset maxDecree d todo =
     (if d \<le> maxDecree \<and> todo < c_ExecutionReadSize
      then bindE (GetOffset d logFile) (\<lambda>o'.
           let offset = ucast (o' - beginOffset) in
           bindE (GetLengthOfDecree d logFile) (\<lambda>len.
           bindE (read_plan n logFile beginOffset maxDecree (d + 1) (offset + len)) (\<lambda>offsets.
             Inr (offset # offsets))))
      else Inr [todo])"

definition eq_BeginRead ::
  "u32 \<Rightarrow> LogFile list \<Rightarrow> ExecuteQueue \<Rightarrow> ((nat \<times> u64 \<times> u64 \<times> u32 list) option \<times> ExecuteQueue) res" where
  "eq_BeginRead maxSize logFiles q =
     bindE (eq_CheckRead maxSize logFiles q) (\<lambda>file.
       case file of
         None \<Rightarrow> Inr (None, q)
       | Some i \<Rightarrow>
           let logFile = logFiles ! i; decree = eq_lastInsertedDecree q + 1;
               maxDecree = min (MaxDecree logFile) (eq_lastPassedDecree q) in
           bindE (GetOffset decree logFile) (\<lambda>beginOffset.
           bindE (read_plan (unat (maxDecree - decree) + 2) logFile beginOffset maxDecree decree 0) (\<lambda>offsets.
             Inr (Some (i, decree, beginOffset, offsets), q\<lparr>eq_fIOWait := True\<rparr>))))"

text \<open>
  ReadLoop, second half: vote_at unmarshals and verifies the bytes at an offset
  of the file (None when either fails, which stops the process).
\<close>
fun read_votes :: "(u64 \<Rightarrow> u32 \<Rightarrow> lvote option) \<Rightarrow> u64 \<Rightarrow> u64 \<Rightarrow> u32 list \<Rightarrow> lvote list res" where
  "read_votes vote_at beginOffset decree (offset # offset' # offsets) =
     (case vote_at (beginOffset + ucast offset) (offset' - offset) of
        None \<Rightarrow> Inl AssertFailed
      | Some vote \<Rightarrow>
          bindE (log_assert (m_decree vote = decree) ()) (\<lambda>_.
          bindE (read_votes vote_at beginOffset (decree + 1) (offset' # offsets)) (\<lambda>votes.
            Inr (vote # votes))))"
| "read_votes vote_at beginOffset decree offsets = Inr []"

definition eq_EndRead :: "lvote list \<Rightarrow> ExecuteQueue \<Rightarrow> ExecuteQueue" where
  "eq_EndRead votes q =
     (let localQueue = fold (vq_Enqueue lvote_len) votes VoteQueue_new; q = q\<lparr>eq_fIOWait := False\<rparr> in
      if vq_Head localQueue \<noteq> None
      then let toExecuteQ = fst (vq_Append localQueue (eq_toExecuteQ q)) in
           q\<lparr>eq_toExecuteQ := toExecuteQ, eq_lastInsertedDecree := m_decree (the (vq_Tail toExecuteQ))\<rparr>
      else q)"

subsection \<open>The queue is contiguous under every interleaving\<close>

text \<open>ds are the decrees lo+1, ..., hi, in this order.\<close>
fun contiguous :: "u64 \<Rightarrow> u64 list \<Rightarrow> u64 \<Rightarrow> bool" where
  "contiguous lo [] hi \<longleftrightarrow> hi = lo"
| "contiguous lo (d # ds) hi \<longleftrightarrow> d = lo + 1 \<and> contiguous d ds hi"

lemma contiguous_append:
  "contiguous lo (ds @ es) hi \<longleftrightarrow> (\<exists>mid. contiguous lo ds mid \<and> contiguous mid es hi)"
  by (induction ds arbitrary: lo) auto

lemma contiguous_last: "contiguous lo ds hi \<Longrightarrow> ds \<noteq> [] \<Longrightarrow> last ds = hi"
  by (induction ds arbitrary: lo) (auto split: if_splits)

text \<open>executed is the last decree taken out of the queue.\<close>
definition eq_ok :: "u64 \<Rightarrow> ExecuteQueue \<Rightarrow> bool" where
  "eq_ok executed q \<longleftrightarrow> vq_ok (eq_toExecuteQ q) \<and>
     contiguous executed (map m_decree (vq_votes (eq_toExecuteQ q))) (eq_lastInsertedDecree q) \<and>
     eq_lastInsertedDecree q \<le> eq_lastPassedDecree q"

lemma vq_Tail_last: "vq_Tail q = (if vq_votes q = [] then None else Some (last (vq_votes q)))"
  by (simp add: vq_Tail_def vq_votes_def last_map)

lemma vq_Head_hd: "vq_Head q = (if vq_votes q = [] then None else Some (hd (vq_votes q)))"
  by (cases "vq_queue q") (simp_all add: vq_Head_def vq_votes_def)

lemma eq_Enqueue_ok:
  assumes "eq_ok executed q" "eq_Enqueue maxSize logFiles vote must q = Inr q'"
    and "m_decree vote = eq_lastPassedDecree q \<or> m_decree vote = eq_lastPassedDecree q + 1"
    and "eq_lastPassedDecree q + 1 \<noteq> 0"
  shows "eq_ok executed q' \<and> eq_lastPassedDecree q' = m_decree vote"
proof -
  have lt: "eq_lastPassedDecree q < eq_lastPassedDecree q + 1" using word_less_inc [OF assms(4)] .
  show ?thesis
    using assms lt
    by (auto simp: eq_Enqueue_def eq_ok_def Let_def bindE_eq_Inr vq.enq_elems vq.enq_inv vq_Tail_last
        contiguous_append split: if_splits)
qed

lemma eq_Dequeue_ok:
  assumes "eq_ok executed q" "eq_Dequeue maxSize logFiles q = Inr (v, q')"
  shows "case v of None \<Rightarrow> q' = q
     | Some vote \<Rightarrow> m_decree vote = executed + 1 \<and> eq_ok (m_decree vote) q' \<and>
                    eq_Head q = Some vote \<and> eq_lastPassedDecree q' = eq_lastPassedDecree q"
proof (cases "vq_votes (eq_toExecuteQ q)")
  case Nil
  then show ?thesis using assms(2) vq.deq_empty [of "eq_toExecuteQ q"] by (simp add: eq_Dequeue_def)
next
  case (Cons vote vs)
  obtain tq where tq: "vq_Dequeue (eq_toExecuteQ q) = (Some vote, tq)" "vq_votes tq = vs"
    using vq.deq_elems [OF Cons] by blast
  moreover have "vq_ok tq" using vq.deq_inv [of "eq_toExecuteQ q"] assms(1) tq(1) by (simp add: eq_ok_def)
  ultimately show ?thesis
    using assms Cons by (auto simp: eq_Dequeue_def eq_ok_def eq_Head_def vq_Head_hd Let_def bindE_eq_Inr)
qed

lemma read_votes_contiguous:
  "read_votes vote_at beginOffset (decree + 1) offsets = Inr votes \<Longrightarrow>
   contiguous decree (map m_decree votes) (decree + of_nat (length offsets - 1)) \<and>
   length votes = length offsets - 1"
proof (induction vote_at beginOffset "decree + 1" offsets arbitrary: decree votes rule: read_votes.induct)
  case (1 vote_at beginOffset offset offset' offsets)
  then obtain vote vs where v: "votes = vote # vs" "m_decree vote = decree + 1"
      "read_votes vote_at beginOffset (decree + 1 + 1) (offset' # offsets) = Inr vs"
    by (auto simp: bindE_eq_Inr split: option.splits)
  then show ?case using 1 by (fastforce split: option.splits simp: ac_simps)
qed simp_all

lemma read_plan_bound:
  "read_plan n logFile beginOffset maxDecree d todo = Inr offsets \<Longrightarrow>
   offsets \<noteq> [] \<and> (\<forall>k < length offsets - 1. d + of_nat k \<le> maxDecree)"
proof (induction n logFile beginOffset maxDecree d todo arbitrary: offsets rule: read_plan.induct)
  case (2 n logFile beginOffset maxDecree d todo)
  show ?case
  proof (cases "d \<le> maxDecree \<and> todo < c_ExecutionReadSize")
    case True
    then obtain o' len offs where r: "offsets = ucast (o' - beginOffset) # offs" "GetOffset d logFile = Inr o'"
        "GetLengthOfDecree d logFile = Inr len"
        "read_plan n logFile beginOffset maxDecree (d + 1) (ucast (o' - beginOffset) + len) = Inr offs"
      using 2(2) by (auto simp: bindE_eq_Inr Let_def)
    have ih: "offs \<noteq> []" "\<forall>k < length offs - 1. d + 1 + of_nat k \<le> maxDecree"
      using "2.IH" [OF True refl r(4)] by auto
    have "d + of_nat k \<le> maxDecree" if "k < length offsets - 1" for k
    proof (cases k)
      case (Suc j)
      then show ?thesis using ih that by (auto simp: r(1) add.assoc)
    qed (use True in simp)
    then show ?thesis by (simp add: r(1))
  qed (use 2(2) in auto)
qed simp

text \<open>
  The steps of the threads that share the queue, each under m_lock: the main
  thread passes a vote, the execute thread takes one out, the reader thread
  starts a read and, after reading without the lock, finishes it.  The state is
  the last executed decree, the queue and the votes of a running read; the log
  files and the configured size may differ from step to step.  The main thread
  passes decrees one after the other, a decree perhaps again: Enqueue does not check
  this, it is assumed of its callers.
\<close>
type_synonym exec_state = "u64 \<times> ExecuteQueue \<times> lvote list option"

inductive exec_step :: "exec_state \<Rightarrow> exec_state \<Rightarrow> bool" where
  pass: "eq_Enqueue maxSize logFiles vote must q = Inr q' \<Longrightarrow>
    m_decree vote = eq_lastPassedDecree q \<or> m_decree vote = eq_lastPassedDecree q + 1 \<Longrightarrow>
    eq_lastPassedDecree q + 1 \<noteq> 0 \<Longrightarrow> exec_step (x, q, p) (x, q', p)"
| execute: "eq_Dequeue maxSize logFiles q = Inr (Some vote, q') \<Longrightarrow> exec_step (x, q, p) (m_decree vote, q', p)"
| begin_read: "eq_BeginRead maxSize logFiles q = Inr (Some (i, decree, beginOffset, offsets), q') \<Longrightarrow>
    read_votes vote_at beginOffset decree offsets = Inr votes \<Longrightarrow> exec_step (x, q, None) (x, q', Some votes)"
| end_read: "exec_step (x, q, Some votes) (x, eq_EndRead votes q, None)"

inductive_cases exec_stepE: "exec_step s s'"

definition pending_ok :: "ExecuteQueue \<Rightarrow> lvote list option \<Rightarrow> bool" where
  "pending_ok q p \<longleftrightarrow> (case p of None \<Rightarrow> True | Some votes \<Rightarrow> votes \<noteq> [] \<longrightarrow>
     eq_lastInsertedDecree q < eq_lastPassedDecree q \<and>
     (\<exists>hi. contiguous (eq_lastInsertedDecree q) (map m_decree votes) hi \<and> hi \<le> eq_lastPassedDecree q))"

lemma pending_Enqueue:
  assumes "pending_ok q p" "eq_Enqueue maxSize logFiles vote must q = Inr q'"
    and "m_decree vote = eq_lastPassedDecree q \<or> m_decree vote = eq_lastPassedDecree q + 1"
    and "eq_lastPassedDecree q + 1 \<noteq> 0"
  shows "pending_ok q' p"
proof (cases "p = None \<or> p = Some [] \<or> m_decree vote = eq_lastPassedDecree q")
  case True
  then show ?thesis using assms(1,2) by (auto simp: pending_ok_def eq_Enqueue_def)
next
  case False
  have lt: "eq_lastPassedDecree q < eq_lastPassedDecree q + 1" using word_less_inc [OF assms(4)] .
  obtain votes where p: "p = Some votes" "votes \<noteq> []" using False by auto
  have ins: "eq_lastInsertedDecree q < eq_lastPassedDecree q" using assms(1) p by (simp add: pending_ok_def)
  then have "eq_lastInsertedDecree q' = eq_lastInsertedDecree q \<and> eq_lastPassedDecree q' = eq_lastPassedDecree q + 1"
    using assms(2,3) False by (auto simp: eq_Enqueue_def Let_def bindE_eq_Inr split: if_splits)
  then show ?thesis using assms(1) ins lt p by (auto simp: pending_ok_def)
qed

lemma pending_BeginRead:
  assumes "eq_ok x q" "eq_BeginRead maxSize logFiles q = Inr (Some (i, decree, beginOffset, offsets), q')"
    and "read_votes vote_at beginOffset decree offsets = Inr votes"
  shows "eq_ok x q' \<and> pending_ok q' (Some votes)"
proof -
  let ?ins = "eq_lastInsertedDecree q" let ?mx = "min (MaxDecree (logFiles ! i)) (eq_lastPassedDecree q)"
  have "eq_CheckRead maxSize logFiles q = Inr (Some i)"
    using assms(2) by (auto simp: eq_BeginRead_def bindE_eq_Inr Let_def simp del: read_plan.simps split: option.splits)
  then have lt: "?ins < eq_lastPassedDecree q"
    by (auto simp: eq_CheckRead_def not_le split: if_splits)
  have b: "decree = ?ins + 1" "q' = q\<lparr>eq_fIOWait := True\<rparr>"
      "\<exists>n. read_plan n (logFiles ! i) beginOffset ?mx decree 0 = Inr offsets"
    using assms(2) by (auto simp: eq_BeginRead_def bindE_eq_Inr Let_def simp del: read_plan.simps split: option.splits)
  note c = read_votes_contiguous [of vote_at beginOffset ?ins offsets votes]
  have ct: "contiguous ?ins (map m_decree votes) (?ins + of_nat (length offsets - 1))"
    and l: "length votes = length offsets - 1" using c assms(3) b(1) by auto
  have "?ins + of_nat (length offsets - 1) \<le> eq_lastPassedDecree q" if "votes \<noteq> []"
  proof -
    have "length offsets - 2 < length offsets - 1" using l that by (cases votes) auto
    then have "decree + of_nat (length offsets - 2) \<le> ?mx" using read_plan_bound b(3) by blast
    moreover have "decree + of_nat (length offsets - 2) = ?ins + of_nat (length offsets - 1)"
    proof -
      have "length offsets - 1 \<noteq> 0" using l that by (metis length_0_conv)
      then obtain m where m: "length offsets - 1 = Suc m" using not0_implies_Suc by blast
      then have m2: "length offsets - 2 = m" by simp
      show ?thesis by (simp only: b(1) m m2 of_nat_Suc) simp
    qed
    ultimately show ?thesis by simp
  qed
  then show ?thesis using assms(1) b lt ct by (auto simp: pending_ok_def eq_ok_def)
qed

lemma EndRead_ok:
  assumes "eq_ok x q" "pending_ok q (Some votes)"
  shows "eq_ok x (eq_EndRead votes q)"
proof -
  let ?l = "fold (vq_Enqueue lvote_len) votes VoteQueue_new"
  let ?a = "fst (vq_Append ?l (eq_toExecuteQ q))"
  have l: "vq_votes ?l = votes" "vq_ok ?l" using vq.enq_all_elems [of lvote_len votes] vq.enq_all_inv [of VoteQueue_new lvote_len votes] by simp_all
  have "vq_ok (eq_toExecuteQ q)" using assms(1) by (simp add: eq_ok_def)
  note ap = vq_Append_ok [OF this l(2) prod.collapse [symmetric]]
  have a: "vq_ok ?a" "vq_votes ?a = vq_votes (eq_toExecuteQ q) @ votes"
    using ap(1,3) by (simp_all only: l(1))
  show ?thesis
  proof (cases "votes = []")
    case True
    then show ?thesis using assms(1) by (simp add: eq_EndRead_def eq_ok_def vq_Head_hd Let_def)
  next
    case False
    obtain hi where hi: "contiguous (eq_lastInsertedDecree q) (map m_decree votes) hi" "hi \<le> eq_lastPassedDecree q"
      using assms(2) False by (auto simp: pending_ok_def)
    have "m_decree (last votes) = hi" using contiguous_last [OF hi(1)] False by (simp add: last_map)
    then have q': "eq_EndRead votes q = q\<lparr>eq_fIOWait := False, eq_toExecuteQ := ?a, eq_lastInsertedDecree := hi\<rparr>"
      using False l(1) a(2) by (simp add: eq_EndRead_def vq_Head_hd vq_Tail_last Let_def)
    have "contiguous x (map m_decree (vq_votes ?a)) hi"
      using assms(1) hi(1) by (auto simp: a(2) contiguous_append eq_ok_def)
    then show ?thesis using a(1) hi(2) by (simp only: q' eq_ok_def) simp
  qed
qed

lemma exec_step_inv:
  assumes "exec_step (x, q, p) (x', q', p')" "eq_ok x q" "pending_ok q p"
  shows "eq_ok x' q' \<and> pending_ok q' p'"
  using assms(1)
proof (cases rule: exec_step.cases)
  case (pass maxSize logFiles vote must)
  then show ?thesis using eq_Enqueue_ok assms(2,3) pending_Enqueue by metis
next
  case (execute maxSize logFiles vote)
  have "eq_lastInsertedDecree q' = eq_lastInsertedDecree q"
    using execute by (auto simp: eq_Dequeue_def Let_def bindE_eq_Inr split: prod.splits if_splits)
  then show ?thesis using eq_Dequeue_ok [OF assms(2) execute(3)] execute assms(3)
    by (cases p) (auto simp: pending_ok_def)
next
  case (begin_read maxSize logFiles i decree beginOffset offsets vote_at votes)
  then show ?thesis using pending_BeginRead assms(2) by metis
next
  case (end_read votes)
  then show ?thesis using EndRead_ok assms(2,3) by (auto simp: pending_ok_def)
qed

text \<open>
  C9. Sequential execution: when the main thread passes the decrees one after the
  other, whatever its interleaving with the execute thread and the thread that
  reads overflowed votes back from the log,
  the vote at the head of the queue is always the one after the last executed
  decree, so ExecuteVote's assertion holds and no decree is skipped or repeated.
\<close>
theorem executed_in_order:
  assumes "exec_step\<^sup>*\<^sup>* (x\<^sub>0, ExecuteQueue_Init x\<^sub>0, None) (x, q, p)" "eq_Head q = Some vote"
  shows "m_decree vote = x + 1"
proof -
  have "eq_ok (fst s) (fst (snd s)) \<and> pending_ok (fst (snd s)) (snd (snd s))"
    if "exec_step\<^sup>*\<^sup>* (x\<^sub>0, ExecuteQueue_Init x\<^sub>0, None) s" for s
    using that
  proof (induction rule: rtranclp_induct)
    case base
    then show ?case by (simp add: ExecuteQueue_Init_def eq_ok_def pending_ok_def)
  next
    case (step s t)
    then show ?case using exec_step_inv by (cases s; cases t) auto
  qed
  from this [OF assms(1)] have "eq_ok x q" by simp
  then show ?thesis using assms(2)
    by (cases "vq_votes (eq_toExecuteQ q)") (auto simp: eq_ok_def eq_Head_def vq_Head_hd)
qed

definition ex_lvote :: "u64 \<Rightarrow> lvote" where
  "ex_lvote d = Message.extend (InitMessage 6 Message_Vote (Mid []) d 1 (BallotNumber 1 (Mid [])) 0)
     (lvote.fields PrimaryCookie_empty False [([7], None)] None None 0 False False)"

theorem executed_in_order_witness:
  "\<exists>q. exec_step\<^sup>*\<^sup>* (4, ExecuteQueue_Init 4, None) (4, q, None) \<and> eq_Head q = Some (ex_lvote 5) \<and>
       m_decree (ex_lvote 5) = 4 + 1"
proof -
  let ?q = "\<lparr>eq_toExecuteQ = vq_Enqueue lvote_len (ex_lvote 5) VoteQueue_new, eq_lastPassedDecree = 5,
             eq_lastInsertedDecree = 5, eq_fIOWait = False\<rparr>"
  have d: "m_decree (ex_lvote 5) = 5" by (simp add: ex_lvote_def InitMessage_def Message.defs)
  have "eq_Enqueue 1000 [] (ex_lvote 5) True (ExecuteQueue_Init 4) = Inr ?q"
    by (simp add: eq_Enqueue_def ExecuteQueue_Init_def d Let_def vq_Tail_last vq.enq_elems)
  then have "exec_step (4, ExecuteQueue_Init 4, None) (4, ?q, None)"
    by (rule exec_step.pass) (simp_all add: ExecuteQueue_Init_def d)
  then have r: "exec_step\<^sup>*\<^sup>* (4, ExecuteQueue_Init 4, None) (4, ?q, None)" by simp
  have h: "eq_Head ?q = Some (ex_lvote 5)" by (simp add: eq_Head_def vq_Head_hd vq.enq_elems)
  show ?thesis using r h executed_in_order [OF r h] by blast
qed

end
