(* ===== verification/Cleanup.thy ===== *)
theory Cleanup
  imports Log_File
begin

text \<open>
  Removing old logs and checkpoints (legislator.cpp,
  CleanupLogsAndCheckpoint): which log files are dropped from m_logFiles, and
  which numbered files of the data directory are deleted.  A log file is named
  by the first decree it holds, a checkpoint by the last decree executed in it;
  GetFileNumbers returns the numbers in order.
\<close>

section \<open>The operations\<close>

text \<open>The loop that erases the front of m_logFiles.\<close>
fun trim_logs :: "u64 \<Rightarrow> LogFile list \<Rightarrow> LogFile list" where
  "trim_logs minDecree (log # log1 # logs) =
     (if lf_minDecree log1 \<le> minDecree + 1 then trim_logs minDecree (log1 # logs) else log # log1 # logs)"
| "trim_logs minDecree logs = logs"

text \<open>The checkpoint files the second loop deletes.\<close>
fun old_checkpoints :: "u32 \<Rightarrow> u64 list \<Rightarrow> u64 list" where
  "old_checkpoints maxCheckpoints [] = []"
| "old_checkpoints maxCheckpoints (cp # cps) =
     (if unat maxCheckpoints < length (cp # cps) then cp # old_checkpoints maxCheckpoints cps else [])"

text \<open>The log files the third loop deletes; checkpoints[0] is undefined when there is no checkpoint.\<close>
fun old_logs :: "u32 \<Rightarrow> u64 list \<Rightarrow> u64 list \<Rightarrow> u64 list res" where
  "old_logs maxLogs checkpoints [] = Inr []"
| "old_logs maxLogs checkpoints [log] = (if unat maxLogs < 1 then Inl OutOfBounds else Inr [])"
| "old_logs maxLogs checkpoints (log # log1 # logs) =
     (if unat maxLogs < length (log # log1 # logs)
      then case checkpoints of
             [] \<Rightarrow> Inl OutOfBounds
           | cp # _ \<Rightarrow> if log1 \<le> cp + 1
                      then bindE (old_logs maxLogs checkpoints (log1 # logs)) (\<lambda>dead. Inr (log # dead))
                      else Inr []
      else Inr [])"

section \<open>Laws\<close>

lemma old_checkpoints_take: "old_checkpoints m cps = take (length cps - unat m) cps"
proof (induction cps)
  case (Cons c cps)
  show ?case
  proof (cases "unat m < length (c # cps)")
    case True
    then have "length (c # cps) - unat m = Suc (length cps - unat m)" by simp
    then show ?thesis using Cons True by simp
  qed simp
qed simp

text \<open>The log file that holds a decree: the last one that starts at or before it.\<close>
definition log_for :: "u64 \<Rightarrow> u64 list \<Rightarrow> u64" where
  "log_for d logs = last (filter (\<lambda>l. l \<le> d) logs)"

lemma old_logs_prefix: "old_logs m cps logs = Inr dead \<Longrightarrow> \<exists>rest. logs = dead @ rest \<and> (logs \<noteq> [] \<longrightarrow> rest \<noteq> [])"
proof (induction m cps logs arbitrary: dead rule: old_logs.induct)
  case (3 m cps log log1 logs)
  then show ?case by (fastforce simp: bindE_eq_Inr split: if_splits list.splits)
qed (auto split: if_splits)

lemma old_logs_bound:
  "old_logs m cps logs = Inr dead \<Longrightarrow> dead \<noteq> [] \<Longrightarrow> logs ! length dead \<le> hd cps + 1"
proof (induction m cps logs arbitrary: dead rule: old_logs.induct)
  case (3 m cps log log1 logs)
  then obtain cp cps' dead' where e: "cps = cp # cps'" "log1 \<le> cp + 1" "dead = log # dead'"
      "old_logs m cps (log1 # logs) = Inr dead'" "unat m < length (log # log1 # logs)"
    by (auto simp: bindE_eq_Inr split: if_splits list.splits)
  show ?case
  proof (cases "dead' = []")
    case False
    then show ?thesis using 3(1) [OF e(5,1,2)] e by simp
  qed (use e in simp)
qed (auto split: if_splits)

text \<open>
  C24: the log files that CleanupLogsAndCheckpoint deletes hold no decree after
  the oldest checkpoint.  For every decree d beyond the first of the checkpoints
  in the directory, the file that holds d is kept, so replaying from any of the
  checkpoints still finds its log.
\<close>
theorem cleanup_keeps_logs:
  assumes "sorted_wrt (<) logs" "old_logs maxLogs (cp # cps) logs = Inr dead"
    and "cp + 1 \<le> d" "\<exists>l \<in> set logs. l \<le> d"
  shows "log_for d logs \<notin> set dead"
proof
  assume mem: "log_for d logs \<in> set dead"
  obtain rest where rest: "logs = dead @ rest" "logs \<noteq> [] \<longrightarrow> rest \<noteq> []" using old_logs_prefix [OF assms(2)] by blast
  have "logs \<noteq> []" using assms(4) by auto
  then obtain r rs where r: "rest = r # rs" using rest(2) by (cases rest) auto
  have "dead \<noteq> []" using mem by auto
  then have "r \<le> d" using old_logs_bound [OF assms(2)] assms(3) rest(1) r by simp
  then have ne: "filter (\<lambda>l. l \<le> d) rest \<noteq> []" using r by simp
  then have "log_for d logs \<in> set (filter (\<lambda>l. l \<le> d) rest)"
    using last_in_set [OF ne] by (simp add: log_for_def rest(1))
  then show False using mem assms(1) by (auto simp: rest(1) sorted_wrt_append)
qed

theorem cleanup_keeps_logs_witness:
  "old_logs 1 [25, 40] [1, 10, 20, 30] = Inr [1, 10] \<and> log_for 26 [1, 10, 20, 30] \<notin> set [1, 10]"
proof -
  have old: "old_logs 1 [25, 40] [1, 10, 20, 30] = Inr [1, 10]" by simp
  have s: "sorted_wrt (<) [1 :: u64, 10, 20, 30]" by simp
  show ?thesis using cleanup_keeps_logs [OF s old, of 26] old by simp
qed

text \<open>The log files of m_logFiles: each holds some decrees, all of them before those of the next.\<close>
fun logs_ordered :: "LogFile list \<Rightarrow> bool" where
  "logs_ordered (log # log1 # logs) \<longleftrightarrow> MaxDecree log < lf_minDecree log1 \<and> logs_ordered (log1 # logs)"
| "logs_ordered logs \<longleftrightarrow> True"

text \<open>
  After the logs before the checkpoint have been dropped from m_logFiles, a
  decree that is still to be read from a log is found where it was.
\<close>
theorem trimmed_logs_found:
  assumes "logs_ordered logs" "minDecree + 1 \<le> d"
  shows "find (HasDecree d) (trim_logs minDecree logs) = find (HasDecree d) logs"
  using assms
proof (induction minDecree logs rule: trim_logs.induct)
  case (1 minDecree log log1 logs)
  then have "\<not> HasDecree d log" if "lf_minDecree log1 \<le> minDecree + 1" using that by (auto simp: HasDecree_def)
  then show ?case using 1 by simp
qed simp_all

definition ex_file :: "u64 \<Rightarrow> LogFile" where
  "ex_file d = \<lparr>lf_decreeOffsets = [0, 512], lf_dataLen = 1024, lf_minDecree = d, lf_disk = []\<rparr>"

theorem trimmed_logs_found_witness:
  "logs_ordered [ex_file 1, ex_file 3] \<and> trim_logs 2 [ex_file 1, ex_file 3] = [ex_file 3] \<and>
   find (HasDecree 4) [ex_file 3] = find (HasDecree 4) [ex_file 1, ex_file 3]"
proof -
  have o: "logs_ordered [ex_file 1, ex_file 3]" by (simp add: ex_file_def MaxDecree_def)
  have t: "trim_logs 2 [ex_file 1, ex_file 3] = [ex_file 3]" by (simp add: ex_file_def)
  show ?thesis using trimmed_logs_found [OF o, of 2 4] o t by simp
qed

end
