(* ===== verification/Legis_State.thy ===== *)
theory Legis_State
  imports Queues Cleanup
begin

text \<open>
  The state of a replica (legislator.h, class Legislator and class Replica), its
  environment, and the operations at the bottom of its call graph: choosing and
  addressing the recipients of a message, the quorum size, checkpoint requests
  and the vote constructors.

  Messages a replica sends are appended to l_sent, calls of the application to
  l_calls.  The clock, the configuration, the answers of the state machine and
  of the disk, and what a peer sends when votes are learned from it are the
  environment of a step.  l_codexFiles and l_logNumbers are the numbers of the
  checkpoint and log files in the data directory.  Hi-res times (Int64 microseconds) are integers.
\<close>

section \<open>Data\<close>

datatype lstate = PaxosInactive | StablePrimary | StableSecondary | Preparing | Initializing

datatype lmsg =
    PlainMsg "mid Message"
  | VoteMsg lvote
  | PrepareM "mid PrepareMsg"
  | PrepareAcceptedM "mid Message" lvote
  | StatusM "mid StatusResponse"
  | JoinM "mid JoinMessage"
  | BootstrapM "mid Message" MemberSet

fun msg_hdr :: "lmsg \<Rightarrow> mid Message" where
  "msg_hdr (PlainMsg m) = m"
| "msg_hdr (VoteMsg v) = Message.truncate v"
| "msg_hdr (PrepareM m) = Message.truncate m"
| "msg_hdr (PrepareAcceptedM m v) = m"
| "msg_hdr (StatusM m) = Message.truncate m"
| "msg_hdr (JoinM m) = Message.truncate m"
| "msg_hdr (BootstrapM m ms) = m"

record Replica =
  r_node :: RSLNode
  r_connected :: bool
  r_numOutstanding :: int
  r_status :: nat
  r_failedAt :: int
  r_lastRequestSentAt :: int
  r_lastRequestVotedAt :: int
  r_lastRequestVotedDecree :: u64
  r_lastVotePayload :: u64
  r_consecutiveFailures :: u32
  r_needsResolve :: bool

definition Replica_new :: "RSLNode \<Rightarrow> Replica" where
  "Replica_new node =
     \<lparr>r_node = (if n_rslLearnPort node = 0 then node\<lparr>n_rslLearnPort := n_rslPort node + 1\<rparr> else node),
      r_connected = False, r_numOutstanding = 0, r_status = 1, r_failedAt = 0, r_lastRequestSentAt = 0,
      r_lastRequestVotedAt = 0, r_lastRequestVotedDecree = 0, r_lastVotePayload = 0,
      r_consecutiveFailures = 0, r_needsResolve = False\<rparr>"

text \<open>The member a node's m_memberIdString names, as MemberId::Compare sees it.\<close>
definition node_mid :: "RSLNode \<Rightarrow> mid" where
  "node_mid node = Mid (c_str (n_memberIdString node))"

text \<open>Calls of the application's state machine.\<close>
datatype app_call =
    NotifyStatus bool
  | NotifyConfigurationChanged "nat option"
  | NotifyPrimaryRecovered
  | BeforeExecuteReplicatedRequests
  | AfterExecuteReplicatedRequests
  | StateSaved u64
  | StateCopied u64 "nat option"
  | LoadState "u64 option"
  | ExecuteReplicatedRequest "u8 list" "nat option"
  | AbortRequest "nat option"
  | AbortChangeConfiguration "nat option"

record packet =
  p_ip :: u32
  p_port :: u16
  p_asClient :: bool
  p_msg :: lmsg

record legislator =
  l_memberId :: mid
  l_self :: RSLNode
  l_version :: u16
  l_state :: lstate
  l_maxBallot :: "mid BallotNumber"
  l_maxSeenBallot :: "mid BallotNumber"
  l_maxAcceptedVote :: lvote
  l_oldFreshestVote :: "lvote option"
  l_outstandingVote :: "lvote option"
  l_responseMap :: "mid list"
  l_statusMap :: StatusMap
  l_lastPrepareMsg :: "mid PrepareMsg option"
  l_primaryCookie :: PrimaryCookie
  l_replicas :: "Replica list"
  l_paxosConfiguration :: ConfigurationInfo
  l_stateConfiguration :: ConfigurationInfo
  l_bootstrapMemberSet :: "MemberSet option"
  l_highestDefunct :: u32
  l_logFiles :: "LogFile list"
  l_log :: "lmsg list"
  l_maxLogLen :: u64
  l_executeQ :: ExecuteQueue
  l_lastExecutedDecree :: u64
  l_callbackAfterVote :: "lvote option"
  l_electionDelay :: int
  l_nextElectionTime :: int
  l_prepareTimeout :: int
  l_actionTimeout :: int
  l_cpTimeout :: int
  l_nextCheckpointTime :: int
  l_lastTimeJoinMessagesSent :: int
  l_copyCheckpointAtDecree :: u64
  l_saveCheckpointAtDecree :: u64
  l_checkpointedDecree :: u64
  l_checkpointSize :: u64
  l_checkpointAllowed :: bool
  l_mustCheckpoint :: bool
  l_isSavingCheckpoint :: bool
  l_checkpointSavedNotification :: "(u64 \<times> nat option) option"
  l_codexFiles :: "u64 list"
  l_logNumbers :: "u64 list"
  l_copyCheckpointThread :: bool
  l_isPrimary :: bool
  l_isShutting :: bool
  l_relinquishPrimary :: bool
  l_forceReelection :: bool
  l_IsTransitioningToPrimary :: bool
  l_acceptMessages :: bool
  l_votePayload :: u64
  l_voteCache :: "lvote VoteQueue"
  l_votesToSend :: "lvote VoteQueue"
  l_recvMsgQ :: "lmsg list"
  l_sent :: "packet list"
  l_calls :: "app_call list"

text \<open>The values RSLConfig hands out; times in microseconds unless the source keeps them in another unit.\<close>
record rsl_cfg =
  c_NewLeaderGracePeriod :: int
  c_HeartBeatInterval :: int
  c_InitializeRetryInterval :: int
  c_PrepareRetryInterval :: int
  c_VoteRetryInterval :: int
  c_VoteMaxOutstandingInterval :: int
  c_CPQueryRetryInterval :: int
  c_JoinMessagesInterval :: int
  c_SendTimeout :: u32
  c_ReceiveTimeout :: u32
  c_MaxCacheLength :: u32
  c_MaxOutstandingPerReplica :: u32
  c_InMemoryExecutionQueueSize :: u32
  c_MaxCheckpoints :: u32
  c_MaxLogs :: u32
  c_AllowPrimaryPromotionWhileCatchingUp :: bool
  c_UseGlobalAcceptMessagesFlag :: bool

text \<open>
  What a step reads from outside the replica.  e_CanBecomePrimary is the state
  machine's answer with the cookie it fills in; e_learn is what ReadNextMessage
  delivers from a peer's learn port; e_copyCheckpoint is the outcome of
  CopyLearnCheckpointFile; e_trySaveState is the state machine's answer to TrySaveState
  with the size of the checkpoint file; e_moveOk tells whether the file system
  moves the temporary checkpoint into place, e_deleteOk whether it deletes a
  file; e_checkpointInterval and e_newLogLen are results of Randomize; e_rand is
  rand().
\<close>
record env =
  e_now :: int
  e_cfg :: rsl_cfg
  e_AcceptMessageFromReplica :: "RSLNode \<Rightarrow> PrimaryCookie \<Rightarrow> bool"
  e_CanBecomePrimary :: "PrimaryCookie option option"
  e_ResolveNode :: "RSLNode \<Rightarrow> bool \<times> RSLNode"
  e_saveState :: "u8 list \<Rightarrow> bool"
  e_diskOk :: bool
  e_newLogLen :: u64
  e_learn :: "u32 \<Rightarrow> u16 \<Rightarrow> lmsg list"
  e_copyCheckpoint :: "u32 \<Rightarrow> u16 \<Rightarrow> u64 \<Rightarrow> u64 \<Rightarrow> bool res"
  e_copyThreadDone :: bool
  e_trySaveState :: "bool \<times> u64"
  e_moveOk :: bool
  e_deleteOk :: "u64 \<Rightarrow> bool"
  e_checkpointInterval :: int
  e_rand :: nat

definition HRTIME_MSECONDS :: "int \<Rightarrow> int" where "HRTIME_MSECONDS x = x * 1000"
definition HRTIME_SECONDS :: "int \<Rightarrow> int" where "HRTIME_SECONDS x = x * 1000000"

definition NoBallot :: "mid BallotNumber" where
  "NoBallot = BallotNumber 0 (Mid [])"

section \<open>Queries\<close>

definition AmPrimary :: "legislator \<Rightarrow> bool" where
  "AmPrimary s \<longleftrightarrow> l_state s = StablePrimary"

definition PaxosConfiguration :: "legislator \<Rightarrow> u32" where
  "PaxosConfiguration s = ci_configurationNumber (l_paxosConfiguration s)"

definition QuorumSize :: "legislator \<Rightarrow> u32" where
  "QuorumSize s = of_nat ((length (l_replicas s) + 1) div 2 + 1)"

definition IsCheckpointing :: "legislator \<Rightarrow> bool" where
  "IsCheckpointing s \<longleftrightarrow> l_saveCheckpointAtDecree s \<noteq> 0 \<or> l_copyCheckpointAtDecree s \<noteq> 0"

definition IsAnyRequestPendingExecution :: "legislator \<Rightarrow> bool" where
  "IsAnyRequestPendingExecution s \<longleftrightarrow> eq_Head (l_executeQ s) \<noteq> None"

definition IsExecuteQueueReady :: "env \<Rightarrow> legislator \<Rightarrow> bool" where
  "IsExecuteQueueReady e s \<longleftrightarrow>
     (if \<not> eq_IsInMemory (l_executeQ s) then False
      else if \<not> c_AllowPrimaryPromotionWhileCatchingUp (e_cfg e) \<and> IsAnyRequestPendingExecution s then False
      else True)"

definition IsBootstrapped :: "legislator \<Rightarrow> bool" where
  "IsBootstrapped s \<longleftrightarrow> m_ballotId (m_ballot (l_maxAcceptedVote s)) > 0 \<or> m_decree (l_maxAcceptedVote s) > 1"

definition HasConfigurationCheckpointed :: "legislator \<Rightarrow> bool" where
  "HasConfigurationCheckpointed s \<longleftrightarrow> ms_members (ci_memberSet (l_stateConfiguration s)) \<noteq> []"

definition ms_includes :: "mid \<Rightarrow> MemberSet \<Rightarrow> bool" where
  "ms_includes m ms \<longleftrightarrow> (\<exists>node \<in> set (ms_members ms). node_mid node = m)"

definition IsInStableState :: "legislator \<Rightarrow> bool" where
  "IsInStableState s \<longleftrightarrow> l_state s = StablePrimary \<or> l_state s = StableSecondary"

section \<open>Vote constructors\<close>

text \<open>The fields the constructors of Vote and Vote::Init set; version 1 votes carry no cookie.\<close>
definition lvote_init ::
  "mid Message \<Rightarrow> bool \<Rightarrow> MemberSet option \<Rightarrow> nat option \<Rightarrow> bool \<Rightarrow> bool \<Rightarrow> PrimaryCookie \<Rightarrow> lvote res" where
  "lvote_init hdr isReconfiguration members reconfigurationCookie isExclusiveVote relinquishPrimary cookie =
     bindE (log_assert (\<not> isReconfiguration \<or> m_version hdr \<ge> 3) ()) (\<lambda>_.
       Inr (Message.extend hdr
         (lvote.fields (if m_version hdr \<ge> 2 then cookie else PrimaryCookie_empty) isReconfiguration []
            (if m_version hdr \<ge> 3 \<and> isReconfiguration then members else None)
            reconfigurationCookie 0 isExclusiveVote relinquishPrimary)))"

definition Vote_empty ::
  "u16 \<Rightarrow> mid \<Rightarrow> u64 \<Rightarrow> u32 \<Rightarrow> mid BallotNumber \<Rightarrow> PrimaryCookie \<Rightarrow> bool \<Rightarrow> lvote res" where
  "Vote_empty version memberId decree configurationNumber ballot cookie relinquishPrimary =
     lvote_init (InitMessage version Message_Vote memberId decree configurationNumber ballot 0)
       False None None False relinquishPrimary cookie"

definition Vote_reconfiguration :: "u16 \<Rightarrow> MemberSet \<Rightarrow> nat option \<Rightarrow> PrimaryCookie \<Rightarrow> lvote res" where
  "Vote_reconfiguration version members reconfigCookie cookie =
     lvote_init (InitMessage version Message_Vote (Mid []) 0 0 NoBallot 0)
       True (Some members) reconfigCookie False False cookie"

definition Vote_copy :: "u16 \<Rightarrow> lvote \<Rightarrow> PrimaryCookie \<Rightarrow> lvote res" where
  "Vote_copy version other cookie =
     bindE (lvote_init (InitMessage version Message_Vote (m_memberId other) (m_decree other)
                          (m_configurationNumber other) (m_ballot other) 0)
              (lv_isReconfiguration other) (lv_members other) (lv_reconfigurationCookie other)
              (lv_isExclusiveVote other) False cookie) (\<lambda>v.
     bindE (log_assert (lv_requests other = [] \<or> \<not> lv_isReconfiguration v) ()) (\<lambda>_.
       Inr (v\<lparr>lv_requests := lv_requests other\<rparr>)))"

definition GetRelinquishPrimary :: "lvote \<Rightarrow> bool" where
  "GetRelinquishPrimary v = lv_relinquishPrimary v"

section \<open>Sending\<close>

definition upd_replica :: "nat \<Rightarrow> (Replica \<Rightarrow> Replica) \<Rightarrow> legislator \<Rightarrow> legislator" where
  "upd_replica i f s = s\<lparr>l_replicas := (l_replicas s)[i := f (l_replicas s ! i)]\<rparr>"

text \<open>SendMessage: the marshaled message is handed to the network library.\<close>
definition SendMessage :: "u32 \<Rightarrow> u16 \<Rightarrow> nat option \<Rightarrow> lmsg \<Rightarrow> bool \<Rightarrow> legislator \<Rightarrow> legislator" where
  "SendMessage ip port replica msg asClient s =
     (let s = (case replica of
                 None \<Rightarrow> s
               | Some i \<Rightarrow> upd_replica i (\<lambda>r. r\<lparr>r_numOutstanding := r_numOutstanding r + 1\<rparr>) s)
      in s\<lparr>l_sent := l_sent s @ [\<lparr>p_ip = ip, p_port = port, p_asClient = asClient, p_msg = msg\<rparr>]\<rparr>)"

definition SendMessageToReplica :: "nat \<Rightarrow> lmsg \<Rightarrow> legislator \<Rightarrow> legislator" where
  "SendMessageToReplica i msg s =
     (let node = r_node (l_replicas s ! i)
      in SendMessage (n_ip node) (n_rslPort node) (Some i) msg True s)"

definition SendMessageToIpPort :: "u32 \<Rightarrow> u16 \<Rightarrow> lmsg \<Rightarrow> bool \<Rightarrow> legislator \<Rightarrow> legislator" where
  "SendMessageToIpPort ip port msg asClient s =
     (if \<not> asClient then SendMessage ip port None msg asClient s
      else case find (\<lambda>i. n_ip (r_node (l_replicas s ! i)) = ip \<and> n_rslPort (r_node (l_replicas s ! i)) = port)
                  [0..<length (l_replicas s)] of
             Some i \<Rightarrow> SendMessageToReplica i msg s
           | None \<Rightarrow> SendMessage ip port None msg asClient s)"

definition SendResponse :: "u32 \<Rightarrow> u16 \<Rightarrow> lmsg \<Rightarrow> legislator \<Rightarrow> legislator" where
  "SendResponse ip port msg s = SendMessageToIpPort ip port msg False s"

definition SendRequestToReplica :: "env \<Rightarrow> nat \<Rightarrow> lmsg \<Rightarrow> legislator \<Rightarrow> legislator" where
  "SendRequestToReplica e i msg s =
     (let r = l_replicas s ! i;
          shouldSend = (r_status r = 1);
          timeout = min (HRTIME_SECONDS 30) (uint (3 * c_SendTimeout (e_cfg e)));
          shouldSend = (if r_status r = 0 \<and> e_now e - r_failedAt r > timeout then True else shouldSend)
      in if shouldSend \<and> n_ip (r_node r) \<noteq> 0 then SendMessageToReplica i msg s else s)"

definition SendRequestToAll :: "env \<Rightarrow> lmsg \<Rightarrow> legislator \<Rightarrow> legislator" where
  "SendRequestToAll e msg s =
     fold (\<lambda>i s. if r_numOutstanding (l_replicas s ! i) < uint (c_MaxOutstandingPerReplica (e_cfg e))
                 then SendRequestToReplica e i msg s else s)
       [0..<length (l_replicas s)] s"

definition ReSendRequest :: "env \<Rightarrow> lmsg \<Rightarrow> int \<Rightarrow> legislator \<Rightarrow> legislator" where
  "ReSendRequest e msg failedReplicaTimeout s =
     fold (\<lambda>i s.
       let r = l_replicas s ! i;
           timeout = (if r_connected r then HRTIME_MSECONDS (uint (c_ReceiveTimeout (e_cfg e)))
                      else failedReplicaTimeout)
       in if node_mid (r_node r) \<notin> set (l_responseMap s) \<and> r_numOutstanding r = 0
          then let resendMessage =
                 (if e_now e - r_lastRequestSentAt r \<ge> timeout then True
                  else case (msg, l_outstandingVote s) of
                         (VoteMsg vote, Some o') \<Rightarrow>
                           IsSameDecree vote (m_decree o') (m_ballot o') \<and>
                           e_now e - lv_receivedAt vote \<ge> timeout
                       | _ \<Rightarrow> False)
               in if resendMessage then SendRequestToReplica e i msg s else s
          else s) [0..<length (l_replicas s)] s"

text \<open>ProcessSend: the network library reports that a packet to replica i has left (or not).\<close>
datatype tx_status = TxSuccess | TxAbort | TxOther

definition ProcessSend :: "env \<Rightarrow> nat option \<Rightarrow> tx_status \<Rightarrow> bool \<Rightarrow> legislator \<Rightarrow> legislator" where
  "ProcessSend e remoteReplica status asClient s =
     (case remoteReplica of
        Some i \<Rightarrow>
          if asClient \<and> i < length (l_replicas s)
          then upd_replica i (\<lambda>r.
                 let r = r\<lparr>r_lastRequestSentAt := e_now e, r_numOutstanding := r_numOutstanding r - 1\<rparr> in
                 if status = TxSuccess
                 then r\<lparr>r_status := (if r_status r = 0 then 1 else r_status r), r_consecutiveFailures := 0,
                        r_connected := True\<rparr>
                 else if status \<noteq> TxAbort
                 then let r = r\<lparr>r_consecutiveFailures := r_consecutiveFailures r + 1, r_connected := False\<rparr> in
                      if r_consecutiveFailures r \<ge> 3 \<and> r_status r = 1
                      then r\<lparr>r_status := 0, r_failedAt := e_now e\<rparr> else r
                 else r) s
          else s
      | None \<Rightarrow> s)"

definition ProcessConnect :: "u32 \<Rightarrow> u16 \<Rightarrow> bool \<Rightarrow> bool \<Rightarrow> legislator \<Rightarrow> legislator" where
  "ProcessConnect ip port connected asClient s =
     (if \<not> asClient then s
      else s\<lparr>l_replicas := map (\<lambda>r.
               if n_ip (r_node r) = ip \<and> n_rslPort (r_node r) = port
               then let r = r\<lparr>r_connected := connected\<rparr> in
                    if \<not> r_connected r then r\<lparr>r_needsResolve := True\<rparr> else r
               else r) (l_replicas s)\<rparr>)"

section \<open>Messages a replica builds\<close>

definition SendDefunctConfigurationMessage :: "u32 \<Rightarrow> u16 \<Rightarrow> bool \<Rightarrow> legislator \<Rightarrow> legislator" where
  "SendDefunctConfigurationMessage ip port asClient s =
     SendMessageToIpPort ip port
       (PlainMsg (InitMessage (l_version s) Message_DefunctConfiguration (l_memberId s) 0
          (l_highestDefunct s) NoBallot 0)) asClient s"

definition SendJoinRequestMessage :: "u32 \<Rightarrow> u32 \<Rightarrow> u16 \<Rightarrow> bool \<Rightarrow> legislator \<Rightarrow> legislator" where
  "SendJoinRequestMessage configurationNumber ip port asClient s =
     SendMessageToIpPort ip port
       (PlainMsg (InitMessage (l_version s) Message_JoinRequest (l_memberId s) 0
          configurationNumber NoBallot 0)) asClient s"

text \<open>m_logFiles.front() of an empty vector is undefined.\<close>
definition SendJoinMessage :: "env \<Rightarrow> u32 \<Rightarrow> u16 \<Rightarrow> bool \<Rightarrow> legislator \<Rightarrow> legislator res" where
  "SendJoinMessage e ip port asClient s =
     (if l_logFiles s = [] then Inl OutOfBounds
      else let msg = JoinM (Message.extend
                 (InitMessage (l_version s) Message_Join (l_memberId s)
                    (ci_initialDecree (l_paxosConfiguration s) - 1) (PaxosConfiguration s) NoBallot 0)
                 (JoinMessage.fields (n_rslLearnPort (l_self s)) (lf_minDecree (hd (l_logFiles s)))
                    (l_checkpointedDecree s) (l_checkpointSize s)))
           in Inr (if \<not> asClient then SendMessageToIpPort ip port msg False s
                   else if ip = 0 then SendRequestToAll e msg s
                   else SendMessageToIpPort ip port msg True s))"

definition StatusQuery :: "legislator \<Rightarrow> lmsg" where
  "StatusQuery s =
     PlainMsg (InitMessage (l_version s) Message_StatusQuery (l_memberId s) (m_decree (l_maxAcceptedVote s))
       (PaxosConfiguration s) (m_ballot (l_maxAcceptedVote s)) 0)"

definition SendStatusRequestMessage :: "env \<Rightarrow> legislator \<Rightarrow> legislator" where
  "SendStatusRequestMessage e s =
     (if \<not> AmPrimary s \<or> l_copyCheckpointAtDecree s = 0
      then s\<lparr>l_copyCheckpointAtDecree := 0, l_cpTimeout := I64_MAX\<rparr>
      else (SendRequestToAll e (StatusQuery s) s)\<lparr>l_cpTimeout := e_now e + c_CPQueryRetryInterval (e_cfg e)\<rparr>)"

definition SendJoinMessagesIfNecessary :: "env \<Rightarrow> legislator \<Rightarrow> legislator res" where
  "SendJoinMessagesIfNecessary e s =
     (if PaxosConfiguration s \<le> l_highestDefunct s + 1 then Inr s
      else if e_now e - l_lastTimeJoinMessagesSent s < c_JoinMessagesInterval (e_cfg e) then Inr s
      else bindE (SendJoinMessage e 0 0 True s) (\<lambda>s.
             Inr (s\<lparr>l_lastTimeJoinMessagesSent := e_now e\<rparr>)))"

end
