(* ===== verification/Legis_Ops.thy ===== *)
theory Legis_Ops
  imports Legis_State
begin

text \<open>
  The operations that change the replica's Paxos state (legislator.cpp): logging
  votes, prepares and reconfiguration decisions, moving between the states of
  the protocol, and proposing votes.

  StartInitializing, MoveToSecondaryOrPrepare, StartPreparing,
  StartBeingStablePrimary, SendNextVote, LogVote, LogReconfigurationDecision,
  ChangePaxosConfiguration and UpdateDefunctInfo call each other in a cycle in a
  replica set of one.  All but StartInitializing take the StartInitializing they
  call as the argument init; StartInitializing itself recurses on the number of
  nested calls it may still make, and Legis_Term shows how many there are.
\<close>

type_synonym lstep = "legislator \<Rightarrow> legislator res"

section \<open>Accepting and logging\<close>

definition SetMaxBallot :: "env \<Rightarrow> mid BallotNumber \<Rightarrow> legislator \<Rightarrow> legislator" where
  "SetMaxBallot e ballot s =
     (if ballot > l_maxBallot s
      then let s = s\<lparr>l_maxBallot := ballot\<rparr>;
               nextTime = e_now e + c_NewLeaderGracePeriod (e_cfg e);
               nextTime = (if m_ballotMember (l_maxBallot s) = l_memberId s
                           then e_now e + c_HeartBeatInterval (e_cfg e) else nextTime)
           in if nextTime > l_nextElectionTime s then s\<lparr>l_nextElectionTime := nextTime\<rparr> else s
      else s)"

definition msg_len :: "lmsg \<Rightarrow> u32" where
  "msg_len m =
     (case m of
        PlainMsg h \<Rightarrow> Message_GetBaseSize (m_version h)
      | VoteMsg v \<Rightarrow> lvote_len v
      | PrepareM p \<Rightarrow> PrepareMsg_GetMarshalLen p
      | PrepareAcceptedM h v \<Rightarrow> lvote_len v + Message_GetBaseSize (m_version h)
      | StatusM r \<Rightarrow> StatusResponse_GetMarshalLen r
      | JoinM j \<Rightarrow> JoinMessage_GetMarshalLen j
      | BootstrapM h ms \<Rightarrow> Message_GetBaseSize (m_version h) + MemberSet_GetMarshalLen (m_version h) ms)"

text \<open>
  LogFile::WriteMessage on the current log: the message is on disk.  l_log is the sequence
  of the messages written.  The bytes they make in the file, lf_disk, are the subject of
  theory Log_File and are not kept up to date here; the handlers do not look at them.
\<close>
definition WriteLog :: "env \<Rightarrow> lmsg \<Rightarrow> lstep" where
  "WriteLog e msg s = bindE (log_assert (e_diskOk e) ()) (\<lambda>_. Inr (s\<lparr>l_log := l_log s @ [msg]\<rparr>))"

definition AddMessageToLog :: "lmsg \<Rightarrow> lstep" where
  "AddMessageToLog msg s =
     (if l_logFiles s = [] then Inl OutOfBounds
      else bindE (LogFile_AddMessage (m_msgId (msg_hdr msg)) (m_decree (msg_hdr msg)) (msg_len msg)
                    (last (l_logFiles s))) (\<lambda>lf.
             Inr (s\<lparr>l_logFiles := butlast (l_logFiles s) @ [lf]\<rparr>)))"

definition UpdateDefunctInfo :: "lstep \<Rightarrow> u32 \<Rightarrow> lstep" where
  "UpdateDefunctInfo init defunctConfigurationNumber s =
     (if defunctConfigurationNumber \<le> l_highestDefunct s then Inr s
      else if PaxosConfiguration s \<le> defunctConfigurationNumber \<and> l_state s \<noteq> PaxosInactive then init s
      else Inr (s\<lparr>l_highestDefunct := defunctConfigurationNumber\<rparr>))"

definition AddToExecutionQueue :: "env \<Rightarrow> lvote \<Rightarrow> lstep" where
  "AddToExecutionQueue e vote s =
     (let hasUserCookie = (lv_requests vote \<noteq> [] \<and> snd (hd (lv_requests vote)) \<noteq> None);
          must = (hasUserCookie \<or> AmPrimary s)
      in bindE (eq_Enqueue (c_InMemoryExecutionQueueSize (e_cfg e)) (l_logFiles s) vote must (l_executeQ s)) (\<lambda>q.
           let s = s\<lparr>l_executeQ := q\<rparr> in
           Inr (if m_version vote > l_version s then s\<lparr>l_version := m_version vote\<rparr> else s)))"

text \<open>The checkpoint a replica asks for once its log has been switched.\<close>
definition RequestCheckpoint :: "LogFile \<Rightarrow> legislator \<Rightarrow> legislator" where
  "RequestCheckpoint log s =
     (if lf_minDecree log > l_checkpointedDecree s + 1 \<and> \<not> IsCheckpointing s \<and> l_state s \<noteq> Preparing
      then if AmPrimary s \<and> QuorumSize s > 1
           then s\<lparr>l_copyCheckpointAtDecree := lf_minDecree log - 1, l_cpTimeout := 0\<rparr>
           else s\<lparr>l_saveCheckpointAtDecree := lf_minDecree log - 1, l_mustCheckpoint := False\<rparr>
      else s)"

text \<open>Whether LogVote starts a new log file for the vote: the current one is long or old enough.\<close>
definition SwitchLog :: "env \<Rightarrow> lvote \<Rightarrow> legislator \<Rightarrow> bool" where
  "SwitchLog e vote s \<longleftrightarrow>
     (let log = last (l_logFiles s);
          timeBasedCheckpoint = (l_checkpointedDecree s + 1 \<ge> lf_minDecree log \<and>
                                 l_nextCheckpointTime s < e_now e)
      in (lf_dataLen log > l_maxLogLen s \<or> timeBasedCheckpoint) \<and>
         m_decree vote > m_decree (l_maxAcceptedVote s))"

definition LogVote :: "lstep \<Rightarrow> env \<Rightarrow> lvote \<Rightarrow> lstep" where
  "LogVote init e vote s =
     (let acc = l_maxAcceptedVote s in
      if IsSameDecree acc (m_decree vote) (m_ballot vote) then Inr (s\<lparr>l_maxAcceptedVote := vote\<rparr>)
      else bindE (log_assert (IsNextDecree vote (m_decree acc) (m_ballot acc)) ()) (\<lambda>_.
           bindE (log_assert (l_logFiles s \<noteq> []) ()) (\<lambda>_.
           let switch = SwitchLog e vote s in
           bindE (if switch
                  then bindE (log_assert (e_diskOk e) ()) (\<lambda>_.
                         Inr (s\<lparr>l_maxLogLen := e_newLogLen e,
                                l_logNumbers := insort_insert (m_decree vote) (l_logNumbers s)\<rparr>))
                  else Inr s) (\<lambda>s.
           bindE (WriteLog e (VoteMsg vote) s) (\<lambda>s.
           bindE (UpdateDefunctInfo init (m_configurationNumber vote - 1) s) (\<lambda>s.
           let s = (if switch then s\<lparr>l_logFiles := l_logFiles s @ [LogFile_new []]\<rparr> else s);
               s = SetMaxBallot e (m_ballot vote) (s\<lparr>l_maxAcceptedVote := vote\<rparr>)
           in bindE (AddMessageToLog (VoteMsg vote) s) (\<lambda>s.
                Inr (RequestCheckpoint (last (l_logFiles s)) s))))))))"

definition LogPrepare :: "env \<Rightarrow> mid PrepareMsg \<Rightarrow> lstep" where
  "LogPrepare e msg s =
     bindE (log_assert (m_ballot msg \<ge> l_maxBallot s) ()) (\<lambda>_.
     if m_ballot msg = l_maxBallot s then Inr s
     else bindE (log_assert (l_logFiles s \<noteq> []) ()) (\<lambda>_.
          bindE (WriteLog e (PrepareM msg) s) (\<lambda>s.
            AddMessageToLog (PrepareM msg) (SetMaxBallot e (m_ballot msg) s))))"

definition SwitchToPaxosInactiveState :: "legislator \<Rightarrow> legislator" where
  "SwitchToPaxosInactiveState s =
     (if l_state s = PaxosInactive then s
      else s\<lparr>l_state := PaxosInactive, l_statusMap := sm_Clear (l_statusMap s), l_responseMap := [],
             l_nextElectionTime := I64_MAX, l_actionTimeout := I64_MAX\<rparr>)"

text \<open>The replicas of a configuration, other than this one, with their addresses resolved.\<close>
definition new_replicas :: "env \<Rightarrow> mid \<Rightarrow> MemberSet \<Rightarrow> Replica list" where
  "new_replicas e self ms =
     map (\<lambda>node. let r = Replica_new node in
            case e_ResolveNode e (r_node r) of (ok, node') \<Rightarrow>
            (r\<lparr>r_node := node'\<rparr>)\<lparr>r_needsResolve := \<not> ok\<rparr>)
       [node \<leftarrow> ms_members ms. node_mid node \<noteq> self]"

definition ChangePaxosConfiguration :: "lstep \<Rightarrow> env \<Rightarrow> ConfigurationInfo \<Rightarrow> lstep" where
  "ChangePaxosConfiguration init e configuration s =
     bindE (Vote_empty (l_version s) (l_memberId s) (ci_initialDecree configuration) 0 NoBallot
              (l_primaryCookie s) False) (\<lambda>vote.
     let s = s\<lparr>l_paxosConfiguration := configuration, l_maxSeenBallot := NoBallot,
               l_maxBallot := BallotNumber (m_ballotId (l_maxBallot s) + 1) (Mid []),
               l_maxAcceptedVote := vote, l_lastTimeJoinMessagesSent := 0\<rparr>;
         inConfiguration = ms_includes (l_memberId s) (ci_memberSet configuration);
         s = s\<lparr>l_replicas := new_replicas e (l_memberId s) (ci_memberSet configuration)\<rparr>
     in bindE (vq_Clear (l_voteCache s)) (\<lambda>cache.
        let s = s\<lparr>l_voteCache := cache, l_recvMsgQ := []\<rparr>
        in if \<not> inConfiguration then Inr (SwitchToPaxosInactiveState s) else init s))"

definition LogReconfigurationDecision :: "lstep \<Rightarrow> env \<Rightarrow> mid Message \<Rightarrow> lstep" where
  "LogReconfigurationDecision init e decision s =
     (let acc = l_maxAcceptedVote s in
      if m_decree decision \<noteq> m_decree acc \<or> m_ballot decision \<noteq> m_ballot acc then Inr s
      else bindE (log_assert (m_configurationNumber decision = PaxosConfiguration s) ()) (\<lambda>_.
           bindE (log_assert (lv_isReconfiguration acc) ()) (\<lambda>_.
           case lv_members acc of
             None \<Rightarrow> Inl OutOfBounds
           | Some members \<Rightarrow>
               let newConfiguration = \<lparr>ci_configurationNumber = PaxosConfiguration s + 1,
                     ci_initialDecree = m_decree acc + 1, ci_memberSet = members\<rparr> in
               bindE (log_assert (l_logFiles s \<noteq> []) ()) (\<lambda>_.
               bindE (WriteLog e (PlainMsg decision) s) (\<lambda>s.
               bindE (AddToExecutionQueue e acc s) (\<lambda>s.
               bindE (AddMessageToLog (PlainMsg decision) s) (\<lambda>s.
                 ChangePaxosConfiguration init e newConfiguration s)))))))"

text \<open>A vote for the next decree says that the decree before it has passed.\<close>
definition PassAccepted :: "env \<Rightarrow> lvote \<Rightarrow> lstep" where
  "PassAccepted e vote s =
     (if m_decree vote = m_decree (l_maxAcceptedVote s) + 1
      then bindE (log_assert (m_ballot vote \<noteq> NoBallot) ()) (\<lambda>_.
           bindE (AddToExecutionQueue e (l_maxAcceptedVote s) s) (\<lambda>s.
           let receivedAt = (if lv_receivedAt vote = 0 then e_now e else lv_receivedAt vote)
           in Inr (s\<lparr>l_nextElectionTime :=
                 (if m_ballotMember (l_maxBallot s) = l_memberId s
                  then receivedAt + c_HeartBeatInterval (e_cfg e)
                  else receivedAt + l_electionDelay s)\<rparr>)))
      else Inr s)"

definition LogAndAcceptVote :: "lstep \<Rightarrow> env \<Rightarrow> lvote \<Rightarrow> lstep" where
  "LogAndAcceptVote init e vote s =
     bindE (log_assert (IsNextDecree vote (m_decree (l_maxAcceptedVote s)) (m_ballot (l_maxAcceptedVote s))) ()) (\<lambda>_.
     bindE (log_assert (m_configurationNumber vote = PaxosConfiguration s) ()) (\<lambda>_.
     bindE (PassAccepted e vote s) (LogVote init e vote)))"

section \<open>States\<close>

definition StartBeingStableSecondary :: "legislator \<Rightarrow> legislator" where
  "StartBeingStableSecondary s =
     s\<lparr>l_forceReelection := False, l_state := StableSecondary, l_responseMap := [],
       l_actionTimeout := I64_MAX\<rparr>"

definition SendAndLogReconfigurationDecision ::
  "lstep \<Rightarrow> env \<Rightarrow> u64 \<Rightarrow> mid BallotNumber \<Rightarrow> lstep" where
  "SendAndLogReconfigurationDecision init e decree ballot s =
     (let decision = InitMessage (l_version s) Message_ReconfigurationDecision (l_memberId s) decree
            (PaxosConfiguration s) ballot 0
      in LogReconfigurationDecision init e decision (SendRequestToAll e (PlainMsg decision) s))"

text \<open>The vote with the decree, ballot, sender, time and configuration SendNextVote gives it.\<close>
definition stamped :: "env \<Rightarrow> lvote \<Rightarrow> u64 \<Rightarrow> legislator \<Rightarrow> lvote" where
  "stamped e vote decree s = vote\<lparr>m_decree := decree, m_ballot := l_maxBallot s, m_memberId := l_memberId s,
     lv_receivedAt := e_now e, m_configurationNumber := PaxosConfiguration s\<rparr>"

text \<open>The last part of SendNextVote: log the vote, and send it unless this replica is the whole quorum.\<close>
definition propose :: "lstep \<Rightarrow> env \<Rightarrow> lvote \<Rightarrow> lstep" where
  "propose init e vote s =
     (if QuorumSize s > 1
      then bindE (LogVote init e vote (s\<lparr>l_outstandingVote := Some vote,
                    l_actionTimeout := e_now e + HRTIME_SECONDS 1\<rparr>)) (\<lambda>s.
             Inr (SendRequestToAll e (VoteMsg vote) s))
      else if lv_isReconfiguration vote
      then bindE (LogVote init e vote s)
             (SendAndLogReconfigurationDecision init e (m_decree vote) (m_ballot vote))
      else bindE (LogVote init e vote s) (\<lambda>s.
           bindE (AddToExecutionQueue e vote s) (\<lambda>s.
             Inr (s\<lparr>l_actionTimeout := I64_MAX\<rparr>))))"

text \<open>
  SendNextVote.  The vote is a fresh object (a copy of m_oldFreshestVote or a
  vote of m_votesToSend), so the comparison of its address with
  m_maxAcceptedVote always passes.  Its checksum is computed over its buffers.
\<close>
definition SendNextVote :: "lstep \<Rightarrow> env \<Rightarrow> lvote \<Rightarrow> lstep" where
  "SendNextVote init e vote s =
     bindE (log_assert (m_ballotMember (l_maxBallot s) = l_memberId s) ()) (\<lambda>_.
     bindE (log_assert (l_outstandingVote s = None) ()) (\<lambda>_.
     let s = s\<lparr>l_responseMap := []\<rparr>; acc = l_maxAcceptedVote s in
     bindE (if l_maxBallot s = m_ballot acc then Inr (m_decree acc + 1)
            else bindE (log_assert (l_maxBallot s > m_ballot acc) ()) (\<lambda>_. Inr (m_decree acc))) (\<lambda>decree.
     let vote = stamped e vote decree s in
     if l_relinquishPrimary s then Inr s
     else propose init e vote (if GetRelinquishPrimary vote then s\<lparr>l_relinquishPrimary := True\<rparr> else s))))"

definition StartBeingStablePrimary :: "lstep \<Rightarrow> env \<Rightarrow> lstep" where
  "StartBeingStablePrimary init e s =
     bindE (log_assert (l_state s = Preparing \<and> m_ballotMember (l_maxBallot s) = l_memberId s) ()) (\<lambda>_.
     let s = s\<lparr>l_IsTransitioningToPrimary := True, l_forceReelection := False, l_state := StablePrimary,
               l_outstandingVote := None, l_responseMap := []\<rparr> in
     case l_oldFreshestVote s of
       None \<Rightarrow> Inl OutOfBounds
     | Some old \<Rightarrow>
         bindE (Vote_copy (l_version s) old (l_primaryCookie s)) (\<lambda>vote.
         bindE (SendNextVote init e vote s) (\<lambda>s.
           Inr (s\<lparr>l_oldFreshestVote := None\<rparr>))))"

text \<open>StartPreparing once the prepare message has been built.\<close>
definition send_prepare :: "lstep \<Rightarrow> env \<Rightarrow> mid PrepareMsg \<Rightarrow> lstep" where
  "send_prepare init e prepare s =
     (let s = s\<lparr>l_actionTimeout := e_now e + HRTIME_SECONDS 1,
                l_prepareTimeout := e_now e + l_electionDelay s * 30,
                l_responseMap := [], l_oldFreshestVote := Some (l_maxAcceptedVote s),
                l_lastPrepareMsg := Some prepare\<rparr>
      in if QuorumSize s = 1
         then bindE (LogPrepare e prepare s) (StartBeingStablePrimary init e)
         else LogPrepare e prepare (SendRequestToAll e (PrepareM prepare) s))"

definition own_prepare :: "mid BallotNumber \<Rightarrow> legislator \<Rightarrow> mid PrepareMsg" where
  "own_prepare newBallot s =
     (let newBallot = (if newBallot < l_maxSeenBallot s
                       then BallotNumber (m_ballotId (l_maxSeenBallot s) + 1) (m_ballotMember newBallot)
                       else newBallot)
      in Message.extend (InitMessage (l_version s) Message_Prepare (l_memberId s)
           (m_decree (l_maxAcceptedVote s)) (PaxosConfiguration s) newBallot 0)
         (PrepareMsg.fields (l_primaryCookie s)))"

definition StartPreparing :: "lstep \<Rightarrow> env \<Rightarrow> lstep" where
  "StartPreparing init e s =
     (if l_state s = Initializing
      then let s = s\<lparr>l_state := Preparing\<rparr>;
               newBallot = BallotNumber (m_ballotId (l_maxBallot s) + 1) (l_memberId s)
           in send_prepare init e (own_prepare newBallot s) s
      else bindE (log_assert (l_state s = Preparing) ()) (\<lambda>_.
           bindE (log_assert (m_ballotMember (l_maxBallot s) = l_memberId s) ()) (\<lambda>_.
             send_prepare init e (own_prepare (l_maxBallot s) s) s)))"

definition MoveToSecondaryOrPrepare :: "lstep \<Rightarrow> env \<Rightarrow> lstep" where
  "MoveToSecondaryOrPrepare init e s =
     (if e_now e \<ge> l_nextElectionTime s \<or> m_ballotMember (l_maxBallot s) = l_memberId s \<or> l_forceReelection s
      then let canPrepare = (\<not> l_isSavingCheckpoint s);
               s = (if canPrepare \<and> \<not> l_mustCheckpoint s then s\<lparr>l_saveCheckpointAtDecree := 0\<rparr> else s)
           in case e_CanBecomePrimary e of
                Some cookie \<Rightarrow>
                  if canPrepare \<and> IsExecuteQueueReady e s
                  then StartPreparing init e
                         (s\<lparr>l_primaryCookie := (case cookie of None \<Rightarrow> PrimaryCookie_empty | Some c \<Rightarrow> c)\<rparr>)
                  else Inr (StartBeingStableSecondary
                         (s\<lparr>l_nextElectionTime := e_now e + c_HeartBeatInterval (e_cfg e)\<rparr>))
              | None \<Rightarrow> Inr (StartBeingStableSecondary
                         (s\<lparr>l_nextElectionTime := e_now e + c_HeartBeatInterval (e_cfg e)\<rparr>))
      else Inr (StartBeingStableSecondary s))"

fun StartInitializing :: "nat \<Rightarrow> env \<Rightarrow> lstep" where
  "StartInitializing 0 e s = Inl OutOfFuel"
| "StartInitializing (Suc n) e s =
     (let s = s\<lparr>l_state := Initializing, l_responseMap := [], l_statusMap := sm_Clear (l_statusMap s),
                l_actionTimeout := e_now e + c_InitializeRetryInterval (e_cfg e)\<rparr>
      in if QuorumSize s = 1
         then MoveToSecondaryOrPrepare (StartInitializing n e) e (s\<lparr>l_nextElectionTime := 0\<rparr>)
         else Inr (SendRequestToAll e (StatusQuery s) s))"

end
