(* ===== verification/Legis_Checkpoint.thy ===== *)
theory Legis_Checkpoint
  imports Legis_Ops
begin

text \<open>
  Checkpoints of the legislator (legislator.cpp): saving one when the execute
  thread has reached the decree asked for, copying one from a secondary, and
  what is removed once a checkpoint is in place.  The blocks of the file are
  the subject of Checkpoint_Stream; here it is a number in the data directory.
\<close>

definition CleanupLogsAndCheckpoint :: "env \<Rightarrow> lstep" where
  "CleanupLogsAndCheckpoint e s =
     (let checkpoints = l_codexFiles s; logs = l_logNumbers s;
          minDecree = min (l_checkpointedDecree s) (l_lastExecutedDecree s);
          s = s\<lparr>l_logFiles := trim_logs minDecree (l_logFiles s)\<rparr> in
      bindE (log_assert (c_MaxCheckpoints (e_cfg e) > 0 \<and> c_MaxLogs (e_cfg e) > 0) ()) (\<lambda>_.
      let gone = (\<lambda>dead f. f \<in> set dead \<and> e_deleteOk e f);
          s = s\<lparr>l_codexFiles := filter (Not \<circ> gone (old_checkpoints (c_MaxCheckpoints (e_cfg e)) checkpoints)) checkpoints\<rparr> in
      bindE (old_logs (c_MaxLogs (e_cfg e)) checkpoints logs) (\<lambda>dead.
        Inr (s\<lparr>l_logNumbers := filter (Not \<circ> gone dead) logs\<rparr>))))"

text \<open>
  CheckpointDone.  When the move fails the LogAssert tests that the error code
  is an error, which it is, and the checkpoint is recorded all the same.
\<close>
definition CheckpointDone :: "env \<Rightarrow> u64 \<Rightarrow> u64 \<Rightarrow> lstep" where
  "CheckpointDone e decree sz s =
     (let s = (if decree \<notin> set (l_codexFiles s) \<and> e_moveOk e
               then s\<lparr>l_codexFiles := insort decree (l_codexFiles s)\<rparr> else s);
          s = (if decree > l_checkpointedDecree s
               then let s = s\<lparr>l_checkpointSize := sz, l_checkpointedDecree := decree\<rparr>
                    in if l_nextCheckpointTime s \<noteq> I64_MAX
                       then s\<lparr>l_nextCheckpointTime := e_now e + e_checkpointInterval e\<rparr> else s
               else s)
      in CleanupLogsAndCheckpoint e s)"

text \<open>
  SaveCheckpoint.  The checksum of the vote is computed over its buffers, which
  a vote of this model does not have.
\<close>
definition SaveCheckpoint :: "env \<Rightarrow> lvote \<Rightarrow> bool \<Rightarrow> legislator \<Rightarrow> (bool \<times> legislator) res" where
  "SaveCheckpoint e vote saveState s =
     bindE (log_assert (m_decree vote > 0) ()) (\<lambda>_.
     let checkpointDecree = m_decree vote - 1 in
     bindE (log_assert (checkpointDecree = l_lastExecutedDecree s) ()) (\<lambda>_.
     bindE (log_assert (e_diskOk e) ()) (\<lambda>_.
     if saveState \<and> \<not> fst (e_trySaveState e) then Inr (False, s)
     else bindE (CheckpointDone e checkpointDecree (snd (e_trySaveState e)) s) (\<lambda>s.
            Inr (True, s\<lparr>l_calls := l_calls s @ [StateSaved checkpointDecree]\<rparr>)))))"

definition CopyCheckpoint ::
  "env \<Rightarrow> u32 \<Rightarrow> u16 \<Rightarrow> u64 \<Rightarrow> u64 \<Rightarrow> nat option \<Rightarrow> bool \<Rightarrow> legislator \<Rightarrow> (bool \<times> legislator) res" where
  "CopyCheckpoint e ip port checkpointedDecree sz cookie notifyStateMachine s =
     bindE (e_copyCheckpoint e ip port checkpointedDecree sz) (\<lambda>copied.
     if \<not> copied then Inr (False, s)
     else bindE (CheckpointDone e checkpointedDecree sz s) (\<lambda>s.
            Inr (True, if notifyStateMachine
                       then s\<lparr>l_calls := l_calls s @ [StateCopied checkpointedDecree cookie]\<rparr>
                       else s\<lparr>l_checkpointSavedNotification := Some (checkpointedDecree, cookie)\<rparr>)))"

definition CopyCheckpointFromSecondary :: "env \<Rightarrow> u32 \<Rightarrow> u16 \<Rightarrow> u64 \<Rightarrow> u64 \<Rightarrow> lstep" where
  "CopyCheckpointFromSecondary e ip port checkpointDecree checkpointSize s =
     (if l_copyCheckpointAtDecree s \<noteq> 0
      then bindE (CopyCheckpoint e ip port checkpointDecree checkpointSize None False s) (\<lambda>(_, s).
             Inr (s\<lparr>l_copyCheckpointAtDecree := 0\<rparr>))
      else Inr s)"

end
