(* ===== verification/Config.thy ===== *)
theory Config
  imports Legis_Checkpoint
begin

text \<open>
  The parameters of a replica (rslconfig.cpp, RSLConfigParam in rsl.h and rsl.cpp):
  what the application may set, the checks and the units of Init, and Reload, which
  keeps the old parameters when the new ones are refused.  A long long is an integer
  here and the bounds show that nothing overflows; an unsigned int is a word, and two
  of the products do wrap.
\<close>

section \<open>The parameters of the application\<close>

record RSLConfigParam =
  p_newLeaderGracePeriodSec :: int
  p_heartBeatIntervalSec :: int
  p_electionDelaySec :: int
  p_maxElectionRandomizeSec :: int
  p_initializeRetryIntervalSec :: int
  p_prepareRetryIntervalSec :: int
  p_voteRetryIntervalSec :: int
  p_voteMaxOutstandingIntervalSec :: int
  p_cPQueryRetryIntervalSec :: int
  p_maxCheckpointIntervalSec :: int
  p_joinMessagesIntervalSec :: int
  p_maxLogLenMB :: int
  p_sendTimeoutSec :: u32
  p_receiveTimeoutSec :: u32
  p_maxCacheLengthMB :: u32
  p_maxVotesInLog :: u32
  p_maxOutstandingPerReplica :: u32
  p_maxCheckpoints :: u32
  p_maxCheckpointSizeGB :: u32
  p_minCheckpointSpaceFileCount :: u32
  p_maxLogs :: u32
  p_logLenRandomize :: u32
  p_electionRandomize :: u32
  p_fastReadSeqThreshold :: u32
  p_inMemoryExecutionQueueSizeMB :: u32
  p_numReaderThreads :: u32
  p_maxMessageSizeMB :: u32
  p_maxMessageAlertSizeMB :: u32
  p_allowPrimaryPromotionWhileCatchingUp :: bool
  p_workingDir :: string
  p_addMemberIdToWorkingDir :: bool
  p_cancelDiskIo :: bool
  p_useGlobalAcceptMessagesFlag :: bool

definition s_MaxMessageLen :: u32 where "s_MaxMessageLen = 100"

text \<open>The constructor.\<close>
definition RSLConfigParam_new :: RSLConfigParam where
  "RSLConfigParam_new =
     \<lparr>p_newLeaderGracePeriodSec = 15, p_heartBeatIntervalSec = 2, p_electionDelaySec = 10, p_maxElectionRandomizeSec = 1,
      p_initializeRetryIntervalSec = 1, p_prepareRetryIntervalSec = 1, p_voteRetryIntervalSec = 3, p_voteMaxOutstandingIntervalSec = 480,
      p_cPQueryRetryIntervalSec = 5, p_maxCheckpointIntervalSec = 0, p_joinMessagesIntervalSec = 1, p_maxLogLenMB = 100,
      p_sendTimeoutSec = 5, p_receiveTimeoutSec = 5, p_maxCacheLengthMB = 50, p_maxVotesInLog = 10000,
      p_maxOutstandingPerReplica = 10, p_maxCheckpoints = 4, p_maxCheckpointSizeGB = 0, p_minCheckpointSpaceFileCount = 0,
      p_maxLogs = 10, p_logLenRandomize = 20, p_electionRandomize = 10, p_fastReadSeqThreshold = 0,
      p_inMemoryExecutionQueueSizeMB = 0, p_numReaderThreads = 1, p_maxMessageSizeMB = s_MaxMessageLen, p_maxMessageAlertSizeMB = 0,
      p_allowPrimaryPromotionWhileCatchingUp = False, p_workingDir = [], p_addMemberIdToWorkingDir = True, p_cancelDiskIo = True,
      p_useGlobalAcceptMessagesFlag = False\<rparr>"

section \<open>The parameters of the library\<close>

record ConfigParam =
  cf_newLeaderGracePeriod :: int
  cf_heartBeatInterval :: int
  cf_electionDelay :: int
  cf_maxElectionRandomize :: int
  cf_initializeRetryInterval :: int
  cf_prepareRetryInterval :: int
  cf_voteRetryInterval :: int
  cf_voteMaxOutstandingInterval :: int
  cf_cPQueryRetryInterval :: int
  cf_maxCheckpointInterval :: int
  cf_joinMessagesInterval :: int
  cf_maxLogLen :: int
  cf_sendTimeout :: u32
  cf_receiveTimeout :: u32
  cf_maxCacheLength :: u32
  cf_maxVotesInLog :: u32
  cf_maxOutstandingPerReplica :: u32
  cf_maxCheckpoints :: u32
  cf_maxCheckpointSize :: u64
  cf_minCheckpointSpaceFileCount :: u32
  cf_maxLogs :: u32
  cf_logLenRandomize :: u32
  cf_electionRandomize :: u32
  cf_fastReadSeqThreshold :: u32
  cf_inMemoryExecutionQueueSize :: u32
  cf_numReaderThreads :: u32
  cf_maxMessageSize :: u32
  cf_maxMessageAlertSize :: u32
  cf_allowPrimaryPromotionWhileCatchingUp :: bool
  cf_workingDir :: string
  cf_addMemberIdToWorkingDir :: bool
  cf_cancelDiskIo :: bool
  cf_useGlobalAcceptMessagesFlag :: bool

definition INT_MAX :: int where "INT_MAX = 2 ^ 31 - 1"

text \<open>The macros Get and GetMax: the test that a value has to pass.\<close>
definition Get_ok :: "int \<Rightarrow> int \<Rightarrow> int \<Rightarrow> bool" where
  "Get_ok x lo hi \<longleftrightarrow> \<not> (x < lo \<or> x > hi)"

definition GetMax_ok :: "u32 \<Rightarrow> int \<Rightarrow> bool" where
  "GetMax_ok x hi \<longleftrightarrow> \<not> uint x > hi"

text \<open>The checks of Init.\<close>
definition checks_ok :: "RSLConfigParam \<Rightarrow> bool" where
  "checks_ok p \<longleftrightarrow>
     Get_ok (p_newLeaderGracePeriodSec p) 1 3600 \<and> Get_ok (p_heartBeatIntervalSec p) 1 3600 \<and> Get_ok (p_electionDelaySec p) 1 3600 \<and>
     Get_ok (p_maxElectionRandomizeSec p) 0 INT_MAX \<and> Get_ok (p_initializeRetryIntervalSec p) 1 3600 \<and>
     Get_ok (p_prepareRetryIntervalSec p) 1 3600 \<and> Get_ok (p_voteRetryIntervalSec p) 1 3600 \<and>
     Get_ok (p_voteMaxOutstandingIntervalSec p) 1 3600 \<and> Get_ok (p_cPQueryRetryIntervalSec p) 1 3600 \<and>
     Get_ok (p_maxCheckpointIntervalSec p) 0 I64_MAX \<and> Get_ok (p_joinMessagesIntervalSec p) 1 3600 \<and>
     Get_ok (p_maxLogLenMB p) 1 (100 * 1024) \<and> Get_ok (uint (p_sendTimeoutSec p)) 1 3600 \<and> Get_ok (uint (p_receiveTimeoutSec p)) 1 3600 \<and>
     Get_ok (uint (p_maxCacheLengthMB p)) 1 1024 \<and> Get_ok (uint (p_maxVotesInLog p)) 1 INT_MAX \<and>
     Get_ok (uint (p_maxOutstandingPerReplica p)) 1 INT_MAX \<and> Get_ok (uint (p_maxCheckpoints p)) 1 INT_MAX \<and>
     GetMax_ok (p_maxCheckpointSizeGB p) INT_MAX \<and> GetMax_ok (p_minCheckpointSpaceFileCount p) INT_MAX \<and>
     Get_ok (uint (p_maxLogs p)) 1 INT_MAX \<and> GetMax_ok (p_logLenRandomize p) 100 \<and> GetMax_ok (p_electionRandomize p) 100 \<and>
     GetMax_ok (p_fastReadSeqThreshold p) INT_MAX \<and> GetMax_ok (p_inMemoryExecutionQueueSizeMB p) INT_MAX \<and>
     GetMax_ok (p_numReaderThreads p) 100 \<and> Get_ok (uint (p_maxMessageSizeMB p)) 1 INT_MAX \<and> GetMax_ok (p_maxMessageAlertSizeMB p) INT_MAX"

text \<open>The values of Init before they are converted.\<close>
definition take_values :: "RSLConfigParam \<Rightarrow> ConfigParam" where
  "take_values p =
     \<lparr>cf_newLeaderGracePeriod = p_newLeaderGracePeriodSec p, cf_heartBeatInterval = p_heartBeatIntervalSec p,
      cf_electionDelay = p_electionDelaySec p, cf_maxElectionRandomize = p_maxElectionRandomizeSec p,
      cf_initializeRetryInterval = p_initializeRetryIntervalSec p, cf_prepareRetryInterval = p_prepareRetryIntervalSec p,
      cf_voteRetryInterval = p_voteRetryIntervalSec p, cf_voteMaxOutstandingInterval = p_voteMaxOutstandingIntervalSec p,
      cf_cPQueryRetryInterval = p_cPQueryRetryIntervalSec p, cf_maxCheckpointInterval = p_maxCheckpointIntervalSec p,
      cf_joinMessagesInterval = p_joinMessagesIntervalSec p, cf_maxLogLen = p_maxLogLenMB p, cf_sendTimeout = p_sendTimeoutSec p,
      cf_receiveTimeout = p_receiveTimeoutSec p, cf_maxCacheLength = p_maxCacheLengthMB p, cf_maxVotesInLog = p_maxVotesInLog p,
      cf_maxOutstandingPerReplica = p_maxOutstandingPerReplica p, cf_maxCheckpoints = p_maxCheckpoints p,
      cf_maxCheckpointSize = ucast (p_maxCheckpointSizeGB p), cf_minCheckpointSpaceFileCount = p_minCheckpointSpaceFileCount p,
      cf_maxLogs = p_maxLogs p, cf_logLenRandomize = p_logLenRandomize p, cf_electionRandomize = p_electionRandomize p,
      cf_fastReadSeqThreshold = p_fastReadSeqThreshold p, cf_inMemoryExecutionQueueSize = p_inMemoryExecutionQueueSizeMB p,
      cf_numReaderThreads = p_numReaderThreads p, cf_maxMessageSize = p_maxMessageSizeMB p, cf_maxMessageAlertSize = p_maxMessageAlertSizeMB p,
      cf_allowPrimaryPromotionWhileCatchingUp = p_allowPrimaryPromotionWhileCatchingUp p, cf_workingDir = p_workingDir p,
      cf_addMemberIdToWorkingDir = p_addMemberIdToWorkingDir p, cf_cancelDiskIo = p_cancelDiskIo p,
      cf_useGlobalAcceptMessagesFlag = p_useGlobalAcceptMessagesFlag p\<rparr>"

text \<open>Times become microseconds and milliseconds, sizes bytes.  VoteMaxOutstandingInterval stays in seconds.\<close>
definition scale_values :: "ConfigParam \<Rightarrow> ConfigParam" where
  "scale_values c =
     c\<lparr>cf_newLeaderGracePeriod := HRTIME_SECONDS (cf_newLeaderGracePeriod c), cf_heartBeatInterval := HRTIME_SECONDS (cf_heartBeatInterval c),
       cf_electionDelay := HRTIME_SECONDS (cf_electionDelay c), cf_maxElectionRandomize := HRTIME_SECONDS (cf_maxElectionRandomize c),
       cf_initializeRetryInterval := HRTIME_SECONDS (cf_initializeRetryInterval c), cf_prepareRetryInterval := HRTIME_SECONDS (cf_prepareRetryInterval c),
       cf_voteRetryInterval := HRTIME_SECONDS (cf_voteRetryInterval c), cf_cPQueryRetryInterval := HRTIME_SECONDS (cf_cPQueryRetryInterval c),
       cf_maxCheckpointInterval :=
         (if cf_maxCheckpointInterval c > 0 \<and> cf_maxCheckpointInterval c < I64_MAX div HRTIME_SECONDS 1
          then HRTIME_SECONDS (cf_maxCheckpointInterval c) else I64_MAX),
       cf_joinMessagesInterval := HRTIME_SECONDS (cf_joinMessagesInterval c),
       cf_sendTimeout := cf_sendTimeout c * 1000, cf_receiveTimeout := cf_receiveTimeout c * 1000,
       cf_maxCacheLength := cf_maxCacheLength c * (1024 * 1024), cf_maxLogLen := cf_maxLogLen c * (1024 * 1024),
       cf_inMemoryExecutionQueueSize := cf_inMemoryExecutionQueueSize c * (1024 * 1024),
       cf_maxCheckpointSize := cf_maxCheckpointSize c * (1024 * 1024 * 1024),
       cf_maxMessageSize := cf_maxMessageSize c * (1024 * 1024) + 1024,
       cf_maxMessageAlertSize := (if cf_maxMessageAlertSize c > 0 then cf_maxMessageAlertSize c * (1024 * 1024) + 1024 else cf_maxMessageAlertSize c)\<rparr>"

text \<open>
  processors is what GetNativeSystemInfo tells; the working directory is the string up
  to its terminating zero.
\<close>
definition ConfigParam_Init :: "u32 \<Rightarrow> RSLConfigParam \<Rightarrow> ConfigParam option" where
  "ConfigParam_Init processors p =
     (if \<not> checks_ok p \<or> cf_workingDir (take_values p) = [] then None
      else let c = take_values p;
               c = (if cf_inMemoryExecutionQueueSize c = 0 then c\<lparr>cf_inMemoryExecutionQueueSize := cf_maxCacheLength c\<rparr> else c);
               c = (if cf_numReaderThreads c = 0 then c\<lparr>cf_numReaderThreads := processors\<rparr> else c);
               c = (if last (cf_workingDir c) = CHR 0x5C then c\<lparr>cf_workingDir := butlast (cf_workingDir c)\<rparr> else c)
           in Some (scale_values c))"

definition RSLConfig_Reload :: "u32 \<Rightarrow> RSLConfigParam \<Rightarrow> ConfigParam option \<Rightarrow> bool \<times> ConfigParam option" where
  "RSLConfig_Reload processors p cfg =
     (case ConfigParam_Init processors p of None \<Rightarrow> (False, cfg) | Some c \<Rightarrow> (True, Some c))"

definition RSLConfig_ChangeElectionDelay :: "int \<Rightarrow> ConfigParam \<Rightarrow> ConfigParam" where
  "RSLConfig_ChangeElectionDelay delayInSecs c = c\<lparr>cf_electionDelay := HRTIME_SECONDS delayInSecs\<rparr>"


section \<open>What is accepted\<close>




lemma accepted_cases:
  assumes "RSLConfig_Reload processors p cfg = (True, Some c)"
  shows "checks_ok p" "p_workingDir p \<noteq> []"
    "c = scale_values ((take_values p)
      \<lparr>cf_inMemoryExecutionQueueSize := (if p_inMemoryExecutionQueueSizeMB p = 0 then p_maxCacheLengthMB p else p_inMemoryExecutionQueueSizeMB p),
       cf_numReaderThreads := (if p_numReaderThreads p = 0 then processors else p_numReaderThreads p),
       cf_workingDir := (if last (p_workingDir p) = CHR 0x5C then butlast (p_workingDir p) else p_workingDir p)\<rparr>)"
  using assms by (auto simp: RSLConfig_Reload_def ConfigParam_Init_def take_values_def Let_def split: if_splits)

lemmas value_defs = take_values_def scale_values_def HRTIME_SECONDS_def









definition sample_param :: RSLConfigParam where
  "sample_param = RSLConfigParam_new\<lparr>p_workingDir := [CHR ''d'', CHR 0x5C]\<rparr>"

lemma sample_param_ok: "checks_ok sample_param" "cf_workingDir (take_values sample_param) \<noteq> []"
  by (simp_all add: checks_ok_def Get_ok_def GetMax_ok_def sample_param_def RSLConfigParam_new_def INT_MAX_def I64_MAX_def s_MaxMessageLen_def take_values_def)


text \<open>
  C39.  A maximal message size and a size of the execution queue of 4096 megabytes are
  accepted, and become 1024 bytes and 0.
\<close>
theorem message_size_wraps:
  assumes "RSLConfig_Reload processors p cfg = (True, Some c)"
  shows "\<exists>c'. RSLConfig_Reload processors (p\<lparr>p_maxMessageSizeMB := 4096, p_inMemoryExecutionQueueSizeMB := 4096\<rparr>) (Some c) = (True, Some c') \<and>
    cf_maxMessageSize c' = 1024 \<and> cf_inMemoryExecutionQueueSize c' = 0"
proof -
  let ?p = "p\<lparr>p_maxMessageSizeMB := 4096, p_inMemoryExecutionQueueSizeMB := 4096\<rparr>"
  have "checks_ok ?p" "cf_workingDir (take_values ?p) \<noteq> []"
    using accepted_cases(1,2) [OF assms] by (simp_all add: checks_ok_def Get_ok_def GetMax_ok_def INT_MAX_def take_values_def)
  then obtain c' where c': "RSLConfig_Reload processors ?p (Some c) = (True, Some c')" by (simp add: RSLConfig_Reload_def ConfigParam_Init_def Let_def)
  show ?thesis using c' accepted_cases(3) [OF c'] by (simp add: value_defs)
qed

theorem message_size_wraps_witness:
  "\<exists>c'. RSLConfig_Reload 8 (sample_param\<lparr>p_maxMessageSizeMB := 4096, p_inMemoryExecutionQueueSizeMB := 4096\<rparr>) (Some (the (ConfigParam_Init 8 sample_param))) =
      (True, Some c') \<and> cf_maxMessageSize c' = 1024"
proof -
  have "RSLConfig_Reload 8 sample_param None = (True, Some (the (ConfigParam_Init 8 sample_param)))"
    using sample_param_ok by (simp add: RSLConfig_Reload_def ConfigParam_Init_def Let_def)
  from message_size_wraps [OF this] show ?thesis by blast
qed

end
