(* ===== verification/Net_Buffer.thy ===== *)
theory Net_Buffer
  imports Marshal_Laws
begin

text \<open>
  The buffers of the network library (src/src/NetworkLib): the pool that rounds
  sizes to powers of two (BufferPool.cpp) and the circular NetBuffer
  (NetBuffer.cpp) with its subclass NetPoolBuffer (PacketUtil.cpp).  Pointers into
  a buffer are offsets from its start.  The locale byte_queue is what the
  connections expect of a buffer.
\<close>

section \<open>The pool\<close>

record Buffer =
  b_Size :: u32
  b_Memory :: "nat \<Rightarrow> u8"

text \<open>One turn of the loop that looks for the highest bit.\<close>
definition highest_bit_turn :: "u32 \<times> nat \<Rightarrow> u32 \<times> u32 \<Rightarrow> u32 \<times> u32" where
  "highest_bit_turn = (\<lambda>(base, set) (val, highestBitSet).
     if val AND base \<noteq> 0 then (drop_bit set val, highestBitSet OR of_nat set) else (val, highestBitSet))"

definition NextPowerOfTwo :: "u32 \<Rightarrow> u32 res" where
  "NextPowerOfTwo val =
     (if val AND (val - 1) = 0 then Inr val
      else bindE (log_assert (val < push_bit 31 1) ()) (\<lambda>_.
        let (_, highestBitSet) = fold highest_bit_turn [(0xFFFF0000, 16), (0xFF00, 8), (0xF0, 4), (0xC, 2), (0x2, 1)] (val, 0)
        in Inr (push_bit (unat highestBitSet + 1) 1)))"

text \<open>heap is what the allocated memory holds; the allocation itself succeeds.\<close>
definition GetBuffer :: "(nat \<Rightarrow> u8) \<Rightarrow> u32 \<Rightarrow> Buffer res" where
  "GetBuffer heap bufSize =
     bindE (NextPowerOfTwo bufSize) (\<lambda>size.
     bindE (log_assert (size \<ge> bufSize \<and> size < 2 * bufSize) ()) (\<lambda>_.
       Inr \<lparr>b_Size = size, b_Memory = heap\<rparr>))"

section \<open>The circular buffer\<close>

record NetBuffer =
  nb_Buffer :: "nat \<Rightarrow> u8"
  nb_BufSize :: int
  nb_Start :: int
  nb_End :: int
  nb_IsFull :: bool

definition NetBuffer_new :: "(nat \<Rightarrow> u8) \<Rightarrow> int \<Rightarrow> NetBuffer" where
  "NetBuffer_new buffer bufferSize =
     \<lparr>nb_Buffer = buffer, nb_BufSize = bufferSize, nb_Start = 0, nb_End = 0, nb_IsFull = False\<rparr>"

definition nb_IsEmpty :: "NetBuffer \<Rightarrow> bool" where
  "nb_IsEmpty nb \<longleftrightarrow> nb_Start nb = nb_End nb \<and> \<not> nb_IsFull nb"

definition SetBuffer :: "(nat \<Rightarrow> u8) \<Rightarrow> int \<Rightarrow> NetBuffer \<Rightarrow> NetBuffer res" where
  "SetBuffer buf bufferSize nb = log_assert (nb_IsEmpty nb) (NetBuffer_new buf bufferSize)"

definition nb_Clear :: "NetBuffer \<Rightarrow> NetBuffer" where
  "nb_Clear nb = NetBuffer_new (nb_Buffer nb) 0"

definition Consume :: "int \<Rightarrow> NetBuffer \<Rightarrow> NetBuffer res" where
  "Consume bytes nb =
     log_assert (bytes \<ge> 0 \<and> bytes \<le> nb_BufSize nb)
       (let start = nb_Start nb + bytes;
            start = (if start \<ge> nb_BufSize nb then start - nb_BufSize nb else start)
        in nb\<lparr>nb_Start := start, nb_IsFull := (if bytes \<noteq> 0 then False else nb_IsFull nb)\<rparr>)"

definition Fill :: "int \<Rightarrow> NetBuffer \<Rightarrow> NetBuffer res" where
  "Fill bytes nb =
     log_assert (bytes \<ge> 0 \<and> bytes \<le> nb_BufSize nb)
       (let stop = nb_End nb + bytes;
            stop = (if stop \<ge> nb_BufSize nb then stop - nb_BufSize nb else stop)
        in nb\<lparr>nb_End := stop, nb_IsFull := (if bytes \<noteq> 0 \<and> stop = nb_Start nb then True else nb_IsFull nb)\<rparr>)"

definition ReadAvail :: "NetBuffer \<Rightarrow> int" where
  "ReadAvail nb =
     (if nb_IsFull nb then nb_BufSize nb
      else let avail = nb_End nb - nb_Start nb in if avail < 0 then nb_BufSize nb + avail else avail)"

definition WriteAvail :: "NetBuffer \<Rightarrow> int" where
  "WriteAvail nb = nb_BufSize nb - ReadAvail nb"

definition ContiguousReadAvail :: "NetBuffer \<Rightarrow> int res" where
  "ContiguousReadAvail nb =
     (if nb_IsFull nb then log_assert (nb_Start nb = nb_End nb) (nb_BufSize nb - nb_Start nb)
      else if nb_End nb \<ge> nb_Start nb then Inr (nb_End nb - nb_Start nb)
      else Inr (nb_BufSize nb - nb_Start nb))"

definition ContiguousWriteAvail :: "NetBuffer \<Rightarrow> int res" where
  "ContiguousWriteAvail nb =
     (if nb_IsFull nb then log_assert (nb_Start nb = nb_End nb) 0
      else if nb_End nb \<ge> nb_Start nb then Inr (nb_BufSize nb - nb_End nb)
      else Inr (nb_Start nb - nb_End nb))"

text \<open>memcpy from and to the memory of the buffer.\<close>
definition nb_load :: "int \<Rightarrow> int \<Rightarrow> NetBuffer \<Rightarrow> u8 list res" where
  "nb_load off n nb =
     (if 0 \<le> off \<and> 0 \<le> n \<and> off + n \<le> nb_BufSize nb then Inr (map (nb_Buffer nb) [nat off..<nat (off + n)]) else Inl OutOfBounds)"

definition nb_store :: "int \<Rightarrow> u8 list \<Rightarrow> NetBuffer \<Rightarrow> NetBuffer res" where
  "nb_store off bs nb =
     (if 0 \<le> off \<and> off + int (length bs) \<le> nb_BufSize nb then Inr (nb\<lparr>nb_Buffer := blit (nb_Buffer nb) (nat off) bs\<rparr>)
      else Inl OutOfBounds)"

definition CopyFrom :: "u8 list \<Rightarrow> int \<Rightarrow> NetBuffer \<Rightarrow> NetBuffer res" where
  "CopyFrom src offset nb =
     bindE (log_assert (WriteAvail nb \<ge> int (length src) + offset) ()) (\<lambda>_.
     let dest = nb_End nb + offset;
         dest = (if dest \<ge> nb_BufSize nb then dest - nb_BufSize nb else dest);
         avail = nb_BufSize nb - dest
     in if avail \<ge> int (length src) then nb_store dest src nb
        else bindE (nb_store dest (take (nat avail) src) nb) (nb_store 0 (drop (nat avail) src)))"

definition CopyTo :: "int \<Rightarrow> int \<Rightarrow> NetBuffer \<Rightarrow> u8 list res" where
  "CopyTo n offset nb =
     bindE (log_assert (ReadAvail nb \<ge> n + offset) ()) (\<lambda>_.
     let src = nb_Start nb + offset;
         src = (if src \<ge> nb_BufSize nb then src - nb_BufSize nb else src);
         avail = nb_BufSize nb - src
     in if avail \<ge> n then nb_load src n nb
        else bindE (nb_load src avail nb) (\<lambda>xs. bindE (nb_load 0 (n - avail) nb) (\<lambda>ys. Inr (xs @ ys))))"

text \<open>The copy constructor: a new block of the same size that holds the data from its start.\<close>
definition NetBuffer_copy :: "(nat \<Rightarrow> u8) \<Rightarrow> NetBuffer \<Rightarrow> NetBuffer res" where
  "NetBuffer_copy heap buf =
     (let avail = ReadAvail buf in
      bindE (CopyTo avail 0 buf) (\<lambda>bs.
      bindE (nb_store 0 bs (NetBuffer_new heap (nb_BufSize buf))) (Fill avail)))"

text \<open>NetPoolBuffer: the memory comes from a pool buffer.\<close>
definition nb_SetPoolBuffer :: "Buffer \<Rightarrow> NetBuffer \<Rightarrow> NetBuffer res" where
  "nb_SetPoolBuffer buffer nb = SetBuffer (b_Memory buffer) (sint (b_Size buffer)) nb"

section \<open>The queue of bytes\<close>

text \<open>Putting bytes in, and taking some out: by a run of the operations, and what a queue of at most cap bytes gives.\<close>
datatype queue_op = QPut "u8 list" | QTake nat

fun run_ops :: "(u8 list \<Rightarrow> 'q \<Rightarrow> 'q res) \<Rightarrow> (nat \<Rightarrow> 'q \<Rightarrow> u8 list res) \<Rightarrow> (nat \<Rightarrow> 'q \<Rightarrow> 'q res) \<Rightarrow> queue_op list \<Rightarrow> 'q \<Rightarrow> u8 list list res" where
  "run_ops put peek skip [] q = Inr []"
| "run_ops put peek skip (QPut bs # ops) q = bindE (put bs q) (run_ops put peek skip ops)"
| "run_ops put peek skip (QTake n # ops) q =
     bindE (peek n q) (\<lambda>bs. bindE (skip n q) (\<lambda>q. bindE (run_ops put peek skip ops q) (\<lambda>out. Inr (bs # out))))"

fun queue_ops :: "nat \<Rightarrow> queue_op list \<Rightarrow> u8 list \<Rightarrow> u8 list list option" where
  "queue_ops cap [] xs = Some []"
| "queue_ops cap (QPut bs # ops) xs = (if length xs + length bs \<le> cap then queue_ops cap ops (xs @ bs) else None)"
| "queue_ops cap (QTake n # ops) xs = (if n \<le> length xs then map_option ((#) (take n xs)) (queue_ops cap ops (drop n xs)) else None)"

text \<open>What a client relies on: bytes come out as they were put in, and cap of them fit.\<close>
locale byte_queue =
  fixes inv :: "'q \<Rightarrow> bool"
    and contents :: "'q \<Rightarrow> u8 list"
    and cap :: "'q \<Rightarrow> nat"
    and put :: "u8 list \<Rightarrow> 'q \<Rightarrow> 'q res"
    and peek :: "nat \<Rightarrow> 'q \<Rightarrow> u8 list res"
    and skip :: "nat \<Rightarrow> 'q \<Rightarrow> 'q res"
  assumes put_ok: "inv q \<Longrightarrow> length (contents q) + length bs \<le> cap q \<Longrightarrow>
      \<exists>q'. put bs q = Inr q' \<and> inv q' \<and> contents q' = contents q @ bs \<and> cap q' = cap q"
    and peek_ok: "inv q \<Longrightarrow> n \<le> length (contents q) \<Longrightarrow> peek n q = Inr (take n (contents q))"
    and skip_ok: "inv q \<Longrightarrow> n \<le> length (contents q) \<Longrightarrow>
      \<exists>q'. skip n q = Inr q' \<and> inv q' \<and> contents q' = drop n (contents q) \<and> cap q' = cap q"
    and fits: "inv q \<Longrightarrow> length (contents q) \<le> cap q"
begin

lemma run_ops_queue: "inv q \<Longrightarrow> queue_ops (cap q) ops (contents q) = Some out \<Longrightarrow> run_ops put peek skip ops q = Inr out"
proof (induction ops arbitrary: q out)
  case Nil
  then show ?case by simp
next
  case (Cons p ops)
  show ?case
  proof (cases p)
    case (QPut bs)
    then show ?thesis using Cons put_ok [OF Cons.prems(1), of bs] by (auto split: if_splits)
  next
    case (QTake n)
    then show ?thesis using Cons skip_ok [OF Cons.prems(1), of n] by (auto simp: peek_ok split: if_splits)
  qed
qed

end

definition nb_ok :: "NetBuffer \<Rightarrow> bool" where
  "nb_ok nb \<longleftrightarrow> 0 < nb_BufSize nb \<and> 0 \<le> nb_Start nb \<and> nb_Start nb < nb_BufSize nb \<and> 0 \<le> nb_End nb \<and> nb_End nb < nb_BufSize nb \<and>
     (nb_IsFull nb \<longrightarrow> nb_Start nb = nb_End nb)"

definition nb_at :: "NetBuffer \<Rightarrow> int \<Rightarrow> u8" where
  "nb_at nb i = nb_Buffer nb (nat (i mod nb_BufSize nb))"

text \<open>The bytes that can be read.\<close>
definition nb_data :: "NetBuffer \<Rightarrow> u8 list" where
  "nb_data nb = map (\<lambda>i. nb_at nb (nb_Start nb + int i)) [0..<nat (ReadAvail nb)]"

lemma wrap_mod: "0 \<le> i \<Longrightarrow> i < 2 * n \<Longrightarrow> (if i \<ge> n then i - n else i) = i mod n" for i n :: int
  by (auto simp: mod_pos_pos_trivial) (metis (no_types) diff_ge_0_iff_ge mod_pos_pos_trivial minus_mod_self2 less_diff_eq mult_2 diff_less_eq)

lemma nat_ints: "nat (int a + int b) = a + b" "nat (int a - int b) = a - b" "nat (int a + int b - int c) = a + b - c"
    "nat (int a - (int b - int c)) = a + c - b"
  by auto

lemma ReadAvail_bounds:
  assumes "nb_ok nb"
  shows "0 \<le> ReadAvail nb" "ReadAvail nb \<le> nb_BufSize nb" "nb_End nb = (nb_Start nb + ReadAvail nb) mod nb_BufSize nb"
    "nb_IsFull nb \<longleftrightarrow> ReadAvail nb = nb_BufSize nb"
proof -
  let ?n = "nb_BufSize nb"
  show b: "0 \<le> ReadAvail nb" "ReadAvail nb \<le> ?n" using assms by (auto simp: nb_ok_def ReadAvail_def Let_def)
  show "nb_IsFull nb \<longleftrightarrow> ReadAvail nb = ?n" using assms by (auto simp: nb_ok_def ReadAvail_def Let_def)
  have "(nb_Start nb + ReadAvail nb) mod ?n = (if nb_Start nb + ReadAvail nb \<ge> ?n then nb_Start nb + ReadAvail nb - ?n else nb_Start nb + ReadAvail nb)"
    using wrap_mod [of "nb_Start nb + ReadAvail nb" ?n] b assms by (auto simp: nb_ok_def)
  also have "\<dots> = nb_End nb" using assms by (auto simp: nb_ok_def ReadAvail_def Let_def)
  finally show "nb_End nb = (nb_Start nb + ReadAvail nb) mod ?n" by simp
qed

lemma length_nb_data [simp]: "length (nb_data nb) = nat (ReadAvail nb)"
  by (simp add: nb_data_def)

lemma Consume_ok:
  assumes "nb_ok nb" "n \<le> length (nb_data nb)"
  shows "\<exists>nb'. Consume (int n) nb = Inr nb' \<and> nb_ok nb' \<and> nb_data nb' = drop n (nb_data nb) \<and> nb_BufSize nb' = nb_BufSize nb"
proof -
  let ?n = "nb_BufSize nb" let ?s = "(nb_Start nb + int n) mod ?n"
  note b = ReadAvail_bounds [OF assms(1)]
  have le: "int n \<le> ReadAvail nb" using assms(2) b(1) by simp
  have s: "(if nb_Start nb + int n \<ge> ?n then nb_Start nb + int n - ?n else nb_Start nb + int n) = ?s"
    using wrap_mod [of "nb_Start nb + int n" ?n] assms(1) le b by (auto simp: nb_ok_def)
  let ?nb = "nb\<lparr>nb_Start := ?s, nb_IsFull := (if int n \<noteq> 0 then False else nb_IsFull nb)\<rparr>"
  have c: "Consume (int n) nb = Inr ?nb" using le b s by (simp add: Consume_def Let_def)
  have ok: "nb_ok ?nb" using assms(1) by (auto simp: nb_ok_def)
  have ra: "ReadAvail ?nb = ReadAvail nb - int n"
    using assms(1) le b(1,2) unfolding s [symmetric] by (auto simp: nb_ok_def ReadAvail_def Let_def split: if_splits)
  have "nb_data ?nb = drop n (nb_data nb)"
    by (rule nth_equalityI) (use ra le in \<open>auto simp: nb_data_def nb_at_def mod_simps ac_simps\<close>)
  then show ?thesis using c ok by auto
qed

text \<open>Storing behind the data leaves what is there.\<close>
lemma CopyFrom_ok:
  assumes "nb_ok nb" "int (length bs) \<le> WriteAvail nb"
  shows "\<exists>mem. CopyFrom bs 0 nb = Inr (nb\<lparr>nb_Buffer := mem\<rparr>) \<and>
    (\<forall>i < length bs. nb_at (nb\<lparr>nb_Buffer := mem\<rparr>) (nb_End nb + int i) = bs ! i) \<and>
    (\<forall>i < nat (ReadAvail nb). nb_at (nb\<lparr>nb_Buffer := mem\<rparr>) (nb_Start nb + int i) = nb_at nb (nb_Start nb + int i))"
proof -
  let ?n = "nb_BufSize nb" let ?e = "nat (nb_End nb)" let ?a = "nat (?n - nb_End nb)"
  have ok: "0 < ?n" "0 \<le> nb_End nb" "nb_End nb < ?n" "0 \<le> nb_Start nb" "nb_Start nb < ?n" using assms(1) by (auto simp: nb_ok_def)
  define mem where "mem = blit (blit (nb_Buffer nb) ?e (take ?a bs)) 0 (drop ?a bs)"
  have "CopyFrom bs 0 nb = Inr (nb\<lparr>nb_Buffer := mem\<rparr>)"
  proof (cases "?n - nb_End nb \<ge> int (length bs)")
    case True
    then have "take ?a bs = bs" "drop ?a bs = []" by auto
    then show ?thesis using assms(2) ok True by (simp add: CopyFrom_def Let_def nb_store_def mem_def)
  next
    case False
    moreover have "int (length bs) \<le> ?n" using assms(2) ReadAvail_bounds(1) [OF assms(1)] by (simp add: WriteAvail_def)
    ultimately show ?thesis using assms(2) ok by (simp add: CopyFrom_def Let_def nb_store_def mem_def)
  qed
  moreover have "nb_at (nb\<lparr>nb_Buffer := mem\<rparr>) (nb_End nb + int i) = bs ! i" if "i < length bs" for i
  proof -
    have l: "int (length bs) \<le> ?n" using assms(2) ReadAvail_bounds(1) [OF assms(1)] by (simp add: WriteAvail_def)
    then have "(nb_End nb + int i) mod ?n = (if nb_End nb + int i \<ge> ?n then nb_End nb + int i - ?n else nb_End nb + int i)"
      using wrap_mod [of "nb_End nb + int i" ?n] ok that by simp
    moreover obtain e N where "nb_End nb = int e" "?n = int N" using ok by (metis less_imp_le nonneg_int_cases)
    ultimately show ?thesis using that ok l by (auto simp: nb_at_def mem_def blit_def nat_ints)
  qed
  moreover have "nb_at (nb\<lparr>nb_Buffer := mem\<rparr>) (nb_Start nb + int i) = nb_at nb (nb_Start nb + int i)" if "i < nat (ReadAvail nb)" for i
  proof -
    have "int i < ?n" using that ReadAvail_bounds(2) [OF assms(1)] by simp
    then have m: "(nb_Start nb + int i) mod ?n = (if nb_Start nb + int i \<ge> ?n then nb_Start nb + int i - ?n else nb_Start nb + int i)"
      using wrap_mod [of "nb_Start nb + int i" ?n] ok by simp
    obtain e st N where n: "nb_End nb = int e" "nb_Start nb = int st" "?n = int N" using ok by (metis less_imp_le nonneg_int_cases)
    have "nb_at (nb\<lparr>nb_Buffer := mem\<rparr>) (nb_Start nb + int i) = mem (if st + i \<ge> N then st + i - N else st + i)"
      "nb_at nb (nb_Start nb + int i) = nb_Buffer nb (if st + i \<ge> N then st + i - N else st + i)"
      using m n by (auto simp: nb_at_def nat_ints)
    then show ?thesis using that ok assms n
      by (auto simp: mem_def blit_def nb_ok_def WriteAvail_def ReadAvail_def Let_def nat_ints split: if_splits)
  qed
  ultimately show ?thesis by blast
qed

definition nb_put :: "u8 list \<Rightarrow> NetBuffer \<Rightarrow> NetBuffer res" where
  "nb_put bs nb = bindE (CopyFrom bs 0 nb) (Fill (int (length bs)))"

lemma Fill_ok:
  assumes "nb_ok nb" "0 \<le> n" "n \<le> WriteAvail nb"
  obtains nb' where "Fill n nb = Inr nb'" "nb_ok nb'" "ReadAvail nb' = ReadAvail nb + n" "nb_Start nb' = nb_Start nb"
    "nb_BufSize nb' = nb_BufSize nb" "nb_Buffer nb' = nb_Buffer nb"
proof -
  let ?e = "if nb_End nb + n \<ge> nb_BufSize nb then nb_End nb + n - nb_BufSize nb else nb_End nb + n"
  let ?nb = "nb\<lparr>nb_End := ?e, nb_IsFull := (if n \<noteq> 0 \<and> ?e = nb_Start nb then True else nb_IsFull nb)\<rparr>"
  have le: "n \<le> nb_BufSize nb" using assms ReadAvail_bounds(1) [OF assms(1)] by (simp add: WriteAvail_def)
  then have 1: "Fill n nb = Inr ?nb" using assms(2) by (simp add: Fill_def Let_def)
  have 2: "nb_ok ?nb" using assms le by (auto simp: nb_ok_def WriteAvail_def ReadAvail_def Let_def split: if_splits)
  have 3: "ReadAvail ?nb = ReadAvail nb + n" using assms le by (auto simp: nb_ok_def WriteAvail_def ReadAvail_def Let_def split: if_splits)
  show ?thesis by (rule that [OF 1 2 3]) simp_all
qed

lemma nb_put_ok:
  assumes "nb_ok nb" "length (nb_data nb) + length bs \<le> nat (nb_BufSize nb)"
  shows "\<exists>nb'. nb_put bs nb = Inr nb' \<and> nb_ok nb' \<and> nb_data nb' = nb_data nb @ bs \<and> nb_BufSize nb' = nb_BufSize nb"
proof -
  note b = ReadAvail_bounds [OF assms(1)]
  have w: "int (length bs) \<le> WriteAvail nb" using assms b by (auto simp: WriteAvail_def nb_ok_def)
  obtain mem where mem: "CopyFrom bs 0 nb = Inr (nb\<lparr>nb_Buffer := mem\<rparr>)"
      "\<And>i. i < length bs \<Longrightarrow> nb_at (nb\<lparr>nb_Buffer := mem\<rparr>) (nb_End nb + int i) = bs ! i"
      "\<And>i. i < nat (ReadAvail nb) \<Longrightarrow> nb_at (nb\<lparr>nb_Buffer := mem\<rparr>) (nb_Start nb + int i) = nb_at nb (nb_Start nb + int i)"
    using CopyFrom_ok [OF assms(1) w] by blast
  let ?m = "nb\<lparr>nb_Buffer := mem\<rparr>"
  have m: "nb_ok ?m" "ReadAvail ?m = ReadAvail nb" "WriteAvail ?m = WriteAvail nb" using assms(1) by (simp_all add: nb_ok_def ReadAvail_def WriteAvail_def Let_def)
  obtain nb' where f: "Fill (int (length bs)) ?m = Inr nb'" "nb_ok nb'" "ReadAvail nb' = ReadAvail nb + int (length bs)"
      "nb_Start nb' = nb_Start nb" "nb_BufSize nb' = nb_BufSize nb" "nb_Buffer nb' = mem"
    using Fill_ok [OF m(1), of "int (length bs)"] w m(2,3) by auto
  have at: "nb_at nb' i = nb_at ?m i" for i using f(5,6) by (simp add: nb_at_def)
  have "nb_data nb' = nb_data nb @ bs"
  proof (rule nth_equalityI)
    show "length (nb_data nb') = length (nb_data nb @ bs)" using f(3) b(1) by simp
    fix i assume i: "i < length (nb_data nb')"
    show "nb_data nb' ! i = (nb_data nb @ bs) ! i"
    proof (cases "i < nat (ReadAvail nb)")
      case True
      then show ?thesis using i mem(3) [of i] at f(4) by (simp add: nb_data_def nth_append)
    next
      case False
      let ?k = "i - nat (ReadAvail nb)"
      have k: "?k < length bs" "int i = ReadAvail nb + int ?k" using False i f(3) b(1) by auto
      have "nb_at ?m (nb_Start nb + int i) = nb_at ?m (nb_End nb + int ?k)"
        unfolding nb_at_def k(2) b(3) by (simp add: mod_simps ac_simps)
      then show ?thesis using False i mem(2) [OF k(1)] at f(4) by (simp add: nb_data_def nth_append)
    qed
  qed
  then show ?thesis using mem(1) f by (simp add: nb_put_def)
qed

lemma CopyTo_ok:
  assumes "nb_ok nb" "n \<le> length (nb_data nb)"
  shows "CopyTo (int n) 0 nb = Inr (take n (nb_data nb))"
proof -
  let ?n = "nb_BufSize nb" let ?s = "nb_Start nb"
  note b = ReadAvail_bounds [OF assms(1)]
  have ok: "0 < ?n" "0 \<le> ?s" "?s < ?n" "int n \<le> ReadAvail nb" using assms b(1) by (auto simp: nb_ok_def)
  have at: "nb_at nb (?s + int i) = nb_Buffer nb (if ?n \<le> ?s + int i then nat (?s + int i - ?n) else nat (?s + int i))" if "i < n" for i
    using wrap_mod [of "?s + int i" ?n] ok b(2) that by (auto simp: nb_at_def split: if_splits)
  obtain st N where st: "?s = int st" "?n = int N" using ok by (metis less_imp_le nonneg_int_cases)
  show ?thesis
  proof (cases "int n \<le> ?n - ?s")
    case True
    then have "CopyTo (int n) 0 nb = Inr (map (nb_Buffer nb) [st..<st + n])"
      using ok st by (simp add: CopyTo_def Let_def nb_load_def nat_ints)
    also have "map (nb_Buffer nb) [st..<st + n] = take n (nb_data nb)"
      by (rule nth_equalityI) (use True ok at st in \<open>auto simp: nb_data_def nat_ints\<close>)
    finally show ?thesis .
  next
    case False
    then have "CopyTo (int n) 0 nb = Inr (map (nb_Buffer nb) [st..<N] @ map (nb_Buffer nb) [0..<n + st - N])"
      using ok b(2) st by (simp add: CopyTo_def Let_def nb_load_def nat_ints)
    also have "map (nb_Buffer nb) [st..<N] @ map (nb_Buffer nb) [0..<n + st - N] = take n (nb_data nb)"
      by (rule nth_equalityI) (use False ok at b(2) st in \<open>auto simp: nb_data_def nth_append nat_ints add.commute\<close>)
    finally show ?thesis .
  qed
qed

interpretation ring: byte_queue nb_ok nb_data "\<lambda>nb. nat (nb_BufSize nb)" nb_put "\<lambda>n. CopyTo (int n) 0" "\<lambda>n. Consume (int n)"
proof (unfold_locales, goal_cases)
  case (1 q bs)
  then show ?case using nb_put_ok by fastforce
next
  case (2 q n)
  then show ?case by (rule CopyTo_ok)
next
  case (3 q n)
  then show ?case using Consume_ok by fastforce
next
  case (4 q)
  then show ?case using ReadAvail_bounds(2) by fastforce
qed

text \<open>
  C14.  The circular buffer is a queue: whatever a client puts in and takes out, as
  long as it neither overfills the buffer nor takes more than there is, comes out
  as from a queue of bytes, at whatever place the buffer wraps around.
\<close>
theorem net_buffer_is_queue:
  assumes "0 < n" "queue_ops (nat n) ops [] = Some out"
  shows "run_ops nb_put (\<lambda>n. CopyTo (int n) 0) (\<lambda>n. Consume (int n)) ops (NetBuffer_new mem n) = Inr out"
proof (rule ring.run_ops_queue)
  show "nb_ok (NetBuffer_new mem n)" using assms(1) by (simp add: nb_ok_def NetBuffer_new_def)
  have "nb_data (NetBuffer_new mem n) = []" by (simp add: nb_data_def ReadAvail_def NetBuffer_new_def)
  then show "queue_ops (nat (nb_BufSize (NetBuffer_new mem n))) ops (nb_data (NetBuffer_new mem n)) = Some out"
    using assms(2) by (simp add: NetBuffer_new_def)
qed

theorem net_buffer_is_queue_witness:
  "run_ops nb_put (\<lambda>n. CopyTo (int n) 0) (\<lambda>n. Consume (int n))
     [QPut [1, 2, 3], QTake 2, QPut [4, 5, 6], QTake 4] (NetBuffer_new (\<lambda>_. 9) 4) = Inr [[1, 2], [3, 4, 5, 6]]"
  by (rule net_buffer_is_queue) (simp_all add: numeral_eq_Suc)

section \<open>Sizes of the pool\<close>

lemma highest_bit_turn_ok:
  assumes "unat val < 2 ^ (2 * s)" "0 < s" "2 * s \<le> 32" "base = push_bit s (mask s)" "0 < unat val"
  obtains val' h' where "highest_bit_turn (base, s) (val, h) = (val', h')" "unat val' < 2 ^ s" "0 < unat val'"
    "(val' = val \<and> h' = h) \<or> (val' = drop_bit s val \<and> h' = h OR of_nat s)"
proof -
  have ud: "unat (drop_bit s val) = unat val div 2 ^ s" unfolding unat_drop_bit_eq by (simp add: drop_bit_eq_div)
  have lt: "unat (drop_bit s val) < 2 ^ s" using assms(1) unfolding ud by (simp add: power_add mult_2 less_mult_imp_div_less)
  have nz: "val AND base \<noteq> 0 \<longleftrightarrow> drop_bit s val \<noteq> 0"
  proof
    assume "drop_bit s val \<noteq> 0"
    then obtain k where k: "bit (drop_bit s val) k" using bit_eq_iff [of "drop_bit s val" 0] by auto
    have "k < s"
    proof (rule ccontr)
      assume "\<not> k < s"
      moreover have "take_bit s (drop_bit s val) = drop_bit s val"
        using lt by (metis take_bit_nat_eq_self unsigned_take_bit_eq unsigned_word_eqI)
      ultimately show False using k by (metis bit_take_bit_iff)
    qed
    then have "bit (val AND base) (s + k)" using k assms(3) unfolding assms(4) by (auto simp: bit_simps)
    then show "val AND base \<noteq> 0" by auto
  next
    assume "val AND base \<noteq> 0"
    then obtain k where "bit (val AND base) k" using bit_eq_iff [of "val AND base" 0] by auto
    then have "bit (drop_bit s val) (k - s)" unfolding assms(4) by (auto simp: bit_simps)
    then show "drop_bit s val \<noteq> 0" by auto
  qed
  show ?thesis
  proof (cases "drop_bit s val = 0")
    case True
    then have "unat val < 2 ^ s" using ud by (metis div_eq_0_iff unat_0 power_not_zero zero_neq_numeral)
    then show ?thesis using that [of val h] nz True assms(5) by (simp add: highest_bit_turn_def)
  next
    case False
    then have "0 < unat (drop_bit s val)" by (simp add: unat_gt_0)
    then show ?thesis using that [of "drop_bit s val" "h OR of_nat s"] nz lt False by (simp add: highest_bit_turn_def)
  qed
qed

text \<open>The loop finds the highest bit.\<close>
lemma highest_bit_ok:
  assumes "val \<noteq> 0"
  obtains v' h where "fold highest_bit_turn [(0xFFFF0000, 16), (0xFF00, 8), (0xF0, 4), (0xC, 2), (0x2, 1)] (val, 0) = (v', h)"
    "2 ^ unat h \<le> unat val" "unat val < 2 ^ (unat h + 1)" "unat h < 32"
proof -
  have b: "unat val < 2 ^ (2 * 16)" "0 < unat val" using unsigned_less [of val, where ?'a = nat] assms by (simp_all add: unat_gt_0)
  have m: "(0xFFFF0000 :: u32) = push_bit 16 (mask 16)" "(0xFF00 :: u32) = push_bit 8 (mask 8)" "(0xF0 :: u32) = push_bit 4 (mask 4)"
    "(0xC :: u32) = push_bit 2 (mask 2)" "(0x2 :: u32) = push_bit 1 (mask 1)"
    by (simp_all add: mask_eq_exp_minus_1 push_bit_eq_mult)
  obtain v1 h1 where 1: "highest_bit_turn (0xFFFF0000, 16) (val, 0) = (v1, h1)" "unat v1 < 2 ^ 16" "0 < unat v1"
      "(v1 = val \<and> h1 = 0) \<or> (v1 = drop_bit 16 val \<and> h1 = 0 OR of_nat 16)"
    by (rule highest_bit_turn_ok [OF b(1) _ _ m(1) b(2)]) auto
  obtain v2 h2 where 2: "highest_bit_turn (0xFF00, 8) (v1, h1) = (v2, h2)" "unat v2 < 2 ^ 8" "0 < unat v2"
      "(v2 = v1 \<and> h2 = h1) \<or> (v2 = drop_bit 8 v1 \<and> h2 = h1 OR of_nat 8)"
    by (rule highest_bit_turn_ok [OF _ _ _ m(2) 1(3)]) (use 1(2) in auto)
  obtain v3 h3 where 3: "highest_bit_turn (0xF0, 4) (v2, h2) = (v3, h3)" "unat v3 < 2 ^ 4" "0 < unat v3"
      "(v3 = v2 \<and> h3 = h2) \<or> (v3 = drop_bit 4 v2 \<and> h3 = h2 OR of_nat 4)"
    by (rule highest_bit_turn_ok [OF _ _ _ m(3) 2(3)]) (use 2(2) in auto)
  obtain v4 h4 where 4: "highest_bit_turn (0xC, 2) (v3, h3) = (v4, h4)" "unat v4 < 2 ^ 2" "0 < unat v4"
      "(v4 = v3 \<and> h4 = h3) \<or> (v4 = drop_bit 2 v3 \<and> h4 = h3 OR of_nat 2)"
    by (rule highest_bit_turn_ok [OF _ _ _ m(4) 3(3)]) (use 3(2) in auto)
  obtain v5 h5 where 5: "highest_bit_turn (0x2, 1) (v4, h4) = (v5, h5)" "unat v5 < 2 ^ 1" "0 < unat v5"
      "(v5 = v4 \<and> h5 = h4) \<or> (v5 = drop_bit 1 v4 \<and> h5 = h4 OR of_nat 1)"
    by (rule highest_bit_turn_ok [OF _ _ _ m(5) 4(3)]) (use 4(2) in auto)
  have s1: "v1 = drop_bit (unat h1) val \<and> h1 \<in> {0, 16}" using 1(4) by (auto simp: drop_bit_drop_bit)
  have s2: "v2 = drop_bit (unat h2) val \<and> h2 \<in> {0, 8, 16, 24}" using 2(4) s1 by (auto simp: drop_bit_drop_bit)
  have s3: "v3 = drop_bit (unat h3) val \<and> h3 \<in> {0, 4, 8, 12, 16, 20, 24, 28}" using 3(4) s2 by (auto simp: drop_bit_drop_bit)
  have s4: "v4 = drop_bit (unat h4) val \<and> h4 \<in> {0, 2, 4, 6, 8, 10, 12, 14, 16, 18, 20, 22, 24, 26, 28, 30}" using 4(4) s3 by (auto simp: drop_bit_drop_bit numeral_2_eq_2 [symmetric] simp del: One_nat_def)
  have s5: "v5 = drop_bit (unat h5) val \<and> h5 \<in> {0, 1, 2, 3, 4, 5, 6, 7, 8, 9, 10, 11, 12, 13, 14, 15, 16, 17, 18, 19, 20, 21, 22, 23, 24, 25, 26, 27, 28, 29, 30, 31}" using 5(4) s4 by (auto simp: drop_bit_drop_bit)
  then have "unat h5 < 32" by auto
  then have "unat val div 2 ^ unat h5 = unat v5" "unat h5 < 32" using s5 unat_drop_bit_eq [of "unat h5" val] by (simp_all add: drop_bit_nat_def)
  moreover have "unat v5 = 1" using 5(2,3) by simp
  ultimately have "unat val div 2 ^ unat h5 = 1" "unat h5 < 32" by simp_all
  then have "2 ^ unat h5 \<le> unat val" "unat val < 2 ^ (unat h5 + 1)" "unat h5 < 32"
    using div_mult_mod_eq [of "unat val" "2 ^ unat h5"] mod_less_divisor [of "2 ^ unat h5" "unat val"] by (simp_all del: mod_less_divisor)
  then show ?thesis using that [of v5 h5] 1(1) 2(1) 3(1) 4(1) 5(1) by simp
qed

lemma highest_bit_least:
  assumes "2 ^ h \<le> unat val" "unat val < 2 ^ (h + 1)" "unat val \<noteq> 2 ^ h"
  shows "val AND (val - 1) \<noteq> (0 :: u32)"
proof -
  have "val \<noteq> 0" using assms(1) by auto
  then have u: "unat (val - 1) = unat val - 1" by (simp add: unat_minus_one)
  have b: "bit w h" if "2 ^ h \<le> unat w" "unat w < 2 ^ (h + 1)" for w :: u32
  proof -
    have "unat w div 2 ^ h = 1" using that by (simp add: div_nat_eqI)
    then have "odd (unat w div 2 ^ h)" by simp
    then show ?thesis by (metis bit_iff_odd bit_unsigned_iff)
  qed
  have "bit (val AND (val - 1)) h" using b [of val] b [of "val - 1"] assms u by (simp add: bit_and_iff)
  then show ?thesis by auto
qed

lemma unat_pow2: "k < 32 \<Longrightarrow> unat (push_bit k 1 :: u32) = 2 ^ k"
proof -
  assume "k < 32"
  then have "(2 :: nat) ^ k < 2 ^ 32" by (intro power_strict_increasing) simp_all
  then have "unat (of_nat (2 ^ k) :: u32) = 2 ^ k" by (simp add: unat_of_nat take_bit_nat_eq_self del: of_nat_power)
  moreover have "push_bit k (1 :: u32) = of_nat (2 ^ k)" by (simp add: push_bit_eq_mult)
  ultimately show ?thesis by simp
qed

lemma unat_double: "unat n < 2 ^ 31 \<Longrightarrow> unat (2 * n) = 2 * unat n" for n :: u32
  by (simp add: unat_word_ariths)

lemma pow2_and: "n AND (n - 1) = 0" if "n = push_bit k (1 :: u32)"
proof -
  have "n - 1 = mask k" using that by (simp add: mask_eq_exp_minus_1 push_bit_eq_mult)
  then show ?thesis using that by (auto intro!: bit_word_eqI simp: bit_simps)
qed

lemma GetBuffer_ok:
  assumes "0 < unat n" "unat n < 2 ^ 31"
  obtains k where "GetBuffer heap n = Inr \<lparr>b_Size = push_bit k 1, b_Memory = heap\<rparr>" "unat n \<le> 2 ^ k" "2 ^ k < 2 * unat n" "k \<le> 31"
proof -
  have nz: "n \<noteq> 0" using assms(1) by auto
  obtain v' h where h: "fold highest_bit_turn [(0xFFFF0000, 16), (0xFF00, 8), (0xF0, 4), (0xC, 2), (0x2, 1)] (n, 0) = (v', h)"
      "2 ^ unat h \<le> unat n" "unat n < 2 ^ (unat h + 1)" "unat h < 32"
    by (rule highest_bit_ok [OF nz])
  have h31: "unat h < 31" using h(2) assms(2) by (meson le_less_trans not_less power_increasing one_le_numeral)
  have pos: "0 < unat n" using assms(1) .
  show ?thesis
  proof (cases "unat n = 2 ^ unat h")
    case True
    then have n: "n = push_bit (unat h) 1" using unat_pow2 [OF h(4)] by (metis word_unat_eq_iff)
    have "n < 2 * n" using assms(2) pos by (simp add: word_less_nat_alt unat_double)
    then have "GetBuffer heap n = Inr \<lparr>b_Size = push_bit (unat h) 1, b_Memory = heap\<rparr>"
      using pow2_and [OF n] n by (simp add: GetBuffer_def NextPowerOfTwo_def)
    then show ?thesis using that [of "unat h"] True h31 pos by simp
  next
    case False
    let ?k = "unat h + 1"
    have "n < push_bit 31 1" using assms(2) unat_pow2 [of 31] by (simp add: word_less_nat_alt)
    moreover have "n \<le> push_bit ?k 1" "push_bit ?k 1 < 2 * n"
      using h(2,3) h31 assms(2) False unat_pow2 [of ?k] by (simp_all add: word_le_nat_alt word_less_nat_alt unat_double)
    ultimately have "GetBuffer heap n = Inr \<lparr>b_Size = push_bit ?k 1, b_Memory = heap\<rparr>"
      using highest_bit_least [OF h(2,3) False] h(1) by (simp add: GetBuffer_def NextPowerOfTwo_def Let_def)
    then show ?thesis using that [of ?k] False h h31 by simp
  qed
qed

lemma GetBuffer_aborts:
  assumes "\<not> (0 < unat n \<and> unat n < 2 ^ 31)"
  shows "GetBuffer heap n = Inl AssertFailed"
proof -
  consider "n = 0" | "2 ^ 31 \<le> unat n" using assms by (auto simp: unat_gt_0)
  then show ?thesis
  proof cases
    case 1
    then show ?thesis by (simp add: GetBuffer_def NextPowerOfTwo_def)
  next
    case 2
    note 3 = 2
    show ?thesis
    proof (cases "unat n = 2 ^ 31")
      case True
      then have n: "n = push_bit 31 1" using unat_pow2 [of 31] by (simp add: word_unat_eq_iff)
      then have "\<not> n < 2 * n" by (simp add: push_bit_eq_mult)
      then show ?thesis using pow2_and [OF n] by (simp add: GetBuffer_def NextPowerOfTwo_def)
    next
      case False
      have "unat n < 2 ^ (31 + 1)" using unsigned_less [of n, where ?'a = nat] by simp
      then have "n AND (n - 1) \<noteq> 0" using highest_bit_least [OF 3 _ False] by simp
      moreover have "\<not> n < push_bit 31 1" using 3 unat_pow2 [of 31] by (simp add: word_less_nat_alt)
      ultimately show ?thesis by (simp add: GetBuffer_def NextPowerOfTwo_def)
    qed
  qed
qed

text \<open>
  C31.  The pool gives a buffer of the least power of two that holds the bytes asked
  for; it aborts for no bytes and for 2^31 or more.
\<close>
theorem pool_buffer_size:
  "if 0 < unat n \<and> unat n < 2 ^ 31
   then \<exists>k. GetBuffer heap n = Inr \<lparr>b_Size = push_bit k 1, b_Memory = heap\<rparr> \<and> unat n \<le> 2 ^ k \<and> 2 ^ k < 2 * unat n \<and> k \<le> 31
   else GetBuffer heap n = Inl AssertFailed"
proof (cases "0 < unat n \<and> unat n < 2 ^ 31")
  case True
  then obtain k where "GetBuffer heap n = Inr \<lparr>b_Size = push_bit k 1, b_Memory = heap\<rparr>" "unat n \<le> 2 ^ k" "2 ^ k < 2 * unat n" "k \<le> 31"
    using GetBuffer_ok [of n heap] by blast
  then show ?thesis using True by (simp only: if_P) blast
next
  case False
  then show ?thesis unfolding if_not_P [OF False] by (rule GetBuffer_aborts)
qed

end
