(* ===== verification/Net_Packet.thy ===== *)
theory Net_Packet
  imports Net_Buffer Fingerprint
begin

text \<open>
  Packets (PacketHdr.h, NetPacket.h, NetPacket.cpp under src/src/NetworkLib): the header
  of twenty bytes, the memory manager that keeps room for it in front of the data,
  and the packet with its checksum.
\<close>

section \<open>The header\<close>

record PacketHdr =
  h_Size :: u32
  h_ProtoVersion :: u32
  h_Xid :: u32
  h_Checksum :: u64

definition SerialLen :: u32 where "SerialLen = 4 * 3 + 8"

text \<open>The constructor of MarshalData around a buffer of the caller.\<close>
definition MarshalData_on :: "(nat \<Rightarrow> u8) \<Rightarrow> u32 \<Rightarrow> marshal_data res" where
  "MarshalData_on buffer bufferLength =
     Attach buffer bufferLength False
       \<lparr>m_memoryManager = FixedMarshalMemoryManager buffer bufferLength, m_selfOwnsMemoryManager = False, m_overshoot = False\<rparr>"

definition PacketHdr_Serialize :: "PacketHdr \<Rightarrow> (nat \<Rightarrow> u8) \<Rightarrow> u32 \<Rightarrow> (nat \<Rightarrow> u8) res" where
  "PacketHdr_Serialize h buffer bufferLength =
     bindE (log_assert (bufferLength \<ge> SerialLen) ()) (\<lambda>_.
     bindE (MarshalData_on buffer bufferLength) (\<lambda>md.
     bindE (SetMarshaledLength 0 md) (\<lambda>md.
     bindE (WriteUInt32 (h_Size h) md) (\<lambda>md.
     bindE (WriteUInt32 (h_ProtoVersion h) md) (\<lambda>md.
     bindE (WriteUInt32 (h_Xid h) md) (\<lambda>md.
     bindE (WriteUInt64 (h_Checksum h) md) (\<lambda>md.
       Inr (m_buffer (m_memoryManager md)))))))))"

definition SetChecksum :: "u64 \<Rightarrow> (nat \<Rightarrow> u8) \<Rightarrow> u32 \<Rightarrow> (nat \<Rightarrow> u8) res" where
  "SetChecksum checksum hdrBuffer bufferLength =
     bindE (log_assert (bufferLength \<ge> SerialLen) ()) (\<lambda>_.
     bindE (MarshalData_on hdrBuffer bufferLength) (\<lambda>md.
     bindE (SetMarshaledLength (4 * 3) md) (\<lambda>md.
     bindE (WriteUInt64 checksum md) (\<lambda>md.
       Inr (m_buffer (m_memoryManager md))))))"

definition PacketHdr_DeSerialize :: "(nat \<Rightarrow> u8) \<Rightarrow> u32 \<Rightarrow> PacketHdr res" where
  "PacketHdr_DeSerialize buffer bufferLength =
     bindE (log_assert (bufferLength \<ge> SerialLen) ()) (\<lambda>_.
     bindE (MarshalData_on buffer bufferLength) (\<lambda>md.
     bindE (SetMarshaledLength bufferLength md) (\<lambda>md.
     bindE (bindR ReadUInt32 (\<lambda>sz. bindR ReadUInt32 (\<lambda>protoVersion. bindR ReadUInt32 (\<lambda>xid. bindR ReadUInt64 (\<lambda>checksum.
              returnR \<lparr>h_Size = sz, h_ProtoVersion = protoVersion, h_Xid = xid, h_Checksum = checksum\<rparr>)))) md) (\<lambda>(h, md).
       case h of None \<Rightarrow> Inl AssertFailed | Some h \<Rightarrow> Inr h))))"

section \<open>The memory manager\<close>

text \<open>The buffers of the header and of the data lie in the pool buffer, at 0 and at SerialLen.\<close>
record PacketMarshalMemoryManager =
  pm_Buffer :: Buffer
  pm_dataBufferLength :: u32
  pm_readPointer :: u32
  pm_validLength :: u32

definition s_DefaultBufferLength :: u32 where "s_DefaultBufferLength = 2"

definition pm_of_buffer :: "Buffer \<Rightarrow> PacketMarshalMemoryManager" where
  "pm_of_buffer b = \<lparr>pm_Buffer = b, pm_dataBufferLength = b_Size b - SerialLen, pm_readPointer = 0, pm_validLength = 0\<rparr>"

definition pm_new :: "(nat \<Rightarrow> u8) \<Rightarrow> u32 \<Rightarrow> PacketMarshalMemoryManager res" where
  "pm_new heap initialBufferLength = bindE (GetBuffer heap (SerialLen + initialBufferLength)) (\<lambda>b. Inr (pm_of_buffer b))"

definition pm_on :: "Buffer \<Rightarrow> PacketMarshalMemoryManager res" where
  "pm_on buffer = log_assert (b_Size buffer \<ge> SerialLen) (pm_of_buffer buffer)"

text \<open>memcpy of the header and the valid data from one pool buffer to another.\<close>
definition copy_packet :: "u32 \<Rightarrow> Buffer \<Rightarrow> Buffer \<Rightarrow> Buffer res" where
  "copy_packet n old new =
     (if n \<le> b_Size old \<and> n \<le> b_Size new
      then Inr (new\<lparr>b_Memory := blit (b_Memory new) 0 (map (b_Memory old) [0..<unat n])\<rparr>) else Inl OutOfBounds)"

definition pm_ResizeBuffer :: "(nat \<Rightarrow> u8) \<Rightarrow> u32 \<Rightarrow> PacketMarshalMemoryManager \<Rightarrow> PacketMarshalMemoryManager res" where
  "pm_ResizeBuffer heap len pm =
     (if len > pm_dataBufferLength pm
      then bindE (GetBuffer heap (SerialLen + len)) (\<lambda>newBuffer.
           bindE (copy_packet (SerialLen + pm_validLength pm) (pm_Buffer pm) newBuffer) (\<lambda>newBuffer.
             Inr (pm\<lparr>pm_Buffer := newBuffer, pm_dataBufferLength := b_Size newBuffer - SerialLen\<rparr>)))
      else Inr pm)"

definition pm_EnsureBuffer :: "(nat \<Rightarrow> u8) \<Rightarrow> u32 \<Rightarrow> u32 \<Rightarrow> PacketMarshalMemoryManager \<Rightarrow> PacketMarshalMemoryManager res" where
  "pm_EnsureBuffer heap writePtr lengthDelta pm =
     (let newLen = writePtr + lengthDelta in
      if newLen > pm_dataBufferLength pm then pm_ResizeBuffer heap newLen pm else Inr pm)"

definition pm_SetReadPointer :: "u32 \<Rightarrow> PacketMarshalMemoryManager \<Rightarrow> PacketMarshalMemoryManager res" where
  "pm_SetReadPointer readPointer pm = log_assert (readPointer \<le> pm_validLength pm) (pm\<lparr>pm_readPointer := readPointer\<rparr>)"

definition pm_SetValidLength :: "u32 \<Rightarrow> PacketMarshalMemoryManager \<Rightarrow> PacketMarshalMemoryManager res" where
  "pm_SetValidLength validLength pm =
     log_assert (validLength \<le> pm_dataBufferLength pm)
       (let pm = pm\<lparr>pm_validLength := validLength\<rparr> in
        if pm_readPointer pm > validLength then pm\<lparr>pm_readPointer := 0\<rparr> else pm)"

text \<open>The result is the old buffer.\<close>
definition pm_SetPoolBuffer :: "Buffer \<Rightarrow> PacketMarshalMemoryManager \<Rightarrow> (Buffer \<times> PacketMarshalMemoryManager) res" where
  "pm_SetPoolBuffer buffer pm =
     log_assert (b_Size buffer \<ge> SerialLen)
       (pm_Buffer pm, pm\<lparr>pm_Buffer := buffer, pm_dataBufferLength := b_Size buffer - SerialLen\<rparr>)"

definition pm_ReleasePoolBuffer :: "(nat \<Rightarrow> u8) \<Rightarrow> PacketMarshalMemoryManager \<Rightarrow> (Buffer \<times> PacketMarshalMemoryManager) res" where
  "pm_ReleasePoolBuffer heap pm = bindE (GetBuffer heap (SerialLen + s_DefaultBufferLength)) (\<lambda>buffer. pm_SetPoolBuffer buffer pm)"

definition pm_Duplicate :: "(nat \<Rightarrow> u8) \<Rightarrow> PacketMarshalMemoryManager \<Rightarrow> (Buffer \<times> PacketMarshalMemoryManager) res" where
  "pm_Duplicate heap pm =
     bindE (GetBuffer heap (b_Size (pm_Buffer pm))) (\<lambda>newBuffer.
     bindE (copy_packet (SerialLen + pm_validLength pm) (pm_Buffer pm) newBuffer) (\<lambda>newBuffer.
       Inr (pm_Buffer pm, pm\<lparr>pm_Buffer := newBuffer, pm_dataBufferLength := b_Size newBuffer - SerialLen\<rparr>)))"

section \<open>The packet\<close>

record Packet =
  pk_Hdr :: PacketHdr
  pk_MemoryManager :: PacketMarshalMemoryManager
  pk_ServerAddr :: "u32 \<times> u16"
  pk_ClientAddr :: "u32 \<times> u16"
  pk_MaxPacketSize :: u32
  pk_MaxPacketAlertSize :: u32

definition MaxNetPacketSize :: u32 where "MaxNetPacketSize = 100 * 1024 * 1024"
definition MaxNetPacketAlertSize :: u32 where "MaxNetPacketAlertSize = 0"

text \<open>The constructor leaves the checksum and the addresses as they are in memory; they are set before they are read.\<close>
definition Packet_new :: "(nat \<Rightarrow> u8) \<Rightarrow> u32 \<Rightarrow> u32 \<Rightarrow> Packet res" where
  "Packet_new heap maxSize maxAlertSize =
     bindE (pm_new heap s_DefaultBufferLength) (\<lambda>pm.
       Inr \<lparr>pk_Hdr = \<lparr>h_Size = 0, h_ProtoVersion = 0, h_Xid = 0, h_Checksum = 0\<rparr>, pk_MemoryManager = pm,
            pk_ServerAddr = (0, 0), pk_ClientAddr = (0, 0),
            pk_MaxPacketSize = (if maxSize \<noteq> 0 then maxSize else MaxNetPacketSize),
            pk_MaxPacketAlertSize = (if maxAlertSize \<noteq> 0 then maxAlertSize else MaxNetPacketAlertSize)\<rparr>)"

definition pk_memory :: "Packet \<Rightarrow> nat \<Rightarrow> u8" where
  "pk_memory p = b_Memory (pm_Buffer (pk_MemoryManager p))"

definition set_memory :: "(nat \<Rightarrow> u8) \<Rightarrow> Packet \<Rightarrow> Packet" where
  "set_memory mem p = p\<lparr>pk_MemoryManager := (pk_MemoryManager p)\<lparr>pm_Buffer := (pm_Buffer (pk_MemoryManager p))\<lparr>b_Memory := mem\<rparr>\<rparr>\<rparr>"

definition GetPacketLength :: "Packet \<Rightarrow> u32" where
  "GetPacketLength p = SerialLen + pm_validLength (pk_MemoryManager p)"

definition Packet_ResizeBuffer :: "(nat \<Rightarrow> u8) \<Rightarrow> u32 \<Rightarrow> Packet \<Rightarrow> Packet res" where
  "Packet_ResizeBuffer heap sz p =
     bindE (log_assert (sz \<ge> SerialLen) ()) (\<lambda>_.
     bindE (pm_ResizeBuffer heap (sz - SerialLen) (pk_MemoryManager p)) (\<lambda>pm. Inr (p\<lparr>pk_MemoryManager := pm\<rparr>)))"

text \<open>The checksum of the packet in its buffer; little and a are the byte order and the address of the buffer.\<close>
definition packet_checksum :: "bool \<Rightarrow> nat \<Rightarrow> Packet \<Rightarrow> u64 res" where
  "packet_checksum little a p =
     (if GetPacketLength p \<le> b_Size (pm_Buffer (pk_MemoryManager p))
      then Inr (CalculateChecksum little a (map (pk_memory p) [0..<unat (GetPacketLength p)])) else Inl OutOfBounds)"

definition Packet_Serialize :: "bool \<Rightarrow> nat \<Rightarrow> Packet \<Rightarrow> Packet res" where
  "Packet_Serialize little a p =
     (let p = p\<lparr>pk_Hdr := (pk_Hdr p)\<lparr>h_Size := SerialLen + pm_validLength (pk_MemoryManager p), h_Checksum := 0\<rparr>\<rparr> in
      bindE (PacketHdr_Serialize (pk_Hdr p) (pk_memory p) SerialLen) (\<lambda>mem.
      let p = set_memory mem p in
      bindE (packet_checksum little a p) (\<lambda>checksum.
      bindE (SetChecksum checksum (pk_memory p) SerialLen) (\<lambda>mem.
        Inr (set_memory mem p)))))"

definition Packet_VerifyChecksum :: "bool \<Rightarrow> nat \<Rightarrow> Packet \<Rightarrow> (bool \<times> Packet) res" where
  "Packet_VerifyChecksum little a p =
     (let rcvdChecksum = h_Checksum (pk_Hdr p) in
      bindE (SetChecksum 0 (pk_memory p) SerialLen) (\<lambda>mem.
      let p = set_memory mem p in
      bindE (packet_checksum little a p) (\<lambda>newChecksum.
        Inr (rcvdChecksum = newChecksum, p))))"

text \<open>A size above the alert size is only logged.\<close>
definition DeSerializeHeader :: "(nat \<Rightarrow> u8) \<Rightarrow> u32 \<Rightarrow> Packet \<Rightarrow> (bool \<times> Packet) res" where
  "DeSerializeHeader buffer bufferLength p =
     bindE (PacketHdr_DeSerialize buffer bufferLength) (\<lambda>h.
       Inr (\<not> (h_Size h < SerialLen \<or> h_Size h > pk_MaxPacketSize p), p\<lparr>pk_Hdr := h\<rparr>))"

definition DeSerializeHeader_nb :: "NetBuffer \<Rightarrow> Packet \<Rightarrow> (bool \<times> Packet) res" where
  "DeSerializeHeader_nb netBuf p =
     bindE (log_assert (ReadAvail netBuf \<ge> sint SerialLen) ()) (\<lambda>_.
     bindE (ContiguousReadAvail netBuf) (\<lambda>avail.
     if avail < sint SerialLen
     then bindE (CopyTo (sint SerialLen) 0 netBuf) (\<lambda>temp. DeSerializeHeader (blit (\<lambda>_. 0) 0 temp) SerialLen p)
     else DeSerializeHeader (\<lambda>i. nb_Buffer netBuf (nat (nb_Start netBuf) + i)) SerialLen p))"

definition Packet_DeSerialize :: "bool \<Rightarrow> nat \<Rightarrow> (nat \<Rightarrow> u8) \<Rightarrow> NetBuffer \<Rightarrow> bool \<Rightarrow> Packet \<Rightarrow> (bool \<times> Packet) res" where
  "Packet_DeSerialize little a heap netBuf ownBuffer p =
     bindE (DeSerializeHeader_nb netBuf p) (\<lambda>(ret, p).
     if \<not> ret then Inr (False, p)
     else bindE (if ownBuffer
                 then bindE (pm_SetPoolBuffer \<lparr>b_Size = word_of_int (nb_BufSize netBuf), b_Memory = nb_Buffer netBuf\<rparr> (pk_MemoryManager p))
                        (\<lambda>(_, pm). Inr pm)
                 else bindE (pm_ResizeBuffer heap (h_Size (pk_Hdr p)) (pk_MemoryManager p)) (\<lambda>pm.
                      bindE (CopyTo (sint (h_Size (pk_Hdr p))) 0 netBuf) (\<lambda>bs.
                        if length bs \<le> unat (b_Size (pm_Buffer pm))
                        then Inr (pm\<lparr>pm_Buffer := (pm_Buffer pm)\<lparr>b_Memory := blit (b_Memory (pm_Buffer pm)) 0 bs\<rparr>\<rparr>)
                        else Inl OutOfBounds))) (\<lambda>pm.
     bindE (pm_SetValidLength (h_Size (pk_Hdr p) - SerialLen) pm) (\<lambda>pm.
     bindE (Packet_VerifyChecksum little a (p\<lparr>pk_MemoryManager := pm\<rparr>)) (\<lambda>(ok, p).
     if ok then Inr (True, p)
     else if ownBuffer
     then bindE (pm_ReleasePoolBuffer heap (pk_MemoryManager p)) (\<lambda>(_, pm). Inr (False, p\<lparr>pk_MemoryManager := pm\<rparr>))
     else Inr (False, p)))))"

section \<open>The header on the wire\<close>

definition hdr_wire :: "PacketHdr \<Rightarrow> u8 list" where
  "hdr_wire h = le_bytes 4 (h_Size h) @ le_bytes 4 (h_ProtoVersion h) @ le_bytes 4 (h_Xid h) @ le_bytes 8 (h_Checksum h)"

lemma length_hdr_wire [simp]: "length (hdr_wire h) = 20"
  by (simp add: hdr_wire_def)

text \<open>The bytes of a packet, with the checksum taken over the packet with a checksum of zero.\<close>
definition packet_hdr :: "u32 \<Rightarrow> u32 \<Rightarrow> u8 list \<Rightarrow> PacketHdr" where
  "packet_hdr proto xid d =
     (let h = \<lparr>h_Size = of_nat (20 + length d), h_ProtoVersion = proto, h_Xid = xid, h_Checksum = 0\<rparr>
      in h\<lparr>h_Checksum := rabin the_poly the_poly (hdr_wire h @ d)\<rparr>)"

definition packet_wire :: "u32 \<Rightarrow> u32 \<Rightarrow> u8 list \<Rightarrow> u8 list" where
  "packet_wire proto xid d = hdr_wire (packet_hdr proto xid d) @ d"

lemma length_packet_wire [simp]: "length (packet_wire proto xid d) = 20 + length d"
  by (simp add: packet_wire_def)

text \<open>A buffer of the caller with n of its bytes marshalled.\<close>
definition raw_md :: "(nat \<Rightarrow> u8) \<Rightarrow> u32 \<Rightarrow> marshal_data" where
  "raw_md mem n = \<lparr>m_memoryManager = (FixedMarshalMemoryManager mem SerialLen)\<lparr>m_validLength := n\<rparr>,
     m_selfOwnsMemoryManager = True, m_overshoot = False\<rparr>"

lemma raw_md_ok:
  assumes "n \<le> SerialLen"
  shows "MarshalData_on mem SerialLen = Inr (raw_md mem SerialLen)" "SetMarshaledLength n (raw_md mem SerialLen) = Inr (raw_md mem n)"
    "md_ok (raw_md mem n)" "\<not> m_overshoot (raw_md mem n)" "md_contents (raw_md mem n) = map mem [0..<unat n]"
    "md_rest (raw_md mem n) = map mem [0..<unat n]" "unat n + k \<le> 20 \<Longrightarrow> md_room k (raw_md mem n)"
    "m_buffer (m_memoryManager (raw_md mem n)) = mem"
proof -
  have "unat n \<le> 20" using assms by (simp add: word_le_nat_alt SerialLen_def)
  then show "md_ok (raw_md mem n)" "unat n + k \<le> 20 \<Longrightarrow> md_room k (raw_md mem n)"
    by (simp_all add: raw_md_def md_ok_def mm_ok_def md_room_def mm_limit_def FixedMarshalMemoryManager_def GetMarshaledLength_def SerialLen_def
        word_le_nat_alt)
qed (use assms in \<open>auto simp: raw_md_def MarshalData_on_def Attach_def SetMarshaledLength_def on_mm_def MM_ResizeBuffer_def Fixed_ResizeBuffer_def
    FixedMarshalMemoryManager_def MM_SetValidLength_def Let_def SerialLen_def md_contents_def md_rest_def mm_contents_def GetReadPointer_def\<close>)

lemma appended_blit:
  assumes "appended bs (raw_md mem n) md'" "unat n + length bs \<le> 20"
  shows "m_buffer (m_memoryManager md') = blit mem (unat n) bs"
proof
  fix k
  have n: "n \<le> SerialLen" using assms(2) by (simp add: word_le_nat_alt SerialLen_def)
  have c: "md_contents md' = map mem [0..<unat n] @ bs" "unat (GetMarshaledLength md') = unat n + length bs"
    using assms(1) raw_md_ok(5) [OF n] appended_length [OF assms(1)] by (auto simp: appended_def raw_md_def GetMarshaledLength_def)
  show "m_buffer (m_memoryManager md') k = blit mem (unat n) bs k"
  proof (cases "k < unat n + length bs")
    case True
    then have "m_buffer (m_memoryManager md') k = md_contents md' ! k"
      using c(2) by (simp add: md_contents_def mm_contents_def GetMarshaledLength_def)
    then show ?thesis using True unfolding c(1) by (auto simp: nth_append blit_def)
  next
    case False
    then show ?thesis using assms(1) c(2) raw_md_ok(8) [OF n] by (auto simp: appended_def blit_def)
  qed
qed

lemma PacketHdr_Serialize_ok: "PacketHdr_Serialize h mem SerialLen = Inr (blit mem 0 (hdr_wire h))"
proof -
  let ?w = "\<lambda>md. bindE (WriteUInt32 (h_Size h) md) (\<lambda>md. bindE (WriteUInt32 (h_ProtoVersion h) md) (\<lambda>md.
     bindE (WriteUInt32 (h_Xid h) md) (WriteUInt64 (h_Checksum h))))"
  have "writes ?w (hdr_wire h)"
    unfolding hdr_wire_def by (intro writes_seq writes_UInt32 writes_UInt64)
  then obtain md' where md': "?w (raw_md mem 0) = Inr md'" "appended (hdr_wire h) (raw_md mem 0) md'"
    using raw_md_ok(3) [of 0 mem] raw_md_ok(7) [of 0 20 mem] unfolding writes_def by (auto simp: SerialLen_def)
  then have "PacketHdr_Serialize h mem SerialLen = Inr (m_buffer (m_memoryManager md'))"
    using raw_md_ok(1,2) [of 0 mem] by (simp add: PacketHdr_Serialize_def bindE_assoc) (auto simp: bindE_eq_Inr)
  then show ?thesis using appended_blit [OF md'(2)] by simp
qed

lemma SetChecksum_ok: "SetChecksum c mem SerialLen = Inr (blit mem 12 (le_bytes 8 c))"
proof -
  have n: "(12 :: u32) \<le> SerialLen" by (simp add: SerialLen_def)
  obtain md' where md': "WriteUInt64 c (raw_md mem 12) = Inr md'" "appended (le_bytes 8 c) (raw_md mem 12) md'"
    using writes_UInt64 [of c] raw_md_ok(3) [OF n, of mem] raw_md_ok(7) [OF n, of 8 mem] unfolding writes_def by auto
  then have "SetChecksum c mem SerialLen = Inr (m_buffer (m_memoryManager md'))"
    using raw_md_ok(1,2) [OF n, of mem] by (simp add: SetChecksum_def)
  then show ?thesis using appended_blit [OF md'(2)] by simp
qed

lemma PacketHdr_DeSerialize_ok:
  assumes "map mem [0..<20] = hdr_wire h"
  shows "PacketHdr_DeSerialize mem SerialLen = Inr h"
proof -
  let ?r = "bindR ReadUInt32 (\<lambda>sz. bindR ReadUInt32 (\<lambda>protoVersion. bindR ReadUInt32 (\<lambda>xid. bindR ReadUInt64 (\<lambda>checksum.
              returnR \<lparr>h_Size = sz, h_ProtoVersion = protoVersion, h_Xid = xid, h_Checksum = checksum\<rparr>))))"
  have "reads ?r (hdr_wire h) h"
    unfolding hdr_wire_def
    by (rule reads_bind [OF reads_UInt32], rule reads_bind [OF reads_UInt32], rule reads_bind [OF reads_UInt32],
        rule reads_bind_return [OF reads_UInt64]) simp
  moreover have "md_rest (raw_md mem SerialLen) = hdr_wire h @ []" using raw_md_ok(6) [of SerialLen mem] assms by (simp add: SerialLen_def)
  ultimately have "?r (raw_md mem SerialLen) = Inr (Some h, advance 20 (raw_md mem SerialLen))"
    using readsD [of ?r "hdr_wire h" h "raw_md mem SerialLen" "[]"] raw_md_ok(3,4) [of SerialLen mem] by simp
  then show ?thesis using raw_md_ok(1,2) [of SerialLen mem] by (simp add: PacketHdr_DeSerialize_def)
qed

section \<open>Packets on the wire\<close>

lemma map_blit:
  "off + length bs \<le> n \<Longrightarrow> map (blit mem off bs) [0..<n] = map mem [0..<off] @ bs @ map mem [off + length bs..<n]"
  by (rule nth_equalityI) (auto simp: nth_append blit_def)

text \<open>Writing the checksum changes nothing else of the header.\<close>
lemma map_checksum:
  assumes "map mem [0..<20 + n] = hdr_wire h @ d"
  shows "map (blit mem 12 (le_bytes 8 c)) [0..<20 + n] = hdr_wire (h\<lparr>h_Checksum := c\<rparr>) @ d"
proof -
  have "map mem [0..<12] = take 12 (hdr_wire h @ d)" using arg_cong [OF assms, of "take 12"] by (simp add: take_map)
  moreover have "map mem [20..<20 + n] = drop 20 (hdr_wire h @ d)" using arg_cong [OF assms, of "drop 20"] by (simp add: drop_map)
  ultimately have "map mem [0..<12] = le_bytes 4 (h_Size h) @ le_bytes 4 (h_ProtoVersion h) @ le_bytes 4 (h_Xid h)" "map mem [20..<20 + n] = d"
    by (simp_all add: hdr_wire_def)
  then show ?thesis using map_blit [of 12 "le_bytes 8 c" "20 + n" mem] by (simp add: hdr_wire_def)
qed

definition pm_ok :: "PacketMarshalMemoryManager \<Rightarrow> bool" where
  "pm_ok pm \<longleftrightarrow> 20 \<le> unat (b_Size (pm_Buffer pm)) \<and> pm_dataBufferLength pm = b_Size (pm_Buffer pm) - SerialLen \<and>
     pm_validLength pm \<le> pm_dataBufferLength pm \<and> pm_readPointer pm \<le> pm_validLength pm"

definition pk_data :: "Packet \<Rightarrow> u8 list" where
  "pk_data p = map (pk_memory p) [20..<20 + unat (pm_validLength (pk_MemoryManager p))]"

lemma data_length: "pm_ok pm \<Longrightarrow> unat (pm_dataBufferLength pm) = unat (b_Size (pm_Buffer pm)) - 20"
  by (simp add: pm_ok_def SerialLen_def unat_sub word_le_nat_alt)

lemma packet_length:
  assumes "pm_ok (pk_MemoryManager p)"
  shows "unat (GetPacketLength p) = 20 + unat (pm_validLength (pk_MemoryManager p))"
    "unat (GetPacketLength p) \<le> unat (b_Size (pm_Buffer (pk_MemoryManager p)))"
proof -
  have "unat (pm_validLength (pk_MemoryManager p)) \<le> unat (b_Size (pm_Buffer (pk_MemoryManager p))) - 20" "20 \<le> unat (b_Size (pm_Buffer (pk_MemoryManager p)))"
    using assms data_length [OF assms] by (auto simp: pm_ok_def word_le_nat_alt)
  moreover have "unat (b_Size (pm_Buffer (pk_MemoryManager p))) < 2 ^ 32" using unsigned_less [of "b_Size (pm_Buffer (pk_MemoryManager p))", where ?'a = nat] by simp
  ultimately show "unat (GetPacketLength p) = 20 + unat (pm_validLength (pk_MemoryManager p))"
    "unat (GetPacketLength p) \<le> unat (b_Size (pm_Buffer (pk_MemoryManager p)))"
    using unat_add_no_wrap [of SerialLen "pm_validLength (pk_MemoryManager p)"] by (auto simp: GetPacketLength_def SerialLen_def)
qed

lemma set_memory_simps [simp]:
  "pk_memory (set_memory mem p) = mem" "pk_Hdr (set_memory mem p) = pk_Hdr p" "GetPacketLength (set_memory mem p) = GetPacketLength p"
  "pm_validLength (pk_MemoryManager (set_memory mem p)) = pm_validLength (pk_MemoryManager p)"
  "pm_ok (pk_MemoryManager (set_memory mem p)) = pm_ok (pk_MemoryManager p)"
  "b_Size (pm_Buffer (pk_MemoryManager (set_memory mem p))) = b_Size (pm_Buffer (pk_MemoryManager p))"
  by (simp_all add: set_memory_def pk_memory_def GetPacketLength_def pm_ok_def)

lemma packet_checksum_ok:
  "pm_ok (pk_MemoryManager p) \<Longrightarrow> packet_checksum little a p =
   Inr (rabin the_poly the_poly (map (pk_memory p) [0..<20 + unat (pm_validLength (pk_MemoryManager p))]))"
  using packet_length [of p] by (simp add: packet_checksum_def word_le_nat_alt CalculateChecksum_rabin)

lemma packet_hdr_sum:
  assumes "h = \<lparr>h_Size = of_nat (20 + length d), h_ProtoVersion = proto, h_Xid = xid, h_Checksum = 0\<rparr>"
  shows "h\<lparr>h_Checksum := rabin the_poly the_poly (hdr_wire h @ d)\<rparr> = packet_hdr proto xid d" "(packet_hdr proto xid d)\<lparr>h_Checksum := 0\<rparr> = h"
    "h_Checksum (packet_hdr proto xid d) = rabin the_poly the_poly (hdr_wire h @ d)"
  using assms by (simp_all add: packet_hdr_def Let_def)

lemma Packet_Serialize_ok:
  assumes "pm_ok (pk_MemoryManager p)"
  obtains p' where "Packet_Serialize little a p = Inr p'" "pm_ok (pk_MemoryManager p')" "pk_data p' = pk_data p"
    "unat (GetPacketLength p') = 20 + length (pk_data p)"
    "map (pk_memory p') [0..<20 + length (pk_data p)] = packet_wire (h_ProtoVersion (pk_Hdr p)) (h_Xid (pk_Hdr p)) (pk_data p)"
    "h_ProtoVersion (pk_Hdr p') = h_ProtoVersion (pk_Hdr p)" "h_Xid (pk_Hdr p') = h_Xid (pk_Hdr p)"
    "b_Size (pm_Buffer (pk_MemoryManager p')) = b_Size (pm_Buffer (pk_MemoryManager p))"
proof -
  let ?v = "pm_validLength (pk_MemoryManager p)" let ?n = "20 + unat ?v"
  let ?h = "(pk_Hdr p)\<lparr>h_Size := SerialLen + ?v, h_Checksum := 0\<rparr>"
  let ?p1 = "p\<lparr>pk_Hdr := ?h\<rparr>" let ?m1 = "blit (pk_memory p) 0 (hdr_wire ?h)"
  have ld: "length (pk_data p) = unat ?v" by (simp add: pk_data_def)
  have h: "?h = \<lparr>h_Size = of_nat (20 + length (pk_data p)), h_ProtoVersion = h_ProtoVersion (pk_Hdr p), h_Xid = h_Xid (pk_Hdr p), h_Checksum = 0\<rparr>"
    unfolding ld by (cases "pk_Hdr p") (simp add: SerialLen_def)
  have m1: "map ?m1 [0..<?n] = hdr_wire ?h @ pk_data p"
    using map_blit [of 0 "hdr_wire ?h" ?n "pk_memory p"] by (simp add: pk_data_def)
  let ?c = "rabin the_poly the_poly (hdr_wire ?h @ pk_data p)" let ?m2 = "blit ?m1 12 (le_bytes 8 ?c)"
  have m2: "map ?m2 [0..<?n] = packet_wire (h_ProtoVersion (pk_Hdr p)) (h_Xid (pk_Hdr p)) (pk_data p)"
    using map_checksum [OF m1, of ?c] packet_hdr_sum(1) [OF h] by (simp add: packet_wire_def)
  let ?p2 = "set_memory ?m2 (set_memory ?m1 ?p1)"
  have pm: "pk_memory ?p1 = pk_memory p" "pm_ok (pk_MemoryManager ?p1)" using assms by (simp_all add: pk_memory_def)
  have "packet_checksum little a (set_memory ?m1 ?p1) = Inr ?c"
    using packet_checksum_ok [of "set_memory ?m1 ?p1" little a] pm m1 by simp
  then have "Packet_Serialize little a p = Inr ?p2"
    using PacketHdr_Serialize_ok [of ?h "pk_memory p"] SetChecksum_ok [of ?c ?m1] pm(1)
    by (simp add: Packet_Serialize_def Let_def)
  moreover have "pm_ok (pk_MemoryManager ?p2)" using assms by simp
  moreover have "pk_data ?p2 = pk_data p"
  proof -
    have "[0..<?n] = [0..<20] @ [20..<?n]" using upt_add_eq_append [of 0 20 "unat ?v"] by simp
    then have "map ?m2 [0..<20] @ map ?m2 [20..<?n] = hdr_wire (packet_hdr (h_ProtoVersion (pk_Hdr p)) (h_Xid (pk_Hdr p)) (pk_data p)) @ pk_data p"
      using m2 unfolding packet_wire_def by (metis map_append)
    then have "map ?m2 [20..<?n] = pk_data p" by (simp add: append_eq_append_conv)
    then show ?thesis by (simp add: pk_data_def)
  qed
  moreover have "unat (GetPacketLength ?p2) = 20 + length (pk_data p)" using packet_length [OF assms] ld by (simp add: GetPacketLength_def)
  ultimately show ?thesis using that m2 ld by simp
qed

lemma ContiguousReadAvail_ok:
  assumes "nb_ok nb"
  obtains k where "ContiguousReadAvail nb = Inr (int k)" "k \<le> length (nb_data nb)"
    "\<forall>i < k. nb_data nb ! i = nb_Buffer nb (nat (nb_Start nb) + i)"
proof -
  let ?k = "nat (if nb_IsFull nb \<or> nb_End nb < nb_Start nb then nb_BufSize nb - nb_Start nb else nb_End nb - nb_Start nb)"
  have 1: "ContiguousReadAvail nb = Inr (int ?k)" using assms by (auto simp: ContiguousReadAvail_def nb_ok_def)
  have 2: "?k \<le> length (nb_data nb)" using assms by (auto simp: nb_ok_def ReadAvail_def Let_def)
  have "nb_data nb ! i = nb_Buffer nb (nat (nb_Start nb) + i)" if "i < ?k" for i
  proof -
    have "i < length (nb_data nb)" "nb_Start nb + int i < nb_BufSize nb" "0 \<le> nb_Start nb"
      using that 2 assms by (auto simp: nb_ok_def split: if_splits)
    then show ?thesis by (simp add: nb_data_def nb_at_def nat_add_distrib)
  qed
  then show ?thesis using that [OF 1 2] by blast
qed

lemma DeSerializeHeader_ok:
  assumes "map mem [0..<20] = hdr_wire h"
  shows "DeSerializeHeader mem SerialLen p = Inr (\<not> (h_Size h < SerialLen \<or> h_Size h > pk_MaxPacketSize p), p\<lparr>pk_Hdr := h\<rparr>)"
  using PacketHdr_DeSerialize_ok [OF assms] by (simp add: DeSerializeHeader_def)

lemma DeSerializeHeader_nb_ok:
  assumes "nb_ok nb" "nb_data nb = hdr_wire h @ rest"
  shows "DeSerializeHeader_nb nb p = Inr (\<not> (h_Size h < SerialLen \<or> h_Size h > pk_MaxPacketSize p), p\<lparr>pk_Hdr := h\<rparr>)"
proof -
  have l: "20 \<le> length (nb_data nb)" "take 20 (nb_data nb) = hdr_wire h" using assms(2) by simp_all
  have s: "sint SerialLen = 20" "20 \<le> ReadAvail nb" using l(1) by (simp_all add: SerialLen_def)
  obtain k where k: "ContiguousReadAvail nb = Inr (int k)" "k \<le> length (nb_data nb)"
      "\<forall>i < k. nb_data nb ! i = nb_Buffer nb (nat (nb_Start nb) + i)"
    by (rule ContiguousReadAvail_ok [OF assms(1)])
  show ?thesis
  proof (cases "k < 20")
    case True
    have "CopyTo 20 0 nb = Inr (hdr_wire h)" using CopyTo_ok [OF assms(1) l(1)] l(2) by simp
    moreover have "map (blit (\<lambda>_. 0) 0 (hdr_wire h)) [0..<20] = hdr_wire h" using map_blit [of 0 "hdr_wire h" 20 "\<lambda>_. 0"] by simp
    ultimately show ?thesis using k(1) s True DeSerializeHeader_ok by (simp add: DeSerializeHeader_nb_def)
  next
    case False
    have "map (\<lambda>i. nb_Buffer nb (nat (nb_Start nb) + i)) [0..<20] = take 20 (nb_data nb)"
      by (rule nth_equalityI) (use l(1) k(3) False in auto)
    then show ?thesis using k(1) s False l(2) DeSerializeHeader_ok by (simp add: DeSerializeHeader_nb_def)
  qed
qed

lemma VerifyChecksum_ok:
  assumes "pm_ok (pk_MemoryManager p)" "map (pk_memory p) [0..<20 + unat (pm_validLength (pk_MemoryManager p))] = hdr_wire (pk_Hdr p) @ d"
  obtains p' where "Packet_VerifyChecksum little a p =
      Inr (h_Checksum (pk_Hdr p) = rabin the_poly the_poly (hdr_wire ((pk_Hdr p)\<lparr>h_Checksum := 0\<rparr>) @ d), p')"
    "pk_Hdr p' = pk_Hdr p" "pk_data p' = d" "pm_ok (pk_MemoryManager p')"
    "pm_readPointer (pk_MemoryManager p') = pm_readPointer (pk_MemoryManager p)"
proof -
  let ?m = "blit (pk_memory p) 12 (le_bytes 8 (0 :: u64))" let ?p = "set_memory ?m p"
  have m: "map ?m [0..<20 + unat (pm_validLength (pk_MemoryManager p))] = hdr_wire ((pk_Hdr p)\<lparr>h_Checksum := 0\<rparr>) @ d"
    by (rule map_checksum [OF assms(2)])
  have "packet_checksum little a ?p = Inr (rabin the_poly the_poly (hdr_wire ((pk_Hdr p)\<lparr>h_Checksum := 0\<rparr>) @ d))"
    using packet_checksum_ok [of ?p little a] assms(1) m by simp
  then have 1: "Packet_VerifyChecksum little a p =
      Inr (h_Checksum (pk_Hdr p) = rabin the_poly the_poly (hdr_wire ((pk_Hdr p)\<lparr>h_Checksum := 0\<rparr>) @ d), ?p)"
    using SetChecksum_ok [of 0 "pk_memory p"] by (simp add: Packet_VerifyChecksum_def Let_def)
  have "pk_data ?p = d" using arg_cong [OF m, of "drop 20"] by (simp add: pk_data_def drop_map)
  then show ?thesis by (rule that [OF 1, rotated]) (use assms(1) in \<open>auto simp: set_memory_def pm_ok_def\<close>)
qed

lemma pm_ResizeBuffer_ok:
  assumes "pm_ok pm" "unat len + 20 < 2 ^ 31"
  obtains pm' where "pm_ResizeBuffer heap len pm = Inr pm'" "pm_ok pm'" "unat len \<le> unat (pm_dataBufferLength pm')"
    "pm_validLength pm' = pm_validLength pm" "pm_readPointer pm' = pm_readPointer pm"
proof (cases "len > pm_dataBufferLength pm")
  case True
  have u: "unat (SerialLen + len) = 20 + unat len" using unat_add_no_wrap [of SerialLen len] assms(2) by (simp add: SerialLen_def)
  then obtain k where k: "GetBuffer heap (SerialLen + len) = Inr \<lparr>b_Size = push_bit k 1, b_Memory = heap\<rparr>" "20 + unat len \<le> 2 ^ k" "k \<le> 31"
    using GetBuffer_ok [of "SerialLen + len" heap] assms(2) by auto
  let ?n = "SerialLen + pm_validLength pm" let ?s = "push_bit k 1 :: u32"
  have s: "unat ?s = 2 ^ k" using unat_pow2 k(3) by simp
  have v: "unat (pm_validLength pm) \<le> unat (b_Size (pm_Buffer pm)) - 20" "20 \<le> unat (b_Size (pm_Buffer pm))"
    "unat (pm_validLength pm) \<le> unat (pm_dataBufferLength pm)" "unat (pm_dataBufferLength pm) < unat len"
    using assms(1) data_length [OF assms(1)] True by (auto simp: pm_ok_def word_le_nat_alt word_less_nat_alt)
  have n: "unat ?n = 20 + unat (pm_validLength pm)" using unat_add_no_wrap [of SerialLen "pm_validLength pm"] v assms(2) by (simp add: SerialLen_def)
  have "?n \<le> b_Size (pm_Buffer pm)" "?n \<le> ?s" using n s v k(2) by (simp_all add: word_le_nat_alt)
  then have r: "pm_ResizeBuffer heap len pm = Inr (pm\<lparr>pm_Buffer := \<lparr>b_Size = ?s, b_Memory = blit heap 0 (map (b_Memory (pm_Buffer pm)) [0..<unat ?n])\<rparr>,
      pm_dataBufferLength := ?s - SerialLen\<rparr>)"
    using True k(1) by (simp add: pm_ResizeBuffer_def copy_packet_def)
  have d: "unat (?s - SerialLen) = 2 ^ k - 20" using s k(2) by (simp add: unat_sub word_le_nat_alt SerialLen_def)
  show ?thesis by (rule that [OF r]) (use s d k(2) v assms(1) in \<open>auto simp: pm_ok_def word_le_nat_alt\<close>)
next
  case False
  then show ?thesis using that [of pm] assms by (simp add: pm_ResizeBuffer_def word_less_nat_alt)
qed

text \<open>
  DeSerialize of a packet that is complete in the buffer gives its header and data
  and says whether the checksum fits; a buffer of its own starts with the packet.
\<close>
lemma Packet_DeSerialize_ok:
  assumes nb: "nb_ok nb" "nb_data nb = hdr_wire h @ d @ rest" "nb_BufSize nb < 2 ^ 31" "own \<Longrightarrow> nb_Start nb = 0"
    and h: "unat (h_Size h) = 20 + length d" "h_Size h \<le> pk_MaxPacketSize p" "length d < 2 ^ 30"
    and p: "pm_ok (pk_MemoryManager p)"
  obtains p' where "Packet_DeSerialize little a heap nb own p = Inr (h_Checksum h = rabin the_poly the_poly (hdr_wire (h\<lparr>h_Checksum := 0\<rparr>) @ d), p')"
    "pk_Hdr p' = h" "h_Checksum h = rabin the_poly the_poly (hdr_wire (h\<lparr>h_Checksum := 0\<rparr>) @ d) \<longrightarrow> pk_data p' = d"
proof -
  let ?ok = "h_Checksum h = rabin the_poly the_poly (hdr_wire (h\<lparr>h_Checksum := 0\<rparr>) @ d)" let ?p = "p\<lparr>pk_Hdr := h\<rparr>"
  have hs: "DeSerializeHeader_nb nb p = Inr (True, ?p)"
    using DeSerializeHeader_nb_ok [OF nb(1,2), of p] h(1,2) by (auto simp: word_less_nat_alt word_le_nat_alt SerialLen_def)
  have N: "20 + length d \<le> nat (nb_BufSize nb)" using ring.fits [OF nb(1)] nb(2) by simp
  have sl: "unat (h_Size h - SerialLen) = length d" using h(1) by (simp add: unat_sub word_le_nat_alt SerialLen_def)
  define pm where "pm = (if own then bindE (pm_SetPoolBuffer \<lparr>b_Size = word_of_int (nb_BufSize nb), b_Memory = nb_Buffer nb\<rparr> (pk_MemoryManager ?p)) (\<lambda>(_, pm). Inr pm)
     else bindE (pm_ResizeBuffer heap (h_Size (pk_Hdr ?p)) (pk_MemoryManager ?p)) (\<lambda>pm.
          bindE (CopyTo (sint (h_Size (pk_Hdr ?p))) 0 nb) (\<lambda>bs.
            if length bs \<le> unat (b_Size (pm_Buffer pm))
            then Inr (pm\<lparr>pm_Buffer := (pm_Buffer pm)\<lparr>b_Memory := blit (b_Memory (pm_Buffer pm)) 0 bs\<rparr>\<rparr>)
            else Inl OutOfBounds)))"
  obtain pm1 where pm1: "pm = Inr pm1" "20 \<le> unat (b_Size (pm_Buffer pm1))" "pm_dataBufferLength pm1 = b_Size (pm_Buffer pm1) - SerialLen"
      "length d \<le> unat (pm_dataBufferLength pm1)" "map (b_Memory (pm_Buffer pm1)) [0..<20 + length d] = hdr_wire h @ d"
  proof (cases own)
    case True
    have u: "unat (word_of_int (nb_BufSize nb) :: u32) = nat (nb_BufSize nb)"
    proof -
      obtain N where "nb_BufSize nb = int N" using nb(1) by (metis nb_ok_def less_imp_le nonneg_int_cases)
      then show ?thesis using nb(3) by (simp add: unat_of_nat take_bit_nat_eq_self)
    qed
    have len: "20 + length d \<le> length (nb_data nb)" unfolding nb(2) by simp
    have at: "nb_data nb ! i = nb_Buffer nb i" if "i < 20 + length d" for i
      using that len N nb(4) [OF True] by (simp add: nb_data_def nb_at_def)
    have "map (nb_Buffer nb) [0..<20 + length d] = take (20 + length d) (nb_data nb)"
      by (rule nth_equalityI) (use len at in auto)
    then show ?thesis
      by (intro that [of "(pk_MemoryManager p)\<lparr>pm_Buffer := \<lparr>b_Size = word_of_int (nb_BufSize nb), b_Memory = nb_Buffer nb\<rparr>,
          pm_dataBufferLength := word_of_int (nb_BufSize nb) - SerialLen\<rparr>"])
        (use True u N nb(2) in \<open>simp_all add: pm_def pm_SetPoolBuffer_def word_le_nat_alt SerialLen_def unat_sub\<close>)
  next
    case False
    have "unat (h_Size h) + 20 < 2 ^ 31" using h(1,3) by simp
    then obtain q where q: "pm_ResizeBuffer heap (h_Size h) (pk_MemoryManager p) = Inr q" "pm_ok q" "unat (h_Size h) \<le> unat (pm_dataBufferLength q)"
      by (rule pm_ResizeBuffer_ok [OF p])
    have sh: "sint (h_Size h) = int (20 + length d)" using sint_eq_unat [of "h_Size h"] h(1,3) by simp
    have c: "CopyTo (sint (h_Size h)) 0 nb = Inr (hdr_wire h @ d)"
      unfolding sh using CopyTo_ok [OF nb(1), of "20 + length d"] nb(2) by simp
    have sz: "20 + length d \<le> unat (b_Size (pm_Buffer q))" using q(3) data_length [OF q(2)] h(1) by simp
    show ?thesis
      by (rule that [of "q\<lparr>pm_Buffer := (pm_Buffer q)\<lparr>b_Memory := blit (b_Memory (pm_Buffer q)) 0 (hdr_wire h @ d)\<rparr>\<rparr>"])
        (use False q c sz h(1) map_blit [of 0 "hdr_wire h @ d" "20 + length d"] in \<open>simp_all add: pm_def pm_ok_def\<close>)
  qed
  have pmv: "pm_SetValidLength (h_Size h - SerialLen) pm1 =
      Inr (pm1\<lparr>pm_validLength := h_Size h - SerialLen, pm_readPointer := (if pm_readPointer pm1 > h_Size h - SerialLen then 0 else pm_readPointer pm1)\<rparr>)"
    (is "_ = Inr ?pm2") using pm1(4) sl by (auto simp: pm_SetValidLength_def Let_def word_le_nat_alt)
  let ?p2 = "?p\<lparr>pk_MemoryManager := ?pm2\<rparr>"
  have ok2: "pm_ok ?pm2" using pm1 sl by (auto simp: pm_ok_def word_le_nat_alt word_less_nat_alt)
  have m2: "map (pk_memory ?p2) [0..<20 + unat (pm_validLength (pk_MemoryManager ?p2))] = hdr_wire (pk_Hdr ?p2) @ d"
    using pm1(5) sl by (simp add: pk_memory_def)
  obtain p3 where p3: "Packet_VerifyChecksum little a ?p2 = Inr (?ok, p3)" "pk_Hdr p3 = h" "pk_data p3 = d" "pm_ok (pk_MemoryManager p3)"
    using VerifyChecksum_ok [of ?p2 d little a] ok2 m2 by auto
  have D: "Packet_DeSerialize little a heap nb own p =
     (if ?ok then Inr (True, p3)
      else if own then bindE (pm_ReleasePoolBuffer heap (pk_MemoryManager p3)) (\<lambda>(_, pm). Inr (False, p3\<lparr>pk_MemoryManager := pm\<rparr>))
      else Inr (False, p3))"
    using hs pm1(1) pmv p3(1) unfolding Packet_DeSerialize_def pm_def by simp
  have "\<exists>b q. pm_ReleasePoolBuffer heap (pk_MemoryManager p3) = Inr (b, q)"
  proof -
    have "unat (SerialLen + s_DefaultBufferLength) = 22" by (simp add: SerialLen_def s_DefaultBufferLength_def)
    then obtain k where
      k: "GetBuffer heap (SerialLen + s_DefaultBufferLength) = Inr \<lparr>b_Size = push_bit k 1, b_Memory = heap\<rparr>" "(22 :: nat) \<le> 2 ^ k" "k \<le> 31"
      using GetBuffer_ok [of "SerialLen + s_DefaultBufferLength" heap] by auto
    then show ?thesis using unat_pow2 [of k] by (simp add: pm_ReleasePoolBuffer_def pm_SetPoolBuffer_def word_le_nat_alt SerialLen_def)
  qed
  then show ?thesis using that D p3 by (cases ?ok; cases own) auto
qed

end
