(* ===== verification/Net_Cxn.thy ===== *)
theory Net_Cxn
  imports Net_Packet
begin

text \<open>
  Receiving packets: the read side of a connection (NetCxn.cpp, NetVConnection.cpp under
  src/src/NetworkLib).  One asynchronous read at a time is outstanding; when it
  completes, the bytes are in the circular buffer and every packet that is complete
  is handed to the application.  A packet that is larger than the buffer gets a
  buffer of its own.  The locks of the connection are free whenever they are tried.
\<close>

section \<open>The connection\<close>

text \<open>
  What does not change while the connection is open.  ne_connect_closes and ne_closes
  say whether the application closes the connection when it is told that it is
  connected and when it is given a packet; ne_heap is what allocated memory holds.
\<close>
record net_env =
  ne_heap :: "nat \<Rightarrow> u8"
  ne_little :: bool
  ne_address :: nat
  ne_MaxPacketSize :: u32
  ne_MaxPacketAlertSize :: u32
  ne_IsServer :: bool
  ne_Remote :: "u32 \<times> u16"
  ne_Local :: "u32 \<times> u16"
  ne_ReceiveSuspended :: bool
  ne_connect_closes :: bool
  ne_closes :: "Packet \<Rightarrow> bool"

text \<open>
  c_big says that m_NetBuffer holds another buffer than m_InternalReadBuffer.
  c_pending is the outstanding read: whether it goes to such a buffer, where in the
  buffer, and how many bytes were asked for.  c_received are the packets handed to
  the application.  c_Closed also says that m_Vc is the null pointer, and
  c_ReenableReceiveEvent that m_ReenableReceiveEvent is not.
\<close>
record NetCxn =
  c_NetBuffer :: NetBuffer
  c_InternalReadBuffer :: Buffer
  c_big :: bool
  c_Packet :: "Packet option"
  c_NBytes :: int
  c_NDone :: int
  c_pending :: "(bool \<times> int \<times> int) option"
  c_ReceiveSuspended :: bool
  c_Closed :: bool
  c_received :: "Packet list"
  c_ReenableReceiveEvent :: bool

definition MAX_NBYTES :: int where "MAX_NBYTES = 2 ^ 62"
definition NET_IO_BATCH_SIZE :: int where "NET_IO_BATCH_SIZE = 1024 * 1024 * 4"

text \<open>What CloseConnection does to the read side.\<close>
definition CloseConnection :: "NetCxn \<Rightarrow> NetCxn" where
  "CloseConnection c = (let c = c\<lparr>c_ReenableReceiveEvent := False\<rparr> in if c_Closed c then c else c\<lparr>c_Closed := True, c_Packet := None\<rparr>)"

section \<open>Packets\<close>

definition ReadMoreData :: "net_env \<Rightarrow> int \<Rightarrow> NetCxn \<Rightarrow> NetCxn res" where
  "ReadMoreData e totalLength c =
     (let nb = c_NetBuffer c; bytesRead = ReadAvail nb in
      bindE (GetBuffer (ne_heap e) (word_of_int totalLength)) (\<lambda>buffer.
      bindE (CopyTo bytesRead 0 nb) (\<lambda>bs.
      bindE (if length bs \<le> unat (b_Size buffer) then Inr (buffer\<lparr>b_Memory := blit (b_Memory buffer) 0 bs\<rparr>) else Inl OutOfBounds) (\<lambda>buffer.
      bindE (Consume bytesRead nb) (\<lambda>nb.
      bindE (nb_SetPoolBuffer buffer nb) (\<lambda>nb'.
      bindE (Fill bytesRead nb') (\<lambda>nb'.
        Inr (c\<lparr>c_NetBuffer := nb', c_big := True, c_NBytes := c_NDone c + totalLength - bytesRead,
               c_InternalReadBuffer := (c_InternalReadBuffer c)\<lparr>b_Memory := nb_Buffer nb\<rparr>\<rparr>))))))))"

text \<open>The header of the packet that is being read.\<close>
definition read_header :: "net_env \<Rightarrow> NetCxn \<Rightarrow> (bool \<times> Packet) res" where
  "read_header e c =
     (case c_Packet c of
        Some pkt \<Rightarrow> Inr (True, pkt)
      | None \<Rightarrow> bindE (Packet_new (ne_heap e) (ne_MaxPacketSize e) (ne_MaxPacketAlertSize e)) (DeSerializeHeader_nb (c_NetBuffer c)))"

definition set_addresses :: "net_env \<Rightarrow> Packet \<Rightarrow> Packet" where
  "set_addresses e pkt =
     (if ne_IsServer e then pkt\<lparr>pk_ClientAddr := ne_Remote e, pk_ServerAddr := ne_Local e\<rparr>
      else pkt\<lparr>pk_ServerAddr := ne_Remote e, pk_ClientAddr := ne_Local e\<rparr>)"

text \<open>A full packet.  The first result says whether to look for another one.\<close>
definition got_packet :: "net_env \<Rightarrow> bool \<Rightarrow> Packet \<Rightarrow> NetCxn \<Rightarrow> (bool \<times> NetCxn) res" where
  "got_packet e bUsingInternalBuffer pkt c =
     (let packetLength = h_Size (pk_Hdr pkt) in
      bindE (Packet_DeSerialize (ne_little e) (ne_address e) (ne_heap e) (c_NetBuffer c) (\<not> bUsingInternalBuffer) pkt) (\<lambda>(pktValid, pkt).
      if \<not> pktValid then Inr (False, CloseConnection c)
      else bindE (Consume (sint packetLength) (c_NetBuffer c)) (\<lambda>nb.
           bindE (if bUsingInternalBuffer then Inr (c\<lparr>c_NetBuffer := nb\<rparr>)
                  else bindE (nb_SetPoolBuffer (c_InternalReadBuffer c) nb) (\<lambda>nb.
                         Inr (c\<lparr>c_NetBuffer := nb, c_big := False, c_NBytes := MAX_NBYTES\<rparr>))) (\<lambda>c.
           let pkt = set_addresses e pkt; c = c\<lparr>c_Packet := None, c_received := c_received c @ [pkt]\<rparr> in
           if ne_closes e pkt then Inr (False, CloseConnection c)
           else Inr (bUsingInternalBuffer, c)))))"

fun read_loop :: "net_env \<Rightarrow> nat \<Rightarrow> bool \<Rightarrow> NetCxn \<Rightarrow> NetCxn res" where
  "read_loop e k bUsingInternalBuffer c =
     (if ReadAvail (c_NetBuffer c) \<ge> sint SerialLen
      then case k of
             0 \<Rightarrow> Inl OutOfFuel
           | Suc k \<Rightarrow>
               bindE (read_header e c) (\<lambda>(ok, pkt).
               let c = c\<lparr>c_Packet := Some pkt\<rparr>; packetLength = h_Size (pk_Hdr pkt) in
               if \<not> ok then Inr (CloseConnection c)
               else if sint packetLength \<le> ReadAvail (c_NetBuffer c)
               then bindE (got_packet e bUsingInternalBuffer pkt c) (\<lambda>(more, c).
                      if more then read_loop e k bUsingInternalBuffer c else Inr c)
               else if sint packetLength > nb_BufSize (c_NetBuffer c)
               then bindE (log_assert bUsingInternalBuffer ()) (\<lambda>_. ReadMoreData e (sint packetLength) c)
               else Inr c)
      else Inr c)"

declare read_loop.simps [simp del]

definition ReadReadyInternal :: "net_env \<Rightarrow> NetCxn \<Rightarrow> NetCxn res" where
  "ReadReadyInternal e c =
     (if c_ReceiveSuspended c then Inr c
      else read_loop e (nat (ReadAvail (c_NetBuffer c))) (\<not> c_big c) c)"

section \<open>Reads\<close>

text \<open>ScheduleInternal for reads; IOClose has cancelled them when the connection is closed.\<close>
definition ScheduleRead :: "NetCxn \<Rightarrow> NetCxn res" where
  "ScheduleRead c =
     (if c_Closed c \<or> c_pending c \<noteq> None then Inr c
      else bindE (ContiguousWriteAvail (c_NetBuffer c)) (\<lambda>avail.
        let todo = c_NBytes c - c_NDone c in
        if todo = 0 \<or> avail = 0 then Inr c
        else let todo = min (min todo avail) NET_IO_BATCH_SIZE in
             Inr (c\<lparr>c_pending := Some (c_big c, nb_End (c_NetBuffer c), todo)\<rparr>)))"

text \<open>The system puts the bytes where the read was told to.\<close>
definition read_into :: "bool \<Rightarrow> int \<Rightarrow> u8 list \<Rightarrow> NetCxn \<Rightarrow> NetCxn res" where
  "read_into big off bs c =
     (if big = c_big c then bindE (nb_store off bs (c_NetBuffer c)) (\<lambda>nb. Inr (c\<lparr>c_NetBuffer := nb\<rparr>))
      else if \<not> big
      then Inr (c\<lparr>c_InternalReadBuffer := (c_InternalReadBuffer c)\<lparr>b_Memory := blit (b_Memory (c_InternalReadBuffer c)) (nat off) bs\<rparr>\<rparr>)
      else Inl OutOfBounds)"

datatype cxn_event = READ_COMPLETE | READ_READY | EOS | ERROR | REENABLE_RECEIVE

text \<open>
  The events of the read side.  After REENABLE_RECEIVE the method Reenable of m_Vc is
  called, which is the null pointer when ReadReadyInternal has closed the connection.
\<close>
definition HandlePacketEvent :: "net_env \<Rightarrow> cxn_event \<Rightarrow> NetCxn \<Rightarrow> NetCxn res" where
  "HandlePacketEvent e event c =
     (case event of
        READ_COMPLETE \<Rightarrow> ReadReadyInternal e c
      | READ_READY \<Rightarrow> ReadReadyInternal e c
      | REENABLE_RECEIVE \<Rightarrow>
          (let c = c\<lparr>c_ReenableReceiveEvent := False\<rparr> in
           if c_Closed c then Inr c
           else bindE (ReadReadyInternal e c) (\<lambda>c. if c_Closed c then Inl OutOfBounds else ScheduleRead c))
      | EOS \<Rightarrow> Inr (CloseConnection c)
      | ERROR \<Rightarrow> Inr (CloseConnection c))"

definition GetCallbackEvent :: "bool \<Rightarrow> int \<Rightarrow> NetCxn \<Rightarrow> cxn_event" where
  "GetCallbackEvent failed transferred c =
     (if failed then ERROR
      else if transferred = 0 then EOS
      else if c_NBytes c = c_NDone c then READ_COMPLETE else READ_READY)"

text \<open>The outstanding read completes with the bytes bs.\<close>
definition HandleIOCompletion :: "net_env \<Rightarrow> bool \<Rightarrow> u8 list \<Rightarrow> NetCxn \<Rightarrow> NetCxn res" where
  "HandleIOCompletion e failed bs c =
     (case c_pending c of
        None \<Rightarrow> Inl AssertFailed
      | Some (big, off, _) \<Rightarrow>
          bindE (read_into big off bs c) (\<lambda>c.
          if c_Closed c then Inr (c\<lparr>c_pending := None\<rparr>)
          else let transferred = int (length bs) in
          bindE (log_assert (c_NBytes c - c_NDone c > 0) ()) (\<lambda>_.
          bindE (if transferred > 0
                 then bindE (log_assert (transferred \<le> c_NBytes c - c_NDone c) ()) (\<lambda>_.
                      bindE (Fill transferred (c_NetBuffer c)) (\<lambda>nb.
                        Inr (c\<lparr>c_NetBuffer := nb, c_NDone := c_NDone c + transferred\<rparr>)))
                 else Inr c) (\<lambda>c.
          let event = GetCallbackEvent failed transferred c; c = c\<lparr>c_pending := None\<rparr> in
          bindE (HandlePacketEvent e event c) (\<lambda>c.
            if event = ERROR \<or> event = EOS then Inr c else ScheduleRead c)))))"

definition SuspendReceive :: "NetCxn \<Rightarrow> NetCxn" where
  "SuspendReceive c = c\<lparr>c_ReceiveSuspended := True, c_ReenableReceiveEvent := False\<rparr>"

text \<open>ResumeReceive schedules an event, which comes as REENABLE_RECEIVE unless it is cancelled.\<close>
definition ResumeReceive :: "NetCxn \<Rightarrow> NetCxn" where
  "ResumeReceive c = c\<lparr>c_ReceiveSuspended := False, c_ReenableReceiveEvent := True\<rparr>"

definition reenable_event :: "net_env \<Rightarrow> NetCxn \<Rightarrow> NetCxn res" where
  "reenable_event e c = (if c_ReenableReceiveEvent c then HandlePacketEvent e REENABLE_RECEIVE c else Inr c)"

text \<open>The read side of Start: the internal buffer, the callback and the first read.\<close>
definition NetCxn_Start :: "net_env \<Rightarrow> u32 \<Rightarrow> NetCxn res" where
  "NetCxn_Start e readBufferSize =
     bindE (log_assert (readBufferSize \<ge> SerialLen) ()) (\<lambda>_.
     bindE (GetBuffer (ne_heap e) readBufferSize) (\<lambda>buffer.
     bindE (nb_SetPoolBuffer buffer (nb_Clear (NetBuffer_new (ne_heap e) 0))) (\<lambda>nb.
       let c = \<lparr>c_NetBuffer = nb, c_InternalReadBuffer = buffer, c_big = False, c_Packet = None, c_NBytes = MAX_NBYTES, c_NDone = 0,
                c_pending = None, c_ReceiveSuspended = ne_ReceiveSuspended e, c_Closed = False, c_received = [], c_ReenableReceiveEvent = False\<rparr>
       in if ne_connect_closes e then Inr (CloseConnection c) else ScheduleRead c)))"

text \<open>
  A peer that sends the bytes of a stream: each outstanding read completes with some
  of them, at least one, as pick says.  The result is the connection and what has
  not been read.
\<close>
fun receive :: "net_env \<Rightarrow> (nat \<Rightarrow> nat) \<Rightarrow> nat \<Rightarrow> u8 list \<Rightarrow> NetCxn \<Rightarrow> (NetCxn \<times> u8 list) res" where
  "receive e pick 0 s c = Inr (c, s)"
| "receive e pick (Suc k) s c =
     (case c_pending c of
        Some (_, _, todo) \<Rightarrow>
          if s = [] then Inr (c, s)
          else let n = 1 + pick k mod min (nat todo) (length s) in
               bindE (HandleIOCompletion e False (take n s) c) (receive e pick k (drop n s))
      | None \<Rightarrow> Inr (c, s))"

section \<open>What is being read\<close>

text \<open>A packet as the application sees it: protocol version, transaction and data.\<close>
type_synonym packet_view = "u32 \<times> u32 \<times> u8 list"

fun wire :: "packet_view \<Rightarrow> u8 list" where
  "wire (proto, xid, d) = packet_wire proto xid d"

definition pk_view :: "Packet \<Rightarrow> packet_view" where
  "pk_view p = (h_ProtoVersion (pk_Hdr p), h_Xid (pk_Hdr p), pk_data p)"

definition max_size :: "net_env \<Rightarrow> u32" where
  "max_size e = (if ne_MaxPacketSize e \<noteq> 0 then ne_MaxPacketSize e else MaxNetPacketSize)"

definition sendable :: "net_env \<Rightarrow> packet_view \<Rightarrow> bool" where
  "sendable e p \<longleftrightarrow> length (wire p) < 2 ^ 30 \<and> length (wire p) \<le> unat (max_size e)"

text \<open>The packet object into which p is being read.\<close>
fun reading :: "packet_view \<Rightarrow> Packet \<Rightarrow> bool" where
  "reading (proto, xid, d) pkt \<longleftrightarrow> pk_Hdr pkt = packet_hdr proto xid d \<and> pm_ok (pk_MemoryManager pkt) \<and>
     h_Size (pk_Hdr pkt) \<le> pk_MaxPacketSize pkt"

lemma wire_ge: "20 \<le> length (wire p)"
  by (cases p) simp

lemma packet_hdr_size: "length d < 2 ^ 30 \<Longrightarrow> unat (h_Size (packet_hdr proto xid d)) = 20 + length d"
  by (simp add: packet_hdr_def Let_def unat_of_nat take_bit_nat_eq_self del: of_nat_add)

lemma reading_size:
  assumes "reading p pkt" "length (wire p) < 2 ^ 30"
  shows "sint (h_Size (pk_Hdr pkt)) = int (length (wire p))" "unat (h_Size (pk_Hdr pkt)) = length (wire p)"
proof -
  obtain proto xid d where p: "p = (proto, xid, d)" by (cases p)
  then show u: "unat (h_Size (pk_Hdr pkt)) = length (wire p)" using assms packet_hdr_size [of d] by simp
  then show "sint (h_Size (pk_Hdr pkt)) = int (length (wire p))" using sint_eq_unat [of "h_Size (pk_Hdr pkt)"] assms(2) by simp
qed

text \<open>The header is read when its bytes are there.\<close>
lemma read_header_ok:
  assumes "nb_ok (c_NetBuffer c)" "nb_data (c_NetBuffer c) @ s = wire p @ t" "20 \<le> length (nb_data (c_NetBuffer c))" "sendable e p"
    "\<forall>pkt. c_Packet c = Some pkt \<longrightarrow> reading p pkt"
  obtains pkt where "read_header e c = Inr (True, pkt)" "reading p pkt"
proof (cases "c_Packet c")
  case (Some pkt)
  then show ?thesis using that assms(5) by (simp add: read_header_def)
next
  case None
  obtain proto xid d where p: "p = (proto, xid, d)" by (cases p)
  let ?h = "packet_hdr proto xid d"
  have "take 20 (nb_data (c_NetBuffer c)) = take 20 (wire p @ t)" using arg_cong [OF assms(2), of "take 20"] assms(3) by simp
  then have "nb_data (c_NetBuffer c) = hdr_wire ?h @ drop 20 (nb_data (c_NetBuffer c))"
    using append_take_drop_id [of 20 "nb_data (c_NetBuffer c)"] by (simp add: p packet_wire_def)
  note dh = DeSerializeHeader_nb_ok [OF assms(1) this]
  have "unat (SerialLen + s_DefaultBufferLength) = 22" by (simp add: SerialLen_def s_DefaultBufferLength_def)
  then obtain k where k: "GetBuffer (ne_heap e) (SerialLen + s_DefaultBufferLength) = Inr \<lparr>b_Size = push_bit k 1, b_Memory = ne_heap e\<rparr>"
      "(22 :: nat) \<le> 2 ^ k" "k \<le> 31"
    using GetBuffer_ok [of "SerialLen + s_DefaultBufferLength" "ne_heap e"] by auto
  obtain q where q: "Packet_new (ne_heap e) (ne_MaxPacketSize e) (ne_MaxPacketAlertSize e) = Inr q" "pm_ok (pk_MemoryManager q)"
      "pk_MaxPacketSize q = max_size e"
    using k unat_pow2 [of k] by (auto simp: Packet_new_def pm_new_def pm_of_buffer_def pm_ok_def max_size_def)
  have u: "unat (h_Size ?h) = 20 + length d" using packet_hdr_size [of d] assms(4) by (simp add: sendable_def p)
  then have "read_header e c = Inr (True, q\<lparr>pk_Hdr := ?h\<rparr>)"
    using None q dh [of q] assms(4) by (auto simp: read_header_def sendable_def p word_less_nat_alt SerialLen_def)
  moreover have "reading p (q\<lparr>pk_Hdr := ?h\<rparr>)" using u q assms(4) by (simp add: p sendable_def word_le_nat_alt)
  ultimately show ?thesis using that by blast
qed

lemma DeSerialize_reading:
  assumes "nb_ok nb" "nb_data nb = wire p @ rest" "nb_BufSize nb < 2 ^ 31" "own \<Longrightarrow> nb_Start nb = 0" "reading p pkt" "length (wire p) < 2 ^ 30"
  obtains pkt' where "Packet_DeSerialize little a heap nb own pkt = Inr (True, pkt')" "pk_view pkt' = p"
proof -
  obtain proto xid d where p: "p = (proto, xid, d)" by (cases p)
  let ?h = "packet_hdr proto xid d"
  have h: "pk_Hdr pkt = ?h" "pm_ok (pk_MemoryManager pkt)" "?h \<noteq> ?h \<or> h_Size ?h \<le> pk_MaxPacketSize pkt" using assms(5) by (auto simp: p)
  have d: "nb_data nb = hdr_wire ?h @ d @ rest" using assms(2) by (simp add: p packet_wire_def)
  have u: "unat (h_Size ?h) = 20 + length d" "length d < 2 ^ 30" using packet_hdr_size [of d] assms(6) by (simp_all add: p)
  have ok: "h_Checksum ?h = rabin the_poly the_poly (hdr_wire (?h\<lparr>h_Checksum := 0\<rparr>) @ d)"
    by (simp add: packet_hdr_def Let_def)
  have le: "h_Size ?h \<le> pk_MaxPacketSize pkt" using h(3) by simp
  obtain pkt' where "Packet_DeSerialize little a heap nb own pkt =
        Inr (h_Checksum ?h = rabin the_poly the_poly (hdr_wire (?h\<lparr>h_Checksum := 0\<rparr>) @ d), pkt')" "pk_Hdr pkt' = ?h"
      "h_Checksum ?h = rabin the_poly the_poly (hdr_wire (?h\<lparr>h_Checksum := 0\<rparr>) @ d) \<longrightarrow> pk_data pkt' = d"
    by (rule Packet_DeSerialize_ok [OF assms(1) d assms(3,4) u(1) le u(2) h(2)])
  then show ?thesis using that [of pkt'] ok by (simp add: pk_view_def p packet_hdr_def Let_def)
qed

section \<open>The invariant\<close>

text \<open>
  rest are the packets that have not been handed to the application, s the bytes of
  them that have not arrived, B the size of the internal buffer.
\<close>
definition cxn_inv :: "net_env \<Rightarrow> int \<Rightarrow> packet_view list \<Rightarrow> u8 list \<Rightarrow> NetCxn \<Rightarrow> bool" where
  "cxn_inv e B rest s c \<longleftrightarrow>
     nb_ok (c_NetBuffer c) \<and> nb_BufSize (c_NetBuffer c) < 2 ^ 31 \<and> \<not> c_Closed c \<and> \<not> c_ReceiveSuspended c \<and>
     sint (b_Size (c_InternalReadBuffer c)) = B \<and> 20 \<le> B \<and> B < 2 ^ 31 \<and>
     nb_data (c_NetBuffer c) @ s = concat (map wire rest) \<and> (\<forall>p \<in> set rest. sendable e p) \<and>
     (\<forall>pkt. c_Packet c = Some pkt \<longrightarrow> rest \<noteq> [] \<and> reading (hd rest) pkt) \<and>
     (if c_big c
      then rest \<noteq> [] \<and> nb_Start (c_NetBuffer c) = 0 \<and> 20 \<le> length (nb_data (c_NetBuffer c)) \<and> c_Packet c \<noteq> None \<and>
           int (length (wire (hd rest))) \<le> nb_BufSize (c_NetBuffer c) \<and> length (nb_data (c_NetBuffer c)) \<le> length (wire (hd rest)) \<and>
           c_NBytes c = c_NDone c + int (length (wire (hd rest))) - int (length (nb_data (c_NetBuffer c)))
      else c_NBytes c = MAX_NBYTES \<and> nb_BufSize (c_NetBuffer c) = B)"

text \<open>No packet is complete, and the next one fits.\<close>
definition settled :: "packet_view list \<Rightarrow> NetCxn \<Rightarrow> bool" where
  "settled rest c \<longleftrightarrow> (rest \<noteq> [] \<longrightarrow> length (nb_data (c_NetBuffer c)) < length (wire (hd rest)) \<and>
     (20 \<le> length (nb_data (c_NetBuffer c)) \<longrightarrow> int (length (wire (hd rest))) \<le> nb_BufSize (c_NetBuffer c)))"

lemma pending_simps [simp]:
  "cxn_inv e B rest s (c\<lparr>c_pending := pd\<rparr>) = cxn_inv e B rest s c" "settled rest (c\<lparr>c_pending := pd\<rparr>) = settled rest c"
  by (simp_all add: cxn_inv_def settled_def cong: if_cong)

lemma nb_empty:
  assumes "nb_ok nb" "nb_data nb = []"
  shows "nb_IsEmpty nb"
proof -
  note b = ReadAvail_bounds [OF assms(1)]
  have "ReadAvail nb = 0" using assms(2) b(1) by (simp add: nb_data_def)
  then show ?thesis using b(3,4) assms(1) by (simp add: nb_IsEmpty_def nb_ok_def)
qed

lemma nb_new_ok: "0 < n \<Longrightarrow> nb_ok (NetBuffer_new mem n)" "nb_data (NetBuffer_new mem n) = []"
  by (simp_all add: nb_ok_def NetBuffer_new_def nb_data_def ReadAvail_def)

lemma nb_data_start:
  assumes "nb_ok nb" "nb_Start nb = 0"
  shows "nb_data nb = map (nb_Buffer nb) [0..<nat (ReadAvail nb)]"
  unfolding nb_data_def nb_at_def
  by (rule map_cong) (use assms ReadAvail_bounds(2) [OF assms(1)] in \<open>auto simp: nb_ok_def\<close>)

text \<open>The bytes of a packet that does not fit are moved to a buffer of its own.\<close>
lemma ReadMoreData_ok:
  assumes "nb_ok (c_NetBuffer c)" "length (nb_data (c_NetBuffer c)) < L" "L < 2 ^ 30" "nb_BufSize (c_NetBuffer c) < 2 ^ 31"
  obtains nb b where "ReadMoreData e (int L) c =
      Inr (c\<lparr>c_NetBuffer := nb, c_big := True, c_NBytes := c_NDone c + int L - int (length (nb_data (c_NetBuffer c))),
             c_InternalReadBuffer := (c_InternalReadBuffer c)\<lparr>b_Memory := b\<rparr>\<rparr>)"
    "nb_ok nb" "nb_data nb = nb_data (c_NetBuffer c)" "nb_Start nb = 0" "int L \<le> nb_BufSize nb" "nb_BufSize nb < 2 ^ 31"
    "nb_Buffer nb = blit (ne_heap e) 0 (nb_data (c_NetBuffer c))"
proof -
  let ?nb = "c_NetBuffer c" let ?d = "nb_data ?nb"
  have ra: "ReadAvail ?nb = int (length ?d)" using ReadAvail_bounds(1) [OF assms(1)] by simp
  have u: "unat (of_nat L :: u32) = L" using assms(3) by (simp add: unat_of_nat take_bit_nat_eq_self)
  obtain k where k: "GetBuffer (ne_heap e) (of_nat L) = Inr \<lparr>b_Size = push_bit k 1, b_Memory = ne_heap e\<rparr>" "L \<le> 2 ^ k" "2 ^ k < 2 * L" "k \<le> 31"
    using GetBuffer_ok [of "of_nat L" "ne_heap e"] u assms(2,3) by auto
  have s: "unat (push_bit k 1 :: u32) = 2 ^ k" using unat_pow2 k(4) by simp
  have s': "sint (push_bit k 1 :: u32) = 2 ^ k"
  proof -
    have "unat (push_bit k 1 :: u32) < 2 ^ 31" unfolding s using k(3) assms(3) by simp
    from sint_eq_unat [OF this] show ?thesis unfolding s by simp
  qed
  obtain nb1 where nb1: "Consume (int (length ?d)) ?nb = Inr nb1" "nb_ok nb1" "nb_data nb1 = []"
    using Consume_ok [OF assms(1) order_refl] by auto
  let ?m = "blit (ne_heap e) 0 ?d" let ?n = "NetBuffer_new ?m (2 ^ k)"
  have sp: "nb_SetPoolBuffer \<lparr>b_Size = push_bit k 1, b_Memory = ?m\<rparr> nb1 = Inr ?n"
    using nb_empty [OF nb1(2,3)] s' by (simp add: nb_SetPoolBuffer_def SetBuffer_def)
  have n: "nb_ok ?n" "ReadAvail ?n = 0" "WriteAvail ?n = 2 ^ k" "nb_Start ?n = 0" "nb_BufSize ?n = 2 ^ k" "nb_Buffer ?n = ?m"
    by (simp_all add: nb_new_ok) (simp_all add: ReadAvail_def WriteAvail_def NetBuffer_new_def)
  have p2: "int (2 ^ k) = 2 ^ k" by simp
  have ld: "int (length ?d) \<le> 2 ^ k" using assms(2) k(2) unfolding p2 [symmetric] of_nat_le_iff by linarith
  have "int (length ?d) \<le> WriteAvail ?n" unfolding n(3) by (rule ld)
  then obtain nb' where "Fill (int (length ?d)) ?n = Inr nb'" "nb_ok nb'" "ReadAvail nb' = ReadAvail ?n + int (length ?d)" "nb_Start nb' = nb_Start ?n"
      "nb_BufSize nb' = nb_BufSize ?n" "nb_Buffer nb' = nb_Buffer ?n"
    by (rule Fill_ok [OF n(1) of_nat_0_le_iff])
  note f = this [unfolded n(2,4-6) add_0]
  have d: "nb_data nb' = ?d"
    unfolding nb_data_start [OF f(2,4)] f(3,6) nat_int using map_blit [of 0 ?d "length ?d" "ne_heap e"] by (simp del: length_nb_data)
  have "ReadMoreData e (int L) c =
      Inr (c\<lparr>c_NetBuffer := nb', c_big := True, c_NBytes := c_NDone c + int L - int (length ?d),
             c_InternalReadBuffer := (c_InternalReadBuffer c)\<lparr>b_Memory := nb_Buffer nb1\<rparr>\<rparr>)"
    using ra k(1,2) s nb1(1) sp f(1) CopyTo_ok [OF assms(1) order_refl] assms(2) ld [folded ra] by (simp add: ReadMoreData_def Let_def)
  moreover have "int L \<le> nb_BufSize nb'" using f(5) k(2) unfolding p2 [symmetric] by linarith
  moreover have "int (2 ^ k) < int (2 ^ 31)" unfolding of_nat_less_iff using k(3) assms(3) by simp
  then have "nb_BufSize nb' < 2 ^ 31" using f(5) by simp
  ultimately show ?thesis using that f d by blast
qed

lemma pk_view_simps [simp]: "pk_view (set_addresses e pkt) = pk_view pkt"
  by (simp add: pk_view_def set_addresses_def pk_data_def pk_memory_def)

lemma sint_SerialLen: "sint SerialLen = 20"
  by (simp add: SerialLen_def)

lemma inv_data:
  assumes "cxn_inv e B rest s c"
  shows "ReadAvail (c_NetBuffer c) = int (length (nb_data (c_NetBuffer c)))" "nb_ok (c_NetBuffer c)"
    "nb_data (c_NetBuffer c) @ s = concat (map wire rest)"
  using assms ReadAvail_bounds(1) [of "c_NetBuffer c"] by (auto simp: cxn_inv_def)

lemma read_more_ok:
  assumes "cxn_inv e B (p # ps) s c" "\<not> c_big c" "c_Packet c = Some pkt"
    "20 \<le> length (nb_data (c_NetBuffer c))" "length (nb_data (c_NetBuffer c)) < length (wire p)"
  shows "\<exists>c'. ReadMoreData e (int (length (wire p))) c = Inr c' \<and> cxn_inv e B (p # ps) s c' \<and> settled (p # ps) c' \<and>
    c_received c' = c_received c \<and> c_NDone c' = c_NDone c \<and> c_pending c' = c_pending c"
proof -
  have l: "length (wire p) < 2 ^ 30" using assms(1) by (simp add: cxn_inv_def sendable_def)
  obtain nb b where m: "ReadMoreData e (int (length (wire p))) c =
      Inr (c\<lparr>c_NetBuffer := nb, c_big := True, c_NBytes := c_NDone c + int (length (wire p)) - int (length (nb_data (c_NetBuffer c))),
             c_InternalReadBuffer := (c_InternalReadBuffer c)\<lparr>b_Memory := b\<rparr>\<rparr>)"
    "nb_ok nb" "nb_data nb = nb_data (c_NetBuffer c)" "nb_Start nb = 0" "int (length (wire p)) \<le> nb_BufSize nb" "nb_BufSize nb < 2 ^ 31"
    using assms(1) by (rule_tac ReadMoreData_ok [OF inv_data(2) [OF assms(1)] assms(5) l]) (auto simp: cxn_inv_def)
  show ?thesis unfolding m(1)
    by (rule exI conjI refl)+ (use assms m(2-6) in \<open>simp_all add: cxn_inv_def settled_def del: length_nb_data\<close>)
qed

lemma got_packet_ok:
  assumes "cxn_inv e B (p # ps) s c" "\<forall>p. \<not> ne_closes e p" "c_Packet c = Some pkt" "length (wire p) \<le> length (nb_data (c_NetBuffer c))"
  shows "\<exists>c'. got_packet e (\<not> c_big c) pkt c = Inr (\<not> c_big c, c') \<and> cxn_inv e B ps s c' \<and> \<not> c_big c' \<and>
    length (nb_data (c_NetBuffer c')) < length (nb_data (c_NetBuffer c)) \<and> (c_big c \<longrightarrow> nb_data (c_NetBuffer c') = []) \<and>
    map pk_view (c_received c') = map pk_view (c_received c) @ [p] \<and> c_NDone c' = c_NDone c \<and> c_pending c' = c_pending c"
proof -
  let ?nb = "c_NetBuffer c" let ?n = "length (wire p)" let ?r = "drop ?n (nb_data ?nb)"
  note i = assms(1) [unfolded cxn_inv_def]
  have l: "?n < 2 ^ 30" and r: "reading p pkt" using i assms(3) by (simp_all add: sendable_def)
  have "take ?n (nb_data ?nb @ s) = wire p" using inv_data(3) [OF assms(1)] by simp
  then have d: "nb_data ?nb = wire p @ ?r" using assms(4) append_take_drop_id [of ?n "nb_data ?nb"] by (simp del: length_nb_data)
  have "nb_BufSize ?nb < 2 ^ 31" "\<not> \<not> c_big c \<Longrightarrow> nb_Start ?nb = 0" using i by (auto split: if_splits)
  then obtain pkt' where p': "Packet_DeSerialize (ne_little e) (ne_address e) (ne_heap e) ?nb (\<not> \<not> c_big c) pkt = Inr (True, pkt')" "pk_view pkt' = p"
    by (rule DeSerialize_reading [OF inv_data(2) [OF assms(1)] d _ _ r l])
  obtain nb' where nb': "Consume (int ?n) ?nb = Inr nb'" "nb_ok nb'" "nb_data nb' = ?r" "nb_BufSize nb' = nb_BufSize ?nb"
    using Consume_ok [OF inv_data(2) [OF assms(1)] assms(4)] by blast
  have rest: "?r @ s = concat (map wire ps)" using inv_data(3) [OF assms(1)] d by (metis append_assoc concat.simps(2) list.simps(9) same_append_eq)
  have lt: "length ?r < length (nb_data ?nb)" using wire_ge [of p] assms(4) by (simp del: length_nb_data)
  have sz: "sint (h_Size (pk_Hdr pkt)) = int ?n" by (rule reading_size [OF r l])
  show ?thesis
  proof (cases "c_big c")
    case False
    let ?c = "c\<lparr>c_NetBuffer := nb', c_Packet := None, c_received := c_received c @ [set_addresses e pkt']\<rparr>"
    have "got_packet e True pkt c = Inr (True, ?c)" using p' nb' False assms(2) sz by (simp add: got_packet_def Let_def)
    moreover have "cxn_inv e B ps s ?c" using i nb' rest False by (simp add: cxn_inv_def del: length_nb_data)
    ultimately show ?thesis using False lt p'(2) nb'(3) by (simp del: length_nb_data)
  next
    case True
    have e: "?r = []" using i True by (simp del: length_nb_data)
    let ?nb2 = "NetBuffer_new (b_Memory (c_InternalReadBuffer c)) B"
    have B: "sint (b_Size (c_InternalReadBuffer c)) = B" "20 \<le> B" "B < 2 ^ 31" using i by simp_all
    have sp: "nb_SetPoolBuffer (c_InternalReadBuffer c) nb' = Inr ?nb2"
      using nb_empty [OF nb'(2)] nb'(3) e B by (simp add: nb_SetPoolBuffer_def SetBuffer_def)
    let ?c = "c\<lparr>c_NetBuffer := ?nb2, c_big := False, c_NBytes := MAX_NBYTES, c_Packet := None, c_received := c_received c @ [set_addresses e pkt']\<rparr>"
    have "got_packet e False pkt c = Inr (False, ?c)" using p' nb' True assms(2) sz sp by (simp add: got_packet_def Let_def)
    moreover have n2: "nb_ok ?nb2" "nb_data ?nb2 = []" "nb_BufSize ?nb2 = B" using B nb_new_ok(1) [of B] nb_new_ok(2) by (auto simp: NetBuffer_new_def)
    moreover have "cxn_inv e B ps s ?c" using i n2 rest e B by (simp add: cxn_inv_def)
    ultimately show ?thesis using True lt e p'(2) by (auto simp del: length_nb_data)
  qed
qed

lemma read_turn:
  assumes "20 \<le> ReadAvail (c_NetBuffer c)" "read_header e c = Inr (True, pkt)" "sint (h_Size (pk_Hdr pkt)) = int n"
  shows "read_loop e (Suc j) b c =
    (if int n \<le> ReadAvail (c_NetBuffer c)
     then bindE (got_packet e b pkt (c\<lparr>c_Packet := Some pkt\<rparr>)) (\<lambda>(more, c). if more then read_loop e j b c else Inr c)
     else if int n > nb_BufSize (c_NetBuffer c) then bindE (log_assert b ()) (\<lambda>_. ReadMoreData e (int n) (c\<lparr>c_Packet := Some pkt\<rparr>))
     else Inr (c\<lparr>c_Packet := Some pkt\<rparr>))"
  by (subst read_loop.simps) (simp add: assms sint_SerialLen Let_def cong: if_cong)

text \<open>The loop hands over every complete packet.\<close>
lemma read_loop_ok:
  assumes "cxn_inv e B rest s c" "\<not> c_big c" "length (nb_data (c_NetBuffer c)) \<le> k" "\<forall>p. \<not> ne_closes e p"
  shows "\<exists>c' got rest'. read_loop e k True c = Inr c' \<and> rest = got @ rest' \<and> map pk_view (c_received c') = map pk_view (c_received c) @ got \<and>
    cxn_inv e B rest' s c' \<and> settled rest' c' \<and> c_NDone c' = c_NDone c \<and> c_pending c' = c_pending c"
  using assms(1-3)
proof (induction k arbitrary: c rest rule: less_induct)
  case (less k)
  let ?d = "nb_data (c_NetBuffer c)"
  note d = inv_data [OF less.prems(1)]
  show ?case
  proof (cases "20 \<le> length ?d")
    case False
    then have "read_loop e k True c = Inr c" "settled rest c"
      using d(1) wire_ge [of "hd rest"] by (simp_all add: read_loop.simps [of e k] sint_SerialLen settled_def del: length_nb_data)
    then show ?thesis using less.prems(1) by (intro exI [of _ c] exI [of _ "[]"] exI [of _ rest]) simp
  next
    case True
    then obtain p ps where rest: "rest = p # ps" using d(3) by (cases rest) (auto simp del: length_nb_data)
    obtain j where k: "k = Suc j" using True less.prems(3) by (cases k) auto
    have "sendable e p" "\<forall>pkt. c_Packet c = Some pkt \<longrightarrow> reading p pkt" using less.prems(1) by (simp_all add: cxn_inv_def rest)
    then obtain pkt where pkt: "read_header e c = Inr (True, pkt)" "reading p pkt"
      by (rule read_header_ok [OF d(2) d(3) [unfolded rest list.map concat.simps] True])
    have l: "length (wire p) < 2 ^ 30" using less.prems(1) by (simp add: cxn_inv_def rest sendable_def)
    let ?c = "c\<lparr>c_Packet := Some pkt\<rparr>"
    have inv: "cxn_inv e B (p # ps) s ?c" using less.prems(1,2) pkt(2) by (simp add: cxn_inv_def rest)
    note sz = reading_size(1) [OF pkt(2) l]
    have loop: "read_loop e k True c =
        (if length (wire p) \<le> length ?d
         then bindE (got_packet e True pkt ?c) (\<lambda>(more, c). if more then read_loop e j True c else Inr c)
         else if int (length (wire p)) > nb_BufSize (c_NetBuffer c) then ReadMoreData e (int (length (wire p))) ?c else Inr ?c)"
      using read_turn [OF _ pkt(1) sz, of j True] True d(1) by (simp add: k cong: if_cong del: length_nb_data)
    show ?thesis
    proof (cases "length (wire p) \<le> length ?d")
      case full: True
      then obtain c1 where c1: "got_packet e True pkt ?c = Inr (True, c1)" "cxn_inv e B ps s c1" "\<not> c_big c1"
          "length (nb_data (c_NetBuffer c1)) < length ?d"
          "map pk_view (c_received c1) = map pk_view (c_received c) @ [p]" "c_NDone c1 = c_NDone c" "c_pending c1 = c_pending c"
        using got_packet_ok [OF inv assms(4)] less.prems(2) by auto
      have "length (nb_data (c_NetBuffer c1)) \<le> j" using c1(4) less.prems(3) by (simp add: k del: length_nb_data)
      then obtain c' got rest' where "read_loop e j True c1 = Inr c'" "ps = got @ rest'" "map pk_view (c_received c') = map pk_view (c_received c1) @ got"
          "cxn_inv e B rest' s c'" "settled rest' c'" "c_NDone c' = c_NDone c1" "c_pending c' = c_pending c1"
        using less.IH [of j ps c1] c1(2,3) k by blast
      then show ?thesis using loop full c1 rest
        by (intro exI [of _ c'] exI [of _ "p # got"] exI [of _ rest']) (simp del: length_nb_data)
    next
      case wait: False
      show ?thesis
      proof (cases "int (length (wire p)) > nb_BufSize (c_NetBuffer c)")
        case True
        then obtain c' where "ReadMoreData e (int (length (wire p))) ?c = Inr c'" "cxn_inv e B (p # ps) s c'" "settled (p # ps) c'"
            "c_received c' = c_received c" "c_NDone c' = c_NDone c" "c_pending c' = c_pending c"
          using read_more_ok [OF inv] less.prems(2) wait \<open>20 \<le> length ?d\<close> by auto
        then show ?thesis using loop True wait rest
          by (intro exI [of _ c'] exI [of _ "[]"] exI [of _ rest]) (simp del: length_nb_data)
      next
        case False
        then have "settled rest ?c" using wait by (simp add: settled_def rest del: length_nb_data)
        then show ?thesis using loop False wait rest inv
          by (intro exI [of _ ?c] exI [of _ "[]"] exI [of _ rest]) (simp del: length_nb_data)
      qed
    qed
  qed
qed

lemma ReadReadyInternal_ok:
  assumes "cxn_inv e B rest s c" "\<forall>p. \<not> ne_closes e p"
  shows "\<exists>c' got rest'. ReadReadyInternal e c = Inr c' \<and> rest = got @ rest' \<and> map pk_view (c_received c') = map pk_view (c_received c) @ got \<and>
    cxn_inv e B rest' s c' \<and> settled rest' c' \<and> c_NDone c' = c_NDone c \<and> c_pending c' = c_pending c"
proof (cases "c_big c")
  case False
  then show ?thesis using read_loop_ok [OF assms(1) False _ assms(2), of "nat (ReadAvail (c_NetBuffer c))"] assms(1)
    by (simp add: ReadReadyInternal_def cxn_inv_def)
next
  case True
  let ?d = "nb_data (c_NetBuffer c)"
  note d = inv_data [OF assms(1)]
  obtain p ps pkt where rest: "rest = p # ps" "c_Packet c = Some pkt" using assms(1) True by (cases rest) (auto simp: cxn_inv_def)
  have b: "20 \<le> length ?d" "int (length (wire p)) \<le> nb_BufSize (c_NetBuffer c)" "reading p pkt" "length (wire p) < 2 ^ 30" "\<not> c_ReceiveSuspended c"
    using assms(1) True rest by (auto simp: cxn_inv_def sendable_def simp del: length_nb_data)
  obtain j where k: "nat (ReadAvail (c_NetBuffer c)) = Suc j" using b(1) by (cases "nat (ReadAvail (c_NetBuffer c))") auto
  have upd: "c\<lparr>c_Packet := Some pkt\<rparr> = c" using rest(2) by simp
  have loop: "ReadReadyInternal e c =
      (if length (wire p) \<le> length ?d then bindE (got_packet e False pkt c) (\<lambda>(more, c). if more then read_loop e j False c else Inr c) else Inr c)"
    using read_turn [OF _ _ reading_size(1) [OF b(3,4)], of c e j False] True b(1,2,5) rest(2) d(1)
    unfolding ReadReadyInternal_def k by (simp add: read_header_def upd cong: if_cong del: length_nb_data)
  show ?thesis
  proof (cases "length (wire p) \<le> length ?d")
    case full: True
    then obtain c1 where c1: "got_packet e False pkt c = Inr (False, c1)" "cxn_inv e B ps s c1" "nb_data (c_NetBuffer c1) = []"
        "map pk_view (c_received c1) = map pk_view (c_received c) @ [p]" "c_NDone c1 = c_NDone c" "c_pending c1 = c_pending c"
      using got_packet_ok [OF assms(1) [unfolded rest(1)] assms(2) rest(2)] True by auto
    have "settled ps c1" using c1(3) wire_ge [of "hd ps"] by (auto simp: settled_def simp del: length_nb_data)
    then show ?thesis using loop full c1 rest
      by (intro exI [of _ c1] exI [of _ "[p]"] exI [of _ ps]) (simp del: length_nb_data)
  next
    case False
    then show ?thesis using loop rest assms(1) b
      by (intro exI [of _ c] exI [of _ "[]"] exI [of _ rest]) (simp add: settled_def del: length_nb_data)
  qed
qed

section \<open>Receiving a stream\<close>

text \<open>While bytes are to come, a read is outstanding that has room for them.\<close>
definition armed :: "u8 list \<Rightarrow> NetCxn \<Rightarrow> bool" where
  "armed s c \<longleftrightarrow> (s \<noteq> [] \<longrightarrow> (case c_pending c of
       Some (big, off, todo) \<Rightarrow> big = c_big c \<and> off = nb_End (c_NetBuffer c) \<and> 0 < todo \<and> todo \<le> c_NBytes c - c_NDone c \<and>
         todo \<le> WriteAvail (c_NetBuffer c) \<and> off + todo \<le> nb_BufSize (c_NetBuffer c)
     | None \<Rightarrow> False))"

lemma ContiguousWriteAvail_ok:
  assumes "nb_ok nb"
  obtains a where "ContiguousWriteAvail nb = Inr a" "0 \<le> a" "a \<le> WriteAvail nb" "nb_End nb + a \<le> nb_BufSize nb" "a = 0 \<longrightarrow> WriteAvail nb = 0"
  using assms that by (cases "nb_IsFull nb"; cases "nb_End nb \<ge> nb_Start nb")
    (auto simp: ContiguousWriteAvail_def nb_ok_def WriteAvail_def ReadAvail_def Let_def)

lemma ScheduleRead_ok:
  assumes "cxn_inv e B rest s c" "settled rest c" "c_pending c = None" "c_NDone c + int (length s) < MAX_NBYTES"
  shows "\<exists>pd. ScheduleRead c = Inr (c\<lparr>c_pending := pd\<rparr>) \<and> armed s (c\<lparr>c_pending := pd\<rparr>)"
proof -
  let ?nb = "c_NetBuffer c"
  note d = inv_data [OF assms(1)]
  obtain a where a: "ContiguousWriteAvail ?nb = Inr a" "0 \<le> a" "a \<le> WriteAvail ?nb" "nb_End ?nb + a \<le> nb_BufSize ?nb" "a = 0 \<longrightarrow> WriteAvail ?nb = 0"
    by (rule ContiguousWriteAvail_ok [OF d(2)])
  let ?t = "c_NBytes c - c_NDone c" let ?m = "min (min ?t a) NET_IO_BATCH_SIZE"
  have sch: "ScheduleRead c = Inr (c\<lparr>c_pending := (if ?t = 0 \<or> a = 0 then None else Some (c_big c, nb_End ?nb, ?m))\<rparr>)"
    using assms(1,3) a(1) by (simp add: ScheduleRead_def cxn_inv_def Let_def)
  have "0 < ?t \<and> 0 < a" if ne: "s \<noteq> []"
  proof -
    obtain p ps where rest: "rest = p # ps" using d(3) ne by (cases rest) auto
    have lt: "length (nb_data ?nb) < length (wire p)" "20 \<le> length (nb_data ?nb) \<longrightarrow> int (length (wire p)) \<le> nb_BufSize ?nb"
      using assms(2) by (simp_all add: settled_def rest del: length_nb_data)
    have "0 < ?t" using assms(1,4) lt(1) by (auto simp: cxn_inv_def rest simp del: length_nb_data split: if_splits)
    moreover have "20 \<le> nb_BufSize ?nb" using assms(1) wire_ge [of p] by (auto simp: cxn_inv_def rest simp del: length_nb_data split: if_splits)
    then have "ReadAvail ?nb < nb_BufSize ?nb" using lt unfolding d(1) by linarith
    ultimately show ?thesis using a(2,5) by (auto simp: WriteAvail_def)
  qed
  then show ?thesis unfolding sch using a(3,4) by (intro exI conjI refl) (auto simp: armed_def NET_IO_BATCH_SIZE_def)
qed

text \<open>A read that completes appends its bytes.\<close>
lemma read_into_ok:
  assumes "cxn_inv e B rest (bs @ s) c" "bs \<noteq> []" "int (length bs) \<le> WriteAvail (c_NetBuffer c)"
    "nb_End (c_NetBuffer c) + int (length bs) \<le> nb_BufSize (c_NetBuffer c)" "int (length bs) \<le> c_NBytes c - c_NDone c"
  obtains nb nb' where "read_into (c_big c) (nb_End (c_NetBuffer c)) bs c = Inr (c\<lparr>c_NetBuffer := nb\<rparr>)"
    "Fill (int (length bs)) nb = Inr nb'" "cxn_inv e B rest s (c\<lparr>c_NetBuffer := nb', c_NDone := c_NDone c + int (length bs)\<rparr>)"
proof -
  let ?nb = "c_NetBuffer c" let ?m = "?nb\<lparr>nb_Buffer := blit (nb_Buffer ?nb) (nat (nb_End ?nb)) bs\<rparr>"
  note d = inv_data [OF assms(1)]
  have ok: "0 \<le> nb_End ?nb" "nb_End ?nb < nb_BufSize ?nb" using d(2) by (simp_all add: nb_ok_def)
  have st: "nb_store (nb_End ?nb) bs ?nb = Inr ?m" using ok assms(4) by (simp add: nb_store_def)
  then have "CopyFrom bs 0 ?nb = Inr ?m" using ok assms(3,4) by (simp add: CopyFrom_def Let_def)
  moreover have "length (nb_data ?nb) + length bs \<le> nat (nb_BufSize ?nb)" using assms(3) d(1) by (simp add: WriteAvail_def del: length_nb_data)
  then obtain nb' where "nb_put bs ?nb = Inr nb'" "nb_ok nb'" "nb_data nb' = nb_data ?nb @ bs" "nb_BufSize nb' = nb_BufSize ?nb"
    using nb_put_ok [OF d(2)] by blast
  ultimately have f: "Fill (int (length bs)) ?m = Inr nb'" "nb_ok nb'" "nb_data nb' = nb_data ?nb @ bs" "nb_BufSize nb' = nb_BufSize ?nb"
    by (simp_all add: nb_put_def)
  have "nb_Start nb' = nb_Start ?nb" using f(1) by (auto simp: Fill_def Let_def log_assert_def split: if_splits)
  then have "cxn_inv e B rest s (c\<lparr>c_NetBuffer := nb', c_NDone := c_NDone c + int (length bs)\<rparr>)"
    using assms(1,5) f(2-4) by (cases "c_big c") (auto simp: cxn_inv_def simp del: length_nb_data)
  moreover have "read_into (c_big c) (nb_End ?nb) bs c = Inr (c\<lparr>c_NetBuffer := ?m\<rparr>)" using st by (simp add: read_into_def)
  ultimately show ?thesis using that f(1) by blast
qed

lemma HandleIOCompletion_ok:
  assumes "cxn_inv e B rest (bs @ s) c" "c_pending c = Some (c_big c, nb_End (c_NetBuffer c), todo)" "bs \<noteq> []" "int (length bs) \<le> todo"
    "armed (bs @ s) c" "c_NDone c + int (length (bs @ s)) < MAX_NBYTES" "\<forall>p. \<not> ne_closes e p"
  shows "\<exists>c' got rest'. HandleIOCompletion e False bs c = Inr c' \<and> rest = got @ rest' \<and> map pk_view (c_received c') = map pk_view (c_received c) @ got \<and>
    cxn_inv e B rest' s c' \<and> settled rest' c' \<and> armed s c' \<and> c_NDone c' + int (length s) < MAX_NBYTES"
proof -
  let ?n = "int (length bs)"
  have a: "0 < todo" "todo \<le> c_NBytes c - c_NDone c" "todo \<le> WriteAvail (c_NetBuffer c)" "nb_End (c_NetBuffer c) + todo \<le> nb_BufSize (c_NetBuffer c)"
    using assms(2,3,5) by (auto simp: armed_def)
  obtain nb nb' where r: "read_into (c_big c) (nb_End (c_NetBuffer c)) bs c = Inr (c\<lparr>c_NetBuffer := nb\<rparr>)"
      "Fill ?n nb = Inr nb'" "cxn_inv e B rest s (c\<lparr>c_NetBuffer := nb', c_NDone := c_NDone c + ?n\<rparr>)"
    using a assms(4) by (rule_tac read_into_ok [OF assms(1,3)]) auto
  let ?c = "c\<lparr>c_NetBuffer := nb', c_NDone := c_NDone c + ?n, c_pending := None\<rparr>"
  have inv: "cxn_inv e B rest s ?c" by (subst pending_simps(1)) (rule r(3))
  obtain c1 got rest' where c1: "ReadReadyInternal e ?c = Inr c1" "rest = got @ rest'" "map pk_view (c_received c1) = map pk_view (c_received c) @ got"
      "cxn_inv e B rest' s c1" "settled rest' c1" "c_NDone c1 = c_NDone c + ?n" "c_pending c1 = None"
    using ReadReadyInternal_ok [OF inv assms(7)] by auto
  obtain pd where pd: "ScheduleRead c1 = Inr (c1\<lparr>c_pending := pd\<rparr>)" "armed s (c1\<lparr>c_pending := pd\<rparr>)"
    using ScheduleRead_ok [OF c1(4,5,7)] c1(6) assms(6) by auto
  have "HandleIOCompletion e False bs c = Inr (c1\<lparr>c_pending := pd\<rparr>)"
    using assms(1-4) a r(1,2) c1(1) pd(1)
    by (auto simp: HandleIOCompletion_def GetCallbackEvent_def HandlePacketEvent_def cxn_inv_def Let_def split: if_splits)
  then show ?thesis using pd(2) c1 assms(6) by (intro exI [of _ "c1\<lparr>c_pending := pd\<rparr>"] exI [of _ got] exI [of _ rest']) simp
qed

lemma settled_end: "cxn_inv e B rest [] c \<Longrightarrow> settled rest c \<Longrightarrow> rest = []"
  using inv_data(3) [of e B rest "[]" c] by (cases rest) (auto simp: settled_def simp del: length_nb_data)

lemma receive_ok:
  assumes "cxn_inv e B rest s c" "settled rest c" "armed s c" "c_NDone c + int (length s) < MAX_NBYTES" "length s \<le> k" "\<forall>p. \<not> ne_closes e p"
  shows "\<exists>c'. receive e pick k s c = Inr (c', []) \<and> map pk_view (c_received c') = map pk_view (c_received c) @ rest"
  using assms(1-5)
proof (induction k arbitrary: rest s c)
  case 0
  then show ?case using settled_end by simp
next
  case (Suc k)
  show ?case
  proof (cases "s = []")
    case True
    then show ?thesis using settled_end Suc.prems(1,2) by (cases "c_pending c") auto
  next
    case False
    obtain todo where t: "c_pending c = Some (c_big c, nb_End (c_NetBuffer c), todo)" "0 < todo"
      using Suc.prems(3) False by (auto simp: armed_def split: option.splits)
    define n where "n = 1 + pick k mod min (nat todo) (length s)"
    have n: "0 < n" "n \<le> length s" "int n \<le> todo"
      using mod_less_divisor [of "min (nat todo) (length s)" "pick k"] t(2) False by (auto simp: n_def)
    let ?b = "take n s" let ?s = "drop n s"
    have b: "?b \<noteq> []" "int (length ?b) \<le> todo" "?b @ ?s = s" using n False by auto
    obtain c1 got rest' where c1: "HandleIOCompletion e False ?b c = Inr c1" "rest = got @ rest'" "map pk_view (c_received c1) = map pk_view (c_received c) @ got"
        "cxn_inv e B rest' ?s c1" "settled rest' c1" "armed ?s c1" "c_NDone c1 + int (length ?s) < MAX_NBYTES"
      using HandleIOCompletion_ok [of e B rest ?b ?s c todo] Suc.prems(1,3,4) t(1) b assms(6) by auto
    have "length ?s \<le> k" using Suc.prems(5) n by simp
    from Suc.IH [OF c1(4-7) this] obtain c' where "receive e pick k ?s c1 = Inr (c', [])" "map pk_view (c_received c') = map pk_view (c_received c1) @ rest'"
      by blast
    moreover have "receive e pick (Suc k) s c = bindE (HandleIOCompletion e False ?b c) (receive e pick k ?s)"
      using t(1) False by (simp add: n_def)
    ultimately show ?thesis using c1(1-3) by simp
  qed
qed

lemma NetCxn_Start_ok:
  assumes "20 \<le> unat n" "unat n < 2 ^ 30" "\<forall>p \<in> set ps. sendable e p" "length (concat (map wire ps)) < 2 ^ 62"
    "\<not> ne_ReceiveSuspended e" "\<not> ne_connect_closes e"
  shows "\<exists>c B. NetCxn_Start e n = Inr c \<and> cxn_inv e B ps (concat (map wire ps)) c \<and> settled ps c \<and> armed (concat (map wire ps)) c \<and>
    c_NDone c = 0 \<and> c_received c = []"
proof -
  obtain k where k: "GetBuffer (ne_heap e) n = Inr \<lparr>b_Size = push_bit k 1, b_Memory = ne_heap e\<rparr>" "unat n \<le> 2 ^ k" "2 ^ k < 2 * unat n" "k \<le> 31"
    using GetBuffer_ok [of n "ne_heap e"] assms(1,2) by auto
  have s: "unat (push_bit k 1 :: u32) = 2 ^ k" using unat_pow2 k(4) by simp
  have s31: "unat (push_bit k 1 :: u32) < 2 ^ 31" unfolding s using k(3) assms(2) by simp
  define B where "B = sint (push_bit k 1 :: u32)"
  have "B = int (unat (push_bit k 1 :: u32))" unfolding B_def by (rule sint_eq_unat [OF s31])
  then have B: "B = int (2 ^ k)" unfolding s .
  have "int (2 ^ k) < int (2 ^ 31)" "int 20 \<le> int (2 ^ k)" unfolding of_nat_less_iff of_nat_le_iff using s31 s k(2) assms(1) by simp_all
  then have B: "20 \<le> B" "B < 2 ^ 31" unfolding B by simp_all
  let ?b = "\<lparr>b_Size = push_bit k 1, b_Memory = ne_heap e\<rparr> :: Buffer"
  let ?nb = "NetBuffer_new (ne_heap e) B"
  have sp: "nb_SetPoolBuffer ?b (nb_Clear (NetBuffer_new (ne_heap e) 0)) = Inr ?nb"
    by (simp add: nb_SetPoolBuffer_def SetBuffer_def nb_IsEmpty_def nb_Clear_def NetBuffer_new_def B_def)
  have nb: "nb_ok ?nb" "nb_data ?nb = []" "nb_BufSize ?nb = B" using B nb_new_ok(1) [of B] nb_new_ok(2) by (auto simp: NetBuffer_new_def)
  let ?c = "\<lparr>c_NetBuffer = ?nb, c_InternalReadBuffer = ?b, c_big = False, c_Packet = None, c_NBytes = MAX_NBYTES, c_NDone = 0,
         c_pending = None, c_ReceiveSuspended = False, c_Closed = False, c_received = [], c_ReenableReceiveEvent = False\<rparr>"
  let ?S = "concat (map wire ps)"
  have inv: "cxn_inv e B ps ?S ?c" unfolding cxn_inv_def using nb B assms(3) by (simp add: B_def)
  moreover have set: "settled ps ?c" using nb(2) wire_ge [of "hd ps"] by (auto simp: settled_def simp del: length_nb_data)
  have "int (length ?S) < int (2 ^ 62)" unfolding of_nat_less_iff by (rule assms(4))
  then have "c_NDone ?c + int (length ?S) < MAX_NBYTES" by (simp add: MAX_NBYTES_def)
  then obtain pd where pd: "ScheduleRead ?c = Inr (?c\<lparr>c_pending := pd\<rparr>)" "armed ?S (?c\<lparr>c_pending := pd\<rparr>)"
    using ScheduleRead_ok [OF inv set] by auto
  have "NetCxn_Start e n = Inr (?c\<lparr>c_pending := pd\<rparr>)"
    using k(1) sp pd(1) assms(1,5,6) by (simp add: NetCxn_Start_def word_le_nat_alt SerialLen_def)
  moreover have "cxn_inv e B ps ?S (?c\<lparr>c_pending := pd\<rparr>)" "settled ps (?c\<lparr>c_pending := pd\<rparr>)"
    using inv set by (simp_all only: pending_simps)
  ultimately show ?thesis using pd(2) by (intro exI [of _ "?c\<lparr>c_pending := pd\<rparr>"] exI [of _ B]) simp
qed

lemma receive_all:
  assumes "20 \<le> unat n" "unat n < 2 ^ 30" "\<forall>p \<in> set ps. sendable e p" "length (concat (map wire ps)) < 2 ^ 62"
    "\<not> ne_ReceiveSuspended e" "\<not> ne_connect_closes e" "\<forall>p. \<not> ne_closes e p"
  shows "\<exists>c0 c. NetCxn_Start e n = Inr c0 \<and>
    receive e pick (length (concat (map wire ps))) (concat (map wire ps)) c0 = Inr (c, []) \<and> map pk_view (c_received c) = ps"
proof -
  obtain c0 B where c0: "NetCxn_Start e n = Inr c0" "cxn_inv e B ps (concat (map wire ps)) c0" "settled ps c0" "armed (concat (map wire ps)) c0"
      "c_NDone c0 = 0" "c_received c0 = []"
    using NetCxn_Start_ok [OF assms(1-6)] by blast
  have "int (length (concat (map wire ps))) < int (2 ^ 62)" unfolding of_nat_less_iff by (rule assms(4))
  then have "c_NDone c0 + int (length (concat (map wire ps))) < MAX_NBYTES" using c0(5) by (simp add: MAX_NBYTES_def)
  from receive_ok [OF c0(2-4) this order_refl assms(7)] show ?thesis using c0(1,6) by auto
qed

section \<open>Resuming while a read is outstanding\<close>

lemma GetBuffer_32: "GetBuffer heap 32 = Inr \<lparr>b_Size = 32, b_Memory = heap\<rparr>"
proof -
  obtain k where k: "GetBuffer heap 32 = Inr \<lparr>b_Size = push_bit k 1, b_Memory = heap\<rparr>" "32 \<le> (2 :: nat) ^ k" "(2 :: nat) ^ k < 64" "k \<le> 31"
    using GetBuffer_ok [of 32 heap] by auto
  have "(2 :: nat) ^ 5 \<le> 2 ^ k" "(2 :: nat) ^ k < 2 ^ 6" using k by simp_all
  then have "5 \<le> k" "k < 6" using power_le_imp_le_exp [of "2 :: nat" 5 k] power_less_imp_less_exp [of "2 :: nat" k 6] by simp_all
  then have "k = 5" by simp
  then show ?thesis using k(1) by simp
qed

text \<open>The connection after the header of p has arrived while receiving was suspended.\<close>
definition suspended_at :: "net_env \<Rightarrow> packet_view \<Rightarrow> NetCxn" where
  "suspended_at e p =
     \<lparr>c_NetBuffer = \<lparr>nb_Buffer = blit (ne_heap e) 0 (take 20 (wire p)), nb_BufSize = 32, nb_Start = 0, nb_End = 20, nb_IsFull = False\<rparr>,
      c_InternalReadBuffer = \<lparr>b_Size = 32, b_Memory = ne_heap e\<rparr>, c_big = False, c_Packet = None, c_NBytes = MAX_NBYTES, c_NDone = 20,
      c_pending = Some (False, 20, 12), c_ReceiveSuspended = True, c_Closed = False, c_received = [], c_ReenableReceiveEvent = False\<rparr>"

lemma suspend_start:
  assumes "\<not> ne_connect_closes e"
  shows "bindE (NetCxn_Start e 32) (\<lambda>c. HandleIOCompletion e False (take 20 (wire p)) (SuspendReceive c)) = Inr (suspended_at e p)"
proof -
  have l: "length (take 20 (wire p)) = 20" using wire_ge [of p] by simp
  have "NetCxn_Start e 32 = Inr \<lparr>c_NetBuffer = NetBuffer_new (ne_heap e) 32, c_InternalReadBuffer = \<lparr>b_Size = 32, b_Memory = ne_heap e\<rparr>,
      c_big = False, c_Packet = None, c_NBytes = MAX_NBYTES, c_NDone = 0,
      c_pending = Some (False, 0, 32), c_ReceiveSuspended = ne_ReceiveSuspended e, c_Closed = False, c_received = [], c_ReenableReceiveEvent = False\<rparr>"
    using assms by (simp add: NetCxn_Start_def SerialLen_def GetBuffer_32 nb_SetPoolBuffer_def SetBuffer_def nb_IsEmpty_def nb_Clear_def
        NetBuffer_new_def ScheduleRead_def ContiguousWriteAvail_def MAX_NBYTES_def NET_IO_BATCH_SIZE_def)
  then show ?thesis using l
    by (simp add: HandleIOCompletion_def SuspendReceive_def read_into_def nb_store_def NetBuffer_new_def Fill_def MAX_NBYTES_def Let_def
        GetCallbackEvent_def HandlePacketEvent_def ReadReadyInternal_def ScheduleRead_def ContiguousWriteAvail_def NET_IO_BATCH_SIZE_def suspended_at_def)
qed

lemma suspended_data:
  "nb_ok (c_NetBuffer (suspended_at e p))" "nb_data (c_NetBuffer (suspended_at e p)) = take 20 (wire p)"
proof -
  show ok: "nb_ok (c_NetBuffer (suspended_at e p))" by (simp add: suspended_at_def nb_ok_def)
  have "ReadAvail (c_NetBuffer (suspended_at e p)) = 20" by (simp add: suspended_at_def ReadAvail_def)
  then show "nb_data (c_NetBuffer (suspended_at e p)) = take 20 (wire p)"
    using nb_data_start [OF ok] map_blit [of 0 "take 20 (wire p)" 20 "ne_heap e"] wire_ge [of p] by (simp add: suspended_at_def)
qed

text \<open>Resuming moves the header to a buffer of its own, and the read goes on into the old one.\<close>
lemma resume_moves:
  assumes "sendable e p" "32 < length (wire p)"
  obtains nb b pkt where "reenable_event e (ResumeReceive (suspended_at e p)) =
      Inr ((suspended_at e p)\<lparr>c_NetBuffer := nb, c_InternalReadBuffer := b, c_big := True, c_Packet := Some pkt,
             c_NBytes := int (length (wire p)), c_ReceiveSuspended := False\<rparr>)"
    "reading p pkt" "nb_ok nb" "nb_data nb = take 20 (wire p)" "nb_Start nb = 0" "int (length (wire p)) \<le> nb_BufSize nb"
    "nb_Buffer nb = blit (ne_heap e) 0 (take 20 (wire p))"
proof -
  let ?c = "(suspended_at e p)\<lparr>c_ReceiveSuspended := False\<rparr>" let ?L = "length (wire p)"
  have l: "?L < 2 ^ 30" using assms(1) by (simp add: sendable_def)
  have nb: "nb_ok (c_NetBuffer ?c)" "nb_data (c_NetBuffer ?c) = take 20 (wire p)" "nb_BufSize (c_NetBuffer ?c) = 32" "ReadAvail (c_NetBuffer ?c) = 20"
    using suspended_data [of e p] by (simp_all add: suspended_at_def ReadAvail_def)
  obtain pkt where pkt: "read_header e ?c = Inr (True, pkt)" "reading p pkt"
    by (rule read_header_ok [of ?c "drop 20 (wire p)" p "[]" e]) (use nb(1,2,4) assms(1) in \<open>auto simp: suspended_at_def wire_ge\<close>)
  let ?c1 = "?c\<lparr>c_Packet := Some pkt\<rparr>"
  obtain nb' b where m: "ReadMoreData e (int ?L) ?c1 =
      Inr (?c1\<lparr>c_NetBuffer := nb', c_big := True, c_NBytes := c_NDone ?c1 + int ?L - int (length (nb_data (c_NetBuffer ?c1))),
             c_InternalReadBuffer := (c_InternalReadBuffer ?c1)\<lparr>b_Memory := b\<rparr>\<rparr>)"
    "nb_ok nb'" "nb_data nb' = nb_data (c_NetBuffer ?c1)" "nb_Start nb' = 0" "int ?L \<le> nb_BufSize nb'"
    "nb_Buffer nb' = blit (ne_heap e) 0 (nb_data (c_NetBuffer ?c1))"
    by (rule ReadMoreData_ok [of ?c1 ?L e]) (use nb assms(2) l in \<open>auto simp: wire_ge\<close>)
  have "ReadReadyInternal e ?c = ReadMoreData e (int ?L) ?c1"
    using read_turn [OF _ pkt(1) reading_size(1) [OF pkt(2) l], of 19 True] nb(3,4) assms(2)
    by (simp add: ReadReadyInternal_def) (simp add: suspended_at_def)
  then have "reenable_event e (ResumeReceive (suspended_at e p)) =
      Inr ((suspended_at e p)\<lparr>c_NetBuffer := nb', c_InternalReadBuffer := (c_InternalReadBuffer ?c1)\<lparr>b_Memory := b\<rparr>, c_big := True, c_Packet := Some pkt,
             c_NBytes := int ?L, c_ReceiveSuspended := False\<rparr>)"
    using m(1) nb(2) wire_ge [of p] by (simp add: ResumeReceive_def reenable_event_def HandlePacketEvent_def ScheduleRead_def suspended_at_def min_def del: length_nb_data)
  then show ?thesis using that pkt(2) m nb(2) by simp
qed

text \<open>
  C38.  SuspendReceive does not stop the read that is outstanding.  When the header of a
  packet larger than the buffer arrives meanwhile, the event of ResumeReceive moves it to
  a new buffer, but the next read is already under way into the old one: its bytes are
  counted as read while the buffer holds what the memory held before.
\<close>
theorem resume_loses_bytes:
  assumes "sendable e p" "32 < length (wire p)" "\<not> ne_connect_closes e"
  shows "\<exists>c. bindE (NetCxn_Start e 32) (\<lambda>c. bindE (HandleIOCompletion e False (take 20 (wire p)) (SuspendReceive c))
           (\<lambda>c. bindE (reenable_event e (ResumeReceive c)) (HandleIOCompletion e False (take 12 (drop 20 (wire p)))))) = Inr c \<and>
         c_NDone c = 32 \<and> nb_data (c_NetBuffer c) = take 20 (wire p) @ map (ne_heap e) [20..<32]"
proof -
  let ?bs = "take 12 (drop 20 (wire p))" let ?L = "length (wire p)"
  have l: "?L < 2 ^ 30" "length ?bs = 12" using assms by (simp_all add: sendable_def)
  obtain nb b pkt where r: "reenable_event e (ResumeReceive (suspended_at e p)) =
      Inr ((suspended_at e p)\<lparr>c_NetBuffer := nb, c_InternalReadBuffer := b, c_big := True, c_Packet := Some pkt,
             c_NBytes := int ?L, c_ReceiveSuspended := False\<rparr>)"
      "reading p pkt" "nb_ok nb" "nb_data nb = take 20 (wire p)" "nb_Start nb = 0" "int ?L \<le> nb_BufSize nb"
      "nb_Buffer nb = blit (ne_heap e) 0 (take 20 (wire p))"
    by (rule resume_moves [OF assms(1,2)])
  have "ReadAvail nb = int (length (nb_data nb))" using ReadAvail_bounds(1) [OF r(3)] by simp
  then have ra: "ReadAvail nb = 20" unfolding r(4) using assms(2) by simp
  then have w: "12 \<le> WriteAvail nb" using r(6) assms(2) by (simp add: WriteAvail_def)
  obtain nb' where f: "Fill 12 nb = Inr nb'" "nb_ok nb'" "ReadAvail nb' = ReadAvail nb + 12" "nb_Start nb' = nb_Start nb"
      "nb_BufSize nb' = nb_BufSize nb" "nb_Buffer nb' = nb_Buffer nb"
    using Fill_ok [OF r(3) _ w] by auto
  have d: "nb_data nb' = take 20 (wire p) @ map (ne_heap e) [20..<32]"
    using nb_data_start [OF f(2)] f(3,4,6) r(5,7) ra map_blit [of 0 "take 20 (wire p)" 32 "ne_heap e"] assms(2) by simp
  let ?c = "(suspended_at e p)\<lparr>c_NetBuffer := nb', c_InternalReadBuffer := b\<lparr>b_Memory := blit (b_Memory b) 20 ?bs\<rparr>, c_big := True, c_Packet := Some pkt,
      c_NBytes := int ?L, c_NDone := 32, c_pending := None, c_ReceiveSuspended := False\<rparr>"
  have "ReadReadyInternal e ?c = Inr ?c"
    using read_turn [of ?c e pkt ?L 31 False] reading_size(1) [OF r(2) l(1)] f(3,5) ra r(6) assms(2)
    by (simp add: ReadReadyInternal_def read_header_def suspended_at_def)
  moreover have "\<exists>pd. ScheduleRead ?c = Inr (?c\<lparr>c_pending := pd\<rparr>)"
    by (rule ContiguousWriteAvail_ok [OF f(2)]) (simp add: ScheduleRead_def Let_def suspended_at_def)
  ultimately obtain pd where "HandleIOCompletion e False ?bs ((suspended_at e p)\<lparr>c_NetBuffer := nb, c_InternalReadBuffer := b, c_big := True,
      c_Packet := Some pkt, c_NBytes := int ?L, c_ReceiveSuspended := False\<rparr>) = Inr (?c\<lparr>c_pending := pd\<rparr>)"
    using f(1) l(2) assms(2) by (auto simp: HandleIOCompletion_def read_into_def GetCallbackEvent_def HandlePacketEvent_def Let_def suspended_at_def)
  then show ?thesis using suspend_start [OF assms(3), of p] r(1) d by (cases "NetCxn_Start e 32") auto
qed

text \<open>A connection of a service that sets nothing, in memory that holds ones.\<close>
definition sample_net :: net_env where
  "sample_net = \<lparr>ne_heap = (\<lambda>_. 1), ne_little = True, ne_address = 0, ne_MaxPacketSize = 0, ne_MaxPacketAlertSize = 0, ne_IsServer = True,
     ne_Remote = (0, 0), ne_Local = (0, 0), ne_ReceiveSuspended = False, ne_connect_closes = False, ne_closes = (\<lambda>_. False)\<rparr>"

lemma sample_sendable: "length d < 1000 \<Longrightarrow> sendable sample_net (proto, xid, d)"
  by (simp add: sendable_def max_size_def sample_net_def MaxNetPacketSize_def)

theorem resume_loses_bytes_witness:
  "\<exists>c. bindE (NetCxn_Start sample_net 32) (\<lambda>c. bindE (HandleIOCompletion sample_net False (take 20 (wire (1, 2, replicate 20 7))) (SuspendReceive c))
         (\<lambda>c. bindE (reenable_event sample_net (ResumeReceive c)) (HandleIOCompletion sample_net False (take 12 (drop 20 (wire (1, 2, replicate 20 7))))))) = Inr c \<and>
       c_NDone c = 32 \<and> nb_data (c_NetBuffer c) = take 20 (wire (1, 2, replicate 20 7)) @ [1, 1, 1, 1, 1, 1, 1, 1, 1, 1, 1, 1]"
  using resume_loses_bytes [of sample_net "(1, 2, replicate 20 7)"] sample_sendable [of "replicate 20 7" 1 2]
  by (simp add: sample_net_def)

end
