(* ===== verification/Net_Send.thy ===== *)
theory Net_Send
  imports Net_Cxn "HOL-Library.Multiset"
begin

text \<open>
  Sending packets: the queue and the write side of a connection, and the timeouts of
  packets (NetCxn.cpp, NetVConnection.cpp, PacketUtil.cpp under src/src/NetworkLib).
  One packet at a time is written, from its own buffer.  A packet that times out while
  it is being written is reported with a copy of its buffer, and the write goes on.
\<close>

section \<open>Packets to send\<close>

datatype TxRxStatus = TxSuccess | TxTimedOut | TxNoConnection | TxAbort

text \<open>x_id is the identity of the object; the queues hold pointers to it.\<close>
record NetPacketCtx =
  x_id :: nat
  x_Packet :: Packet
  x_Timeout :: int
  x_SendOnExisting :: bool

text \<open>se_closes says whether the application closes the connection when a packet is reported as sent.\<close>
record send_env =
  se_heap :: "nat \<Rightarrow> u8"
  se_little :: bool
  se_address :: nat
  se_IsServer :: bool
  se_FailOnDisconnect :: bool
  se_closes :: "NetPacketCtx \<Rightarrow> bool"

text \<open>
  w_Timeoutq is the queue of the timeout handler, as far as it holds packets of this
  connection: their identities and times.  w_Connected says that m_Vc is set.
  w_pending is the outstanding write: where in the buffer, and how many bytes.
  w_reported are the calls of ProcessSend, w_out the bytes that the connection has written.
\<close>
record NetWrite =
  w_NetBuffer :: NetBuffer
  w_PacketCtx :: "nat option"
  w_Sendq :: "NetPacketCtx list"
  w_DisConnectq :: "NetPacketCtx list"
  w_Timeoutq :: "(nat \<times> int) list"
  w_Connected :: bool
  w_Closed :: bool
  w_Abort :: bool
  w_NBytes :: int
  w_NDone :: int
  w_pending :: "(int \<times> int) option"
  w_reported :: "(NetPacketCtx \<times> TxRxStatus) list"
  w_out :: "u8 list"

definition lookup_ctx :: "nat \<Rightarrow> NetPacketCtx list \<Rightarrow> NetPacketCtx option" where
  "lookup_ctx i q = find (\<lambda>x. x_id x = i) q"

definition remove_ctx :: "nat \<Rightarrow> NetPacketCtx list \<Rightarrow> NetPacketCtx list" where
  "remove_ctx i q = filter (\<lambda>x. x_id x \<noteq> i) q"

definition replace_ctx :: "NetPacketCtx \<Rightarrow> NetPacketCtx list \<Rightarrow> NetPacketCtx list" where
  "replace_ctx ctx q = map (\<lambda>x. if x_id x = x_id ctx then ctx else x) q"

definition Packet_Duplicate :: "send_env \<Rightarrow> NetPacketCtx \<Rightarrow> NetPacketCtx res" where
  "Packet_Duplicate e ctx =
     bindE (pm_Duplicate (se_heap e) (pk_MemoryManager (x_Packet ctx))) (\<lambda>(_, pm).
       Inr (ctx\<lparr>x_Packet := (x_Packet ctx)\<lparr>pk_MemoryManager := pm\<rparr>\<rparr>))"

text \<open>The queue of timeouts is searched from its end.\<close>
fun insert_back :: "nat \<times> int \<Rightarrow> (nat \<times> int) list \<Rightarrow> (nat \<times> int) list" where
  "insert_back c [] = [c]"
| "insert_back c (cb # q) = (if snd cb \<le> snd c then c # cb # q else cb # insert_back c q)"

definition timeout_Enqueue :: "NetPacketCtx \<Rightarrow> (nat \<times> int) list \<Rightarrow> (nat \<times> int) list" where
  "timeout_Enqueue ctx q = rev (insert_back (x_id ctx, x_Timeout ctx) (rev q))"

definition timeout_Remove :: "nat \<Rightarrow> (nat \<times> int) list \<Rightarrow> (nat \<times> int) list" where
  "timeout_Remove i q = filter (\<lambda>c. fst c \<noteq> i) q"

definition timeout_Clear :: "NetPacketCtx list \<Rightarrow> (nat \<times> int) list \<Rightarrow> (nat \<times> int) list" where
  "timeout_Clear ctxs q = fold (\<lambda>ctx. timeout_Remove (x_id ctx)) ctxs q"

section \<open>Closing\<close>

text \<open>
  What CloseConnection does to the write side.  IOClose gives up the socket: the
  completion of a write that is outstanding is ignored.
\<close>
definition CloseWrite :: "send_env \<Rightarrow> bool \<Rightarrow> NetWrite \<Rightarrow> NetWrite res" where
  "CloseWrite e abort w =
     (let w = (if abort then w\<lparr>w_Abort := True\<rparr> else w) in
      if w_Closed w then Inr w
      else let w = w\<lparr>w_Closed := True\<rparr>;
               w = (if w_Abort w \<or> se_IsServer e \<or> se_FailOnDisconnect e
                    then w\<lparr>w_Timeoutq := timeout_Clear (w_Sendq w) (w_Timeoutq w), w_DisConnectq := w_DisConnectq w @ w_Sendq w, w_Sendq := []\<rparr>
                    else w)
           in if w_Connected w
              then bindE (case w_PacketCtx w of
                       None \<Rightarrow> Inr w
                     | Some i \<Rightarrow>
                         (case lookup_ctx i (w_Sendq w @ w_DisConnectq w) of
                            None \<Rightarrow> Inl OutOfBounds
                          | Some ctx \<Rightarrow> bindE (Packet_Duplicate e ctx) (\<lambda>ctx.
                              Inr (w\<lparr>w_Sendq := replace_ctx ctx (w_Sendq w), w_DisConnectq := replace_ctx ctx (w_DisConnectq w), w_PacketCtx := None\<rparr>)))) (\<lambda>w.
                   Inr (w\<lparr>w_Connected := False, w_pending := None\<rparr>))
              else Inr w)"

definition ReConnect :: "send_env \<Rightarrow> NetWrite \<Rightarrow> NetWrite res" where
  "ReConnect e w =
     bindE (log_assert (\<not> se_IsServer e) ()) (\<lambda>_.
     bindE (log_assert (w_DisConnectq w = []) ()) (\<lambda>_.
       Inr (w\<lparr>w_PacketCtx := None, w_NetBuffer := nb_Clear (w_NetBuffer w), w_Closed := False, w_Abort := False\<rparr>)))"

definition CloseCleanup :: "send_env \<Rightarrow> NetWrite \<Rightarrow> NetWrite res" where
  "CloseCleanup e w =
     bindE (log_assert (w_Closed w) ()) (\<lambda>_.
     let status = (if w_Abort w then TxAbort else TxNoConnection);
         w = w\<lparr>w_reported := w_reported w @ map (\<lambda>ctx. (ctx, status)) (w_DisConnectq w), w_DisConnectq := []\<rparr>
     in if w_Sendq w \<noteq> [] then ReConnect e w else Inr w)"

section \<open>Writing\<close>

text \<open>The next packet of the queue is written from its own buffer.\<close>
definition load_packet :: "send_env \<Rightarrow> NetWrite \<Rightarrow> NetWrite res" where
  "load_packet e w =
     (case w_Sendq w of
        [] \<Rightarrow> Inr w
      | ctx # q \<Rightarrow>
          bindE (Packet_Serialize (se_little e) (se_address e) (x_Packet ctx)) (\<lambda>pkt.
          bindE (nb_SetPoolBuffer (pm_Buffer (pk_MemoryManager pkt)) (w_NetBuffer w)) (\<lambda>nb.
          bindE (Fill (sint (GetPacketLength pkt)) nb) (\<lambda>nb.
            Inr (w\<lparr>w_Sendq := ctx\<lparr>x_Packet := pkt\<rparr> # q, w_NetBuffer := nb, w_PacketCtx := Some (x_id ctx)\<rparr>)))))"

definition ProcessQueuedPacketsForWrite :: "send_env \<Rightarrow> bool \<Rightarrow> NetWrite \<Rightarrow> NetWrite res" where
  "ProcessQueuedPacketsForWrite e inWriteCallback w =
     (if \<not> nb_IsEmpty (w_NetBuffer w) then Inr w
      else case w_PacketCtx w of
             None \<Rightarrow> load_packet e (w\<lparr>w_NetBuffer := nb_Clear (w_NetBuffer w)\<rparr>)
           | Some i \<Rightarrow>
               bindE (log_assert inWriteCallback ()) (\<lambda>_.
                 case lookup_ctx i (w_Sendq w) of
                   None \<Rightarrow> Inl OutOfBounds
                 | Some ctx \<Rightarrow>
                     bindE (let w = w\<lparr>w_Timeoutq := timeout_Remove i (w_Timeoutq w), w_Sendq := tl (w_Sendq w), w_PacketCtx := None,
                                    w_NetBuffer := nb_Clear (w_NetBuffer w), w_reported := w_reported w @ [(ctx, TxSuccess)]\<rparr>
                            in if se_closes e ctx then CloseWrite e False w else Inr w) (\<lambda>w.
                       if w_Closed w then Inr w else load_packet e w)))"

definition ScheduleWrite :: "NetWrite \<Rightarrow> NetWrite res" where
  "ScheduleWrite w =
     (if w_Closed w \<or> w_pending w \<noteq> None then Inr w
      else bindE (ContiguousReadAvail (w_NetBuffer w)) (\<lambda>avail.
        let todo = w_NBytes w - w_NDone w in
        if todo = 0 \<or> avail = 0 then Inr w
        else Inr (w\<lparr>w_pending := Some (nb_Start (w_NetBuffer w), min (min todo avail) NET_IO_BATCH_SIZE)\<rparr>)))"

definition WriteReadyInternal :: "send_env \<Rightarrow> bool \<Rightarrow> NetWrite \<Rightarrow> NetWrite res" where
  "WriteReadyInternal e inWriteCallback w =
     bindE (ProcessQueuedPacketsForWrite e inWriteCallback w) (\<lambda>w.
       if w_PacketCtx w \<noteq> None \<and> \<not> inWriteCallback then ScheduleWrite w else Inr w)"

definition EnqueuePacket :: "send_env \<Rightarrow> NetPacketCtx \<Rightarrow> NetWrite \<Rightarrow> (TxRxStatus \<times> NetWrite) res" where
  "EnqueuePacket e ctx w =
     (if w_Closed w \<and> (se_IsServer e \<or> x_SendOnExisting ctx \<and> w_Sendq w = []) then Inr (TxNoConnection, w)
      else let w = w\<lparr>w_Sendq := w_Sendq w @ [ctx], w_Timeoutq := timeout_Enqueue ctx (w_Timeoutq w)\<rparr>
           in bindE (if w_Connected w then WriteReadyInternal e False w else Inr w) (\<lambda>w. Inr (TxSuccess, w)))"

text \<open>
  The outstanding write completes, after the system has taken n bytes from the buffer.
  The event WRITE_COMPLETE is not expected by the connection.
\<close>
definition HandleWriteCompletion :: "send_env \<Rightarrow> bool \<Rightarrow> nat \<Rightarrow> NetWrite \<Rightarrow> NetWrite res" where
  "HandleWriteCompletion e failed n w =
     (case w_pending w of
        None \<Rightarrow> Inl AssertFailed
      | Some (off, _) \<Rightarrow>
          bindE (nb_load off (int n) (w_NetBuffer w)) (\<lambda>bs.
          let w = w\<lparr>w_out := w_out w @ bs\<rparr> in
          bindE (log_assert (w_NBytes w - w_NDone w > 0) ()) (\<lambda>_.
          bindE (if n > 0
                 then bindE (log_assert (int n \<le> w_NBytes w - w_NDone w) ()) (\<lambda>_.
                      bindE (Consume (int n) (w_NetBuffer w)) (\<lambda>nb. Inr (w\<lparr>w_NetBuffer := nb, w_NDone := w_NDone w + int n\<rparr>)))
                 else Inr w) (\<lambda>w.
          let w = w\<lparr>w_pending := None\<rparr> in
          if failed then bindE (CloseWrite e False w) (CloseCleanup e)
          else if w_NBytes w = w_NDone w then Inl AssertFailed
          else bindE (WriteReadyInternal e True w) (\<lambda>w.
               if w_Closed w then CloseCleanup e w else ScheduleWrite w)))))"

text \<open>The write side of Start, for a new connection.\<close>
definition NetWrite_Start :: "send_env \<Rightarrow> NetWrite \<Rightarrow> NetWrite res" where
  "NetWrite_Start e w =
     bindE (ProcessQueuedPacketsForWrite e False (w\<lparr>w_Connected := True, w_NetBuffer := nb_Clear (w_NetBuffer w), w_PacketCtx := None\<rparr>)) (\<lambda>w.
       ScheduleWrite (w\<lparr>w_NBytes := MAX_NBYTES, w_NDone := 0, w_pending := None, w_out := []\<rparr>))"

section \<open>Timeouts\<close>

fun expire :: "send_env \<Rightarrow> nat \<Rightarrow> int \<Rightarrow> NetWrite \<Rightarrow> NetWrite res" where
  "expire e 0 now w = Inr w"
| "expire e (Suc k) now w =
     (case w_Timeoutq w of
        [] \<Rightarrow> Inr w
      | (i, t) # _ \<Rightarrow>
          if t \<le> now
          then case lookup_ctx i (w_Sendq w) of
                 None \<Rightarrow> Inl OutOfBounds
               | Some ctx \<Rightarrow>
                   bindE (if w_PacketCtx w = Some i then Packet_Duplicate e ctx else Inr ctx) (\<lambda>ctx.
                     expire e k now (w\<lparr>w_Timeoutq := timeout_Remove i (w_Timeoutq w), w_Sendq := remove_ctx i (w_Sendq w),
                       w_PacketCtx := (if w_PacketCtx w = Some i then None else w_PacketCtx w),
                       w_reported := w_reported w @ [(ctx, TxTimedOut)]\<rparr>))
          else Inr w)"

definition EventTimeout :: "send_env \<Rightarrow> int \<Rightarrow> NetWrite \<Rightarrow> NetWrite res" where
  "EventTimeout e now w = expire e (length (w_Timeoutq w)) now w"

section \<open>Runs\<close>

text \<open>
  A connection is first, and after each loss, without a socket.  Written is the
  completion of a write with at least one byte.  A closed connection is gone.
\<close>
datatype send_op = Send NetPacketCtx | Written nat | Tick int | Lost | Connect

definition NetWrite_new :: NetWrite where
  "NetWrite_new =
     \<lparr>w_NetBuffer = NetBuffer_new (\<lambda>_. 0) 0, w_PacketCtx = None, w_Sendq = [], w_DisConnectq = [], w_Timeoutq = [], w_Connected = False, w_Closed = False,
      w_Abort = False, w_NBytes = 0, w_NDone = 0, w_pending = None, w_reported = [], w_out = []\<rparr>"

fun send_step :: "send_env \<Rightarrow> send_op \<Rightarrow> NetWrite \<Rightarrow> NetWrite res" where
  "send_step e (Send ctx) w = bindE (EnqueuePacket e ctx w) (\<lambda>(_, w). Inr w)"
| "send_step e (Written n) w =
     (case w_pending w of None \<Rightarrow> Inr w | Some (_, todo) \<Rightarrow> HandleWriteCompletion e False (1 + n mod nat todo) w)"
| "send_step e (Tick now) w = EventTimeout e now w"
| "send_step e Lost w = (if w_Connected w then bindE (CloseWrite e False w) (CloseCleanup e) else Inr w)"
| "send_step e Connect w = (if w_Connected w then Inr w else NetWrite_Start e w)"

fun send_run :: "send_env \<Rightarrow> send_op list \<Rightarrow> NetWrite \<Rightarrow> NetWrite res" where
  "send_run e [] w = Inr w"
| "send_run e (op # ops) w = (if w_Closed w then Inr w else bindE (send_step e op w) (send_run e ops))"

section \<open>Packets and their bytes\<close>

lemma set_insert_back: "set (insert_back c q) = insert c (set q)" "mset (insert_back c q) = add_mset c (mset q)"
  by (induction q) auto

lemma insert_back_ids: "fst ` set (timeout_Enqueue ctx q) = insert (x_id ctx) (fst ` set q)"
  by (auto simp: timeout_Enqueue_def set_insert_back)

lemma insert_back_distinct: "distinct (map fst q) \<Longrightarrow> x_id ctx \<notin> fst ` set q \<Longrightarrow> distinct (map fst (timeout_Enqueue ctx q))"
proof -
  assume "distinct (map fst q)" "x_id ctx \<notin> fst ` set q"
  moreover have "distinct (map fst (insert_back c r)) \<longleftrightarrow> fst c \<notin> fst ` set r \<and> distinct (map fst r)" for c and r :: "(nat \<times> int) list"
    by (induction r) (auto simp: set_insert_back)
  ultimately show ?thesis by (simp add: timeout_Enqueue_def flip: rev_map)
qed

lemma insert_back_sorted: "sorted (map snd q) \<Longrightarrow> sorted (map snd (timeout_Enqueue ctx q))"
proof -
  have "sorted_wrt (\<lambda>x y. y \<le> x) (map snd r) \<Longrightarrow> sorted_wrt (\<lambda>x y. y \<le> x) (map snd (insert_back c r))" for c and r :: "(nat \<times> int) list"
    by (induction r) (auto simp: set_insert_back)
  moreover assume "sorted (map snd q)"
  ultimately show ?thesis by (simp add: timeout_Enqueue_def sorted_wrt_rev flip: rev_map)
qed

text \<open>Who a packet is, and what it says.\<close>
definition ctx_key :: "NetPacketCtx \<Rightarrow> nat \<times> packet_view" where
  "ctx_key ctx = (x_id ctx, pk_view (x_Packet ctx))"

text \<open>A pool buffer of at most a gigabyte.\<close>
definition ctx_ok :: "NetPacketCtx \<Rightarrow> bool" where
  "ctx_ok ctx \<longleftrightarrow> pm_ok (pk_MemoryManager (x_Packet ctx)) \<and> unat (b_Size (pm_Buffer (pk_MemoryManager (x_Packet ctx)))) \<le> 2 ^ 30"

lemma key_id: "fst (ctx_key ctx) = x_id ctx"
  by (simp add: ctx_key_def)

lemma Packet_Duplicate_ok:
  assumes "ctx_ok ctx"
  shows "\<exists>ctx'. Packet_Duplicate e ctx = Inr ctx' \<and> ctx_ok ctx' \<and> ctx_key ctx' = ctx_key ctx"
proof -
  let ?pm = "pk_MemoryManager (x_Packet ctx)" let ?b = "pm_Buffer ?pm" let ?n = "SerialLen + pm_validLength ?pm"
  have ok: "pm_ok ?pm" "20 \<le> unat (b_Size ?b)" "unat (b_Size ?b) \<le> 2 ^ 30" using assms by (auto simp: ctx_ok_def pm_ok_def)
  obtain k where k: "GetBuffer (se_heap e) (b_Size ?b) = Inr \<lparr>b_Size = push_bit k 1, b_Memory = se_heap e\<rparr>" "unat (b_Size ?b) \<le> 2 ^ k" "2 ^ k < 2 * unat (b_Size ?b)" "k \<le> 31"
    using GetBuffer_ok [of "b_Size ?b" "se_heap e"] ok(2,3) by auto
  have "(2 :: nat) ^ k < 2 ^ 31" using k(3) ok(3) by simp
  then have "k \<le> 30" using power_less_imp_less_exp [of "2 :: nat" k 31] by simp
  then have k30: "(2 :: nat) ^ k \<le> 2 ^ 30" by (rule power_increasing) simp
  have s: "unat (push_bit k 1 :: u32) = 2 ^ k" using unat_pow2 [of k] k(4) by simp
  have n: "unat ?n = 20 + unat (pm_validLength ?pm)" "unat ?n \<le> unat (b_Size ?b)" using packet_length [of "x_Packet ctx"] ok(1) by (simp_all add: GetPacketLength_def)
  let ?m = "blit (se_heap e) 0 (map (b_Memory ?b) [0..<unat ?n])"
  let ?new = "?pm\<lparr>pm_Buffer := \<lparr>b_Size = push_bit k 1, b_Memory = ?m\<rparr>, pm_dataBufferLength := push_bit k 1 - SerialLen\<rparr>"
  let ?ctx = "ctx\<lparr>x_Packet := (x_Packet ctx)\<lparr>pk_MemoryManager := ?new\<rparr>\<rparr>"
  have le: "?n \<le> b_Size ?b" "?n \<le> push_bit k 1" unfolding word_le_nat_alt s using n(2) k(2) by simp_all
  then have d: "Packet_Duplicate e ctx = Inr ?ctx" using k(1) by (simp add: Packet_Duplicate_def pm_Duplicate_def copy_packet_def del: push_bit_of_1)
  have "unat (push_bit k 1 - SerialLen :: u32) = 2 ^ k - 20" using s k(2) ok(2) by (simp add: unat_sub word_le_nat_alt SerialLen_def del: push_bit_of_1)
  then have "pm_validLength ?pm \<le> push_bit k 1 - SerialLen" unfolding word_le_nat_alt using n k(2) by simp
  then have "ctx_ok ?ctx" using ok k(2) k30 s by (auto simp: ctx_ok_def pm_ok_def simp del: push_bit_of_1)
  moreover have "map ?m [20..<20 + unat (pm_validLength ?pm)] = map (b_Memory ?b) [20..<20 + unat (pm_validLength ?pm)]"
    unfolding n(1) by (rule map_cong) (auto simp: blit_def)
  then have "ctx_key ?ctx = ctx_key ctx" by (simp add: ctx_key_def pk_view_def pk_data_def pk_memory_def)
  ultimately show ?thesis using d by blast
qed

lemma load_packet_ok:
  assumes "nb_IsEmpty (w_NetBuffer w)" "w_Sendq w = ctx # q" "ctx_ok ctx"
  obtains ctx' nb where "load_packet e w = Inr (w\<lparr>w_Sendq := ctx' # q, w_NetBuffer := nb, w_PacketCtx := Some (x_id ctx)\<rparr>)"
    "ctx_ok ctx'" "ctx_key ctx' = ctx_key ctx" "nb_ok nb" "nb_data nb = wire (snd (ctx_key ctx))"
proof -
  let ?p = "x_Packet ctx"
  obtain p where p: "Packet_Serialize (se_little e) (se_address e) ?p = Inr p" "pm_ok (pk_MemoryManager p)" "pk_data p = pk_data ?p"
    "unat (GetPacketLength p) = 20 + length (pk_data ?p)"
    "map (pk_memory p) [0..<20 + length (pk_data ?p)] = packet_wire (h_ProtoVersion (pk_Hdr ?p)) (h_Xid (pk_Hdr ?p)) (pk_data ?p)"
    "h_ProtoVersion (pk_Hdr p) = h_ProtoVersion (pk_Hdr ?p)" "h_Xid (pk_Hdr p) = h_Xid (pk_Hdr ?p)"
    "b_Size (pm_Buffer (pk_MemoryManager p)) = b_Size (pm_Buffer (pk_MemoryManager ?p))"
    using assms(3) by (rule_tac Packet_Serialize_ok [of ?p "se_little e" "se_address e"]) (simp_all add: ctx_ok_def)
  let ?b = "pm_Buffer (pk_MemoryManager p)" let ?L = "20 + length (pk_data ?p)"
  have size: "unat (b_Size ?b) \<le> 2 ^ 30" "?L \<le> unat (b_Size ?b)" using assms(3) p(8) packet_length(2) [OF p(2)] p(4) by (simp_all add: ctx_ok_def)
  then have sz: "sint (b_Size ?b) = int (unat (b_Size ?b))" "sint (GetPacketLength p) = int ?L"
    using sint_eq_unat [of "b_Size ?b"] sint_eq_unat [of "GetPacketLength p"] p(4) by simp_all
  let ?n = "NetBuffer_new (b_Memory ?b) (int (unat (b_Size ?b)))"
  have "0 < int (unat (b_Size ?b))" using size(2) by linarith
  then have n: "nb_ok ?n" "ReadAvail ?n = 0" "WriteAvail ?n = int (unat (b_Size ?b))" "nb_Start ?n = 0" "nb_Buffer ?n = b_Memory ?b"
    by (rule nb_new_ok) (simp_all add: ReadAvail_def WriteAvail_def NetBuffer_new_def)
  have "int ?L \<le> WriteAvail ?n" unfolding n(3) of_nat_le_iff by (rule size(2))
  then obtain nb where f: "Fill (int ?L) ?n = Inr nb" "nb_ok nb" "ReadAvail nb = ReadAvail ?n + int ?L" "nb_Start nb = nb_Start ?n" "nb_Buffer nb = nb_Buffer ?n"
    by (rule Fill_ok [OF n(1) of_nat_0_le_iff])
  note f = f [unfolded n(2,4,5) add_0]
  have "nb_data nb = map (pk_memory p) [0..<?L]" unfolding nb_data_start [OF f(2,4)] f(3,5) nat_int by (simp add: pk_memory_def)
  then have d: "nb_data nb = wire (snd (ctx_key ctx))" using p(5) by (simp add: ctx_key_def pk_view_def)
  have "nb_SetPoolBuffer ?b (w_NetBuffer w) = Inr ?n" using assms(1) sz(1) by (simp add: nb_SetPoolBuffer_def SetBuffer_def)
  then have "load_packet e w = Inr (w\<lparr>w_Sendq := ctx\<lparr>x_Packet := p\<rparr> # q, w_NetBuffer := nb, w_PacketCtx := Some (x_id ctx)\<rparr>)"
    using p(1) f(1) sz(2) assms(2) by (simp add: load_packet_def)
  moreover have "ctx_ok (ctx\<lparr>x_Packet := p\<rparr>)" "ctx_key (ctx\<lparr>x_Packet := p\<rparr>) = ctx_key ctx"
    using p size(1) by (simp_all add: ctx_ok_def ctx_key_def pk_view_def)
  ultimately show ?thesis using that f(2) d by blast
qed

lemma ScheduleWrite_ok:
  assumes "nb_ok (w_NetBuffer w)" "nb_data (w_NetBuffer w) \<noteq> []" "\<not> w_Closed w" "w_pending w = None" "w_NDone w < w_NBytes w"
  obtains todo where "ScheduleWrite w = Inr (w\<lparr>w_pending := Some (nb_Start (w_NetBuffer w), todo)\<rparr>)" "0 < todo" "todo \<le> w_NBytes w - w_NDone w"
    "\<forall>n \<le> nat todo. n \<le> length (nb_data (w_NetBuffer w)) \<and> nb_load (nb_Start (w_NetBuffer w)) (int n) (w_NetBuffer w) = Inr (take n (nb_data (w_NetBuffer w)))"
proof -
  let ?nb = "w_NetBuffer w"
  obtain k where k: "ContiguousReadAvail ?nb = Inr (int k)" "k \<le> length (nb_data ?nb)" "\<forall>i < k. nb_data ?nb ! i = nb_Buffer ?nb (nat (nb_Start ?nb) + i)"
    by (rule ContiguousReadAvail_ok [OF assms(1)])
  have pos: "0 < k \<and> nb_Start ?nb + int k \<le> nb_BufSize ?nb"
  proof -
    have "ReadAvail ?nb \<noteq> 0" using assms(2) by (auto simp: nb_data_def)
    then show ?thesis using k(1) assms(1) by (auto simp: ContiguousReadAvail_def nb_ok_def ReadAvail_def log_assert_def Let_def split: if_splits)
  qed
  let ?t = "min (min (w_NBytes w - w_NDone w) (int k)) NET_IO_BATCH_SIZE"
  have "ScheduleWrite w = Inr (w\<lparr>w_pending := Some (nb_Start ?nb, ?t)\<rparr>)" using k(1) pos assms(3-5) by (simp add: ScheduleWrite_def Let_def)
  moreover have "n \<le> length (nb_data ?nb) \<and> nb_load (nb_Start ?nb) (int n) ?nb = Inr (take n (nb_data ?nb))" if "n \<le> nat ?t" for n
  proof -
    have n: "n \<le> k" using that by simp
    have s: "0 \<le> nb_Start ?nb" using assms(1) by (simp add: nb_ok_def)
    have "map (nb_Buffer ?nb) [nat (nb_Start ?nb)..<nat (nb_Start ?nb + int n)] = take n (nb_data ?nb)"
      by (rule nth_equalityI) (use k(2,3) n s in \<open>auto simp: nat_add_distrib simp del: length_nb_data\<close>)
    then show ?thesis using n k(2) pos s by (simp add: nb_load_def del: length_nb_data)
  qed
  ultimately show ?thesis using that [of ?t] pos assms(5) by (simp add: NET_IO_BATCH_SIZE_def del: length_nb_data)
qed

section \<open>The invariant\<close>

text \<open>Every packet is in the queue, or has been reported once.\<close>
definition accounted :: "NetPacketCtx list \<Rightarrow> NetWrite \<Rightarrow> bool" where
  "accounted sent w \<longleftrightarrow> mset (map ctx_key (w_Sendq w)) + mset (map ctx_key (w_DisConnectq w)) + mset (map (ctx_key \<circ> fst) (w_reported w)) = mset (map ctx_key sent)"

definition queue_inv :: "NetWrite \<Rightarrow> bool" where
  "queue_inv w \<longleftrightarrow> distinct (map x_id (w_Sendq w)) \<and> (\<forall>ctx \<in> set (w_Sendq w). ctx_ok ctx) \<and>
     distinct (map fst (w_Timeoutq w)) \<and> fst ` set (w_Timeoutq w) = x_id ` set (w_Sendq w) \<and> sorted (map snd (w_Timeoutq w))"

text \<open>The packets that have not been started.\<close>
definition unstarted :: "NetWrite \<Rightarrow> NetPacketCtx list" where
  "unstarted w = (if w_PacketCtx w = None then w_Sendq w else tl (w_Sendq w))"

text \<open>The outstanding write is of the next bytes of the buffer.\<close>
definition writing :: "NetWrite \<Rightarrow> bool" where
  "writing w \<longleftrightarrow> (\<exists>todo. w_pending w = Some (nb_Start (w_NetBuffer w), todo) \<and> 0 < todo \<and> todo \<le> w_NBytes w - w_NDone w \<and>
     (\<forall>n \<le> nat todo. n \<le> length (nb_data (w_NetBuffer w)) \<and> nb_load (nb_Start (w_NetBuffer w)) (int n) (w_NetBuffer w) = Inr (take n (nb_data (w_NetBuffer w)))))"

definition busy :: "(nat \<times> packet_view) list \<Rightarrow> NetWrite \<Rightarrow> bool" where
  "busy started w \<longleftrightarrow> nb_ok (w_NetBuffer w) \<and> nb_data (w_NetBuffer w) \<noteq> [] \<and>
     (\<forall>i. w_PacketCtx w = Some i \<longrightarrow> (\<exists>ctx q. w_Sendq w = ctx # q \<and> x_id ctx = i \<and> started \<noteq> [] \<and> last started = ctx_key ctx))"

definition idle :: "NetWrite \<Rightarrow> bool" where
  "idle w \<longleftrightarrow> nb_IsEmpty (w_NetBuffer w) \<and> nb_data (w_NetBuffer w) = [] \<and> w_PacketCtx w = None \<and> w_Sendq w = [] \<and> w_pending w = None"

text \<open>started are the packets of which this connection has written a part.\<close>
definition stream_inv :: "NetPacketCtx list \<Rightarrow> (nat \<times> packet_view) list \<Rightarrow> NetWrite \<Rightarrow> bool" where
  "stream_inv sent started w \<longleftrightarrow> w_NBytes w = MAX_NBYTES \<and> w_NDone w = int (length (w_out w)) \<and>
     w_out w @ nb_data (w_NetBuffer w) = concat (map (wire \<circ> snd) started) \<and>
     mset started + mset (map ctx_key (unstarted w)) \<subseteq># mset (map ctx_key sent)"

definition send_inv :: "NetPacketCtx list \<Rightarrow> (nat \<times> packet_view) list \<Rightarrow> NetWrite \<Rightarrow> bool" where
  "send_inv sent started w \<longleftrightarrow> queue_inv w \<and> accounted sent w \<and> w_DisConnectq w = [] \<and> \<not> w_Abort w \<and> \<not> w_Closed w \<and>
     (if w_Connected w then stream_inv sent started w \<and> (idle w \<or> busy started w \<and> writing w)
      else w_PacketCtx w = None \<and> w_pending w = None)"

lemma field_simps_send [simp]:
  "queue_inv (w\<lparr>w_pending := pd\<rparr>) = queue_inv w" "accounted sent (w\<lparr>w_pending := pd\<rparr>) = accounted sent w"
  "stream_inv sent started (w\<lparr>w_pending := pd\<rparr>) = stream_inv sent started w" "busy started (w\<lparr>w_pending := pd\<rparr>) = busy started w"
  "queue_inv (w\<lparr>w_NetBuffer := nb\<rparr>) = queue_inv w" "accounted sent (w\<lparr>w_NetBuffer := nb\<rparr>) = accounted sent w"
  "unstarted (w\<lparr>w_pending := pd\<rparr>) = unstarted w" "unstarted (w\<lparr>w_NetBuffer := nb\<rparr>) = unstarted w"
  by (simp_all add: queue_inv_def accounted_def stream_inv_def busy_def unstarted_def cong: if_cong)

definition total_bytes :: "NetPacketCtx list \<Rightarrow> nat" where
  "total_bytes sent = (\<Sum>ctx \<leftarrow> sent. length (wire (snd (ctx_key ctx))))"

lemma stream_length:
  assumes "stream_inv sent started w" "total_bytes sent < 2 ^ 62"
  shows "w_NDone w + int (length (nb_data (w_NetBuffer w))) < MAX_NBYTES"
proof -
  let ?f = "\<lambda>k :: nat \<times> packet_view. length (wire (snd k))"
  have s: "sum_mset (image_mset ?f (mset (map ctx_key sent))) = total_bytes sent" by (simp add: total_bytes_def sum_mset_sum_list comp_def flip: mset_map)
  have st: "sum_mset (image_mset ?f (mset started)) = length (concat (map (wire \<circ> snd) started))" by (simp add: length_concat sum_mset_sum_list comp_def flip: mset_map)
  have "mset started \<subseteq># mset (map ctx_key sent)" using assms(1) mset_subset_eq_add_left subset_mset.order_trans unfolding stream_inv_def by blast
  then obtain M where "mset (map ctx_key sent) = mset started + M" unfolding mset_subset_eq_exists_conv by blast
  then have "sum_mset (image_mset ?f (mset started)) \<le> sum_mset (image_mset ?f (mset (map ctx_key sent)))"
    by (simp only: image_mset_union sum_mset.union le_add1)
  then have "length (w_out w @ nb_data (w_NetBuffer w)) < 2 ^ 62" using s st assms by (simp add: stream_inv_def del: length_nb_data length_append)
  then have "int (length (w_out w @ nb_data (w_NetBuffer w))) < int (2 ^ 62)" unfolding of_nat_less_iff .
  then show ?thesis using assms(1) by (simp add: stream_inv_def MAX_NBYTES_def del: length_nb_data)
qed

text \<open>Loading the next packet and scheduling its write.\<close>
lemma load_schedule_ok:
  assumes "nb_IsEmpty (w_NetBuffer w)" "nb_data (w_NetBuffer w) = []" "w_PacketCtx w = None" "w_pending w = None" "queue_inv w" "accounted sent w"
    "w_DisConnectq w = []" "\<not> w_Abort w" "\<not> w_Closed w" "w_Connected w" "stream_inv sent started w" "total_bytes sent < 2 ^ 62"
  obtains w1 w' where "load_packet e w = Inr w1" "ScheduleWrite w1 = Inr w'"
    "send_inv sent (if w_Sendq w = [] then started else started @ [ctx_key (hd (w_Sendq w))]) w'"
    "w_Closed w1 = w_Closed w" "w_PacketCtx w1 = None \<longleftrightarrow> w_Sendq w = []" "w_reported w' = w_reported w" "map ctx_key (w_Sendq w') = map ctx_key (w_Sendq w)"
    "w_PacketCtx w' = None \<longleftrightarrow> w_Sendq w' = []" "w_out w' = w_out w" "w_Connected w'" "w_Sendq w' = [] \<longrightarrow> idle w'"
proof (cases "w_Sendq w")
  case Nil
  have "ContiguousReadAvail (w_NetBuffer w) = Inr 0" using assms(1) by (simp add: ContiguousReadAvail_def nb_IsEmpty_def)
  then have "ScheduleWrite w = Inr w" by (simp add: ScheduleWrite_def)
  moreover have "send_inv sent started w" "idle w" using assms Nil by (simp_all add: send_inv_def idle_def)
  ultimately show ?thesis using that [of w w] Nil assms(3,10) by (simp add: load_packet_def)
next
  case (Cons ctx q)
  obtain ctx' nb where l: "load_packet e w = Inr (w\<lparr>w_Sendq := ctx' # q, w_NetBuffer := nb, w_PacketCtx := Some (x_id ctx)\<rparr>)"
      "ctx_ok ctx'" "ctx_key ctx' = ctx_key ctx" "nb_ok nb" "nb_data nb = wire (snd (ctx_key ctx))"
    using assms(5) Cons by (rule_tac load_packet_ok [OF assms(1) Cons, of e]) (auto simp: queue_inv_def)
  let ?w = "w\<lparr>w_Sendq := ctx' # q, w_NetBuffer := nb, w_PacketCtx := Some (x_id ctx)\<rparr>" let ?s = "started @ [ctx_key ctx]"
  have id: "x_id ctx' = x_id ctx" using l(3) by (simp add: ctx_key_def)
  have st: "stream_inv sent ?s ?w" using assms(2,3,11) l(5) Cons by (simp add: stream_inv_def unstarted_def)
  have ne: "nb_data nb \<noteq> []" using wire_ge [of "snd (ctx_key ctx)"] l(5) by auto
  have "w_NDone ?w < w_NBytes ?w" using stream_length [OF st assms(12)] st by (simp add: stream_inv_def del: length_nb_data)
  then obtain todo where t: "ScheduleWrite ?w = Inr (?w\<lparr>w_pending := Some (nb_Start nb, todo)\<rparr>)" "0 < todo" "todo \<le> w_NBytes w - w_NDone w"
      "\<forall>n \<le> nat todo. n \<le> length (nb_data nb) \<and> nb_load (nb_Start nb) (int n) nb = Inr (take n (nb_data nb))"
    using ScheduleWrite_ok [of ?w] l(4) ne assms(4,9) by auto
  let ?w' = "?w\<lparr>w_pending := Some (nb_Start nb, todo)\<rparr>"
  have "queue_inv ?w'" using assms(5) Cons l(2) id by (simp add: queue_inv_def)
  moreover have "accounted sent ?w'" using assms(6) Cons l(3) by (simp add: accounted_def)
  moreover have "busy ?s ?w'" using l(3,4) ne id by (simp add: busy_def)
  moreover have "writing ?w'" using t(2-4) by (simp add: writing_def)
  moreover have "stream_inv sent ?s ?w'" using st by (simp add: stream_inv_def unstarted_def)
  ultimately have "send_inv sent ?s ?w'" using assms(7-10) by (simp add: send_inv_def)
  then show ?thesis using that [OF l(1) t(1)] Cons l(3) assms(10) by simp
qed

section \<open>Steps\<close>

lemma nb_IsEmpty_data: "nb_IsEmpty nb \<Longrightarrow> nb_data nb = []"
  by (simp add: nb_IsEmpty_def nb_data_def ReadAvail_def)

lemma nb_Clear_empty: "nb_IsEmpty (nb_Clear nb)" "nb_data (nb_Clear nb) = []"
  by (simp_all add: nb_IsEmpty_data nb_IsEmpty_def nb_Clear_def NetBuffer_new_def)

lemma lookup_ctx_in:
  assumes "i \<in> x_id ` set q"
  obtains ctx where "lookup_ctx i q = Some ctx" "ctx \<in> set q" "x_id ctx = i"
proof (cases "lookup_ctx i q")
  case None
  then show ?thesis using assms by (auto simp: lookup_ctx_def find_None_iff)
next
  case (Some ctx)
  moreover from this have "ctx \<in> set q" "x_id ctx = i" by (auto simp: lookup_ctx_def find_Some_iff)
  ultimately show ?thesis by (rule that)
qed

lemma map_key_replace: "ctx_key ctx' = ctx_key ctx \<Longrightarrow> ctx \<in> set q \<Longrightarrow> distinct (map x_id q) \<Longrightarrow> map ctx_key (replace_ctx ctx' q) = map ctx_key q"
  unfolding replace_ctx_def map_map comp_def
  by (rule map_cong) (auto simp: ctx_key_def, metis distinct_map inj_onD)+

lemma ids_of_keys:
  assumes "map ctx_key q = map ctx_key q'"
  shows "map x_id q = map x_id q'"
proof -
  have "map x_id q = map fst (map ctx_key q)" for q by (simp add: ctx_key_def)
  then show ?thesis using assms by metis
qed

text \<open>What a run keeps of a connection that is gone, and of one that is not.\<close>
definition send_ok :: "NetPacketCtx list \<Rightarrow> NetWrite \<Rightarrow> bool" where
  "send_ok sent w \<longleftrightarrow> (if w_Closed w then accounted sent w \<and> w_Sendq w = [] \<and> w_DisConnectq w = [] else \<exists>started. send_inv sent started w)"

text \<open>Closing: the packets are reported, or wait for the next connection.\<close>
lemma close_ok:
  assumes "queue_inv w" "accounted sent w" "w_DisConnectq w = []" "\<not> w_Abort w" "\<not> w_Closed w" "w_Connected w"
    "\<forall>i. w_PacketCtx w = Some i \<longrightarrow> i \<in> x_id ` set (w_Sendq w)"
  shows "\<exists>w1 w2. CloseWrite e False w = Inr w1 \<and> w_Closed w1 \<and> CloseCleanup e w1 = Inr w2 \<and> send_ok sent w2"
proof -
  let ?all = "se_IsServer e \<or> se_FailOnDisconnect e"
  let ?w = "w\<lparr>w_Closed := True, w_Timeoutq := (if ?all then timeout_Clear (w_Sendq w) (w_Timeoutq w) else w_Timeoutq w)\<rparr>"
  obtain q where q: "map ctx_key q = map ctx_key (w_Sendq w)" "\<forall>ctx \<in> set q. ctx_ok ctx"
      "CloseWrite e False w = Inr (?w\<lparr>w_Sendq := (if ?all then [] else q), w_DisConnectq := (if ?all then q else []), w_PacketCtx := None, w_Connected := False, w_pending := None\<rparr>)"
  proof (cases "w_PacketCtx w")
    case None
    then show ?thesis using that [of "w_Sendq w"] assms by (cases ?all) (auto simp: CloseWrite_def queue_inv_def)
  next
    case (Some i)
    then obtain ctx where c: "lookup_ctx i (w_Sendq w) = Some ctx" "ctx \<in> set (w_Sendq w)" "x_id ctx = i" using lookup_ctx_in assms(7) by metis
    obtain ctx' where d: "Packet_Duplicate e ctx = Inr ctx'" "ctx_ok ctx'" "ctx_key ctx' = ctx_key ctx"
      using Packet_Duplicate_ok [of ctx e] assms(1) c(2) by (auto simp: queue_inv_def)
    have k: "map ctx_key (replace_ctx ctx' (w_Sendq w)) = map ctx_key (w_Sendq w)" using map_key_replace [OF d(3) c(2)] assms(1) by (simp add: queue_inv_def)
    have "\<forall>x \<in> set (replace_ctx ctx' (w_Sendq w)). ctx_ok x" using assms(1) d(2) by (auto simp: replace_ctx_def queue_inv_def)
    then show ?thesis using that [OF k] Some c(1) d(1) assms(3-6) by (cases ?all) (auto simp: CloseWrite_def replace_ctx_def)
  qed
  have ids: "map x_id q = map x_id (w_Sendq w)" "(q = []) = (w_Sendq w = [])" using ids_of_keys [OF q(1)] q(1) by auto
  have set: "x_id ` set q = x_id ` set (w_Sendq w)" using ids(1) by (metis set_map)
  let ?w1 = "?w\<lparr>w_Sendq := (if ?all then [] else q), w_DisConnectq := (if ?all then q else []), w_PacketCtx := None, w_Connected := False, w_pending := None\<rparr>"
  have "\<exists>w2. CloseCleanup e ?w1 = Inr w2 \<and> send_ok sent w2"
  proof (cases "?all \<or> q = []")
    case True
    let ?w2 = "?w1\<lparr>w_reported := w_reported w @ map (\<lambda>ctx. (ctx, TxNoConnection)) (w_DisConnectq ?w1), w_DisConnectq := []\<rparr>"
    have "CloseCleanup e ?w1 = Inr ?w2" using True assms(4) by (auto simp: CloseCleanup_def Let_def)
    moreover have "accounted sent ?w2"
    proof (cases ?all)
      case all: True
      then show ?thesis using assms(2,3) q(1) by (simp add: accounted_def comp_def add.commute flip: mset_map)
    next
      case False
      then show ?thesis using assms(2,3) True ids(2) by (simp add: accounted_def)
    qed
    ultimately show ?thesis using True by (auto simp: send_ok_def)
  next
    case False
    let ?w2 = "?w1\<lparr>w_reported := w_reported w, w_PacketCtx := None, w_NetBuffer := nb_Clear (w_NetBuffer w), w_Closed := False, w_Abort := False\<rparr>"
    have "CloseCleanup e ?w1 = Inr ?w2" using False by (simp add: CloseCleanup_def ReConnect_def Let_def)
    moreover have "queue_inv ?w2" using assms(1) False ids(1) q(2) set by (simp add: queue_inv_def)
    moreover have "accounted sent ?w2" using assms(2,3) q(1) False by (simp add: accounted_def flip: mset_map)
    ultimately show ?thesis using False by (auto simp: send_ok_def send_inv_def)
  qed
  then show ?thesis using q(3) by auto
qed

lemma ids_timeout_Remove: "fst ` set (timeout_Remove i q) = fst ` set q - {i}"
  by (force simp: timeout_Remove_def)

lemma ids_remove_ctx: "x_id ` set (remove_ctx i q) = x_id ` set q - {i}"
  by (auto simp: remove_ctx_def)

lemma remove_other: "i \<notin> x_id ` set q \<Longrightarrow> remove_ctx i q = q"
  unfolding remove_ctx_def by (rule filter_True) auto

lemma remove_head: "distinct (map x_id (ctx # q)) \<Longrightarrow> remove_ctx (x_id ctx) (ctx # q) = q"
  using remove_other [of "x_id ctx" q] by (simp add: remove_ctx_def)

lemma queue_inv_remove:
  assumes "queue_inv w"
  shows "queue_inv (w\<lparr>w_Timeoutq := timeout_Remove i (w_Timeoutq w), w_Sendq := remove_ctx i (w_Sendq w)\<rparr>)"
proof -
  have "distinct (map x_id (remove_ctx i (w_Sendq w)))" "distinct (map fst (timeout_Remove i (w_Timeoutq w)))" "sorted (map snd (timeout_Remove i (w_Timeoutq w)))"
    using assms by (simp_all add: queue_inv_def remove_ctx_def timeout_Remove_def distinct_map_filter sorted_filter)
  moreover have "\<forall>ctx \<in> set (remove_ctx i (w_Sendq w)). ctx_ok ctx" using assms by (simp add: queue_inv_def remove_ctx_def)
  ultimately show ?thesis using assms by (simp add: queue_inv_def ids_timeout_Remove ids_remove_ctx)
qed

text \<open>A connection whose write has just completed.\<close>
definition written_inv :: "NetPacketCtx list \<Rightarrow> (nat \<times> packet_view) list \<Rightarrow> NetWrite \<Rightarrow> bool" where
  "written_inv sent started w \<longleftrightarrow> queue_inv w \<and> accounted sent w \<and> w_DisConnectq w = [] \<and> \<not> w_Abort w \<and> \<not> w_Closed w \<and> w_Connected w \<and>
     w_pending w = None \<and> stream_inv sent started w \<and> nb_ok (w_NetBuffer w) \<and> w_NDone w < w_NBytes w \<and>
     (\<forall>i. w_PacketCtx w = Some i \<longrightarrow> (\<exists>ctx q. w_Sendq w = ctx # q \<and> x_id ctx = i \<and> started \<noteq> [] \<and> last started = ctx_key ctx))"

definition go_on :: "send_env \<Rightarrow> NetWrite \<Rightarrow> NetWrite res" where
  "go_on e w = bindE (WriteReadyInternal e True w) (\<lambda>w. if w_Closed w then CloseCleanup e w else ScheduleWrite w)"

lemma written_ok:
  assumes "send_inv sent started w" "w_Connected w" "w_pending w = Some (off, todo)" "0 < n" "int n \<le> todo" "total_bytes sent < 2 ^ 62"
  obtains w1 where "HandleWriteCompletion e False n w = go_on e w1" "written_inv sent started w1" "length (w_out w) < length (w_out w1)"
    "w_reported w1 = w_reported w" "w_Sendq w1 = w_Sendq w" "w_PacketCtx w1 = w_PacketCtx w"
proof -
  let ?nb = "w_NetBuffer w"
  have inv: "stream_inv sent started w" "busy started w" "writing w" using assms(1-3) by (auto simp: send_inv_def idle_def)
  then have t: "off = nb_Start ?nb" "todo \<le> w_NBytes w - w_NDone w" "n \<le> length (nb_data ?nb)" "nb_load off (int n) ?nb = Inr (take n (nb_data ?nb))"
    using assms(3,5) by (auto simp: writing_def)
  obtain nb where nb: "Consume (int n) ?nb = Inr nb" "nb_ok nb" "nb_data nb = drop n (nb_data ?nb)"
    using Consume_ok [of ?nb n] inv(2) t(3) by (auto simp: busy_def)
  let ?w = "w\<lparr>w_out := w_out w @ take n (nb_data ?nb), w_NetBuffer := nb, w_NDone := w_NDone w + int n, w_pending := None\<rparr>"
  have st: "stream_inv sent started ?w" using inv(1) nb(3) t(3)
    by (cases "w_PacketCtx w") (simp_all add: stream_inv_def unstarted_def min_def del: length_nb_data)
  have lt: "w_NDone ?w < w_NBytes ?w" using stream_length [OF st assms(6)] st by (simp add: stream_inv_def del: length_nb_data)
  have "HandleWriteCompletion e False n w = go_on e ?w"
    using assms(3-5) t(2,4) nb(1) lt by (simp add: HandleWriteCompletion_def go_on_def Let_def)
  moreover have "written_inv sent started ?w" using assms(1,2) inv(2) nb(2) st lt
    by (auto simp: written_inv_def send_inv_def queue_inv_def accounted_def busy_def)
  moreover have "length (w_out w) < length (w_out ?w)" using assms(4) t(3) by (auto simp: min_def simp del: length_nb_data)
  ultimately show ?thesis using that [of ?w] by simp
qed

lemma go_on_more:
  assumes "written_inv sent started w" "nb_data (w_NetBuffer w) \<noteq> []"
  obtains pd where "go_on e w = Inr (w\<lparr>w_pending := pd\<rparr>)" "send_inv sent started (w\<lparr>w_pending := pd\<rparr>)"
proof -
  let ?nb = "w_NetBuffer w"
  have "\<not> nb_IsEmpty ?nb" using assms(2) nb_IsEmpty_data by blast
  then have "WriteReadyInternal e True w = Inr w" by (simp add: WriteReadyInternal_def ProcessQueuedPacketsForWrite_def)
  moreover obtain t where t: "ScheduleWrite w = Inr (w\<lparr>w_pending := Some (nb_Start ?nb, t)\<rparr>)" "0 < t" "t \<le> w_NBytes w - w_NDone w"
      "\<forall>n \<le> nat t. n \<le> length (nb_data ?nb) \<and> nb_load (nb_Start ?nb) (int n) ?nb = Inr (take n (nb_data ?nb))"
    using assms by (rule_tac ScheduleWrite_ok [of w]) (auto simp: written_inv_def)
  ultimately have "go_on e w = Inr (w\<lparr>w_pending := Some (nb_Start ?nb, t)\<rparr>)" using assms(1) by (simp add: go_on_def written_inv_def)
  moreover have "writing (w\<lparr>w_pending := Some (nb_Start ?nb, t)\<rparr>)" using t(2-4) by (simp add: writing_def)
  then have "send_inv sent started (w\<lparr>w_pending := Some (nb_Start ?nb, t)\<rparr>)" using assms
    by (simp add: send_inv_def written_inv_def busy_def)
  ultimately show ?thesis by (rule that)
qed

text \<open>After the last byte of a packet it is reported, and the next one is loaded.\<close>
lemma finished_ok:
  assumes "nb_IsEmpty (w_NetBuffer w)" "w_pending w = None" "queue_inv w" "accounted sent w" "w_DisConnectq w = []" "\<not> w_Abort w" "\<not> w_Closed w"
    "w_Connected w" "stream_inv sent started w" "total_bytes sent < 2 ^ 62" "w_PacketCtx w = Some (x_id ctx)" "w_Sendq w = ctx # q"
  obtains w1 where "WriteReadyInternal e True w = bindE (if se_closes e ctx then CloseWrite e False w1 else Inr w1) (\<lambda>w. if w_Closed w then Inr w else load_packet e w)"
    "nb_IsEmpty (w_NetBuffer w1)" "w_PacketCtx w1 = None" "w_pending w1 = None" "queue_inv w1" "accounted sent w1" "w_DisConnectq w1 = []" "\<not> w_Abort w1"
    "\<not> w_Closed w1" "w_Connected w1" "stream_inv sent started w1" "w_reported w1 = w_reported w @ [(ctx, TxSuccess)]" "w_Sendq w1 = q" "w_out w1 = w_out w"
proof -
  let ?w = "w\<lparr>w_Timeoutq := timeout_Remove (x_id ctx) (w_Timeoutq w), w_Sendq := q, w_PacketCtx := None,
      w_NetBuffer := nb_Clear (w_NetBuffer w), w_reported := w_reported w @ [(ctx, TxSuccess)]\<rparr>"
  have l: "lookup_ctx (x_id ctx) (w_Sendq w) = Some ctx" using assms(12) by (simp add: lookup_ctx_def)
  have "WriteReadyInternal e True w = bindE (if se_closes e ctx then CloseWrite e False ?w else Inr ?w) (\<lambda>w. if w_Closed w then Inr w else load_packet e w)"
    using assms(1,11,12) l by (simp add: WriteReadyInternal_def ProcessQueuedPacketsForWrite_def Let_def bindE_def split: sum.split)
  moreover have "queue_inv ?w" using queue_inv_remove [OF assms(3), of "x_id ctx"] remove_head [of ctx q] assms(3,12) by (simp add: queue_inv_def)
  moreover have "accounted sent ?w" using assms(4,12) by (simp add: accounted_def)
  moreover have "stream_inv sent started ?w" using assms(1,9,11,12) nb_IsEmpty_data [OF assms(1)] by (simp add: stream_inv_def unstarted_def nb_Clear_empty)
  ultimately show ?thesis using that [of ?w] assms(2,5-8) by (simp add: nb_Clear_empty)
qed

text \<open>The packet that was written had timed out.\<close>
lemma go_on_none:
  assumes "written_inv sent started w" "nb_data (w_NetBuffer w) = []" "w_PacketCtx w = None" "total_bytes sent < 2 ^ 62"
  shows "\<exists>w' started'. go_on e w = Inr w' \<and> send_inv sent started' w'"
proof -
  have em: "nb_IsEmpty (w_NetBuffer w)" using assms(1,2) nb_empty by (simp add: written_inv_def)
  let ?w = "w\<lparr>w_NetBuffer := nb_Clear (w_NetBuffer w)\<rparr>"
  have "queue_inv ?w" "accounted sent ?w" "stream_inv sent started ?w"
    using assms by (simp_all add: written_inv_def stream_inv_def nb_Clear_empty)
  then obtain w2 w' where "load_packet e ?w = Inr w2" "ScheduleWrite w2 = Inr w'"
      "send_inv sent (if w_Sendq ?w = [] then started else started @ [ctx_key (hd (w_Sendq ?w))]) w'" "w_Closed w2 = w_Closed ?w"
    using assms(1,3,4) by (rule_tac load_schedule_ok [of ?w sent started e]) (auto simp: written_inv_def nb_Clear_empty)
  then show ?thesis using em assms(1,3) by (auto simp: go_on_def WriteReadyInternal_def ProcessQueuedPacketsForWrite_def written_inv_def)
qed

lemma go_on_done:
  assumes "written_inv sent started w" "nb_data (w_NetBuffer w) = []" "w_PacketCtx w = Some i" "total_bytes sent < 2 ^ 62"
  shows "\<exists>w'. go_on e w = Inr w' \<and> send_ok sent w' \<and> (\<not> se_closes e (hd (w_Sendq w)) \<longrightarrow>
    w_Connected w' \<and> w_out w' = w_out w \<and> w_reported w' = w_reported w @ [(hd (w_Sendq w), TxSuccess)] \<and> map ctx_key (w_Sendq w') = map ctx_key (tl (w_Sendq w)) \<and>
    (w_PacketCtx w' = None \<longleftrightarrow> w_Sendq w' = []) \<and> (w_Sendq w' = [] \<longrightarrow> idle w') \<and> send_inv sent (started @ (if tl (w_Sendq w) = [] then [] else [ctx_key (hd (tl (w_Sendq w)))])) w')"
proof -
  have em: "nb_IsEmpty (w_NetBuffer w)" using assms(1,2) nb_empty by (simp add: written_inv_def)
  obtain ctx q where q: "w_Sendq w = ctx # q" "w_PacketCtx w = Some (x_id ctx)" using assms(1,3) by (auto simp: written_inv_def)
  obtain w1 where w1: "WriteReadyInternal e True w = bindE (if se_closes e ctx then CloseWrite e False w1 else Inr w1) (\<lambda>w. if w_Closed w then Inr w else load_packet e w)"
    "nb_IsEmpty (w_NetBuffer w1)" "w_PacketCtx w1 = None" "w_pending w1 = None" "queue_inv w1" "accounted sent w1" "w_DisConnectq w1 = []" "\<not> w_Abort w1"
    "\<not> w_Closed w1" "w_Connected w1" "stream_inv sent started w1" "w_reported w1 = w_reported w @ [(ctx, TxSuccess)]" "w_Sendq w1 = q" "w_out w1 = w_out w"
    using assms(1,4) q em by (rule_tac finished_ok [of w sent started ctx q e]) (auto simp: written_inv_def)
  show ?thesis
  proof (cases "se_closes e ctx")
    case True
    then show ?thesis using close_ok [OF w1(5-10), of e] w1(1,3) q(1) by (auto simp: go_on_def)
  next
    case False
    obtain w2 w' where l: "load_packet e w1 = Inr w2" "ScheduleWrite w2 = Inr w'" "send_inv sent (if w_Sendq w1 = [] then started else started @ [ctx_key (hd (w_Sendq w1))]) w'"
      "w_Closed w2 = w_Closed w1" "w_reported w' = w_reported w1" "map ctx_key (w_Sendq w') = map ctx_key (w_Sendq w1)"
      "w_PacketCtx w' = None \<longleftrightarrow> w_Sendq w' = []" "w_out w' = w_out w1" "w_Connected w'" "w_Sendq w' = [] \<longrightarrow> idle w'"
      by (rule load_schedule_ok [OF w1(2) nb_IsEmpty_data [OF w1(2)] w1(3-11) assms(4), of e])
    have "send_ok sent w'" using l(3) unfolding send_ok_def by (auto simp: send_inv_def [of sent _ w'])
    then show ?thesis using False l w1 q(1) by (auto simp: go_on_def)
  qed
qed

lemma send_okI: "send_inv sent started w \<Longrightarrow> send_ok sent w"
  by (cases "w_Closed w") (auto simp: send_ok_def, simp_all add: send_inv_def)

lemma written_amount:
  assumes "send_inv sent started w" "w_pending w = Some (off, todo)"
  shows "w_Connected w" "int (1 + m mod nat todo) \<le> todo"
proof -
  show "w_Connected w" using assms by (auto simp: send_inv_def split: if_splits)
  then have "0 < todo" using assms by (auto simp: send_inv_def idle_def writing_def)
  moreover from this have "m mod nat todo < nat todo" by simp
  ultimately show "int (1 + m mod nat todo) \<le> todo" by linarith
qed

lemma Written_ok:
  assumes "send_inv sent started w" "total_bytes sent < 2 ^ 62"
  shows "\<exists>w'. send_step e (Written m) w = Inr w' \<and> send_ok sent w'"
proof (cases "w_pending w")
  case None
  then show ?thesis using send_okI [OF assms(1)] by simp
next
  case (Some p)
  obtain off todo where p: "w_pending w = Some (off, todo)" using Some by (cases p) simp
  obtain w1 where w1: "HandleWriteCompletion e False (1 + m mod nat todo) w = go_on e w1" "written_inv sent started w1"
    by (rule written_ok [OF assms(1) written_amount(1) [OF assms(1) p] p _ written_amount(2) [OF assms(1) p] assms(2)]) auto
  have "\<exists>w'. go_on e w1 = Inr w' \<and> send_ok sent w'"
  proof (cases "nb_data (w_NetBuffer w1) = []")
    case True
    then show ?thesis using go_on_none [OF w1(2) True _ assms(2), of e] go_on_done [OF w1(2) True _ assms(2), of _ e] send_okI
      by (cases "w_PacketCtx w1") blast+
  next
    case False
    then show ?thesis using go_on_more [OF w1(2) False, of e] send_okI by metis
  qed
  then show ?thesis using p w1(1) by simp
qed

lemma queue_inv_enqueue:
  assumes "queue_inv w" "ctx_ok ctx" "x_id ctx \<notin> x_id ` set (w_Sendq w)"
  shows "queue_inv (w\<lparr>w_Sendq := w_Sendq w @ [ctx], w_Timeoutq := timeout_Enqueue ctx (w_Timeoutq w)\<rparr>)"
  using assms insert_back_distinct [of "w_Timeoutq w" ctx] insert_back_sorted [of "w_Timeoutq w" ctx]
  by (auto simp: queue_inv_def insert_back_ids)

lemma accounted_ids:
  assumes "accounted sent w" "x_id ctx \<notin> x_id ` set sent"
  shows "x_id ctx \<notin> x_id ` set (w_Sendq w)"
proof
  assume "x_id ctx \<in> x_id ` set (w_Sendq w)"
  then obtain x where "x \<in> set (w_Sendq w)" "x_id x = x_id ctx" by auto
  moreover from this have "ctx_key x \<in># mset (map ctx_key sent)" unfolding assms(1) [unfolded accounted_def, symmetric] by simp
  then obtain y where "y \<in> set sent" "ctx_key y = ctx_key x" by auto
  ultimately show False using assms(2) by (force simp: ctx_key_def)
qed

lemma Send_ok:
  assumes "send_inv sent started w" "ctx_ok ctx" "x_id ctx \<notin> x_id ` set sent" "total_bytes (sent @ [ctx]) < 2 ^ 62"
  shows "\<exists>w' started'. send_step e (Send ctx) w = Inr w' \<and> send_inv (sent @ [ctx]) started' w' \<and> w_Connected w' = w_Connected w \<and>
    w_reported w' = w_reported w \<and> map ctx_key (w_Sendq w') = map ctx_key (w_Sendq w) @ [ctx_key ctx] \<and> w_out w' = w_out w \<and>
    (if w_Connected w \<and> nb_IsEmpty (w_NetBuffer w) then w_PacketCtx w' \<noteq> None \<and> w_Sendq w = [] \<and> started' = started @ [ctx_key ctx]
     else w_PacketCtx w' = w_PacketCtx w \<and> started' = started)"
proof -
  let ?w = "w\<lparr>w_Sendq := w_Sendq w @ [ctx], w_Timeoutq := timeout_Enqueue ctx (w_Timeoutq w)\<rparr>"
  have inv: "queue_inv w" "accounted sent w" "w_DisConnectq w = []" "\<not> w_Abort w" "\<not> w_Closed w" using assms(1) by (simp_all add: send_inv_def)
  have q: "queue_inv ?w" "accounted (sent @ [ctx]) ?w"
    using queue_inv_enqueue [OF inv(1) assms(2) accounted_ids [OF inv(2) assms(3)]] inv(2) by (simp_all add: accounted_def)
  show ?thesis
  proof (cases "w_Connected w")
    case False
    then have "send_step e (Send ctx) w = Inr ?w" using inv(5) by (simp add: EnqueuePacket_def Let_def)
    moreover have "send_inv (sent @ [ctx]) started ?w" using assms(1) inv q False by (simp add: send_inv_def)
    ultimately show ?thesis using False by (intro exI [of _ ?w] exI [of _ started]) simp
  next
    case True
    have "mset started + mset (map ctx_key (unstarted ?w)) \<subseteq># mset (map ctx_key (sent @ [ctx]))"
    proof -
      have "mset started + mset (map ctx_key (unstarted w)) \<subseteq># mset (map ctx_key sent)" using assms(1) True by (simp add: send_inv_def stream_inv_def)
      moreover have "unstarted ?w = unstarted w @ [ctx]" using assms(1) True by (auto simp: unstarted_def send_inv_def idle_def busy_def)
      ultimately show ?thesis by simp
    qed
    then have st: "stream_inv (sent @ [ctx]) started ?w" using assms(1) True by (simp add: send_inv_def stream_inv_def)
    show ?thesis
    proof (cases "nb_IsEmpty (w_NetBuffer w)")
      case em: True
      then have idle: "idle w" using assms(1) True nb_IsEmpty_data by (auto simp: send_inv_def busy_def)
      let ?w1 = "?w\<lparr>w_NetBuffer := nb_Clear (w_NetBuffer w)\<rparr>"
      have st1: "stream_inv (sent @ [ctx]) started ?w1" using st nb_IsEmpty_data [OF em] by (simp add: stream_inv_def nb_Clear_empty)
      obtain w2 w' where l: "load_packet e ?w1 = Inr w2" "ScheduleWrite w2 = Inr w'"
          "send_inv (sent @ [ctx]) (if w_Sendq ?w1 = [] then started else started @ [ctx_key (hd (w_Sendq ?w1))]) w'"
          "w_PacketCtx w2 = None \<longleftrightarrow> w_Sendq ?w1 = []" "w_reported w' = w_reported ?w1" "map ctx_key (w_Sendq w') = map ctx_key (w_Sendq ?w1)"
          "w_PacketCtx w' = None \<longleftrightarrow> w_Sendq w' = []" "w_out w' = w_out ?w1" "w_Connected w'"
        using q inv idle True st1 assms(4) by (rule_tac load_schedule_ok [of ?w1 "sent @ [ctx]" started e]) (auto simp: idle_def nb_Clear_empty)
      have "w_PacketCtx w2 \<noteq> None" using l(4) by simp
      then have "send_step e (Send ctx) w = Inr w'" using inv(5) True em idle l(1,2)
        by (auto simp: EnqueuePacket_def WriteReadyInternal_def ProcessQueuedPacketsForWrite_def idle_def Let_def)
      moreover have "w_Sendq w' \<noteq> []" using l(6) by auto
      ultimately show ?thesis using l idle em True by (intro exI [of _ w'] exI [of _ "started @ [ctx_key ctx]"]) (auto simp: idle_def)
    next
      case False
      then have b: "busy started w" "writing w" using assms(1) True by (auto simp: send_inv_def idle_def)
      then have "w_pending w \<noteq> None" by (auto simp: writing_def)
      then have "send_step e (Send ctx) w = Inr ?w" using inv(5) True False
        by (auto simp: EnqueuePacket_def WriteReadyInternal_def ProcessQueuedPacketsForWrite_def ScheduleWrite_def Let_def)
      moreover have "busy started ?w" "writing ?w" using b by (auto simp: busy_def writing_def)
      ultimately show ?thesis using q st inv True False by (intro exI [of _ ?w] exI [of _ started]) (auto simp: send_inv_def)
    qed
  qed
qed

lemma mset_remove_ctx:
  assumes "distinct (map x_id q)" "ctx \<in> set q"
  shows "mset (map ctx_key q) = add_mset (ctx_key ctx) (mset (map ctx_key (remove_ctx (x_id ctx) q)))"
  using assms
proof (induction q)
  case (Cons a q)
  show ?case
  proof (cases "x_id a = x_id ctx")
    case True
    then have "a = ctx" using Cons.prems by (auto simp: image_iff)
    then show ?thesis using remove_head [OF Cons.prems(1)] by simp
  next
    case False
    then show ?thesis using Cons by (auto simp: remove_ctx_def)
  qed
qed simp

lemma remove_ctx_subset: "mset (map ctx_key (remove_ctx i q)) \<subseteq># mset (map ctx_key q)"
  by (simp add: remove_ctx_def image_mset_subseteq_mono multiset_filter_subset mset_filter)

text \<open>A packet times out: also the one that is being written.\<close>
lemma expire_one_ok:
  assumes "send_inv sent started w" "lookup_ctx i (w_Sendq w) = Some ctx" "ctx \<in> set (w_Sendq w)" "x_id ctx = i" "ctx_key ctx' = ctx_key ctx"
  shows "send_inv sent started (w\<lparr>w_Timeoutq := timeout_Remove i (w_Timeoutq w), w_Sendq := remove_ctx i (w_Sendq w),
     w_PacketCtx := (if w_PacketCtx w = Some i then None else w_PacketCtx w), w_reported := w_reported w @ [(ctx', TxTimedOut)]\<rparr>)"
    (is "send_inv sent started ?w")
proof -
  have inv: "queue_inv w" "accounted sent w" "w_DisConnectq w = []" "\<not> w_Abort w" "\<not> w_Closed w" using assms(1) by (simp_all add: send_inv_def)
  have d: "distinct (map x_id (w_Sendq w))" using inv(1) by (simp add: queue_inv_def)
  have "queue_inv ?w" using queue_inv_remove [OF inv(1), of i] by (simp add: queue_inv_def)
  moreover have "accounted sent ?w" using inv(2) mset_remove_ctx [OF d assms(3)] assms(4,5) by (simp add: accounted_def)
  moreover have "stream_inv sent started ?w \<and> (idle ?w \<or> busy started ?w \<and> writing ?w)" if con: "w_Connected w"
  proof -
    have w: "stream_inv sent started w" "busy started w" "writing w" using assms(1,3) con by (auto simp: send_inv_def idle_def)
    have u: "mset (map ctx_key (unstarted ?w)) \<subseteq># mset (map ctx_key (unstarted w)) \<and> busy started ?w"
    proof (cases "w_PacketCtx w")
      case None
      then show ?thesis using w(2) remove_ctx_subset [of i "w_Sendq w"] by (simp add: unstarted_def busy_def)
    next
      case (Some j)
      then obtain c q where q: "w_Sendq w = c # q" "x_id c = j" "started \<noteq> []" "last started = ctx_key c" using w(2) by (auto simp: busy_def)
      show ?thesis
      proof (cases "i = j")
        case True
        then show ?thesis using Some q w(2) remove_head [of c q] d by (simp add: unstarted_def busy_def)
      next
        case False
        then have "remove_ctx i (c # q) = c # remove_ctx i q" using q(2) by (simp add: remove_ctx_def)
        then show ?thesis using Some q w(2) False remove_ctx_subset [of i q] by (simp add: unstarted_def busy_def)
      qed
    qed
    have "mset started + mset (map ctx_key (unstarted w)) \<subseteq># mset (map ctx_key sent)" using w(1) by (simp add: stream_inv_def)
    then have "mset started + mset (map ctx_key (unstarted ?w)) \<subseteq># mset (map ctx_key sent)"
      by (rule subset_mset.order_trans [OF subset_mset.add_left_mono [OF conjunct1 [OF u]]])
    then have "stream_inv sent started ?w" using w(1) by (simp add: stream_inv_def)
    moreover have "writing ?w" using w(3) by (simp add: writing_def)
    ultimately show ?thesis using u by blast
  qed
  ultimately show ?thesis using assms(1) by (auto simp: send_inv_def)
qed

lemma Tick_ok:
  assumes "send_inv sent started w"
  shows "\<exists>w'. expire e k now w = Inr w' \<and> send_inv sent started w' \<and> w_out w' = w_out w"
  using assms
proof (induction k arbitrary: w)
  case (Suc k)
  show ?case
  proof (cases "w_Timeoutq w")
    case Nil
    then show ?thesis using Suc.prems by simp
  next
    case (Cons c q)
    obtain i t where c: "c = (i, t)" by (cases c)
    have "fst ` set (w_Timeoutq w) = x_id ` set (w_Sendq w)" using Suc.prems by (simp add: send_inv_def queue_inv_def)
    then have "i \<in> x_id ` set (w_Sendq w)" using Cons c by (metis fst_conv image_eqI list.set_intros(1))
    then obtain ctx where l: "lookup_ctx i (w_Sendq w) = Some ctx" "ctx \<in> set (w_Sendq w)" "x_id ctx = i" by (rule lookup_ctx_in)
    obtain ctx' where d: "(if w_PacketCtx w = Some i then Packet_Duplicate e ctx else Inr ctx) = Inr ctx'" "ctx_key ctx' = ctx_key ctx"
      using Packet_Duplicate_ok [of ctx e] Suc.prems l(2) by (cases "w_PacketCtx w = Some i") (auto simp: send_inv_def queue_inv_def)
    show ?thesis
    proof (cases "t \<le> now")
      case True
      then show ?thesis using Suc.IH [OF expire_one_ok [OF Suc.prems l d(2)]] l(1) d(1) Cons c by (simp del: split_paired_Ex)
    next
      case False
      then show ?thesis using Suc.prems Cons c by simp
    qed
  qed
qed simp

lemma load_packet_fields:
  "load_packet e (w\<lparr>w_NBytes := a, w_NDone := b, w_pending := c, w_out := d\<rparr>) =
     bindE (load_packet e w) (\<lambda>w. Inr (w\<lparr>w_NBytes := a, w_NDone := b, w_pending := c, w_out := d\<rparr>))"
  by (cases w) (simp add: load_packet_def bindE_assoc split: list.split)

lemma Connect_ok:
  assumes "send_inv sent started w" "\<not> w_Connected w" "total_bytes sent < 2 ^ 62"
  shows "\<exists>w'. send_step e Connect w = Inr w' \<and> send_inv sent (if w_Sendq w = [] then [] else [ctx_key (hd (w_Sendq w))]) w' \<and> w_Connected w' \<and>
    w_reported w' = w_reported w \<and> map ctx_key (w_Sendq w') = map ctx_key (w_Sendq w) \<and> (w_PacketCtx w' = None \<longleftrightarrow> w_Sendq w' = []) \<and> w_out w' = [] \<and> (w_Sendq w' = [] \<longrightarrow> idle w')"
proof -
  let ?w = "w\<lparr>w_Connected := True, w_PacketCtx := None, w_NetBuffer := nb_Clear (nb_Clear (w_NetBuffer w))\<rparr>"
  let ?u = "\<lambda>w. w\<lparr>w_NBytes := MAX_NBYTES, w_NDone := 0, w_pending := None, w_out := []\<rparr>"
  have "queue_inv w" "accounted sent w" using assms(1) by (simp_all add: send_inv_def)
  then have inv: "queue_inv (?u ?w)" "accounted sent (?u ?w)" by (simp_all add: queue_inv_def accounted_def)
  then have "mset (map ctx_key (w_Sendq w)) \<subseteq># mset (map ctx_key sent)" by (simp add: accounted_def) (metis mset_subset_eq_add_left union_assoc)
  then have st: "stream_inv sent [] (?u ?w)" by (simp add: stream_inv_def unstarted_def nb_Clear_empty)
  obtain w1 w' where l: "load_packet e (?u ?w) = Inr w1" "ScheduleWrite w1 = Inr w'"
      "send_inv sent (if w_Sendq (?u ?w) = [] then [] else [] @ [ctx_key (hd (w_Sendq (?u ?w)))]) w'" "w_reported w' = w_reported (?u ?w)"
      "map ctx_key (w_Sendq w') = map ctx_key (w_Sendq (?u ?w))" "w_PacketCtx w' = None \<longleftrightarrow> w_Sendq w' = []" "w_out w' = w_out (?u ?w)" "w_Connected w'" "w_Sendq w' = [] \<longrightarrow> idle w'"
    using assms inv st by (rule_tac load_schedule_ok [of "?u ?w" sent "[]" e]) (auto simp: nb_Clear_empty send_inv_def)
  have "NetWrite_Start e w = bindE (load_packet e ?w) (\<lambda>w. ScheduleWrite (?u w))"
    by (simp add: NetWrite_Start_def ProcessQueuedPacketsForWrite_def nb_Clear_empty)
  also have "\<dots> = bindE (load_packet e (?u ?w)) ScheduleWrite" unfolding load_packet_fields by (simp add: bindE_assoc)
  finally show ?thesis using l assms(2) by (intro exI [of _ w']) (simp cong: if_cong)
qed

lemma Lost_ok:
  assumes "send_inv sent started w"
  shows "\<exists>w'. send_step e Lost w = Inr w' \<and> send_ok sent w'"
proof (cases "w_Connected w")
  case True
  then have "\<forall>i. w_PacketCtx w = Some i \<longrightarrow> i \<in> x_id ` set (w_Sendq w)" using assms by (auto simp: send_inv_def idle_def busy_def)
  then show ?thesis using close_ok [of w sent e] assms True by (auto simp: send_inv_def)
next
  case False
  then show ?thesis using send_okI [OF assms] by simp
qed

section \<open>Any sequence of events\<close>

fun sends :: "send_op list \<Rightarrow> NetPacketCtx list" where
  "sends [] = []"
| "sends (Send ctx # ops) = ctx # sends ops"
| "sends (_ # ops) = sends ops"

lemma total_bytes_append: "total_bytes (xs @ ys) = total_bytes xs + total_bytes ys"
  by (simp add: total_bytes_def)

lemma send_step_ok:
  assumes "send_inv sent started w" "\<forall>ctx \<in> set (sends [op]). ctx_ok ctx" "distinct (map x_id (sent @ sends [op]))" "total_bytes (sent @ sends [op]) < 2 ^ 62"
  shows "\<exists>w'. send_step e op w = Inr w' \<and> send_ok (sent @ sends [op]) w'"
proof (cases op)
  case (Send ctx)
  then show ?thesis using Send_ok [OF assms(1), of ctx e] assms(2-4) send_okI by fastforce
next
  case (Written n)
  then show ?thesis using Written_ok [OF assms(1), of e n] assms(4) by simp
next
  case (Tick now)
  then show ?thesis using Tick_ok [OF assms(1), of e "length (w_Timeoutq w)" now] send_okI by (auto simp: EventTimeout_def)
next
  case Lost
  then show ?thesis using Lost_ok [OF assms(1), of e] by simp
next
  case Connect
  then show ?thesis using Connect_ok [OF assms(1), of e] assms(1,4) send_okI by (cases "w_Connected w") auto
qed

lemma send_run_ok:
  assumes "send_ok sent w" "\<forall>ctx \<in> set (sends ops). ctx_ok ctx" "distinct (map x_id (sent @ sends ops))" "total_bytes (sent @ sends ops) < 2 ^ 62"
  shows "\<exists>w' n. send_run e ops w = Inr w' \<and> n \<le> length ops \<and> (n = length ops \<or> w_Closed w') \<and> send_ok (sent @ sends (take n ops)) w'"
  using assms
proof (induction ops arbitrary: sent w)
  case Nil
  then show ?case by auto
next
  case (Cons op ops)
  show ?case
  proof (cases "w_Closed w")
    case True
    then show ?thesis using Cons.prems(1) by (intro exI [of _ w] exI [of _ 0]) simp
  next
    case False
    then obtain started where inv: "send_inv sent started w" using Cons.prems(1) by (auto simp: send_ok_def)
    have s: "sends (op # ops) = sends [op] @ sends ops" by (cases op) simp_all
    have "\<forall>ctx \<in> set (sends [op]). ctx_ok ctx" "distinct (map x_id (sent @ sends [op]))" "total_bytes (sent @ sends [op]) < 2 ^ 62"
      using Cons.prems(2-4) unfolding s by (auto simp: total_bytes_append)
    then obtain w1 where w1: "send_step e op w = Inr w1" "send_ok (sent @ sends [op]) w1" using send_step_ok [OF inv] by blast
    obtain w' n where "send_run e ops w1 = Inr w'" "n \<le> length ops" "n = length ops \<or> w_Closed w'" "send_ok ((sent @ sends [op]) @ sends (take n ops)) w'"
      using Cons.IH [OF w1(2)] Cons.prems(2-4) unfolding s by auto
    moreover have "sends (take (Suc n) (op # ops)) = sends [op] @ sends (take n ops)" for n by (cases op) simp_all
    ultimately show ?thesis using w1(1) False by (intro exI [of _ w'] exI [of _ "Suc n"]) simp
  qed
qed

lemma send_new_ok: "send_inv [] started NetWrite_new"
  by (simp add: send_inv_def NetWrite_new_def queue_inv_def accounted_def)

text \<open>
  C16.  Whatever the order of sends (none of them from inside a callback), completed writes, timeouts, losses of the
  connection and new connections: no assertion fails, every packet is in the queue or
  has been reported exactly once with its contents, all of them when the connection is
  gone, and what a connection has written is the beginning of a sequence of whole
  packets, none of them twice.
\<close>
theorem send_keeps_packets:
  assumes "\<forall>ctx \<in> set (sends ops). ctx_ok ctx" "distinct (map x_id (sends ops))" "total_bytes (sends ops) < 2 ^ 62"
  shows "\<exists>w n. send_run e ops NetWrite_new = Inr w \<and> n \<le> length ops \<and> (n = length ops \<or> w_Closed w) \<and>
    mset (map ctx_key (w_Sendq w)) + mset (map (ctx_key \<circ> fst) (w_reported w)) = mset (map ctx_key (sends (take n ops))) \<and>
    (w_Closed w \<longrightarrow> w_Sendq w = []) \<and>
    (w_Connected w \<and> \<not> w_Closed w \<longrightarrow> (\<exists>started rest. w_out w @ rest = concat (map (wire \<circ> snd) started) \<and>
       mset started \<subseteq># mset (map ctx_key (sends (take n ops)))))"
proof -
  obtain w n where r: "send_run e ops NetWrite_new = Inr w" "n \<le> length ops" "n = length ops \<or> w_Closed w" "send_ok (sends (take n ops)) w"
    using send_run_ok [OF send_okI [OF send_new_ok], of ops e] assms by auto
  let ?s = "sends (take n ops)"
  have "accounted ?s w" "w_DisConnectq w = []" "w_Closed w \<longrightarrow> w_Sendq w = []" using r(4) by (auto simp: send_ok_def send_inv_def split: if_splits)
  then have "mset (map ctx_key (w_Sendq w)) + mset (map (ctx_key \<circ> fst) (w_reported w)) = mset (map ctx_key ?s)" by (simp add: accounted_def)
  moreover have "\<exists>started rest. w_out w @ rest = concat (map (wire \<circ> snd) started) \<and> mset started \<subseteq># mset (map ctx_key ?s)"
    if con: "w_Connected w" "\<not> w_Closed w"
  proof -
    obtain started where s: "stream_inv ?s started w" using r(4) con by (auto simp: send_ok_def send_inv_def)
    then have "mset started \<subseteq># mset (map ctx_key ?s)" using mset_subset_eq_add_left subset_mset.order_trans unfolding stream_inv_def by blast
    then show ?thesis using s unfolding stream_inv_def by blast
  qed
  ultimately show ?thesis using r(1-3) \<open>w_Closed w \<longrightarrow> w_Sendq w = []\<close> by blast
qed

section \<open>From one end to the other\<close>

text \<open>A connection without timeouts and losses.\<close>
definition calm_inv :: "NetPacketCtx list \<Rightarrow> NetWrite \<Rightarrow> bool" where
  "calm_inv sent w \<longleftrightarrow> w_Connected w \<and> (\<forall>r \<in> set (w_reported w). snd r = TxSuccess) \<and>
     map (ctx_key \<circ> fst) (w_reported w) @ map ctx_key (w_Sendq w) = map ctx_key sent \<and> (w_PacketCtx w = None \<longleftrightarrow> w_Sendq w = []) \<and>
     (w_Sendq w = [] \<longrightarrow> idle w) \<and> send_inv sent (map (ctx_key \<circ> fst) (w_reported w) @ (if w_Sendq w = [] then [] else [ctx_key (hd (w_Sendq w))])) w"

lemma calm_Send:
  assumes "calm_inv sent w" "ctx_ok ctx" "x_id ctx \<notin> x_id ` set sent" "total_bytes (sent @ [ctx]) < 2 ^ 62"
  shows "\<exists>w'. send_step e (Send ctx) w = Inr w' \<and> calm_inv (sent @ [ctx]) w'"
proof -
  let ?s = "map (ctx_key \<circ> fst) (w_reported w) @ (if w_Sendq w = [] then [] else [ctx_key (hd (w_Sendq w))])"
  have inv: "send_inv sent ?s w" and con: "w_Connected w" using assms(1) by (simp_all add: calm_inv_def)
  obtain w' s' where w': "send_step e (Send ctx) w = Inr w'" "send_inv (sent @ [ctx]) s' w'" "w_Connected w'" "w_reported w' = w_reported w"
      "map ctx_key (w_Sendq w') = map ctx_key (w_Sendq w) @ [ctx_key ctx]"
      "if nb_IsEmpty (w_NetBuffer w) then w_PacketCtx w' \<noteq> None \<and> w_Sendq w = [] \<and> s' = ?s @ [ctx_key ctx] else w_PacketCtx w' = w_PacketCtx w \<and> s' = ?s"
    using Send_ok [OF inv assms(2-4), of e] con by auto
  have ne: "w_Sendq w' \<noteq> []" using w'(5) by auto
  then have hd: "ctx_key (hd (w_Sendq w')) = hd (map ctx_key (w_Sendq w) @ [ctx_key ctx])" using hd_map [of "w_Sendq w'" ctx_key] w'(5) by metis
  have "nb_IsEmpty (w_NetBuffer w) \<longleftrightarrow> w_Sendq w = []"
    using inv con assms(1) nb_IsEmpty_data by (auto simp: send_inv_def calm_inv_def idle_def busy_def)
  then have "s' = map (ctx_key \<circ> fst) (w_reported w') @ [ctx_key (hd (w_Sendq w'))]" "w_PacketCtx w' \<noteq> None"
    using w'(4,6) hd assms(1) by (auto simp: calm_inv_def hd_append hd_map split: if_splits)
  then have "calm_inv (sent @ [ctx]) w'" using w' ne assms(1) by (auto simp: calm_inv_def)
  then show ?thesis using w'(1) by blast
qed

lemma calm_Written:
  assumes "calm_inv sent w" "total_bytes sent < 2 ^ 62" "\<forall>ctx. \<not> se_closes e ctx"
  shows "\<exists>w'. send_step e (Written m) w = Inr w' \<and> calm_inv sent w' \<and> (w_Sendq w = [] \<and> w_Sendq w' = [] \<or> w_Sendq w \<noteq> [] \<and> length (w_out w) < length (w_out w'))"
proof -
  let ?r = "map (ctx_key \<circ> fst) (w_reported w)" let ?s = "?r @ (if w_Sendq w = [] then [] else [ctx_key (hd (w_Sendq w))])"
  have inv: "send_inv sent ?s w" and con: "w_Connected w" using assms(1) by (simp_all add: calm_inv_def)
  show ?thesis
  proof (cases "w_pending w")
    case None
    then have "w_Sendq w = []" using inv con by (auto simp: send_inv_def idle_def writing_def)
    then show ?thesis using None assms(1) by simp
  next
    case (Some p)
    obtain off todo where p: "w_pending w = Some (off, todo)" using Some by (cases p) simp
    obtain w1 where w1: "HandleWriteCompletion e False (1 + m mod nat todo) w = go_on e w1" "written_inv sent ?s w1" "length (w_out w) < length (w_out w1)"
        "w_reported w1 = w_reported w" "w_Sendq w1 = w_Sendq w" "w_PacketCtx w1 = w_PacketCtx w"
      by (rule written_ok [OF inv con p _ written_amount(2) [OF inv p] assms(2)]) auto
    obtain ctx q where q: "w_Sendq w = ctx # q" using assms(1) p by (cases "w_Sendq w") (auto simp: calm_inv_def idle_def)
    then have s: "?s = ?r @ [ctx_key ctx]" "w_PacketCtx w \<noteq> None" using assms(1) by (auto simp: calm_inv_def)
    have "\<exists>w'. go_on e w1 = Inr w' \<and> calm_inv sent w' \<and> w_out w' = w_out w1"
    proof (cases "nb_data (w_NetBuffer w1) = []")
      case True
      obtain i where i: "w_PacketCtx w1 = Some i" using s(2) w1(6) by auto
      obtain w' where w': "go_on e w1 = Inr w'" "w_Connected w'" "w_out w' = w_out w1" "w_reported w' = w_reported w @ [(ctx, TxSuccess)]"
          "map ctx_key (w_Sendq w') = map ctx_key q" "w_PacketCtx w' = None \<longleftrightarrow> w_Sendq w' = []" "w_Sendq w' = [] \<longrightarrow> idle w'"
          "send_inv sent (?s @ (if q = [] then [] else [ctx_key (hd q)])) w'"
        using go_on_done [OF w1(2) True i assms(2), of e] assms(3) w1(4) unfolding w1(5) q list.sel by auto
      have "(w_Sendq w' = []) = (q = [])" "q \<noteq> [] \<longrightarrow> ctx_key (hd (w_Sendq w')) = ctx_key (hd q)"
        using w'(5) hd_map [of q ctx_key] hd_map [of "w_Sendq w'" ctx_key] by (metis map_is_Nil_conv)+
      then have "calm_inv sent w'" using w' assms(1) q s(1) by (auto simp: calm_inv_def)
      then show ?thesis using w'(1,3) by blast
    next
      case False
      then obtain pd where "go_on e w1 = Inr (w1\<lparr>w_pending := pd\<rparr>)" "send_inv sent ?s (w1\<lparr>w_pending := pd\<rparr>)" by (rule go_on_more [OF w1(2)])
      moreover have "w_Connected w1" using w1(2) by (simp add: written_inv_def)
      ultimately show ?thesis using assms(1) w1(4-6) q by (auto simp: calm_inv_def)
    qed
    then show ?thesis using p w1(1,3) q by auto
  qed
qed

lemma calm_connect: "\<exists>w. send_step e Connect NetWrite_new = Inr w \<and> calm_inv [] w"
proof -
  have "w_Sendq NetWrite_new = []" "w_reported NetWrite_new = []" "\<not> w_Connected NetWrite_new" by (simp_all add: NetWrite_new_def)
  then show ?thesis using Connect_ok [OF send_new_ok, of e] by (auto simp: calm_inv_def total_bytes_def)
qed

lemma calm_out: "calm_inv sent w \<Longrightarrow> length (w_out w) \<le> total_bytes sent"
  "calm_inv sent w \<Longrightarrow> w_Sendq w = [] \<Longrightarrow> w_out w = concat (map (wire \<circ> pk_view \<circ> x_Packet) sent)"
proof -
  assume c: "calm_inv sent w"
  let ?s = "map (ctx_key \<circ> fst) (w_reported w) @ (if w_Sendq w = [] then [] else [ctx_key (hd (w_Sendq w))])"
  have st: "w_out w @ nb_data (w_NetBuffer w) = concat (map (wire \<circ> snd) ?s)" using c unfolding calm_inv_def send_inv_def stream_inv_def by presburger
  obtain r where r: "?s @ r = map ctx_key sent" using c by (cases "w_Sendq w") (auto simp: calm_inv_def)
  have t: "total_bytes sent = length (concat (map (wire \<circ> snd) (map ctx_key sent)))" by (simp add: total_bytes_def length_concat comp_def)
  have "length (w_out w) \<le> length (concat (map (wire \<circ> snd) ?s))" unfolding st [symmetric] by simp
  then show "length (w_out w) \<le> total_bytes sent" unfolding t r [symmetric] by simp
  show "w_out w = concat (map (wire \<circ> pk_view \<circ> x_Packet) sent)" if "w_Sendq w = []"
  proof -
    have "nb_data (w_NetBuffer w) = []" "map (ctx_key \<circ> fst) (w_reported w) = map ctx_key sent" using c that by (simp_all add: calm_inv_def idle_def)
    then show ?thesis using st that by (simp add: comp_def ctx_key_def)
  qed
qed

lemma calm_open: "calm_inv sent w \<Longrightarrow> \<not> w_Closed w"
  by (simp add: calm_inv_def send_inv_def)

fun is_traffic :: "send_op \<Rightarrow> bool" where
  "is_traffic (Send _) = True"
| "is_traffic (Written _) = True"
| "is_traffic _ = False"

lemma calm_run:
  assumes "calm_inv sent w" "\<forall>op \<in> set ops. is_traffic op" "\<forall>ctx \<in> set (sends ops). ctx_ok ctx" "distinct (map x_id (sent @ sends ops))"
    "total_bytes (sent @ sends ops) < 2 ^ 62" "\<forall>ctx. \<not> se_closes e ctx"
  shows "\<exists>w'. send_run e ops w = Inr w' \<and> calm_inv (sent @ sends ops) w'"
  using assms(1-5)
proof (induction ops arbitrary: sent w)
  case Nil
  then show ?case by simp
next
  case (Cons op ops)
  show ?case
  proof (cases op)
    case (Send ctx)
    then obtain w1 where w1: "send_step e op w = Inr w1" "calm_inv (sent @ [ctx]) w1"
      using calm_Send [OF Cons.prems(1), of ctx e] Cons.prems(3-5) total_bytes_append [of "[ctx]" "sends ops"] by (auto simp: total_bytes_append)
    then show ?thesis using Cons.IH [OF w1(2)] Cons.prems(2-5) Send calm_open [OF Cons.prems(1)] by auto
  next
    case (Written m)
    then obtain w1 where w1: "send_step e op w = Inr w1" "calm_inv sent w1"
      using calm_Written [OF Cons.prems(1) _ assms(6), of m] Cons.prems(5) by (auto simp: total_bytes_append)
    then show ?thesis using Cons.IH [OF w1(2)] Cons.prems(2-5) Written calm_open [OF Cons.prems(1)] by auto
  qed (use Cons.prems(2) in auto)
qed

lemma calm_drain:
  assumes "calm_inv sent w" "total_bytes sent < 2 ^ 62" "\<forall>ctx. \<not> se_closes e ctx" "w_Sendq w = [] \<or> total_bytes sent < length picks + length (w_out w)"
  shows "\<exists>w'. send_run e (map Written picks) w = Inr w' \<and> calm_inv sent w' \<and> w_Sendq w' = []"
  using assms(1,4)
proof (induction picks arbitrary: w)
  case Nil
  then show ?case using calm_out(1) [OF Nil.prems(1)] by auto
next
  case (Cons m picks)
  obtain w1 where w1: "send_step e (Written m) w = Inr w1" "calm_inv sent w1"
      "w_Sendq w = [] \<and> w_Sendq w1 = [] \<or> w_Sendq w \<noteq> [] \<and> length (w_out w) < length (w_out w1)"
    using calm_Written [OF Cons.prems(1) assms(2,3), of m] by blast
  then have "w_Sendq w1 = [] \<or> total_bytes sent < length picks + length (w_out w1)" using Cons.prems(2) by auto
  from Cons.IH [OF w1(2) this] show ?case using w1(1) calm_open [OF Cons.prems(1)] by auto
qed

lemma send_run_append: "send_run e (xs @ ys) w = bindE (send_run e xs w) (send_run e ys)"
proof (induction xs arbitrary: w)
  case Nil
  then show ?case by simp
next
  case (Cons op xs)
  have "w_Closed w \<Longrightarrow> send_run e ys w = Inr w" by (cases ys) simp_all
  then show ?case using Cons.IH by (cases "send_step e op w") simp_all
qed

text \<open>
  C15.  On a connection that lasts, every packet arrives: once the writes have taken
  place, each packet has been reported as sent, in order, and the other end of the
  connection, which may read the bytes in any portions, receives exactly these packets.
\<close>
theorem packets_delivered:
  assumes "\<forall>op \<in> set ops. is_traffic op" "\<forall>ctx \<in> set (sends ops). ctx_ok ctx" "distinct (map x_id (sends ops))"
    "total_bytes (sends ops) < 2 ^ 62" "total_bytes (sends ops) < length picks" "\<forall>ctx. \<not> se_closes e ctx"
    "20 \<le> unat n" "unat n < 2 ^ 30" "\<forall>ctx \<in> set (sends ops). sendable r (pk_view (x_Packet ctx))"
    "\<not> ne_ReceiveSuspended r" "\<not> ne_connect_closes r" "\<forall>p. \<not> ne_closes r p"
  shows "\<exists>w c0 c. send_run e (Connect # ops @ map Written picks) NetWrite_new = Inr w \<and>
    map (\<lambda>(ctx, status). (ctx_key ctx, status)) (w_reported w) = map (\<lambda>ctx. (ctx_key ctx, TxSuccess)) (sends ops) \<and>
    NetCxn_Start r n = Inr c0 \<and> receive r pick (length (w_out w)) (w_out w) c0 = Inr (c, []) \<and>
    map pk_view (c_received c) = map (pk_view \<circ> x_Packet) (sends ops)"
proof -
  let ?ps = "map (pk_view \<circ> x_Packet) (sends ops)"
  obtain w0 where w0: "send_step e Connect NetWrite_new = Inr w0" "calm_inv [] w0" using calm_connect by blast
  obtain w1 where w1: "send_run e ops w0 = Inr w1" "calm_inv (sends ops) w1"
    using calm_run [OF w0(2) assms(1,2) _ _ assms(6)] assms(3,4) by auto
  obtain w where w: "send_run e (map Written picks) w1 = Inr w" "calm_inv (sends ops) w" "w_Sendq w = []"
    using calm_drain [OF w1(2) assms(4,6), of picks] assms(5) by auto
  have out: "w_out w = concat (map wire ?ps)" using calm_out(2) [OF w(2,3)] by (simp add: comp_assoc)
  have "length (concat (map wire ?ps)) = total_bytes (sends ops)" by (simp add: total_bytes_def length_concat comp_def ctx_key_def)
  then obtain c0 c where c: "NetCxn_Start r n = Inr c0" "receive r pick (length (w_out w)) (w_out w) c0 = Inr (c, [])" "map pk_view (c_received c) = ?ps"
    using receive_all [OF assms(7,8) _ _ assms(10-12), of ?ps pick] assms(4,9) unfolding out by auto
  have "map (ctx_key \<circ> fst) (w_reported w) = map ctx_key (sends ops)" "\<forall>q \<in> set (w_reported w). snd q = TxSuccess"
    using w(2,3) by (auto simp: calm_inv_def)
  then have "map (\<lambda>(ctx, status). (ctx_key ctx, status)) (w_reported w) = map (\<lambda>ctx. (ctx_key ctx, TxSuccess)) (sends ops)"
    by (auto simp: list_eq_iff_nth_eq split_beta)
  moreover have "\<not> w_Closed NetWrite_new" by (simp add: NetWrite_new_def)
  then have "send_run e (Connect # ops @ map Written picks) NetWrite_new = Inr w" using w0(1) w1(1) w(1) by (simp add: send_run_append)
  ultimately show ?thesis using c by blast
qed

section \<open>Instances\<close>

definition sample_send :: send_env where
  "sample_send = \<lparr>se_heap = (\<lambda>_. 1), se_little = True, se_address = 0, se_IsServer = False, se_FailOnDisconnect = False, se_closes = (\<lambda>_. False)\<rparr>"

text \<open>Two packets of four bytes in the pool buffer of 32 bytes.\<close>
definition sample_ctx :: "nat \<Rightarrow> NetPacketCtx" where
  "sample_ctx i =
     \<lparr>x_id = i,
      x_Packet = \<lparr>pk_Hdr = \<lparr>h_Size = 0, h_ProtoVersion = 1, h_Xid = of_nat i, h_Checksum = 0\<rparr>,
        pk_MemoryManager = \<lparr>pm_Buffer = \<lparr>b_Size = 32, b_Memory = (\<lambda>_. of_nat i)\<rparr>, pm_dataBufferLength = 12, pm_readPointer = 0, pm_validLength = 4\<rparr>,
        pk_ServerAddr = (1, 2), pk_ClientAddr = (3, 4), pk_MaxPacketSize = MaxNetPacketSize, pk_MaxPacketAlertSize = 0\<rparr>,
      x_Timeout = 30, x_SendOnExisting = False\<rparr>"

lemma sample_ctx_ok: "ctx_ok (sample_ctx i)" "x_id (sample_ctx i) = i" "length (wire (snd (ctx_key (sample_ctx i)))) = 24"
  "sendable sample_net (pk_view (x_Packet (sample_ctx i)))"
proof -
  have d: "pk_data (x_Packet (sample_ctx i)) = [of_nat i, of_nat i, of_nat i, of_nat i]" by (simp add: pk_data_def pk_memory_def sample_ctx_def)
  show "ctx_ok (sample_ctx i)" by (simp add: ctx_ok_def pm_ok_def sample_ctx_def SerialLen_def)
  show "x_id (sample_ctx i) = i" by (simp add: sample_ctx_def)
  show "length (wire (snd (ctx_key (sample_ctx i)))) = 24" using d by (simp add: ctx_key_def pk_view_def)
  show "sendable sample_net (pk_view (x_Packet (sample_ctx i)))" using d sample_sendable by (simp add: pk_view_def)
qed

definition sample_traffic :: "send_op list" where
  "sample_traffic = [Send (sample_ctx 1), Written 6, Send (sample_ctx 2)]"

lemma sample_total: "total_bytes (sends sample_traffic) = 48"
  by (simp add: sample_traffic_def total_bytes_def sample_ctx_ok)

text \<open>A packet times out while it is written, and the connection is lost while the next one is.\<close>
definition sample_run :: "send_op list" where
  "sample_run = [Connect, Send (sample_ctx 1), Written 6, Send (sample_ctx 2), Tick 40, Written 30, Lost, Connect, Written 5]"

theorem send_keeps_packets_witness:
  "\<exists>w n. send_run sample_send sample_run NetWrite_new = Inr w \<and> n \<le> length sample_run \<and> (n = length sample_run \<or> w_Closed w) \<and>
    mset (map ctx_key (w_Sendq w)) + mset (map (ctx_key \<circ> fst) (w_reported w)) = mset (map ctx_key (sends (take n sample_run)))"
proof -
  have "\<forall>ctx \<in> set (sends sample_run). ctx_ok ctx" "distinct (map x_id (sends sample_run))" "total_bytes (sends sample_run) < 2 ^ 62"
    by (simp_all add: sample_run_def total_bytes_def sample_ctx_ok)
  from send_keeps_packets [OF this, of sample_send] show ?thesis by blast
qed

theorem packets_delivered_witness:
  "\<exists>w c0 c. send_run sample_send (Connect # sample_traffic @ map Written (replicate 49 3)) NetWrite_new = Inr w \<and>
    NetCxn_Start sample_net 32 = Inr c0 \<and> receive sample_net (\<lambda>_. 7) (length (w_out w)) (w_out w) c0 = Inr (c, []) \<and>
    map pk_view (c_received c) = map (pk_view \<circ> x_Packet) [sample_ctx 1, sample_ctx 2]"
proof -
  have s: "sends sample_traffic = [sample_ctx 1, sample_ctx 2]" by (simp add: sample_traffic_def)
  have a: "\<forall>op \<in> set sample_traffic. is_traffic op" "\<forall>ctx \<in> set (sends sample_traffic). ctx_ok ctx" "distinct (map x_id (sends sample_traffic))"
    "total_bytes (sends sample_traffic) < 2 ^ 62" "total_bytes (sends sample_traffic) < length (replicate 49 (3 :: nat))" "\<forall>ctx. \<not> se_closes sample_send ctx"
    "20 \<le> unat (32 :: u32)" "unat (32 :: u32) < 2 ^ 30" "\<forall>ctx \<in> set (sends sample_traffic). sendable sample_net (pk_view (x_Packet ctx))"
    "\<not> ne_ReceiveSuspended sample_net" "\<not> ne_connect_closes sample_net" "\<forall>p. \<not> ne_closes sample_net p"
    unfolding sample_total by (simp_all add: sample_traffic_def sample_ctx_ok sample_send_def, simp_all add: sample_net_def)
  from packets_delivered [OF this, of "\<lambda>_. 7"] show ?thesis unfolding s by blast
qed

end
