(* ===== verification/Event_Queue.thy ===== *)
theory Event_Queue
  imports RSL_Prelude "HOL-Library.Multiset"
begin

text \<open>
  Timed events of the network threads (EventQueue.h, NetProcessor.cpp under
  src/src/NetworkLib).  Events wait in ten buckets by the time they have left, each
  twice as wide as the one before; Check looks again at a bucket only when the
  corresponding bit of the time has changed.  When the rounds of a thread come often
  enough no event is late; when one is delayed, events can be overlooked.

  The rounds of one thread are modelled.  What the handlers and the other threads do
  is given for every callback of a round: whether the lock of the handler is free,
  which events are cancelled and which are put in the protected queue of the thread
  until the next callback.  An event whose handler is locked is scheduled again, in
  this thread or in another one.
\<close>

section \<open>The buckets\<close>

text \<open>Times are in microseconds and not negative.\<close>
record CompletionEvent =
  ev_id :: nat
  ev_Timeout :: int
  ev_Cancelled :: bool
  ev_InBucket :: int

record PriorityEventQueue =
  pq_Eventq :: "CompletionEvent list list"
  pq_TimeBase :: int
  pq_LastChecked :: u32

definition HRTIME_MS :: "int \<Rightarrow> int" where "HRTIME_MS x = x * 1000"
definition PQ_BUCKET_TIME :: "nat \<Rightarrow> int" where "PQ_BUCKET_TIME i = push_bit i (HRTIME_MS 5)"
definition NUM_BUCKETS :: nat where "NUM_BUCKETS = 10"

definition PriorityEventQueue_new :: "int \<Rightarrow> PriorityEventQueue" where
  "PriorityEventQueue_new now =
     \<lparr>pq_Eventq = replicate NUM_BUCKETS [], pq_TimeBase = now, pq_LastChecked = word_of_int (now div PQ_BUCKET_TIME 0)\<rparr>"

function bucket_up :: "int \<Rightarrow> nat \<Rightarrow> nat" where
  "bucket_up t i = (if t > PQ_BUCKET_TIME i \<and> i < NUM_BUCKETS - 1 then bucket_up t (i + 1) else i)"
  by pat_completeness auto
termination
  by (relation "measure (\<lambda>(t, i). NUM_BUCKETS - i)") auto

declare bucket_up.simps [simp del]

fun bucket_down :: "int \<Rightarrow> nat \<Rightarrow> nat" where
  "bucket_down tt 0 = 0"
| "bucket_down tt (Suc j) = (if tt \<le> PQ_BUCKET_TIME j then bucket_down tt j else Suc j)"

text \<open>Queue::enqueue on a bucket.\<close>
definition bucket_add :: "nat \<Rightarrow> CompletionEvent \<Rightarrow> CompletionEvent list list \<Rightarrow> CompletionEvent list list" where
  "bucket_add i e qs = qs[i := qs ! i @ [e]]"

definition pq_Enqueue :: "CompletionEvent \<Rightarrow> int \<Rightarrow> PriorityEventQueue \<Rightarrow> PriorityEventQueue" where
  "pq_Enqueue e now q =
     (let i = bucket_up (ev_Timeout e - now) 0
      in q\<lparr>pq_Eventq := bucket_add i (e\<lparr>ev_InBucket := int i\<rparr>) (pq_Eventq q)\<rparr>)"

definition pq_Dequeue :: "PriorityEventQueue \<Rightarrow> (CompletionEvent option \<times> PriorityEventQueue) res" where
  "pq_Dequeue q =
     (case pq_Eventq q ! 0 of
        [] \<Rightarrow> Inr (None, q)
      | e # es \<Rightarrow> log_assert (ev_InBucket e \<ge> 0) (Some (e\<lparr>ev_InBucket := -1\<rparr>), q\<lparr>pq_Eventq := (pq_Eventq q)[0 := es]\<rparr>))"

function count_bits :: "u32 \<Rightarrow> nat" where
  "count_bits todo = (if todo = 0 then 0 else Suc (count_bits (drop_bit 1 todo)))"
  by pat_completeness auto
termination
proof (relation "measure unat")
  fix todo :: u32
  assume "todo \<noteq> 0"
  then have "0 < unat todo" by (simp add: unat_gt_0)
  moreover have "unat (drop_bit 1 todo) = unat todo div 2" by (simp only: unat_drop_bit_eq) (simp add: drop_bit_eq_div)
  ultimately show "(drop_bit 1 todo, todo) \<in> measure unat" by simp
qed simp

declare count_bits.simps [simp del]

definition check_event :: "int \<Rightarrow> nat \<Rightarrow> CompletionEvent \<Rightarrow> CompletionEvent list list \<Rightarrow> CompletionEvent list list" where
  "check_event now i e qs =
     (if ev_Cancelled e then bucket_add 0 e qs
      else let j = bucket_down (ev_Timeout e - now) i in bucket_add j (e\<lparr>ev_InBucket := int j\<rparr>) qs)"

definition check_bucket :: "int \<Rightarrow> nat \<Rightarrow> CompletionEvent list list \<Rightarrow> CompletionEvent list list" where
  "check_bucket now i qs = fold (check_event now i) (qs ! i) (qs[i := []])"

definition pq_Check :: "int \<Rightarrow> PriorityEventQueue \<Rightarrow> PriorityEventQueue" where
  "pq_Check now q =
     (let check = word_of_int (now div PQ_BUCKET_TIME 0);
          todo = check XOR pq_LastChecked q;
          todo = todo AND (push_bit (NUM_BUCKETS - 1) 1 - 1);
          k = count_bits todo
      in q\<lparr>pq_TimeBase := now, pq_LastChecked := check, pq_Eventq := fold (check_bucket now) [1..<Suc k] (pq_Eventq q)\<rparr>)"

definition HRTIME_FOREVER :: int where "HRTIME_FOREVER = 10 * (10 * (365 * (24 * (60 * (60 * (1000 * 1000)))) + 24 * (60 * (60 * (1000 * 1000))) div 4))"

definition EarliestTimeout :: "PriorityEventQueue \<Rightarrow> int" where
  "EarliestTimeout q =
     (case find (\<lambda>i. pq_Eventq q ! i \<noteq> []) [0..<NUM_BUCKETS] of
        Some i \<Rightarrow> pq_TimeBase q + PQ_BUCKET_TIME i div 2
      | None \<Rightarrow> pq_TimeBase q + HRTIME_FOREVER)"

section \<open>A round of a thread\<close>

definition EVENT_RETRY_TIME :: int where "EVENT_RETRY_TIME = HRTIME_MS 10"

text \<open>
  What happens from one CallbackEvent to the next: cb_lock says that MUTEX_TRY_LOCK gets
  the lock of the handler, cb_clock is GetHiResTime in ScheduleCompletion and cb_here
  says that m_NextThread comes to this thread; cb_cancels are the identities of the
  events that the handler or another thread cancels, and cb_puts the events they schedule
  for this thread; an event that its handler schedules again is one of these (m_Scheduled,
  which keeps it from being deleted, has no other use).
\<close>
record callback =
  cb_lock :: bool
  cb_clock :: int
  cb_here :: bool
  cb_cancels :: "nat list"
  cb_puts :: "CompletionEvent list"

text \<open>
  A round: the local queue q, the protected queue m_Queue, and a record of what
  happened: the callbacks and the ones missed because of the lock, with the time of the
  round, the events handed to other threads, the events that came and the identities
  cancelled.
\<close>
record round_state =
  rs_eventq :: PriorityEventQueue
  rs_local :: "CompletionEvent list"
  rs_queue :: "CompletionEvent list"
  rs_calls :: nat
  rs_fired :: "(int \<times> CompletionEvent) list"
  rs_missed :: "(int \<times> CompletionEvent) list"
  rs_handed :: "CompletionEvent list"
  rs_came :: "CompletionEvent list"
  rs_cancelled :: "nat list"

text \<open>CompletionEvent::Cancel of the events with these identities, wherever they wait.\<close>
definition cancel_list :: "nat list \<Rightarrow> CompletionEvent list \<Rightarrow> CompletionEvent list" where
  "cancel_list ids = map (\<lambda>e. if ev_id e \<in> set ids then e\<lparr>ev_Cancelled := True\<rparr> else e)"

definition cancel_events :: "nat list \<Rightarrow> PriorityEventQueue \<Rightarrow> PriorityEventQueue" where
  "cancel_events ids q = q\<lparr>pq_Eventq := map (cancel_list ids) (pq_Eventq q)\<rparr>"

definition others_act :: "callback \<Rightarrow> round_state \<Rightarrow> round_state" where
  "others_act c st = st\<lparr>rs_eventq := cancel_events (cb_cancels c) (rs_eventq st), rs_local := cancel_list (cb_cancels c) (rs_local st),
     rs_queue := cancel_list (cb_cancels c) (rs_queue st) @ cb_puts c, rs_came := rs_came st @ cb_puts c,
     rs_cancelled := rs_cancelled st @ cb_cancels c\<rparr>"

definition ScheduleCompletion :: "callback \<Rightarrow> CompletionEvent \<Rightarrow> int \<Rightarrow> round_state \<Rightarrow> round_state" where
  "ScheduleCompletion c e timeout st =
     (let e = e\<lparr>ev_Timeout := cb_clock c + timeout\<rparr> in
      if cb_here c then st\<lparr>rs_queue := rs_queue st @ [e]\<rparr> else st\<lparr>rs_handed := rs_handed st @ [e]\<rparr>)"

definition CallbackEvent :: "(nat \<Rightarrow> callback) \<Rightarrow> int \<Rightarrow> CompletionEvent \<Rightarrow> round_state \<Rightarrow> round_state" where
  "CallbackEvent env now e st =
     (let c = env (rs_calls st); st = st\<lparr>rs_calls := Suc (rs_calls st)\<rparr> in
      others_act c
        (if ev_Cancelled e then st
         else if cb_lock c then st\<lparr>rs_fired := rs_fired st @ [(now, e)]\<rparr>
         else ScheduleCompletion c e EVENT_RETRY_TIME (st\<lparr>rs_missed := rs_missed st @ [(now, e)]\<rparr>)))"

definition take_scheduled :: "(nat \<Rightarrow> callback) \<Rightarrow> int \<Rightarrow> CompletionEvent \<Rightarrow> round_state \<Rightarrow> round_state" where
  "take_scheduled env now e st =
     (if ev_Cancelled e then st
      else if ev_Timeout e \<le> now then CallbackEvent env now e st
      else st\<lparr>rs_eventq := pq_Enqueue e now (rs_eventq st)\<rparr>)"

fun take_local :: "nat \<Rightarrow> (nat \<Rightarrow> callback) \<Rightarrow> int \<Rightarrow> round_state \<Rightarrow> round_state res" where
  "take_local k env now st =
     (case rs_local st of
        [] \<Rightarrow> Inr st
      | e # es \<Rightarrow> (case k of 0 \<Rightarrow> Inl OutOfFuel | Suc k \<Rightarrow> take_local k env now (take_scheduled env now e (st\<lparr>rs_local := es\<rparr>))))"

declare take_local.simps [simp del]

fun drain_events :: "nat \<Rightarrow> (nat \<Rightarrow> callback) \<Rightarrow> int \<Rightarrow> bool \<Rightarrow> round_state \<Rightarrow> (bool \<times> round_state) res" where
  "drain_events 0 env now done_one st = Inl OutOfFuel"
| "drain_events (Suc k) env now done_one st =
     bindE (pq_Dequeue (rs_eventq st)) (\<lambda>(e, q). case e of
         None \<Rightarrow> Inr (done_one, st)
       | Some e \<Rightarrow> drain_events k env now True (CallbackEvent env now e (st\<lparr>rs_eventq := q\<rparr>)))"

fun timed_loop :: "nat \<Rightarrow> (nat \<Rightarrow> callback) \<Rightarrow> int \<Rightarrow> round_state \<Rightarrow> round_state res" where
  "timed_loop 0 env now st = Inl OutOfFuel"
| "timed_loop (Suc k) env now st =
     (let st = st\<lparr>rs_eventq := pq_Check now (rs_eventq st)\<rparr> in
      bindE (drain_events (Suc (length (pq_Eventq (rs_eventq st) ! 0))) env now False st) (\<lambda>(done_one, st).
        if done_one then timed_loop k env now st else Inr st))"

definition put_scheduled :: "int \<Rightarrow> CompletionEvent \<Rightarrow> PriorityEventQueue \<Rightarrow> PriorityEventQueue" where
  "put_scheduled now e q = (if ev_Cancelled e then q else pq_Enqueue e now q)"

definition round_start :: "CompletionEvent list \<Rightarrow> PriorityEventQueue \<Rightarrow> round_state" where
  "round_start scheduled q = \<lparr>rs_eventq = q, rs_local = scheduled, rs_queue = [], rs_calls = 0, rs_fired = [], rs_missed = [],
     rs_handed = [], rs_came = [], rs_cancelled = []\<rparr>"

text \<open>scheduled is the protected queue of the thread when the round starts; at its end it is empty.\<close>
definition ProcessTimedEvents :: "(nat \<Rightarrow> callback) \<Rightarrow> int \<Rightarrow> CompletionEvent list \<Rightarrow> PriorityEventQueue \<Rightarrow> round_state res" where
  "ProcessTimedEvents env now scheduled q =
     bindE (take_local (length scheduled) env now (round_start scheduled q)) (\<lambda>st.
     bindE (timed_loop (Suc (length (concat (pq_Eventq (rs_eventq st))))) env now st) (\<lambda>st.
       Inr (st\<lparr>rs_eventq := fold (put_scheduled now) (rs_queue st) (rs_eventq st), rs_queue := []\<rparr>)))"

text \<open>
  The rounds of a thread: the time of each, the events cancelled since the last one,
  what was scheduled before it, and what happens at its callbacks.  The result is the
  queue at the end and the rounds as they went.
\<close>
type_synonym round = "int \<times> nat list \<times> CompletionEvent list \<times> (nat \<Rightarrow> callback)"

fun rounds :: "round list \<Rightarrow> PriorityEventQueue \<Rightarrow> (PriorityEventQueue \<times> round_state list) res" where
  "rounds [] q = Inr (q, [])"
| "rounds ((now, cancelled, scheduled, env) # rs) q =
     bindE (ProcessTimedEvents env now scheduled (cancel_events cancelled q)) (\<lambda>st.
     bindE (rounds rs (rs_eventq st)) (\<lambda>(q, sts). Inr (q, st # sts)))"

text \<open>How long a thread waits for the next completion, in milliseconds.\<close>
definition MAX_EVENT_DELAY :: int where "MAX_EVENT_DELAY = 10"

definition wait_time :: "int \<Rightarrow> PriorityEventQueue \<Rightarrow> int" where
  "wait_time now q =
     (let hiResTimeout = EarliestTimeout q in
      if hiResTimeout - now < HRTIME_MS MAX_EVENT_DELAY then (hiResTimeout - now) div HRTIME_MS 1 else MAX_EVENT_DELAY)"

section \<open>Looking at the buckets often enough\<close>

lemma bucket_time: "PQ_BUCKET_TIME i = 5000 * 2 ^ i"
  by (simp add: PQ_BUCKET_TIME_def HRTIME_MS_def push_bit_eq_mult)

lemma count_bits_le: "count_bits w \<le> n \<longleftrightarrow> drop_bit n w = 0"
proof (induction n arbitrary: w)
  case 0
  then show ?case by (simp add: count_bits.simps [of w])
next
  case (Suc n)
  have "drop_bit (Suc n) w = drop_bit n (drop_bit 1 w)" by (simp add: drop_bit_drop_bit)
  then show ?case using Suc [of "drop_bit 1 w"] by (simp add: count_bits.simps [of w])
qed

lemma low_bits: "w AND (push_bit 9 1 - 1) = take_bit 9 w" for w :: u32
  by (simp add: take_bit_eq_mask mask_eq_exp_minus_1)

lemma same_div:
  fixes x y q :: int
  assumes "x div q = y div q" "0 < q"
  shows "x - y < q"
proof -
  have "x = q * (y div q) + x mod q" using assms(1) by (metis mult_div_mod_eq)
  moreover have "x mod q < q" "0 \<le> y mod q" using assms(2) by simp_all
  ultimately show ?thesis using mult_div_mod_eq [of q y] by linarith
qed

text \<open>The bits of the time from n on have not changed.\<close>
lemma same_block:
  assumes "drop_bit n ((word_of_int c XOR word_of_int l) AND (push_bit 9 1 - 1) :: u32) = 0" "n \<le> 8" "l \<le> c" "c \<le> l + 256"
  shows "c div 2 ^ n = l div 2 ^ n"
proof -
  let ?q = "2 ^ n :: int"
  have eq: "bit c j = bit l j" if "n \<le> j" "j < 9" for j
  proof -
    have z: "drop_bit n (take_bit 9 (word_of_int c XOR word_of_int l) :: u32) = 0" using assms(1) unfolding low_bits .
    have "\<not> bit (drop_bit n (take_bit 9 (word_of_int c XOR word_of_int l) :: u32)) (j - n)" unfolding z by simp
    then show ?thesis using that by (simp add: bit_drop_bit_eq bit_take_bit_iff bit_xor_iff bit_word_of_int_iff)
  qed
  have "drop_bit n (take_bit 9 c) = drop_bit n (take_bit 9 l)"
    by (rule bit_eqI) (use eq in \<open>auto simp: bit_drop_bit_eq bit_take_bit_iff\<close>)
  then have low: "(c mod 512) div ?q = (l mod 512) div ?q" by (simp add: drop_bit_eq_div take_bit_eq_mod)
  have q: "0 < ?q" "?q \<le> 256" using power_increasing [of n 8 "2 :: int"] assms(2) by simp_all
  have d: "?q dvd 512" using le_imp_power_dvd [of n 9 "2 :: int"] assms(2) by simp
  have less: "c mod 512 - l mod 512 < ?q" "l mod 512 - c mod 512 < ?q" using same_div [OF low q(1)] same_div [OF low [symmetric] q(1)] by simp_all
  then have "\<not> c div 512 + 1 \<le> l div 512" "\<not> l div 512 + 1 \<le> c div 512"
    using q(2) assms(3,4) mult_div_mod_eq [of 512 c] mult_div_mod_eq [of 512 l] by linarith+
  then have hi: "c div 512 = l div 512" by linarith
  obtain m where m: "512 = ?q * m" using d by (rule dvdE)
  have split: "x div ?q = m * (x div 512) + (x mod 512) div ?q" for x :: int
  proof -
    have "x = ?q * (m * (x div 512)) + x mod 512" using mult_div_mod_eq [of 512 x] unfolding mult.assoc [symmetric] m [symmetric] by simp
    then have "x div ?q = (?q * (m * (x div 512)) + x mod 512) div ?q" by (rule arg_cong)
    also have "\<dots> = m * (x div 512) + (x mod 512) div ?q" using q(1) by (intro div_mult_self4) simp
    finally show ?thesis .
  qed
  show ?thesis unfolding split [of c] split [of l] hi low ..
qed

text \<open>Never later than the block of time ends in which the bucket is looked at.\<close>
definition in_time :: "int \<Rightarrow> nat \<Rightarrow> int \<Rightarrow> bool" where
  "in_time l i t \<longleftrightarrow> (case i of 0 \<Rightarrow> True | Suc n \<Rightarrow> 5000 * (2 ^ n * (l div 2 ^ n + 1)) < t)"

lemma in_time_future:
  assumes "PQ_BUCKET_TIME n < t - now" "now div 5000 = c"
  shows "in_time c (Suc n) t"
proof -
  have "2 ^ n * (c div 2 ^ n) \<le> c" using mult_div_mod_eq [of "2 ^ n" c] pos_mod_sign [of "2 ^ n" c] zero_less_power [of "2 :: int" n] by linarith
  then have "5000 * (2 ^ n * (c div 2 ^ n)) \<le> 5000 * c" by simp
  also have "\<dots> \<le> now" using assms(2) by (simp add: minus_mod_eq_mult_div [symmetric])
  finally show ?thesis using assms(1) by (simp add: in_time_def bucket_time algebra_simps)
qed

lemma in_time_not_due:
  assumes "in_time (now div 5000) (Suc n) t"
  shows "now < t"
proof -
  let ?c = "now div 5000"
  have "?c < 2 ^ n * (?c div 2 ^ n) + 2 ^ n" using mult_div_mod_eq [of "2 ^ n" ?c] pos_mod_bound [of "2 ^ n" ?c] zero_less_power [of "2 :: int" n] by linarith
  then have "?c + 1 \<le> 2 ^ n * (?c div 2 ^ n + 1)" by (simp add: algebra_simps)
  then have "5000 * (?c + 1) \<le> 5000 * (2 ^ n * (?c div 2 ^ n + 1))" by simp
  moreover have "now < 5000 * (?c + 1)" using mult_div_mod_eq [of 5000 now] pos_mod_bound [of 5000 now] by simp
  ultimately show ?thesis using assms by (simp add: in_time_def)
qed

lemma in_time_later:
  assumes "in_time l i t" "l \<le> c" "c \<le> l + 256" "i \<le> 9"
    "count_bits ((word_of_int c XOR word_of_int l) AND (push_bit 9 1 - 1) :: u32) < i"
  shows "in_time c i t"
proof (cases i)
  case (Suc n)
  then have "drop_bit n ((word_of_int c XOR word_of_int l) AND (push_bit 9 1 - 1) :: u32) = 0" using assms(5) unfolding count_bits_le [symmetric] by simp
  then show ?thesis using same_block [of n c l] assms(1-4) Suc by (simp add: in_time_def)
qed (simp add: in_time_def)

lemma bucket_up_less: "i < 10 \<Longrightarrow> bucket_up t i < 10"
  by (induction t i rule: bucket_up.induct) (subst bucket_up.simps, auto simp: NUM_BUCKETS_def)

lemma bucket_up_ge: "i \<le> bucket_up t i"
proof (induction t i rule: bucket_up.induct)
  case (1 t i)
  have "bucket_up t i = (if t > PQ_BUCKET_TIME i \<and> i < NUM_BUCKETS - 1 then bucket_up t (i + 1) else i)" by (rule bucket_up.simps)
  then show ?case using 1 by (auto split: if_splits)
qed

lemma bucket_up_time: "bucket_up t i = Suc n \<Longrightarrow> i \<le> n \<Longrightarrow> PQ_BUCKET_TIME n < t"
proof (induction t i rule: bucket_up.induct)
  case (1 t i)
  have "bucket_up t i = (if t > PQ_BUCKET_TIME i \<and> i < NUM_BUCKETS - 1 then bucket_up t (i + 1) else i)" by (rule bucket_up.simps)
  then show ?case using 1 by (cases "i = n") (auto split: if_splits)
qed

lemma bucket_down_le: "bucket_down t i \<le> i"
  by (induction i) auto

lemma bucket_down_time: "bucket_down t i = Suc n \<Longrightarrow> PQ_BUCKET_TIME n < t"
  by (induction i) (auto split: if_splits)

lemma bucket_down_0: "bucket_down t i = 0 \<Longrightarrow> 0 < i \<Longrightarrow> t \<le> 5000"
proof (induction i)
  case (Suc i)
  then show ?case by (cases i) (auto simp: bucket_time split: if_splits)
qed simp

lemma in_time_mono: "in_time c i t \<Longrightarrow> l \<le> c \<Longrightarrow> in_time l i t"
proof (cases i)
  case (Suc n)
  assume a: "in_time c i t" "l \<le> c"
  then have "l div 2 ^ n \<le> c div 2 ^ n" by (intro zdiv_mono1) simp_all
  then have "(2 :: int) ^ n * (l div 2 ^ n + 1) \<le> 2 ^ n * (c div 2 ^ n + 1)" by simp
  moreover have "5000 * (2 ^ n * (c div 2 ^ n + 1)) < t" using a(1) Suc by (simp add: in_time_def)
  ultimately have "5000 * (2 ^ n * (l div 2 ^ n + 1)) < t" by linarith
  then show ?thesis using Suc by (simp add: in_time_def)
qed (simp add: in_time_def)

section \<open>What the buckets hold\<close>

definition ev_key :: "CompletionEvent \<Rightarrow> nat \<times> int" where
  "ev_key e = (ev_id e, ev_Timeout e)"

text \<open>The events that are not cancelled.\<close>
definition live :: "CompletionEvent list \<Rightarrow> (nat \<times> int) multiset" where
  "live es = mset (map ev_key (filter (\<lambda>e. \<not> ev_Cancelled e) es))"

definition waiting_events :: "PriorityEventQueue \<Rightarrow> (nat \<times> int) multiset" where
  "waiting_events q = live (concat (pq_Eventq q))"

lemma live_simps [simp]:
  "live [] = {#}" "live (xs @ ys) = live xs + live ys" "live (e # es) = (if ev_Cancelled e then live es else add_mset (ev_key e) (live es))"
  by (simp_all add: live_def)

lemma ev_key_simps [simp]: "ev_key (e\<lparr>ev_InBucket := b\<rparr>) = ev_key e"
  by (simp add: ev_key_def)

lemma live_update: "i < length qs \<Longrightarrow> live (concat (qs[i := ys])) + live (qs ! i) = live (concat qs) + live ys"
proof (induction qs arbitrary: i)
  case (Cons a qs)
  then show ?case by (cases i) (auto simp: ac_simps)
qed simp

lemma length_update: "i < length qs \<Longrightarrow> length (concat (qs[i := ys])) + length (qs ! i) = length (concat qs) + length ys"
proof (induction qs arbitrary: i)
  case (Cons a qs)
  then show ?case by (cases i) auto
qed simp

lemma live_bucket_add: "i < length qs \<Longrightarrow> live (concat (bucket_add i e qs)) = live (concat qs) + live [e]"
  using live_update [of i qs "qs ! i @ [e]"] by (simp add: bucket_add_def)

lemma length_bucket_add [simp]: "length (bucket_add i e qs) = length qs"
  by (simp add: bucket_add_def)

definition buckets_ok :: "(nat \<Rightarrow> CompletionEvent \<Rightarrow> bool) \<Rightarrow> CompletionEvent list list \<Rightarrow> bool" where
  "buckets_ok f qs \<longleftrightarrow> length qs = 10 \<and> (\<forall>i < 10. \<forall>e \<in> set (qs ! i). f i e)"

lemma buckets_ok_add: "buckets_ok f qs \<Longrightarrow> i < 10 \<Longrightarrow> f i e \<Longrightarrow> buckets_ok f (bucket_add i e qs)"
  by (auto simp: buckets_ok_def bucket_add_def nth_list_update split: if_splits)

text \<open>l is the time of the last look at the buckets, b that of the last round.\<close>
definition event_ok :: "int \<Rightarrow> int \<Rightarrow> nat \<Rightarrow> CompletionEvent \<Rightarrow> bool" where
  "event_ok l b i e \<longleftrightarrow> in_time l i (ev_Timeout e) \<and> 0 \<le> ev_InBucket e \<and> (i = 0 \<longrightarrow> ev_Cancelled e \<or> ev_Timeout e \<le> b + 5000)"

definition pq_inv :: "int \<Rightarrow> PriorityEventQueue \<Rightarrow> bool" where
  "pq_inv b q \<longleftrightarrow> 0 \<le> pq_TimeBase q \<and> pq_TimeBase q \<le> b \<and> pq_LastChecked q = word_of_int (pq_TimeBase q div 5000) \<and>
     buckets_ok (event_ok (pq_TimeBase q div 5000) b) (pq_Eventq q)"

lemma event_ok_mono: "event_ok l b i e \<Longrightarrow> b \<le> b' \<Longrightarrow> event_ok l b' i e"
  by (auto simp: event_ok_def)

lemma pq_inv_mono: "pq_inv b q \<Longrightarrow> b \<le> b' \<Longrightarrow> pq_inv b' q"
  using event_ok_mono by (fastforce simp: pq_inv_def buckets_ok_def)

lemma Enqueue_ok:
  assumes "pq_inv now q"
  shows "pq_inv now (pq_Enqueue e now q)" "waiting_events (pq_Enqueue e now q) = waiting_events q + live [e]" "pq_TimeBase (pq_Enqueue e now q) = pq_TimeBase q"
proof -
  let ?i = "bucket_up (ev_Timeout e - now) 0" let ?l = "pq_TimeBase q div 5000"
  have i: "?i < 10" by (rule bucket_up_less) simp
  have "in_time ?l ?i (ev_Timeout e)"
  proof (cases ?i)
    case (Suc n)
    then have "in_time (now div 5000) (Suc n) (ev_Timeout e)" using bucket_up_time [of _ 0 n] in_time_future by blast
    then show ?thesis unfolding Suc by (rule in_time_mono) (use assms in \<open>simp add: pq_inv_def zdiv_mono1\<close>)
  qed (simp add: in_time_def)
  moreover have "ev_Timeout e \<le> now + 5000" if "?i = 0"
  proof (rule ccontr)
    assume "\<not> ?thesis"
    then have "PQ_BUCKET_TIME 0 < ev_Timeout e - now" by (simp add: bucket_time)
    then have "?i = bucket_up (ev_Timeout e - now) 1" by (subst bucket_up.simps) (simp add: NUM_BUCKETS_def)
    then show False using that bucket_up_ge [of 1 "ev_Timeout e - now"] by simp
  qed
  ultimately have "event_ok ?l now ?i (e\<lparr>ev_InBucket := int ?i\<rparr>)" by (simp add: event_ok_def)
  then show "pq_inv now (pq_Enqueue e now q)" using assms i
    by (simp add: pq_inv_def pq_Enqueue_def Let_def buckets_ok_add)
  show "waiting_events (pq_Enqueue e now q) = waiting_events q + live [e]" using assms i
    by (simp add: waiting_events_def pq_Enqueue_def Let_def live_bucket_add pq_inv_def buckets_ok_def)
qed (simp add: pq_Enqueue_def Let_def)

text \<open>Looking at one bucket again, of which the buckets up to m have been looked at before.\<close>
lemma check_event_ok:
  assumes "buckets_ok (\<lambda>i. event_ok (if i \<le> m then now div 5000 else l) now i) qs" "0 < m" "m < 10" "0 \<le> ev_InBucket e"
  shows "buckets_ok (\<lambda>i. event_ok (if i \<le> m then now div 5000 else l) now i) (check_event now m e qs)"
    "live (concat (check_event now m e qs)) = live (concat qs) + live [e]"
    "length (concat (check_event now m e qs)) = Suc (length (concat qs))"
proof -
  let ?j = "bucket_down (ev_Timeout e - now) m" and ?f = "\<lambda>i. event_ok (if i \<le> m then now div 5000 else l) now i"
  have j: "?j \<le> m" "?j < 10" using bucket_down_le [of "ev_Timeout e - now" m] assms(3) by simp_all
  have l: "length qs = 10" using assms(1) by (simp add: buckets_ok_def)
  have "in_time (now div 5000) ?j (ev_Timeout e)"
  proof (cases ?j)
    case (Suc n)
    show ?thesis unfolding Suc by (rule in_time_future [OF bucket_down_time [OF Suc] refl])
  qed (simp add: in_time_def)
  moreover have "?j = 0 \<Longrightarrow> ev_Timeout e \<le> now + 5000" using bucket_down_0 [of "ev_Timeout e - now" m] assms(2) by simp
  ultimately have "?f ?j (e\<lparr>ev_InBucket := int ?j\<rparr>)" using j(1) by (simp add: event_ok_def)
  moreover have "ev_Cancelled e \<Longrightarrow> ?f 0 e" using assms(4) by (simp add: event_ok_def in_time_def)
  ultimately show "buckets_ok ?f (check_event now m e qs)" using assms(1) j(2) by (simp add: check_event_def Let_def buckets_ok_add)
  show "live (concat (check_event now m e qs)) = live (concat qs) + live [e]" using j(2) l by (simp add: check_event_def Let_def live_bucket_add)
  have "length (concat (bucket_add k x qs)) = Suc (length (concat qs))" if "k < 10" for k x
    using length_update [of k qs "qs ! k @ [x]"] that l by (simp add: bucket_add_def)
  then show "length (concat (check_event now m e qs)) = Suc (length (concat qs))" using j(2) by (simp add: check_event_def Let_def)
qed

lemma check_events_ok:
  assumes "buckets_ok (\<lambda>i. event_ok (if i \<le> m then now div 5000 else l) now i) qs" "0 < m" "m < 10" "\<forall>e \<in> set es. 0 \<le> ev_InBucket e"
  shows "buckets_ok (\<lambda>i. event_ok (if i \<le> m then now div 5000 else l) now i) (fold (check_event now m) es qs) \<and>
    live (concat (fold (check_event now m) es qs)) = live (concat qs) + live es \<and>
    length (concat (fold (check_event now m) es qs)) = length (concat qs) + length es"
  using assms(1,4)
proof (induction es arbitrary: qs)
  case (Cons e es)
  note c = check_event_ok [OF Cons.prems(1) assms(2,3), of e]
  show ?case using Cons.IH [of "check_event now m e qs"] c Cons.prems(2) by (auto simp del: length_concat)
qed simp

lemma check_bucket_ok:
  assumes "buckets_ok (\<lambda>i. event_ok (if i \<le> m then now div 5000 else l) now i) qs" "Suc m < 10"
  shows "buckets_ok (\<lambda>i. event_ok (if i \<le> Suc m then now div 5000 else l) now i) (check_bucket now (Suc m) qs)"
    "live (concat (check_bucket now (Suc m) qs)) = live (concat qs)" "length (concat (check_bucket now (Suc m) qs)) = length (concat qs)"
proof -
  let ?qs = "qs[Suc m := []]"
  have l: "length qs = 10" and "\<forall>e \<in> set (qs ! Suc m). event_ok (if Suc m \<le> m then now div 5000 else l) now (Suc m) e"
    using assms unfolding buckets_ok_def by blast+
  then have b: "\<forall>e \<in> set (qs ! Suc m). 0 \<le> ev_InBucket e" by (simp add: event_ok_def)
  have "buckets_ok (\<lambda>i. event_ok (if i \<le> Suc m then now div 5000 else l) now i) ?qs"
    unfolding buckets_ok_def
  proof (intro conjI allI impI ballI)
    fix i e
    assume "i < 10" "e \<in> set (?qs ! i)"
    then have "i \<noteq> Suc m" "event_ok (if i \<le> m then now div 5000 else l) now i e"
      using assms l unfolding buckets_ok_def by (auto simp: nth_list_update split: if_splits)
    then show "event_ok (if i \<le> Suc m then now div 5000 else l) now i e" by (simp add: le_Suc_eq)
  qed (simp add: l)
  note c = check_events_ok [OF this zero_less_Suc assms(2) b]
  show "buckets_ok (\<lambda>i. event_ok (if i \<le> Suc m then now div 5000 else l) now i) (check_bucket now (Suc m) qs)" using c by (simp add: check_bucket_def)
  show "live (concat (check_bucket now (Suc m) qs)) = live (concat qs)"
    using c live_update [of "Suc m" qs "[]"] l assms(2) by (simp add: check_bucket_def)
  show "length (concat (check_bucket now (Suc m) qs)) = length (concat qs)"
    using c length_update [of "Suc m" qs "[]"] l assms(2) by (simp add: check_bucket_def del: length_concat)
qed

lemma check_buckets_ok:
  assumes "buckets_ok (event_ok l now) qs" "l \<le> now div 5000" "m < 10"
  shows "buckets_ok (\<lambda>i. event_ok (if i \<le> m then now div 5000 else l) now i) (fold (check_bucket now) [1..<Suc m] qs) \<and>
    live (concat (fold (check_bucket now) [1..<Suc m] qs)) = live (concat qs) \<and>
    length (concat (fold (check_bucket now) [1..<Suc m] qs)) = length (concat qs)"
  using assms(3)
proof (induction m)
  case 0
  have "event_ok (if i \<le> 0 then now div 5000 else l) now i e" if "event_ok l now i e" for i e
    using that by (simp add: event_ok_def in_time_def)
  then show ?case using assms(1) by (auto simp: buckets_ok_def)
next
  case (Suc m)
  let ?qs = "fold (check_bucket now) [1..<Suc m] qs"
  have "fold (check_bucket now) [1..<Suc (Suc m)] qs = check_bucket now (Suc m) ?qs" by simp
  then show ?case using Suc check_bucket_ok [of m now l ?qs] by (simp del: upt_Suc length_concat)
qed

text \<open>After Check the events that are due are in the first bucket.\<close>
lemma Check_ok:
  assumes "pq_inv b q" "b \<le> now" "now \<le> pq_TimeBase q + 1280000"
  shows "pq_inv now (pq_Check now q)" "waiting_events (pq_Check now q) = waiting_events q" "pq_TimeBase (pq_Check now q) = now"
    "length (concat (pq_Eventq (pq_Check now q))) = length (concat (pq_Eventq q))"
proof -
  let ?c = "now div 5000" let ?l = "pq_TimeBase q div 5000"
  let ?todo = "(word_of_int ?c XOR word_of_int ?l) AND (push_bit 9 1 - 1) :: u32" let ?k = "count_bits ?todo"
  have inv: "0 \<le> pq_TimeBase q" "pq_TimeBase q \<le> now" "pq_LastChecked q = word_of_int ?l" "buckets_ok (event_ok ?l now) (pq_Eventq q)"
    using pq_inv_mono [OF assms(1,2)] by (simp_all add: pq_inv_def)
  have c: "?l \<le> ?c" "?c \<le> ?l + 256" using inv(2) zdiv_mono1 [of _ _ 5000] assms(3) zdiv_mono1 [of now "pq_TimeBase q + 256 * 5000" 5000] by simp_all
  have "drop_bit 9 ?todo = 0"
    unfolding low_bits by (simp only: drop_bit_take_bit) simp
  then have k: "?k < 10" using count_bits_le [of ?todo 9] by simp
  let ?qs = "fold (check_bucket now) [1..<Suc ?k] (pq_Eventq q)"
  note f = check_buckets_ok [OF inv(4) c(1) k]
  have ch: "pq_Check now q = q\<lparr>pq_TimeBase := now, pq_LastChecked := word_of_int ?c, pq_Eventq := ?qs\<rparr>"
    using inv(3) by (simp add: pq_Check_def Let_def bucket_time NUM_BUCKETS_def)
  have "event_ok ?c now i e" if "i < 10" "event_ok (if i \<le> ?k then ?c else ?l) now i e" for i e
    using that c in_time_later [of ?l i _ ?c] by (auto simp: event_ok_def split: if_splits)
  then have "buckets_ok (event_ok ?c now) ?qs" using f unfolding buckets_ok_def by blast
  then show "pq_inv now (pq_Check now q)" using inv(1,2) by (simp add: ch pq_inv_def)
  show "waiting_events (pq_Check now q) = waiting_events q" using f by (simp add: ch waiting_events_def)
  show "length (concat (pq_Eventq (pq_Check now q))) = length (concat (pq_Eventq q))" using f by (simp add: ch del: length_concat)
qed (simp add: pq_Check_def Let_def)

lemma Check_again:
  assumes "pq_inv now q" "pq_TimeBase q = now"
  shows "pq_Check now q = q"
proof -
  have "pq_LastChecked q = word_of_int (now div 5000)" using assms by (simp add: pq_inv_def)
  then show ?thesis using assms(2) count_bits.simps [of 0] by (cases q) (simp add: pq_Check_def Let_def bucket_time)
qed

text \<open>The events of this identity that are not cancelled.\<close>
definition num :: "nat \<Rightarrow> CompletionEvent list \<Rightarrow> nat" where
  "num n es = length (filter (\<lambda>e. ev_id e = n \<and> \<not> ev_Cancelled e) es)"

lemma num_simps [simp]:
  "num n [] = 0" "num n (xs @ ys) = num n xs + num n ys"
  "num n (e # es) = (if ev_id e = n \<and> \<not> ev_Cancelled e then Suc (num n es) else num n es)"
  by (simp_all add: num_def)

lemma num_live: "num n es = size {#k \<in># live es. fst k = n#}"
  by (induction es) (auto simp: ev_key_def)

lemma num_cancel: "n \<notin> set ids \<Longrightarrow> num n (cancel_list ids es) = num n es"
  by (induction es) (auto simp: cancel_list_def)

definition num_waiting :: "nat \<Rightarrow> PriorityEventQueue \<Rightarrow> nat" where
  "num_waiting n q = num n (concat (pq_Eventq q))"

lemma num_waiting_size: "num_waiting n q = size {#k \<in># waiting_events q. fst k = n#}"
  by (simp add: num_waiting_def num_live waiting_events_def)

lemma cancel_ok:
  assumes "pq_inv b q"
  shows "pq_inv b (cancel_events ids q)" "pq_TimeBase (cancel_events ids q) = pq_TimeBase q"
    "n \<notin> set ids \<Longrightarrow> num_waiting n (cancel_events ids q) = num_waiting n q"
proof -
  have "buckets_ok (event_ok l b) qs \<Longrightarrow> buckets_ok (event_ok l b) (map (cancel_list ids) qs)" for l qs
    by (auto simp: buckets_ok_def event_ok_def cancel_list_def)
  then show "pq_inv b (cancel_events ids q)" using assms by (simp add: pq_inv_def cancel_events_def)
  have "concat (map (cancel_list ids) qs) = cancel_list ids (concat qs)" for qs by (simp add: cancel_list_def map_concat)
  then show "n \<notin> set ids \<Longrightarrow> num_waiting n (cancel_events ids q) = num_waiting n q"
    by (simp add: num_waiting_def cancel_events_def num_cancel)
qed (simp add: cancel_events_def)

section \<open>Callbacks\<close>

text \<open>Where an event of this identity can be: called back, handed over or waiting.\<close>
definition held :: "nat \<Rightarrow> round_state \<Rightarrow> nat" where
  "held n st = num n (map snd (rs_fired st)) + num n (rs_handed st) + num_waiting n (rs_eventq st) + num n (rs_local st) + num n (rs_queue st)"

text \<open>Nothing that is not cancelled gets lost or is doubled.\<close>
definition keeps :: "round_state \<Rightarrow> round_state \<Rightarrow> bool" where
  "keeps st st' \<longleftrightarrow> set (rs_cancelled st) \<subseteq> set (rs_cancelled st') \<and>
     (\<forall>n. n \<notin> set (rs_cancelled st') \<longrightarrow> held n st' + num n (rs_came st) = held n st + num n (rs_came st'))"

lemma keeps_refl [simp]: "keeps st st"
  by (simp add: keeps_def)

lemma keeps_trans: "keeps st1 st2 \<Longrightarrow> keeps st2 st3 \<Longrightarrow> keeps st1 st3"
  unfolding keeps_def by (smt (verit) add.assoc add.commute add_left_imp_eq subset_iff)

text \<open>The record of the round: nothing was early, and what is to be tried again is not due.\<close>
definition round_ok :: "(nat \<Rightarrow> callback) \<Rightarrow> int \<Rightarrow> round_state \<Rightarrow> bool" where
  "round_ok env now st \<longleftrightarrow> pq_inv now (rs_eventq st) \<and>
     (\<forall>(t, e) \<in> set (rs_fired st) \<union> set (rs_missed st). t = now \<and> \<not> ev_Cancelled e \<and> ev_Timeout e \<le> now + 5000) \<and>
     (\<forall>e \<in> set (rs_handed st). now + 10000 \<le> ev_Timeout e) \<and>
     ((\<forall>i. cb_lock (env i)) \<longrightarrow> rs_missed st = [] \<and> rs_handed st = []) \<and>
     ((\<forall>i. \<not> cb_lock (env i)) \<longrightarrow> rs_fired st = []) \<and>
     (\<forall>e \<in> set (rs_queue st). \<not> ev_Cancelled e \<longrightarrow> now < ev_Timeout e \<or> ev_key e \<in># live (rs_came st))"

lemma others_act_ok:
  assumes "round_ok env now st"
  shows "round_ok env now (others_act c st)" "keeps st (others_act c st)" "pq_TimeBase (rs_eventq (others_act c st)) = pq_TimeBase (rs_eventq st)"
    "length (rs_local (others_act c st)) = length (rs_local st)"
    "map length (pq_Eventq (rs_eventq (others_act c st))) = map length (pq_Eventq (rs_eventq st))"
proof -
  note k = cancel_ok [where b = now and q = "rs_eventq st" and ids = "cb_cancels c"]
  have inv: "pq_inv now (rs_eventq st)" using assms by (simp add: round_ok_def)
  have "now < ev_Timeout e \<or> ev_key e \<in># live (rs_came st)" if "e \<in> set (cancel_list (cb_cancels c) (rs_queue st))" "\<not> ev_Cancelled e" for e
    using that assms by (auto simp: cancel_list_def round_ok_def split: if_splits)
  moreover have "ev_key e \<in># live es" if "e \<in> set es" "\<not> ev_Cancelled e" for e es using that by (simp add: live_def)
  ultimately have "\<forall>e \<in> set (rs_queue (others_act c st)). \<not> ev_Cancelled e \<longrightarrow> now < ev_Timeout e \<or> ev_key e \<in># live (rs_came (others_act c st))"
    unfolding others_act_def by fastforce
  then show "round_ok env now (others_act c st)" using assms k(1) [OF inv] by (simp add: round_ok_def others_act_def)
  show "keeps st (others_act c st)" using k(3) [OF inv] by (simp add: keeps_def others_act_def held_def num_cancel)
  show "pq_TimeBase (rs_eventq (others_act c st)) = pq_TimeBase (rs_eventq st)" using k(2) [OF inv] by (simp add: others_act_def)
  show "length (rs_local (others_act c st)) = length (rs_local st)" by (simp add: others_act_def cancel_list_def)
  show "map length (pq_Eventq (rs_eventq (others_act c st))) = map length (pq_Eventq (rs_eventq st))"
    by (simp add: others_act_def cancel_events_def cancel_list_def)
qed

text \<open>st is the round without e, which has been taken out of its queue.\<close>
lemma CallbackEvent_ok:
  assumes "round_ok env now st" "ev_Cancelled e \<or> ev_Timeout e \<le> now + 5000" "\<forall>i. now \<le> cb_clock (env i)"
  shows "round_ok env now (CallbackEvent env now e st)" "keeps (st\<lparr>rs_local := e # rs_local st\<rparr>) (CallbackEvent env now e st)"
    "pq_TimeBase (rs_eventq (CallbackEvent env now e st)) = pq_TimeBase (rs_eventq st)"
    "length (rs_local (CallbackEvent env now e st)) = length (rs_local st)"
    "map length (pq_Eventq (rs_eventq (CallbackEvent env now e st))) = map length (pq_Eventq (rs_eventq st))"
proof -
  let ?c = "env (rs_calls st)"
  define st' where "st' = (let st = st\<lparr>rs_calls := Suc (rs_calls st)\<rparr> in
     if ev_Cancelled e then st
     else if cb_lock ?c then st\<lparr>rs_fired := rs_fired st @ [(now, e)]\<rparr>
     else ScheduleCompletion ?c e EVENT_RETRY_TIME (st\<lparr>rs_missed := rs_missed st @ [(now, e)]\<rparr>))"
  have eq: "CallbackEvent env now e st = others_act ?c st'" by (simp add: CallbackEvent_def st'_def Let_def)
  have clock: "now + 10000 \<le> cb_clock ?c + EVENT_RETRY_TIME" using assms(3) by (simp add: EVENT_RETRY_TIME_def HRTIME_MS_def)
  have ok: "round_ok env now st'"
    using assms(1,2) clock by (auto simp: st'_def Let_def round_ok_def ScheduleCompletion_def)
  have same: "rs_eventq st' = rs_eventq st" "rs_local st' = rs_local st" by (simp_all add: st'_def Let_def ScheduleCompletion_def)
  have keep: "keeps (st\<lparr>rs_local := e # rs_local st\<rparr>) st'"
    by (simp add: keeps_def held_def st'_def Let_def ScheduleCompletion_def)
  note o = others_act_ok [OF ok, of ?c]
  show "round_ok env now (CallbackEvent env now e st)" "pq_TimeBase (rs_eventq (CallbackEvent env now e st)) = pq_TimeBase (rs_eventq st)"
    "length (rs_local (CallbackEvent env now e st)) = length (rs_local st)"
    "map length (pq_Eventq (rs_eventq (CallbackEvent env now e st))) = map length (pq_Eventq (rs_eventq st))"
    using o by (simp_all add: eq same)
  show "keeps (st\<lparr>rs_local := e # rs_local st\<rparr>) (CallbackEvent env now e st)" using keeps_trans [OF keep o(2)] by (simp add: eq)
qed

lemma map_length_nth: "map length xs = map length ys \<Longrightarrow> i < length ys \<Longrightarrow> length (xs ! i) = length (ys ! i)"
  by (metis length_map nth_map)

lemma drain_ok:
  assumes "\<forall>i. now \<le> cb_clock (env i)"
  shows "round_ok env now st \<Longrightarrow> pq_TimeBase (rs_eventq st) = now \<Longrightarrow> length (pq_Eventq (rs_eventq st) ! 0) < k \<Longrightarrow>
    \<exists>st'. drain_events k env now done_one st = Inr (done_one \<or> pq_Eventq (rs_eventq st) ! 0 \<noteq> [], st') \<and> round_ok env now st' \<and> keeps st st' \<and>
      pq_TimeBase (rs_eventq st') = now \<and> pq_Eventq (rs_eventq st') ! 0 = [] \<and> length (rs_local st') = length (rs_local st) \<and>
      (pq_Eventq (rs_eventq st) ! 0 = [] \<longrightarrow> st' = st)"
proof (induction k arbitrary: done_one st)
  case (Suc k)
  let ?q = "rs_eventq st"
  show ?case
  proof (cases "pq_Eventq ?q ! 0")
    case Nil
    then show ?thesis using Suc.prems by (simp add: pq_Dequeue_def)
  next
    case (Cons e es)
    let ?q1 = "?q\<lparr>pq_Eventq := (pq_Eventq ?q)[0 := es]\<rparr>" and ?e = "e\<lparr>ev_InBucket := -1\<rparr>"
    let ?st = "st\<lparr>rs_eventq := ?q1\<rparr>"
    have inv: "pq_inv now ?q" using Suc.prems(1) by (simp add: round_ok_def)
    then have l: "length (pq_Eventq ?q) = 10" and e: "event_ok (now div 5000) now 0 e"
      using Cons Suc.prems(2) by (auto simp: pq_inv_def buckets_ok_def)
    then have deq: "pq_Dequeue ?q = Inr (Some ?e, ?q1)" using Cons by (simp add: pq_Dequeue_def event_ok_def)
    have "pq_inv now ?q1" using inv l Cons unfolding pq_inv_def buckets_ok_def by (auto simp: nth_list_update)
    then have ok: "round_ok env now ?st" using Suc.prems(1) by (simp add: round_ok_def)
    have num: "num n (concat (pq_Eventq ?q)) = num n (concat ((pq_Eventq ?q)[0 := es])) + num n [?e]" for n
      using l Cons by (cases "pq_Eventq ?q") auto
    have put: "keeps st (?st\<lparr>rs_local := ?e # rs_local ?st\<rparr>)" using num by (simp add: keeps_def held_def num_waiting_def)
    have "ev_Cancelled ?e \<or> ev_Timeout ?e \<le> now + 5000" using e by (simp add: event_ok_def)
    note c = CallbackEvent_ok [OF ok this assms]
    let ?st1 = "CallbackEvent env now ?e ?st"
    have "length (pq_Eventq (rs_eventq ?st1) ! 0) = length es" using map_length_nth [OF c(5), of 0] l by simp
    then obtain st' where st': "drain_events k env now True ?st1 = Inr (True, st')" "round_ok env now st'" "keeps ?st1 st'" "pq_TimeBase (rs_eventq st') = now"
        "pq_Eventq (rs_eventq st') ! 0 = []" "length (rs_local st') = length (rs_local ?st1)"
      using Suc.IH [OF c(1), of True] c(3) Suc.prems(2,3) Cons by auto
    have "keeps st st'" by (rule keeps_trans [OF put keeps_trans [OF c(2) st'(3)]])
    moreover have "drain_events (Suc k) env now done_one st = Inr (True, st')" using deq st'(1) by simp
    ultimately show ?thesis using st'(2,4-6) c(4) Cons by simp
  qed
qed simp

text \<open>The loop of a round ends, with the first bucket empty.\<close>
lemma timed_loop_ok:
  assumes "round_ok env now st" "now \<le> pq_TimeBase (rs_eventq st) + 1280000" "\<forall>i. now \<le> cb_clock (env i)"
  shows "\<exists>st'. timed_loop (Suc (length (concat (pq_Eventq (rs_eventq st))))) env now st = Inr st' \<and> round_ok env now st' \<and> keeps st st' \<and>
    pq_TimeBase (rs_eventq st') = now \<and> pq_Eventq (rs_eventq st') ! 0 = [] \<and> length (rs_local st') = length (rs_local st)"
proof -
  let ?q = "pq_Check now (rs_eventq st)" let ?st = "st\<lparr>rs_eventq := ?q\<rparr>" let ?b = "pq_Eventq ?q ! 0"
  have inv: "pq_inv now (rs_eventq st)" using assms(1) by (simp add: round_ok_def)
  note c = Check_ok [OF inv order_refl assms(2)]
  have ok: "round_ok env now ?st" using assms(1) c(1) by (simp add: round_ok_def)
  have kp: "keeps st ?st" using c(2) by (simp add: keeps_def held_def num_waiting_size)
  obtain st1 where 1: "drain_events (Suc (length ?b)) env now False ?st = Inr (?b \<noteq> [], st1)" "round_ok env now st1" "keeps ?st st1"
      "pq_TimeBase (rs_eventq st1) = now" "pq_Eventq (rs_eventq st1) ! 0 = []" "length (rs_local st1) = length (rs_local st)"
    using drain_ok [OF assms(3) ok, of "Suc (length ?b)" False] c(3) by auto
  have "pq_Check now (rs_eventq st1) = rs_eventq st1" using Check_again 1(2,4) by (simp add: round_ok_def)
  moreover have "pq_Dequeue (rs_eventq st1) = Inr (None, rs_eventq st1)" using 1(5) by (simp add: pq_Dequeue_def)
  ultimately have again: "timed_loop (Suc k) env now st1 = Inr st1" for k by (simp add: Let_def)
  have "?b \<noteq> [] \<Longrightarrow> 0 < length (concat (pq_Eventq (rs_eventq st)))"
  proof -
    assume "?b \<noteq> []"
    moreover have "length (pq_Eventq ?q) = 10" using c(1) by (simp add: pq_inv_def buckets_ok_def)
    ultimately have "concat (pq_Eventq ?q) \<noteq> []" by (metis concat_eq_Nil_conv nth_mem zero_less_numeral)
    then show ?thesis using c(4) by (metis length_greater_0_conv)
  qed
  then have "timed_loop (Suc (length (concat (pq_Eventq (rs_eventq st))))) env now st = Inr st1"
  proof (cases "?b = []")
    case True
    then show ?thesis using 1(1) by (simp add: Let_def del: length_concat drain_events.simps)
  next
    case False
    then obtain k where k: "length (concat (pq_Eventq (rs_eventq st))) = Suc k"
      using \<open>?b \<noteq> [] \<Longrightarrow> _\<close> gr0_conv_Suc by auto
    show ?thesis unfolding k timed_loop.simps(2) [of "Suc k" env now st] Let_def
      using 1(1) again [of k] False by (simp del: timed_loop.simps drain_events.simps)
  qed
  then show ?thesis using 1 keeps_trans [OF kp 1(3)] by blast
qed

section \<open>Rounds\<close>

lemma take_scheduled_ok:
  assumes "round_ok env now st" "\<forall>i. now \<le> cb_clock (env i)"
  shows "round_ok env now (take_scheduled env now e st) \<and> keeps (st\<lparr>rs_local := e # rs_local st\<rparr>) (take_scheduled env now e st) \<and>
    pq_TimeBase (rs_eventq (take_scheduled env now e st)) = pq_TimeBase (rs_eventq st) \<and>
    length (rs_local (take_scheduled env now e st)) = length (rs_local st)"
proof -
  have inv: "pq_inv now (rs_eventq st)" using assms(1) by (simp add: round_ok_def)
  consider "ev_Cancelled e" | "\<not> ev_Cancelled e" "ev_Timeout e \<le> now" | "\<not> ev_Cancelled e" "now < ev_Timeout e" by linarith
  then show ?thesis
  proof cases
    case 1
    then show ?thesis using assms(1) by (simp add: take_scheduled_def keeps_def held_def)
  next
    case 2
    then show ?thesis using CallbackEvent_ok [OF assms(1) _ assms(2), of e] by (simp add: take_scheduled_def)
  next
    case 3
    note e = Enqueue_ok [OF inv, of e]
    have "num_waiting n (pq_Enqueue e now (rs_eventq st)) = num_waiting n (rs_eventq st) + num n [e]" for n
      using e(2) unfolding num_waiting_size num_live by simp
    then show ?thesis using 3 e(1,3) assms(1) by (simp add: take_scheduled_def round_ok_def keeps_def held_def)
  qed
qed

lemma take_local_ok:
  assumes "\<forall>i. now \<le> cb_clock (env i)"
  shows "round_ok env now st \<Longrightarrow> length (rs_local st) \<le> k \<Longrightarrow>
    \<exists>st'. take_local k env now st = Inr st' \<and> round_ok env now st' \<and> keeps st st' \<and> pq_TimeBase (rs_eventq st') = pq_TimeBase (rs_eventq st) \<and> rs_local st' = []"
proof (induction k arbitrary: st)
  case 0
  then show ?case by (simp add: take_local.simps)
next
  case (Suc k)
  show ?case
  proof (cases "rs_local st")
    case Nil
    then show ?thesis using Suc.prems(1) by (simp add: take_local.simps)
  next
    case (Cons e es)
    let ?st = "st\<lparr>rs_local := es\<rparr>"
    have ok: "round_ok env now ?st" using Suc.prems(1) by (simp add: round_ok_def)
    have "?st\<lparr>rs_local := e # rs_local ?st\<rparr> = st" using Cons by (cases st) simp
    then have t: "round_ok env now (take_scheduled env now e ?st)" "keeps st (take_scheduled env now e ?st)"
        "pq_TimeBase (rs_eventq (take_scheduled env now e ?st)) = pq_TimeBase (rs_eventq st)" "length (rs_local (take_scheduled env now e ?st)) \<le> k"
      using take_scheduled_ok [OF ok assms, of e] Suc.prems(2) Cons by (simp_all only:) simp_all
    obtain st' where "take_local k env now (take_scheduled env now e ?st) = Inr st'" "round_ok env now st'" "keeps (take_scheduled env now e ?st) st'"
        "pq_TimeBase (rs_eventq st') = pq_TimeBase (rs_eventq st)" "rs_local st' = []"
      using Suc.IH [OF t(1,4)] t(3) by auto
    then show ?thesis using Cons keeps_trans [OF t(2)] by (simp add: take_local.simps [of "Suc k"])
  qed
qed

lemma put_scheduled_ok:
  "pq_inv now q \<Longrightarrow> pq_inv now (fold (put_scheduled now) ms q) \<and> pq_TimeBase (fold (put_scheduled now) ms q) = pq_TimeBase q \<and>
    waiting_events (fold (put_scheduled now) ms q) = waiting_events q + live ms"
  by (induction ms arbitrary: q) (simp_all add: put_scheduled_def Enqueue_ok)

lemma waiting_not_due:
  assumes "pq_inv now q" "pq_TimeBase q = now" "pq_Eventq q ! 0 = []" "k \<in># waiting_events q"
  shows "now < snd k"
proof -
  obtain e where e: "e \<in> set (concat (pq_Eventq q))" "k = ev_key e" using assms(4) by (auto simp: waiting_events_def live_def)
  then obtain i where i: "i < length (pq_Eventq q)" "e \<in> set (pq_Eventq q ! i)" by (metis in_set_conv_nth UN_E set_concat)
  then have "event_ok (now div 5000) now i e" using assms(1,2) by (simp add: pq_inv_def buckets_ok_def)
  moreover obtain n where "i = Suc n" using i assms(3) by (cases i) auto
  ultimately have "in_time (now div 5000) (Suc n) (ev_Timeout e)" by (simp add: event_ok_def)
  then show ?thesis using in_time_not_due e(2) by (auto simp: ev_key_def)
qed

text \<open>
  A round that went well: no callback was made or tried more than five milliseconds
  early; what was handed to another thread comes up again there after ten milliseconds,
  nothing was missed or handed over when all locks were free, and nothing was called back
  when none was; what waits now is not due, or came during the round.
\<close>
definition round_good :: "(nat \<Rightarrow> callback) \<Rightarrow> int \<Rightarrow> round_state \<Rightarrow> bool" where
  "round_good env now st \<longleftrightarrow>
     (\<forall>(t, e) \<in> set (rs_fired st) \<union> set (rs_missed st). t = now \<and> \<not> ev_Cancelled e \<and> ev_Timeout e \<le> now + HRTIME_MS 5) \<and>
     (\<forall>e \<in> set (rs_handed st). now + HRTIME_MS 10 \<le> ev_Timeout e) \<and>
     ((\<forall>i. cb_lock (env i)) \<longrightarrow> rs_missed st = [] \<and> rs_handed st = []) \<and>
     ((\<forall>i. \<not> cb_lock (env i)) \<longrightarrow> rs_fired st = []) \<and>
     (\<forall>k \<in># waiting_events (rs_eventq st). now < snd k \<or> k \<in># live (rs_came st))"

lemma ProcessTimedEvents_ok:
  assumes "pq_inv b q" "b \<le> now" "now \<le> pq_TimeBase q + 1280000" "\<forall>i. now \<le> cb_clock (env i)"
  shows "\<exists>st. ProcessTimedEvents env now ss q = Inr st \<and> round_good env now st \<and> pq_inv now (rs_eventq st) \<and> pq_TimeBase (rs_eventq st) = now \<and>
    (\<forall>n. n \<notin> set (rs_cancelled st) \<longrightarrow>
       num n (map snd (rs_fired st)) + num n (rs_handed st) + num_waiting n (rs_eventq st) = num_waiting n q + num n ss + num n (rs_came st))"
proof -
  let ?st = "round_start ss q"
  have "round_ok env now ?st" using pq_inv_mono [OF assms(1,2)] by (simp add: round_ok_def round_start_def)
  then obtain st1 where 1: "take_local (length ss) env now ?st = Inr st1" "round_ok env now st1" "keeps ?st st1" "pq_TimeBase (rs_eventq st1) = pq_TimeBase q" "rs_local st1 = []"
    using take_local_ok [OF assms(4), of ?st "length ss"] by (auto simp: round_start_def)
  have "now \<le> pq_TimeBase (rs_eventq st1) + 1280000" using assms(3) 1(4) by simp
  from timed_loop_ok [OF 1(2) this assms(4)]
  obtain st2 where 2: "timed_loop (Suc (length (concat (pq_Eventq (rs_eventq st1))))) env now st1 = Inr st2"
      "round_ok env now st2" "keeps st1 st2" "pq_TimeBase (rs_eventq st2) = now" "pq_Eventq (rs_eventq st2) ! 0 = []" "length (rs_local st2) = length (rs_local st1)"
    by blast
  let ?q = "fold (put_scheduled now) (rs_queue st2) (rs_eventq st2)"
  let ?st' = "st2\<lparr>rs_eventq := ?q, rs_queue := []\<rparr>"
  have inv: "pq_inv now (rs_eventq st2)" using 2(2) by (simp add: round_ok_def)
  note 3 = put_scheduled_ok [OF inv, of "rs_queue st2"]
  have "now < snd k \<or> k \<in># live (rs_came st2)" if k: "k \<in># waiting_events ?q" for k
  proof -
    consider "k \<in># waiting_events (rs_eventq st2)" | "k \<in># live (rs_queue st2)" using k conjunct2 [OF conjunct2 [OF 3]] by auto
    then show ?thesis
    proof cases
      case 1
      then show ?thesis using waiting_not_due [OF inv 2(4,5)] by simp
    next
      case 2
      then obtain e where e: "e \<in> set (rs_queue st2)" "\<not> ev_Cancelled e" "k = ev_key e" by (auto simp: live_def)
      then show ?thesis using \<open>round_ok env now st2\<close> by (auto simp: round_ok_def ev_key_def)
    qed
  qed
  then have "round_good env now ?st'" using 2(2) by (simp add: round_good_def round_ok_def HRTIME_MS_def)
  moreover have "num n (map snd (rs_fired st2)) + num n (rs_handed st2) + num_waiting n ?q = num_waiting n q + num n ss + num n (rs_came st2)"
    if "n \<notin> set (rs_cancelled st2)" for n
  proof -
    have "held n st2 + num n (rs_came ?st) = held n ?st + num n (rs_came st2)" using keeps_trans [OF 1(3) 2(3)] that by (simp add: keeps_def)
    moreover have "num_waiting n ?q = num_waiting n (rs_eventq st2) + num n (rs_queue st2)" using 3 unfolding num_waiting_size num_live by simp
    moreover have "rs_local st2 = []" using 2(6) 1(5) by simp
    ultimately show ?thesis by (simp add: held_def round_start_def)
  qed
  ultimately show ?thesis using 1(1) 2(1) 3 2(4) by (simp add: ProcessTimedEvents_def)
qed

text \<open>A round at least every 1.28 seconds, and a clock that does not go backwards.\<close>
fun paced :: "int \<Rightarrow> round list \<Rightarrow> bool" where
  "paced t [] = True"
| "paced t ((now, _, _, env) # rs) \<longleftrightarrow> t \<le> now \<and> now \<le> t + HRTIME_MS 1280 \<and> (\<forall>i. now \<le> cb_clock (env i)) \<and> paced now rs"

definition cancelled_in :: "round list \<Rightarrow> round_state list \<Rightarrow> nat set" where
  "cancelled_in rs sts = (\<Union>(_, ids, _) \<in> set rs. set ids) \<union> (\<Union>st \<in> set sts. set (rs_cancelled st))"

definition scheduled_in :: "round list \<Rightarrow> round_state list \<Rightarrow> CompletionEvent list" where
  "scheduled_in rs sts = concat (map (\<lambda>(_, _, ss, _). ss) rs) @ concat (map rs_came sts)"

lemma rounds_ok:
  assumes "pq_inv (pq_TimeBase q) q" "paced (pq_TimeBase q) rs"
  shows "\<exists>q' sts. rounds rs q = Inr (q', sts) \<and> list_all2 (\<lambda>(now, _, _, env). round_good env now) rs sts \<and>
    (rs \<noteq> [] \<longrightarrow> rs_eventq (last sts) = q') \<and>
    (\<forall>n. n \<notin> cancelled_in rs sts \<longrightarrow>
       num n (map snd (concat (map rs_fired sts))) + num n (concat (map rs_handed sts)) + num_waiting n q' =
       num_waiting n q + num n (scheduled_in rs sts))"
  using assms
proof (induction rs arbitrary: q)
  case Nil
  then show ?case by (simp add: scheduled_in_def)
next
  case (Cons r rs)
  obtain now ids ss env where r: "r = (now, ids, ss, env)" by (cases r)
  have p: "pq_TimeBase q \<le> now" "now \<le> pq_TimeBase q + 1280000" "paced now rs" "\<forall>i. now \<le> cb_clock (env i)"
    using Cons.prems(2) by (simp_all add: r HRTIME_MS_def)
  note c = cancel_ok [OF Cons.prems(1), where ids = ids]
  have "now \<le> pq_TimeBase (cancel_events ids q) + 1280000" using p(2) c(2) by simp
  from ProcessTimedEvents_ok [OF c(1) p(1) this p(4), of ss]
  obtain st where 1: "ProcessTimedEvents env now ss (cancel_events ids q) = Inr st" "round_good env now st" "pq_inv now (rs_eventq st)"
      "pq_TimeBase (rs_eventq st) = now"
      "\<forall>n. n \<notin> set (rs_cancelled st) \<longrightarrow> num n (map snd (rs_fired st)) + num n (rs_handed st) + num_waiting n (rs_eventq st) =
         num_waiting n (cancel_events ids q) + num n ss + num n (rs_came st)"
    by blast
  obtain q' sts where 2: "rounds rs (rs_eventq st) = Inr (q', sts)" "list_all2 (\<lambda>(now, _, _, env). round_good env now) rs sts"
      "rs \<noteq> [] \<longrightarrow> rs_eventq (last sts) = q'"
      "\<forall>n. n \<notin> cancelled_in rs sts \<longrightarrow>
         num n (map snd (concat (map rs_fired sts))) + num n (concat (map rs_handed sts)) + num_waiting n q' =
         num_waiting n (rs_eventq st) + num n (scheduled_in rs sts)"
    using Cons.IH [of "rs_eventq st"] 1(3,4) p(3) by auto
  have "num n (map snd (concat (map rs_fired (st # sts)))) + num n (concat (map rs_handed (st # sts))) + num_waiting n q' =
      num_waiting n q + num n (scheduled_in (r # rs) (st # sts))" if n: "n \<notin> cancelled_in (r # rs) (st # sts)" for n
  proof -
    have "n \<notin> set ids" "n \<notin> set (rs_cancelled st)" "n \<notin> cancelled_in rs sts" using n by (auto simp: cancelled_in_def r)
    then show ?thesis using 1(5) [rule_format, of n] 2(4) [rule_format, of n] c(3) [of n] by (simp add: scheduled_in_def r)
  qed
  moreover have "rs_eventq (last (st # sts)) = q'" using 2 by (cases rs) (auto simp: list_all2_Cons1)
  moreover have "rounds (r # rs) q = Inr (q', st # sts)" using 1(1) 2(1) by (simp add: r)
  ultimately show ?case using 1(2) 2(2) by (auto simp: r simp del: rounds.simps)
qed

text \<open>Threads wait for at most ten milliseconds, so rounds are only delayed by callbacks.\<close>
lemma wait_time_bounds:
  assumes "pq_TimeBase q = now"
  shows "0 \<le> wait_time now q" "wait_time now q \<le> 10"
proof -
  have "0 \<le> EarliestTimeout q - now" using assms
    by (auto simp: EarliestTimeout_def HRTIME_FOREVER_def bucket_time split: option.split)
  then show "0 \<le> wait_time now q" "wait_time now q \<le> 10"
    by (auto simp: wait_time_def Let_def HRTIME_MS_def MAX_EVENT_DELAY_def)
qed

text \<open>
  C19.  When a thread makes a round at least every 1.28 seconds, no event that is not
  cancelled is lost or called back twice: it has been called back, or waits here, or has
  been handed to another thread because the lock of its handler was taken, to be tried
  again ten milliseconds later.  After a round no event waits that is due, other than
  those that came during the round, so that with free locks an event is called back in
  the first round that finds it due; and no callback is more than five milliseconds early.
\<close>
theorem timed_events_fire:
  assumes "0 \<le> t" "paced t rs"
  shows "\<exists>q sts. rounds rs (PriorityEventQueue_new t) = Inr (q, sts) \<and> list_all2 (\<lambda>(now, _, _, env). round_good env now) rs sts \<and>
    (rs \<noteq> [] \<longrightarrow> rs_eventq (last sts) = q) \<and>
    (\<forall>n. n \<notin> cancelled_in rs sts \<longrightarrow>
       num n (map snd (concat (map rs_fired sts))) + num n (concat (map rs_handed sts)) + num_waiting n q = num n (scheduled_in rs sts))"
proof -
  let ?q = "PriorityEventQueue_new t"
  have "pq_inv (pq_TimeBase ?q) ?q" "num_waiting n ?q = 0" "pq_TimeBase ?q = t" for n
    using assms(1) by (auto simp: pq_inv_def PriorityEventQueue_new_def buckets_ok_def NUM_BUCKETS_def bucket_time num_waiting_def less_Suc_eq numeral_eq_Suc)
  then show ?thesis using rounds_ok [of ?q rs] assms(2) by simp
qed

text \<open>
  An event scheduled at time 0 for a tenth of a second later.  In the first round that
  finds it due its handler is locked, and it comes to this thread again.
\<close>
definition sample_event :: CompletionEvent where
  "sample_event = \<lparr>ev_id = 1, ev_Timeout = 100000, ev_Cancelled = False, ev_InBucket = -1\<rparr>"

definition sample_callback :: "bool \<Rightarrow> int \<Rightarrow> nat \<Rightarrow> callback" where
  "sample_callback free now i = \<lparr>cb_lock = free, cb_clock = now, cb_here = True, cb_cancels = [], cb_puts = []\<rparr>"

definition sample_rounds :: "round list" where
  "sample_rounds = [(0, [], [sample_event], sample_callback True 0), (100000, [], [], sample_callback False 100000),
     (110000, [], [], sample_callback True 110000)]"

theorem timed_events_fire_witness:
  "\<exists>q sts. rounds sample_rounds (PriorityEventQueue_new 0) = Inr (q, sts) \<and> list_all2 (\<lambda>(now, _, _, env). round_good env now) sample_rounds sts \<and>
     map (map (\<lambda>(t, e). (t, ev_id e)) \<circ> rs_fired) sts = [[], [], [(110000, 1)]] \<and> map (length \<circ> rs_missed) sts = [0, 1, 0]"
proof -
  have "paced 0 sample_rounds" by (simp add: sample_rounds_def sample_callback_def HRTIME_MS_def)
  then obtain q sts where 1: "rounds sample_rounds (PriorityEventQueue_new 0) = Inr (q, sts)"
      "list_all2 (\<lambda>(now, _, _, env). round_good env now) sample_rounds sts"
    using timed_events_fire [of 0 sample_rounds] by auto
  have "(case rounds sample_rounds (PriorityEventQueue_new 0) of Inl _ \<Rightarrow> False | Inr (q, sts) \<Rightarrow>
      map (map (\<lambda>(t, e). (t, ev_id e)) \<circ> rs_fired) sts = [[], [], [(110000, 1)]] \<and> map (length \<circ> rs_missed) sts = [0, 1, 0])"
    by code_simp
  then show ?thesis using 1 by auto
qed

text \<open>
  C40.  A round whose time has the same last nine bits, in units of 5 milliseconds, as that
  of the round before looks at no bucket again: a round 2.56 seconds after the one before,
  or a multiple of that, calls no event back and leaves every event of the buckets from the
  second one on where it is, however long it has been overdue (the first bucket empty and
  nothing newly scheduled).
\<close>
theorem delayed_round_overlooks_event:
  assumes "pq_Eventq q ! 0 = []" "pq_LastChecked q = word_of_int (before div HRTIME_MS 5)"
    "now div HRTIME_MS 5 = before div HRTIME_MS 5 + 512 * int n"
  shows "\<exists>st. ProcessTimedEvents env now [] q = Inr st \<and> rs_fired st = [] \<and> rs_missed st = [] \<and> rs_handed st = [] \<and>
    pq_Eventq (rs_eventq st) = pq_Eventq q"
proof -
  have "take_bit 9 (word_of_int (now div 5000) XOR word_of_int (before div 5000) :: u32) = 0"
  proof -
    have "take_bit 9 (now div 5000) = take_bit 9 (before div 5000)" using assms(3) by (simp add: take_bit_eq_mod HRTIME_MS_def)
    then have "bit (now div 5000) j = bit (before div 5000) j" if "j < 9" for j using that by (metis bit_take_bit_iff)
    then show ?thesis by (intro bit_eqI) (auto simp: bit_take_bit_iff bit_xor_iff bit_word_of_int_iff)
  qed
  then have "count_bits ((word_of_int (now div 5000) XOR word_of_int (before div 5000)) AND (push_bit 9 1 - 1) :: u32) = 0"
    unfolding low_bits by (simp add: count_bits.simps)
  then have "pq_Eventq (pq_Check now q) = pq_Eventq q"
    using assms(2) by (simp add: pq_Check_def Let_def bucket_time NUM_BUCKETS_def HRTIME_MS_def)
  then show ?thesis using assms(1)
    by (simp add: ProcessTimedEvents_def take_local.simps round_start_def Let_def pq_Dequeue_def)
qed

text \<open>The sample event, put in the queue at time 0 and overlooked 2.56 seconds later.\<close>
definition sample_queue :: PriorityEventQueue where
  "sample_queue = pq_Enqueue sample_event 0 (PriorityEventQueue_new 0)"

theorem delayed_round_overlooks_event_witness:
  "\<exists>st. ProcessTimedEvents (sample_callback True 2560000) 2560000 [] sample_queue = Inr st \<and> rs_fired st = [] \<and>
     pq_Eventq (rs_eventq st) = [[], [], [], [], [], [sample_event\<lparr>ev_InBucket := 5\<rparr>], [], [], [], []]"
proof -
  have q: "pq_Eventq sample_queue = [[], [], [], [], [], [sample_event\<lparr>ev_InBucket := 5\<rparr>], [], [], [], []]" "pq_LastChecked sample_queue = 0"
    by code_simp+
  show ?thesis
    using delayed_round_overlooks_event [of sample_queue 0 2560000 1 "sample_callback True 2560000"] q
    by (auto simp: NUM_BUCKETS_def HRTIME_MS_def)
qed

end
