(* ===== verification/Linked_Queue.thy ===== *)
theory Linked_Queue
  imports RSL_Prelude
begin

text \<open>
  The intrusive lists of the library (List.h under src/src/common/src): objects carry
  their links, and a list descriptor holds the first and the last object.  The links
  are a store from addresses to a pair of pointers; the operations are shown to act
  on the list of objects as their names say.
\<close>

section \<open>Links\<close>

type_synonym addr = nat

record Link =
  l_next :: "addr option"
  l_prev :: "addr option"

type_synonym links = "addr \<Rightarrow> Link"

text \<open>Assignments through a pointer to an object.\<close>
definition set_next :: "addr \<Rightarrow> addr option \<Rightarrow> links \<Rightarrow> links" where
  "set_next a v h = h(a := (h a)\<lparr>l_next := v\<rparr>)"

definition set_prev :: "addr \<Rightarrow> addr option \<Rightarrow> links \<Rightarrow> links" where
  "set_prev a v h = h(a := (h a)\<lparr>l_prev := v\<rparr>)"

section \<open>Doubly linked lists\<close>

text \<open>The descriptor of a DLL is its head.\<close>
definition DLL_push :: "addr \<Rightarrow> addr option \<Rightarrow> links \<Rightarrow> addr option \<times> links" where
  "DLL_push c head h =
     (let h = set_next c head h;
          h = (case head of Some chead \<Rightarrow> set_prev chead (Some c) h | None \<Rightarrow> h)
      in (Some c, h))"

definition DLL_remove :: "addr \<Rightarrow> addr option \<Rightarrow> links \<Rightarrow> addr option \<times> links" where
  "DLL_remove c head h =
     (if head = None then (head, h)
      else let head = (if Some c = head then l_next (h c) else head);
               h = (case l_prev (h c) of Some p \<Rightarrow> set_next p (l_next (h c)) h | None \<Rightarrow> h);
               h = (case l_next (h c) of Some n \<Rightarrow> set_prev n (l_prev (h c)) h | None \<Rightarrow> h)
           in (head, set_next c None (set_prev c None h)))"

definition DLL_insert :: "addr \<Rightarrow> addr option \<Rightarrow> addr option \<Rightarrow> links \<Rightarrow> (addr option \<times> links) res" where
  "DLL_insert c after head h =
     bindE (log_assert (l_prev (h c) = None) ()) (\<lambda>_.
     bindE (log_assert (l_next (h c) = None) ()) (\<lambda>_.
       case after of
         None \<Rightarrow> Inr (DLL_push c head h)
       | Some a \<Rightarrow>
           let h = set_prev c (Some a) h;
               h = set_next c (l_next (h a)) h;
               h = set_next a (Some c) h;
               h = (case l_next (h c) of Some n \<Rightarrow> set_prev n (Some c) h | None \<Rightarrow> h)
           in Inr (head, h)))"

definition DLL_pop :: "addr option \<Rightarrow> links \<Rightarrow> addr option \<times> addr option \<times> links" where
  "DLL_pop head h = (case head of Some res \<Rightarrow> (head, DLL_remove res head h) | None \<Rightarrow> (None, head, h))"

text \<open>The weak test of membership.\<close>
definition DLL_in :: "addr \<Rightarrow> addr option \<Rightarrow> links \<Rightarrow> bool" where
  "DLL_in c head h \<longleftrightarrow> l_prev (h c) \<noteq> None \<or> l_next (h c) \<noteq> None \<or> head = Some c"

section \<open>Queues\<close>

record Queue =
  q_head :: "addr option"
  q_tail :: "addr option"

definition Queue_new :: Queue where "Queue_new = \<lparr>q_head = None, q_tail = None\<rparr>"

definition Queue_push :: "addr \<Rightarrow> Queue \<Rightarrow> links \<Rightarrow> Queue \<times> links" where
  "Queue_push c q h =
     (let (head, h) = DLL_push c (q_head q) h
      in (\<lparr>q_head = head, q_tail = (if q_tail q = None then head else q_tail q)\<rparr>, h))"

definition Queue_pop :: "Queue \<Rightarrow> links \<Rightarrow> addr option \<times> Queue \<times> links" where
  "Queue_pop q h =
     (let (ret, head, h) = DLL_pop (q_head q) h
      in (ret, \<lparr>q_head = head, q_tail = (if head = None then None else q_tail q)\<rparr>, h))"

definition Queue_insert :: "addr \<Rightarrow> addr option \<Rightarrow> Queue \<Rightarrow> links \<Rightarrow> (Queue \<times> links) res" where
  "Queue_insert c after q h =
     bindE (DLL_insert c after (q_head q) h) (\<lambda>(head, h).
       Inr (\<lparr>q_head = head, q_tail = (if q_tail q = None then head else if q_tail q = after then Some c else q_tail q)\<rparr>, h))"

definition Queue_enqueue :: "addr \<Rightarrow> Queue \<Rightarrow> links \<Rightarrow> (Queue \<times> links) res" where
  "Queue_enqueue c q h =
     bindE (case q_tail q of
              Some ctail \<Rightarrow> Queue_insert c (Some ctail) q h
            | None \<Rightarrow> bindE (log_assert (q_head q = None) ()) (\<lambda>_.
                       let (head, h) = DLL_push c (q_head q) h in Inr (q\<lparr>q_head := head\<rparr>, h))) (\<lambda>(q, h).
       Inr (q\<lparr>q_tail := Some c\<rparr>, h))"

definition Queue_remove :: "addr \<Rightarrow> Queue \<Rightarrow> links \<Rightarrow> Queue \<times> links" where
  "Queue_remove c q h =
     (let tail = (if Some c = q_tail q then l_prev (h c) else q_tail q);
          (head, h) = DLL_remove c (q_head q) h
      in (\<lparr>q_head = head, q_tail = tail\<rparr>, h))"

definition Queue_dequeue :: "Queue \<Rightarrow> links \<Rightarrow> addr option \<times> Queue \<times> links" where
  "Queue_dequeue q h =
     (case q_head q of
        None \<Rightarrow> (None, q, h)
      | Some chead \<Rightarrow> (Some chead, Queue_remove chead q h))"

text \<open>The queue q is left as it is; the caller clears it.\<close>
definition Queue_append :: "Queue \<Rightarrow> Queue \<Rightarrow> links \<Rightarrow> (Queue \<times> links) res" where
  "Queue_append q this h =
     (case q_head this of
        None \<Rightarrow> Inr (\<lparr>q_head = q_head q, q_tail = q_tail q\<rparr>, h)
      | Some _ \<Rightarrow>
          (case q_head q of
             None \<Rightarrow> Inr (this, h)
           | Some qh \<Rightarrow>
               (case q_tail this of
                  None \<Rightarrow> Inl OutOfBounds
                | Some ctail \<Rightarrow> Inr (this\<lparr>q_tail := q_tail q\<rparr>, set_prev qh (Some ctail) (set_next ctail (Some qh) h)))))"

section \<open>The list of objects\<close>

text \<open>The objects xs are linked to each other, the first one back to p and the last one on to n.\<close>
fun linked :: "links \<Rightarrow> addr option \<Rightarrow> addr list \<Rightarrow> addr option \<Rightarrow> bool" where
  "linked h p [] n = True"
| "linked h p (x # xs) n \<longleftrightarrow> l_prev (h x) = p \<and> l_next (h x) = (if xs = [] then n else Some (hd xs)) \<and> linked h (Some x) xs n"

definition unlinked :: "links \<Rightarrow> addr \<Rightarrow> bool" where
  "unlinked h c \<longleftrightarrow> l_prev (h c) = None \<and> l_next (h c) = None"

definition first :: "addr list \<Rightarrow> addr option" where
  "first xs = (if xs = [] then None else Some (hd xs))"

definition final :: "addr list \<Rightarrow> addr option" where
  "final xs = (if xs = [] then None else Some (last xs))"

definition queue_of :: "Queue \<Rightarrow> links \<Rightarrow> addr list \<Rightarrow> bool" where
  "queue_of q h xs \<longleftrightarrow> distinct xs \<and> q_head q = first xs \<and> q_tail q = final xs \<and> linked h None xs None"

lemma linked_append:
  "linked h p (xs @ ys) n \<longleftrightarrow> linked h p xs (if ys = [] then n else Some (hd ys)) \<and> linked h (if xs = [] then p else Some (last xs)) ys n"
  by (induction xs arbitrary: p) (auto simp: hd_append)

lemma linked_cong: "(\<And>x. x \<in> set xs \<Longrightarrow> h' x = h x) \<Longrightarrow> linked h' p xs n = linked h p xs n"
  by (induction xs arbitrary: p) auto

lemma first_simps [simp]: "first [] = None" "first (x # xs) = Some x" "final [] = None" "final (xs @ [x]) = Some x"
  by (simp_all add: first_def final_def)

lemma set_simps [simp]:
  "a \<noteq> b \<Longrightarrow> set_next a v h b = h b" "a \<noteq> b \<Longrightarrow> set_prev a v h b = h b"
  "l_next (set_next a v h a) = v" "l_prev (set_next a v h a) = l_prev (h a)" "l_prev (set_prev a v h a) = v" "l_next (set_prev a v h a) = l_next (h a)"
  by (simp_all add: set_next_def set_prev_def)

text \<open>Segments that an assignment does not touch, and those whose end it redirects.\<close>
lemma linked_set_next [simp]: "a \<notin> set xs \<Longrightarrow> linked (set_next a v h) p xs n = linked h p xs n"
  by (rule linked_cong) (metis set_simps(1))

lemma linked_set_prev [simp]: "a \<notin> set xs \<Longrightarrow> linked (set_prev a v h) p xs n = linked h p xs n"
  by (rule linked_cong) (metis set_simps(2))

text \<open>An operation on the objects as leaves the links of all others.\<close>
definition same_else :: "addr set \<Rightarrow> links \<Rightarrow> links \<Rightarrow> bool" where
  "same_else as h h' \<longleftrightarrow> (\<forall>a. a \<notin> as \<longrightarrow> h' a = h a)"

lemma Queue_push_ok:
  assumes "queue_of q h xs" "c \<notin> set xs" "unlinked h c"
  shows "\<exists>q' h'. Queue_push c q h = (q', h') \<and> queue_of q' h' (c # xs) \<and> same_else (set (c # xs)) h h'"
proof (cases xs)
  case Nil
  then show ?thesis using assms by (simp add: Queue_push_def DLL_push_def queue_of_def unlinked_def final_def same_else_def)
next
  case (Cons x ys)
  then have "x \<noteq> c" "x \<notin> set ys" "c \<notin> set ys" using assms by (auto simp: queue_of_def)
  then show ?thesis using assms Cons by (simp add: Queue_push_def DLL_push_def queue_of_def unlinked_def final_def same_else_def)
qed

lemma Queue_insert_ok:
  assumes "queue_of q h (as @ a # bs)" "c \<notin> set (as @ a # bs)" "unlinked h c"
  shows "\<exists>q' h'. Queue_insert c (Some a) q h = Inr (q', h') \<and> queue_of q' h' (as @ a # c # bs) \<and> same_else (set (as @ a # c # bs)) h h'"
proof -
  have l: "linked h None as (Some a)" "l_prev (h a) = final as" "l_next (h a) = first bs" "linked h (Some a) bs None" "distinct (as @ a # bs)"
      "l_prev (h c) = None" "l_next (h c) = None" "q_head q = first (as @ [a])" "q_tail q = final (a # bs)"
    using assms by (auto simp: queue_of_def unlinked_def linked_append first_def final_def hd_append split: if_splits)
  have f: "first (as @ a # c # bs) = first (as @ [a])" by (simp add: first_def hd_append)
  show ?thesis
  proof (cases bs)
    case Nil
    then show ?thesis using l assms(2) f
      by (simp add: Queue_insert_def DLL_insert_def queue_of_def linked_append final_def same_else_def)
  next
    case (Cons b bs')
    then have "b \<notin> set as" "b \<notin> set bs'" "b \<noteq> a" "b \<noteq> c" "a \<notin> set bs" "c \<notin> set bs" "a \<noteq> c" "last bs \<noteq> a" using l(5) assms(2) by auto
    then show ?thesis using l assms(2) f Cons
      by (simp add: Queue_insert_def DLL_insert_def queue_of_def linked_append final_def same_else_def)
  qed
qed

lemma Queue_enqueue_ok:
  assumes "queue_of q h xs" "c \<notin> set xs" "unlinked h c"
  shows "\<exists>q' h'. Queue_enqueue c q h = Inr (q', h') \<and> queue_of q' h' (xs @ [c]) \<and> same_else (set (xs @ [c])) h h'"
proof (cases xs rule: rev_cases)
  case Nil
  then show ?thesis using assms by (simp add: Queue_enqueue_def DLL_push_def queue_of_def unlinked_def final_def same_else_def)
next
  case (snoc ys y)
  then obtain q' h' where "Queue_insert c (Some y) q h = Inr (q', h')" "queue_of q' h' (ys @ [y, c])" "same_else (set (ys @ [y, c])) h h'"
    using Queue_insert_ok [of q h ys y "[]" c] assms by auto
  moreover have "q_tail q = Some y" using assms(1) snoc by (simp add: queue_of_def)
  ultimately show ?thesis using snoc by (auto simp: Queue_enqueue_def queue_of_def final_def)
qed

lemma Queue_remove_ok:
  assumes "queue_of q h (as @ c # bs)"
  shows "\<exists>q' h'. Queue_remove c q h = (q', h') \<and> queue_of q' h' (as @ bs) \<and> unlinked h' c \<and> same_else (set (as @ c # bs)) h h'"
proof -
  have l: "linked h None as (Some c)" "l_prev (h c) = final as" "l_next (h c) = first bs" "linked h (Some c) bs None" "distinct (as @ c # bs)"
      "q_head q = first (as @ [c])" "q_tail q = final (c # bs)"
    using assms by (auto simp: queue_of_def linked_append first_def final_def hd_append split: if_splits)
  show ?thesis
  proof (cases as rule: rev_cases)
    case Nil
    show ?thesis
    proof (cases bs)
      case bs: Nil
      then show ?thesis using l Nil by (simp add: Queue_remove_def DLL_remove_def queue_of_def unlinked_def final_def same_else_def)
    next
      case (Cons b bs')
      then have "b \<notin> set bs'" "b \<noteq> c" "c \<notin> set bs'" "last bs \<noteq> c" using l(5) by auto
      then show ?thesis using l Nil Cons by (simp add: Queue_remove_def DLL_remove_def queue_of_def unlinked_def final_def same_else_def)
    qed
  next
    case (snoc as' a)
    have d: "a \<noteq> c" "a \<notin> set as'" "c \<notin> set as'" "a \<notin> set bs" "c \<notin> set bs" using l(5) snoc by auto
    have f: "first (as @ xs) = first as" "first as \<noteq> Some c" "first as \<noteq> None" for xs using snoc d by (auto simp: first_def hd_append)
    have la: "linked h None as' (Some a)" "l_prev (h a) = final as'" using l(1) snoc by (auto simp: linked_append final_def split: if_splits)
    show ?thesis
    proof (cases bs)
      case Nil
      then show ?thesis using l d f la snoc
        by (auto simp: Queue_remove_def DLL_remove_def queue_of_def unlinked_def linked_append final_def same_else_def Let_def split: if_splits)
    next
      case (Cons b bs')
      then have "b \<notin> set bs'" "b \<noteq> c" "b \<noteq> a" "b \<notin> set as'" "c \<notin> set bs'" "a \<notin> set bs'" "last bs \<noteq> c" using l(5) snoc by auto
      then show ?thesis using l d f la snoc Cons
        by (auto simp: Queue_remove_def DLL_remove_def queue_of_def unlinked_def linked_append final_def same_else_def Let_def split: if_splits)
    qed
  qed
qed

lemma Queue_dequeue_ok:
  assumes "queue_of q h (x # xs)"
  shows "\<exists>q' h'. Queue_dequeue q h = (Some x, q', h') \<and> queue_of q' h' xs \<and> unlinked h' x \<and> same_else (set (x # xs)) h h'"
  using Queue_remove_ok [of q h "[]" x xs] assms by (auto simp: Queue_dequeue_def queue_of_def)

lemma Queue_pop_dequeue: "queue_of q h xs \<Longrightarrow> Queue_pop q h = Queue_dequeue q h"
proof (cases xs)
  case (Cons x ys)
  assume "queue_of q h xs"
  then obtain q' h' where r: "Queue_dequeue q h = (Some x, q', h')" "queue_of q' h' ys" using Queue_dequeue_ok Cons by blast
  have "q_head q = Some x" using \<open>queue_of q h xs\<close> Cons by (simp add: queue_of_def)
  then show ?thesis using r \<open>queue_of q h xs\<close> Cons
    by (cases ys rule: rev_cases) (auto simp: Queue_pop_def DLL_pop_def Queue_dequeue_def Queue_remove_def queue_of_def final_def first_def Let_def split: prod.splits if_splits)
qed (simp add: Queue_pop_def DLL_pop_def Queue_dequeue_def queue_of_def)

text \<open>Appending hands the objects of one queue to another.\<close>
lemma Queue_append_ok:
  assumes "queue_of q h ys" "queue_of this h xs" "set xs \<inter> set ys = {}"
  shows "\<exists>q' h'. Queue_append q this h = Inr (q', h') \<and> queue_of q' h' (xs @ ys) \<and> same_else (set (xs @ ys)) h h'"
proof (cases xs rule: rev_cases)
  case Nil
  then show ?thesis using assms by (simp add: Queue_append_def queue_of_def same_else_def)
next
  case (snoc xs' x)
  have t: "q_tail this = Some x" "q_head this = first (xs' @ [x])" "linked h None xs' (Some x)" "l_prev (h x) = final xs'" "l_next (h x) = None"
      "distinct (xs' @ [x])"
    using assms(2) snoc by (auto simp: queue_of_def linked_append final_def split: if_splits)
  show ?thesis
  proof (cases ys)
    case Nil
    then show ?thesis using assms snoc t by (auto simp: Queue_append_def queue_of_def same_else_def first_def)
  next
    case (Cons y ys')
    then have "y \<noteq> x" "y \<notin> set xs'" "x \<notin> set xs'" "x \<notin> set ys'" "y \<notin> set ys'" using assms(1,3) t(6) snoc by (auto simp: queue_of_def)
    moreover have "hd (xs' @ x # y # ys') = hd (xs' @ [x])" by (simp add: hd_append)
    ultimately show ?thesis using assms t Cons snoc
      by (auto simp: Queue_append_def queue_of_def linked_append final_def same_else_def first_def)
  qed
qed

section \<open>Runs of operations\<close>

datatype list_op = LPush addr | LEnqueue addr | LInsert addr addr | LRemove addr | LDequeue

text \<open>What an operation does to a list, and what it returns; None when it is not allowed.\<close>
fun on_list :: "list_op \<Rightarrow> addr list \<Rightarrow> (addr option \<times> addr list) option" where
  "on_list (LPush c) xs = (if c \<in> set xs then None else Some (None, c # xs))"
| "on_list (LEnqueue c) xs = (if c \<in> set xs then None else Some (None, xs @ [c]))"
| "on_list (LInsert c a) xs =
     (if c \<in> set xs \<or> a \<notin> set xs then None else Some (None, takeWhile (\<lambda>x. x \<noteq> a) xs @ a # c # tl (dropWhile (\<lambda>x. x \<noteq> a) xs)))"
| "on_list (LRemove c) xs = (if c \<in> set xs then Some (None, remove1 c xs) else None)"
| "on_list LDequeue xs = Some (first xs, tl xs)"

fun on_lists :: "list_op list \<Rightarrow> addr list \<Rightarrow> (addr option list \<times> addr list) option" where
  "on_lists [] xs = Some ([], xs)"
| "on_lists (f # fs) xs =
     (case on_list f xs of
        None \<Rightarrow> None
      | Some (r, xs) \<Rightarrow> (case on_lists fs xs of None \<Rightarrow> None | Some (rs, xs) \<Rightarrow> Some (r # rs, xs)))"

fun run_list_ops :: "(list_op \<Rightarrow> 's \<Rightarrow> (addr option \<times> 's) res) \<Rightarrow> list_op list \<Rightarrow> 's \<Rightarrow> (addr option list \<times> 's) res" where
  "run_list_ops step [] s = Inr ([], s)"
| "run_list_ops step (f # fs) s = bindE (step f s) (\<lambda>(r, s). bindE (run_list_ops step fs s) (\<lambda>(rs, s). Inr (r # rs, s)))"

text \<open>What the clients of a list of objects rely on: it holds a list of objects, and each operation acts on it.\<close>
locale object_list =
  fixes step :: "list_op \<Rightarrow> 's \<Rightarrow> (addr option \<times> 's) res" and holds :: "'s \<Rightarrow> addr list \<Rightarrow> bool"
  assumes step_list: "holds s xs \<Longrightarrow> on_list f xs = Some (r, ys) \<Longrightarrow> \<exists>s'. step f s = Inr (r, s') \<and> holds s' ys"
begin

lemma run_list: "holds s xs \<Longrightarrow> on_lists fs xs = Some (rs, ys) \<Longrightarrow> \<exists>s'. run_list_ops step fs s = Inr (rs, s') \<and> holds s' ys"
proof (induction fs arbitrary: s xs rs)
  case (Cons f fs)
  then obtain r xs' rs' where f: "on_list f xs = Some (r, xs')" "on_lists fs xs' = Some (rs', ys)" "rs = r # rs'"
    by (auto split: option.splits)
  then obtain s' where "step f s = Inr (r, s')" "holds s' xs'" using step_list Cons.prems(1) by blast
  then show ?case using Cons.IH [of s' xs' rs'] f by auto
qed simp

end

fun queue_step :: "list_op \<Rightarrow> Queue \<times> links \<Rightarrow> (addr option \<times> Queue \<times> links) res" where
  "queue_step (LPush c) (q, h) = Inr (None, Queue_push c q h)"
| "queue_step (LEnqueue c) (q, h) = bindE (Queue_enqueue c q h) (\<lambda>s. Inr (None, s))"
| "queue_step (LInsert c a) (q, h) = bindE (Queue_insert c (Some a) q h) (\<lambda>s. Inr (None, s))"
| "queue_step (LRemove c) (q, h) = Inr (None, Queue_remove c q h)"
| "queue_step LDequeue (q, h) = Inr (Queue_dequeue q h)"

text \<open>The objects that are not in the queue are in no list.\<close>
definition queue_holds :: "Queue \<times> links \<Rightarrow> addr list \<Rightarrow> bool" where
  "queue_holds s xs \<longleftrightarrow> queue_of (fst s) (snd s) xs \<and> (\<forall>a. a \<notin> set xs \<longrightarrow> unlinked (snd s) a)"

lemma queue_holdsI:
  assumes "queue_holds (q, h) xs" "queue_of q' h' ys" "same_else (set xs \<union> set ys) h h'" "\<forall>a \<in> set xs - set ys. unlinked h' a"
  shows "queue_holds (q', h') ys"
proof -
  have "unlinked h' a" if "a \<notin> set ys" for a using assms that by (cases "a \<in> set xs") (auto simp: queue_holds_def same_else_def unlinked_def)
  then show ?thesis using assms(2) by (simp add: queue_holds_def)
qed

lemma queue_step_list:
  assumes "queue_holds s xs" "on_list f xs = Some (r, ys)"
  shows "\<exists>s'. queue_step f s = Inr (r, s') \<and> queue_holds s' ys"
proof -
  obtain q h where s: "s = (q, h)" by (cases s)
  have q: "queue_of q h xs" "\<And>a. a \<notin> set xs \<Longrightarrow> unlinked h a" using assms(1) by (auto simp: queue_holds_def s)
  note hI = queue_holdsI [OF assms(1) [unfolded s]]
  show ?thesis
  proof (cases f)
    case (LPush c)
    then have c: "c \<notin> set xs" "r = None" "ys = c # xs" using assms(2) by (auto split: if_splits)
    then show ?thesis using Queue_push_ok [OF q(1) c(1) q(2)] hI LPush s by (fastforce simp: same_else_def)
  next
    case (LEnqueue c)
    then have c: "c \<notin> set xs" "r = None" "ys = xs @ [c]" using assms(2) by (auto split: if_splits)
    then show ?thesis using Queue_enqueue_ok [OF q(1) c(1) q(2)] hI LEnqueue s by (fastforce simp: same_else_def)
  next
    case (LInsert c a)
    then have c: "c \<notin> set xs" "a \<in> set xs" "r = None" using assms(2) by (auto split: if_splits)
    define as bs where "as = takeWhile (\<lambda>x. x \<noteq> a) xs" and "bs = tl (dropWhile (\<lambda>x. x \<noteq> a) xs)"
    have "dropWhile (\<lambda>x. x \<noteq> a) xs \<noteq> []" "hd (dropWhile (\<lambda>x. x \<noteq> a) xs) = a" using c(2) hd_dropWhile [of "\<lambda>x. x \<noteq> a" xs] by (auto simp: dropWhile_eq_Nil_conv)
    then have xs: "xs = as @ a # bs" unfolding as_def bs_def by (metis list.collapse takeWhile_dropWhile_id)
    have ys: "ys = as @ a # c # bs" using assms(2) LInsert c by (simp add: as_def bs_def)
    have "\<exists>q' h'. Queue_insert c (Some a) q h = Inr (q', h') \<and> queue_of q' h' ys \<and> same_else (set ys) h h'"
      using Queue_insert_ok [of q h as a bs c] q c(1) xs ys by simp
    then show ?thesis using hI LInsert s c(3) xs ys by (fastforce simp: same_else_def)
  next
    case (LRemove c)
    then have c: "c \<in> set xs" "r = None" "ys = remove1 c xs" using assms(2) by (auto split: if_splits)
    obtain as bs where xs: "xs = as @ c # bs" "c \<notin> set as" using split_list_first [OF c(1)] by blast
    then have ys: "ys = as @ bs" using c(3) by (simp add: remove1_append)
    then have "set xs - set ys = {c}" using q(1) xs by (auto simp: queue_of_def)
    then show ?thesis using Queue_remove_ok [of q h as c bs] q(1) hI LRemove s c(2) xs ys by (fastforce simp: same_else_def)
  next
    case LDequeue
    show ?thesis
    proof (cases xs)
      case Nil
      then show ?thesis using assms q(1) LDequeue s by (auto simp: Queue_dequeue_def queue_of_def)
    next
      case (Cons x xs')
      then have "r = Some x" "ys = xs'" "set xs - set ys = {x}" using assms(2) LDequeue q(1) by (auto simp: queue_of_def)
      then show ?thesis using Queue_dequeue_ok [of q h x xs'] q(1) hI LDequeue s Cons by (fastforce simp: same_else_def)
    qed
  qed
qed

interpretation lq: object_list queue_step queue_holds
  by unfold_locales (rule queue_step_list)

lemma DLL_in_iff:
  assumes "queue_holds (q, h) xs"
  shows "DLL_in c (q_head q) h \<longleftrightarrow> c \<in> set xs"
proof (cases "c \<in> set xs")
  case True
  then obtain as bs where xs: "xs = as @ c # bs" by (auto dest: split_list)
  then have "l_prev (h c) = final as" "l_next (h c) = first bs" "q_head q = first (as @ c # bs)"
    using assms by (auto simp: queue_holds_def queue_of_def linked_append first_def final_def split: if_splits)
  then show ?thesis using True by (cases as) (auto simp: DLL_in_def final_def)
next
  case False
  then have "unlinked h c" "q_head q \<noteq> Some c" using assms by (auto simp: queue_holds_def queue_of_def first_def split: if_splits)
  then show ?thesis using False by (simp add: DLL_in_def unlinked_def)
qed

text \<open>
  C20.  The pointer operations of a queue act as operations on a list: any sequence of
  them that inserts only objects that are not in the queue, and removes or inserts
  behind objects that are, returns what the list returns, and leaves objects linked in
  the order of the list; the weak test of membership is then exact.
\<close>
theorem queue_refines_list:
  assumes "on_lists fs [] = Some (rs, xs)"
  shows "\<exists>q h. run_list_ops queue_step fs (Queue_new, \<lambda>_. \<lparr>l_next = None, l_prev = None\<rparr>) = Inr (rs, q, h) \<and>
    queue_of q h xs \<and> (\<forall>c. DLL_in c (q_head q) h \<longleftrightarrow> c \<in> set xs)"
proof -
  have "queue_holds (Queue_new, \<lambda>_. \<lparr>l_next = None, l_prev = None\<rparr>) []"
    by (simp add: queue_holds_def queue_of_def Queue_new_def unlinked_def)
  from lq.run_list [OF this assms] obtain q h where
    "run_list_ops queue_step fs (Queue_new, \<lambda>_. \<lparr>l_next = None, l_prev = None\<rparr>) = Inr (rs, q, h)" "queue_holds (q, h) xs"
    by auto
  then show ?thesis using DLL_in_iff by (auto simp: queue_holds_def)
qed

theorem queue_refines_list_witness:
  "\<exists>q h. run_list_ops queue_step [LEnqueue 1, LPush 2, LInsert 3 2, LRemove 2, LDequeue] (Queue_new, \<lambda>_. \<lparr>l_next = None, l_prev = None\<rparr>) =
      Inr ([None, None, None, None, Some 3], q, h) \<and>
    queue_of q h [1] \<and> (\<forall>c. DLL_in c (q_head q) h \<longleftrightarrow> c = 1)"
  using queue_refines_list [of "[LEnqueue 1, LPush 2, LInsert 3 2, LRemove 2, LDequeue]" "[None, None, None, None, Some 3]" "[1]"] by simp

end
