(* ===== verification/Seq_Write.thy ===== *)
theory Seq_Write
  imports RSL_Prelude
begin

text \<open>
  The sequential file writer APSEQWRITE (src/src/common/src/apdiskio.cpp):
  bytes are collected in a ring of buffers, full buffers are written
  asynchronously and unbuffered, and Flush writes the last one and sets the end
  of the file.  A write always transfers the whole buffer, also what an earlier
  use left behind the bytes in use.

  The file is a list of bytes.  What the operating system answers is the record
  write_io: the code with which a write at an offset is issued (0, pending or an
  error), the code with which a pending one completes, and those of SetEndOfFile
  and of the buffered write of RandomWrite.
  A write that succeeds has its bytes in the file from the time it is issued.
\<close>

section \<open>Windows\<close>

definition NO_ERROR :: u32 where "NO_ERROR = 0"
definition ERROR_CRC :: u32 where "ERROR_CRC = 23"
definition ERROR_HANDLE_EOF :: u32 where "ERROR_HANDLE_EOF = 38"
definition ERROR_INVALID_PARAMETER :: u32 where "ERROR_INVALID_PARAMETER = 87"
definition ERROR_IO_PENDING :: u32 where "ERROR_IO_PENDING = 997"

lemmas win_errors = NO_ERROR_def ERROR_CRC_def ERROR_HANDLE_EOF_def ERROR_INVALID_PARAMETER_def ERROR_IO_PENDING_def

text \<open>WriteFile at an offset, and SetEndOfFile.\<close>
definition write_at :: "nat \<Rightarrow> u8 list \<Rightarrow> u8 list \<Rightarrow> u8 list" where
  "write_at off bs f = take off (f @ replicate (off - length f) 0) @ bs @ drop (off + length bs) f"

definition set_eof :: "nat \<Rightarrow> u8 list \<Rightarrow> u8 list" where
  "set_eof n f = take n (f @ replicate (n - length f) 0)"

record write_io =
  wi_issue :: "u64 \<Rightarrow> u32"
  wi_wait :: "u64 \<Rightarrow> u32"
  wi_setEof :: u32
  wi_random :: u32

section \<open>State\<close>

record WRITEBUFFER =
  wb_pb :: "u8 list"
  wb_offset :: u64
  wb_fWait :: bool

text \<open>
  m_pbWrite is the index of the buffer it points to the start of; m_numWrites is
  the number of buffers; sw_open says that both handles of the file are valid.
\<close>
record APSEQWRITE =
  sw_open :: bool
  sw_cbBufSize :: u32
  sw_iWrite :: nat
  sw_rgWrites :: "WRITEBUFFER list"
  sw_pbWrite :: "nat option"
  sw_cbUsed :: u32
  sw_offsetNext :: u64
  sw_file :: "u8 list"

definition c_maxWrites :: nat where "c_maxWrites = 64"
definition c_maxWritesDefault :: nat where "c_maxWritesDefault = 2"

section \<open>Operations\<close>

definition new_APSEQWRITE :: APSEQWRITE where
  "new_APSEQWRITE = \<lparr>sw_open = False, sw_cbBufSize = 0, sw_iWrite = 0, sw_rgWrites = [], sw_pbWrite = None, sw_cbUsed = 0,
     sw_offsetNext = 0, sw_file = []\<rparr>"

text \<open>DoInit on a file with the given contents, which are not truncated; sys is the code with which allocating and opening end.\<close>
definition sw_DoInit :: "u32 \<Rightarrow> u8 list \<Rightarrow> u32 \<Rightarrow> nat \<Rightarrow> APSEQWRITE \<Rightarrow> u32 \<times> APSEQWRITE" where
  "sw_DoInit sys file cbWrite maxWrites s =
     (if \<not> (maxWrites \<le> c_maxWrites \<and> 1 \<le> maxWrites) then (ERROR_INVALID_PARAMETER, s)
      else (sys, s\<lparr>sw_open := (sys = NO_ERROR), sw_cbBufSize := cbWrite,
         sw_rgWrites := replicate maxWrites \<lparr>wb_pb = replicate (unat cbWrite) 0, wb_offset = 0, wb_fWait = False\<rparr>,
         sw_file := file\<rparr>))"

definition upd_wb :: "nat \<Rightarrow> (WRITEBUFFER \<Rightarrow> WRITEBUFFER) \<Rightarrow> APSEQWRITE \<Rightarrow> APSEQWRITE" where
  "upd_wb i f s = s\<lparr>sw_rgWrites := (sw_rgWrites s)[i := f (sw_rgWrites s ! i)]\<rparr>"

definition IssueWrite :: "write_io \<Rightarrow> APSEQWRITE \<Rightarrow> u32 \<times> APSEQWRITE" where
  "IssueWrite io s =
     (let i = sw_iWrite s; off = sw_offsetNext s; ec = wi_issue io off;
          s = upd_wb i (\<lambda>b. b\<lparr>wb_offset := off\<rparr>) s in
      if ec = NO_ERROR \<or> ec = ERROR_IO_PENDING
      then (NO_ERROR, (if ec = ERROR_IO_PENDING then upd_wb i (\<lambda>b. b\<lparr>wb_fWait := True\<rparr>) s else s)
                        \<lparr>sw_file := write_at (unat off) (wb_pb (sw_rgWrites s ! i)) (sw_file s)\<rparr>)
      else (ec, s))"

text \<open>PrepareNext in its two halves: issue the current buffer, and wait for the next one.\<close>
definition NextBuffer :: "write_io \<Rightarrow> APSEQWRITE \<Rightarrow> u32 \<times> APSEQWRITE" where
  "NextBuffer io s =
     (let i = (if Suc (sw_iWrite s) \<ge> length (sw_rgWrites s) then 0 else Suc (sw_iWrite s));
          b = sw_rgWrites s ! i;
          ec = (if wb_fWait b then wi_wait io (wb_offset b) else NO_ERROR);
          s = upd_wb i (\<lambda>b. b\<lparr>wb_fWait := False\<rparr>) (s\<lparr>sw_iWrite := i\<rparr>)
      in if ec \<noteq> NO_ERROR then (ec, s) else (NO_ERROR, s\<lparr>sw_pbWrite := Some i, sw_cbUsed := 0\<rparr>))"

definition PrepareNext :: "write_io \<Rightarrow> APSEQWRITE \<Rightarrow> u32 \<times> APSEQWRITE" where
  "PrepareNext io s =
     (if sw_pbWrite s = None then NextBuffer io s
      else case IssueWrite io s of (ec, s) \<Rightarrow>
        if ec \<noteq> NO_ERROR then (ec, s)
        else NextBuffer io (s\<lparr>sw_offsetNext := sw_offsetNext s + ucast (sw_cbUsed s)\<rparr>))"

text \<open>memcpy into the buffer m_pbWrite points to.\<close>
definition poke :: "nat \<Rightarrow> u8 list \<Rightarrow> APSEQWRITE \<Rightarrow> APSEQWRITE res" where
  "poke off bs s =
     (case sw_pbWrite s of
        None \<Rightarrow> Inl OutOfBounds
      | Some i \<Rightarrow>
          if off + length bs \<le> length (wb_pb (sw_rgWrites s ! i))
          then Inr (upd_wb i (\<lambda>b. b\<lparr>wb_pb := write_at off bs (wb_pb b)\<rparr>) s)
          else Inl OutOfBounds)"

definition WriteInternal :: "write_io \<Rightarrow> u8 list \<Rightarrow> APSEQWRITE \<Rightarrow> (u32 \<times> APSEQWRITE) res" where
  "WriteInternal io bs s =
     (if length bs > unat (sw_cbBufSize s) then Inr (ERROR_INVALID_PARAMETER, s)
      else let s = (if sw_pbWrite s = None then snd (PrepareNext io s) else s) in
      if length bs > unat (sw_cbBufSize s - sw_cbUsed s)
      then let cbUsed = sw_cbBufSize s - sw_cbUsed s in
           bindE (poke (unat (sw_cbUsed s)) (take (unat cbUsed) bs) s) (\<lambda>s.
           let (ec, s) = PrepareNext io (s\<lparr>sw_cbUsed := sw_cbUsed s + cbUsed\<rparr>);
               rest = drop (unat cbUsed) bs in
           bindE (if ec = NO_ERROR then poke 0 rest s else Inr s) (\<lambda>s.
             Inr (ec, s\<lparr>sw_cbUsed := sw_cbUsed s + of_nat (length rest)\<rparr>)))
      else bindE (poke (unat (sw_cbUsed s)) bs s) (\<lambda>s.
             Inr (NO_ERROR, s\<lparr>sw_cbUsed := sw_cbUsed s + of_nat (length bs)\<rparr>)))"

text \<open>The loop of Write, n the number of rounds it may make.\<close>
fun write_loop :: "nat \<Rightarrow> write_io \<Rightarrow> u8 list \<Rightarrow> APSEQWRITE \<Rightarrow> (u32 \<times> APSEQWRITE) res" where
  "write_loop n io bs s =
     (if length bs > unat (sw_cbBufSize s)
      then case n of
             0 \<Rightarrow> Inl OutOfFuel
           | Suc m \<Rightarrow>
               bindE (WriteInternal io (take (unat (sw_cbBufSize s)) bs) s) (\<lambda>(ec, s').
               if ec \<noteq> NO_ERROR then Inr (ec, s')
               else write_loop m io (drop (unat (sw_cbBufSize s)) bs) s')
      else WriteInternal io bs s)"

declare write_loop.simps [simp del]

definition sw_Write :: "write_io \<Rightarrow> u8 list \<Rightarrow> APSEQWRITE \<Rightarrow> (u32 \<times> APSEQWRITE) res" where
  "sw_Write io bs s = write_loop (length bs) io bs s"

text \<open>The loop of Flush that waits for the pending writes of the buffers from i on.\<close>
fun wait_all :: "write_io \<Rightarrow> nat list \<Rightarrow> APSEQWRITE \<Rightarrow> u32 \<times> APSEQWRITE" where
  "wait_all io [] s = (NO_ERROR, s)"
| "wait_all io (i # is) s =
     (let b = sw_rgWrites s ! i in
      if wb_fWait b
      then let ec = wi_wait io (wb_offset b); s = upd_wb i (\<lambda>b. b\<lparr>wb_fWait := False\<rparr>) s in
           if ec \<noteq> NO_ERROR then (ec, s) else wait_all io is s
      else wait_all io is s)"

definition sw_Flush :: "write_io \<Rightarrow> APSEQWRITE \<Rightarrow> u32 \<times> APSEQWRITE" where
  "sw_Flush io s =
     (let (ec, s) = (if sw_pbWrite s \<noteq> None \<and> sw_cbUsed s \<noteq> 0 then IssueWrite io s else (NO_ERROR, s)) in
      if ec \<noteq> NO_ERROR then (ec, s)
      else let (ec, s) = wait_all io [0..<length (sw_rgWrites s)] s in
      if ec \<noteq> NO_ERROR then (ec, s)
      else if wi_setEof io \<noteq> NO_ERROR then (wi_setEof io, s)
      else (NO_ERROR, s\<lparr>sw_file := set_eof (unat (sw_offsetNext s + ucast (sw_cbUsed s))) (sw_file s)\<rparr>))"

definition sw_DoDispose :: "write_io \<Rightarrow> APSEQWRITE \<Rightarrow> APSEQWRITE" where
  "sw_DoDispose io s = (if sw_open s then snd (sw_Flush io s) else s)\<lparr>sw_open := False\<rparr>"

definition sw_RandomWrite :: "write_io \<Rightarrow> u64 \<Rightarrow> u8 list \<Rightarrow> APSEQWRITE \<Rightarrow> u32 \<times> APSEQWRITE" where
  "sw_RandomWrite io offset bs s =
     (if offset + of_nat (length bs) \<ge> sw_offsetNext s then (ERROR_INVALID_PARAMETER, s)
      else let s = snd (sw_Flush io s) in
      if wi_random io \<noteq> NO_ERROR then (wi_random io, s)
      else (NO_ERROR, s\<lparr>sw_file := write_at (unat offset) bs (sw_file s)\<rparr>))"

definition sw_BytesIssued :: "APSEQWRITE \<Rightarrow> u64" where
  "sw_BytesIssued s = ucast (sw_cbUsed s) + sw_offsetNext s"

text \<open>The result is the error code and the size of the space after the bytes in use.\<close>
definition GetAvailable :: "write_io \<Rightarrow> APSEQWRITE \<Rightarrow> u32 \<times> u32 \<times> APSEQWRITE" where
  "GetAvailable io s =
     (let (ec, s) = (if sw_pbWrite s = None \<or> sw_cbBufSize s = sw_cbUsed s then PrepareNext io s else (NO_ERROR, s))
      in (ec, sw_cbBufSize s - sw_cbUsed s, s))"

definition CommitAvailable :: "u32 \<Rightarrow> APSEQWRITE \<Rightarrow> u32 \<times> APSEQWRITE" where
  "CommitAvailable cbAvailable s =
     (if cbAvailable > sw_cbBufSize s - sw_cbUsed s then (ERROR_INVALID_PARAMETER, s)
      else (NO_ERROR, s\<lparr>sw_cbUsed := sw_cbUsed s + cbAvailable\<rparr>))"

section \<open>What has been written\<close>

text \<open>What a client that writes and flushes does: a list of Nones (flush) and Somes (write).\<close>
fun put_all :: "(u8 list \<Rightarrow> 's \<Rightarrow> (u32 \<times> 's) res) \<Rightarrow> ('s \<Rightarrow> u32 \<times> 's) \<Rightarrow> u8 list option list \<Rightarrow> 's \<Rightarrow> (u32 \<times> 's) res" where
  "put_all put sync [] s = Inr (NO_ERROR, s)"
| "put_all put sync (c # cs) s =
     bindE (case c of Some bs \<Rightarrow> put bs s | None \<Rightarrow> Inr (sync s)) (\<lambda>(ec, s). if ec \<noteq> NO_ERROR then Inr (ec, s) else put_all put sync cs s)"

definition put_data :: "u8 list option list \<Rightarrow> u8 list" where
  "put_data cs = concat (List.map_filter (\<lambda>c. c) cs)"

text \<open>A sink for bytes: what its clients rely on when they write.\<close>
locale byte_sink =
  fixes holds :: "'s \<Rightarrow> u8 list \<Rightarrow> bool" and fits :: "u8 list \<Rightarrow> bool" and piece :: "u8 list \<Rightarrow> bool"
    and put :: "u8 list \<Rightarrow> 's \<Rightarrow> (u32 \<times> 's) res" and sync :: "'s \<Rightarrow> u32 \<times> 's"
  assumes fits_prefix: "fits (xs @ ys) \<Longrightarrow> fits xs"
    and put_law: "holds s xs \<Longrightarrow> fits (xs @ bs) \<Longrightarrow> piece bs \<Longrightarrow> \<exists>s'. put bs s = Inr (NO_ERROR, s') \<and> holds s' (xs @ bs)"
    and sync_law: "holds s xs \<Longrightarrow> fits xs \<Longrightarrow> \<exists>s'. sync s = (NO_ERROR, s') \<and> holds s' xs"
begin

lemma put_all_ok:
  "holds s xs \<Longrightarrow> fits (xs @ put_data cs) \<Longrightarrow> \<forall>bs. Some bs \<in> set cs \<longrightarrow> piece bs \<Longrightarrow>
   \<exists>s'. put_all put sync cs s = Inr (NO_ERROR, s') \<and> holds s' (xs @ put_data cs)"
proof (induction cs arbitrary: s xs)
  case Nil
  then show ?case by (simp add: put_data_def map_filter_simps)
next
  case (Cons c cs)
  let ?bs = "case c of Some bs \<Rightarrow> bs | None \<Rightarrow> []"
  have c: "put_data (c # cs) = ?bs @ put_data cs" by (simp add: put_data_def map_filter_simps split: option.split)
  then have fits: "fits ((xs @ ?bs) @ put_data cs)" using Cons.prems(2) by simp
  have "\<exists>s1. (case c of Some bs \<Rightarrow> put bs s | None \<Rightarrow> Inr (sync s)) = Inr (NO_ERROR, s1) \<and> holds s1 (xs @ ?bs)"
    using put_law [OF Cons.prems(1), of ?bs] sync_law [OF Cons.prems(1)] fits_prefix [OF fits] Cons.prems(3)
    by (auto split: option.splits)
  then obtain s1 where s1: "(case c of Some bs \<Rightarrow> put bs s | None \<Rightarrow> Inr (sync s)) = Inr (NO_ERROR, s1)" "holds s1 (xs @ ?bs)" by blast
  from Cons.IH [OF s1(2) fits] show ?case using s1(1) c Cons.prems(3) by auto
qed

end

lemma unat_ucast_u64 [simp]: "unat (ucast (x :: u32) :: u64) = unat x"
  using unsigned_less [of x, where ?'a = nat] by (simp add: unsigned_ucast_eq take_bit_nat_eq_self)

definition sw_current :: "APSEQWRITE \<Rightarrow> u8 list" where
  "sw_current s = wb_pb (sw_rgWrites s ! sw_iWrite s)"

text \<open>The bytes written so far: those in the file, and those in the current buffer.\<close>
definition sw_bytes :: "APSEQWRITE \<Rightarrow> u8 list" where
  "sw_bytes s = take (unat (sw_offsetNext s)) (sw_file s) @ take (unat (sw_cbUsed s)) (sw_current s)"

definition sw_ok :: "APSEQWRITE \<Rightarrow> bool" where
  "sw_ok s \<longleftrightarrow> sw_cbBufSize s \<noteq> 0 \<and> sw_iWrite s < length (sw_rgWrites s) \<and>
     (\<forall>i < length (sw_rgWrites s). length (wb_pb (sw_rgWrites s ! i)) = unat (sw_cbBufSize s)) \<and>
     sw_cbUsed s \<le> sw_cbBufSize s \<and> unat (sw_offsetNext s) \<le> length (sw_file s) \<and>
     (sw_pbWrite s = None \<longrightarrow> sw_cbUsed s = 0 \<and> sw_offsetNext s = 0) \<and> (\<forall>i. sw_pbWrite s = Some i \<longrightarrow> i = sw_iWrite s)"

definition sw_fits :: "nat \<Rightarrow> APSEQWRITE \<Rightarrow> bool" where
  "sw_fits n s \<longleftrightarrow> length (sw_bytes s) + n < 2 ^ 63"

definition io_good :: "write_io \<Rightarrow> bool" where
  "io_good io \<longleftrightarrow> (\<forall>off. wi_issue io off \<in> {NO_ERROR, ERROR_IO_PENDING} \<and> wi_wait io off = NO_ERROR) \<and> wi_setEof io = NO_ERROR \<and> wi_random io = NO_ERROR"

lemma length_sw_current: "sw_ok s \<Longrightarrow> length (sw_current s) = unat (sw_cbBufSize s)"
  by (simp add: sw_ok_def sw_current_def)

lemma length_sw_bytes: "sw_ok s \<Longrightarrow> length (sw_bytes s) = unat (sw_offsetNext s) + unat (sw_cbUsed s)"
  using length_sw_current [of s] by (simp add: sw_bytes_def sw_ok_def word_le_nat_alt)

lemma sw_DoInit_ok:
  assumes "cb \<noteq> 0" "1 \<le> n" "n \<le> c_maxWrites"
  shows "\<exists>s. sw_DoInit NO_ERROR f cb n new_APSEQWRITE = (NO_ERROR, s) \<and> sw_open s \<and> sw_ok s \<and> sw_bytes s = [] \<and> sw_cbBufSize s = cb"
  using assms by (simp add: sw_DoInit_def new_APSEQWRITE_def sw_ok_def sw_bytes_def)

lemma write_at_take: "off \<le> length f \<Longrightarrow> take (off + length bs) (write_at off bs f) = take off f @ bs"
  by (simp add: write_at_def)

lemma write_at_length: "off + length bs \<le> length f \<Longrightarrow> length (write_at off bs f) = length f"
  by (simp add: write_at_def)

lemma IssueWrite_ok:
  assumes "sw_ok s" "io_good io"
  shows "\<exists>bufs. IssueWrite io s = (NO_ERROR, s\<lparr>sw_rgWrites := bufs,
      sw_file := write_at (unat (sw_offsetNext s)) (sw_current s) (sw_file s)\<rparr>) \<and> map wb_pb bufs = map wb_pb (sw_rgWrites s)"
proof -
  have "wi_issue io (sw_offsetNext s) = NO_ERROR \<or> wi_issue io (sw_offsetNext s) = ERROR_IO_PENDING"
    using assms(2) by (auto simp: io_good_def)
  then show ?thesis
    using assms(1)
    by (auto simp: IssueWrite_def upd_wb_def sw_current_def Let_def win_errors sw_ok_def map_update list_update_same_conv
        intro!: nth_equalityI simp: nth_list_update)
qed

lemma NextBuffer_ok:
  assumes "\<forall>i < length (sw_rgWrites s). length (wb_pb (sw_rgWrites s ! i)) = unat (sw_cbBufSize s)"
    and "sw_iWrite s < length (sw_rgWrites s)" "sw_cbBufSize s \<noteq> 0" "unat (sw_offsetNext s) \<le> length (sw_file s)" "io_good io"
  shows "\<exists>s'. NextBuffer io s = (NO_ERROR, s') \<and> sw_ok s' \<and> sw_bytes s' = take (unat (sw_offsetNext s)) (sw_file s) \<and>
    sw_cbUsed s' = 0 \<and> sw_pbWrite s' = Some (sw_iWrite s') \<and> sw_cbBufSize s' = sw_cbBufSize s \<and> sw_open s' = sw_open s"
proof -
  define i where "i = (if Suc (sw_iWrite s) \<ge> length (sw_rgWrites s) then 0 else Suc (sw_iWrite s))"
  have i: "i < length (sw_rgWrites s)" using assms(2) by (auto simp: i_def)
  then show ?thesis
    using assms by (simp add: NextBuffer_def i_def [symmetric] Let_def upd_wb_def io_good_def sw_ok_def sw_bytes_def nth_list_update)
qed

lemma PrepareNext_ok:
  assumes ok: "sw_ok s" "io_good io" and full: "sw_pbWrite s \<noteq> None \<Longrightarrow> sw_cbUsed s = sw_cbBufSize s" and "sw_fits 0 s"
  shows "\<exists>s'. PrepareNext io s = (NO_ERROR, s') \<and> sw_ok s' \<and> sw_bytes s' = sw_bytes s \<and> sw_cbUsed s' = 0 \<and>
    sw_pbWrite s' = Some (sw_iWrite s') \<and> sw_cbBufSize s' = sw_cbBufSize s \<and> sw_open s' = sw_open s"
proof (cases "sw_pbWrite s = None")
  case True
  then show ?thesis using NextBuffer_ok [of s io] ok by (simp add: PrepareNext_def sw_ok_def sw_bytes_def)
next
  case False
  then obtain j where pb: "sw_pbWrite s = Some j" by blast
  let ?off = "unat (sw_offsetNext s)" and ?f = "write_at (unat (sw_offsetNext s)) (sw_current s) (sw_file s)"
  obtain bufs where iss: "IssueWrite io s = (NO_ERROR, s\<lparr>sw_rgWrites := bufs, sw_file := ?f\<rparr>)"
      "map wb_pb bufs = map wb_pb (sw_rgWrites s)"
    using IssueWrite_ok [OF ok] by blast
  let ?s = "s\<lparr>sw_rgWrites := bufs, sw_file := ?f, sw_offsetNext := sw_offsetNext s + ucast (sw_cbUsed s)\<rparr>"
  have len: "length bufs = length (sw_rgWrites s)" using iss(2) by (metis length_map)
  have same: "wb_pb (bufs ! i) = wb_pb (sw_rgWrites s ! i)" if "i < length bufs" for i
    using arg_cong [OF iss(2), of "\<lambda>xs. xs ! i"] that len by simp
  have cur: "length (sw_current s) = unat (sw_cbUsed s)" using length_sw_current [OF ok(1)] full [OF False] by simp
  have off: "unat (sw_offsetNext s + ucast (sw_cbUsed s)) = ?off + unat (sw_cbUsed s)"
    using assms(4) length_sw_bytes [OF ok(1)] by (simp add: sw_fits_def unat_add_no_wrap)
  have "take (unat (sw_offsetNext ?s)) (sw_file ?s) = sw_bytes s"
    using write_at_take [of ?off "sw_file s" "sw_current s"] ok(1) cur off by (simp add: sw_bytes_def sw_ok_def)
  moreover have "?off + unat (sw_cbUsed s) \<le> length ?f" using ok(1) cur by (simp add: write_at_def sw_ok_def)
  ultimately show ?thesis
    using NextBuffer_ok [of ?s io] ok same len off pb by (simp add: PrepareNext_def iss(1) sw_ok_def)
qed

lemma poke_ok:
  assumes "sw_ok s" "sw_pbWrite s \<noteq> None" "unat (sw_cbUsed s) \<le> off" "off + length bs \<le> unat (sw_cbBufSize s)"
  shows "\<exists>s'. poke off bs s = Inr s' \<and> sw_ok s' \<and> sw_bytes s' = sw_bytes s \<and> sw_current s' = write_at off bs (sw_current s) \<and>
    sw_cbUsed s' = sw_cbUsed s \<and> sw_pbWrite s' = sw_pbWrite s \<and> sw_cbBufSize s' = sw_cbBufSize s \<and> sw_open s' = sw_open s \<and> sw_offsetNext s' = sw_offsetNext s"
proof -
  have p: "sw_pbWrite s = Some (sw_iWrite s)" using assms(1,2) by (auto simp: sw_ok_def)
  have "take (unat (sw_cbUsed s)) (write_at off bs (sw_current s)) = take (unat (sw_cbUsed s)) (sw_current s)"
    using assms(3,4) length_sw_current [OF assms(1)] by (simp add: write_at_def min_def)
  moreover have "length (write_at off bs (sw_current s)) = unat (sw_cbBufSize s)"
    using assms(4) length_sw_current [OF assms(1)] by (simp add: write_at_length)
  ultimately show ?thesis
    using assms p by (simp add: poke_def upd_wb_def sw_ok_def sw_bytes_def sw_current_def nth_list_update)
qed

lemma commit_ok:
  assumes "sw_ok s" "sw_pbWrite s \<noteq> None" "unat (sw_cbUsed s) + unat n \<le> unat (sw_cbBufSize s)"
  shows "sw_ok (s\<lparr>sw_cbUsed := sw_cbUsed s + n\<rparr>) \<and>
    sw_bytes (s\<lparr>sw_cbUsed := sw_cbUsed s + n\<rparr>) = sw_bytes s @ take (unat n) (drop (unat (sw_cbUsed s)) (sw_current s)) \<and>
    sw_cbBufSize s - sw_cbUsed s \<ge> n"
proof -
  have "unat (sw_cbUsed s + n) = unat (sw_cbUsed s) + unat n"
    using assms(3) unsigned_less [of "sw_cbBufSize s", where ?'a = nat] by (intro unat_add_no_wrap) simp
  moreover have "unat (sw_cbBufSize s - sw_cbUsed s) = unat (sw_cbBufSize s) - unat (sw_cbUsed s)"
    using assms(1) by (simp add: sw_ok_def unat_sub)
  moreover obtain j where "sw_pbWrite s = Some j" using assms(2) by blast
  ultimately show ?thesis using assms
    by (auto simp: sw_ok_def sw_bytes_def sw_current_def word_le_nat_alt take_add)
qed

lemma poke_commit:
  assumes "sw_ok s" "sw_pbWrite s \<noteq> None" "unat (sw_cbUsed s) + length bs \<le> unat (sw_cbBufSize s)"
  shows "\<exists>s'. poke (unat (sw_cbUsed s)) bs s = Inr s' \<and> sw_ok (s'\<lparr>sw_cbUsed := sw_cbUsed s' + of_nat (length bs)\<rparr>) \<and>
    sw_bytes (s'\<lparr>sw_cbUsed := sw_cbUsed s' + of_nat (length bs)\<rparr>) = sw_bytes s @ bs \<and>
    sw_cbUsed s' = sw_cbUsed s \<and> sw_pbWrite s' = sw_pbWrite s \<and> sw_cbBufSize s' = sw_cbBufSize s \<and> sw_open s' = sw_open s"
proof -
  obtain s' where s': "poke (unat (sw_cbUsed s)) bs s = Inr s'" "sw_ok s'" "sw_bytes s' = sw_bytes s"
      "sw_current s' = write_at (unat (sw_cbUsed s)) bs (sw_current s)"
      "sw_cbUsed s' = sw_cbUsed s" "sw_pbWrite s' = sw_pbWrite s" "sw_cbBufSize s' = sw_cbBufSize s \<and> sw_open s' = sw_open s"
    using poke_ok [OF assms(1,2) _ assms(3)] by auto
  have n: "unat (of_nat (length bs) :: u32) = length bs"
    using assms(3) unsigned_less [of "sw_cbBufSize s", where ?'a = nat] by (simp add: unat_of_nat take_bit_nat_eq_self)
  have "take (length bs) (drop (unat (sw_cbUsed s)) (sw_current s')) = bs"
    using s'(4) assms(3) length_sw_current [OF assms(1)] by (simp add: write_at_def)
  then show ?thesis using s' commit_ok [of s' "of_nat (length bs)"] assms(2,3) n by simp
qed

lemma WriteInternal_ok:
  assumes ok: "sw_ok s" "io_good io" and bs: "length bs \<le> unat (sw_cbBufSize s)" "sw_fits (length bs + n) s"
  shows "\<exists>s'. WriteInternal io bs s = Inr (NO_ERROR, s') \<and> sw_ok s' \<and> sw_bytes s' = sw_bytes s @ bs \<and>
    sw_fits n s' \<and> sw_cbBufSize s' = sw_cbBufSize s \<and> sw_open s' = sw_open s"
proof -
  obtain s1 where s1: "(if sw_pbWrite s = None then snd (PrepareNext io s) else s) = s1" "sw_ok s1" "sw_bytes s1 = sw_bytes s"
      "sw_pbWrite s1 \<noteq> None" "sw_cbBufSize s1 = sw_cbBufSize s \<and> sw_open s1 = sw_open s"
    using PrepareNext_ok [OF ok] ok(1) bs(2) by (cases "sw_pbWrite s = None") (auto simp: sw_fits_def)
  let ?room = "sw_cbBufSize s - sw_cbUsed s1"
  have room: "unat ?room = unat (sw_cbBufSize s1) - unat (sw_cbUsed s1)" "unat (sw_cbUsed s1) \<le> unat (sw_cbBufSize s1)"
    using s1(2,5) by (simp_all add: sw_ok_def unat_sub word_le_nat_alt)
  show ?thesis
  proof (cases "length bs > unat ?room")
    case False
    then have "unat (sw_cbUsed s1) + length bs \<le> unat (sw_cbBufSize s1)" using room by linarith
    then obtain s2 where "poke (unat (sw_cbUsed s1)) bs s1 = Inr s2" "sw_ok (s2\<lparr>sw_cbUsed := sw_cbUsed s2 + of_nat (length bs)\<rparr>)"
        "sw_bytes (s2\<lparr>sw_cbUsed := sw_cbUsed s2 + of_nat (length bs)\<rparr>) = sw_bytes s1 @ bs" "sw_cbBufSize s2 = sw_cbBufSize s1 \<and> sw_open s2 = sw_open s1"
      using poke_commit [OF s1(2,4), of bs] by auto
    then show ?thesis using False bs s1 by (simp add: WriteInternal_def Let_def sw_fits_def)
  next
    case True
    define k where "k = unat ?room"
    have k: "k < length bs" "of_nat k = ?room" "unat ?room = k" using True by (simp_all add: k_def)
    obtain s2 where s2: "poke (unat (sw_cbUsed s1)) (take k bs) s1 = Inr s2" "sw_ok (s2\<lparr>sw_cbUsed := sw_cbUsed s2 + ?room\<rparr>)"
        "sw_bytes (s2\<lparr>sw_cbUsed := sw_cbUsed s2 + ?room\<rparr>) = sw_bytes s1 @ take k bs" "sw_cbBufSize s2 = sw_cbBufSize s1 \<and> sw_open s2 = sw_open s1"
        "sw_cbUsed s2 = sw_cbUsed s1" "sw_pbWrite s2 = sw_pbWrite s1"
    proof -
      have "length (take k bs) = k" "unat (sw_cbUsed s1) + k \<le> unat (sw_cbBufSize s1)" using k room by simp_all
      then show thesis using that poke_commit [OF s1(2,4), of "take k bs"] k(2) by auto
    qed
    obtain s3 where s3: "PrepareNext io (s2\<lparr>sw_cbUsed := sw_cbUsed s2 + ?room\<rparr>) = (NO_ERROR, s3)" "sw_ok s3"
        "sw_bytes s3 = sw_bytes s1 @ take k bs" "sw_cbUsed s3 = 0" "sw_pbWrite s3 \<noteq> None" "sw_cbBufSize s3 = sw_cbBufSize s \<and> sw_open s3 = sw_open s"
      using PrepareNext_ok [OF s2(2) ok(2)] s2 s1 bs k by (auto simp: sw_fits_def)
    obtain s4 where "poke 0 (drop k bs) s3 = Inr s4" "sw_ok (s4\<lparr>sw_cbUsed := sw_cbUsed s4 + of_nat (length (drop k bs))\<rparr>)"
        "sw_bytes (s4\<lparr>sw_cbUsed := sw_cbUsed s4 + of_nat (length (drop k bs))\<rparr>) = sw_bytes s3 @ drop k bs"
        "sw_cbBufSize s4 = sw_cbBufSize s3 \<and> sw_open s4 = sw_open s3"
      using poke_commit [OF s3(2,5), of "drop k bs"] s3(4,6) bs(1) by (auto simp: le_diff_conv trans_le_add1)
    then show ?thesis using True bs s1 s2 s3 k(1,3) by (simp add: WriteInternal_def Let_def sw_fits_def)
  qed
qed

lemma write_loop_ok:
  "sw_ok s \<Longrightarrow> io_good io \<Longrightarrow> sw_fits (length bs + n) s \<Longrightarrow> length bs \<le> k \<Longrightarrow>
   \<exists>s'. write_loop k io bs s = Inr (NO_ERROR, s') \<and> sw_ok s' \<and> sw_bytes s' = sw_bytes s @ bs \<and> sw_fits n s' \<and>
     sw_cbBufSize s' = sw_cbBufSize s \<and> sw_open s' = sw_open s"
proof (induction k arbitrary: bs s)
  case 0
  then show ?case using WriteInternal_ok [of s io bs n] by (simp add: write_loop.simps)
next
  case (Suc k)
  show ?case
  proof (cases "length bs > unat (sw_cbBufSize s)")
    case True
    let ?b = "unat (sw_cbBufSize s)"
    have len: "length (take ?b bs) = ?b" "length (take ?b bs) + (length (drop ?b bs) + n) = length bs + n"
      using True by simp_all
    obtain s1 where s1: "WriteInternal io (take ?b bs) s = Inr (NO_ERROR, s1)" "sw_ok s1" "sw_bytes s1 = sw_bytes s @ take ?b bs"
        "sw_fits (length (drop ?b bs) + n) s1" "sw_cbBufSize s1 = sw_cbBufSize s \<and> sw_open s1 = sw_open s"
      using WriteInternal_ok [of s io "take ?b bs" "length (drop ?b bs) + n"] Suc.prems unfolding len(2) by (auto simp: len(1))
    have "?b \<noteq> 0" using Suc.prems(1) by (simp add: sw_ok_def unat_eq_0)
    then have "length (drop ?b bs) \<le> k" using Suc.prems(4) True by simp
    from Suc.IH [OF s1(2) Suc.prems(2) s1(4) this] show ?thesis using True s1 by (auto simp: write_loop.simps [of "Suc k"])
  next
    case False
    then show ?thesis using WriteInternal_ok [of s io bs n] Suc.prems by (simp add: write_loop.simps)
  qed
qed

lemma sw_Write_ok:
  assumes "sw_ok s" "io_good io" "sw_fits (length bs + n) s"
  shows "\<exists>s'. sw_Write io bs s = Inr (NO_ERROR, s') \<and> sw_ok s' \<and> sw_bytes s' = sw_bytes s @ bs \<and> sw_fits n s' \<and>
    sw_cbBufSize s' = sw_cbBufSize s \<and> sw_open s' = sw_open s"
  using write_loop_ok [OF assms le_refl] by (simp add: sw_Write_def)

lemma wait_all_ok:
  "io_good io \<Longrightarrow> \<exists>bufs. wait_all io is s = (NO_ERROR, s\<lparr>sw_rgWrites := bufs\<rparr>) \<and> map wb_pb bufs = map wb_pb (sw_rgWrites s)"
proof (induction "is" arbitrary: s)
  case Nil
  then show ?case by (auto intro: exI [of _ "sw_rgWrites s"])
next
  case (Cons i "is")
  let ?s = "upd_wb i (\<lambda>b. b\<lparr>wb_fWait := False\<rparr>) s"
  have "map wb_pb (sw_rgWrites ?s) = map wb_pb (sw_rgWrites s)"
    by (cases "i < length (sw_rgWrites s)") (auto simp: upd_wb_def map_update list_update_same_conv list_update_beyond)
  then show ?case
    using Cons.IH [of s] Cons.IH [of ?s] Cons.prems by (auto simp: Let_def io_good_def upd_wb_def)
qed

lemma sw_Flush_ok:
  assumes "sw_ok s" "io_good io" "sw_fits 0 s"
  shows "\<exists>s'. sw_Flush io s = (NO_ERROR, s') \<and> sw_ok s' \<and> sw_bytes s' = sw_bytes s \<and> sw_file s' = sw_bytes s \<and>
    sw_current s' = sw_current s \<and> sw_cbUsed s' = sw_cbUsed s \<and> sw_pbWrite s' = sw_pbWrite s \<and> sw_cbBufSize s' = sw_cbBufSize s \<and> sw_open s' = sw_open s \<and>
    sw_offsetNext s' = sw_offsetNext s"
proof -
  let ?off = "unat (sw_offsetNext s)"
  let ?issue = "sw_pbWrite s \<noteq> None \<and> sw_cbUsed s \<noteq> 0"
  define f where "f = (if ?issue then write_at ?off (sw_current s) (sw_file s) else sw_file s)"
  obtain b1 where b1: "(if ?issue then IssueWrite io s else (NO_ERROR, s)) = (NO_ERROR, s\<lparr>sw_rgWrites := b1, sw_file := f\<rparr>)"
      "map wb_pb b1 = map wb_pb (sw_rgWrites s)"
    using IssueWrite_ok [OF assms(1,2)] that [of "sw_rgWrites s"] by (cases ?issue) (auto simp: f_def)
  obtain b2 where b2: "wait_all io [0..<length b1] (s\<lparr>sw_rgWrites := b1, sw_file := f\<rparr>) = (NO_ERROR, s\<lparr>sw_file := f, sw_rgWrites := b2\<rparr>)"
      "map wb_pb b2 = map wb_pb (sw_rgWrites s)"
    using wait_all_ok [OF assms(2), of "[0..<length b1]" "s\<lparr>sw_rgWrites := b1, sw_file := f\<rparr>"] b1(2) by auto
  have len: "length b2 = length (sw_rgWrites s)" using b2(2) by (metis length_map)
  have same: "wb_pb (b2 ! i) = wb_pb (sw_rgWrites s ! i)" if "i < length b2" for i
    using arg_cong [OF b2(2), of "\<lambda>xs. xs ! i"] that len by simp
  have n: "unat (sw_offsetNext s + ucast (sw_cbUsed s)) = ?off + unat (sw_cbUsed s)"
    using assms(3) length_sw_bytes [OF assms(1)] by (simp add: sw_fits_def unat_add_no_wrap)
  have eof: "set_eof (?off + unat (sw_cbUsed s)) f = sw_bytes s"
    using assms(1) length_sw_current [OF assms(1)]
    by (auto simp: f_def set_eof_def sw_bytes_def sw_ok_def write_at_def word_le_nat_alt min_def)
  have "sw_Flush io s = (NO_ERROR, s\<lparr>sw_file := sw_bytes s, sw_rgWrites := b2\<rparr>)"
    using b1 b2 assms(2) eof by (simp add: sw_Flush_def n io_good_def)
  moreover have "take ?off (sw_bytes s) = take ?off (sw_file s)" "?off \<le> length (sw_bytes s)"
    using assms(1) by (simp_all add: sw_bytes_def sw_ok_def)
  ultimately show ?thesis
    using assms(1) len same by (simp add: sw_ok_def sw_bytes_def sw_current_def)
qed

interpretation sw: byte_sink "\<lambda>s xs. sw_ok s \<and> sw_open s \<and> io_good io \<and> sw_bytes s = xs" "\<lambda>xs. length xs < 2 ^ 63" "\<lambda>_. True"
  "sw_Write io" "sw_Flush io" for io
proof
  fix xs ys :: "u8 list"
  assume "length (xs @ ys) < 2 ^ 63"
  then show "length xs < 2 ^ 63" by simp
next
  fix s and xs bs :: "u8 list"
  assume "sw_ok s \<and> sw_open s \<and> io_good io \<and> sw_bytes s = xs" "length (xs @ bs) < 2 ^ 63"
  then show "\<exists>s'. sw_Write io bs s = Inr (NO_ERROR, s') \<and> (sw_ok s' \<and> sw_open s' \<and> io_good io \<and> sw_bytes s' = xs @ bs)"
    using sw_Write_ok [of s io bs 0] by (auto simp: sw_fits_def)
next
  fix s and xs :: "u8 list"
  assume "sw_ok s \<and> sw_open s \<and> io_good io \<and> sw_bytes s = xs" "length xs < 2 ^ 63"
  then show "\<exists>s'. sw_Flush io s = (NO_ERROR, s') \<and> (sw_ok s' \<and> sw_open s' \<and> io_good io \<and> sw_bytes s' = xs)"
    using sw_Flush_ok [of s io] by (auto simp: sw_fits_def)
qed

lemma sw_BytesIssued_ok:
  assumes "sw_ok s" "sw_fits 0 s"
  shows "unat (sw_BytesIssued s) = length (sw_bytes s)" "sw_BytesIssued s = of_nat (length (sw_bytes s))"
proof -
  have "unat (ucast (sw_cbUsed s) + sw_offsetNext s) = unat (ucast (sw_cbUsed s) :: u64) + unat (sw_offsetNext s)"
    using assms length_sw_bytes [of s] by (intro unat_add_no_wrap) (simp add: sw_fits_def)
  then show "unat (sw_BytesIssued s) = length (sw_bytes s)" using length_sw_bytes [OF assms(1)] by (simp add: sw_BytesIssued_def)
  then show "sw_BytesIssued s = of_nat (length (sw_bytes s))" by (metis of_nat_unat ucast_id)
qed

lemma sw_RandomWrite_ok:
  assumes "sw_ok s" "io_good io" "sw_fits 0 s" "unat off + length bs < unat (sw_offsetNext s)"
  shows "\<exists>s'. sw_RandomWrite io off bs s = (NO_ERROR, s') \<and> sw_ok s' \<and> sw_bytes s' = write_at (unat off) bs (sw_bytes s)"
proof -
  obtain s1 where s1: "sw_Flush io s = (NO_ERROR, s1)" "sw_ok s1" "sw_bytes s1 = sw_bytes s" "sw_file s1 = sw_bytes s"
      "sw_current s1 = sw_current s" "sw_cbUsed s1 = sw_cbUsed s" "sw_offsetNext s1 = sw_offsetNext s"
    using sw_Flush_ok [OF assms(1-3)] by blast
  have "unat (of_nat (length bs) :: u64) = length bs"
    using assms(4) unsigned_less [of "sw_offsetNext s", where ?'a = nat] by (simp add: unat_of_nat take_bit_nat_eq_self)
  then have lt: "\<not> off + of_nat (length bs) \<ge> sw_offsetNext s"
    using assms(4) unsigned_less [of "sw_offsetNext s", where ?'a = nat]
    by (simp add: not_le word_less_nat_alt unat_add_no_wrap)
  let ?f = "write_at (unat off) bs (sw_file s1)" and ?o = "unat (sw_offsetNext s)"
  have len: "length ?f = length (sw_file s1)" "?o \<le> length (sw_file s1)" "length (take ?o (sw_file s1)) = ?o"
    using assms(4) s1(2,7) by (simp_all add: write_at_length sw_ok_def)
  have "sw_bytes s = take ?o (sw_file s1) @ take (unat (sw_cbUsed s)) (sw_current s)"
    using s1 by (simp add: sw_bytes_def)
  then have "write_at (unat off) bs (sw_bytes s) = take ?o ?f @ take (unat (sw_cbUsed s)) (sw_current s)"
    using assms(4) len by (simp add: write_at_def min_def take_drop)
  then show ?thesis using lt assms(2) s1 len
    by (simp add: sw_RandomWrite_def io_good_def sw_ok_def sw_bytes_def sw_current_def)
qed

lemma GetAvailable_ok:
  assumes "sw_ok s" "io_good io" "sw_fits 0 s"
  shows "\<exists>s'. GetAvailable io s = (NO_ERROR, sw_cbBufSize s' - sw_cbUsed s', s') \<and> sw_ok s' \<and> sw_bytes s' = sw_bytes s \<and>
    sw_pbWrite s' \<noteq> None \<and> sw_cbUsed s' \<noteq> sw_cbBufSize s' \<and> sw_cbBufSize s' = sw_cbBufSize s \<and> sw_open s' = sw_open s"
proof (cases "sw_pbWrite s = None \<or> sw_cbBufSize s = sw_cbUsed s")
  case True
  then obtain s' where "PrepareNext io s = (NO_ERROR, s')" "sw_ok s'" "sw_bytes s' = sw_bytes s" "sw_cbUsed s' = 0"
      "sw_pbWrite s' = Some (sw_iWrite s')" "sw_cbBufSize s' = sw_cbBufSize s" "sw_open s' = sw_open s"
    using PrepareNext_ok [OF assms(1,2) _ assms(3)] by auto
  then show ?thesis using True by (auto simp: GetAvailable_def sw_ok_def)
next
  case False
  then show ?thesis using assms(1) by (intro exI [of _ s]) (auto simp: GetAvailable_def)
qed

section \<open>Properties\<close>

text \<open>C17.  Whatever the ring of buffers and the system do about when a write completes, a client that opens a file, writes
  and flushes in any order, and closes it finds in the file exactly the bytes it wrote, in order: nothing of the old
  contents and nothing of what an earlier use left in a buffer.\<close>
theorem sequential_writer_appends:
  assumes "io_good io" "cb \<noteq> 0" "1 \<le> n" "n \<le> c_maxWrites" "length (put_data cs) < 2 ^ 63"
  shows "\<exists>s s'. sw_DoInit NO_ERROR old cb n new_APSEQWRITE = (NO_ERROR, s) \<and>
    put_all (sw_Write io) (sw_Flush io) cs s = Inr (NO_ERROR, s') \<and> sw_BytesIssued s' = of_nat (length (put_data cs)) \<and>
    sw_file (sw_DoDispose io s') = put_data cs"
proof -
  obtain s where s: "sw_DoInit NO_ERROR old cb n new_APSEQWRITE = (NO_ERROR, s)" "sw_open s" "sw_ok s" "sw_bytes s = []"
    using sw_DoInit_ok [OF assms(2-4)] by blast
  obtain s' where s': "put_all (sw_Write io) (sw_Flush io) cs s = Inr (NO_ERROR, s')" "sw_ok s'" "sw_open s'" "sw_bytes s' = put_data cs" "sw_fits 0 s'"
    using sw.put_all_ok [of s io "[]" cs] s(2-4) assms(1,5) by (auto simp: sw_fits_def)
  have "sw_file (sw_DoDispose io s') = put_data cs"
    using sw_Flush_ok [OF s'(2) assms(1) s'(5)] s'(3,4) by (auto simp: sw_DoDispose_def)
  moreover have "sw_BytesIssued s' = of_nat (length (put_data cs))"
    using sw_BytesIssued_ok(2) [OF s'(2,5)] s'(4) by simp
  ultimately show ?thesis using s(1) s'(1) by blast
qed

definition io_done :: write_io where
  "io_done = \<lparr>wi_issue = (\<lambda>_. NO_ERROR), wi_wait = (\<lambda>_. NO_ERROR), wi_setEof = NO_ERROR, wi_random = NO_ERROR\<rparr>"

definition io_pending :: write_io where
  "io_pending = io_done\<lparr>wi_issue := (\<lambda>_. ERROR_IO_PENDING)\<rparr>"

lemma io_good_samples: "io_good io_done" "io_good io_pending"
  by (simp_all add: io_good_def io_done_def io_pending_def)

theorem sequential_writer_appends_witness:
  "\<exists>s s'. sw_DoInit NO_ERROR [7, 7, 7, 7, 7, 7, 7, 7, 7, 7] 4 2 new_APSEQWRITE = (NO_ERROR, s) \<and>
    put_all (sw_Write io_pending) (sw_Flush io_pending) [Some [1, 2, 3], None, Some [4, 5, 6]] s = Inr (NO_ERROR, s') \<and>
    sw_BytesIssued s' = 6 \<and> sw_file (sw_DoDispose io_pending s') = [1, 2, 3, 4, 5, 6]"
proof -
  have d: "put_data [Some [1, 2, 3], None, Some [4, 5, 6]] = [1, 2, 3, 4, 5, 6]" by (simp add: put_data_def map_filter_simps)
  show ?thesis
    using sequential_writer_appends [OF io_good_samples(2), of 4 2 "[Some [1, 2, 3], None, Some [4, 5, 6]]" "[7, 7, 7, 7, 7, 7, 7, 7, 7, 7]"]
    unfolding d by (simp add: c_maxWrites_def)
qed

text \<open>C36.  A Write that crosses the end of a buffer and cannot issue it returns the error of the system, but counts the rest of
  its bytes as used all the same: the next Write copies its bytes behind the end of the buffer.\<close>
theorem write_after_failed_write_overruns:
  assumes ok: "sw_ok s" "sw_pbWrite s \<noteq> None" and fail: "wi_issue io (sw_offsetNext s) = ec" "ec \<noteq> NO_ERROR" "ec \<noteq> ERROR_IO_PENDING"
    and bs: "length bs \<le> unat (sw_cbBufSize s)" "unat (sw_cbBufSize s - sw_cbUsed s) < length bs"
    and bs': "bs' \<noteq> []" "length bs' \<le> unat (sw_cbBufSize s)" and small: "unat (sw_cbBufSize s) < 2 ^ 31"
  shows "\<exists>s'. sw_Write io bs s = Inr (ec, s') \<and> sw_Write io' bs' s' = Inl OutOfBounds"
proof -
  let ?B = "sw_cbBufSize s" let ?room = "?B - sw_cbUsed s"
  obtain j where j: "sw_pbWrite s = Some j" using ok(2) by blast
  define rest where "rest = (of_nat (length bs - unat ?room) :: u32)"
  have room: "unat ?room + unat (sw_cbUsed s) = unat ?B" using ok(1) by (simp add: sw_ok_def unat_sub word_le_nat_alt)
  have rest: "unat rest = length bs - unat ?room" using bs(1) small by (simp add: rest_def unat_of_nat take_bit_nat_eq_self)
  obtain s1 where s1: "poke (unat (sw_cbUsed s)) (take (unat ?room) bs) s = Inr s1" "sw_ok s1" "sw_offsetNext s1 = sw_offsetNext s"
      "sw_cbUsed s1 = sw_cbUsed s" "sw_pbWrite s1 = sw_pbWrite s" "sw_cbBufSize s1 = ?B"
    using poke_ok [OF ok le_refl, of "take (unat ?room) bs"] room bs(2) by auto
  define s2 where "s2 = upd_wb (sw_iWrite s1) (\<lambda>b. b\<lparr>wb_offset := sw_offsetNext s\<rparr>) (s1\<lparr>sw_cbUsed := ?B\<rparr>)"
  define s3 where "s3 = s2\<lparr>sw_cbUsed := ?B + rest\<rparr>"
  have "PrepareNext io (s1\<lparr>sw_cbUsed := ?B\<rparr>) = (ec, s2)"
    using ok(2) s1 fail by (auto simp: PrepareNext_def IssueWrite_def s2_def upd_wb_def Let_def)
  moreover have "sw_cbUsed s2 = ?B" by (simp add: s2_def upd_wb_def)
  ultimately have "WriteInternal io bs s = Inr (ec, s3)"
    using j bs s1 fail(2) by (simp add: WriteInternal_def Let_def s3_def rest_def)
  then have "sw_Write io bs s = Inr (ec, s3)" using bs(1) by (simp add: sw_Write_def write_loop.simps)
  moreover have "sw_Write io' bs' s3 = Inl OutOfBounds"
  proof -
    have len: "wb_pb (sw_rgWrites s3 ! sw_iWrite s1) = sw_current s1" "sw_pbWrite s3 = Some (sw_iWrite s1)" "sw_cbBufSize s3 = ?B"
      using s1 ok by (auto simp: s3_def s2_def upd_wb_def sw_ok_def sw_current_def nth_list_update)
    have "unat (?B + rest) = unat ?B + unat rest" using rest bs(1) small by (intro unat_add_no_wrap) simp
    moreover have "\<not> unat (- rest) < length bs'"
    proof
      assume "unat (- rest) < length bs'"
      then have "unat (- rest + rest) = unat (- rest) + unat rest"
        using rest bs(1) bs'(2) small by (intro unat_add_no_wrap) simp
      then show False using rest bs(2) by simp
    qed
    ultimately show ?thesis
      using len bs' length_sw_current [OF s1(2)] s1(6)
      by (simp add: sw_Write_def write_loop.simps WriteInternal_def Let_def poke_def s3_def)
  qed
  ultimately show ?thesis by blast
qed

definition sw_half :: APSEQWRITE where
  "sw_half = \<lparr>sw_open = True, sw_cbBufSize = 4, sw_iWrite = 0, sw_rgWrites = [\<lparr>wb_pb = [1, 2, 0, 0], wb_offset = 0, wb_fWait = False\<rparr>],
     sw_pbWrite = Some 0, sw_cbUsed = 2, sw_offsetNext = 0, sw_file = []\<rparr>"

theorem write_after_failed_write_overruns_witness:
  "\<exists>s'. sw_Write (io_done\<lparr>wi_issue := \<lambda>_. 112\<rparr>) [3, 4, 5] sw_half = Inr (112, s') \<and> sw_Write io_done [6] s' = Inl OutOfBounds"
  by (rule write_after_failed_write_overruns) (simp_all add: sw_half_def sw_ok_def io_done_def win_errors)

end
