(* ===== verification/Seq_Read.thy ===== *)
theory Seq_Read
  imports Seq_Write
begin

text \<open>
  The sequential file reader APSEQREAD (src/src/common/src/apdiskio.cpp): a ring
  of buffers filled ahead of the client by asynchronous reads.  A buffer is
  issued again when the client has moved on to the next one; one that would start
  behind the end of the file is only marked.

  The file is a list of bytes that does not change while it is read.  What the
  operating system answers is the record read_io: the code with which a read at
  an offset is issued, and the code with which a pending one completes.  The
  bytes of a read are in its buffer from the time it is issued; CancelReads, which
  cancels or awaits the pending reads before the buffers are issued again, thus
  changes nothing that the model has.
\<close>

section \<open>State\<close>

record read_io =
  ri_issue :: "u64 \<Rightarrow> u32"
  ri_wait :: "u64 \<Rightarrow> u32"

record READBUFFER =
  rb_pb :: "u8 list"
  rb_offset :: u64
  rb_cbRead :: u32
  rb_fWait :: bool
  rb_fNotEof :: bool

text \<open>
  m_numReads is the number of buffers, m_iRead = -1 is None, and m_pbRead is a
  buffer (None: the null pointer) and an offset in it.
\<close>
record APSEQREAD =
  sr_file :: "u8 list"
  sr_size :: u64
  sr_iRead :: "nat option"
  sr_rgReads :: "READBUFFER list"
  sr_offsetNext :: u64
  sr_readBufSize :: u32
  sr_cbLeft :: u32
  sr_pbRead :: "nat option \<times> nat"
  sr_cbSkip :: u32

definition c_maxReads :: nat where "c_maxReads = 64"
definition c_maxReadsDefault :: nat where "c_maxReadsDefault = 4"
definition c_readBufSize :: u32 where "c_readBufSize = 65536"
definition c_cbReadCopy :: u32 where "c_cbReadCopy = c_readBufSize"

definition new_APSEQREAD :: APSEQREAD where
  "new_APSEQREAD = \<lparr>sr_file = [], sr_size = 0, sr_iRead = None, sr_rgReads = [], sr_offsetNext = 0, sr_readBufSize = 0,
     sr_cbLeft = 0, sr_pbRead = (None, 0), sr_cbSkip = 0\<rparr>"

section \<open>Operations\<close>

definition upd_rb :: "nat \<Rightarrow> (READBUFFER \<Rightarrow> READBUFFER) \<Rightarrow> APSEQREAD \<Rightarrow> APSEQREAD" where
  "upd_rb i f s = s\<lparr>sr_rgReads := (sr_rgReads s)[i := f (sr_rgReads s ! i)]\<rparr>"

definition IssueRead :: "read_io \<Rightarrow> nat \<Rightarrow> APSEQREAD \<Rightarrow> u32 \<times> APSEQREAD" where
  "IssueRead io i s =
     (let off = sr_offsetNext s; ec = ri_issue io off; bs = take (unat (sr_readBufSize s)) (drop (unat off) (sr_file s));
          s = upd_rb i (\<lambda>b. b\<lparr>rb_fNotEof := False, rb_fWait := False\<rparr>) s in
      if off \<ge> sr_size s then (ERROR_HANDLE_EOF, s)
      else let s = upd_rb i (\<lambda>b. b\<lparr>rb_offset := off\<rparr>) s in
      if ec \<noteq> NO_ERROR \<and> ec \<noteq> ERROR_IO_PENDING then (ec, s)
      else (NO_ERROR, (upd_rb i (\<lambda>b. b\<lparr>rb_pb := write_at 0 bs (rb_pb b), rb_cbRead := of_nat (length bs),
                          rb_fWait := (ec = ERROR_IO_PENDING), rb_fNotEof := True\<rparr>) s)
                        \<lparr>sr_offsetNext := off + ucast (sr_readBufSize s)\<rparr>))"

text \<open>ReadNext sets m_pbRead and m_cbLeft, as its only caller asks it to.\<close>
definition NextRead :: "read_io \<Rightarrow> nat \<Rightarrow> APSEQREAD \<Rightarrow> u32 \<times> APSEQREAD" where
  "NextRead io i s =
     (let s = s\<lparr>sr_iRead := Some i\<rparr>; b = sr_rgReads s ! i in
      if \<not> rb_fNotEof b
      then (NO_ERROR, (upd_rb i (\<lambda>b. b\<lparr>rb_cbRead := 0\<rparr>) s)\<lparr>sr_cbLeft := 0, sr_pbRead := (None, 0)\<rparr>)
      else let ec = (if rb_fWait b then ri_wait io (rb_offset b) else NO_ERROR);
               s = upd_rb i (\<lambda>b. b\<lparr>rb_fWait := False\<rparr>) s in
      if ec \<noteq> NO_ERROR then (ec, s)
      else (NO_ERROR, s\<lparr>sr_cbLeft := rb_cbRead b, sr_pbRead := (Some i, 0)\<rparr>))"

definition ReadNext :: "read_io \<Rightarrow> APSEQREAD \<Rightarrow> u32 \<times> APSEQREAD" where
  "ReadNext io s =
     (case sr_iRead s of
        None \<Rightarrow> NextRead io 0 s
      | Some i \<Rightarrow>
          (case IssueRead io i s of (ec, s) \<Rightarrow>
             if ec \<noteq> ERROR_HANDLE_EOF \<and> ec \<noteq> NO_ERROR then (ec, s)
             else NextRead io (if Suc i \<ge> length (sr_rgReads s) then 0 else Suc i) s))"

text \<open>The loop of Reset over the buffers it issues.\<close>
fun issue_all :: "read_io \<Rightarrow> nat list \<Rightarrow> APSEQREAD \<Rightarrow> u32 \<times> APSEQREAD" where
  "issue_all io [] s = (NO_ERROR, s)"
| "issue_all io (i # is) s =
     (case IssueRead io i s of (ec, s) \<Rightarrow>
        if ec \<noteq> NO_ERROR then (if ec = ERROR_HANDLE_EOF then NO_ERROR else ec, s) else issue_all io is s)"

definition sr_Reset :: "read_io \<Rightarrow> u64 \<Rightarrow> APSEQREAD \<Rightarrow> u32 \<times> APSEQREAD" where
  "sr_Reset io pos s =
     (let skip = pos mod ucast (sr_readBufSize s);
          (ec, s) = issue_all io [0..<length (sr_rgReads s)] (s\<lparr>sr_cbSkip := ucast skip, sr_offsetNext := pos - skip\<rparr>) in
      if ec \<noteq> NO_ERROR then (ec, s) else (NO_ERROR, s\<lparr>sr_iRead := None, sr_cbLeft := 0, sr_pbRead := (None, 0)\<rparr>))"

text \<open>sys is the code with which allocating, opening the file and getting its size end.\<close>
definition sr_DoInit :: "read_io \<Rightarrow> u32 \<Rightarrow> u8 list \<Rightarrow> nat \<Rightarrow> u32 \<Rightarrow> APSEQREAD \<Rightarrow> u32 \<times> APSEQREAD" where
  "sr_DoInit io sys file maxReads readBufSize s =
     (let s = s\<lparr>sr_readBufSize := readBufSize\<rparr> in
      if \<not> (maxReads \<le> c_maxReads \<and> maxReads > 1) then (ERROR_INVALID_PARAMETER, s)
      else if sys \<noteq> NO_ERROR then (sys, s)
      else sr_Reset io 0 (s\<lparr>sr_file := file, sr_size := of_nat (length file),
             sr_rgReads := replicate maxReads \<lparr>rb_pb = replicate (unat readBufSize) 0, rb_offset = 0, rb_cbRead = 0,
                rb_fWait = False, rb_fNotEof = False\<rparr>\<rparr>))"

definition sr_FileSize :: "APSEQREAD \<Rightarrow> u64" where
  "sr_FileSize s = sr_size s"

text \<open>The n bytes m_pbRead points to.\<close>
definition peek :: "nat \<Rightarrow> APSEQREAD \<Rightarrow> u8 list res" where
  "peek n s =
     (if n = 0 then Inr []
      else case sr_pbRead s of
        (None, off) \<Rightarrow> Inl OutOfBounds
      | (Some i, off) \<Rightarrow>
          (let pb = rb_pb (sr_rgReads s ! i) in
           if off + n \<le> length pb then Inr (take n (drop off pb)) else Inl OutOfBounds))"

definition sr_advance :: "u32 \<Rightarrow> APSEQREAD \<Rightarrow> APSEQREAD" where
  "sr_advance n s = s\<lparr>sr_pbRead := (fst (sr_pbRead s), snd (sr_pbRead s) + unat n), sr_cbLeft := sr_cbLeft s - n\<rparr>"

text \<open>
  GetDataPointer, whose result is the code and the bytes the returned pointer
  points to; part says that the caller passed pcbRead, and takes fewer bytes than
  it asks for.  The bytes saved in m_rgb are a local value: every call that uses
  m_rgb fills it first.
\<close>
definition take_next :: "bool \<Rightarrow> u32 \<Rightarrow> u32 \<Rightarrow> u8 list \<Rightarrow> APSEQREAD \<Rightarrow> (u32 \<times> u8 list \<times> APSEQREAD) res" where
  "take_next part cb cbSaved saved s =
     (let short = (sr_cbLeft s + cbSaved < cb); cb = (if short then sr_cbLeft s + cbSaved else cb) in
      if short \<and> (\<not> part \<or> cb = 0) then Inr (ERROR_HANDLE_EOF, [], s)
      else bindE (peek (unat (cb - cbSaved)) s) (\<lambda>bs. Inr (NO_ERROR, saved @ bs, sr_advance (cb - cbSaved) s)))"

definition GetDataPointer :: "read_io \<Rightarrow> bool \<Rightarrow> u32 \<Rightarrow> APSEQREAD \<Rightarrow> (u32 \<times> u8 list \<times> APSEQREAD) res" where
  "GetDataPointer io part cb s =
     (let large = (sr_cbLeft s < cb \<and> sr_cbLeft s > c_cbReadCopy) in
      if large \<and> \<not> part then Inr (ERROR_INVALID_PARAMETER, [], s)
      else let cb = (if large then sr_cbLeft s else cb); cbSaved = sr_cbLeft s in
      if cbSaved < cb
      then let limit = (cbSaved > 0 \<and> cb > c_cbReadCopy) in
           if limit \<and> \<not> part then Inr (ERROR_INVALID_PARAMETER, [], s)
           else bindE (peek (unat cbSaved) s) (\<lambda>saved.
           let (ec, s) = ReadNext io s in
           if ec \<noteq> NO_ERROR then Inr (ec, [], s)
           else take_next part (if limit then c_cbReadCopy else cb) cbSaved saved
                  (if sr_cbSkip s \<noteq> 0 then (sr_advance (sr_cbSkip s) s)\<lparr>sr_cbSkip := 0\<rparr> else s))
      else bindE (peek (unat cb) s) (\<lambda>bs. Inr (NO_ERROR, bs, sr_advance cb s)))"

definition sr_GetData :: "read_io \<Rightarrow> u32 \<Rightarrow> APSEQREAD \<Rightarrow> (u32 \<times> u8 list \<times> APSEQREAD) res" where
  "sr_GetData io cb s = GetDataPointer io False cb s"

definition sr_Skip :: "read_io \<Rightarrow> u32 \<Rightarrow> APSEQREAD \<Rightarrow> (u32 \<times> APSEQREAD) res" where
  "sr_Skip io n s =
     (if sr_cbLeft s > n then Inr (NO_ERROR, sr_advance n s)
      else if n < sr_readBufSize s
      then bindE (GetDataPointer io False (n - sr_cbLeft s) (s\<lparr>sr_cbLeft := 0\<rparr>)) (\<lambda>(ec, bs, s). Inr (ec, s))
      else Inr (sr_Reset io (sr_offsetNext s + ucast (sr_cbLeft s) + ucast n) s))"

section \<open>What is left to read\<close>

text \<open>
  A buffer holds the block of the file at offset q.  When there is no such block it is
  marked; after a Reset this may not be so, and st says whether it is required.
\<close>
definition sr_block :: "bool \<Rightarrow> APSEQREAD \<Rightarrow> nat \<Rightarrow> READBUFFER \<Rightarrow> bool" where
  "sr_block st s q b \<longleftrightarrow> (st \<longrightarrow> rb_fNotEof b \<longrightarrow> q < length (sr_file s)) \<and> (q < length (sr_file s) \<longrightarrow> rb_fNotEof b \<and>
     (let bs = take (unat (sr_readBufSize s)) (drop q (sr_file s)) in take (length bs) (rb_pb b) = bs \<and> unat (rb_cbRead b) = length bs))"

text \<open>The m buffers of the ring from j on hold the m blocks of the file from p on, and the next block is the one to issue.\<close>
definition sr_ring :: "bool \<Rightarrow> APSEQREAD \<Rightarrow> nat \<Rightarrow> nat \<Rightarrow> nat \<Rightarrow> bool" where
  "sr_ring st s j m p \<longleftrightarrow>
     (let B = unat (sr_readBufSize s); n = length (sr_rgReads s) in
      (\<forall>k<m. sr_block st s (p + k * B) (sr_rgReads s ! ((j + k) mod n))) \<and>
      (if unat (sr_offsetNext s) < length (sr_file s) then unat (sr_offsetNext s) = p + m * B else length (sr_file s) \<le> p + m * B))"

definition sr_wf :: "APSEQREAD \<Rightarrow> bool" where
  "sr_wf s \<longleftrightarrow> 1 < length (sr_rgReads s) \<and> (\<forall>i. sr_iRead s = Some i \<longrightarrow> i < length (sr_rgReads s)) \<and>
     0 < unat (sr_readBufSize s) \<and> unat (sr_readBufSize s) < 2 ^ 31 \<and> length (sr_file s) < 2 ^ 63 \<and> sr_size s = of_nat (length (sr_file s)) \<and>
     (\<forall>i < length (sr_rgReads s). length (rb_pb (sr_rgReads s ! i)) = unat (sr_readBufSize s))"

definition sr_start :: "APSEQREAD \<Rightarrow> nat" where
  "sr_start s = (case sr_iRead s of None \<Rightarrow> 0 | Some i \<Rightarrow> Suc i)"

definition sr_ahead :: "APSEQREAD \<Rightarrow> nat" where
  "sr_ahead s = (case sr_iRead s of None \<Rightarrow> length (sr_rgReads s) | Some i \<Rightarrow> length (sr_rgReads s) - 1)"

definition sr_left :: "APSEQREAD \<Rightarrow> u8 list" where
  "sr_left s = (case fst (sr_pbRead s) of None \<Rightarrow> []
     | Some i \<Rightarrow> take (unat (sr_cbLeft s)) (drop (snd (sr_pbRead s)) (rb_pb (sr_rgReads s ! i))))"

definition sr_left_ok :: "APSEQREAD \<Rightarrow> bool" where
  "sr_left_ok s \<longleftrightarrow> sr_cbLeft s = 0 \<or>
     (\<exists>i. sr_iRead s = Some i \<and> fst (sr_pbRead s) = Some i \<and> snd (sr_pbRead s) + unat (sr_cbLeft s) \<le> unat (sr_readBufSize s))"

text \<open>The reader has the bytes r before it.\<close>
definition sr_is :: "APSEQREAD \<Rightarrow> u8 list \<Rightarrow> bool" where
  "sr_is s r \<longleftrightarrow> sr_wf s \<and> sr_left_ok s \<and>
     (\<exists>p. sr_ring True s (sr_start s) (sr_ahead s) p \<and> r = sr_left s @ drop (p + unat (sr_cbSkip s)) (sr_file s) \<and>
        (sr_cbSkip s = 0 \<or> sr_cbLeft s = 0 \<and> unat (sr_cbSkip s) < unat (sr_readBufSize s) \<and> p + unat (sr_cbSkip s) \<le> length (sr_file s)))"

definition read_good :: "read_io \<Rightarrow> bool" where
  "read_good io \<longleftrightarrow> (\<forall>off. ri_issue io off \<in> {NO_ERROR, ERROR_IO_PENDING} \<and> ri_wait io off = NO_ERROR)"

lemma sr_size_unat: "sr_wf s \<Longrightarrow> unat (sr_size s) = length (sr_file s)"
  by (simp add: sr_wf_def unat_of_nat take_bit_nat_eq_self)

lemma write_at_0_take: "length bs \<le> length f \<Longrightarrow> take (length bs) (write_at 0 bs f) = bs"
  by (simp add: write_at_def)

lemma sr_block_cong: "sr_file s' = sr_file s \<Longrightarrow> sr_readBufSize s' = sr_readBufSize s \<Longrightarrow> sr_block st s' = sr_block st s"
  by (intro ext) (simp add: sr_block_def)

lemma sr_ring_weak: "sr_ring True s j m p \<Longrightarrow> sr_ring st s j m p"
  by (auto simp: sr_ring_def sr_block_def Let_def)

lemma sr_ring_cong:
  "sr_file s' = sr_file s \<Longrightarrow> sr_readBufSize s' = sr_readBufSize s \<Longrightarrow> sr_rgReads s' = sr_rgReads s \<Longrightarrow>
   sr_offsetNext s' = sr_offsetNext s \<Longrightarrow> sr_ring st s' = sr_ring st s"
  using sr_block_cong [of s' s] by (intro ext) (simp add: sr_ring_def)

text \<open>What the operations below leave alone.\<close>
definition sr_frame :: "APSEQREAD \<Rightarrow> APSEQREAD \<Rightarrow> bool" where
  "sr_frame s s' \<longleftrightarrow> sr_file s' = sr_file s \<and> sr_readBufSize s' = sr_readBufSize s \<and> sr_cbSkip s' = sr_cbSkip s \<and>
     sr_size s' = sr_size s \<and> length (sr_rgReads s') = length (sr_rgReads s) \<and>
     (\<forall>i < length (sr_rgReads s). length (rb_pb (sr_rgReads s ! i)) = unat (sr_readBufSize s) \<longrightarrow>
        length (rb_pb (sr_rgReads s' ! i)) = unat (sr_readBufSize s))"

lemma sr_frame_trans: "sr_frame s s' \<Longrightarrow> sr_frame s' s'' \<Longrightarrow> sr_frame s s''"
  by (simp add: sr_frame_def)

lemma nth_update: "k < length xs \<Longrightarrow> xs[i := x] ! k = (if k = i then x else xs ! k)"
  by auto

lemma ring_index_inj: "(j + k) mod n = (j + m) mod n \<Longrightarrow> k < m \<Longrightarrow> m < n \<Longrightarrow> False" for n :: nat
  using mod_eq_dvd_iff_nat [of "j + k" "j + m" n] dvd_imp_le [of n "m - k"] by auto

lemma IssueRead_frame: "sr_frame s (snd (IssueRead io i s)) \<and> sr_iRead (snd (IssueRead io i s)) = sr_iRead s \<and>
    (\<forall>k. k \<noteq> i \<longrightarrow> sr_rgReads (snd (IssueRead io i s)) ! k = sr_rgReads s ! k)"
  by (auto simp: IssueRead_def Let_def upd_rb_def sr_frame_def nth_update write_at_length)

lemma IssueRead_ok:
  assumes wf: "sr_wf s" and io: "read_good io" and ring: "sr_ring st s j m p" "m < length (sr_rgReads s)"
    and i: "i = (j + m) mod length (sr_rgReads s)"
  shows "fst (IssueRead io i s) = (if sr_offsetNext s \<ge> sr_size s then ERROR_HANDLE_EOF else NO_ERROR) \<and>
    sr_ring st (snd (IssueRead io i s)) j (Suc m) p"
proof -
  let ?B = "unat (sr_readBufSize s)" and ?off = "unat (sr_offsetNext s)" and ?n = "length (sr_rgReads s)"
  let ?s = "snd (IssueRead io i s)"
  have n: "i < ?n" using i ring(2) by (metis less_nat_zero_code mod_less_divisor neq0_conv)
  have fr: "sr_file ?s = sr_file s" "sr_readBufSize ?s = sr_readBufSize s" "length (sr_rgReads ?s) = ?n"
      "sr_block st ?s = sr_block st s"
    using IssueRead_frame [of s io i] by (auto simp: sr_frame_def intro!: sr_block_cong)
  have other: "sr_rgReads ?s ! ((j + k) mod ?n) = sr_rgReads s ! ((j + k) mod ?n)" if "k < m" for k
  proof -
    have "(j + k) mod ?n \<noteq> i" using ring_index_inj [OF _ that ring(2)] i by metis
    then show ?thesis using IssueRead_frame [of s io i] by simp
  qed
  have le: "sr_offsetNext s \<ge> sr_size s \<longleftrightarrow> length (sr_file s) \<le> ?off" using sr_size_unat [OF wf] by (simp add: word_le_nat_alt)
  have good: "ri_issue io (sr_offsetNext s) = NO_ERROR \<or> ri_issue io (sr_offsetNext s) = ERROR_IO_PENDING"
    using io by (auto simp: read_good_def)
  have old: "\<And>k. k < m \<Longrightarrow> sr_block st s (p + k * ?B) (sr_rgReads s ! ((j + k) mod ?n))"
    using ring(1) by (simp add: sr_ring_def Let_def)
  show ?thesis
  proof (cases "sr_offsetNext s \<ge> sr_size s")
    case True
    then have "length (sr_file s) \<le> p + m * ?B" using ring(1) le by (auto simp: sr_ring_def Let_def)
    then have "sr_block st s (p + m * ?B) (sr_rgReads ?s ! i)"
      using True n by (simp add: IssueRead_def Let_def upd_rb_def sr_block_def)
    moreover have "sr_offsetNext ?s = sr_offsetNext s" "fst (IssueRead io i s) = ERROR_HANDLE_EOF"
      using True by (simp_all add: IssueRead_def Let_def upd_rb_def)
    ultimately show ?thesis
      using True le old other i fr \<open>length (sr_file s) \<le> p + m * ?B\<close>
      by (simp add: sr_ring_def less_Suc_eq all_conj_distrib)
  next
    case False
    then have lt: "?off < length (sr_file s)" "?off = p + m * ?B" using ring(1) le by (auto simp: sr_ring_def Let_def)
    let ?bs = "take ?B (drop ?off (sr_file s))"
    have bs: "length ?bs \<le> length (rb_pb (sr_rgReads s ! i))" using wf n by (simp add: sr_wf_def)
    have cb: "unat (of_nat (length ?bs) :: u32) = length ?bs"
      using unsigned_less [of "sr_readBufSize s", where ?'a = nat] by (simp add: unat_of_nat take_bit_nat_eq_self)
    have "sr_block st s ?off (sr_rgReads ?s ! i)"
      using False n good bs cb lt(1) write_at_0_take [OF bs]
      by (auto simp: IssueRead_def Let_def upd_rb_def sr_block_def)
    moreover have "sr_offsetNext ?s = sr_offsetNext s + ucast (sr_readBufSize s)"
      using False good by (auto simp: IssueRead_def Let_def upd_rb_def)
    then have "unat (sr_offsetNext ?s) = ?off + ?B"
      using lt(1) wf unsigned_less [of "sr_readBufSize s", where ?'a = nat] by (simp add: unat_add_no_wrap sr_wf_def)
    moreover have "fst (IssueRead io i s) = NO_ERROR" using False good by (auto simp: IssueRead_def Let_def upd_rb_def)
    ultimately show ?thesis
      using False old other i fr lt(2)
      by (simp add: sr_ring_def less_Suc_eq all_conj_distrib)
  qed
qed

lemma sr_wf_frame: "sr_wf s \<Longrightarrow> sr_frame s s' \<Longrightarrow> (\<And>i. sr_iRead s' = Some i \<Longrightarrow> i < length (sr_rgReads s)) \<Longrightarrow> sr_wf s'"
  by (simp add: sr_wf_def sr_frame_def)

lemma NextRead_frame: "sr_frame s (snd (NextRead io i s)) \<and> sr_iRead (snd (NextRead io i s)) = Some i"
  by (auto simp: NextRead_def Let_def upd_rb_def sr_frame_def nth_update)

lemma NextRead_ok:
  assumes wf: "sr_wf s" and io: "read_good io" and ring: "sr_ring st s i (length (sr_rgReads s)) p" "i < length (sr_rgReads s)"
    and here: "st \<or> p < length (sr_file s)"
  shows "\<exists>s'. NextRead io i s = (NO_ERROR, s') \<and> sr_left_ok s' \<and>
    sr_ring st s' (Suc i) (length (sr_rgReads s) - 1) (p + unat (sr_readBufSize s)) \<and>
    sr_left s' = take (unat (sr_readBufSize s)) (drop p (sr_file s)) \<and> unat (sr_cbLeft s') = length (sr_left s')"
proof -
  let ?B = "unat (sr_readBufSize s)" and ?n = "length (sr_rgReads s)" and ?b = "sr_rgReads s ! i"
  let ?s = "snd (NextRead io i s)"
  have fr: "sr_file ?s = sr_file s" "sr_readBufSize ?s = sr_readBufSize s" "length (sr_rgReads ?s) = ?n"
      "sr_block st ?s = sr_block st s"
    using NextRead_frame [of s io i] by (auto simp: sr_frame_def intro!: sr_block_cong)
  have blk: "\<And>k. k < ?n \<Longrightarrow> sr_block st s (p + k * ?B) (sr_rgReads s ! ((i + k) mod ?n))"
    using ring(1) by (simp add: sr_ring_def Let_def)
  have hd: "sr_block st s p ?b" using blk [of 0] ring(2) by (cases "sr_rgReads s = []") auto
  have other: "k \<noteq> i \<Longrightarrow> sr_rgReads ?s ! k = sr_rgReads s ! k" for k
    by (simp add: NextRead_def Let_def upd_rb_def)
  have ok: "fst (NextRead io i s) = NO_ERROR" using io by (auto simp: NextRead_def Let_def read_good_def)
  have "sr_ring st ?s (Suc i) (?n - 1) (p + ?B)"
  proof -
    have "sr_block st s (p + ?B + k * ?B) (sr_rgReads ?s ! ((Suc i + k) mod ?n))" if "k < ?n - 1" for k
    proof -
      have "Suc k < ?n" using that by simp
      moreover then have "(i + Suc k) mod ?n \<noteq> i" using ring_index_inj [of i 0 ?n "Suc k"] ring(2) by auto
      ultimately show ?thesis using blk [of "Suc k"] other by (simp add: algebra_simps)
    qed
    moreover have "?B + (?n - 1) * ?B = ?n * ?B" using ring(2) by (cases ?n) auto
    moreover have "sr_offsetNext ?s = sr_offsetNext s" by (simp add: NextRead_def Let_def upd_rb_def)
    ultimately show ?thesis using ring(1) fr by (simp add: sr_ring_def Let_def add.assoc)
  qed
  moreover have "sr_left_ok ?s \<and> sr_left ?s = take ?B (drop p (sr_file s)) \<and> unat (sr_cbLeft ?s) = length (sr_left ?s)"
  proof (cases "rb_fNotEof ?b")
    case True
    then show ?thesis using hd here ring(2) wf io
      by (auto simp: NextRead_def Let_def read_good_def upd_rb_def sr_left_ok_def sr_left_def sr_block_def sr_wf_def)
  next
    case False
    then show ?thesis using hd here by (auto simp: NextRead_def Let_def upd_rb_def sr_left_ok_def sr_left_def sr_block_def)
  qed
  ultimately show ?thesis using ok by (metis prod.collapse)
qed

lemma ReadNext_ok:
  assumes "sr_wf s" "read_good io" "sr_ring st s (sr_start s) (sr_ahead s) p" "st \<or> p < length (sr_file s)"
  shows "\<exists>s'. ReadNext io s = (NO_ERROR, s') \<and> sr_wf s' \<and> sr_left_ok s' \<and>
    sr_ring st s' (sr_start s') (sr_ahead s') (p + unat (sr_readBufSize s)) \<and>
    sr_left s' = take (unat (sr_readBufSize s)) (drop p (sr_file s)) \<and> unat (sr_cbLeft s') = length (sr_left s') \<and>
    sr_file s' = sr_file s \<and> sr_cbSkip s' = sr_cbSkip s \<and> sr_readBufSize s' = sr_readBufSize s"
proof -
  obtain i s1 where s1: "ReadNext io s = NextRead io i s1" "sr_wf s1" "sr_ring st s1 i (length (sr_rgReads s1)) p"
      "i < length (sr_rgReads s1)" "sr_frame s s1"
  proof (cases "sr_iRead s")
    case None
    then have "sr_rgReads s \<noteq> []" "sr_ring st s 0 (length (sr_rgReads s)) p"
      using assms(1,3) by (auto simp: sr_start_def sr_ahead_def sr_wf_def)
    then show thesis using that [of 0 s] assms(1) None by (auto simp: ReadNext_def sr_frame_def)
  next
    case (Some i)
    let ?n = "length (sr_rgReads s)" and ?s = "snd (IssueRead io i s)"
    have n: "i < ?n" "1 < ?n" using assms(1) Some by (auto simp: sr_wf_def)
    have "Suc i + (?n - 1) = i + ?n" using n by simp
    then have "i = (Suc i + (?n - 1)) mod ?n" "Suc (?n - 1) = ?n" using n by simp_all
    then have iss: "fst (IssueRead io i s) \<in> {ERROR_HANDLE_EOF, NO_ERROR}" "sr_ring st ?s (Suc i) ?n p"
      using IssueRead_ok [OF assms(1,2), of st "Suc i" "?n - 1" p i] assms(3) Some n by (auto simp: sr_start_def sr_ahead_def)
    have fr: "sr_frame s ?s" "sr_iRead ?s = Some i" using IssueRead_frame [of s io i] Some by auto
    then have wf: "sr_wf ?s" "length (sr_rgReads ?s) = ?n" using sr_wf_frame [OF assms(1) fr(1)] n by (auto simp: sr_frame_def)
    let ?j = "if Suc i \<ge> ?n then 0 else Suc i"
    have "(?j + k) mod ?n = (Suc i + k) mod ?n" for k using n by (cases "Suc i = ?n") auto
    then have "sr_ring st ?s ?j ?n p" using iss(2) wf(2) unfolding sr_ring_def Let_def by simp
    moreover have "ReadNext io s = NextRead io ?j ?s" using iss(1) Some wf(2) by (auto simp: ReadNext_def split: prod.split)
    moreover have "?j < ?n" using n by (cases "sr_rgReads s") auto
    ultimately show thesis using that [of ?j ?s] wf fr(1) by simp
  qed
  obtain s' where s': "NextRead io i s1 = (NO_ERROR, s')" "sr_left_ok s'"
      "sr_ring st s' (Suc i) (length (sr_rgReads s1) - 1) (p + unat (sr_readBufSize s1))"
      "sr_left s' = take (unat (sr_readBufSize s1)) (drop p (sr_file s1))" "unat (sr_cbLeft s') = length (sr_left s')"
    using NextRead_ok [OF s1(2) assms(2) s1(3,4)] assms(4) s1(5) by (auto simp: sr_frame_def)
  have fr: "sr_frame s1 s'" "sr_iRead s' = Some i" using NextRead_frame [of s1 io i] s'(1) by auto
  moreover then have "sr_wf s'" using sr_wf_frame [OF s1(2) fr(1)] s1(4) by auto
  ultimately show ?thesis using s1(1,5) s' by (simp add: sr_start_def sr_ahead_def sr_frame_def)
qed

text \<open>
  Reset at p, a multiple of the size of a buffer: the buffers it does not come to
  because of the end of the file have to be marked already.
\<close>
lemma issue_all_ok:
  assumes "read_good io" "sr_wf s" "sr_ring st s 0 m p" "m \<le> length (sr_rgReads s)"
    and "st \<longrightarrow> (\<forall>k < length (sr_rgReads s). length (sr_file s) + unat (sr_readBufSize s) \<le> p + k * unat (sr_readBufSize s) \<longrightarrow>
      \<not> rb_fNotEof (sr_rgReads s ! k))"
  shows "\<exists>s'. issue_all io [m..<length (sr_rgReads s)] s = (NO_ERROR, s') \<and> sr_frame s s' \<and> sr_iRead s' = sr_iRead s \<and>
    sr_ring st s' 0 (length (sr_rgReads s)) p"
  using assms(2-5)
proof (induction "length (sr_rgReads s) - m" arbitrary: m s)
  case 0
  then show ?case by (simp add: sr_frame_def)
next
  case (Suc d)
  let ?n = "length (sr_rgReads s)" and ?B = "unat (sr_readBufSize s)" and ?s = "snd (IssueRead io m s)"
  have m: "m < ?n" "[m..<?n] = m # [Suc m..<?n]" using Suc.hyps(2) by (auto simp: upt_conv_Cons)
  have fr: "sr_frame s ?s" "sr_iRead ?s = sr_iRead s" "\<And>k. k \<noteq> m \<Longrightarrow> sr_rgReads ?s ! k = sr_rgReads s ! k"
    using IssueRead_frame [of s io m] by auto
  have same: "sr_file ?s = sr_file s" "sr_readBufSize ?s = sr_readBufSize s" "length (sr_rgReads ?s) = ?n"
    using fr(1) by (auto simp: sr_frame_def)
  have iss: "fst (IssueRead io m s) = (if sr_offsetNext s \<ge> sr_size s then ERROR_HANDLE_EOF else NO_ERROR)" "sr_ring st ?s 0 (Suc m) p"
    using IssueRead_ok [OF Suc.prems(1) assms(1) Suc.prems(2) m(1)] m(1) by auto
  show ?case
  proof (cases "sr_offsetNext s \<ge> sr_size s")
    case False
    have "st \<longrightarrow> (\<forall>k < ?n. length (sr_file s) + ?B \<le> p + k * ?B \<longrightarrow> \<not> rb_fNotEof (sr_rgReads ?s ! k))"
    proof (intro allI impI)
      fix k assume "k < ?n" "length (sr_file s) + ?B \<le> p + k * ?B" st
      then show "\<not> rb_fNotEof (sr_rgReads ?s ! k)"
      proof (cases "k = m")
        case True
        have "sr_block st ?s (p + m * ?B) (sr_rgReads ?s ! (m mod ?n))" using iss(2) same by (simp add: sr_ring_def Let_def)
        then show ?thesis using \<open>st\<close> \<open>length (sr_file s) + ?B \<le> p + k * ?B\<close> True m(1) same(1) by (auto simp: sr_block_def)
      next
        case False
        then show ?thesis using Suc.prems(4) fr(3) [of k] \<open>st\<close> \<open>k < ?n\<close> \<open>length (sr_file s) + ?B \<le> p + k * ?B\<close> by simp
      qed
    qed
    moreover have d: "d = ?n - Suc m" using Suc.hyps(2) by simp
    ultimately obtain s' where "issue_all io [Suc m..<?n] ?s = (NO_ERROR, s')" "sr_frame ?s s'" "sr_iRead s' = sr_iRead ?s" "sr_ring st s' 0 ?n p"
      using Suc.hyps(1) [of ?s "Suc m"] d sr_wf_frame [OF Suc.prems(1) fr(1)] Suc.prems(1) fr(2) iss(2) m(1) same
      by (auto simp: sr_wf_def)
    then show ?thesis using False fr m(2) iss(1) sr_frame_trans [OF fr(1)] by (auto split: prod.split)
  next
    case True
    have "length (sr_file s) \<le> p + m * ?B"
      using True Suc.prems(2) sr_size_unat [OF Suc.prems(1)] by (auto simp: sr_ring_def Let_def word_le_nat_alt split: if_splits)
    then have "sr_block st ?s (p + k * ?B) (sr_rgReads ?s ! k)" if "k < ?n" for k
    proof (cases "k \<le> m")
      case True
      have "\<forall>k < Suc m. sr_block st ?s (p + k * ?B) (sr_rgReads ?s ! (k mod ?n))"
        using iss(2) same by (simp add: sr_ring_def Let_def)
      then show ?thesis using True that by (metis less_Suc_eq_le mod_less)
    next
      case False
      then have "m * ?B + ?B \<le> k * ?B" using mult_le_mono1 [of "Suc m" k ?B] by simp
      then have "length (sr_file s) + ?B \<le> p + k * ?B" using \<open>length (sr_file s) \<le> p + m * ?B\<close> by simp
      then show ?thesis using Suc.prems(4) that fr(3) [of k] False same by (simp add: sr_block_def)
    qed
    moreover have "sr_offsetNext ?s = sr_offsetNext s" using True by (simp add: IssueRead_def upd_rb_def)
    moreover have "length (sr_file s) \<le> p + ?n * ?B"
      using \<open>length (sr_file s) \<le> p + m * ?B\<close> m(1) by (meson add_left_mono less_imp_le mult_le_mono1 order_trans)
    ultimately have "sr_ring st ?s 0 ?n p"
      using True same sr_size_unat [OF Suc.prems(1)] by (simp add: sr_ring_def word_le_nat_alt)
    then show ?thesis using True fr m(2) iss(1) by (auto simp: win_errors split: prod.split)
  qed
qed

lemma sr_Reset_ring:
  assumes "read_good io" "sr_wf s"
    and "st \<longrightarrow> (\<forall>k < length (sr_rgReads s). length (sr_file s) + unat (sr_readBufSize s) \<le>
      unat pos div unat (sr_readBufSize s) * unat (sr_readBufSize s) + k * unat (sr_readBufSize s) \<longrightarrow> \<not> rb_fNotEof (sr_rgReads s ! k))"
  shows "\<exists>s'. sr_Reset io pos s = (NO_ERROR, s') \<and> sr_wf s' \<and> sr_iRead s' = None \<and> sr_cbLeft s' = 0 \<and> sr_pbRead s' = (None, 0) \<and>
    unat (sr_cbSkip s') = unat pos mod unat (sr_readBufSize s) \<and> sr_frame (s\<lparr>sr_cbSkip := sr_cbSkip s'\<rparr>) s' \<and>
    sr_ring st s' 0 (length (sr_rgReads s)) (unat pos div unat (sr_readBufSize s) * unat (sr_readBufSize s))"
proof -
  let ?B = "unat (sr_readBufSize s)" and ?n = "length (sr_rgReads s)"
  define skip where "skip = pos mod ucast (sr_readBufSize s)"
  have skip: "unat skip = unat pos mod ?B" by (simp add: skip_def unat_mod)
  have lt: "unat pos mod ?B < ?B" using assms(2) by (simp add: sr_wf_def)
  then have skip32: "unat (ucast skip :: u32) = unat pos mod ?B"
    using skip unsigned_less [of "sr_readBufSize s", where ?'a = nat] by (simp add: unsigned_ucast_eq take_bit_nat_eq_self)
  have "skip \<le> pos" using skip by (simp add: word_le_nat_alt)
  then have off: "unat (pos - skip) = unat pos div ?B * ?B" using skip by (simp add: unat_sub minus_mod_eq_div_mult)
  let ?s = "s\<lparr>sr_cbSkip := ucast skip, sr_offsetNext := pos - skip\<rparr>"
  have "sr_wf ?s" using assms(2) by (simp add: sr_wf_def)
  moreover have "sr_ring st ?s 0 0 (unat pos div ?B * ?B)" using off by (simp add: sr_ring_def)
  ultimately obtain s1 where s1: "issue_all io [0..<?n] ?s = (NO_ERROR, s1)" "sr_frame ?s s1" "sr_ring st s1 0 ?n (unat pos div ?B * ?B)"
    using issue_all_ok [OF assms(1), of ?s st 0] assms(3) by auto
  let ?s' = "s1\<lparr>sr_iRead := None, sr_cbLeft := 0, sr_pbRead := (None, 0)\<rparr>"
  have res: "sr_Reset io pos s = (NO_ERROR, ?s')" using s1(1) by (simp add: sr_Reset_def Let_def skip_def)
  have ring: "sr_ring st ?s' 0 ?n (unat pos div ?B * ?B)"
    using s1(3) sr_ring_cong [of ?s' s1] by simp
  have wf: "sr_wf ?s'" using assms(2) s1(2) by (simp add: sr_wf_def sr_frame_def)
  moreover have "sr_frame (s\<lparr>sr_cbSkip := sr_cbSkip ?s'\<rparr>) ?s'" "sr_cbSkip ?s' = ucast skip" using s1(2) by (simp_all add: sr_frame_def)
  ultimately show ?thesis using res ring skip32 by (intro exI [of _ ?s']) simp
qed

lemma sr_Reset_ok:
  assumes "read_good io" "sr_wf s" "unat pos \<le> length (sr_file s)"
    and "\<forall>k < length (sr_rgReads s). length (sr_file s) + unat (sr_readBufSize s) \<le>
      unat pos div unat (sr_readBufSize s) * unat (sr_readBufSize s) + k * unat (sr_readBufSize s) \<longrightarrow> \<not> rb_fNotEof (sr_rgReads s ! k)"
  shows "\<exists>s'. sr_Reset io pos s = (NO_ERROR, s') \<and> sr_is s' (drop (unat pos) (sr_file s)) \<and> sr_frame (s\<lparr>sr_cbSkip := sr_cbSkip s'\<rparr>) s' \<and>
    sr_ring True s' 0 (length (sr_rgReads s)) (unat pos div unat (sr_readBufSize s) * unat (sr_readBufSize s)) \<and>
    sr_iRead s' = None \<and> sr_cbLeft s' = 0 \<and> unat (sr_cbSkip s') = unat pos mod unat (sr_readBufSize s)"
proof -
  let ?B = "unat (sr_readBufSize s)" and ?n = "length (sr_rgReads s)"
  obtain s' where s': "sr_Reset io pos s = (NO_ERROR, s')" "sr_wf s'" "sr_iRead s' = None" "sr_cbLeft s' = 0" "sr_pbRead s' = (None, 0)"
      "unat (sr_cbSkip s') = unat pos mod ?B" "sr_frame (s\<lparr>sr_cbSkip := sr_cbSkip s'\<rparr>) s'" "sr_ring True s' 0 ?n (unat pos div ?B * ?B)"
    using sr_Reset_ring [OF assms(1,2), of True pos] assms(4) by blast
  have "unat pos mod ?B < ?B" using assms(2) by (simp add: sr_wf_def)
  then have "sr_is s' (drop (unat pos) (sr_file s))"
    using s' assms(3)
    by (auto simp: sr_is_def sr_left_ok_def sr_start_def sr_ahead_def sr_left_def sr_frame_def intro!: exI [of _ "unat pos div ?B * ?B"])
  then show ?thesis using s' by blast
qed

lemma sr_DoInit_ok:
  assumes "read_good io" "1 < n" "n \<le> c_maxReads" "B \<noteq> 0" "unat B < 2 ^ 31" "length f < 2 ^ 63"
  shows "\<exists>s. sr_DoInit io NO_ERROR f n B new_APSEQREAD = (NO_ERROR, s) \<and> sr_is s f \<and> sr_ring True s 0 n 0 \<and>
    sr_file s = f \<and> sr_readBufSize s = B \<and> length (sr_rgReads s) = n \<and> sr_iRead s = None \<and> sr_cbLeft s = 0 \<and> sr_cbSkip s = 0"
proof -
  define s0 where "s0 = new_APSEQREAD\<lparr>sr_readBufSize := B, sr_file := f, sr_size := of_nat (length f),
    sr_rgReads := replicate n \<lparr>rb_pb = replicate (unat B) 0, rb_offset = 0, rb_cbRead = 0, rb_fWait = False, rb_fNotEof = False\<rparr>\<rparr>"
  have f: "sr_file s0 = f" "sr_readBufSize s0 = B" "length (sr_rgReads s0) = n" "\<forall>k<n. \<not> rb_fNotEof (sr_rgReads s0 ! k)"
    by (simp_all add: s0_def)
  have "sr_wf s0" using assms by (simp add: s0_def sr_wf_def new_APSEQREAD_def unat_gt_0)
  then obtain s where "sr_Reset io 0 s0 = (NO_ERROR, s)" "sr_is s f" "sr_frame (s0\<lparr>sr_cbSkip := sr_cbSkip s\<rparr>) s" "sr_ring True s 0 n 0"
      "sr_iRead s = None" "sr_cbLeft s = 0" "unat (sr_cbSkip s) = 0"
    using sr_Reset_ok [OF assms(1), of s0 0] f by auto
  moreover have "sr_DoInit io NO_ERROR f n B new_APSEQREAD = sr_Reset io 0 s0"
    using assms(2,3) by (simp add: sr_DoInit_def s0_def)
  ultimately show ?thesis using f by (auto simp: sr_frame_def unat_eq_0)
qed

lemma length_sr_left: "sr_wf s \<Longrightarrow> sr_left_ok s \<Longrightarrow> length (sr_left s) = unat (sr_cbLeft s)"
  by (auto simp: sr_wf_def sr_left_ok_def sr_left_def split: option.split)

lemma sr_is_left: "sr_is s r \<Longrightarrow> sr_wf s \<and> sr_left_ok s \<and> (\<exists>r2. r = sr_left s @ r2)"
  by (auto simp: sr_is_def)

lemma sr_advance_ok:
  assumes "sr_wf s" "sr_left_ok s" "unat n \<le> unat (sr_cbLeft s)"
  shows "peek (unat n) s = Inr (take (unat n) (sr_left s))" "sr_left (sr_advance n s) = drop (unat n) (sr_left s)"
    "sr_left_ok (sr_advance n s)" "sr_wf (sr_advance n s)"
proof -
  have sub: "unat (sr_cbLeft s - n) = unat (sr_cbLeft s) - unat n" using assms(3) by (simp add: unat_sub word_le_nat_alt)
  show "peek (unat n) s = Inr (take (unat n) (sr_left s))"
    using assms by (auto simp: peek_def sr_left_ok_def sr_wf_def sr_left_def min_def split: prod.split)
  show "sr_left (sr_advance n s) = drop (unat n) (sr_left s)"
    using sub by (simp add: sr_left_def sr_advance_def drop_take add.commute split: option.split)
  show "sr_left_ok (sr_advance n s)" using assms(2,3) sub by (auto simp: sr_left_ok_def sr_advance_def unat_eq_0)
  show "sr_wf (sr_advance n s)" using assms(1) by (simp add: sr_wf_def sr_advance_def)
qed

lemma sr_ring_advance: "sr_ring st ((sr_advance n s)\<lparr>sr_cbSkip := k\<rparr>) = sr_ring st s" "sr_ring st (sr_advance n s) = sr_ring st s"
  by (rule sr_ring_cong; simp add: sr_advance_def)+

lemma sr_advance_same [simp]:
  "sr_start (sr_advance n s) = sr_start s" "sr_ahead (sr_advance n s) = sr_ahead s" "sr_cbSkip (sr_advance n s) = sr_cbSkip s"
  "sr_file (sr_advance n s) = sr_file s" "sr_readBufSize (sr_advance n s) = sr_readBufSize s"
  by (simp_all add: sr_start_def sr_ahead_def sr_advance_def split: option.split)

lemma sr_advance_is:
  assumes "sr_is s r" "unat n \<le> unat (sr_cbLeft s)" "sr_cbSkip s = 0"
  shows "peek (unat n) s = Inr (take (unat n) r)" "sr_is (sr_advance n s) (drop (unat n) r)" "unat n \<le> length r"
proof -
  obtain p where p: "sr_wf s" "sr_left_ok s" "sr_ring True s (sr_start s) (sr_ahead s) p" "r = sr_left s @ drop p (sr_file s)"
    using assms(1,3) by (auto simp: sr_is_def)
  note adv = sr_advance_ok [OF p(1,2) assms(2)]
  have len: "unat n \<le> length (sr_left s)" using length_sr_left [OF p(1,2)] assms(2) by simp
  then show "peek (unat n) s = Inr (take (unat n) r)" "unat n \<le> length r" using adv(1) p(4) by simp_all
  show "sr_is (sr_advance n s) (drop (unat n) r)"
    unfolding sr_is_def using adv p len assms(3) by (auto simp: sr_ring_advance)
qed

lemma refill_ok:
  assumes "sr_is s r" "read_good io"
  shows "\<exists>s1 s2 r2. ReadNext io s = (NO_ERROR, s1) \<and>
    s2 = (if sr_cbSkip s1 \<noteq> 0 then (sr_advance (sr_cbSkip s1) s1)\<lparr>sr_cbSkip := 0\<rparr> else s1) \<and> sr_is s2 r2 \<and> r = sr_left s @ r2 \<and>
    sr_cbSkip s2 = 0 \<and> (sr_left s2 = [] \<longrightarrow> r2 = []) \<and> sr_readBufSize s2 = sr_readBufSize s \<and>
    (sr_cbSkip s = 0 \<longrightarrow> length (sr_left s2) = min (unat (sr_readBufSize s)) (length r2))"
proof -
  obtain p where p: "sr_wf s" "sr_left_ok s" "sr_ring True s (sr_start s) (sr_ahead s) p" "r = sr_left s @ drop (p + unat (sr_cbSkip s)) (sr_file s)"
      "sr_cbSkip s = 0 \<or> unat (sr_cbSkip s) < unat (sr_readBufSize s) \<and> p + unat (sr_cbSkip s) \<le> length (sr_file s)"
    using assms(1) by (auto simp: sr_is_def)
  let ?B = "unat (sr_readBufSize s)" and ?k = "unat (sr_cbSkip s)"
  obtain s1 where s1: "ReadNext io s = (NO_ERROR, s1)" "sr_wf s1" "sr_left_ok s1" "sr_ring True s1 (sr_start s1) (sr_ahead s1) (p + ?B)"
      "sr_left s1 = take ?B (drop p (sr_file s))" "unat (sr_cbLeft s1) = length (sr_left s1)"
      "sr_file s1 = sr_file s" "sr_cbSkip s1 = sr_cbSkip s" "sr_readBufSize s1 = sr_readBufSize s"
    using ReadNext_ok [OF p(1) assms(2) p(3)] by blast
  define s2 where "s2 = (if sr_cbSkip s1 \<noteq> 0 then (sr_advance (sr_cbSkip s1) s1)\<lparr>sr_cbSkip := 0\<rparr> else s1)"
  have k: "?k \<le> unat (sr_cbLeft s1)" "?k < ?B" using p(1,5) s1(5,6) by (auto simp: sr_wf_def)
  note adv = sr_advance_ok [OF s1(2,3), of "sr_cbSkip s1"]
  have s2: "sr_left s2 = drop ?k (sr_left s1)" "sr_left_ok s2" "sr_wf s2" "sr_cbSkip s2 = 0" "sr_readBufSize s2 = sr_readBufSize s"
      "sr_file s2 = sr_file s" "sr_ring True s2 (sr_start s2) (sr_ahead s2) (p + ?B)"
  proof -
    have f: "sr_left (s\<lparr>sr_cbSkip := x\<rparr>) = sr_left s" "sr_left_ok (s\<lparr>sr_cbSkip := x\<rparr>) = sr_left_ok s" "sr_wf (s\<lparr>sr_cbSkip := x\<rparr>) = sr_wf s"
      "sr_start (s\<lparr>sr_cbSkip := x\<rparr>) = sr_start s" "sr_ahead (s\<lparr>sr_cbSkip := x\<rparr>) = sr_ahead s" for s x
      by (simp_all add: sr_left_def sr_left_ok_def sr_wf_def sr_start_def sr_ahead_def split: option.split)
    show "sr_left s2 = drop ?k (sr_left s1)" "sr_left_ok s2" "sr_wf s2" "sr_cbSkip s2 = 0" "sr_readBufSize s2 = sr_readBufSize s"
        "sr_file s2 = sr_file s" "sr_ring True s2 (sr_start s2) (sr_ahead s2) (p + ?B)"
      using adv s1 k(1) by (auto simp: s2_def f sr_ring_advance)
  qed
  have split: "drop (p + ?k) (sr_file s) = sr_left s2 @ drop (p + ?B) (sr_file s)"
    using append_take_drop_id [of "?B - ?k" "drop (p + ?k) (sr_file s)"] k(2) s1(5) s2(1) by (simp add: drop_take add.commute)
  have "sr_is s2 (drop (p + ?k) (sr_file s))" using s2 split by (auto simp: sr_is_def)
  moreover have "sr_left s2 = [] \<longrightarrow> drop (p + ?k) (sr_file s) = []" using s2(1) s1(5) k(2) by (auto simp: drop_take)
  moreover have "?k = 0 \<longrightarrow> length (sr_left s2) = min ?B (length (drop (p + ?k) (sr_file s)))" using s2(1) s1(5) by auto
  ultimately show ?thesis
    using s1(1) s2(4,5) p(4) by (intro exI [of _ s1] exI [of _ s2] exI [of _ "drop (p + ?k) (sr_file s)"]) (simp add: s2_def)
qed

text \<open>
  What the clients of a source do: ask again until they have n bytes or an error
  comes, k the number of rounds they may make.
\<close>
fun fill :: "(u32 \<Rightarrow> 's \<Rightarrow> (u32 \<times> u8 list \<times> 's) res) \<Rightarrow> nat \<Rightarrow> u32 \<Rightarrow> 's \<Rightarrow> (u32 \<times> u8 list \<times> 's) res" where
  "fill get k n s =
     (if n = 0 then Inr (NO_ERROR, [], s)
      else case k of
             0 \<Rightarrow> Inl OutOfFuel
           | Suc k \<Rightarrow>
               bindE (get n s) (\<lambda>(ec, bs, s).
               if ec \<noteq> NO_ERROR then Inr (ec, [], s)
               else bindE (fill get k (n - of_nat (length bs)) s) (\<lambda>(ec, more, s). Inr (ec, bs @ more, s))))"

declare fill.simps [simp del]

text \<open>A source of bytes: what its clients rely on when they read.\<close>
locale byte_source =
  fixes src :: "'s \<Rightarrow> u8 list \<Rightarrow> bool" and get :: "u32 \<Rightarrow> 's \<Rightarrow> (u32 \<times> u8 list \<times> 's) res"
  assumes get_eof: "src s [] \<Longrightarrow> n \<noteq> 0 \<Longrightarrow> \<exists>s'. get n s = Inr (ERROR_HANDLE_EOF, [], s') \<and> src s' []"
    and get_some: "src s r \<Longrightarrow> r \<noteq> [] \<Longrightarrow> n \<noteq> 0 \<Longrightarrow>
      \<exists>bs r' s'. get n s = Inr (NO_ERROR, bs, s') \<and> bs \<noteq> [] \<and> length bs \<le> unat n \<and> r = bs @ r' \<and> src s' r'"
begin

lemma fill_ok:
  "src s r \<Longrightarrow> unat n \<le> k \<Longrightarrow>
   \<exists>s'. fill get k n s = Inr (if length r < unat n then ERROR_HANDLE_EOF else NO_ERROR, take (unat n) r, s') \<and> src s' (drop (unat n) r)"
proof (induction k arbitrary: n s r)
  case 0
  then show ?case by (simp add: fill.simps unat_eq_0)
next
  case (Suc k)
  show ?case
  proof (cases "n = 0 \<or> r = []")
    case True
    then show ?thesis using get_eof [of s n] Suc.prems(1) by (auto simp: fill.simps win_errors unat_gt_0)
  next
    case False
    then obtain bs r' s1 where s1: "get n s = Inr (NO_ERROR, bs, s1)" "bs \<noteq> []" "length bs \<le> unat n" "r = bs @ r'" "src s1 r'"
      using get_some [of s r n] Suc.prems(1) by blast
    let ?m = "n - of_nat (length bs)"
    have "unat (of_nat (length bs) :: u32) = length bs"
      using s1(3) unsigned_less [of n, where ?'a = nat] by (simp add: unat_of_nat take_bit_nat_eq_self)
    then have m: "unat ?m = unat n - length bs" using s1(3) by (simp add: unat_sub word_le_nat_alt)
    moreover have "unat ?m \<le> k" using Suc.prems(2) s1(2) m by (cases bs) auto
    ultimately obtain s' where "fill get k ?m s1 = Inr (if length r' < unat ?m then ERROR_HANDLE_EOF else NO_ERROR, take (unat ?m) r', s')"
        "src s' (drop (unat ?m) r')"
      using Suc.IH [OF s1(5), of ?m] by blast
    then show ?thesis using False s1(1,3,4) m by (auto simp: fill.simps [of get "Suc k"] less_diff_conv2)
  qed
qed

end

lemma sr_is_no_skip: "sr_is s r \<Longrightarrow> sr_cbLeft s \<noteq> 0 \<Longrightarrow> sr_cbSkip s = 0"
  by (auto simp: sr_is_def)

text \<open>GetDataPointer when the current buffer has enough, and when the next one has to be read.\<close>
lemma GetDataPointer_have:
  assumes "sr_is s r" "cb \<noteq> 0" "cb \<le> sr_cbLeft s"
  shows "GetDataPointer io part cb s = Inr (NO_ERROR, take (unat cb) r, sr_advance cb s) \<and> sr_is (sr_advance cb s) (drop (unat cb) r) \<and>
    unat cb \<le> length r"
proof -
  have c: "sr_cbLeft s \<noteq> 0" "unat cb \<le> unat (sr_cbLeft s)" "\<not> sr_cbLeft s < cb" using assms(2,3) by (auto simp: word_le_nat_alt unat_eq_0 not_less)
  show ?thesis using sr_advance_is [OF assms(1) c(2) sr_is_no_skip [OF assms(1) c(1)]] c(3) by (simp add: GetDataPointer_def)
qed

lemma GetDataPointer_refill:
  assumes "sr_is s r" "read_good io" "sr_cbLeft s < cb" "sr_cbLeft s \<le> c_cbReadCopy" "part \<or> cb \<le> c_cbReadCopy"
  shows "\<exists>s2 r2 c n. r = sr_left s @ r2 \<and> sr_is s2 r2 \<and> (sr_left s2 = [] \<longrightarrow> r2 = []) \<and> sr_readBufSize s2 = sr_readBufSize s \<and>
    (sr_cbSkip s = 0 \<longrightarrow> length (sr_left s2) = min (unat (sr_readBufSize s)) (length r2)) \<and>
    c = (if sr_cbLeft s > 0 \<and> cb > c_cbReadCopy then c_cbReadCopy else cb) \<and> sr_cbSkip s2 = 0 \<and>
    n = min (unat c - unat (sr_cbLeft s)) (length (sr_left s2)) \<and>
    GetDataPointer io part cb s =
      (if length (sr_left s) + length (sr_left s2) < unat c \<and> (\<not> part \<or> sr_left s @ sr_left s2 = []) then Inr (ERROR_HANDLE_EOF, [], s2)
       else Inr (NO_ERROR, sr_left s @ take n r2, sr_advance (of_nat n) s2)) \<and> sr_is (sr_advance (of_nat n) s2) (drop n r2)"
proof -
  obtain s1 s2 r2 where R: "ReadNext io s = (NO_ERROR, s1)"
      "s2 = (if sr_cbSkip s1 \<noteq> 0 then (sr_advance (sr_cbSkip s1) s1)\<lparr>sr_cbSkip := 0\<rparr> else s1)" "sr_is s2 r2" "r = sr_left s @ r2"
      "sr_cbSkip s2 = 0" "sr_left s2 = [] \<longrightarrow> r2 = []" "sr_readBufSize s2 = sr_readBufSize s"
      "sr_cbSkip s = 0 \<longrightarrow> length (sr_left s2) = min (unat (sr_readBufSize s)) (length r2)"
    using refill_ok [OF assms(1,2)] by blast
  define c where "c = (if sr_cbLeft s > 0 \<and> cb > c_cbReadCopy then c_cbReadCopy else cb)"
  let ?L = "unat (sr_cbLeft s)" and ?M = "unat (sr_cbLeft s2)"
  define n where "n = min (unat c - ?L) ?M"
  define m where "m = (if sr_cbLeft s2 + sr_cbLeft s < c then sr_cbLeft s2 + sr_cbLeft s else c)"
  have left: "length (sr_left s) = ?L" "length (sr_left s2) = ?M" "peek ?L s = Inr (sr_left s)"
    using sr_is_left [OF assms(1)] sr_is_left [OF R(3)] length_sr_left sr_advance_ok(1) [of s "sr_cbLeft s"] by auto
  have "?M < 2 ^ 31" using sr_is_left [OF R(3)] by (auto simp: sr_wf_def sr_left_ok_def)
  moreover have "?L \<le> 65536" using assms(4) by (simp add: word_le_nat_alt c_cbReadCopy_def c_readBufSize_def)
  ultimately have sum: "unat (sr_cbLeft s2 + sr_cbLeft s) = ?M + ?L" by (intro unat_add_no_wrap) simp
  have c: "?L \<le> unat c" using assms(3,4) by (auto simp: c_def word_less_nat_alt word_le_nat_alt)
  have m: "unat m = n + ?L" using sum c by (auto simp: m_def n_def word_less_nat_alt min_def)
  then have sub: "unat (m - sr_cbLeft s) = n" by (simp add: unat_sub word_le_nat_alt)
  then have mn: "m - sr_cbLeft s = of_nat n" by (metis of_nat_unat ucast_id)
  then have small: "n \<le> ?M" "unat (of_nat n :: u32) = n" using sub by (simp_all add: n_def)
  note adv = sr_advance_is [OF R(3) _ R(5), of "of_nat n", unfolded small(2), OF small(1)]
  have "GetDataPointer io part cb s = take_next part c (sr_cbLeft s) (sr_left s) s2"
    using assms(3-5) by (auto simp: GetDataPointer_def Let_def left(3) R(1) R(2) c_def)
  then have "GetDataPointer io part cb s =
      (if sr_cbLeft s2 + sr_cbLeft s < c \<and> (\<not> part \<or> m = 0) then Inr (ERROR_HANDLE_EOF, [], s2)
       else bindE (peek (unat (m - sr_cbLeft s)) s2) (\<lambda>bs. Inr (NO_ERROR, sr_left s @ bs, sr_advance (m - sr_cbLeft s) s2)))"
    unfolding take_next_def Let_def m_def [symmetric] by simp
  moreover have "sr_cbLeft s2 + sr_cbLeft s < c \<longleftrightarrow> ?L + ?M < unat c" using sum by (simp add: word_less_nat_alt add.commute)
  moreover have "m = 0 \<longleftrightarrow> sr_left s @ sr_left s2 = []" if "?L + ?M < unat c"
  proof -
    have "n = ?M" using that by (simp add: n_def)
    then show ?thesis using m left(1,2) by (metis add_is_0 append_is_Nil_conv length_0_conv unat_eq_0)
  qed
  ultimately have "GetDataPointer io part cb s =
      (if length (sr_left s) + length (sr_left s2) < unat c \<and> (\<not> part \<or> sr_left s @ sr_left s2 = []) then Inr (ERROR_HANDLE_EOF, [], s2)
       else Inr (NO_ERROR, sr_left s @ take n r2, sr_advance (of_nat n) s2))"
    using adv left sub mn by (cases "?L + ?M < unat c") (simp_all del: append_is_Nil_conv)
  then show ?thesis using R adv left(2) by (intro exI [of _ s2] exI [of _ r2] exI [of _ c] exI [of _ n]) (simp add: c_def n_def)
qed

lemma GetDataPointer_part:
  assumes "sr_is s r" "read_good io" "cb \<noteq> 0"
  shows "if r = [] then \<exists>s'. GetDataPointer io True cb s = Inr (ERROR_HANDLE_EOF, [], s') \<and> sr_is s' []
    else \<exists>bs r' s'. GetDataPointer io True cb s = Inr (NO_ERROR, bs, s') \<and> bs \<noteq> [] \<and> length bs \<le> unat cb \<and> r = bs @ r' \<and> sr_is s' r'"
proof (cases "sr_cbLeft s < cb")
  case False
  then show ?thesis using GetDataPointer_have [OF assms(1,3), of io True] assms(3)
    by (auto simp: not_less unat_eq_0 intro!: exI [of _ "take (unat cb) r"] exI [of _ "drop (unat cb) r"])
next
  case less: True
  show ?thesis
  proof (cases "sr_cbLeft s \<le> c_cbReadCopy")
    case False
    then have "GetDataPointer io True cb s = GetDataPointer io True (sr_cbLeft s) s" using less by (simp add: GetDataPointer_def not_le)
    moreover have "sr_cbLeft s \<noteq> 0" using False by auto
    ultimately show ?thesis using GetDataPointer_have [OF assms(1), of "sr_cbLeft s" io True] less
      by (auto simp: unat_eq_0 word_less_nat_alt intro!: exI [of _ "take (unat (sr_cbLeft s)) r"] exI [of _ "drop (unat (sr_cbLeft s)) r"])
  next
    case True
    obtain s2 r2 c n where R: "r = sr_left s @ r2" "sr_is s2 r2" "sr_left s2 = [] \<longrightarrow> r2 = []"
      "c = (if sr_cbLeft s > 0 \<and> cb > c_cbReadCopy then c_cbReadCopy else cb)" "n = min (unat c - unat (sr_cbLeft s)) (length (sr_left s2))"
      "GetDataPointer io True cb s =
        (if length (sr_left s) + length (sr_left s2) < unat c \<and> sr_left s @ sr_left s2 = [] then Inr (ERROR_HANDLE_EOF, [], s2)
         else Inr (NO_ERROR, sr_left s @ take n r2, sr_advance (of_nat n) s2))" "sr_is (sr_advance (of_nat n) s2) (drop n r2)"
      using GetDataPointer_refill [OF assms(1,2) less True, of True] by auto
    have len: "length (sr_left s) = unat (sr_cbLeft s)" "length (sr_left s2) \<le> length r2"
      using sr_is_left [OF assms(1)] sr_is_left [OF R(2)] length_sr_left [of s] by auto
    have c: "unat (sr_cbLeft s) \<le> unat c" "unat c \<le> unat cb" "0 < unat c"
      using less True assms(3) by (auto simp: R(4) word_less_nat_alt word_le_nat_alt c_cbReadCopy_def c_readBufSize_def unat_gt_0)
    show ?thesis
    proof (cases "r = []")
      case True
      then show ?thesis using R(1,2,6) len c(3) by auto
    next
      case False
      then have ne: "sr_left s @ sr_left s2 \<noteq> []" using R(1,3) by auto
      then have "sr_left s @ take n r2 \<noteq> []" using R(5) len c by (auto simp: min_def split: if_splits)
      moreover have "length (sr_left s @ take n r2) \<le> unat cb" using len c R(5) by (auto simp: min_def)
      moreover have "r = (sr_left s @ take n r2) @ drop n r2" using R(1) by simp
      ultimately show ?thesis using False R(6,7) ne by metis
    qed
  qed
qed

text \<open>GetData, whose caller wants all the bytes: they may span two buffers.\<close>
lemma sr_GetData_ok:
  assumes "sr_is s r" "read_good io" "cb \<noteq> 0" "unat cb \<le> length r" "cb \<le> sr_readBufSize s" "cb \<le> c_cbReadCopy" "sr_cbSkip s = 0"
  shows "\<exists>s'. sr_GetData io cb s = Inr (NO_ERROR, take (unat cb) r, s') \<and> sr_is s' (drop (unat cb) r)"
proof (cases "sr_cbLeft s < cb")
  case False
  then show ?thesis using GetDataPointer_have [OF assms(1,3), of io False] by (auto simp: sr_GetData_def)
next
  case True
  then have "sr_cbLeft s \<le> c_cbReadCopy" using assms(6) by auto
  then obtain s2 r2 c n where R: "r = sr_left s @ r2" "sr_cbSkip s = 0 \<longrightarrow> length (sr_left s2) = min (unat (sr_readBufSize s)) (length r2)"
      "c = (if sr_cbLeft s > 0 \<and> cb > c_cbReadCopy then c_cbReadCopy else cb)" "n = min (unat c - unat (sr_cbLeft s)) (length (sr_left s2))"
      "GetDataPointer io False cb s =
        (if length (sr_left s) + length (sr_left s2) < unat c \<and> (\<not> False \<or> sr_left s @ sr_left s2 = []) then Inr (ERROR_HANDLE_EOF, [], s2)
         else Inr (NO_ERROR, sr_left s @ take n r2, sr_advance (of_nat n) s2))" "sr_is (sr_advance (of_nat n) s2) (drop n r2)"
    using GetDataPointer_refill [OF assms(1,2) True, of False] assms(6) by blast
  have "c = cb" using R(3) assms(6) by auto
  moreover have "length (sr_left s) = unat (sr_cbLeft s)" using sr_is_left [OF assms(1)] length_sr_left by auto
  moreover have "unat cb \<le> length (sr_left s) + length (sr_left s2)" using assms(4,5,7) R(1,2) by (auto simp: word_le_nat_alt min_def)
  ultimately show ?thesis using R True assms(7) by (auto simp: sr_GetData_def word_less_nat_alt min_def)
qed

interpretation sr: byte_source "\<lambda>s r. sr_is s r \<and> read_good io" "GetDataPointer io True" for io
proof
  fix s and n :: u32
  assume "sr_is s [] \<and> read_good io" "n \<noteq> 0"
  then show "\<exists>s'. GetDataPointer io True n s = Inr (ERROR_HANDLE_EOF, [], s') \<and> sr_is s' [] \<and> read_good io"
    using GetDataPointer_part [of s "[]" io n] by simp
next
  fix s r and n :: u32
  assume "sr_is s r \<and> read_good io" "r \<noteq> []" "n \<noteq> 0"
  then show "\<exists>bs r' s'. GetDataPointer io True n s = Inr (NO_ERROR, bs, s') \<and> bs \<noteq> [] \<and> length bs \<le> unat n \<and> r = bs @ r' \<and>
      sr_is s' r' \<and> read_good io"
    using GetDataPointer_part [of s r io n] by simp
qed

section \<open>Properties\<close>

text \<open>A client that asks for ns bytes one after the other, and what a cursor on the file gives it.\<close>
fun fills :: "(u32 \<Rightarrow> 's \<Rightarrow> (u32 \<times> u8 list \<times> 's) res) \<Rightarrow> u32 list \<Rightarrow> 's \<Rightarrow> (u32 \<times> u8 list) list res" where
  "fills get [] s = Inr []"
| "fills get (n # ns) s = bindE (fill get (unat n) n s) (\<lambda>(ec, bs, s). bindE (fills get ns s) (\<lambda>rs. Inr ((ec, bs) # rs)))"

fun cursor :: "u32 list \<Rightarrow> u8 list \<Rightarrow> (u32 \<times> u8 list) list" where
  "cursor [] f = []"
| "cursor (n # ns) f = (if length f < unat n then ERROR_HANDLE_EOF else NO_ERROR, take (unat n) f) # cursor ns (drop (unat n) f)"

lemma fills_cursor: "sr_is s r \<Longrightarrow> read_good io \<Longrightarrow> fills (GetDataPointer io True) ns s = Inr (cursor ns r)"
proof (induction ns arbitrary: s r)
  case (Cons n ns)
  then obtain s' where "fill (GetDataPointer io True) (unat n) n s =
      Inr (if length r < unat n then ERROR_HANDLE_EOF else NO_ERROR, take (unat n) r, s')" "sr_is s' (drop (unat n) r)"
    using sr.fill_ok [of s r io n "unat n"] by auto
  then show ?case using Cons.IH [of s' "drop (unat n) r"] Cons.prems(2) by simp
qed simp

text \<open>C18.  A sequential reader that has been opened by DoInit is a forward cursor on its file: whatever the number and the
  size of its buffers, and however the client divides its reads, it gets the bytes of the file in order, then the end of the
  file, and nothing after it.  Reset and Skip are not part of this.\<close>
theorem sequential_reader_delivers:
  assumes "read_good io" "1 < n" "n \<le> c_maxReads" "B \<noteq> 0" "unat B < 2 ^ 31" "length f < 2 ^ 63"
  shows "\<exists>s. sr_DoInit io NO_ERROR f n B new_APSEQREAD = (NO_ERROR, s) \<and> fills (GetDataPointer io True) ns s = Inr (cursor ns f)"
  using sr_DoInit_ok [OF assms] fills_cursor [OF _ assms(1)] by blast

definition read_pending :: read_io where
  "read_pending = \<lparr>ri_issue = (\<lambda>_. ERROR_IO_PENDING), ri_wait = (\<lambda>_. NO_ERROR)\<rparr>"

lemma read_good_sample: "read_good read_pending"
  by (simp add: read_good_def read_pending_def)

theorem sequential_reader_delivers_witness:
  "\<exists>s. sr_DoInit read_pending NO_ERROR [1, 2, 3, 4, 5, 6, 7] 2 3 new_APSEQREAD = (NO_ERROR, s) \<and>
    fills (GetDataPointer read_pending True) [2, 3, 4, 1] s =
      Inr [(NO_ERROR, [1, 2]), (NO_ERROR, [3, 4, 5]), (ERROR_HANDLE_EOF, [6, 7]), (ERROR_HANDLE_EOF, [])]"
proof -
  have "cursor [2, 3, 4, 1] [1, 2, 3, 4, 5, 6, 7] =
      [(NO_ERROR, [1, 2]), (NO_ERROR, [3, 4, 5]), (ERROR_HANDLE_EOF, [6, 7]), (ERROR_HANDLE_EOF, [])]"
    by simp
  then show ?thesis
    using sequential_reader_delivers [OF read_good_sample, of 2 3 "[1, 2, 3, 4, 5, 6, 7]" "[2, 3, 4, 1]"]
    by (simp add: c_maxReads_def)
qed

text \<open>
  Reset stops at the first buffer behind the end of the file and leaves the marks
  of the later ones as they are.  In a ring of four buffers of four bytes, a
  client that goes back to offset 8 of a file of 14 bytes and reads one byte, then four and four more,
  gets the last bytes of the file and then, instead of the end, bytes 12 and 13 again.
\<close>
lemma reset_rereads:
  "(let f = map of_nat [0..<14]; s = snd (sr_Reset read_pending 8 (snd (sr_DoInit read_pending NO_ERROR f 4 4 new_APSEQREAD))) in
    fills (GetDataPointer read_pending True) [1, 4, 4] s) =
    Inr [(NO_ERROR, [8]), (NO_ERROR, [9, 10, 11, 12]), (ERROR_HANDLE_EOF, [13, 12, 13])]"
  by code_simp

text \<open>Skip goes on from where the reads ahead have come to, and not from where the client is: here to byte 16 and not to byte 8.\<close>
lemma skip_overshoots:
  "(let f = map of_nat [0..<100]; s = snd (sr_DoInit read_pending NO_ERROR f 2 4 new_APSEQREAD) in
    bindE (sr_Skip read_pending 8 s) (\<lambda>(ec, s). fills (GetDataPointer read_pending True) [1] s)) = Inr [(NO_ERROR, [16])]"
  by code_simp

end
