(* ===== verification/Checkpoint_Stream.thy ===== *)
theory Checkpoint_Stream
  imports Seq_Read Fingerprint Pages
begin

text \<open>
  The streams a state machine saves and loads its state through
  (RSLCheckpointStreamWriter and RSLCheckpointStreamReader of rsl.cpp), on top of
  the sequential writer and reader.  Behind the header, the file is a sequence of
  blocks of m_checksumBlockSize bytes, each ended by the fingerprint of its data;
  the last one may be shorter.  A header with m_checksumBlockSize = 0 is an old
  one: the data are in the file as they are.

  What Init reads of the checkpoint's header are its arguments: GetMarshalLen,
  m_checksumBlockSize and m_size.  little and al are the byte order of the
  machine and the alignment of a pointer, on which the fingerprint's fast path
  depends and its value does not.
\<close>

definition CHECKSUM_SIZE :: u32 where "CHECKSUM_SIZE = 8"
definition s_ChecksumBlockSize :: u32 where "s_ChecksumBlockSize = 4 * 1024 * 1024"

section \<open>The writer\<close>

record cp_writer =
  cw_writer :: APSEQWRITE
  cw_available :: u32
  cw_buffer :: "nat option \<times> nat"
  cw_written :: u32
  cw_defaultBlockSize :: u32
  cw_dataWrittenOffset :: u32
  cw_checksum :: u64

definition new_cp_writer :: cp_writer where
  "new_cp_writer = \<lparr>cw_writer = new_APSEQWRITE, cw_available = 0, cw_buffer = (None, 0), cw_written = 0, cw_defaultBlockSize = 0,
     cw_dataWrittenOffset = 0, cw_checksum = 0\<rparr>"

text \<open>memcpy into a buffer of the sequential writer.\<close>
definition poke_at :: "nat option \<Rightarrow> nat \<Rightarrow> u8 list \<Rightarrow> APSEQWRITE \<Rightarrow> APSEQWRITE res" where
  "poke_at p off bs s =
     (case p of
        None \<Rightarrow> Inl OutOfBounds
      | Some i \<Rightarrow>
          if off + length bs \<le> length (wb_pb (sw_rgWrites s ! i))
          then Inr (upd_wb i (\<lambda>b. b\<lparr>wb_pb := write_at off bs (wb_pb b)\<rparr>) s)
          else Inl OutOfBounds)"

text \<open>m_writer->GetAvailable(&m_buffer, &m_available), m_writer->CommitAvailable(n) and m_writer->Write.\<close>
definition cw_GetAvailable :: "write_io \<Rightarrow> cp_writer \<Rightarrow> u32 \<times> cp_writer" where
  "cw_GetAvailable io w =
     (case GetAvailable io (cw_writer w) of (ec, n, s) \<Rightarrow>
        (ec, w\<lparr>cw_writer := s, cw_available := n, cw_buffer := (sw_pbWrite s, unat (sw_cbUsed s))\<rparr>))"

definition cw_Commit :: "u32 \<Rightarrow> cp_writer \<Rightarrow> u32 \<times> cp_writer" where
  "cw_Commit n w = (case CommitAvailable n (cw_writer w) of (ec, s) \<Rightarrow> (ec, w\<lparr>cw_writer := s\<rparr>))"

definition cw_WriteChecksum :: "write_io \<Rightarrow> cp_writer \<Rightarrow> (u32 \<times> cp_writer) res" where
  "cw_WriteChecksum io w =
     bindE (sw_Write io (le_bytes 8 (cw_checksum w)) (cw_writer w)) (\<lambda>(ec, s). Inr (ec, w\<lparr>cw_writer := s\<rparr>))"

text \<open>The loop of Init that leaves room for the header.\<close>
fun cw_reserve :: "write_io \<Rightarrow> nat \<Rightarrow> u64 \<Rightarrow> cp_writer \<Rightarrow> (u32 \<times> cp_writer) res" where
  "cw_reserve io k offset w =
     (if offset = 0 then Inr (NO_ERROR, w)
      else case k of
             0 \<Rightarrow> Inl OutOfFuel
           | Suc k \<Rightarrow>
               let (ec, w) = cw_GetAvailable io w in
               if ec \<noteq> NO_ERROR then Inr (ec, w)
               else let n = (if offset > ucast (cw_available w) then ucast (cw_available w) else offset);
                        (ec, w) = cw_Commit (ucast n) w in
               if ec \<noteq> NO_ERROR then Inr (ec, w) else cw_reserve io k (offset - n) w)"

declare cw_reserve.simps [simp del]

definition cw_Init :: "write_io \<Rightarrow> u32 \<Rightarrow> u8 list \<Rightarrow> u32 \<Rightarrow> u32 \<Rightarrow> cp_writer \<Rightarrow> (u32 \<times> cp_writer) res" where
  "cw_Init io sys file marshalLen checksumBlockSize w =
     (let blockSize = (if checksumBlockSize > 0 then checksumBlockSize else s_ChecksumBlockSize);
          w = (if checksumBlockSize > 0 then w\<lparr>cw_defaultBlockSize := checksumBlockSize\<rparr> else w) in
      bindE (log_assert (checksumBlockSize > 0 \<longrightarrow> blockSize mod s_PageSize = 0) ()) (\<lambda>_.
      let (ec, s) = sw_DoInit sys file blockSize c_maxWritesDefault (cw_writer w); w = w\<lparr>cw_writer := s\<rparr> in
      if ec \<noteq> NO_ERROR then Inr (ec, w)
      else bindE (cw_reserve io (unat marshalLen) (ucast marshalLen) w) (\<lambda>(ec, w).
      if ec \<noteq> NO_ERROR then Inr (ec, w)
      else let (ec, w) = cw_GetAvailable io w in Inr (ec, w\<lparr>cw_written := 0\<rparr>))))"

text \<open>One round of the loop of Write: go on to the next buffer or block when this one is full, and copy what fits.\<close>
definition cw_turn :: "write_io \<Rightarrow> cp_writer \<Rightarrow> (u32 \<times> cp_writer) res" where
  "cw_turn io w =
     (let d = cw_defaultBlockSize w - CHECKSUM_SIZE in
      if cw_available w = cw_written w \<or> cw_dataWrittenOffset w = d
      then let (ec, w) = cw_Commit (cw_written w) w in
           if ec \<noteq> NO_ERROR then Inr (ec, w)
           else bindE (if cw_dataWrittenOffset w = d
                       then bindE (cw_WriteChecksum io w) (\<lambda>(ec, w).
                              Inr (ec, if ec \<noteq> NO_ERROR then w else w\<lparr>cw_dataWrittenOffset := 0\<rparr>))
                       else Inr (NO_ERROR, w)) (\<lambda>(ec, w).
           if ec \<noteq> NO_ERROR then Inr (ec, w)
           else let (ec, w) = cw_GetAvailable io w in
                Inr (ec, if ec \<noteq> NO_ERROR then w else w\<lparr>cw_written := 0\<rparr>))
      else Inr (NO_ERROR, w))"

definition cw_put :: "bool \<Rightarrow> (nat option \<Rightarrow> nat \<Rightarrow> nat) \<Rightarrow> u8 list \<Rightarrow> cp_writer \<Rightarrow> (nat \<times> cp_writer) res" where
  "cw_put little al bs w =
     (let d = cw_defaultBlockSize w - CHECKSUM_SIZE;
          n = (of_nat (length bs) :: u32);
          n = (if n > cw_available w - cw_written w then cw_available w - cw_written w else n);
          n = (if n > d - cw_dataWrittenOffset w then d - cw_dataWrittenOffset w else n);
          (p, base) = cw_buffer w; off = base + unat (cw_written w); data = take (unat n) bs in
      bindE (poke_at p off data (cw_writer w)) (\<lambda>s.
      bindE (if cw_dataWrittenOffset w = 0
             then log_assert (cw_written w = 0) (GetFingerPrint little (al p base) the_poly data)
             else Inr (GetFingerPrint little (al p off) (cw_checksum w) data)) (\<lambda>c.
      Inr (unat n, w\<lparr>cw_writer := s, cw_checksum := c, cw_dataWrittenOffset := cw_dataWrittenOffset w + n, cw_written := cw_written w + n\<rparr>))))"

fun cw_loop :: "bool \<Rightarrow> (nat option \<Rightarrow> nat \<Rightarrow> nat) \<Rightarrow> write_io \<Rightarrow> nat \<Rightarrow> u8 list \<Rightarrow> cp_writer \<Rightarrow> (u32 \<times> cp_writer) res" where
  "cw_loop little al io k bs w =
     bindE (log_assert (cw_dataWrittenOffset w \<le> cw_defaultBlockSize w - CHECKSUM_SIZE) ()) (\<lambda>_.
     if bs = [] then Inr (NO_ERROR, w)
     else case k of
            0 \<Rightarrow> Inl OutOfFuel
          | Suc k \<Rightarrow>
              bindE (cw_turn io w) (\<lambda>(ec, w).
              if ec \<noteq> NO_ERROR then Inr (ec, w)
              else bindE (cw_put little al bs w) (\<lambda>(n, w). cw_loop little al io k (drop n bs) w)))"

declare cw_loop.simps [simp del]

definition cw_Write :: "bool \<Rightarrow> (nat option \<Rightarrow> nat \<Rightarrow> nat) \<Rightarrow> write_io \<Rightarrow> u8 list \<Rightarrow> cp_writer \<Rightarrow> (u32 \<times> cp_writer) res" where
  "cw_Write little al io bs w =
     (if cw_defaultBlockSize w = 0
      then bindE (sw_Write io bs (cw_writer w)) (\<lambda>(ec, s). Inr (ec, w\<lparr>cw_writer := s\<rparr>))
      else cw_loop little al io (length bs) bs w)"

definition cw_Close :: "write_io \<Rightarrow> cp_writer \<Rightarrow> (u32 \<times> cp_writer) res" where
  "cw_Close io w =
     (if cw_defaultBlockSize w = 0
      then let (ec, s) = sw_Flush io (cw_writer w) in Inr (ec, w\<lparr>cw_writer := sw_DoDispose io s\<rparr>)
      else bindE (if cw_dataWrittenOffset w > 0
                  then let (ec, w) = cw_Commit (cw_written w) w in
                       if ec \<noteq> NO_ERROR then Inr (ec, w)
                       else bindE (cw_WriteChecksum io w) (\<lambda>(ec, w).
                              Inr (ec, if ec \<noteq> NO_ERROR then w else w\<lparr>cw_dataWrittenOffset := 0\<rparr>))
                  else Inr (NO_ERROR, w)) (\<lambda>(ec, w).
           if ec \<noteq> NO_ERROR then Inr (ec, w) else Inr (NO_ERROR, w\<lparr>cw_writer := sw_DoDispose io (cw_writer w)\<rparr>)))"

definition cw_BytesIssued :: "write_io \<Rightarrow> cp_writer \<Rightarrow> u64 \<times> cp_writer" where
  "cw_BytesIssued io w =
     (let (ec, s) = sw_Flush io (cw_writer w); w = w\<lparr>cw_writer := s\<rparr>; issued = sw_BytesIssued s in
      if cw_defaultBlockSize w = 0 then (issued, w)
      else if ec \<noteq> NO_ERROR then (0, w)
      else (if cw_dataWrittenOffset w > 0 then issued + ucast (cw_written w + CHECKSUM_SIZE) else issued, w))"

section \<open>The reader\<close>

text \<open>m_dataBlock is None as long as it is NULL.\<close>
record cp_reader =
  cr_reader :: APSEQREAD
  cr_offset :: u64
  cr_nextblockOffset :: u64
  cr_dataSize :: u64
  cr_dataBlock :: "u8 list option"
  cr_defaultBlockSize :: u32
  cr_currentBlockSize :: u32
  cr_dataReadOffset :: u32

definition new_cp_reader :: cp_reader where
  "new_cp_reader = \<lparr>cr_reader = new_APSEQREAD, cr_offset = 0, cr_nextblockOffset = 0, cr_dataSize = 0, cr_dataBlock = None,
     cr_defaultBlockSize = 0, cr_currentBlockSize = 0, cr_dataReadOffset = 0\<rparr>"

definition MAXFILENAME_SIZE :: nat where "MAXFILENAME_SIZE = 64 * 1024"

text \<open>Init; heap gives the bytes new[] finds, nameLen is the length of the file's name.\<close>
definition cr_Init :: "(nat \<Rightarrow> u8) \<Rightarrow> read_io \<Rightarrow> u32 \<Rightarrow> u8 list \<Rightarrow> nat \<Rightarrow> u32 \<Rightarrow> u32 \<Rightarrow> u64 \<Rightarrow> cp_reader \<Rightarrow> (u32 \<times> cp_reader) res" where
  "cr_Init heap io sys file nameLen marshalLen checksumBlockSize hsize r =
     (let blocks = (checksumBlockSize > 0);
          blockSize = (if blocks then checksumBlockSize else s_ChecksumBlockSize);
          r = r\<lparr>cr_offset := ucast marshalLen\<rparr>;
          r = (if blocks then r\<lparr>cr_defaultBlockSize := checksumBlockSize,
                                cr_dataBlock := Some (map heap [0..<unat checksumBlockSize])\<rparr> else r) in
      bindE (log_assert (blocks \<longrightarrow> blockSize mod s_PageSize = 0) ()) (\<lambda>_.
      let (ec, sr) = sr_DoInit io sys file c_maxReadsDefault blockSize (cr_reader r);
          r = r\<lparr>cr_reader := sr\<rparr>;
          total = sr_FileSize sr - cr_offset r;
          full = total div ucast (cr_defaultBlockSize r);
          lastBlockSize = total - full * ucast (cr_defaultBlockSize r);
          data = full * ucast (cr_defaultBlockSize r - CHECKSUM_SIZE) in
      if ec \<noteq> NO_ERROR then Inr (ec, r)
      else if blocks \<and> sr_FileSize sr \<noteq> hsize then Inr (ERROR_CRC, r)
      else if blocks \<and> lastBlockSize > 0 \<and> lastBlockSize \<le> ucast CHECKSUM_SIZE then Inr (ERROR_CRC, r\<lparr>cr_dataSize := data\<rparr>)
      else let r = (if blocks then r\<lparr>cr_dataSize := (if lastBlockSize > 0 then data + (lastBlockSize - ucast CHECKSUM_SIZE) else data)\<rparr> else r) in
      if nameLen \<ge> MAXFILENAME_SIZE - 1 then Inr (ERROR_INVALID_PARAMETER, r)
      else let (ec, sr) = sr_Reset io (cr_offset r) (cr_reader r) in
           Inr (ec, r\<lparr>cr_nextblockOffset := cr_offset r, cr_reader := sr\<rparr>)))"

definition ReadNextDataBlock :: "bool \<Rightarrow> nat \<Rightarrow> read_io \<Rightarrow> cp_reader \<Rightarrow> (u32 \<times> cp_reader) res" where
  "ReadNextDataBlock little p io r =
     (let r = r\<lparr>cr_dataReadOffset := 0, cr_currentBlockSize := 0,
                cr_nextblockOffset := cr_nextblockOffset r + ucast (cr_defaultBlockSize r)\<rparr> in
      bindE (fill (GetDataPointer io True) (unat (cr_defaultBlockSize r)) (cr_defaultBlockSize r) (cr_reader r)) (\<lambda>(ec, bs, sr).
      let cb = of_nat (length bs); block = map_option (write_at 0 bs) (cr_dataBlock r);
          r = r\<lparr>cr_reader := sr, cr_currentBlockSize := cb, cr_dataBlock := block\<rparr> in
      bindE (log_assert (cb \<le> cr_defaultBlockSize r) ()) (\<lambda>_.
      if ec \<noteq> NO_ERROR \<and> \<not> (ec = ERROR_HANDLE_EOF \<and> cb > 0) then Inr (ec, r)
      else if cb < CHECKSUM_SIZE then Inr (ERROR_CRC, r)
      else let n = cb - CHECKSUM_SIZE; r = r\<lparr>cr_currentBlockSize := n\<rparr>;
               data = take (unat n) bs; stored = of_le (take 8 (drop (unat n) bs)) in
      if stored \<noteq> CalculateChecksum little p data then Inr (ERROR_CRC, r)
      else log_assert (n > 0) (NO_ERROR, r))))"

text \<open>The result of GetDataPointer (and GetData) is the code and the bytes the caller is given.\<close>
definition cr_GetDataPointer :: "bool \<Rightarrow> nat \<Rightarrow> read_io \<Rightarrow> u32 \<Rightarrow> cp_reader \<Rightarrow> (u32 \<times> u8 list \<times> cp_reader) res" where
  "cr_GetDataPointer little p io n r =
     (if cr_dataBlock r = None
      then bindE (GetDataPointer io True n (cr_reader r)) (\<lambda>(ec, bs, sr). Inr (ec, bs, r\<lparr>cr_reader := sr\<rparr>))
      else bindE (if cr_dataReadOffset r = cr_currentBlockSize r then ReadNextDataBlock little p io r else Inr (NO_ERROR, r)) (\<lambda>(ec, r).
      if ec \<noteq> NO_ERROR then Inr (ec, [], r)
      else let off = cr_dataReadOffset r; cb = cr_currentBlockSize r - off; cb = (if cb > n then n else cb) in
      bindE (log_assert (off + cb \<le> cr_currentBlockSize r) ()) (\<lambda>_.
      case cr_dataBlock r of
        None \<Rightarrow> Inl OutOfBounds
      | Some block \<Rightarrow>
          if unat off + unat cb \<le> length block
          then Inr (NO_ERROR, take (unat cb) (drop (unat off) block), r\<lparr>cr_dataReadOffset := off + cb\<rparr>)
          else Inl OutOfBounds)))"

definition cr_GetData :: "bool \<Rightarrow> nat \<Rightarrow> read_io \<Rightarrow> u32 \<Rightarrow> cp_reader \<Rightarrow> (u32 \<times> u8 list \<times> cp_reader) res" where
  "cr_GetData little p io n r = cr_GetDataPointer little p io n r"

definition cr_Seek :: "bool \<Rightarrow> nat \<Rightarrow> read_io \<Rightarrow> u64 \<Rightarrow> cp_reader \<Rightarrow> (u32 \<times> cp_reader) res" where
  "cr_Seek little p io offset r =
     (let d = ucast (cr_defaultBlockSize r - CHECKSUM_SIZE) :: u64; B = ucast (cr_defaultBlockSize r);
          numblocks = offset div d; offsetInBlock = ucast (offset mod d) in
      bindE (if cr_dataBlock r = None \<or> cr_nextblockOffset r \<noteq> cr_offset r + (1 + numblocks) * B
             then let nxt = cr_offset r + numblocks * B in
                  ReadNextDataBlock little p io
                    (r\<lparr>cr_nextblockOffset := nxt, cr_reader := snd (sr_Reset io nxt (cr_reader r)), cr_currentBlockSize := 0\<rparr>)
             else Inr (NO_ERROR, r)) (\<lambda>(ec, r).
      Inr (ec, r\<lparr>cr_dataReadOffset := offsetInBlock\<rparr>)))"

text \<open>The loop of Skip, k the number of rounds it may make.\<close>
fun cr_skip_loop :: "bool \<Rightarrow> nat \<Rightarrow> read_io \<Rightarrow> nat \<Rightarrow> u32 \<Rightarrow> cp_reader \<Rightarrow> (u32 \<times> cp_reader) res" where
  "cr_skip_loop little p io k n r =
     bindE (log_assert (cr_dataReadOffset r \<le> cr_currentBlockSize r) ()) (\<lambda>_.
     if n = 0 then Inr (NO_ERROR, r)
     else case k of
            0 \<Rightarrow> Inl OutOfFuel
          | Suc k \<Rightarrow>
              bindE (if cr_dataReadOffset r = cr_currentBlockSize r then ReadNextDataBlock little p io r else Inr (NO_ERROR, r)) (\<lambda>(ec, r).
              if ec \<noteq> NO_ERROR then Inr (ec, r)
              else let cb = cr_currentBlockSize r - cr_dataReadOffset r; cb = (if cb > n then n else cb) in
                   cr_skip_loop little p io k (n - cb) (r\<lparr>cr_dataReadOffset := cr_dataReadOffset r + cb\<rparr>)))"

declare cr_skip_loop.simps [simp del]

definition cr_Skip :: "bool \<Rightarrow> nat \<Rightarrow> read_io \<Rightarrow> u32 \<Rightarrow> cp_reader \<Rightarrow> (u32 \<times> cp_reader) res" where
  "cr_Skip little p io n r =
     (if cr_dataBlock r = None
      then bindE (sr_Skip io n (cr_reader r)) (\<lambda>(ec, sr). Inr (ec, r\<lparr>cr_reader := sr\<rparr>))
      else cr_skip_loop little p io (unat n) n r)"

definition cr_Size :: "cp_reader \<Rightarrow> u64" where
  "cr_Size r = (if cr_dataBlock r = None then sr_FileSize (cr_reader r) - cr_offset r else cr_dataSize r)"

section \<open>Blocks\<close>

definition block_checksum :: "u8 list \<Rightarrow> u64" where
  "block_checksum bs = rabin the_poly the_poly bs"

text \<open>The data, d bytes a block, each block followed by its fingerprint.\<close>
function enc_blocks :: "nat \<Rightarrow> u8 list \<Rightarrow> u8 list" where
  "enc_blocks d xs = (if d = 0 \<or> xs = [] then [] else take d xs @ le_bytes 8 (block_checksum (take d xs)) @ enc_blocks d (drop d xs))"
  by pat_completeness auto
termination by (relation "measure (\<lambda>(d, xs). length xs)") auto

declare enc_blocks.simps [simp del]

lemma enc_blocks_Nil [simp]: "enc_blocks d [] = []"
  by (simp add: enc_blocks.simps)

lemma enc_blocks_last: "d \<noteq> 0 \<Longrightarrow> cur \<noteq> [] \<Longrightarrow> length cur \<le> d \<Longrightarrow> enc_blocks d cur = cur @ le_bytes 8 (block_checksum cur)"
  by (simp add: enc_blocks.simps)

lemma enc_blocks_append: "d dvd length xs \<Longrightarrow> d \<noteq> 0 \<Longrightarrow> enc_blocks d (xs @ ys) = enc_blocks d xs @ enc_blocks d ys"
proof (induction d xs rule: enc_blocks.induct)
  case (1 d xs)
  show ?case
  proof (cases "xs = []")
    case False
    then have "d \<le> length xs" using 1(2) by (auto dest: dvd_imp_le)
    moreover have "d dvd length (drop d xs)" using 1(2) by (simp add: dvd_diff_nat)
    ultimately show ?thesis using False 1 by (simp add: enc_blocks.simps [of d "xs @ ys"] enc_blocks.simps [of d xs])
  qed simp
qed

lemma length_le_bytes [simp]: "length (le_bytes n v) = n"
  by (simp add: le_bytes_def)

lemma length_enc_blocks_le: "length (enc_blocks d xs) \<le> 9 * length xs"
proof (induction d xs rule: enc_blocks.induct)
  case (1 d xs)
  show ?case
  proof (cases "d = 0 \<or> xs = []")
    case False
    then have "length (take d xs) + 8 \<le> 9 * length (take d xs)" by (cases xs; cases d) auto
    then show ?thesis using False 1 by (simp add: enc_blocks.simps [of d xs] min_def split: if_splits)
  qed (auto simp: enc_blocks.simps)
qed

section \<open>What the writer has written\<close>

text \<open>The bytes behind those in use that Write has put into the buffer, but not committed.\<close>
definition cw_pending :: "cp_writer \<Rightarrow> u8 list" where
  "cw_pending w = take (unat (cw_written w)) (drop (unat (sw_cbUsed (cw_writer w))) (sw_current (cw_writer w)))"

definition cw_d :: "cp_writer \<Rightarrow> nat" where
  "cw_d w = unat (cw_defaultBlockSize w) - 8"

definition cw_ready :: "cp_writer \<Rightarrow> bool" where
  "cw_ready w \<longleftrightarrow> sw_ok (cw_writer w) \<and> sw_open (cw_writer w) \<and> sw_pbWrite (cw_writer w) \<noteq> None \<and> 8 < unat (cw_defaultBlockSize w) \<and>
     unat (sw_cbBufSize (cw_writer w)) < 2 ^ 31 \<and>
     cw_buffer w = (sw_pbWrite (cw_writer w), unat (sw_cbUsed (cw_writer w))) \<and>
     cw_available w = sw_cbBufSize (cw_writer w) - sw_cbUsed (cw_writer w) \<and> cw_written w \<le> cw_available w"

text \<open>The writer has the header's H bytes and the data D behind it; the current block holds its last bytes.\<close>
definition cw_is :: "cp_writer \<Rightarrow> nat \<Rightarrow> u8 list \<Rightarrow> bool" where
  "cw_is w H D \<longleftrightarrow> cw_ready w \<and>
     (\<exists>hdr D1 cur. length hdr = H \<and> D = D1 @ cur \<and> cw_d w dvd length D1 \<and> length cur = unat (cw_dataWrittenOffset w) \<and> length cur \<le> cw_d w \<and>
        sw_bytes (cw_writer w) @ cw_pending w = hdr @ enc_blocks (cw_d w) D1 @ cur \<and>
        (if cur = [] then cw_written w = 0 else cw_checksum w = block_checksum cur))"

lemma cw_d_word: "8 < unat (cw_defaultBlockSize w) \<Longrightarrow> unat (cw_defaultBlockSize w - CHECKSUM_SIZE) = cw_d w"
  by (simp add: cw_d_def CHECKSUM_SIZE_def unat_sub word_le_nat_alt)

lemma cw_is_offset: "cw_is w H D \<Longrightarrow> cw_dataWrittenOffset w \<le> cw_defaultBlockSize w - CHECKSUM_SIZE"
  using cw_d_word [of w] by (auto simp: cw_is_def cw_ready_def word_le_nat_alt)

lemma cw_is_length: "cw_is w H D \<Longrightarrow> length (sw_bytes (cw_writer w)) \<le> H + 9 * length D"
proof -
  assume "cw_is w H D"
  then obtain hdr D1 cur where "length hdr = H" "D = D1 @ cur" "sw_bytes (cw_writer w) @ cw_pending w = hdr @ enc_blocks (cw_d w) D1 @ cur"
    by (auto simp: cw_is_def)
  then have "length (sw_bytes (cw_writer w)) + length (cw_pending w) = H + length (enc_blocks (cw_d w) D1) + length cur"
    by (metis length_append add.assoc)
  then show ?thesis using length_enc_blocks_le [of "cw_d w" D1] \<open>D = D1 @ cur\<close> by simp
qed

lemma CommitAvailable_ok:
  assumes "cw_ready w"
  shows "\<exists>s. CommitAvailable (cw_written w) (cw_writer w) = (NO_ERROR, s) \<and> sw_ok s \<and> sw_open s \<and> sw_pbWrite s \<noteq> None \<and>
    sw_bytes s = sw_bytes (cw_writer w) @ cw_pending w \<and> sw_cbBufSize s = sw_cbBufSize (cw_writer w) \<and> length (cw_pending w) = unat (cw_written w)"
proof -
  let ?s = "cw_writer w"
  have le: "sw_cbUsed ?s \<le> sw_cbBufSize ?s" using assms by (simp add: cw_ready_def sw_ok_def)
  have "unat (cw_written w) \<le> unat (sw_cbBufSize ?s - sw_cbUsed ?s)" using assms by (auto simp: cw_ready_def word_le_nat_alt)
  then have room: "unat (sw_cbUsed ?s) + unat (cw_written w) \<le> unat (sw_cbBufSize ?s)" using le by (simp add: unat_sub word_le_nat_alt)
  then have "length (cw_pending w) = unat (cw_written w)"
    using length_sw_current [of ?s] assms by (simp add: cw_pending_def cw_ready_def)
  then show ?thesis
    using commit_ok [of ?s "cw_written w"] assms room by (auto simp: CommitAvailable_def cw_ready_def cw_pending_def)
qed

lemma cw_Commit_ok:
  "cw_ready w \<Longrightarrow> \<exists>s. cw_Commit (cw_written w) w = (NO_ERROR, w\<lparr>cw_writer := s\<rparr>) \<and> sw_ok s \<and> sw_open s \<and> sw_pbWrite s \<noteq> None \<and>
    sw_bytes s = sw_bytes (cw_writer w) @ cw_pending w \<and> sw_cbBufSize s = sw_cbBufSize (cw_writer w)"
  using CommitAvailable_ok [of w] by (auto simp: cw_Commit_def)

lemma cw_GetAvailable_ok:
  assumes "sw_ok (cw_writer w)" "sw_open (cw_writer w)" "8 < unat (cw_defaultBlockSize w)" "io_good io" "sw_fits 0 (cw_writer w)"
    and "unat (sw_cbBufSize (cw_writer w)) < 2 ^ 31"
  shows "\<exists>w'. cw_GetAvailable io w = (NO_ERROR, w') \<and> cw_ready (w'\<lparr>cw_written := 0\<rparr>) \<and> cw_available w' \<noteq> 0 \<and>
    sw_bytes (cw_writer w') = sw_bytes (cw_writer w) \<and> sw_cbBufSize (cw_writer w') = sw_cbBufSize (cw_writer w) \<and> cw_written w' = cw_written w \<and> cw_defaultBlockSize w' = cw_defaultBlockSize w \<and>
    cw_dataWrittenOffset w' = cw_dataWrittenOffset w \<and> cw_checksum w' = cw_checksum w"
  using GetAvailable_ok [OF assms(1,4,5)] assms(2,3,6) by (auto simp: cw_GetAvailable_def cw_ready_def)

lemma cw_WriteChecksum_ok:
  assumes "sw_ok (cw_writer w)" "sw_open (cw_writer w)" "io_good io" "length (sw_bytes (cw_writer w)) + 8 < 2 ^ 63"
  shows "\<exists>s. cw_WriteChecksum io w = Inr (NO_ERROR, w\<lparr>cw_writer := s\<rparr>) \<and> sw_ok s \<and> sw_open s \<and>
    sw_bytes s = sw_bytes (cw_writer w) @ le_bytes 8 (cw_checksum w) \<and> sw_cbBufSize s = sw_cbBufSize (cw_writer w)"
  using sw_Write_ok [OF assms(1,3), of "le_bytes 8 (cw_checksum w)" 0] assms(2,4)
  by (auto simp: cw_WriteChecksum_def sw_fits_def)

lemma cw_turn_ok:
  assumes "cw_is w H D" "io_good io" "H + 9 * length D + 16 < 2 ^ 63"
  shows "\<exists>w'. cw_turn io w = Inr (NO_ERROR, w') \<and> cw_is w' H D \<and> cw_defaultBlockSize w' = cw_defaultBlockSize w \<and>
    cw_written w' < cw_available w' \<and> unat (cw_dataWrittenOffset w') < cw_d w'"
proof (cases "cw_available w = cw_written w \<or> cw_dataWrittenOffset w = cw_defaultBlockSize w - CHECKSUM_SIZE")
  case False
  then have "unat (cw_dataWrittenOffset w) < cw_d w"
    using cw_is_offset [OF assms(1)] cw_d_word [of w] assms(1) by (auto simp: cw_is_def cw_ready_def order_less_le word_le_nat_alt word_unat_eq_iff)
  then show ?thesis using False assms(1) by (auto simp: cw_turn_def cw_is_def cw_ready_def order_less_le)
next
  case True
  obtain hdr D1 cur where st: "length hdr = H" "D = D1 @ cur" "cw_d w dvd length D1" "length cur = unat (cw_dataWrittenOffset w)" "length cur \<le> cw_d w"
      "sw_bytes (cw_writer w) @ cw_pending w = hdr @ enc_blocks (cw_d w) D1 @ cur"
      "if cur = [] then cw_written w = 0 else cw_checksum w = block_checksum cur" and ready: "cw_ready w"
    using assms(1) by (auto simp: cw_is_def)
  have d: "unat (cw_defaultBlockSize w - CHECKSUM_SIZE) = cw_d w" "0 < cw_d w" "8 < unat (cw_defaultBlockSize w)"
    using ready cw_d_word [of w] by (auto simp: cw_ready_def cw_d_def)
  obtain s1 where s1: "cw_Commit (cw_written w) w = (NO_ERROR, w\<lparr>cw_writer := s1\<rparr>)" "sw_ok s1" "sw_open s1"
      "sw_bytes s1 = hdr @ enc_blocks (cw_d w) D1 @ cur" "sw_cbBufSize s1 = sw_cbBufSize (cw_writer w)"
    using cw_Commit_ok [OF ready] st(6) by auto
  have len: "length (sw_bytes s1) + 16 < 2 ^ 63" using s1(4) st(1,2) assms(3) length_enc_blocks_le [of "cw_d w" D1] by simp
  define full where "full \<longleftrightarrow> cw_dataWrittenOffset w = cw_defaultBlockSize w - CHECKSUM_SIZE"
  obtain w2 D2 cur2 where w2: "(if full then bindE (cw_WriteChecksum io (w\<lparr>cw_writer := s1\<rparr>)) (\<lambda>(ec, w). Inr (ec, if ec \<noteq> NO_ERROR then w else w\<lparr>cw_dataWrittenOffset := 0\<rparr>))
        else Inr (NO_ERROR, w\<lparr>cw_writer := s1\<rparr>)) = Inr (NO_ERROR, w2)" "sw_ok (cw_writer w2)" "sw_open (cw_writer w2)"
      "sw_bytes (cw_writer w2) = hdr @ enc_blocks (cw_d w) D2 @ cur2" "D = D2 @ cur2" "cw_d w dvd length D2"
      "length cur2 = unat (cw_dataWrittenOffset w2)" "length cur2 < cw_d w" "cw_defaultBlockSize w2 = cw_defaultBlockSize w"
      "cur2 \<noteq> [] \<longrightarrow> cw_checksum w2 = block_checksum cur2" "length (sw_bytes (cw_writer w2)) < 2 ^ 63"
      "sw_cbBufSize (cw_writer w2) = sw_cbBufSize (cw_writer w)"
  proof (cases full)
    case True
    then have cur: "length cur = cw_d w" "cur \<noteq> []" using d st(4) by (auto simp: full_def)
    have enc: "enc_blocks (cw_d w) (D1 @ cur) = enc_blocks (cw_d w) D1 @ cur @ le_bytes 8 (cw_checksum w)"
      using enc_blocks_append [OF st(3)] enc_blocks_last [of "cw_d w" cur] cur d(2) st(7) by simp
    obtain s2 where s2: "cw_WriteChecksum io (w\<lparr>cw_writer := s1\<rparr>) = Inr (NO_ERROR, w\<lparr>cw_writer := s2\<rparr>)" "sw_ok s2" "sw_open s2"
        "sw_bytes s2 = sw_bytes s1 @ le_bytes 8 (cw_checksum w)" "sw_cbBufSize s2 = sw_cbBufSize (cw_writer w)"
      using cw_WriteChecksum_ok [of "w\<lparr>cw_writer := s1\<rparr>" io] s1 assms(2) len by auto
    show thesis
      by (rule that [of "w\<lparr>cw_writer := s2, cw_dataWrittenOffset := 0\<rparr>" "D1 @ cur" "[]"])
        (use True s1 s2 st cur d len enc in auto)
  next
    case False
    then have "length cur < cw_d w" using st(4,5) d(1) by (auto simp: full_def order_less_le word_unat_eq_iff)
    then show thesis using that [of "w\<lparr>cw_writer := s1\<rparr>" D1 cur] False s1 st len by (auto split: if_splits)
  qed
  obtain w3 where w3: "cw_GetAvailable io w2 = (NO_ERROR, w3)" "cw_ready (w3\<lparr>cw_written := 0\<rparr>)" "cw_available w3 \<noteq> 0"
      "sw_bytes (cw_writer w3) = sw_bytes (cw_writer w2)" "cw_defaultBlockSize w3 = cw_defaultBlockSize w"
      "cw_dataWrittenOffset w3 = cw_dataWrittenOffset w2" "cw_checksum w3 = cw_checksum w2"
    using cw_GetAvailable_ok [of w2 io] w2 d(3) assms(2) ready by (auto simp: sw_fits_def cw_ready_def)
  have "cw_turn io w = Inr (NO_ERROR, w3\<lparr>cw_written := 0\<rparr>)"
    using True s1(1) w2(1) w3(1) by (simp add: cw_turn_def Let_def full_def)
  moreover have "cw_d (w3\<lparr>cw_written := 0\<rparr>) = cw_d w" using w3(5) by (simp add: cw_d_def)
  moreover have "cw_is (w3\<lparr>cw_written := 0\<rparr>) H D"
    unfolding cw_is_def using w2(4-8,10) w3 st(1) calculation(2)
    by (intro conjI exI [of _ hdr] exI [of _ D2] exI [of _ cur2]) (simp_all add: cw_pending_def)
  ultimately show ?thesis using w3 w2(7,8) by (auto simp: word_neq_0_conv)
qed

lemma pending_write:
  "used + wr \<le> length cur \<Longrightarrow> take (wr + length bs) (drop used (write_at (used + wr) bs cur)) = take wr (drop used cur) @ bs"
  by (simp add: write_at_def drop_take)

lemma cw_put_ok:
  assumes "cw_is w H D" "cw_written w < cw_available w" "unat (cw_dataWrittenOffset w) < cw_d w" "bs \<noteq> []" "length bs < 2 ^ 32"
  shows "\<exists>n w'. cw_put little al bs w = Inr (n, w') \<and> 0 < n \<and> n \<le> length bs \<and> cw_is w' H (D @ take n bs) \<and>
    cw_defaultBlockSize w' = cw_defaultBlockSize w"
proof -
  obtain hdr D1 cur where st: "length hdr = H" "D = D1 @ cur" "cw_d w dvd length D1" "length cur = unat (cw_dataWrittenOffset w)"
      "sw_bytes (cw_writer w) @ cw_pending w = hdr @ enc_blocks (cw_d w) D1 @ cur"
      "if cur = [] then cw_written w = 0 else cw_checksum w = block_checksum cur" and ready: "cw_ready w"
    using assms(1) by (auto simp: cw_is_def)
  let ?s = "cw_writer w" and ?d = "cw_defaultBlockSize w - CHECKSUM_SIZE"
  let ?used = "unat (sw_cbUsed ?s)" and ?wr = "unat (cw_written w)"
  have ok: "sw_ok ?s" "sw_pbWrite ?s \<noteq> None" using ready by (auto simp: cw_ready_def)
  have d: "unat ?d = cw_d w" using ready cw_d_word [of w] by (simp add: cw_ready_def)
  have sub: "unat (cw_available w - cw_written w) = unat (cw_available w) - ?wr" "unat (?d - cw_dataWrittenOffset w) = cw_d w - unat (cw_dataWrittenOffset w)"
    using assms(2,3) d by (simp_all add: unat_sub word_le_nat_alt word_less_nat_alt)
  have av: "unat (cw_available w) = unat (sw_cbBufSize ?s) - ?used" "?used \<le> unat (sw_cbBufSize ?s)"
    using ready by (auto simp: cw_ready_def sw_ok_def unat_sub word_le_nat_alt)
  define n where "n = (let n = (of_nat (length bs) :: u32); n = (if n > cw_available w - cw_written w then cw_available w - cw_written w else n) in
    if n > ?d - cw_dataWrittenOffset w then ?d - cw_dataWrittenOffset w else n)"
  define N where "N = unat n"
  have "unat (of_nat (length bs) :: u32) = length bs" using assms(5) by (simp add: unat_of_nat take_bit_nat_eq_self)
  then have N: "N = min (min (length bs) (unat (cw_available w) - ?wr)) (cw_d w - unat (cw_dataWrittenOffset w))"
    using sub by (auto simp: N_def n_def Let_def word_less_nat_alt min_def)
  then have N3: "0 < N" "N \<le> length bs" "?wr + N \<le> unat (cw_available w)" "unat (cw_dataWrittenOffset w) + N \<le> cw_d w"
    using assms(2-4) by (auto simp: word_less_nat_alt)
  have room: "?used + ?wr + N \<le> unat (sw_cbBufSize ?s)" using N3(3) av by simp
  then obtain s' where s': "poke (?used + ?wr) (take N bs) ?s = Inr s'" "sw_ok s'" "sw_bytes s' = sw_bytes ?s"
      "sw_current s' = write_at (?used + ?wr) (take N bs) (sw_current ?s)" "sw_cbUsed s' = sw_cbUsed ?s"
      "sw_pbWrite s' = sw_pbWrite ?s" "sw_cbBufSize s' = sw_cbBufSize ?s" "sw_open s' = sw_open ?s"
    using poke_ok [OF ok, of "?used + ?wr" "take N bs"] N3(2) by auto
  define c where "c = (if cw_dataWrittenOffset w = 0 then GetFingerPrint little (al (sw_pbWrite ?s) ?used) the_poly (take N bs)
    else GetFingerPrint little (al (sw_pbWrite ?s) (?used + ?wr)) (cw_checksum w) (take N bs))"
  let ?w = "w\<lparr>cw_writer := s', cw_checksum := c, cw_dataWrittenOffset := cw_dataWrittenOffset w + n, cw_written := cw_written w + n\<rparr>"
  have cur0: "cw_dataWrittenOffset w = 0 \<longleftrightarrow> cur = []" using st(4) by (metis length_0_conv unat_eq_0)
  have "cw_put little al bs w = Inr (N, ?w)"
  proof -
    have "poke_at (sw_pbWrite ?s) (?used + ?wr) (take (unat n) bs) ?s = Inr s'" using s'(1) by (simp add: poke_at_def poke_def N_def)
    moreover have "cw_dataWrittenOffset w = 0 \<longrightarrow> cw_written w = 0" using cur0 st(6) by auto
    moreover have "cw_buffer w = (sw_pbWrite ?s, ?used)" using ready by (simp add: cw_ready_def)
    ultimately show ?thesis
      unfolding cw_put_def Let_def n_def [unfolded Let_def, symmetric] by (simp add: c_def N_def [symmetric])
  qed
  moreover have "cw_is ?w H (D @ take N bs)"
  proof -
    have nw: "unat (cw_written w + n) = ?wr + N" "unat (cw_dataWrittenOffset w + n) = unat (cw_dataWrittenOffset w) + N"
      using N3(3,4) d unsigned_less [of "cw_available w", where ?'a = nat] unsigned_less [of ?d, where ?'a = nat]
      by (auto simp: N_def intro!: unat_add_no_wrap)
    have "?used + ?wr \<le> length (sw_current ?s)" using room length_sw_current [OF ok(1)] by simp
    then have "cw_pending ?w = cw_pending w @ take N bs"
      using pending_write [of ?used ?wr "sw_current ?s" "take N bs"] s'(4,5) nw(1) N3(2) by (simp add: cw_pending_def min_absorb2)
    moreover have "cw_ready ?w"
      using ready s' nw(1) N3(3) by (simp add: cw_ready_def word_le_nat_alt)
    moreover have "c = block_checksum (cur @ take N bs)"
      using st(6) cur0 by (auto simp: c_def GetFingerPrint_rabin block_checksum_def rabin_append, simp add: rabin_def)
    ultimately show ?thesis
      unfolding cw_is_def using st s'(3) nw(2) N3(1,2,4)
      by (intro conjI exI [of _ hdr] exI [of _ D1] exI [of _ "cur @ take N bs"]) (auto simp: cw_d_def)
  qed
  ultimately show ?thesis using N3(1,2) by auto
qed

lemma cw_loop_ok:
  "cw_is w H D \<Longrightarrow> io_good io \<Longrightarrow> H + 9 * length (D @ bs) + 16 < 2 ^ 63 \<Longrightarrow> length bs < 2 ^ 32 \<Longrightarrow> length bs \<le> k \<Longrightarrow>
   \<exists>w'. cw_loop little al io k bs w = Inr (NO_ERROR, w') \<and> cw_is w' H (D @ bs) \<and> cw_defaultBlockSize w' = cw_defaultBlockSize w"
proof (induction k arbitrary: w bs D)
  case 0
  then show ?case using cw_is_offset [OF 0(1)] by (auto simp: cw_loop.simps)
next
  case (Suc k)
  note dwo = cw_is_offset [OF Suc.prems(1)]
  show ?case
  proof (cases "bs = []")
    case True
    then show ?thesis using Suc.prems(1) dwo by (simp add: cw_loop.simps)
  next
    case False
    obtain w1 where w1: "cw_turn io w = Inr (NO_ERROR, w1)" "cw_is w1 H D" "cw_defaultBlockSize w1 = cw_defaultBlockSize w"
        "cw_written w1 < cw_available w1" "unat (cw_dataWrittenOffset w1) < cw_d w1"
      using cw_turn_ok [OF Suc.prems(1,2)] Suc.prems(3) by auto
    obtain n w2 where w2: "cw_put little al bs w1 = Inr (n, w2)" "0 < n" "n \<le> length bs" "cw_is w2 H (D @ take n bs)"
        "cw_defaultBlockSize w2 = cw_defaultBlockSize w1"
      using cw_put_ok [OF w1(2,4,5) False Suc.prems(4)] by blast
    have "length (drop n bs) \<le> k" "length (drop n bs) < 2 ^ 32" using w2(2) Suc.prems(4,5) False by (auto simp: le_diff_conv)
    then obtain w3 where "cw_loop little al io k (drop n bs) w2 = Inr (NO_ERROR, w3)" "cw_is w3 H (D @ bs)"
        "cw_defaultBlockSize w3 = cw_defaultBlockSize w2"
      using Suc.IH [OF w2(4) Suc.prems(2), of "drop n bs"] Suc.prems(3) w2(3) by auto
    then show ?thesis using False dwo w1 w2 by (simp add: cw_loop.simps [of little al io "Suc k"])
  qed
qed

lemma cw_reserve_ok:
  "sw_ok (cw_writer w) \<Longrightarrow> sw_open (cw_writer w) \<Longrightarrow> 8 < unat (cw_defaultBlockSize w) \<Longrightarrow> io_good io \<Longrightarrow>
   unat (sw_cbBufSize (cw_writer w)) < 2 ^ 31 \<Longrightarrow>
   length (sw_bytes (cw_writer w)) + unat offset < 2 ^ 63 \<Longrightarrow> unat offset \<le> k \<Longrightarrow>
   \<exists>w'. cw_reserve io k offset w = Inr (NO_ERROR, w') \<and> sw_ok (cw_writer w') \<and> sw_open (cw_writer w') \<and>
     length (sw_bytes (cw_writer w')) = length (sw_bytes (cw_writer w)) + unat offset \<and> sw_cbBufSize (cw_writer w') = sw_cbBufSize (cw_writer w) \<and>
     cw_defaultBlockSize w' = cw_defaultBlockSize w \<and> cw_dataWrittenOffset w' = cw_dataWrittenOffset w"
proof (induction k arbitrary: w offset)
  case 0
  then show ?case by (simp add: cw_reserve.simps unat_eq_0)
next
  case (Suc k)
  show ?case
  proof (cases "offset = 0")
    case True
    then show ?thesis using Suc.prems by (simp add: cw_reserve.simps)
  next
    case False
    obtain w1 where w1: "cw_GetAvailable io w = (NO_ERROR, w1)" "cw_ready (w1\<lparr>cw_written := 0\<rparr>)" "cw_available w1 \<noteq> 0"
        "sw_bytes (cw_writer w1) = sw_bytes (cw_writer w)" "cw_defaultBlockSize w1 = cw_defaultBlockSize w"
        "cw_dataWrittenOffset w1 = cw_dataWrittenOffset w" "sw_cbBufSize (cw_writer w1) = sw_cbBufSize (cw_writer w)"
      using cw_GetAvailable_ok [OF Suc.prems(1-4) _ Suc.prems(5)] Suc.prems(6) by (auto simp: sw_fits_def)
    define n where "n = (if offset > ucast (cw_available w1) then ucast (cw_available w1) else offset)"
    have n: "unat n \<le> unat offset" "unat n \<le> unat (cw_available w1)" "0 < unat n"
    proof -
      have "unat n = min (unat offset) (unat (cw_available w1))" by (auto simp: n_def word_less_nat_alt)
      moreover have "0 < unat offset" "0 < unat (cw_available w1)" using False w1(3) by (simp_all add: unat_gt_0)
      ultimately show "unat n \<le> unat offset" "unat n \<le> unat (cw_available w1)" "0 < unat n" by auto
    qed
    then have n32: "unat (ucast n :: u32) = unat n"
      using unsigned_less [of "cw_available w1", where ?'a = nat] by (simp add: unsigned_ucast_eq take_bit_nat_eq_self)
    let ?w = "w1\<lparr>cw_written := ucast n\<rparr>"
    have "cw_ready ?w" using w1(2) n(2) n32 by (auto simp: cw_ready_def word_le_nat_alt)
    then obtain s2 where s2: "CommitAvailable (ucast n) (cw_writer w1) = (NO_ERROR, s2)" "sw_ok s2" "sw_open s2"
        "sw_bytes s2 = sw_bytes (cw_writer w1) @ cw_pending ?w" "length (cw_pending ?w) = unat n" "sw_cbBufSize s2 = sw_cbBufSize (cw_writer w1)"
      using CommitAvailable_ok [of ?w] n32 by auto
    have "cw_Commit (ucast n) w1 = (NO_ERROR, w1\<lparr>cw_writer := s2\<rparr>)" using s2(1) by (simp add: cw_Commit_def)
    moreover have sub: "unat (offset - n) = unat offset - unat n" using n(1) by (simp add: unat_sub word_le_nat_alt)
    ultimately show ?thesis
      using Suc.IH [of "w1\<lparr>cw_writer := s2\<rparr>" "offset - n"] Suc.prems False w1 s2(2-6) n
      by (auto simp: cw_reserve.simps [of io "Suc k"] n_def [symmetric] Let_def)
  qed
qed

lemma cw_Init_ok:
  assumes "io_good io" "8 < unat B" "B mod s_PageSize = 0" "unat B < 2 ^ 31"
  shows "\<exists>w. cw_Init io NO_ERROR old H B new_cp_writer = Inr (NO_ERROR, w) \<and> cw_is w (unat H) [] \<and> cw_defaultBlockSize w = B"
proof -
  let ?w = "new_cp_writer\<lparr>cw_defaultBlockSize := B\<rparr>"
  have B: "B > 0" using assms(2) by (auto simp: word_less_nat_alt)
  obtain s where s: "sw_DoInit NO_ERROR old B c_maxWritesDefault (cw_writer ?w) = (NO_ERROR, s)" "sw_open s" "sw_ok s" "sw_bytes s = []" "sw_cbBufSize s = B"
    using sw_DoInit_ok [of B c_maxWritesDefault old] B by (auto simp: c_maxWritesDefault_def c_maxWrites_def new_cp_writer_def)
  obtain w1 where w1: "cw_reserve io (unat H) (ucast H) (?w\<lparr>cw_writer := s\<rparr>) = Inr (NO_ERROR, w1)" "sw_ok (cw_writer w1)" "sw_open (cw_writer w1)"
      "length (sw_bytes (cw_writer w1)) = unat H" "cw_defaultBlockSize w1 = B" "cw_dataWrittenOffset w1 = 0"
      "sw_cbBufSize (cw_writer w1) = B"
    using cw_reserve_ok [of "?w\<lparr>cw_writer := s\<rparr>" io "ucast H" "unat H"] s assms(1,2,4) unsigned_less [of H, where ?'a = nat]
    by (auto simp: new_cp_writer_def)
  obtain w2 where w2: "cw_GetAvailable io w1 = (NO_ERROR, w2)" "cw_ready (w2\<lparr>cw_written := 0\<rparr>)" "sw_bytes (cw_writer w2) = sw_bytes (cw_writer w1)"
      "cw_defaultBlockSize w2 = B" "cw_dataWrittenOffset w2 = 0"
    using cw_GetAvailable_ok [of w1 io] w1 assms(1,2,4) unsigned_less [of H, where ?'a = nat] by (auto simp: sw_fits_def)
  have "cw_is (w2\<lparr>cw_written := 0\<rparr>) (unat H) []"
    unfolding cw_is_def using w2 w1(4) by (intro conjI exI [of _ "sw_bytes (cw_writer w1)"] exI [of _ "[] :: u8 list"]) (auto simp: cw_pending_def)
  then show ?thesis using B s(1) w1(1) w2(1,4) assms(3) by (simp add: cw_Init_def Let_def)
qed

lemma cw_Write_ok:
  assumes "cw_is w H D" "io_good io" "H + 9 * length (D @ bs) + 16 < 2 ^ 63" "length bs < 2 ^ 32"
  shows "\<exists>w'. cw_Write little al io bs w = Inr (NO_ERROR, w') \<and> cw_is w' H (D @ bs) \<and> cw_defaultBlockSize w' = cw_defaultBlockSize w"
  using cw_loop_ok [OF assms le_refl] assms(1) by (auto simp: cw_Write_def cw_is_def cw_ready_def)

lemma enc_blocks_split:
  "cw_is w H D \<Longrightarrow> \<exists>hdr. length hdr = H \<and> (if cw_dataWrittenOffset w = 0
     then sw_bytes (cw_writer w) = hdr @ enc_blocks (cw_d w) D
     else sw_bytes (cw_writer w) @ cw_pending w @ le_bytes 8 (cw_checksum w) = hdr @ enc_blocks (cw_d w) D)"
proof -
  assume "cw_is w H D"
  then obtain hdr D1 cur where st: "length hdr = H" "D = D1 @ cur" "cw_d w dvd length D1" "length cur = unat (cw_dataWrittenOffset w)"
      "length cur \<le> cw_d w" "sw_bytes (cw_writer w) @ cw_pending w = hdr @ enc_blocks (cw_d w) D1 @ cur"
      "if cur = [] then cw_written w = 0 else cw_checksum w = block_checksum cur" "0 < cw_d w"
    by (auto simp: cw_is_def cw_ready_def cw_d_def)
  have "cw_dataWrittenOffset w = 0 \<longleftrightarrow> cur = []" using st(4) by (metis length_0_conv unat_eq_0)
  then show ?thesis using st enc_blocks_append [OF st(3)] enc_blocks_last [of "cw_d w" cur]
    by (cases "cur = []") (auto simp: cw_pending_def intro!: exI [of _ hdr])
qed

lemma cw_Close_ok:
  assumes "cw_is w H D" "io_good io" "H + 9 * length D + 16 < 2 ^ 63"
  shows "\<exists>w' hdr. cw_Close io w = Inr (NO_ERROR, w') \<and> length hdr = H \<and> sw_file (cw_writer w') = hdr @ enc_blocks (cw_d w) D"
proof -
  have ready: "cw_ready w" "cw_defaultBlockSize w \<noteq> 0" using assms(1) by (auto simp: cw_is_def cw_ready_def)
  obtain hdr where hdr: "length hdr = H" "if cw_dataWrittenOffset w = 0 then sw_bytes (cw_writer w) = hdr @ enc_blocks (cw_d w) D
      else sw_bytes (cw_writer w) @ cw_pending w @ le_bytes 8 (cw_checksum w) = hdr @ enc_blocks (cw_d w) D"
    using enc_blocks_split [OF assms(1)] by blast
  have len: "length (hdr @ enc_blocks (cw_d w) D) + 16 < 2 ^ 63" using hdr(1) assms(3) length_enc_blocks_le [of "cw_d w" D] by simp
  have dispose: "sw_file (sw_DoDispose io s) = hdr @ enc_blocks (cw_d w) D"
    if "sw_ok s" "sw_open s" "sw_bytes s = hdr @ enc_blocks (cw_d w) D" for s
    using sw_Flush_ok [OF that(1) assms(2)] that(2,3) len by (auto simp: sw_DoDispose_def sw_fits_def)
  show ?thesis
  proof (cases "cw_dataWrittenOffset w = 0")
    case True
    then show ?thesis using dispose [of "cw_writer w"] ready hdr by (auto simp: cw_Close_def cw_ready_def)
  next
    case False
    obtain s1 where s1: "cw_Commit (cw_written w) w = (NO_ERROR, w\<lparr>cw_writer := s1\<rparr>)" "sw_ok s1" "sw_open s1"
        "sw_bytes s1 = sw_bytes (cw_writer w) @ cw_pending w"
      using cw_Commit_ok [OF ready(1)] by auto
    have enc: "sw_bytes s1 @ le_bytes 8 (cw_checksum w) = hdr @ enc_blocks (cw_d w) D" using hdr(2) False s1(4) by simp
    then have "length (sw_bytes s1) + 8 < 2 ^ 63" using len by (metis (no_types) length_append length_le_bytes add_lessD1)
    then obtain s2 where s2: "cw_WriteChecksum io (w\<lparr>cw_writer := s1\<rparr>) = Inr (NO_ERROR, w\<lparr>cw_writer := s2\<rparr>)" "sw_ok s2" "sw_open s2"
        "sw_bytes s2 = sw_bytes s1 @ le_bytes 8 (cw_checksum w)"
      using cw_WriteChecksum_ok [of "w\<lparr>cw_writer := s1\<rparr>" io] s1 assms(2) by auto
    then show ?thesis using False s1(1) ready(2) hdr(1) enc dispose [OF s2(2,3)] by (auto simp: cw_Close_def word_neq_0_conv)
  qed
qed

lemma cw_BytesIssued_ok:
  assumes "cw_is w H D" "io_good io" "H + 9 * length D + 16 < 2 ^ 63"
  shows "fst (cw_BytesIssued io w) = of_nat (H + length (enc_blocks (cw_d w) D)) \<and> cw_is (snd (cw_BytesIssued io w)) H D \<and>
    cw_defaultBlockSize (snd (cw_BytesIssued io w)) = cw_defaultBlockSize w"
proof -
  have ready: "cw_ready w" "cw_defaultBlockSize w \<noteq> 0" using assms(1) by (auto simp: cw_is_def cw_ready_def)
  have fits: "sw_fits 0 (cw_writer w)" using cw_is_length [OF assms(1)] assms(3) by (simp add: sw_fits_def)
  obtain s where s: "sw_Flush io (cw_writer w) = (NO_ERROR, s)" "sw_ok s" "sw_bytes s = sw_bytes (cw_writer w)" "sw_current s = sw_current (cw_writer w)"
      "sw_cbUsed s = sw_cbUsed (cw_writer w)" "sw_pbWrite s = sw_pbWrite (cw_writer w)" "sw_cbBufSize s = sw_cbBufSize (cw_writer w)"
      "sw_open s = sw_open (cw_writer w)"
    using sw_Flush_ok [OF _ assms(2) fits] ready(1) by (auto simp: cw_ready_def)
  have "cw_ready (w\<lparr>cw_writer := s\<rparr>)" "cw_pending (w\<lparr>cw_writer := s\<rparr>) = cw_pending w" "cw_d (w\<lparr>cw_writer := s\<rparr>) = cw_d w"
    using ready(1) s by (auto simp: cw_ready_def cw_pending_def cw_d_def)
  then have "cw_is (w\<lparr>cw_writer := s\<rparr>) H D" using assms(1) s(3) by (simp add: cw_is_def cong: if_cong split del: if_split)
  moreover obtain hdr where hdr: "length hdr = H" "if cw_dataWrittenOffset w = 0 then sw_bytes (cw_writer w) = hdr @ enc_blocks (cw_d w) D
      else sw_bytes (cw_writer w) @ cw_pending w @ le_bytes 8 (cw_checksum w) = hdr @ enc_blocks (cw_d w) D"
    using enc_blocks_split [OF assms(1)] by blast
  moreover have "sw_BytesIssued s = of_nat (length (sw_bytes (cw_writer w)))"
    using sw_BytesIssued_ok(2) [OF s(2)] fits s(3) by (simp add: sw_fits_def)
  moreover have "ucast (cw_written w + CHECKSUM_SIZE) = (of_nat (length (cw_pending w) + 8) :: u64)"
  proof -
    have "length (cw_pending w) = unat (cw_written w)" using CommitAvailable_ok [OF ready(1)] by auto
    moreover have "unat (cw_written w) \<le> unat (sw_cbBufSize (cw_writer w))"
      using ready(1) by (auto simp: cw_ready_def sw_ok_def word_le_nat_alt unat_sub)
    then have "unat (cw_written w + CHECKSUM_SIZE) = unat (cw_written w) + 8"
      using ready(1) unat_add_no_wrap [of "cw_written w" CHECKSUM_SIZE] by (simp add: CHECKSUM_SIZE_def cw_ready_def)
    ultimately show ?thesis by (metis of_nat_unat unat_ucast_u64 ucast_id)
  qed
  moreover have "if cw_dataWrittenOffset w = 0 then length (sw_bytes (cw_writer w)) = H + length (enc_blocks (cw_d w) D)
      else length (sw_bytes (cw_writer w)) + (length (cw_pending w) + 8) = H + length (enc_blocks (cw_d w) D)"
    using hdr by (metis length_append length_le_bytes)
  ultimately show ?thesis
    using s(1) ready(2) by (auto simp: cw_BytesIssued_def Let_def word_neq_0_conv of_nat_add [symmetric] simp del: of_nat_add split: if_splits)
qed

section \<open>What the reader has before it\<close>

text \<open>The reader has the data D before it: the rest of the current block, and the blocks of D2 in the file.\<close>
definition cr_is :: "cp_reader \<Rightarrow> u8 list \<Rightarrow> bool" where
  "cr_is r D \<longleftrightarrow> 8 < unat (cr_defaultBlockSize r) \<and> cr_dataReadOffset r \<le> cr_currentBlockSize r \<and> cr_currentBlockSize r \<le> cr_defaultBlockSize r \<and>
     (\<exists>block D2. cr_dataBlock r = Some block \<and> length block = unat (cr_defaultBlockSize r) \<and>
        sr_is (cr_reader r) (enc_blocks (unat (cr_defaultBlockSize r) - 8) D2) \<and>
        D = drop (unat (cr_dataReadOffset r)) (take (unat (cr_currentBlockSize r)) block) @ D2)"

lemma error_codes_distinct [simp]: "ERROR_HANDLE_EOF \<noteq> NO_ERROR" "ERROR_CRC \<noteq> NO_ERROR" "ERROR_CRC \<noteq> ERROR_HANDLE_EOF"
  by (simp_all add: win_errors)

text \<open>ReadNextDataBlock when a block x with the checksum ck follows in the file: it is in the buffer afterwards, and compared.\<close>
lemma ReadNextDataBlock_block:
  assumes src: "sr_is (cr_reader r) (x @ ck @ S)" "read_good io" and B: "cr_dataBlock r = Some block" "8 < unat (cr_defaultBlockSize r)"
    and x: "0 < length x" "length ck = 8" "length x + 8 = unat (cr_defaultBlockSize r) \<or> length x + 8 < unat (cr_defaultBlockSize r) \<and> S = []"
  shows "\<exists>sr'. ReadNextDataBlock little p io r = Inr (if of_le ck = block_checksum x then NO_ERROR else ERROR_CRC,
      r\<lparr>cr_dataReadOffset := 0, cr_nextblockOffset := cr_nextblockOffset r + ucast (cr_defaultBlockSize r), cr_reader := sr',
        cr_currentBlockSize := of_nat (length x), cr_dataBlock := Some (write_at 0 (x @ ck) block)\<rparr>) \<and> sr_is sr' S"
proof -
  let ?B = "unat (cr_defaultBlockSize r)" and ?S = "x @ ck @ S"
  obtain sr' where sr': "fill (GetDataPointer io True) ?B (cr_defaultBlockSize r) (cr_reader r) =
      Inr (if length ?S < ?B then ERROR_HANDLE_EOF else NO_ERROR, take ?B ?S, sr')" "sr_is sr' (drop ?B ?S)"
    using sr.fill_ok [of "cr_reader r" ?S io "cr_defaultBlockSize r" ?B] src by auto
  have rest: "take ?B ?S = x @ ck" "drop ?B ?S = S" using x(2,3) by auto
  define n :: u32 where "n = of_nat (length x)"
  have n: "unat n = length x" "unat (of_nat (length x + 8) :: u32) = length x + 8"
    using x(3) B(2) unsigned_less [of "cr_defaultBlockSize r", where ?'a = nat]
    by (auto simp: n_def unat_of_nat take_bit_nat_eq_self simp del: of_nat_add)
  have n8: "of_nat (length x + 8) - CHECKSUM_SIZE = n" by (simp add: n_def CHECKSUM_SIZE_def)
  have cb: "of_nat (length x + 8) \<le> cr_defaultBlockSize r" "\<not> of_nat (length x + 8) < CHECKSUM_SIZE" "of_nat (length x + 8) > (0 :: u32)" "n > 0"
    using n x B(2) by (auto simp: word_le_nat_alt word_less_nat_alt CHECKSUM_SIZE_def simp del: of_nat_add)
  have "of_le ck = CalculateChecksum little p x \<longleftrightarrow> of_le ck = block_checksum x"
    by (simp add: CalculateChecksum_rabin block_checksum_def)
  then have "ReadNextDataBlock little p io r = Inr (if of_le ck = block_checksum x then NO_ERROR else ERROR_CRC,
      r\<lparr>cr_dataReadOffset := 0, cr_nextblockOffset := cr_nextblockOffset r + ucast (cr_defaultBlockSize r), cr_reader := sr',
        cr_currentBlockSize := n, cr_dataBlock := Some (write_at 0 (x @ ck) block)\<rparr>)"
    unfolding ReadNextDataBlock_def Let_def
    using sr'(1) rest(1) B(1) n n8 cb x(2) by (simp del: of_nat_add)
  then show ?thesis using sr'(2) rest(2) by (auto simp: n_def)
qed

lemma ReadNextDataBlock_ok:
  assumes "cr_is r D" "read_good io" "cr_dataReadOffset r = cr_currentBlockSize r"
  shows "\<exists>r'. ReadNextDataBlock little p io r = Inr (if D = [] then ERROR_HANDLE_EOF else NO_ERROR, r') \<and> cr_is r' D \<and>
    (D \<noteq> [] \<longrightarrow> cr_dataReadOffset r' < cr_currentBlockSize r') \<and> cr_defaultBlockSize r' = cr_defaultBlockSize r"
proof -
  let ?B = "unat (cr_defaultBlockSize r)"
  let ?d = "?B - 8"
  obtain block where block: "cr_dataBlock r = Some block" "length block = ?B" and src: "sr_is (cr_reader r) (enc_blocks ?d D)" and B: "8 < ?B"
    using assms(1,3) by (auto simp: cr_is_def)
  let ?S = "enc_blocks ?d D"
  show ?thesis
  proof (cases "D = []")
    case True
    then obtain sr' where "fill (GetDataPointer io True) ?B (cr_defaultBlockSize r) (cr_reader r) = Inr (ERROR_HANDLE_EOF, [], sr')" "sr_is sr' []"
      using sr.fill_ok [of "cr_reader r" ?S io "cr_defaultBlockSize r" ?B] src assms(2) B by auto
    then show ?thesis using True block B
      by (auto simp: ReadNextDataBlock_def Let_def cr_is_def write_at_def intro!: exI [of _ "[] :: u8 list"])
  next
    case False
    define x where "x = take ?d D"
    have S: "?S = x @ le_bytes 8 (block_checksum x) @ enc_blocks ?d (drop ?d D)"
      using False B by (simp add: x_def enc_blocks.simps [of ?d D])
    have x: "0 < length x" "length x \<le> ?d" using False B by (auto simp: x_def)
    have "length x < ?d \<Longrightarrow> drop ?d D = []" by (auto simp: x_def)
    then have "length x + 8 = ?B \<or> length x + 8 < ?B \<and> enc_blocks ?d (drop ?d D) = []" using x(2) B by (cases "length x < ?d") auto
    moreover have "sr_is (cr_reader r) (x @ le_bytes 8 (block_checksum x) @ enc_blocks ?d (drop ?d D))" using src S by simp
    ultimately obtain sr' where res: "ReadNextDataBlock little p io r = Inr (NO_ERROR,
        r\<lparr>cr_dataReadOffset := 0, cr_nextblockOffset := cr_nextblockOffset r + ucast (cr_defaultBlockSize r), cr_reader := sr',
          cr_currentBlockSize := of_nat (length x), cr_dataBlock := Some (write_at 0 (x @ le_bytes 8 (block_checksum x)) block)\<rparr>)"
        "sr_is sr' (enc_blocks ?d (drop ?d D))"
      using ReadNextDataBlock_block [OF _ assms(2) block(1) B x(1), where ck = "le_bytes 8 (block_checksum x)" and
          S = "enc_blocks ?d (drop ?d D)" and little = little and p = p]
      by (auto simp: of_le_le_bytes)
    have n: "unat (of_nat (length x) :: u32) = length x"
      using x(2) unsigned_less [of "cr_defaultBlockSize r", where ?'a = nat] by (simp add: unat_of_nat take_bit_nat_eq_self)
    have "take (length x) (write_at 0 (x @ le_bytes 8 (block_checksum x)) block) = x" by (simp add: write_at_def)
    moreover have "length (write_at 0 (x @ le_bytes 8 (block_checksum x)) block) = ?B" using x(2) B block(2) by (simp add: write_at_def)
    moreover have "D = x @ drop ?d D" by (simp add: x_def)
    ultimately show ?thesis
      using res(1) False n x B res(2) by (auto simp: cr_is_def word_le_nat_alt word_less_nat_alt)
  qed
qed

lemma cr_take:
  assumes "cr_is r D" "n \<noteq> 0" "cr_dataReadOffset r < cr_currentBlockSize r"
    and cb_def: "cb = (if cr_currentBlockSize r - cr_dataReadOffset r > n then n else cr_currentBlockSize r - cr_dataReadOffset r)"
  shows "\<exists>bs D'. cr_GetDataPointer little p io n r = Inr (NO_ERROR, bs, r\<lparr>cr_dataReadOffset := cr_dataReadOffset r + cb\<rparr>) \<and> bs \<noteq> [] \<and>
    length bs = unat cb \<and> unat cb \<le> unat n \<and> D = bs @ D' \<and> cr_is (r\<lparr>cr_dataReadOffset := cr_dataReadOffset r + cb\<rparr>) D'"
proof -
  obtain block D2 where b: "cr_dataBlock r = Some block" "length block = unat (cr_defaultBlockSize r)"
      "sr_is (cr_reader r) (enc_blocks (unat (cr_defaultBlockSize r) - 8) D2)" "8 < unat (cr_defaultBlockSize r)"
      "D = drop (unat (cr_dataReadOffset r)) (take (unat (cr_currentBlockSize r)) block) @ D2" "unat (cr_currentBlockSize r) \<le> length block"
    using assms(1) by (auto simp: cr_is_def word_le_nat_alt)
  let ?off = "cr_dataReadOffset r" and ?cur = "cr_currentBlockSize r"
  have sub: "unat (?cur - ?off) = unat ?cur - unat ?off" using assms(3) by (simp add: unat_sub)
  then have cb: "unat cb = min (unat n) (unat ?cur - unat ?off)" by (auto simp: cb_def word_less_nat_alt)
  then have c: "0 < unat cb" "unat cb \<le> unat n" "unat ?off + unat cb \<le> unat ?cur"
    using assms(2,3) by (auto simp: unat_gt_0 word_less_nat_alt)
  then have add: "unat (?off + cb) = unat ?off + unat cb"
    using unsigned_less [of ?cur, where ?'a = nat] by (intro unat_add_no_wrap) simp
  let ?bs = "take (unat cb) (drop (unat ?off) block)" and ?r = "r\<lparr>cr_dataReadOffset := ?off + cb\<rparr>"
  let ?D = "drop (unat ?off + unat cb) (take (unat ?cur) block) @ D2"
  have "cr_GetDataPointer little p io n r = Inr (NO_ERROR, ?bs, ?r)"
    using b(1,6) less_imp_neq [OF assms(3)] c(3) add by (simp add: cr_GetDataPointer_def Let_def cb_def [symmetric] word_le_nat_alt)
  moreover have "cr_is ?r ?D" using assms(1) b(1-3) c(3) add by (auto simp: cr_is_def word_le_nat_alt)
  moreover have "D = ?bs @ ?D"
  proof -
    have "take (unat cb) (drop (unat ?off) (take (unat ?cur) block)) = ?bs" using c(3) by (simp add: drop_take min_def)
    then show ?thesis
      using b(5) append_take_drop_id [of "unat cb" "drop (unat ?off) (take (unat ?cur) block)"]
      by (simp add: add.commute del: append_take_drop_id)
  qed
  moreover have "length ?bs = unat cb" using c(3) b(6) by simp
  ultimately show ?thesis using c(1,2) by (metis length_greater_0_conv)
qed

lemma cr_serve:
  assumes "cr_is r D" "n \<noteq> 0" "cr_dataReadOffset r < cr_currentBlockSize r"
  shows "\<exists>bs D' r'. cr_GetDataPointer little p io n r = Inr (NO_ERROR, bs, r') \<and> bs \<noteq> [] \<and> length bs \<le> unat n \<and> D = bs @ D' \<and> cr_is r' D'"
  using cr_take [OF assms refl, of little p io] by metis

interpretation cr: byte_source "\<lambda>r D. cr_is r D \<and> read_good io" "cr_GetDataPointer little p io" for little p io
proof
  fix r and n :: u32
  assume r: "cr_is r [] \<and> read_good io" "n \<noteq> 0"
  then have "cr_dataReadOffset r = cr_currentBlockSize r" "cr_dataBlock r \<noteq> None"
    using cr_serve [of r "[]" n] by (auto simp: cr_is_def order_le_less)
  then show "\<exists>r'. cr_GetDataPointer little p io n r = Inr (ERROR_HANDLE_EOF, [], r') \<and> cr_is r' [] \<and> read_good io"
    using ReadNextDataBlock_ok [of r "[]" io little p] r by (auto simp: cr_GetDataPointer_def)
next
  fix r D and n :: u32
  assume r: "cr_is r D \<and> read_good io" "D \<noteq> []" "n \<noteq> 0"
  show "\<exists>bs D' r'. cr_GetDataPointer little p io n r = Inr (NO_ERROR, bs, r') \<and> bs \<noteq> [] \<and> length bs \<le> unat n \<and> D = bs @ D' \<and>
      cr_is r' D' \<and> read_good io"
  proof (cases "cr_dataReadOffset r = cr_currentBlockSize r")
    case True
    then obtain r1 where r1: "ReadNextDataBlock little p io r = Inr (NO_ERROR, r1)" "cr_is r1 D" "cr_dataReadOffset r1 < cr_currentBlockSize r1"
      using ReadNextDataBlock_ok [of r D io little p] r by auto
    have "cr_GetDataPointer little p io n r = cr_GetDataPointer little p io n r1"
      using r1 True r by (auto simp: cr_GetDataPointer_def cr_is_def)
    then show ?thesis using cr_serve [OF r1(2) r(3) r1(3)] r by metis
  next
    case False
    then have "cr_dataReadOffset r < cr_currentBlockSize r" using r by (auto simp: cr_is_def order_le_less)
    then show ?thesis using cr_serve [OF _ r(3), of r D little p io] r by auto
  qed
qed

lemma cr_fills_cursor: "cr_is r D \<Longrightarrow> read_good io \<Longrightarrow> fills (cr_GetDataPointer little p io) ns r = Inr (cursor ns D)"
proof (induction ns arbitrary: r D)
  case (Cons n ns)
  then obtain r' where "fill (cr_GetDataPointer little p io) (unat n) n r =
      Inr (if length D < unat n then ERROR_HANDLE_EOF else NO_ERROR, take (unat n) D, r')" "cr_is r' (drop (unat n) D)"
    using cr.fill_ok [of r D io n "unat n" little p] by auto
  then show ?case using Cons.IH [of r' "drop (unat n) D"] Cons.prems(2) by simp
qed simp

text \<open>Skip passes over n bytes, or to the end, where it reports the end of the file.\<close>
lemma cr_skip_loop_ok:
  "cr_is r D \<Longrightarrow> read_good io \<Longrightarrow> unat n \<le> k \<Longrightarrow>
   \<exists>r'. cr_skip_loop little p io k n r = Inr (if length D < unat n then ERROR_HANDLE_EOF else NO_ERROR, r') \<and> cr_is r' (drop (unat n) D)"
proof (induction k arbitrary: n r D)
  case 0
  then show ?case by (auto simp: cr_skip_loop.simps unat_eq_0 cr_is_def)
next
  case (Suc k)
  have le: "cr_dataReadOffset r \<le> cr_currentBlockSize r" using Suc.prems(1) by (simp add: cr_is_def)
  show ?case
  proof (cases "n = 0")
    case True
    then show ?thesis using Suc.prems(1) le by (simp add: cr_skip_loop.simps)
  next
    case n: False
    show ?thesis
    proof (cases "D = []")
      case True
      then have "cr_dataReadOffset r = cr_currentBlockSize r"
        using cr_serve [of r "[]" n] n Suc.prems(1) le by (auto simp: order_le_less)
      then show ?thesis using ReadNextDataBlock_ok [OF Suc.prems(1,2), of little p] True n le by (auto simp: cr_skip_loop.simps [of little p io "Suc k"] unat_gt_0)
    next
      case False
      obtain r1 where r1: "(if cr_dataReadOffset r = cr_currentBlockSize r then ReadNextDataBlock little p io r else Inr (NO_ERROR, r)) = Inr (NO_ERROR, r1)"
          "cr_is r1 D" "cr_dataReadOffset r1 < cr_currentBlockSize r1"
      proof (cases "cr_dataReadOffset r = cr_currentBlockSize r")
        case True
        then show thesis using that ReadNextDataBlock_ok [OF Suc.prems(1,2) True, of little p] False by auto
      next
        case False
        then show thesis using that [of r] Suc.prems(1) le by (simp add: order_less_le)
      qed
      define cb where "cb = (let cb = cr_currentBlockSize r1 - cr_dataReadOffset r1 in if cb > n then n else cb)"
      let ?r = "r1\<lparr>cr_dataReadOffset := cr_dataReadOffset r1 + cb\<rparr>"
      obtain bs D' where bs: "cr_GetDataPointer little p io n r1 = Inr (NO_ERROR, bs, ?r)" "bs \<noteq> []" "length bs \<le> unat n" "D = bs @ D'" "cr_is ?r D'"
          "length bs = unat cb"
        using cr_take [OF r1(2) n r1(3), of cb little p io] by (auto simp: cb_def Let_def)
      have sub: "unat (n - cb) = unat n - unat cb" using bs(3,6) by (simp add: unat_sub word_le_nat_alt)
      have "unat (n - cb) \<le> k" using sub Suc.prems(3) bs(2,6) by (cases bs) auto
      moreover have "cr_skip_loop little p io (Suc k) n r = cr_skip_loop little p io k (n - cb) ?r"
        using n le r1(1) unfolding cr_skip_loop.simps [of little p io "Suc k"] by (simp add: cb_def Let_def)
      moreover have "length D < unat n \<longleftrightarrow> length D' < unat (n - cb)" "drop (unat n) D = drop (unat (n - cb)) D'"
        using sub bs(3,4,6) by auto
      ultimately show ?thesis using Suc.IH [OF bs(5) Suc.prems(2), of "n - cb"] by simp
    qed
  qed
qed

lemma cr_Skip_ok:
  "cr_is r D \<Longrightarrow> read_good io \<Longrightarrow>
   \<exists>r'. cr_Skip little p io n r = Inr (if length D < unat n then ERROR_HANDLE_EOF else NO_ERROR, r') \<and> cr_is r' (drop (unat n) D)"
  using cr_skip_loop_ok [of r D io n "unat n" little p] by (auto simp: cr_Skip_def cr_is_def)

lemma length_enc_blocks:
  "0 < d \<Longrightarrow> length (enc_blocks d xs) = length xs div d * (d + 8) + (if length xs mod d = 0 then 0 else length xs mod d + 8)"
proof (induction d xs rule: enc_blocks.induct)
  case (1 d xs)
  show ?case
  proof (cases "length xs < d")
    case True
    then show ?thesis using 1(2) by (cases "xs = []") (simp_all add: enc_blocks.simps [of d xs])
  next
    case False
    then have "xs \<noteq> []" using 1(2) by auto
    then show ?thesis using 1 False by (simp add: enc_blocks.simps [of d xs] le_div_geq le_mod_geq)
  qed
qed

lemma cr_Init_ok:
  assumes io: "read_good io" and B: "8 < unat B" "unat B < 2 ^ 31" "B mod s_PageSize = 0" and H: "length hdr = unat H" "unat H < 2 * unat B"
    and F: "F = hdr @ enc_blocks (unat B - 8) D" "length F < 2 ^ 63" and name: "nameLen < MAXFILENAME_SIZE - 1"
  shows "\<exists>r. cr_Init heap io NO_ERROR F nameLen H B (of_nat (length F)) new_cp_reader = Inr (NO_ERROR, r) \<and> cr_is r D \<and>
    cr_Size r = of_nat (length D)"
proof -
  let ?B = "unat B" let ?d = "?B - 8" let ?S = "length (enc_blocks ?d D)"
  have B0: "B \<noteq> 0" "B > 0" using B(1) by (auto simp: word_less_nat_alt)
  obtain s where s: "sr_DoInit io NO_ERROR F c_maxReadsDefault B new_APSEQREAD = (NO_ERROR, s)" "sr_is s F" "sr_ring True s 0 c_maxReadsDefault 0"
      "sr_file s = F" "sr_readBufSize s = B" "length (sr_rgReads s) = c_maxReadsDefault"
    using sr_DoInit_ok [OF io _ _ B0(1) B(2) F(2), of c_maxReadsDefault] by (auto simp: c_maxReadsDefault_def c_maxReads_def)
  have fs: "sr_FileSize s = of_nat (length F)" "sr_wf s" using sr_is_left [OF s(2)] s(4) by (auto simp: sr_FileSize_def sr_wf_def)
  have "unat H div ?B * ?B \<le> ?B" using H(2) B(1) less_mult_imp_div_less [of "unat H" 2 ?B] by (cases "unat H div ?B = 0") auto
  have "\<forall>k < length (sr_rgReads s). length F + ?B \<le> unat H div ?B * ?B + k * ?B \<longrightarrow> \<not> rb_fNotEof (sr_rgReads s ! k)"
  proof (intro allI impI notI)
    fix k
    assume "k < length (sr_rgReads s)" "rb_fNotEof (sr_rgReads s ! k)"
    then have "k * ?B < length F" using s(3-6) by (auto simp: sr_ring_def sr_block_def Let_def)
    moreover assume "length F + ?B \<le> unat H div ?B * ?B + k * ?B"
    ultimately show False using \<open>unat H div ?B * ?B \<le> ?B\<close> by linarith
  qed
  then obtain s' where s': "sr_Reset io (ucast H) s = (NO_ERROR, s')" "sr_is s' (drop (unat H) F)"
    using sr_Reset_ok [OF io fs(2), of "ucast H"] s(4,5) F(1) H(1) by auto
  define total where "total = (of_nat (length F) :: u64) - ucast H"
  have total: "unat total = ?S" using F H(1) by (simp add: total_def unat_of_nat take_bit_nat_eq_self)
  define q m where "q = length D div ?d" and "m = length D mod ?d"
  have D: "length D = q * ?d + m" by (simp only: q_def m_def div_mult_mod_eq)
  have d: "0 < ?d" "?d + 8 = ?B" "m < ?d" using B(1) by (simp_all add: m_def)
  define e where "e = (if m = 0 then 0 else m + 8)"
  have S: "?S = q * ?B + e" using length_enc_blocks [OF d(1), of D] d(2) by (simp add: q_def m_def e_def)
  have e: "e < ?B" using d by (auto simp: e_def)
  have full: "total div ucast B = of_nat q"
  proof -
    have "unat (total div ucast B) = q" using S e by (simp add: unat_div total)
    then show ?thesis by (metis of_nat_unat ucast_id)
  qed
  have "total = of_nat ?S" using total by (metis of_nat_unat ucast_id)
  then have last: "total - of_nat q * ucast B = of_nat e" using S by simp
  have "(ucast (B - CHECKSUM_SIZE) :: u64) = of_nat ?d"
  proof -
    have "unat (B - CHECKSUM_SIZE) = ?d" using B(1) by (simp add: CHECKSUM_SIZE_def unat_sub word_le_nat_alt)
    then show ?thesis by (metis of_nat_unat unat_ucast_u64 ucast_id)
  qed
  then have data: "of_nat q * (ucast (B - CHECKSUM_SIZE) :: u64) = of_nat (q * ?d)" by simp
  have ue: "unat (of_nat e :: u64) = e" using e B(2) by (simp add: unat_of_nat take_bit_nat_eq_self)
  have "\<not> ((of_nat e :: u64) > 0 \<and> of_nat e \<le> (ucast CHECKSUM_SIZE :: u64))"
    using ue by (auto simp: word_le_nat_alt word_less_nat_alt CHECKSUM_SIZE_def e_def)
  moreover have "(if (of_nat e :: u64) > 0 then of_nat (q * ?d) + (of_nat e - ucast CHECKSUM_SIZE) else of_nat (q * ?d)) = (of_nat (length D) :: u64)"
  proof (cases "m = 0")
    case True
    then show ?thesis using D by (simp add: e_def)
  next
    case False
    then have "(of_nat e :: u64) > 0" "of_nat e - ucast CHECKSUM_SIZE = (of_nat m :: u64)"
      using ue by (auto simp: word_less_nat_alt e_def CHECKSUM_SIZE_def)
    then show ?thesis using D by simp
  qed
  ultimately have "\<exists>r. cr_Init heap io NO_ERROR F nameLen H B (of_nat (length F)) new_cp_reader = Inr (NO_ERROR, r) \<and>
      cr_dataSize r = of_nat (length D) \<and> cr_reader r = s' \<and> cr_defaultBlockSize r = B \<and> cr_dataBlock r = Some (map heap [0..<?B]) \<and>
      cr_currentBlockSize r = 0 \<and> cr_dataReadOffset r = 0"
    using B0 B(3) s(1) s'(1) fs(1) name full last data
    by (auto simp: cr_Init_def Let_def new_cp_reader_def total_def [symmetric] simp del: of_nat_mult split: if_splits)
  moreover have "drop (unat H) F = enc_blocks ?d D" using F(1) H(1) by simp
  ultimately show ?thesis using s'(2) B(1) by (fastforce simp: cr_is_def cr_Size_def)
qed

section \<open>Properties\<close>

interpretation cw: byte_sink "\<lambda>w D. cw_is w H D \<and> cw_defaultBlockSize w = B \<and> io_good io" "\<lambda>D. H + 9 * length D + 16 < 2 ^ 63" "\<lambda>bs. length bs < 2 ^ 32"
  "cw_Write little al io" "\<lambda>w. (NO_ERROR, snd (cw_BytesIssued io w))" for H B little al io
proof
  fix xs ys :: "u8 list"
  assume "H + 9 * length (xs @ ys) + 16 < 2 ^ 63"
  then show "H + 9 * length xs + 16 < 2 ^ 63" by simp
next
  fix w and xs bs :: "u8 list"
  assume "cw_is w H xs \<and> cw_defaultBlockSize w = B \<and> io_good io" "H + 9 * length (xs @ bs) + 16 < 2 ^ 63" "length bs < 2 ^ 32"
  then show "\<exists>w'. cw_Write little al io bs w = Inr (NO_ERROR, w') \<and> cw_is w' H (xs @ bs) \<and> cw_defaultBlockSize w' = B \<and> io_good io"
    using cw_Write_ok [of w H xs io bs little al] by auto
next
  fix w and xs :: "u8 list"
  assume "cw_is w H xs \<and> cw_defaultBlockSize w = B \<and> io_good io" "H + 9 * length xs + 16 < 2 ^ 63"
  then show "\<exists>w'. (NO_ERROR, snd (cw_BytesIssued io w)) = (NO_ERROR, w') \<and> cw_is w' H xs \<and> cw_defaultBlockSize w' = B \<and> io_good io"
    using cw_BytesIssued_ok [of w H xs io] by auto
qed

text \<open>The file a writer leaves behind, its first H bytes replaced by any header of that length, is one the reader accepts.\<close>
lemma stream_written:
  assumes io: "io_good io" "read_good rio" and B: "8 < unat B" "unat B < 2 ^ 31" "B mod s_PageSize = 0" and H: "unat H < 2 * unat B"
    and cs: "unat H + 9 * length (put_data cs) + 16 < 2 ^ 63" "\<forall>bs. Some bs \<in> set cs \<longrightarrow> length bs < 2 ^ 32"
    and name: "nameLen < MAXFILENAME_SIZE - 1"
  shows "\<exists>w w1 w2. cw_Init io NO_ERROR old H B new_cp_writer = Inr (NO_ERROR, w) \<and>
    put_all (cw_Write little al io) (\<lambda>w. (NO_ERROR, snd (cw_BytesIssued io w))) cs w = Inr (NO_ERROR, w1) \<and>
    cw_Close io (snd (cw_BytesIssued io w1)) = Inr (NO_ERROR, w2) \<and> length (sw_file (cw_writer w2)) < 2 ^ 63 \<and>
    unat H \<le> length (sw_file (cw_writer w2)) \<and>
    (\<forall>hdr. length hdr = unat H \<longrightarrow> (\<exists>r.
       cr_Init heap rio NO_ERROR (hdr @ drop (unat H) (sw_file (cw_writer w2))) nameLen H B (fst (cw_BytesIssued io w1)) new_cp_reader =
         Inr (NO_ERROR, r) \<and> cr_is r (put_data cs) \<and> cr_Size r = of_nat (length (put_data cs))))"
proof -
  let ?D = "put_data cs"
  obtain w where w: "cw_Init io NO_ERROR old H B new_cp_writer = Inr (NO_ERROR, w)" "cw_is w (unat H) []" "cw_defaultBlockSize w = B"
    using cw_Init_ok [OF io(1) B(1,3,2)] by blast
  obtain w1 where w1: "put_all (cw_Write little al io) (\<lambda>w. (NO_ERROR, snd (cw_BytesIssued io w))) cs w = Inr (NO_ERROR, w1)"
      "cw_is w1 (unat H) ?D" "cw_defaultBlockSize w1 = B"
    using cw.put_all_ok [where s = w and H = "unat H" and B = B and io = io and xs = "[]" and cs = cs and little = little and al = al] w(2,3) io(1) cs by auto
  have d: "cw_d w1 = unat B - 8" using w1(3) by (simp add: cw_d_def)
  define w1' where "w1' = snd (cw_BytesIssued io w1)"
  have b: "fst (cw_BytesIssued io w1) = of_nat (unat H + length (enc_blocks (unat B - 8) ?D))" "cw_is w1' (unat H) ?D" "cw_d w1' = unat B - 8"
    using cw_BytesIssued_ok [OF w1(2) io(1) cs(1)] d w1(3) by (auto simp: cw_d_def w1'_def)
  obtain w2 hdr' where w2: "cw_Close io w1' = Inr (NO_ERROR, w2)" "length hdr' = unat H" "sw_file (cw_writer w2) = hdr' @ enc_blocks (unat B - 8) ?D"
    using cw_Close_ok [OF b(2) io(1) cs(1)] b(3) by auto
  have len: "unat H + length (enc_blocks (unat B - 8) ?D) < 2 ^ 63"
    using cs(1) length_enc_blocks_le [of "unat B - 8" ?D] by simp
  have "\<exists>r. cr_Init heap rio NO_ERROR (hdr @ drop (unat H) (sw_file (cw_writer w2))) nameLen H B (fst (cw_BytesIssued io w1)) new_cp_reader =
      Inr (NO_ERROR, r) \<and> cr_is r ?D \<and> cr_Size r = of_nat (length ?D)" if hdr: "length hdr = unat H" for hdr
    using cr_Init_ok [OF io(2) B hdr H refl _ name, of ?D heap] w2(2,3) len b(1) hdr by simp
  then show ?thesis using w(1) w1(1) w2 len by (simp add: w1'_def)
qed

text \<open>What a state machine writes to its checkpoint stream, in pieces of any size (and asking for the size in between),
  is what a reader of the file delivers, in order and to the end, whatever header of the same length is put in
  front; the size BytesIssued reports is the one the reader checks, and Size is the amount of data.\<close>
theorem checkpoint_stream_roundtrip:
  assumes io: "io_good io" "read_good rio" and B: "8 < unat B" "unat B < 2 ^ 31" "B mod s_PageSize = 0" and H: "unat H < 2 * unat B"
    and cs: "unat H + 9 * length (put_data cs) + 16 < 2 ^ 63" "\<forall>bs. Some bs \<in> set cs \<longrightarrow> length bs < 2 ^ 32"
    and hdr: "length hdr = unat H" and name: "nameLen < MAXFILENAME_SIZE - 1"
  shows "\<exists>w w1 w2 r. cw_Init io NO_ERROR old H B new_cp_writer = Inr (NO_ERROR, w) \<and>
    put_all (cw_Write little al io) (\<lambda>w. (NO_ERROR, snd (cw_BytesIssued io w))) cs w = Inr (NO_ERROR, w1) \<and>
    cw_Close io (snd (cw_BytesIssued io w1)) = Inr (NO_ERROR, w2) \<and>
    cr_Init heap rio NO_ERROR (hdr @ drop (unat H) (sw_file (cw_writer w2))) nameLen H B (fst (cw_BytesIssued io w1)) new_cp_reader = Inr (NO_ERROR, r) \<and>
    cr_Size r = of_nat (length (put_data cs)) \<and> fills (cr_GetData little p rio) ns r = Inr (cursor ns (put_data cs))"
proof -
  have "fills (cr_GetData little p rio) ns r = Inr (cursor ns (put_data cs))" if "cr_is r (put_data cs)" for r
    using cr_fills_cursor [OF that io(2)] by (simp add: cr_GetData_def [abs_def])
  then show ?thesis using stream_written [OF io B H cs name, of old little al heap] hdr by blast
qed

text \<open>A block whose bytes do not have the fingerprint stored behind them is reported with ERROR_CRC and no data, the first
  time; the block is left in the buffer, and a client that asks again is given its bytes with NO_ERROR.\<close>
theorem corrupt_block_reported_once:
  assumes src: "sr_is (cr_reader r) (x @ ck @ S)" "read_good io" and B: "cr_dataBlock r = Some block" "length block = unat (cr_defaultBlockSize r)"
      "8 < unat (cr_defaultBlockSize r)" "cr_dataReadOffset r = cr_currentBlockSize r"
    and x: "0 < length x" "length ck = 8" "length x + 8 = unat (cr_defaultBlockSize r) \<or> length x + 8 < unat (cr_defaultBlockSize r) \<and> S = []"
    and bad: "of_le ck \<noteq> block_checksum x" and n: "n \<noteq> 0"
  shows "\<exists>r1 r2. cr_GetData little p io n r = Inr (ERROR_CRC, [], r1) \<and> cr_GetData little p io n r1 = Inr (NO_ERROR, take (unat n) x, r2)"
proof -
  obtain sr' where res: "ReadNextDataBlock little p io r = Inr (ERROR_CRC,
      r\<lparr>cr_dataReadOffset := 0, cr_nextblockOffset := cr_nextblockOffset r + ucast (cr_defaultBlockSize r), cr_reader := sr',
        cr_currentBlockSize := of_nat (length x), cr_dataBlock := Some (write_at 0 (x @ ck) block)\<rparr>)"
    using ReadNextDataBlock_block [OF src B(1,3) x, of little p] bad by auto
  define cur :: u32 where "cur = of_nat (length x)"
  have cur: "unat cur = length x"
    using x(3) B(3) unsigned_less [of "cr_defaultBlockSize r", where ?'a = nat] by (auto simp: cur_def unat_of_nat take_bit_nat_eq_self)
  then have "cur \<noteq> 0" using x(1) by auto
  have w: "length x \<le> length (write_at 0 (x @ ck) block)" "m \<le> length x \<Longrightarrow> take m (write_at 0 (x @ ck) block) = take m x" for m
    by (simp_all add: write_at_def)
  show ?thesis
  proof (cases "n < cur")
    case True
    then have "unat n \<le> length x" using cur by (simp add: word_less_nat_alt)
    then show ?thesis using res B(1,4) \<open>cur \<noteq> 0\<close> True w by (simp add: cr_GetData_def cr_GetDataPointer_def cur_def [symmetric] Let_def)
  next
    case False
    then have "take (unat n) x = x" using cur by (simp add: word_less_nat_alt)
    then show ?thesis using res B(1,4) \<open>cur \<noteq> 0\<close> False cur w by (simp add: cr_GetData_def cr_GetDataPointer_def cur_def [symmetric] Let_def)
  qed
qed

text \<open>A file of one block with a fingerprint that is not its own.\<close>
definition ex_corrupt :: "u8 list" where
  "ex_corrupt = [1, 2, 3] @ le_bytes 8 (block_checksum [1, 2, 3] + 1)"

definition ex_reader :: cp_reader where
  "ex_reader = new_cp_reader\<lparr>cr_reader := snd (sr_DoInit read_pending NO_ERROR ex_corrupt 2 16 new_APSEQREAD), cr_defaultBlockSize := 16,
     cr_dataBlock := Some (replicate 16 0)\<rparr>"

theorem corrupt_block_reported_once_witness:
  "\<exists>r1 r2. cr_GetData True 0 read_pending 2 ex_reader = Inr (ERROR_CRC, [], r1) \<and>
    cr_GetData True 0 read_pending 2 r1 = Inr (NO_ERROR, [1, 2], r2)"
proof -
  have len: "length ex_corrupt < 2 ^ 63" by (simp add: ex_corrupt_def)
  obtain s where s: "sr_DoInit read_pending NO_ERROR ex_corrupt 2 16 new_APSEQREAD = (NO_ERROR, s)" "sr_is s ex_corrupt"
    using sr_DoInit_ok [OF read_good_sample _ _ _ _ len, of 2 16] by (auto simp: c_maxReads_def)
  then have "sr_is (cr_reader ex_reader) ([1, 2, 3] @ le_bytes 8 (block_checksum [1, 2, 3] + 1) @ [])"
    by (simp add: ex_reader_def ex_corrupt_def)
  from corrupt_block_reported_once [OF this read_good_sample, of "replicate 16 0" 2 True 0] show ?thesis
    by (simp add: ex_reader_def new_cp_reader_def of_le_le_bytes)
qed

text \<open>Small pieces, a header of one page, blocks of one page.\<close>
theorem checkpoint_stream_roundtrip_witness:
  "\<exists>w w1 w2 r. cw_Init io_pending NO_ERROR [7, 7] 512 512 new_cp_writer = Inr (NO_ERROR, w) \<and>
    put_all (cw_Write True (\<lambda>_ _. 0) io_pending) (\<lambda>w. (NO_ERROR, snd (cw_BytesIssued io_pending w))) [Some [1, 2, 3], None, Some [4, 5]] w = Inr (NO_ERROR, w1) \<and>
    cw_Close io_pending (snd (cw_BytesIssued io_pending w1)) = Inr (NO_ERROR, w2) \<and>
    cr_Init (\<lambda>_. 0) read_pending NO_ERROR (replicate 512 9 @ drop 512 (sw_file (cw_writer w2))) 10 512 512 (fst (cw_BytesIssued io_pending w1)) new_cp_reader
      = Inr (NO_ERROR, r) \<and>
    cr_Size r = 5 \<and> fills (cr_GetData True 0 read_pending) [2, 4] r = Inr [(NO_ERROR, [1, 2]), (ERROR_HANDLE_EOF, [3, 4, 5])]"
proof -
  have d: "put_data [Some [1, 2, 3], None, Some [4, 5]] = [1, 2, 3, 4, 5]" by (simp add: put_data_def map_filter_simps)
  have "cursor [2, 4] [1, 2, 3, 4, 5] = [(NO_ERROR, [1, 2]), (ERROR_HANDLE_EOF, [3, 4, 5])]" by simp
  then show ?thesis
    using checkpoint_stream_roundtrip [OF io_good_samples(2) read_good_sample, where B = 512 and H = 512 and cs = "[Some [1, 2, 3], None, Some [4, 5]]"
        and hdr = "replicate 512 9" and nameLen = 10 and old = "[7, 7]" and little = True and al = "\<lambda>_ _. 0" and heap = "\<lambda>_. 0" and p = 0 and ns = "[2, 4]"]
    unfolding d by (simp add: s_PageSize_def MAXFILENAME_SIZE_def)
qed

end
