(* ===== verification/Streams.thy ===== *)
theory Streams
  imports Seq_Read
begin

text \<open>
  The streams that messages are read from (legislator.h, legislator.cpp): the
  StreamReader interface, DiskStreamReader on the sequential reader, and
  SocketStreamReader on the loops of StreamSocket (src/src/common/src/StreamIO.cpp).
  The calls recv and send of the operating system are parameters.
\<close>

section \<open>Sockets\<close>

definition IO_BATCH_SIZE :: int where "IO_BATCH_SIZE = 1024 * 1024 * 4"

text \<open>The number of bytes asked for in one call; the cast to int makes it negative from 2^31 on.\<close>
definition sock_todo :: "u32 \<Rightarrow> int" where
  "sock_todo n = min (sint n) IO_BATCH_SIZE"

text \<open>recv gives the bytes received, none at the end of the stream, or the error code behind a negative result.\<close>
fun StreamSocket_Read :: "(int \<Rightarrow> 'k \<Rightarrow> (u32 + u8 list) \<times> 'k) \<Rightarrow> bool \<Rightarrow> nat \<Rightarrow> u32 \<Rightarrow> u8 list \<Rightarrow> 'k \<Rightarrow> (u32 \<times> u8 list \<times> 'k) res" where
  "StreamSocket_Read recv bShouldReceiveAll k n got s =
     (if n = 0 then Inr (NO_ERROR, got, s)
      else case k of
             0 \<Rightarrow> Inl OutOfFuel
           | Suc k \<Rightarrow>
               (case recv (sock_todo n) s of
                  (Inl e, s) \<Rightarrow> Inr (e, got, s)
                | (Inr bs, s) \<Rightarrow>
                    if bs = [] then Inr (if got = [] then ERROR_HANDLE_EOF else NO_ERROR, got, s)
                    else if \<not> bShouldReceiveAll then Inr (NO_ERROR, got @ bs, s)
                    else StreamSocket_Read recv bShouldReceiveAll k (n - of_nat (length bs)) (got @ bs) s))"

text \<open>send gives its result and what WSAGetLastError says after it.\<close>
fun StreamSocket_Write :: "(int \<Rightarrow> u8 list \<Rightarrow> 'k \<Rightarrow> int \<times> u32 \<times> 'k) \<Rightarrow> nat \<Rightarrow> u8 list \<Rightarrow> 'k \<Rightarrow> (u32 \<times> nat \<times> 'k) res" where
  "StreamSocket_Write send k bs s =
     (if bs = [] then Inr (NO_ERROR, 0, s)
      else case k of
             0 \<Rightarrow> Inl OutOfFuel
           | Suc k \<Rightarrow>
               (case send (sock_todo (of_nat (length bs))) bs s of (bytes, ec, s) \<Rightarrow>
                  if bytes \<le> 0 then Inr (ec, 0, s)
                  else bindE (StreamSocket_Write send k (drop (nat bytes) bs) s) (\<lambda>(ec, sent, s). Inr (ec, nat bytes + sent, s))))"

declare StreamSocket_Read.simps [simp del] StreamSocket_Write.simps [simp del]

section \<open>Readers\<close>

record 'k SocketStreamReader =
  ss_sock :: 'k
  ss_read :: u64

definition SocketStreamReader_Read ::
  "(int \<Rightarrow> 'k \<Rightarrow> (u32 + u8 list) \<times> 'k) \<Rightarrow> u32 \<Rightarrow> 'k SocketStreamReader \<Rightarrow> (u32 \<times> u8 list \<times> 'k SocketStreamReader) res" where
  "SocketStreamReader_Read recv n s =
     bindE (StreamSocket_Read recv True (unat n) n [] (ss_sock s)) (\<lambda>(ec, bs, k).
       Inr (ec, bs, s\<lparr>ss_sock := k, ss_read := ss_read s + of_nat (length bs)\<rparr>))"

record DiskStreamReader =
  ds_seqRead :: APSEQREAD
  ds_read :: u64

text \<open>
  One turn of the loop of Read.  The counter is moved before the error code is
  looked at; junk is the value of the local variable bytes when GetDataPointer
  has not set it.
\<close>
definition disk_get :: "u32 \<Rightarrow> read_io \<Rightarrow> u32 \<Rightarrow> DiskStreamReader \<Rightarrow> (u32 \<times> u8 list \<times> DiskStreamReader) res" where
  "disk_get junk io n s =
     bindE (GetDataPointer io True n (ds_seqRead s)) (\<lambda>(ec, bs, q).
       Inr (ec, bs, s\<lparr>ds_seqRead := q,
                     ds_read := ds_read s + (if ec = NO_ERROR then of_nat (length bs) else ucast junk)\<rparr>))"

definition DiskStreamReader_Read :: "u32 \<Rightarrow> read_io \<Rightarrow> u32 \<Rightarrow> DiskStreamReader \<Rightarrow> (u32 \<times> u8 list \<times> DiskStreamReader) res" where
  "DiskStreamReader_Read junk io n s =
     bindE (fill (disk_get junk io) (unat n) n s) (\<lambda>(ec, bs, s).
       Inr (if ec = ERROR_HANDLE_EOF \<and> bs \<noteq> [] then NO_ERROR else ec, bs, s))"

section \<open>The interface StreamReader\<close>

text \<open>
  src relates a reader and the bytes still to come.  Read gives as many bytes as
  are asked for, or all there are; ERROR_HANDLE_EOF when there are none.  The
  counter is right after a read that got all it asked for.
\<close>
locale stream_reader =
  fixes src :: "'s \<Rightarrow> u8 list \<Rightarrow> bool"
    and read :: "u32 \<Rightarrow> 's \<Rightarrow> (u32 \<times> u8 list \<times> 's) res"
    and bytesRead :: "'s \<Rightarrow> u64"
  assumes read_stream: "src s r \<Longrightarrow> unat n < 2 ^ 31 \<Longrightarrow>
    \<exists>s'. read n s = Inr (if r = [] \<and> n \<noteq> 0 then ERROR_HANDLE_EOF else NO_ERROR, take (unat n) r, s') \<and>
         src s' (drop (unat n) r) \<and> (unat n \<le> length r \<longrightarrow> bytesRead s' = bytesRead s + ucast n)"
begin

lemma read_all:
  assumes "src s (bs @ r)" "n = of_nat (length bs)" "length bs < 2 ^ 31"
  obtains s' where "read n s = Inr (NO_ERROR, bs, s')" "src s' r" "bytesRead s' = bytesRead s + of_nat (length bs)"
proof -
  have n: "unat n = length bs" using assms(2,3) by (simp add: unat_of_nat take_bit_nat_eq_self)
  then have u: "(ucast n :: u64) = of_nat (length bs)" by (metis of_nat_unat)
  have z: "bs @ r = [] \<longrightarrow> n = 0" using assms(2) by simp
  obtain s' where "read n s = Inr (if bs @ r = [] \<and> n \<noteq> 0 then ERROR_HANDLE_EOF else NO_ERROR, bs, s')" "src s' r"
      "bytesRead s' = bytesRead s + of_nat (length bs)"
    using read_stream [OF assms(1), of n] assms(3) n u by auto
  then have "read n s = Inr (NO_ERROR, bs, s')" "src s' r" "bytesRead s' = bytesRead s + of_nat (length bs)"
    using z by (auto split: if_splits)
  then show ?thesis using that by blast
qed

end

lemma unat_sub_length: "length bs \<le> unat n \<Longrightarrow> unat (n - of_nat (length bs)) = unat n - length bs" for n :: u32
proof -
  assume le: "length bs \<le> unat n"
  have "unat (of_nat (length bs) :: u32) = length bs"
    using le unsigned_less [of n, where ?'a = nat] by (simp add: unat_of_nat take_bit_nat_eq_self)
  then show ?thesis using le by (simp add: unat_sub word_le_nat_alt)
qed

lemma sock_todo_bounds:
  assumes "0 < unat n" "unat n < 2 ^ 31"
  shows "0 < sock_todo n" "nat (sock_todo n) \<le> unat n"
proof -
  have "sock_todo n = min (int (unat n)) 4194304" using sint_eq_unat [OF assms(2)] by (simp add: sock_todo_def IO_BATCH_SIZE_def)
  then show "0 < sock_todo n" "nat (sock_todo n) \<le> unat n" using assms(1) by linarith+
qed

subsection \<open>On a socket\<close>

definition recv_good :: "('k \<Rightarrow> u8 list \<Rightarrow> bool) \<Rightarrow> (int \<Rightarrow> 'k \<Rightarrow> (u32 + u8 list) \<times> 'k) \<Rightarrow> bool" where
  "recv_good coming recv \<longleftrightarrow> (\<forall>s r todo. coming s r \<longrightarrow> 0 < todo \<longrightarrow>
     (\<exists>bs r' s'. recv todo s = (Inr bs, s') \<and> r = bs @ r' \<and> length bs \<le> nat todo \<and> (bs = [] \<longrightarrow> r = []) \<and> coming s' r'))"

lemma StreamSocket_Read_ok:
  "recv_good coming recv \<Longrightarrow> coming s r \<Longrightarrow> unat n \<le> k \<Longrightarrow> unat n < 2 ^ 31 \<Longrightarrow>
   \<exists>s'. StreamSocket_Read recv True k n got s =
      Inr (if r = [] \<and> got = [] \<and> n \<noteq> 0 then ERROR_HANDLE_EOF else NO_ERROR, got @ take (unat n) r, s') \<and> coming s' (drop (unat n) r)"
proof (induction k arbitrary: n s r got)
  case 0
  then show ?case by (simp add: StreamSocket_Read.simps unat_eq_0)
next
  case (Suc k)
  show ?case
  proof (cases "n = 0")
    case False
    have t: "0 < sock_todo n" "nat (sock_todo n) \<le> unat n" using sock_todo_bounds [OF _ Suc.prems(4)] False by (auto simp: unat_gt_0)
    obtain bs r' s1 where s1: "recv (sock_todo n) s = (Inr bs, s1)" "r = bs @ r'" "length bs \<le> nat (sock_todo n)"
        "bs = [] \<longrightarrow> r = []" "coming s1 r'"
      using Suc.prems(1,2) t(1) unfolding recv_good_def by blast
    show ?thesis
    proof (cases "bs = []")
      case True
      then show ?thesis using s1 False by (simp add: StreamSocket_Read.simps [of recv True "Suc k"])
    next
      case ne: False
      let ?m = "n - of_nat (length bs)"
      have m: "unat ?m = unat n - length bs" using s1(3) t(2) by (intro unat_sub_length) simp
      have "unat ?m \<le> k" using Suc.prems(3) m ne by (cases bs) auto
      moreover have "unat ?m < 2 ^ 31" using Suc.prems(4) m by linarith
      ultimately obtain s' where s': "StreamSocket_Read recv True k ?m (got @ bs) s1 = Inr (NO_ERROR, (got @ bs) @ take (unat ?m) r', s')"
          "coming s' (drop (unat ?m) r')"
        using Suc.IH [OF Suc.prems(1) s1(5), of ?m "got @ bs"] m ne by auto
      moreover have "take (unat n) r = bs @ take (unat ?m) r'" "drop (unat n) r = drop (unat ?m) r'"
        using s1(2,3) t(2) m by simp_all
      ultimately show ?thesis using s1 ne False by (simp add: StreamSocket_Read.simps [of recv True "Suc k" n])
    qed
  qed (use Suc.prems(2) in \<open>simp add: StreamSocket_Read.simps\<close>)
qed

interpretation sock: stream_reader "\<lambda>s r. recv_good coming recv \<and> coming (ss_sock s) r" "SocketStreamReader_Read recv" ss_read
  for coming recv
proof (unfold_locales, goal_cases)
  case (1 s r n)
  then obtain k where "StreamSocket_Read recv True (unat n) n [] (ss_sock s) =
      Inr (if r = [] \<and> n \<noteq> 0 then ERROR_HANDLE_EOF else NO_ERROR, take (unat n) r, k)" "coming k (drop (unat n) r)"
    using StreamSocket_Read_ok [of coming recv "ss_sock s" r n "unat n" "[]"] by auto
  moreover have "(of_nat (unat n) :: u64) = ucast n" by (rule of_nat_unat)
  ultimately show ?case using 1 by (simp add: SocketStreamReader_Read_def)
qed

definition send_good :: "('k \<Rightarrow> u8 list) \<Rightarrow> (int \<Rightarrow> u8 list \<Rightarrow> 'k \<Rightarrow> int \<times> u32 \<times> 'k) \<Rightarrow> bool" where
  "send_good sent send \<longleftrightarrow> (\<forall>s bs todo. 0 < todo \<longrightarrow>
     (\<exists>n ec s'. send todo bs s = (n, ec, s') \<and> 0 < n \<and> n \<le> todo \<and> sent s' = sent s @ take (nat n) bs))"

text \<open>Write hands over all its bytes, in order, however few send takes at a time.\<close>
lemma StreamSocket_Write_ok:
  "send_good sent send \<Longrightarrow> length bs \<le> k \<Longrightarrow> length bs < 2 ^ 31 \<Longrightarrow>
   \<exists>s'. StreamSocket_Write send k bs s = Inr (NO_ERROR, length bs, s') \<and> sent s' = sent s @ bs"
proof (induction k arbitrary: bs s)
  case 0
  then show ?case by (simp add: StreamSocket_Write.simps)
next
  case (Suc k)
  show ?case
  proof (cases "bs = []")
    case False
    let ?n = "of_nat (length bs) :: u32"
    have n: "unat ?n = length bs" using Suc.prems(3) by (simp add: unat_of_nat take_bit_nat_eq_self)
    then have t: "0 < sock_todo ?n" "nat (sock_todo ?n) \<le> length bs" using sock_todo_bounds [of ?n] False Suc.prems(3) by auto
    obtain m ec s1 where s1: "send (sock_todo ?n) bs s = (m, ec, s1)" "0 < m" "m \<le> sock_todo ?n" "sent s1 = sent s @ take (nat m) bs"
      using Suc.prems(1) t(1) unfolding send_good_def by blast
    have m: "nat m \<le> length bs" "0 < nat m" using s1(2,3) t by auto
    then have "length (drop (nat m) bs) \<le> k" "length (drop (nat m) bs) < 2 ^ 31" using Suc.prems(2,3) by auto
    then obtain s' where s': "StreamSocket_Write send k (drop (nat m) bs) s1 = Inr (NO_ERROR, length bs - nat m, s')"
        "sent s' = sent s1 @ drop (nat m) bs"
      using Suc.IH [OF Suc.prems(1), of "drop (nat m) bs" s1] by auto
    then show ?thesis using s1 m False by (simp add: StreamSocket_Write.simps [of send "Suc k"])
  qed (simp add: StreamSocket_Write.simps)
qed

subsection \<open>On a file\<close>

definition ds_src :: "read_io \<Rightarrow> DiskStreamReader \<Rightarrow> u8 list \<Rightarrow> bool" where
  "ds_src io s r \<longleftrightarrow> sr_is (ds_seqRead s) r \<and> read_good io"

lemma disk_get_eof: "ds_src io s [] \<Longrightarrow> n \<noteq> 0 \<Longrightarrow> \<exists>s'. disk_get junk io n s = Inr (ERROR_HANDLE_EOF, [], s') \<and> ds_src io s' []"
  using sr.get_eof [of "ds_seqRead s" io n] by (auto simp: ds_src_def disk_get_def)

lemma disk_get_some:
  assumes "ds_src io s r" "r \<noteq> []" "n \<noteq> 0"
  obtains bs r' s' where "disk_get junk io n s = Inr (NO_ERROR, bs, s')" "bs \<noteq> []" "length bs \<le> unat n" "r = bs @ r'"
    "ds_src io s' r'" "ds_read s' = ds_read s + of_nat (length bs)"
proof -
  obtain bs r' q where "GetDataPointer io True n (ds_seqRead s) = Inr (NO_ERROR, bs, q)" "bs \<noteq> []" "length bs \<le> unat n" "r = bs @ r'" "sr_is q r'"
    using sr.get_some [of "ds_seqRead s" r io n] assms by (auto simp: ds_src_def)
  then show ?thesis
    using that [of bs "s\<lparr>ds_seqRead := q, ds_read := ds_read s + of_nat (length bs)\<rparr>" r'] assms(1) by (simp add: ds_src_def disk_get_def)
qed

interpretation dsg: byte_source "ds_src io" "disk_get junk io" for junk io
proof (unfold_locales, goal_cases)
  case (1 s n)
  then show ?case by (rule disk_get_eof)
next
  case (2 s r n)
  then show ?case by (elim disk_get_some [of io s r n junk]) auto
qed

text \<open>A read that does not reach the end of the file counts its bytes.\<close>
lemma disk_fill_counts:
  "ds_src io s r \<Longrightarrow> unat n \<le> k \<Longrightarrow> unat n \<le> length r \<Longrightarrow> fill (disk_get junk io) k n s = Inr (ec, bs, s') \<Longrightarrow>
   ds_read s' = ds_read s + ucast n"
proof (induction k arbitrary: n s r ec bs s')
  case 0
  then show ?case by (simp add: fill.simps unat_eq_0)
next
  case (Suc k)
  show ?case
  proof (cases "n = 0")
    case False
    then have "r \<noteq> []" using Suc.prems(3) by (auto simp: unat_eq_0)
    from disk_get_some [OF Suc.prems(1) this False, of junk] obtain b r' s1
      where s1: "disk_get junk io n s = Inr (NO_ERROR, b, s1)" "b \<noteq> []" "length b \<le> unat n" "r = b @ r'" "ds_src io s1 r'"
        "ds_read s1 = ds_read s + of_nat (length b)" .
    let ?m = "n - of_nat (length b)"
    have m: "unat ?m = unat n - length b" using s1(3) by (rule unat_sub_length)
    obtain bs' where f: "fill (disk_get junk io) k ?m s1 = Inr (ec, bs', s')"
      using Suc.prems(4) s1(1) False by (auto simp: fill.simps [of _ "Suc k"] bindE_eq_Inr)
    have "unat ?m \<le> k" using Suc.prems(2) m s1(2) by (cases b) auto
    then have "ds_read s' = ds_read s1 + ucast ?m"
      using Suc.IH [OF s1(5) _ _ f] m Suc.prems(3) s1(4) by simp
    also have "(ucast ?m :: u64) = ucast n - of_nat (length b)"
      using m s1(3) by (metis of_nat_diff of_nat_unat)
    finally show ?thesis using s1(6) by simp
  qed (use Suc.prems(4) in \<open>simp add: fill.simps\<close>)
qed

interpretation dsr: stream_reader "ds_src io" "DiskStreamReader_Read junk io" ds_read for junk io
proof (unfold_locales, goal_cases)
  case (1 s r n)
  then obtain s' where f: "fill (disk_get junk io) (unat n) n s =
      Inr (if length r < unat n then ERROR_HANDLE_EOF else NO_ERROR, take (unat n) r, s')" "ds_src io s' (drop (unat n) r)"
    using dsg.fill_ok [of io s r n "unat n" junk] by auto
  have "unat n \<le> length r \<longrightarrow> ds_read s' = ds_read s + ucast n" using disk_fill_counts [OF 1(1) order_refl _ f(1)] by simp
  then show ?case using f by (auto simp: DiskStreamReader_Read_def win_errors unat_gt_0 not_less)
qed

end
