(* ===== verification/Wire_Props.thy ===== *)
theory Wire_Props
  imports Log_File
begin

text \<open>
  The wire formats as a whole: every message that a replica marshals into a
  fresh buffer is recovered by the receiver's UnMarshal, also votes with their
  requests; how the marshalling buffer grows; and the inputs on which the
  decoders leave their buffer, abort the process or never return.
\<close>

section \<open>Round trips\<close>

lemma MarshalData_ok: "md_ok (MarshalData heap n)" "\<not> m_overshoot (MarshalData heap n)" "md_rest (MarshalData heap n) = []"
  "k < 2 ^ 31 \<Longrightarrow> md_room k (MarshalData heap n)"
  by (simp_all add: MarshalData_def StandardMarshalMemoryManager_def md_ok_def mm_ok_def GetMarshaledLength_def
      md_rest_def md_contents_def mm_contents_def GetReadPointer_def md_room_def mm_limit_def)

context codec
begin

text \<open>Through a buffer of the sender: the reader gets the value and consumes all of it.\<close>
lemma fresh_roundtrip:
  assumes "valid x" "length (enc x) < 2 ^ 31"
  shows "\<exists>md md'. wr x (MarshalData heap n) = Inr md \<and> GetMarshaledLength md = of_nat (length (enc x)) \<and>
     rd md = Inr (Some x, md') \<and> GetReadPointer md' = GetMarshaledLength md'"
proof -
  obtain md where md: "wr x (MarshalData heap n) = Inr md" "appended (enc x) (MarshalData heap n) md"
    using write_enc [OF assms(1)] MarshalData_ok(1,4) assms(2) unfolding writes_def by blast
  have c: "md_contents md = enc x" "md_ok md" "\<not> m_overshoot md" "GetReadPointer md = 0"
    using md(2) MarshalData_ok(2)
    by (auto simp: appended_def MarshalData_def StandardMarshalMemoryManager_def md_contents_def mm_contents_def GetReadPointer_def)
  then have "md_rest md = enc x @ []" by (simp add: md_rest_def)
  then have rd: "rd md = Inr (Some x, advance (length (enc x)) md)"
    using readsD [OF read_enc [OF assms(1)]] c by blast
  have len: "GetMarshaledLength md = of_nat (length (enc x))"
    by (simp flip: c(1))
  show ?thesis
    using md(1) rd len c(4) by (intro exI conjI) (auto simp: advance_def GetReadPointer_def GetMarshaledLength_def)
qed

end

lemma member_valid_ok: "member_valid v m \<Longrightarrow> member_ok m"
  by (simp add: member_valid_def)

lemma message_valid_ok:
  "message_valid msg \<Longrightarrow> member_ok (m_memberId msg) \<and> ballot_ok (m_ballot msg)"
  by (simp add: message_valid_def member_valid_def ballot_ok_def)

lemma length_enc_Message_le:
  "message_valid msg \<Longrightarrow> length (enc_Message len msg) = unat (Message_GetBaseSize (m_version msg))"
  using message_valid_ok length_enc_Message by blast

lemmas base_sizes = Message_GetBaseSize_def MemberId_GetBaseSize_def BallotNumber_GetBaseSize_def MemberId_Size_def Let_def

lemma length_enc_Status:
  assumes "status_valid msg"
  shows "length (enc_StatusResponse msg) = unat (StatusResponse_GetMarshalLen msg)"
proof -
  have "message_valid msg" "ballot_ok (m_queryBallot msg)" "ballot_ok (sr_maxBallot msg)"
    using assms by (auto simp: status_valid_def ballot_ok_def member_valid_ok)
  then show ?thesis
    by (simp add: enc_StatusResponse_def length_enc_Message_le length_enc_BallotNumber)
      (simp add: StatusResponse_GetMarshalLen_def base_sizes)
qed

lemma length_enc_Join:
  "join_valid msg \<Longrightarrow> length (enc_JoinMessage msg) = unat (JoinMessage_GetMarshalLen msg)"
  by (simp add: enc_JoinMessage_def join_valid_def length_enc_Message_le)
    (simp add: JoinMessage_GetMarshalLen_def base_sizes)

lemma length_enc_Prepare:
  assumes "prepare_valid msg" "unat (pc_len (pm_primaryCookie msg)) < 2 ^ 30"
  shows "length (enc_PrepareMsg msg) = unat (PrepareMsg_GetMarshalLen msg)"
    "unat (PrepareMsg_GetMarshalLen msg) < 2 ^ 31"
  using assms base_size_bounds(2) [of "m_version msg"]
  by (auto simp: enc_PrepareMsg_def prepare_valid_def length_enc_Message_le PrepareMsg_GetMarshalLen_def Let_def
      enc_PrimaryCookie_def cookie_ok_def PrimaryCookie_GetMarshalLen_def unat_word_ariths)

text \<open>
  A StatusResponse marshalled into a fresh buffer fills exactly the
  announced number of bytes, and UnMarshal recovers it and consumes them all.
\<close>
theorem status_response_roundtrip:
  assumes "status_valid msg"
  shows "\<exists>md md'. StatusResponse_Marshal msg (MarshalData heap n) = Inr md \<and>
     GetMarshaledLength md = StatusResponse_GetMarshalLen msg \<and>
     StatusResponse_UnMarshal md = Inr (Some msg, md') \<and> GetReadPointer md' = GetMarshaledLength md'"
  using statusc.fresh_roundtrip [OF assms, of heap n] length_enc_Status [OF assms]
  by (simp add: StatusResponse_GetMarshalLen_def base_sizes)

text \<open>
  A Prepare message, whose primary cookie is the application's, survives
  the wire in every version of the protocol.
\<close>
theorem prepare_roundtrip:
  assumes "prepare_valid msg" "unat (pc_len (pm_primaryCookie msg)) < 2 ^ 30"
  shows "\<exists>md md'. PrepareMsg_Marshal msg (MarshalData heap n) = Inr md \<and>
     GetMarshaledLength md = PrepareMsg_GetMarshalLen msg \<and>
     PrepareMsg_UnMarshal md = Inr (Some msg, md') \<and> GetReadPointer md' = GetMarshaledLength md'"
  using preparec.fresh_roundtrip [OF assms(1), of heap n] length_enc_Prepare [OF assms] by simp

text \<open>The header of a sample message of version 6.\<close>
definition wire_hdr :: "u16 \<Rightarrow> u32 \<Rightarrow> MemberId Message" where
  "wire_hdr msgId len =
     (InitMessage 6 msgId MemberId_empty 5 1 (BallotNumber 3 MemberId_empty) 9)\<lparr>m_unMarshalLen := len\<rparr>"

lemma wire_hdr_valid: "\<not> len < 172 \<Longrightarrow> message_valid (wire_hdr msgId len)"
  by (simp add: wire_hdr_def InitMessage_def message_valid_def IsVersionValid_def member_valid_def member_ok_empty base_sizes)

lemma message_valid_extend [simp]: "message_valid (Message.extend msg r) = message_valid msg"
  by (simp add: message_valid_def Message.defs)

lemma wire_hdr_fields [simp]:
  "m_version (Message.extend (wire_hdr i len) r) = 6" "m_msgId (Message.extend (wire_hdr i len) r) = i"
  "m_unMarshalLen (Message.extend (wire_hdr i len) r) = len"
  by (simp_all add: wire_hdr_def InitMessage_def Message.defs)

lemma wire_hdr_sel [simp]: "m_version (wire_hdr i len) = 6" "m_msgId (wire_hdr i len) = i" "m_unMarshalLen (wire_hdr i len) = len"
  by (simp_all add: wire_hdr_def InitMessage_def)

definition wire_status :: "MemberId StatusResponse" where
  "wire_status = Message.extend (wire_hdr Message_StatusResponse 352)
     (StatusResponse.fields 4 (BallotNumber 2 MemberId_empty) 100 1 3 4096 (BallotNumber 3 MemberId_empty) 5)"

theorem status_response_roundtrip_witness:
  "\<exists>md md'. StatusResponse_Marshal wire_status (MarshalData (\<lambda>_. 0) 32) = Inr md \<and>
     GetMarshaledLength md = StatusResponse_GetMarshalLen wire_status \<and>
     StatusResponse_UnMarshal md = Inr (Some wire_status, md') \<and> GetReadPointer md' = GetMarshaledLength md'"
proof (rule status_response_roundtrip)
  show "status_valid wire_status"
    by (simp add: wire_status_def status_valid_def wire_hdr_valid StatusResponse_GetMarshalLen_def base_sizes)
      (simp add: Message.defs StatusResponse.defs member_valid_def member_ok_empty)
qed

definition wire_prepare :: "MemberId PrepareMsg" where
  "wire_prepare = Message.extend (wire_hdr Message_Prepare 178) (PrepareMsg.fields \<lparr>pc_len = 2, pc_data = [7, 8]\<rparr>)"

theorem prepare_roundtrip_witness:
  "\<exists>md md'. PrepareMsg_Marshal wire_prepare (MarshalData (\<lambda>_. 0) 32) = Inr md \<and>
     GetMarshaledLength md = PrepareMsg_GetMarshalLen wire_prepare \<and>
     PrepareMsg_UnMarshal md = Inr (Some wire_prepare, md') \<and> GetReadPointer md' = GetMarshaledLength md'"
proof (rule prepare_roundtrip)
  have c: "pm_primaryCookie wire_prepare = \<lparr>pc_len = 2, pc_data = [7, 8]\<rparr>"
    by (simp add: wire_prepare_def Message.defs PrepareMsg.defs)
  show "prepare_valid wire_prepare"
    by (simp add: wire_prepare_def prepare_valid_def wire_hdr_valid PrepareMsg_GetMarshalLen_def base_sizes)
      (simp add: Message.defs PrepareMsg.defs cookie_ok_def PrimaryCookie_GetMarshalLen_def)
  show "unat (pc_len (pm_primaryCookie wire_prepare)) < 2 ^ 30" by (simp add: c)
qed

lemma length_enc_Nodes_le:
  assumes "length garb = MemberId_Size"
  shows "\<forall>n \<in> set ns. node_valid version n \<Longrightarrow> length (concat (map (enc_Node garb version) ns)) \<le> 330 * length ns"
proof (induction ns)
  case (Cons n ns)
  then have "length (enc_Node garb version n) \<le> 330"
    using length_enc_Node [of version n garb] assms by (simp add: base_sizes node_valid_def s_HostNameSize_def)
  with Cons show ?case by simp
qed simp

lemma length_enc_MemberSet_le:
  assumes "memberset_valid version ms" "length garb = MemberId_Size"
  shows "length (enc_MemberSet garb version ms) < 2 ^ 30"
proof -
  have "length (case ms_cookie ms of None \<Rightarrow> [] | Some c \<Rightarrow> c) \<le> 8192"
    using assms(1) by (cases "ms_cookie ms") (auto simp: memberset_valid_def s_MaxMemberSetCookieLength_def word_le_nat_alt)
  moreover have "length (concat (map (enc_Node garb version) (ms_members ms))) \<le> 330 * length (ms_members ms)"
    using length_enc_Nodes_le [OF assms(2), of "ms_members ms" version] assms(1) by (auto simp: memberset_valid_def)
  moreover have "length (ms_members ms) < 65536" using assms(1) by (simp add: memberset_valid_def)
  ultimately show ?thesis by (simp add: enc_MemberSet_def)
qed

lemma length_enc_Bootstrap:
  assumes "bootstrap_valid msg"
  shows "length (enc_BootstrapMsg (replicate MemberId_Size g) msg) = unat (BootstrapMsg_GetMarshalLen msg)"
    "unat (BootstrapMsg_GetMarshalLen msg) < 2 ^ 31"
proof -
  have m: "memberset_valid (m_version msg) (bm_memberSet msg)" "message_valid msg"
    using assms by (auto simp: bootstrap_valid_def)
  note le = length_enc_MemberSet_le [OF m(1), of "replicate MemberId_Size g"]
  have "length (enc_MemberSet (replicate MemberId_Size g) (m_version msg) (bm_memberSet msg)) =
      unat (MemberSet_GetMarshalLen (m_version msg) (bm_memberSet msg))"
    using MemberSet_GetMarshalLen_exact [OF m(1), of "replicate MemberId_Size g"] le by simp
  then show "length (enc_BootstrapMsg (replicate MemberId_Size g) msg) = unat (BootstrapMsg_GetMarshalLen msg)"
    "unat (BootstrapMsg_GetMarshalLen msg) < 2 ^ 31"
    using le base_size_bounds(2) [of "m_version msg"] m(2)
    by (simp_all add: enc_BootstrapMsg_def BootstrapMsg_GetMarshalLen_def length_enc_Message_le unat_word_ariths)
qed

text \<open>
  A Bootstrap message with its replica set survives the wire, whatever
  byte g the sender's stack held behind the members' identifiers, and
  GetMarshalLen (which adds up the host names of the set) is exact.
\<close>
theorem bootstrap_roundtrip:
  assumes "bootstrap_valid msg"
  shows "\<exists>md md'. BootstrapMsg_Marshal (replicate MemberId_Size g) msg (MarshalData heap n) = Inr md \<and>
     GetMarshaledLength md = BootstrapMsg_GetMarshalLen msg \<and>
     BootstrapMsg_UnMarshal md = Inr (Some msg, md') \<and> GetReadPointer md' = GetMarshaledLength md'"
  using bootstrapc.fresh_roundtrip [OF assms, where g = g and heap = heap and n = n] length_enc_Bootstrap(1) [OF assms, of g]
    length_enc_Bootstrap(2) [OF assms] by simp

definition wire_bootstrap :: "MemberId BootstrapMsg" where
  "wire_bootstrap = Message.extend (wire_hdr Message_Bootstrap 334)
     (BootstrapMsg.fields \<lparr>ms_members =
        [\<lparr>n_memberIdString = [49], n_hostName = [104, 49], n_ip = 1, n_rslPort = 20, n_rslLearnPort = 21, n_appPort = 0\<rparr>,
         \<lparr>n_memberIdString = [50], n_hostName = [104, 50, 50], n_ip = 2, n_rslPort = 20, n_rslLearnPort = 21, n_appPort = 0\<rparr>],
      ms_cookie = Some [1, 2, 3], ms_cookieLength = 3\<rparr>)"

theorem bootstrap_roundtrip_witness:
  "\<exists>md md'. BootstrapMsg_Marshal (replicate MemberId_Size 0xCC) wire_bootstrap (MarshalData (\<lambda>_. 0) 32) = Inr md \<and>
     GetMarshaledLength md = BootstrapMsg_GetMarshalLen wire_bootstrap \<and>
     BootstrapMsg_UnMarshal md = Inr (Some wire_bootstrap, md') \<and> GetReadPointer md' = GetMarshaledLength md'"
proof (rule bootstrap_roundtrip)
  show "bootstrap_valid wire_bootstrap"
    by (simp add: wire_bootstrap_def bootstrap_valid_def wire_hdr_valid BootstrapMsg_GetMarshalLen_def base_sizes)
      (simp add: Message.defs BootstrapMsg.defs memberset_valid_def node_valid_def s_MaxMemberSetCookieLength_def
        MemberSet_GetMarshalLen_def GetNumMembers_def base_sizes s_HostNameSize_def c_str_def)
qed

subsection \<open>Votes\<close>

text \<open>The operations on a vote's buffers leave every other field alone.\<close>
definition vote_fields :: "('m, 'z) Vote_scheme \<Rightarrow>
  'm Message \<times> PrimaryCookie \<times> bool \<times> MemberSet option \<times> bool" where
  "vote_fields v = (Message.truncate v, v_primaryCookie v, v_isReconfiguration v, v_membersInNewConfiguration v,
     v_relinquishPrimary v)"

lemma vote_fields_update [simp]:
  "vote_fields (v\<lparr>v_marshal := a\<rparr>) = vote_fields v" "vote_fields (v\<lparr>v_requests := b\<rparr>) = vote_fields v"
  "vote_fields (v\<lparr>v_numRequests := c\<rparr>) = vote_fields v"
  by (simp_all add: vote_fields_def Message.defs)

lemma Vote_spill_fields: "Vote_spill sp v = Inr v' \<Longrightarrow> vote_fields v' = vote_fields v"
  by (auto simp: Vote_spill_def Let_def bindE_eq_Inr split: prod.splits)

lemma Vote_AddRequest_fields: "Vote_AddRequest req len cookie v = Inr v' \<Longrightarrow> vote_fields v' = vote_fields v"
  by (auto simp: Vote_AddRequest_def Let_def bindE_eq_Inr Vote_spill_fields split: if_splits)

text \<open>A batch of requests, added one after the other as SubmitRequest does.\<close>
fun add_requests :: "u8 list list \<Rightarrow> ('m, 'z) Vote_scheme \<Rightarrow> ('m, 'z) Vote_scheme res" where
  "add_requests [] v = Inr v"
| "add_requests (r # rs) v = bindE (Vote_AddRequest r (of_nat (length r)) None v) (add_requests rs)"

lemma last_valid_le:
  "vote_ok v \<Longrightarrow> unat (m_validLength (last (v_marshal v))) \<le> length (vote_bytes v)"
  using length_mm_contents [of "last (v_marshal v)"]
  by (cases "v_marshal v" rule: rev_cases) (auto simp: vote_ok_def vote_bytes_def)

lemma add_requests_ok:
  assumes "vote_ok v" "\<not> v_isReconfiguration v" "\<forall>r \<in> set rs. r \<noteq> [] \<and> length r < 2 ^ 29"
    "length (vote_bytes v @ enc_requests rs) < 2 ^ 30"
  shows "\<exists>v'. add_requests rs v = Inr v' \<and> vote_ok v' \<and> vote_fields v' = vote_fields v \<and>
     vote_bytes v' = vote_bytes v @ enc_requests rs \<and>
     map (req_bytes v') (v_requests v') = map (req_bytes v) (v_requests v) @ rs"
  using assms
proof (induction rs arbitrary: v)
  case (Cons r rs)
  let ?l = "of_nat (length r) :: u32"
  have l: "unat ?l = length r" "r \<noteq> []" using Cons.prems(3) by (auto simp: unat_of_nat)
  obtain v1 where v1: "Vote_AddRequest r ?l None v = Inr v1" "vote_ok v1"
     "vote_bytes v1 = vote_bytes v @ le_bytes 4 ?l @ r"
     "map (req_bytes v1) (v_requests v1) = map (req_bytes v) (v_requests v) @ [r]"
    using Vote_AddRequest_ok [OF Cons.prems(1,2), of ?l r None] l Cons.prems(3,4) last_valid_le [OF Cons.prems(1)]
    by auto
  have f: "vote_fields v1 = vote_fields v" by (rule Vote_AddRequest_fields [OF v1(1)])
  then have "\<not> v_isReconfiguration v1" using Cons.prems(2) by (simp add: vote_fields_def)
  moreover have "vote_bytes v1 @ enc_requests rs = vote_bytes v @ enc_requests (r # rs)"
    using v1(3) by (simp add: enc_requests_def)
  ultimately show ?case using Cons.IH [OF v1(2)] Cons.prems(3,4) v1 f by auto
qed (auto simp: enc_requests_def)

lemma vote_ok_header_room:
  assumes "vote_ok v" "unat (Message_GetBaseSize (m_version v)) \<le> length (vote_bytes v)"
  shows "header_room v"
proof (cases "v_marshal v")
  case (Cons mm mms)
  show ?thesis
  proof (cases mms)
    case Nil
    then show ?thesis using Cons assms(2) by (simp add: header_room_def vote_bytes_def length_mm_contents)
  next
    case (Cons mm' mms')
    then have "4096 dvd unat (m_validLength mm)" "0 < unat (m_validLength mm)"
      using assms(1) \<open>v_marshal v = mm # mms\<close> by (auto simp: vote_ok_def)
    then have "4096 \<le> unat (m_validLength mm)" by (rule dvd_imp_le)
    then show ?thesis
      using base_size_bounds(2) [of "m_version v"] \<open>v_marshal v = mm # mms\<close> by (simp add: header_room_def)
  qed
qed (use assms(1) in \<open>simp add: vote_ok_def\<close>)

lemma fixed_end_if:
  assumes "fixed_end mm bs md" "writes w cs" "unat (m_validLength mm) + length bs + length cs < 2 ^ 31"
    "unat (m_validLength mm) + length bs + length cs \<le> unat (m_bufferLength mm)"
  shows "\<exists>md'. (if b then w md else Inr md) = Inr md' \<and> fixed_end mm (bs @ (if b then cs else [])) md'"
  using fixed_end_write [OF assms(1,2)] assms by auto

lemma bindE_Inr: "bindE x Inr = x"
  by (cases x) auto

text \<open>Init on an ordinary vote.\<close>
lemma Vote_Init_plain:
  assumes "\<not> v_isReconfiguration v"
  shows "Vote_Init garb None cookie v =
     (let base = Message_GetBaseSize (m_version v) in
      bindE (MM_SetValidLength base (AddMemory
        (if m_version v \<ge> 3 then base + PrimaryCookie_GetMarshalLen cookie + 1
         else base + PrimaryCookie_GetMarshalLen cookie) False)) (\<lambda>memory.
      bindE (if m_version v \<ge> 2 then init_cookie cookie memory else Inr (v_primaryCookie v, mk_md memory)) (\<lambda>(c, md).
      bindE (if m_version v \<ge> 3 then WriteUInt8 0 md else Inr md) (\<lambda>md.
      bindE (if m_version v \<ge> 5 then WriteUInt8 (if v_relinquishPrimary v then 1 else 0) md else Inr md) (\<lambda>md.
        Inr (v\<lparr>v_primaryCookie := c, v_marshal := [m_memoryManager md]\<rparr>))))))"
  using assms unfolding Vote_Init_def Let_def init_cookie_def by (simp add: bindE_Inr cong: if_cong)

text \<open>Init succeeds when the cookie leaves room in the first block, and lays the vote out in order.\<close>
lemma Vote_Init_ok:
  assumes ver: "IsVersionValid (m_version v)" and nr: "\<not> v_isReconfiguration v"
    and c: "cookie_ok cookie" "unat (pc_len cookie) \<le> 32000"
    and c1: "m_version v < 2 \<longrightarrow> cookie = PrimaryCookie_empty \<and> v_primaryCookie v = PrimaryCookie_empty"
    and fresh: "v_requests v = []"
  shows "\<exists>v'. Vote_Init garb None cookie v = Inr v' \<and> vote_ok v' \<and> v_requests v' = [] \<and>
     vote_fields v' = vote_fields (v\<lparr>v_primaryCookie := cookie\<rparr>) \<and>
     unat (Message_GetBaseSize (m_version v)) \<le> length (vote_bytes v') \<and> length (vote_bytes v') < 2 ^ 16 \<and>
     drop (unat (Message_GetBaseSize (m_version v))) (vote_bytes v') =
       vote_body garb (m_version v) cookie None (v_relinquishPrimary v) []"
proof -
  let ?b = "Message_GetBaseSize (m_version v)"
  let ?pre = "if m_version v \<ge> 2 then enc_PrimaryCookie cookie else []"
  let ?min = "if m_version v \<ge> 3 then ?b + PrimaryCookie_GetMarshalLen cookie + 1 else ?b + PrimaryCookie_GetMarshalLen cookie"
  have b: "unat ?b < 200" by (simp add: base_sizes)
  have min: "unat ?min \<le> 33000"
    using c(2) b by (auto simp: PrimaryCookie_GetMarshalLen_def unat_word_ariths)
  note am = AddMemory_props [of ?min False]
  have el: "length ?pre \<le> 32004" using c by (simp add: enc_PrimaryCookie_def cookie_ok_def)
  have "unat (max ?min (32 * 1024)) + 4095 < 2 ^ 32" using min by (auto simp: max_def)
  then have "unat (max ?min (32 * 1024)) \<le> unat (RoundUpToSystemPage (max ?min (32 * 1024)))"
    by (rule RoundUpToSystemPage_props(2))
  moreover have "32768 \<le> unat (max ?min (32 * 1024))" by (auto simp: max_def word_le_nat_alt)
  ultimately have buf: "32768 \<le> unat (m_bufferLength (AddMemory ?min False))"
    by (simp add: AddMemory_def FixedMarshalMemoryManager_def Let_def)
  let ?mm = "AddMemory ?min False\<lparr>m_validLength := ?b\<rparr>"
  have sv: "MM_SetValidLength ?b (AddMemory ?min False) = Inr ?mm"
    using buf b am(3) min by (simp add: MM_SetValidLength_def Let_def word_le_nat_alt)
  have ok: "buf_ok ?mm"
    using buf b am(3,4) min by (simp add: buf_ok_def mm_ok_def word_le_nat_alt)
  have f0: "fixed_end ?mm [] (mk_md ?mm)" using ok by (simp add: fixed_end_def md_ok_def buf_ok_def)
  let ?c = "if m_version v \<ge> 2 then cookie else v_primaryCookie v"
  have "\<exists>md. (if m_version v \<ge> 2 then init_cookie cookie ?mm else Inr (v_primaryCookie v, mk_md ?mm)) =
      Inr (?c, md) \<and> fixed_end ?mm ?pre md"
    using init_cookie_ok [OF ok c(1)] f0 el b buf by auto
  then obtain md where md: "(if m_version v \<ge> 2 then init_cookie cookie ?mm else Inr (v_primaryCookie v, mk_md ?mm)) =
      Inr (?c, md)" "fixed_end ?mm ?pre md" by blast
  have "\<exists>md1. (if 3 \<le> m_version v then WriteUInt8 0 md else Inr md) = Inr md1 \<and>
      fixed_end ?mm (?pre @ (if 3 \<le> m_version v then [0] else [])) md1"
    by (rule fixed_end_if [OF md(2) writes_UInt8]) (use b buf el in simp_all)
  then obtain md1 where md1: "(if 3 \<le> m_version v then WriteUInt8 0 md else Inr md) = Inr md1"
      "fixed_end ?mm (?pre @ (if 3 \<le> m_version v then [0] else [])) md1" by blast
  let ?q = "if v_relinquishPrimary v then 1 else 0 :: u8"
  have "\<exists>md2. (if 5 \<le> m_version v then WriteUInt8 ?q md1 else Inr md1) = Inr md2 \<and>
      fixed_end ?mm ((?pre @ (if 3 \<le> m_version v then [0] else [])) @ (if 5 \<le> m_version v then [?q] else [])) md2"
    by (rule fixed_end_if [OF md1(2) writes_UInt8]) (use b buf el in \<open>auto split: if_splits\<close>)
  then obtain md2 where md2: "(if 5 \<le> m_version v then WriteUInt8 ?q md1 else Inr md1) = Inr md2"
      "fixed_end ?mm ((?pre @ (if 3 \<le> m_version v then [0] else [])) @ (if 5 \<le> m_version v then [?q] else [])) md2"
    by blast
  let ?body = "vote_body garb (m_version v) cookie None (v_relinquishPrimary v) []"
  have body: "(?pre @ (if 3 \<le> m_version v then [0] else [])) @ (if 5 \<le> m_version v then [?q] else []) = ?body"
    by (simp add: vote_body_def enc_requests_def)
  note fe = md2(2) [unfolded body]
  let ?v' = "v\<lparr>v_primaryCookie := ?c, v_marshal := [m_memoryManager md2]\<rparr>"
  have run: "Vote_Init garb None cookie v = Inr ?v'"
    unfolding Vote_Init_plain [OF nr] Let_def
    by (simp only: sv bindE_simps md(1) case_prod_conv md1(1) md2(1))
  have bytes: "vote_bytes ?v' = mm_contents ?mm @ ?body"
    using fe by (simp add: vote_bytes_def fixed_end_def md_contents_def)
  have vok: "vote_ok ?v'"
    using fe fresh by (simp add: vote_ok_def buf_ok_def fixed_end_def md_ok_def GetMarshaledLength_def)
  have bl: "length ?body \<le> 32006" using el by (simp add: vote_body_def enc_requests_def split: if_splits)
  have cc: "?c = cookie" using c1 by auto
  have "vote_fields ?v' = vote_fields (v\<lparr>v_primaryCookie := cookie\<rparr>)"
    unfolding cc by (simp add: vote_fields_def Message.defs)
  then show ?thesis using run vok bytes fresh bl b by (intro exI [of _ ?v']) (simp add: length_mm_contents)
qed


lemma fresh_write:
  assumes "writes w bs" "length bs < 2 ^ 31"
  shows "\<exists>md. w (MarshalData heap n) = Inr md \<and> md_ok md \<and> \<not> m_overshoot md \<and> md_rest md = bs"
proof -
  obtain md where md: "w (MarshalData heap n) = Inr md" "appended bs (MarshalData heap n) md"
    using assms MarshalData_ok(1,4) unfolding writes_def by blast
  then show ?thesis
    by (auto simp: appended_def MarshalData_def StandardMarshalMemoryManager_def md_rest_def md_contents_def
        mm_contents_def GetReadPointer_def)
qed

text \<open>The announced length does not enter the rest of the header.\<close>
lemma enc_Message_len: "enc_Message len (msg\<lparr>m_unMarshalLen := l\<rparr>) = enc_Message len msg" for msg :: "(MemberId, 'z) Message_scheme"
  by (simp add: enc_Message_def)

lemma Vote_Marshal_UnMarshal:
  assumes v: "vote_ok v" "unat (Message_GetBaseSize (m_version v)) \<le> length (vote_bytes v)" "length (vote_bytes v) < 2 ^ 31"
    and msg: "message_valid (v\<lparr>m_unMarshalLen := Vote_GetMarshalLen v\<rparr>)" "m_msgId v = Message_Vote"
    and body: "drop (unat (Message_GetBaseSize (m_version v))) (vote_bytes v) =
        vote_body (replicate MemberId_Size g) (m_version v) cookie members relinq reqs"
      "body_valid (m_version v) cookie members relinq reqs"
    and fuel: "length reqs < fuel"
  shows "\<exists>md v' md'. Vote_Marshal v (MarshalData heap n) = Inr md \<and> Vote_UnMarshal fuel md = Inr (Some v', md') \<and>
     Message.truncate v' = (Message.truncate v)\<lparr>m_unMarshalLen := Vote_GetMarshalLen v\<rparr> \<and>
     v_primaryCookie v' = cookie \<and> v_membersInNewConfiguration v' = members \<and>
     (v_isReconfiguration v' \<longleftrightarrow> members \<noteq> None) \<and> v_relinquishPrimary v' = relinq \<and>
     map (req_bytes v') (v_requests v') = reqs"
proof -
  let ?L = "Vote_GetMarshalLen v" let ?msg = "v\<lparr>m_unMarshalLen := ?L\<rparr>"
  let ?body = "vote_body (replicate MemberId_Size g) (m_version v) cookie members relinq reqs"
  let ?w = "enc_Message ?L v @ ?body"
  have "member_ok (m_memberId v)" "ballot_ok (m_ballot v)"
    using message_valid_ok [OF msg(1)] by auto
  then have "length ?w = length (vote_bytes v)"
    using v(2) by (simp add: length_enc_Message body(1) [symmetric])
  then have len: "?L = of_nat (length ?w)" "length ?w < 2 ^ 31"
    using v(3) by (simp_all add: Vote_GetMarshalLen_bytes)
  have "vote_header_ok v" using msg(1) by (simp add: vote_header_ok_def message_valid_def)
  then have "writes (Vote_Marshal v) ?w"
    using writes_Vote [OF v(1) _ vote_ok_header_room [OF v(1,2)]] body(1) by simp
  then obtain md where md: "Vote_Marshal v (MarshalData heap n) = Inr md" "md_ok md" "\<not> m_overshoot md" "md_rest md = ?w @ []"
    using fresh_write len(2) by force
  have "\<exists>v'. Vote_UnMarshal fuel md = Inr (Some v', advance (length ?w) md) \<and>
     Message.truncate v' = Message.truncate ?msg \<and> v_primaryCookie v' = cookie \<and>
     v_membersInNewConfiguration v' = members \<and> (v_isReconfiguration v' \<longleftrightarrow> members \<noteq> None) \<and>
     v_relinquishPrimary v' = relinq \<and> map (req_bytes v') (v_requests v') = reqs \<and> vote_bytes v' = ?w"
    using Vote_UnMarshal_ok [of ?msg "m_version v" cookie members relinq reqs g md "[]" fuel]
      msg body(2) fuel len(1) md(2-4) by (simp add: enc_Message_len)
  then show ?thesis using md(1) by (auto simp: Message.defs)
qed

lemma truncate_len:
  "Message.truncate (msg\<lparr>m_unMarshalLen := l\<rparr>) = (Message.truncate msg)\<lparr>m_unMarshalLen := l\<rparr>"
  by (simp add: Message.defs)

lemma message_valid_truncate: "message_valid (Message.truncate msg) = message_valid msg"
  by (simp add: message_valid_def Message.defs)

lemma message_valid_len:
  "message_valid (msg\<lparr>m_unMarshalLen := l\<rparr>) \<Longrightarrow> l \<le> l' \<Longrightarrow> message_valid (msg\<lparr>m_unMarshalLen := l'\<rparr>)" for msg :: "MemberId Message"
  by (auto simp: message_valid_def)

text \<open>
  C10: A vote built as a primary builds it (Init with the application's cookie,
  then AddRequest for each client request, moving pages to new buffers as they
  fill up) is marshalled without a fault, and the receiver's UnMarshal recovers
  its header, cookie, flags and every request, in order.
\<close>
theorem vote_roundtrip:
  assumes msg: "message_valid (msg\<lparr>m_unMarshalLen := Message_GetBaseSize (m_version msg)\<rparr>)"
    and c: "cookie_ok cookie" "unat (pc_len cookie) \<le> 32000" "m_version msg < 2 \<longrightarrow> cookie = PrimaryCookie_empty"
    and rq: "relinq \<longrightarrow> 5 \<le> m_version msg"
    and reqs: "\<forall>r \<in> set reqs. r \<noteq> [] \<and> length r < 2 ^ 29" "length (enc_requests reqs) < 2 ^ 29" "length reqs < fuel"
  shows "\<exists>v md v' md'.
     bindE (Vote_Init (replicate MemberId_Size g) None cookie (Vote_new msg False relinq)) (add_requests reqs) = Inr v \<and>
     Vote_Marshal v (MarshalData heap n) = Inr md \<and> Vote_UnMarshal fuel md = Inr (Some v', md') \<and>
     Message.truncate v' = msg\<lparr>m_msgId := Message_Vote, m_unMarshalLen := Vote_GetMarshalLen v\<rparr> \<and>
     v_primaryCookie v' = cookie \<and> \<not> v_isReconfiguration v' \<and> v_relinquishPrimary v' = relinq \<and>
     map (req_bytes v') (v_requests v') = reqs"
proof -
  let ?v0 = "Vote_new msg False relinq" let ?g = "replicate MemberId_Size g" let ?b = "unat (Message_GetBaseSize (m_version msg))"
  have f0: "m_version ?v0 = m_version msg" "\<not> v_isReconfiguration ?v0" "v_requests ?v0 = []"
      "v_primaryCookie ?v0 = PrimaryCookie_empty" "v_relinquishPrimary ?v0 = relinq"
      "Message.truncate ?v0 = msg\<lparr>m_msgId := Message_Vote\<rparr>" "v_membersInNewConfiguration ?v0 = None"
    by (simp_all add: Vote_new_def Message.defs Vote.defs)
  have iv: "IsVersionValid (m_version msg)" using msg by (simp add: message_valid_def)
  obtain v1 where v1: "Vote_Init ?g None cookie ?v0 = Inr v1" "vote_ok v1" "v_requests v1 = []"
      "vote_fields v1 = vote_fields (?v0\<lparr>v_primaryCookie := cookie\<rparr>)"
      "?b \<le> length (vote_bytes v1)" "length (vote_bytes v1) < 2 ^ 16"
      "drop ?b (vote_bytes v1) = vote_body ?g (m_version msg) cookie None relinq []"
    using Vote_Init_ok [of ?v0 cookie ?g] f0 iv c by auto
  have fl: "\<not> v_isReconfiguration v1" "Message.truncate v1 = msg\<lparr>m_msgId := Message_Vote\<rparr>"
    using v1(4) f0 by (auto simp: vote_fields_def Message.defs)
  obtain v where v: "add_requests reqs v1 = Inr v" "vote_ok v" "vote_fields v = vote_fields v1"
      "vote_bytes v = vote_bytes v1 @ enc_requests reqs"
    using add_requests_ok [OF v1(2) fl(1) reqs(1)] v1(6) reqs(2) by auto
  have tr: "Message.truncate v = msg\<lparr>m_msgId := Message_Vote\<rparr>" using v(3) fl(2) by (simp add: vote_fields_def)
  have ver: "m_version v = m_version msg" "m_msgId v = Message_Vote"
    using arg_cong [OF tr, of m_version] arg_cong [OF tr, of m_msgId] by (simp_all add: Message.defs)
  have len: "?b \<le> length (vote_bytes v)" "length (vote_bytes v) < 2 ^ 31" using v(4) v1(5,6) reqs(2) by auto
  have "?b \<le> unat (Vote_GetMarshalLen v)" using len by (simp add: Vote_GetMarshalLen_bytes unat_of_nat)
  then have "message_valid (msg\<lparr>m_unMarshalLen := Vote_GetMarshalLen v\<rparr>)"
    using message_valid_len [OF msg] by (simp add: word_le_nat_alt)
  then have "message_valid (msg\<lparr>m_msgId := Message_Vote, m_unMarshalLen := Vote_GetMarshalLen v\<rparr>)"
    by (simp add: message_valid_def)
  moreover have "Message.truncate (v\<lparr>m_unMarshalLen := Vote_GetMarshalLen v\<rparr>) =
      msg\<lparr>m_msgId := Message_Vote, m_unMarshalLen := Vote_GetMarshalLen v\<rparr>"
    by (simp add: truncate_len tr)
  ultimately have mv: "message_valid (v\<lparr>m_unMarshalLen := Vote_GetMarshalLen v\<rparr>)"
    by (metis message_valid_truncate)
  have body: "drop ?b (vote_bytes v) = vote_body ?g (m_version msg) cookie None relinq reqs"
    using v(4) v1(5,7) by (simp add: vote_body_def enc_requests_def)
  have "body_valid (m_version msg) cookie None relinq reqs" using c rq reqs(1) by (simp add: body_valid_def)
  then show ?thesis
    using Vote_Marshal_UnMarshal [OF v(2) _ len(2) mv ver(2), where heap = heap and n = n] ver(1) len(1) body reqs(3) v1(1) v(1) tr
    by fastforce
qed

theorem vote_roundtrip_witness:
  "\<exists>v md v' md'.
     bindE (Vote_Init (replicate MemberId_Size 0) None \<lparr>pc_len = 2, pc_data = [7, 8]\<rparr> (Vote_new (wire_hdr 0 0) False True))
       (add_requests [[1, 2, 3], [4]]) = Inr v \<and>
     Vote_Marshal v (MarshalData (\<lambda>_. 0) 32) = Inr md \<and> Vote_UnMarshal 3 md = Inr (Some v', md') \<and>
     Message.truncate v' = (wire_hdr 0 0)\<lparr>m_msgId := Message_Vote, m_unMarshalLen := Vote_GetMarshalLen v\<rparr> \<and>
     v_primaryCookie v' = \<lparr>pc_len = 2, pc_data = [7, 8]\<rparr> \<and> \<not> v_isReconfiguration v' \<and> v_relinquishPrimary v' = True \<and>
     map (req_bytes v') (v_requests v') = [[1, 2, 3], [4]]"
proof (rule vote_roundtrip)
  have "wire_hdr 0 0\<lparr>m_unMarshalLen := 172\<rparr> = wire_hdr 0 172" by (simp add: wire_hdr_def)
  then show "message_valid (wire_hdr 0 0\<lparr>m_unMarshalLen := Message_GetBaseSize (m_version (wire_hdr 0 0))\<rparr>)"
    using wire_hdr_valid [of 172 0] by (simp add: wire_hdr_def InitMessage_def base_sizes)
qed (simp_all add: cookie_ok_def wire_hdr_def InitMessage_def enc_requests_def)

section \<open>Bounds\<close>

lemma round_length_power:
  "k \<le> 31 \<Longrightarrow> (k = 0 \<or> 2 ^ (k - 1) < unat len) \<Longrightarrow> 0 < unat len \<Longrightarrow>
   (if unat len \<le> 2 ^ 31 then \<exists>j \<le> 31. unat (round_length (2 ^ k) len) = 2 ^ j \<and> unat len \<le> 2 ^ j \<and> 2 ^ j < 2 * unat len
    else round_length (2 ^ k) len = 0)"
proof (induction "31 - k" arbitrary: k rule: less_induct)
  case less
  have "(2::nat) ^ k < 2 ^ 32" using less.prems(1) by (intro power_strict_increasing) auto
  then have "unat (of_nat (2 ^ k) :: u32) = 2 ^ k" by (simp only: unat_of_nat) simp
  then have u: "unat (2 ^ k :: u32) = 2 ^ k" by simp
  have nz: "(2 ^ k :: u32) \<noteq> 0" using u by (metis power_eq_0_iff unat_0 zero_neq_numeral)
  have step: "push_bit 1 (2 ^ k :: u32) = 2 ^ Suc k" by (simp add: push_bit_eq_mult)
  show ?case
  proof (cases "2 ^ k < unat len")
    case False
    then have "round_length (2 ^ k) len = 2 ^ k" by (subst round_length.simps) (simp add: word_less_nat_alt u)
    moreover have "(2::nat) ^ k \<le> 2 ^ 31" using less.prems(1) by (intro power_increasing) auto
    moreover have "(2::nat) ^ k < 2 * unat len" using less.prems(2,3) by (cases k) auto
    ultimately show ?thesis using False less.prems(1) u by (auto intro: exI [of _ k])
  next
    case True
    then have rl: "round_length (2 ^ k) len = round_length (2 ^ Suc k) len"
      using less.prems(1) by (subst round_length.simps) (simp add: word_less_nat_alt u nz step mult.commute)
    show ?thesis
    proof (cases "k = 31")
      case True
      then have "(2 ^ Suc k :: u32) = 0" by simp
      then have "round_length (2 ^ Suc k) len = 0" by (simp only:) (simp add: round_length.simps)
      then show ?thesis using rl True \<open>2 ^ k < unat len\<close> by simp
    next
      case False
      then have "31 - Suc k < 31 - k" using less.prems(1) by arith
      note IH = less.hyps [OF this]
      show ?thesis unfolding rl by (rule IH) (use False True less.prems in auto)
    qed
  qed
qed

text \<open>
  A buffer that is too small grows to the least power of two that covers
  the requested length, so that appending costs amortised constant time; a
  length past 2^31, for which the doubling overflows to zero, is allocated as
  it is.  The contents stay.
\<close>
theorem resize_doubles:
  assumes "m_bufferLength mm < len"
  shows "\<exists>L. Standard_ResizeBuffer len mm = Inr (mm\<lparr>m_bufferLength := L\<rparr>) \<and>
     (if unat len \<le> 2 ^ 31 then \<exists>j \<le> 31. unat L = 2 ^ j \<and> unat len \<le> 2 ^ j \<and> 2 ^ j < 2 * unat len else L = len)"
proof -
  have "0 < unat len" using assms by (simp add: word_less_nat_alt)
  then have r: "if unat len \<le> 2 ^ 31 then \<exists>j \<le> 31. unat (round_length 1 len) = 2 ^ j \<and> unat len \<le> 2 ^ j \<and> 2 ^ j < 2 * unat len
      else round_length 1 len = 0"
    using round_length_power [of 0 len, unfolded power_0] by simp
  show ?thesis
  proof (cases "unat len \<le> 2 ^ 31")
    case True
    then obtain j where j: "j \<le> 31" "unat (round_length 1 len) = 2 ^ j" "unat len \<le> 2 ^ j" "2 ^ j < 2 * unat len"
      using r by auto
    then have "round_length 1 len \<noteq> 0" by (metis power_eq_0_iff unat_0 zero_neq_numeral)
    then show ?thesis using assms True j by (auto simp: Standard_ResizeBuffer_def Let_def)
  next
    case False
    then show ?thesis using assms r by (simp add: Standard_ResizeBuffer_def)
  qed
qed

theorem resize_doubles_witness:
  "\<exists>L. Standard_ResizeBuffer 100 (StandardMarshalMemoryManager (\<lambda>_. 0) 32) =
       Inr ((StandardMarshalMemoryManager (\<lambda>_. 0) 32)\<lparr>m_bufferLength := L\<rparr>) \<and>
     (if unat (100 :: u32) \<le> 2 ^ 31 then \<exists>j \<le> 31. unat L = 2 ^ j \<and> unat (100 :: u32) \<le> 2 ^ j \<and> 2 ^ j < 2 * unat (100 :: u32)
      else L = 100)"
  by (rule resize_doubles) (simp add: StandardMarshalMemoryManager_def)

text \<open>
  C29: ReadData stays inside its buffer exactly when the read pointer plus the
  requested length does not exceed 32 bits.  The test of the remaining length
  forms that sum in 32 bits, so a length from the wire that makes it wrap
  passes the test and the copy runs past the end of the buffer.
\<close>
theorem ReadData_out_of_bounds_iff:
  assumes "md_ok md" "\<not> m_overshoot md"
  shows "ReadData len md = Inl OutOfBounds \<longleftrightarrow> 2 ^ 32 \<le> unat (GetReadPointer md) + unat len"
proof -
  let ?p = "GetReadPointer md" let ?n = "GetMarshaledLength md"
  have p: "unat ?p \<le> unat ?n" "unat ?n \<le> unat (m_bufferLength (m_memoryManager md))"
    using assms(1) md_ok_readPointer by (auto simp: md_ok_def mm_ok_def GetMarshaledLength_def word_le_nat_alt)
  have b: "unat (m_bufferLength (m_memoryManager md)) < 2 ^ 32" "unat len < 2 ^ 32"
    using unsigned_less [of "m_bufferLength (m_memoryManager md)"] unsigned_less [of len] by simp_all
  show ?thesis
  proof (cases "2 ^ 32 \<le> unat ?p + unat len")
    case True
    then have "unat (?p + len) = unat ?p + unat len - 2 ^ 32" using b p by (simp add: unat_word_ariths mod_if)
    then have "\<not> ?p + len > ?n" using p b by (simp add: word_less_nat_alt not_less)
    then show ?thesis using True b p assms(2) by (simp add: ReadData_def get_bytes_def Let_def load_def)
  next
    case False
    then have s: "unat (?p + len) = unat ?p + unat len" by (simp add: unat_word_ariths)
    show ?thesis
    proof (cases "?p + len > ?n")
      case True
      then show ?thesis using False by (simp add: ReadData_def get_bytes_def Let_def)
    next
      case within: False
      then have "unat ?p + unat len \<le> unat ?n" using s by (simp add: word_less_nat_alt)
      then have "load (unat ?p) (unat len) (m_memoryManager md) =
          Inr (map (m_buffer (m_memoryManager md)) [unat ?p..<unat ?p + unat len])" using p by (simp add: load_def)
      then show ?thesis
        using within False assms(2)
        by (simp add: ReadData_def get_bytes_def Let_def SetReadPointer_ok GetMarshaledLength_def)
    qed
  qed
qed

theorem ReadData_out_of_bounds_iff_witness:
  "ReadData 0xFFFFFFFF (advance 2 (md_of [1, 2, 3])) = Inl OutOfBounds \<longleftrightarrow>
     2 ^ 32 \<le> unat (GetReadPointer (advance 2 (md_of [1, 2, 3]))) + unat (0xFFFFFFFF :: u32)"
proof (rule ReadData_out_of_bounds_iff)
  show "md_ok (advance 2 (md_of [1, 2, 3]))"
    using advance_ok [OF md_of_ok, of "[1, 2, 3]" 2] by (simp add: md_of_rest)
qed simp

section \<open>Received votes that stop the replica\<close>

text \<open>A vote whose only request announces 0xFFFFFFFC bytes.\<close>
definition endless_vote :: "(MemberId, 'z) Message_scheme \<Rightarrow> u8 list" where
  "endless_vote msg = enc_Message (m_unMarshalLen msg) msg @
     vote_body (replicate MemberId_Size 0) (m_version msg) PrimaryCookie_empty None False [] @
     le_bytes 4 (0xFFFFFFFC :: u32)"

text \<open>
  C32: UnMarshal never returns on a received vote with an empty cookie and a sole
  request that announces the length 0xFFFFFFFC: PeekDataPointer accepts it, ForwardReadPointer moves
  the read pointer back by four bytes, and the loop reads the same length again.
  No number of rounds is enough.
\<close>
theorem received_vote_never_parsed:
  assumes "message_valid msg" "m_msgId msg = Message_Vote" "m_unMarshalLen msg = of_nat (length (endless_vote msg))"
    "length (endless_vote msg) < 2 ^ 31"
  shows "Vote_UnMarshal fuel (md_of (endless_vote msg)) = Inl OutOfFuel"
proof -
  let ?v = "m_version msg" let ?md = "md_of (endless_vote msg)"
  have "body_valid ?v PrimaryCookie_empty None False []"
    by (simp add: body_valid_def cookie_ok_def PrimaryCookie_empty_def)
  then obtain pre where pre: "vote_body (replicate MemberId_Size 0) ?v PrimaryCookie_empty None False [] = pre"
      "reads (read_prefix ?v) pre (PrimaryCookie_empty, 0, None, 0)"
    using reads_prefix [of ?v PrimaryCookie_empty None False "[]" 0] by (auto simp: enc_requests_def)
  have md: "md_ok ?md" "\<not> m_overshoot ?md" "md_rest ?md = endless_vote msg @ []"
    using assms(4) by (simp_all add: md_of_ok md_of_rest)
  note px = Vote_UnMarshal_prefix [OF assms(1,2) refl pre(2) assms(3) [unfolded endless_vote_def pre(1)] md [unfolded endless_vote_def pre(1)]]
  show ?thesis
    using px(1) Vote_parse_requests_stuck [OF px(2-3), of "[]" fuel "m_decree msg" "[]"] px(4)
    by (simp add: bindR_def endless_vote_def pre(1))
qed

theorem received_vote_never_parsed_witness:
  "Vote_UnMarshal 1000 (md_of (endless_vote (wire_hdr Message_Vote 182))) = Inl OutOfFuel"
proof (rule received_vote_never_parsed)
  have v: "message_valid (wire_hdr Message_Vote 182)" by (rule wire_hdr_valid) simp
  then show "message_valid (wire_hdr Message_Vote 182)" .
  have l: "length (endless_vote (wire_hdr Message_Vote 182)) = 182"
    using length_enc_Message_le [OF v, of 182]
    by (simp add: endless_vote_def vote_body_def enc_PrimaryCookie_def PrimaryCookie_empty_def enc_requests_def base_sizes)
  show "m_unMarshalLen (wire_hdr Message_Vote 182) = of_nat (length (endless_vote (wire_hdr Message_Vote 182)))"
    "length (endless_vote (wire_hdr Message_Vote 182)) < 2 ^ 31"
    using l by simp_all
qed simp

text \<open>
  C33: Building a vote of protocol version 5 or 6 that is no reconfiguration aborts
  the process when the header, the cookie with its length and one byte fill whole
  pages of 4096 bytes exactly and take at least 32768 bytes: Init computes the size
  of its block without the relinquish byte that these versions add.  With less than
  that AddMemory still takes its least block of 32768 bytes, and there is room.
\<close>
theorem vote_init_aborts:
  assumes "m_version v = 5 \<or> m_version v = 6" "\<not> v_isReconfiguration v" "cookie_ok cookie"
    "4096 dvd unat (Message_GetBaseSize (m_version v)) + unat (pc_len cookie) + 5"
    "32768 \<le> unat (Message_GetBaseSize (m_version v)) + unat (pc_len cookie) + 5"
    "unat (pc_len cookie) < 2 ^ 30"
  shows "Vote_Init garb None cookie v = Inl AssertFailed"
  using Vote_Init_full [OF assms(1-3) refl assms(4,5)] assms(6) base_size_bounds(2) [of "m_version v"] by simp

theorem vote_init_aborts_witness:
  "Vote_Init [] None \<lparr>pc_len = 32591, pc_data = replicate 32591 7\<rparr>
     (Vote_new (wire_hdr 0 0) False False) = Inl AssertFailed"
  by (rule vote_init_aborts) (simp_all add: cookie_ok_def Vote_new_def wire_hdr_def InitMessage_def Message.defs
      Vote.defs base_sizes dvd_def)

end
