(* ===== verification/Log_Read.thy ===== *)
theory Log_Read
  imports Streams Log_File Wire_Props
begin

text \<open>
  Reading messages from a stream (legislator.cpp): UnMarshalMessage, which makes
  an object of the class the message identifier asks for, ReadNextMessage, which
  reads one page-aligned record and tolerates a torn end of the log when a replica
  restarts, and VerifyZeroStream.  The stream is any StreamReader; fuel bounds the
  reads of VerifyZeroStream and the requests of a vote, and more than the length of
  the stream is enough.
\<close>

section \<open>Messages of every class\<close>

datatype wire_msg =
    WVote "MemberId Vote"
  | WPrepareAccepted "MemberId PrepareAccepted"
  | WStatusResponse "MemberId StatusResponse"
  | WPrepare "MemberId PrepareMsg"
  | WJoin "MemberId JoinMessage"
  | WBootstrap "MemberId BootstrapMsg"
  | WMessage "MemberId Message"

definition wrapR :: "('a \<Rightarrow> wire_msg) \<Rightarrow> 'a reader \<Rightarrow> wire_msg reader" where
  "wrapR c r = bindR r (\<lambda>x. returnR (c x))"

definition UnMarshal_as :: "nat \<Rightarrow> u16 \<Rightarrow> wire_msg reader" where
  "UnMarshal_as fuel msgId =
     (if msgId = Message_Vote then wrapR WVote (Vote_UnMarshal fuel)
      else if msgId = Message_PrepareAccepted then wrapR WPrepareAccepted (PrepareAccepted_UnMarshal fuel)
      else if msgId = Message_StatusResponse then wrapR WStatusResponse StatusResponse_UnMarshal
      else if msgId = Message_Prepare then wrapR WPrepare PrepareMsg_UnMarshal
      else if msgId = Message_Join then wrapR WJoin JoinMessage_UnMarshal
      else if msgId = Message_Bootstrap then wrapR WBootstrap BootstrapMsg_UnMarshal
      else if msgId \<in> {Message_VoteAccepted, Message_NotAccepted, Message_StatusQuery, Message_DefunctConfiguration,
                       Message_JoinRequest, Message_ReconfigurationDecision}
      then wrapR WMessage Message_UnMarshal
      else failR)"

definition UnMarshalMessage :: "nat \<Rightarrow> memory_manager \<Rightarrow> (wire_msg option \<times> memory_manager) res" where
  "UnMarshalMessage fuel memory =
     bindE (bindR Message_Peek (\<lambda>msgHdr. UnMarshal_as fuel (m_msgId msgHdr)) (mk_md memory)) (\<lambda>(msg, md).
       Inr (msg, m_memoryManager md))"

section \<open>Reading a record\<close>

definition s_AvgMessageLen :: u32 where
  "s_AvgMessageLen = 10 * 1024 * 1024"

fun VerifyZeroStream :: "nat \<Rightarrow> (u32 \<Rightarrow> 's \<Rightarrow> (u32 \<times> u8 list \<times> 's) res) \<Rightarrow> 's \<Rightarrow> (bool \<times> 's) res" where
  "VerifyZeroStream 0 read s = Inl OutOfFuel"
| "VerifyZeroStream (Suc k) read s =
     bindE (read s_AvgMessageLen s) (\<lambda>(ec, bs, s).
       if ec = NO_ERROR
       then if list_all (\<lambda>b. b = 0) bs then VerifyZeroStream k read s else Inr (False, s)
       else Inr (ec = ERROR_HANDLE_EOF, s))"

text \<open>The body of a record: None to go on, or the result with which ReadNextMessage returns without a message.\<close>
definition read_body ::
  "(u32 \<Rightarrow> 's \<Rightarrow> (u32 \<times> u8 list \<times> 's) res) \<Rightarrow> bool \<Rightarrow> u32 \<Rightarrow> memory_manager \<Rightarrow> 's \<Rightarrow> (bool option \<times> memory_manager \<times> 's) res" where
  "read_body read restore len memory s =
     (let bodyLen = RoundUpToPage len - s_PageSize in
      if bodyLen > 0
      then bindE (MM_ResizeBuffer (RoundUpToPage len) memory) (\<lambda>memory.
           bindE (read bodyLen s) (\<lambda>(ec, bs, s).
           bindE (store (int (unat s_PageSize)) bs memory) (\<lambda>memory.
             Inr (if ec \<noteq> NO_ERROR \<or> of_nat (length bs) \<noteq> bodyLen
                  then Some (restore \<and> (ec = NO_ERROR \<or> ec = ERROR_HANDLE_EOF)) else None, memory, s))))
      else Inr (None, memory, s))"

definition read_first_page ::
  "(u32 \<Rightarrow> 's \<Rightarrow> (u32 \<times> u8 list \<times> 's) res) \<Rightarrow> memory_manager \<Rightarrow> 's \<Rightarrow> (u32 \<times> u8 list \<times> memory_manager \<times> 's) res" where
  "read_first_page read memory s =
     bindE (MM_ResizeBuffer s_AvgMessageLen memory) (\<lambda>memory.
     bindE (MM_SetReadPointer 0 memory) (\<lambda>memory.
     bindE (read s_PageSize s) (\<lambda>(ec, bs, s).
     bindE (store 0 bs memory) (\<lambda>memory. Inr (ec, bs, memory, s)))))"

text \<open>Checking and unmarshalling a record that is in memory; little and p are for the checksum.\<close>
definition finish_record ::
  "bool \<Rightarrow> nat \<Rightarrow> nat \<Rightarrow> (u32 \<Rightarrow> 's \<Rightarrow> (u32 \<times> u8 list \<times> 's) res) \<Rightarrow> bool \<Rightarrow> MemberId Message \<Rightarrow> memory_manager \<Rightarrow> 's \<Rightarrow>
   (bool \<times> wire_msg option \<times> memory_manager \<times> 's) res" where
  "finish_record little p fuel read restore msgHdr memory s =
     bindE (load 0 (unat (m_unMarshalLen msgHdr)) memory) (\<lambda>buf.
     bindE (Message_VerifyChecksum little p msgHdr buf (m_unMarshalLen msgHdr)) (\<lambda>good.
     if \<not> good
     then if restore
          then bindE (VerifyZeroStream fuel read s) (\<lambda>(zero, s). Inr (zero, None, memory, s))
          else Inr (False, None, memory, s)
     else bindE (MM_SetValidLength (m_unMarshalLen msgHdr) memory) (\<lambda>memory.
          bindE (UnMarshalMessage fuel memory) (\<lambda>(msg, memory).
            Inr (msg \<noteq> None, msg, memory, s)))))"

text \<open>The result is what is returned, and msg.\<close>
definition ReadNextMessage ::
  "bool \<Rightarrow> nat \<Rightarrow> nat \<Rightarrow> (u32 \<Rightarrow> 's \<Rightarrow> (u32 \<times> u8 list \<times> 's) res) \<Rightarrow> bool \<Rightarrow> memory_manager \<Rightarrow> 's \<Rightarrow>
   (bool \<times> wire_msg option \<times> memory_manager \<times> 's) res" where
  "ReadNextMessage little p fuel read restore memory s =
     bindE (read_first_page read memory s) (\<lambda>(ec, bs, memory, s).
     if ec = ERROR_HANDLE_EOF then Inr (True, None, memory, s)
     else if ec \<noteq> NO_ERROR \<or> of_nat (length bs) \<noteq> s_PageSize then Inr (False, None, memory, s)
     else bindE (Message_UnMarshalBuf Message_UnMarshal (m_buffer memory) s_PageSize) (\<lambda>hdr.
     case hdr of
       None \<Rightarrow>
         if restore \<and> list_all (\<lambda>b. b = 0) bs
         then bindE (VerifyZeroStream fuel read s) (\<lambda>(zero, s). Inr (zero, None, memory, s))
         else Inr (False, None, memory, s)
     | Some msgHdr \<Rightarrow>
         if m_msgId msgHdr \<notin> {Message_Vote, Message_Prepare, Message_ReconfigurationDecision}
         then Inr (False, None, memory, s)
         else bindE (read_body read restore (m_unMarshalLen msgHdr) memory s) (\<lambda>(stop, memory, s).
         case stop of
           Some ret \<Rightarrow> Inr (ret, None, memory, s)
         | None \<Rightarrow> finish_record little p fuel read restore msgHdr memory s)))"

text \<open>
  What the loop of RestoreState over a log file gets: the messages, each with
  BytesRead after it, and whether the last call returned true.  n bounds the calls.
\<close>
fun read_log ::
  "('s \<Rightarrow> u64) \<Rightarrow> (memory_manager \<Rightarrow> 's \<Rightarrow> (bool \<times> wire_msg option \<times> memory_manager \<times> 's) res) \<Rightarrow> nat \<Rightarrow>
   memory_manager \<Rightarrow> 's \<Rightarrow> ((wire_msg \<times> u64) list \<times> bool) res" where
  "read_log bytesRead readNext 0 memory s = Inl OutOfFuel"
| "read_log bytesRead readNext (Suc n) memory s =
     bindE (readNext memory s) (\<lambda>(ok, msg, memory, s).
       case msg of
         None \<Rightarrow> Inr ([], ok)
       | Some m \<Rightarrow> if ok then bindE (read_log bytesRead readNext n memory s) (\<lambda>(ms, clean). Inr ((m, bytesRead s) # ms, clean))
                   else Inr ([], False))"

section \<open>Records\<close>

text \<open>What a replica logs, by its contents; g is what fills the member identifiers of a replica set behind their terminator.\<close>
datatype log_rec =
    LVote "MemberId Message" u8 PrimaryCookie "MemberSet option" bool "u8 list list"
  | LPrepare "MemberId PrepareMsg"
  | LDecision "MemberId Message"

fun rec_hdr :: "log_rec \<Rightarrow> MemberId Message" where
  "rec_hdr (LVote msg g cookie members relinq reqs) = msg"
| "rec_hdr (LPrepare msg) = Message.truncate msg"
| "rec_hdr (LDecision msg) = msg"

fun rec_body :: "log_rec \<Rightarrow> u8 list" where
  "rec_body (LVote msg g cookie members relinq reqs) =
     vote_body (replicate MemberId_Size g) (m_version msg) cookie members relinq reqs"
| "rec_body (LPrepare msg) = (if m_version msg \<ge> 2 then enc_PrimaryCookie (pm_primaryCookie msg) else [])"
| "rec_body (LDecision msg) = []"

definition rec_wire :: "log_rec \<Rightarrow> u8 list" where
  "rec_wire r = enc_Message (m_unMarshalLen (rec_hdr r)) (rec_hdr r) @ rec_body r"

fun rec_kind_ok :: "log_rec \<Rightarrow> bool" where
  "rec_kind_ok (LVote msg g cookie members relinq reqs) \<longleftrightarrow>
     m_msgId msg = Message_Vote \<and> body_valid (m_version msg) cookie members relinq reqs"
| "rec_kind_ok (LPrepare msg) \<longleftrightarrow> prepare_valid msg"
| "rec_kind_ok (LDecision msg) \<longleftrightarrow> m_msgId msg = Message_ReconfigurationDecision"

definition rec_shape :: "log_rec \<Rightarrow> bool" where
  "rec_shape r \<longleftrightarrow> rec_kind_ok r \<and> message_valid (rec_hdr r) \<and>
     unat (m_unMarshalLen (rec_hdr r)) = length (rec_wire r) \<and> length (rec_wire r) < 2 ^ 30"

definition rec_sealed :: "log_rec \<Rightarrow> bool" where
  "rec_sealed r \<longleftrightarrow> m_checksum (rec_hdr r) = rabin the_poly the_poly (drop 14 (rec_wire r))"

text \<open>The object that is read for a record.\<close>
fun rec_read :: "log_rec \<Rightarrow> wire_msg \<Rightarrow> bool" where
  "rec_read (LVote msg g cookie members relinq reqs) (WVote v) \<longleftrightarrow>
     Message.truncate v = msg \<and> v_primaryCookie v = cookie \<and> v_membersInNewConfiguration v = members \<and>
     (v_isReconfiguration v \<longleftrightarrow> members \<noteq> None) \<and> v_relinquishPrimary v = relinq \<and>
     map (req_bytes v) (v_requests v) = reqs"
| "rec_read (LPrepare msg) (WPrepare m) \<longleftrightarrow> m = msg"
| "rec_read (LDecision msg) (WMessage m) \<longleftrightarrow> m = msg"
| "rec_read _ _ \<longleftrightarrow> False"

text \<open>A record as it is in the log: padded to whole pages with any bytes.\<close>
definition padded :: "log_rec \<times> u8 list \<Rightarrow> bool" where
  "padded = (\<lambda>(r, pad). length (rec_wire r @ pad) = (length (rec_wire r) + 511) div 512 * 512)"

definition rec_page_bytes :: "log_rec \<times> u8 list \<Rightarrow> u8 list" where
  "rec_page_bytes = (\<lambda>(r, pad). rec_wire r @ pad)"

definition log_header :: "MemberId Message \<Rightarrow> bool" where
  "log_header h \<longleftrightarrow> message_valid h \<and> m_msgId h \<in> {Message_Vote, Message_Prepare, Message_ReconfigurationDecision}"

definition hdr_bytes :: "MemberId Message \<Rightarrow> u8 list" where
  "hdr_bytes h = enc_Message (m_unMarshalLen h) h"

lemma hdr_bytes_length: "log_header h \<Longrightarrow> length (hdr_bytes h) \<le> 512 \<and> 14 \<le> length (hdr_bytes h) \<and> length (hdr_bytes h) \<le> unat (m_unMarshalLen h)"
proof -
  assume h: "log_header h"
  then have "member_ok (m_memberId h)" "ballot_ok (m_ballot h)"
    by (auto simp: log_header_def message_valid_def member_valid_def ballot_ok_def)
  note len = length_enc_Message [OF this]
  have "unat (Message_GetBaseSize v) \<le> 512" for v
    by (simp add: Message_GetBaseSize_def Let_def MemberId_GetBaseSize_def BallotNumber_GetBaseSize_def MemberId_Size_def)
  then show ?thesis using h len base_size_bounds(1) by (auto simp: hdr_bytes_def log_header_def message_valid_def not_less word_le_nat_alt)
qed

lemma rec_header: "rec_shape r \<Longrightarrow> log_header (rec_hdr r)" "rec_wire r = hdr_bytes (rec_hdr r) @ rec_body r"
  by (cases r; auto simp: rec_shape_def log_header_def prepare_valid_def Message.defs) (simp add: rec_wire_def hdr_bytes_def)

lemma rec_base: "rec_shape r \<Longrightarrow> 14 \<le> length (rec_wire r)"
  using hdr_bytes_length [OF rec_header(1), of r] rec_header(2) [of r] by simp

lemma truncate_Message [simp]: "Message.truncate (m :: 'm Message) = m"
  by (simp add: Message.defs)

lemma Peek_reads:
  assumes "reads Message_UnMarshal bs h" "md_ok md" "\<not> m_overshoot md" "md_rest md = bs @ rest"
  shows "Message_Peek md = Inr (Some h, md)"
  using readsD [OF assms] SetReadPointer_back [OF assms(2,3)] by (simp add: Message_Peek_def Let_def)

lemma rec_vote_unmarshals:
  assumes r: "rec_shape r" "r = LVote msg g cookie members relinq reqs"
    and md: "md_ok md" "\<not> m_overshoot md" "md_rest md = rec_wire r @ rest" and fuel: "length (rec_wire r) < fuel"
  obtains v where "Vote_UnMarshal fuel md = Inr (Some v, advance (length (rec_wire r)) md)" "rec_read r (WVote v)" "vote_bytes v = rec_wire r"
proof -
  have L: "m_unMarshalLen msg = of_nat (length (enc_Message (m_unMarshalLen msg) msg @
      vote_body (replicate MemberId_Size g) (m_version msg) cookie members relinq reqs))"
  proof -
    have "unat (m_unMarshalLen msg) = length (rec_wire r)" using r by (simp add: rec_shape_def)
    then have "m_unMarshalLen msg = of_nat (length (rec_wire r))" by (metis of_nat_unat ucast_id)
    then show ?thesis by (simp only: r(2) rec_wire_def rec_hdr.simps rec_body.simps)
  qed
  have "length reqs \<le> length (enc_requests reqs)" by (induction reqs) (auto simp: enc_requests_def)
  also have "\<dots> \<le> length (rec_wire r)" by (simp add: r(2) rec_wire_def vote_body_def)
  finally have f: "length reqs < fuel" using fuel by simp
  show ?thesis
    using Vote_UnMarshal_ok [of msg "m_version msg" cookie members relinq reqs g md rest fuel] r L md f that
    by (auto simp: rec_shape_def rec_wire_def)
qed

lemma rec_unmarshals:
  assumes r: "rec_shape r" and md: "md_ok md" "\<not> m_overshoot md" "md_rest md = rec_wire r @ rest" and fuel: "length (rec_wire r) < fuel"
  shows "\<exists>m md'. UnMarshal_as fuel (m_msgId (rec_hdr r)) md = Inr (Some m, md') \<and> rec_read r m \<and> (\<exists>n. md' = advance n md)"
proof (cases r)
  case (LVote msg g cookie members relinq reqs)
  obtain v where "Vote_UnMarshal fuel md = Inr (Some v, advance (length (rec_wire r)) md)" "rec_read r (WVote v)"
    using rec_vote_unmarshals [OF r LVote md fuel] .
  then show ?thesis using LVote r
    by (intro exI [of _ "WVote v"]) (auto simp: rec_shape_def UnMarshal_as_def wrapR_def bindR_def returnR_def)
next
  case (LPrepare msg)
  have v: "prepare_valid msg" using r LPrepare by (simp add: rec_shape_def)
  then have "m_msgId msg = Message_Prepare" "m_unMarshalLen msg = PrepareMsg_GetMarshalLen msg" by (auto simp: prepare_valid_def)
  moreover then have "rec_wire r = enc_PrepareMsg msg"
    using LPrepare by (simp add: rec_wire_def enc_PrepareMsg_def enc_Message_def Message.defs)
  ultimately show ?thesis using readsD [OF preparec.read_enc [OF v] md(1,2), of rest] md(3) LPrepare
    by (intro exI [of _ "WPrepare msg"]) (auto simp: UnMarshal_as_def wrapR_def bindR_def returnR_def Message.defs)
next
  case (LDecision msg)
  have v: "message_valid msg" "m_msgId msg = Message_ReconfigurationDecision" using r LDecision by (auto simp: rec_shape_def)
  show ?thesis using readsD [OF reads_Message [OF v(1) refl] md(1,2), of rest] md(3) LDecision v(2)
    by (intro exI [of _ "WMessage msg"]) (auto simp: UnMarshal_as_def wrapR_def bindR_def returnR_def rec_wire_def)
qed

text \<open>
  What a crash may leave behind the last record: nothing, pages of zeros, or the
  first page of a record and only some of its other pages, the missing ones cut
  off or still zero.
\<close>
definition torn_tail :: "u8 list \<Rightarrow> bool" where
  "torn_tail t \<longleftrightarrow> t = [] \<or> (list_all (\<lambda>b. b = 0) t \<and> 512 \<le> length t) \<or>
     (\<exists>h b. log_header h \<and> unat (m_unMarshalLen h) < 2 ^ 30 \<and> t = hdr_bytes h @ b \<and> 512 \<le> length t \<and>
        (length t < (unat (m_unMarshalLen h) + 511) div 512 * 512 \<or>
         (unat (m_unMarshalLen h) + 511) div 512 * 512 \<le> length t \<and>
         m_checksum h \<noteq> rabin the_poly the_poly (drop 14 (take (unat (m_unMarshalLen h)) t)) \<and>
         list_all (\<lambda>b. b = 0) (drop ((unat (m_unMarshalLen h) + 511) div 512 * 512) t)))"

section \<open>Reading from any stream\<close>

lemma UnMarshalBuf_page:
  assumes "map buf [0..<512] = pg"
  obtains md where "Message_UnMarshalBuf um buf s_PageSize = bindE (um md) (\<lambda>(ret, _). Inr ret)"
    "md_ok md" "\<not> m_overshoot md" "md_rest md = pg"
proof -
  let ?md = "mk_md ((FixedMarshalMemoryManager buf s_PageSize)\<lparr>m_validLength := 512\<rparr>)"
  have "SetMarshaledLength s_PageSize \<lparr>m_memoryManager = FixedMarshalMemoryManager buf s_PageSize,
      m_selfOwnsMemoryManager = False, m_overshoot = False\<rparr> = Inr ?md"
    by (simp add: SetMarshaledLength_def MM_ResizeBuffer_def Fixed_ResizeBuffer_def FixedMarshalMemoryManager_def MM_SetValidLength_def
        Let_def mk_md_def s_PageSize_def)
  then have "Message_UnMarshalBuf um buf s_PageSize = bindE (um ?md) (\<lambda>(ret, _). Inr ret)"
    by (simp add: Message_UnMarshalBuf_def)
  moreover have "md_ok ?md" "\<not> m_overshoot ?md" "md_rest ?md = pg"
    using assms by (auto simp: md_ok_def mm_ok_def FixedMarshalMemoryManager_def s_PageSize_def md_rest_def mm_contents_def GetReadPointer_def)
  ultimately show ?thesis using that by blast
qed

text \<open>A page of zeros is no header: no version is zero.\<close>
lemma UnMarshalBuf_zero:
  assumes "map buf [0..<512] = replicate 512 0"
  shows "Message_UnMarshalBuf Message_UnMarshal buf s_PageSize = Inr None"
proof -
  obtain md where md: "Message_UnMarshalBuf Message_UnMarshal buf s_PageSize = bindE (Message_UnMarshal md) (\<lambda>(ret, _). Inr ret)"
      "md_ok md" "\<not> m_overshoot md" "md_rest md = replicate 512 0"
    using UnMarshalBuf_page [OF assms] .
  have "le_bytes 2 (0 :: u16) = [0, 0]" by (simp add: le_bytes_2 byte_of_def)
  moreover have "replicate 512 (0 :: u8) = [0, 0] @ replicate 510 0"
    using replicate_add [of 2 510 "0 :: u8"] by (simp add: numeral_2_eq_2)
  ultimately have "md_rest md = le_bytes 2 (0 :: u16) @ replicate 510 0" using md(4) by simp
  then have "ReadUInt16 md = Inr (Some 0, advance 2 md)" using readsD [OF reads_UInt16 md(2,3)] by fastforce
  then show ?thesis using md(1) by (simp add: Message_UnMarshal_def bindR_def guardR_def failR_def IsVersionValid_def)
qed

definition memory_at :: "memory_manager \<Rightarrow> u8 list \<Rightarrow> bool" where
  "memory_at memory bs \<longleftrightarrow> mm_kind memory = StandardMM \<and> m_readPointer memory = 0 \<and>
     length bs \<le> unat (m_bufferLength memory) \<and> map (m_buffer memory) [0..<length bs] = bs"

lemma store_memory_at:
  assumes "mm_kind memory = StandardMM" "m_readPointer memory = 0" "map (m_buffer memory) [0..<off] = pre"
    "off + length bs \<le> unat (m_bufferLength memory)"
  shows "\<exists>memory'. store (int off) bs memory = Inr memory' \<and> memory_at memory' (pre @ bs) \<and> m_bufferLength memory' = m_bufferLength memory"
proof -
  have "length pre = off" using assms(3) by auto
  then show ?thesis
    using store_blit [OF assms(4)] map_blit_append [of "m_buffer memory" off bs] assms by (simp add: memory_at_def)
qed

lemma resize_standard:
  assumes "mm_kind memory = StandardMM"
  obtains L where "MM_ResizeBuffer n memory = Inr (memory\<lparr>m_bufferLength := L\<rparr>)" "unat n \<le> unat L" "n \<le> m_bufferLength memory \<longrightarrow> L = m_bufferLength memory"
proof (cases "n \<le> m_bufferLength memory")
  case True
  then show ?thesis using that [of "m_bufferLength memory"] assms
    by (simp add: MM_ResizeBuffer_def Standard_ResizeBuffer_def leD) (simp add: word_le_nat_alt)
next
  case False
  have "unat n \<le> mm_limit memory" using assms unsigned_less [of n, where ?'a = nat] by (simp add: mm_limit_def)
  then show ?thesis using False virt.resize_grows [where mm = memory and n = n] that assms by (auto simp: word_le_nat_alt)
qed

context stream_reader
begin

lemma VerifyZeroStream_ok: "src s r \<Longrightarrow> length r < k \<Longrightarrow> \<exists>s'. VerifyZeroStream k read s = Inr (list_all (\<lambda>b. b = 0) r, s')"
proof (induction k arbitrary: s r)
  case (Suc k)
  have a: "unat s_AvgMessageLen = 10485760" by (simp add: s_AvgMessageLen_def)
  obtain s1 where s1: "read s_AvgMessageLen s = Inr (if r = [] then ERROR_HANDLE_EOF else NO_ERROR, take (unat s_AvgMessageLen) r, s1)"
      "src s1 (drop (unat s_AvgMessageLen) r)"
    using read_stream [OF Suc.prems(1), of s_AvgMessageLen] a by (auto simp: s_AvgMessageLen_def)
  show ?case
  proof (cases "r = []")
    case False
    then have "length (drop (unat s_AvgMessageLen) r) < k" using a Suc.prems(2) by (cases r) auto
    then obtain s2 where s2: "VerifyZeroStream k read s1 = Inr (list_all (\<lambda>b. b = 0) (drop (unat s_AvgMessageLen) r), s2)"
      using Suc.IH [OF s1(2)] by blast
    have "list_all (\<lambda>b. b = 0) r \<longleftrightarrow> list_all (\<lambda>b. b = 0) (take (unat s_AvgMessageLen) r) \<and> list_all (\<lambda>b. b = 0) (drop (unat s_AvgMessageLen) r)"
      by (metis append_take_drop_id list_all_append)
    then show ?thesis using s1(1) s2 False by auto
  qed (use s1 in \<open>simp add: win_errors\<close>)
qed simp

lemma read_first_page_ok:
  assumes "src s r" "mm_kind memory = StandardMM"
  obtains memory' s' where "read_first_page read memory s = Inr (if r = [] then ERROR_HANDLE_EOF else NO_ERROR, take 512 r, memory', s')"
    "src s' (drop 512 r)" "memory_at memory' (take 512 r)" "512 \<le> length r \<longrightarrow> bytesRead s' = bytesRead s + 512"
    "s_AvgMessageLen \<le> m_bufferLength memory \<longrightarrow> m_bufferLength memory' = m_bufferLength memory"
proof -
  obtain L where L: "MM_ResizeBuffer s_AvgMessageLen memory = Inr (memory\<lparr>m_bufferLength := L\<rparr>)" "unat s_AvgMessageLen \<le> unat L"
      "s_AvgMessageLen \<le> m_bufferLength memory \<longrightarrow> L = m_bufferLength memory"
    using resize_standard [OF assms(2), of s_AvgMessageLen] by metis
  have p: "unat s_PageSize = 512" "s_PageSize \<noteq> 0" "(ucast s_PageSize :: u64) = 512" by (simp_all add: s_PageSize_def)
  obtain s' where s': "read s_PageSize s = Inr (if r = [] then ERROR_HANDLE_EOF else NO_ERROR, take 512 r, s')" "src s' (drop 512 r)"
      "512 \<le> length r \<longrightarrow> bytesRead s' = bytesRead s + 512"
    using read_stream [OF assms(1), of s_PageSize] p by auto
  have "unat s_AvgMessageLen = 10485760" by (simp add: s_AvgMessageLen_def)
  then have "0 + length (take 512 r) \<le> unat L" using L(2) by auto
  then obtain memory' where "store 0 (take 512 r) (memory\<lparr>m_bufferLength := L, m_readPointer := 0\<rparr>) = Inr memory'" "memory_at memory' (take 512 r)"
      "m_bufferLength memory' = L"
    using store_memory_at [of "memory\<lparr>m_bufferLength := L, m_readPointer := 0\<rparr>" 0 "[]" "take 512 r"] assms(2) by (auto simp del: length_take)
  then show ?thesis using that s' L(1,3) by (auto simp: read_first_page_def MM_SetReadPointer_def)
qed

lemma read_body_ok:
  assumes "memory_at memory pg" "length pg = 512" "src s (bs @ r)" "length (pg @ bs) = (unat len + 511) div 512 * 512" "unat len < 2 ^ 30"
  obtains memory' s' where "read_body read restore len memory s = Inr (None, memory', s')" "src s' r" "memory_at memory' (pg @ bs)"
    "bytesRead s' = bytesRead s + of_nat (length bs)"
proof -
  have R: "unat (RoundUpToPage len) = 512 + length bs" using RoundUpToPage_nat [of len] assms(2,4,5) by simp
  have small: "length bs < 2 ^ 31" using assms(2,4,5) by simp
  have b: "unat (RoundUpToPage len - s_PageSize) = length bs" using R by (simp add: unat_sub word_le_nat_alt s_PageSize_def)
  then have bn: "RoundUpToPage len - s_PageSize = of_nat (length bs)" by (metis of_nat_unat ucast_id)
  show ?thesis
  proof (cases "bs = []")
    case True
    then show ?thesis using that [of memory s] assms(1,3) bn by (simp add: read_body_def)
  next
    case False
    obtain L where L: "MM_ResizeBuffer (RoundUpToPage len) memory = Inr (memory\<lparr>m_bufferLength := L\<rparr>)" "unat (RoundUpToPage len) \<le> unat L"
      using resize_standard [of memory "RoundUpToPage len"] assms(1) unfolding memory_at_def by metis
    obtain s' where s': "read (RoundUpToPage len - s_PageSize) s = Inr (NO_ERROR, bs, s')" "src s' r" "bytesRead s' = bytesRead s + of_nat (length bs)"
      using read_all [OF assms(3) bn small] .
    have "map (m_buffer memory) [0..<512] = pg" using assms(1,2) by (simp add: memory_at_def)
    then obtain memory' where m': "store (int 512) bs (memory\<lparr>m_bufferLength := L\<rparr>) = Inr memory'" "memory_at memory' (pg @ bs)"
      using store_memory_at [of "memory\<lparr>m_bufferLength := L\<rparr>" 512 pg bs] L(2) R assms(1) by (auto simp: memory_at_def)
    have "0 < RoundUpToPage len - s_PageSize" using b False by (simp add: word_less_nat_alt)
    then have "read_body read restore len memory s = Inr (None, memory', s')"
      using L(1) s'(1) m'(1) bn by (simp add: read_body_def s_PageSize_def)
    then show ?thesis using that m'(2) s'(2,3) by blast
  qed
qed

text \<open>The end of the stream within a body is taken for the end of the log at a restart, and for an error otherwise.\<close>
lemma read_body_torn:
  assumes "memory_at memory pg" "src s r" "512 + length r < (unat len + 511) div 512 * 512" "unat len < 2 ^ 30"
  obtains memory' s' where "read_body read restore len memory s = Inr (Some restore, memory', s')"
proof -
  have R: "unat (RoundUpToPage len) = (unat len + 511) div 512 * 512" using RoundUpToPage_nat [of len] assms(4) by simp
  let ?n = "RoundUpToPage len - s_PageSize"
  have b: "unat ?n = (unat len + 511) div 512 * 512 - 512" using R assms(3) by (simp add: unat_sub word_le_nat_alt s_PageSize_def)
  then have n: "0 < ?n" "length r < unat ?n" "unat ?n < 2 ^ 31" using assms(3,4) by (simp_all add: word_less_nat_alt)
  obtain L where L: "MM_ResizeBuffer (RoundUpToPage len) memory = Inr (memory\<lparr>m_bufferLength := L\<rparr>)" "unat (RoundUpToPage len) \<le> unat L"
    using resize_standard [of memory "RoundUpToPage len"] assms(1) unfolding memory_at_def by metis
  have "?n \<noteq> 0" using n(1) by auto
  then obtain s' where s': "read ?n s = Inr (if r = [] then ERROR_HANDLE_EOF else NO_ERROR, r, s')"
    using read_stream [OF assms(2) n(3)] n(2) by (simp only: not_False_eq_True simp_thms if_cancel) auto
  obtain memory' where m': "store (int 512) r (memory\<lparr>m_bufferLength := L\<rparr>) = Inr memory'"
    using store_memory_at [of "memory\<lparr>m_bufferLength := L\<rparr>" 512 _ r] L(2) R assms(1,3) by (auto simp: memory_at_def)
  have "unat (of_nat (length r) :: u32) = length r" using n(2,3) by (simp add: unat_of_nat take_bit_nat_eq_self)
  then have "of_nat (length r) \<noteq> ?n" using n(2) by auto
  then have "read_body read restore len memory s = Inr (Some restore, memory', s')"
    using L(1) s' m' n(1) by (simp add: read_body_def s_PageSize_def) 
  then show ?thesis using that by blast
qed

lemma finish_record_ok:
  assumes "rec_shape r" "rec_sealed r" "memory_at memory (rec_wire r @ pad)" "length (rec_wire r) < fuel"
  shows "\<exists>m memory'. finish_record little p fuel read restore (rec_hdr r) memory s = Inr (True, Some m, memory', s) \<and>
    rec_read r m \<and> mm_kind memory' = StandardMM"
proof -
  let ?w = "rec_wire r" let ?L = "m_unMarshalLen (rec_hdr r)"
  have L: "unat ?L = length ?w" "length ?w < 2 ^ 30" using assms(1) by (auto simp: rec_shape_def)
  have mem: "mm_kind memory = StandardMM" "m_readPointer memory = 0" "length (?w @ pad) \<le> unat (m_bufferLength memory)"
    "map (m_buffer memory) [0..<length (?w @ pad)] = ?w @ pad"
    using assms(3) by (auto simp: memory_at_def)
  have "map (m_buffer memory) [0..<length ?w] = take (length ?w) (map (m_buffer memory) [0..<length (?w @ pad)])" by (simp add: take_map)
  then have w: "map (m_buffer memory) [0..<length ?w] = ?w" using mem(4) by simp
  then have ld: "load 0 (unat ?L) memory = Inr ?w" using L(1) mem(3) by (simp add: load_def)
  have vc: "Message_VerifyChecksum little p (rec_hdr r) ?w ?L = Inr True"
    using Verify_rabin [OF L(1) _ refl] rec_base [OF assms(1)] assms(2) by (simp add: rec_sealed_def)
  let ?m = "memory\<lparr>m_validLength := ?L\<rparr>"
  have sv: "MM_SetValidLength ?L memory = Inr ?m" using mem(2,3) L(1) by (simp add: MM_SetValidLength_def word_le_nat_alt)
  have md: "md_ok (mk_md ?m)" "\<not> m_overshoot (mk_md ?m)" "md_rest (mk_md ?m) = ?w"
    using mem L w by (auto simp: md_ok_def mm_ok_def md_rest_def mm_contents_def GetReadPointer_def word_le_nat_alt)
  have "Message_Peek (mk_md ?m) = Inr (Some (rec_hdr r), mk_md ?m)"
    using Peek_reads [OF reads_Message [OF _ refl] md(1,2), of "rec_hdr r" "rec_body r"] assms(1) md(3) by (simp add: rec_shape_def rec_wire_def)
  moreover obtain m md' where "UnMarshal_as fuel (m_msgId (rec_hdr r)) (mk_md ?m) = Inr (Some m, md')" "rec_read r m"
      "mm_kind (m_memoryManager md') = StandardMM"
    using rec_unmarshals [OF assms(1) md(1,2) _ assms(4), of "[]"] md(3) mem(1) by (auto simp: advance_def)
  ultimately show ?thesis using ld vc sv by (simp add: finish_record_def UnMarshalMessage_def bindR_def [of Message_Peek])
qed

lemma padded_length: "padded (r, pad) \<Longrightarrow> rec_shape r \<Longrightarrow> 512 \<le> length (rec_page_bytes (r, pad))"
proof -
  assume "padded (r, pad)" "rec_shape r"
  then have "length (rec_page_bytes (r, pad)) = (length (rec_wire r) + 511) div 512 * 512" "14 \<le> length (rec_wire r)"
    using rec_base by (auto simp: padded_def rec_page_bytes_def)
  moreover then have "1 \<le> (length (rec_wire r) + 511) div 512" by linarith
  ultimately show ?thesis by linarith
qed

text \<open>Up to the body: the header of a record is read from its first page.\<close>
lemma read_record_header:
  assumes "log_header h" "512 \<le> length pgs" "pgs = hdr_bytes h @ b" "src s pgs" "mm_kind memory = StandardMM"
  obtains memory' s' where
    "ReadNextMessage little p fuel read restore memory s =
       bindE (read_body read restore (m_unMarshalLen h) memory' s') (\<lambda>(stop, memory, s).
         case stop of Some ret \<Rightarrow> Inr (ret, None, memory, s)
         | None \<Rightarrow> finish_record little p fuel read restore h memory s)"
    "src s' (drop 512 pgs)" "memory_at memory' (take 512 pgs)" "bytesRead s' = bytesRead s + 512"
    "s_AvgMessageLen \<le> m_bufferLength memory \<longrightarrow> m_bufferLength memory' = m_bufferLength memory"
proof -
  have ne: "pgs \<noteq> []" using assms(2) by auto
  obtain memory' s' where 1: "read_first_page read memory s = Inr (NO_ERROR, take 512 pgs, memory', s')"
      "src s' (drop 512 pgs)" "memory_at memory' (take 512 pgs)" "bytesRead s' = bytesRead s + 512"
      "s_AvgMessageLen \<le> m_bufferLength memory \<longrightarrow> m_bufferLength memory' = m_bufferLength memory"
    by (rule read_first_page_ok [OF assms(4,5)]) (use ne assms(2) in auto)
  have h: "message_valid h" "m_msgId h \<in> {Message_Vote, Message_Prepare, Message_ReconfigurationDecision}"
    using assms(1) by (auto simp: log_header_def)
  have len: "length (take 512 pgs) = 512" using assms(2) by simp
  then have "map (m_buffer memory') [0..<512] = take 512 pgs" using 1(3) by (simp add: memory_at_def)
  from UnMarshalBuf_page [OF this, of Message_UnMarshal] obtain md where
    md: "Message_UnMarshalBuf Message_UnMarshal (m_buffer memory') s_PageSize = bindE (Message_UnMarshal md) (\<lambda>(ret, _). Inr ret)"
    "md_ok md" "\<not> m_overshoot md" "md_rest md = take 512 pgs" .
  have "take 512 pgs = hdr_bytes h @ take (512 - length (hdr_bytes h)) b"
    using assms(3) hdr_bytes_length [OF assms(1)] by simp
  then have "Message_UnMarshal md = Inr (Some h, advance (length (hdr_bytes h)) md)"
    using readsD [OF reads_Message [OF h(1) refl] md(2,3)] md(4) by (simp add: hdr_bytes_def)
  then have um: "Message_UnMarshalBuf Message_UnMarshal (m_buffer memory') s_PageSize = Inr (Some h)"
    using md(1) by simp
  then have "ReadNextMessage little p fuel read restore memory s =
       bindE (read_body read restore (m_unMarshalLen h) memory' s') (\<lambda>(stop, memory, s).
         case stop of Some ret \<Rightarrow> Inr (ret, None, memory, s)
         | None \<Rightarrow> finish_record little p fuel read restore h memory s)"
    using 1(1) len h(2) by (simp add: ReadNextMessage_def win_errors) (auto simp: s_PageSize_def)
  then show ?thesis using that 1(2-5) by blast
qed

lemma ReadNextMessage_record:
  assumes r: "rec_shape r" "rec_sealed r" "padded (r, pad)" and s: "src s (rec_page_bytes (r, pad) @ rest)"
    and m: "mm_kind memory = StandardMM" and fuel: "length (rec_wire r) < fuel"
  shows "\<exists>m memory' s'. ReadNextMessage little p fuel read restore memory s = Inr (True, Some m, memory', s') \<and> rec_read r m \<and>
    src s' rest \<and> mm_kind memory' = StandardMM \<and> bytesRead s' = bytesRead s + of_nat (length (rec_page_bytes (r, pad)))"
proof -
  let ?w = "rec_page_bytes (r, pad)"
  have w: "512 \<le> length ?w" using padded_length r by blast
  obtain memory1 s1 where 1: "ReadNextMessage little p fuel read restore memory s =
       bindE (read_body read restore (m_unMarshalLen (rec_hdr r)) memory1 s1) (\<lambda>(stop, memory, s).
         case stop of Some ret \<Rightarrow> Inr (ret, None, memory, s)
         | None \<Rightarrow> finish_record little p fuel read restore (rec_hdr r) memory s)"
      "src s1 (drop 512 (?w @ rest))" "memory_at memory1 (take 512 (?w @ rest))" "bytesRead s1 = bytesRead s + 512"
    by (rule read_record_header [OF rec_header(1) [OF r(1)] _ _ s m, of "rec_body r @ pad @ rest" little p fuel restore])
      (use w in \<open>auto simp: rec_page_bytes_def rec_header(2)\<close>)
  have L: "unat (m_unMarshalLen (rec_hdr r)) = length (rec_wire r)" "length (rec_wire r) < 2 ^ 30" using r(1) by (auto simp: rec_shape_def)
  have b: "src s1 (drop 512 ?w @ rest)" "memory_at memory1 (take 512 ?w)" "length (take 512 ?w) = 512"
    "length (take 512 ?w @ drop 512 ?w) = (unat (m_unMarshalLen (rec_hdr r)) + 511) div 512 * 512" "unat (m_unMarshalLen (rec_hdr r)) < 2 ^ 30"
    using 1(2,3) w r(3) L by (auto simp: padded_def rec_page_bytes_def)
  obtain memory2 s2 where 2: "read_body read restore (m_unMarshalLen (rec_hdr r)) memory1 s1 = Inr (None, memory2, s2)" "src s2 rest"
      "memory_at memory2 (take 512 ?w @ drop 512 ?w)" "bytesRead s2 = bytesRead s1 + of_nat (length (drop 512 ?w))"
    by (rule read_body_ok [OF b(2,3,1,4,5)])
  have "memory_at memory2 (rec_wire r @ pad)" using 2(3) by (simp only: append_take_drop_id) (simp add: rec_page_bytes_def)
  then obtain m memory3 where "finish_record little p fuel read restore (rec_hdr r) memory2 s2 = Inr (True, Some m, memory3, s2)"
      "rec_read r m" "mm_kind memory3 = StandardMM"
    using finish_record_ok [OF r(1,2) _ fuel] by blast
  moreover have "bytesRead s2 = bytesRead s + of_nat (length ?w)" using 1(4) 2(4) w by (simp add: of_nat_diff)
  ultimately show ?thesis using 1(1) 2(1,2) by simp
qed

lemma ReadNextMessage_zeros:
  assumes z: "list_all (\<lambda>b. b = 0) t" "512 \<le> length t" and assms: "src s t" "mm_kind memory = StandardMM" "length t < fuel"
  shows "\<exists>memory' s'. ReadNextMessage little p fuel read True memory s = Inr (True, None, memory', s')"
proof -
  have ne: "t \<noteq> []" using z(2) by auto
  obtain memory' s' where 1: "read_first_page read memory s = Inr (NO_ERROR, take 512 t, memory', s')"
      "src s' (drop 512 t)" "memory_at memory' (take 512 t)"
    by (rule read_first_page_ok [OF assms(3,4)]) (use ne in auto)
  have len: "length (take 512 t) = 512" using z(2) by simp
  have zt: "list_all (\<lambda>b. b = 0) (take 512 t)" "list_all (\<lambda>b. b = 0) (drop 512 t)"
    using z(1) by (metis append_take_drop_id list_all_append)+
  then have "take 512 t = replicate 512 0" using len by (auto simp: list_all_iff intro: replicate_eqI)
  then have "Message_UnMarshalBuf Message_UnMarshal (m_buffer memory') s_PageSize = Inr None"
    using UnMarshalBuf_zero 1(3) by (simp add: memory_at_def)
  moreover have "length (drop 512 t) < fuel" using assms(5) by simp
  then obtain s2 where "VerifyZeroStream fuel read s' = Inr (True, s2)"
    using VerifyZeroStream_ok [OF 1(2)] zt(2) by auto
  ultimately show ?thesis using 1(1) len zt(1) by (simp add: ReadNextMessage_def win_errors) (simp add: s_PageSize_def)
qed

text \<open>A record of which only the first page and some of the others are there.\<close>
lemma ReadNextMessage_torn:
  assumes h: "log_header h" "t = hdr_bytes h @ b" "512 \<le> length t" and L: "unat (m_unMarshalLen h) < 2 ^ 30"
    and c: "length t < (unat (m_unMarshalLen h) + 511) div 512 * 512 \<or>
      (unat (m_unMarshalLen h) + 511) div 512 * 512 \<le> length t \<and>
      m_checksum h \<noteq> rabin the_poly the_poly (drop 14 (take (unat (m_unMarshalLen h)) t)) \<and>
      list_all (\<lambda>b. b = 0) (drop ((unat (m_unMarshalLen h) + 511) div 512 * 512) t)"
    and s: "src s t" "mm_kind memory = StandardMM" "length t < fuel"
  shows "\<exists>memory' s'. ReadNextMessage little p fuel read True memory s = Inr (True, None, memory', s')"
proof -
  let ?L = "unat (m_unMarshalLen h)" let ?R = "(?L + 511) div 512 * 512"
  have L14: "14 \<le> ?L" using hdr_bytes_length [OF h(1)] by simp
  obtain memory1 s1 where 1: "ReadNextMessage little p fuel read True memory s =
       bindE (read_body read True (m_unMarshalLen h) memory1 s1) (\<lambda>(stop, memory, s).
         case stop of Some ret \<Rightarrow> Inr (ret, None, memory, s)
         | None \<Rightarrow> finish_record little p fuel read True h memory s)"
      "src s1 (drop 512 t)" "memory_at memory1 (take 512 t)"
    by (rule read_record_header [OF h(1,3,2) s(1,2)])
  show ?thesis
  proof (cases "length t < ?R")
    case True
    then have "512 + length (drop 512 t) < ?R" using h(3) by simp
    then obtain memory2 s2 where "read_body read True (m_unMarshalLen h) memory1 s1 = Inr (Some True, memory2, s2)"
      using read_body_torn [OF 1(3,2) _ L] by blast
    then show ?thesis using 1(1) by simp
  next
    case False
    have R: "512 \<le> ?R" "?L \<le> ?R" using L14 by auto
    let ?bs = "take (?R - 512) (drop 512 t)"
    have tk: "take 512 t @ ?bs = take ?R t" using R(1) take_add [of 512 "?R - 512" t] by simp
    have dr: "drop 512 t = ?bs @ drop ?R t" using R(1) append_take_drop_id [of "?R - 512" "drop 512 t"] by simp
    have src1: "src s1 (?bs @ drop ?R t)" using 1(2) by (subst (asm) dr)
    have ls: "length (take 512 t) = 512" using h(3) by simp
    have lR: "length (take 512 t @ ?bs) = ?R" unfolding tk using False by simp
    obtain memory2 s2 where 2: "read_body read True (m_unMarshalLen h) memory1 s1 = Inr (None, memory2, s2)" "src s2 (drop ?R t)"
        "memory_at memory2 (take 512 t @ ?bs)"
      by (rule read_body_ok [OF 1(3) ls src1 lR L])
    have ml: "?R \<le> unat (m_bufferLength memory2)" "map (m_buffer memory2) [0..<?R] = take ?R t"
      using 2(3) False unfolding tk memory_at_def by auto
    have "map (m_buffer memory2) [0..<?L] = take ?L (map (m_buffer memory2) [0..<?R])" using R(2) by (simp add: take_map)
    then have ld: "load 0 ?L memory2 = Inr (take ?L t)" using ml R(2) by (simp add: load_def min_absorb1)
    have "length (take ?L t) = ?L" using False R(2) by auto
    then have "Message_VerifyChecksum little p h (take ?L t) (m_unMarshalLen h) = Inr False"
      using c False L14 by (simp add: Message_VerifyChecksum_def CalculateChecksum_rabin s_ChecksummedOffset_def s_ChecksumOffset_def)
    moreover have "length (drop ?R t) < fuel" using s(3) by simp
    then obtain s3 where "VerifyZeroStream fuel read s2 = Inr (True, s3)"
      using VerifyZeroStream_ok [OF 2(2)] c False by auto
    ultimately show ?thesis using 1(1) 2(1) ld by (simp add: finish_record_def)
  qed
qed

lemma ReadNextMessage_end:
  assumes "torn_tail t" "src s t" "mm_kind memory = StandardMM" "length t < fuel"
  shows "\<exists>memory' s'. ReadNextMessage little p fuel read True memory s = Inr (True, None, memory', s')"
proof (cases "t = []")
  case True
  moreover obtain memory' s' where "read_first_page read memory s = Inr (if t = [] then ERROR_HANDLE_EOF else NO_ERROR, take 512 t, memory', s')"
    by (rule read_first_page_ok [OF assms(2,3)])
  ultimately show ?thesis by (simp add: ReadNextMessage_def)
next
  case False
  then show ?thesis
    using ReadNextMessage_zeros [OF _ _ assms(2-4)] ReadNextMessage_torn [OF _ _ _ _ _ assms(2-4)] assms(1)
    unfolding torn_tail_def by blast
qed

lemma read_log_ok:
  assumes "torn_tail t" "sum_list (map (length \<circ> rec_page_bytes) rps) + length t < fuel"
  shows "\<forall>(r, pad) \<in> set rps. rec_shape r \<and> rec_sealed r \<and> padded (r, pad) \<Longrightarrow> src s (concat (map rec_page_bytes rps) @ t) \<Longrightarrow>
    mm_kind memory = StandardMM \<Longrightarrow> length rps < n \<Longrightarrow>
    \<exists>ms. read_log bytesRead (ReadNextMessage little p fuel read True) n memory s = Inr (ms, True) \<and>
      list_all2 (\<lambda>(r, pad) (m, pos). rec_read r m) rps ms \<and>
      map snd ms = map (\<lambda>i. bytesRead s + of_nat (length (concat (map rec_page_bytes (take (Suc i) rps))))) [0..<length rps]"
  using assms(2)
proof (induction rps arbitrary: s memory n)
  case Nil
  then obtain k where k: "n = Suc k" by (cases n) auto
  show ?case using ReadNextMessage_end [OF assms(1), of s memory fuel little p] Nil by (auto simp: k)
next
  case (Cons rp rps)
  obtain r pad where rp: "rp = (r, pad)" by fastforce
  obtain k where k: "n = Suc k" using Cons.prems(4) by (cases n) auto
  have f: "length (rec_wire r) < fuel" using Cons.prems(5) by (simp add: rp rec_page_bytes_def)
  obtain m memory' s' where 1: "ReadNextMessage little p fuel read True memory s = Inr (True, Some m, memory', s')" "rec_read r m"
      "src s' (concat (map rec_page_bytes rps) @ t)" "mm_kind memory' = StandardMM"
      "bytesRead s' = bytesRead s + of_nat (length (rec_page_bytes rp))"
    using ReadNextMessage_record [of r pad s "concat (map rec_page_bytes rps) @ t" memory fuel little p True] Cons.prems(1-3) f rp by auto
  obtain ms where 2: "read_log bytesRead (ReadNextMessage little p fuel read True) k memory' s' = Inr (ms, True)"
      "list_all2 (\<lambda>(r, pad) (m, pos). rec_read r m) rps ms"
      "map snd ms = map (\<lambda>i. bytesRead s' + of_nat (length (concat (map rec_page_bytes (take (Suc i) rps))))) [0..<length rps]"
    using Cons.IH [of s' memory' k] Cons.prems(1,4,5) 1(3,4) k by auto
  have "map snd ((m, bytesRead s') # ms) =
      map (\<lambda>i. bytesRead s + of_nat (length (concat (map rec_page_bytes (take (Suc i) (rp # rps)))))) [0..<length (rp # rps)]"
    using 2(3) 1(5) by (simp add: upt_conv_Cons map_Suc_upt [symmetric] o_def del: upt_Suc map_Suc_upt)
  then show ?case using 1(1,2) 2(1,2) k rp by (intro exI [of _ "(m, bytesRead s') # ms"]) simp
qed

end

section \<open>Properties\<close>

lemma RoundUpToPage_wraps:
  assumes "2 ^ 32 - 511 \<le> unat x"
  shows "RoundUpToPage x = 0"
proof -
  have x: "unat x < 2 ^ 32" using unsigned_less [of x, where ?'a = nat] by simp
  then have "(unat x + 511) mod 2 ^ 32 = unat x + 511 - 2 ^ 32" using assms by (simp add: mod_if)
  then have u: "unat (x + 511) = unat x + 511 - 2 ^ 32" by (simp add: unat_word_ariths)
  have "(511 :: u32) = mask 9" by (simp add: mask_eq_exp_minus_1)
  then have "unat (RoundUpToPage x) = unat (x + 511) div 2 ^ 9 * 2 ^ 9"
    using mask_round [of 9 "x + 511"] by (simp add: RoundUpToPage_def s_PageSize_def)
  moreover have "unat (x + 511) < 2 ^ 9" using u x by simp
  ultimately show ?thesis by (simp add: unat_eq_0 [symmetric])
qed

lemma store_past_end: "off \<le> unat (m_bufferLength mm) \<Longrightarrow> unat (m_bufferLength mm) < off + length bs \<Longrightarrow> store (int off) bs mm = Inl OutOfBounds"
proof (induction bs arbitrary: off mm)
  case (Cons b bs)
  show ?case
  proof (cases "off < unat (m_bufferLength mm)")
    case True
    then have "int off < uint (m_bufferLength mm)" by (metis of_nat_less_iff of_nat_unat)
    then show ?thesis
      using Cons.IH [of "Suc off" "mm\<lparr>m_buffer := (m_buffer mm)(off := b)\<rparr>"] Cons.prems True by (simp add: add.commute del: fun_upd_apply)
  next
    case False
    then have "\<not> int off < uint (m_bufferLength mm)" by (metis of_nat_less_iff of_nat_unat)
    then show ?thesis by simp
  qed
qed simp

definition new_DiskStreamReader :: "APSEQREAD \<Rightarrow> DiskStreamReader" where
  "new_DiskStreamReader q = \<lparr>ds_seqRead = q, ds_read = 0\<rparr>"

lemma page_count: "512 dvd k \<Longrightarrow> n \<le> k \<Longrightarrow> k < n + 512 \<Longrightarrow> k = (n + 511) div 512 * 512" for n k :: nat
  by (elim dvdE) simp

text \<open>The readers RestoreState opens on a log file.\<close>
lemma log_reader_ok:
  assumes "read_good io" "length f < 2 ^ 63"
  obtains q where "sr_DoInit io NO_ERROR f 2 s_AvgMessageLen new_APSEQREAD = (NO_ERROR, q)" "ds_src io (new_DiskStreamReader q) f"
  using sr_DoInit_ok [OF assms(1), of 2 s_AvgMessageLen f] assms
  by (auto simp: s_AvgMessageLen_def c_maxReads_def ds_src_def new_DiskStreamReader_def)

lemma log_back:
  assumes "read_good io" "\<forall>(r, pad) \<in> set rps. rec_shape r \<and> rec_sealed r \<and> padded (r, pad)" "torn_tail t"
    "length (concat (map rec_page_bytes rps) @ t) < fuel" "fuel < 2 ^ 63" "length rps < n"
  shows "\<exists>q ms. sr_DoInit io NO_ERROR (concat (map rec_page_bytes rps) @ t) 2 s_AvgMessageLen new_APSEQREAD = (NO_ERROR, q) \<and>
    read_log ds_read (ReadNextMessage little p fuel (DiskStreamReader_Read junk io) True) n
      (StandardMarshalMemoryManager heap s_AvgMessageLen) (new_DiskStreamReader q) = Inr (ms, True) \<and>
    list_all2 (\<lambda>(r, pad) (m, pos). rec_read r m) rps ms \<and>
    map snd ms = map (\<lambda>i. of_nat (length (concat (map rec_page_bytes (take (Suc i) rps))))) [0..<length rps]"
proof -
  let ?f = "concat (map rec_page_bytes rps) @ t"
  obtain q where q: "sr_DoInit io NO_ERROR ?f 2 s_AvgMessageLen new_APSEQREAD = (NO_ERROR, q)" "ds_src io (new_DiskStreamReader q) ?f"
    using log_reader_ok [OF assms(1), of ?f] assms(4,5) by (metis order_less_trans)
  have "sum_list (map (length \<circ> rec_page_bytes) rps) + length t < fuel" using assms(4) by (simp add: length_concat o_def)
  then show ?thesis
    using dsr.read_log_ok [OF assms(3) _ assms(2) q(2), where n = n and little = little and p = p] q(1) assms(6)
    by (fastforce simp: StandardMarshalMemoryManager_def new_DiskStreamReader_def)
qed

text \<open>
  C13.  A log is read back as it was written: the loop of RestoreState gets a
  message for every record, in order and with the contents of the record, and
  after each the position behind its pages.  It ends without an error when behind
  the last record there is nothing, zeros, or a record of which only the first
  and some other pages have reached the disk.
\<close>
theorem log_read_back:
  assumes "read_good io" "\<forall>(r, pad) \<in> set rps. rec_shape r \<and> rec_sealed r \<and> padded (r, pad)" "torn_tail t"
    "length (concat (map rec_page_bytes rps) @ t) < fuel" "fuel < 2 ^ 63" "length rps < n"
  shows "\<exists>q ms. sr_DoInit io NO_ERROR (concat (map rec_page_bytes rps) @ t) 2 s_AvgMessageLen new_APSEQREAD = (NO_ERROR, q) \<and>
    read_log ds_read (ReadNextMessage little p fuel (DiskStreamReader_Read junk io) True) n
      (StandardMarshalMemoryManager heap s_AvgMessageLen) (new_DiskStreamReader q) = Inr (ms, True) \<and>
    list_all2 (\<lambda>(r, pad) (m, pos). rec_read r m) rps ms \<and>
    map snd ms = map (\<lambda>i. of_nat (length (concat (map rec_page_bytes (take (Suc i) rps))))) [0..<length rps]"
  using log_back [OF assms] .

text \<open>The record that the buffers of a vote hold once they have its checksum.\<close>
lemma vote_record:
  fixes v :: "MemberId Vote" and v' :: "MemberId Vote"
  assumes v: "m_msgId v = Message_Vote" "message_valid (v\<lparr>m_unMarshalLen := Vote_GetMarshalLen v\<rparr>)"
    and body: "drop (unat (Message_GetBaseSize (m_version v))) (vote_bytes v) =
        vote_body (replicate MemberId_Size g) (m_version v) cookie members relinq reqs"
      "body_valid (m_version v) cookie members relinq reqs"
    and v': "Message.truncate v' = (Message.truncate v)\<lparr>m_checksum := rabin the_poly the_poly (drop 14 (vote_wire v v'))\<rparr>"
      "length (vote_wire v v') = length (vote_bytes v)"
    and size: "length (vote_bytes v) < 2 ^ 30"
  defines "r \<equiv> LVote ((Message.truncate v')\<lparr>m_unMarshalLen := Vote_GetMarshalLen v\<rparr>) g cookie members relinq reqs"
  shows "rec_wire r = vote_wire v v'" "rec_shape r" "rec_sealed r"
proof -
  let ?h = "(Message.truncate v')\<lparr>m_unMarshalLen := Vote_GetMarshalLen v\<rparr>"
  show wire: "rec_wire r = vote_wire v v'"
    using v'(1) body(1) by (simp add: r_def rec_wire_def vote_wire_def enc_Message_def Message.defs)
  have h: "m_msgId ?h = Message_Vote" "m_version ?h = m_version v" "m_unMarshalLen ?h = Vote_GetMarshalLen v"
    "m_checksum ?h = rabin the_poly the_poly (drop 14 (vote_wire v v'))" "message_valid ?h"
    using v'(1) v by (simp_all add: message_valid_def Message.defs)
  show "rec_shape r" "rec_sealed r"
    using h size body(2) v'(2) unfolding rec_shape_def rec_sealed_def wire unfolding r_def
    by (simp_all add: Vote_GetMarshalLen_bytes unat_of_nat take_bit_nat_eq_self)
qed

text \<open>
  C11.  The log file and the restart agree: the vote that WriteMessage puts at the
  end of a log is the last message that the loop of RestoreState reads from it,
  with the header, cookie, replica set, flag and requests it was written with;
  the records before it are read as before.
\<close>
theorem logged_vote_read_back:
  assumes io: "read_good io" and old: "\<forall>(r, pad) \<in> set rps. rec_shape r \<and> rec_sealed r \<and> padded (r, pad)"
    and lf: "lf_disk lf = concat (map rec_page_bytes rps)" "unat (lf_dataLen lf) = length (lf_disk lf)"
    and v: "vote_ok v" "vote_header_ok v" "header_room v" "m_msgId v = Message_Vote"
      "message_valid (v\<lparr>m_unMarshalLen := Vote_GetMarshalLen v\<rparr>)"
    and body: "drop (unat (Message_GetBaseSize (m_version v))) (vote_bytes v) =
        vote_body (replicate MemberId_Size g) (m_version v) cookie members relinq reqs"
      "body_valid (m_version v) cookie members relinq reqs"
    and size: "length (vote_bytes v) < 2 ^ 30" "length (lf_disk lf) + length (vote_bytes v) + 512 < fuel" "fuel < 2 ^ 63" "Suc (length rps) < n"
  shows "\<exists>k lf' q ms w. LogFile_WriteVote little addr completes v lf = Inr (True, k, lf') \<and>
    sr_DoInit io NO_ERROR (lf_disk lf') 2 s_AvgMessageLen new_APSEQREAD = (NO_ERROR, q) \<and>
    read_log ds_read (ReadNextMessage little p fuel (DiskStreamReader_Read junk io) True) n
      (StandardMarshalMemoryManager heap s_AvgMessageLen) (new_DiskStreamReader q) =
        Inr (ms @ [(WVote w, of_nat (length (lf_disk lf')))], True) \<and>
    list_all2 (\<lambda>(r, pad) (m, pos). rec_read r m) rps ms \<and>
    Message.truncate w = (Message.truncate v)\<lparr>m_unMarshalLen := Vote_GetMarshalLen v, m_checksum := m_checksum w\<rparr> \<and>
    v_primaryCookie w = cookie \<and> v_membersInNewConfiguration w = members \<and> v_relinquishPrimary w = relinq \<and>
    map (req_bytes w) (v_requests w) = reqs"
proof -
  have sz: "length (vote_bytes v) + 512 < 2 ^ 32" "unat (lf_dataLen lf) + length (vote_bytes v) + 512 < 2 ^ 64"
    "unat (lf_dataLen lf) \<le> length (lf_disk lf)"
    using size lf(2) by auto
  obtain v' :: "MemberId Vote" and k pad where
      w: "LogFile_WriteVote little addr completes v lf =
        Inr (True, k, lf\<lparr>lf_disk := disk_write (unat (lf_dataLen lf)) (vote_wire v v' @ pad) (lf_disk lf)\<rparr>)"
      "Message.truncate v' = (Message.truncate v)\<lparr>m_checksum := rabin the_poly the_poly (drop 14 (vote_wire v v'))\<rparr>"
      "length (vote_wire v v') = length (vote_bytes v)" "length pad < 512" "512 dvd length (vote_wire v v' @ pad)"
    by (rule WriteVote_disk [OF v(1-3) sz, where little = little and p = addr])
  let ?h = "(Message.truncate v')\<lparr>m_unMarshalLen := Vote_GetMarshalLen v\<rparr>"
  let ?r = "LVote ?h g cookie members relinq reqs"
  note r = vote_record [OF v(4,5) body w(2,3) size(1)]
  note wire = r(1) and shape = r(2,3)
  have pd: "padded (?r, pad)" using w(4,5) unfolding wire [symmetric] by (simp add: padded_def page_count)
  let ?rps = "rps @ [(?r, pad)]"
  have f: "lf_disk (lf\<lparr>lf_disk := disk_write (unat (lf_dataLen lf)) (rec_wire ?r @ pad) (lf_disk lf)\<rparr>) = concat (map rec_page_bytes ?rps) @ []"
    by (simp add: lf disk_write_def rec_page_bytes_def)
  have "length (concat (map rec_page_bytes ?rps) @ []) < fuel" using size(2) w(3,4) lf(1) wire by (simp add: rec_page_bytes_def)
  from log_back [OF io _ _ this size(3), of n little p junk heap] obtain q ms where
    "sr_DoInit io NO_ERROR (concat (map rec_page_bytes ?rps) @ []) 2 s_AvgMessageLen new_APSEQREAD = (NO_ERROR, q)"
    "read_log ds_read (ReadNextMessage little p fuel (DiskStreamReader_Read junk io) True) n
      (StandardMarshalMemoryManager heap s_AvgMessageLen) (new_DiskStreamReader q) = Inr (ms, True)"
    "list_all2 (\<lambda>(r, pad) (m, pos). rec_read r m) ?rps ms"
    "map snd ms = map (\<lambda>i. of_nat (length (concat (map rec_page_bytes (take (Suc i) ?rps))))) [0..<length ?rps]"
    using old shape pd size(4) by (auto simp: torn_tail_def)
  note rd = this
  obtain ms1 m pos where ms: "ms = ms1 @ [(m, pos)]" "list_all2 (\<lambda>(r, pad) (m, pos). rec_read r m) rps ms1" "rec_read ?r m"
    using rd(3) by (auto simp: list_all2_append1 list_all2_Cons1)
  then obtain w where m: "m = WVote w" by (cases m) auto
  have "length ms1 = length rps" using ms(2) by (simp add: list_all2_lengthD)
  then have "pos = of_nat (length (concat (map rec_page_bytes ?rps)))" using rd(4) ms(1) by simp
  then show ?thesis
    using w(1) rd(1,2) f ms m w(2) unfolding wire [symmetric]
    by (intro exI [of _ k] exI [of _ "lf\<lparr>lf_disk := disk_write (unat (lf_dataLen lf)) (rec_wire ?r @ pad) (lf_disk lf)\<rparr>"]
        exI [of _ q] exI [of _ ms1] exI [of _ w]) (simp add: Message.defs)
qed

definition ex_decision :: "MemberId Message" where
  "ex_decision = (let m = (InitMessage 6 Message_ReconfigurationDecision MemberId_empty 5 1 (BallotNumber 1 MemberId_empty) 0)
     \<lparr>m_unMarshalLen := 172\<rparr> in m\<lparr>m_checksum := rabin the_poly the_poly (drop 14 (hdr_bytes m))\<rparr>)"

lemma ex_decision_ok:
  "rec_shape (LDecision ex_decision)" "rec_sealed (LDecision ex_decision)" "padded (LDecision ex_decision, replicate 340 0)"
  "length (rec_wire (LDecision ex_decision)) = 172"
proof -
  show len: "length (rec_wire (LDecision ex_decision)) = 172"
    using length_enc_Message [of ex_decision] member_ok_empty
    by (simp add: rec_wire_def ex_decision_def Let_def InitMessage_def ballot_ok_def Message_GetBaseSize_def
        MemberId_GetBaseSize_def BallotNumber_GetBaseSize_def MemberId_Size_def)
  show "rec_shape (LDecision ex_decision)"
    using len member_ok_empty
    by (simp add: rec_shape_def ex_decision_def Let_def InitMessage_def message_valid_def IsVersionValid_def member_valid_def
        Message_GetBaseSize_def MemberId_GetBaseSize_def BallotNumber_GetBaseSize_def MemberId_Size_def)
  show "rec_sealed (LDecision ex_decision)"
    by (simp add: rec_sealed_def rec_wire_def ex_decision_def Let_def hdr_bytes_def enc_Message_from_14)
  show "padded (LDecision ex_decision, replicate 340 0)" using len by (simp add: padded_def)
qed

theorem log_read_back_witness:
  "\<exists>q ms. sr_DoInit read_pending NO_ERROR (rec_page_bytes (LDecision ex_decision, replicate 340 0) @ replicate 512 0) 2 s_AvgMessageLen new_APSEQREAD = (NO_ERROR, q) \<and>
    read_log ds_read (ReadNextMessage True 0 1025 (DiskStreamReader_Read 7 read_pending) True) 2
      (StandardMarshalMemoryManager (\<lambda>_. 9) s_AvgMessageLen) (new_DiskStreamReader q) = Inr (ms, True) \<and>
    list_all2 (\<lambda>(r, pad) (m, pos). rec_read r m) [(LDecision ex_decision, replicate 340 (0 :: u8))] ms \<and>
    map snd ms = [512]"
proof -
  have "torn_tail (replicate 512 0)" by (simp add: torn_tail_def list_all_iff)
  moreover have "length (rec_page_bytes (LDecision ex_decision, replicate 340 0)) = 512" using ex_decision_ok(4) by (simp add: rec_page_bytes_def)
  ultimately show ?thesis
    using log_read_back [OF read_good_sample, of "[(LDecision ex_decision, replicate 340 0)]" "replicate 512 0" 1025 2 True 0 7 "\<lambda>_. 9"] ex_decision_ok
    by simp
qed

definition sample_vote :: "MemberId Vote res" where
  "sample_vote = Vote_Init (replicate MemberId_Size 0) None PrimaryCookie_empty (Vote_new (wire_hdr 0 0) False True)"

lemma sample_vote_ok:
  obtains v where "sample_vote = Inr v" "vote_ok v" "vote_header_ok v" "header_room v"
    "message_valid (v\<lparr>m_unMarshalLen := Vote_GetMarshalLen v\<rparr>)" "length (vote_bytes v) < 2 ^ 16"
    "drop (unat (Message_GetBaseSize 6)) (vote_bytes v) = vote_body (replicate MemberId_Size 0) 6 PrimaryCookie_empty None True []"
    "m_version v = 6" "m_msgId v = Message_Vote" "m_memberId v = MemberId_empty" "m_ballot v = BallotNumber 3 MemberId_empty"
proof -
  let ?v0 = "Vote_new (wire_hdr 0 0) False True" let ?g = "replicate MemberId_Size (0 :: u8)"
  have v0: "m_version ?v0 = 6" "\<not> v_isReconfiguration ?v0" "v_requests ?v0 = []" "v_relinquishPrimary ?v0"
    "Message.truncate ?v0 = (wire_hdr 0 0)\<lparr>m_msgId := Message_Vote\<rparr>"
    by (simp_all add: Vote_new_def wire_hdr_def InitMessage_def Message.defs Vote.defs)
  obtain v where v: "Vote_Init ?g None PrimaryCookie_empty ?v0 = Inr v" "vote_ok v"
      "vote_fields v = vote_fields (?v0\<lparr>v_primaryCookie := PrimaryCookie_empty\<rparr>)"
      "unat (Message_GetBaseSize 6) \<le> length (vote_bytes v)" "length (vote_bytes v) < 2 ^ 16"
      "drop (unat (Message_GetBaseSize 6)) (vote_bytes v) = vote_body ?g 6 PrimaryCookie_empty None True []"
    using Vote_Init_ok [of ?v0 PrimaryCookie_empty ?g] v0
    by (auto simp: IsVersionValid_def cookie_ok_def PrimaryCookie_empty_def)
  have tr: "Message.truncate v = (wire_hdr 0 0)\<lparr>m_msgId := Message_Vote\<rparr>" using v(3) v0(5) by (auto simp: vote_fields_def Message.defs)
  have h: "m_version v = 6" "m_msgId v = Message_Vote" "m_memberId v = MemberId_empty" "m_ballot v = BallotNumber 3 MemberId_empty"
    using arg_cong [OF tr, of m_version] arg_cong [OF tr, of m_msgId] arg_cong [OF tr, of m_memberId] arg_cong [OF tr, of m_ballot]
    by (simp_all add: Message.defs wire_hdr_def InitMessage_def)
  have vh: "vote_header_ok v" using h member_ok_empty by (simp add: vote_header_ok_def IsVersionValid_def member_valid_def)
  have vr: "header_room v" using vote_ok_header_room [OF v(2)] v(4) h(1) by simp
  have vm: "message_valid (v\<lparr>m_unMarshalLen := Vote_GetMarshalLen v\<rparr>)"
  proof -
    have "172 \<le> unat (Vote_GetMarshalLen v)"
      using v(4,5) by (simp add: Vote_GetMarshalLen_bytes unat_of_nat take_bit_nat_eq_self base_sizes)
    then have "message_valid (wire_hdr Message_Vote (Vote_GetMarshalLen v))" by (intro wire_hdr_valid) (simp add: word_less_nat_alt)
    moreover have "Message.truncate (v\<lparr>m_unMarshalLen := Vote_GetMarshalLen v\<rparr>) = wire_hdr Message_Vote (Vote_GetMarshalLen v)"
      using tr by (simp add: truncate_len wire_hdr_def InitMessage_def)
    ultimately show ?thesis by (metis message_valid_truncate)
  qed
  show thesis using that [OF _ v(2) vh vr vm v(5,6) h] v(1) by (simp add: sample_vote_def)
qed

theorem logged_vote_read_back_witness:
  "\<exists>v. sample_vote = Inr v \<and>
   (\<exists>k lf' q ms w. LogFile_WriteVote True (\<lambda>_. 0) completes v
      ((LogFile_new [])\<lparr>lf_disk := rec_page_bytes (LDecision ex_decision, replicate 340 0), lf_dataLen := 512\<rparr>) = Inr (True, k, lf') \<and>
    sr_DoInit read_pending NO_ERROR (lf_disk lf') 2 s_AvgMessageLen new_APSEQREAD = (NO_ERROR, q) \<and>
    read_log ds_read (ReadNextMessage True 0 100000 (DiskStreamReader_Read 7 read_pending) True) 3
      (StandardMarshalMemoryManager (\<lambda>_. 9) s_AvgMessageLen) (new_DiskStreamReader q) =
        Inr (ms @ [(WVote w, of_nat (length (lf_disk lf')))], True) \<and>
    list_all2 (\<lambda>(r, pad) (m, pos). rec_read r m) [(LDecision ex_decision, replicate 340 (0 :: u8))] ms \<and>
    Message.truncate w = (Message.truncate v)\<lparr>m_unMarshalLen := Vote_GetMarshalLen v, m_checksum := m_checksum w\<rparr> \<and>
    v_primaryCookie w = PrimaryCookie_empty \<and> v_membersInNewConfiguration w = None \<and> v_relinquishPrimary w = True \<and>
    map (req_bytes w) (v_requests w) = [])"
proof -
  obtain v where v: "sample_vote = Inr v" "vote_ok v" "vote_header_ok v" "header_room v"
    "message_valid (v\<lparr>m_unMarshalLen := Vote_GetMarshalLen v\<rparr>)" "length (vote_bytes v) < 2 ^ 16"
    "drop (unat (Message_GetBaseSize 6)) (vote_bytes v) = vote_body (replicate MemberId_Size 0) 6 PrimaryCookie_empty None True []"
    "m_version v = 6" "m_msgId v = Message_Vote" "m_memberId v = MemberId_empty" "m_ballot v = BallotNumber 3 MemberId_empty"
    by (rule sample_vote_ok)
  have "length (rec_page_bytes (LDecision ex_decision, replicate 340 0)) = 512" using ex_decision_ok(4) by (simp add: rec_page_bytes_def)
  then show ?thesis
    using logged_vote_read_back [OF read_good_sample, of "[(LDecision ex_decision, replicate 340 0)]"
        "(LogFile_new [])\<lparr>lf_disk := rec_page_bytes (LDecision ex_decision, replicate 340 0), lf_dataLen := 512\<rparr>" v 0
        PrimaryCookie_empty None True "[]" 100000 3 True "\<lambda>_. 0" 0 7 "\<lambda>_. 9"] ex_decision_ok v
    by (intro exI [of _ v]) (simp add: LogFile_new_def body_valid_def cookie_ok_def PrimaryCookie_empty_def)
qed

text \<open>
  C37.  The length in the header of a vote is trusted: RoundUpToPage of the 511 largest
  lengths is zero, the length of the body wraps to nearly 4 GB, the buffer is not
  enlarged, and the rest of the file is read into it.  When more than 10485248 bytes
  (and fewer than 2^31) follow the page of the header, they are written past its end.
\<close>
theorem corrupt_length_overflows:
  assumes "read_good io" "message_valid h" "m_msgId h = Message_Vote" "unat (m_unMarshalLen h) \<ge> 2 ^ 32 - 511"
    "length (hdr_bytes h @ b) = 512" "10485248 < length rest" "length rest < 2 ^ 31"
  shows "\<exists>q. sr_DoInit io NO_ERROR ((hdr_bytes h @ b) @ rest) 2 s_AvgMessageLen new_APSEQREAD = (NO_ERROR, q) \<and>
    ReadNextMessage little p fuel (DiskStreamReader_Read junk io) restore
      (StandardMarshalMemoryManager heap s_AvgMessageLen) (new_DiskStreamReader q) = Inl OutOfBounds"
proof -
  let ?m = "StandardMarshalMemoryManager heap s_AvgMessageLen" let ?rd = "DiskStreamReader_Read junk io"
  let ?f = "(hdr_bytes h @ b) @ rest"
  have lh: "log_header h" using assms(2,3) by (simp add: log_header_def)
  have bl: "unat s_AvgMessageLen = 10485760" by (simp add: s_AvgMessageLen_def)
  obtain q where q: "sr_DoInit io NO_ERROR ?f 2 s_AvgMessageLen new_APSEQREAD = (NO_ERROR, q)" "ds_src io (new_DiskStreamReader q) ?f"
    using log_reader_ok [OF assms(1), of ?f] assms(5,7) by auto
  obtain m1 s1 where 1: "ReadNextMessage little p fuel ?rd restore ?m (new_DiskStreamReader q) =
       bindE (read_body ?rd restore (m_unMarshalLen h) m1 s1) (\<lambda>(stop, memory, s).
         case stop of Some ret \<Rightarrow> Inr (ret, None, memory, s)
         | None \<Rightarrow> finish_record little p fuel ?rd restore h memory s)"
      "ds_src io s1 (drop 512 ?f)" "memory_at m1 (take 512 ?f)" "m_bufferLength m1 = s_AvgMessageLen"
    by (rule dsr.read_record_header [OF lh _ _ q(2), where b = "b @ rest" and memory = ?m and junk = junk and
        little = little and p = p and fuel = fuel and restore = restore])
      (use assms(5) in \<open>auto simp: StandardMarshalMemoryManager_def\<close>)
  then have s1: "ds_src io s1 rest" using assms(5) by simp
  have z: "RoundUpToPage (m_unMarshalLen h) = 0" using RoundUpToPage_wraps [OF assms(4)] .
  have n: "unat (0 - s_PageSize) = 4294966784" by (simp add: s_PageSize_def)
  obtain s2 where s2: "fill (disk_get junk io) (unat (0 - s_PageSize)) (0 - s_PageSize) s1 = Inr (ERROR_HANDLE_EOF, rest, s2)"
    using dsg.fill_ok [OF s1 order_refl, where n = "0 - s_PageSize" and junk = junk] n assms(7) by auto
  have "rest \<noteq> []" using assms(6) by auto
  then have rd: "?rd (0 - s_PageSize) s1 = Inr (NO_ERROR, rest, s2)" using s2 by (simp add: DiskStreamReader_Read_def)
  have ov: "store (int 512) rest m1 = Inl OutOfBounds"
    using store_past_end [of 512 m1 rest] 1(4) bl assms(6) by simp
  have rz: "MM_ResizeBuffer 0 m1 = Inr m1" using 1(3) by (simp add: MM_ResizeBuffer_def Standard_ResizeBuffer_def memory_at_def)
  have "read_body ?rd restore (m_unMarshalLen h) m1 s1 = Inl OutOfBounds"
    using rd ov rz n unfolding read_body_def z Let_def by (simp add: word_less_nat_alt) (simp add: s_PageSize_def)
  then show ?thesis using q(1) 1(1) by simp
qed

theorem corrupt_length_overflows_witness:
  "\<exists>q. sr_DoInit read_pending NO_ERROR ((hdr_bytes (wire_hdr Message_Vote 0xFFFFFFFF) @ replicate 340 0) @ replicate 10485760 0) 2 s_AvgMessageLen
      new_APSEQREAD = (NO_ERROR, q) \<and>
    ReadNextMessage True 0 1 (DiskStreamReader_Read 7 read_pending) True
      (StandardMarshalMemoryManager (\<lambda>_. 9) s_AvgMessageLen) (new_DiskStreamReader q) = Inl OutOfBounds"
proof (rule corrupt_length_overflows [OF read_good_sample])
  let ?h = "wire_hdr Message_Vote 0xFFFFFFFF"
  show "message_valid ?h" by (rule wire_hdr_valid) simp
  show "m_msgId ?h = Message_Vote" by (simp add: wire_hdr_def InitMessage_def)
  show "2 ^ 32 - 511 \<le> unat (m_unMarshalLen ?h)" by (simp add: wire_hdr_def)
  show "length (hdr_bytes ?h @ replicate 340 0) = 512"
    using length_enc_Message [of ?h] member_ok_empty
    by (simp add: hdr_bytes_def wire_hdr_def InitMessage_def ballot_ok_def base_sizes)
qed simp_all

end
