(* ===== verification/Checkpoint_Codec.thy ===== *)
theory Checkpoint_Codec
  imports Checkpoint_Stream Log_Read
begin

text \<open>
  The header of a checkpoint file (checkpoint.h, legislator.cpp): CheckpointHeader
  and the ConfigurationInfo and vote it holds, marshalled to whole pages in front
  of the blocks of the state machine, and read again from a stream or a file.
\<close>

section \<open>The format\<close>

definition ConfigurationInfo_Marshal :: "u8 list \<Rightarrow> u16 \<Rightarrow> ConfigurationInfo \<Rightarrow> marshal_data \<Rightarrow> marshal_data res" where
  "ConfigurationInfo_Marshal garb version ci md =
     bindE (WriteUInt32 (ci_configurationNumber ci) md) (\<lambda>md.
     bindE (WriteUInt64 (ci_initialDecree ci) md) (MemberSet_Marshal garb version (ci_memberSet ci)))"

definition ConfigurationInfo_UnMarshal :: "u16 \<Rightarrow> ConfigurationInfo reader" where
  "ConfigurationInfo_UnMarshal version =
     bindR ReadUInt32 (\<lambda>configurationNumber.
     bindR ReadUInt64 (\<lambda>initialDecree.
     bindR (MemberSet_UnMarshal version) (\<lambda>memberSet.
       returnR \<lparr>ci_configurationNumber = configurationNumber, ci_initialDecree = initialDecree, ci_memberSet = memberSet\<rparr>)))"

definition ConfigurationInfo_GetMarshalLen :: "u16 \<Rightarrow> ConfigurationInfo \<Rightarrow> u32" where
  "ConfigurationInfo_GetMarshalLen version ci = 4 + 8 + MemberSet_GetMarshalLen version (ci_memberSet ci)"

text \<open>The pointers m_stateConfiguration and m_nextVote may be null.\<close>
record CheckpointHeader =
  ch_version :: u16
  ch_unMarshalLen :: u32
  ch_checksum :: u64
  ch_memberId :: MemberId
  ch_lastExecutedDecree :: u64
  ch_maxBallot :: "MemberId BallotNumber"
  ch_stateConfiguration :: "ConfigurationInfo option"
  ch_nextVote :: "MemberId Vote option"
  ch_stateSaved :: bool
  ch_size :: u64
  ch_checksumBlockSize :: u32

definition new_CheckpointHeader :: CheckpointHeader where
  "new_CheckpointHeader = \<lparr>ch_version = 1, ch_unMarshalLen = 0, ch_checksum = 0, ch_memberId = MemberId_empty,
     ch_lastExecutedDecree = 0, ch_maxBallot = BallotNumber 0 MemberId_empty, ch_stateConfiguration = None, ch_nextVote = None,
     ch_stateSaved = True, ch_size = 0, ch_checksumBlockSize = 0\<rparr>"

definition deref :: "'a option \<Rightarrow> 'a res" where
  "deref p = (case p of None \<Rightarrow> Inl OutOfBounds | Some x \<Rightarrow> Inr x)"

definition CheckpointHeader_GetMarshalLen :: "CheckpointHeader \<Rightarrow> u32 res" where
  "CheckpointHeader_GetMarshalLen h =
     bindE (deref (ch_nextVote h)) (\<lambda>vote.
     let len = RoundUpToPage (Vote_GetMarshalLen vote) in
     bindE (if ch_version h \<ge> 3
            then bindE (deref (ch_stateConfiguration h)) (\<lambda>ci.
                   Inr (len + (2 + 4 + 8 + MemberId_GetBaseSize (ch_version h) + 8 + BallotNumber_GetBaseSize (ch_version h) +
                               ConfigurationInfo_GetMarshalLen (ch_version h) ci)))
            else Inr len) (\<lambda>len.
       Inr (RoundUpToPage (if ch_version h \<ge> 4 then len + (1 + 8 + 4) else len))))"

text \<open>The buffers GetBuffers gives, each with its length rounded up to a page.\<close>
fun write_buffers :: "(memory_manager \<times> u32) list \<Rightarrow> marshal_data \<Rightarrow> marshal_data res" where
  "write_buffers [] md = Inr md"
| "write_buffers ((mm, len) # bufs) md =
     bindE (WriteData len (map (m_buffer mm) [0..<unat len]) md) (write_buffers bufs)"

text \<open>The fields in front of the vote.\<close>
definition marshal_fields :: "u8 list \<Rightarrow> CheckpointHeader \<Rightarrow> u32 \<Rightarrow> marshal_data \<Rightarrow> marshal_data res" where
  "marshal_fields garb h marshalLen md =
     bindE (if ch_version h \<ge> 3
            then bindE (WriteUInt16 (ch_version h) md) (\<lambda>md.
                 bindE (WriteUInt32 marshalLen md) (\<lambda>md.
                 bindE (WriteUInt64 (ch_checksum h) md) (\<lambda>md.
                 bindE (MemberId_Marshal (ch_version h) (ch_memberId h) md) (\<lambda>md.
                 bindE (WriteUInt64 (ch_lastExecutedDecree h) md) (\<lambda>md.
                 bindE (BallotNumber_Marshal (ch_version h) (ch_maxBallot h) md) (\<lambda>md.
                 bindE (deref (ch_stateConfiguration h)) (\<lambda>ci. ConfigurationInfo_Marshal garb (ch_version h) ci md)))))))
            else Inr md) (\<lambda>md.
     if ch_version h \<ge> 4
     then bindE (WriteBool (ch_stateSaved h) md) (\<lambda>md.
          bindE (WriteUInt64 (ch_size h) md) (WriteUInt32 (ch_checksumBlockSize h)))
     else Inr md)"

definition CheckpointHeader_Marshal :: "u8 list \<Rightarrow> CheckpointHeader \<Rightarrow> marshal_data \<Rightarrow> (CheckpointHeader \<times> marshal_data) res" where
  "CheckpointHeader_Marshal garb h md =
     bindE (CheckpointHeader_GetMarshalLen h) (\<lambda>marshalLen.
     bindE (MD_EnsureBuffer marshalLen md) (\<lambda>md.
     bindE (marshal_fields garb h marshalLen md) (\<lambda>md.
     bindE (deref (ch_nextVote h)) (\<lambda>vote.
     bindE (Vote_GetBuffers (length (v_marshal vote)) vote) (\<lambda>(buffers, vote).
     bindE (write_buffers buffers md) (\<lambda>md.
     bindE (SetMarshaledLength marshalLen md) (\<lambda>md.
       Inr (h\<lparr>ch_nextVote := Some vote\<rparr>, md))))))))"

definition MAX_SINGLE_IO_SIZE :: u32 where "MAX_SINGLE_IO_SIZE = 32 * 1024 * 1024"

text \<open>
  The loop of WriteFile over the marshalled bytes.  writeFile says for the bytes
  offered at an offset how many were written, or None for an error.
\<close>
fun write_file :: "(nat \<Rightarrow> u32 \<Rightarrow> u32 option) \<Rightarrow> nat \<Rightarrow> nat \<Rightarrow> u8 list \<Rightarrow> u8 list \<Rightarrow> u8 list res" where
  "write_file writeFile k off buf file =
     (if buf = [] then Inr file
      else case k of
             0 \<Rightarrow> Inl OutOfFuel
           | Suc k \<Rightarrow>
               let toWrite = min (of_nat (length buf)) MAX_SINGLE_IO_SIZE in
               (case writeFile off toWrite of
                  None \<Rightarrow> Inl AssertFailed
                | Some written \<Rightarrow>
                    write_file writeFile k (off + unat written) (drop (unat written) buf) (write_at off (take (unat written) buf) file)))"

declare write_file.simps [simp del]

text \<open>create is the result of CreateFile, heap what the buffer of the MarshalData holds at first.\<close>
definition CheckpointHeader_MarshalFile ::
  "u8 list \<Rightarrow> (nat \<Rightarrow> u8) \<Rightarrow> bool \<Rightarrow> (nat \<Rightarrow> u32 \<Rightarrow> u32 option) \<Rightarrow> CheckpointHeader \<Rightarrow> u8 list \<Rightarrow> u8 list res" where
  "CheckpointHeader_MarshalFile garb heap create writeFile h file =
     bindE (CheckpointHeader_Marshal garb h (MarshalData heap s_DefaultBufferSize)) (\<lambda>(h, md).
     bindE (log_assert create ()) (\<lambda>_.
       write_file writeFile (unat (GetMarshaledLength md)) 0 (md_contents md) file))"

definition header_fields :: "u16 \<Rightarrow> CheckpointHeader \<Rightarrow> CheckpointHeader reader" where
  "header_fields version h =
     bindR ReadUInt32 (\<lambda>unMarshalLen.
     bindR ReadUInt64 (\<lambda>checksum.
     bindR (MemberId_UnMarshal version (ch_memberId h)) (\<lambda>memberId.
     bindR ReadUInt64 (\<lambda>lastExecutedDecree.
     bindR (BallotNumber_UnMarshal version) (\<lambda>maxBallot.
     bindR (ConfigurationInfo_UnMarshal version) (\<lambda>ci.
     let h = h\<lparr>ch_version := version, ch_unMarshalLen := unMarshalLen, ch_checksum := checksum, ch_memberId := memberId,
               ch_lastExecutedDecree := lastExecutedDecree, ch_maxBallot := maxBallot, ch_stateConfiguration := Some ci\<rparr> in
     if version \<ge> 4
     then bindR ReadBool (\<lambda>stateSaved.
          bindR ReadUInt64 (\<lambda>len.
          bindR ReadUInt32 (\<lambda>checksumBlockSize.
            returnR (h\<lparr>ch_stateSaved := stateSaved, ch_size := len, ch_checksumBlockSize := checksumBlockSize\<rparr>))))
     else returnR h))))))"

text \<open>The vote behind the fields, and what is checked and taken from it.\<close>
definition header_vote :: "bool \<Rightarrow> nat \<Rightarrow> nat \<Rightarrow> CheckpointHeader \<Rightarrow> CheckpointHeader reader" where
  "header_vote little p fuel h md =
     (let startOffset = GetReadPointer md in
      bindR (Vote_UnMarshal fuel) (\<lambda>vote md.
      bindE (log_assert (startOffset + m_unMarshalLen vote \<le> GetMarshaledLength md) ()) (\<lambda>_.
      bindE (load (unat startOffset) (unat (m_unMarshalLen vote)) (m_memoryManager md)) (\<lambda>buf.
      bindE (Message_VerifyChecksum little p vote buf (m_unMarshalLen vote)) (\<lambda>verified.
      if \<not> verified then Inr (None, md)
      else if ch_version h \<ge> 3
      then if BallotNumber_less (ch_maxBallot h) (m_ballot vote) then Inr (None, md)
           else Inr (Some (h\<lparr>ch_nextVote := Some vote\<rparr>), md)
      else Inr (Some (h\<lparr>ch_nextVote := Some vote, ch_memberId := m_memberId vote, ch_maxBallot := m_ballot vote,
                        ch_lastExecutedDecree := m_decree vote - 1\<rparr>), md))))) md)"

definition CheckpointHeader_UnMarshal :: "bool \<Rightarrow> nat \<Rightarrow> nat \<Rightarrow> CheckpointHeader \<Rightarrow> CheckpointHeader reader" where
  "CheckpointHeader_UnMarshal little p fuel h =
     bindR ReadUInt16 (\<lambda>version.
     guardR (IsVersionValid version) (
     bindR (if version \<ge> 3 then header_fields version h
            else (\<lambda>md. bindE (RewindReadPointer 2 md) (\<lambda>(_, md).
                   Inr (Some (h\<lparr>ch_version := version, ch_stateConfiguration := None, ch_stateSaved := True\<rparr>), md))))
       (header_vote little p fuel)))"

text \<open>
  UnMarshal of a stream: the first page has the version and the length of the
  rest, in the old format too, where they are those of the vote.  The reads of the
  page cannot fail.
\<close>
definition CheckpointHeader_UnMarshalStream ::
  "bool \<Rightarrow> nat \<Rightarrow> nat \<Rightarrow> (nat \<Rightarrow> u8) \<Rightarrow> (u32 \<Rightarrow> 's \<Rightarrow> (u32 \<times> u8 list \<times> 's) res) \<Rightarrow> CheckpointHeader \<Rightarrow> 's \<Rightarrow>
   (CheckpointHeader option \<times> 's) res" where
  "CheckpointHeader_UnMarshalStream little p fuel heap read h s =
     bindE (read s_PageSize s) (\<lambda>(ec, bs, s).
     bindE (store 0 bs (StandardMarshalMemoryManager heap s_PageSize)) (\<lambda>memory.
     if ec \<noteq> NO_ERROR \<or> of_nat (length bs) \<noteq> s_PageSize then Inr (None, s)
     else bindE (Message_UnMarshalBuf (bindR ReadUInt16 (\<lambda>version. bindR ReadUInt32 (\<lambda>len. returnR (version, len))))
                   (m_buffer memory) s_PageSize) (\<lambda>hdr.
     case hdr of
       None \<Rightarrow> Inr (None, s)
     | Some (version, marshalLen) \<Rightarrow>
         if \<not> IsVersionValid version then Inr (None, s)
         else let writeSize = RoundUpToPage marshalLen in
         bindE (MM_ResizeBuffer writeSize memory) (\<lambda>memory.
         bindE (read (writeSize - s_PageSize) s) (\<lambda>(ec, bs, s).
         bindE (store (int (unat s_PageSize)) bs memory) (\<lambda>memory.
         if ec \<noteq> NO_ERROR \<or> of_nat (length bs) \<noteq> writeSize - s_PageSize then Inr (None, s)
         else bindE (SetMarshaledLength marshalLen (mk_md memory)) (\<lambda>md.
              bindE (CheckpointHeader_UnMarshal little p fuel h md) (\<lambda>(h, _). Inr (h, s)))))))))"

text \<open>UnMarshal of a file; sys is the code with which it is opened.\<close>
definition CheckpointHeader_UnMarshalFile ::
  "bool \<Rightarrow> nat \<Rightarrow> nat \<Rightarrow> (nat \<Rightarrow> u8) \<Rightarrow> u32 \<Rightarrow> read_io \<Rightarrow> u32 \<Rightarrow> u8 list \<Rightarrow> CheckpointHeader \<Rightarrow> CheckpointHeader option res" where
  "CheckpointHeader_UnMarshalFile little p fuel heap junk io sys file h =
     (let (ec, q) = sr_DoInit io sys file 2 s_AvgMessageLen new_APSEQREAD in
      if ec \<noteq> NO_ERROR then Inr None
      else bindE (CheckpointHeader_UnMarshalStream little p fuel heap (DiskStreamReader_Read junk io) h (new_DiskStreamReader q)) (\<lambda>(h, s).
        Inr (map_option (\<lambda>h. if ch_version h < 4 then h\<lparr>ch_size := sr_FileSize (ds_seqRead s)\<rparr> else h) h)))"

text \<open>m_size is the number of bytes the writer has issued.\<close>
definition SetBytesIssued :: "write_io \<Rightarrow> cp_writer \<Rightarrow> CheckpointHeader \<Rightarrow> CheckpointHeader \<times> cp_writer" where
  "SetBytesIssued io writer h = (h\<lparr>ch_size := fst (cw_BytesIssued io writer)\<rparr>, snd (cw_BytesIssued io writer))"

text \<open>VerifyCheckpoint, with which SaveCheckpoint checks the file it has written.\<close>
definition VerifyCheckpoint :: "bool \<Rightarrow> nat \<Rightarrow> nat \<Rightarrow> (nat \<Rightarrow> u8) \<Rightarrow> u32 \<Rightarrow> read_io \<Rightarrow> u32 \<Rightarrow> nat \<Rightarrow> u8 list \<Rightarrow> bool res" where
  "VerifyCheckpoint little p fuel heap junk io sys nameLen file =
     bindE (CheckpointHeader_UnMarshalFile little p fuel heap junk io sys file new_CheckpointHeader) (\<lambda>header.
     case header of
       None \<Rightarrow> Inr False
     | Some h \<Rightarrow>
         bindE (CheckpointHeader_GetMarshalLen h) (\<lambda>marshalLen.
         bindE (cr_Init heap io sys file nameLen marshalLen (ch_checksumBlockSize h) (ch_size h) new_cp_reader) (\<lambda>(ec, _).
           Inr (ec = NO_ERROR))))"

definition enc_ConfigurationInfo :: "u8 list \<Rightarrow> u16 \<Rightarrow> ConfigurationInfo \<Rightarrow> u8 list" where
  "enc_ConfigurationInfo garb version ci =
     le_bytes 4 (ci_configurationNumber ci) @ le_bytes 8 (ci_initialDecree ci) @ enc_MemberSet garb version (ci_memberSet ci)"

interpretation configc: codec "ConfigurationInfo_Marshal (replicate MemberId_Size g) version" "ConfigurationInfo_UnMarshal version"
  "enc_ConfigurationInfo (replicate MemberId_Size g) version" "\<lambda>ci. memberset_valid version (ci_memberSet ci)" for g version
proof (unfold_locales, goal_cases)
  case (1 ci)
  then show ?case
    unfolding ConfigurationInfo_Marshal_def enc_ConfigurationInfo_def
    by (intro writes_seq writes_UInt32 writes_UInt64 membersetc.write_enc)
next
  case (2 ci)
  show ?case
    unfolding ConfigurationInfo_UnMarshal_def enc_ConfigurationInfo_def
    by (rule reads_bind [OF reads_UInt32], rule reads_bind [OF reads_UInt64],
        rule reads_bind_return [OF membersetc.read_enc [OF 2]]) simp
qed

section \<open>Writing\<close>

definition fields_bytes :: "u8 list \<Rightarrow> u32 \<Rightarrow> CheckpointHeader \<Rightarrow> ConfigurationInfo \<Rightarrow> u8 list" where
  "fields_bytes garb len h ci =
     le_bytes 4 len @ le_bytes 8 (ch_checksum h) @ enc_MemberId (ch_version h) (ch_memberId h) @
     le_bytes 8 (ch_lastExecutedDecree h) @ enc_BallotNumber (ch_version h) (ch_maxBallot h) @
     enc_ConfigurationInfo garb (ch_version h) ci @
     (if ch_version h \<ge> 4
      then [if ch_stateSaved h then 1 else 0] @ le_bytes 8 (ch_size h) @ le_bytes 4 (ch_checksumBlockSize h) else [])"

definition header_bytes :: "u8 list \<Rightarrow> u32 \<Rightarrow> CheckpointHeader \<Rightarrow> ConfigurationInfo \<Rightarrow> u8 list" where
  "header_bytes garb len h ci = le_bytes 2 (ch_version h) @ fields_bytes garb len h ci"

definition header_valid :: "CheckpointHeader \<Rightarrow> ConfigurationInfo \<Rightarrow> bool" where
  "header_valid h ci \<longleftrightarrow> IsVersionValid (ch_version h) \<and> 3 \<le> ch_version h \<and> member_valid (ch_version h) (ch_memberId h) \<and>
     member_valid (ch_version h) (m_ballotMember (ch_maxBallot h)) \<and> memberset_valid (ch_version h) (ci_memberSet ci) \<and>
     ch_stateConfiguration h = Some ci"

text \<open>A vote whose buffers hold the record r, sealed by its checksum.\<close>
definition stored_vote :: "log_rec \<Rightarrow> MemberId Vote \<Rightarrow> bool" where
  "stored_vote r v \<longleftrightarrow> vote_ok v \<and> vote_header_ok v \<and> header_room v \<and> rec_shape r \<and> rec_sealed r \<and>
     m_msgId (rec_hdr r) = Message_Vote \<and> rec_wire r = vote_wire v v \<and> length (vote_bytes v) = length (rec_wire r)"

lemma writes_header:
  assumes "header_valid h ci"
  shows "writes (marshal_fields (replicate MemberId_Size g) h len) (header_bytes (replicate MemberId_Size g) len h ci)"
proof -
  have v: "3 \<le> ch_version h" "ch_stateConfiguration h = Some ci" "member_valid (ch_version h) (ch_memberId h)"
    "member_valid (ch_version h) (m_ballotMember (ch_maxBallot h))" "memberset_valid (ch_version h) (ci_memberSet ci)"
    using assms by (auto simp: header_valid_def)
  have eq: "header_bytes (replicate MemberId_Size g) len h ci =
      (le_bytes 2 (ch_version h) @ le_bytes 4 len @ le_bytes 8 (ch_checksum h) @ enc_MemberId (ch_version h) (ch_memberId h) @
       le_bytes 8 (ch_lastExecutedDecree h) @ enc_BallotNumber (ch_version h) (ch_maxBallot h) @
       enc_ConfigurationInfo (replicate MemberId_Size g) (ch_version h) ci) @
      (if ch_version h \<ge> 4
       then [if ch_stateSaved h then 1 else 0] @ le_bytes 8 (ch_size h) @ le_bytes 4 (ch_checksumBlockSize h) else [])"
    by (simp add: header_bytes_def fields_bytes_def)
  show ?thesis
    unfolding marshal_fields_def eq v(2) deref_def option.case bindE_simps if_P [OF v(1)]
    by (intro writes_seq writes_if writes_Nil writes_UInt16 writes_UInt32 writes_UInt64 writes_MemberId writes_BallotNumber
        writes_Bool configc.write_enc v)
qed

lemma writes_buffers:
  "writes (write_buffers (map (\<lambda>mm. (mm, RoundUpToPage (m_validLength mm))) mms)) (concat (vote_pages mms))"
proof (induction mms)
  case Nil
  have "write_buffers [] = Inr" by (simp add: fun_eq_iff)
  then show ?case using writes_Nil by (simp add: vote_pages_def)
next
  case (Cons mm mms)
  let ?n = "RoundUpToPage (m_validLength mm)" let ?bs = "map (m_buffer mm) [0..<unat (RoundUpToPage (m_validLength mm))]"
  have "write_buffers (map (\<lambda>mm. (mm, RoundUpToPage (m_validLength mm))) (mm # mms)) =
      (\<lambda>md. bindE (WriteData ?n ?bs md) (write_buffers (map (\<lambda>mm. (mm, RoundUpToPage (m_validLength mm))) mms)))"
    by (simp add: fun_eq_iff)
  then show ?case using writes_seq [OF writes_Data [of ?n ?bs] Cons] by (simp add: vote_pages_def)
qed

lemma stored_vote_buffers:
  assumes "stored_vote r v"
  obtains v2 bufs pad where "Vote_GetBuffers (length (v_marshal v)) v = Inr (bufs, v2)" "writes (write_buffers bufs) (rec_wire r @ pad)"
    "length pad < 512" "512 dvd length (rec_wire r @ pad)"
proof -
  have v: "vote_ok v" "vote_header_ok v" "header_room v" "rec_wire r = vote_wire v v" using assms by (auto simp: stored_vote_def)
  obtain v2 where v2: "Vote_ReMarshalHeader v = Inr v2" using Vote_ReMarshalHeader_ok [OF v(1-3)] by auto
  note ok2 = ReMarshalHeader_keeps [OF v2 v(1-3)]
  have b2: "vote_bytes v2 = rec_wire r" using ReMarshalHeader_bytes [OF v(1-3) v2] v(4) by (simp add: vote_wire_def)
  have "length (v_marshal v) = length (v_marshal v2)" using ok2(4) by (metis length_map)
  then have gb: "Vote_GetBuffers (length (v_marshal v)) v =
      Inr (map (\<lambda>mm. (mm, RoundUpToPage (m_validLength mm))) (v_marshal v2), v2)"
    by (simp add: Vote_GetBuffers_def v2)
  have "v_marshal v2 \<noteq> []" "\<forall>mm \<in> set (v_marshal v2). buf_ok mm"
      "\<forall>mm \<in> set (butlast (v_marshal v2)). 4096 dvd unat (m_validLength mm)"
    using ok2(1) by (auto simp: vote_ok_def)
  from vote_pages_aligned [OF this] obtain pad where pg: "page_buffers (vote_pages (v_marshal v2))" "length pad < 512"
      "concat (vote_pages (v_marshal v2)) = rec_wire r @ pad" using b2 by (auto simp: vote_bytes_def)
  have "writes (write_buffers (map (\<lambda>mm. (mm, RoundUpToPage (m_validLength mm))) (v_marshal v2))) (rec_wire r @ pad)"
    using writes_buffers [of "v_marshal v2"] pg(3) by simp
  moreover have "512 dvd length (rec_wire r @ pad)" using page_buffers_dvd [OF pg(1)] pg(3) by simp
  ultimately show ?thesis using that [OF gb] pg(2) by blast
qed

lemma ge_page: "0 < n \<Longrightarrow> 512 \<le> (n + 511) div 512 * 512" for n :: nat
  by simp

text \<open>GetMarshalLen is the length of the fields and of the pages of the vote, in whole pages.\<close>
lemma header_bytes_length:
  assumes "header_valid h ci" "ch_nextVote h = Some v" "length (header_bytes (replicate MemberId_Size g) l h ci) < 2 ^ 30"
    "length (vote_bytes v) < 2 ^ 30"
  shows "\<exists>L. CheckpointHeader_GetMarshalLen h = Inr L \<and>
    unat L = ((length (vote_bytes v) + 511) div 512 * 512 + length (header_bytes (replicate MemberId_Size g) l h ci) + 511) div 512 * 512"
proof -
  let ?g = "replicate MemberId_Size g" let ?ver = "ch_version h"
  have ok: "3 \<le> ?ver" "ch_stateConfiguration h = Some ci" "member_ok (ch_memberId h)" "ballot_ok (ch_maxBallot h)"
      "memberset_valid ?ver (ci_memberSet ci)"
    using assms(1) by (auto simp: header_valid_def member_valid_def ballot_ok_def)
  let ?ms = "enc_MemberSet ?g ?ver (ci_memberSet ci)"
  have hl: "length (header_bytes ?g l h ci) = 14 + unat (MemberId_GetBaseSize ?ver) + 8 + unat (BallotNumber_GetBaseSize ?ver) + 12 + length ?ms +
      (if 4 \<le> ?ver then 13 else 0)"
    using ok(3,4) by (simp add: header_bytes_def fields_bytes_def enc_ConfigurationInfo_def length_enc_MemberId length_enc_BallotNumber)
  have "unat (MemberSet_GetMarshalLen ?ver (ci_memberSet ci)) = length ?ms"
    using MemberSet_GetMarshalLen_exact [OF ok(5), of ?g] hl assms(3) by simp
  then have ml: "MemberSet_GetMarshalLen ?ver (ci_memberSet ci) = of_nat (length ?ms)" by (metis of_nat_unat ucast_id)
  have vl: "unat (Vote_GetMarshalLen v) = length (vote_bytes v)"
    using assms(4) by (simp add: Vote_GetMarshalLen_bytes unat_of_nat take_bit_nat_eq_self)
  let ?V = "(length (vote_bytes v) + 511) div 512 * 512" let ?H = "length (header_bytes ?g l h ci)"
  have V: "unat (RoundUpToPage (Vote_GetMarshalLen v)) = ?V" using RoundUpToPage_nat [of "Vote_GetMarshalLen v"] vl assms(4) by simp
  then have V': "RoundUpToPage (Vote_GetMarshalLen v) = of_nat ?V" by (metis of_nat_unat ucast_id)
  have "(if ?ver \<ge> 4 then RoundUpToPage (Vote_GetMarshalLen v) + (2 + 4 + 8 + MemberId_GetBaseSize ?ver + 8 + BallotNumber_GetBaseSize ?ver +
      ConfigurationInfo_GetMarshalLen ?ver ci) + (1 + 8 + 4) else RoundUpToPage (Vote_GetMarshalLen v) + (2 + 4 + 8 + MemberId_GetBaseSize ?ver + 8 +
      BallotNumber_GetBaseSize ?ver + ConfigurationInfo_GetMarshalLen ?ver ci)) = of_nat (?V + ?H)"
    unfolding V' ConfigurationInfo_GetMarshalLen_def ml hl by simp
  moreover have "unat (of_nat (?V + ?H) :: u32) = ?V + ?H" "?V + ?H + 511 < 2 ^ 32"
    using assms(3,4) by (simp_all only: unat_of_nat) (simp_all add: take_bit_nat_eq_self)
  ultimately show ?thesis
    using ok(1,2) assms(2) RoundUpToPage_nat [of "of_nat (?V + ?H)"]
    by (simp add: CheckpointHeader_GetMarshalLen_def deref_def Let_def split: if_splits)
qed

lemma SetMarshaledLength_extends:
  assumes "md_ok md" "mm_kind (m_memoryManager md) = StandardMM" "unat (GetMarshaledLength md) \<le> unat L"
  obtains md' junk where "SetMarshaledLength L md = Inr md'" "md_contents md' = md_contents md @ junk" "GetMarshaledLength md' = L"
proof -
  let ?mm = "m_memoryManager md"
  obtain M where M: "MM_ResizeBuffer L ?mm = Inr (?mm\<lparr>m_bufferLength := M\<rparr>)" "unat L \<le> unat M"
    using resize_standard [OF assms(2), of L] by metis
  have "\<not> L < m_readPointer ?mm" using md_ok_readPointer [OF assms(1)] assms(3) by (simp add: word_less_nat_alt GetReadPointer_def)
  then have "SetMarshaledLength L md = Inr (md\<lparr>m_memoryManager := ?mm\<lparr>m_bufferLength := M, m_validLength := L\<rparr>\<rparr>)"
    using M by (simp add: SetMarshaledLength_def MM_SetValidLength_def word_le_nat_alt Let_def)
  moreover have "map (m_buffer ?mm) [0..<unat L] = mm_contents ?mm @ map (m_buffer ?mm) [unat (m_validLength ?mm)..<unat L]"
    using assms(3) upt_add_eq_append [of 0 "unat (m_validLength ?mm)" "unat L - unat (m_validLength ?mm)"]
    by (simp add: mm_contents_def GetMarshaledLength_def)
  ultimately show ?thesis
    using that by (simp add: md_contents_def mm_contents_def GetMarshaledLength_def)
qed

lemma MD_EnsureBuffer_fresh:
  assumes "unat L < 2 ^ 31"
  obtains md where "MD_EnsureBuffer L (MarshalData heap n) = Inr md" "md_ok md" "md_room (unat L) md" "md_contents md = []"
    "mm_kind (m_memoryManager md) = StandardMM"
proof -
  let ?mm = "StandardMarshalMemoryManager heap n"
  have "unat (0 :: u32) + unat L \<le> mm_limit ?mm" using assms by (simp add: mm_limit_def StandardMarshalMemoryManager_def)
  then obtain M where "MM_EnsureBuffer 0 L ?mm = Inr (?mm\<lparr>m_bufferLength := M\<rparr>)"
    using virt.ensure_grows [where mm = ?mm and p = 0 and d = L] by auto
  then show ?thesis using that assms
    by (simp add: MD_EnsureBuffer_def MarshalData_def GetMarshaledLength_def StandardMarshalMemoryManager_def md_ok_def mm_ok_def md_room_def
        mm_limit_def md_contents_def mm_contents_def)
qed

lemma CheckpointHeader_Marshal_ok:
  assumes h: "header_valid h ci" "ch_nextVote h = Some v" and v: "stored_vote r v"
    and L: "CheckpointHeader_GetMarshalLen h = Inr L"
    and size: "length (header_bytes (replicate MemberId_Size g) L h ci) < 2 ^ 30 - 512" "length (vote_bytes v) < 2 ^ 30 - 512"
  shows "\<exists>h' md pad. CheckpointHeader_Marshal (replicate MemberId_Size g) h (MarshalData heap n) = Inr (h', md) \<and>
    md_contents md = header_bytes (replicate MemberId_Size g) L h ci @ rec_wire r @ pad \<and> GetMarshaledLength md = L \<and>
    512 dvd unat L \<and> 512 \<le> unat L \<and> unat L < 2 ^ 31"
proof -
  let ?hb = "header_bytes (replicate MemberId_Size g) L h ci"
  let ?V = "(length (vote_bytes v) + 511) div 512 * 512"
  have uL: "unat L = (?V + length ?hb + 511) div 512 * 512"
    using header_bytes_length [OF h, of g L] L size by auto
  have hb0: "0 < length ?hb" by (simp add: header_bytes_def)
  have L31: "unat L < 2 ^ 31" "512 dvd unat L" "512 \<le> unat L"
    using uL size hb0 ge_page [of "?V + length ?hb"] by auto
  obtain v2 bufs pad where b: "Vote_GetBuffers (length (v_marshal v)) v = Inr (bufs, v2)" "writes (write_buffers bufs) (rec_wire r @ pad)"
      "length pad < 512" "512 dvd length (rec_wire r @ pad)"
    using stored_vote_buffers [OF v] .
  have lp: "length (rec_wire r @ pad) = ?V"
    using page_count [OF b(4), of "length (rec_wire r)"] b(3) v by (simp add: stored_vote_def)
  have fit: "length (?hb @ rec_wire r @ pad) \<le> unat L" using uL lp by simp
  obtain md0 where md0: "MD_EnsureBuffer L (MarshalData heap n) = Inr md0" "md_ok md0" "md_room (unat L) md0" "md_contents md0 = []"
      "mm_kind (m_memoryManager md0) = StandardMM"
    using MD_EnsureBuffer_fresh [OF L31(1)] .
  have room: "md_room (length (?hb @ rec_wire r @ pad)) md0" using md0(3) fit by (simp add: md_room_def)
  obtain md1 where md1: "bindE (marshal_fields (replicate MemberId_Size g) h L md0) (write_buffers bufs) = Inr md1"
      "appended (?hb @ rec_wire r @ pad) md0 md1"
    using writes_seq [OF writes_header [OF h(1)] b(2)] md0(2) room unfolding writes_def by blast
  have c1: "md_ok md1" "mm_kind (m_memoryManager md1) = StandardMM" "md_contents md1 = ?hb @ rec_wire r @ pad"
    using md1(2) md0(4,5) by (auto simp: appended_def)
  have "unat (GetMarshaledLength md1) \<le> unat L" using c1(3) fit by (metis length_md_contents)
  from SetMarshaledLength_extends [OF c1(1,2) this] obtain md2 junk where md2: "SetMarshaledLength L md1 = Inr md2"
      "md_contents md2 = md_contents md1 @ junk" "GetMarshaledLength md2 = L" .
  have "CheckpointHeader_Marshal (replicate MemberId_Size g) h (MarshalData heap n) = Inr (h\<lparr>ch_nextVote := Some v2\<rparr>, md2)"
    using md1(1) md0(1) md2(1) b(1) L h(2) by (auto simp: CheckpointHeader_Marshal_def deref_def bindE_eq_Inr)
  then show ?thesis using md2(2,3) c1(3) L31 by auto
qed

section \<open>Reading\<close>

text \<open>What UnMarshal gets of a header, up to the vote.\<close>
definition read_fields :: "u32 \<Rightarrow> CheckpointHeader \<Rightarrow> CheckpointHeader" where
  "read_fields len h =
     (let h' = new_CheckpointHeader\<lparr>ch_version := ch_version h, ch_unMarshalLen := len, ch_checksum := ch_checksum h,
                 ch_memberId := ch_memberId h, ch_lastExecutedDecree := ch_lastExecutedDecree h, ch_maxBallot := ch_maxBallot h,
                 ch_stateConfiguration := ch_stateConfiguration h\<rparr> in
      if ch_version h \<ge> 4
      then h'\<lparr>ch_stateSaved := ch_stateSaved h, ch_size := ch_size h, ch_checksumBlockSize := ch_checksumBlockSize h\<rparr> else h')"

lemma reads_fields:
  assumes "header_valid h ci"
  shows "reads (header_fields (ch_version h) new_CheckpointHeader) (fields_bytes (replicate MemberId_Size g) len h ci) (read_fields len h)"
proof -
  have v: "member_valid (ch_version h) (ch_memberId h)" "member_valid (ch_version h) (m_ballotMember (ch_maxBallot h))"
    "memberset_valid (ch_version h) (ci_memberSet ci)" "ch_stateConfiguration h = Some ci"
    using assms by (auto simp: header_valid_def)
  let ?h' = "new_CheckpointHeader\<lparr>ch_version := ch_version h, ch_unMarshalLen := len, ch_checksum := ch_checksum h,
                 ch_memberId := ch_memberId h, ch_lastExecutedDecree := ch_lastExecutedDecree h, ch_maxBallot := ch_maxBallot h,
                 ch_stateConfiguration := Some ci\<rparr>"
  have "reads (bindR ReadBool (\<lambda>stateSaved. bindR ReadUInt64 (\<lambda>len. bindR ReadUInt32 (\<lambda>checksumBlockSize.
            returnR (?h'\<lparr>ch_stateSaved := stateSaved, ch_size := len, ch_checksumBlockSize := checksumBlockSize\<rparr>)))))
      ([if ch_stateSaved h then 1 else 0] @ le_bytes 8 (ch_size h) @ le_bytes 4 (ch_checksumBlockSize h))
      (?h'\<lparr>ch_stateSaved := ch_stateSaved h, ch_size := ch_size h, ch_checksumBlockSize := ch_checksumBlockSize h\<rparr>)"
    by (rule reads_bind [OF reads_Bool], rule reads_bind [OF reads_UInt64], rule reads_bind_return [OF reads_UInt32]) simp
  then have opt: "reads (if ch_version h \<ge> 4 then bindR ReadBool (\<lambda>stateSaved. bindR ReadUInt64 (\<lambda>len. bindR ReadUInt32 (\<lambda>checksumBlockSize.
            returnR (?h'\<lparr>ch_stateSaved := stateSaved, ch_size := len, ch_checksumBlockSize := checksumBlockSize\<rparr>)))) else returnR ?h')
      (if ch_version h \<ge> 4
      then [if ch_stateSaved h then 1 else 0] @ le_bytes 8 (ch_size h) @ le_bytes 4 (ch_checksumBlockSize h) else []) (read_fields len h)"
    using reads_return [of ?h'] v(4) by (simp add: read_fields_def)
  have m0: "ch_memberId new_CheckpointHeader = MemberId_empty" by (simp add: new_CheckpointHeader_def)
  show ?thesis
    unfolding header_fields_def fields_bytes_def Let_def m0
    by (rule reads_bind [OF reads_UInt32], rule reads_bind [OF reads_UInt64], rule reads_bind [OF reads_MemberId [OF v(1)]],
        rule reads_bind [OF reads_UInt64], rule reads_bind [OF reads_BallotNumber [OF v(2)]],
        rule reads_bind [OF configc.read_enc [OF v(3)]], rule opt)
qed

lemma header_vote_ok:
  assumes r: "rec_shape r" "rec_sealed r" "m_msgId (rec_hdr r) = Message_Vote"
    and h: "3 \<le> ch_version h" "\<not> BallotNumber_less (ch_maxBallot h) (m_ballot (rec_hdr r))"
    and md: "md_ok md" "\<not> m_overshoot md" "md_rest md = rec_wire r @ rest" and fuel: "length (rec_wire r) < fuel"
  shows "\<exists>w md'. header_vote little p fuel h md = Inr (Some (h\<lparr>ch_nextVote := Some w\<rparr>), md') \<and> rec_read r (WVote w) \<and> vote_bytes w = rec_wire r"
proof -
  obtain msg g cookie members relinq reqs where rv: "r = LVote msg g cookie members relinq reqs"
    using r(1,3) by (cases r) (auto simp: rec_shape_def prepare_valid_def Message.defs)
  obtain w where w: "Vote_UnMarshal fuel md = Inr (Some w, advance (length (rec_wire r)) md)" "rec_read r (WVote w)" "vote_bytes w = rec_wire r"
    using rec_vote_unmarshals [OF r(1) rv md fuel] .
  have tr: "Message.truncate w = rec_hdr r" using w(2) rv by simp
  have f: "m_unMarshalLen w = m_unMarshalLen (rec_hdr r)" "m_checksum w = m_checksum (rec_hdr r)" "m_ballot w = m_ballot (rec_hdr r)"
    using arg_cong [OF tr, of m_unMarshalLen] arg_cong [OF tr, of m_checksum] arg_cong [OF tr, of m_ballot] by (simp_all add: Message.defs)
  let ?n = "m_unMarshalLen (rec_hdr r)" let ?md = "advance (length (rec_wire r)) md"
  have n: "unat ?n = length (rec_wire r)" using r(1) by (simp add: rec_shape_def)
  then have n': "?n = of_nat (length (rec_wire r))" by (metis of_nat_unat ucast_id)
  have "unat (GetReadPointer md) + length (rec_wire r) \<le> unat (GetMarshaledLength md)"
    using arg_cong [OF md(3), of length] md_ok_readPointer [OF md(1)] by (simp add: length_md_rest)
  moreover have "unat (GetMarshaledLength md) < 2 ^ 31" using md(1) by (simp add: md_ok_def)
  ultimately have le: "GetReadPointer md + ?n \<le> GetMarshaledLength ?md"
    using n unat_add_no_wrap [of "GetReadPointer md" ?n] by (simp add: word_le_nat_alt)
  have ld: "load (unat (GetReadPointer md)) (unat ?n) (m_memoryManager ?md) = Inr (rec_wire r)"
  proof -
    have "load a b (m_memoryManager ?md) = load a b (m_memoryManager md)" for a b by (simp add: load_def advance_def)
    then show ?thesis using peek_forward(3) [OF n' md] by simp
  qed
  have "Message_VerifyChecksum little p w (rec_wire r) ?n = Inr True"
    using Verify_rabin [OF n rec_base [OF r(1)] f(1)] r(2) f(2) by (simp add: rec_sealed_def)
  then show ?thesis using w f le ld h by (intro exI [of _ w] exI [of _ ?md]) (simp add: header_vote_def bindR_def)
qed

lemma CheckpointHeader_UnMarshal_ok:
  assumes h: "header_valid h ci" "\<not> BallotNumber_less (ch_maxBallot h) (m_ballot (rec_hdr r))"
    and r: "rec_shape r" "rec_sealed r" "m_msgId (rec_hdr r) = Message_Vote" and fuel: "length (rec_wire r) < fuel"
    and md: "md_ok md" "\<not> m_overshoot md" "md_rest md = header_bytes (replicate MemberId_Size g) len h ci @ rec_wire r @ rest"
  shows "\<exists>w md'. CheckpointHeader_UnMarshal little p fuel new_CheckpointHeader md =
      Inr (Some ((read_fields len h)\<lparr>ch_nextVote := Some w\<rparr>), md') \<and> rec_read r (WVote w) \<and> vote_bytes w = rec_wire r"
proof -
  let ?f = "fields_bytes (replicate MemberId_Size g) len h ci"
  have v: "IsVersionValid (ch_version h)" "3 \<le> ch_version h" using h(1) by (auto simp: header_valid_def)
  have rest: "md_rest md = le_bytes 2 (ch_version h) @ ?f @ rec_wire r @ rest" using md(3) by (simp add: header_bytes_def)
  note 1 = bindR_reads [OF reads_UInt16 md(1,2) rest]
  note 2 = bindR_reads [OF reads_fields [OF h(1), of g len] 1(2-4)]
  have f: "ch_version (read_fields len h) = ch_version h" "ch_maxBallot (read_fields len h) = ch_maxBallot h"
    by (simp_all add: read_fields_def Let_def)
  obtain w md' where "header_vote little p fuel (read_fields len h) (advance (length ?f) (advance (length (le_bytes 2 (ch_version h))) md)) =
      Inr (Some ((read_fields len h)\<lparr>ch_nextVote := Some w\<rparr>), md')" "rec_read r (WVote w)" "vote_bytes w = rec_wire r"
    using header_vote_ok [OF r _ _ 2(2-4) fuel, of "read_fields len h" little p] f v h(2) by metis
  then show ?thesis unfolding CheckpointHeader_UnMarshal_def 1(1) using v 2(1) [of "header_vote little p fuel"]
    by (intro exI [of _ w] exI [of _ md']) (simp add: guardR_def)
qed

context stream_reader
begin

lemma UnMarshalStream_ok:
  assumes h: "header_valid h ci" "\<not> BallotNumber_less (ch_maxBallot h) (m_ballot (rec_hdr r))"
    and r: "rec_shape r" "rec_sealed r" "m_msgId (rec_hdr r) = Message_Vote" and fuel: "length (rec_wire r) < fuel"
    and L: "512 dvd unat len" "512 \<le> unat len" "unat len < 2 ^ 31" "unat len = length bytes"
    and s: "bytes = header_bytes (replicate MemberId_Size g) len h ci @ rec_wire r @ pad" "src s (bytes @ rest)"
  shows "\<exists>w s'. CheckpointHeader_UnMarshalStream little p fuel heap read new_CheckpointHeader s =
      Inr (Some ((read_fields len h)\<lparr>ch_nextVote := Some w\<rparr>), s') \<and> rec_read r (WVote w) \<and> vote_bytes w = rec_wire r"
proof -
  let ?pg = "take 512 bytes" let ?bs = "drop 512 bytes"
  have lpg: "length ?pg = 512" using L(2,4) by simp
  have src0: "src s (?pg @ ?bs @ rest)" using s(2) by (simp only: append_assoc [symmetric] append_take_drop_id)
  obtain s1 where s1: "read s_PageSize s = Inr (NO_ERROR, ?pg, s1)" "src s1 (?bs @ rest)"
    by (rule read_all [OF src0]) (use lpg in \<open>auto simp: s_PageSize_def\<close>)
  obtain m1 where m1: "store 0 ?pg (StandardMarshalMemoryManager heap s_PageSize) = Inr m1" "memory_at m1 ?pg"
    using store_memory_at [of "StandardMarshalMemoryManager heap s_PageSize" 0 "[]" ?pg] lpg
    by (auto simp: StandardMarshalMemoryManager_def s_PageSize_def)
  have "map (m_buffer m1) [0..<512] = ?pg" using m1(2) lpg by (simp add: memory_at_def)
  from UnMarshalBuf_page [OF this, of "bindR ReadUInt16 (\<lambda>version. bindR ReadUInt32 (\<lambda>len. returnR (version, len)))"] obtain md where
    md: "Message_UnMarshalBuf (bindR ReadUInt16 (\<lambda>version. bindR ReadUInt32 (\<lambda>len. returnR (version, len)))) (m_buffer m1) s_PageSize =
      bindE (bindR ReadUInt16 (\<lambda>version. bindR ReadUInt32 (\<lambda>len. returnR (version, len))) md) (\<lambda>(ret, _). Inr ret)"
    "md_ok md" "\<not> m_overshoot md" "md_rest md = ?pg" .
  have "reads (bindR ReadUInt16 (\<lambda>version. bindR ReadUInt32 (\<lambda>len. returnR (version, len))))
      (le_bytes 2 (ch_version h) @ le_bytes 4 len) (ch_version h, len)"
    by (rule reads_bind [OF reads_UInt16], rule reads_bind_return [OF reads_UInt32]) simp
  moreover have "?pg = (le_bytes 2 (ch_version h) @ le_bytes 4 len) @ drop 6 ?pg"
    using s(1) by (simp add: header_bytes_def fields_bytes_def)
  ultimately have hd: "Message_UnMarshalBuf (bindR ReadUInt16 (\<lambda>version. bindR ReadUInt32 (\<lambda>len. returnR (version, len)))) (m_buffer m1) s_PageSize =
      Inr (Some (ch_version h, len))"
    using md(1) readsD [of _ _ _ md "drop 6 ?pg"] md(2-4) by fastforce
  have ru: "RoundUpToPage len = len" using RoundUpToPage_aligned [of len] L by simp
  obtain M where M: "MM_ResizeBuffer len m1 = Inr (m1\<lparr>m_bufferLength := M\<rparr>)" "unat len \<le> unat M"
    using resize_standard [of m1 len] m1(2) unfolding memory_at_def by metis
  have n: "unat (len - s_PageSize) = length ?bs" using L(2,4) by (simp add: unat_sub word_le_nat_alt s_PageSize_def)
  then have n': "len - s_PageSize = of_nat (length ?bs)" by (metis of_nat_unat ucast_id)
  obtain s2 where s2: "read (len - s_PageSize) s1 = Inr (NO_ERROR, ?bs, s2)"
    by (rule read_all [OF s1(2) n']) (use L in auto)
  obtain m2 where m2: "store (int 512) ?bs (m1\<lparr>m_bufferLength := M\<rparr>) = Inr m2" "memory_at m2 bytes"
    using store_memory_at [of "m1\<lparr>m_bufferLength := M\<rparr>" 512 ?pg ?bs] m1(2) M(2) L lpg by (auto simp: memory_at_def)
  let ?md = "mk_md (m2\<lparr>m_validLength := len\<rparr>)"
  have kl: "mm_kind m2 = StandardMM" "m_readPointer m2 = 0" "len \<le> m_bufferLength m2" "map (m_buffer m2) [0..<unat len] = bytes"
    using m2(2) L(4) by (auto simp: memory_at_def word_le_nat_alt)
  have sm: "SetMarshaledLength len (mk_md m2) = Inr ?md"
    using kl by (simp add: SetMarshaledLength_def MM_ResizeBuffer_def Standard_ResizeBuffer_def leD MM_SetValidLength_def mk_md_def)
  have mok: "md_ok ?md" "\<not> m_overshoot ?md" "md_rest ?md = header_bytes (replicate MemberId_Size g) len h ci @ rec_wire r @ pad"
    using kl L(3) s(1) by (simp_all add: md_ok_def mm_ok_def md_rest_def GetReadPointer_def mm_contents_def)
  have vv: "IsVersionValid (ch_version h)" using h(1) by (simp add: header_valid_def)
  obtain w md' where "CheckpointHeader_UnMarshal little p fuel new_CheckpointHeader ?md =
      Inr (Some ((read_fields len h)\<lparr>ch_nextVote := Some w\<rparr>), md')" "rec_read r (WVote w)" "vote_bytes w = rec_wire r"
    using CheckpointHeader_UnMarshal_ok [OF h r fuel mok] by blast
  then show ?thesis
    using s1(1) m1(1) lpg hd vv M(1) s2 m2(1) sm n' [symmetric] ru
    by (intro exI [of _ w] exI [of _ s2]) (simp add: CheckpointHeader_UnMarshalStream_def Let_def s_PageSize_def)
qed

end

section \<open>Files\<close>

definition write_good :: "(nat \<Rightarrow> u32 \<Rightarrow> u32 option) \<Rightarrow> bool" where
  "write_good writeFile \<longleftrightarrow> (\<forall>off n. 0 < n \<longrightarrow> (\<exists>w. writeFile off n = Some w \<and> 0 < w \<and> w \<le> n))"

lemma write_at_write_at:
  "off \<le> length f \<Longrightarrow> write_at (off + length a) b (write_at off a f) = write_at off (a @ b) f"
  by (auto simp: write_at_def min_def ac_simps)

lemma write_file_ok:
  "write_good writeFile \<Longrightarrow> length buf \<le> k \<Longrightarrow> length buf < 2 ^ 32 \<Longrightarrow> off \<le> length fl \<Longrightarrow>
   write_file writeFile k off buf fl = Inr (write_at off buf fl)"
proof (induction k arbitrary: off buf fl)
  case 0
  then show ?case by (simp add: write_file.simps write_at_def)
next
  case (Suc k)
  show ?case
  proof (cases "buf = []")
    case True
    then show ?thesis using Suc.prems(4) by (simp add: write_file.simps write_at_def)
  next
    case False
    let ?n = "min (of_nat (length buf)) MAX_SINGLE_IO_SIZE"
    have u: "unat (of_nat (length buf) :: u32) = length buf" using Suc.prems(3) by (simp add: unat_of_nat take_bit_nat_eq_self)
    have n: "0 < ?n" "unat ?n \<le> length buf"
      using u False by (auto simp: word_less_nat_alt word_le_nat_alt min_def MAX_SINGLE_IO_SIZE_def)
    from Suc.prems(1) n(1) obtain w where "writeFile off ?n = Some w" "0 < w" "w \<le> ?n" unfolding write_good_def by blast
    then have w: "writeFile off ?n = Some w" "0 < unat w" "unat w \<le> length buf"
      using n(2) u by (simp_all add: word_less_nat_alt word_le_nat_alt [of w])
    let ?f = "write_at off (take (unat w) buf) fl"
    have lf: "off + unat w \<le> length ?f" using Suc.prems(4) w(3) by (simp add: write_at_def)
    have "length (drop (unat w) buf) \<le> k" "length (drop (unat w) buf) < 2 ^ 32" using Suc.prems(2,3) w(2) by auto
    then have "write_file writeFile k (off + unat w) (drop (unat w) buf) ?f = Inr (write_at (off + unat w) (drop (unat w) buf) ?f)"
      using Suc.IH [OF Suc.prems(1) _ _ lf] by blast
    also have "write_at (off + unat w) (drop (unat w) buf) ?f = write_at off buf fl"
      using write_at_write_at [OF Suc.prems(4), of "take (unat w) buf" "drop (unat w) buf"] w(3) by (simp add: min_absorb2)
    finally show ?thesis using w(1) False by (simp add: write_file.simps [of _ "Suc k"])
  qed
qed

lemma GetMarshalLen_read:
  assumes "ch_nextVote h = Some v" "length (vote_bytes w) = length (vote_bytes v)"
  shows "CheckpointHeader_GetMarshalLen (h\<lparr>ch_unMarshalLen := l, ch_nextVote := Some w\<rparr>) = CheckpointHeader_GetMarshalLen h"
  using assms by (cases h) (simp add: CheckpointHeader_GetMarshalLen_def deref_def Vote_GetMarshalLen_bytes Let_def cong: if_cong)

text \<open>A header written to a file and read from it.\<close>
lemma header_file_ok:
  assumes h: "header_valid h ci" "4 \<le> ch_version h" "ch_nextVote h = Some v" "\<not> BallotNumber_less (ch_maxBallot h) (m_ballot (rec_hdr r))"
    and v: "stored_vote r v" and H: "CheckpointHeader_GetMarshalLen h = Inr H"
    and size: "length (header_bytes (replicate MemberId_Size g) H h ci) < 2 ^ 30 - 512" "length (vote_bytes v) < 2 ^ 30 - 512"
    and io: "write_good writeFile" "read_good io" and len: "unat H \<le> length fl" "length fl < 2 ^ 63" and fuel: "length (rec_wire r) < fuel"
  shows "\<exists>hdr w. length hdr = unat H \<and>
    CheckpointHeader_MarshalFile (replicate MemberId_Size g) heap True writeFile h fl = Inr (hdr @ drop (unat H) fl) \<and>
    CheckpointHeader_UnMarshalFile little p fuel heap' junk io NO_ERROR (hdr @ drop (unat H) fl) new_CheckpointHeader =
      Inr (Some (h\<lparr>ch_unMarshalLen := H, ch_nextVote := Some w\<rparr>)) \<and>
    rec_read r (WVote w) \<and> CheckpointHeader_GetMarshalLen (h\<lparr>ch_unMarshalLen := H, ch_nextVote := Some w\<rparr>) = Inr H"
proof -
  obtain h' md pad where m: "CheckpointHeader_Marshal (replicate MemberId_Size g) h (MarshalData heap s_DefaultBufferSize) = Inr (h', md)"
      "md_contents md = header_bytes (replicate MemberId_Size g) H h ci @ rec_wire r @ pad" "GetMarshaledLength md = H"
      "512 dvd unat H" "512 \<le> unat H" "unat H < 2 ^ 31"
    using CheckpointHeader_Marshal_ok [OF h(1,3) v H size, where heap = heap and n = s_DefaultBufferSize] by blast
  let ?b = "md_contents md" let ?f = "?b @ drop (unat H) fl"
  have lb: "length ?b = unat H" using m(3) by simp
  have "CheckpointHeader_MarshalFile (replicate MemberId_Size g) heap True writeFile h fl = Inr (write_at 0 ?b fl)"
    using m(1,3,6) write_file_ok [OF io(1), of ?b "unat H" 0 fl] by (simp add: CheckpointHeader_MarshalFile_def)
  then have wr: "CheckpointHeader_MarshalFile (replicate MemberId_Size g) heap True writeFile h fl = Inr ?f"
    using lb by (simp add: write_at_def)
  have "length ?f < 2 ^ 63" using lb len by simp
  from log_reader_ok [OF io(2) this] obtain q where q: "sr_DoInit io NO_ERROR ?f 2 s_AvgMessageLen new_APSEQREAD = (NO_ERROR, q)"
      "ds_src io (new_DiskStreamReader q) ?f" .
  have r: "rec_shape r" "rec_sealed r" "m_msgId (rec_hdr r) = Message_Vote" "length (vote_bytes v) = length (rec_wire r)"
    using v by (auto simp: stored_vote_def)
  obtain w s' where w: "CheckpointHeader_UnMarshalStream little p fuel heap' (DiskStreamReader_Read junk io) new_CheckpointHeader (new_DiskStreamReader q) =
      Inr (Some ((read_fields H h)\<lparr>ch_nextVote := Some w\<rparr>), s')" "rec_read r (WVote w)" "vote_bytes w = rec_wire r"
    using dsr.UnMarshalStream_ok [OF h(1,4) r(1-3) fuel m(4-6) lb [symmetric] m(2) q(2)] by blast
  have rf: "(read_fields H h)\<lparr>ch_nextVote := Some w\<rparr> = h\<lparr>ch_unMarshalLen := H, ch_nextVote := Some w\<rparr>"
    using h(2) by (cases h) (simp add: read_fields_def new_CheckpointHeader_def)
  have "CheckpointHeader_UnMarshalFile little p fuel heap' junk io NO_ERROR ?f new_CheckpointHeader =
      Inr (Some (h\<lparr>ch_unMarshalLen := H, ch_nextVote := Some w\<rparr>))"
    using q(1) w(1) h(2) unfolding rf by (simp add: CheckpointHeader_UnMarshalFile_def)
  then show ?thesis using wr lb w(2,3) GetMarshalLen_read [OF h(3), of w H] r(4) H by auto
qed

text \<open>
  C12.  A checkpoint that has been saved can be loaded.  As SaveCheckpoint does it,
  a stream is opened behind the place of the header, the state machine writes to
  it, and the header, with the number of bytes issued, is written in front: then
  VerifyCheckpoint accepts the file, and a restart reads from it the header (the
  member, decree, ballot and replica set, and the next vote with its requests)
  and every byte of the state.  This is for protocol version 4 and later, a header
  with a next vote that is shorter than two blocks, and reads and writes that the
  operating system does not fail.  With a header of two blocks or more (the next
  vote is in it, and may be that long) it does not hold: APSEQREAD::Reset to the end
  of the header can then leave a buffer that the reads ahead of DoInit have filled, and
  its bytes are delivered behind the end of the file.
\<close>
theorem saved_checkpoint_loads:
  assumes io: "io_good wio" "write_good writeFile" "read_good io"
    and h: "header_valid h ci" "4 \<le> ch_version h" "ch_nextVote h = Some v" "\<not> BallotNumber_less (ch_maxBallot h) (m_ballot (rec_hdr r))"
    and v: "stored_vote r v" "length (rec_wire r) < fuel" and H: "CheckpointHeader_GetMarshalLen h = Inr H" "ch_checksumBlockSize h = B"
    and size: "length (header_bytes (replicate MemberId_Size g) H h ci) < 2 ^ 30 - 512" "length (vote_bytes v) < 2 ^ 30 - 512"
    and B: "8 < unat B" "unat B < 2 ^ 31" "B mod s_PageSize = 0" "unat H < 2 * unat B"
    and cs: "unat H + 9 * length (put_data cs) + 16 < 2 ^ 63" "\<forall>bs. Some bs \<in> set cs \<longrightarrow> length bs < 2 ^ 32"
    and name: "nameLen < MAXFILENAME_SIZE - 1"
  shows "\<exists>w w1 w2 F vote rd. cw_Init wio NO_ERROR old H B new_cp_writer = Inr (NO_ERROR, w) \<and>
    put_all (cw_Write little al wio) (\<lambda>w. (NO_ERROR, snd (cw_BytesIssued wio w))) cs w = Inr (NO_ERROR, w1) \<and>
    cw_Close wio (snd (SetBytesIssued wio w1 h)) = Inr (NO_ERROR, w2) \<and>
    (let hs = fst (SetBytesIssued wio w1 h); hl = hs\<lparr>ch_unMarshalLen := H, ch_nextVote := Some vote\<rparr> in
     CheckpointHeader_MarshalFile (replicate MemberId_Size g) heap True writeFile hs (sw_file (cw_writer w2)) = Inr F \<and>
     VerifyCheckpoint little p fuel heap junk io NO_ERROR nameLen F = Inr True \<and>
     CheckpointHeader_UnMarshalFile little p fuel heap junk io NO_ERROR F new_CheckpointHeader = Inr (Some hl) \<and>
     rec_read r (WVote vote) \<and> CheckpointHeader_GetMarshalLen hl = Inr H \<and>
     cr_Init heap io NO_ERROR F nameLen H B (ch_size hl) new_cp_reader = Inr (NO_ERROR, rd) \<and>
     cr_Size rd = of_nat (length (put_data cs)) \<and> fills (cr_GetData little p io) ns rd = Inr (cursor ns (put_data cs)))"
proof -
  obtain w w1 w2 where w: "cw_Init wio NO_ERROR old H B new_cp_writer = Inr (NO_ERROR, w)"
      "put_all (cw_Write little al wio) (\<lambda>w. (NO_ERROR, snd (cw_BytesIssued wio w))) cs w = Inr (NO_ERROR, w1)"
      "cw_Close wio (snd (cw_BytesIssued wio w1)) = Inr (NO_ERROR, w2)" "length (sw_file (cw_writer w2)) < 2 ^ 63"
      "unat H \<le> length (sw_file (cw_writer w2))"
      "\<And>hdr. length hdr = unat H \<Longrightarrow> \<exists>r. cr_Init heap io NO_ERROR (hdr @ drop (unat H) (sw_file (cw_writer w2))) nameLen H B
         (fst (cw_BytesIssued wio w1)) new_cp_reader = Inr (NO_ERROR, r) \<and> cr_is r (put_data cs) \<and> cr_Size r = of_nat (length (put_data cs))"
    using stream_written [OF io(1,3) B cs name, of old little al heap] by blast
  define hs where "hs = h\<lparr>ch_size := fst (cw_BytesIssued wio w1)\<rparr>"
  have hs: "header_valid hs ci" "4 \<le> ch_version hs" "ch_nextVote hs = Some v" "\<not> BallotNumber_less (ch_maxBallot hs) (m_ballot (rec_hdr r))"
    "CheckpointHeader_GetMarshalLen hs = Inr H" "length (header_bytes (replicate MemberId_Size g) H hs ci) < 2 ^ 30 - 512"
    "ch_size hs = fst (cw_BytesIssued wio w1)" "ch_checksumBlockSize hs = B"
    using h H size(1) by (simp_all add: hs_def header_valid_def CheckpointHeader_GetMarshalLen_def header_bytes_def fields_bytes_def)
  obtain hdr vote where f: "length hdr = unat H"
    "CheckpointHeader_MarshalFile (replicate MemberId_Size g) heap True writeFile hs (sw_file (cw_writer w2)) =
       Inr (hdr @ drop (unat H) (sw_file (cw_writer w2)))"
    "CheckpointHeader_UnMarshalFile little p fuel heap junk io NO_ERROR (hdr @ drop (unat H) (sw_file (cw_writer w2))) new_CheckpointHeader =
      Inr (Some (hs\<lparr>ch_unMarshalLen := H, ch_nextVote := Some vote\<rparr>))"
    "rec_read r (WVote vote)" "CheckpointHeader_GetMarshalLen (hs\<lparr>ch_unMarshalLen := H, ch_nextVote := Some vote\<rparr>) = Inr H"
    using header_file_ok [OF hs(1-4) v(1) hs(5,6) size(2) io(2,3) w(5,4) v(2), of heap little p heap junk] by blast
  obtain rd where rd: "cr_Init heap io NO_ERROR (hdr @ drop (unat H) (sw_file (cw_writer w2))) nameLen H B (fst (cw_BytesIssued wio w1)) new_cp_reader =
      Inr (NO_ERROR, rd)" "cr_is rd (put_data cs)" "cr_Size rd = of_nat (length (put_data cs))"
    using w(6) [OF f(1)] by blast
  have "VerifyCheckpoint little p fuel heap junk io NO_ERROR nameLen (hdr @ drop (unat H) (sw_file (cw_writer w2))) = Inr True"
    using f(3,5) rd(1) hs(7,8) by (simp add: VerifyCheckpoint_def)
  moreover have "fills (cr_GetData little p io) ns rd = Inr (cursor ns (put_data cs))"
    using cr_fills_cursor [OF rd(2) io(3)] by (simp add: cr_GetData_def [abs_def])
  ultimately show ?thesis
    using w(1-3) f(2-5) rd hs(7) unfolding SetBytesIssued_def fst_conv snd_conv hs_def [symmetric] Let_def
    by (intro exI [of _ w] exI [of _ w1] exI [of _ w2] exI [of _ "hdr @ drop (unat H) (sw_file (cw_writer w2))"] exI [of _ vote] exI [of _ rd])
      (simp add: hs_def)
qed

definition sealed :: "MemberId Vote \<Rightarrow> MemberId Vote" where
  "sealed v = v\<lparr>m_checksum := rabin the_poly the_poly (drop 14 (vote_wire v v))\<rparr>"

lemma sealed_fields:
  "v_marshal (sealed v) = v_marshal v" "m_version (sealed v) = m_version v" "m_ballot (sealed v) = m_ballot v"
  "vote_bytes (sealed v) = vote_bytes v" "Vote_GetMarshalLen (sealed v) = Vote_GetMarshalLen v"
  "vote_wire (sealed v) (sealed v) = vote_wire v (sealed v)"
  by (simp_all add: sealed_def vote_bytes_def Vote_GetMarshalLen_bytes vote_wire_def)

lemma vote_room: "vote_ok v \<Longrightarrow> header_room v \<Longrightarrow> unat (Message_GetBaseSize (m_version v)) \<le> length (vote_bytes v)"
  by (cases "v_marshal v") (auto simp: header_room_def vote_ok_def vote_bytes_def length_mm_contents)

lemma sealed_stored:
  assumes v: "vote_ok v" "vote_header_ok v" "header_room v" "m_msgId v = Message_Vote"
      "message_valid (v\<lparr>m_unMarshalLen := Vote_GetMarshalLen v\<rparr>)"
    and body: "drop (unat (Message_GetBaseSize (m_version v))) (vote_bytes v) =
        vote_body (replicate MemberId_Size g) (m_version v) cookie members relinq reqs"
      "body_valid (m_version v) cookie members relinq reqs"
    and size: "length (vote_bytes v) < 2 ^ 30"
  shows "stored_vote (LVote ((Message.truncate (sealed v))\<lparr>m_unMarshalLen := Vote_GetMarshalLen v\<rparr>) g cookie members relinq reqs) (sealed v)"
proof -
  have mo: "member_ok (m_memberId v)" "ballot_ok (m_ballot v)" using v(2) by (auto simp: vote_header_ok_def member_valid_def ballot_ok_def)
  note b = vote_room [OF v(1,3)]
  have l: "length (enc_Message (Vote_GetMarshalLen v) (sealed v)) = unat (Message_GetBaseSize (m_version v))"
    using length_enc_Message [of "sealed v"] mo by (simp add: sealed_def)
  have tr: "Message.truncate (sealed v) = (Message.truncate v)\<lparr>m_checksum := rabin the_poly the_poly (drop 14 (vote_wire v (sealed v)))\<rparr>"
    using length_enc_Message [OF mo] by (simp add: sealed_def vote_wire_def drop_append enc_Message_from_14 Message.defs)
      (simp add: enc_Message_def)
  have lw: "length (vote_wire v (sealed v)) = length (vote_bytes v)" using l b by (simp add: vote_wire_def)
  note r = vote_record [OF v(4,5) body tr lw size]
  have "vote_ok (sealed v)" "vote_header_ok (sealed v)" "header_room (sealed v)"
    using v(1-3) by (simp_all add: sealed_def vote_ok_def vote_header_ok_def header_room_def)
  then show ?thesis using r lw tr v(4) by (simp add: stored_vote_def sealed_fields Message.defs)
qed

definition sample_config :: ConfigurationInfo where
  "sample_config = \<lparr>ci_configurationNumber = 2, ci_initialDecree = 5,
     ci_memberSet = \<lparr>ms_members = [], ms_cookie = Some [1, 2], ms_cookieLength = 2\<rparr>\<rparr>"

definition sample_header :: "MemberId Vote \<Rightarrow> CheckpointHeader" where
  "sample_header v = new_CheckpointHeader\<lparr>ch_version := 6, ch_lastExecutedDecree := 8, ch_maxBallot := BallotNumber 4 MemberId_empty,
     ch_stateConfiguration := Some sample_config, ch_nextVote := Some (sealed v), ch_checksumBlockSize := 1024\<rparr>"

lemma sample_header_ok:
  assumes "drop (unat (Message_GetBaseSize 6)) (vote_bytes v) = vote_body (replicate MemberId_Size 0) 6 PrimaryCookie_empty None True []"
    "unat (Message_GetBaseSize 6) \<le> length (vote_bytes v)"
  shows "header_valid (sample_header v) sample_config" "CheckpointHeader_GetMarshalLen (sample_header v) = Inr 1024"
    "length (header_bytes (replicate MemberId_Size 0) 1024 (sample_header v) sample_config) < 1000"
proof -
  have "length (vote_bytes v) - unat (Message_GetBaseSize 6) =
      length (vote_body (replicate MemberId_Size 0) 6 PrimaryCookie_empty None True [])" using arg_cong [OF assms(1), of length] by simp
  also have "\<dots> = 6" by (simp add: vote_body_def enc_PrimaryCookie_def PrimaryCookie_empty_def enc_requests_def)
  finally have "length (vote_bytes v) = 178" using assms(2) by (simp add: base_sizes)
  then have vl: "Vote_GetMarshalLen (sealed v) = 178" by (simp add: Vote_GetMarshalLen_bytes sealed_fields)
  show "header_valid (sample_header v) sample_config"
    using member_ok_empty by (simp add: header_valid_def sample_header_def sample_config_def new_CheckpointHeader_def IsVersionValid_def member_valid_def
       memberset_valid_def s_MaxMemberSetCookieLength_def)
  show "length (header_bytes (replicate MemberId_Size 0) 1024 (sample_header v) sample_config) < 1000"
    using member_ok_empty
    by (simp add: header_bytes_def fields_bytes_def sample_header_def sample_config_def new_CheckpointHeader_def enc_ConfigurationInfo_def enc_MemberSet_def
        enc_BallotNumber_def length_enc_MemberId base_sizes)
  show "CheckpointHeader_GetMarshalLen (sample_header v) = Inr 1024"
    unfolding CheckpointHeader_GetMarshalLen_def by (simp add: sample_header_def deref_def new_CheckpointHeader_def vl Let_def base_sizes
        ConfigurationInfo_GetMarshalLen_def MemberSet_GetMarshalLen_def GetNumMembers_def sample_config_def RoundUpToPage_def s_PageSize_def)
qed

theorem saved_checkpoint_loads_witness:
  "\<exists>v r. sample_vote = Inr v \<and> stored_vote r (sealed v) \<and>
   (\<exists>w w1 w2 F vote rd. cw_Init io_pending NO_ERROR [7, 7] 1024 1024 new_cp_writer = Inr (NO_ERROR, w) \<and>
    put_all (cw_Write True (\<lambda>_ _. 0) io_pending) (\<lambda>w. (NO_ERROR, snd (cw_BytesIssued io_pending w))) [Some [1, 2, 3], None, Some [4, 5]] w =
      Inr (NO_ERROR, w1) \<and>
    cw_Close io_pending (snd (SetBytesIssued io_pending w1 (sample_header v))) = Inr (NO_ERROR, w2) \<and>
    (let hs = fst (SetBytesIssued io_pending w1 (sample_header v));
         hl = hs\<lparr>ch_unMarshalLen := 1024, ch_nextVote := Some vote\<rparr> in
     CheckpointHeader_MarshalFile (replicate MemberId_Size 0) (\<lambda>_. 9) True (\<lambda>_. Some) hs (sw_file (cw_writer w2)) = Inr F \<and>
     VerifyCheckpoint True 0 70000 (\<lambda>_. 9) 7 read_pending NO_ERROR 10 F = Inr True \<and>
     CheckpointHeader_UnMarshalFile True 0 70000 (\<lambda>_. 9) 7 read_pending NO_ERROR F new_CheckpointHeader = Inr (Some hl) \<and>
     rec_read r (WVote vote) \<and> CheckpointHeader_GetMarshalLen hl = Inr 1024 \<and>
     cr_Init (\<lambda>_. 9) read_pending NO_ERROR F 10 1024 1024 (ch_size hl) new_cp_reader = Inr (NO_ERROR, rd) \<and>
     cr_Size rd = 5 \<and> fills (cr_GetData True 0 read_pending) [2, 4] rd = Inr [(NO_ERROR, [1, 2]), (ERROR_HANDLE_EOF, [3, 4, 5])]))"
proof -
  obtain v where v: "sample_vote = Inr v" "vote_ok v" "vote_header_ok v" "header_room v"
    "message_valid (v\<lparr>m_unMarshalLen := Vote_GetMarshalLen v\<rparr>)" "length (vote_bytes v) < 2 ^ 16"
    "drop (unat (Message_GetBaseSize 6)) (vote_bytes v) = vote_body (replicate MemberId_Size 0) 6 PrimaryCookie_empty None True []"
    "m_version v = 6" "m_msgId v = Message_Vote" "m_memberId v = MemberId_empty" "m_ballot v = BallotNumber 3 MemberId_empty"
    by (rule sample_vote_ok)
  let ?r = "LVote ((Message.truncate (sealed v))\<lparr>m_unMarshalLen := Vote_GetMarshalLen v\<rparr>) 0 PrimaryCookie_empty None True []"
  have r: "stored_vote ?r (sealed v)"
    by (rule sealed_stored [OF v(2-4,9,5)]) (use v in \<open>simp_all add: body_valid_def cookie_ok_def PrimaryCookie_empty_def\<close>)
  then have rl: "length (rec_wire ?r) < 70000" "length (vote_bytes (sealed v)) < 2 ^ 30 - 512"
    using v(6) by (simp_all add: stored_vote_def sealed_fields)
  note h = sample_header_ok [OF v(7) vote_room [OF v(2,4), unfolded v(8)]]
  have f: "4 \<le> ch_version (sample_header v)" "ch_nextVote (sample_header v) = Some (sealed v)" "ch_checksumBlockSize (sample_header v) = 1024"
    "\<not> BallotNumber_less (ch_maxBallot (sample_header v)) (m_ballot (rec_hdr ?r))"
    using v(11) by (simp_all add: sample_header_def new_CheckpointHeader_def sealed_def Message.defs BallotNumber_less_def)
  have d: "put_data [Some [1, 2, 3], None, Some [4, 5]] = [1, 2, 3, 4, 5]" by (simp add: put_data_def map_filter_simps)
  have g: "write_good (\<lambda>_. Some)" by (simp add: write_good_def)
  have sz: "length (header_bytes (replicate MemberId_Size 0) 1024 (sample_header v) sample_config) < 2 ^ 30 - 512" using h(3) by simp
  have cu: "cursor [2, 4] [1, 2, 3, 4, 5] = [(NO_ERROR, [1, 2]), (ERROR_HANDLE_EOF, [3, 4, 5])]" by simp
  have cs: "unat (1024 :: u32) + 9 * length (put_data [Some [1, 2, 3], None, Some [4, 5]]) + 16 < 2 ^ 63" unfolding d by simp
  have n: "8 < unat (1024 :: u32)" "unat (1024 :: u32) < 2 ^ 31" "(1024 :: u32) mod s_PageSize = 0" "unat (1024 :: u32) < 2 * unat (1024 :: u32)"
    "10 < MAXFILENAME_SIZE - 1" by (simp_all add: s_PageSize_def MAXFILENAME_SIZE_def)
  have len: "of_nat (length [1, 2, 3, 4, 5 :: u8]) = (5 :: u64)" by simp
  note X = saved_checkpoint_loads [OF io_good_samples(2) g read_good_sample h(1) f(1,2,4) r rl(1) h(2) f(3) sz rl(2) n(1-4) cs _ n(5),
      where old = "[7, 7]" and little = True and al = "\<lambda>_ _. 0" and heap = "\<lambda>_. 9" and p = 0 and ns = "[2, 4]" and junk = 7,
      unfolded d cu len]
  show ?thesis by (intro exI [of _ v] exI [of _ ?r] conjI v(1) r, rule X) auto
qed

end
