(* ===== verification/Learn_Protocol.thy ===== *)
theory Learn_Protocol
  imports Legis_State
begin

text \<open>
  The state of the learn server (learn_protocol.cpp and
  Legislator::BuildLearnServerState) and the status a replica answers with.  A
  file is its contents: the log file's lf_disk, and for the checkpoint of a
  decree the bytes given as the argument codex.  lf_disk is the file as it is
  when it is opened for sending: the handlers write to l_log, the sequence of
  messages logged, and not to it.
\<close>

section \<open>State of the server\<close>

record LearnLogFile =
  ll_file :: "u8 list"
  ll_minDecree :: u64
  ll_decreeOffsets :: "u64 list"

record LearnServerState =
  ls_relinquishing :: bool
  ls_version :: u16
  ls_memberId :: mid
  ls_decree :: u64
  ls_configurationNumber :: u32
  ls_ballot :: "mid BallotNumber"
  ls_lastReceivedAgo :: u64
  ls_checkpointedDecree :: u64
  ls_checkpointSize :: u64
  ls_maxBallot :: "mid BallotNumber"
  ls_state :: u32
  ls_checkpointFile :: "u8 list option"
  ls_logs :: "LearnLogFile list"

definition state_code :: "lstate \<Rightarrow> u32" where
  "state_code st = (case st of PaxosInactive \<Rightarrow> 0 | StablePrimary \<Rightarrow> 1 | StableSecondary \<Rightarrow> 2 | Preparing \<Rightarrow> 3
     | Initializing \<Rightarrow> 4)"

text \<open>The logs a request needs: for FetchVotes the file with the decree and those behind it.\<close>
definition learn_logs :: "mid Message \<Rightarrow> LogFile list \<Rightarrow> LearnLogFile list res" where
  "learn_logs request logFiles =
     (if m_msgId request = Message_StatusQuery \<and> logFiles \<noteq> []
      then Inr [\<lparr>ll_file = [], ll_minDecree = lf_minDecree (hd logFiles), ll_decreeOffsets = []\<rparr>]
      else if m_msgId request = Message_FetchVotes
      then case dropWhile (\<lambda>lf. \<not> HasDecree (m_decree request) lf) logFiles of
             [] \<Rightarrow> Inr []
           | log # rest \<Rightarrow>
               bindE (GetOffset (m_decree request) log) (\<lambda>offset.
                 Inr (\<lparr>ll_file = lf_disk log, ll_minDecree = m_decree request, ll_decreeOffsets = [offset]\<rparr> #
                      map (\<lambda>lf. \<lparr>ll_file = lf_disk lf, ll_minDecree = 0, ll_decreeOffsets = []\<rparr>) rest))
      else Inr [])"

definition BuildLearnServerState ::
  "env \<Rightarrow> (u64 \<Rightarrow> u8 list) \<Rightarrow> mid Message \<Rightarrow> legislator \<Rightarrow> LearnServerState res" where
  "BuildLearnServerState e codex request s =
     bindE (learn_logs request (l_logFiles s)) (\<lambda>logs.
     let receivedAgo = e_now e - lv_receivedAt (l_maxAcceptedVote s) in
     Inr \<lparr>ls_relinquishing = l_relinquishPrimary s, ls_version = l_version s, ls_memberId = l_memberId s,
          ls_decree = m_decree (l_maxAcceptedVote s), ls_configurationNumber = PaxosConfiguration s,
          ls_ballot = m_ballot (l_maxAcceptedVote s),
          ls_lastReceivedAgo = (if receivedAgo < 0 then 0 else of_int (receivedAgo div 1000)),
          ls_checkpointedDecree = l_checkpointedDecree s, ls_checkpointSize = l_checkpointSize s,
          ls_maxBallot = l_maxBallot s, ls_state = state_code (l_state s),
          ls_checkpointFile = (if l_checkpointedDecree s \<noteq> 0 then Some (codex (l_checkpointedDecree s)) else None),
          ls_logs = logs\<rparr>)"

section \<open>The status\<close>

definition BuildLearnStatusResponse :: "LearnServerState \<Rightarrow> mid Message \<Rightarrow> mid StatusResponse" where
  "BuildLearnStatusResponse state request =
     Message.extend
       (InitMessage (ls_version state) Message_StatusResponse (ls_memberId state) (ls_decree state)
          (ls_configurationNumber state) (ls_ballot state) 0)
       (StatusResponse.fields (m_decree request) (m_ballot request) (ls_lastReceivedAgo state)
          (if ls_logs state = [] then 0 else ll_minDecree (hd (ls_logs state)))
          (ls_checkpointedDecree state) (ls_checkpointSize state) (ls_maxBallot state) (ls_state state))"

end
