(* ===== verification/Legis_Handlers.thy ===== *)
theory Legis_Handlers
  imports Legis_Checkpoint Learn_Protocol
begin

text \<open>
  The message handlers, the timer and the loop bodies of the legislator
  (legislator.cpp): one definition per handler, each the whole handler, and the
  calls through which the application proposes requests and configurations.
\<close>

definition StartInit :: "env \<Rightarrow> lstep" where
  "StartInit e = StartInitializing 2 e"

section \<open>Execution and status callbacks\<close>

definition execute_calls :: "(u8 list \<times> nat option) list \<Rightarrow> app_call list" where
  "execute_calls reqs =
     (if reqs = [] then []
      else BeforeExecuteReplicatedRequests # map (\<lambda>(req, cookie). ExecuteReplicatedRequest req cookie) reqs @
           [AfterExecuteReplicatedRequests])"

definition ExecuteVote :: "env \<Rightarrow> lvote \<Rightarrow> legislator \<Rightarrow> (bool \<times> legislator) res" where
  "ExecuteVote e vote s =
     bindE (log_assert (m_decree vote = l_lastExecutedDecree s \<or> m_decree vote = l_lastExecutedDecree s + 1) ()) (\<lambda>_.
     if m_decree vote = l_lastExecutedDecree s + 1
     then let s = s\<lparr>l_lastExecutedDecree := l_lastExecutedDecree s + 1,
                    l_calls := l_calls s @ execute_calls (lv_requests vote)\<rparr>;
              shouldSave = (\<exists>r \<in> set (lv_requests vote). e_saveState e (fst r))
          in if lv_isReconfiguration vote
             then (case lv_members vote of
                     None \<Rightarrow> Inl OutOfBounds
                   | Some members \<Rightarrow>
                       Inr (shouldSave, s\<lparr>l_stateConfiguration :=
                              \<lparr>ci_configurationNumber = ci_configurationNumber (l_stateConfiguration s) + 1,
                               ci_initialDecree = m_decree vote + 1, ci_memberSet = members\<rparr>,
                              l_calls := l_calls s @ [NotifyConfigurationChanged (lv_reconfigurationCookie vote)]\<rparr>))
             else Inr (shouldSave, s)
     else Inr (False, s))"

text \<open>The end of ExecuteLoop: the vote at the head of the queue is executed and removed.\<close>
definition ExecuteHead :: "env \<Rightarrow> lstep" where
  "ExecuteHead e s =
     (case eq_Head (l_executeQ s) of
        None \<Rightarrow> Inr s
      | Some vote \<Rightarrow>
          bindE (ExecuteVote e vote s) (\<lambda>(shouldSave, s).
          bindE (eq_Dequeue (c_InMemoryExecutionQueueSize (e_cfg e)) (l_logFiles s) (l_executeQ s)) (\<lambda>(_, q).
          let s = s\<lparr>l_executeQ := q\<rparr> in
          Inr (if shouldSave then s\<lparr>l_saveCheckpointAtDecree := l_lastExecutedDecree s, l_mustCheckpoint := True\<rparr>
               else s))))"

text \<open>The notifications at the start of a round of ExecuteLoop.\<close>
definition ExecuteNotify :: "legislator \<Rightarrow> legislator" where
  "ExecuteNotify s =
     (let s = (case l_callbackAfterVote s of
                 Some vote \<Rightarrow>
                   if l_lastExecutedDecree s \<ge> m_decree vote
                   then (if l_isPrimary s then s\<lparr>l_calls := l_calls s @ [NotifyPrimaryRecovered]\<rparr> else s)
                          \<lparr>l_callbackAfterVote := None\<rparr>
                   else s
               | None \<Rightarrow> s)
      in case l_checkpointSavedNotification s of
           Some (decree, cookie) \<Rightarrow>
             s\<lparr>l_checkpointSavedNotification := None, l_calls := l_calls s @ [StateCopied decree cookie]\<rparr>
         | None \<Rightarrow> s)"

text \<open>Its checkpoint: the result tells whether it waits for the vote after the last executed one.\<close>
definition ExecuteCheckpoint :: "env \<Rightarrow> legislator \<Rightarrow> (bool \<times> legislator) res" where
  "ExecuteCheckpoint e s =
     (if l_saveCheckpointAtDecree s \<noteq> 0 \<and> l_checkpointAllowed s \<and> l_lastExecutedDecree s \<ge> l_saveCheckpointAtDecree s
      then let nextVote = (case eq_Head (l_executeQ s) of None \<Rightarrow> l_maxAcceptedVote s | Some v \<Rightarrow> v) in
           if m_decree nextVote = l_lastExecutedDecree s + 1
           then bindE (SaveCheckpoint e nextVote True s) (\<lambda>(success, s).
                  Inr (False, if success then s\<lparr>l_isSavingCheckpoint := False, l_saveCheckpointAtDecree := 0\<rparr>
                              else s\<lparr>l_isSavingCheckpoint := False, l_checkpointAllowed := False\<rparr>))
           else Inr (True, s)
      else Inr (False, s))"

text \<open>One round of ExecuteLoop.\<close>
definition ExecuteLoop :: "env \<Rightarrow> lstep" where
  "ExecuteLoop e s =
     bindE (ExecuteCheckpoint e (ExecuteNotify s)) (\<lambda>(waitingForVote, s).
       if \<not> waitingForVote \<and> \<not> l_IsTransitioningToPrimary s then ExecuteHead e s else Inr s)"

text \<open>
  AbortReplicateRequests first waits until the execute thread has emptied the
  queue; the votes executed meanwhile are executed here.
\<close>
fun WaitExecuted :: "nat \<Rightarrow> env \<Rightarrow> lstep" where
  "WaitExecuted 0 e s = (if eq_Head (l_executeQ s) = None then Inr s else Inl OutOfFuel)"
| "WaitExecuted (Suc n) e s =
     (if eq_Head (l_executeQ s) = None then Inr s else bindE (ExecuteHead e s) (WaitExecuted n e))"

definition abort_calls :: "lvote \<Rightarrow> app_call list" where
  "abort_calls vote =
     map (\<lambda>(req, cookie). AbortRequest cookie) (lv_requests vote) @
     (if lv_isReconfiguration vote then [AbortChangeConfiguration (lv_reconfigurationCookie vote)] else [])"

definition AbortReplicateRequests :: "env \<Rightarrow> bool \<Rightarrow> lstep" where
  "AbortReplicateRequests e notPrimary s =
     bindE (WaitExecuted (length (vq_queue (eq_toExecuteQ (l_executeQ s)))) e s) (\<lambda>s.
     bindE (case l_outstandingVote s of
              None \<Rightarrow> Inr s
            | Some vote \<Rightarrow>
                bindE (log_assert (\<forall>r \<in> set (lv_requests vote). snd r \<noteq> None) ()) (\<lambda>_.
                  Inr (s\<lparr>l_calls := l_calls s @ abort_calls vote, l_outstandingVote := None\<rparr>))) (\<lambda>s.
     let s = s\<lparr>l_calls := l_calls s @ concat (map abort_calls (vq_votes (l_votesToSend s))),
               l_votesToSend := VoteQueue_new\<rparr>
     in Inr (if notPrimary then s\<lparr>l_calls := l_calls s @ [NotifyStatus (l_isPrimary s)]\<rparr> else s)))"

definition CheckNotifyStatus :: "env \<Rightarrow> bool \<Rightarrow> lstep" where
  "CheckNotifyStatus e curStatus s =
     bindE (if curStatus \<noteq> l_isPrimary s
            then let s = s\<lparr>l_isPrimary := curStatus\<rparr> in
                 if \<not> l_isPrimary s then AbortReplicateRequests e True s
                 else Inr (s\<lparr>l_calls := l_calls s @ [NotifyStatus (l_isPrimary s)],
                             l_callbackAfterVote := Some (l_maxAcceptedVote s)\<rparr>)
            else Inr s) (\<lambda>s.
       Inr (if l_IsTransitioningToPrimary s then s\<lparr>l_IsTransitioningToPrimary := False\<rparr> else s))"

section \<open>Incoming messages\<close>

definition GetReplica :: "mid \<Rightarrow> u32 \<Rightarrow> legislator \<Rightarrow> nat option" where
  "GetReplica memberId remoteIp s =
     find (\<lambda>i. node_mid (r_node (l_replicas s ! i)) = memberId \<and> n_ip (r_node (l_replicas s ! i)) = remoteIp)
       [0..<length (l_replicas s)]"

definition VerifyMessage :: "(mid, 'z) Message_scheme \<Rightarrow> legislator \<Rightarrow> bool \<times> legislator" where
  "VerifyMessage msg s =
     (let ip = m_remoteIP msg; port = m_remotePort msg in
      if m_configurationNumber msg \<le> l_highestDefunct s
      then (False, SendDefunctConfigurationMessage ip port (m_asClient msg) s)
      else if m_configurationNumber msg < PaxosConfiguration s then (False, s)
      else if m_configurationNumber msg > PaxosConfiguration s
      then (False, SendJoinRequestMessage (m_configurationNumber msg) ip port (m_asClient msg) s)
      else if l_state s = PaxosInactive then (False, s)
      else let replica = GetReplica (m_memberId msg) (m_remoteIP msg) s;
               s = (case replica of
                      None \<Rightarrow> s
                    | Some i \<Rightarrow> if r_status (l_replicas s ! i) = 0
                               then upd_replica i (\<lambda>r. r\<lparr>r_status := 1\<rparr>) s else s)
           in if m_memberId msg = l_memberId s then (False, s)
              else if replica = None then (False, s)
              else (True, if m_ballot msg > l_maxSeenBallot s then s\<lparr>l_maxSeenBallot := m_ballot msg\<rparr> else s))"

text \<open>The node of the replica a verified message came from (m_replica->m_node).\<close>
definition sender_node :: "(mid, 'z) Message_scheme \<Rightarrow> legislator \<Rightarrow> RSLNode res" where
  "sender_node msg s =
     (case GetReplica (m_memberId msg) (m_remoteIP msg) s of
        None \<Rightarrow> Inl OutOfBounds
      | Some i \<Rightarrow> Inr (r_node (l_replicas s ! i)))"

definition accept_message ::
  "env \<Rightarrow> (mid, 'z) Message_scheme \<Rightarrow> PrimaryCookie \<Rightarrow> legislator \<Rightarrow> bool res" where
  "accept_message e msg cookie s =
     (if c_UseGlobalAcceptMessagesFlag (e_cfg e) then Inr (l_acceptMessages s)
      else bindE (sender_node msg s) (\<lambda>node. Inr (e_AcceptMessageFromReplica e node cookie)))"

definition not_accepted :: "legislator \<Rightarrow> lmsg" where
  "not_accepted s =
     PlainMsg (InitMessage (l_version s) Message_NotAccepted (l_memberId s) (m_decree (l_maxAcceptedVote s))
       (PaxosConfiguration s) (l_maxBallot s) 0)"

text \<open>The answer to a vote that has just been logged: its message id, and whether to send it.\<close>
definition vote_answer :: "env \<Rightarrow> lvote \<Rightarrow> legislator \<Rightarrow> (u16 \<times> bool) res" where
  "vote_answer e vote s =
     (if m_ballot vote < l_maxBallot s then Inr (Message_NotAccepted, True)
      else bindE (accept_message e (l_maxAcceptedVote s) (lv_primaryCookie (l_maxAcceptedVote s)) s) (\<lambda>sendResponse.
             Inr (Message_VoteAccepted, sendResponse)))"

text \<open>
  Answering it.  A vote that relinquishes the leadership ends HandleNewVotes
  (the votes behind it are dropped); otherwise the loop goes on with next.  The
  result tells whether a vote was accepted and whether the function returned.
\<close>
definition reply_to_vote ::
  "env \<Rightarrow> lvote \<Rightarrow> (legislator \<Rightarrow> (bool \<times> bool \<times> legislator) res) \<Rightarrow> legislator \<Rightarrow> (bool \<times> bool \<times> legislator) res" where
  "reply_to_vote e vote nxt s =
     bindE (vote_answer e vote s) (\<lambda>(msgId, sendResponse).
       if sendResponse
       then let s = SendResponse (m_remoteIP vote) (m_remotePort vote)
                  (PlainMsg (InitMessage (l_version s) msgId (l_memberId s)
                     (m_decree (l_maxAcceptedVote s)) (PaxosConfiguration s) (l_maxBallot s)
                     (l_votePayload s))) s
            in if GetRelinquishPrimary vote
               then Inr (True, True, s\<lparr>l_forceReelection := True\<rparr>)
               else nxt s
       else nxt s)"

text \<open>The loop of HandleNewVotes.\<close>
fun new_votes_loop :: "env \<Rightarrow> lvote list \<Rightarrow> bool \<Rightarrow> legislator \<Rightarrow> (bool \<times> bool \<times> legislator) res" where
  "new_votes_loop e [] acceptedVote s = Inr (acceptedVote, False, s)"
| "new_votes_loop e (vote # votes) acceptedVote s =
     (case VerifyMessage vote s of (ok, s) \<Rightarrow>
      if \<not> ok then new_votes_loop e votes acceptedVote s
      else let acc = l_maxAcceptedVote s in
      if IsLowerDecree vote (m_decree acc) (m_ballot acc)
      then new_votes_loop e votes acceptedVote
             (if m_ballot vote < l_maxBallot s \<or> m_decree vote + 1 < m_decree acc
              then SendResponse (m_remoteIP vote) (m_remotePort vote) (not_accepted s) s else s)
      else if IsNextDecree vote (m_decree acc) (m_ballot acc)
      then bindE (if AmPrimary s \<and> m_ballot vote > l_maxBallot s
                  then CheckNotifyStatus e False (StartBeingStableSecondary s) else Inr s) (\<lambda>s.
           bindE (LogAndAcceptVote (StartInit e) e vote s) (\<lambda>s.
             if votes = [] \<or> m_remoteIP (hd votes) \<noteq> m_remoteIP vote \<or> m_remotePort (hd votes) \<noteq> m_remotePort vote
             then reply_to_vote e vote (new_votes_loop e votes True) s
             else new_votes_loop e votes True s))
      else bindE (StartInit e s) (\<lambda>s. Inr (acceptedVote, True, s)))"

text \<open>
  HandleNewVotes takes the votes off its argument; the first component of the
  result is what it leaves there.
\<close>
definition HandleNewVotes :: "env \<Rightarrow> lvote list \<Rightarrow> legislator \<Rightarrow> (lvote list \<times> legislator) res" where
  "HandleNewVotes e localQueue s =
     (if localQueue = [] then Inr ([], s)
      else if l_relinquishPrimary s then Inr (localQueue, s)
      else bindE (new_votes_loop e localQueue False s) (\<lambda>(acceptedVote, returned, s).
             Inr ([], if \<not> returned \<and> acceptedVote then StartBeingStableSecondary s else s)))"

definition RecordVoteAcceptedFromReplica :: "env \<Rightarrow> mid Message \<Rightarrow> lstep" where
  "RecordVoteAcceptedFromReplica e msg s =
     (case GetReplica (m_memberId msg) (m_remoteIP msg) s of
        None \<Rightarrow> Inl OutOfBounds
      | Some i \<Rightarrow> Inr (upd_replica i (\<lambda>r. r\<lparr>r_lastRequestVotedAt := e_now e,
             r_lastRequestVotedDecree := max (r_lastRequestVotedDecree r) (m_decree msg),
             r_lastVotePayload := m_payload msg\<rparr>) s))"

definition HandleVoteAcceptedMsg :: "env \<Rightarrow> mid Message \<Rightarrow> lstep" where
  "HandleVoteAcceptedMsg e msg s =
     bindE (if AmPrimary s then RecordVoteAcceptedFromReplica e msg s else Inr s) (\<lambda>s.
     let acc = l_maxAcceptedVote s in
     case l_outstandingVote s of
       None \<Rightarrow> Inr s
     | Some out \<Rightarrow>
         if AmPrimary s \<and> IsSameDecree msg (m_decree acc) (l_maxBallot s) \<and>
            IsSameDecree out (m_decree acc) (l_maxBallot s)
         then bindE (log_assert (l_maxBallot s = m_ballot acc) ()) (\<lambda>_.
              let s = s\<lparr>l_responseMap := List.insert (m_memberId msg) (l_responseMap s)\<rparr> in
              if length (l_responseMap s) \<ge> unat (QuorumSize s - 1)
              then let s = s\<lparr>l_outstandingVote := None, l_actionTimeout := I64_MAX\<rparr> in
                   if lv_isReconfiguration acc
                   then SendAndLogReconfigurationDecision (StartInit e) e (m_decree acc) (m_ballot acc) s
                   else if GetRelinquishPrimary acc then Inl ShutDownCalled
                   else AddToExecutionQueue e acc s
              else Inr s)
         else Inr s)"

definition HandlePrepareMsg :: "env \<Rightarrow> mid PrepareMsg \<Rightarrow> lstep" where
  "HandlePrepareMsg e msg s =
     (if l_relinquishPrimary s then Inr s
      else let acc = l_maxAcceptedVote s in
      if IsLowerDecree msg (m_decree acc) (l_maxBallot s)
      then Inr (if m_decree msg + 1 < m_decree acc \<or> m_ballot msg < l_maxBallot s
                then SendResponse (m_remoteIP msg) (m_remotePort msg) (not_accepted s) s else s)
      else if l_state s \<noteq> Initializing
      then bindE (LogPrepare e msg s) (\<lambda>s.
           bindE (accept_message e msg (pm_primaryCookie msg) s) (\<lambda>acceptPrepare.
           let s = (if acceptPrepare
                    then SendResponse (m_remoteIP msg) (m_remotePort msg)
                           (PrepareAcceptedM (InitMessage (l_version s) Message_PrepareAccepted (l_memberId s)
                              (m_decree msg) (PaxosConfiguration s) (m_ballot msg) 0) (l_maxAcceptedVote s)) s
                    else s)
           in if m_decree msg > m_decree (l_maxAcceptedVote s) then StartInit e s
              else Inr (StartBeingStableSecondary s)))
      else Inr s)"

definition HandlePrepareAcceptedMsg :: "env \<Rightarrow> mid Message \<Rightarrow> lvote \<Rightarrow> lstep" where
  "HandlePrepareAcceptedMsg e msg vote s =
     (if l_state s = Preparing \<and> IsSameDecree msg (m_decree (l_maxAcceptedVote s)) (l_maxBallot s)
      then bindE (log_assert (m_ballotMember (l_maxBallot s) = l_memberId s) ()) (\<lambda>_.
           case l_oldFreshestVote s of
             None \<Rightarrow> Inl OutOfBounds
           | Some old \<Rightarrow>
               bindE (log_assert (m_decree old = m_decree (l_maxAcceptedVote s)) ()) (\<lambda>_.
               if m_decree vote > m_decree msg \<or> m_ballot vote > m_ballot msg then Inr s
               else let s = (if m_decree vote = m_decree old \<and> m_ballot vote > m_ballot old
                             then s\<lparr>l_oldFreshestVote := Some vote\<rparr> else s);
                        s = s\<lparr>l_responseMap := List.insert (m_memberId msg) (l_responseMap s)\<rparr>
                    in if length (l_responseMap s) \<ge> unat (QuorumSize s - 1)
                       then StartBeingStablePrimary (StartInit e) e s else Inr s))
      else Inr s)"

definition HandleNotAcceptedMsg :: "env \<Rightarrow> mid Message \<Rightarrow> lstep" where
  "HandleNotAcceptedMsg e msg s =
     (let acc = l_maxAcceptedVote s in
      if IsLowerDecree msg (m_decree acc) (m_ballot acc) then Inr s
      else if l_state s \<noteq> Initializing
      then if m_decree msg > m_decree acc then StartInit e s
           else if m_ballot msg > l_maxBallot s
           then let prep = Message.extend (InitMessage (m_version msg) Message_Prepare (m_memberId msg)
                        (m_decree msg) (PaxosConfiguration s) (m_ballot msg) 0)
                        (PrepareMsg.fields PrimaryCookie_empty)
                in bindE (LogPrepare e prep s) (\<lambda>s. Inr (StartBeingStableSecondary s))
           else Inr s
      else Inr s)"


section \<open>Learning\<close>

text \<open>The loop of LearnVotes over the messages read from the peer.\<close>
fun learn_loop ::
  "env \<Rightarrow> lmsg list \<Rightarrow> lvote option \<Rightarrow> lvote option \<Rightarrow> legislator \<Rightarrow> (bool \<times> legislator) res" where
  "learn_loop e [] lastVote minNeeded s = Inr (False, s)"
| "learn_loop e (msg # msgs) lastVote minNeeded s =
     (if m_configurationNumber (msg_hdr msg) \<noteq> PaxosConfiguration s then Inr (False, s)
      else case msg of
        PrepareM p \<Rightarrow>
          bindE (if m_ballot p > l_maxBallot s then LogPrepare e p s else Inr s)
            (learn_loop e msgs lastVote minNeeded)
      | PlainMsg decision \<Rightarrow>
          bindE (LogReconfigurationDecision (StartInit e) e decision s) (\<lambda>s.
            learn_loop e msgs (Some (l_maxAcceptedVote s)) minNeeded s)
      | VoteMsg vote \<Rightarrow>
          (let acc = l_maxAcceptedVote s in
           if (case lastVote of
                 Some prev \<Rightarrow> \<not> IsNextDecree vote (m_decree prev) (m_ballot prev) \<or>
                              m_decree vote < m_decree acc \<or> m_decree vote > m_decree acc + 1
               | None \<Rightarrow> m_decree vote \<noteq> m_decree acc)
           then Inr (False, s)
           else if m_ballot vote < m_ballot acc then learn_loop e msgs (Some vote) minNeeded s
           else bindE (if \<not> IsNextDecree vote (m_decree acc) (m_ballot acc)
                       then bindE (log_assert (m_decree vote = m_decree acc + 1 \<and> m_ballot vote > m_ballot acc) ()) (\<lambda>_.
                            bindE (Vote_copy (m_version vote) vote (lv_primaryCookie vote)) (\<lambda>missingVote.
                              LogAndAcceptVote (StartInit e) e (missingVote\<lparr>m_ballot := m_ballot acc\<rparr>) s))
                       else Inr s) (\<lambda>s.
                bindE (LogAndAcceptVote (StartInit e) e vote s) (\<lambda>s.
                  if minNeeded = None \<or> m_decree (the minNeeded) \<le> m_decree vote
                  then case vq_Head (l_voteCache s) of
                         Some head \<Rightarrow> if m_decree head \<le> m_decree vote then Inr (True, s)
                                       else learn_loop e msgs (Some vote) (Some head) s
                       | None \<Rightarrow> learn_loop e msgs (Some vote) None s
                  else learn_loop e msgs (Some vote) minNeeded s)))
      | _ \<Rightarrow> Inl OutOfBounds)"

definition LearnVotes :: "env \<Rightarrow> u32 \<Rightarrow> u16 \<Rightarrow> legislator \<Rightarrow> (bool \<times> legislator) res" where
  "LearnVotes e ip port s = learn_loop e (e_learn e ip port) None (vq_Head (l_voteCache s)) s"

definition LearnVotesAndTransition :: "env \<Rightarrow> mid StatusResponse \<Rightarrow> lstep" where
  "LearnVotesAndTransition e resp s =
     bindE (sender_node resp s) (\<lambda>node.
     bindE (LearnVotes e (n_ip node) (n_rslLearnPort node) s) (\<lambda>(learned, s).
       if learned then Inr (StartBeingStableSecondary s) else StartInit e s))"

text \<open>The transition of a replica that has heard from a quorum while initializing.\<close>
definition choose_source :: "env \<Rightarrow> lstep" where
  "choose_source e s =
     (let acc = l_maxAcceptedVote s;
          minDecree = (case vq_Head (l_voteCache s) of
                         Some vote \<Rightarrow> if m_decree vote > m_decree acc then m_decree vote else of_int I64_MAX
                       | None \<Rightarrow> of_int I64_MAX);
          pick = (\<lambda>responses. responses ! (e_rand e mod length responses));
          step1 = FindHigherLogged (m_decree acc) (minDecree - 1) (m_ballot acc) (l_statusMap s);
          step2 = FindHigherLogged (m_decree acc) (m_decree acc) (m_ballot acc) (l_statusMap s);
          step3 = FindHigherLogged (of_int I64_MAX) (m_decree acc) (m_ballot acc) (l_statusMap s)
      in if step1 \<noteq> [] then LearnVotesAndTransition e (pick step1) s
         else if step2 \<noteq> [] then LearnVotesAndTransition e (pick step2) s
         else if step3 \<noteq> []
         then let checkpoints = FindCheckpoint (m_decree acc) (l_statusMap s) in
              if checkpoints \<noteq> []
              then bindE (sender_node (pick checkpoints) s) (\<lambda>node.
                   bindE (CopyCheckpoint e (n_ip node) (n_rslLearnPort node) (sr_checkpointedDecree (pick checkpoints))
                            (sr_checkpointSize (pick checkpoints)) None True s) (\<lambda>(copied, s).
                     if copied then Inl ShutDownCalled else StartInit e s))
              else Inr s
         else let ago = FindMinReceivedAgo (l_statusMap s);
                  s = (if l_nextElectionTime s = I64_MAX \<or> ago = I64_MAX
                       then let ago = (if ago > e_now e div 1000 then e_now e div 1000 else ago)
                            in s\<lparr>l_nextElectionTime := e_now e - HRTIME_MSECONDS ago + l_electionDelay s\<rparr>
                       else s)
              in MoveToSecondaryOrPrepare (StartInit e) e s)"

definition HandleStatusResponseMsg :: "env \<Rightarrow> mid StatusResponse \<Rightarrow> lstep" where
  "HandleStatusResponseMsg e msg s =
     (let decree = l_copyCheckpointAtDecree s;
          s = (if decree \<noteq> 0 \<and> sr_checkpointedDecree msg \<ge> decree
               then let s = (if l_copyCheckpointThread s \<and> e_copyThreadDone e
                             then s\<lparr>l_copyCheckpointThread := False\<rparr> else s)
                    in if \<not> l_copyCheckpointThread s
                       then s\<lparr>l_cpTimeout := I64_MAX, l_copyCheckpointThread := True\<rparr> else s
               else s);
          acc = l_maxAcceptedVote s
      in if AmPrimary s then Inr s
         else if m_queryDecree msg \<noteq> m_decree acc \<or> m_queryBallot msg \<noteq> m_ballot acc then Inr s
         else if l_state s \<noteq> Initializing
         then if m_decree msg = m_decree acc + 1 \<and> m_ballot msg \<ge> m_ballot acc \<and> vq_Head (l_voteCache s) = None
              then LearnVotesAndTransition e msg s else Inr s
         else let s = s\<lparr>l_statusMap := sm_Insert msg (l_statusMap s)\<rparr>
              in if sm_Size (l_statusMap s) \<ge> QuorumSize s - 1 then choose_source e s else Inr s)"

definition HandleJoinMsg :: "env \<Rightarrow> mid JoinMessage \<Rightarrow> lstep" where
  "HandleJoinMsg e msg s =
     (let acc = l_maxAcceptedVote s in
      if m_configurationNumber msg \<le> PaxosConfiguration s
      then Inr (if m_configurationNumber msg \<le> l_highestDefunct s + 1
                then SendDefunctConfigurationMessage (m_remoteIP msg) (m_remotePort msg) (m_asClient msg) s else s)
      else if m_decree acc \<ge> jm_minDecreeInLog msg \<and> PaxosConfiguration s > 0
      then bindE (LearnVotes e (m_remoteIP msg) (jm_learnPort msg) s) (\<lambda>(_, s). Inr s)
      else if jm_checkpointedDecree msg \<ge> m_decree acc
      then bindE (CopyCheckpoint e (m_remoteIP msg) (jm_learnPort msg) (jm_checkpointedDecree msg)
                    (jm_checkpointSize msg) None True s) (\<lambda>(copied, s).
             if copied then Inl ShutDownCalled else Inr s)
      else Inr s)"

definition HandleJoinRequestMsg :: "env \<Rightarrow> mid Message \<Rightarrow> lstep" where
  "HandleJoinRequestMsg e msg s =
     (if m_configurationNumber msg = PaxosConfiguration s
      then SendJoinMessage e (m_remoteIP msg) (m_remotePort msg) (m_asClient msg) s else Inr s)"

definition HandleReconfigurationDecisionMsg :: "env \<Rightarrow> mid Message \<Rightarrow> lstep" where
  "HandleReconfigurationDecisionMsg e decision s = LogReconfigurationDecision (StartInit e) e decision s"

definition HandleStatusQueryMsg :: "env \<Rightarrow> mid Message \<Rightarrow> lstep" where
  "HandleStatusQueryMsg e msg s =
     bindE (BuildLearnServerState e (\<lambda>_. []) msg s) (\<lambda>learnState.
       Inr (if ls_relinquishing learnState then s
            else SendResponse (m_remoteIP msg) (m_remotePort msg) (StatusM (BuildLearnStatusResponse learnState msg)) s))"

section \<open>Dispatch\<close>

datatype RSLResponseCode = RSLSuccess | RSLNotPrimary | RSLShuttingDown | RSLInvalidParameter |
  RSLAlreadyBootstrapped | RSLBootstrapFailed | RSLFastReadStale

text \<open>The comparison of two member sets in StartBootstrap; lstrcmpi ignores case.\<close>
definition ascii_lower :: "u8 \<Rightarrow> u8" where
  "ascii_lower b = (if 65 \<le> b \<and> b \<le> 90 then b + 32 else b)"

definition same_member_set :: "MemberSet \<Rightarrow> MemberSet \<Rightarrow> bool" where
  "same_member_set chk new \<longleftrightarrow>
     length (ms_members chk) = length (ms_members new) \<and>
     (\<forall>c \<in> set (ms_members chk).
        fold (\<lambda>n found. if node_mid c = node_mid n
                        then n_ip c = n_ip n \<and> n_rslPort c = n_rslPort n \<and>
                             map ascii_lower (c_str (n_hostName c)) = map ascii_lower (c_str (n_hostName n))
                        else found) (ms_members new) False)"

definition StartBootstrap :: "MemberSet \<Rightarrow> legislator \<Rightarrow> (RSLResponseCode \<times> legislator) res" where
  "StartBootstrap memberSet s =
     (if \<not> MemberSet_Verify (l_version s) memberSet then Inr (RSLInvalidParameter, s)
      else if IsBootstrapped s then Inr (RSLAlreadyBootstrapped, s)
      else if \<not> ms_includes (l_memberId s) memberSet then Inr (RSLBootstrapFailed, s)
      else let currentSet = (if HasConfigurationCheckpointed s
                             then Some (ci_memberSet (l_stateConfiguration s)) else l_bootstrapMemberSet s)
           in case currentSet of
                None \<Rightarrow> Inr (RSLSuccess, s\<lparr>l_bootstrapMemberSet := Some memberSet\<rparr>)
              | Some cur \<Rightarrow>
                  bindE (log_assert (ms_members cur \<noteq> []) ()) (\<lambda>_.
                    if same_member_set cur memberSet
                    then Inr (RSLSuccess, s\<lparr>l_bootstrapMemberSet := Some memberSet\<rparr>)
                    else Inr (RSLBootstrapFailed, s)))"

text \<open>HandleMessage; a message whose class does not fit its id would be a bad cast.\<close>
definition HandleMessage :: "env \<Rightarrow> lmsg \<Rightarrow> lstep" where
  "HandleMessage e msg s =
     (let hdr = msg_hdr msg; id = m_msgId hdr in
      if id = Message_Bootstrap
      then (case msg of BootstrapM _ ms \<Rightarrow> bindE (StartBootstrap ms s) (\<lambda>(_, s). Inr s) | _ \<Rightarrow> Inl OutOfBounds)
      else if id = Message_DefunctConfiguration
      then UpdateDefunctInfo (StartInit e) (m_configurationNumber hdr) s
      else if m_configurationNumber hdr \<le> l_highestDefunct s
      then Inr (SendDefunctConfigurationMessage (m_remoteIP hdr) (m_remotePort hdr) (m_asClient hdr) s)
      else if id = Message_Join
      then (case msg of JoinM j \<Rightarrow> HandleJoinMsg e j s | _ \<Rightarrow> Inl OutOfBounds)
      else if id = Message_JoinRequest then HandleJoinRequestMsg e hdr s
      else case VerifyMessage hdr s of (ok, s) \<Rightarrow>
           if \<not> ok then Inr s
           else if id = Message_VoteAccepted then HandleVoteAcceptedMsg e hdr s
           else if id = Message_Prepare
           then (case msg of PrepareM p \<Rightarrow> HandlePrepareMsg e p s | _ \<Rightarrow> Inl OutOfBounds)
           else if id = Message_PrepareAccepted
           then (case msg of PrepareAcceptedM h v \<Rightarrow> HandlePrepareAcceptedMsg e h v s | _ \<Rightarrow> Inl OutOfBounds)
           else if id = Message_NotAccepted then HandleNotAcceptedMsg e hdr s
           else if id = Message_StatusResponse
           then (case msg of StatusM r \<Rightarrow> HandleStatusResponseMsg e r s | _ \<Rightarrow> Inl OutOfBounds)
           else if id = Message_ReconfigurationDecision then HandleReconfigurationDecisionMsg e hdr s
           else Inr s)"

text \<open>ProcessReceive on an unmarshaled packet.\<close>
definition ProcessReceive :: "env \<Rightarrow> u32 \<Rightarrow> u16 \<Rightarrow> bool \<Rightarrow> lmsg \<Rightarrow> lstep" where
  "ProcessReceive e ip port asClient msg s =
     (let mark = (\<lambda>m. m\<lparr>m_remoteIP := ip, m_remotePort := port, m_asClient := asClient\<rparr>);
          id = m_msgId (msg_hdr msg)
      in if asClient \<and> id \<noteq> Message_VoteAccepted \<and> id \<noteq> Message_PrepareAccepted \<and> id \<noteq> Message_StatusResponse \<and>
            id \<noteq> Message_NotAccepted \<and> id \<noteq> Message_DefunctConfiguration \<and> id \<noteq> Message_Join \<and> id \<noteq> Message_JoinRequest
         then Inr s
         else if id = Message_StatusQuery then HandleStatusQueryMsg e (mark (msg_hdr msg)) s
         else if id = Message_Vote
         then (case msg of
                 VoteMsg v \<Rightarrow>
                   let vote = v\<lparr>m_remoteIP := ip, m_remotePort := port, m_asClient := asClient,
                                lv_receivedAt := e_now e\<rparr> in
                   if (case vq_Tail (l_voteCache s) of
                         None \<Rightarrow> False
                       | Some lastVote \<Rightarrow> IsLowerDecree vote (m_decree lastVote) (m_ballot lastVote) \<or>
                                          IsSameDecree vote (m_decree lastVote) (m_ballot lastVote))
                   then Inr s
                   else bindE (if vq_size (l_voteCache s) > c_MaxCacheLength (e_cfg e)
                               then vq_Clear (l_voteCache s) else Inr (l_voteCache s)) (\<lambda>cache.
                          Inr (s\<lparr>l_voteCache := vq_Enqueue lvote_len vote cache\<rparr>))
               | _ \<Rightarrow> Inl OutOfBounds)
         else Inr (s\<lparr>l_recvMsgQ := l_recvMsgQ s @ [case msg of
                PlainMsg m \<Rightarrow> PlainMsg (mark m)
              | VoteMsg v \<Rightarrow> VoteMsg (v\<lparr>m_remoteIP := ip, m_remotePort := port, m_asClient := asClient\<rparr>)
              | PrepareM p \<Rightarrow> PrepareM (p\<lparr>m_remoteIP := ip, m_remotePort := port, m_asClient := asClient\<rparr>)
              | PrepareAcceptedM m v \<Rightarrow> PrepareAcceptedM (mark m) v
              | StatusM r \<Rightarrow> StatusM (r\<lparr>m_remoteIP := ip, m_remotePort := port, m_asClient := asClient\<rparr>)
              | JoinM j \<Rightarrow> JoinM (j\<lparr>m_remoteIP := ip, m_remotePort := port, m_asClient := asClient\<rparr>)
              | BootstrapM m ms \<Rightarrow> BootstrapM (mark m) ms]\<rparr>))"


section \<open>The timer and the loops\<close>

definition ReSendCurrentVote :: "env \<Rightarrow> lstep" where
  "ReSendCurrentVote e s =
     bindE (log_assert (l_outstandingVote s \<noteq> None) ()) (\<lambda>_.
     let vote = l_maxAcceptedVote s in
     bindE (log_assert (\<not> (e_now e - lv_receivedAt vote \<ge> HRTIME_SECONDS (c_VoteMaxOutstandingInterval (e_cfg e)))) ()) (\<lambda>_.
       Inr ((ReSendRequest e (VoteMsg vote) (c_VoteRetryInterval (e_cfg e)) s)
              \<lparr>l_actionTimeout := e_now e + HRTIME_SECONDS 1\<rparr>)))"

definition ReSendPrepareMsg :: "env \<Rightarrow> lstep" where
  "ReSendPrepareMsg e s =
     bindE (log_assert (l_state s = Preparing) ()) (\<lambda>_.
     case l_lastPrepareMsg s of
       None \<Rightarrow> Inl OutOfBounds
     | Some prepare \<Rightarrow>
         Inr ((ReSendRequest e (PrepareM prepare) (c_PrepareRetryInterval (e_cfg e)) s)
                \<lparr>l_actionTimeout := e_now e + HRTIME_SECONDS 1\<rparr>))"

definition Timer :: "env \<Rightarrow> lstep" where
  "Timer e s =
     bindE (if (e_now e \<ge> l_nextElectionTime s \<or> l_forceReelection s) \<and> l_state s = StableSecondary \<and>
               vq_Head (l_voteCache s) = None
            then StartInit e s else Inr s) (\<lambda>s.
     let s = (if e_now e > l_cpTimeout s then SendStatusRequestMessage e s else s)
     in if e_now e > l_actionTimeout s
        then if AmPrimary s then ReSendCurrentVote e s
             else if l_state s = Preparing
             then if e_now e > l_prepareTimeout s then StartInit e s else ReSendPrepareMsg e s
             else if l_state s = Initializing then StartInit e s
             else Inr s
        else Inr s)"

definition PersistMemberSet :: "env \<Rightarrow> MemberSet \<Rightarrow> legislator \<Rightarrow> (bool \<times> legislator) res" where
  "PersistMemberSet e memberSet s =
     (let acc = l_maxAcceptedVote s; conf = l_stateConfiguration s in
      bindE (log_assert (ci_configurationNumber conf = 0) ()) (\<lambda>_.
      bindE (log_assert (ci_initialDecree conf = 0) ()) (\<lambda>_.
      bindE (log_assert (ms_members (ci_memberSet conf) = []) ()) (\<lambda>_.
      bindE (log_assert (m_configurationNumber acc = 0) ()) (\<lambda>_.
      bindE (log_assert (m_decree acc = 0) ()) (\<lambda>_.
      bindE (log_assert (m_ballot acc = NoBallot) ()) (\<lambda>_.
      let conf = \<lparr>ci_configurationNumber = 1, ci_initialDecree = 1, ci_memberSet = memberSet\<rparr> in
      bindE (Vote_empty (l_version s) (l_memberId s) 1 1 NoBallot (l_primaryCookie s) False) (\<lambda>vote.
        SaveCheckpoint e vote False
          (s\<lparr>l_stateConfiguration := conf, l_paxosConfiguration := conf, l_maxAcceptedVote := vote\<rparr>)))))))))"

definition CheckBootstrap :: "env \<Rightarrow> lstep" where
  "CheckBootstrap e s =
     bindE (log_assert (l_state s = PaxosInactive) ()) (\<lambda>_.
     bindE (case l_bootstrapMemberSet s of
              Some ms \<Rightarrow>
                if \<not> HasConfigurationCheckpointed s
                then bindE (PersistMemberSet e ms s) (\<lambda>(persisted, s).
                     let s = s\<lparr>l_bootstrapMemberSet := None\<rparr> in
                     Inr (if persisted then s\<lparr>l_calls := l_calls s @ [NotifyConfigurationChanged None]\<rparr> else s))
                else Inr s
            | None \<Rightarrow> Inr s) (\<lambda>s.
     let conf = ci_memberSet (l_paxosConfiguration s) in
     if ms_includes (l_memberId s) conf
     then StartInit e (s\<lparr>l_replicas := l_replicas s @ new_replicas e (l_memberId s) conf\<rparr>)
     else Inr s))"

fun handle_messages :: "env \<Rightarrow> lmsg list \<Rightarrow> lstep" where
  "handle_messages e [] s = Inr s"
| "handle_messages e (m # ms) s = bindE (HandleMessage e m s) (handle_messages e ms)"

text \<open>The main thread's turn when it is the primary and has no vote outstanding.\<close>
definition PrimaryTurn :: "env \<Rightarrow> lstep" where
  "PrimaryTurn e s =
     (if AmPrimary s
      then if l_outstandingVote s = None
           then bindE (CheckNotifyStatus e True s) (\<lambda>s.
                case vq_Dequeue (l_votesToSend s) of (vote, q) \<Rightarrow>
                let s = s\<lparr>l_votesToSend := q\<rparr> in
                case vote of None \<Rightarrow> Inr s | Some v \<Rightarrow> SendNextVote (StartInit e) e v s)
           else Inr s
      else CheckNotifyStatus e False s)"

text \<open>
  One round of MainLoop.  The VoteQueue the cached votes were moved to is
  destroyed at the end of its block, and its destructor asserts that it is
  empty.
\<close>
definition MainLoop :: "env \<Rightarrow> lstep" where
  "MainLoop e s =
     bindE (if l_state s = PaxosInactive then CheckBootstrap e s else Inr s) (\<lambda>s.
     bindE (if l_state s \<noteq> Initializing
            then let localQueue = vq_votes (l_voteCache s) in
                 bindE (HandleNewVotes e localQueue (s\<lparr>l_voteCache := VoteQueue_new\<rparr>)) (\<lambda>(rest, s).
                 bindE (log_assert (rest = []) ()) (\<lambda>_. Inr s))
            else Inr s) (\<lambda>s.
     bindE (handle_messages e (l_recvMsgQ s) (s\<lparr>l_recvMsgQ := []\<rparr>)) (\<lambda>s.
     bindE (PrimaryTurn e s) (\<lambda>s.
     bindE (Timer e s) (SendJoinMessagesIfNecessary e)))))"

text \<open>One round of HeartBeatLoop.\<close>
definition HeartBeat :: "bool \<Rightarrow> env \<Rightarrow> lstep" where
  "HeartBeat independent e s =
     (if AmPrimary s \<and> l_isPrimary s \<and> \<not> l_isShutting s \<and> l_outstandingVote s = None \<and>
         e_now e - lv_receivedAt (l_maxAcceptedVote s) > c_HeartBeatInterval (e_cfg e) \<and>
         m_ballotMember (l_maxBallot s) = l_memberId s
      then bindE (Vote_empty (l_version s) (l_memberId s) 0 0 NoBallot (l_primaryCookie s) False) (\<lambda>vote.
           if independent then SendNextVote (StartInit e) e vote s
           else Inr (s\<lparr>l_votesToSend := vq_Enqueue lvote_len vote (l_votesToSend s)\<rparr>))
      else Inr s)"

section \<open>Calls of the application\<close>

definition s_AvgMessageLen :: nat where
  "s_AvgMessageLen = 10 * 1024 * 1024"

definition lvote_AddRequest :: "u8 list \<Rightarrow> nat option \<Rightarrow> lvote \<Rightarrow> lvote res" where
  "lvote_AddRequest request cookie v =
     bindE (log_assert (\<not> lv_isReconfiguration v) ()) (\<lambda>_.
       Inr (v\<lparr>lv_requests := lv_requests v @ [(request, cookie)]\<rparr>))"

text \<open>The last vote of a queue is changed in place; its link keeps the length it was queued with.\<close>
definition vq_set_tail :: "'v \<Rightarrow> 'v VoteQueue \<Rightarrow> 'v VoteQueue" where
  "vq_set_tail v q = q\<lparr>vq_queue := butlast (vq_queue q) @ [(v, snd (last (vq_queue q)))]\<rparr>"

definition ReplicateRequest :: "u8 list \<Rightarrow> nat option \<Rightarrow> legislator \<Rightarrow> (RSLResponseCode \<times> legislator) res" where
  "ReplicateRequest request cookie s =
     bindE (log_assert (length request > 0) ()) (\<lambda>_.
     if \<not> l_isPrimary s then Inr (RSLNotPrimary, s)
     else if l_isShutting s then Inr (RSLShuttingDown, s)
     else bindE (case vq_Tail (l_votesToSend s) of
                   Some v \<Rightarrow>
                     if lv_isReconfiguration v \<or> lv_isExclusiveVote v \<or>
                        unat (lvote_len v) + length request + 4 > s_AvgMessageLen
                     then Inr None else Inr (Some v)
                 | None \<Rightarrow> Inr None) (\<lambda>lastVote.
          bindE (case lastVote of
                   Some v \<Rightarrow> Inr (v, l_votesToSend s)
                 | None \<Rightarrow> bindE (Vote_empty (l_version s) (l_memberId s) 0 0 NoBallot (l_primaryCookie s) False) (\<lambda>v.
                            Inr (v, vq_Enqueue lvote_len v (l_votesToSend s)))) (\<lambda>(v, q).
          bindE (lvote_AddRequest request cookie v) (\<lambda>v.
            Inr (RSLSuccess, s\<lparr>l_votesToSend := vq_set_tail v q\<rparr>)))))"

definition ReplicateRequestExclusiveVote ::
  "u8 list \<Rightarrow> nat option \<Rightarrow> bool \<Rightarrow> legislator \<Rightarrow> (RSLResponseCode \<times> legislator) res" where
  "ReplicateRequestExclusiveVote request cookie setShutdownAfter s =
     bindE (log_assert (length request > 0) ()) (\<lambda>_.
     if \<not> l_isPrimary s then Inr (RSLNotPrimary, s)
     else if l_isShutting s then Inr (RSLShuttingDown, s)
     else bindE (Vote_empty (l_version s) (l_memberId s) 0 0 NoBallot (l_primaryCookie s) False) (\<lambda>v.
          let v = v\<lparr>lv_isExclusiveVote := True\<rparr>; q = vq_Enqueue lvote_len v (l_votesToSend s) in
          bindE (lvote_AddRequest request cookie v) (\<lambda>v.
          let s = s\<lparr>l_votesToSend := vq_set_tail v q\<rparr> in
          Inr (RSLSuccess, if setShutdownAfter then s\<lparr>l_isShutting := True\<rparr> else s))))"

definition ChangeConfiguration :: "MemberSet \<Rightarrow> nat option \<Rightarrow> legislator \<Rightarrow> (RSLResponseCode \<times> legislator) res" where
  "ChangeConfiguration configuration cookie s =
     (if \<not> MemberSet_Verify (l_version s) configuration then Inr (RSLInvalidParameter, s)
      else if \<not> l_isPrimary s then Inr (RSLNotPrimary, s)
      else if l_isShutting s then Inr (RSLShuttingDown, s)
      else bindE (Vote_reconfiguration (l_version s) (MemberSet_Copy configuration MemberSet_new) cookie (l_primaryCookie s)) (\<lambda>v.
             Inr (RSLSuccess, s\<lparr>l_votesToSend := vq_Enqueue lvote_len v (l_votesToSend s)\<rparr>)))"

definition RelinquishPrimary :: lstep where
  "RelinquishPrimary s =
     (if l_version s < 5 then Inr s
      else if \<not> AmPrimary s then Inr s
      else bindE (Vote_empty (l_version s) (l_memberId s) 0 0 NoBallot (l_primaryCookie s) True) (\<lambda>v.
             Inr (s\<lparr>l_votesToSend := vq_Enqueue lvote_len v (l_votesToSend s)\<rparr>)))"

definition AttemptPromotion :: "legislator \<Rightarrow> legislator" where
  "AttemptPromotion s = s\<lparr>l_forceReelection := True\<rparr>"

end
