(* ===== verification/Legis_Laws.thy ===== *)
theory Legis_Laws
  imports Legis_Handlers
begin

text \<open>
  What a replica's log says about it.  A log is a history: it replays to a view
  of the replica (configuration number, highest ballot promised, decree and
  ballot of the last vote accepted), and every entry is legal in the view before
  it.  The invariant of the legislator is that its log replays to exactly its
  current state, and that every message in which it promises or accepts
  something was sent when the log already said so.
\<close>

section \<open>Histories\<close>

text \<open>Configuration number, m_maxBallot, and decree and ballot of m_maxAcceptedVote.\<close>
type_synonym pview = "u32 \<times> mid BallotNumber \<times> u64 \<times> mid BallotNumber"

definition view :: "legislator \<Rightarrow> pview" where
  "view s = (PaxosConfiguration s, l_maxBallot s, m_decree (l_maxAcceptedVote s), m_ballot (l_maxAcceptedVote s))"

fun replay1 :: "lmsg \<Rightarrow> pview \<Rightarrow> pview option" where
  "replay1 (VoteMsg v) (c, mb, d, b) =
     (if m_configurationNumber v = c \<and> IsNextDecree v d b \<and> \<not> IsSameDecree v d b
      then Some (c, max mb (m_ballot v), m_decree v, m_ballot v) else None)"
| "replay1 (PrepareM p) (c, mb, d, b) =
     (if m_configurationNumber p = c \<and> m_ballot p > mb then Some (c, m_ballot p, d, b) else None)"
| "replay1 (PlainMsg m) (c, mb, d, b) =
     (if m_configurationNumber m = c \<and> m_decree m = d \<and> m_ballot m = b
      then Some (c + 1, BallotNumber (m_ballotId mb + 1) (Mid []), d + 1, NoBallot) else None)"
| "replay1 _ _ = None"

fun replay :: "lmsg list \<Rightarrow> pview \<Rightarrow> pview option" where
  "replay [] p = Some p"
| "replay (m # ms) p = (case replay1 m p of None \<Rightarrow> None | Some p' \<Rightarrow> replay ms p')"

lemma replay_append: "replay (xs @ ys) p = (case replay xs p of None \<Rightarrow> None | Some q \<Rightarrow> replay ys q)"
  by (induction xs arbitrary: p) (auto split: option.splits)

lemma NoBallot_least [simp]: "NoBallot \<le> b"
  by (cases b) (auto simp: NoBallot_def less_eq_BallotNumber_def less_eq_mid_def less_mid_def word_gt_0)

fun good_view :: "pview \<Rightarrow> bool" where
  "good_view (c, mb, d, b) \<longleftrightarrow> c \<noteq> 0 \<and> d \<noteq> 0 \<and> b \<le> mb"

text \<open>Room for n more configurations and decrees before the counters wrap.\<close>
fun room :: "nat \<Rightarrow> pview \<Rightarrow> bool" where
  "room n (c, mb, d, b) \<longleftrightarrow> unat c + n < 2 ^ 32 \<and> unat d + n < 2 ^ 64"

lemma word_inc:
  fixes w :: "'a::len word"
  assumes "unat w + 1 < 2 ^ LENGTH('a)"
  shows "unat (w + 1) = unat w + 1 \<and> w + 1 \<noteq> 0"
proof -
  have "unat (w + 1) = unat w + 1" using assms by (simp add: unat_word_ariths)
  then show ?thesis by (metis add_is_0 one_neq_zero unat_0)
qed

lemma replay1_good:
  assumes "replay1 m p = Some q" "good_view p" "room (Suc n) p"
  shows "good_view q \<and> room n q"
proof -
  obtain c mb d b where p: "p = (c, mb, d, b)" by (cases p) auto
  have "unat (c + 1) = unat c + 1 \<and> c + 1 \<noteq> 0" by (rule word_inc) (use assms(3) p in simp)
  moreover have "unat (d + 1) = unat d + 1 \<and> d + 1 \<noteq> 0" by (rule word_inc) (use assms(3) p in simp)
  ultimately show ?thesis using assms by (cases m) (auto simp: p decree_defs split: if_splits)
qed

lemma replay_good:
  assumes "replay ms p = Some q" "good_view p" "room (length ms + n) p"
  shows "good_view q \<and> room n q"
  using assms
proof (induction ms arbitrary: p)
  case (Cons m ms)
  obtain p' where p': "replay1 m p = Some p'" "replay ms p' = Some q"
    using Cons.prems(1) by (auto split: option.splits)
  have "good_view p' \<and> room (length ms + n) p'" using replay1_good [OF p'(1)] Cons.prems(2,3) by simp
  then show ?case using Cons.IH [OF p'(2)] by simp
qed simp


section \<open>The invariant\<close>

text \<open>
  What a message sent with the given history behind it may say.  A VoteAccepted
  names the accepted vote at its ballot, which is the promised one; a
  NotAccepted names the promised ballot; a PrepareAccepted promises its ballot
  and carries the last accepted vote; a proposal is the last accepted vote.
\<close>
fun justified :: "pview option \<Rightarrow> lmsg \<Rightarrow> bool" where
  "justified (Some (c, mb, d, b)) (PlainMsg m) \<longleftrightarrow>
     (m_msgId m = Message_VoteAccepted \<longrightarrow>
        m_configurationNumber m = c \<and> m_ballot m = mb \<and> m_decree m = d \<and> b = mb) \<and>
     (m_msgId m = Message_NotAccepted \<longrightarrow>
        m_configurationNumber m = c \<and> m_ballot m = mb \<and> m_decree m = d)"
| "justified (Some (c, mb, d, b)) (PrepareAcceptedM m v) \<longleftrightarrow>
     m_configurationNumber m = c \<and> m_ballot m = mb \<and> m_decree v = d \<and> m_ballot v = b"
| "justified (Some (c, mb, d, b)) (VoteMsg v) \<longleftrightarrow> m_decree v = d \<and> m_ballot v = b"
| "justified (Some _) _ \<longleftrightarrow> True"
| "justified None _ \<longleftrightarrow> False"

text \<open>ks ! i is the number of log entries on disk when the i-th message was sent.\<close>
definition sent_ok :: "pview \<Rightarrow> lmsg list \<Rightarrow> packet list \<Rightarrow> bool" where
  "sent_ok p log sent \<longleftrightarrow> (\<exists>ks. length ks = length sent \<and> sorted ks \<and> (\<forall>k \<in> set ks. k \<le> length log) \<and>
     (\<forall>i < length sent. justified (replay (take (ks ! i) log) p) (p_msg (sent ! i))))"

definition Inv :: "pview \<Rightarrow> legislator \<Rightarrow> bool" where
  "Inv p s \<longleftrightarrow> good_view p \<and> replay (l_log s) p = Some (view s) \<and> sent_ok p (l_log s) (l_sent s)"

definition small :: "pview \<Rightarrow> legislator \<Rightarrow> bool" where
  "small p s \<longleftrightarrow> room (length (l_log s) + 1) p"

lemma sent_ok_log: "sent_ok p log sent \<Longrightarrow> sent_ok p (log @ ext) sent"
  unfolding sent_ok_def by (elim exE conjE, rename_tac ks, rule_tac x = ks in exI) (auto simp: trans_le_add1)

lemma sent_ok_send:
  assumes "sent_ok p log sent" "justified (replay log p) (p_msg pkt)"
  shows "sent_ok p log (sent @ [pkt])"
proof -
  obtain ks where ks: "length ks = length sent" "sorted ks" "\<forall>k \<in> set ks. k \<le> length log"
      "\<forall>i < length sent. justified (replay (take (ks ! i) log) p) (p_msg (sent ! i))"
    using assms(1) by (auto simp: sent_ok_def)
  then show ?thesis unfolding sent_ok_def using assms(2)
    by (intro exI [of _ "ks @ [length log]"]) (auto simp: sorted_append nth_append less_Suc_eq)
qed

lemma Inv_view: "Inv p s \<Longrightarrow> small p s \<Longrightarrow> good_view (view s) \<and> room 1 (view s)"
  unfolding Inv_def small_def using replay_good [of "l_log s" p "view s" 1] by blast

text \<open>The outcome r of an operation on s extends the log and keeps the invariant.\<close>
definition goes :: "pview \<Rightarrow> legislator \<Rightarrow> legislator res \<Rightarrow> bool" where
  "goes p s r \<longleftrightarrow> (\<forall>s'. r = Inr s' \<longrightarrow>
     (\<exists>ext. l_log s' = l_log s @ ext) \<and> (small p s' \<longrightarrow> Inv p s \<longrightarrow> Inv p s'))"

lemma small_prefix: "small p s' \<Longrightarrow> l_log s' = l_log s @ ext \<Longrightarrow> small p s"
  by (cases p) (auto simp: small_def)

lemma goes_Inl [rsl_intros]: "goes p s (Inl x)"
  by (simp add: goes_def)

lemma goes_refl [rsl_intros]: "goes p s (Inr s)"
  by (simp add: goes_def)

lemma goes_bind:
  assumes "goes p s r" "\<And>s1. r = Inr s1 \<Longrightarrow> goes p s1 (f s1)"
  shows "goes p s (bindE r f)"
  using assms unfolding goes_def
  by (cases r) (simp, metis (no_types, lifting) append.assoc bindE_simps(1) small_prefix)

lemma goes_assert: "(b \<Longrightarrow> goes p s (f ())) \<Longrightarrow> goes p s (bindE (log_assert b ()) (\<lambda>_. f ()))"
  by (cases b) (simp_all add: goes_Inl)

text \<open>The part of the state the invariant reads.\<close>
definition core :: "legislator \<Rightarrow> lmsg list \<times> packet list \<times> pview" where
  "core s = (l_log s, l_sent s, view s)"

lemma goes_core: "core s' = core s \<Longrightarrow> goes p s (Inr s')"
  by (auto simp: goes_def core_def Inv_def)

lemma goes_from: "core s' = core s \<Longrightarrow> goes p s' r \<Longrightarrow> goes p s r"
  by (auto simp: goes_def core_def Inv_def)

lemma goes_if [rsl_intros]: "(b \<Longrightarrow> goes p s r) \<Longrightarrow> (\<not> b \<Longrightarrow> goes p s r') \<Longrightarrow> goes p s (if b then r else r')"
  by simp

lemma goes_then: "goes p s (Inr s1) \<Longrightarrow> goes p s1 r \<Longrightarrow> goes p s r"
  using goes_bind [of p s "Inr s1" "\<lambda>_. r"] by simp

section \<open>Sending\<close>

text \<open>s' is s after sending msg to some addresses.\<close>
definition sent_only :: "lmsg \<Rightarrow> legislator \<Rightarrow> legislator \<Rightarrow> bool" where
  "sent_only msg s s' \<longleftrightarrow> l_log s' = l_log s \<and> view s' = view s \<and> length (l_replicas s') = length (l_replicas s) \<and>
     (\<exists>ps. l_sent s' = l_sent s @ ps \<and> (\<forall>q \<in> set ps. p_msg q = msg))"

lemma sent_only_refl [rsl_intros]: "sent_only msg s s"
  by (simp add: sent_only_def)

lemma sent_only_trans: "sent_only msg s s1 \<Longrightarrow> sent_only msg s1 s2 \<Longrightarrow> sent_only msg s s2"
  by (fastforce simp: sent_only_def)

lemma view_upd_replica [simp]: "view (upd_replica i f s) = view s"
  by (simp add: upd_replica_def view_def PaxosConfiguration_def)

lemma sent_only_SendMessage [rsl_intros]: "sent_only msg s (SendMessage ip port r msg c s)"
  by (cases r) (simp_all add: sent_only_def SendMessage_def upd_replica_def view_def PaxosConfiguration_def Let_def)

lemma sent_only_ToReplica [rsl_intros]: "sent_only msg s (SendMessageToReplica i msg s)"
  by (simp add: SendMessageToReplica_def Let_def sent_only_SendMessage)

lemma sent_only_ToIpPort [rsl_intros]: "sent_only msg s (SendMessageToIpPort ip port msg c s)"
  by (auto simp: SendMessageToIpPort_def intro: rsl_intros split: option.splits)

lemma sent_only_Response [rsl_intros]: "sent_only msg s (SendResponse ip port msg s)"
  by (simp add: SendResponse_def sent_only_ToIpPort)

lemma sent_only_Request [rsl_intros]: "sent_only msg s (SendRequestToReplica e i msg s)"
  by (simp add: SendRequestToReplica_def Let_def sent_only_ToReplica sent_only_refl)

lemma sent_only_fold:
  assumes "\<And>i s. sent_only msg s (f i s)"
  shows "sent_only msg s (fold f is s)"
  by (induction "is" arbitrary: s) (auto intro: sent_only_refl sent_only_trans [OF assms])

lemma sent_only_ToAll [rsl_intros]: "sent_only msg s (SendRequestToAll e msg s)"
  unfolding SendRequestToAll_def by (rule sent_only_fold) (simp add: sent_only_Request sent_only_refl)

lemma sent_only_ReSend [rsl_intros]: "sent_only msg s (ReSendRequest e msg t s)"
  unfolding ReSendRequest_def by (rule sent_only_fold) (simp add: sent_only_Request sent_only_refl Let_def)

lemma goes_sent:
  assumes "sent_only msg s s'" "justified (Some (view s)) msg"
  shows "goes p s (Inr s')"
proof -
  obtain ps where ps: "l_sent s' = l_sent s @ ps" "\<forall>q \<in> set ps. p_msg q = msg" "l_log s' = l_log s" "view s' = view s"
    using assms(1) by (auto simp: sent_only_def)
  have "sent_ok p (l_log s) (l_sent s @ qs)"
    if "Inv p s" "set qs \<subseteq> set ps" for qs
    using that(2)
  proof (induction qs rule: rev_induct)
    case Nil
    then show ?case using that(1) by (simp add: Inv_def)
  next
    case (snoc q qs)
    then have "sent_ok p (l_log s) ((l_sent s @ qs) @ [q])"
      using that(1) assms(2) ps(2) by (intro sent_ok_send) (auto simp: Inv_def)
    then show ?case by simp
  qed
  then show ?thesis using ps by (auto simp: goes_def Inv_def)
qed

lemma goes_sent_then: "sent_only msg s s1 \<Longrightarrow> justified (Some (view s)) msg \<Longrightarrow> goes p s1 r \<Longrightarrow> goes p s r"
  by (meson goes_sent goes_then)

lemma goes_core_sent: "core s1 = core s \<Longrightarrow> sent_only msg s1 s2 \<Longrightarrow> justified (Some (view s1)) msg \<Longrightarrow>
    core s3 = core s2 \<Longrightarrow> goes p s (Inr s3)"
  by (meson goes_core goes_sent goes_then)

lemma justified_other [simp]:
  "m_msgId m \<noteq> Message_VoteAccepted \<Longrightarrow> m_msgId m \<noteq> Message_NotAccepted \<Longrightarrow> justified (Some q) (PlainMsg m)"
  "justified (Some q) (PrepareM pm)" "justified (Some q) (StatusM sr)" "justified (Some q) (JoinM j)"
  by (cases q; simp)+

lemma InitMessage_simps [simp]:
  "m_version (InitMessage v i m d c b p) = v" "m_msgId (InitMessage v i m d c b p) = i"
  "m_memberId (InitMessage v i m d c b p) = m" "m_decree (InitMessage v i m d c b p) = d"
  "m_configurationNumber (InitMessage v i m d c b p) = c" "m_ballot (InitMessage v i m d c b p) = b"
  by (simp_all add: InitMessage_def)

lemma extend_simps [simp]:
  "m_version (Message.extend h x) = m_version h" "m_msgId (Message.extend h x) = m_msgId h"
  "m_memberId (Message.extend h x) = m_memberId h" "m_decree (Message.extend h x) = m_decree h"
  "m_configurationNumber (Message.extend h x) = m_configurationNumber h" "m_ballot (Message.extend h x) = m_ballot h"
  by (simp_all add: Message.defs)

lemma justified_not_accepted [simp]: "justified (Some (view s)) (not_accepted s)"
  by (simp add: not_accepted_def view_def)

lemma StatusQuery_justified [simp]: "justified (Some q) (StatusQuery s)"
  by (simp add: StatusQuery_def)

section \<open>Operations that leave the core alone\<close>

lemma core_simps [simp]:
  "core (s\<lparr>l_state := a\<rparr>) = core s" "core (s\<lparr>l_responseMap := b\<rparr>) = core s"
  "core (s\<lparr>l_statusMap := c\<rparr>) = core s" "core (s\<lparr>l_actionTimeout := d\<rparr>) = core s"
  "core (s\<lparr>l_nextElectionTime := d\<rparr>) = core s" "core (s\<lparr>l_executeQ := q\<rparr>) = core s"
  "core (s\<lparr>l_version := w\<rparr>) = core s" "core (s\<lparr>l_logFiles := fs\<rparr>) = core s" "core (s\<lparr>l_maxLogLen := x\<rparr>) = core s"
  "core (s\<lparr>l_highestDefunct := n\<rparr>) = core s" "core (s\<lparr>l_replicas := rs\<rparr>) = core s"
  "core (s\<lparr>l_calls := cs\<rparr>) = core s" "core (s\<lparr>l_isPrimary := y\<rparr>) = core s"
  "core (s\<lparr>l_outstandingVote := ov\<rparr>) = core s" "core (s\<lparr>l_oldFreshestVote := ov\<rparr>) = core s"
  "core (s\<lparr>l_votesToSend := vq\<rparr>) = core s" "core (s\<lparr>l_voteCache := vq\<rparr>) = core s"
  "core (s\<lparr>l_recvMsgQ := ms\<rparr>) = core s" "core (s\<lparr>l_forceReelection := y\<rparr>) = core s"
  "core (s\<lparr>l_IsTransitioningToPrimary := y\<rparr>) = core s" "core (s\<lparr>l_cpTimeout := d\<rparr>) = core s"
  "core (s\<lparr>l_copyCheckpointAtDecree := x\<rparr>) = core s" "core (s\<lparr>l_saveCheckpointAtDecree := x\<rparr>) = core s"
  "core (s\<lparr>l_mustCheckpoint := y\<rparr>) = core s" "core (s\<lparr>l_lastTimeJoinMessagesSent := d\<rparr>) = core s"
  "core (s\<lparr>l_prepareTimeout := d\<rparr>) = core s" "core (s\<lparr>l_lastPrepareMsg := pm\<rparr>) = core s"
  "core (s\<lparr>l_primaryCookie := pc\<rparr>) = core s" "core (s\<lparr>l_relinquishPrimary := y\<rparr>) = core s"
  "core (s\<lparr>l_callbackAfterVote := ov\<rparr>) = core s" "core (s\<lparr>l_stateConfiguration := ci\<rparr>) = core s"
  "core (s\<lparr>l_lastExecutedDecree := x\<rparr>) = core s" "core (s\<lparr>l_maxSeenBallot := bn\<rparr>) = core s"
  "core (s\<lparr>l_bootstrapMemberSet := bs\<rparr>) = core s" "core (s\<lparr>l_copyCheckpointThread := y\<rparr>) = core s"
  "core (s\<lparr>l_isShutting := y\<rparr>) = core s" "core (s\<lparr>l_checkpointAllowed := y\<rparr>) = core s"
  "core (s\<lparr>l_isSavingCheckpoint := y\<rparr>) = core s" "core (s\<lparr>l_checkpointSavedNotification := no\<rparr>) = core s"
  "core (s\<lparr>l_codexFiles := ns\<rparr>) = core s" "core (s\<lparr>l_logNumbers := ns\<rparr>) = core s"
  "core (s\<lparr>l_checkpointSize := x\<rparr>) = core s" "core (s\<lparr>l_checkpointedDecree := x\<rparr>) = core s"
  "core (s\<lparr>l_nextCheckpointTime := d\<rparr>) = core s"
  by (simp_all add: core_def view_def PaxosConfiguration_def)

lemma core_upd_replica [simp]: "core (upd_replica i f s) = core s"
  by (simp add: upd_replica_def)

lemma core_Secondary [simp]: "core (StartBeingStableSecondary s) = core s"
  by (simp add: StartBeingStableSecondary_def)

lemma core_Inactive [simp]: "core (SwitchToPaxosInactiveState s) = core s"
  by (simp add: SwitchToPaxosInactiveState_def)

lemma core_RequestCheckpoint [simp]: "core (RequestCheckpoint log s) = core s"
  by (simp add: RequestCheckpoint_def)

lemma CleanupLogs_core: "CleanupLogsAndCheckpoint e s = Inr s' \<Longrightarrow> core s' = core s"
  by (auto simp: CleanupLogsAndCheckpoint_def Let_def bindE_eq_Inr)

lemma core_CheckpointDone:
  assumes "CheckpointDone e d n s = Inr s'"
  shows "core s' = core s"
proof -
  obtain s1 where "CleanupLogsAndCheckpoint e s1 = Inr s'" "core s1 = core s"
    using assms by (auto simp: CheckpointDone_def Let_def split: if_splits)
  then show ?thesis using CleanupLogs_core by simp
qed

lemma core_SaveCheckpoint:
  assumes "SaveCheckpoint e v b s = Inr (r, s')"
  shows "core s' = core s"
proof (cases "b \<and> \<not> fst (e_trySaveState e)")
  case False
  then obtain s1 cs where "CheckpointDone e (m_decree v - 1) (snd (e_trySaveState e)) s = Inr s1" "s' = s1\<lparr>l_calls := cs\<rparr>"
    using assms unfolding SaveCheckpoint_def Let_def if_not_P [OF False] bindE_eq_Inr by blast
  then show ?thesis using core_CheckpointDone by simp
qed (use assms in \<open>auto simp: SaveCheckpoint_def Let_def bindE_eq_Inr\<close>)

lemma core_AddToExecutionQueue: "AddToExecutionQueue e v s = Inr s' \<Longrightarrow> core s' = core s"
  by (auto simp: AddToExecutionQueue_def Let_def bindE_eq_Inr)

lemma AddMessageToLog_shape: "AddMessageToLog m s = Inr s' \<Longrightarrow> \<exists>fs. s' = s\<lparr>l_logFiles := fs\<rparr>"
  by (auto simp: AddMessageToLog_def bindE_eq_Inr split: if_splits)

lemma RequestCheckpoint_simps [simp]:
  "l_maxAcceptedVote (RequestCheckpoint log s) = l_maxAcceptedVote s" "l_state (RequestCheckpoint log s) = l_state s"
  by (simp_all add: RequestCheckpoint_def)

lemma core_AddMessageToLog: "AddMessageToLog m s = Inr s' \<Longrightarrow> core s' = core s"
  by (auto simp: AddMessageToLog_def bindE_eq_Inr split: if_splits)

lemma core_eq: "core s' = core s \<Longrightarrow> l_log s' = l_log s \<and> l_sent s' = l_sent s \<and> view s' = view s \<and>
    PaxosConfiguration s' = PaxosConfiguration s \<and> l_maxBallot s' = l_maxBallot s \<and>
    m_decree (l_maxAcceptedVote s') = m_decree (l_maxAcceptedVote s) \<and>
    m_ballot (l_maxAcceptedVote s') = m_ballot (l_maxAcceptedVote s)"
  by (simp add: core_def view_def)


section \<open>Logging\<close>

lemma goes_logged:
  assumes "l_log s' = l_log s @ [m]" "l_sent s' = l_sent s"
    and "good_view (view s) \<Longrightarrow> replay1 m (view s) = Some (view s')"
  shows "goes p s (Inr s')"
proof -
  have "Inv p s'" if "small p s'" "Inv p s"
  proof -
    have "good_view (view s)" using Inv_view [OF that(2)] small_prefix [OF that(1) assms(1)] by blast
    then show ?thesis using that(2) assms sent_ok_log [of p "l_log s" "l_sent s" "[m]"]
      by (simp add: Inv_def replay_append)
  qed
  then show ?thesis using assms(1) by (auto simp: goes_def)
qed

lemma WriteLog_log: "WriteLog e m s = Inr s' \<Longrightarrow> s' = s\<lparr>l_log := l_log s @ [m]\<rparr>"
  by (auto simp: WriteLog_def bindE_eq_Inr)

lemma SetMaxBallot_simps [simp]:
  "l_log (SetMaxBallot e b s) = l_log s" "l_sent (SetMaxBallot e b s) = l_sent s"
  "l_maxBallot (SetMaxBallot e b s) = max (l_maxBallot s) b"
  "l_maxAcceptedVote (SetMaxBallot e b s) = l_maxAcceptedVote s"
  "PaxosConfiguration (SetMaxBallot e b s) = PaxosConfiguration s"
  "l_state (SetMaxBallot e b s) = l_state s" "l_memberId (SetMaxBallot e b s) = l_memberId s"
  by (auto simp: SetMaxBallot_def Let_def PaxosConfiguration_def max_def)

lemma config_accepted [simp]: "PaxosConfiguration (s\<lparr>l_maxAcceptedVote := v\<rparr>) = PaxosConfiguration s"
  by (simp add: PaxosConfiguration_def)

lemma view_log [simp]: "view (s\<lparr>l_log := ms\<rparr>) = view s" "PaxosConfiguration (s\<lparr>l_log := ms\<rparr>) = PaxosConfiguration s"
  by (simp_all add: view_def PaxosConfiguration_def)

lemma goes_LogPrepare:
  assumes "m_configurationNumber msg = PaxosConfiguration s"
  shows "goes p s (LogPrepare e msg s)"
proof (cases "m_ballot msg > l_maxBallot s")
  case True
  show ?thesis
  proof (cases "LogPrepare e msg s")
    case (Inr s')
    then have "AddMessageToLog (PrepareM msg)
        (SetMaxBallot e (m_ballot msg) (s\<lparr>l_log := l_log s @ [PrepareM msg]\<rparr>)) = Inr s'"
      using True by (auto simp: LogPrepare_def bindE_eq_Inr split: if_splits dest!: WriteLog_log)
    from core_eq [OF core_AddMessageToLog [OF this]]
    have "l_log s' = l_log s @ [PrepareM msg]" "l_sent s' = l_sent s"
      "view s' = (PaxosConfiguration s, m_ballot msg, m_decree (l_maxAcceptedVote s), m_ballot (l_maxAcceptedVote s))"
      using True by (auto simp: view_def max_def)
    then show ?thesis using True assms by (simp add: Inr) (rule goes_logged [where m = "PrepareM msg"]; simp add: view_def)
  qed (simp add: goes_Inl)
next
  case False
  then show ?thesis by (auto simp: LogPrepare_def intro: rsl_intros goes_assert)
qed

lemma UpdateDefunct_cases:
  "UpdateDefunctInfo init n s = Inr s' \<Longrightarrow> core s' = core s \<or> (PaxosConfiguration s \<le> n \<and> init s = Inr s')"
  by (auto simp: UpdateDefunctInfo_def split: if_splits)

lemma word_not_le_dec: "c \<noteq> 0 \<Longrightarrow> \<not> c \<le> c - (1 :: 'a::len word)"
  using word_less_inc [of "c - 1"] by (auto simp: not_le)

text \<open>The last vote accepted is the one LogVote was given.\<close>
lemma LogVote_accepted: "LogVote init e vote s = Inr s' \<Longrightarrow> l_maxAcceptedVote s' = vote"
  by (auto simp: LogVote_def Let_def bindE_eq_Inr split: if_splits dest!: AddMessageToLog_shape)

lemma LogVote_parts:
  assumes "LogVote init e vote s = Inr s'" "\<not> IsSameDecree (l_maxAcceptedVote s) (m_decree vote) (m_ballot vote)"
  shows "\<exists>s0 s3 s4 s5. IsNextDecree vote (m_decree (l_maxAcceptedVote s)) (m_ballot (l_maxAcceptedVote s)) \<and>
     core s0 = core s \<and>
     UpdateDefunctInfo init (m_configurationNumber vote - 1) (s0\<lparr>l_log := l_log s0 @ [VoteMsg vote]\<rparr>) = Inr s3 \<and>
     core s4 = core s3 \<and>
     AddMessageToLog (VoteMsg vote) (SetMaxBallot e (m_ballot vote) (s4\<lparr>l_maxAcceptedVote := vote\<rparr>)) = Inr s5 \<and>
     core s' = core s5"
proof -
  let ?sw = "SwitchLog e vote s"
  let ?f = "\<lambda>s. if ?sw then s\<lparr>l_logFiles := l_logFiles s @ [LogFile_new []]\<rparr> else s"
  have nxt: "IsNextDecree vote (m_decree (l_maxAcceptedVote s)) (m_ballot (l_maxAcceptedVote s))"
    using assms by (auto simp: LogVote_def Let_def bindE_eq_Inr)
  let ?s0 = "if ?sw then s\<lparr>l_maxLogLen := e_newLogLen e, l_logNumbers := insort_insert (m_decree vote) (l_logNumbers s)\<rparr> else s"
  from assms obtain s2 s3 s5 where p: "WriteLog e (VoteMsg vote) ?s0 = Inr s2"
      "UpdateDefunctInfo init (m_configurationNumber vote - 1) s2 = Inr s3"
      "AddMessageToLog (VoteMsg vote) (SetMaxBallot e (m_ballot vote) ((?f s3)\<lparr>l_maxAcceptedVote := vote\<rparr>)) = Inr s5"
      "s' = RequestCheckpoint (last (l_logFiles s5)) s5"
    by (cases ?sw) (auto simp: LogVote_def Let_def bindE_eq_Inr)
  then show ?thesis using WriteLog_log [OF p(1)] nxt
    by (intro exI [of _ ?s0] exI [of _ s3] exI [of _ "?f s3"] exI [of _ s5] conjI) simp_all
qed

text \<open>
  LogVote.  With the vote's configuration number equal to the replica's, and not
  zero, UpdateDefunctInfo cannot fall back to StartInitializing.
\<close>
lemma goes_LogVote:
  assumes init: "\<And>s. goes p s (init s)" and c: "m_configurationNumber vote = PaxosConfiguration s"
  shows "goes p s (LogVote init e vote s)"
proof (cases "LogVote init e vote s")
  case (Inr s')
  let ?acc = "l_maxAcceptedVote s"
  show ?thesis
  proof (cases "IsSameDecree ?acc (m_decree vote) (m_ballot vote)")
    case True
    then show ?thesis using Inr
      by (auto simp: LogVote_def Let_def core_def view_def PaxosConfiguration_def IsSameDecree_def intro!: goes_core)
  next
    case False
    then obtain s0 s3 s4 s5 where nxt: "IsNextDecree vote (m_decree ?acc) (m_ballot ?acc)" and s0: "core s0 = core s"
        and s3: "UpdateDefunctInfo init (m_configurationNumber vote - 1) (s0\<lparr>l_log := l_log s0 @ [VoteMsg vote]\<rparr>) = Inr s3"
        and s4: "core s4 = core s3" "AddMessageToLog (VoteMsg vote)
             (SetMaxBallot e (m_ballot vote) (s4\<lparr>l_maxAcceptedVote := vote\<rparr>)) = Inr s5" "core s' = core s5"
      using LogVote_parts [OF Inr False] by blast
    let ?s2 = "s0\<lparr>l_log := l_log s0 @ [VoteMsg vote]\<rparr>"
    note c0 = core_eq [OF s0] and c4 = core_eq [OF s4(1)] and c5 = core_eq [OF s4(3)]
      and a5 = core_eq [OF core_AddMessageToLog [OF s4(2)]]
    have fin: "l_log s' = l_log s3" "l_sent s' = l_sent s3"
        "view s' = (PaxosConfiguration s3, max (l_maxBallot s3) (m_ballot vote), m_decree vote, m_ballot vote)"
      using c4 c5 a5 by (simp_all add: view_def)
    have keep: "goes p s (Inr s')" if "core s3 = core ?s2"
    proof (rule goes_logged)
      show "l_log s' = l_log s @ [VoteMsg vote]" "l_sent s' = l_sent s" using core_eq [OF that] c0 fin by simp_all
      have "view s' = (PaxosConfiguration s, max (l_maxBallot s) (m_ballot vote), m_decree vote, m_ballot vote)"
        using core_eq [OF that] c0 fin(3) by simp
      then show "replay1 (VoteMsg vote) (view s) = Some (view s')"
        using False nxt c by (auto simp: view_def IsSameDecree_def)
    qed
    show ?thesis
    proof (cases "core s3 = core ?s2")
      case True
      then show ?thesis using keep by (simp add: Inr)
    next
      case ne: False
      then have st: "PaxosConfiguration ?s2 \<le> m_configurationNumber vote - 1" "init ?s2 = Inr s3"
        using UpdateDefunct_cases [OF s3] by auto
      then obtain ext where ext: "l_log s3 = l_log ?s2 @ ext" using init [of ?s2] by (auto simp: goes_def)
      have e: "l_log s' = l_log s @ VoteMsg vote # ext" using ext c0 fin(1) by simp
      have "small p s" if "small p s'" by (rule small_prefix [OF that e])
      then have "\<not> (small p s' \<and> Inv p s)"
        using Inv_view [of p s] word_not_le_dec [of "PaxosConfiguration s"] st(1) c c0
        by (auto simp: view_def)
      then show ?thesis using e by (auto simp: goes_def Inr)
    qed
  qed
qed (simp add: goes_Inl)


section \<open>Changing the configuration\<close>

lemma Vote_empty_hdr: "Vote_empty version m d c b cookie r = Inr v \<Longrightarrow>
    m_decree v = d \<and> m_ballot v = b \<and> m_configurationNumber v = c \<and> \<not> lv_isReconfiguration v \<and> lv_members v = None"
  by (auto simp: Vote_empty_def lvote_init_def bindE_eq_Inr) (simp_all add: Message.defs lvote.defs InitMessage_def)

lemma ChangePaxos_parts:
  "(\<exists>x. ChangePaxosConfiguration init e conf s = Inl x) \<or>
   (\<exists>s5. l_log s5 = l_log s \<and> l_sent s5 = l_sent s \<and>
      view s5 = (ci_configurationNumber conf, BallotNumber (m_ballotId (l_maxBallot s) + 1) (Mid []),
                 ci_initialDecree conf, NoBallot) \<and> \<not> lv_isReconfiguration (l_maxAcceptedVote s5) \<and>
      (ChangePaxosConfiguration init e conf s = Inr (SwitchToPaxosInactiveState s5) \<or>
       ChangePaxosConfiguration init e conf s = init s5))"
proof (cases "Vote_empty (l_version s) (l_memberId s) (ci_initialDecree conf) 0 NoBallot (l_primaryCookie s) False")
  case (Inl x)
  then show ?thesis by (simp add: ChangePaxosConfiguration_def)
next
  case (Inr v)
  show ?thesis
  proof (cases "vq_Clear (l_voteCache s)")
    case (Inr cache)
    let ?s5 = "s\<lparr>l_paxosConfiguration := conf, l_maxSeenBallot := NoBallot,
        l_maxBallot := BallotNumber (m_ballotId (l_maxBallot s) + 1) (Mid []), l_maxAcceptedVote := v,
        l_lastTimeJoinMessagesSent := 0, l_replicas := new_replicas e (l_memberId s) (ci_memberSet conf),
        l_voteCache := cache, l_recvMsgQ := []\<rparr>"
    have "ChangePaxosConfiguration init e conf s =
        (if ms_includes (l_memberId s) (ci_memberSet conf) then init ?s5 else Inr (SwitchToPaxosInactiveState ?s5))"
      using Inr \<open>Vote_empty _ _ _ _ _ _ _ = Inr v\<close> by (simp add: ChangePaxosConfiguration_def Let_def)
    then show ?thesis
      using Vote_empty_hdr [OF \<open>Vote_empty _ _ _ _ _ _ _ = Inr v\<close>]
      by (intro disjI2 exI [of _ ?s5]) (simp add: view_def PaxosConfiguration_def)
  qed (use Inr in \<open>simp add: ChangePaxosConfiguration_def Let_def\<close>)
qed

lemma goes_LogReconfigurationDecision:
  assumes init: "\<And>s. goes p s (init s)"
  shows "goes p s (LogReconfigurationDecision init e decision s)"
proof (cases "LogReconfigurationDecision init e decision s")
  case (Inr s')
  let ?acc = "l_maxAcceptedVote s"
  show ?thesis
  proof (cases "m_decree decision \<noteq> m_decree ?acc \<or> m_ballot decision \<noteq> m_ballot ?acc")
    case True
    then show ?thesis by (simp add: LogReconfigurationDecision_def goes_refl)
  next
    case False
    then obtain members s2 s3 where st: "m_configurationNumber decision = PaxosConfiguration s"
        "AddToExecutionQueue e ?acc (s\<lparr>l_log := l_log s @ [PlainMsg decision]\<rparr>) = Inr s2"
        "AddMessageToLog (PlainMsg decision) s2 = Inr s3"
        "ChangePaxosConfiguration init e \<lparr>ci_configurationNumber = PaxosConfiguration s + 1,
             ci_initialDecree = m_decree ?acc + 1, ci_memberSet = members\<rparr> s3 = Inr s'"
      using Inr by (auto simp: LogReconfigurationDecision_def Let_def bindE_eq_Inr split: option.splits dest!: WriteLog_log)
    note c = core_eq [OF core_AddToExecutionQueue [OF st(2)]] core_eq [OF core_AddMessageToLog [OF st(3)]]
    obtain s5 where s5: "l_log s5 = l_log s3" "l_sent s5 = l_sent s3"
        "view s5 = (PaxosConfiguration s + 1, BallotNumber (m_ballotId (l_maxBallot s3) + 1) (Mid []), m_decree ?acc + 1, NoBallot)"
        "Inr s' = Inr (SwitchToPaxosInactiveState s5) \<or> Inr s' = init s5"
      using ChangePaxos_parts [of init e "\<lparr>ci_configurationNumber = PaxosConfiguration s + 1,
             ci_initialDecree = m_decree ?acc + 1, ci_memberSet = members\<rparr>" s3] st(4) by auto
    have "goes p s (Inr s5)"
      by (rule goes_logged [where m = "PlainMsg decision"]) (use s5 c False st(1) in \<open>auto simp: view_def\<close>)
    moreover have "goes p s5 (Inr s')" using s5(4) init [of s5] by (auto intro: goes_core)
    ultimately show ?thesis using goes_then by (simp add: Inr)
  qed
qed (simp add: goes_Inl)

lemma core_PassAccepted:
  assumes "PassAccepted e vote s = Inr s'"
  shows "core s' = core s"
proof (cases "m_decree vote = m_decree (l_maxAcceptedVote s) + 1")
  case True
  then obtain s1 t where "AddToExecutionQueue e (l_maxAcceptedVote s) s = Inr s1" "s' = s1\<lparr>l_nextElectionTime := t\<rparr>"
    using assms by (auto simp: PassAccepted_def Let_def bindE_eq_Inr)
  then show ?thesis using core_AddToExecutionQueue by simp
qed (use assms in \<open>simp add: PassAccepted_def\<close>)

lemma goes_LogAndAcceptVote:
  assumes init: "\<And>s. goes p s (init s)"
  shows "goes p s (LogAndAcceptVote init e vote s)"
proof (cases "m_configurationNumber vote = PaxosConfiguration s")
  case True
  then have "goes p s1 (LogVote init e vote s1)" if "PassAccepted e vote s = Inr s1" for s1
    using goes_LogVote [OF init] core_eq [OF core_PassAccepted [OF that]] by simp
  moreover have "goes p s (PassAccepted e vote s)"
    using core_PassAccepted by (cases "PassAccepted e vote s") (auto simp: goes_Inl intro: goes_core)
  ultimately show ?thesis unfolding LogAndAcceptVote_def by (intro goes_assert goes_bind)
next
  case False
  then show ?thesis unfolding LogAndAcceptVote_def by (intro goes_assert) simp
qed

lemma LogAndAcceptVote_accepted: "LogAndAcceptVote init e vote s = Inr s' \<Longrightarrow> l_maxAcceptedVote s' = vote"
  by (auto simp: LogAndAcceptVote_def Let_def bindE_eq_Inr dest!: LogVote_accepted)


section \<open>Proposing\<close>

lemma goes_val: "(\<And>x. r = Inr x \<Longrightarrow> goes p s (f x)) \<Longrightarrow> goes p s (bindE r f)"
  by (cases r) (simp_all add: goes_Inl)

lemma goes_LogVote_from:
  assumes "\<And>s. goes p s (init s)" "core s1 = core s" "m_configurationNumber vote = PaxosConfiguration s"
  shows "goes p s (LogVote init e vote s1)"
  using goes_from [OF assms(2)] goes_LogVote [of p init vote s1] assms core_eq [OF assms(2)] by simp

lemma goes_AddToExecutionQueue: "goes p s (AddToExecutionQueue e v s)"
  by (cases "AddToExecutionQueue e v s") (auto simp: goes_Inl dest: core_AddToExecutionQueue intro: goes_core)

lemma goes_SendAndLog:
  assumes "\<And>s. goes p s (init s)"
  shows "goes p s (SendAndLogReconfigurationDecision init e decree ballot s)"
  unfolding SendAndLogReconfigurationDecision_def Let_def
  by (rule goes_sent_then [OF sent_only_ToAll _ goes_LogReconfigurationDecision [OF assms]]) simp

lemma config_same [simp]:
  "PaxosConfiguration (s\<lparr>l_responseMap := x\<rparr>) = PaxosConfiguration s"
  "PaxosConfiguration (s\<lparr>l_relinquishPrimary := y\<rparr>) = PaxosConfiguration s"
  by (simp_all add: PaxosConfiguration_def)

lemma goes_propose:
  assumes init: "\<And>s. goes p s (init s)" and c: "m_configurationNumber vote = PaxosConfiguration s"
  shows "goes p s (propose init e vote s)"
proof -
  note lv = goes_LogVote_from [OF init _ c]
  have a: "goes p s (bindE (LogVote init e vote (s\<lparr>l_outstandingVote := Some vote,
                    l_actionTimeout := e_now e + HRTIME_SECONDS 1\<rparr>)) (\<lambda>s. Inr (SendRequestToAll e (VoteMsg vote) s)))"
    by (intro goes_bind lv goes_sent [OF sent_only_ToAll])
      (simp_all add: view_def LogVote_accepted)
  have b: "goes p s (bindE (LogVote init e vote s)
             (SendAndLogReconfigurationDecision init e (m_decree vote) (m_ballot vote)))"
    by (intro goes_bind lv goes_SendAndLog init) simp
  have c: "goes p s (bindE (LogVote init e vote s) (\<lambda>s.
           bindE (AddToExecutionQueue e vote s) (\<lambda>s. Inr (s\<lparr>l_actionTimeout := I64_MAX\<rparr>))))"
    by (intro goes_bind lv goes_AddToExecutionQueue goes_core) simp_all
  show ?thesis unfolding propose_def using a b c by simp
qed

lemma goes_SendNextVote:
  assumes "\<And>s. goes p s (init s)"
  shows "goes p s (SendNextVote init e vote s)"
  unfolding SendNextVote_def Let_def
  by (intro goes_assert goes_val goes_if goes_core goes_from [OF _ goes_propose [OF assms]])
    (simp_all add: stamped_def)

lemma goes_StartBeingStablePrimary:
  assumes "\<And>s. goes p s (init s)"
  shows "goes p s (StartBeingStablePrimary init e s)"
proof (cases "l_oldFreshestVote s")
  case None
  then show ?thesis by (simp add: StartBeingStablePrimary_def Let_def) (intro goes_val goes_Inl)
next
  case (Some old)
  have "goes p s (bindE (SendNextVote init e v t) (\<lambda>s. Inr (s\<lparr>l_oldFreshestVote := None\<rparr>)))" if "core t = core s" for v t
    by (rule goes_bind [OF goes_from [OF that goes_SendNextVote [OF assms]]]) (simp add: goes_core)
  then show ?thesis using Some
    by (simp add: StartBeingStablePrimary_def Let_def) (rule goes_val, rule goes_val, simp)
qed

lemma goes_send_prepare:
  assumes "\<And>s. goes p s (init s)" "m_configurationNumber pm = PaxosConfiguration s"
  shows "goes p s (send_prepare init e pm s)"
proof -
  have "goes p s (if QuorumSize t = 1 then bindE (LogPrepare e pm t) (StartBeingStablePrimary init e)
        else LogPrepare e pm (SendRequestToAll e (PrepareM pm) t))"
    if t: "core t = core s" for t
  proof (rule goes_from [OF t], rule goes_if)
    have c: "m_configurationNumber pm = PaxosConfiguration t" using core_eq [OF t] assms(2) by simp
    show "goes p t (bindE (LogPrepare e pm t) (StartBeingStablePrimary init e))"
      by (intro goes_bind goes_LogPrepare c goes_StartBeingStablePrimary assms(1))
    have "view (SendRequestToAll e (PrepareM pm) t) = view t"
      using sent_only_ToAll [of "PrepareM pm" t e] by (simp add: sent_only_def)
    then have v: "PaxosConfiguration (SendRequestToAll e (PrepareM pm) t) = PaxosConfiguration t" by (simp add: view_def)
    show "goes p t (LogPrepare e pm (SendRequestToAll e (PrepareM pm) t))"
      by (rule goes_sent_then [OF sent_only_ToAll _ goes_LogPrepare]) (simp_all add: c v)
  qed
  then show ?thesis unfolding send_prepare_def Let_def by simp
qed

lemma own_prepare_config [simp]: "m_configurationNumber (own_prepare b s) = PaxosConfiguration s"
  by (simp add: own_prepare_def Let_def)

lemma goes_StartPreparing:
  assumes "\<And>s. goes p s (init s)"
  shows "goes p s (StartPreparing init e s)"
  unfolding StartPreparing_def Let_def
  by (intro goes_if goes_assert goes_send_prepare assms own_prepare_config
      goes_from [OF _ goes_send_prepare [OF assms own_prepare_config]]) simp

lemma goes_MoveToSecondaryOrPrepare:
  assumes "\<And>s. goes p s (init s)"
  shows "goes p s (MoveToSecondaryOrPrepare init e s)"
  unfolding MoveToSecondaryOrPrepare_def Let_def
  by (cases "e_CanBecomePrimary e")
    (auto intro!: goes_core goes_from [OF _ goes_StartPreparing [OF assms]])

lemma goes_StartInitializing: "goes p s (StartInitializing n e s)"
proof (induction n arbitrary: s)
  case (Suc n)
  show ?case
    by (simp add: Let_def)
      (auto intro!: goes_from [OF _ goes_MoveToSecondaryOrPrepare [OF Suc]] goes_core_sent [OF _ sent_only_ToAll _ refl])
qed (simp add: goes_Inl)

lemma goes_StartInit [rsl_intros]: "goes p s (StartInit e s)"
  by (simp add: StartInit_def goes_StartInitializing)


section \<open>Handlers\<close>

lemma core_ExecuteVote: "ExecuteVote e v s = Inr (b, s') \<Longrightarrow> core s' = core s"
  by (auto simp: ExecuteVote_def Let_def bindE_eq_Inr split: if_splits option.splits)

lemma core_ExecuteHead:
  assumes "ExecuteHead e s = Inr s'"
  shows "core s' = core s"
proof (cases "eq_Head (l_executeQ s)")
  case (Some vote)
  then obtain b s1 q where "ExecuteVote e vote s = Inr (b, s1)"
      "s' = s1\<lparr>l_executeQ := q\<rparr> \<or>
       s' = s1\<lparr>l_executeQ := q, l_saveCheckpointAtDecree := l_lastExecutedDecree s1, l_mustCheckpoint := True\<rparr>"
    using assms by (auto simp: ExecuteHead_def Let_def bindE_eq_Inr split: if_splits)
  then show ?thesis using core_ExecuteVote by fastforce
qed (use assms in \<open>simp add: ExecuteHead_def\<close>)

lemma core_WaitExecuted: "WaitExecuted n e s = Inr s' \<Longrightarrow> core s' = core s"
proof (induction n arbitrary: s)
  case (Suc n)
  then show ?case using core_ExecuteHead by (force simp: bindE_eq_Inr split: if_splits)
qed (simp split: if_splits)

lemma core_AbortReplicateRequests:
  assumes "AbortReplicateRequests e b s = Inr s'"
  shows "core s' = core s"
proof -
  obtain s1 where s1: "WaitExecuted (length (vq_queue (eq_toExecuteQ (l_executeQ s)))) e s = Inr s1"
    using assms by (auto simp: AbortReplicateRequests_def bindE_eq_Inr)
  then have "core s' = core s1"
    using assms by (auto simp: AbortReplicateRequests_def bindE_eq_Inr Let_def split: option.splits if_splits)
  then show ?thesis using core_WaitExecuted [OF s1] by simp
qed

lemma core_CheckNotifyStatus:
  assumes "CheckNotifyStatus e b s = Inr s'"
  shows "core s' = core s"
proof -
  obtain s1 where "core s1 = core s" "s' = (if l_IsTransitioningToPrimary s1 then s1\<lparr>l_IsTransitioningToPrimary := False\<rparr> else s1)"
    using assms by (fastforce simp: CheckNotifyStatus_def Let_def bindE_eq_Inr split: if_splits
        dest!: core_AbortReplicateRequests)
  then show ?thesis by simp
qed

lemma goes_CheckNotifyStatus [rsl_intros]: "goes p s (CheckNotifyStatus e b s)"
  by (cases "CheckNotifyStatus e b s") (auto simp: goes_Inl dest: core_CheckNotifyStatus intro: goes_core)

lemma goes_Defunct: "goes p s (Inr (SendDefunctConfigurationMessage ip port c s))"
  unfolding SendDefunctConfigurationMessage_def by (rule goes_sent [OF sent_only_ToIpPort]) simp

lemma goes_JoinRequest: "goes p s (Inr (SendJoinRequestMessage n ip port c s))"
  unfolding SendJoinRequestMessage_def by (rule goes_sent [OF sent_only_ToIpPort]) simp

text \<open>A message that passes is of the replica's configuration; nothing else changes but m_maxSeenBallot.\<close>
lemma VerifyMessage_ok:
  assumes "VerifyMessage msg s = (ok, s')"
  shows "goes p s (Inr s')" "ok \<Longrightarrow> core s' = core s \<and> m_configurationNumber msg = PaxosConfiguration s \<and>
      m_memberId msg \<noteq> l_memberId s \<and> l_state s' = l_state s"
  using assms
  by (auto simp: VerifyMessage_def Let_def upd_replica_def split: if_splits option.splits
      intro: goes_Defunct goes_JoinRequest goes_core)

definition goes_loop :: "pview \<Rightarrow> legislator \<Rightarrow> ('a \<times> 'b \<times> legislator) res \<Rightarrow> bool" where
  "goes_loop p s r \<longleftrightarrow> goes p s (bindE r (\<lambda>(a, b, s'). Inr s'))"

lemma goes_loop_simps [simp]:
  "goes_loop p s (Inr (a, b, s')) \<longleftrightarrow> goes p s (Inr s')" "goes_loop p s (Inl x)"
  by (simp_all add: goes_loop_def goes_Inl)

lemma goes_loop_bind:
  "goes p s r \<Longrightarrow> (\<And>s1. r = Inr s1 \<Longrightarrow> goes_loop p s1 (f s1)) \<Longrightarrow> goes_loop p s (bindE r f)"
  unfolding goes_loop_def bindE_assoc by (rule goes_bind)

lemma goes_loop_val: "(\<And>x. r = Inr x \<Longrightarrow> goes_loop p s (f x)) \<Longrightarrow> goes_loop p s (bindE r f)"
  by (cases r) simp_all

lemma goes_loop_if: "(b \<Longrightarrow> goes_loop p s r) \<Longrightarrow> (\<not> b \<Longrightarrow> goes_loop p s r') \<Longrightarrow> goes_loop p s (if b then r else r')"
  by simp

lemma goes_loop_then: "goes p s (Inr s1) \<Longrightarrow> goes_loop p s1 r \<Longrightarrow> goes_loop p s r"
  unfolding goes_loop_def by (rule goes_then)

text \<open>The answer to a vote that has just been logged is justified by the log.\<close>
lemma goes_reply:
  assumes acc: "l_maxAcceptedVote s = vote" and nxt: "\<And>s. goes_loop p s (nxt s)"
  shows "goes_loop p s (reply_to_vote e vote nxt s)"
proof (cases "vote_answer e vote s")
  case (Inr a)
  obtain msgId send where a: "a = (msgId, send)" by (cases a) auto
  let ?msg = "PlainMsg (InitMessage (l_version s) msgId (l_memberId s) (m_decree vote) (PaxosConfiguration s)
      (l_maxBallot s) (l_votePayload s))"
  let ?s = "SendResponse (m_remoteIP vote) (m_remotePort vote) ?msg s"
  have "justified (Some (view s)) ?msg" if "m_ballot vote \<le> l_maxBallot s"
    using that Inr acc by (auto simp: a vote_answer_def bindE_eq_Inr view_def order_le_less split: if_splits)
  moreover have "m_ballot vote \<le> l_maxBallot s" if "Inv p s" "small p s"
    using Inv_view [OF that] acc by (simp add: view_def)
  ultimately have g: "goes p s (Inr ?s)"
    using goes_sent [OF sent_only_Response [of ?msg s]] sent_only_Response [of ?msg s] small_prefix [of p ?s s "[]"]
    by (fastforce simp: goes_def sent_only_def)
  have "goes_loop p s (nxt ?s)" "goes_loop p s (Inr (True, True, ?s\<lparr>l_forceReelection := True\<rparr>))"
    using goes_loop_then [OF g nxt] goes_then [OF g goes_core [OF core_simps(19)]] by simp_all
  then show ?thesis using acc nxt by (simp add: reply_to_vote_def Inr a Let_def)
qed (simp add: reply_to_vote_def)

lemma goes_new_votes: "goes_loop p s (new_votes_loop e votes acc s)"
proof (induction votes arbitrary: acc s)
  case Nil
  then show ?case by (simp add: goes_refl)
next
  case (Cons vote votes)
  obtain ok s0 where v: "VerifyMessage vote s = (ok, s0)" by (cases "VerifyMessage vote s") auto
  note ih = Cons.IH
  have low: "goes_loop p s0 (new_votes_loop e votes acc
      (if b then SendResponse (m_remoteIP vote) (m_remotePort vote) (not_accepted s0) s0 else s0))" for b
    by (cases b) (simp_all add: ih, rule goes_loop_then [OF goes_sent [OF sent_only_Response] ih], simp)
  let ?pre = "if AmPrimary s0 \<and> m_ballot vote > l_maxBallot s0
      then CheckNotifyStatus e False (StartBeingStableSecondary s0) else Inr s0"
  have pre: "goes p s0 ?pre"
    by (intro goes_if goes_refl goes_from [OF core_Secondary goes_CheckNotifyStatus])
  have accept: "goes_loop p s0 (bindE ?pre (\<lambda>s. bindE (LogAndAcceptVote (StartInit e) e vote s) (\<lambda>s.
           if votes = [] \<or> m_remoteIP (hd votes) \<noteq> m_remoteIP vote \<or> m_remotePort (hd votes) \<noteq> m_remotePort vote
           then reply_to_vote e vote (new_votes_loop e votes True) s else new_votes_loop e votes True s)))"
    by (rule goes_loop_bind [OF pre], rule goes_loop_bind [OF goes_LogAndAcceptVote [OF goes_StartInit]])
      (use goes_reply [OF LogAndAcceptVote_accepted] ih in auto)
  have behind: "goes_loop p s0 (bindE (StartInit e s0) (\<lambda>s. Inr (acc, True, s)))"
    by (rule goes_loop_bind [OF goes_StartInit]) (simp add: goes_refl)
  show ?case unfolding new_votes_loop.simps v prod.case Let_def
    by (rule goes_loop_then [OF VerifyMessage_ok(1) [OF v]], intro goes_loop_if ih low accept behind)
qed

lemma goes_RecordVoteAccepted: "goes p s (RecordVoteAcceptedFromReplica e msg s)"
  by (cases "GetReplica (m_memberId msg) (m_remoteIP msg) s")
    (simp_all add: RecordVoteAcceptedFromReplica_def goes_Inl goes_core)

lemma goes_HandleVoteAccepted: "goes p s (HandleVoteAcceptedMsg e msg s)"
  unfolding HandleVoteAcceptedMsg_def Let_def
proof (rule goes_bind)
  show "goes p s (if AmPrimary s then RecordVoteAcceptedFromReplica e msg s else Inr s)"
    by (intro goes_if goes_RecordVoteAccepted goes_refl)
  fix s1
  show "goes p s1 (case l_outstandingVote s1 of None \<Rightarrow> Inr s1 | Some out \<Rightarrow>
      if AmPrimary s1 \<and> IsSameDecree msg (m_decree (l_maxAcceptedVote s1)) (l_maxBallot s1) \<and>
         IsSameDecree out (m_decree (l_maxAcceptedVote s1)) (l_maxBallot s1)
      then bindE (log_assert (l_maxBallot s1 = m_ballot (l_maxAcceptedVote s1)) ()) (\<lambda>_.
           if unat (QuorumSize (s1\<lparr>l_responseMap := List.insert (m_memberId msg) (l_responseMap s1)\<rparr>) - 1)
              \<le> length (l_responseMap (s1\<lparr>l_responseMap := List.insert (m_memberId msg) (l_responseMap s1)\<rparr>))
           then if lv_isReconfiguration (l_maxAcceptedVote s1)
                then SendAndLogReconfigurationDecision (StartInit e) e (m_decree (l_maxAcceptedVote s1))
                       (m_ballot (l_maxAcceptedVote s1))
                       (s1\<lparr>l_responseMap := List.insert (m_memberId msg) (l_responseMap s1),
                           l_outstandingVote := None, l_actionTimeout := I64_MAX\<rparr>)
                else if GetRelinquishPrimary (l_maxAcceptedVote s1) then Inl ShutDownCalled
                else AddToExecutionQueue e (l_maxAcceptedVote s1)
                       (s1\<lparr>l_responseMap := List.insert (m_memberId msg) (l_responseMap s1),
                           l_outstandingVote := None, l_actionTimeout := I64_MAX\<rparr>)
           else Inr (s1\<lparr>l_responseMap := List.insert (m_memberId msg) (l_responseMap s1)\<rparr>))
      else Inr s1)"
    by (cases "l_outstandingVote s1")
      (auto intro!: goes_refl goes_val goes_Inl goes_core goes_from [OF _ goes_SendAndLog [OF goes_StartInit]]
        goes_from [OF _ goes_AddToExecutionQueue])
qed

lemma goes_HandleNewVotes:
  assumes "HandleNewVotes e votes s = Inr (rest, s')"
  shows "goes p s (Inr s')"
proof (cases "votes = [] \<or> l_relinquishPrimary s")
  case False
  then obtain a b s1 where l: "new_votes_loop e votes False s = Inr (a, b, s1)"
      and s': "s' = (if \<not> b \<and> a then StartBeingStableSecondary s1 else s1)"
    using assms by (auto simp: HandleNewVotes_def bindE_eq_Inr)
  have "goes p s (Inr s1)" using goes_new_votes [of p s e votes False] by (simp add: l)
  then show ?thesis using goes_then [OF _ goes_core] s' by fastforce
qed (use assms in \<open>auto simp: HandleNewVotes_def goes_refl split: if_splits\<close>)

lemma LogPrepare_ballot:
  assumes "LogPrepare e msg s = Inr s'"
  shows "l_maxBallot s' = m_ballot msg \<and> PaxosConfiguration s' = PaxosConfiguration s"
proof (cases "m_ballot msg > l_maxBallot s")
  case True
  then have "AddMessageToLog (PrepareM msg) (SetMaxBallot e (m_ballot msg) (s\<lparr>l_log := l_log s @ [PrepareM msg]\<rparr>)) = Inr s'"
    using assms by (auto simp: LogPrepare_def bindE_eq_Inr split: if_splits dest!: WriteLog_log)
  from core_eq [OF core_AddMessageToLog [OF this]] True show ?thesis by (simp add: max_absorb2 order_less_imp_le)
qed (use assms in \<open>auto simp: LogPrepare_def bindE_eq_Inr split: if_splits\<close>)

text \<open>A prepare is answered with a promise only after the promise is in the log.\<close>
lemma goes_HandlePrepare:
  assumes c: "m_configurationNumber msg = PaxosConfiguration s"
  shows "goes p s (HandlePrepareMsg e msg s)"
proof -
  have na: "goes p s (Inr (if b then SendResponse ip port (not_accepted s) s else s))" for b ip port
    by (cases b) (simp_all add: goes_refl goes_sent [OF sent_only_Response])
  let ?fin = "\<lambda>s. if m_decree msg > m_decree (l_maxAcceptedVote s) then StartInit e s
              else Inr (StartBeingStableSecondary s)"
  let ?pa = "\<lambda>s. PrepareAcceptedM (InitMessage (l_version s) Message_PrepareAccepted (l_memberId s)
                              (m_decree msg) (PaxosConfiguration s) (m_ballot msg) 0) (l_maxAcceptedVote s)"
  have fin: "goes p s1 (?fin s1)" for s1 by (intro goes_if goes_StartInit goes_core core_Secondary)
  have ans: "goes p s1 (?fin (if b then SendResponse (m_remoteIP msg) (m_remotePort msg) (?pa s1) s1 else s1))"
    if "LogPrepare e msg s = Inr s1" for s1 b
  proof (cases b)
    case True
    have "justified (Some (view s1)) (?pa s1)" using LogPrepare_ballot [OF that] by (simp add: view_def)
    then show ?thesis unfolding if_P [OF True] by (rule goes_sent_then [OF sent_only_Response _ fin])
  next
    case False
    then show ?thesis using fin by (simp only: if_False)
  qed
  show ?thesis unfolding HandlePrepareMsg_def Let_def
    by (intro goes_if goes_refl na goes_bind [OF goes_LogPrepare [OF c]] goes_val ans)
qed

lemma goes_HandlePrepareAccepted: "goes p s (HandlePrepareAcceptedMsg e msg vote s)"
proof (cases "l_oldFreshestVote s")
  case None
  then show ?thesis unfolding HandlePrepareAcceptedMsg_def
    by (intro goes_if goes_refl goes_assert) (simp add: goes_Inl)
next
  case (Some old)
  show ?thesis unfolding HandlePrepareAcceptedMsg_def Let_def Some option.case
    by (intro goes_if goes_refl goes_assert goes_from [OF _ goes_StartBeingStablePrimary [OF goes_StartInit]] goes_core)
      (simp_all add: split: if_splits)
qed

lemma goes_HandleNotAccepted: "goes p s (HandleNotAcceptedMsg e msg s)"
  unfolding HandleNotAcceptedMsg_def Let_def
  by (intro goes_if goes_refl goes_StartInit goes_bind [OF goes_LogPrepare] goes_core core_Secondary) simp


section \<open>Learning\<close>

text \<open>Results that carry a flag beside the state.\<close>
definition goes_pair :: "pview \<Rightarrow> legislator \<Rightarrow> ('a \<times> legislator) res \<Rightarrow> bool" where
  "goes_pair p s r \<longleftrightarrow> goes p s (bindE r (\<lambda>(a, s'). Inr s'))"

lemma goes_pair_simps [simp]:
  "goes_pair p s (Inr (a, s')) \<longleftrightarrow> goes p s (Inr s')" "goes_pair p s (Inl x)"
  by (simp_all add: goes_pair_def goes_Inl)

lemma goes_pair_bind: "goes p s r \<Longrightarrow> (\<And>s1. r = Inr s1 \<Longrightarrow> goes_pair p s1 (f s1)) \<Longrightarrow> goes_pair p s (bindE r f)"
  unfolding goes_pair_def bindE_assoc by (rule goes_bind)

lemma goes_pair_if: "(b \<Longrightarrow> goes_pair p s r) \<Longrightarrow> (\<not> b \<Longrightarrow> goes_pair p s r') \<Longrightarrow> goes_pair p s (if b then r else r')"
  by simp

lemma goes_of_pair: "goes_pair p s r \<Longrightarrow> (\<And>a s1. r = Inr (a, s1) \<Longrightarrow> goes p s1 (f a s1)) \<Longrightarrow> goes p s (bindE r (\<lambda>(a, s1). f a s1))"
  by (cases r) (auto simp: goes_Inl intro: goes_then)

lemma goes_learn_vote:
  assumes ih: "\<And>lastVote minNeeded s. goes_pair p s (learn_loop e msgs lastVote minNeeded s)"
  shows "goes_pair p s (learn_loop e (VoteMsg vote # msgs) lastVote minNeeded s)"
proof -
  note la = goes_LogAndAcceptVote [OF goes_StartInit]
  have tail: "goes_pair p s1 (case vq_Head (l_voteCache s1) of
      Some head \<Rightarrow> if m_decree head \<le> m_decree vote then Inr (True, s1) else learn_loop e msgs (Some vote) (Some head) s1
    | None \<Rightarrow> learn_loop e msgs (Some vote) None s1)" for s1
    by (cases "vq_Head (l_voteCache s1)") (simp_all add: ih goes_refl)
  show ?thesis unfolding learn_loop.simps lmsg.case Let_def
    by (intro goes_pair_if goes_pair_bind ih tail goes_bind [OF la] la goes_if goes_refl goes_assert goes_val)
      (simp_all add: goes_refl)
qed

lemma goes_learn: "goes_pair p s (learn_loop e msgs lastVote minNeeded s)"
proof (induction msgs arbitrary: lastVote minNeeded s)
  case (Cons msg msgs)
  show ?case
  proof (cases msg)
    case (VoteMsg vote)
    then show ?thesis using goes_learn_vote [OF Cons.IH] by simp
  next
    case (PrepareM pm)
    have "goes p s (if m_ballot pm > l_maxBallot s then LogPrepare e pm s else Inr s)"
      if "m_configurationNumber pm = PaxosConfiguration s"
      by (intro goes_if goes_refl goes_LogPrepare that)
    then show ?thesis using Cons.IH
      by (auto simp: PrepareM Message.truncate_def goes_refl intro!: goes_pair_bind)
  next
    case (PlainMsg m)
    show ?thesis unfolding learn_loop.simps PlainMsg lmsg.case
      by (intro goes_pair_if goes_pair_bind goes_LogReconfigurationDecision goes_StartInit Cons.IH) (simp add: goes_refl)
  qed (simp_all add: goes_refl)
qed (simp add: goes_refl)

lemma goes_LearnVotes: "goes_pair p s (LearnVotes e ip port s)"
  unfolding LearnVotes_def by (rule goes_learn)

lemma goes_pair_val: "(\<And>x. r = Inr x \<Longrightarrow> goes_pair p s (f x)) \<Longrightarrow> goes_pair p s (bindE r f)"
  by (cases r) simp_all

lemma goes_pair_core: "core s1 = core s \<Longrightarrow> goes_pair p s (Inr (a, s1))"
  by (simp add: goes_core)

lemma goes_CheckpointDone: "goes p s (CheckpointDone e d n s)"
  by (cases "CheckpointDone e d n s") (auto simp: goes_Inl intro: goes_core [OF core_CheckpointDone])

lemma goes_SaveCheckpoint: "goes_pair p s (SaveCheckpoint e v b s)"
  by (cases "SaveCheckpoint e v b s") (auto intro: goes_core [OF core_SaveCheckpoint])

lemma goes_CopyCheckpoint: "goes_pair p s (CopyCheckpoint e ip port d n c b s)"
  unfolding CopyCheckpoint_def
  by (rule goes_pair_val, intro goes_pair_if goes_pair_bind [OF goes_CheckpointDone] goes_pair_core refl) simp

lemma goes_LearnVotesAndTransition: "goes p s (LearnVotesAndTransition e resp s)"
  unfolding LearnVotesAndTransition_def
  by (intro goes_val goes_of_pair goes_LearnVotes goes_if goes_core core_Secondary goes_StartInit)

lemma goes_choose_source: "goes p s (choose_source e s)"
proof -
  have mv: "goes p s (MoveToSecondaryOrPrepare (StartInit e) e
      (if b then s\<lparr>l_nextElectionTime := t\<rparr> else s))" for b t
    by (rule goes_from [OF _ goes_MoveToSecondaryOrPrepare [OF goes_StartInit]]) simp
  show ?thesis unfolding choose_source_def Let_def
    by (intro goes_if goes_LearnVotesAndTransition goes_of_pair [OF goes_CopyCheckpoint] goes_val goes_Inl goes_StartInit
        goes_refl mv)
qed

section \<open>Dispatch\<close>

lemma goes_HandleStatusResponse: "goes p s (HandleStatusResponseMsg e msg s)"
proof -
  have "goes p s (let acc = l_maxAcceptedVote t in
      if AmPrimary t then Inr t
      else if m_queryDecree msg \<noteq> m_decree acc \<or> m_queryBallot msg \<noteq> m_ballot acc then Inr t
      else if l_state t \<noteq> Initializing
      then if m_decree msg = m_decree acc + 1 \<and> m_ballot msg \<ge> m_ballot acc \<and> vq_Head (l_voteCache t) = None
           then LearnVotesAndTransition e msg t else Inr t
      else let s = t\<lparr>l_statusMap := sm_Insert msg (l_statusMap t)\<rparr>
           in if sm_Size (l_statusMap s) \<ge> QuorumSize s - 1 then choose_source e s else Inr s)"
    if t: "core t = core s" for t
    unfolding Let_def
    by (rule goes_from [OF t], intro goes_if goes_refl goes_LearnVotesAndTransition goes_from [OF _ goes_choose_source]
        goes_core core_simps)
  then show ?thesis unfolding HandleStatusResponseMsg_def by (simp only: Let_def) simp
qed

lemma goes_HandleJoin: "goes p s (HandleJoinMsg e msg s)"
proof -
  have "goes p s (Inr (if b then SendDefunctConfigurationMessage ip port c s else s))" for b ip port c
    by (cases b) (simp_all add: goes_Defunct goes_refl)
  then show ?thesis unfolding HandleJoinMsg_def Let_def
    by (intro goes_if goes_refl goes_Inl goes_of_pair goes_LearnVotes goes_CopyCheckpoint)
qed

lemma goes_SendJoin: "goes p s (SendJoinMessage e ip port c s)"
  unfolding SendJoinMessage_def Let_def
  by (auto simp: goes_Inl intro: goes_sent [OF sent_only_ToIpPort] goes_sent [OF sent_only_ToAll])

lemma goes_UpdateDefunct: "goes p s (UpdateDefunctInfo (StartInit e) n s)"
  using UpdateDefunct_cases [of "StartInit e" n s] goes_StartInit [of p s e]
  by (cases "UpdateDefunctInfo (StartInit e) n s") (auto simp: goes_Inl intro: goes_core)

lemma goes_StartBootstrap: "goes_pair p s (StartBootstrap ms s)"
proof (cases "StartBootstrap ms s")
  case (Inr x)
  then have "core (snd x) = core s"
    by (auto simp: StartBootstrap_def Let_def bindE_eq_Inr split: if_splits option.splits)
  then show ?thesis by (cases x) (simp add: Inr goes_core)
qed simp

lemma goes_verified:
  assumes "\<And>s1. VerifyMessage hdr s = (True, s1) \<Longrightarrow> m_configurationNumber hdr = PaxosConfiguration s1 \<Longrightarrow> goes p s1 (f s1)"
  shows "goes p s (case VerifyMessage hdr s of (ok, s) \<Rightarrow> if \<not> ok then Inr s else f s)"
proof (cases "VerifyMessage hdr s")
  case (Pair ok s1)
  have "goes p s1 (if \<not> ok then Inr s1 else f s1)"
    using assms VerifyMessage_ok(2) [OF Pair] Pair by (cases ok) (auto simp: goes_refl dest: core_eq)
  then show ?thesis using goes_then [OF VerifyMessage_ok(1) [OF Pair]] by (simp add: Pair)
qed

text \<open>The messages whose class fits their id.\<close>
lemma goes_dispatch:
  assumes c: "m_configurationNumber (msg_hdr msg) = PaxosConfiguration s"
  shows "goes p s (case msg of PrepareM m \<Rightarrow> HandlePrepareMsg e m s | _ \<Rightarrow> Inl OutOfBounds)"
    "goes p s (case msg of PrepareAcceptedM h v \<Rightarrow> HandlePrepareAcceptedMsg e h v s | _ \<Rightarrow> Inl OutOfBounds)"
    "goes p s (case msg of StatusM r \<Rightarrow> HandleStatusResponseMsg e r s | _ \<Rightarrow> Inl OutOfBounds)"
    "goes p s (case msg of JoinM j \<Rightarrow> HandleJoinMsg e j s | _ \<Rightarrow> Inl OutOfBounds)"
    "goes p s (case msg of BootstrapM h ms \<Rightarrow> bindE (StartBootstrap ms s) (\<lambda>(_, s). Inr s) | _ \<Rightarrow> Inl OutOfBounds)"
  using c goes_of_pair [OF goes_StartBootstrap goes_refl]
  by (cases msg; simp add: goes_Inl goes_HandlePrepare goes_HandlePrepareAccepted goes_HandleStatusResponse goes_HandleJoin
      Message.truncate_def)+

lemma goes_HandleMessage: "goes p s (HandleMessage e msg s)"
proof -
  have boot: "goes p s (case msg of BootstrapM h ms \<Rightarrow> bindE (StartBootstrap ms s) (\<lambda>(_, s). Inr s) | _ \<Rightarrow> Inl OutOfBounds)"
    using goes_of_pair [OF goes_StartBootstrap goes_refl] by (cases msg) (simp_all add: goes_Inl)
  have join: "goes p s (case msg of JoinM j \<Rightarrow> HandleJoinMsg e j s | _ \<Rightarrow> Inl OutOfBounds)"
    by (cases msg) (simp_all add: goes_Inl goes_HandleJoin)
  show ?thesis unfolding HandleMessage_def Let_def HandleJoinRequestMsg_def HandleReconfigurationDecisionMsg_def
    by (intro goes_if boot join goes_UpdateDefunct goes_Defunct goes_SendJoin goes_refl goes_verified
        goes_HandleVoteAccepted goes_dispatch goes_HandleNotAccepted
        goes_LogReconfigurationDecision goes_StartInit) assumption+
qed

lemma goes_handle_messages: "goes p s (handle_messages e msgs s)"
  by (induction msgs arbitrary: s) (simp_all add: goes_refl goes_bind goes_HandleMessage)

lemma goes_HandleStatusQuery: "goes p s (HandleStatusQueryMsg e msg s)"
  unfolding HandleStatusQueryMsg_def by (rule goes_val) (simp add: goes_refl goes_sent [OF sent_only_Response])

lemma goes_ProcessReceive: "goes p s (ProcessReceive e ip port asClient msg s)"
proof (cases "m_msgId (msg_hdr msg) = Message_Vote")
  case True
  show ?thesis
  proof (cases msg)
    case (VoteMsg v)
    have q: "m_msgId v = Message_Vote" using True by (simp add: VoteMsg Message.truncate_def)
    show ?thesis unfolding ProcessReceive_def Let_def VoteMsg lmsg.case
      by (intro goes_if goes_refl goes_val goes_core core_simps goes_HandleStatusQuery)
  qed (use True in \<open>auto simp: ProcessReceive_def Let_def goes_refl goes_Inl\<close>)
qed (auto simp: ProcessReceive_def Let_def goes_refl goes_HandleStatusQuery intro!: goes_core)


section \<open>The loops\<close>

lemma goes_SendStatusRequest: "goes p s (Inr (SendStatusRequestMessage e s))"
proof (cases "\<not> AmPrimary s \<or> l_copyCheckpointAtDecree s = 0")
  case True
  then show ?thesis by (auto simp: SendStatusRequestMessage_def intro: goes_core)
next
  case False
  then show ?thesis by (simp add: SendStatusRequestMessage_def) (rule goes_core_sent [OF refl sent_only_ToAll]; simp)
qed

lemma goes_ReSendCurrentVote: "goes p s (ReSendCurrentVote e s)"
  unfolding ReSendCurrentVote_def Let_def
  by (intro goes_assert goes_core_sent [OF refl sent_only_ReSend]) (simp_all add: view_def)

lemma goes_ReSendPrepare: "goes p s (ReSendPrepareMsg e s)"
  unfolding ReSendPrepareMsg_def
  by (cases "l_lastPrepareMsg s")
    (auto intro!: goes_val goes_Inl goes_core_sent [OF refl sent_only_ReSend])

lemma goes_Timer: "goes p s (Timer e s)"
proof -
  have t: "goes p s1 (Inr (if b then SendStatusRequestMessage e s1 else s1))" for s1 b
    by (cases b) (simp_all add: goes_SendStatusRequest goes_refl)
  let ?turn = "\<lambda>s. if e_now e > l_actionTimeout s
      then if AmPrimary s then ReSendCurrentVote e s
           else if l_state s = Preparing
           then if e_now e > l_prepareTimeout s then StartInit e s else ReSendPrepareMsg e s
           else if l_state s = Initializing then StartInit e s else Inr s
      else Inr s"
  have turn: "goes p s2 (?turn s2)" for s2
    by (intro goes_if goes_refl goes_StartInit goes_ReSendCurrentVote goes_ReSendPrepare)
  show ?thesis unfolding Timer_def Let_def
    by (rule goes_bind, intro goes_if goes_StartInit goes_refl) (rule goes_then [OF t turn])
qed

lemma goes_SendJoinIfNecessary: "goes p s (SendJoinMessagesIfNecessary e s)"
  unfolding SendJoinMessagesIfNecessary_def
  by (intro goes_if goes_refl goes_bind [OF goes_SendJoin] goes_core core_simps)

text \<open>
  Bootstrapping: PersistMemberSet asserts that no decree has been accepted, so
  on a replica whose log says otherwise it does not return.
\<close>
lemma goes_CheckBootstrap: "goes p s (CheckBootstrap e s)"
proof -
  have persist: "goes_pair p s (PersistMemberSet e ms s)" for ms
  proof (cases "PersistMemberSet e ms s")
    case (Inr r)
    obtain ok s' where r: "r = (ok, s')" by (cases r) auto
    obtain conf v where d: "m_decree (l_maxAcceptedVote s) = 0"
        and sv: "SaveCheckpoint e v False
            (s\<lparr>l_stateConfiguration := conf, l_paxosConfiguration := conf, l_maxAcceptedVote := v\<rparr>) = Inr (ok, s')"
      using Inr by (auto simp: r PersistMemberSet_def Let_def bindE_eq_Inr)
    have l: "l_log s' = l_log s" using core_eq [OF core_SaveCheckpoint [OF sv]] by simp
    have "\<not> (small p s' \<and> Inv p s)"
      using Inv_view [of p s] small_prefix [of p s' s "[]"] d l by (auto simp: view_def)
    then show ?thesis using l by (auto simp: goes_def Inr r)
  qed simp
  have b: "goes p s (case l_bootstrapMemberSet s of
              Some ms \<Rightarrow>
                if \<not> HasConfigurationCheckpointed s
                then bindE (PersistMemberSet e ms s) (\<lambda>(persisted, s).
                     Inr (if persisted
                          then s\<lparr>l_bootstrapMemberSet := None,
                                 l_calls := l_calls (s\<lparr>l_bootstrapMemberSet := None\<rparr>) @ [NotifyConfigurationChanged None]\<rparr>
                          else s\<lparr>l_bootstrapMemberSet := None\<rparr>))
                else Inr s
            | None \<Rightarrow> Inr s)"
    by (cases "l_bootstrapMemberSet s") (auto simp: goes_refl intro!: goes_of_pair [OF persist] goes_core)
  show ?thesis unfolding CheckBootstrap_def Let_def
    by (intro goes_assert goes_bind [OF b] goes_if goes_refl goes_from [OF core_simps(11) goes_StartInit])
qed

lemma goes_PrimaryTurn: "goes p s (PrimaryTurn e s)"
proof -
  have "goes p s1 (case vq_Dequeue (l_votesToSend s1) of (vote, q) \<Rightarrow>
      let s = s1\<lparr>l_votesToSend := q\<rparr> in case vote of None \<Rightarrow> Inr s | Some v \<Rightarrow> SendNextVote (StartInit e) e v s)" for s1
    by (auto simp: Let_def split: prod.split option.split
        intro!: goes_core goes_from [OF _ goes_SendNextVote [OF goes_StartInit]])
  then show ?thesis unfolding PrimaryTurn_def by (intro goes_if goes_bind goes_CheckNotifyStatus goes_refl)
qed

lemma goes_new_votes_turn:
  "goes p s (bindE (HandleNewVotes e votes (s\<lparr>l_voteCache := q\<rparr>)) (\<lambda>(rest, s).
      bindE (log_assert (rest = []) ()) (\<lambda>_. Inr s)))"
  by (rule goes_val) (auto intro!: goes_val goes_from [OF core_simps(17) goes_HandleNewVotes])

lemma goes_MainLoop: "goes p s (MainLoop e s)"
  unfolding MainLoop_def Let_def
  by (intro goes_bind goes_if goes_refl goes_CheckBootstrap goes_new_votes_turn goes_PrimaryTurn goes_Timer
      goes_SendJoinIfNecessary goes_from [OF core_simps(18) goes_handle_messages])

lemma goes_HeartBeat: "goes p s (HeartBeat b e s)"
  unfolding HeartBeat_def
  by (intro goes_if goes_val goes_refl goes_SendNextVote goes_StartInit goes_core core_simps)

lemma core_ExecuteNotify [simp]: "core (ExecuteNotify s) = core s"
  by (simp add: ExecuteNotify_def Let_def split: option.split prod.split)

lemma goes_pair_of: "goes_pair p s r \<Longrightarrow> (\<And>a s1. r = Inr (a, s1) \<Longrightarrow> goes_pair p s1 (f a s1)) \<Longrightarrow>
    goes_pair p s (bindE r (\<lambda>(a, s1). f a s1))"
  unfolding goes_pair_def by (cases r) (auto simp: goes_Inl intro: goes_then)

lemma goes_ExecuteCheckpoint: "goes_pair p s (ExecuteCheckpoint e s)"
  unfolding ExecuteCheckpoint_def Let_def
  by (intro goes_pair_if goes_pair_of [OF goes_SaveCheckpoint] goes_pair_core refl) simp

lemma goes_ExecuteHead: "goes p s (ExecuteHead e s)"
  by (cases "ExecuteHead e s") (auto simp: goes_Inl intro: goes_core [OF core_ExecuteHead])

lemma goes_ExecuteLoop: "goes p s (ExecuteLoop e s)"
  unfolding ExecuteLoop_def
  by (rule goes_from [OF core_ExecuteNotify], intro goes_of_pair [OF goes_ExecuteCheckpoint] goes_if goes_ExecuteHead goes_refl)

lemma goes_CopyFromSecondary: "goes p s (CopyCheckpointFromSecondary e ip port d n s)"
  unfolding CopyCheckpointFromSecondary_def
  by (intro goes_if goes_refl goes_of_pair [OF goes_CopyCheckpoint] goes_core core_simps)

lemma goes_pair_val2: "(\<And>x y. goes_pair p s (f x y)) \<Longrightarrow> goes_pair p s (bindE r (\<lambda>(x, y). f x y))"
  by (rule goes_pair_val) auto

lemma goes_client:
  "goes_pair p s (ReplicateRequest req c s)" "goes_pair p s (ReplicateRequestExclusiveVote req c b s)"
  "goes_pair p s (ChangeConfiguration ms c s)"
  unfolding ReplicateRequest_def ReplicateRequestExclusiveVote_def ChangeConfiguration_def Let_def
  by (intro goes_pair_val2 goes_pair_val goes_pair_if; simp add: goes_refl goes_core)+

lemma goes_Relinquish: "goes p s (RelinquishPrimary s)"
  unfolding RelinquishPrimary_def by (intro goes_if goes_refl goes_val goes_core core_simps)

lemma core_network [simp]:
  "core (ProcessSend e i st c s) = core s" "core (ProcessConnect ip port b c s) = core s"
  "core (AttemptPromotion s) = core s"
  by (auto simp: ProcessSend_def ProcessConnect_def AttemptPromotion_def split: option.split)

end
