(* ===== verification/Legis_Sample.thy ===== *)
theory Legis_Sample
  imports Legis_Handlers
begin

text \<open>
  A concrete replica and environment, on which the properties of the legislator
  are evaluated: replica A of a group A, B, C, with the default values of
  RSLConfig, a state machine that accepts every message, and a disk that works.
\<close>

definition ex_node :: "u8 \<Rightarrow> RSLNode" where
  "ex_node c = \<lparr>n_memberIdString = [c, 0], n_hostName = [c, 0], n_ip = ucast c, n_rslPort = 1000, n_rslLearnPort = 1001, n_appPort = 0\<rparr>"

text \<open>Members A, B and C (memberId and host name are the letter), configuration 1.\<close>
definition ex_conf :: ConfigurationInfo where
  "ex_conf = \<lparr>ci_configurationNumber = 1, ci_initialDecree = 1,
     ci_memberSet = \<lparr>ms_members = [ex_node 65, ex_node 66, ex_node 67], ms_cookie = None, ms_cookieLength = 0\<rparr>\<rparr>"

definition ex_hdr :: "u16 \<Rightarrow> u8 \<Rightarrow> u64 \<Rightarrow> u32 \<Rightarrow> mid Message" where
  "ex_hdr i m d b = InitMessage 6 i (Mid [m]) d 1 (BallotNumber b (Mid [m])) 0"

definition ex_vote_msg :: "u8 \<Rightarrow> u64 \<Rightarrow> u32 \<Rightarrow> lvote" where
  "ex_vote_msg m d b = Message.extend (ex_hdr Message_Vote m d b)
     (lvote.fields PrimaryCookie_empty False [([7], None)] None None 0 False False)"

definition ex_prepare :: "u8 \<Rightarrow> u64 \<Rightarrow> u32 \<Rightarrow> mid PrepareMsg" where
  "ex_prepare m d b = Message.extend (ex_hdr Message_Prepare m d b) (PrepareMsg.fields PrimaryCookie_empty)"

definition ex_cfg :: rsl_cfg where
  "ex_cfg = \<lparr>c_NewLeaderGracePeriod = 15000000, c_HeartBeatInterval = 1000000, c_InitializeRetryInterval = 1000000,
     c_PrepareRetryInterval = 1000000, c_VoteRetryInterval = 1000000, c_VoteMaxOutstandingInterval = 100,
     c_CPQueryRetryInterval = 1000000, c_JoinMessagesInterval = 1000000000, c_SendTimeout = 5000, c_ReceiveTimeout = 5000,
     c_MaxCacheLength = 50000000, c_MaxOutstandingPerReplica = 10, c_InMemoryExecutionQueueSize = 1000000,
     c_MaxCheckpoints = 4, c_MaxLogs = 10,
     c_AllowPrimaryPromotionWhileCatchingUp = False, c_UseGlobalAcceptMessagesFlag = False\<rparr>"

definition ex_env :: env where
  "ex_env = \<lparr>e_now = 1000000000, e_cfg = ex_cfg, e_AcceptMessageFromReplica = (\<lambda>_ _. True), e_CanBecomePrimary = Some None,
     e_ResolveNode = (\<lambda>n. (True, n)), e_saveState = (\<lambda>_. False), e_diskOk = True, e_newLogLen = 1000000,
     e_learn = (\<lambda>_ _. []), e_copyCheckpoint = (\<lambda>_ _ _ _. Inr True), e_copyThreadDone = False,
     e_trySaveState = (True, 8192), e_moveOk = True, e_deleteOk = (\<lambda>_. True), e_checkpointInterval = 3600000000, e_rand = 0\<rparr>"

text \<open>Replica A as a secondary that has accepted acc.\<close>
definition ex_start :: "RSLNode list \<Rightarrow> lvote \<Rightarrow> legislator" where
  "ex_start others acc = \<lparr>l_memberId = Mid [65], l_self = ex_node 65, l_version = 6, l_state = StableSecondary,
     l_maxBallot = m_ballot acc, l_maxSeenBallot = m_ballot acc, l_maxAcceptedVote = acc,
     l_oldFreshestVote = None, l_outstandingVote = None, l_responseMap = [], l_statusMap = StatusMap_new,
     l_lastPrepareMsg = None, l_primaryCookie = PrimaryCookie_empty, l_replicas = map Replica_new others,
     l_paxosConfiguration = ex_conf, l_stateConfiguration = ex_conf, l_bootstrapMemberSet = None, l_highestDefunct = 0,
     l_logFiles = [LogFile_new []], l_log = [], l_maxLogLen = 100000000,
     l_executeQ = ExecuteQueue_Init (m_decree acc - 1), l_lastExecutedDecree = m_decree acc - 1,
     l_callbackAfterVote = None, l_electionDelay = 60000000,
     l_nextElectionTime = I64_MAX, l_prepareTimeout = I64_MAX, l_actionTimeout = I64_MAX, l_cpTimeout = I64_MAX,
     l_nextCheckpointTime = I64_MAX, l_lastTimeJoinMessagesSent = 0, l_copyCheckpointAtDecree = 0,
     l_saveCheckpointAtDecree = 0, l_checkpointedDecree = 0, l_checkpointSize = 0, l_checkpointAllowed = True,
     l_mustCheckpoint = False,
     l_isSavingCheckpoint = False, l_checkpointSavedNotification = None, l_codexFiles = [0], l_logNumbers = [m_decree acc],
     l_copyCheckpointThread = False, l_isPrimary = False, l_isShutting = False,
     l_relinquishPrimary = False, l_forceReelection = False, l_IsTransitioningToPrimary = False, l_acceptMessages = True,
     l_votePayload = 0, l_voteCache = VoteQueue_new, l_votesToSend = VoteQueue_new, l_recvMsgQ = [], l_sent = [], l_calls = []\<rparr>"


text \<open>A sequence of steps.\<close>
fun run :: "lstep list \<Rightarrow> lstep" where
  "run [] s = Inr s"
| "run (f # fs) s = bindE (f s) (run fs)"

text \<open>C prepares ballot 2, and then proposes decree 5 with it.\<close>
definition ex_s0 :: legislator where
  "ex_s0 = ex_start [ex_node 66, ex_node 67] (ex_vote_msg 66 5 1)"

definition ex_events :: "lstep list" where
  "ex_events =
     [ProcessReceive ex_env 67 1000 False (PrepareM (ex_prepare 67 5 2)), MainLoop ex_env,
      ProcessReceive ex_env 67 1000 False (VoteMsg (ex_vote_msg 67 5 2)), MainLoop ex_env,
      ProcessReceive ex_env 67 1000 False (VoteMsg (ex_vote_msg 67 6 2)), MainLoop ex_env,
      ProcessReceive ex_env 66 1000 False (PrepareM (ex_prepare 66 6 3)), MainLoop ex_env]"

definition ex_end :: legislator where
  "ex_end = projr (run ex_events ex_s0)"

lemma ex_run: "run ex_events ex_s0 = Inr ex_end"
proof -
  have "\<not> isl (run ex_events ex_s0)" by code_simp
  then show ?thesis by (simp add: ex_end_def)
qed

text \<open>What A has sent, and logged, at the end.\<close>
definition ex_promise :: "u64 \<Rightarrow> u8 \<Rightarrow> u32 \<Rightarrow> mid Message" where
  "ex_promise d m b = InitMessage 6 Message_PrepareAccepted (Mid [65]) d 1 (BallotNumber b (Mid [m])) 0"

definition ex_accepted :: "u64 \<Rightarrow> u8 \<Rightarrow> u32 \<Rightarrow> mid Message" where
  "ex_accepted d m b = InitMessage 6 Message_VoteAccepted (Mid [65]) d 1 (BallotNumber b (Mid [m])) 0"

definition ex_logged :: "u64 \<Rightarrow> lvote" where
  "ex_logged d = (ex_vote_msg 67 d 2)\<lparr>m_remoteIP := 67, m_remotePort := 1000, lv_receivedAt := 1000000000\<rparr>"

lemma ex_sent: "map p_msg (l_sent ex_end) =
    [PrepareAcceptedM (ex_promise 5 67 2) (ex_vote_msg 66 5 1), PlainMsg (ex_accepted 5 67 2),
     PlainMsg (ex_accepted 6 67 2), PrepareAcceptedM (ex_promise 6 66 3) (ex_logged 6)]"
  by code_simp

lemma ex_log: "l_log ex_end ! 1 = VoteMsg (ex_logged 5)" "l_log ex_end ! 2 = VoteMsg (ex_logged 6)" "length (l_log ex_end) = 4"
  by code_simp+

end
