(* ===== verification/Legis_Safety.thy ===== *)
theory Legis_Safety
  imports Legis_Laws Legis_Sample
begin

text \<open>
  Safety of a running replica: the turns of its threads, the callbacks of the
  network library and the calls of the application as a step relation on the
  legislator, and what holds in every reachable state, with any clock, any
  configuration values, any peers and any answers of the state machine.
\<close>

section \<open>Histories are ordered\<close>

text \<open>The second view is of a later configuration, or everything in it is at least as high.\<close>
fun later :: "pview \<Rightarrow> pview \<Rightarrow> bool" where
  "later (c, mb, d, b) (c', mb', d', b') \<longleftrightarrow> c < c' \<or> c = c' \<and> mb \<le> mb' \<and> d \<le> d' \<and> b \<le> b'"

lemma later_refl [simp]: "later p p"
  by (cases p) simp

lemma later_trans: "later p q \<Longrightarrow> later q r \<Longrightarrow> later p r"
  by (cases p; cases q; cases r) (auto intro: order_trans)

lemma replay1_later:
  assumes "replay1 m p = Some q" "good_view p" "room 1 p"
  shows "later p q"
proof -
  obtain c mb d b where p: "p = (c, mb, d, b)" by (cases p) auto
  have "c < c + 1" "d < d + 1"
    using assms(3) word_inc [of c] word_inc [of d] by (auto simp: p intro!: word_less_inc)
  then show ?thesis using assms by (cases m) (auto simp: p decree_defs split: if_splits)
qed

lemma replay_later:
  assumes "replay ms p = Some q" "good_view p" "room (length ms) p"
  shows "later p q"
  using assms
proof (induction ms arbitrary: p)
  case (Cons m ms)
  obtain p' where p': "replay1 m p = Some p'" "replay ms p' = Some q"
    using Cons.prems(1) by (auto split: option.splits)
  have "room 1 p" using Cons.prems(3) by (cases p) auto
  moreover have "good_view p' \<and> room (length ms) p'" using replay1_good [OF p'(1)] Cons.prems(2,3) by simp
  ultimately show ?case
    using Cons.IH [OF p'(2)] later_trans [OF replay1_later [OF p'(1) Cons.prems(2)]] by blast
qed simp

lemma replay_take:
  assumes "replay ms p = Some q"
  shows "\<exists>q'. replay (take k ms) p = Some q' \<and> replay (drop k ms) q' = Some q"
  using assms replay_append [of "take k ms" "drop k ms" p] by (simp del: split_paired_Ex split: option.splits)

text \<open>Two moments of one history.\<close>
lemma replay_two:
  assumes "replay ms p = Some q" "good_view p" "room (length ms) p" "k \<le> k'" "k' \<le> length ms"
    and "replay (take k ms) p = Some a" "replay (take k' ms) p = Some b"
  shows "later a b"
proof -
  obtain a' where a': "replay (take k (take k' ms)) p = Some a'" "replay (drop k (take k' ms)) a' = Some b"
    using replay_take [OF assms(7), of k] by blast
  then have "a' = a" using assms(4,6) by (simp add: min_def)
  moreover have "good_view a' \<and> room (length (drop k (take k' ms))) a'"
    using replay_good [OF a'(1) assms(2), of "length (drop k (take k' ms))"] assms(3,4,5) by (cases p) auto
  ultimately show ?thesis using replay_later [OF a'(2)] by simp
qed

text \<open>An entry of a history, with the view before and after it.\<close>
lemma replay_entry:
  assumes "replay ms p = Some q" "i < length ms"
  shows "\<exists>a b. replay (take i ms) p = Some a \<and> replay1 (ms ! i) a = Some b \<and> replay (take (Suc i) ms) p = Some b"
proof -
  obtain b where b: "replay (take (Suc i) ms) p = Some b" using replay_take [OF assms(1)] by blast
  then have "replay (take i ms @ [ms ! i]) p = Some b" by (simp add: take_Suc_conv_app_nth [OF assms(2)])
  then show ?thesis using b by (auto simp: replay_append split: option.splits)
qed

section \<open>Steps\<close>

inductive leg_step :: "legislator \<Rightarrow> legislator \<Rightarrow> bool" where
  main: "MainLoop e s = Inr s' \<Longrightarrow> leg_step s s'"
| heartbeat: "HeartBeat independent e s = Inr s' \<Longrightarrow> leg_step s s'"
| execute: "ExecuteLoop e s = Inr s' \<Longrightarrow> leg_step s s'"
| copied: "CopyCheckpointFromSecondary e ip port d n s = Inr s' \<Longrightarrow> leg_step s s'"
| receive: "ProcessReceive e ip port asClient msg s = Inr s' \<Longrightarrow> leg_step s s'"
| sent: "leg_step s (ProcessSend e i status asClient s)"
| connect: "leg_step s (ProcessConnect ip port connected asClient s)"
| replicate: "ReplicateRequest request cookie s = Inr (code, s') \<Longrightarrow> leg_step s s'"
| exclusive: "ReplicateRequestExclusiveVote request cookie setShutdownAfter s = Inr (code, s') \<Longrightarrow> leg_step s s'"
| reconfigure: "ChangeConfiguration ms cookie s = Inr (code, s') \<Longrightarrow> leg_step s s'"
| relinquish: "RelinquishPrimary s = Inr s' \<Longrightarrow> leg_step s s'"
| promote: "leg_step s (AttemptPromotion s)"

lemma goes_step: "leg_step s s' \<Longrightarrow> goes p s (Inr s')"
proof (induction rule: leg_step.induct)
  case (main e s s') then show ?case using goes_MainLoop [of p s e] by simp
next
  case (heartbeat b e s s') then show ?case using goes_HeartBeat [of p s b e] by simp
next
  case (execute e s s') then show ?case using goes_ExecuteLoop [of p s e] by simp
next
  case (copied e ip port d n s s') then show ?case using goes_CopyFromSecondary [of p s e ip port d n] by simp
next
  case (receive e ip port asClient msg s s')
  then show ?case using goes_ProcessReceive [of p s e ip port asClient msg] by simp
next
  case (replicate r c s code s') then show ?case using goes_client(1) [of p s r c] by simp
next
  case (exclusive r c b s code s') then show ?case using goes_client(2) [of p s r c b] by simp
next
  case (reconfigure ms c s code s') then show ?case using goes_client(3) [of p s ms c] by simp
next
  case (relinquish s s') then show ?case using goes_Relinquish [of p s] by simp
qed (simp_all add: goes_core)

lemma goes_steps: "leg_step\<^sup>*\<^sup>* s s' \<Longrightarrow> goes p s (Inr s')"
  by (induction rule: rtranclp_induct) (auto intro: goes_refl goes_then goes_step)

text \<open>
  A replica that starts (with an empty record of log entries and packets, in a
  view of the protocol it has recovered) and where it can be after some steps,
  as long as configuration numbers and decrees have not wrapped round.
\<close>
definition started :: "legislator \<Rightarrow> bool" where
  "started s \<longleftrightarrow> l_log s = [] \<and> l_sent s = [] \<and> good_view (view s)"

definition runs :: "legislator \<Rightarrow> legislator \<Rightarrow> bool" where
  "runs s0 s \<longleftrightarrow> started s0 \<and> leg_step\<^sup>*\<^sup>* s0 s \<and> small (view s0) s"

lemma started_Inv: "started s \<Longrightarrow> Inv (view s) s"
  by (simp add: started_def Inv_def sent_ok_def)

lemma runs_Inv: "runs s0 s \<Longrightarrow> Inv (view s0) s"
  using goes_steps [of s0 s "view s0"] started_Inv [of s0] by (simp add: runs_def goes_def)

lemma runs_room: "runs s0 s \<Longrightarrow> good_view (view s0) \<and> room (length (l_log s)) (view s0)"
  by (cases "view s0") (auto simp: runs_def started_def small_def)

lemma log_state_replays: "runs s0 s \<Longrightarrow> replay (l_log s) (view s0) = Some (view s)"
  using runs_Inv by (simp add: Inv_def)

section \<open>The log and the state agree\<close>

text \<open>
  C3: in every reachable state the entries logged since the start are a legal
  history (each vote the next decree of the configuration at a ballot no lower
  than the last, each prepare a higher ballot, each reconfiguration decision the
  decision on the last vote), and replaying it gives exactly the replica's
  configuration number, promised ballot and last accepted vote.
\<close>
theorem log_replays_to_state:
  assumes "runs s0 s"
  shows "replay (l_log s) (view s0) = Some (view s)"
  using log_state_replays [OF assms] .

text \<open>The example run.\<close>
lemma ex_step: "f \<in> set ex_events \<Longrightarrow> f s = Inr s' \<Longrightarrow> leg_step s s'"
  by (auto simp: ex_events_def intro: leg_step.intros)

lemma run_steps:
  assumes "\<And>f s s'. f \<in> set fs \<Longrightarrow> f s = Inr s' \<Longrightarrow> leg_step s s'" "run fs s = Inr s'"
  shows "leg_step\<^sup>*\<^sup>* s s'"
  using assms
proof (induction fs arbitrary: s)
  case (Cons f fs)
  then obtain s1 where s1: "f s = Inr s1" "run fs s1 = Inr s'" by (auto simp: bindE_eq_Inr)
  have "leg_step s s1" using Cons.prems(1) [of f] s1(1) by simp
  moreover have "leg_step\<^sup>*\<^sup>* s1 s'" using Cons.IH [OF _ s1(2)] Cons.prems(1) by auto
  ultimately show ?case by (rule converse_rtranclp_into_rtranclp)
qed simp

lemma ex_view: "view ex_s0 = (1, BallotNumber 1 (Mid [66]), 5, BallotNumber 1 (Mid [66]))"
  by code_simp

lemma ex_runs: "runs ex_s0 ex_end"
proof -
  have "leg_step\<^sup>*\<^sup>* ex_s0 ex_end" by (rule run_steps [of ex_events]) (rule ex_step, assumption+, rule ex_run)
  moreover have "l_log ex_s0 = []" "l_sent ex_s0 = []" by (simp_all add: ex_s0_def ex_start_def)
  ultimately show ?thesis by (simp add: runs_def started_def small_def ex_view ex_log)
qed

theorem log_replays_to_state_witness:
  "runs ex_s0 ex_end \<and> replay (l_log ex_end) (view ex_s0) = Some (view ex_end)"
  using log_replays_to_state [OF ex_runs] ex_runs by blast

section \<open>Promises\<close>

lemma replay_source:
  assumes "replay ms p = Some (c, mb, d, b)"
  shows "(\<exists>v. VoteMsg v \<in> set ms \<and> m_configurationNumber v = c \<and> m_decree v = d \<and> m_ballot v = b) \<or>
    b = NoBallot \<or> (\<exists>mb0. p = (c, mb0, d, b))"
  using assms
proof (induction ms arbitrary: c mb d b rule: rev_induct)
  case (snoc m ms)
  then obtain c' mb' d' b' where "replay ms p = Some (c', mb', d', b')" "replay1 m (c', mb', d', b') = Some (c, mb, d, b)"
    by (auto simp: replay_append split: option.splits)
  then show ?case using snoc.IH [of c' mb' d' b'] by (cases m) (auto split: if_splits)
qed simp

text \<open>A message that was sent, with the view it was sent in.\<close>
lemma runs_sent_view:
  assumes "runs s0 s" "j < length (l_sent s)"
  shows "\<exists>k b. replay (take k (l_log s)) (view s0) = Some b \<and> justified (Some b) (p_msg (l_sent s ! j)) \<and>
    (\<forall>i < j. \<exists>a. justified (Some a) (p_msg (l_sent s ! i)) \<and> later a b)"
proof -
  have inv: "replay (l_log s) (view s0) = Some (view s)" "sent_ok (view s0) (l_log s) (l_sent s)"
    using runs_Inv [OF assms(1)] by (simp_all add: Inv_def)
  then obtain ks where ks: "length ks = length (l_sent s)" "sorted ks" "\<forall>k \<in> set ks. k \<le> length (l_log s)"
      "\<forall>i < length (l_sent s). justified (replay (take (ks ! i) (l_log s)) (view s0)) (p_msg (l_sent s ! i))"
    by (auto simp: sent_ok_def)
  obtain b where b: "replay (take (ks ! j) (l_log s)) (view s0) = Some b" using replay_take [OF inv(1), of "ks ! j"] by blast
  moreover have "\<exists>a. justified (Some a) (p_msg (l_sent s ! i)) \<and> later a b" if "i < j" for i
  proof -
    obtain a where a: "replay (take (ks ! i) (l_log s)) (view s0) = Some a" using replay_take [OF inv(1), of "ks ! i"] by blast
    have "ks ! i \<le> ks ! j" "ks ! j \<le> length (l_log s)" using ks that assms(2) by (auto intro: sorted_nth_mono)
    then have "later a b" using replay_two [OF inv(1) _ _ _ _ a b] runs_room [OF assms(1)] by blast
    then show ?thesis using ks(4) [rule_format, of i] a that assms(2) by (intro exI [of _ a]) simp
  qed
  ultimately show ?thesis using ks(4) [rule_format, of j] assms(2) by (intro exI [of _ "ks ! j"] exI [of _ b]) auto
qed

text \<open>Two messages sent one after the other, with the views they were sent in.\<close>
lemma runs_sent:
  assumes "runs s0 s" "i < j" "j < length (l_sent s)"
  shows "\<exists>a b. justified (Some a) (p_msg (l_sent s ! i)) \<and> justified (Some b) (p_msg (l_sent s ! j)) \<and> later a b"
  using runs_sent_view [OF assms(1,3)] assms(2) by blast

text \<open>
  C1: a promise is kept.  Once a replica has answered a prepare with
  PrepareAccepted for a ballot, every vote it accepts later in the same
  configuration has at least that ballot: the VoteAccepted names the decree and the
  ballot of a vote that the replica has logged (or of the one it had accepted before it
  was started), and that vote's own ballot is not below the promise.  NoBallot is the
  ballot of the empty vote a configuration begins with.
\<close>
theorem promise_kept:
  assumes "runs s0 s" "i < j" "j < length (l_sent s)"
    and "p_msg (l_sent s ! i) = PrepareAcceptedM promise v"
    and "p_msg (l_sent s ! j) = PlainMsg accepted" "m_msgId accepted = Message_VoteAccepted"
    and "m_configurationNumber accepted = m_configurationNumber promise"
  shows "m_ballot promise \<le> m_ballot accepted \<and>
    (m_ballot accepted \<noteq> NoBallot \<longrightarrow>
      (\<exists>vote. (VoteMsg vote \<in> set (l_log s) \<and> m_configurationNumber vote = m_configurationNumber promise \<or> vote = l_maxAcceptedVote s0 \<and> PaxosConfiguration s0 = m_configurationNumber promise) \<and>
        m_decree vote = m_decree accepted \<and> m_ballot vote = m_ballot accepted \<and> m_ballot promise \<le> m_ballot vote))"
proof -
  obtain k b where kb: "replay (take k (l_log s)) (view s0) = Some b" "justified (Some b) (PlainMsg accepted)"
      "\<exists>a. justified (Some a) (PrepareAcceptedM promise v) \<and> later a b"
    using runs_sent_view [OF assms(1,3)] assms(2) unfolding assms(5) by (metis assms(4))
  obtain c mb d bal where b: "b = (c, mb, d, bal)" by (cases b) auto
  have "m_ballot promise \<le> m_ballot accepted" using kb(2,3) assms(6,7) by (auto simp: b)
  moreover have "\<exists>vote. (VoteMsg vote \<in> set (l_log s) \<and> m_configurationNumber vote = m_configurationNumber promise \<or> vote = l_maxAcceptedVote s0 \<and> PaxosConfiguration s0 = m_configurationNumber promise) \<and>
      m_decree vote = m_decree accepted \<and> m_ballot vote = m_ballot accepted" if "m_ballot accepted \<noteq> NoBallot"
    using replay_source [OF kb(1) [unfolded b]] kb(2) assms(6,7) that by (auto simp: b view_def dest: in_set_takeD)
  ultimately show ?thesis by metis
qed

lemma ex_msgs:
  "p_msg (l_sent ex_end ! 0) = PrepareAcceptedM (ex_promise 5 67 2) (ex_vote_msg 66 5 1)"
  "p_msg (l_sent ex_end ! 1) = PlainMsg (ex_accepted 5 67 2)"
  "p_msg (l_sent ex_end ! 3) = PrepareAcceptedM (ex_promise 6 66 3) (ex_logged 6)" "length (l_sent ex_end) = 4"
proof -
  show l: "length (l_sent ex_end) = 4" using arg_cong [OF ex_sent, of length] by simp
  show "p_msg (l_sent ex_end ! 0) = PrepareAcceptedM (ex_promise 5 67 2) (ex_vote_msg 66 5 1)"
    "p_msg (l_sent ex_end ! 1) = PlainMsg (ex_accepted 5 67 2)"
    "p_msg (l_sent ex_end ! 3) = PrepareAcceptedM (ex_promise 6 66 3) (ex_logged 6)"
    using arg_cong [OF ex_sent, of "\<lambda>ms. ms ! 0"] arg_cong [OF ex_sent, of "\<lambda>ms. ms ! 1"]
      arg_cong [OF ex_sent, of "\<lambda>ms. ms ! 3"] l by simp_all
qed

theorem promise_kept_witness:
  "runs ex_s0 ex_end \<and> p_msg (l_sent ex_end ! 0) = PrepareAcceptedM (ex_promise 5 67 2) (ex_vote_msg 66 5 1) \<and>
   p_msg (l_sent ex_end ! 1) = PlainMsg (ex_accepted 5 67 2) \<and>
   (\<exists>vote. (VoteMsg vote \<in> set (l_log ex_end) \<and> m_configurationNumber vote = 1 \<or> vote = l_maxAcceptedVote ex_s0 \<and> PaxosConfiguration ex_s0 = 1) \<and>
      m_decree vote = 5 \<and> m_ballot vote = BallotNumber 2 (Mid [67]) \<and> m_ballot (ex_promise 5 67 2) \<le> m_ballot vote)"
  using promise_kept [OF ex_runs _ _ ex_msgs(1,2)] ex_msgs ex_runs
  by (auto simp: ex_accepted_def ex_promise_def NoBallot_def)

text \<open>
  C2: a promise tells what has been accepted.  The vote a PrepareAccepted
  carries has at least the decree and the ballot of every vote the replica
  accepted before in that configuration, so a new primary that hears from a
  quorum hears of every decree the quorum has passed.
\<close>
theorem promise_reports_accepted:
  assumes "runs s0 s" "i < j" "j < length (l_sent s)"
    and "p_msg (l_sent s ! i) = PlainMsg accepted" "m_msgId accepted = Message_VoteAccepted"
    and "p_msg (l_sent s ! j) = PrepareAcceptedM promise v"
    and "m_configurationNumber accepted = m_configurationNumber promise"
  shows "m_decree accepted \<le> m_decree v \<and> m_ballot accepted \<le> m_ballot v"
proof -
  obtain a b where ab: "justified (Some a) (PlainMsg accepted)" "justified (Some b) (PrepareAcceptedM promise v)" "later a b"
    using runs_sent [OF assms(1-3)] unfolding assms(4,6) by blast
  then show ?thesis using assms(5,7) by (cases a; cases b) auto
qed

theorem promise_reports_accepted_witness:
  "p_msg (l_sent ex_end ! 1) = PlainMsg (ex_accepted 5 67 2) \<and>
   p_msg (l_sent ex_end ! 3) = PrepareAcceptedM (ex_promise 6 66 3) (ex_logged 6) \<and>
   m_decree (ex_accepted 5 67 2) \<le> m_decree (ex_logged 6) \<and> m_ballot (ex_accepted 5 67 2) \<le> m_ballot (ex_logged 6)"
  using promise_reports_accepted [OF ex_runs _ _ ex_msgs(2) _ ex_msgs(3)] ex_msgs
  by (simp add: ex_accepted_def ex_promise_def)

section \<open>Votes are on disk before they are acknowledged\<close>

text \<open>
  C7: a vote is in the log before it is acknowledged.  When a replica has sent a
  VoteAccepted that names a decree and ballot, a vote with that decree, ballot
  and configuration is in its log (or is the one it had accepted before it was
  started); NoBallot is the ballot of the empty vote a configuration begins with.
\<close>
theorem acknowledged_vote_is_logged:
  assumes "runs s0 s" "i < length (l_sent s)" "p_msg (l_sent s ! i) = PlainMsg accepted"
    and "m_msgId accepted = Message_VoteAccepted" "m_ballot accepted \<noteq> NoBallot"
    and "m_decree accepted \<noteq> m_decree (l_maxAcceptedVote s0) \<or> m_ballot accepted \<noteq> m_ballot (l_maxAcceptedVote s0)"
  shows "\<exists>v. VoteMsg v \<in> set (l_log s) \<and> m_configurationNumber v = m_configurationNumber accepted \<and>
    m_decree v = m_decree accepted \<and> m_ballot v = m_ballot accepted"
proof -
  have inv: "replay (l_log s) (view s0) = Some (view s)" "sent_ok (view s0) (l_log s) (l_sent s)"
    using runs_Inv [OF assms(1)] by (simp_all add: Inv_def)
  then obtain k where k: "justified (replay (take k (l_log s)) (view s0)) (PlainMsg accepted)"
    using assms(2,3) by (fastforce simp: sent_ok_def)
  then obtain c mb d b where r: "replay (take k (l_log s)) (view s0) = Some (c, mb, d, b)"
    by (cases "replay (take k (l_log s)) (view s0)") auto
  then show ?thesis using replay_source [OF r] k assms(4-6) by (auto simp: view_def dest: in_set_takeD)
qed

theorem acknowledged_vote_is_logged_witness:
  "p_msg (l_sent ex_end ! 1) = PlainMsg (ex_accepted 5 67 2) \<and>
   (\<exists>v. VoteMsg v \<in> set (l_log ex_end) \<and> m_configurationNumber v = 1 \<and> m_decree v = 5 \<and> m_ballot v = BallotNumber 2 (Mid [67]))"
proof -
  have v: "l_maxAcceptedVote ex_s0 = ex_vote_msg 66 5 1" by (simp add: ex_s0_def ex_start_def)
  show ?thesis
    using acknowledged_vote_is_logged [OF ex_runs _ ex_msgs(2)] ex_msgs
    by (simp add: ex_accepted_def v ex_vote_msg_def ex_hdr_def NoBallot_def)
qed

text \<open>
  C8: the votes of a configuration are logged in order.  Of two votes in the log
  of one configuration the later has no lower decree and no lower ballot, and it
  differs in one of them: a replica never logs two votes for one decree and
  ballot.
\<close>
theorem votes_logged_in_order:
  assumes "runs s0 s" "i < j" "j < length (l_log s)" "l_log s ! i = VoteMsg v" "l_log s ! j = VoteMsg w"
    and "m_configurationNumber v = m_configurationNumber w"
  shows "m_decree v \<le> m_decree w \<and> m_ballot v \<le> m_ballot w \<and> (m_decree v \<noteq> m_decree w \<or> m_ballot v \<noteq> m_ballot w)"
proof -
  note inv = log_state_replays [OF assms(1)]
  obtain a a' where a: "replay1 (VoteMsg v) a = Some a'" "replay (take (Suc i) (l_log s)) (view s0) = Some a'"
    using replay_entry [OF inv, of i] assms(2-4) by auto
  obtain b b' where b: "replay (take j (l_log s)) (view s0) = Some b" "replay1 (VoteMsg w) b = Some b'"
      "replay (take (Suc j) (l_log s)) (view s0) = Some b'"
    using replay_entry [OF inv, of j] assms(3,5) by auto
  note two = replay_two [OF inv]
  have "later a' b" "later b b'" using two [OF _ _ _ _ a(2) b(1)] two [OF _ _ _ _ b(1,3)] runs_room [OF assms(1)] assms(2,3) by auto
  then show ?thesis using a(1) b(2) assms(6)
    by (cases a; cases b) (auto simp: decree_defs split: if_splits)
qed

theorem votes_logged_in_order_witness:
  "l_log ex_end ! 1 = VoteMsg (ex_logged 5) \<and> l_log ex_end ! 2 = VoteMsg (ex_logged 6) \<and>
   m_decree (ex_logged 5) \<le> m_decree (ex_logged 6) \<and> m_ballot (ex_logged 5) \<le> m_ballot (ex_logged 6)"
  using votes_logged_in_order [OF ex_runs, of 1 2] ex_log by (simp add: ex_logged_def ex_vote_msg_def ex_hdr_def)

section \<open>Recording a checkpoint that could not be moved into place\<close>

text \<open>
  When the file system refuses to move the new checkpoint into place,
  CheckpointDone does not stop: the assertion after the failed move tests that
  the error code is not NO_ERROR.  The replica goes on with the decree recorded as
  checkpointed and the file missing.
\<close>
theorem failed_move_recorded:
  assumes "\<not> e_moveOk e" "decree \<notin> set (l_codexFiles s)" "decree > l_checkpointedDecree s"
    and "CheckpointDone e decree sz s = Inr s'"
  shows "l_checkpointedDecree s' = decree \<and> decree \<notin> set (l_codexFiles s')"
  using assms by (auto simp: CheckpointDone_def CleanupLogsAndCheckpoint_def Let_def bindE_eq_Inr split: if_splits)

theorem failed_move_recorded_witness:
  "\<exists>s'. CheckpointDone (ex_env\<lparr>e_moveOk := False\<rparr>) 4 8192 ex_s0 = Inr s' \<and> l_checkpointedDecree s' = 4 \<and> 4 \<notin> set (l_codexFiles s')"
proof -
  let ?r = "CheckpointDone (ex_env\<lparr>e_moveOk := False\<rparr>) 4 8192 ex_s0"
  have ok: "\<not> isl ?r" by code_simp
  then obtain s' where s': "?r = Inr s'" by (cases ?r) auto
  have "l_codexFiles ex_s0 = [0]" "l_checkpointedDecree ex_s0 = 0" by (simp_all add: ex_s0_def ex_start_def)
  then show ?thesis using failed_move_recorded [OF _ _ _ s'] s' by simp
qed

end
