(* ===== verification/Restore.thy ===== *)
theory Restore
  imports Legis_Handlers
begin

text \<open>
  Restarting a replica: Legislator::RestoreState (legislator.cpp) loads the
  newest checkpoint the state machine accepts, reads the log files from there on
  and executes what has passed.  The disk is given by what the readers deliver:
  the headers of the checkpoint files, and for every log file the messages
  ReadNextMessage returns, each with the reader's position after it.
\<close>

section \<open>The operations\<close>

record lheader =
  lh_size :: u64
  lh_stateSaved :: bool
  lh_stateConfiguration :: "ConfigurationInfo option"
  lh_nextVote :: lvote
  lh_maxBallot :: "mid BallotNumber"

text \<open>
  k_header: the header UnMarshal reads from the checkpoint of a decree, if it
  can; k_readerInit: the stream on it opens; k_loadState: the state machine's
  answer; k_openLog, k_readLog: a log file opens for writing and for reading;
  k_messages: what is read from it; k_clean: reading ends with the end of the
  log and not with an error; k_writeOk, k_setWritePointer: success of the writes.
\<close>
record disk =
  k_header :: "u64 \<Rightarrow> lheader option"
  k_readerInit :: "u64 \<Rightarrow> bool"
  k_loadState :: "u64 \<Rightarrow> bool"
  k_cpTime :: "u64 \<Rightarrow> u64"
  k_openLog :: "u64 \<Rightarrow> bool"
  k_readLog :: "u64 \<Rightarrow> bool"
  k_bytes :: "u64 \<Rightarrow> u8 list"
  k_messages :: "u64 \<Rightarrow> (lmsg \<times> u64) list"
  k_clean :: "u64 \<Rightarrow> bool"
  k_logTime :: "u64 \<Rightarrow> u64"
  k_writeOk :: bool
  k_setWritePointer :: bool

datatype cp_result = NoCheckpoint | MissingLogs | Loaded lvote u64

text \<open>The loop over the checkpoint files, newest first.\<close>
fun restore_checkpoint :: "disk \<Rightarrow> u64 \<Rightarrow> u64 list \<Rightarrow> legislator \<Rightarrow> (cp_result \<times> legislator) res" where
  "restore_checkpoint k maxDecree [] s = Inr (NoCheckpoint, s)"
| "restore_checkpoint k maxDecree (c # cs) s =
     (if c > maxDecree then restore_checkpoint k maxDecree cs s
      else let s = s\<lparr>l_checkpointedDecree := c, l_lastExecutedDecree := c\<rparr> in
      if l_logNumbers s \<noteq> [] \<and> (\<forall>l \<in> set (l_logNumbers s). l > c + 1) then Inr (MissingLogs, s)
      else case k_header k c of
             None \<Rightarrow> restore_checkpoint k maxDecree cs s
           | Some h \<Rightarrow>
               let s = s\<lparr>l_checkpointSize := lh_size h\<rparr> in
               if \<not> k_readerInit k c then restore_checkpoint k maxDecree cs s
               else let s = s\<lparr>l_calls := l_calls s @ [LoadState (if lh_stateSaved h then Some c else None)]\<rparr> in
               if k_loadState k c
               then let s = (case lh_stateConfiguration h of
                               None \<Rightarrow> s
                             | Some cf \<Rightarrow> s\<lparr>l_stateConfiguration := cf, l_paxosConfiguration := cf\<rparr>);
                        s = s\<lparr>l_maxBallot := lh_maxBallot h\<rparr> in
                    bindE (log_assert (l_maxBallot s \<ge> m_ballot (lh_nextVote h)) ()) (\<lambda>_.
                      Inr (Loaded (lh_nextVote h) (k_cpTime k c), s))
               else restore_checkpoint k maxDecree cs s)"

definition raise_ballot :: "mid BallotNumber \<Rightarrow> legislator \<Rightarrow> legislator" where
  "raise_ballot ballot s = (if ballot > l_maxBallot s then s\<lparr>l_maxBallot := ballot\<rparr> else s)"

definition restore_decision :: "env \<Rightarrow> mid Message \<Rightarrow> lstep" where
  "restore_decision e msg s =
     (let acc = l_maxAcceptedVote s in
      bindE (log_assert (m_decree acc = m_decree msg \<and> m_ballot acc \<ge> m_ballot msg) ()) (\<lambda>_.
      bindE (log_assert (lv_isReconfiguration acc) ()) (\<lambda>_.
      bindE (log_assert (m_decree msg > l_lastExecutedDecree s) ()) (\<lambda>_.
      bindE (ExecuteVote e acc s) (\<lambda>(shouldSave, s).
      bindE (log_assert (\<not> shouldSave) ()) (\<lambda>_.
      bindE (Vote_empty (l_version s) (l_memberId s) (m_decree msg + 1) 0 NoBallot (l_primaryCookie s) False) (\<lambda>vote.
        Inr (s\<lparr>l_paxosConfiguration := l_stateConfiguration s, l_maxAcceptedVote := vote,
               l_maxBallot := BallotNumber (m_ballotId (l_maxBallot s) + 1) (Mid [])\<rparr>))))))))"

text \<open>
  A vote for the next decree: the one before has passed and is executed.  The
  vote kept in a checkpoint saved here is passed along as cpVote.
\<close>
definition restore_execute ::
  "env \<Rightarrow> bool \<Rightarrow> lvote \<Rightarrow> lvote option \<Rightarrow> legislator \<Rightarrow> (lvote option \<times> legislator) res" where
  "restore_execute e readOnly vote cpVote s =
     bindE (ExecuteVote e (l_maxAcceptedVote s) s) (\<lambda>(shouldSave, s).
       if shouldSave \<and> \<not> readOnly
       then bindE (SaveCheckpoint e vote True s) (\<lambda>(saved, s).
              Inr (Some vote, if saved then s else s\<lparr>l_checkpointAllowed := False\<rparr>))
       else Inr (cpVote, s))"

definition restore_vote ::
  "env \<Rightarrow> bool \<Rightarrow> lvote \<Rightarrow> lvote option \<Rightarrow> legislator \<Rightarrow> (lvote option \<times> legislator) res" where
  "restore_vote e readOnly vote cpVote s =
     (let acc = l_maxAcceptedVote s in
      bindE (if m_ballot acc \<noteq> NoBallot \<or> m_decree acc \<noteq> 0
             then bindE (log_assert (IsNextDecree vote (m_decree acc) (m_ballot acc)) ()) (\<lambda>_.
                    if m_decree vote = m_decree acc + 1 then restore_execute e readOnly vote cpVote s
                    else Inr (cpVote, s))
             else Inr (cpVote, s)) (\<lambda>(cpVote, s).
        Inr (cpVote, raise_ballot (m_ballot vote) (s\<lparr>l_maxAcceptedVote := vote\<rparr>))))"

text \<open>
  The body of the loop over the messages of a log.  Which kind of message it is
  the code reads off m_msgId; ReadNextMessage returns votes, prepares and
  reconfiguration decisions only.
\<close>
definition restore_msg ::
  "env \<Rightarrow> bool \<Rightarrow> lmsg \<Rightarrow> u64 \<Rightarrow> lvote option \<Rightarrow> legislator \<Rightarrow> (lvote option \<times> legislator) res" where
  "restore_msg e readOnly msg bytesRead cpVote s =
     (let h = msg_hdr msg; known = (l_maxBallot s = NoBallot \<or> l_maxBallot s \<ge> m_ballot h) in
      bindE (log_assert (m_ballot h \<noteq> NoBallot) ()) (\<lambda>_.
      bindE (AddMessageToLog msg s) (\<lambda>s.
      bindE (log_assert (lf_dataLen (last (l_logFiles s)) = bytesRead) ()) (\<lambda>_.
      if m_decree h < l_lastExecutedDecree s then bindE (log_assert known ()) (\<lambda>_. Inr (cpVote, s))
      else if m_decree h = l_lastExecutedDecree s
      then bindE (log_assert (known \<or> (case msg of PrepareM _ \<Rightarrow> True | _ \<Rightarrow> False) \<and>
                              m_ballotId (l_maxBallot s) + 1 = m_ballotId (m_ballot h)) ()) (\<lambda>_. Inr (cpVote, s))
      else case msg of
             PrepareM p \<Rightarrow> Inr (cpVote, raise_ballot (m_ballot p) s)
           | PlainMsg decision \<Rightarrow> bindE (restore_decision e decision s) (\<lambda>s. Inr (cpVote, s))
           | VoteMsg vote \<Rightarrow> restore_vote e readOnly vote cpVote s
           | _ \<Rightarrow> Inl AssertFailed))))"

fun restore_msgs ::
  "env \<Rightarrow> u64 \<Rightarrow> bool \<Rightarrow> (lmsg \<times> u64) list \<Rightarrow> bool \<Rightarrow> lvote option \<Rightarrow> legislator \<Rightarrow> (bool \<times> lvote option \<times> legislator) res"
where
  "restore_msgs e maxDecree readOnly [] clean cpVote s =
     Inr (l_lastExecutedDecree s < maxDecree \<longrightarrow> clean, cpVote, s)"
| "restore_msgs e maxDecree readOnly ((msg, bytesRead) # msgs) clean cpVote s =
     (if l_lastExecutedDecree s < maxDecree
      then bindE (restore_msg e readOnly msg bytesRead cpVote s) (\<lambda>(cpVote, s).
             restore_msgs e maxDecree readOnly msgs clean cpVote s)
      else Inr (True, cpVote, s))"

text \<open>The loop over the log files; fts holds cpFileTime and lastLogFileTime.\<close>
fun restore_logs ::
  "disk \<Rightarrow> env \<Rightarrow> u64 \<Rightarrow> bool \<Rightarrow> u64 list \<Rightarrow> u64 \<times> u64 \<Rightarrow> lvote option \<Rightarrow> legislator \<Rightarrow>
     (bool \<times> (u64 \<times> u64) \<times> lvote option \<times> legislator) res" where
  "restore_logs k e maxDecree readOnly [] fts cpVote s = Inr (True, fts, cpVote, s)"
| "restore_logs k e maxDecree readOnly (l # ls) fts cpVote s =
     (if l_lastExecutedDecree s < maxDecree
      then let s = s\<lparr>l_logFiles := l_logFiles s @ [LogFile_new (k_bytes k l)]\<rparr> in
           if \<not> k_openLog k l then Inr (False, fts, cpVote, s)
           else let fileTime = k_logTime k l;
                    fts = (if fst fts = 0 then fileTime else fst fts,
                             if snd fts < fileTime then fileTime else snd fts) in
           if \<not> k_readLog k l then Inr (False, fts, cpVote, s)
           else bindE (restore_msgs e maxDecree readOnly (k_messages k l) (k_clean k l) cpVote s) (\<lambda>(ok, cpVote, s).
                if \<not> ok then Inr (False, fts, cpVote, s)
                else restore_logs k e maxDecree readOnly ls fts cpVote s)
      else Inr (True, fts, cpVote, s))"

text \<open>The log files read: from the last one that starts no later than the decree after the checkpoint.\<close>
definition logs_to_read :: "u64 \<Rightarrow> u64 list \<Rightarrow> u64 list" where
  "logs_to_read checkpointed logs =
     (let after = length (takeWhile (\<lambda>l. l > checkpointed + 1) (rev logs)) in
      if after = length logs then [] else drop (length logs - after - 1) logs)"

definition restore_time :: "env \<Rightarrow> u64 \<times> u64 \<Rightarrow> legislator \<Rightarrow> legislator" where
  "restore_time e fts s =
     (if l_nextCheckpointTime s \<noteq> I64_MAX \<and> snd fts > fst fts
      then let timeUpInUs = sint (snd fts - fst fts) in
           if l_nextCheckpointTime s - timeUpInUs > e_now e
           then s\<lparr>l_nextCheckpointTime := l_nextCheckpointTime s - timeUpInUs\<rparr> else s
      else s)"

text \<open>The end of RestoreState: a checkpoint beyond the log starts a new log.\<close>
definition restore_end :: "disk \<Rightarrow> bool \<Rightarrow> lvote option \<Rightarrow> legislator \<Rightarrow> (bool \<times> legislator) res" where
  "restore_end k readOnly cpVote s =
     bindE (case cpVote of
              None \<Rightarrow> Inr (True, s)
            | Some vote \<Rightarrow>
                if m_decree vote > m_decree (l_maxAcceptedVote s)
                then let s = s\<lparr>l_logFiles := [LogFile_new []]\<rparr> in
                     if readOnly then Inr (True, s\<lparr>l_maxAcceptedVote := vote\<rparr>)
                     else if \<not> k_openLog k (m_decree vote) then Inr (False, s)
                     else let s = s\<lparr>l_logNumbers := insort_insert (m_decree vote) (l_logNumbers s)\<rparr> in
                     if m_ballot vote = NoBallot then Inr (True, s\<lparr>l_maxAcceptedVote := vote\<rparr>)
                     else if \<not> k_writeOk k then Inr (False, s)
                     else bindE (AddMessageToLog (VoteMsg vote) (s\<lparr>l_log := l_log s @ [VoteMsg vote]\<rparr>)) (\<lambda>s.
                            Inr (True, s\<lparr>l_maxAcceptedVote := vote\<rparr>))
                else Inr (True, s)) (\<lambda>(ok, s).
     if \<not> ok then Inr (False, s)
     else bindE (log_assert (l_lastExecutedDecree s = 0 \<or> l_lastExecutedDecree s = m_decree (l_maxAcceptedVote s) - 1) ()) (\<lambda>_.
          if readOnly then Inr (True, s)
          else if l_logFiles s = [] then Inl OutOfBounds
          else Inr (k_setWritePointer k, s)))"

text \<open>The logs from the checkpoint on, and the end.\<close>
definition restore_from :: "disk \<Rightarrow> env \<Rightarrow> u64 \<Rightarrow> bool \<Rightarrow> u64 \<Rightarrow> lvote option \<Rightarrow> legislator \<Rightarrow> (bool \<times> legislator) res" where
  "restore_from k e maxDecree readOnly cpFileTime cpVote s =
     bindE (restore_logs k e maxDecree readOnly (logs_to_read (l_checkpointedDecree s) (l_logNumbers s))
              (cpFileTime, 0) cpVote s) (\<lambda>(ok, fts, cpVote, s).
     if \<not> ok then Inr (False, s) else restore_end k readOnly cpVote (restore_time e fts s))"

text \<open>No checkpoint could be loaded: the logs must start with decree 0.\<close>
definition restore_fresh :: "disk \<Rightarrow> env \<Rightarrow> u64 \<Rightarrow> bool \<Rightarrow> legislator \<Rightarrow> (bool \<times> legislator) res" where
  "restore_fresh k e maxDecree readOnly s =
     (let s = s\<lparr>l_checkpointSize := 0, l_checkpointedDecree := 0, l_lastExecutedDecree := 0\<rparr> in
      if l_logNumbers s \<noteq> [] \<and> hd (l_logNumbers s) \<noteq> 0 then Inr (False, s)
      else let s = s\<lparr>l_calls := l_calls s @ [LoadState None]\<rparr> in
      if l_logNumbers s = []
      then let s = s\<lparr>l_logFiles := l_logFiles s @ [LogFile_new []]\<rparr> in
           if readOnly then Inr (True, s)
           else if \<not> k_openLog k 0 then Inr (False, s)
           else Inr (True, s\<lparr>l_logNumbers := [0]\<rparr>)
      else restore_from k e maxDecree readOnly 0 None s)"

definition RestoreState ::
  "disk \<Rightarrow> env \<Rightarrow> u64 \<Rightarrow> bool \<Rightarrow> u32 \<Rightarrow> legislator \<Rightarrow> (bool \<times> legislator) res" where
  "RestoreState k e maxDecree readOnly initialConfigNumber s =
     (let conf = \<lparr>ci_configurationNumber = initialConfigNumber, ci_initialDecree = 0, ci_memberSet = MemberSet_new\<rparr>;
          s = s\<lparr>l_stateConfiguration := conf, l_paxosConfiguration := conf\<rparr> in
      bindE (Vote_empty (l_version s) (l_memberId s) 0 initialConfigNumber NoBallot (l_primaryCookie s) False) (\<lambda>vote.
      let s = s\<lparr>l_maxAcceptedVote := vote\<rparr> in
      bindE (restore_checkpoint k maxDecree (rev (l_codexFiles s)) s) (\<lambda>(cp, s).
      case cp of
        MissingLogs \<Rightarrow> Inr (False, s)
      | Loaded vote cpFileTime \<Rightarrow> restore_from k e maxDecree readOnly cpFileTime (Some vote) s
      | NoCheckpoint \<Rightarrow> restore_fresh k e maxDecree readOnly s)))"

end
