(* ===== verification/Restore_Laws.thy ===== *)
theory Restore_Laws
  imports Restore Legis_Safety
begin

text \<open>
  A restart forgets neither a promise nor an accepted vote: what RestoreState
  makes of a checkpoint and the log behind it, compared with the view of the
  replica that wrote them.
\<close>

section \<open>Histories of a group\<close>

text \<open>
  The order in a replica's log that the members of a group keep together: a
  prepare is for a decree not below the last accepted one, and a vote for the
  next decree does not follow a reconfiguration in the same configuration.
  The flag says whether the last accepted vote is a reconfiguration.
\<close>
fun reconf_after :: "bool \<Rightarrow> lmsg \<Rightarrow> bool" where
  "reconf_after r (VoteMsg v) = lv_isReconfiguration v"
| "reconf_after r (PrepareM pm) = r"
| "reconf_after r _ = False"

fun in_order :: "bool \<Rightarrow> u64 \<Rightarrow> lmsg \<Rightarrow> bool" where
  "in_order r d (VoteMsg v) \<longleftrightarrow> (m_decree v = d + 1 \<longrightarrow> \<not> r)"
| "in_order r d (PrepareM pm) \<longleftrightarrow> d \<le> m_decree pm"
| "in_order r d _ \<longleftrightarrow> True"

fun dec_of :: "pview \<Rightarrow> u64" where
  "dec_of (c, mb, d, b) = d"

fun orderly :: "bool \<Rightarrow> lmsg list \<Rightarrow> pview \<Rightarrow> bool" where
  "orderly r [] p \<longleftrightarrow> True"
| "orderly r (m # ms) p \<longleftrightarrow> in_order r (dec_of p) m \<and>
     (case replay1 m p of None \<Rightarrow> False | Some q \<Rightarrow> orderly (reconf_after r m) ms q)"

lemma replay1_dec:
  assumes "replay1 m p = Some q" "room 1 p"
  shows "dec_of p \<le> dec_of q"
proof -
  obtain c mb d b where p: "p = (c, mb, d, b)" by (cases p) auto
  have "unat (d + 1) = unat d + 1 \<and> d + 1 \<noteq> 0" by (rule word_inc) (use assms(2) p in simp)
  then have "d \<le> d + 1" by (simp add: word_le_nat_alt)
  then show ?thesis using assms by (cases m) (auto simp: p decree_defs split: if_splits)
qed

lemma room_mono: "room n p \<Longrightarrow> k \<le> n \<Longrightarrow> room k p"
  by (cases p) auto

lemma replay_dec:
  assumes "replay ms p = Some q" "good_view p" "room (length ms) p"
  shows "dec_of p \<le> dec_of q"
  using assms
proof (induction ms arbitrary: p)
  case (Cons m ms)
  obtain p' where p': "replay1 m p = Some p'" "replay ms p' = Some q"
    using Cons.prems(1) by (auto split: option.splits)
  have "good_view p' \<and> room (length ms) p'" using replay1_good [OF p'(1)] Cons.prems(2,3) by simp
  moreover have "dec_of p \<le> dec_of p'" using replay1_dec [OF p'(1)] room_mono [OF Cons.prems(3)] by simp
  ultimately show ?case using Cons.IH [OF p'(2)] by fastforce
qed simp

section \<open>What the pieces of RestoreState keep\<close>

text \<open>The part of the state a restart rebuilds.\<close>
definition memory :: "legislator \<Rightarrow> ConfigurationInfo \<times> ConfigurationInfo \<times> mid BallotNumber \<times> lvote \<times> u64" where
  "memory s = (l_paxosConfiguration s, l_stateConfiguration s, l_maxBallot s, l_maxAcceptedVote s, l_lastExecutedDecree s)"

lemma memory_simps [simp]:
  "memory (s\<lparr>l_logFiles := fs\<rparr>) = memory s" "memory (s\<lparr>l_calls := cs\<rparr>) = memory s"
  "memory (s\<lparr>l_checkpointAllowed := y\<rparr>) = memory s" "memory (s\<lparr>l_logNumbers := ns\<rparr>) = memory s"
  "memory (s\<lparr>l_codexFiles := ns\<rparr>) = memory s" "memory (s\<lparr>l_nextCheckpointTime := d\<rparr>) = memory s"
  "memory (s\<lparr>l_checkpointSize := x\<rparr>) = memory s" "memory (s\<lparr>l_checkpointedDecree := x\<rparr>) = memory s"
  "memory (s\<lparr>l_log := ms\<rparr>) = memory s" "memory (s\<lparr>l_copyCheckpointAtDecree := x\<rparr>) = memory s"
  "memory (s\<lparr>l_saveCheckpointAtDecree := x\<rparr>) = memory s"
  by (simp_all add: memory_def)

lemma memory_time [simp]: "memory (restore_time e fts s) = memory s"
  by (simp add: restore_time_def Let_def)

lemma memory_AddMessage: "AddMessageToLog m s = Inr s' \<Longrightarrow> memory s' = memory s"
  using AddMessageToLog_shape by fastforce

lemma memory_CheckpointDone:
  assumes "CheckpointDone e d n s = Inr s'"
  shows "memory s' = memory s"
proof -
  obtain s1 where "CleanupLogsAndCheckpoint e s1 = Inr s'" "memory s1 = memory s"
    using assms by (auto simp: CheckpointDone_def Let_def split: if_splits)
  then show ?thesis by (auto simp: CleanupLogsAndCheckpoint_def Let_def bindE_eq_Inr)
qed

lemma memory_SaveCheckpoint:
  assumes "SaveCheckpoint e v b s = Inr (r, s')"
  shows "memory s' = memory s"
proof (cases "b \<and> \<not> fst (e_trySaveState e)")
  case False
  then obtain s1 cs where "CheckpointDone e (m_decree v - 1) (snd (e_trySaveState e)) s = Inr s1" "s' = s1\<lparr>l_calls := cs\<rparr>"
    using assms unfolding SaveCheckpoint_def Let_def if_not_P [OF False] bindE_eq_Inr by blast
  then show ?thesis using memory_CheckpointDone by simp
qed (use assms in \<open>auto simp: SaveCheckpoint_def Let_def bindE_eq_Inr\<close>)

lemma ExecuteVote_memory:
  assumes "ExecuteVote e v s = Inr (r, s')" "m_decree v = l_lastExecutedDecree s + 1"
  shows "l_paxosConfiguration s' = l_paxosConfiguration s \<and> l_maxBallot s' = l_maxBallot s \<and>
    l_maxAcceptedVote s' = l_maxAcceptedVote s \<and> l_lastExecutedDecree s' = m_decree v \<and>
    (if lv_isReconfiguration v
     then ci_configurationNumber (l_stateConfiguration s') = ci_configurationNumber (l_stateConfiguration s) + 1
     else l_stateConfiguration s' = l_stateConfiguration s)"
  using assms by (auto simp: ExecuteVote_def Let_def bindE_eq_Inr split: if_splits option.splits)

section \<open>Reading a log under an invariant\<close>

text \<open>
  An invariant of the state after some messages have been read, with the
  messages still to come: every message keeps it, the list of open log files does
  not matter to it, and reading has not reached its last decree.
\<close>
locale log_reader =
  fixes e :: env and readOnly :: bool and maxDecree :: u64
    and J :: "lmsg list \<Rightarrow> lvote option \<Rightarrow> legislator \<Rightarrow> bool"
  assumes step: "J (m # ms) cp s \<Longrightarrow> restore_msg e readOnly m n cp s = Inr (cp', s') \<Longrightarrow> J ms cp' s'"
    and same_memory: "J ms cp s \<Longrightarrow> memory s' = memory s \<Longrightarrow> J ms cp s'"
    and goes_on: "J ms cp s \<Longrightarrow> l_lastExecutedDecree s < maxDecree"
begin

lemma msgs:
  assumes "J (map fst msgs @ rest) cp s" "restore_msgs e maxDecree readOnly msgs clean cp s = Inr (ok, cp', s')"
  shows "J rest cp' s'"
  using assms
proof (induction msgs arbitrary: cp s)
  case (Cons mn msgs)
  obtain m n where mn: "mn = (m, n)" by fastforce
  obtain cp1 s1 where "restore_msg e readOnly m n cp s = Inr (cp1, s1)"
      "restore_msgs e maxDecree readOnly msgs clean cp1 s1 = Inr (ok, cp', s')"
    using Cons.prems goes_on [OF Cons.prems(1)] by (auto simp: mn bindE_eq_Inr)
  then show ?case using Cons.IH step Cons.prems(1) by (simp add: mn) blast
qed simp

lemma logs:
  assumes "J (concat (map (\<lambda>l. map fst (k_messages k l)) ls) @ rest) cp s"
    and "restore_logs k e maxDecree readOnly ls fts cp s = Inr (True, fts', cp', s')"
  shows "J rest cp' s'"
  using assms
proof (induction ls arbitrary: cp s fts)
  case (Cons l ls)
  let ?s = "s\<lparr>l_logFiles := l_logFiles s @ [LogFile_new (k_bytes k l)]\<rparr>"
  obtain ok cp1 s1 fts1 where run: "restore_msgs e maxDecree readOnly (k_messages k l) (k_clean k l) cp ?s = Inr (ok, cp1, s1)"
      "restore_logs k e maxDecree readOnly ls fts1 cp1 s1 = Inr (True, fts', cp', s')"
    using Cons.prems(2) goes_on [OF Cons.prems(1)]
    by (cases fts) (auto simp: Let_def bindE_eq_Inr simp del: fst_conv snd_conv split: if_splits)
  have "J (map fst (k_messages k l) @ concat (map (\<lambda>l. map fst (k_messages k l)) ls) @ rest) cp ?s"
    using same_memory [OF Cons.prems(1), of ?s] by simp
  from Cons.IH [OF msgs [OF this run(1)] run(2)] show ?case .
qed simp

end

section \<open>The replica follows its history\<close>

text \<open>No accepted vote yet: the empty vote RestoreState starts with.\<close>
definition no_vote :: "lvote \<Rightarrow> bool" where
  "no_vote v \<longleftrightarrow> m_decree v = 0 \<and> m_ballot v = NoBallot"

text \<open>
  Before the checkpoint's decree has been passed in the log: the state is that of
  the checkpoint, of decree D, and messages up to D are skipped.
\<close>
fun before_cp :: "u64 \<Rightarrow> ConfigurationInfo \<Rightarrow> mid BallotNumber \<Rightarrow> bool \<Rightarrow> pview \<Rightarrow> legislator \<Rightarrow> bool" where
  "before_cp D cf B r (c, mb, d, b) s \<longleftrightarrow>
     l_lastExecutedDecree s = D \<and> l_paxosConfiguration s = cf \<and> l_stateConfiguration s = cf \<and> B \<le> l_maxBallot s \<and>
     (d \<le> D \<and> no_vote (l_maxAcceptedVote s) \<or>
      d = D + 1 \<and> b = NoBallot \<and> no_vote (l_maxAcceptedVote s) \<or>
      d = D + 1 \<and> m_decree (l_maxAcceptedVote s) = d \<and> m_ballot (l_maxAcceptedVote s) = b \<and>
      lv_isReconfiguration (l_maxAcceptedVote s) = r)"

text \<open>From then on it follows the history; only the promised ballot may be higher.\<close>
fun after_cp :: "bool \<Rightarrow> pview \<Rightarrow> legislator \<Rightarrow> bool" where
  "after_cp r (c, mb, d, b) s \<longleftrightarrow>
     l_lastExecutedDecree s = d - 1 \<and> ci_configurationNumber (l_paxosConfiguration s) = c \<and>
     ci_configurationNumber (l_stateConfiguration s) = c \<and> mb \<le> l_maxBallot s \<and>
     (b = NoBallot \<and> no_vote (l_maxAcceptedVote s) \<or>
      m_decree (l_maxAcceptedVote s) = d \<and> m_ballot (l_maxAcceptedVote s) = b \<and>
      lv_isReconfiguration (l_maxAcceptedVote s) = r)"

lemma before_after:
  "before_cp D cf B r (ci_configurationNumber cf, mb, D + 1, b) s \<Longrightarrow> mb \<le> B \<Longrightarrow> D + 1 \<noteq> 0 \<Longrightarrow>
   after_cp r (ci_configurationNumber cf, mb, D + 1, b) s"
  by (auto dest!: word_less_inc dest: leD)

lemma after_cp_cong: "after_cp r p s \<Longrightarrow> memory s' = memory s \<Longrightarrow> after_cp r p s'"
  by (cases p) (auto simp: memory_def)

lemma before_cp_cong: "before_cp D cf B r p s \<Longrightarrow> memory s' = memory s \<Longrightarrow> before_cp D cf B r p s'"
  by (cases p) (auto simp: memory_def)

lemma restore_msg_cases:
  assumes "restore_msg e ro m n cp s = Inr (cp', s')"
  obtains s1 where "memory s1 = memory s" "m_ballot (msg_hdr m) \<noteq> NoBallot"
    "m_decree (msg_hdr m) \<le> l_lastExecutedDecree s" "cp' = cp" "s' = s1"
  | s1 p where "memory s1 = memory s" "m_decree p > l_lastExecutedDecree s" "m = PrepareM p" "cp' = cp"
    "s' = raise_ballot (m_ballot p) s1"
  | s1 decision where "memory s1 = memory s" "m_ballot decision \<noteq> NoBallot" "m_decree decision > l_lastExecutedDecree s"
    "m = PlainMsg decision" "cp' = cp" "restore_decision e decision s1 = Inr s'"
  | s1 v where "memory s1 = memory s" "m_ballot v \<noteq> NoBallot" "m_decree v > l_lastExecutedDecree s"
    "m = VoteMsg v" "restore_vote e ro v cp s1 = Inr (cp', s')"
proof -
  obtain s1 where s1: "AddMessageToLog m s = Inr s1"
    using assms by (auto simp: restore_msg_def Let_def bindE_eq_Inr)
  have mem: "memory s1 = memory s" "l_lastExecutedDecree s1 = l_lastExecutedDecree s"
    using memory_AddMessage [OF s1] by (simp_all add: memory_def)
  show thesis
    using assms mem that(1-4) [of s1] s1
    by (cases m) (auto simp: restore_msg_def Let_def bindE_eq_Inr Message.defs not_less neq_iff split: if_splits)
qed

lemma inc_ballot:
  assumes "mb \<le> B" "unat (m_ballotId B) + 1 < 2 ^ 32"
  shows "BallotNumber (m_ballotId mb + 1) (Mid []) \<le> BallotNumber (m_ballotId B + 1) (Mid [])"
proof -
  have "m_ballotId mb \<le> m_ballotId B"
    using assms(1) by (cases mb; cases B) (auto simp: less_eq_BallotNumber_def)
  then have "m_ballotId mb = m_ballotId B \<or> m_ballotId mb + 1 < m_ballotId B + 1"
    using assms(2) by (auto simp: word_le_nat_alt word_less_nat_alt unat_word_ariths word_unat_eq_iff)
  then show ?thesis by (auto simp: less_eq_BallotNumber_def)
qed

lemma raise_ballot_simps [simp]:
  "l_paxosConfiguration (raise_ballot b s) = l_paxosConfiguration s" "l_stateConfiguration (raise_ballot b s) = l_stateConfiguration s"
  "l_maxAcceptedVote (raise_ballot b s) = l_maxAcceptedVote s" "l_lastExecutedDecree (raise_ballot b s) = l_lastExecutedDecree s"
  "l_maxBallot (raise_ballot b s) = max (l_maxBallot s) b"
  by (auto simp: raise_ballot_def max_def not_less)

lemma memory_execute:
  assumes "restore_execute e ro v cp s = Inr (cp', s')"
  shows "\<exists>x s2. ExecuteVote e (l_maxAcceptedVote s) s = Inr (x, s2) \<and> memory s' = memory s2 \<and> (cp' = cp \<or> cp' = Some v)"
proof -
  obtain x s2 where x: "ExecuteVote e (l_maxAcceptedVote s) s = Inr (x, s2)"
    using assms by (auto simp: restore_execute_def bindE_eq_Inr)
  have "memory s' = memory s2 \<and> (cp' = cp \<or> cp' = Some v)"
  proof (cases "x \<and> \<not> ro")
    case True
    then obtain ok s3 where "SaveCheckpoint e v True s2 = Inr (ok, s3)" "cp' = Some v"
        "s' = (if ok then s3 else s3\<lparr>l_checkpointAllowed := False\<rparr>)"
      using assms x by (auto simp: restore_execute_def bindE_eq_Inr)
    then show ?thesis using memory_SaveCheckpoint by simp
  qed (use assms x in \<open>auto simp: restore_execute_def\<close>)
  with x show ?thesis by blast
qed

lemma after_vote:
  assumes "after_cp r (c, mb, d, b) s" "replay1 (VoteMsg v) (c, mb, d, b) = Some q" "in_order r d (VoteMsg v)"
    and "restore_vote e ro v cp s = Inr (cp', s')" "m_ballot v \<noteq> NoBallot" "d \<noteq> 0"
  shows "after_cp (lv_isReconfiguration v) q s' \<and> (cp' = cp \<or> cp' = Some v)"
proof -
  let ?acc = "l_maxAcceptedVote s"
  have q: "q = (c, max mb (m_ballot v), m_decree v, m_ballot v)" and nx: "IsNextDecree v d b"
    using assms(2) by (auto split: if_splits)
  have dec: "m_decree v = d" if "b = NoBallot" using nx that assms(5) by (auto simp: decree_defs)
  show ?thesis
  proof (cases "m_decree v = d")
    case True
    moreover have "d \<noteq> d + 1" by simp
    ultimately have "cp' = cp \<and> s' = raise_ballot (m_ballot v) (s\<lparr>l_maxAcceptedVote := v\<rparr>)"
      using assms(1,4) by (auto simp: restore_vote_def Let_def bindE_eq_Inr no_vote_def split: if_splits)
    then show ?thesis using assms(1) True by (auto simp: q max_def)
  next
    case False
    then have vd: "m_decree v = d + 1" "b \<noteq> NoBallot" using nx dec by (auto simp: decree_defs)
    with assms(1) have acc: "m_decree ?acc = d" "m_ballot ?acc = b" "lv_isReconfiguration ?acc = r" by auto
    then obtain s1 where ex: "restore_execute e ro v cp s = Inr (cp', s1)" "s' = raise_ballot (m_ballot v) (s1\<lparr>l_maxAcceptedVote := v\<rparr>)"
      using assms(4) vd by (auto simp: restore_vote_def Let_def bindE_eq_Inr)
    then obtain x s2 where x: "ExecuteVote e ?acc s = Inr (x, s2)" "memory s1 = memory s2" "cp' = cp \<or> cp' = Some v"
      using memory_execute by blast
    have "m_decree ?acc = l_lastExecutedDecree s + 1" using assms(1) acc by simp
    from ExecuteVote_memory [OF x(1) this] show ?thesis
      using assms(1,3) acc vd x(2,3) ex(2) by (auto simp: q memory_def max_def)
  qed
qed

lemma after_decision:
  assumes "after_cp r (c, mb, d, b) s" "replay1 (PlainMsg m) (c, mb, d, b) = Some q"
    and "restore_decision e m s = Inr s'" "m_ballot m \<noteq> NoBallot" "unat (m_ballotId (l_maxBallot s)) + 1 < 2 ^ 32"
  shows "after_cp False q s'"
proof -
  let ?acc = "l_maxAcceptedVote s"
  have q: "q = (c + 1, BallotNumber (m_ballotId mb + 1) (Mid []), d + 1, NoBallot)" "m_decree m = d" "m_ballot m = b"
    using assms(2) by (auto split: if_splits)
  then have acc: "m_decree ?acc = d" "l_lastExecutedDecree s + 1 = d" using assms(1,4) by auto
  obtain x s1 vote where x: "ExecuteVote e ?acc s = Inr (x, s1)" "lv_isReconfiguration ?acc"
      "Vote_empty (l_version s1) (l_memberId s1) (d + 1) 0 NoBallot (l_primaryCookie s1) False = Inr vote"
      "s' = s1\<lparr>l_paxosConfiguration := l_stateConfiguration s1, l_maxAcceptedVote := vote,
               l_maxBallot := BallotNumber (m_ballotId (l_maxBallot s1) + 1) (Mid [])\<rparr>"
    using assms(3) q(2) by (auto simp: restore_decision_def Let_def bindE_eq_Inr)
  have "m_decree vote = d + 1 \<and> m_ballot vote = NoBallot \<and> \<not> lv_isReconfiguration vote"
    using x(3) by (auto simp: Vote_empty_def lvote_init_def bindE_eq_Inr Message.defs lvote.defs)
  moreover have "m_decree ?acc = l_lastExecutedDecree s + 1" using acc by simp
  ultimately show ?thesis
    using ExecuteVote_memory [OF x(1)] x(2,4) assms(1,5) acc inc_ballot [of mb "l_maxBallot s"] by (auto simp: q)
qed

lemma legal_dec:
  assumes "replay1 m (c, mb, d, b) = Some q" "in_order r d m" "d + 1 \<noteq> 0"
  shows "d \<le> m_decree (msg_hdr m)"
  using assms word_less_inc [OF assms(3)]
  by (cases m) (auto simp: decree_defs Message.defs order_less_imp_le split: if_splits)

lemma after_step:
  assumes "after_cp r (c, mb, d, b) s" "replay1 m (c, mb, d, b) = Some q" "in_order r d m"
    and run: "restore_msg e ro m n cp s = Inr (cp', s')"
    and "d \<noteq> 0" "d + 1 \<noteq> 0" "unat (m_ballotId (l_maxBallot s)) + 1 < 2 ^ 32"
  shows "after_cp (reconf_after r m) q s' \<and> (cp' = cp \<or> (\<exists>v. cp' = Some v \<and> m_decree v = dec_of q))"
  using run
proof (cases rule: restore_msg_cases)
  case (1 s1)
  have "d - 1 < d" using word_less_inc [of "d - 1"] assms(5) by simp
  then show ?thesis using legal_dec [OF assms(2,3,6)] 1(3) assms(1) by simp
next
  case (2 s1 p)
  then have "after_cp r (c, mb, d, b) s1" using after_cp_cong [OF assms(1)] by blast
  then show ?thesis using 2 assms(2) by (auto simp: max_def split: if_splits)
next
  case (3 s1 decision)
  have "after_cp r (c, mb, d, b) s1" "l_maxBallot s1 = l_maxBallot s"
    using after_cp_cong [OF assms(1) 3(1)] 3(1) by (simp_all add: memory_def)
  from after_decision [OF this(1) _ 3(6,2)] this(2) show ?thesis using 3(4,5) assms(2,7) by simp
next
  case (4 s1 v)
  have "after_cp r (c, mb, d, b) s1" using after_cp_cong [OF assms(1) 4(1)] .
  from after_vote [OF this _ _ 4(5,2) assms(5)] show ?thesis using 4(4) assms(2,3) by (auto split: if_splits)
qed

lemma before_step:
  assumes "before_cp D cf B r (c, mb, d, b) s" "replay1 m (c, mb, d, b) = Some q" "in_order r d m"
    and run: "restore_msg e ro m n cp s = Inr (cp', s')"
    and "dec_of q \<le> D + 1" "D + 1 \<noteq> 0" "d + 1 \<noteq> 0"
  shows "before_cp D cf B (reconf_after r m) q s' \<and> cp' = cp"
proof -
  have D: "\<And>x. x \<le> D + 1 \<longleftrightarrow> x \<le> D \<or> x = D + 1" "\<not> D + 1 \<le> D"
    using word_less_inc [OF assms(6)] unatSuc [of D] assms(6) by (auto simp: word_le_nat_alt word_unat_eq_iff add.commute)
  show ?thesis
    using run
  proof (cases rule: restore_msg_cases)
    case (1 s1)
    have "d \<le> D" using legal_dec [OF assms(2,3,7)] 1(3) assms(1) by (auto intro: order_trans)
    then have "before_cp D cf B r (c, mb, d, b) s1" "no_vote (l_maxAcceptedVote s)" "no_vote (l_maxAcceptedVote s1)"
      using before_cp_cong [OF assms(1) 1(1)] assms(1) 1(1) D(2) by (auto simp: memory_def)
    then show ?thesis using 1 assms(1,2,5) D by (cases m) (auto simp: Message.defs split: if_splits)
  next
    case (2 s1 p)
    then have "before_cp D cf B r (c, mb, d, b) s1" using before_cp_cong [OF assms(1)] by blast
    then show ?thesis using 2 assms(2) by (auto simp: max_def split: if_splits)
  next
    case (3 s1 decision)
    then have "d = D + 1" "dec_of q = d + 1" using assms(1,2) by (auto simp: not_less [symmetric] split: if_splits)
    then show ?thesis using assms(5) word_less_inc [OF assms(7)] by simp
  next
    case (4 s1 v)
    have s1: "before_cp D cf B r (c, mb, d, b) s1" using before_cp_cong [OF assms(1) 4(1)] .
    have v: "m_decree v = D + 1" using assms(1,2,5) 4(3,4) D by (auto split: if_splits)
    moreover have "D + 1 \<noteq> D + 1 + 1" by simp
    ultimately have "cp' = cp \<and> s' = raise_ballot (m_ballot v) (s1\<lparr>l_maxAcceptedVote := v\<rparr>)"
      using 4(5) s1 D by (auto simp: restore_vote_def Let_def bindE_eq_Inr no_vote_def split: if_splits)
    then show ?thesis using s1 v assms(2) 4(4) by (auto simp: max_def split: if_splits)
  qed
qed

text \<open>How far the ballot of a restarted replica can run ahead.\<close>
lemma restore_msg_ids:
  assumes "restore_msg e ro m n cp s = Inr (cp', s')"
  shows "unat (m_ballotId (l_maxBallot s')) \<le>
    max (unat (m_ballotId (l_maxBallot s))) (unat (m_ballotId (m_ballot (msg_hdr m)))) + 1"
  using assms
proof (cases rule: restore_msg_cases)
  case (3 s1 decision)
  then obtain x s2 where "ExecuteVote e (l_maxAcceptedVote s1) s1 = Inr (x, s2)"
      "l_maxBallot s' = BallotNumber (m_ballotId (l_maxBallot s2) + 1) (Mid [])"
    by (auto simp: restore_decision_def Let_def bindE_eq_Inr)
  moreover from this(1) have "l_maxBallot s2 = l_maxBallot s1"
    by (auto simp: ExecuteVote_def Let_def bindE_eq_Inr split: if_splits option.splits)
  ultimately show ?thesis using 3(1) by (simp add: memory_def unat_word_ariths)
next
  case (4 s1 v)
  have "l_maxBallot s2 = l_maxBallot s1" if "restore_execute e ro v cp s1 = Inr (cp', s2)" for s2
    using memory_execute [OF that] by (auto simp: memory_def ExecuteVote_def Let_def bindE_eq_Inr split: if_splits option.splits)
  then have "l_maxBallot s' = max (l_maxBallot s1) (m_ballot v)"
    using 4(5) by (auto simp: restore_vote_def Let_def bindE_eq_Inr split: if_splits)
  then show ?thesis using 4(1,4) by (auto simp: memory_def max_def Message.defs)
qed (auto simp: memory_def max_def Message.defs)

text \<open>
  The invariant of a restart from a checkpoint of decree D in configuration cf
  with promised ballot B, on the way to the view q of the replica that wrote the log.
\<close>
definition restoring ::
  "u64 \<Rightarrow> ConfigurationInfo \<Rightarrow> mid BallotNumber \<Rightarrow> u64 \<Rightarrow> pview \<Rightarrow> lmsg list \<Rightarrow> lvote option \<Rightarrow> legislator \<Rightarrow> bool" where
  "restoring D cf B maxDecree q ms cp s \<longleftrightarrow> (\<exists>p r cpVote. cp = Some cpVote \<and> D + 1 \<noteq> 0 \<and>
     replay ms p = Some q \<and> good_view p \<and> room (length ms + 1) p \<and> orderly r ms p \<and> dec_of q \<le> maxDecree \<and>
     (\<forall>m \<in> set ms. unat (m_ballotId (m_ballot (msg_hdr m))) + length ms < 2 ^ 32) \<and>
     unat (m_ballotId (l_maxBallot s)) + length ms < 2 ^ 32 \<and>
     (after_cp r p s \<and> m_decree cpVote \<noteq> 0 \<and> m_decree cpVote \<le> dec_of p \<or>
      before_cp D cf B r p s \<and> m_decree cpVote = D + 1 \<and>
      (\<exists>old new mb b. ms = old @ new \<and> replay old p = Some (ci_configurationNumber cf, mb, D + 1, b) \<and> mb \<le> B)))"

lemma restoring_cong:
  assumes "restoring D cf B maxDecree q ms cp s" "memory s' = memory s"
  shows "restoring D cf B maxDecree q ms cp s'"
proof -
  have "l_maxBallot s' = l_maxBallot s" using assms(2) by (simp add: memory_def)
  moreover have "after_cp r p s' = after_cp r p s" "before_cp D cf B r p s' = before_cp D cf B r p s" for r p
    using after_cp_cong before_cp_cong assms(2) by metis+
  ultimately show ?thesis using assms(1) by (simp add: restoring_def)
qed

lemma restoringE:
  assumes "restoring D cf B maxDecree q ms cp s"
  obtains p r cpVote where "cp = Some cpVote" "D + 1 \<noteq> 0" "replay ms p = Some q" "good_view p" "room (length ms + 1) p"
    "orderly r ms p" "dec_of q \<le> maxDecree"
    "\<forall>x \<in> set ms. unat (m_ballotId (m_ballot (msg_hdr x))) + length ms < 2 ^ 32"
    "unat (m_ballotId (l_maxBallot s)) + length ms < 2 ^ 32"
    "after_cp r p s \<and> m_decree cpVote \<noteq> 0 \<and> m_decree cpVote \<le> dec_of p \<or> before_cp D cf B r p s \<and> m_decree cpVote = D + 1 \<and>
        (\<exists>old new mb b. ms = old @ new \<and> replay old p = Some (ci_configurationNumber cf, mb, D + 1, b) \<and> mb \<le> B)"
  using assms unfolding restoring_def by (elim exE conjE) (rule that; assumption)

lemma restoring_goes_on:
  assumes "restoring D cf B maxDecree q ms cp s"
  shows "l_lastExecutedDecree s < maxDecree"
proof -
  obtain p r where p: "replay ms p = Some q" "good_view p" "room (length ms) p" "dec_of q \<le> maxDecree" "D + 1 \<noteq> 0"
      and ph: "after_cp r p s \<or> before_cp D cf B r p s \<and>
        (\<exists>old new mb b. ms = old @ new \<and> replay old p = Some (ci_configurationNumber cf, mb, D + 1, b))"
    using assms room_mono [of "length ms + 1" _ "length ms"] by (elim restoringE) (blast intro: le_add1)
  obtain c mb d b where pv: "p = (c, mb, d, b)" by (cases p) auto
  have d: "d - 1 < d" using word_less_inc [of "d - 1"] p(2) pv by simp
  have le: "dec_of p \<le> maxDecree" using replay_dec [OF p(1-3)] p(4) by simp
  from ph show ?thesis
  proof
    assume "after_cp r p s"
    then show ?thesis using d le pv by simp
  next
    assume b: "before_cp D cf B r p s \<and> (\<exists>old new mb b. ms = old @ new \<and> replay old p = Some (ci_configurationNumber cf, mb, D + 1, b))"
    then obtain old new mb' b' where o: "ms = old @ new" "replay old p = Some (ci_configurationNumber cf, mb', D + 1, b')" by blast
    have "good_view (ci_configurationNumber cf, mb', D + 1, b') \<and> room (length new) (ci_configurationNumber cf, mb', D + 1, b')"
      using replay_good [OF o(2) p(2), of "length new"] p(3) o(1) by simp
    moreover have "replay new (ci_configurationNumber cf, mb', D + 1, b') = Some q" using p(1) o by (simp add: replay_append)
    ultimately have "D + 1 \<le> maxDecree" using replay_dec p(4) by fastforce
    then show ?thesis using b word_less_inc [OF p(5)] pv by simp
  qed
qed

lemma restoring_step:
  assumes "restoring D cf B maxDecree q (m # ms) cp s" and run: "restore_msg e ro m n cp s = Inr (cp', s')"
  shows "restoring D cf B maxDecree q ms cp' s'"
proof -
  obtain p r cpVote where p: "cp = Some cpVote" "D + 1 \<noteq> 0" "replay (m # ms) p = Some q" "good_view p"
      "room (length (m # ms) + 1) p" "orderly r (m # ms) p" "dec_of q \<le> maxDecree"
    and ids: "\<forall>x \<in> set (m # ms). unat (m_ballotId (m_ballot (msg_hdr x))) + length (m # ms) < 2 ^ 32"
      "unat (m_ballotId (l_maxBallot s)) + length (m # ms) < 2 ^ 32"
    and ph: "after_cp r p s \<and> m_decree cpVote \<noteq> 0 \<and> m_decree cpVote \<le> dec_of p \<or> before_cp D cf B r p s \<and> m_decree cpVote = D + 1 \<and>
        (\<exists>old new mb b. m # ms = old @ new \<and> replay old p = Some (ci_configurationNumber cf, mb, D + 1, b) \<and> mb \<le> B)"
    using assms(1) by (rule restoringE)
  obtain c mb d b where pv: "p = (c, mb, d, b)" by (cases p) auto
  obtain p' where p': "replay1 m p = Some p'" "replay ms p' = Some q" "in_order r d m" "orderly (reconf_after r m) ms p'"
    using p(3,6) pv by (auto split: option.splits)
  have good: "good_view p'" "room (length ms + 1) p'"
    using replay1_good [OF p'(1) p(4), of "length ms + 1"] p(5) by simp_all
  have d: "d \<noteq> 0" "d + 1 \<noteq> 0" using p(4,5) pv word_inc [of d] by auto
  have ids': "\<forall>x \<in> set ms. unat (m_ballotId (m_ballot (msg_hdr x))) + length ms < 2 ^ 32"
      "unat (m_ballotId (l_maxBallot s')) + length ms < 2 ^ 32"
    using ids restore_msg_ids [OF run] by (auto simp: max_def split: if_splits)
  have le: "dec_of p \<le> dec_of p'" using replay1_dec [OF p'(1)] room_mono [OF p(5)] by simp
  have aft: "\<exists>cpVote. cp' = Some cpVote \<and> after_cp (reconf_after r m) p' s' \<and> m_decree cpVote \<noteq> 0 \<and> m_decree cpVote \<le> dec_of p'"
    if "after_cp r p s" "m_decree cpVote \<noteq> 0" "m_decree cpVote \<le> dec_of p"
  proof -
    have "after_cp (reconf_after r m) p' s' \<and> (cp' = cp \<or> (\<exists>v. cp' = Some v \<and> m_decree v = dec_of p'))"
      using that(1) p'(1) ids(2) unfolding pv by (intro after_step [OF _ _ p'(3) run d]) auto
    moreover have "dec_of p' \<noteq> 0" using good(1) by (cases p') auto
    ultimately show ?thesis using that(2,3) le p(1) by (auto intro: order_trans)
  qed
  from ph show ?thesis
  proof
    assume "after_cp r p s \<and> m_decree cpVote \<noteq> 0 \<and> m_decree cpVote \<le> dec_of p"
    then show ?thesis using aft p(2,7) p'(2,4) good ids' unfolding restoring_def by blast
  next
    assume bf: "before_cp D cf B r p s \<and> m_decree cpVote = D + 1 \<and>
        (\<exists>old new mb b. m # ms = old @ new \<and> replay old p = Some (ci_configurationNumber cf, mb, D + 1, b) \<and> mb \<le> B)"
    then obtain old new mb' b' where o: "m # ms = old @ new" "mb' \<le> B"
        "replay old p = Some (ci_configurationNumber cf, mb', D + 1, b')" by blast
    show ?thesis
    proof (cases old)
      case Nil
      then have "after_cp r p s" using o before_after [of D cf B r mb' b' s] bf p(2) by simp
      then show ?thesis using aft p(2,7) p'(2,4) good ids' bf o(3) Nil unfolding restoring_def by fastforce
    next
      case (Cons m' old')
      then have old': "ms = old' @ new" "replay old' p' = Some (ci_configurationNumber cf, mb', D + 1, b')"
        using o p'(1) by auto
      have "dec_of p' \<le> D + 1"
        using replay_dec [OF old'(2) good(1)] room_mono [OF good(2)] old'(1) by fastforce
      then have "before_cp D cf B (reconf_after r m) p' s' \<and> cp' = cp"
        using before_step [of D cf B r c mb d b s m p' e ro n cp cp' s'] bf pv p'(1,3) run p(2) d(2) by simp
      then show ?thesis using bf p(1,2,7) p'(2,4) good ids' old' o(2) unfolding restoring_def by blast
    qed
  qed
qed

interpretation rd: log_reader e readOnly maxDecree "restoring D cf B maxDecree q"
  for e readOnly maxDecree D cf B q
  by unfold_locales (fact restoring_step, fact restoring_cong, fact restoring_goes_on)

lemma restoring_done:
  assumes "restoring D cf B maxDecree q [] cp s"
  shows "\<exists>r cpVote. cp = Some cpVote \<and> m_decree cpVote \<noteq> 0 \<and> m_decree cpVote \<le> dec_of q \<and> after_cp r q s"
  using assms before_after by (elim restoringE) fastforce

lemma restore_end_view:
  assumes "restore_end k ro (Some v) s = Inr (True, s')" "after_cp r (c, mb, d, b) s"
    and "m_decree v \<noteq> 0" "m_decree v \<le> d" "d \<noteq> 0"
  shows "PaxosConfiguration s' = c \<and> mb \<le> l_maxBallot s' \<and> m_decree (l_maxAcceptedVote s') = d \<and>
    b \<le> m_ballot (l_maxAcceptedVote s')"
proof (cases "m_decree v > m_decree (l_maxAcceptedVote s)")
  case True
  then have b: "b = NoBallot" using assms(2,4) by auto
  have "l_paxosConfiguration s' = l_paxosConfiguration s \<and> l_maxBallot s' = l_maxBallot s \<and> l_maxAcceptedVote s' = v \<and>
      (d - 1 = 0 \<or> d - 1 = m_decree v - 1)"
    using assms(1,2) True
    by (auto simp: restore_end_def Let_def bindE_eq_Inr memory_def split: if_splits dest!: memory_AddMessage)
  moreover have "m_decree v = d" if "d - 1 = 0 \<or> d - 1 = m_decree v - 1"
  proof -
    have "d = 1 \<or> d = m_decree v" using that by auto
    moreover have "1 \<le> m_decree v" using assms(3) by (simp add: not_less [symmetric])
    ultimately show ?thesis using assms(4) by auto
  qed
  ultimately show ?thesis using assms(2) b by (auto simp: PaxosConfiguration_def)
next
  case False
  then have "s' = s" using assms(1) by (auto simp: restore_end_def bindE_eq_Inr split: if_splits)
  moreover have "\<not> no_vote (l_maxAcceptedVote s)" using False assms(3) by (auto simp: no_vote_def word_gt_0)
  ultimately show ?thesis using assms(2) by (auto simp: PaxosConfiguration_def)
qed

section \<open>Restarting\<close>

lemma restore_checkpoint_newest:
  assumes "k_header k D = Some h" "k_readerInit k D" "k_loadState k D" "lh_stateConfiguration h = Some cf" "D \<le> maxDecree"
    and "restore_checkpoint k maxDecree (D # cs) s = Inr (cp, s')" "cp \<noteq> MissingLogs"
  shows "cp = Loaded (lh_nextVote h) (k_cpTime k D) \<and> l_checkpointedDecree s' = D \<and> l_logNumbers s' = l_logNumbers s \<and>
    memory s' = (cf, cf, lh_maxBallot h, l_maxAcceptedVote s, D)"
  using assms by (auto simp: Let_def bindE_eq_Inr memory_def split: if_splits)

text \<open>What a successful RestoreState went through when the newest checkpoint could be loaded.\<close>
lemma RestoreState_phases:
  assumes restart: "RestoreState k e maxDecree readOnly n t = Inr (True, t')"
    and cps: "l_codexFiles t = cs @ [D]" "k_header k D = Some h" "k_readerInit k D" "k_loadState k D"
    and cf: "lh_stateConfiguration h = Some cf" "D \<le> maxDecree"
  obtains vote s1 fts cp s2 where "no_vote vote" "memory s1 = (cf, cf, lh_maxBallot h, vote, D)"
    "restore_logs k e maxDecree readOnly (logs_to_read D (l_logNumbers t)) (k_cpTime k D, 0) (Some (lh_nextVote h)) s1 =
       Inr (True, fts, cp, s2)"
    "restore_end k readOnly cp (restore_time e fts s2) = Inr (True, t')"
proof -
  define conf where "conf = \<lparr>ci_configurationNumber = n, ci_initialDecree = 0, ci_memberSet = MemberSet_new\<rparr>"
  obtain vote cp s1 where v: "Vote_empty (l_version t) (l_memberId t) 0 n NoBallot (l_primaryCookie t) False = Inr vote"
    and cp: "restore_checkpoint k maxDecree (D # rev cs)
        (t\<lparr>l_stateConfiguration := conf, l_paxosConfiguration := conf, l_maxAcceptedVote := vote\<rparr>) = Inr (cp, s1)"
    and fin: "(case cp of MissingLogs \<Rightarrow> Inr (False, s1)
      | Loaded vote cpFileTime \<Rightarrow> restore_from k e maxDecree readOnly cpFileTime (Some vote) s1
      | NoCheckpoint \<Rightarrow> restore_fresh k e maxDecree readOnly s1) = Inr (True, t')"
    using restart cps(1) unfolding RestoreState_def Let_def conf_def [symmetric]
    by (auto simp: bindE_eq_Inr simp del: restore_checkpoint.simps)
  then have nm: "cp \<noteq> MissingLogs" by auto
  have loaded: "cp = Loaded (lh_nextVote h) (k_cpTime k D) \<and> l_checkpointedDecree s1 = D \<and> l_logNumbers s1 = l_logNumbers t \<and>
      memory s1 = (cf, cf, lh_maxBallot h, vote, D)"
    using restore_checkpoint_newest [OF cps(2-4) cf cp nm] by simp
  moreover have "no_vote vote"
    using v by (auto simp: Vote_empty_def lvote_init_def bindE_eq_Inr Message.defs lvote.defs no_vote_def)
  ultimately show thesis
    using fin by (auto simp: bindE_eq_Inr restore_from_def split: if_splits intro: that)
qed

text \<open>
  C4: a restart forgets no promise.  Take a replica that has run from s0 to
  s, and restart it on the log it has written and a checkpoint taken on the way:
  when its history had reached the decree after the checkpoint, the promised
  ballot was not above the one in the checkpoint's header.  If RestoreState
  succeeds, the replica is in the same configuration, has accepted the vote for
  the same decree, at no lower ballot, and has promised a ballot that is no lower.
  The log must be orderly: every prepare in it is for a decree not below that of
  the vote accepted before it, and no vote for the next decree follows a
  reconfiguration in the same configuration.  The replica does not see to this by
  itself: LearnVotes logs whatever prepare a peer sends it, and the theorem
  learned_prepare_forgotten below shows that the promise is then lost.
\<close>
theorem restart_keeps_promises:
  assumes run: "runs s0 s"
    and log: "concat (map (\<lambda>l. map fst (k_messages k l)) (logs_to_read D (l_logNumbers t))) = l_log s"
    and cps: "l_codexFiles t = cs @ [D]" "k_header k D = Some h" "k_readerInit k D" "k_loadState k D"
    and cf: "lh_stateConfiguration h = Some cf" "m_decree (lh_nextVote h) = D + 1"
    and old: "l_log s = old @ new" "replay old (view s0) = Some (ci_configurationNumber cf, mb, D + 1, b)"
      "mb \<le> lh_maxBallot h" "m_decree (l_maxAcceptedVote s0) \<le> D"
    and ord: "orderly (lv_isReconfiguration (l_maxAcceptedVote s0)) (l_log s) (view s0)"
    and ids: "\<forall>m \<in> set (l_log s). unat (m_ballotId (m_ballot (msg_hdr m))) + length (l_log s) < 2 ^ 32"
      "unat (m_ballotId (lh_maxBallot h)) + length (l_log s) < 2 ^ 32"
    and maxDecree: "m_decree (l_maxAcceptedVote s) \<le> maxDecree"
    and restart: "RestoreState k e maxDecree readOnly n t = Inr (True, t')"
  shows "PaxosConfiguration t' = PaxosConfiguration s \<and> l_maxBallot s \<le> l_maxBallot t' \<and>
    m_decree (l_maxAcceptedVote t') = m_decree (l_maxAcceptedVote s) \<and>
    m_ballot (l_maxAcceptedVote s) \<le> m_ballot (l_maxAcceptedVote t')"
proof -
  have hist: "good_view (view s0)" "room (length (l_log s) + 1) (view s0)" "replay (l_log s) (view s0) = Some (view s)"
    using runs_room [OF run] log_state_replays [OF run] run by (simp_all add: runs_def small_def)
  obtain c mb1 d b1 where vs: "view s = (c, mb1, d, b1)" by (cases "view s") auto
  have mid: "good_view (ci_configurationNumber cf, mb, D + 1, b)" "room (length new) (ci_configurationNumber cf, mb, D + 1, b)"
      "replay new (ci_configurationNumber cf, mb, D + 1, b) = Some (view s)"
    using replay_good [OF old(2) hist(1), of "length new"] room_mono [OF hist(2), of "length old + length new"] hist(3) old(1,2)
    by (simp_all add: replay_append)
  have D: "D + 1 \<noteq> 0" "D + 1 \<le> d" "d \<le> maxDecree"
    using mid(1) replay_dec [OF mid(3,1,2)] maxDecree vs by (auto simp: view_def)
  then have "D \<le> maxDecree" using word_less_inc [of D] by simp
  from RestoreState_phases [OF restart cps cf(1) this] obtain vote s1 fts cp s2
    where ph: "no_vote vote" "memory s1 = (cf, cf, lh_maxBallot h, vote, D)"
      "restore_logs k e maxDecree readOnly (logs_to_read D (l_logNumbers t)) (k_cpTime k D, 0) (Some (lh_nextVote h)) s1 =
         Inr (True, fts, cp, s2)"
      "restore_end k readOnly cp (restore_time e fts s2) = Inr (True, t')" by blast
  have "before_cp D cf (lh_maxBallot h) (lv_isReconfiguration (l_maxAcceptedVote s0)) (view s0) s1"
    using ph(1,2) old(4) by (simp add: view_def memory_def)
  then have "restoring D cf (lh_maxBallot h) maxDecree (view s) (l_log s @ []) (Some (lh_nextVote h)) s1"
    using hist ord ids ph(2) old cf(2) D vs unfolding restoring_def
    by (intro exI [of _ "view s0"] exI [of _ "lv_isReconfiguration (l_maxAcceptedVote s0)"]) (auto simp: memory_def)
  from rd.logs [OF _ ph(3), where rest = "[]", unfolded log, OF this]
  obtain r cpVote where cp: "cp = Some cpVote" "m_decree cpVote \<noteq> 0" "m_decree cpVote \<le> d" "after_cp r (view s) s2"
    using restoring_done vs by fastforce
  have d: "d \<noteq> 0" using D by auto
  have "after_cp r (c, mb1, d, b1) (restore_time e fts s2)" using after_cp_cong [OF cp(4) memory_time] vs by metis
  from restore_end_view [OF ph(4) [unfolded cp(1)] this cp(2,3) d] show ?thesis using vs by (simp add: view_def)
qed

text \<open>The run of the example, restarted from a checkpoint of decree 5.\<close>
definition ex_header :: lheader where
  "ex_header = \<lparr>lh_size = 4096, lh_stateSaved = True, lh_stateConfiguration = Some ex_conf,
     lh_nextVote = ex_logged 6, lh_maxBallot = BallotNumber 2 (Mid [67])\<rparr>"

definition ex_disk :: disk where
  "ex_disk = \<lparr>k_header = (\<lambda>c. if c = 5 then Some ex_header else None), k_readerInit = (\<lambda>_. True), k_loadState = (\<lambda>_. True),
     k_cpTime = (\<lambda>_. 7), k_openLog = (\<lambda>_. True), k_readLog = (\<lambda>_. True), k_bytes = (\<lambda>_. []),
     k_messages = (\<lambda>l. if l = 5 then zip (l_log ex_end) [512, 1024, 1536, 2048] else []), k_clean = (\<lambda>_. True),
     k_logTime = (\<lambda>_. 9), k_writeOk = True, k_setWritePointer = True\<rparr>"

definition ex_down :: legislator where
  "ex_down = ex_s0\<lparr>l_codexFiles := [5], l_logNumbers := [5], l_logFiles := [], l_maxBallot := NoBallot\<rparr>"

lemma ex_restart: "\<exists>t'. RestoreState ex_disk ex_env 1000 False 1 ex_down = Inr (True, t')"
proof -
  have "(case RestoreState ex_disk ex_env 1000 False 1 ex_down of Inr (ok, t) \<Rightarrow> ok | Inl _ \<Rightarrow> False)" by code_simp
  then show ?thesis by (auto split: sum.splits)
qed

lemma ex_history:
  "l_log ex_end = take 3 (l_log ex_end) @ drop 3 (l_log ex_end)"
  "replay (take 3 (l_log ex_end)) (view ex_s0) = Some (ci_configurationNumber ex_conf, BallotNumber 2 (Mid [67]), 5 + 1, BallotNumber 2 (Mid [67]))"
  "orderly (lv_isReconfiguration (l_maxAcceptedVote ex_s0)) (l_log ex_end) (view ex_s0)"
  "\<forall>m \<in> set (l_log ex_end). m_ballotId (m_ballot (msg_hdr m)) \<le> 3"
  "concat (map (\<lambda>l. map fst (k_messages ex_disk l)) (logs_to_read 5 (l_logNumbers ex_down))) = l_log ex_end"
  by (simp, code_simp+)

theorem restart_keeps_promises_witness:
  "\<exists>t'. RestoreState ex_disk ex_env 1000 False 1 ex_down = Inr (True, t') \<and>
     l_maxBallot ex_end = BallotNumber 3 (Mid [66]) \<and> l_maxBallot ex_end \<le> l_maxBallot t' \<and>
     m_decree (l_maxAcceptedVote t') = 6"
proof -
  obtain t' where t': "RestoreState ex_disk ex_env 1000 False 1 ex_down = Inr (True, t')" using ex_restart by blast
  have e: "l_maxBallot ex_end = BallotNumber 3 (Mid [66])" "m_decree (l_maxAcceptedVote ex_end) = 6" by code_simp+
  have ids: "\<forall>m \<in> set (l_log ex_end). unat (m_ballotId (m_ballot (msg_hdr m))) + length (l_log ex_end) < 2 ^ 32"
    using ex_history(4) by (auto simp: word_le_nat_alt ex_log)
  have "PaxosConfiguration t' = PaxosConfiguration ex_end \<and> l_maxBallot ex_end \<le> l_maxBallot t' \<and>
      m_decree (l_maxAcceptedVote t') = m_decree (l_maxAcceptedVote ex_end) \<and>
      m_ballot (l_maxAcceptedVote ex_end) \<le> m_ballot (l_maxAcceptedVote t')"
    by (rule restart_keeps_promises [OF ex_runs ex_history(5) _ _ _ _ _ _ ex_history(1,2) _ _ ex_history(3) ids _ _ t',
          where cs = "[]" and h = ex_header])
      (use e in \<open>simp_all add: ex_down_def ex_disk_def ex_header_def ex_log ex_logged_def ex_vote_msg_def ex_s0_def ex_start_def ex_hdr_def\<close>)
  then show ?thesis using t' e by auto
qed

section \<open>A prepare out of order\<close>

text \<open>
  The prepares of HandlePrepareMsg are in order: one for a decree below the last accepted
  one is not logged.
\<close>
lemma HandlePrepareMsg_in_order:
  assumes "m_decree msg < m_decree (l_maxAcceptedVote s)" "HandlePrepareMsg e msg s = Inr s'"
  shows "l_log s' = l_log s"
  using assms by (auto simp: HandlePrepareMsg_def Let_def IsLowerDecree_def SendResponse_def SendMessageToIpPort_def SendMessage_def split: if_splits)

text \<open>B sends, on its learn port, two votes and then a prepare of C for the decree of the first.\<close>
definition learn_env :: env where
  "learn_env = ex_env\<lparr>e_learn := (\<lambda>_ _. [VoteMsg (ex_vote_msg 66 5 1), VoteMsg (ex_vote_msg 66 6 1), PrepareM (ex_prepare 67 5 2)])\<rparr>"

definition learned :: legislator where
  "learned = snd (projr (LearnVotes learn_env 66 1000 ex_s0))"

text \<open>The checkpoint of decree 5, taken when the vote for decree 6 was accepted, and the log.\<close>
definition learned_disk :: disk where
  "learned_disk = ex_disk\<lparr>
     k_header := (\<lambda>c. if c = 5 then Some (ex_header\<lparr>lh_nextVote := ex_vote_msg 66 6 1, lh_maxBallot := BallotNumber 1 (Mid [66])\<rparr>) else None),
     k_messages := (\<lambda>l. if l = 5 then zip (l_log learned) [512, 1024, 1536] else [])\<rparr>"

text \<open>
  A learned prepare for a decree that a checkpoint covers is skipped by the restart,
  and the ballot that was promised with it is forgotten.
\<close>
theorem learned_prepare_forgotten:
  "case RestoreState learned_disk ex_env 1000 False 1 ex_down of
     Inr (ok, t) \<Rightarrow> ok \<and> l_maxBallot learned = BallotNumber 2 (Mid [67]) \<and> l_maxBallot t = BallotNumber 1 (Mid [66])
   | Inl _ \<Rightarrow> False"
  by code_simp

end
