(* ===== verification/Legis_Term.thy ===== *)
theory Legis_Term
  imports Legis_Handlers Legis_Sample
begin

text \<open>
  The cycle of calls around StartInitializing ends: at most two of its calls
  are nested, so that the bound StartInit uses never cuts a computation short.
  A replica that is its own quorum prepares, becomes primary and proposes the
  vote it accepted last; only when that vote is a reconfiguration does it
  initialize again, and then in a configuration whose last vote is an empty one.
\<close>

section \<open>Computations that end\<close>

definition ends :: "'a res \<Rightarrow> bool" where
  "ends r \<longleftrightarrow> r \<noteq> Inl OutOfFuel"

lemma ends_simps [simp]: "ends (Inr x)" "ends (Inl AssertFailed)" "ends (Inl OutOfBounds)" "ends (Inl ShutDownCalled)"
  "ends (log_assert b x)" "\<not> ends (Inl OutOfFuel)"
  by (simp_all add: ends_def log_assert_def)

lemma ends_bind: "ends r \<Longrightarrow> (\<And>x. r = Inr x \<Longrightarrow> ends (f x)) \<Longrightarrow> ends (bindE r f)"
  by (cases r) (auto simp: ends_def)

lemma ends_bind' [simp]: "ends r \<Longrightarrow> (\<forall>x. ends (f x)) \<Longrightarrow> ends (bindE r f)"
  by (cases r) (auto simp: ends_def)

lemma ends_vq_Clear [simp]: "ends (vq_Clear q)"
proof -
  have "length (vq_queue q) < n \<Longrightarrow> ends (vq_ClearLoop n q)" for n and q :: "'a VoteQueue"
    by (induction n arbitrary: q) (auto simp: vq_DequeueLink_def split: list.splits)
  then show ?thesis by (simp add: vq_Clear_def del: vq_ClearLoop.simps)
qed

lemma ends_offsets [simp]: "ends (GetOffset d lf)" "ends (GetLengthOfDecree d lf)"
  by (simp_all add: GetOffset_def GetLengthOfDecree_def Let_def)

lemma ends_eq_CheckRead [simp]: "ends (eq_CheckRead n lfs q)"
  by (simp add: eq_CheckRead_def Let_def split: option.splits)

lemma ends_eq_Enqueue [simp]: "ends (eq_Enqueue n lfs vote must q)"
  by (simp add: eq_Enqueue_def Let_def)

lemma ends_votes [simp]: "ends (Vote_empty v i d c b k r)" "ends (Vote_copy v other k)"
  "ends (LogFile_AddMessage msgId d n lf)"
  by (simp_all add: Vote_empty_def Vote_copy_def lvote_init_def LogFile_AddMessage_def Let_def)

section \<open>Steps that stay in the configuration\<close>

definition same_conf :: "legislator \<Rightarrow> legislator \<Rightarrow> bool" where
  "same_conf s s' \<longleftrightarrow> l_paxosConfiguration s' = l_paxosConfiguration s \<and> l_oldFreshestVote s' = l_oldFreshestVote s \<and>
     l_state s' = l_state s \<and> l_outstandingVote s' = l_outstandingVote s \<and> l_actionTimeout s' = l_actionTimeout s"

definition stays :: "legislator \<Rightarrow> legislator res \<Rightarrow> bool" where
  "stays s r \<longleftrightarrow> ends r \<and> (\<forall>s'. r = Inr s' \<longrightarrow> same_conf s s')"

named_theorems stays_intros \<open>steps that end and stay in the configuration\<close>

lemma same_conf_trans: "same_conf s s1 \<Longrightarrow> same_conf s1 s2 \<Longrightarrow> same_conf s s2"
  by (simp add: same_conf_def)

lemma stays_from: "same_conf s s1 \<Longrightarrow> stays s1 r \<Longrightarrow> stays s r"
  by (auto simp: stays_def same_conf_def)

lemma stays_Inr [stays_intros]: "same_conf s s' \<Longrightarrow> stays s (Inr s')"
  by (simp add: stays_def)

lemma stays_Inl [stays_intros]: "e \<noteq> OutOfFuel \<Longrightarrow> stays s (Inl e)"
  by (simp add: stays_def ends_def)

lemma stays_bind: "stays s r \<Longrightarrow> (\<And>s1. same_conf s s1 \<Longrightarrow> stays s1 (f s1)) \<Longrightarrow> stays s (bindE r f)"
  by (cases r) (auto simp: stays_def dest: same_conf_trans)

lemma stays_assert [stays_intros]: "stays s (f x) \<Longrightarrow> stays s (bindE (log_assert b x) f)"
  by (cases b) (simp_all add: stays_def)

lemma stays_any: "ends r \<Longrightarrow> (\<And>x. stays s (f x)) \<Longrightarrow> stays s (bindE r f)"
  by (cases r) (auto simp: stays_def ends_def)

lemma stays_if [stays_intros]: "(b \<Longrightarrow> stays s r) \<Longrightarrow> (\<not> b \<Longrightarrow> stays s r') \<Longrightarrow> stays s (if b then r else r')"
  by simp

lemma same_conf_steps [simp]:
  "same_conf s s" "same_conf s (SetMaxBallot e b s)" "same_conf s (RequestCheckpoint lf s)"
  by (simp_all add: same_conf_def SetMaxBallot_def RequestCheckpoint_def Let_def)

lemma same_conf_fold: "(\<And>i s. same_conf s (f i s)) \<Longrightarrow> same_conf s (fold f is s)"
  by (induction "is" arbitrary: s) (auto simp: same_conf_def)

lemma same_conf_ToAll [simp]: "same_conf s (SendRequestToAll e m s)"
  unfolding SendRequestToAll_def
  by (rule same_conf_fold)
    (simp add: same_conf_def SendRequestToReplica_def SendMessageToReplica_def SendMessage_def upd_replica_def Let_def)

lemma stays_WriteLog: "stays s (WriteLog e m s)"
  unfolding WriteLog_def by (intro stays_intros) (simp add: same_conf_def)

lemma stays_AddMessageToLog: "stays s (AddMessageToLog m s)"
  unfolding AddMessageToLog_def by (intro stays_intros stays_any) (auto simp: same_conf_def)

lemma stays_AddToExecutionQueue: "stays s (AddToExecutionQueue e vote s)"
  unfolding AddToExecutionQueue_def Let_def by (intro stays_intros stays_any) (auto simp: same_conf_def)

lemma stays_LogPrepare: "stays s (LogPrepare e p s)"
  unfolding LogPrepare_def
  by (intro stays_intros stays_bind [OF stays_WriteLog] stays_from [OF _ stays_AddMessageToLog]) simp_all

lemma stays_UpdateDefunct: "c - 1 < PaxosConfiguration s \<Longrightarrow> stays s (UpdateDefunctInfo init (c - 1) s)"
  by (auto simp: UpdateDefunctInfo_def stays_def same_conf_def)

lemma stays_LogVote:
  assumes "m_configurationNumber vote - 1 < PaxosConfiguration s"
  shows "stays s (LogVote init e vote s)"
  unfolding LogVote_def Let_def
proof (intro stays_intros, goal_cases)
  case 2
  show ?case
  proof (rule stays_bind, goal_cases)
    case (2 s1)
    show ?case
    proof (rule stays_bind [OF stays_WriteLog], rule stays_bind [OF stays_UpdateDefunct])
      fix s2 assume "same_conf s1 s2"
      then show "m_configurationNumber vote - 1 < PaxosConfiguration s2"
        using assms 2 by (simp add: same_conf_def PaxosConfiguration_def)
    next
      fix s2 s3
      let ?s = "SetMaxBallot e (m_ballot vote) ((if SwitchLog e vote s
        then s3\<lparr>l_logFiles := l_logFiles s3 @ [LogFile_new []]\<rparr> else s3)\<lparr>l_maxAcceptedVote := vote\<rparr>)"
      have "same_conf s3 ?s" by (auto simp: same_conf_def SetMaxBallot_def Let_def)
      then show "stays s3 (bindE (AddMessageToLog (VoteMsg vote) ?s)
          (\<lambda>s. Inr (RequestCheckpoint (last (l_logFiles s)) s)))"
        by (rule stays_from) (intro stays_bind [OF stays_AddMessageToLog] stays_intros, simp)
    qed
  qed (intro stays_intros, simp_all add: same_conf_def)
qed (simp add: same_conf_def)

section \<open>Nested calls\<close>

text \<open>A state in which the replica would propose an ordinary vote.\<close>
definition flat :: "legislator \<Rightarrow> bool" where
  "flat s \<longleftrightarrow> \<not> lv_isReconfiguration (l_maxAcceptedVote s) \<and> 0 < PaxosConfiguration s"

text \<open>StartInitializing as the caller may use it: it ends at least on flat states.\<close>
definition ends_flat :: "lstep \<Rightarrow> bool" where
  "ends_flat init \<longleftrightarrow> (\<forall>s. flat s \<longrightarrow> ends (init s))"

lemma ends_stays: "stays s r \<Longrightarrow> ends r"
  by (simp add: stays_def)

lemma Vote_empty_plain: "Vote_empty v i d c b k r = Inr x \<Longrightarrow> \<not> lv_isReconfiguration x"
  by (auto simp: Vote_empty_def lvote_init_def bindE_eq_Inr Message.defs lvote.defs)

lemma Vote_copy_plain: "Vote_copy v other k = Inr x \<Longrightarrow> lv_isReconfiguration x = lv_isReconfiguration other"
  by (auto simp: Vote_copy_def lvote_init_def bindE_eq_Inr Message.defs lvote.defs)

lemma ends_ChangePaxosConfiguration:
  assumes "ends_flat init" "0 < ci_configurationNumber conf"
  shows "ends (ChangePaxosConfiguration init e conf s)"
  unfolding ChangePaxosConfiguration_def Let_def
  by (rule ends_bind, simp, rule ends_bind, simp)
    (use assms Vote_empty_plain in \<open>auto simp: ends_flat_def flat_def PaxosConfiguration_def\<close>)

lemma ends_LogReconfigurationDecision:
  assumes "ends_flat init" "0 < PaxosConfiguration s" "PaxosConfiguration s + 1 \<noteq> 0"
  shows "ends (LogReconfigurationDecision init e decision s)"
proof -
  have "0 < PaxosConfiguration s + 1" using assms(3) by (simp add: word_neq_0_conv)
  then have "ends (ChangePaxosConfiguration init e
      \<lparr>ci_configurationNumber = PaxosConfiguration s + 1, ci_initialDecree = d, ci_memberSet = ms\<rparr> s')" for d ms s'
    using ends_ChangePaxosConfiguration [OF assms(1)] by simp
  then show ?thesis
    using ends_stays [OF stays_WriteLog] ends_stays [OF stays_AddToExecutionQueue] ends_stays [OF stays_AddMessageToLog]
    by (simp add: LogReconfigurationDecision_def Let_def split: option.splits)
qed

lemma word_dec_less: "0 < (c :: u32) \<Longrightarrow> c - 1 < c"
  by (simp add: word_less_nat_alt unat_sub_if')

lemma ends_propose:
  assumes "lv_isReconfiguration vote \<Longrightarrow> ends_flat init \<and> PaxosConfiguration s + 1 \<noteq> 0" "0 < PaxosConfiguration s"
    "m_configurationNumber vote = PaxosConfiguration s"
  shows "ends (propose init e vote s)"
proof -
  have c: "m_configurationNumber vote - 1 < PaxosConfiguration s" using word_dec_less assms(2,3) by simp
  let ?s = "s\<lparr>l_outstandingVote := Some vote, l_actionTimeout := e_now e + HRTIME_SECONDS 1\<rparr>"
  have 1: "ends (LogVote init e vote ?s)" using stays_LogVote [of vote ?s init e] c by (simp add: ends_stays PaxosConfiguration_def)
  note lv = stays_LogVote [OF c, of init e]
  have 2: "ends (SendAndLogReconfigurationDecision init e d b s')" if "lv_isReconfiguration vote" "LogVote init e vote s = Inr s'" for d b s'
  proof -
    have sc: "same_conf s s'" using lv that(2) by (simp add: stays_def)
    have "PaxosConfiguration (SendRequestToAll e m s') = PaxosConfiguration s'" for m
      using same_conf_ToAll [of s' e m] by (simp add: same_conf_def PaxosConfiguration_def)
    then show ?thesis
      using ends_LogReconfigurationDecision [of init] assms(1,2) that(1) sc
      by (simp add: SendAndLogReconfigurationDecision_def Let_def same_conf_def PaxosConfiguration_def)
  qed
  show ?thesis
    unfolding propose_def
    using 1 2 ends_stays [OF lv] ends_stays [OF stays_AddToExecutionQueue] by (auto intro!: ends_bind)
qed

lemma ends_SendNextVote:
  assumes "lv_isReconfiguration vote \<Longrightarrow> ends_flat init \<and> PaxosConfiguration s + 1 \<noteq> 0" "0 < PaxosConfiguration s"
  shows "ends (SendNextVote init e vote s)"
proof -
  have "ends (propose init e (stamped e vote d (s\<lparr>l_responseMap := []\<rparr>))
      (s\<lparr>l_responseMap := [], l_relinquishPrimary := r\<rparr>))"
    "ends (propose init e (stamped e vote d (s\<lparr>l_responseMap := []\<rparr>)) (s\<lparr>l_responseMap := []\<rparr>))" for d r
    by (rule ends_propose; use assms in \<open>simp add: stamped_def PaxosConfiguration_def\<close>)+
  then show ?thesis unfolding SendNextVote_def Let_def by simp
qed

lemma ends_StartBeingStablePrimary:
  assumes "\<And>old. l_oldFreshestVote s = Some old \<Longrightarrow> lv_isReconfiguration old \<Longrightarrow> ends_flat init \<and> PaxosConfiguration s + 1 \<noteq> 0"
    "0 < PaxosConfiguration s"
  shows "ends (StartBeingStablePrimary init e s)"
  unfolding StartBeingStablePrimary_def Let_def
  using assms Vote_copy_plain
  by (auto simp: PaxosConfiguration_def intro!: ends_bind ends_SendNextVote split: option.splits)

lemma ends_send_prepare:
  assumes "lv_isReconfiguration (l_maxAcceptedVote s) \<Longrightarrow> ends_flat init \<and> PaxosConfiguration s + 1 \<noteq> 0"
    "0 < PaxosConfiguration s"
  shows "ends (send_prepare init e prepare s)"
proof -
  let ?s = "s\<lparr>l_actionTimeout := e_now e + HRTIME_SECONDS 1, l_prepareTimeout := e_now e + l_electionDelay s * 30,
      l_responseMap := [], l_oldFreshestVote := Some (l_maxAcceptedVote s), l_lastPrepareMsg := Some prepare\<rparr>"
  have "ends (StartBeingStablePrimary init e s')" if "LogPrepare e prepare ?s = Inr s'" for s'
    using stays_LogPrepare [of ?s e prepare] that assms
    by (intro ends_StartBeingStablePrimary) (auto simp: stays_def same_conf_def PaxosConfiguration_def)
  then show ?thesis
    using ends_stays [OF stays_LogPrepare] by (auto simp: send_prepare_def Let_def intro!: ends_bind)
qed

lemma ends_StartPreparing:
  assumes "lv_isReconfiguration (l_maxAcceptedVote s) \<Longrightarrow> ends_flat init \<and> PaxosConfiguration s + 1 \<noteq> 0"
    "0 < PaxosConfiguration s"
  shows "ends (StartPreparing init e s)"
  using assms ends_send_prepare [of s init] ends_send_prepare [of "s\<lparr>l_state := Preparing\<rparr>" init]
  by (simp add: StartPreparing_def Let_def PaxosConfiguration_def)

lemma ends_MoveToSecondaryOrPrepare:
  assumes "lv_isReconfiguration (l_maxAcceptedVote s) \<Longrightarrow> ends_flat init \<and> PaxosConfiguration s + 1 \<noteq> 0"
    "0 < PaxosConfiguration s"
  shows "ends (MoveToSecondaryOrPrepare init e s)"
  unfolding MoveToSecondaryOrPrepare_def Let_def
  using assms ends_StartPreparing [of "s\<lparr>l_saveCheckpointAtDecree := d, l_primaryCookie := c\<rparr>" init e for d c]
    ends_StartPreparing [of "s\<lparr>l_primaryCookie := c\<rparr>" init e for c]
  by (simp add: PaxosConfiguration_def split: option.splits)

lemma StartInitializing_flat: "ends_flat (StartInitializing (Suc n) e)"
  unfolding ends_flat_def
proof (intro allI impI)
  fix s assume "flat s"
  then show "ends (StartInitializing (Suc n) e s)"
    by (auto simp: Let_def flat_def PaxosConfiguration_def intro!: ends_MoveToSecondaryOrPrepare)
qed

lemma StartInitializing_ends:
  assumes "0 < PaxosConfiguration s" "PaxosConfiguration s + 1 \<noteq> 0"
  shows "ends (StartInitializing (Suc (Suc n)) e s)"
  using assms StartInitializing_flat [of n e]
  by (auto simp: Let_def PaxosConfiguration_def simp del: StartInitializing.simps(2) [of n]
      intro!: ends_MoveToSecondaryOrPrepare)

section \<open>More nested calls make no difference\<close>

definition fuel_le :: "'a res \<Rightarrow> 'a res \<Rightarrow> bool" where
  "fuel_le r r' \<longleftrightarrow> r = Inl OutOfFuel \<or> r = r'"

named_theorems fuel_intros \<open>a larger bound gives the same result or a result at all\<close>

lemma fuel_le_refl [simp]: "fuel_le r r"
  by (simp add: fuel_le_def)

lemma fuel_le_bind [fuel_intros]:
  assumes "fuel_le r r'" "\<And>x. fuel_le (f x) (f' x)"
  shows "fuel_le (bindE r f) (bindE r' f')"
proof (cases r')
  case (Inr x)
  then show ?thesis using assms(1) assms(2) [of x] by (auto simp: fuel_le_def)
qed (use assms(1) in \<open>auto simp: fuel_le_def\<close>)

lemma fuel_le_if [fuel_intros]: "fuel_le r r' \<Longrightarrow> fuel_le q q' \<Longrightarrow> fuel_le (if b then r else q) (if b then r' else q')"
  by simp

lemma fuel_le_option [fuel_intros]:
  "fuel_le r r' \<Longrightarrow> (\<And>x. fuel_le (f x) (f' x)) \<Longrightarrow>
   fuel_le (case opt of None \<Rightarrow> r | Some x \<Rightarrow> f x) (case opt of None \<Rightarrow> r' | Some x \<Rightarrow> f' x)" for opt :: "'x option"
  by (cases opt) simp_all

lemma fuel_le_trans: "fuel_le r r' \<Longrightarrow> fuel_le r' r'' \<Longrightarrow> fuel_le r r''"
  by (auto simp: fuel_le_def)

definition init_le :: "lstep \<Rightarrow> lstep \<Rightarrow> bool" where
  "init_le i j \<longleftrightarrow> (\<forall>s. fuel_le (i s) (j s))"

lemma init_leD: "init_le i j \<Longrightarrow> fuel_le (i s) (j s)"
  by (simp add: init_le_def)

lemma fuel_le_UpdateDefunct [fuel_intros]:
  "init_le i j \<Longrightarrow> fuel_le (UpdateDefunctInfo i c s) (UpdateDefunctInfo j c s)"
  unfolding UpdateDefunctInfo_def by (intro fuel_intros) (simp_all add: init_leD)

lemma fuel_le_LogVote [fuel_intros]: "init_le i j \<Longrightarrow> fuel_le (LogVote i e vote s) (LogVote j e vote s)"
  unfolding LogVote_def Let_def by (intro fuel_intros) (simp_all add: init_leD)

lemma fuel_le_Change [fuel_intros]:
  "init_le i j \<Longrightarrow> fuel_le (ChangePaxosConfiguration i e conf s) (ChangePaxosConfiguration j e conf s)"
  unfolding ChangePaxosConfiguration_def Let_def by (intro fuel_intros) (simp_all add: init_leD)

lemma fuel_le_Decision [fuel_intros]:
  "init_le i j \<Longrightarrow> fuel_le (LogReconfigurationDecision i e d s) (LogReconfigurationDecision j e d s)"
  unfolding LogReconfigurationDecision_def Let_def by (intro fuel_intros) (simp_all add: init_leD)

lemma fuel_le_propose [fuel_intros]: "init_le i j \<Longrightarrow> fuel_le (propose i e vote s) (propose j e vote s)"
  unfolding propose_def SendAndLogReconfigurationDecision_def Let_def by (intro fuel_intros) (simp_all add: init_leD)

lemma fuel_le_SendNextVote [fuel_intros]: "init_le i j \<Longrightarrow> fuel_le (SendNextVote i e vote s) (SendNextVote j e vote s)"
  unfolding SendNextVote_def Let_def by (intro fuel_intros) (simp_all add: init_leD)

lemma fuel_le_Primary [fuel_intros]:
  "init_le i j \<Longrightarrow> fuel_le (StartBeingStablePrimary i e s) (StartBeingStablePrimary j e s)"
  unfolding StartBeingStablePrimary_def Let_def by (intro fuel_intros) (simp_all add: init_leD)

lemma fuel_le_Preparing [fuel_intros]: "init_le i j \<Longrightarrow> fuel_le (StartPreparing i e s) (StartPreparing j e s)"
  unfolding StartPreparing_def send_prepare_def Let_def by (intro fuel_intros) (simp_all add: init_leD)

lemma fuel_le_Move [fuel_intros]:
  "init_le i j \<Longrightarrow> fuel_le (MoveToSecondaryOrPrepare i e s) (MoveToSecondaryOrPrepare j e s)"
  unfolding MoveToSecondaryOrPrepare_def Let_def by (intro fuel_intros) (simp_all add: init_leD)

lemma StartInitializing_mono: "init_le (StartInitializing n e) (StartInitializing (Suc n) e)"
proof (induction n)
  case (Suc n)
  have "fuel_le (StartInitializing (Suc n) e s) (StartInitializing (Suc (Suc n)) e s)" for s
    unfolding StartInitializing.simps(2) [of n e s] StartInitializing.simps(2) [of "Suc n" e s] Let_def
    by (intro fuel_intros Suc.IH) simp
  then show ?case by (simp add: init_le_def)
qed (simp add: init_le_def fuel_le_def)

text \<open>
  C23: Two nested calls of StartInitializing are enough.  In a running replica
  (its configuration number is neither zero nor the largest 32-bit value) the
  bound of StartInit is never reached, and every larger bound gives the same
  result: the mutual recursion of StartInitializing, StartPreparing,
  StartBeingStablePrimary, SendNextVote and ChangePaxosConfiguration ends.
\<close>
theorem start_initializing_ends:
  assumes "0 < PaxosConfiguration s" "PaxosConfiguration s + 1 \<noteq> 0" "2 \<le> n"
  shows "StartInitializing n e s = StartInit e s \<and> StartInit e s \<noteq> Inl OutOfFuel"
proof -
  have e2: "ends (StartInitializing 2 e s)"
    using StartInitializing_ends [OF assms(1,2), of 0 e] by (simp add: numeral_2_eq_2)
  have "fuel_le (StartInitializing 2 e s) (StartInitializing n e s)"
    using assms(3)
  proof (induction n rule: dec_induct)
    case (step n)
    then show ?case using fuel_le_trans init_leD [OF StartInitializing_mono] by blast
  qed simp
  with e2 show ?thesis by (auto simp: StartInit_def fuel_le_def ends_def)
qed

theorem start_initializing_ends_witness:
  "StartInitializing 7 ex_env ex_s0 = StartInit ex_env ex_s0 \<and> StartInit ex_env ex_s0 \<noteq> Inl OutOfFuel"
proof -
  have "PaxosConfiguration ex_s0 = 1" by code_simp
  then show ?thesis using start_initializing_ends [of ex_s0 7 ex_env] by simp
qed

end
