(* ===== verification/Legis_Primary.thy ===== *)
theory Legis_Primary
  imports Legis_Term
begin

text \<open>
  The primary's side of the protocol: what a replica that prepares learns from
  the promises it collects and what it proposes with them, and when a proposed
  vote passes.
\<close>

section \<open>Counting acceptances\<close>

fun accept_all :: "env \<Rightarrow> mid Message list \<Rightarrow> lstep" where
  "accept_all e [] s = Inr s"
| "accept_all e (m # ms) s = bindE (HandleVoteAcceptedMsg e m s) (accept_all e ms)"

text \<open>A primary that waits for acceptances of the ordinary vote it has just proposed.\<close>
definition waiting :: "legislator \<Rightarrow> bool" where
  "waiting s \<longleftrightarrow> AmPrimary s \<and>
     (case l_outstandingVote s of
        None \<Rightarrow> False
      | Some out \<Rightarrow> IsSameDecree out (m_decree (l_maxAcceptedVote s)) (l_maxBallot s)) \<and>
     l_maxBallot s = m_ballot (l_maxAcceptedVote s) \<and>
     \<not> lv_isReconfiguration (l_maxAcceptedVote s) \<and> \<not> GetRelinquishPrimary (l_maxAcceptedVote s)"

text \<open>An acceptance of that vote by another replica of the configuration.\<close>
definition acceptance :: "legislator \<Rightarrow> mid Message \<Rightarrow> bool" where
  "acceptance s m \<longleftrightarrow> IsSameDecree m (m_decree (l_maxAcceptedVote s)) (l_maxBallot s) \<and>
     GetReplica (m_memberId m) (m_remoteIP m) s \<noteq> None"

text \<open>The states while acceptances are counted: the record of the replicas and the responses change.\<close>
definition counting :: "legislator \<Rightarrow> mid list \<Rightarrow> legislator \<Rightarrow> bool" where
  "counting s R s' \<longleftrightarrow> (\<exists>rs. s' = s\<lparr>l_replicas := rs, l_responseMap := R\<rparr> \<and> map r_node rs = map r_node (l_replicas s))"

lemma GetReplica_nodes:
  assumes "map r_node (l_replicas s') = map r_node (l_replicas s)"
  shows "GetReplica m ip s' = GetReplica m ip s"
proof -
  have n: "length (l_replicas s') = length (l_replicas s)" using assms by (metis length_map)
  have "r_node (l_replicas s' ! i) = r_node (l_replicas s ! i)" if "i < length (l_replicas s)" for i
    using arg_cong [OF assms, of "\<lambda>l. l ! i"] that n by simp
  then show ?thesis
    unfolding GetReplica_def n by (intro find_cong) auto
qed

lemma find_Some_bound: "find P [0..<n] = Some i \<Longrightarrow> i < n"
  by (auto simp: find_Some_iff)

lemma map_node_update:
  "i < length rs \<Longrightarrow> (\<And>r. r_node (f r) = r_node r) \<Longrightarrow> map r_node (rs[i := f (rs ! i)]) = map r_node rs"
  by (simp add: map_update list_update_same_conv)

lemma record_nodes:
  assumes "GetReplica (m_memberId m) (m_remoteIP m) s \<noteq> None"
  shows "\<exists>rs. RecordVoteAcceptedFromReplica e m s = Inr (s\<lparr>l_replicas := rs\<rparr>) \<and> map r_node rs = map r_node (l_replicas s)"
proof -
  obtain i where i: "GetReplica (m_memberId m) (m_remoteIP m) s = Some i" using assms by blast
  then have "i < length (l_replicas s)" by (auto simp: GetReplica_def dest: find_Some_bound)
  note upd = map_node_update [OF this]
  let ?f = "\<lambda>r. r\<lparr>r_lastRequestVotedAt := e_now e, r_lastRequestVotedDecree := max (r_lastRequestVotedDecree r) (m_decree m),
      r_lastVotePayload := m_payload m\<rparr>"
  show ?thesis
    using i upd [of ?f]
    by (intro exI [of _ "(l_replicas s)[i := ?f (l_replicas s ! i)]"])
      (simp add: RecordVoteAcceptedFromReplica_def upd_replica_def)
qed

lemma countingI:
  "s' = s\<lparr>l_replicas := rs, l_responseMap := R\<rparr> \<Longrightarrow> map r_node rs = map r_node (l_replicas s) \<Longrightarrow> counting s R s'"
  unfolding counting_def by blast

lemma record_counting:
  assumes "counting s R s'" "acceptance s m"
  shows "\<exists>s''. RecordVoteAcceptedFromReplica e m s' = Inr s'' \<and> counting s R s''"
proof -
  obtain rs where s': "s' = s\<lparr>l_replicas := rs, l_responseMap := R\<rparr>" "map r_node rs = map r_node (l_replicas s)"
    using assms(1) by (auto simp: counting_def)
  have "GetReplica (m_memberId m) (m_remoteIP m) s' \<noteq> None"
    using assms(2) GetReplica_nodes [of s' s] s' by (simp add: acceptance_def)
  then obtain rs' where "RecordVoteAcceptedFromReplica e m s' = Inr (s'\<lparr>l_replicas := rs'\<rparr>)"
      "map r_node rs' = map r_node rs"
    using record_nodes [of m s' e] s'(1) by auto
  moreover have "s'\<lparr>l_replicas := rs'\<rparr> = s\<lparr>l_replicas := rs', l_responseMap := R\<rparr>" using s'(1) by (cases s) simp
  ultimately show ?thesis using s'(2) countingI [of "s'\<lparr>l_replicas := rs'\<rparr>" R rs' s] by metis
qed

text \<open>After the vote has passed: nothing is outstanding, and the vote is the last one to execute.\<close>
definition passed :: "legislator \<Rightarrow> legislator \<Rightarrow> bool" where
  "passed s s' \<longleftrightarrow> l_outstandingVote s' = None \<and> map r_node (l_replicas s') = map r_node (l_replicas s) \<and>
     vq_votes (eq_toExecuteQ (l_executeQ s')) = vq_votes (eq_toExecuteQ (l_executeQ s)) @ [l_maxAcceptedVote s]"

lemma enqueue_passes:
  assumes "AmPrimary s" "eq_lastPassedDecree (l_executeQ s) = eq_lastInsertedDecree (l_executeQ s)"
    "m_decree vote \<noteq> eq_lastPassedDecree (l_executeQ s)"
  shows "\<exists>s'. AddToExecutionQueue e vote s = Inr s' \<and> l_outstandingVote s' = l_outstandingVote s \<and>
     l_replicas s' = l_replicas s \<and>
     vq_votes (eq_toExecuteQ (l_executeQ s')) = vq_votes (eq_toExecuteQ (l_executeQ s)) @ [vote]"
  using assms vq.enq_elems [of lvote_len vote "eq_toExecuteQ (l_executeQ s)"]
  by (simp add: AddToExecutionQueue_def eq_Enqueue_def Let_def)

lemma accept_step:
  assumes "waiting s" "counting s R s'" "acceptance s m"
    and q: "eq_lastPassedDecree (l_executeQ s) = eq_lastInsertedDecree (l_executeQ s)"
      "m_decree (l_maxAcceptedVote s) \<noteq> eq_lastPassedDecree (l_executeQ s)"
  shows "\<exists>s''. HandleVoteAcceptedMsg e m s' = Inr s'' \<and>
     (if length (List.insert (m_memberId m) R) < unat (QuorumSize s - 1)
      then counting s (List.insert (m_memberId m) R) s'' else passed s s'')"
proof -
  obtain s1 where s1: "RecordVoteAcceptedFromReplica e m s' = Inr s1" "counting s R s1"
    using record_counting [OF assms(2,3)] by blast
  obtain rs where rs: "s1 = s\<lparr>l_replicas := rs, l_responseMap := R\<rparr>" "map r_node rs = map r_node (l_replicas s)"
    using s1(2) by (auto simp: counting_def)
  have len: "length rs = length (l_replicas s)" using rs(2) by (metis length_map)
  let ?R = "List.insert (m_memberId m) R"
  let ?s2 = "s\<lparr>l_replicas := rs, l_responseMap := ?R\<rparr>"
  let ?s3 = "s\<lparr>l_replicas := rs, l_responseMap := ?R, l_outstandingVote := None, l_actionTimeout := I64_MAX\<rparr>"
  have prim: "AmPrimary s'" using assms(1,2) by (auto simp: waiting_def counting_def AmPrimary_def)
  have run: "HandleVoteAcceptedMsg e m s' =
      (if unat (QuorumSize s - 1) \<le> length ?R then AddToExecutionQueue e (l_maxAcceptedVote s) ?s3 else Inr ?s2)"
    using prim s1(1) rs(1) assms(1,3) len
    by (auto simp: HandleVoteAcceptedMsg_def Let_def waiting_def acceptance_def AmPrimary_def QuorumSize_def
        split: option.splits)
  have "\<exists>s''. AddToExecutionQueue e (l_maxAcceptedVote s) ?s3 = Inr s'' \<and> passed s s''"
    using enqueue_passes [of ?s3 "l_maxAcceptedVote s" e] q assms(1) rs(2) by (auto simp: waiting_def AmPrimary_def passed_def)
  then show ?thesis using run rs(2) by (auto simp: counting_def not_less)
qed

lemma passed_stays:
  "passed s s' \<Longrightarrow> acceptance s m \<Longrightarrow> \<exists>s''. HandleVoteAcceptedMsg e m s' = Inr s'' \<and> passed s s''"
  using record_nodes [of m s' e] GetReplica_nodes [of s' s]
  by (auto simp: HandleVoteAcceptedMsg_def passed_def acceptance_def)

lemma passed_all:
  "passed s s' \<Longrightarrow> \<forall>m \<in> set ms. acceptance s m \<Longrightarrow> \<exists>s''. accept_all e ms s' = Inr s'' \<and> passed s s''"
proof (induction ms arbitrary: s')
  case (Cons m ms)
  then obtain s1 where "HandleVoteAcceptedMsg e m s' = Inr s1" "passed s s1" using passed_stays [of s s' m e] by auto
  with Cons show ?case by auto
qed simp

lemma accept_all_counts:
  assumes "waiting s"
    and q: "eq_lastPassedDecree (l_executeQ s) = eq_lastInsertedDecree (l_executeQ s)"
      "m_decree (l_maxAcceptedVote s) \<noteq> eq_lastPassedDecree (l_executeQ s)"
  shows "counting s R s' \<Longrightarrow> distinct R \<Longrightarrow> length R < unat (QuorumSize s - 1) \<Longrightarrow> \<forall>m \<in> set ms. acceptance s m \<Longrightarrow>
    \<exists>s''. accept_all e ms s' = Inr s'' \<and>
     (if card (set R \<union> m_memberId ` set ms) < unat (QuorumSize s - 1) then \<exists>R'. counting s R' s'' else passed s s'')"
proof (induction ms arbitrary: R s')
  case Nil
  then show ?case by (auto simp: distinct_card)
next
  case (Cons m ms)
  let ?R = "List.insert (m_memberId m) R"
  have d: "distinct ?R" "set ?R = insert (m_memberId m) (set R)" using Cons.prems(2) by simp_all
  have u: "set R \<union> m_memberId ` set (m # ms) = set ?R \<union> m_memberId ` set ms" using d(2) by auto
  obtain s1 where s1: "HandleVoteAcceptedMsg e m s' = Inr s1"
      "if length ?R < unat (QuorumSize s - 1) then counting s ?R s1 else passed s s1"
    using accept_step [OF assms(1) Cons.prems(1) _ q] Cons.prems(4) by force
  show ?case
  proof (cases "length ?R < unat (QuorumSize s - 1)")
    case True
    then show ?thesis using Cons.IH [of ?R s1] Cons.prems(4) s1 d(1) unfolding u by simp
  next
    case False
    have "card (set ?R) \<le> card (set ?R \<union> m_memberId ` set ms)" by (intro card_mono) auto
    then have "\<not> card (set R \<union> m_memberId ` set (m # ms)) < unat (QuorumSize s - 1)"
      unfolding u using False distinct_card [OF d(1)] by simp
    then show ?thesis using passed_all [of s s1 ms e] Cons.prems(4) s1 False by simp
  qed
qed

text \<open>
  C6: A proposed vote passes with a majority, and not before.  A primary that
  waits for its outstanding vote and receives acceptances of it in any order,
  with any duplicates, keeps waiting while fewer than QuorumSize - 1 different
  replicas have answered (its own log holds the vote already), and with that
  many the vote is handed to the execution queue exactly once.
\<close>
theorem vote_passes_with_majority:
  assumes "waiting s" "l_responseMap s = []" "\<forall>m \<in> set ms. acceptance s m" "0 < QuorumSize s - 1"
    and q: "eq_lastPassedDecree (l_executeQ s) = eq_lastInsertedDecree (l_executeQ s)"
      "m_decree (l_maxAcceptedVote s) \<noteq> eq_lastPassedDecree (l_executeQ s)"
  shows "\<exists>s'. accept_all e ms s = Inr s' \<and>
     (if card (m_memberId ` set ms) < unat (QuorumSize s - 1)
      then l_outstandingVote s' = l_outstandingVote s \<and> l_executeQ s' = l_executeQ s
      else l_outstandingVote s' = None \<and>
           vq_votes (eq_toExecuteQ (l_executeQ s')) = vq_votes (eq_toExecuteQ (l_executeQ s)) @ [l_maxAcceptedVote s])"
proof -
  have "counting s [] s" using assms(2) unfolding counting_def by (intro exI [of _ "l_replicas s"]) simp
  then obtain s' where s': "accept_all e ms s = Inr s'"
      "if card (m_memberId ` set ms) < unat (QuorumSize s - 1) then \<exists>R'. counting s R' s' else passed s s'"
    using accept_all_counts [OF assms(1) q, of "[]" s ms e] assms(3,4) by (auto simp: word_less_nat_alt)
  then show ?thesis by (auto simp: counting_def passed_def)
qed

section \<open>Collecting promises\<close>

fun promise_all :: "env \<Rightarrow> (mid Message \<times> lvote) list \<Rightarrow> lstep" where
  "promise_all e [] s = Inr s"
| "promise_all e ((m, v) # ms) s = bindE (HandlePrepareAcceptedMsg e m v s) (promise_all e ms)"

text \<open>A replica that has just sent its prepare message.\<close>
definition prepared :: "legislator \<Rightarrow> bool" where
  "prepared s \<longleftrightarrow> l_state s = Preparing \<and> l_responseMap s = [] \<and> l_oldFreshestVote s = Some (l_maxAcceptedVote s) \<and>
     \<not> l_relinquishPrimary s \<and> 1 < QuorumSize s \<and> 0 < PaxosConfiguration s"

text \<open>A promise for the ballot of this replica, with the vote its sender has accepted.\<close>
definition promise :: "legislator \<Rightarrow> mid Message \<times> lvote \<Rightarrow> bool" where
  "promise s p \<longleftrightarrow> IsSameDecree (fst p) (m_decree (l_maxAcceptedVote s)) (l_maxBallot s) \<and>
     \<not> (m_decree (snd p) > m_decree (fst p) \<or> m_ballot (snd p) > m_ballot (fst p))"

text \<open>The highest vote for the decree among this replica's own and those of the promises.\<close>
definition freshest :: "lvote \<Rightarrow> lvote list \<Rightarrow> lvote \<Rightarrow> bool" where
  "freshest acc vs old \<longleftrightarrow> old \<in> insert acc (set vs) \<and> m_decree old = m_decree acc \<and>
     (\<forall>w \<in> insert acc (set vs). m_decree w = m_decree acc \<longrightarrow> m_ballot w \<le> m_ballot old)"

lemma freshest_snoc:
  "freshest acc vs old \<Longrightarrow>
   freshest acc (vs @ [v]) (if m_decree v = m_decree old \<and> m_ballot v > m_ballot old then v else old)"
  by (auto simp: freshest_def)

text \<open>The states while promises are collected.\<close>
definition collecting :: "legislator \<Rightarrow> (mid Message \<times> lvote) list \<Rightarrow> legislator \<Rightarrow> bool" where
  "collecting s ps s' \<longleftrightarrow> (\<exists>old R. s' = s\<lparr>l_oldFreshestVote := Some old, l_responseMap := R\<rparr> \<and>
     freshest (l_maxAcceptedVote s) (map snd ps) old \<and> distinct R \<and> set R = (m_memberId \<circ> fst) ` set ps)"

lemma collectingI:
  "s' = s\<lparr>l_oldFreshestVote := Some old, l_responseMap := R\<rparr> \<Longrightarrow> freshest (l_maxAcceptedVote s) (map snd ps) old \<Longrightarrow>
   distinct R \<Longrightarrow> set R = (m_memberId \<circ> fst) ` set ps \<Longrightarrow> collecting s ps s'"
  unfolding collecting_def by blast

text \<open>The primary that has proposed: its outstanding vote, at the decree and ballot it prepared.\<close>
definition proposing :: "legislator \<Rightarrow> (mid Message \<times> lvote) list \<Rightarrow> legislator \<Rightarrow> bool" where
  "proposing s ps s' \<longleftrightarrow> unat (QuorumSize s - 1) \<le> card ((m_memberId \<circ> fst) ` set ps) \<and>
     (\<exists>old v. freshest (l_maxAcceptedVote s) (map snd ps) old \<and> l_outstandingVote s' = Some v \<and>
        m_ballot v = l_maxBallot s \<and> m_configurationNumber v = PaxosConfiguration s \<and>
        (m_ballot (l_maxAcceptedVote s) < l_maxBallot s \<longrightarrow> m_decree v = m_decree (l_maxAcceptedVote s)) \<and>
        lv_requests v = lv_requests old \<and> lv_isReconfiguration v = lv_isReconfiguration old)"

lemma Vote_copy_requests:
  "Vote_copy v other k = Inr x \<Longrightarrow> lv_requests x = lv_requests other \<and> lv_isReconfiguration x = lv_isReconfiguration other \<and>
     \<not> lv_relinquishPrimary x"
  by (auto simp: Vote_copy_def lvote_init_def bindE_eq_Inr Message.defs lvote.defs)

lemma propose_outstanding:
  assumes "propose init e vote s = Inr s'" "1 < QuorumSize s" "0 < PaxosConfiguration s"
    "m_configurationNumber vote = PaxosConfiguration s"
  shows "l_outstandingVote s' = Some vote \<and> l_state s' = l_state s"
proof -
  let ?s = "s\<lparr>l_outstandingVote := Some vote, l_actionTimeout := e_now e + HRTIME_SECONDS 1\<rparr>"
  obtain s1 where s1: "LogVote init e vote ?s = Inr s1" "s' = SendRequestToAll e (VoteMsg vote) s1"
    using assms(1,2) by (auto simp: propose_def bindE_eq_Inr)
  have "stays ?s (LogVote init e vote ?s)"
    using word_dec_less assms(3,4) by (intro stays_LogVote) (simp add: PaxosConfiguration_def)
  then have "same_conf ?s s'"
    using s1 same_conf_trans [OF _ same_conf_ToAll] by (auto simp: stays_def)
  then show ?thesis by (simp add: same_conf_def)
qed

lemma primary_proposes:
  assumes "StartBeingStablePrimary init e s = Inr s'" "l_oldFreshestVote s = Some old" "\<not> l_relinquishPrimary s"
    "1 < QuorumSize s" "0 < PaxosConfiguration s"
  shows "l_state s' = StablePrimary \<and> (\<exists>v. l_outstandingVote s' = Some v \<and> m_ballot v = l_maxBallot s \<and>
     m_configurationNumber v = PaxosConfiguration s \<and>
     (m_ballot (l_maxAcceptedVote s) < l_maxBallot s \<longrightarrow> m_decree v = m_decree (l_maxAcceptedVote s)) \<and>
     lv_requests v = lv_requests old \<and> lv_isReconfiguration v = lv_isReconfiguration old)"
proof -
  let ?s = "s\<lparr>l_IsTransitioningToPrimary := True, l_forceReelection := False, l_state := StablePrimary,
      l_outstandingVote := None, l_responseMap := []\<rparr>"
  obtain x s1 where x: "Vote_copy (l_version s) old (l_primaryCookie s) = Inr x" "SendNextVote init e x ?s = Inr s1"
      "s' = s1\<lparr>l_oldFreshestVote := None\<rparr>"
    using assms(1,2) by (auto simp: StartBeingStablePrimary_def Let_def bindE_eq_Inr)
  note cp = Vote_copy_requests [OF x(1)]
  obtain d where d: "(if l_maxBallot s = m_ballot (l_maxAcceptedVote s) then Inr (m_decree (l_maxAcceptedVote s) + 1)
      else bindE (log_assert (l_maxBallot s > m_ballot (l_maxAcceptedVote s)) ()) (\<lambda>_. Inr (m_decree (l_maxAcceptedVote s)))) = Inr d"
      "propose init e (stamped e x d ?s) ?s = Inr s1"
  proof -
    have "\<not> GetRelinquishPrimary (stamped e x d ?s)" for d using cp by (simp add: stamped_def GetRelinquishPrimary_def)
    then show ?thesis using x(2) assms(3) that by (auto simp: SendNextVote_def Let_def bindE_eq_Inr simp del: if_split cong: if_cong)
  qed
  have "l_outstandingVote s1 = Some (stamped e x d ?s) \<and> l_state s1 = l_state ?s"
    by (rule propose_outstanding [OF d(2)]) (use assms(4,5) in \<open>simp_all add: QuorumSize_def PaxosConfiguration_def stamped_def\<close>)
  moreover have "m_ballot (l_maxAcceptedVote s) < l_maxBallot s \<longrightarrow> d = m_decree (l_maxAcceptedVote s)"
    using d(1) by (auto split: if_splits)
  ultimately show ?thesis using x(3) cp by (simp add: stamped_def PaxosConfiguration_def)
qed

lemma promise_step:
  assumes s: "prepared s" "collecting s ps s'" "promise s (m, v)" and r: "HandlePrepareAcceptedMsg e m v s' = Inr s''"
  shows "if l_state s'' = Preparing then collecting s (ps @ [(m, v)]) s''
         else l_state s'' = StablePrimary \<and> proposing s (ps @ [(m, v)]) s''"
proof -
  obtain old R where c: "s' = s\<lparr>l_oldFreshestVote := Some old, l_responseMap := R\<rparr>"
      "freshest (l_maxAcceptedVote s) (map snd ps) old" "distinct R" "set R = (m_memberId \<circ> fst) ` set ps"
    using s(2) by (auto simp: collecting_def)
  let ?old = "if m_decree v = m_decree old \<and> m_ballot v > m_ballot old then v else old"
  let ?R = "List.insert (m_memberId m) R" let ?s = "s\<lparr>l_oldFreshestVote := Some ?old, l_responseMap := ?R\<rparr>"
  have fr: "freshest (l_maxAcceptedVote s) (map snd (ps @ [(m, v)])) ?old" using freshest_snoc [OF c(2), of v] by simp
  have R: "distinct ?R" "set ?R = (m_memberId \<circ> fst) ` set (ps @ [(m, v)])" using c(3,4) by auto
  have "HandlePrepareAcceptedMsg e m v s' =
      (if length ?R \<ge> unat (QuorumSize s - 1) then StartBeingStablePrimary (StartInit e) e ?s else Inr ?s)"
    using r s(1,3) c(1) unfolding HandlePrepareAcceptedMsg_def Let_def
    by (auto simp: prepared_def promise_def bindE_eq_Inr QuorumSize_def split: if_splits)
  note run = this
  show ?thesis
  proof (cases "length ?R \<ge> unat (QuorumSize s - 1)")
    case True
    have "l_state s'' = StablePrimary \<and> (\<exists>v. l_outstandingVote s'' = Some v \<and> m_ballot v = l_maxBallot ?s \<and>
       m_configurationNumber v = PaxosConfiguration ?s \<and>
       (m_ballot (l_maxAcceptedVote ?s) < l_maxBallot ?s \<longrightarrow> m_decree v = m_decree (l_maxAcceptedVote ?s)) \<and>
       lv_requests v = lv_requests ?old \<and> lv_isReconfiguration v = lv_isReconfiguration ?old)"
      by (rule primary_proposes [where init = "StartInit e" and e = e])
        (use True run r s(1) in \<open>auto simp: prepared_def QuorumSize_def PaxosConfiguration_def\<close>)
    moreover have "unat (QuorumSize s - 1) \<le> card ((m_memberId \<circ> fst) ` set (ps @ [(m, v)]))"
      using True distinct_card [OF R(1)] R(2) by simp
    ultimately show ?thesis using fr unfolding proposing_def by (auto simp: PaxosConfiguration_def)
  next
    case False
    then have "s'' = ?s" using run r by simp
    moreover have "l_state ?s = Preparing" using s(1) by (simp add: prepared_def)
    ultimately show ?thesis using collectingI [OF _ fr R] by simp
  qed
qed

lemma promise_done:
  "l_state s = StablePrimary \<Longrightarrow> promise_all e ps s = Inr s' \<Longrightarrow> s' = s"
  by (induction ps arbitrary: s) (auto simp: HandlePrepareAcceptedMsg_def)

lemma promise_all_collects:
  assumes "prepared s"
  shows "collecting s ps s1 \<Longrightarrow> \<forall>p \<in> set qs. promise s p \<Longrightarrow> promise_all e qs s1 = Inr s' \<Longrightarrow>
    (if l_state s' = Preparing then collecting s (ps @ qs) s'
     else l_state s' = StablePrimary \<and> (\<exists>k \<le> length qs. proposing s (ps @ take k qs) s'))"
proof (induction qs arbitrary: ps s1)
  case Nil
  then have "l_state s1 = Preparing" using assms by (auto simp: collecting_def prepared_def)
  then show ?case using Nil by simp
next
  case (Cons q qs)
  obtain m v where q: "q = (m, v)" by (cases q)
  obtain s2 where s2: "HandlePrepareAcceptedMsg e m v s1 = Inr s2" "promise_all e qs s2 = Inr s'"
    using Cons.prems(3) q by (auto simp: bindE_eq_Inr)
  have p: "promise s (m, v)" using Cons.prems(2) q by simp
  note st = promise_step [OF assms Cons.prems(1) p s2(1)]
  show ?case
  proof (cases "l_state s2 = Preparing")
    case True
    then have "collecting s (ps @ [q]) s2" using st q by simp
    note IH = Cons.IH [OF this _ s2(2)]
    show ?thesis
    proof (cases "l_state s' = Preparing")
      case False
      then obtain k where "k \<le> length qs" "proposing s ((ps @ [q]) @ take k qs) s'" "l_state s' = StablePrimary"
        using IH Cons.prems(2) by auto
      then show ?thesis using False by (auto intro: exI [of _ "Suc k"])
    qed (use IH Cons.prems(2) in simp)
  next
    case False
    then have "s' = s2" using promise_done [OF _ s2(2)] st by simp
    then show ?thesis using st False q by (auto intro: exI [of _ 1])
  qed
qed

text \<open>
  C5: A replica becomes primary only after a majority has promised its ballot,
  and then proposes the freshest vote it was told of.  While it collects the
  promises for its ballot it either still waits, or QuorumSize - 1 different
  replicas besides itself have answered, and its outstanding vote carries the
  requests of a vote with the highest ballot for the current decree among its
  own last vote and those of these promises, restamped with its own ballot.
\<close>
theorem primary_proposes_freshest:
  assumes "prepared s" "\<forall>p \<in> set ps. promise s p" "promise_all e ps s = Inr s'" "l_state s' \<noteq> Preparing"
  shows "l_state s' = StablePrimary \<and> (\<exists>k \<le> length ps. proposing s (take k ps) s')"
proof -
  have "s = s\<lparr>l_oldFreshestVote := Some (l_maxAcceptedVote s), l_responseMap := []\<rparr>"
    using assms(1) by (cases s) (simp add: prepared_def)
  moreover have "freshest (l_maxAcceptedVote s) [] (l_maxAcceptedVote s)" by (simp add: freshest_def)
  ultimately have "collecting s [] s" using collectingI [of s "[]" "l_maxAcceptedVote s" s "[]"] by simp
  then show ?thesis using promise_all_collects [OF assms(1) _ assms(2,3), of "[]"] assms(4) by auto
qed

text \<open>
  Replica A prepares ballot 4 while it holds a vote of ballot 1; the promise of
  B carries a vote of ballot 2, which A then proposes.
\<close>
definition ex_preparing :: legislator where
  "ex_preparing = (ex_start [ex_node 66, ex_node 67] (ex_vote_msg 66 5 1))
     \<lparr>l_state := Preparing, l_maxBallot := BallotNumber 4 (Mid [65]), l_oldFreshestVote := Some (ex_vote_msg 66 5 1)\<rparr>"

definition ex_promises :: "(mid Message \<times> lvote) list" where
  "ex_promises = [((ex_hdr Message_PrepareAccepted 66 5 4)\<lparr>m_ballot := BallotNumber 4 (Mid [65])\<rparr>,
      (ex_vote_msg 67 5 2)\<lparr>lv_requests := [([9], None)]\<rparr>)]"

definition ex_primary :: legislator where
  "ex_primary = projr (promise_all ex_env ex_promises ex_preparing)"

lemma ex_primary: "promise_all ex_env ex_promises ex_preparing = Inr ex_primary" "l_state ex_primary = StablePrimary"
proof -
  have "\<not> isl (promise_all ex_env ex_promises ex_preparing)" by code_simp
  then show "promise_all ex_env ex_promises ex_preparing = Inr ex_primary" by (simp add: ex_primary_def)
  show "l_state ex_primary = StablePrimary" by code_simp
qed

theorem primary_proposes_freshest_witness:
  "l_state ex_primary = StablePrimary \<and> (\<exists>k \<le> length ex_promises. proposing ex_preparing (take k ex_promises) ex_primary)"
proof (rule primary_proposes_freshest)
  show "prepared ex_preparing" by code_simp
  show "\<forall>p \<in> set ex_promises. promise ex_preparing p" by code_simp
  show "promise_all ex_env ex_promises ex_preparing = Inr ex_primary" by (rule ex_primary)
  show "l_state ex_primary \<noteq> Preparing" using ex_primary(2) by simp
qed

text \<open>A as the primary of ballot 4 that has proposed decree 6, which B accepts.\<close>
definition ex_waiting :: legislator where
  "ex_waiting = (let v = (ex_vote_msg 65 6 4) in
     (ex_start [ex_node 66, ex_node 67] v)\<lparr>l_state := StablePrimary, l_outstandingVote := Some v\<rparr>)"

definition ex_acceptance :: "mid Message" where
  "ex_acceptance = (ex_hdr Message_VoteAccepted 66 6 4)\<lparr>m_ballot := BallotNumber 4 (Mid [65]), m_remoteIP := 66\<rparr>"

theorem vote_passes_with_majority_witness:
  "\<exists>s'. accept_all ex_env [ex_acceptance, ex_acceptance] ex_waiting = Inr s' \<and>
     (if card (m_memberId ` set [ex_acceptance, ex_acceptance]) < unat (QuorumSize ex_waiting - 1)
      then l_outstandingVote s' = l_outstandingVote ex_waiting \<and> l_executeQ s' = l_executeQ ex_waiting
      else l_outstandingVote s' = None \<and>
           vq_votes (eq_toExecuteQ (l_executeQ s')) =
             vq_votes (eq_toExecuteQ (l_executeQ ex_waiting)) @ [l_maxAcceptedVote ex_waiting])"
proof (rule vote_passes_with_majority)
  show "waiting ex_waiting" by code_simp
  show "l_responseMap ex_waiting = []" by code_simp
  show "\<forall>m \<in> set [ex_acceptance, ex_acceptance]. acceptance ex_waiting m" by code_simp
  show "0 < QuorumSize ex_waiting - 1" by code_simp
  show "eq_lastPassedDecree (l_executeQ ex_waiting) = eq_lastInsertedDecree (l_executeQ ex_waiting)" by code_simp
  show "m_decree (l_maxAcceptedVote ex_waiting) \<noteq> eq_lastPassedDecree (l_executeQ ex_waiting)" by code_simp
qed

section \<open>A primary that gives up the leadership\<close>

text \<open>
  C34: A replica that is relinquishing the leadership aborts in the round of
  MainLoop that finds a vote in its cache: HandleNewVotes returns without
  emptying the queue the votes were moved to, and the destructor of that queue
  asserts that it is empty.
\<close>
theorem relinquishing_replica_aborts:
  assumes "l_relinquishPrimary s" "l_state s \<noteq> PaxosInactive" "l_state s \<noteq> Initializing" "vq_votes (l_voteCache s) \<noteq> []"
  shows "MainLoop e s = Inl AssertFailed"
  using assms by (simp add: MainLoop_def HandleNewVotes_def Let_def)

text \<open>A, relinquishing ballot 4, has received a vote of the next leader C.\<close>
definition ex_relinquishing :: legislator where
  "ex_relinquishing = projr (ProcessReceive ex_env 67 1000 False (VoteMsg (ex_vote_msg 67 7 5))
     (ex_waiting\<lparr>l_relinquishPrimary := True\<rparr>))"

theorem relinquishing_replica_aborts_witness: "MainLoop ex_env ex_relinquishing = Inl AssertFailed"
proof (rule relinquishing_replica_aborts)
  show "l_relinquishPrimary ex_relinquishing" "l_state ex_relinquishing \<noteq> PaxosInactive"
    "l_state ex_relinquishing \<noteq> Initializing" by code_simp+
  have "length (vq_votes (l_voteCache ex_relinquishing)) = 1" by code_simp
  then show "vq_votes (l_voteCache ex_relinquishing) \<noteq> []" by auto
qed

lemma relinquishing_primary:
  assumes "StartBeingStablePrimary init e s = Inr s'" "l_relinquishPrimary s"
  shows "l_state s' = StablePrimary \<and> l_outstandingVote s' = None \<and> l_actionTimeout s' = l_actionTimeout s \<and> l_relinquishPrimary s'"
  using assms
  by (auto simp: StartBeingStablePrimary_def SendNextVote_def Let_def bindE_eq_Inr split: option.splits if_splits)

lemma status_request_keeps:
  "l_state (SendStatusRequestMessage e s) = l_state s" "l_outstandingVote (SendStatusRequestMessage e s) = l_outstandingVote s"
  "l_actionTimeout (SendStatusRequestMessage e s) = l_actionTimeout s"
  using same_conf_ToAll [of s e "StatusQuery s"] by (simp_all add: SendStatusRequestMessage_def same_conf_def)

text \<open>
  C35: A replica that was relinquishing the leadership and is elected again
  becomes primary without proposing anything, since SendNextVote returns early
  and the flag is never reset; when the timer set for its prepare message
  expires, ReSendCurrentVote asserts an outstanding vote and aborts.
\<close>
theorem reelected_after_relinquishing_aborts:
  assumes "StartBeingStablePrimary (StartInit e) e s = Inr s'" "l_relinquishPrimary s" "l_actionTimeout s < e_now e'"
  shows "Timer e' s' = Inl AssertFailed"
  using relinquishing_primary [OF assms(1,2)] assms(3) status_request_keeps
  by (simp add: Timer_def Let_def AmPrimary_def ReSendCurrentVote_def)

definition ex_reelected :: legislator where
  "ex_reelected = ex_preparing\<lparr>l_relinquishPrimary := True, l_actionTimeout := 0\<rparr>"

theorem reelected_after_relinquishing_aborts_witness:
  "Timer ex_env (projr (StartBeingStablePrimary (StartInit ex_env) ex_env ex_reelected)) = Inl AssertFailed"
proof (rule reelected_after_relinquishing_aborts)
  have "\<not> isl (StartBeingStablePrimary (StartInit ex_env) ex_env ex_reelected)" by code_simp
  then show "StartBeingStablePrimary (StartInit ex_env) ex_env ex_reelected =
      Inr (projr (StartBeingStablePrimary (StartInit ex_env) ex_env ex_reelected))" by simp
  show "l_relinquishPrimary ex_reelected" "l_actionTimeout ex_reelected < e_now ex_env" by code_simp+
qed

end
