(* ===== verification/Learn_Serve.thy ===== *)
theory Learn_Serve
  imports Learn_Protocol Streams
begin

text \<open>
  What a replica sends on its learn port (learn_protocol.cpp): SendLearnFile
  copies a file to the socket through the sequential reader, ServeLearnRequest
  answers a request.  The operating system's part is given as arguments: io the
  answers to the reads of the i-th file sent for a request, sys the code with
  which it is opened, send the socket.  marshal is the encoding of the status
  response.  The times in LearnFileMetrics are not modelled.
\<close>

section \<open>Operations\<close>

definition ERROR_INVALID_DATA :: u32 where "ERROR_INVALID_DATA = 13"

record LearnFileMetrics =
  lm_fileReads :: u64
  lm_bytesRead :: u64

text \<open>
  The loop of SendLearnFile; remaining is an Int64, which the subtraction of at
  most one buffer cannot overflow as it is positive.  k bounds the number of
  rounds: a round that does not end in an error reads at least a byte.
\<close>
fun send_loop ::
  "read_io \<Rightarrow> (int \<Rightarrow> u8 list \<Rightarrow> 'k \<Rightarrow> int \<times> u32 \<times> 'k) \<Rightarrow> nat \<Rightarrow> int \<Rightarrow> APSEQREAD \<Rightarrow> 'k \<Rightarrow> (u32 \<times> 'k) res" where
  "send_loop io send k remaining reader sock =
     (if \<not> remaining > 0 then Inr (NO_ERROR, sock)
      else case k of
             0 \<Rightarrow> Inl OutOfFuel
           | Suc k \<Rightarrow>
               bindE (GetDataPointer io True c_readBufSize reader) (\<lambda>(ec, buffer, reader).
               if ec \<noteq> NO_ERROR then Inr (ec, sock)
               else bindE (StreamSocket_Write send (length buffer) buffer sock) (\<lambda>(ec, n, sock).
               if ec \<noteq> NO_ERROR then Inr (ec, sock)
               else send_loop io send k (remaining - int (length buffer)) reader sock)))"

declare send_loop.simps [simp del]

definition SendLearnFile ::
  "read_io \<Rightarrow> u32 \<Rightarrow> (int \<Rightarrow> u8 list \<Rightarrow> 'k \<Rightarrow> int \<times> u32 \<times> 'k) \<Rightarrow> u8 list \<Rightarrow> u64 \<Rightarrow> int \<Rightarrow> LearnFileMetrics option \<Rightarrow> 'k \<Rightarrow>
     (u32 \<times> LearnFileMetrics option \<times> 'k) res" where
  "SendLearnFile io sys send file offset len metrics sock =
     (let (error, reader) = sr_DoInit io sys file c_maxReadsDefault c_readBufSize new_APSEQREAD in
      if error \<noteq> NO_ERROR then Inr (error, metrics, sock)
      else let (error, reader) = (if offset > 0 then sr_Reset io offset reader else (NO_ERROR, reader)) in
      if error \<noteq> NO_ERROR then Inr (error, metrics, sock)
      else let len = (if len < 0 then sint (sr_FileSize reader - offset) else len) in
      bindE (send_loop io send (nat len) len reader sock) (\<lambda>(error, sock).
      if error \<noteq> NO_ERROR then Inr (error, metrics, sock)
      else Inr (NO_ERROR, map_option (\<lambda>m. m\<lparr>lm_fileReads := lm_fileReads m + 1, lm_bytesRead := lm_bytesRead m + of_int len\<rparr>) metrics, sock)))"

text \<open>The search for the first log: its offset, and the logs from it on.\<close>
fun find_log :: "u64 \<Rightarrow> LearnLogFile list \<Rightarrow> (u64 \<times> LearnLogFile list) option" where
  "find_log decree [] = None"
| "find_log decree (log # logs) =
     (if decree \<ge> ll_minDecree log \<and> unat (decree - ll_minDecree log) < length (ll_decreeOffsets log)
      then Some (ll_decreeOffsets log ! unat (decree - ll_minDecree log), log # logs)
      else find_log decree logs)"

text \<open>The files from the i-th one on, the first of them from offset on.\<close>
fun send_logs ::
  "(nat \<Rightarrow> read_io) \<Rightarrow> (nat \<Rightarrow> u32) \<Rightarrow> (int \<Rightarrow> u8 list \<Rightarrow> 'k \<Rightarrow> int \<times> u32 \<times> 'k) \<Rightarrow> nat \<Rightarrow> u64 \<Rightarrow> LearnLogFile list \<Rightarrow>
     LearnFileMetrics option \<Rightarrow> 'k \<Rightarrow> (u32 \<times> LearnFileMetrics option \<times> 'k) res" where
  "send_logs io sys send i offset [] metrics sock = Inr (NO_ERROR, metrics, sock)"
| "send_logs io sys send i offset (log # logs) metrics sock =
     bindE (SendLearnFile (io i) (sys i) send (ll_file log) offset (-1) metrics sock) (\<lambda>(error, metrics, sock).
     if error \<noteq> NO_ERROR then Inr (error, metrics, sock)
     else send_logs io sys send (Suc i) 0 logs metrics sock)"

definition ServeLearnRequest ::
  "(nat \<Rightarrow> read_io) \<Rightarrow> (nat \<Rightarrow> u32) \<Rightarrow> (int \<Rightarrow> u8 list \<Rightarrow> 'k \<Rightarrow> int \<times> u32 \<times> 'k) \<Rightarrow> (mid StatusResponse \<Rightarrow> u8 list) \<Rightarrow>
     mid Message \<Rightarrow> LearnServerState \<Rightarrow> LearnFileMetrics option \<Rightarrow> 'k \<Rightarrow> (u32 \<times> LearnFileMetrics option \<times> 'k) res" where
  "ServeLearnRequest io sys send marshal request state metrics sock =
     (if m_msgId request = Message_StatusQuery
      then if ls_relinquishing state then Inr (NO_ERROR, metrics, sock)
           else let bs = marshal (BuildLearnStatusResponse state request) in
                bindE (StreamSocket_Write send (length bs) bs sock) (\<lambda>(error, n, sock). Inr (error, metrics, sock))
      else if m_msgId request = Message_FetchVotes
      then case find_log (m_decree request) (ls_logs state) of
             None \<Rightarrow> Inr (NO_ERROR, metrics, sock)
           | Some (offset, logs) \<Rightarrow> send_logs io sys send 0 offset logs metrics sock
      else if m_msgId request = Message_FetchCheckpoint
      then case ls_checkpointFile state of
             Some file \<Rightarrow> if m_decree request \<noteq> ls_checkpointedDecree state then Inr (NO_ERROR, metrics, sock)
                          else SendLearnFile (io 0) (sys 0) send file 0 (-1) metrics sock
           | None \<Rightarrow> Inr (NO_ERROR, metrics, sock)
      else Inr (ERROR_INVALID_DATA, metrics, sock))"

section \<open>A file is sent from the offset to its end\<close>

text \<open>
  The reader stands at a block of the file, with nothing left of the buffer before
  it.  Buffers of blocks behind the end may hold anything: after a Reset they can
  be stale, and the loop must not come to them.
\<close>
definition at_block :: "APSEQREAD \<Rightarrow> nat \<Rightarrow> bool" where
  "at_block s p \<longleftrightarrow> sr_wf s \<and> sr_cbLeft s = 0 \<and> sr_readBufSize s = c_readBufSize \<and>
     unat (sr_cbSkip s) < unat c_readBufSize \<and> sr_ring False s (sr_start s) (sr_ahead s) p"

lemma sr_cbSkip_same:
  "sr_left (s\<lparr>sr_cbSkip := x\<rparr>) = sr_left s" "sr_left_ok (s\<lparr>sr_cbSkip := x\<rparr>) = sr_left_ok s" "sr_wf (s\<lparr>sr_cbSkip := x\<rparr>) = sr_wf s"
  "sr_start (s\<lparr>sr_cbSkip := x\<rparr>) = sr_start s" "sr_ahead (s\<lparr>sr_cbSkip := x\<rparr>) = sr_ahead s"
  by (simp_all add: sr_left_def sr_left_ok_def sr_wf_def sr_start_def sr_ahead_def split: option.split)

text \<open>The next buffer is read to its end.\<close>
lemma GetDataPointer_block:
  assumes s: "at_block s p" and io: "read_good io" and here: "p + unat (sr_cbSkip s) < length (sr_file s)"
  shows "\<exists>s'. GetDataPointer io True c_readBufSize s =
      Inr (NO_ERROR, drop (unat (sr_cbSkip s)) (take (unat c_readBufSize) (drop p (sr_file s))), s') \<and>
    at_block s' (p + unat c_readBufSize) \<and> sr_cbSkip s' = 0 \<and> sr_file s' = sr_file s"
proof -
  let ?B = "unat c_readBufSize" and ?k = "unat (sr_cbSkip s)"
  have B: "?B = 65536" by (simp add: c_readBufSize_def)
  obtain s1 where s1: "ReadNext io s = (NO_ERROR, s1)" "sr_wf s1" "sr_left_ok s1" "sr_ring False s1 (sr_start s1) (sr_ahead s1) (p + ?B)"
      "sr_left s1 = take ?B (drop p (sr_file s))" "unat (sr_cbLeft s1) = length (sr_left s1)"
      "sr_file s1 = sr_file s" "sr_cbSkip s1 = sr_cbSkip s" "sr_readBufSize s1 = c_readBufSize"
    using ReadNext_ok [of s io False p] s io here by (auto simp: at_block_def)
  define s2 where "s2 = (if sr_cbSkip s1 \<noteq> 0 then (sr_advance (sr_cbSkip s1) s1)\<lparr>sr_cbSkip := 0\<rparr> else s1)"
  have k: "?k \<le> unat (sr_cbLeft s1)" using s here s1(5,6) by (auto simp: at_block_def)
  note adv = sr_advance_ok [OF s1(2,3), of "sr_cbSkip s1"]
  have s2: "sr_left s2 = drop ?k (sr_left s1)" "sr_left_ok s2" "sr_wf s2" "sr_cbSkip s2 = 0" "sr_readBufSize s2 = c_readBufSize"
      "sr_file s2 = sr_file s" "sr_ring False s2 (sr_start s2) (sr_ahead s2) (p + ?B)"
    using adv s1 k by (auto simp: s2_def sr_cbSkip_same sr_ring_advance)
  have len: "length (sr_left s2) = unat (sr_cbLeft s2)" by (rule length_sr_left [OF s2(3,2)])
  have pos: "0 < unat (sr_cbLeft s2)" "unat (sr_cbLeft s2) \<le> ?B"
    using len s2(1) s1(5) s here by (auto simp: at_block_def)
  note adv2 = sr_advance_ok [OF s2(3,2), of "sr_cbLeft s2"]
  have "take_next True c_readBufSize 0 [] s2 = Inr (NO_ERROR, sr_left s2, sr_advance (sr_cbLeft s2) s2)"
  proof -
    have "sr_cbLeft s2 < c_readBufSize \<or> sr_cbLeft s2 = c_readBufSize" using pos(2) by (metis order_le_less word_le_nat_alt)
    moreover have "sr_cbLeft s2 \<noteq> 0" using pos(1) by auto
    ultimately show ?thesis using adv2(1) len by (auto simp: take_next_def Let_def)
  qed
  moreover have "0 < c_readBufSize" "sr_cbLeft s = 0" using s by (simp_all add: at_block_def c_readBufSize_def)
  ultimately have "GetDataPointer io True c_readBufSize s = Inr (NO_ERROR, sr_left s2, sr_advance (sr_cbLeft s2) s2)"
    using s1(1) by (simp add: GetDataPointer_def peek_def Let_def s2_def)
  moreover have "at_block (sr_advance (sr_cbLeft s2) s2) (p + ?B)"
    using adv2 s2 B by (simp add: at_block_def sr_ring_advance) (simp add: sr_advance_def)
  ultimately show ?thesis using s2(1,4,6) s1(5) by (intro exI [of _ "sr_advance (sr_cbLeft s2) s2"]) simp
qed

lemma send_loop_ok:
  assumes io: "read_good io" and send: "send_good sent send"
  shows "at_block s p \<Longrightarrow> p + unat (sr_cbSkip s) + n = length (sr_file s) \<Longrightarrow> n \<le> k \<Longrightarrow>
    \<exists>sock'. send_loop io send k (int n) s sock = Inr (NO_ERROR, sock') \<and>
      sent sock' = sent sock @ drop (p + unat (sr_cbSkip s)) (sr_file s)"
proof (induction k arbitrary: s p n sock)
  case 0
  then show ?case by (simp add: send_loop.simps)
next
  case (Suc k)
  show ?case
  proof (cases "n = 0")
    case True
    then show ?thesis using Suc.prems(2) by (simp add: send_loop.simps)
  next
    case False
    let ?B = "unat c_readBufSize" and ?k = "unat (sr_cbSkip s)"
    define bs where "bs = drop ?k (take ?B (drop p (sr_file s)))"
    have kB: "?k < ?B" "?B = 65536" using Suc.prems(1) by (simp_all add: at_block_def c_readBufSize_def)
    obtain s' where s': "GetDataPointer io True c_readBufSize s = Inr (NO_ERROR, bs, s')" "at_block s' (p + ?B)" "sr_cbSkip s' = 0"
        "sr_file s' = sr_file s"
      using GetDataPointer_block [OF Suc.prems(1) io] Suc.prems(2) False by (auto simp: bs_def)
    have bs: "length bs = min n (?B - ?k)" "0 < length bs" "length bs < 2 ^ 31" using Suc.prems(2) kB False by (auto simp: bs_def)
    obtain sock1 where w: "StreamSocket_Write send (length bs) bs sock = Inr (NO_ERROR, length bs, sock1)" "sent sock1 = sent sock @ bs"
      using StreamSocket_Write_ok [OF send order_refl bs(3)] by blast
    have all: "drop (p + ?k) (sr_file s) = bs @ drop (p + ?B) (sr_file s)"
      using append_take_drop_id [of "?B - ?k" "drop (p + ?k) (sr_file s)"] kB(1) by (simp add: bs_def drop_take add.commute)
    have loop: "send_loop io send (Suc k) (int n) s sock = send_loop io send k (int (n - length bs)) s' sock1"
      using s'(1) w(1) False bs(1) by (simp add: send_loop.simps [of io send "Suc k"] of_nat_diff)
    show ?thesis
    proof (cases "n \<le> ?B - ?k")
      case True
      then have "n - length bs = 0" "drop (p + ?B) (sr_file s) = []" using bs(1) Suc.prems(2) kB(1) by simp_all
      then show ?thesis using loop w(2) all by (simp add: send_loop.simps [of io send k])
    next
      case more: False
      then have "p + ?B + (n - length bs) = length (sr_file s)" "n - length bs \<le> k" using bs Suc.prems(2,3) kB(1) by auto
      then show ?thesis using Suc.IH [OF s'(2), of "n - length bs" sock1] s'(3,4) w(2) loop all by simp
    qed
  qed
qed

lemma sint_of_nat64: "n < 2 ^ 63 \<Longrightarrow> sint (of_nat n :: u64) = int n"
  by (simp add: signed_of_nat signed_take_bit_int_eq_self)

lemma SendLearnFile_ok:
  assumes io: "read_good io" and send: "send_good sent send" and len: "length file < 2 ^ 63" "unat offset \<le> length file"
  shows "\<exists>sock'. SendLearnFile io NO_ERROR send file offset (-1) metrics sock =
      Inr (NO_ERROR, map_option (\<lambda>m. m\<lparr>lm_fileReads := lm_fileReads m + 1,
        lm_bytesRead := lm_bytesRead m + of_nat (length file - unat offset)\<rparr>) metrics, sock') \<and>
      sent sock' = sent sock @ drop (unat offset) file"
proof -
  let ?B = "unat c_readBufSize"
  have B: "?B = 65536" "c_readBufSize \<noteq> 0" by (simp_all add: c_readBufSize_def)
  obtain s where s: "sr_DoInit io NO_ERROR file c_maxReadsDefault c_readBufSize new_APSEQREAD = (NO_ERROR, s)" "sr_is s file"
      "sr_file s = file" "sr_readBufSize s = c_readBufSize" "length (sr_rgReads s) = c_maxReadsDefault"
      "sr_ring True s 0 c_maxReadsDefault 0" "sr_iRead s = None" "sr_cbLeft s = 0" "sr_cbSkip s = 0"
  proof -
    have c: "1 < c_maxReadsDefault" "c_maxReadsDefault \<le> c_maxReads" "?B < 2 ^ 31"
      using B by (simp_all add: c_maxReadsDefault_def c_maxReads_def)
    show thesis using sr_DoInit_ok [OF io c(1,2) B(2) c(3) len(1)] by (elim exE conjE) (rule that)
  qed
  have wf: "sr_wf s" using s(2) by (simp add: sr_is_def)
  define s' where "s' = (if offset > 0 then snd (sr_Reset io offset s) else s)"
  obtain p where p: "(if offset > 0 then sr_Reset io offset s else (NO_ERROR, s)) = (NO_ERROR, s')" "at_block s' p"
      "p + unat (sr_cbSkip s') = unat offset" "sr_file s' = file"
  proof (cases "offset > 0")
    case True
    obtain r where r: "sr_Reset io offset s = (NO_ERROR, r)" "sr_wf r" "sr_iRead r = None" "sr_cbLeft r = 0"
        "unat (sr_cbSkip r) = unat offset mod ?B" "sr_frame (s\<lparr>sr_cbSkip := sr_cbSkip r\<rparr>) r"
        "sr_ring False r 0 c_maxReadsDefault (unat offset div ?B * ?B)"
      using sr_Reset_ring [OF io wf, of False offset] s(4,5) by auto
    then have "at_block r (unat offset div ?B * ?B)"
      using s(4,5) B(1) by (simp add: at_block_def sr_start_def sr_ahead_def sr_frame_def)
    then show thesis using that [of "unat offset div ?B * ?B"] True r s(3) by (simp add: s'_def sr_frame_def)
  next
    case False
    then have "offset = 0" using word_gt_0 [of offset] by blast
    then show thesis using that [of 0] False s wf B sr_ring_weak [OF s(6), of False]
      by (simp add: s'_def at_block_def sr_start_def sr_ahead_def)
  qed
  have size: "sr_FileSize s' = of_nat (length file)" using p(2,4) by (simp add: sr_FileSize_def at_block_def sr_wf_def)
  have diff: "of_nat (length file) - offset = of_nat (length file - unat offset)" using len(2) by (simp add: of_nat_diff)
  have sint: "sint (sr_FileSize s' - offset) = int (length file - unat offset)"
    using sint_of_nat64 [of "length file - unat offset"] len(1) size diff by simp
  obtain sock' where "send_loop io send (length file - unat offset) (int (length file - unat offset)) s' sock = Inr (NO_ERROR, sock')"
      "sent sock' = sent sock @ drop (unat offset) file"
    using send_loop_ok [OF io send p(2), of "length file - unat offset"] p(3,4) len(2) by auto
  then show ?thesis using s(1) p(1) sint by (auto simp: SendLearnFile_def Let_def)
qed

lemma send_logs_ok:
  assumes send: "send_good sent send"
  shows "\<forall>i. read_good (io i) \<and> sys i = NO_ERROR \<Longrightarrow> \<forall>log \<in> set logs. length (ll_file log) < 2 ^ 63 \<Longrightarrow>
    \<exists>metrics' sock'. send_logs io sys send i 0 logs metrics sock = Inr (NO_ERROR, metrics', sock') \<and>
      sent sock' = sent sock @ concat (map ll_file logs)"
proof (induction logs arbitrary: i metrics sock)
  case (Cons log logs)
  obtain m1 sock1 where 1: "SendLearnFile (io i) (sys i) send (ll_file log) 0 (-1) metrics sock = Inr (NO_ERROR, m1, sock1)"
      "sent sock1 = sent sock @ ll_file log"
    using SendLearnFile_ok [OF _ send, of "io i" "ll_file log" 0 metrics sock] Cons.prems by fastforce
  obtain m2 sock2 where "send_logs io sys send (Suc i) 0 logs m1 sock1 = Inr (NO_ERROR, m2, sock2)"
      "sent sock2 = sent sock1 @ concat (map ll_file logs)"
    using Cons.IH [OF Cons.prems(1), of "Suc i" m1 sock1] Cons.prems(2) by auto
  then show ?case using 1 by simp
qed simp

end
