(* ===== verification/Learn_Laws.thy ===== *)
theory Learn_Laws
  imports Legis_Laws Legis_Sample Learn_Serve
begin

text \<open>What the learn server sends, in terms of the index of the log files.\<close>

section \<open>Fetching votes\<close>

lemma dropWhile_first:
  assumes "\<forall>x \<in> set pre. \<not> P x" "P x"
  shows "dropWhile (\<lambda>x. \<not> P x) (pre @ x # post) = x # post"
  using assms by (induction pre) auto

text \<open>
  C22: a peer that asks for votes from a decree on gets the log of the replica
  from the last vote logged for that decree to its end, through all later log
  files, and nothing before it.  This is for a request that no error of the
  operating system ends: the files open, reads complete and the socket takes at
  least a byte at a time.  Every record of the index has to be on the disk, and
  files are shorter than 2^63 bytes.
\<close>
theorem fetch_votes_sends_log_suffix:
  assumes "l_logFiles s = pre @ log # post" "\<forall>lf \<in> set pre. \<not> HasDecree (m_decree request) lf"
    and "m_msgId request = Message_FetchVotes" "HasDecree (m_decree request) log"
    and "add_all ms (LogFile_new d) = Inr log" "length ms < 2 ^ 32" "unat (lf_minDecree log) + length ms < 2 ^ 64"
    and "lf_decreeOffsets log \<noteq> []" "entry_pos ms (length ms) \<le> length (lf_disk log)"
    and "\<forall>lf \<in> set (log # post). length (lf_disk lf) < 2 ^ 63"
    and "\<forall>i. read_good (io i) \<and> sys i = NO_ERROR" "send_good sent send"
  shows "\<exists>state i metrics' sock'. BuildLearnServerState e codex request s = Inr state \<and> last_vote ms (m_decree request) i \<and>
    ServeLearnRequest io sys send marshal request state metrics sock = Inr (NO_ERROR, metrics', sock') \<and>
    sent sock' = sent sock @ drop (entry_pos ms i) (lf_disk log) @ concat (map lf_disk post)"
proof -
  obtain i where i: "last_vote ms (m_decree request) i" "GetOffset (m_decree request) log = Inr (of_nat (entry_pos ms i))"
    using log_index_offset [OF assms(5-8,4)] by blast
  have "entry_pos ms i \<le> entry_pos ms (length ms)" using i(1) by (intro entry_pos_mono) (simp add: last_vote_def)
  then have le: "entry_pos ms i \<le> length (lf_disk log)" "length (lf_disk log) < 2 ^ 63" using assms(9,10) by auto
  then have u: "unat (of_nat (entry_pos ms i) :: u64) = entry_pos ms i" by (simp add: unat_of_nat take_bit_nat_eq_self)
  let ?first = "\<lparr>ll_file = lf_disk log, ll_minDecree = m_decree request, ll_decreeOffsets = [of_nat (entry_pos ms i)]\<rparr>"
    and ?rest = "map (\<lambda>lf. \<lparr>ll_file = lf_disk lf, ll_minDecree = 0, ll_decreeOffsets = []\<rparr>) post"
  have l: "learn_logs request (l_logFiles s) = Inr (?first # ?rest)"
    using dropWhile_first [of pre "HasDecree (m_decree request)"] assms(1-4) i(2) by (simp add: learn_logs_def)
  then obtain state where state: "BuildLearnServerState e codex request s = Inr state" "ls_logs state = ?first # ?rest"
    by (simp add: BuildLearnServerState_def Let_def)
  obtain m1 sock1 where 1: "SendLearnFile (io 0) (sys 0) send (lf_disk log) (of_nat (entry_pos ms i)) (-1) metrics sock = Inr (NO_ERROR, m1, sock1)"
      "sent sock1 = sent sock @ drop (entry_pos ms i) (lf_disk log)"
    using SendLearnFile_ok [OF _ assms(12), of "io 0" "lf_disk log" "of_nat (entry_pos ms i)" metrics sock] assms(11) le u by auto
  obtain m2 sock2 where 2: "send_logs io sys send 1 0 ?rest m1 sock1 = Inr (NO_ERROR, m2, sock2)"
      "sent sock2 = sent sock1 @ concat (map ll_file ?rest)"
    using send_logs_ok [OF assms(12,11), of ?rest 1 m1 sock1] assms(10) by auto
  have "ServeLearnRequest io sys send marshal request state metrics sock = Inr (NO_ERROR, m2, sock2)"
    using 1(1) 2(1) state(2) assms(3) by (simp add: ServeLearnRequest_def)
  then show ?thesis using state(1) i(1) 1(2) 2(2) by (auto simp: o_def)
qed

definition ex_fetch :: "mid Message" where
  "ex_fetch = ex_hdr Message_FetchVotes 66 5 1"

definition ex_served :: LogFile where
  "ex_served = ex_lf\<lparr>lf_disk := replicate 5000 7\<rparr>"

text \<open>A socket that takes three bytes at a time.\<close>
definition ex_sock :: "int \<Rightarrow> u8 list \<Rightarrow> u8 list \<Rightarrow> int \<times> u32 \<times> u8 list" where
  "ex_sock todo bs s = (min 3 todo, NO_ERROR, s @ take (nat (min 3 todo)) bs)"

theorem fetch_votes_sends_log_suffix_witness:
  "\<exists>state i metrics' sock'. BuildLearnServerState ex_env (\<lambda>_. []) ex_fetch (ex_s0\<lparr>l_logFiles := [ex_served]\<rparr>) = Inr state \<and>
     last_vote ex_log 5 i \<and>
     ServeLearnRequest (\<lambda>_. read_pending) (\<lambda>_. NO_ERROR) ex_sock (\<lambda>_. []) ex_fetch state None [] = Inr (NO_ERROR, metrics', sock') \<and>
     sock' = drop (entry_pos ex_log i) (replicate 5000 7)"
proof -
  have m: "m_decree ex_fetch = 5" "m_msgId ex_fetch = Message_FetchVotes"
    by (simp_all add: ex_fetch_def ex_hdr_def InitMessage_def)
  have a: "add_all ex_log (LogFile_new (replicate 5000 7)) = Inr ex_served"
    by (simp add: add_all_def ex_log_def ex_lf_def ex_served_def LogFile_new_def LogFile_AddMessage_def MaxDecree_def
        RoundUpToPage_def s_PageSize_def Let_def)
  have g: "send_good (\<lambda>s. s) ex_sock" by (auto simp: send_good_def ex_sock_def)
  have d: "lf_disk ex_served = replicate 5000 7" "lf_minDecree ex_served = 5" "lf_decreeOffsets ex_served = [1536, 2048]"
    by (simp_all add: ex_served_def ex_lf_def)
  have p: "entry_pos ex_log (length ex_log) \<le> 5000" "length ex_log = 4"
    by (simp_all add: ex_log_def entry_pos_def RoundUpToPage_def s_PageSize_def)
  show ?thesis
    using fetch_votes_sends_log_suffix [where s = "ex_s0\<lparr>l_logFiles := [ex_served]\<rparr>" and pre = "[]" and post = "[]" and log = ex_served
        and request = ex_fetch and ms = ex_log and d = "replicate 5000 7" and e = ex_env and codex = "\<lambda>_. []"
        and io = "\<lambda>_. read_pending" and sys = "\<lambda>_. NO_ERROR" and sent = "\<lambda>s. s" and send = ex_sock and marshal = "\<lambda>_. []"
        and metrics = None and sock = "[]", OF _ _ m(2) _ a _ _ _ _ _ _ g] m(1) p read_good_sample
    by (simp add: d HasDecree_def MaxDecree_def)
qed

end
