(* ===== verification/Member_Props.thy ===== *)
theory Member_Props
  imports Member_Set
begin

text \<open>
  What holds of member identifiers, ballots, message headers and replica sets:
  received identifiers and headers are well formed whatever the bytes are, the
  C++ comparison operators of ballots are one linear order, the growing array
  of nodes behaves as a list, and what Verify accepts.
\<close>

section \<open>Received headers\<close>

lemma get_bytes_length: "get_bytes len md = Inr (Some bs, md') \<Longrightarrow> length bs = unat len"
  by (auto simp: get_bytes_def Let_def load_def bindE_eq_Inr split: if_splits)

lemma bindR_SomeE:
  assumes "bindR r f md = Inr (Some y, md')"
  obtains x md1 where "r md = Inr (Some x, md1)" "f x md1 = Inr (Some y, md')"
  using assms by (cases "r md") (auto simp: bindR_def split: option.splits prod.splits)

lemma guardR_Some: "guardR b r md = Inr (Some y, md') \<longleftrightarrow> b \<and> r md = Inr (Some y, md')"
  by (simp add: guardR_def failR_def)

lemma returnR_Some: "returnR x md = Inr (Some y, md') \<longleftrightarrow> x = y \<and> md = md'"
  by (auto simp: returnR_def)

lemma c_str_shorter: "0 \<in> set v \<Longrightarrow> length (c_str v) < length v"
  by (induction v) (auto simp: c_str_def)

lemma length_string_copy: "length (c_str str) < length field \<Longrightarrow> length (string_copy str field) = length field"
  by (simp add: string_copy_def)

lemma MemberId_UnMarshal_ok:
  assumes "MemberId_UnMarshal version old md = Inr (Some m, md')" "length (m_value old) = MemberId_Size"
  shows "member_ok m"
proof -
  obtain v md1 where v: "(if version \<le> 3
            then bindR ReadUInt64 (\<lambda>val.
                   returnR (if val = 0 then 0 # drop 1 (m_value old)
                            else string_copy (dec_digits (unat val)) (m_value old)))
            else ReadData (of_nat MemberId_Size)) md = Inr (Some v, md1)"
    and m: "0 \<in> set v" "m = \<lparr>m_value = v, m_len = length (c_str v)\<rparr>"
    using assms(1) unfolding MemberId_UnMarshal_def
    by (elim bindR_SomeE) (auto simp: guardR_Some returnR_Some)
  have "length v = MemberId_Size"
  proof (cases "version \<le> 3")
    case True
    with v obtain val where "v = (if val = 0 then 0 # drop 1 (m_value old)
        else string_copy (dec_digits (unat (val :: u64))) (m_value old))"
      by (auto elim!: bindR_SomeE simp: returnR_Some)
    moreover have "length (dec_digits (unat val)) \<le> 20"
      using dec_digits_length [of "unat val" 20] unsigned_less [of val, where ?'a = nat] by simp
    ultimately show ?thesis using assms(2) by (auto simp: length_string_copy MemberId_Size_def)
  next
    case False
    with v show ?thesis using get_bytes_length [of "of_nat MemberId_Size" md v md1] by (simp add: ReadData_def MemberId_Size_def)
  qed
  then show ?thesis using m c_str_shorter [of v] by (simp add: member_ok_def)
qed

lemma MemberId_UnMarshal_empty_ok:
  "MemberId_UnMarshal version MemberId_empty md = Inr (Some m, md') \<Longrightarrow> member_ok m"
  by (erule MemberId_UnMarshal_ok) (simp add: MemberId_empty_def)

lemma BallotNumber_UnMarshal_ok:
  "BallotNumber_UnMarshal version md = Inr (Some b, md') \<Longrightarrow> ballot_ok b"
  unfolding BallotNumber_UnMarshal_def
  by (elim bindR_SomeE) (auto simp: returnR_Some ballot_ok_def intro: MemberId_UnMarshal_empty_ok)

text \<open>
  C26: Whatever bytes arrive, a header that UnMarshal accepts is well formed:
  a known version, the magic number, an announced length that covers the
  header, and identifiers that are terminated strings with the right length.
\<close>
theorem received_header_well_formed:
  assumes "Message_UnMarshal md = Inr (Some msg, md')"
  shows "IsVersionValid (m_version msg) \<and> m_magic msg = s_MessageMagic \<and>
     Message_GetBaseSize (m_version msg) \<le> m_unMarshalLen msg \<and>
     member_ok (m_memberId msg) \<and> ballot_ok (m_ballot msg) \<and>
     (m_version msg < 3 \<longrightarrow> m_configurationNumber msg = 1) \<and> (m_version msg < 6 \<longrightarrow> m_payload msg = 0)"
  using assms unfolding Message_UnMarshal_def
  by (auto elim!: bindR_SomeE simp: guardR_Some returnR_Some not_less not_le [symmetric]
      split: if_splits)
    (blast dest: MemberId_UnMarshal_empty_ok BallotNumber_UnMarshal_ok)+

theorem received_header_well_formed_witness:
  "\<exists>msg md'. Message_UnMarshal (md_of (enc_Message 172
        (InitMessage 6 Message_Vote MemberId_empty 5 1 (BallotNumber 3 MemberId_empty) 9))) = Inr (Some msg, md') \<and>
     IsVersionValid (m_version msg) \<and> m_magic msg = s_MessageMagic \<and>
     Message_GetBaseSize (m_version msg) \<le> m_unMarshalLen msg \<and>
     member_ok (m_memberId msg) \<and> ballot_ok (m_ballot msg) \<and>
     (m_version msg < 3 \<longrightarrow> m_configurationNumber msg = 1) \<and> (m_version msg < 6 \<longrightarrow> m_payload msg = 0)"
proof -
  let ?m = "InitMessage 6 Message_Vote MemberId_empty 5 1 (BallotNumber 3 MemberId_empty) 9\<lparr>m_unMarshalLen := 172\<rparr>"
  have b: "Message_GetBaseSize 6 = 172"
    by (simp add: Message_GetBaseSize_def MemberId_GetBaseSize_def BallotNumber_GetBaseSize_def MemberId_Size_def)
  have ok: "member_ok MemberId_empty" by (simp add: member_ok_def MemberId_empty_def MemberId_Size_def c_str_def)
  have v: "plain_valid ?m"
    using ok by (simp add: plain_valid_def message_valid_def InitMessage_def IsVersionValid_def b member_valid_def)
  have "length (enc_Message (Message_GetBaseSize (m_version ?m)) ?m) = 172"
    using length_enc_Message [of ?m "Message_GetBaseSize (m_version ?m)"] ok by (simp add: InitMessage_def b ballot_ok_def)
  then have "\<exists>md'. Message_UnMarshal (md_of (enc_Message (Message_GetBaseSize (m_version ?m)) ?m)) = Inr (Some ?m, md')"
    using messagec.decode_attached [OF v] by simp
  moreover have "enc_Message (Message_GetBaseSize (m_version ?m)) ?m =
      enc_Message 172 (InitMessage 6 Message_Vote MemberId_empty 5 1 (BallotNumber 3 MemberId_empty) 9)"
    by (simp add: InitMessage_def b enc_Message_def)
  ultimately show ?thesis using received_header_well_formed by metis
qed

section \<open>The order of ballots\<close>

text \<open>
  C27: On well-formed ballots the overloaded operators of BallotNumber are one
  linear order: exactly one of less, equal and greater holds, less is
  transitive, greater-or-equal is the negation of less, and equal ballots
  compare alike with every third one.  Bytes left behind the terminator of an
  identifier play no part.
\<close>
theorem ballot_operators_linear_order:
  assumes "ballot_ok a" "ballot_ok b" "ballot_ok c"
  shows "((BallotNumber_less a b \<and> \<not> BallotNumber_eq a b \<and> \<not> BallotNumber_greater a b) \<or>
      (\<not> BallotNumber_less a b \<and> BallotNumber_eq a b \<and> \<not> BallotNumber_greater a b) \<or>
      (\<not> BallotNumber_less a b \<and> \<not> BallotNumber_eq a b \<and> BallotNumber_greater a b)) \<and>
     (BallotNumber_less a b \<and> BallotNumber_less b c \<longrightarrow> BallotNumber_less a c) \<and>
     (BallotNumber_ge a b \<longleftrightarrow> \<not> BallotNumber_less a b) \<and>
     (BallotNumber_eq a b \<longrightarrow> (BallotNumber_less a c \<longleftrightarrow> BallotNumber_less b c))"
  unfolding BallotNumber_operators_abs [OF assms(1,2)] BallotNumber_operators_abs [OF assms(2,3)]
    BallotNumber_operators_abs [OF assms(1,3)]
  by auto

text \<open>Two identifiers that differ only behind the terminator.\<close>
definition ballot_with_tail :: "u8 \<Rightarrow> MemberId BallotNumber" where
  "ballot_with_tail g = BallotNumber 3 \<lparr>m_value = string_copy [49] (replicate MemberId_Size g), m_len = 1\<rparr>"

lemma ballot_with_tail_ok: "ballot_ok (ballot_with_tail g)"
  by (simp add: ballot_with_tail_def ballot_ok_def member_ok_def string_copy_def c_str_def MemberId_Size_def)

theorem ballot_operators_linear_order_witness:
  "((BallotNumber_less (ballot_with_tail 0) (ballot_with_tail 7) \<and> \<not> BallotNumber_eq (ballot_with_tail 0) (ballot_with_tail 7) \<and>
       \<not> BallotNumber_greater (ballot_with_tail 0) (ballot_with_tail 7)) \<or>
    (\<not> BallotNumber_less (ballot_with_tail 0) (ballot_with_tail 7) \<and> BallotNumber_eq (ballot_with_tail 0) (ballot_with_tail 7) \<and>
       \<not> BallotNumber_greater (ballot_with_tail 0) (ballot_with_tail 7)) \<or>
    (\<not> BallotNumber_less (ballot_with_tail 0) (ballot_with_tail 7) \<and> \<not> BallotNumber_eq (ballot_with_tail 0) (ballot_with_tail 7) \<and>
       BallotNumber_greater (ballot_with_tail 0) (ballot_with_tail 7)))"
  using ballot_operators_linear_order [OF ballot_with_tail_ok ballot_with_tail_ok ballot_with_tail_ok, of 0 7 0] by blast

section \<open>The array of nodes\<close>

datatype nc_op = AppendNode RSLNode | RemoveNode nat

fun nc_apply :: "nc_op \<Rightarrow> RSLNodeCollection \<Rightarrow> RSLNodeCollection res" where
  "nc_apply (AppendNode n) c = nc_Append n c"
| "nc_apply (RemoveNode i) c = nc_Remove i c"

fun nc_run :: "nc_op list \<Rightarrow> RSLNodeCollection \<Rightarrow> RSLNodeCollection res" where
  "nc_run [] c = Inr c"
| "nc_run (op # ops) c = bindE (nc_apply op c) (nc_run ops)"

text \<open>The same operations on a list; None is an index out of range.\<close>
fun list_run :: "nc_op list \<Rightarrow> RSLNode list \<Rightarrow> RSLNode list option" where
  "list_run [] ns = Some ns"
| "list_run (AppendNode n # ops) ns = list_run ops (ns @ [n])"
| "list_run (RemoveNode i # ops) ns =
     (if i < length ns then list_run ops (take i ns @ drop (Suc i) ns) else None)"

text \<open>
  C28: The node collection, an array grown in steps whose Remove shifts the
  tail down in place, implements a list: any sequence of Append and Remove,
  started on a well-formed collection, ends in the collection of the nodes the
  list operations give, and fails an assertion exactly when an index is out of
  range.
\<close>
theorem node_collection_is_list:
  assumes "nc_ok c"
  shows "case list_run ops (nc_abs c) of
      None \<Rightarrow> nc_run ops c = Inl AssertFailed
    | Some ns \<Rightarrow> \<exists>c'. nc_run ops c = Inr c' \<and> nc_ok c' \<and> nc_abs c' = ns"
  using assms
proof (induction ops arbitrary: c)
  case (Cons op ops)
  show ?case
  proof (cases op)
    case (AppendNode n)
    obtain c' where "nc_Append n c = Inr c'" "nc_ok c'" "nc_abs c' = nc_abs c @ [n]"
      using ncoll.append_spec [OF Cons.prems] by blast
    with Cons.IH [of c'] AppendNode show ?thesis by (simp cong: option.case_cong)
  next
    case (RemoveNode i)
    have len: "length (nc_abs c) = nc_count c" using Cons.prems by (simp add: nc_ok_def nc_abs_def)
    show ?thesis
    proof (cases "i < length (nc_abs c)")
      case True
      then obtain c' where "nc_Remove i c = Inr c'" "nc_ok c'" "nc_abs c' = take i (nc_abs c) @ drop (Suc i) (nc_abs c)"
        using ncoll.remove_spec [OF Cons.prems] by blast
      with Cons.IH [of c'] RemoveNode True show ?thesis by (simp cong: option.case_cong)
    qed (simp add: RemoveNode len nc_Remove_def)
  qed
qed simp

definition ex_rsl_node :: "u8 \<Rightarrow> RSLNode" where
  "ex_rsl_node i = \<lparr>n_memberIdString = [i], n_hostName = [], n_ip = 0, n_rslPort = 20, n_rslLearnPort = 21, n_appPort = 0\<rparr>"

theorem node_collection_is_list_witness:
  "\<exists>c'. nc_run [AppendNode (ex_rsl_node 1), AppendNode (ex_rsl_node 2), AppendNode (ex_rsl_node 3), RemoveNode 1]
     RSLNodeCollection_new = Inr c' \<and> nc_ok c' \<and> nc_abs c' = [ex_rsl_node 1, ex_rsl_node 3]"
  using node_collection_is_list [of RSLNodeCollection_new
      "[AppendNode (ex_rsl_node 1), AppendNode (ex_rsl_node 2), AppendNode (ex_rsl_node 3), RemoveNode 1]"]
    ncoll.empty_spec by simp

section \<open>Verify\<close>

text \<open>
  Verify accepts a replica set exactly when it is not empty, no two
  members share an identifier, every member has an RSL port, and, for the
  protocol versions before 4, every identifier is consumed whole by strtoui64.
\<close>
theorem verify_accepts_iff:
  "MemberSet_Verify version ms \<longleftrightarrow> ms_members ms \<noteq> [] \<and> distinct (map n_memberIdString (ms_members ms)) \<and>
     (\<forall>i < length (ms_members ms). n_rslPort (ms_members ms ! i) \<noteq> 0 \<and>
        (4 \<le> version \<or> snd (strtoui64 (n_memberIdString (ms_members ms ! i))) = []))"
  by (auto simp: MemberSet_Verify_def Verify_from_iff all_set_conv_all_nth not_less)

theorem verify_accepts_iff_witness:
  "MemberSet_Verify 3 \<lparr>ms_members = [RSLNode_empty\<lparr>n_memberIdString := [49, 50], n_rslPort := 80\<rparr>], ms_cookie = None, ms_cookieLength = 0\<rparr> \<and>
   \<not> MemberSet_Verify 3 \<lparr>ms_members = [RSLNode_empty\<lparr>n_memberIdString := [49, 65], n_rslPort := 80\<rparr>], ms_cookie = None, ms_cookieLength = 0\<rparr>"
  by (simp add: verify_accepts_iff strtoui64_def isspace_def digit_val_def RSLNode_empty_def Let_def)

end
