(* ===== verification/Spec2Isabelle.thy ===== *)
theory Spec2Isabelle
  imports Config Net_Send Event_Queue Linked_Queue Checkpoint_Codec Legis_Safety Restore_Laws Legis_Primary Learn_Laws Wire_Props Member_Props
begin

text \<open>
  A verification of RSL, the Replicated State Library: a group of replicas
  agrees, by a variant of Paxos, on a sequence of votes, each a batch of client
  requests, logs them, executes them in order and checkpoints the state of the
  application.  The sources are under src/src/RSL/src (the protocol), src/src/inc
  (the application's interface), src/src/common/src (marshalling, fingerprints and
  the disk layer) and src/src/NetworkLib (packets and connections).

  \<^bold>\<open>The program.\<close>  The class Legislator (legislator.cpp) is one replica.
  Messages arrive through the callbacks of the network library and are handled
  one at a time by the main thread (MainLoop), which also runs the timer and, at
  the primary, proposes the requests that the application has queued.  A second
  thread executes passed votes (ExecuteLoop), a third writes checkpoints, a
  fourth answers peers that have fallen behind on the learn port
  (learn_protocol.cpp).  Every promise and every accepted vote is written to the
  log (logfile.cpp) before it is acknowledged.  Messages and votes (message.cpp),
  replica sets (rsl.cpp) and log records share one wire form, written and read by
  MarshalData (marshal.cpp) and sealed by a Rabin fingerprint (msn_fprint.cpp).

  \<^bold>\<open>The model.\<close>  Machine integers are words of the width of the source,
  with its wrap-around.  Code that may stop the process returns a value of type
  res: Inl AssertFailed is a failed LogAssert, Inl OutOfBounds an access outside
  a buffer or array, Inl ShutDownCalled a Shutdown, Inl OutOfFuel a loop or
  recursion that has used up the bound it was given; Inr is the result.  Each
  operation is one function on the state of its component and is composed with
  the others as in the code.  Locks are not modelled: the operations that the
  code runs under a lock are single steps, and the steps of the threads interleave
  freely.

  \<^item> RSL_Prelude: the types, sequential composition, little-endian bytes.
  \<^item> Fingerprint (msn_fprint.cpp, fingerprint.cpp): the tables and the loops;
    the fingerprint is the remainder of the bit string modulo the polynomial, and
    chains over a concatenation.
  \<^item> Marshal, Marshal_Laws (marshal.cpp): both memory managers and all
    MarshalData operations, over a heap block with arbitrary old contents; the
    locale codec is the contract between a writer and its reader, and it is
    interpreted for every format below.
  \<^item> Member_Ballot, Messages, Member_Set (message.cpp, rsl.cpp): identifiers,
    ballots, headers, the fixed messages, nodes, collections and replica sets.
    Member_Props and Wire_Props hold their properties: round trips, well-formed
    results on arbitrary bytes, one linear order of ballots, the array of nodes
    as a list.
  \<^item> Pages, Votes, Votes_Laws, Vote_Codec (message.cpp class Vote, logfile.h):
    a vote in its page buffers.  The invariant is that requests stay readable
    while the vote grows; Vote_Codec has the round trip.
  \<^item> Log_File (logfile.cpp), Cleanup (CleanupLogsAndCheckpoint): gathered
    writes, the decree index, and what may be deleted after a checkpoint.
  \<^item> Seq_Write, Seq_Read (apdiskio.h, apdiskio.cpp): the sequential writer and
    reader over overlapped disk requests, with their rings of buffers.  The locale
    byte_sink is what a client expects of a writer (what was put in is, after a
    flush, what the file holds), byte_source what it expects of a reader; both
    are interpreted on the ring and on the block layer above it.
  \<^item> Checkpoint_Stream (rsl.cpp, rsl.h): the checkpoint stream writer and reader,
    blocks with a checksum each; what was written is read back, and a corrupt
    block is reported.
  \<^item> Streams (legislator.cpp, StreamIO.cpp): the readers of a file and of a
    socket.  The locale stream_reader is the interface StreamReader; it is
    interpreted on both.
  \<^item> Log_Read (legislator.cpp): ReadNextMessage, UnMarshalMessage and
    VerifyZeroStream over any stream_reader; a log is read as it was written, up
    to a torn end.
  \<^item> Checkpoint_Codec (checkpoint.h, legislator.cpp): the header of a checkpoint
    file.  It joins the stream writer, the header, the vote and both readers: a
    saved checkpoint loads.
  \<^item> Queues (legislator.h, legislator.cpp): the queue of new votes, the status
    map and the execute queue with its disk reads.
  \<^item> Legis_State, Legis_Ops, Legis_Checkpoint, Learn_Protocol, Legis_Handlers
    (legislator.cpp, learn_protocol.cpp): the state of a replica and all handlers,
    timers and loop bodies.  In this layer a vote is its header and contents, a
    member identifier its string, a log the sequence of messages written to it,
    and a message sent is appended to l_sent.
  \<^item> Config (rslconfig.cpp, rsl.h): the parameters of a replica, their checks and
    units; accepted parameters are in range, but for three sizes that wrap.
  \<^item> Legis_Laws, Legis_Safety: the log as a history, the invariant that it
    replays to the state, the step relation of a running replica and what holds
    in every reachable state: promises are kept and report what was accepted,
    votes are logged in order and before they are acknowledged.
  \<^item> Legis_Term: the calls around StartInitializing end.
  \<^item> Legis_Primary: election with a majority, the freshest vote is proposed,
    votes pass with a majority; and two states in which the code aborts.
  \<^item> Restore, Restore_Laws (RestoreState): a restart from a checkpoint and the log
    behind it keeps every promise and every accepted vote when the prepares in the log
    are in order; a prepare learned for an old decree is forgotten.
  \<^item> Learn_Serve, Learn_Laws (learn_protocol.cpp): SendLearnFile copies a file to the
    socket through the sequential reader, with all its error returns, and
    ServeLearnRequest answers a request; a learner gets the log from the vote it asks
    for to the end.
  \<^item> Net_Buffer (BufferPool.cpp, NetBuffer.cpp): pool buffers, whose sizes are
    powers of two, and the circular buffer of a connection.  The locale byte_queue
    is what its clients rely on: bytes come out in the order they were put in.
  \<^item> Net_Packet (NetPacket.cpp): the header, the checksum and the memory of a
    packet; a serialised packet is read back, with its checksum verified.
  \<^item> Net_Cxn (NetCxn.cpp, NetVConnection.cpp): the read side of a connection.
    However the reads split the stream, the packets sent are handed over in order,
    also those larger than the buffer; resuming can lose bytes.
  \<^item> Net_Send (NetCxn.cpp, NetVConnection.cpp, PacketUtil.cpp): the send queue, the
    write side of a connection and the timeouts of packets.  No packet is lost or
    reported twice, whatever the order of events; joined with Net_Cxn, what one end
    sends the other end receives.
  \<^item> Event_Queue (EventQueue.h, NetProcessor.cpp): the timed events of a thread, in
    buckets by the time left.  Events are cancelled and scheduled by callbacks, and tried
    again when their handler is locked; none is lost, doubled or late when the rounds of
    the thread are close enough, and all can be overlooked when they are not.
  \<^item> Linked_Queue (List.h): the intrusive lists on a store of link cells.  The locale
    object_list is what their clients rely on, a list of objects; the other theories
    write such queues as lists.
  \<^item> Legis_Sample: a concrete replica of a group of three, for the witnesses.

  \<^bold>\<open>Fuel.\<close>  StartInitializing takes the number of nested calls it may make;
  the theorem start_initializing_ends shows that two are enough, and every caller
  passes two.  Vote_parse_requests takes the number of requests it may read; the
  buffer's length is enough for every well-formed vote, and received_vote_never_parsed
  shows a buffer for which no number is enough, because the code does not return
  on it.  WaitExecuted executes
  at most as many votes as its queue holds, and the learning client reads what
  the environment says the peer sends.  The loops of the disk layer move at least
  one byte per turn, so they take the number of bytes still to move: the length
  of the data in write_loop and cw_loop, the length asked for in fill and
  cr_skip_loop; the laws of byte_sink and byte_source show that this is enough.
  The loops on sockets and of write_file do the same.  VerifyZeroStream and
  ReadNextMessage take a bound on the reads and on the requests of a vote, for which
  more than the length of the stream is enough, and read_log takes more than the
  number of records.  The loop over the packets in a buffer takes the number of bytes
  in it, of which each turn takes at least twenty.  A round of timed events takes one
  turn more than there are events, the loop of timeouts as many as there are packets
  waiting, and send_loop as many as there are bytes to send.

  \<^bold>\<open>The environment.\<close>  The clock, the parameters of RSLConfig, the answers
  of the application's state machine, the success of disk writes and of file
  deletions, and what a peer sends on the learn port are the record env; the
  properties of the legislator hold for every value of it, at every step anew.

  \<^bold>\<open>Not modelled.\<close>  Logging, TLS, the lock-free library and the
  managed wrapper are calls of the operating system or do not decide anything in the
  protocol.  Of the network library, sockets, completion ports, connecting and
  accepting, the connection table and the retries of I/O completions are left out.  FastReadRequest, statistics
  and health reports, DNS lookups and thread creation are left out.  RestoreState
  gets the headers and messages of its files as the record disk; Checkpoint_Codec
  and Log_Read show what the readers of these files deliver.  In the
  disk layer a request completes when it is waited for, in the order of issue.  The Rust port, the test
  tools and the unit tests are other programs.
\<close>

end
